(* ===== verification/Prelude.thy ===== *)
theory Prelude
  imports Main "HOL-Library.Word" "HOL-Library.Monad_Syntax"
begin

text \<open>
  Shared vocabulary of the development: the machine integer types of the Go sources, slice
  accesses with their run-time bounds check, the predicate \<open>returns\<close> used to state that a
  computation neither panics nor diverges, and the collections of rules the component
  theories add to.

  A Go function that can panic (index out of range, explicit panic) or that contains a loop
  whose termination is not obvious has a result of type \<open>'a option\<close> here: \<open>None\<close> is "panics or
  does not return".  Slices are lists; an access is \<open>aget\<close> and a store is \<open>aset\<close>, both of
  which fail outside the bounds exactly as the run-time check does.
\<close>

unbundle bit_operations_syntax

type_synonym u8 = "8 word"
type_synonym u16 = "16 word"
type_synonym u32 = "32 word"
type_synonym u64 = "64 word"

section \<open>Slices with bounds checks\<close>

definition aget :: "'a list \<Rightarrow> nat \<Rightarrow> 'a option" where
  "aget xs i = (if i < length xs then Some (xs ! i) else None)"

definition aset :: "'a list \<Rightarrow> nat \<Rightarrow> 'a \<Rightarrow> 'a list option" where
  "aset xs i v = (if i < length xs then Some (xs[i := v]) else None)"

lemma aget_Some_iff [simp]: "aget xs i = Some x \<longleftrightarrow> i < length xs \<and> x = xs ! i"
  by (auto simp: aget_def)

lemma aset_Some_iff [simp]: "aset xs i v = Some ys \<longleftrightarrow> i < length xs \<and> ys = xs[i := v]"
  by (auto simp: aset_def)

lemma aget_None_iff [simp]: "aget xs i = None \<longleftrightarrow> length xs \<le> i"
  by (auto simp: aget_def)

lemma aset_None_iff [simp]: "aset xs i v = None \<longleftrightarrow> length xs \<le> i"
  by (auto simp: aset_def)

lemma aget_in [simp]: "i < length xs \<Longrightarrow> aget xs i = Some (xs ! i)"
  by simp

lemma aset_in [simp]: "i < length xs \<Longrightarrow> aset xs i v = Some (xs[i := v])"
  by simp

definition assert_o :: "bool \<Rightarrow> unit option" where
  "assert_o b = (if b then Some () else None)"

lemma assert_o_Some [simp]: "assert_o b = Some u \<longleftrightarrow> b"
  by (simp add: assert_o_def)

lemma assert_o_None [simp]: "assert_o b = None \<longleftrightarrow> \<not> b"
  by (simp add: assert_o_def)

lemma assert_o_True [simp]: "assert_o True = Some ()"
  by (simp add: assert_o_def)

lemma assert_o_False [simp]: "assert_o False = None"
  by (simp add: assert_o_def)

section \<open>Sub-slices\<close>

definition aslice :: "'a list \<Rightarrow> nat \<Rightarrow> nat \<Rightarrow> 'a list option" where
  "aslice xs i j = (if i \<le> j \<and> j \<le> length xs then Some (take (j - i) (drop i xs)) else None)"

text \<open>\<open>copy(D[i:j], ys)\<close> writes the common prefix of the two slices.\<close>

definition acopy :: "'a list \<Rightarrow> nat \<Rightarrow> nat \<Rightarrow> 'a list \<Rightarrow> 'a list option" where
  "acopy xs i j ys =
     (if i \<le> j \<and> j \<le> length xs
      then let n = min (j - i) (length ys)
           in Some (take i xs @ take n ys @ drop (i + n) xs)
      else None)"

text \<open>\<open>make\<close> with a larger length followed by \<open>copy\<close>: how the program grows a slice.\<close>

definition grow_list :: "nat \<Rightarrow> 'a \<Rightarrow> 'a list \<Rightarrow> 'a list" where
  "grow_list n d xs = take n xs @ replicate (n - length xs) d"

lemma length_grow_list [simp]: "length (grow_list n d xs) = n"
  by (simp add: grow_list_def)

lemma nth_grow_list:
  "i < n \<Longrightarrow> grow_list n d xs ! i = (if i < length xs then xs ! i else d)"
  by (simp add: grow_list_def nth_append)

section \<open>Computations that return\<close>

definition returns :: "'a option \<Rightarrow> ('a \<Rightarrow> bool) \<Rightarrow> bool" where
  "returns m P \<longleftrightarrow> (\<exists>x. m = Some x \<and> P x)"

named_theorems returns_rules

lemma returns_Some [simp, returns_rules]: "returns (Some x) P \<longleftrightarrow> P x"
  by (simp add: returns_def)

lemma returns_None [simp]: "\<not> returns None P"
  by (simp add: returns_def)

lemma returnsI: "m = Some x \<Longrightarrow> P x \<Longrightarrow> returns m P"
  by (simp add: returns_def)

lemma returnsE:
  assumes "returns m P"
  obtains x where "m = Some x" and "P x"
  using assms by (auto simp: returns_def)

lemma returnsE2:
  assumes "returns m P"
  obtains x y where "m = Some (x, y)" and "P (x, y)"
  using assms by (auto simp: returns_def)

lemma returns_mono: "returns m P \<Longrightarrow> (\<And>x. P x \<Longrightarrow> Q x) \<Longrightarrow> returns m Q"
  by (auto simp: returns_def)

lemma returns_bind [simp]:
  "returns (m \<bind> f) P \<longleftrightarrow> returns m (\<lambda>x. returns (f x) P)"
  by (cases m) auto

lemma returns_bindI:
  assumes "returns m Q" and "\<And>x. Q x \<Longrightarrow> returns (f x) P"
  shows "returns (m \<bind> f) P"
  using assms by (auto simp: returns_def)

lemma returns_aget [simp]: "returns (aget xs i) P \<longleftrightarrow> i < length xs \<and> P (xs ! i)"
  by (auto simp: returns_def)

lemma returns_aset [simp]: "returns (aset xs i v) P \<longleftrightarrow> i < length xs \<and> P (xs[i := v])"
  by (auto simp: returns_def)

lemma returns_assert [simp]: "returns (assert_o b) P \<longleftrightarrow> b \<and> P ()"
  by (auto simp: returns_def)

lemma returns_if [simp]:
  "returns (if b then m else m') P \<longleftrightarrow> (if b then returns m P else returns m' P)"
  by simp

lemma returns_conj: "returns m P \<Longrightarrow> returns m Q \<Longrightarrow> returns m (\<lambda>x. P x \<and> Q x)"
  by (auto simp: returns_def)

lemma returns_the: "returns m P \<Longrightarrow> m = Some (the m) \<and> P (the m)"
  by (auto simp: returns_def)

text \<open>The monadic fold: the shape of a Go loop over a slice whose body may panic.\<close>

fun foldM :: "('a \<Rightarrow> 's \<Rightarrow> 's option) \<Rightarrow> 'a list \<Rightarrow> 's \<Rightarrow> 's option" where
  "foldM f [] s = Some s"
| "foldM f (x # xs) s = do { s' \<leftarrow> f x s; foldM f xs s' }"

lemma foldM_append:
  "foldM f (xs @ ys) s = foldM f xs s \<bind> foldM f ys"
  by (induction xs arbitrary: s) (auto split: Option.bind_splits)

lemma returns_foldM:
  assumes "I s" and "\<And>x s. x \<in> set xs \<Longrightarrow> I s \<Longrightarrow> returns (f x s) I"
  shows "returns (foldM f xs s) I"
  using assms
proof (induction xs arbitrary: s)
  case Nil
  then show ?case by simp
next
  case (Cons x xs)
  have "returns (f x s) I" using Cons.prems by simp
  then show ?case
    using Cons.IH Cons.prems(2) by (auto simp: returns_def split: Option.bind_splits)
qed

lemma returns_foldM_upt:
  assumes "I a s" and "a \<le> b"
    and "\<And>i s. a \<le> i \<Longrightarrow> i < b \<Longrightarrow> I i s \<Longrightarrow> returns (f i s) (I (Suc i))"
  shows "returns (foldM f [a..<b] s) (I b)"
  using assms
proof (induction "b - a" arbitrary: a s)
  case 0
  then show ?case by simp
next
  case (Suc d)
  then have lt: "a < b" by simp
  have "returns (f a s) (I (Suc a))" using Suc.prems lt by simp
  then obtain s' where s': "f a s = Some s'" "I (Suc a) s'" by (rule returnsE)
  have "returns (foldM f [Suc a..<b] s') (I b)"
    using Suc.hyps s' lt Suc.prems by (intro Suc.hyps(1)) auto
  then show ?case using lt s' by (simp add: upt_conv_Cons)
qed

section \<open>Facts about lists\<close>

lemma nth_list_update_if: "i < length xs \<Longrightarrow> xs[i := v] ! j = (if i = j then v else xs ! j)"
  by (simp add: nth_list_update)

lemma nth_append_if: "(xs @ [x]) ! i = (if i < length xs then xs ! i else [x] ! (i - length xs))"
  by (simp add: nth_append)

section \<open>Facts about machine words\<close>

lemma unat_of_nat32 [simp]: "n < 2 ^ 32 \<Longrightarrow> unat (of_nat n :: u32) = n"
  by (simp add: unat_of_nat)

lemma u32_bound [simp]: "unat (w :: u32) < 4294967296"
  using unsigned_less [of w, where ?'a = nat] by simp

lemma word_eq_iff_unat: "(a :: 'a::len word) = b \<longleftrightarrow> unat a = unat b"
  by (simp add: word_unat_eq_iff)

lemma of_nat_unat_id: "(of_nat (unat w) :: 'a::len word) = w"
  by simp

end
