(* ===== verification/Literals.thy ===== *)
theory Literals
  imports Prelude
begin

text \<open>
  Package z: literals (\<^verbatim>\<open>z/lit.go\<close>) and variables (\<^verbatim>\<open>z/var.go\<close>).  Both are \<^verbatim>\<open>uint32\<close>; a literal
  is twice its variable, plus one when it is negated.  The second half of the theory is the
  meaning of literals, clauses and streams of literals under an assignment, which the
  theorems of the other components speak about.
\<close>

type_synonym lit = u32
type_synonym var = u32

section \<open>Literals\<close>

definition LitNull :: lit where
  "LitNull = 0"

definition Dimacs2Lit :: "int \<Rightarrow> lit" where
  "Dimacs2Lit m = (if m < 0 then word_of_int (- 2 * m + 1) else word_of_int (2 * m))"

definition lit_Dimacs :: "lit \<Rightarrow> int" where
  "lit_Dimacs m =
     (if m AND 1 \<noteq> 0 then - int (unat (drop_bit 1 m)) else int (unat (drop_bit 1 m)))"

definition lit_Var :: "lit \<Rightarrow> var" where
  "lit_Var m = drop_bit 1 m"

definition lit_Not :: "lit \<Rightarrow> lit" where
  "lit_Not m = m XOR 1"

definition lit_Sign :: "lit \<Rightarrow> int" where
  "lit_Sign m = (if m AND 1 = 0 then 1 else -1)"

definition lit_IsPos :: "lit \<Rightarrow> bool" where
  "lit_IsPos m \<longleftrightarrow> m AND 1 = 0"

section \<open>Variables\<close>

definition var_Pos :: "var \<Rightarrow> lit" where
  "var_Pos v = push_bit 1 v"

definition var_Neg :: "var \<Rightarrow> lit" where
  "var_Neg v = push_bit 1 v OR 1"

section \<open>Arithmetic of the encoding\<close>

lemma and_one_cases: "(m :: u32) AND 1 = (if even (unat m) then 0 else 1)"
proof -
  have "unat (m AND 1) = unat m AND 1"
    by (simp only: unsigned_and_eq unsigned_1)
  also have "\<dots> = unat m mod 2"
    by (simp add: and_one_eq)
  finally show ?thesis
    by (auto simp: word_eq_iff_unat even_iff_mod_2_eq_zero odd_iff_mod_2_eq_one)
qed

lemma unat_lit_Var: "unat (lit_Var m) = unat m div 2"
  by (simp add: lit_Var_def drop_bit_eq_div unat_div)

lemma lit_IsPos_even: "lit_IsPos m \<longleftrightarrow> even (unat m)"
  by (simp add: lit_IsPos_def and_one_cases)

lemma unat_xor_one: "unat ((m :: u32) XOR 1) = (if even (unat m) then unat m + 1 else unat m - 1)"
proof -
  have "unat (m XOR 1) = unat m XOR unat (1 :: u32)"
    by (simp only: unsigned_xor_eq)
  also have "\<dots> = unat m XOR 1" by simp
  also have "\<dots> = (if even (unat m) then unat m + 1 else unat m - 1)"
    by (auto simp: xor_Suc_0_eq)
  finally show ?thesis .
qed

lemma unat_lit_Not: "unat (lit_Not m) = (if lit_IsPos m then unat m + 1 else unat m - 1)"
  by (simp add: lit_Not_def unat_xor_one lit_IsPos_even)

lemma lit_Var_less: "unat (lit_Var m) < 2 ^ 31"
  using u32_bound [of m] unfolding unat_lit_Var by (simp add: div_less_iff_less_mult)

lemma unat_var_Pos: "unat v < 2 ^ 31 \<Longrightarrow> unat (var_Pos v) = 2 * unat v"
  by (simp add: var_Pos_def push_bit_eq_mult unat_word_ariths)

lemma unat_var_Neg: "unat v < 2 ^ 31 \<Longrightarrow> unat (var_Neg v) = 2 * unat v + 1"
proof -
  assume v: "unat v < 2 ^ 31"
  have "var_Neg v = push_bit 1 v OR 1" by (simp add: var_Neg_def)
  also have "unat \<dots> = unat (push_bit 1 v) OR 1"
    by (simp only: unsigned_or_eq unsigned_1)
  also have "unat (push_bit 1 v) = 2 * unat v"
    using unat_var_Pos [OF v] by (simp add: var_Pos_def)
  also have "(2 * unat v) OR 1 = 2 * unat v + 1"
    by (simp add: or_Suc_0_eq)
  finally show "unat (var_Neg v) = 2 * unat v + 1" .
qed

lemma lit_unat: "unat m = 2 * unat (lit_Var m) + (if lit_IsPos m then 0 else 1)"
  by (auto simp: unat_lit_Var lit_IsPos_even elim!: evenE oddE)

lemma lit_eqI: "lit_Var m = lit_Var n \<Longrightarrow> lit_IsPos m = lit_IsPos n \<Longrightarrow> m = n"
  by (metis lit_unat word_eq_iff_unat)

lemma lit_Var_Not [simp]: "lit_Var (lit_Not m) = lit_Var m"
proof -
  have "unat (lit_Var (lit_Not m)) = unat (lit_Var m)"
    by (auto simp: unat_lit_Var unat_lit_Not lit_IsPos_even elim!: oddE)
  then show ?thesis by (simp add: word_eq_iff_unat)
qed

lemma lit_IsPos_Not [simp]: "lit_IsPos (lit_Not m) \<longleftrightarrow> \<not> lit_IsPos m"
  by (auto simp: lit_IsPos_even unat_lit_Not)

lemma lit_Not_Not [simp]: "lit_Not (lit_Not m) = m"
  by (rule lit_eqI) simp_all

lemma lit_Not_neq [simp]: "lit_Not m \<noteq> m" "m \<noteq> lit_Not m"
  by (metis lit_IsPos_Not)+

lemma lit_Not_inj [simp]: "lit_Not m = lit_Not n \<longleftrightarrow> m = n"
  by (metis lit_Not_Not)

lemma lit_Not_eq_swap: "lit_Not m = n \<longleftrightarrow> m = lit_Not n"
  by (metis lit_Not_Not)

lemma lit_Var_eqD: "lit_Var m = lit_Var n \<Longrightarrow> m = n \<or> m = lit_Not n"
  by (metis lit_eqI lit_IsPos_Not lit_Var_Not)

lemma lit_Var_Pos [simp]: "unat v < 2 ^ 31 \<Longrightarrow> lit_Var (var_Pos v) = v"
  by (simp add: word_eq_iff_unat unat_lit_Var unat_var_Pos)

lemma lit_Var_Neg [simp]: "unat v < 2 ^ 31 \<Longrightarrow> lit_Var (var_Neg v) = v"
  by (simp add: word_eq_iff_unat unat_lit_Var unat_var_Neg)

lemma lit_IsPos_Pos [simp]: "unat v < 2 ^ 31 \<Longrightarrow> lit_IsPos (var_Pos v)"
  by (simp add: lit_IsPos_even unat_var_Pos)

lemma lit_IsPos_Neg [simp]: "unat v < 2 ^ 31 \<Longrightarrow> \<not> lit_IsPos (var_Neg v)"
  by (simp add: lit_IsPos_even unat_var_Neg)

lemma lit_Not_Pos: "unat v < 2 ^ 31 \<Longrightarrow> lit_Not (var_Pos v) = var_Neg v"
  by (rule lit_eqI) simp_all

lemma lit_Not_Neg: "unat v < 2 ^ 31 \<Longrightarrow> lit_Not (var_Neg v) = var_Pos v"
  by (rule lit_eqI) simp_all

lemma var_Pos_lit_Var: "lit_IsPos m \<Longrightarrow> var_Pos (lit_Var m) = m"
  by (metis lit_eqI lit_Var_Pos lit_IsPos_Pos lit_Var_less)

lemma var_Neg_lit_Var: "\<not> lit_IsPos m \<Longrightarrow> var_Neg (lit_Var m) = m"
  by (metis lit_eqI lit_Var_Neg lit_IsPos_Neg lit_Var_less)

lemma lit_Sign_if: "lit_Sign m = (if lit_IsPos m then 1 else -1)"
  by (simp add: lit_Sign_def lit_IsPos_def)

lemma lit_Sign_Not [simp]: "lit_Sign (lit_Not m) = - lit_Sign m"
  by (simp add: lit_Sign_if)

lemma lit_Sign_nonzero [simp]: "lit_Sign m \<noteq> 0"
  by (simp add: lit_Sign_if)

lemma lit_Var_0_iff: "lit_Var m = 0 \<longleftrightarrow> m = 0 \<or> m = 1"
  by (auto simp: word_eq_iff_unat unat_lit_Var)

section \<open>Meaning under an assignment\<close>

type_synonym assignment = "var \<Rightarrow> bool"

definition lit_true :: "assignment \<Rightarrow> lit \<Rightarrow> bool" where
  "lit_true \<sigma> m \<longleftrightarrow> \<sigma> (lit_Var m) = lit_IsPos m"

definition clause_true :: "assignment \<Rightarrow> lit list \<Rightarrow> bool" where
  "clause_true \<sigma> c \<longleftrightarrow> (\<exists>m \<in> set c. lit_true \<sigma> m)"

definition cnf_true :: "assignment \<Rightarrow> lit list list \<Rightarrow> bool" where
  "cnf_true \<sigma> cs \<longleftrightarrow> (\<forall>c \<in> set cs. clause_true \<sigma> c)"

lemma lit_true_Not [simp]: "lit_true \<sigma> (lit_Not m) \<longleftrightarrow> \<not> lit_true \<sigma> m"
  by (auto simp: lit_true_def)

lemma lit_true_Pos [simp]: "unat v < 2 ^ 31 \<Longrightarrow> lit_true \<sigma> (var_Pos v) \<longleftrightarrow> \<sigma> v"
  by (simp add: lit_true_def)

lemma lit_true_Neg [simp]: "unat v < 2 ^ 31 \<Longrightarrow> lit_true \<sigma> (var_Neg v) \<longleftrightarrow> \<not> \<sigma> v"
  by (simp add: lit_true_def)

lemma clause_true_simps [simp]:
  "clause_true \<sigma> [] \<longleftrightarrow> False"
  "clause_true \<sigma> (m # c) \<longleftrightarrow> lit_true \<sigma> m \<or> clause_true \<sigma> c"
  by (auto simp: clause_true_def)

lemma clause_true_append [simp]:
  "clause_true \<sigma> (c @ d) \<longleftrightarrow> clause_true \<sigma> c \<or> clause_true \<sigma> d"
  by (auto simp: clause_true_def)

lemma cnf_true_simps [simp]:
  "cnf_true \<sigma> [] \<longleftrightarrow> True"
  "cnf_true \<sigma> (c # cs) \<longleftrightarrow> clause_true \<sigma> c \<and> cnf_true \<sigma> cs"
  "cnf_true \<sigma> (cs @ ds) \<longleftrightarrow> cnf_true \<sigma> cs \<and> cnf_true \<sigma> ds"
  by (auto simp: cnf_true_def)

lemma lit_Var_distinct_true:
  "lit_true \<sigma> m \<Longrightarrow> lit_true \<sigma> n \<Longrightarrow> lit_Var m = lit_Var n \<Longrightarrow> m = n"
  by (auto simp: lit_true_def intro: lit_eqI)

text \<open>
  Clauses travel through the program as streams of literals in which \<open>LitNull\<close> ends a
  clause (the calling convention of \<^verbatim>\<open>inter.Adder\<close>).  \<open>stream_cnf\<close> cuts a stream into the clauses
  it completes, \<open>stream_rest\<close> is the part after the last terminator.
\<close>

fun stream_go :: "lit list \<Rightarrow> lit list \<Rightarrow> lit list list \<times> lit list" where
  "stream_go acc [] = ([], acc)"
| "stream_go acc (m # ms) =
     (if m = LitNull then (let (cs, r) = stream_go [] ms in (acc # cs, r))
      else stream_go (acc @ [m]) ms)"

definition stream_cnf :: "lit list \<Rightarrow> lit list list" where
  "stream_cnf ms = fst (stream_go [] ms)"

definition stream_rest :: "lit list \<Rightarrow> lit list" where
  "stream_rest ms = snd (stream_go [] ms)"

lemma stream_go_append:
  "stream_go acc (ms @ ns) =
     (let (cs, r) = stream_go acc ms; (ds, r') = stream_go r ns in (cs @ ds, r'))"
  by (induction acc ms rule: stream_go.induct) (auto simp: Let_def split: prod.splits)

lemma stream_go_clause:
  "LitNull \<notin> set c \<Longrightarrow> stream_go acc (c @ [LitNull]) = ([acc @ c], [])"
  by (induction c arbitrary: acc) auto

lemma stream_go_clause_then:
  "LitNull \<notin> set c \<Longrightarrow>
   stream_go acc (c @ LitNull # ns) = (let (ds, r) = stream_go [] ns in ((acc @ c) # ds, r))"
  using stream_go_append [of acc "c @ [LitNull]" ns] stream_go_clause [of c acc]
  by (simp add: Let_def split: prod.splits)

definition cnf_stream :: "lit list list \<Rightarrow> lit list" where
  "cnf_stream cs = concat (map (\<lambda>c. c @ [LitNull]) cs)"

lemma cnf_stream_simps [simp]:
  "cnf_stream [] = []"
  "cnf_stream (c # cs) = c @ LitNull # cnf_stream cs"
  "cnf_stream (cs @ ds) = cnf_stream cs @ cnf_stream ds"
  by (simp_all add: cnf_stream_def)

lemma cnf_stream_concat: "cnf_stream (concat css) = concat (map cnf_stream css)"
  by (induction css) simp_all

lemma stream_cnf_cnf_stream:
  "\<forall>c \<in> set cs. LitNull \<notin> set c \<Longrightarrow> stream_go [] (cnf_stream cs) = (cs, [])"
  by (induction cs) (simp_all add: stream_go_clause_then)

end
