(* ===== verification/DynVars.thy ===== *)
theory DynVars
  imports Literals
begin

text \<open>
  \<^verbatim>\<open>z/dv.go\<close>: the type \<^verbatim>\<open>Vars\<close> maps variables of a user ("outer") to variables of an application
  ("inner") and hands out inner variables of its own, which can be freed and reused.  The
  record has the struct's fields; \<open>iMax\<close> and \<open>oMax\<close> are carried although no operation uses them.
\<close>

record Vars =
  i2o :: "var list"
  o2i :: "var list"
  free :: "var list"
  iMax :: var
  oMax :: var

definition NewVars :: Vars where
  "NewVars = \<lparr>i2o = [], o2i = [], free = [], iMax = 0, oMax = 0\<rparr>"

definition Vars_Copy :: "Vars \<Rightarrow> Vars" where
  "Vars_Copy v = \<lparr>i2o = i2o v, o2i = o2i v, free = free v, iMax = iMax v, oMax = oMax v\<rparr>"

text \<open>The two growth loops run from the current length up to and including \<open>w\<close>.\<close>

fun ensureInner_loop :: "nat \<Rightarrow> Vars \<Rightarrow> Vars" where
  "ensureInner_loop 0 v = v"
| "ensureInner_loop (Suc n) v = ensureInner_loop n (v\<lparr>i2o := i2o v @ [0]\<rparr>)"

definition ensureInnerCap :: "Vars \<Rightarrow> var \<Rightarrow> Vars" where
  "ensureInnerCap v w = ensureInner_loop (Suc (unat w) - length (i2o v)) v"

fun ensureOuter_loop :: "nat \<Rightarrow> Vars \<Rightarrow> Vars" where
  "ensureOuter_loop 0 v = v"
| "ensureOuter_loop (Suc n) v =
     ensureOuter_loop n
       (v\<lparr>o2i := o2i v @ [of_nat (length (i2o v))], i2o := i2o v @ [of_nat (length (o2i v))]\<rparr>)"

definition ensureOuterCap :: "Vars \<Rightarrow> var \<Rightarrow> Vars" where
  "ensureOuterCap v w = ensureOuter_loop (Suc (unat w) - length (o2i v)) v"

definition ToInner :: "Vars \<Rightarrow> lit \<Rightarrow> (Vars \<times> lit) option" where
  "ToInner v m = do {
     let u = lit_Var m;
     let v = ensureOuterCap v u;
     w \<leftarrow> aget (o2i v) (unat u);
     Some (v, if lit_IsPos m then var_Pos w else var_Neg w)
   }"

fun ToInners :: "Vars \<Rightarrow> lit list \<Rightarrow> (Vars \<times> lit list) option" where
  "ToInners v [] = Some (v, [])"
| "ToInners v (m # ms) = do {
     (v, n) \<leftarrow> ToInner v m;
     (v, ns) \<leftarrow> ToInners v ms;
     Some (v, n # ns)
   }"

definition ToOuter :: "Vars \<Rightarrow> lit \<Rightarrow> (Vars \<times> lit) option" where
  "ToOuter v m = do {
     let u = lit_Var m;
     let v = ensureInnerCap v u;
     w \<leftarrow> aget (i2o v) (unat u);
     Some (v, if w = 0 then LitNull else if lit_IsPos m then var_Pos w else var_Neg w)
   }"

fun ToOuters :: "Vars \<Rightarrow> lit list \<Rightarrow> (Vars \<times> lit list) option" where
  "ToOuters v [] = Some (v, [])"
| "ToOuters v (m # ms) = do {
     (v, n) \<leftarrow> ToOuter v m;
     (v, ns) \<leftarrow> ToOuters v ms;
     Some (v, if n \<noteq> LitNull then n # ns else ns)
   }"

definition Inner :: "Vars \<Rightarrow> Vars \<times> lit" where
  "Inner v =
     (if free v \<noteq> []
      then (v\<lparr>free := butlast (free v)\<rparr>, var_Pos (last (free v)))
      else (let w = of_nat (length (i2o v)) in (ensureInnerCap v w, var_Pos w)))"

definition Free :: "Vars \<Rightarrow> lit \<Rightarrow> Vars" where
  "Free v m = v\<lparr>free := free v @ [lit_Var m]\<rparr>"

section \<open>The two maps are inverse to each other\<close>

text \<open>
  Index 0 of the outer side is the null variable: its slot exists, and a zero in \<open>i2o\<close> means
  "no outer variable".
\<close>

definition dv_inv :: "Vars \<Rightarrow> bool" where
  "dv_inv v \<longleftrightarrow>
     length (o2i v) \<le> length (i2o v) \<and> length (i2o v) \<le> 2 ^ 31 \<and>
     (i2o v \<noteq> [] \<longrightarrow> i2o v ! 0 = 0) \<and>
     (\<forall>n < length (o2i v). unat (o2i v ! n) < length (i2o v) \<and>
        unat (i2o v ! unat (o2i v ! n)) = n) \<and>
     (\<forall>i < length (i2o v). i2o v ! i \<noteq> 0 \<longrightarrow>
        unat (i2o v ! i) < length (o2i v) \<and> unat (o2i v ! unat (i2o v ! i)) = i) \<and>
     distinct (free v) \<and>
     (\<forall>w \<in> set (free v). unat w < length (i2o v) \<and> w \<notin> set (o2i v))"

lemma dv_inv_NewVars [simp]: "dv_inv NewVars"
  by (simp add: dv_inv_def NewVars_def)

lemma dv_inv_Copy [simp]: "Vars_Copy v = v"
  by (simp add: Vars_Copy_def)

lemma ensureInner_loop_i2o [simp]:
  "i2o (ensureInner_loop n v) = i2o v @ replicate n 0"
  "o2i (ensureInner_loop n v) = o2i v"
  "free (ensureInner_loop n v) = free v"
  by (induction n v rule: ensureInner_loop.induct) (simp_all add: replicate_app_Cons_same)

lemma dv_inv_append_zero:
  assumes "dv_inv v" and "length (i2o v) < 2 ^ 31"
  shows "dv_inv (v\<lparr>i2o := i2o v @ [0]\<rparr>)"
  using assms unfolding dv_inv_def
  by (auto simp: nth_append less_Suc_eq)

lemma dv_inv_ensureInner_loop:
  "dv_inv v \<Longrightarrow> length (i2o v) + n \<le> 2 ^ 31 \<Longrightarrow> dv_inv (ensureInner_loop n v)"
proof (induction n v rule: ensureInner_loop.induct)
  case (2 n v)
  then have "dv_inv (v\<lparr>i2o := i2o v @ [0]\<rparr>)"
    by (intro dv_inv_append_zero) simp_all
  with 2 show ?case by simp
qed simp

lemma dv_inv_ensureInnerCap:
  assumes "dv_inv v" and "unat w < 2 ^ 31"
  shows "dv_inv (ensureInnerCap v w)"
  using assms unfolding ensureInnerCap_def
  by (intro dv_inv_ensureInner_loop) (auto simp: dv_inv_def)

lemma dv_inv_append_pair:
  assumes v: "dv_inv v" and room: "length (i2o v) < 2 ^ 31"
  shows "dv_inv (v\<lparr>o2i := o2i v @ [of_nat (length (i2o v))], i2o := i2o v @ [of_nat (length (o2i v))]\<rparr>)"
proof -
  have le: "length (o2i v) \<le> length (i2o v)" using v by (simp add: dv_inv_def)
  have li [simp]: "unat (of_nat (length (i2o v)) :: u32) = length (i2o v)"
    and lo [simp]: "unat (of_nat (length (o2i v)) :: u32) = length (o2i v)"
    using room le by simp_all
  have fresh: "of_nat (length (i2o v)) \<notin> set (free v)"
    using v li by (force simp: dv_inv_def)
  have nz: "of_nat (length (o2i v)) \<noteq> (0 :: u32) \<or> length (o2i v) = 0"
    by (metis lo unat_0)
  show ?thesis
    using v room le fresh nz unfolding dv_inv_def
    by (auto simp: nth_append less_Suc_eq)
qed

lemma dv_inv_ensureOuter_loop:
  "dv_inv v \<Longrightarrow> length (i2o v) + n \<le> 2 ^ 31 \<Longrightarrow> dv_inv (ensureOuter_loop n v)"
proof (induction n v rule: ensureOuter_loop.induct)
  case (2 n v)
  then have "dv_inv (v\<lparr>o2i := o2i v @ [of_nat (length (i2o v))],
      i2o := i2o v @ [of_nat (length (o2i v))]\<rparr>)"
    by (intro dv_inv_append_pair) simp_all
  with 2 show ?case by simp
qed simp

lemma length_ensureOuter_loop [simp]:
  "length (o2i (ensureOuter_loop n v)) = length (o2i v) + n"
  "length (i2o (ensureOuter_loop n v)) = length (i2o v) + n"
  by (induction n v rule: ensureOuter_loop.induct) simp_all

text \<open>Room for a user variable: what \<open>ToInner\<close> may have to add to \<open>i2o\<close>.\<close>

definition dv_room :: "Vars \<Rightarrow> lit \<Rightarrow> bool" where
  "dv_room v m \<longleftrightarrow> length (i2o v) + (Suc (unat (lit_Var m)) - length (o2i v)) \<le> 2 ^ 31"

lemma dv_inv_ensureOuterCap:
  "dv_inv v \<Longrightarrow> dv_room v m \<Longrightarrow> dv_inv (ensureOuterCap v (lit_Var m))"
  by (simp add: ensureOuterCap_def dv_room_def dv_inv_ensureOuter_loop)

lemma length_ensureOuterCap:
  "unat w < length (o2i (ensureOuterCap v w))"
  by (simp add: ensureOuterCap_def)

lemma length_ensureInnerCap:
  "unat w < length (i2o (ensureInnerCap v w))"
  by (simp add: ensureInnerCap_def)

lemma ensureInnerCap_id: "unat w < length (i2o v) \<Longrightarrow> ensureInnerCap v w = v"
  by (simp add: ensureInnerCap_def)

lemma ToInner_spec:
  assumes v: "dv_inv v" and room: "dv_room v m"
  shows "returns (ToInner v m) (\<lambda>(v', n). dv_inv v' \<and> v' = ensureOuterCap v (lit_Var m) \<and>
           unat (lit_Var n) < length (i2o v') \<and> lit_IsPos n = lit_IsPos m \<and>
           lit_Var n = o2i v' ! unat (lit_Var m) \<and>
           unat (i2o v' ! unat (lit_Var n)) = unat (lit_Var m))"
proof -
  define v' where "v' = ensureOuterCap v (lit_Var m)"
  have inv: "dv_inv v'" unfolding v'_def by (rule dv_inv_ensureOuterCap [OF v room])
  have len: "unat (lit_Var m) < length (o2i v')" unfolding v'_def by (rule length_ensureOuterCap)
  define w where "w = o2i v' ! unat (lit_Var m)"
  have w: "unat w < length (i2o v')" and bk: "unat (i2o v' ! unat w) = unat (lit_Var m)"
    using inv len by (auto simp: dv_inv_def w_def)
  have w31: "unat w < 2 ^ 31" using w inv by (auto simp: dv_inv_def)
  show ?thesis
    using inv len w bk w31
    by (auto simp: ToInner_def v'_def [symmetric] w_def [symmetric] Let_def)
qed

lemma ToInner_nonzero:
  assumes v: "dv_inv v" and room: "dv_room v m" and m: "lit_Var m \<noteq> 0"
    and r: "ToInner v m = Some (v', n)"
  shows "lit_Var n \<noteq> 0"
proof
  assume n: "lit_Var n = 0"
  have inv: "dv_inv v'" and at0: "unat (i2o v' ! 0) = unat (lit_Var m)"
    and "unat (lit_Var n) < length (i2o v')"
    using ToInner_spec [OF v room] r n by auto
  then have "i2o v' ! 0 = 0" by (auto simp: dv_inv_def)
  with at0 m show False by (simp add: word_eq_iff_unat)
qed

lemma ToOuter_of_mapped:
  assumes n: "unat (lit_Var n) < length (i2o v)" and nz: "i2o v ! unat (lit_Var n) \<noteq> 0"
  shows "ToOuter v n = Some (v, if lit_IsPos n then var_Pos (i2o v ! unat (lit_Var n))
                                else var_Neg (i2o v ! unat (lit_Var n)))"
  using assms by (simp add: ToOuter_def ensureInnerCap_id Let_def)

text \<open>(C18) Mapping a user literal in and back out returns the literal: for every user variable but
  the null one, \<open>ToOuter\<close> undoes \<open>ToInner\<close>, neither panics, the invariant of the two maps is
  kept, and a second \<open>ToInner\<close> of the literal gives the same inner literal.\<close>

theorem ToInner_ToOuter:
  assumes "dv_inv v" and "dv_room v m" and "lit_Var m \<noteq> 0"
  shows "returns (ToInner v m) (\<lambda>(v', n). dv_inv v' \<and> lit_Var n \<noteq> 0 \<and>
           ToOuter v' n = Some (v', m) \<and> ToInner v' m = Some (v', n))"
proof -
  obtain v' n where r: "ToInner v m = Some (v', n)" and inv: "dv_inv v'"
    and v': "v' = ensureOuterCap v (lit_Var m)"
    and n: "unat (lit_Var n) < length (i2o v')" "lit_IsPos n = lit_IsPos m"
    and n_at: "lit_Var n = o2i v' ! unat (lit_Var m)"
    and bk: "i2o v' ! unat (lit_Var n) = lit_Var m"
    using ToInner_spec [OF assms(1,2)] by (auto elim!: returnsE simp: word_eq_iff_unat)
  have out: "ToOuter v' n = Some (v', m)"
    using n bk assms(3) by (simp add: ToOuter_of_mapped var_Pos_lit_Var var_Neg_lit_Var)
  have len: "unat (lit_Var m) < length (o2i v')" unfolding v' by (rule length_ensureOuterCap)
  then have "ensureOuterCap v' (lit_Var m) = v'" by (simp add: ensureOuterCap_def)
  then have again: "ToInner v' m = Some (v', n)"
    using len n(2) n_at by (simp add: ToInner_def Let_def var_Pos_lit_Var var_Neg_lit_Var flip: n_at)
  show ?thesis
    using r inv out again ToInner_nonzero [OF assms r] by simp
qed

theorem ToInner_ToOuter_witness:
  "returns (ToInner NewVars 11) (\<lambda>(v', n). dv_inv v' \<and> lit_Var n \<noteq> 0 \<and>
     ToOuter v' n = Some (v', 11) \<and> ToInner v' 11 = Some (v', n))"
  by (rule ToInner_ToOuter) (simp_all add: dv_room_def unat_lit_Var lit_Var_0_iff, simp add: NewVars_def)

text \<open>An inner variable handed out by \<open>Inner\<close> is fresh: no user variable maps to it, it maps to
  no user variable, and it is not on the free list any more; the result is a positive literal.
  This holds once the tables are not empty.\<close>

theorem Inner_fresh:
  assumes v: "dv_inv v" and ne: "i2o v \<noteq> []" "o2i v \<noteq> []" and room: "length (i2o v) < 2 ^ 31"
    and r: "Inner v = (v', n)"
  shows "dv_inv v' \<and> lit_IsPos n \<and> lit_Var n \<notin> set (o2i v') \<and> lit_Var n \<notin> set (free v') \<and>
         ToOuter v' n = Some (v', LitNull)"
proof (cases "free v = []")
  case True
  define w :: var where "w = of_nat (length (i2o v))"
  have w: "unat w = length (i2o v)" using room by (simp add: w_def)
  have v': "v' = v\<lparr>i2o := i2o v @ [0]\<rparr>" and n: "n = var_Pos w"
    using r True by (simp_all add: Inner_def Let_def w_def [symmetric] ensureInnerCap_def w)
  have "w \<notin> set (o2i v)"
    using v w by (force simp: dv_inv_def in_set_conv_nth)
  moreover have "dv_inv v'" unfolding v' by (rule dv_inv_append_zero [OF v room])
  ultimately show ?thesis
    using w room True unfolding n v'
    by (simp add: ToOuter_def Let_def ensureInnerCap_def)
next
  case False
  define w where "w = last (free v)"
  have v': "v' = v\<lparr>free := butlast (free v)\<rparr>" and n: "n = var_Pos w"
    using r False by (simp_all add: Inner_def w_def)
  have wf: "w \<in> set (free v)" using False by (simp add: w_def)
  have w: "unat w < length (i2o v)" and out: "w \<notin> set (o2i v)"
    using v wf by (auto simp: dv_inv_def)
  have zero: "i2o v ! unat w = 0"
  proof (rule ccontr)
    assume "i2o v ! unat w \<noteq> 0"
    with v w have "unat (i2o v ! unat w) < length (o2i v)"
      and "unat (o2i v ! unat (i2o v ! unat w)) = unat w"
      by (auto simp: dv_inv_def)
    then have "w \<in> set (o2i v)" by (metis nth_mem word_eq_iff_unat)
    with out show False by simp
  qed
  have w31: "unat w < 2 ^ 31" using w room by simp
  have "distinct (butlast (free v) @ [w])"
    using v False by (simp add: dv_inv_def w_def)
  then have "w \<notin> set (butlast (free v))" by simp
  moreover have "dv_inv v'"
    using v unfolding v' dv_inv_def by (auto simp: distinct_butlast dest: in_set_butlastD)
  ultimately show ?thesis
    using w w31 zero out unfolding n v'
    by (simp add: ToOuter_def Let_def ensureInnerCap_def)
qed

theorem Inner_fresh_witness:
  "\<exists>v n. dv_inv v \<and> lit_IsPos n \<and> lit_Var n \<notin> set (o2i v) \<and> lit_Var n \<notin> set (free v) \<and>
     ToOuter v n = Some (v, LitNull)"
proof -
  define v where "v = ensureOuterCap NewVars 1"
  have v: "v = \<lparr>i2o = [0, 1], o2i = [0, 1], free = [], iMax = 0, oMax = 0\<rparr>"
    by (simp add: v_def ensureOuterCap_def NewVars_def numeral_2_eq_2)
  obtain v' n where r: "Inner v = (v', n)" by fastforce
  have "dv_inv v" unfolding v_def ensureOuterCap_def
    by (rule dv_inv_ensureOuter_loop [OF dv_inv_NewVars]) (simp add: NewVars_def)
  then show ?thesis
    using Inner_fresh [of v v' n] r by (auto simp: v)
qed

text \<open>The first inner variable of a new object is the null variable: \<open>Inner\<close> on a fresh \<open>Vars\<close>
  returns \<open>LitNull\<close>, the literal that terminates clauses, and not a new application literal.\<close>

theorem Inner_of_NewVars_is_null: "snd (Inner NewVars) = LitNull"
  by (simp add: Inner_def NewVars_def Let_def var_Pos_def LitNull_def)

end
