(* ===== verification/Circuit.thy ===== *)
theory Circuit
  imports Literals
begin

text \<open>
  Package logic, \<^verbatim>\<open>logic/c.go\<close>: combinational circuits as and-inverter graphs with structural
  hashing.  A circuit is a slice of nodes (with its capacity, which decides when \<^verbatim>\<open>newNode\<close> grows
  it and which modulus the hash table uses), the hash table \<open>strash\<close> whose buckets are linked
  through the nodes, and the two constant literals.  The operations are defined on the
  extensible record, because sequential circuits (\<^verbatim>\<open>logic/s.go\<close>) embed this struct.
\<close>

record node =
  na :: lit
  nb :: lit
  nn :: u32

record circ =
  nodes :: "node list"
  ncap :: nat
  strash :: "u32 list"
  cF :: lit
  cT :: lit

definition zero_node :: node where
  "zero_node = \<lparr>na = 0, nb = 0, nn = 0\<rparr>"

definition initC :: "nat \<Rightarrow> circ" where
  "initC capHint =
     (let capHint = (if capHint < 2 then 2 else capHint) in
      \<lparr>nodes = replicate 2 zero_node, ncap = capHint, strash = replicate capHint 0,
       cF = var_Neg 1, cT = lit_Not (var_Neg 1)\<rparr>)"

definition NewC :: circ where
  "NewC = initC 128"

definition NewCCap :: "nat \<Rightarrow> circ" where
  "NewCCap capHint = initC capHint"

text \<open>The copy's node slice has no spare capacity: \<^verbatim>\<open>make([]node, len(c.nodes))\<close>.\<close>

definition C_Copy :: "circ \<Rightarrow> circ" where
  "C_Copy c = \<lparr>nodes = nodes c, ncap = length (nodes c), strash = strash c, cF = cF c, cT = cT c\<rparr>"

definition strashCode :: "lit \<Rightarrow> lit \<Rightarrow> u32" where
  "strashCode a b = 16777619 * NOT b * 16777619 * NOT a"

definition grow_step ::
  "lit \<Rightarrow> lit \<Rightarrow> u32 \<Rightarrow> nat \<Rightarrow> node list \<times> u32 list \<Rightarrow> (node list \<times> u32 list) option" where
  "grow_step F T ucap i = (\<lambda>(ns, st). do {
     n \<leftarrow> aget ns i;
     if na n = 0 \<or> na n = F \<or> na n = T then Some (ns, st)
     else do {
       assert_o (ucap \<noteq> 0);
       let j = unat (strashCode (na n) (nb n) mod ucap);
       h \<leftarrow> aget st j;
       ns \<leftarrow> aset ns i (n\<lparr>nn := h\<rparr>);
       st \<leftarrow> aset st j (of_nat i);
       Some (ns, st)
     }
   })"

definition C_grow :: "'z circ_scheme \<Rightarrow> 'z circ_scheme option" where
  "C_grow p = do {
     let newCap = ncap p * 2;
     let ns = nodes p @ replicate (ncap p - length (nodes p)) zero_node;
     (ns, st) \<leftarrow> foldM (grow_step (cF p) (cT p) (of_nat newCap)) [0..<length ns] (ns, replicate newCap 0);
     Some (p\<lparr>nodes := ns, ncap := newCap, strash := st\<rparr>)
   }"

definition C_newNode :: "'z circ_scheme \<Rightarrow> ('z circ_scheme \<times> u32) option" where
  "C_newNode c = do {
     c \<leftarrow> (if length (nodes c) = ncap c then C_grow c else Some c);
     let id = length (nodes c);
     assert_o (id + 1 \<le> ncap c);
     Some (c\<lparr>nodes := nodes c @ [zero_node]\<rparr>, of_nat id)
   }"

definition C_Lit :: "'z circ_scheme \<Rightarrow> ('z circ_scheme \<times> lit) option" where
  "C_Lit c = do {
     let m = length (nodes c);
     (c, _) \<leftarrow> C_newNode c;
     Some (c, var_Pos (of_nat m))
   }"

text \<open>The walk along a bucket; \<open>Some None\<close> is the end of the chain.\<close>

partial_function (option) strash_find :: "node list \<Rightarrow> lit \<Rightarrow> lit \<Rightarrow> u32 \<Rightarrow> u32 option option" where
  "strash_find ns a b si = do {
     n \<leftarrow> aget ns (unat si);
     if na n = a \<and> nb n = b then Some (Some si)
     else if nn n = 0 then Some None
     else strash_find ns a b (nn n)
   }"

declare strash_find.simps [code]

definition And_node :: "'z circ_scheme \<Rightarrow> lit \<Rightarrow> lit \<Rightarrow> ('z circ_scheme \<times> lit) option" where
  "And_node p a b = do {
     let c = strashCode a b;
     let l = (of_nat (ncap p) :: u32);
     assert_o (l \<noteq> 0);
     si \<leftarrow> aget (strash p) (unat (c mod l));
     r \<leftarrow> strash_find (nodes p) a b si;
     (case r of
        Some si \<Rightarrow> Some (p, var_Pos si)
      | None \<Rightarrow> do {
          (p, j) \<leftarrow> C_newNode p;
          let k = unat (c mod of_nat (ncap p));
          h \<leftarrow> aget (strash p) k;
          ns \<leftarrow> aset (nodes p) (unat j) \<lparr>na = a, nb = b, nn = h\<rparr>;
          st \<leftarrow> aset (strash p) k j;
          Some (p\<lparr>nodes := ns, strash := st\<rparr>, var_Pos j)
        })
   }"

definition C_And :: "'z circ_scheme \<Rightarrow> lit \<Rightarrow> lit \<Rightarrow> ('z circ_scheme \<times> lit) option" where
  "C_And p a b =
     (if a = b then Some (p, a)
      else if a = lit_Not b then Some (p, cF p)
      else
        let (a, b) = (if b < a then (b, a) else (a, b)) in
        if a = cF p then Some (p, cF p)
        else if a = cT p then Some (p, b)
        else And_node p a b)"

fun Ands_loop :: "'z circ_scheme \<Rightarrow> lit \<Rightarrow> lit list \<Rightarrow> ('z circ_scheme \<times> lit) option" where
  "Ands_loop c a [] = Some (c, a)"
| "Ands_loop c a (m # ms) = do { (c, a) \<leftarrow> C_And c a m; Ands_loop c a ms }"

definition C_Ands :: "'z circ_scheme \<Rightarrow> lit list \<Rightarrow> ('z circ_scheme \<times> lit) option" where
  "C_Ands c ms = Ands_loop c (cT c) ms"

definition C_Or :: "'z circ_scheme \<Rightarrow> lit \<Rightarrow> lit \<Rightarrow> ('z circ_scheme \<times> lit) option" where
  "C_Or c a b = do { (c, nor) \<leftarrow> C_And c (lit_Not a) (lit_Not b); Some (c, lit_Not nor) }"

fun Ors_loop :: "'z circ_scheme \<Rightarrow> lit \<Rightarrow> lit list \<Rightarrow> ('z circ_scheme \<times> lit) option" where
  "Ors_loop c d [] = Some (c, d)"
| "Ors_loop c d (m # ms) = do { (c, d) \<leftarrow> C_Or c d m; Ors_loop c d ms }"

definition C_Ors :: "'z circ_scheme \<Rightarrow> lit list \<Rightarrow> ('z circ_scheme \<times> lit) option" where
  "C_Ors c ms = Ors_loop c (cF c) ms"

definition C_Implies :: "'z circ_scheme \<Rightarrow> lit \<Rightarrow> lit \<Rightarrow> ('z circ_scheme \<times> lit) option" where
  "C_Implies c a b = C_Or c (lit_Not a) b"

definition C_Xor :: "'z circ_scheme \<Rightarrow> lit \<Rightarrow> lit \<Rightarrow> ('z circ_scheme \<times> lit) option" where
  "C_Xor c a b = do {
     (c, x) \<leftarrow> C_And c a (lit_Not b);
     (c, y) \<leftarrow> C_And c (lit_Not a) b;
     C_Or c x y
   }"

definition C_Choice :: "'z circ_scheme \<Rightarrow> lit \<Rightarrow> lit \<Rightarrow> lit \<Rightarrow> ('z circ_scheme \<times> lit) option" where
  "C_Choice c i t e = do {
     (c, x) \<leftarrow> C_And c i t;
     (c, y) \<leftarrow> C_And c (lit_Not i) e;
     C_Or c x y
   }"

definition C_Len :: "'z circ_scheme \<Rightarrow> nat" where
  "C_Len c = length (nodes c)"

definition C_At :: "'z circ_scheme \<Rightarrow> nat \<Rightarrow> lit" where
  "C_At c i = var_Pos (of_nat i)"

definition C_Ins :: "'z circ_scheme \<Rightarrow> lit \<Rightarrow> (lit \<times> lit) option" where
  "C_Ins c m = do { n \<leftarrow> aget (nodes c) (unat (lit_Var m)); Some (na n, nb n) }"

definition C_InPos :: "'z circ_scheme \<Rightarrow> nat list" where
  "C_InPos c = [i \<leftarrow> [0..<length (nodes c)].
     i \<noteq> 0 \<and> na (nodes c ! i) = LitNull \<and> nb (nodes c ! i) = LitNull]"

section \<open>Well-formed circuits\<close>

definition is_and :: "node \<Rightarrow> bool" where
  "is_and n \<longleftrightarrow> 4 \<le> na n"

definition node_ok :: "nat \<Rightarrow> node \<Rightarrow> bool" where
  "node_ok i n \<longleftrightarrow>
     (if is_and n
      then na n < nb n \<and> unat (lit_Var (na n)) < i \<and> unat (lit_Var (nb n)) < i \<and>
           lit_Var (na n) \<noteq> lit_Var (nb n) \<and> (nn n = 0 \<or> unat (nn n) < i)
      else na n \<in> {0, 2, 3} \<and> nn n = 0)"

definition circ_wf :: "'z circ_scheme \<Rightarrow> bool" where
  "circ_wf c \<longleftrightarrow>
     cF c = 3 \<and> cT c = 2 \<and> 2 \<le> length (nodes c) \<and> length (nodes c) \<le> ncap c \<and>
     ncap c \<le> 2 ^ 31 \<and> ncap c \<le> length (strash c) \<and>
     (\<forall>i < length (nodes c). node_ok i (nodes c ! i)) \<and>
     \<not> is_and (nodes c ! 0) \<and> \<not> is_and (nodes c ! 1) \<and>
     (\<forall>h \<in> set (strash c). unat h < length (nodes c))"

text \<open>Room for \<open>k\<close> more nodes below the documented limit of \<open>2^30\<close> variables.\<close>

definition circ_room :: "nat \<Rightarrow> 'z circ_scheme \<Rightarrow> bool" where
  "circ_room k c \<longleftrightarrow> length (nodes c) + k \<le> 2 ^ 30"

definition lit_in :: "'z circ_scheme \<Rightarrow> lit \<Rightarrow> bool" where
  "lit_in c m \<longleftrightarrow> 0 < unat (lit_Var m) \<and> unat (lit_Var m) < length (nodes c)"

text \<open>
  The value of node \<open>i\<close> when \<open>\<rho>\<close> gives the values of everything that is not an and gate:
  inputs, and latches of an embedding sequential circuit.
\<close>

function node_val :: "node list \<Rightarrow> (nat \<Rightarrow> bool) \<Rightarrow> nat \<Rightarrow> bool" where
  "node_val ns \<rho> i =
     (if i = 1 then True
      else if i < length ns \<and> is_and (ns ! i) \<and>
              unat (lit_Var (na (ns ! i))) < i \<and> unat (lit_Var (nb (ns ! i))) < i
      then node_val ns \<rho> (unat (lit_Var (na (ns ! i)))) = lit_IsPos (na (ns ! i)) \<and>
           node_val ns \<rho> (unat (lit_Var (nb (ns ! i)))) = lit_IsPos (nb (ns ! i))
      else \<rho> i)"
  by pat_completeness auto
termination
  by (relation "measure (\<lambda>(ns, \<rho>, i). i)") auto

declare node_val.simps [simp del]

definition lit_val :: "node list \<Rightarrow> (nat \<Rightarrow> bool) \<Rightarrow> lit \<Rightarrow> bool" where
  "lit_val ns \<rho> m \<longleftrightarrow> node_val ns \<rho> (unat (lit_Var m)) = lit_IsPos m"

text \<open>\<open>circ_ext c c'\<close>: the nodes of \<open>c\<close> are still there, with the same operands.\<close>

definition circ_ext :: "'z circ_scheme \<Rightarrow> 'y circ_scheme \<Rightarrow> bool" where
  "circ_ext c c' \<longleftrightarrow> length (nodes c) \<le> length (nodes c') \<and>
     (\<forall>i < length (nodes c). na (nodes c' ! i) = na (nodes c ! i) \<and> nb (nodes c' ! i) = nb (nodes c ! i))"


lemma circ_ext_refl [simp]: "circ_ext c c"
  by (simp add: circ_ext_def)

lemma circ_ext_trans: "circ_ext c d \<Longrightarrow> circ_ext d e \<Longrightarrow> circ_ext c e"
  by (auto simp: circ_ext_def)

lemma node_val_1 [simp]: "node_val ns \<rho> 1 = True" "node_val ns \<rho> (Suc 0) = True"
  by (simp_all add: node_val.simps)

lemma node_val_cong:
  assumes "\<forall>i < n. na (ns' ! i) = na (ns ! i) \<and> nb (ns' ! i) = nb (ns ! i)"
    and "n \<le> length ns" and "n \<le> length ns'" and "i < n"
  shows "node_val ns' \<rho> i = node_val ns \<rho> i"
  using assms(4)
proof (induction i rule: less_induct)
  case (less i)
  have same: "na (ns' ! i) = na (ns ! i)" "nb (ns' ! i) = nb (ns ! i)"
    using assms(1) less.prems by auto
  have rec: "node_val ns' \<rho> j = node_val ns \<rho> j" if "j < i" for j
    using less.IH that less.prems by simp
  show ?case
    using same assms(2,3) less.prems
    by (subst (1 2) node_val.simps) (auto simp: is_and_def rec)
qed

lemma node_val_ext:
  "circ_ext c c' \<Longrightarrow> i < length (nodes c) \<Longrightarrow> node_val (nodes c') \<rho> i = node_val (nodes c) \<rho> i"
  by (rule node_val_cong [where n = "length (nodes c)"]) (auto simp: circ_ext_def)

lemma lit_val_ext:
  "circ_ext c c' \<Longrightarrow> lit_in c m \<Longrightarrow> lit_val (nodes c') \<rho> m = lit_val (nodes c) \<rho> m"
  by (simp add: lit_val_def node_val_ext lit_in_def)

lemma lit_in_ext: "circ_ext c c' \<Longrightarrow> lit_in c m \<Longrightarrow> lit_in c' m"
  by (auto simp: circ_ext_def lit_in_def)

lemma lit_in_Not [simp]: "lit_in c (lit_Not m) \<longleftrightarrow> lit_in c m"
  by (simp add: lit_in_def)

lemma lit_val_Not [simp]: "lit_val ns \<rho> (lit_Not m) \<longleftrightarrow> \<not> lit_val ns \<rho> m"
  by (auto simp: lit_val_def)

lemma unat_numeral_u32 [simp]: "unat (2 :: u32) = 2" "unat (3 :: u32) = 3" "unat (4 :: u32) = 4"
  by simp_all

lemma lit_Var_const [simp]: "lit_Var 2 = 1" "lit_Var 3 = 1"
  by (simp_all add: word_eq_iff_unat unat_lit_Var)

lemma lit_IsPos_const [simp]: "lit_IsPos 2" "\<not> lit_IsPos 3"
  by (simp_all add: lit_IsPos_even)

lemma lit_val_const [simp]: "lit_val ns \<rho> 2" "\<not> lit_val ns \<rho> 3"
  by (simp_all add: lit_val_def)

lemma lit_in_const [simp]: "circ_wf c \<Longrightarrow> lit_in c 2" "circ_wf c \<Longrightarrow> lit_in c 3"
  by (auto simp: lit_in_def circ_wf_def)

lemma lit_in_ge_2: "lit_in c m \<Longrightarrow> 2 \<le> unat m"
  using lit_unat [of m] by (auto simp: lit_in_def)

lemma is_and_iff: "is_and n \<longleftrightarrow> 4 \<le> unat (na n)"
  by (simp add: is_and_def word_le_nat_alt)

lemma node_ok_not_andD: "node_ok i n \<Longrightarrow> \<not> is_and n \<longleftrightarrow> na n \<in> {0, 2, 3}"
  by (auto simp: node_ok_def is_and_iff split: if_splits)

lemma node_ok_operands:
  assumes "node_ok i n" "is_and n"
  shows "2 \<le> unat (lit_Var (na n))" "2 \<le> unat (lit_Var (nb n))"
    "unat (lit_Var (na n)) < i" "unat (lit_Var (nb n)) < i"
proof -
  have "4 \<le> unat (na n)" "na n < nb n" using assms by (auto simp: node_ok_def is_and_iff)
  then have "4 \<le> unat (na n)" "4 \<le> unat (nb n)" by (auto simp: word_less_nat_alt)
  then have "4 div 2 \<le> unat (na n) div 2" "4 div 2 \<le> unat (nb n) div 2" by (metis div_le_mono)+
  then show "2 \<le> unat (lit_Var (na n))" "2 \<le> unat (lit_Var (nb n))" by (simp_all add: unat_lit_Var)
  show "unat (lit_Var (na n)) < i" "unat (lit_Var (nb n)) < i" using assms by (auto simp: node_ok_def)
qed

section \<open>The chains of the hash table\<close>

inductive on_chain :: "node list \<Rightarrow> u32 \<Rightarrow> nat \<Rightarrow> bool" for ns where
  here: "on_chain ns si (unat si)"
| there: "nn (ns ! unat si) \<noteq> 0 \<Longrightarrow> on_chain ns (nn (ns ! unat si)) i \<Longrightarrow> on_chain ns si i"

inductive_cases on_chainE: "on_chain ns si i"

definition chain_ok :: "node list \<Rightarrow> bool" where
  "chain_ok ns \<longleftrightarrow> (\<forall>i < length ns. nn (ns ! i) = 0 \<or> unat (nn (ns ! i)) < i)"

definition strash_ok :: "'z circ_scheme \<Rightarrow> bool" where
  "strash_ok c \<longleftrightarrow> (\<forall>i < length (nodes c). is_and (nodes c ! i) \<longrightarrow>
     on_chain (nodes c)
       (strash c ! unat (strashCode (na (nodes c ! i)) (nb (nodes c ! i)) mod of_nat (ncap c))) i)"

lemma circ_wf_chain_ok: "circ_wf c \<Longrightarrow> chain_ok (nodes c)"
  by (auto simp: circ_wf_def chain_ok_def node_ok_def split: if_splits)

lemma on_chain_cong:
  assumes "on_chain ns si i" and "chain_ok ns" and "unat si < length ns"
    and "\<forall>k \<le> unat si. nn (ns' ! k) = nn (ns ! k)"
  shows "on_chain ns' si i"
  using assms
proof (induction rule: on_chain.induct)
  case (here si)
  show ?case by (rule on_chain.here)
next
  case (there si i)
  have lt: "unat (nn (ns ! unat si)) < unat si"
    using there.hyps(1) there.prems(1,2) by (auto simp: chain_ok_def)
  have eq: "nn (ns' ! unat si) = nn (ns ! unat si)"
    using there.prems(3) by blast
  have "on_chain ns' (nn (ns ! unat si)) i"
  proof (rule there.IH)
    show "chain_ok ns" by (rule there.prems(1))
    show "unat (nn (ns ! unat si)) < length ns" using lt there.prems(2) by linarith
    show "\<forall>k \<le> unat (nn (ns ! unat si)). nn (ns' ! k) = nn (ns ! k)"
      using lt there.prems(3) by (meson less_imp_le_nat order_trans)
  qed
  then show ?case
    using there.hyps(1) by - (rule on_chain.there, simp_all only: eq not_False_eq_True)
qed

definition find_post :: "node list \<Rightarrow> lit \<Rightarrow> lit \<Rightarrow> u32 \<Rightarrow> u32 option \<Rightarrow> bool" where
  "find_post ns a b si r \<longleftrightarrow>
     (\<forall>k. r = Some k \<longrightarrow> unat k < length ns \<and> na (ns ! unat k) = a \<and> nb (ns ! unat k) = b \<and>
            on_chain ns si (unat k)) \<and>
     (r = None \<longrightarrow> (\<forall>k. on_chain ns si k \<longrightarrow> \<not> (na (ns ! k) = a \<and> nb (ns ! k) = b)))"

lemma strash_find_spec:
  assumes "chain_ok ns" and "unat si < length ns"
  shows "returns (strash_find ns a b si) (find_post ns a b si)"
  using assms(2)
proof (induction "unat si" arbitrary: si rule: less_induct)
  case less
  let ?n = "ns ! unat si"
  consider (hit) "na ?n = a \<and> nb ?n = b" | (stop) "\<not> (na ?n = a \<and> nb ?n = b)" "nn ?n = 0"
    | (go) "\<not> (na ?n = a \<and> nb ?n = b)" "nn ?n \<noteq> 0" by blast
  then show ?case
  proof cases
    case hit
    then show ?thesis using less.prems
      by (subst strash_find.simps) (auto simp: find_post_def intro: on_chain.here)
  next
    case stop
    then show ?thesis using less.prems
      by (subst strash_find.simps) (auto simp: find_post_def elim: on_chainE)
  next
    case go
    have lt: "unat (nn ?n) < unat si"
      using go assms(1) less.prems by (auto simp: chain_ok_def)
    have "returns (strash_find ns a b (nn ?n)) (find_post ns a b (nn ?n))"
      by (rule less.hyps [OF lt]) (use lt less.prems in linarith)
    moreover have "find_post ns a b si r" if "find_post ns a b (nn ?n) r" for r
      using that go unfolding find_post_def by (auto intro: on_chain.there elim: on_chainE)
    ultimately have "returns (strash_find ns a b (nn ?n)) (find_post ns a b si)"
      by (rule returns_mono)
    then show ?thesis using go less.prems by (subst strash_find.simps) auto
  qed
qed

lemma on_chain_zero: "on_chain ns 0 j \<Longrightarrow> nn (ns ! 0) = 0 \<Longrightarrow> j = 0"
  by (auto elim: on_chainE)

text \<open>Linking node \<open>w\<close> in front of the chain that starts at \<open>h\<close>.\<close>

lemma on_chain_push:
  assumes "on_chain ns h j" and "chain_ok ns" and "unat h < length ns" and "unat h < unat w"
    and "nn (ns ! 0) = 0" and "j \<noteq> 0"
    and "\<forall>k < unat w. nn (ns' ! k) = nn (ns ! k)" and "nn (ns' ! unat w) = h"
  shows "on_chain ns' w j"
proof (rule on_chain.there)
  show "nn (ns' ! unat w) \<noteq> 0"
  proof
    assume "nn (ns' ! unat w) = 0"
    then have "h = 0" using assms(8) by simp
    then show False using on_chain_zero assms(1,5,6) by blast
  qed
  have "on_chain ns' h j"
    by (rule on_chain_cong [OF assms(1-3)]) (use assms(4,7) in auto)
  then show "on_chain ns' (nn (ns' ! unat w)) j" using assms(8) by simp
qed

lemma strash_insert:
  assumes compl: "\<forall>j < length ns. P j \<longrightarrow> on_chain ns (st ! f j) j"
    and "chain_ok ns" and "nn (ns ! 0) = 0" and "\<not> P 0"
    and st: "\<forall>h \<in> set st. unat h < length ns \<and> unat h < unat w"
    and k: "k < length st" and f: "\<forall>j < length ns. P j \<longrightarrow> f j < length st"
    and same: "\<forall>k < unat w. nn (ns' ! k) = nn (ns ! k)" and head: "nn (ns' ! unat w) = st ! k"
    and j: "j < length ns" "P j"
  shows "on_chain ns' (st[k := w] ! f j) j"
proof (cases "f j = k")
  case True
  have "on_chain ns (st ! k) j" using compl j True by auto
  moreover have "st ! k \<in> set st" using k by simp
  ultimately have "on_chain ns' w j"
    using st assms(2,3,4) j(2) same head
    by (intro on_chain_push [of ns "st ! k" j w ns']) (metis | assumption)+
  then show ?thesis using True k by simp
next
  case False
  have "on_chain ns (st ! f j) j" using compl j by auto
  moreover have "st ! f j \<in> set st" using f j by simp
  ultimately have "on_chain ns' (st ! f j) j"
    using assms(2) st same
    by (intro on_chain_cong [of ns "st ! f j" j ns']) (simp | metis order_le_less_trans)+
  then show ?thesis using False by simp
qed

section \<open>Growing\<close>

text \<open>What has been established when the rehashing loop has handled the nodes below \<open>i\<close>.\<close>

definition grow_inv :: "node list \<Rightarrow> nat \<Rightarrow> nat \<Rightarrow> node list \<times> u32 list \<Rightarrow> bool" where
  "grow_inv ns0 cap i = (\<lambda>(ns, st).
     length ns = length ns0 \<and> length st = cap \<and>
     (\<forall>j < length ns. na (ns ! j) = na (ns0 ! j) \<and> nb (ns ! j) = nb (ns0 ! j) \<and> node_ok j (ns ! j)) \<and>
     (\<forall>h \<in> set st. unat h < max 1 i) \<and>
     (\<forall>j < length ns. j < i \<and> is_and (ns ! j) \<longrightarrow>
        on_chain ns (st ! unat (strashCode (na (ns ! j)) (nb (ns ! j)) mod of_nat cap)) j))"

lemma node_ok_chain_ok: "\<forall>j < length ns. node_ok j (ns ! j) \<Longrightarrow> chain_ok ns"
  by (auto simp: chain_ok_def node_ok_def split: if_splits)

lemma unat_mod_lt: "0 < unat (m :: u32) \<Longrightarrow> unat (x mod m) < unat m"
  by (simp add: unat_mod)

lemma node_ok_not_and_nn: "node_ok i n \<Longrightarrow> \<not> is_and n \<Longrightarrow> nn n = 0"
  by (auto simp: node_ok_def split: if_splits)

lemma node_ok_link: "node_ok i n \<Longrightarrow> is_and n \<Longrightarrow> unat h < i \<Longrightarrow> node_ok i (n\<lparr>nn := h\<rparr>)"
  by (simp add: node_ok_def is_and_def)

lemma grow_step_inv:
  assumes inv: "grow_inv ns0 cap i (ns, st)" and i: "i < length ns0"
    and cap: "length ns0 < cap" "cap < 2 ^ 32"
    and z: "\<not> is_and (ns0 ! 0)"
  shows "returns (grow_step 3 2 (of_nat cap) i (ns, st)) (grow_inv ns0 cap (Suc i))"
proof (cases "is_and (ns ! i)")
  case False
  have "node_ok i (ns ! i)" using inv i by (auto simp: grow_inv_def)
  then have "na (ns ! i) \<in> {0, 2, 3}" using False by (auto simp: node_ok_def)
  moreover have "grow_inv ns0 cap (Suc i) (ns, st)"
    using inv False by (auto simp: grow_inv_def less_Suc_eq)
  ultimately show ?thesis using inv i by (auto simp: grow_step_def grow_inv_def)
next
  case True
  let ?k = "unat (strashCode (na (ns ! i)) (nb (ns ! i)) mod of_nat cap)"
  let ?h = "st ! ?k"
  let ?ns = "ns[i := (ns ! i)\<lparr>nn := ?h\<rparr>]"
  let ?st = "st[?k := of_nat i]"
  have ok: "\<forall>j < length ns. node_ok j (ns ! j)" and len: "length ns = length ns0" "length st = cap"
    and same: "\<forall>j < length ns. na (ns ! j) = na (ns0 ! j) \<and> nb (ns ! j) = nb (ns0 ! j)"
    using inv by (auto simp: grow_inv_def)
  have na: "4 \<le> unat (na (ns ! i))" using True by (simp add: is_and_iff)
  have oki: "node_ok i (ns ! i)" using ok i len by simp
  have "4 div 2 \<le> unat (na (ns ! i)) div 2" by (rule div_le_mono [OF na])
  then have "2 \<le> unat (lit_Var (na (ns ! i)))" by (simp add: unat_lit_Var)
  then have i2: "2 \<le> i" using True oki by (auto simp: node_ok_def)
  have uc: "unat (of_nat cap :: u32) = cap" using cap(2) by simp
  have k: "?k < length st" using unat_mod_lt [of "of_nat cap"] uc cap(1) len by (simp only: uc)
  have h: "?h \<in> set st" using k by simp
  have hi: "unat ?h < i" using inv h i2 by (auto simp: grow_inv_def)
  have ui: "unat (of_nat i :: u32) = i" using i cap by simp
  have pos: "0 < length ns" using i len by linarith
  then have "na (ns ! 0) = na (ns0 ! 0)" using same by blast
  then have notand0: "\<not> is_and (ns ! 0)" using z by (simp add: is_and_def)
  have na_same: "na (?ns ! j) = na (ns ! j)" "nb (?ns ! j) = nb (ns ! j)" for j
    using i len by (simp_all add: nth_list_update_if)
  have is_and_same: "is_and (?ns ! j) = is_and (ns ! j)" for j
    by (simp only: is_and_def na_same)
  have step: "grow_step 3 2 (of_nat cap) i (ns, st) = Some (?ns, ?st)"
    using na i len k uc cap by (auto simp: grow_step_def Let_def word_eq_iff_unat)
  have ok': "node_ok j (?ns ! j)" if "j < length ns" for j
    using that ok node_ok_link [OF oki True hi] by (cases "j = i") simp_all
  have st': "unat x < Suc i" if "x \<in> set ?st" for x
    using that inv i2 ui set_update_subset_insert [of st ?k "of_nat i"] by (fastforce simp: grow_inv_def)
  have chain: "on_chain ?ns (?st ! unat (strashCode (na (ns ! j)) (nb (ns ! j)) mod of_nat cap)) j"
    if j: "j < Suc i" "is_and (ns ! j)" for j
  proof (cases "j = i")
    case True
    have "on_chain ?ns (of_nat i) (unat (of_nat i :: u32))" by (rule on_chain.here)
    then show ?thesis using True k ui by simp
  next
    case False
    show ?thesis
    proof (rule strash_insert [where P = "\<lambda>j. j < i \<and> is_and (ns ! j)" and ns = ns
          and f = "\<lambda>j. unat (strashCode (na (ns ! j)) (nb (ns ! j)) mod of_nat cap)"])
      show "\<forall>j < length ns. j < i \<and> is_and (ns ! j) \<longrightarrow>
          on_chain ns (st ! unat (strashCode (na (ns ! j)) (nb (ns ! j)) mod of_nat cap)) j"
        using inv by (auto simp: grow_inv_def)
      show "nn (ns ! 0) = 0" using ok notand0 pos node_ok_not_and_nn by blast
      show "\<forall>h \<in> set st. unat h < length ns \<and> unat h < unat (of_nat i :: u32)"
        using inv i2 i len ui by (fastforce simp: grow_inv_def)
      show "\<forall>j < length ns. j < i \<and> is_and (ns ! j) \<longrightarrow>
          unat (strashCode (na (ns ! j)) (nb (ns ! j)) mod of_nat cap) < length st"
        using unat_mod_lt [of "of_nat cap"] uc cap(1) len by auto
    qed (use node_ok_chain_ok ok notand0 k ui i len j False in \<open>auto simp: nth_list_update\<close>)
  qed
  show ?thesis
    unfolding step returns_Some grow_inv_def prod.case is_and_same na_same
  proof (intro conjI allI impI ballI)
    show "length ?ns = length ns0" "length ?st = cap" using len by simp_all
    show "unat h < max 1 (Suc i)" if "h \<in> set ?st" for h using st' [OF that] by simp
    show "on_chain ?ns (?st ! unat (strashCode (na (ns ! j)) (nb (ns ! j)) mod of_nat cap)) j"
      if "j < length ?ns" "j < Suc i \<and> is_and (ns ! j)" for j
      using chain that(2) by blast
  qed (use same ok' in simp_all)
qed

text \<open>Growing a full, well-formed circuit doubles the capacity and rebuilds every chain.\<close>

lemma C_grow_spec:
  assumes wf: "circ_wf p" and full: "length (nodes p) = ncap p" and room: "ncap p \<le> 2 ^ 30"
  shows "returns (C_grow p) (\<lambda>c. circ_wf c \<and> circ_ext p c \<and> strash_ok c \<and>
           length (nodes c) = length (nodes p) \<and> ncap c = 2 * ncap p \<and> circ.more c = circ.more p)"
proof -
  let ?cap = "ncap p * 2"
  have wf': "cF p = 3" "cT p = 2" "2 \<le> ncap p" "\<forall>i < length (nodes p). node_ok i (nodes p ! i)"
      "\<not> is_and (nodes p ! 0)" "\<not> is_and (nodes p ! 1)"
    using wf full by (auto simp: circ_wf_def)
  have cap: "length (nodes p) < ?cap" "?cap < 2 ^ 32" using full room wf'(3) by auto
  have init: "grow_inv (nodes p) ?cap 0 (nodes p, replicate ?cap 0)"
    using wf'(4) by (simp add: grow_inv_def)
  have "returns (foldM (grow_step 3 2 (of_nat ?cap)) [0..<length (nodes p)] (nodes p, replicate ?cap 0))
      (grow_inv (nodes p) ?cap (length (nodes p)))"
  proof (rule returns_foldM_upt [where I = "grow_inv (nodes p) ?cap"])
    show "returns (grow_step 3 2 (of_nat ?cap) i s) (grow_inv (nodes p) ?cap (Suc i))"
      if "i < length (nodes p)" "grow_inv (nodes p) ?cap i s" for i s
      using grow_step_inv [OF _ that(1) cap wf'(5)] that(2) by (cases s) simp
  qed (use init in simp_all)
  then obtain ns st where
    run: "foldM (grow_step 3 2 (of_nat ?cap)) [0..<length (nodes p)] (nodes p, replicate ?cap 0) = Some (ns, st)"
    and inv: "grow_inv (nodes p) ?cap (length (nodes p)) (ns, st)"
    by (rule returnsE2)
  let ?c = "p\<lparr>nodes := ns, ncap := ?cap, strash := st\<rparr>"
  have len: "length ns = length (nodes p)" "length st = ?cap"
    and same: "\<forall>j < length ns. na (ns ! j) = na (nodes p ! j) \<and> nb (ns ! j) = nb (nodes p ! j)"
    and ok: "\<forall>j < length ns. node_ok j (ns ! j)" and st: "\<forall>h \<in> set st. unat h < length ns"
    and compl: "\<forall>j < length ns. is_and (ns ! j) \<longrightarrow>
      on_chain ns (st ! unat (strashCode (na (ns ! j)) (nb (ns ! j)) mod of_nat ?cap)) j"
    using inv full wf'(3) by (auto simp: grow_inv_def)
  have lens: "0 < length ns" "1 < length ns" using len full wf'(3) by simp_all
  then have "na (ns ! 0) = na (nodes p ! 0)" "na (ns ! 1) = na (nodes p ! 1)" using same by blast+
  then have notand: "\<not> is_and (ns ! 0)" "\<not> is_and (ns ! 1)" using wf'(5,6) by (simp_all add: is_and_def)
  have "circ_wf ?c"
    using wf' len ok st notand full room lens by (simp add: circ_wf_def)
  moreover have "circ_ext p ?c" using len same by (simp add: circ_ext_def)
  moreover have "strash_ok ?c" using compl by (simp add: strash_ok_def)
  moreover have "C_grow p = Some ?c" using full wf'(1,2) run by (simp add: C_grow_def)
  ultimately show ?thesis using len by simp
qed

section \<open>New nodes\<close>

lemma node_ok_zero [simp]: "node_ok i zero_node"
  by (simp add: node_ok_def zero_node_def is_and_def)

lemma not_is_and_zero [simp]: "\<not> is_and zero_node"
  by (simp add: zero_node_def is_and_def)

definition new_post :: "'z circ_scheme \<Rightarrow> 'z circ_scheme \<times> u32 \<Rightarrow> bool" where
  "new_post p = (\<lambda>(c, j). circ_wf c \<and> circ_ext p c \<and> length (nodes c) = Suc (length (nodes p)) \<and>
     unat j = length (nodes p) \<and> nodes c ! length (nodes p) = zero_node \<and>
     (strash_ok p \<longrightarrow> strash_ok c) \<and> (\<forall>h \<in> set (strash c). unat h < length (nodes p)) \<and>
     circ.more c = circ.more p)"

lemma circ_wf_ncap: "circ_wf c \<Longrightarrow> unat (of_nat (ncap c) :: u32) = ncap c \<and> 2 \<le> ncap c"
  by (auto simp: circ_wf_def)

lemma strash_index_lt: "circ_wf c \<Longrightarrow> unat (x mod of_nat (ncap c) :: u32) < length (strash c)"
  using circ_wf_ncap [of c] unat_mod_lt [of "of_nat (ncap c)" x] by (auto simp: circ_wf_def)

lemma strash_head_lt: "circ_wf c \<Longrightarrow> k < length (strash c) \<Longrightarrow> unat (strash c ! k) < length (nodes c)"
  by (simp add: circ_wf_def)

lemma append_node_post:
  assumes wf: "circ_wf c" and room: "length (nodes c) < ncap c"
  shows "new_post c (c\<lparr>nodes := nodes c @ [zero_node]\<rparr>, of_nat (length (nodes c)))"
proof -
  let ?c = "c\<lparr>nodes := nodes c @ [zero_node]\<rparr>"
  have node_ok': "node_ok i ((nodes c @ [zero_node]) ! i)" if "i < Suc (length (nodes c))" for i
    using that wf by (cases "i = length (nodes c)") (simp_all add: nth_append circ_wf_def)
  have len: "0 < length (nodes c)" "1 < length (nodes c)" using wf by (auto simp: circ_wf_def)
  have "circ_wf ?c"
    using wf node_ok' room len by (auto simp: circ_wf_def nth_append)
  moreover have "strash_ok ?c" if ok: "strash_ok c"
    unfolding strash_ok_def
  proof (intro allI impI)
    fix i assume i: "i < length (nodes ?c)" "is_and (nodes ?c ! i)"
    then have i': "i < length (nodes c)" "nodes ?c ! i = nodes c ! i"
      by (auto simp: nth_append split: if_splits)
    let ?s = "strash c ! unat (strashCode (na (nodes c ! i)) (nb (nodes c ! i)) mod of_nat (ncap c))"
    have "on_chain (nodes c) ?s i" using ok i i' by (simp add: strash_ok_def)
    moreover have s: "unat ?s < length (nodes c)" by (rule strash_head_lt [OF wf strash_index_lt [OF wf]])
    ultimately have "on_chain (nodes ?c) ?s i"
      by (rule on_chain_cong [OF _ circ_wf_chain_ok [OF wf]]) (use s in \<open>simp_all add: nth_append\<close>)
    then show "on_chain (nodes ?c) (strash ?c !
        unat (strashCode (na (nodes ?c ! i)) (nb (nodes ?c ! i)) mod of_nat (ncap ?c))) i"
      using i' by simp
  qed
  moreover have "unat (of_nat (length (nodes c)) :: u32) = length (nodes c)"
    using wf by (auto simp: circ_wf_def)
  moreover have "\<forall>h \<in> set (strash c). unat h < length (nodes c)" using wf by (simp add: circ_wf_def)
  ultimately show ?thesis by (simp add: new_post_def circ_ext_def nth_append)
qed

lemma C_newNode_spec:
  assumes wf: "circ_wf p" and room: "circ_room 1 p"
  shows "returns (C_newNode p) (new_post p)"
proof (cases "length (nodes p) = ncap p")
  case True
  then have "ncap p \<le> 2 ^ 30" using room by (simp add: circ_room_def)
  from C_grow_spec [OF wf True this] obtain c where c: "C_grow p = Some c" "circ_wf c" "circ_ext p c"
    "strash_ok c" "length (nodes c) = length (nodes p)" "ncap c = 2 * ncap p" "circ.more c = circ.more p"
    by (rule returnsE) blast
  have "0 < ncap p" using circ_wf_ncap [OF wf] by linarith
  then have lt: "length (nodes c) < ncap c" using c True by simp
  have post: "new_post c (c\<lparr>nodes := nodes c @ [zero_node]\<rparr>, of_nat (length (nodes c)))"
    by (rule append_node_post [OF c(2) lt])
  have "circ_ext p (c\<lparr>nodes := nodes c @ [zero_node]\<rparr>)"
    by (rule circ_ext_trans [OF c(3)]) (use post in \<open>simp add: new_post_def\<close>)
  then have "new_post p (c\<lparr>nodes := nodes c @ [zero_node]\<rparr>, of_nat (length (nodes c)))"
    using post c by (simp add: new_post_def)
  then show ?thesis using True c lt by (simp add: C_newNode_def Let_def)
next
  case False
  then have "length (nodes p) < ncap p" using wf by (auto simp: circ_wf_def)
  then show ?thesis using False append_node_post [OF wf] by (simp add: C_newNode_def Let_def)
qed

text \<open>
  A circuit is canonical when its hash table is complete and no two and gates have the same
  operands.
\<close>

definition canon :: "'z circ_scheme \<Rightarrow> bool" where
  "canon c \<longleftrightarrow> strash_ok c \<and> (\<forall>i < length (nodes c). \<forall>j < length (nodes c).
     is_and (nodes c ! i) \<and> na (nodes c ! i) = na (nodes c ! j) \<and> nb (nodes c ! i) = nb (nodes c ! j) \<longrightarrow> i = j)"

definition and_post :: "'z circ_scheme \<Rightarrow> (((nat \<Rightarrow> bool) \<Rightarrow> bool)) \<Rightarrow> nat \<Rightarrow> 'z circ_scheme \<times> lit \<Rightarrow> bool" where
  "and_post p f k = (\<lambda>(c, g). circ_wf c \<and> circ_ext p c \<and> lit_in c g \<and>
     length (nodes c) \<le> length (nodes p) + k \<and> (\<forall>\<rho>. lit_val (nodes c) \<rho> g \<longleftrightarrow> f \<rho>) \<and>
     (\<forall>i < length (nodes c). length (nodes p) \<le> i \<longrightarrow> is_and (nodes c ! i)) \<and>
     (canon p \<longrightarrow> canon c) \<and> circ.more c = circ.more p)"

lemma lit_val_and_node:
  assumes "i < length ns" "node_ok i (ns ! i)" "is_and (ns ! i)" "1 < i" "i < 2 ^ 31" "unat w = i"
  shows "lit_val ns \<rho> (var_Pos w) \<longleftrightarrow> lit_val ns \<rho> (na (ns ! i)) \<and> lit_val ns \<rho> (nb (ns ! i))"
proof -
  have "node_val ns \<rho> i \<longleftrightarrow> lit_val ns \<rho> (na (ns ! i)) \<and> lit_val ns \<rho> (nb (ns ! i))"
    using assms by (subst node_val.simps) (simp add: lit_val_def node_ok_def)
  then show ?thesis using assms by (simp add: lit_val_def)
qed

lemma circ_wf_node_ok: "circ_wf c \<Longrightarrow> i < length (nodes c) \<Longrightarrow> node_ok i (nodes c ! i)"
  by (simp add: circ_wf_def)

lemma circ_wf_first: "circ_wf c \<Longrightarrow> \<not> is_and (nodes c ! 0) \<and> \<not> is_and (nodes c ! 1) \<and> 2 \<le> length (nodes c)"
  by (simp add: circ_wf_def)

lemma circ_wf_nn0: "circ_wf c \<Longrightarrow> nn (nodes c ! 0) = 0"
  by (rule node_ok_not_and_nn [of 0], rule circ_wf_node_ok) (use circ_wf_first [of c] in auto)

text \<open>The operands with which \<^verbatim>\<open>And\<close> reaches the hash table.\<close>

definition and_operands :: "'z circ_scheme \<Rightarrow> lit \<Rightarrow> lit \<Rightarrow> bool" where
  "and_operands p a b \<longleftrightarrow> lit_in p a \<and> lit_in p b \<and> 4 \<le> a \<and> a < b \<and> lit_Var a \<noteq> lit_Var b"

text \<open>\<open>g\<close> is the positive literal of a gate with operands \<open>a\<close> and \<open>b\<close>.\<close>

definition gate_at :: "'z circ_scheme \<Rightarrow> lit \<Rightarrow> lit \<Rightarrow> lit \<Rightarrow> bool" where
  "gate_at c g a b \<longleftrightarrow> lit_IsPos g \<and> unat (lit_Var g) < length (nodes c) \<and>
     na (nodes c ! unat (lit_Var g)) = a \<and> nb (nodes c ! unat (lit_Var g)) = b"

definition gate_post :: "'z circ_scheme \<Rightarrow> lit \<Rightarrow> lit \<Rightarrow> 'z circ_scheme \<times> lit \<Rightarrow> bool" where
  "gate_post p a b = (\<lambda>(c, g). gate_at c g a b \<and>
     and_post p (\<lambda>\<rho>. lit_val (nodes p) \<rho> a \<and> lit_val (nodes p) \<rho> b) 1 (c, g))"

lemma and_insert_post:
  assumes new: "new_post p (c, j)" and ops: "and_operands p a b" and room: "circ_room 1 p"
    and "circ_wf p"
    and fresh: "\<And>i. canon p \<Longrightarrow> i < length (nodes p) \<Longrightarrow> \<not> (na (nodes p ! i) = a \<and> nb (nodes p ! i) = b)"
  defines "k \<equiv> unat (strashCode a b mod of_nat (ncap c))"
  shows "gate_post p a b
    (c\<lparr>nodes := (nodes c)[unat j := \<lparr>na = a, nb = b, nn = strash c ! k\<rparr>],
       strash := (strash c)[k := j]\<rparr>, var_Pos j)"
proof -
  let ?n = "\<lparr>na = a, nb = b, nn = strash c ! k\<rparr>"
  let ?ns = "(nodes c)[unat j := ?n]"
  let ?c = "c\<lparr>nodes := ?ns, strash := (strash c)[k := j]\<rparr>"
  have c: "circ_wf c" "circ_ext p c" "length (nodes c) = Suc (length (nodes p))"
    "unat j = length (nodes p)" "\<forall>h \<in> set (strash c). unat h < length (nodes p)"
    "nodes c ! length (nodes p) = zero_node"
    "strash_ok p \<longrightarrow> strash_ok c" "circ.more c = circ.more p"
    using new by (auto simp: new_post_def)
  have jc: "unat j < length (nodes c)" using c by simp
  have k: "k < length (strash c)" unfolding k_def by (rule strash_index_lt [OF c(1)])
  have pl: "2 \<le> length (nodes p)" using \<open>circ_wf p\<close> by (simp add: circ_wf_def)
  have ab: "4 \<le> a" "a < b" "lit_Var a \<noteq> lit_Var b"
    "unat (lit_Var a) < length (nodes p)" "unat (lit_Var b) < length (nodes p)"
    using ops by (auto simp: and_operands_def lit_in_def)
  have isn: "is_and ?n" using ab by (simp add: is_and_def)
  have okn: "node_ok (unat j) ?n"
    using isn ab c k by (simp add: node_ok_def)
  have ok: "node_ok i (?ns ! i)" if "i < length (nodes c)" for i
    using that okn c(1) by (cases "i = unat j") (simp_all add: circ_wf_def)
  have jge: "2 \<le> unat j" "nodes p \<noteq> []" using c pl by auto
  have set: "unat h < length (nodes c)" if "h \<in> set ((strash c)[k := j])" for h
    using that jc c set_update_subset_insert [of "strash c" k j] by fastforce
  have wf: "circ_wf ?c"
    using c(1) ok set jge by (simp add: circ_wf_def)
  have nsp: "na (?ns ! i) = na (nodes p ! i) \<and> nb (?ns ! i) = nb (nodes p ! i)" if "i < length (nodes p)" for i
    using that c by (simp add: circ_ext_def)
  have ext: "circ_ext p ?c" using nsp c by (simp add: circ_ext_def)
  have sok: "strash_ok ?c" if "strash_ok p"
    unfolding strash_ok_def
  proof (intro allI impI)
    fix i assume i: "i < length (nodes ?c)" "is_and (nodes ?c ! i)"
    let ?f = "\<lambda>ns i. unat (strashCode (na (ns ! i)) (nb (ns ! i)) mod of_nat (ncap c))"
    show "on_chain (nodes ?c) (strash ?c ! unat (strashCode (na (nodes ?c ! i)) (nb (nodes ?c ! i)) mod
        of_nat (ncap ?c))) i"
    proof (cases "i = unat j")
      case True
      then show ?thesis using jc k on_chain.here [of ?ns j] by (simp add: k_def)
    next
      case False
      have "on_chain ?ns ((strash c)[k := j] ! ?f (nodes c) i) i"
      proof (rule strash_insert [where P = "\<lambda>i. is_and (nodes c ! i)" and ns = "nodes c"])
        show "\<forall>i < length (nodes c). is_and (nodes c ! i) \<longrightarrow> on_chain (nodes c) (strash c ! ?f (nodes c) i) i"
          using that c(7) by (simp add: strash_ok_def)
        show "nn (nodes c ! 0) = 0" by (rule circ_wf_nn0 [OF c(1)])
        show "\<forall>h \<in> set (strash c). unat h < length (nodes c) \<and> unat h < unat j"
          using c by auto
        show "\<forall>i < length (nodes c). is_and (nodes c ! i) \<longrightarrow> ?f (nodes c) i < length (strash c)"
          using strash_index_lt [OF c(1)] by simp
      qed (use circ_wf_chain_ok [OF c(1)] circ_wf_first [OF c(1)] k i False jc in auto)
      then show ?thesis using False by simp
    qed
  qed
  have "canon ?c" if "canon p"
  proof -
    have uniq: "i = i'" if i: "i < length (nodes p)" "i' < length (nodes p)" "is_and (?ns ! i)"
        "na (?ns ! i) = na (?ns ! i')" "nb (?ns ! i) = nb (?ns ! i')" for i i'
      using \<open>canon p\<close> i nsp by (simp add: canon_def is_and_def)
    have other: "\<not> (na (?ns ! i) = a \<and> nb (?ns ! i) = b)" if "i < length (nodes p)" for i
      using fresh [OF \<open>canon p\<close> that] nsp [OF that] by simp
    have "i = i'" if i: "i < length ?ns" "i' < length ?ns" "is_and (?ns ! i)"
        "na (?ns ! i) = na (?ns ! i')" "nb (?ns ! i) = nb (?ns ! i')" for i i'
    proof -
      have at_j: "na (?ns ! unat j) = a" "nb (?ns ! unat j) = b" using jc by simp_all
      consider "i < length (nodes p)" "i' < length (nodes p)" | "i = unat j" | "i' = unat j"
        using i c by fastforce
      then show ?thesis
      proof cases
        case 1
        then show ?thesis using uniq i by blast
      next
        case 2
        then have "\<not> i' < length (nodes p)" using other [of i'] i(4,5) at_j by auto
        then show ?thesis using 2 i c by simp
      next
        case 3
        then have "\<not> i < length (nodes p)" using other [of i] i(4,5) at_j by auto
        then show ?thesis using 3 i c by simp
      qed
    qed
    then show ?thesis using sok that by (auto simp: canon_def)
  qed
  moreover have "lit_val ?ns \<rho> (var_Pos j) \<longleftrightarrow> lit_val (nodes p) \<rho> a \<and> lit_val (nodes p) \<rho> b" for \<rho>
  proof -
    have "lit_val ?ns \<rho> (var_Pos j) \<longleftrightarrow> lit_val ?ns \<rho> (na (?ns ! unat j)) \<and> lit_val ?ns \<rho> (nb (?ns ! unat j))"
      by (rule lit_val_and_node) (use jc okn isn jge room c(3,4) in \<open>auto simp: circ_room_def\<close>)
    then show ?thesis using lit_val_ext [OF ext] ops jc by (simp add: and_operands_def)
  qed
  moreover have "lit_in ?c (var_Pos j)"
    using jc jge room c by (simp add: lit_in_def circ_room_def)
  moreover have "gate_at ?c (var_Pos j) a b"
    using jc c room by (simp add: gate_at_def circ_room_def)
  moreover have "is_and (?ns ! i)" if "i < length ?ns" "length (nodes p) \<le> i" for i
  proof -
    have "i = unat j" using that c by simp
    then show ?thesis using isn jc by simp
  qed
  ultimately show ?thesis
    using wf ext c by (simp add: gate_post_def and_post_def)
qed

lemma and_post_self:
  assumes "circ_wf p" "lit_in p g" "\<And>\<rho>. lit_val (nodes p) \<rho> g \<longleftrightarrow> f \<rho>"
  shows "and_post p f k (p, g)"
  using assms by (simp add: and_post_def)

lemma And_node_spec:
  assumes wf: "circ_wf p" and room: "circ_room 1 p" and ops: "and_operands p a b"
  shows "returns (And_node p a b) (gate_post p a b)"
proof -
  let ?si = "strash p ! unat (strashCode a b mod of_nat (ncap p))"
  have k: "unat (strashCode a b mod of_nat (ncap p)) < length (strash p)" by (rule strash_index_lt [OF wf])
  have cap: "(of_nat (ncap p) :: u32) \<noteq> 0" using circ_wf_ncap [OF wf] by auto
  obtain r where r: "strash_find (nodes p) a b ?si = Some r" and post: "find_post (nodes p) a b ?si r"
    using strash_find_spec [OF circ_wf_chain_ok [OF wf] strash_head_lt [OF wf k]] by (rule returnsE)
  show ?thesis
  proof (cases r)
    case (Some w)
    then have w: "unat w < length (nodes p)" "na (nodes p ! unat w) = a" "nb (nodes p ! unat w) = b"
      using post by (auto simp: find_post_def)
    have isn: "is_and (nodes p ! unat w)" using w ops by (simp add: is_and_def and_operands_def)
    have ok: "node_ok (unat w) (nodes p ! unat w)" by (rule circ_wf_node_ok [OF wf w(1)])
    have pos: "1 < unat w" using ok isn circ_wf_first [OF wf]
      by (metis One_nat_def less_one linorder_neqE_nat)
    have "unat w < 2 ^ 31" using w(1) room by (simp add: circ_room_def)
    moreover from this have "and_post p (\<lambda>\<rho>. lit_val (nodes p) \<rho> a \<and> lit_val (nodes p) \<rho> b) 1 (p, var_Pos w)"
      using lit_val_and_node [OF w(1) ok isn pos _ refl] w pos
      by (intro and_post_self [OF wf]) (simp_all add: lit_in_def)
    ultimately show ?thesis using k cap r Some w
      by (simp add: And_node_def Let_def gate_post_def gate_at_def)
  next
    case None
    obtain c j where fresh_node: "C_newNode p = Some (c, j)" and npost: "new_post p (c, j)"
      using C_newNode_spec [OF wf room] by (rule returnsE2)
    have fresh: "\<not> (na (nodes p ! i) = a \<and> nb (nodes p ! i) = b)" if "canon p" "i < length (nodes p)" for i
    proof
      assume eq: "na (nodes p ! i) = a \<and> nb (nodes p ! i) = b"
      then have "is_and (nodes p ! i)" using ops by (simp add: is_and_def and_operands_def)
      then have "on_chain (nodes p) ?si i" using that eq by (auto simp: canon_def strash_ok_def)
      then show False using None post eq by (auto simp: find_post_def)
    qed
    have k': "unat (strashCode a b mod of_nat (ncap c)) < length (strash c)"
      by (rule strash_index_lt) (use npost in \<open>simp add: new_post_def\<close>)
    have j: "unat j < length (nodes c)" using npost by (simp add: new_post_def)
    show ?thesis
      using and_insert_post [OF npost ops room wf fresh] k k' j cap r None fresh_node
      by (simp add: And_node_def Let_def)
  qed
qed

text \<open>The contract of \<^verbatim>\<open>And\<close> on every path, the simplifications included.\<close>

lemma C_And_spec:
  assumes wf: "circ_wf p" and room: "circ_room 1 p" and a: "lit_in p a" and b: "lit_in p b"
  shows "returns (C_And p a b) (and_post p (\<lambda>\<rho>. lit_val (nodes p) \<rho> a \<and> lit_val (nodes p) \<rho> b) 1)"
proof -
  have lits: "cF p = 3" "cT p = 2" using wf by (simp_all add: circ_wf_def)
  consider (same) "a = b" | (neg) "a = lit_Not b" | (gate) "a \<noteq> b" "a \<noteq> lit_Not b" by blast
  then show ?thesis
  proof cases
    case same
    then show ?thesis using wf a by (simp add: C_And_def and_post_self)
  next
    case neg
    then show ?thesis using wf lits by (auto simp: C_And_def intro!: and_post_self)
  next
    case gate
    define x where "x = (if b < a then b else a)"
    define y where "y = (if b < a then a else b)"
    have xy: "x < y" "lit_in p x" "lit_in p y" "lit_Var x \<noteq> lit_Var y"
      using gate a b lit_Var_eqD [of a b] by (auto simp: x_def y_def)
    have val: "lit_val (nodes p) \<rho> x \<and> lit_val (nodes p) \<rho> y \<longleftrightarrow>
        lit_val (nodes p) \<rho> a \<and> lit_val (nodes p) \<rho> b" for \<rho>
      by (auto simp: x_def y_def)
    have eq: "C_And p a b = (if x = 3 then Some (p, 3) else if x = 2 then Some (p, y) else And_node p x y)"
      using gate lits unfolding x_def y_def by (cases "b < a") (auto simp: C_And_def)
    consider (F) "x = 3" | (T) "x = 2" | (go) "x \<noteq> 2" "x \<noteq> 3" by blast
    then show ?thesis
    proof cases
      case F
      then show ?thesis using wf val by (auto simp: eq intro!: and_post_self)
    next
      case T
      then show ?thesis using wf val xy by (auto simp: eq intro!: and_post_self)
    next
      case go
      have "4 \<le> unat x" using lit_in_ge_2 [OF xy(2)] go by (auto simp: word_eq_iff_unat)
      then have "and_operands p x y" using xy by (simp add: and_operands_def word_le_nat_alt)
      from And_node_spec [OF wf room this] show ?thesis
        using go val by (auto simp: eq gate_post_def elim!: returns_mono)
    qed
  qed
qed

end
