(* ===== verification/CircuitOps.thy ===== *)
theory CircuitOps
  imports Circuit
begin

text \<open>
  The derived gates of \<^verbatim>\<open>logic/c.go\<close> (\<^verbatim>\<open>Or\<close>, \<^verbatim>\<open>Xor\<close>, \<^verbatim>\<open>Choice\<close>, \<^verbatim>\<open>Ands\<close>, \<^verbatim>\<open>Ors\<close>, \<^verbatim>\<open>Implies\<close>), new
  inputs, canonicity of structural hashing, and copies.  Each gate operation has the contract
  \<open>and_post\<close>: it returns, keeps the circuit well formed, leaves every existing node alone and
  yields a literal with the stated value.
\<close>

section \<open>Sequencing gate operations\<close>

lemma and_post_wf: "and_post p f k (c, x) \<Longrightarrow> circ_wf c"
  by (simp add: and_post_def)

lemma and_post_ext: "and_post p f k (c, x) \<Longrightarrow> circ_ext p c"
  by (simp add: and_post_def)

lemma and_post_lit: "and_post p f k (c, x) \<Longrightarrow> lit_in c x"
  by (simp add: and_post_def)

lemma and_post_val: "and_post p f k (c, x) \<Longrightarrow> lit_val (nodes c) \<rho> x \<longleftrightarrow> f \<rho>"
  by (simp add: and_post_def)

lemma and_post_keeps: "and_post p f k (c, x) \<Longrightarrow> lit_in p m \<Longrightarrow> lit_in c m"
  using lit_in_ext and_post_ext by blast

lemma and_post_keeps_val: "and_post p f k (c, x) \<Longrightarrow> lit_in p m \<Longrightarrow> lit_val (nodes c) \<rho> m = lit_val (nodes p) \<rho> m"
  using lit_val_ext and_post_ext by blast

lemma and_post_room: "and_post p f k (c, x) \<Longrightarrow> circ_room n p \<Longrightarrow> l + k \<le> n \<Longrightarrow> circ_room l c"
  by (simp add: and_post_def circ_room_def)

lemma and_post_then:
  assumes "and_post p f k (c, x)" and "and_post c g l (d, y)"
  shows "and_post p g (k + l) (d, y)"
proof -
  have ext: "circ_ext c d" and new: "\<forall>i < length (nodes d). length (nodes c) \<le> i \<longrightarrow> is_and (nodes d ! i)"
    using assms(2) by (simp_all add: and_post_def)
  have "is_and (nodes d ! i)" if "i < length (nodes d)" "length (nodes p) \<le> i" for i
  proof (cases "i < length (nodes c)")
    case True
    then have "is_and (nodes c ! i)" using assms(1) that(2) by (simp add: and_post_def)
    then show ?thesis using ext True by (simp add: circ_ext_def is_and_def)
  next
    case False
    then show ?thesis using new that(1) by simp
  qed
  then show ?thesis using assms circ_ext_trans [of p c d] by (auto simp: and_post_def)
qed

lemma and_post_not: "and_post p f k (c, x) \<Longrightarrow> and_post p (\<lambda>\<rho>. \<not> f \<rho>) k (c, lit_Not x)"
  by (simp add: and_post_def)

lemma and_post_cong: "and_post p f k r \<Longrightarrow> (\<And>\<rho>. f \<rho> = g \<rho>) \<Longrightarrow> and_post p g k r"
  by (auto simp: and_post_def)

lemma and_post_weaken: "and_post p f k (c, x) \<Longrightarrow> k \<le> l \<Longrightarrow> and_post p f l (c, x)"
  by (auto simp: and_post_def)

lemmas and_post_step = and_post_wf and_post_lit and_post_keeps and_post_keeps_val and_post_val and_post_room

lemma gate_bind:
  assumes "returns m (and_post p f k)"
    and "\<And>c x. and_post p f k (c, x) \<Longrightarrow> returns (F c x) Q"
  shows "returns (m \<bind> (\<lambda>(c, x). F c x)) Q"
  by (rule returns_bindI [OF assms(1)]) (use assms(2) in auto)

section \<open>The derived gates\<close>

lemma C_Or_spec:
  assumes "circ_wf p" "circ_room 1 p" "lit_in p a" "lit_in p b"
  shows "returns (C_Or p a b) (and_post p (\<lambda>\<rho>. lit_val (nodes p) \<rho> a \<or> lit_val (nodes p) \<rho> b) 1)"
  unfolding C_Or_def
  by (rule gate_bind [OF C_And_spec])
    (use assms in \<open>auto dest!: and_post_not elim!: and_post_cong\<close>)

lemma C_Implies_spec:
  assumes "circ_wf p" "circ_room 1 p" "lit_in p a" "lit_in p b"
  shows "returns (C_Implies p a b) (and_post p (\<lambda>\<rho>. lit_val (nodes p) \<rho> a \<longrightarrow> lit_val (nodes p) \<rho> b) 1)"
  using C_Or_spec [of p "lit_Not a" b] assms
  by (auto simp: C_Implies_def elim!: returns_mono and_post_cong)

text \<open>The shape shared by \<^verbatim>\<open>Xor\<close> and \<^verbatim>\<open>Choice\<close>: a disjunction of two conjunctions.\<close>

lemma sum_of_products_spec:
  assumes wf: "circ_wf p" and room: "circ_room 3 p"
    and lits: "lit_in p a" "lit_in p b" "lit_in p c" "lit_in p d"
  shows "returns (do { (q, x) \<leftarrow> C_And p a b; (q, y) \<leftarrow> C_And q c d; C_Or q x y })
    (and_post p (\<lambda>\<rho>. lit_val (nodes p) \<rho> a \<and> lit_val (nodes p) \<rho> b \<or>
                     lit_val (nodes p) \<rho> c \<and> lit_val (nodes p) \<rho> d) 3)"
proof (rule gate_bind [OF C_And_spec])
  fix q x assume 1: "and_post p (\<lambda>\<rho>. lit_val (nodes p) \<rho> a \<and> lit_val (nodes p) \<rho> b) 1 (q, x)"
  show "returns (C_And q c d \<bind> (\<lambda>(q, y). C_Or q x y))
    (and_post p (\<lambda>\<rho>. lit_val (nodes p) \<rho> a \<and> lit_val (nodes p) \<rho> b \<or>
                     lit_val (nodes p) \<rho> c \<and> lit_val (nodes p) \<rho> d) 3)"
  proof (rule gate_bind [OF C_And_spec])
    fix r y assume 2: "and_post q (\<lambda>\<rho>. lit_val (nodes q) \<rho> c \<and> lit_val (nodes q) \<rho> d) 1 (r, y)"
    have room2: "circ_room 1 r" using and_post_room [OF and_post_then [OF 1 2] room, of 1] by simp
    have x: "lit_in r x" by (rule and_post_keeps [OF 2 and_post_lit [OF 1]])
    have "and_post p (\<lambda>\<rho>. lit_val (nodes p) \<rho> a \<and> lit_val (nodes p) \<rho> b \<or>
                     lit_val (nodes p) \<rho> c \<and> lit_val (nodes p) \<rho> d) 3 (s, z)"
      if 3: "and_post r (\<lambda>\<rho>. lit_val (nodes r) \<rho> x \<or> lit_val (nodes r) \<rho> y) 1 (s, z)" for s z
    proof (rule and_post_cong)
      show "and_post p (\<lambda>\<rho>. lit_val (nodes r) \<rho> x \<or> lit_val (nodes r) \<rho> y) 3 (s, z)"
        using and_post_then [OF and_post_then [OF 1 2] 3] by (simp add: numeral_3_eq_3)
      show "lit_val (nodes r) \<rho> x \<or> lit_val (nodes r) \<rho> y \<longleftrightarrow>
          lit_val (nodes p) \<rho> a \<and> lit_val (nodes p) \<rho> b \<or> lit_val (nodes p) \<rho> c \<and> lit_val (nodes p) \<rho> d" for \<rho>
        using and_post_val [OF 2] and_post_keeps_val [OF 2 and_post_lit [OF 1]] and_post_val [OF 1]
          and_post_keeps_val [OF 1 lits(3)] and_post_keeps_val [OF 1 lits(4)] by simp
    qed
    then show "returns (C_Or r x y) (and_post p (\<lambda>\<rho>. lit_val (nodes p) \<rho> a \<and> lit_val (nodes p) \<rho> b \<or>
                     lit_val (nodes p) \<rho> c \<and> lit_val (nodes p) \<rho> d) 3)"
      using C_Or_spec [OF and_post_wf [OF 2] room2 x and_post_lit [OF 2]]
      by (auto elim!: returns_mono)
  qed (use 1 lits and_post_room [OF 1 room, of 1] in \<open>auto intro: and_post_step\<close>)
qed (use assms in \<open>auto simp: circ_room_def\<close>)

lemma C_Xor_spec:
  assumes "circ_wf p" "circ_room 3 p" "lit_in p a" "lit_in p b"
  shows "returns (C_Xor p a b) (and_post p (\<lambda>\<rho>. lit_val (nodes p) \<rho> a \<noteq> lit_val (nodes p) \<rho> b) 3)"
  using sum_of_products_spec [of p a "lit_Not b" "lit_Not a" b] assms
  by (auto simp: C_Xor_def elim!: returns_mono and_post_cong)

lemma C_Choice_spec:
  assumes "circ_wf p" "circ_room 3 p" "lit_in p i" "lit_in p t" "lit_in p e"
  shows "returns (C_Choice p i t e)
    (and_post p (\<lambda>\<rho>. if lit_val (nodes p) \<rho> i then lit_val (nodes p) \<rho> t else lit_val (nodes p) \<rho> e) 3)"
  using sum_of_products_spec [of p i t "lit_Not i" e] assms
  by (auto simp: C_Choice_def elim!: returns_mono and_post_cong)

section \<open>Conjunctions and disjunctions of lists\<close>

lemma Ands_loop_spec:
  assumes "circ_wf p" "circ_room (length ms) p" "lit_in p a" "\<forall>m \<in> set ms. lit_in p m"
  shows "returns (Ands_loop p a ms)
    (and_post p (\<lambda>\<rho>. lit_val (nodes p) \<rho> a \<and> (\<forall>m \<in> set ms. lit_val (nodes p) \<rho> m)) (length ms))"
  using assms
proof (induction ms arbitrary: p a)
  case Nil
  then show ?case by (simp add: and_post_self)
next
  case (Cons m ms)
  show ?case unfolding Ands_loop.simps
  proof (rule gate_bind [OF C_And_spec])
    fix c x assume 1: "and_post p (\<lambda>\<rho>. lit_val (nodes p) \<rho> a \<and> lit_val (nodes p) \<rho> m) 1 (c, x)"
    have room: "circ_room (length ms) c" by (rule and_post_room [OF 1 Cons.prems(2)]) simp
    have lits: "\<forall>m \<in> set ms. lit_in c m" using Cons.prems(4) and_post_keeps [OF 1] by simp
    have "and_post p (\<lambda>\<rho>. lit_val (nodes p) \<rho> a \<and> (\<forall>m \<in> set (m # ms). lit_val (nodes p) \<rho> m))
        (length (m # ms)) (d, y)"
      if 2: "and_post c (\<lambda>\<rho>. lit_val (nodes c) \<rho> x \<and> (\<forall>m \<in> set ms. lit_val (nodes c) \<rho> m)) (length ms) (d, y)"
      for d y
    proof (rule and_post_cong)
      show "and_post p (\<lambda>\<rho>. lit_val (nodes c) \<rho> x \<and> (\<forall>m \<in> set ms. lit_val (nodes c) \<rho> m)) (length (m # ms)) (d, y)"
        using and_post_then [OF 1 2] by simp
      show "lit_val (nodes c) \<rho> x \<and> (\<forall>m \<in> set ms. lit_val (nodes c) \<rho> m) \<longleftrightarrow>
          lit_val (nodes p) \<rho> a \<and> (\<forall>m \<in> set (m # ms). lit_val (nodes p) \<rho> m)" for \<rho>
        using and_post_val [OF 1] and_post_keeps_val [OF 1] Cons.prems(4) by auto
    qed
    then show "returns (Ands_loop c x ms) (and_post p (\<lambda>\<rho>. lit_val (nodes p) \<rho> a \<and>
        (\<forall>m \<in> set (m # ms). lit_val (nodes p) \<rho> m)) (length (m # ms)))"
      using Cons.IH [OF and_post_wf [OF 1] room and_post_lit [OF 1] lits] by (auto elim!: returns_mono)
  qed (use Cons.prems in \<open>auto simp: circ_room_def\<close>)
qed

lemma C_Ands_spec:
  assumes "circ_wf p" "circ_room (length ms) p" "\<forall>m \<in> set ms. lit_in p m"
  shows "returns (C_Ands p ms) (and_post p (\<lambda>\<rho>. \<forall>m \<in> set ms. lit_val (nodes p) \<rho> m) (length ms))"
proof -
  have "cT p = 2" using assms by (simp add: circ_wf_def)
  then show ?thesis using Ands_loop_spec [of p ms 2] assms by (simp add: C_Ands_def)
qed

lemma Ors_loop_spec:
  assumes "circ_wf p" "circ_room (length ms) p" "lit_in p a" "\<forall>m \<in> set ms. lit_in p m"
  shows "returns (Ors_loop p a ms)
    (and_post p (\<lambda>\<rho>. lit_val (nodes p) \<rho> a \<or> (\<exists>m \<in> set ms. lit_val (nodes p) \<rho> m)) (length ms))"
  using assms
proof (induction ms arbitrary: p a)
  case Nil
  then show ?case by (simp add: and_post_self)
next
  case (Cons m ms)
  show ?case unfolding Ors_loop.simps
  proof (rule gate_bind [OF C_Or_spec])
    fix c x assume 1: "and_post p (\<lambda>\<rho>. lit_val (nodes p) \<rho> a \<or> lit_val (nodes p) \<rho> m) 1 (c, x)"
    have room: "circ_room (length ms) c" by (rule and_post_room [OF 1 Cons.prems(2)]) simp
    have lits: "\<forall>m \<in> set ms. lit_in c m" using Cons.prems(4) and_post_keeps [OF 1] by simp
    have "and_post p (\<lambda>\<rho>. lit_val (nodes p) \<rho> a \<or> (\<exists>m \<in> set (m # ms). lit_val (nodes p) \<rho> m))
        (length (m # ms)) (d, y)"
      if 2: "and_post c (\<lambda>\<rho>. lit_val (nodes c) \<rho> x \<or> (\<exists>m \<in> set ms. lit_val (nodes c) \<rho> m)) (length ms) (d, y)"
      for d y
    proof (rule and_post_cong)
      show "and_post p (\<lambda>\<rho>. lit_val (nodes c) \<rho> x \<or> (\<exists>m \<in> set ms. lit_val (nodes c) \<rho> m)) (length (m # ms)) (d, y)"
        using and_post_then [OF 1 2] by simp
      show "lit_val (nodes c) \<rho> x \<or> (\<exists>m \<in> set ms. lit_val (nodes c) \<rho> m) \<longleftrightarrow>
          lit_val (nodes p) \<rho> a \<or> (\<exists>m \<in> set (m # ms). lit_val (nodes p) \<rho> m)" for \<rho>
        using and_post_val [OF 1] and_post_keeps_val [OF 1] Cons.prems(4) by auto
    qed
    then show "returns (Ors_loop c x ms) (and_post p (\<lambda>\<rho>. lit_val (nodes p) \<rho> a \<or>
        (\<exists>m \<in> set (m # ms). lit_val (nodes p) \<rho> m)) (length (m # ms)))"
      using Cons.IH [OF and_post_wf [OF 1] room and_post_lit [OF 1] lits] by (auto elim!: returns_mono)
  qed (use Cons.prems in \<open>auto simp: circ_room_def\<close>)
qed

lemma C_Ors_spec:
  assumes "circ_wf p" "circ_room (length ms) p" "\<forall>m \<in> set ms. lit_in p m"
  shows "returns (C_Ors p ms) (and_post p (\<lambda>\<rho>. \<exists>m \<in> set ms. lit_val (nodes p) \<rho> m) (length ms))"
proof -
  have "cF p = 3" using assms by (simp add: circ_wf_def)
  then show ?thesis using Ors_loop_spec [of p ms 3] assms by (simp add: C_Ors_def)
qed

section \<open>Fresh circuits, inputs and copies\<close>

lemma var_Neg_1: "var_Neg 1 = 3" "lit_Not 3 = 2" "lit_Not 2 = 3"
  by (simp_all add: var_Neg_def lit_Not_def)

lemma replicate_2: "replicate 2 x = [x, x]"
  by (simp add: numeral_2_eq_2)

lemma initC_wf: "n \<le> 2 ^ 31 \<Longrightarrow> circ_wf (initC n) \<and> canon (initC n)"
  by (auto simp: initC_def circ_wf_def canon_def strash_ok_def var_Neg_1 nth_Cons' replicate_2
      split: if_splits)

lemma C_Lit_spec:
  assumes wf: "circ_wf p" and room: "circ_room 1 p"
  shows "returns (C_Lit p) (\<lambda>(c, g). circ_wf c \<and> circ_ext p c \<and> lit_in c g \<and> \<not> lit_in p g \<and> lit_IsPos g \<and>
    length (nodes c) = Suc (length (nodes p)) \<and> (\<forall>\<rho>. lit_val (nodes c) \<rho> g = \<rho> (length (nodes p))) \<and>
    (canon p \<longrightarrow> canon c) \<and> circ.more c = circ.more p)"
proof -
  obtain c j where c: "C_newNode p = Some (c, j)" and post: "new_post p (c, j)"
    using C_newNode_spec [OF wf room] by (rule returnsE2)
  let ?m = "length (nodes p)"
  have m: "2 \<le> ?m" "?m < 2 ^ 30" using wf room by (auto simp: circ_wf_def circ_room_def)
  have j: "unat (of_nat ?m :: u32) = ?m" using m by simp
  have z: "nodes c ! ?m = zero_node" "length (nodes c) = Suc ?m" "circ_ext p c"
    using post by (auto simp: new_post_def)
  have val: "lit_val (nodes c) \<rho> (var_Pos (of_nat ?m)) = \<rho> ?m" for \<rho>
    using m j z by (subst lit_val_def, subst node_val.simps) auto
  have "canon c" if "canon p"
  proof -
    have old: "na (nodes c ! i) = na (nodes p ! i)" "nb (nodes c ! i) = nb (nodes p ! i)" if "i < ?m" for i
      using z(3) that by (simp_all add: circ_ext_def)
    have new: "\<not> is_and (nodes c ! ?m)" "na (nodes c ! ?m) = 0" using z by (simp_all add: zero_node_def is_and_def)
    have "i = k" if i: "i < Suc ?m" "k < Suc ?m" "is_and (nodes c ! i)"
        "na (nodes c ! i) = na (nodes c ! k)" "nb (nodes c ! i) = nb (nodes c ! k)" for i k
    proof -
      have lt: "i < ?m" "k < ?m" using i new by (auto simp: less_Suc_eq is_and_def)
      then show ?thesis using \<open>canon p\<close> i old by (simp add: canon_def is_and_def)
    qed
    then show ?thesis using post that z by (auto simp: canon_def new_post_def)
  qed
  then show ?thesis
    using c post m j val z by (auto simp: C_Lit_def new_post_def lit_in_def)
qed

lemma C_Copy_wf: "circ_wf c \<Longrightarrow> circ_wf (C_Copy c) \<and> circ_ext c (C_Copy c)"
  by (auto simp: circ_wf_def C_Copy_def circ_ext_def)

section \<open>Structural hashing\<close>

text \<open>In a canonical circuit, a gate that is already there is found again.\<close>

lemma And_node_hit:
  assumes wf: "circ_wf c" and canon: "canon c" and ops: "and_operands c a b" and gate: "gate_at c g a b"
  shows "And_node c a b = Some (c, g)"
proof -
  let ?si = "strash c ! unat (strashCode a b mod of_nat (ncap c))"
  let ?i = "unat (lit_Var g)"
  have g: "?i < length (nodes c)" "na (nodes c ! ?i) = a" "nb (nodes c ! ?i) = b" "lit_IsPos g"
    using gate by (auto simp: gate_at_def)
  have isn: "is_and (nodes c ! ?i)" using g ops by (simp add: is_and_def and_operands_def)
  have k: "unat (strashCode a b mod of_nat (ncap c)) < length (strash c)" by (rule strash_index_lt [OF wf])
  have cap: "(of_nat (ncap c) :: u32) \<noteq> 0" using circ_wf_ncap [OF wf] by auto
  obtain r where r: "strash_find (nodes c) a b ?si = Some r" and post: "find_post (nodes c) a b ?si r"
    using strash_find_spec [OF circ_wf_chain_ok [OF wf] strash_head_lt [OF wf k]] by (rule returnsE)
  have "on_chain (nodes c) ?si ?i" using canon g isn by (auto simp: canon_def strash_ok_def)
  then obtain w where w: "r = Some w" using post g by (cases r) (auto simp: find_post_def)
  then have "unat w < length (nodes c)" "na (nodes c ! unat w) = a" "nb (nodes c ! unat w) = b"
    using post by (auto simp: find_post_def)
  then have "?i = unat w" using canon g isn unfolding canon_def by metis
  then have "var_Pos w = g" using var_Pos_lit_Var [OF g(4)] by (simp add: word_eq_iff_unat [symmetric])
  then show ?thesis using k cap r w by (simp add: And_node_def Let_def)
qed

lemma C_And_cases:
  fixes p :: "'z circ_scheme"
  assumes "circ_wf p" "lit_in p a" "lit_in p b"
  obtains (simple) g where "\<And>q :: 'z circ_scheme. cF q = 3 \<Longrightarrow> cT q = 2 \<Longrightarrow> C_And q a b = Some (q, g) \<and> C_And q b a = Some (q, g)"
    | (gate) x y where "and_operands p x y"
      "\<And>q :: 'z circ_scheme. cF q = 3 \<Longrightarrow> cT q = 2 \<Longrightarrow> C_And q a b = And_node q x y \<and> C_And q b a = And_node q x y"
proof -
  define x where "x = (if b < a then b else a)"
  define y where "y = (if b < a then a else b)"
  have xy: "lit_in p x" "lit_in p y" using assms by (auto simp: x_def y_def)
  consider (triv) "a = b \<or> a = lit_Not b \<or> x = 2 \<or> x = 3" | (go) "a \<noteq> b" "a \<noteq> lit_Not b" "x \<noteq> 2" "x \<noteq> 3" by blast
  then show thesis
  proof cases
    case triv
    have swap: "b \<noteq> lit_Not a" if "a \<noteq> lit_Not b" using that lit_Not_eq_swap by metis
    define g where "g = (if a = b then a else if a = lit_Not b then 3 else if x = 3 then 3 else y)"
    have "C_And q a b = Some (q, g) \<and> C_And q b a = Some (q, g)" if "cF q = 3" "cT q = 2" for q :: "'z circ_scheme"
      using that triv swap unfolding g_def x_def y_def
      by (cases "a = b"; cases "a = lit_Not b"; cases "b < a") (auto simp: C_And_def)
    then show thesis by (rule simple)
  next
    case go
    have lt: "x < y" using go by (auto simp: x_def y_def)
    have "lit_Var x \<noteq> lit_Var y" using go lit_Var_eqD [of a b] by (auto simp: x_def y_def)
    moreover have "4 \<le> unat x" using lit_in_ge_2 [OF xy(1)] go(3,4) by (auto simp: word_eq_iff_unat)
    ultimately have ops: "and_operands p x y" using xy lt by (simp add: and_operands_def word_le_nat_alt)
    have swap: "b \<noteq> lit_Not a" using go(2) lit_Not_eq_swap by metis
    have "C_And q a b = And_node q x y \<and> C_And q b a = And_node q x y" if "cF q = 3" "cT q = 2" for q :: "'z circ_scheme"
      using that go swap unfolding x_def y_def by (cases "b < a") (auto simp: C_And_def)
    then show thesis using ops by (intro gate)
  qed
qed

lemma and_operands_ext: "circ_ext p c \<Longrightarrow> and_operands p a b \<Longrightarrow> and_operands c a b"
  by (auto simp: and_operands_def dest: lit_in_ext)

lemma gate_at_ext: "circ_ext p c \<Longrightarrow> gate_at p g a b \<Longrightarrow> gate_at c g a b"
  by (auto simp: gate_at_def circ_ext_def)

text \<open>\<^verbatim>\<open>And\<close> asked again, in any later state of the circuit and with its operands in either order.\<close>

lemma C_And_again:
  fixes p c d :: "'z circ_scheme"
  assumes wf: "circ_wf p" and room: "circ_room 1 p" and lits: "lit_in p a" "lit_in p b"
    and run: "C_And p a b = Some (c, g)"
    and later: "circ_ext c d" "circ_wf d" "canon d"
  shows "C_And d a b = Some (d, g) \<and> C_And d b a = Some (d, g)"
  using wf lits
proof (cases rule: C_And_cases)
  case (simple h)
  have "g = h" using simple [of p] run wf by (simp add: circ_wf_def)
  then show ?thesis using simple [of d] later(2) by (simp add: circ_wf_def)
next
  case (gate x y)
  have "And_node p x y = Some (c, g)" using gate(2) [of p] run wf by (simp add: circ_wf_def)
  then have "gate_post p x y (c, g)"
    using And_node_spec [OF wf room gate(1)] by (simp add: returns_def)
  then have "circ_ext p c" "gate_at c g x y" by (auto simp: gate_post_def and_post_def)
  then have "and_operands d x y" "gate_at d g x y"
    using gate(1) later(1) circ_ext_trans and_operands_ext gate_at_ext by blast+
  then show ?thesis
    using And_node_hit [OF later(2,3)] gate(2) [of d] later(2) by (simp add: circ_wf_def)
qed

section \<open>Properties\<close>

text \<open>A circuit with two inputs, as \<^verbatim>\<open>NewCCap(4)\<close> and two calls of \<^verbatim>\<open>Lit\<close> leave it; it is full.\<close>

definition two_inputs :: circ where
  "two_inputs = \<lparr>nodes = replicate 4 zero_node, ncap = 4, strash = replicate 4 0, cF = 3, cT = 2\<rparr>"

lemma replicate_4: "replicate 4 x = [x, x, x, x]"
  by (simp add: eval_nat_numeral)

lemma two_inputs_made:
  "(do { (c, x) \<leftarrow> C_Lit (NewCCap 4); (c, y) \<leftarrow> C_Lit c; Some (c, x, y) }) = Some (two_inputs, 4, 6)"
  by (simp add: C_Lit_def C_newNode_def NewCCap_def initC_def two_inputs_def var_Neg_1 var_Pos_def
      replicate_2 replicate_4)

lemma two_inputs_wf: "circ_wf two_inputs" "circ_room 1 two_inputs" "circ_room 3 two_inputs"
    "lit_in two_inputs 4" "lit_in two_inputs 6"
proof -
  show "circ_wf two_inputs"
    using initC_wf [of 4] by (auto simp: two_inputs_def initC_def circ_wf_def nth_Cons' replicate_4 replicate_2)
qed (simp_all add: circ_room_def two_inputs_def lit_in_def unat_lit_Var)

lemma two_inputs_canon: "canon two_inputs"
  by (auto simp: two_inputs_def canon_def strash_ok_def)

definition after_and :: circ where
  "after_and = \<lparr>nodes = replicate 4 zero_node @ [\<lparr>na = 4, nb = 6, nn = 0\<rparr>], ncap = 8,
     strash = (replicate 8 0)[3 := 4], cF = 3, cT = 2\<rparr>"

lemma after_and_made: "C_And two_inputs 4 6 = Some (after_and, 8)"
  by code_simp

lemma after_and_wf: "circ_wf after_and" "canon after_and" "circ_ext two_inputs after_and"
  using C_And_spec [OF two_inputs_wf(1,2,4,5)] two_inputs_canon
  by (auto simp: after_and_made and_post_def)

text \<open>
  (C9) \<^verbatim>\<open>C.And\<close> on a well-formed circuit with room for a node and operands of the circuit: it
  returns (no index panic, no endless walk of a hash chain, growth of the node slice included),
  the result is a literal of the new circuit whose value is the conjunction under every
  valuation of the inputs, at most one node is added, existing nodes keep their operands, and
  well-formedness and canonicity of the hash table are preserved.
\<close>

theorem And_correct:
  assumes "circ_wf p" and "circ_room 1 p" and "lit_in p a" and "lit_in p b"
  shows "\<exists>c g. C_And p a b = Some (c, g) \<and> circ_wf c \<and> lit_in c g \<and>
    (\<forall>\<rho>. lit_val (nodes c) \<rho> g = (lit_val (nodes p) \<rho> a \<and> lit_val (nodes p) \<rho> b)) \<and>
    (\<forall>\<rho> m. lit_in p m \<longrightarrow> lit_in c m \<and> lit_val (nodes c) \<rho> m = lit_val (nodes p) \<rho> m) \<and>
    length (nodes p) \<le> length (nodes c) \<and> length (nodes c) \<le> Suc (length (nodes p)) \<and>
    (canon p \<longrightarrow> canon c)"
proof -
  obtain c g where c: "C_And p a b = Some (c, g)"
    and post: "and_post p (\<lambda>\<rho>. lit_val (nodes p) \<rho> a \<and> lit_val (nodes p) \<rho> b) 1 (c, g)"
    using C_And_spec [OF assms] by (rule returnsE2)
  have "length (nodes p) \<le> length (nodes c)" using and_post_ext [OF post] by (simp add: circ_ext_def)
  moreover have "\<forall>\<rho> m. lit_in p m \<longrightarrow> lit_in c m \<and> lit_val (nodes c) \<rho> m = lit_val (nodes p) \<rho> m"
    by (intro allI impI conjI and_post_keeps [OF post] and_post_keeps_val [OF post]) simp_all
  moreover have "circ_wf c" "lit_in c g" "canon p \<longrightarrow> canon c" "length (nodes c) \<le> Suc (length (nodes p))"
      "\<forall>\<rho>. lit_val (nodes c) \<rho> g = (lit_val (nodes p) \<rho> a \<and> lit_val (nodes p) \<rho> b)"
    using post by (simp_all add: and_post_def)
  ultimately show ?thesis using c by blast
qed

lemma And_correct_witness:
  "\<exists>c g. C_And two_inputs 4 6 = Some (c, g) \<and> circ_wf c \<and> lit_in c g \<and>
    (\<forall>\<rho>. lit_val (nodes c) \<rho> g = (lit_val (nodes two_inputs) \<rho> 4 \<and> lit_val (nodes two_inputs) \<rho> 6))"
  using And_correct [OF two_inputs_wf(1,2,4,5)] by blast

text \<open>
  (C23) Structural hashing: when the hash table is complete, a repeated \<^verbatim>\<open>And\<close> of the same two
  operands, in either order and in any later canonical state of the circuit, returns the same
  literal and adds no node.
\<close>

theorem And_hash_consed:
  fixes p c d :: circ
  assumes "circ_wf p" and "circ_room 1 p" and "lit_in p a" and "lit_in p b"
    and "C_And p a b = Some (c, g)" and "circ_ext c d" and "circ_wf d" and "canon d"
  shows "C_And d a b = Some (d, g) \<and> C_And d b a = Some (d, g)"
  by (rule C_And_again [OF assms])

text \<open>The repeated call is made after another gate of one of the operands was added.\<close>

lemma And_hash_consed_witness:
  "\<exists>d. C_And after_and 4 7 = Some (d, 10) \<and> length (nodes d) = 6 \<and>
    C_And d 4 6 = Some (d, 8) \<and> C_And d 6 4 = Some (d, 8)"
proof -
  have room: "circ_room 1 after_and" "lit_in after_and 4" "lit_in after_and 7"
    by (simp_all add: circ_room_def after_and_def lit_in_def unat_lit_Var)
  let ?d = "\<lparr>nodes = replicate 4 zero_node @ [\<lparr>na = 4, nb = 6, nn = 0\<rparr>, \<lparr>na = 4, nb = 7, nn = 0\<rparr>],
     ncap = 8, strash = (replicate 8 0)[3 := 4, 0 := 5], cF = 3, cT = 2\<rparr>"
  have d: "C_And after_and 4 7 = Some (?d, 10)" by code_simp
  have "circ_wf ?d" "canon ?d" "circ_ext after_and ?d"
    using C_And_spec [OF after_and_wf(1) room] after_and_wf(2) by (auto simp: d and_post_def)
  then show ?thesis
    using d And_hash_consed [OF two_inputs_wf(1,2,4,5) after_and_made, of ?d] by simp
qed

text \<open>
  (C14) The derived gates: \<^verbatim>\<open>Or\<close>, \<^verbatim>\<open>Implies\<close>, \<^verbatim>\<open>Xor\<close>, \<^verbatim>\<open>Choice\<close>, \<^verbatim>\<open>Ands\<close> and \<^verbatim>\<open>Ors\<close> return, add at most
  one, one, three, three and as many nodes as there are arguments, preserve the circuit, and
  compute disjunction, implication, exclusive or, if-then-else, and the conjunction and
  disjunction of a list.
\<close>

theorem derived_gates_correct:
  assumes "circ_wf p" and "circ_room (max 3 (length ms)) p"
    and "lit_in p a" and "lit_in p b" and "lit_in p i" and "\<forall>m \<in> set ms. lit_in p m"
  shows "returns (C_Or p a b) (and_post p (\<lambda>\<rho>. lit_val (nodes p) \<rho> a \<or> lit_val (nodes p) \<rho> b) 1) \<and>
    returns (C_Implies p a b) (and_post p (\<lambda>\<rho>. lit_val (nodes p) \<rho> a \<longrightarrow> lit_val (nodes p) \<rho> b) 1) \<and>
    returns (C_Xor p a b) (and_post p (\<lambda>\<rho>. lit_val (nodes p) \<rho> a \<noteq> lit_val (nodes p) \<rho> b) 3) \<and>
    returns (C_Choice p i a b)
      (and_post p (\<lambda>\<rho>. if lit_val (nodes p) \<rho> i then lit_val (nodes p) \<rho> a else lit_val (nodes p) \<rho> b) 3) \<and>
    returns (C_Ands p ms) (and_post p (\<lambda>\<rho>. \<forall>m \<in> set ms. lit_val (nodes p) \<rho> m) (length ms)) \<and>
    returns (C_Ors p ms) (and_post p (\<lambda>\<rho>. \<exists>m \<in> set ms. lit_val (nodes p) \<rho> m) (length ms))"
proof -
  have "circ_room 1 p" "circ_room 3 p" "circ_room (length ms) p"
    using assms(2) by (auto simp: circ_room_def)
  then show ?thesis
    by (intro conjI C_Or_spec C_Implies_spec C_Xor_spec C_Choice_spec C_Ands_spec C_Ors_spec) (use assms in simp_all)
qed

lemma derived_gates_correct_witness:
  "returns (C_Xor two_inputs 4 6)
     (and_post two_inputs (\<lambda>\<rho>. lit_val (nodes two_inputs) \<rho> 4 \<noteq> lit_val (nodes two_inputs) \<rho> 6) 3)"
  using derived_gates_correct [of two_inputs "[4, 7]" 4 6 4] two_inputs_wf
  by (simp add: lit_in_def two_inputs_def circ_room_def unat_lit_Var)

text \<open>
  \<^verbatim>\<open>C.Copy\<close> allocates the copied node slice without spare capacity while it copies the hash
  table as it is.  \<^verbatim>\<open>And\<close> indexes the table modulo the capacity of the node slice, so the copy of
  a canonical circuit need not find its own gates: asked for an existing conjunction, the
  original answers with the gate and the copy adds a duplicate of it.
\<close>

theorem Copy_duplicates_gate:
  "canon after_and \<and> C_And after_and 4 6 = Some (after_and, 8) \<and> circ_wf (C_Copy after_and) \<and>
   (\<exists>d. C_And (C_Copy after_and) 4 6 = Some (d, 10) \<and>
      na (nodes d ! 5) = na (nodes d ! 4) \<and> nb (nodes d ! 5) = nb (nodes d ! 4))"
proof -
  let ?d = "\<lparr>nodes = replicate 4 zero_node @ [\<lparr>na = 4, nb = 6, nn = 0\<rparr>, \<lparr>na = 4, nb = 6, nn = 4\<rparr>],
     ncap = 10, strash = (replicate 10 0)[5 := 5], cF = 3, cT = 2\<rparr>"
  have "C_And after_and 4 6 = Some (after_and, 8)" by code_simp
  moreover have "C_And (C_Copy after_and) 4 6 = Some (?d, 10)" by code_simp
  moreover have "na (nodes ?d ! 5) = na (nodes ?d ! 4) \<and> nb (nodes ?d ! 5) = nb (nodes ?d ! 4)" by code_simp
  ultimately show ?thesis using after_and_wf C_Copy_wf by blast
qed

end
