(* ===== verification/CircuitEval.thy ===== *)
theory CircuitEval
  imports CircuitOps
begin

text \<open>
  \<^verbatim>\<open>Eval\<close> and \<^verbatim>\<open>Eval64\<close> of \<^verbatim>\<open>logic/c.go\<close>: evaluation of a circuit in place, on booleans and on 64
  valuations at once held in the bits of machine words.
\<close>

definition eval_step :: "node list \<Rightarrow> nat \<Rightarrow> bool list \<Rightarrow> bool list option" where
  "eval_step ns i vs = do {
     n \<leftarrow> aget ns i;
     if na n < 4 then Some vs
     else do {
       va \<leftarrow> aget vs (unat (lit_Var (na n)));
       vb \<leftarrow> aget vs (unat (lit_Var (nb n)));
       let va = (if lit_IsPos (na n) then va else \<not> va);
       let vb = (if lit_IsPos (nb n) then vb else \<not> vb);
       aset vs i (va \<and> vb)
     }
   }"

definition C_Eval :: "'z circ_scheme \<Rightarrow> bool list \<Rightarrow> bool list option" where
  "C_Eval c vs = do {
     vs \<leftarrow> aset vs 1 True;
     foldM (eval_step (nodes c)) [2..<length (nodes c)] vs
   }"

definition eval64_step :: "node list \<Rightarrow> nat \<Rightarrow> u64 list \<Rightarrow> u64 list option" where
  "eval64_step ns i vs = do {
     n \<leftarrow> aget ns i;
     if na n < 4 then Some vs
     else do {
       va \<leftarrow> aget vs (unat (lit_Var (na n)));
       vb \<leftarrow> aget vs (unat (lit_Var (nb n)));
       let va = (if lit_IsPos (na n) then va else NOT va);
       let vb = (if lit_IsPos (nb n) then vb else NOT vb);
       aset vs i (va AND vb)
     }
   }"

definition C_Eval64 :: "'z circ_scheme \<Rightarrow> u64 list \<Rightarrow> u64 list option" where
  "C_Eval64 c vs = do {
     vs \<leftarrow> aset vs 1 (push_bit 63 1 - 1);
     foldM (eval64_step (nodes c)) [2..<length (nodes c)] vs
   }"

section \<open>A common invariant\<close>

text \<open>
  \<open>f\<close> reads a boolean out of a cell: the identity for \<^verbatim>\<open>Eval\<close>, one bit for \<^verbatim>\<open>Eval64\<close>.  Below \<open>i\<close>
  the cells hold node values, from \<open>i\<close> on they are as the caller left them.
\<close>

definition eval_inv :: "('a \<Rightarrow> bool) \<Rightarrow> node list \<Rightarrow> 'a list \<Rightarrow> nat \<Rightarrow> 'a list \<Rightarrow> bool" where
  "eval_inv f ns vs0 i vs \<longleftrightarrow> length vs = length vs0 \<and>
     (\<forall>j < length vs. 2 \<le> j \<longrightarrow> j < i \<longrightarrow> f (vs ! j) = node_val ns (\<lambda>j. f (vs0 ! j)) j) \<and>
     (\<forall>j < length vs. i \<le> j \<or> j < 2 \<longrightarrow> vs ! j = vs0 ! j)"

lemma eval_inv_skip:
  assumes "eval_inv f ns vs0 i vs" and "\<not> is_and (ns ! i)" and "2 \<le> i"
  shows "eval_inv f ns vs0 (Suc i) vs"
  using assms by (auto simp: eval_inv_def less_Suc_eq node_val.simps [of ns _ i])

lemma eval_inv_gate:
  assumes inv: "eval_inv f ns vs0 i vs" and ok: "node_ok i (ns ! i)" and isn: "is_and (ns ! i)"
    and i: "i < length ns" "length ns \<le> length vs"
    and val: "f v \<longleftrightarrow> f (vs ! unat (lit_Var (na (ns ! i)))) = lit_IsPos (na (ns ! i)) \<and>
        f (vs ! unat (lit_Var (nb (ns ! i)))) = lit_IsPos (nb (ns ! i))"
  shows "eval_inv f ns vs0 (Suc i) (vs[i := v])"
proof -
  note ops = node_ok_operands [OF ok isn]
  have "f (vs ! unat (lit_Var (na (ns ! i)))) = node_val ns (\<lambda>j. f (vs0 ! j)) (unat (lit_Var (na (ns ! i))))"
    "f (vs ! unat (lit_Var (nb (ns ! i)))) = node_val ns (\<lambda>j. f (vs0 ! j)) (unat (lit_Var (nb (ns ! i))))"
    using inv ops i by (simp_all add: eval_inv_def)
  then have "f v = node_val ns (\<lambda>j. f (vs0 ! j)) i"
    using val ops isn i by (subst node_val.simps) simp
  then show ?thesis
    using inv i ops by (auto simp: eval_inv_def less_Suc_eq nth_list_update)
qed

lemma eval_step_inv:
  assumes inv: "eval_inv (\<lambda>b. b) ns vs0 i vs" and ok: "node_ok i (ns ! i)"
    and i: "2 \<le> i" "i < length ns" "length ns \<le> length vs0"
  shows "returns (eval_step ns i vs) (eval_inv (\<lambda>b. b) ns vs0 (Suc i))"
proof (cases "is_and (ns ! i)")
  case False
  then show ?thesis using eval_inv_skip [OF inv False i(1)] i by (simp add: eval_step_def is_and_def not_le)
next
  case True
  have len: "length vs = length vs0" using inv by (simp add: eval_inv_def)
  have "unat (lit_Var (na (ns ! i))) < length vs" "unat (lit_Var (nb (ns ! i))) < length vs"
    using node_ok_operands [OF ok True] i len by simp_all
  then show ?thesis
    using True i len eval_inv_gate [OF inv ok True i(2)]
    by (auto simp: eval_step_def is_and_def Let_def not_le [symmetric])
qed

lemma eval64_step_inv:
  assumes inv: "eval_inv (\<lambda>w. bit w k) ns vs0 i vs" and ok: "node_ok i (ns ! i)" and k: "k < 64"
    and i: "2 \<le> i" "i < length ns" "length ns \<le> length vs0"
  shows "returns (eval64_step ns i vs) (eval_inv (\<lambda>w. bit w k) ns vs0 (Suc i))"
proof (cases "is_and (ns ! i)")
  case False
  then show ?thesis using eval_inv_skip [OF inv False i(1)] i by (simp add: eval64_step_def is_and_def not_le)
next
  case True
  have len: "length vs = length vs0" using inv by (simp add: eval_inv_def)
  have "unat (lit_Var (na (ns ! i))) < length vs" "unat (lit_Var (nb (ns ! i))) < length vs"
    using node_ok_operands [OF ok True] i len by simp_all
  then show ?thesis
    using True i len k eval_inv_gate [OF inv ok True i(2)]
    by (auto simp: eval64_step_def is_and_def Let_def not_le [symmetric] bit_simps)
qed

section \<open>Properties\<close>

lemma node_val_inputs_cong:
  assumes "\<And>j. j < length ns \<Longrightarrow> j \<noteq> 1 \<Longrightarrow> \<rho> j = \<rho>' j" and "i < length ns"
  shows "node_val ns \<rho> i = node_val ns \<rho>' i"
  using assms(2)
proof (induction i rule: less_induct)
  case (less i)
  then show ?case using assms(1) [of i]
    by (subst (1 2) node_val.simps) auto
qed

lemma eval_inv_start: "eval_inv f ns vs 2 vs"
  by (simp add: eval_inv_def)

lemma C_Eval_inv:
  assumes wf: "circ_wf c" and len: "length (nodes c) \<le> length vs"
  shows "returns (C_Eval c vs) (eval_inv (\<lambda>b. b) (nodes c) (vs[1 := True]) (length (nodes c)))"
proof -
  let ?vs = "vs[1 := True]"
  have two: "2 \<le> length (nodes c)" using wf by (simp add: circ_wf_def)
  have "returns (foldM (eval_step (nodes c)) [2..<length (nodes c)] ?vs)
      (eval_inv (\<lambda>b. b) (nodes c) ?vs (length (nodes c)))"
    by (rule returns_foldM_upt [where I = "eval_inv _ _ _", OF eval_inv_start two])
      (use len wf in \<open>auto intro: eval_step_inv circ_wf_node_ok\<close>)
  then show ?thesis using two len by (auto simp: C_Eval_def)
qed

lemma C_Eval64_inv:
  assumes wf: "circ_wf c" and len: "length (nodes c) \<le> length vs" and k: "k < 64"
  shows "returns (C_Eval64 c vs)
    (eval_inv (\<lambda>w. bit w k) (nodes c) (vs[1 := push_bit 63 1 - 1]) (length (nodes c)))"
proof -
  let ?vs = "vs[1 := push_bit 63 1 - 1]"
  have two: "2 \<le> length (nodes c)" using wf by (simp add: circ_wf_def)
  have "returns (foldM (eval64_step (nodes c)) [2..<length (nodes c)] ?vs)
      (eval_inv (\<lambda>w. bit w k) (nodes c) ?vs (length (nodes c)))"
    by (rule returns_foldM_upt [where I = "eval_inv _ _ _", OF eval_inv_start two])
      (use len wf k in \<open>auto intro: eval64_step_inv circ_wf_node_ok\<close>)
  then show ?thesis using two len by (auto simp: C_Eval64_def)
qed

text \<open>
  \<^verbatim>\<open>C.Eval\<close> with a slice long enough for the circuit returns without a panic, leaves the
  length of the slice, cell 0, the cells of the inputs and the cells beyond the circuit as they were, and
  stores in the cell of every node the value of that node under the values the caller put in the
  input cells.
\<close>

theorem Eval_correct:
  assumes "circ_wf c" and "length (nodes c) \<le> length vs"
  shows "\<exists>ws. C_Eval c vs = Some ws \<and> length ws = length vs \<and>
    (\<forall>i. 1 \<le> i \<and> i < length (nodes c) \<longrightarrow> ws ! i = node_val (nodes c) (\<lambda>j. vs ! j) i) \<and>
    (\<forall>i < length vs. i = 0 \<or> length (nodes c) \<le> i \<longrightarrow> ws ! i = vs ! i)"
proof -
  obtain ws where ws: "C_Eval c vs = Some ws"
    and inv: "eval_inv (\<lambda>b. b) (nodes c) (vs[1 := True]) (length (nodes c)) ws"
    using C_Eval_inv [OF assms] by (rule returnsE)
  have two: "2 \<le> length (nodes c)" using assms by (simp add: circ_wf_def)
  have "ws ! i = node_val (nodes c) (\<lambda>j. vs ! j) i" if i: "1 \<le> i" "i < length (nodes c)" for i
  proof (cases "i = 1")
    case True
    then show ?thesis using inv assms two by (simp add: eval_inv_def)
  next
    case False
    then have "ws ! i = node_val (nodes c) (\<lambda>j. vs[1 := True] ! j) i"
      using inv i assms by (simp add: eval_inv_def)
    also have "\<dots> = node_val (nodes c) (\<lambda>j. vs ! j) i"
      by (rule node_val_inputs_cong) (use i in simp_all)
    finally show ?thesis .
  qed
  then show ?thesis using ws inv two by (auto simp: eval_inv_def)
qed

lemma Eval_correct_witness:
  "\<exists>ws. C_Eval after_and [False, False, True, False, True, True] = Some ws \<and> length ws = 6 \<and>
    ws ! 4 = node_val (nodes after_and) (\<lambda>j. [False, False, True, False, True, True] ! j) 4"
  using Eval_correct [OF after_and_wf(1), of "[False, False, True, False, True, True]"]
  by (auto simp: after_and_def)

text \<open>
  (C16) \<^verbatim>\<open>C.Eval64\<close> evaluates every input and gate correctly on all 64 bit positions at once, but not
  the constant node 1: its cell is set to \<^verbatim>\<open>(1 << 63) - 1\<close>, so the node that is true in every
  valuation reads true at positions 0 to 62 and false at position 63.
\<close>

theorem Eval64_correct:
  assumes "circ_wf c" and "length (nodes c) \<le> length vs"
  shows "\<exists>ws. C_Eval64 c vs = Some ws \<and> length ws = length vs \<and>
    (\<forall>k < 64. \<forall>i. 2 \<le> i \<and> i < length (nodes c) \<longrightarrow>
       bit (ws ! i) k = node_val (nodes c) (\<lambda>j. bit (vs ! j) k) i) \<and>
    (\<forall>k < 63. bit (ws ! 1) k) \<and> \<not> bit (ws ! 1) 63"
proof -
  let ?m = "push_bit 63 1 - 1 :: u64"
  obtain ws where ws: "C_Eval64 c vs = Some ws"
    using C_Eval64_inv [OF assms, of 0] by (auto elim: returnsE)
  have inv: "eval_inv (\<lambda>w. bit w k) (nodes c) (vs[1 := ?m]) (length (nodes c)) ws" if "k < 64" for k
    using C_Eval64_inv [OF assms that] ws by simp
  have two: "2 \<le> length (nodes c)" using assms by (simp add: circ_wf_def)
  have gates: "bit (ws ! i) k = node_val (nodes c) (\<lambda>j. bit (vs ! j) k) i"
    if i: "2 \<le> i" "i < length (nodes c)" and k: "k < 64" for i k
  proof -
    have "bit (ws ! i) k = node_val (nodes c) (\<lambda>j. bit (vs[1 := ?m] ! j) k) i"
      using inv [OF k] i assms by (simp add: eval_inv_def)
    also have "\<dots> = node_val (nodes c) (\<lambda>j. bit (vs ! j) k) i"
      by (rule node_val_inputs_cong) (use i in simp_all)
    finally show ?thesis .
  qed
  have "ws ! 1 = ?m" using inv [of 0] two assms by (simp add: eval_inv_def)
  moreover have "?m = mask 63" by (simp add: mask_eq_exp_minus_1 push_bit_eq_mult)
  ultimately have "ws ! 1 = mask 63" by simp
  then have "\<forall>k < 63. bit (ws ! 1) k" "\<not> bit (ws ! 1) 63" by (simp_all add: bit_mask_iff)
  moreover have "length ws = length vs" using inv [of 0] by (simp add: eval_inv_def)
  ultimately show ?thesis using ws gates by blast
qed

lemma Eval64_correct_witness:
  "\<exists>ws. C_Eval64 after_and [0, 0, 5, 3, 0] = Some ws \<and> \<not> bit (ws ! 1) 63"
  using Eval64_correct [OF after_and_wf(1), of "[0, 0, 5, 3, 0]"] by (auto simp: after_and_def)

end
