(* ===== verification/CircuitCnf.thy ===== *)
theory CircuitCnf
  imports CircuitOps
begin

text \<open>
  Clausal form of circuits, \<^verbatim>\<open>logic/c.go\<close>: \<^verbatim>\<open>ToCnf\<close>, \<^verbatim>\<open>ToCnfFrom\<close> and the incremental
  \<^verbatim>\<open>CnfSince\<close>.  The destination is an \<^verbatim>\<open>inter.Adder\<close>, of which the code uses nothing but the
  calls \<^verbatim>\<open>Add(m)\<close>, so the effect of the translation is the sequence of these calls, a literal
  stream in the sense of theory Literals.
\<close>

definition addAnd :: "lit \<Rightarrow> lit \<Rightarrow> lit \<Rightarrow> lit list" where
  "addAnd g a b =
     [lit_Not g, a, LitNull, lit_Not g, b, LitNull, g, lit_Not a, lit_Not b, LitNull]"

definition cnf_node :: "'z circ_scheme \<Rightarrow> nat \<Rightarrow> lit list" where
  "cnf_node c i =
     (let n = nodes c ! i; a = na n in
      if a = LitNull \<or> a = cF c \<or> a = cT c then []
      else addAnd (var_Pos (of_nat i)) a (nb n))"

definition C_ToCnf :: "'z circ_scheme \<Rightarrow> lit list" where
  "C_ToCnf c = [cT c, LitNull] @ concat (map (cnf_node c) [1..<length (nodes c)])"

text \<open>
  Marks are bytes.  The state of the depth first visit is the mark slice, the calls made on the
  destination so far, and the running total.
\<close>

type_synonym i8 = "8 word"

partial_function (option) cnf_vis ::
  "node list \<Rightarrow> lit \<Rightarrow> lit \<Rightarrow> lit \<Rightarrow> i8 list \<times> lit list \<times> nat \<Rightarrow> (i8 list \<times> lit list \<times> nat) option" where
  "cnf_vis ns T F m st = do {
     let v = unat (lit_Var m);
     mv \<leftarrow> aget (fst st) v;
     if mv = 1 then Some st
     else do {
       n \<leftarrow> aget ns v;
       if na n = LitNull \<or> na n = T \<or> na n = F then do {
         mark \<leftarrow> aset (fst st) v 1;
         Some (mark, snd st)
       } else do {
         st \<leftarrow> cnf_vis ns T F (na n) st;
         st \<leftarrow> cnf_vis ns T F (nb n) st;
         let g = (if lit_IsPos m then m else lit_Not m);
         mark \<leftarrow> aset (fst st) v 1;
         Some (mark, fst (snd st) @ addAnd g (na n) (nb n), snd (snd st) + 1)
       }
     }
   }"

declare cnf_vis.simps [code]

text \<open>\<open>mcap\<close> is the capacity of the slice \<open>mark\<close>; the nil slice is \<open>[]\<close> with capacity 0.\<close>

definition cnf_marks :: "nat \<Rightarrow> nat \<Rightarrow> i8 list \<Rightarrow> i8 list" where
  "cnf_marks n mcap mark =
     (let mark = (if mcap < n then take (n * 5 div 3) mark @ replicate (n * 5 div 3 - length mark) 0
                  else if length mark < n then mark @ replicate (n - length mark) 0
                  else mark)
      in take n mark)"

definition C_CnfSince ::
  "'z circ_scheme \<Rightarrow> nat \<Rightarrow> i8 list \<Rightarrow> lit list \<Rightarrow> (i8 list \<times> lit list \<times> nat) option" where
  "C_CnfSince c mcap mark roots = do {
     let mark = cnf_marks (length (nodes c)) mcap mark;
     m1 \<leftarrow> aget mark 1;
     st \<leftarrow> (if m1 \<noteq> 1 then do { mark \<leftarrow> aset mark 1 1; Some (mark, [cT c, LitNull], 1) }
           else Some (mark, [], 0));
     foldM (cnf_vis (nodes c) (cT c) (cF c)) roots st
   }"

definition C_ToCnfFrom :: "'z circ_scheme \<Rightarrow> lit list \<Rightarrow> (lit list) option" where
  "C_ToCnfFrom c roots = do { (_, out, _) \<leftarrow> C_CnfSince c 0 [] roots; Some out }"

section \<open>The clauses of a gate\<close>

definition gate_cnf :: "node list \<Rightarrow> nat \<Rightarrow> lit list list" where
  "gate_cnf ns i =
     (let g = var_Pos (of_nat i); a = na (ns ! i); b = nb (ns ! i) in
      [[lit_Not g, a], [lit_Not g, b], [g, lit_Not a, lit_Not b]])"

lemma gate_cnf_true:
  assumes "i < 2 ^ 31"
  shows "cnf_true \<sigma> (gate_cnf ns i) \<longleftrightarrow>
    \<sigma> (of_nat i) = (lit_true \<sigma> (na (ns ! i)) \<and> lit_true \<sigma> (nb (ns ! i)))"
  using assms by (auto simp: gate_cnf_def Let_def)

lemma addAnd_gate: "addAnd (var_Pos (of_nat i)) (na (ns ! i)) (nb (ns ! i)) = cnf_stream (gate_cnf ns i)"
  by (simp add: addAnd_def gate_cnf_def Let_def)

lemma lit_Not_LitNull:
  assumes "2 \<le> unat m"
  shows "lit_Not m \<noteq> LitNull" "m \<noteq> LitNull" "LitNull \<noteq> lit_Not m" "LitNull \<noteq> m"
proof -
  show "lit_Not m \<noteq> LitNull" "m \<noteq> LitNull"
    using assms by (auto simp: LitNull_def word_eq_iff_unat unat_lit_Not)
  then show "LitNull \<noteq> lit_Not m" "LitNull \<noteq> m" by simp_all
qed

lemma gate_cnf_proper:
  assumes "circ_wf c" "i < length (nodes c)" "is_and (nodes c ! i)" "length (nodes c) \<le> 2 ^ 31"
    and "d \<in> set (gate_cnf (nodes c) i)"
  shows "LitNull \<notin> set d"
proof -
  note ops = node_ok_operands [OF circ_wf_node_ok [OF assms(1,2)] assms(3)]
  have "2 \<le> unat (na (nodes c ! i))" "2 \<le> unat (nb (nodes c ! i))"
    using ops(1,2) by (simp_all add: unat_lit_Var)
  moreover have "i > 1" using ops by simp
  then have "2 \<le> unat (var_Pos (of_nat i) :: lit)" using assms(2,4) by (simp add: unat_var_Pos)
  ultimately show ?thesis
    using assms(5) lit_Not_LitNull(3,4) [of "na (nodes c ! i)"] lit_Not_LitNull(3,4) [of "nb (nodes c ! i)"]
      lit_Not_LitNull(3,4) [of "var_Pos (of_nat i)"]
    by (auto simp: gate_cnf_def Let_def)
qed

text \<open>\<open>\<sigma>\<close> read as a valuation of node indices.\<close>

definition node_of :: "assignment \<Rightarrow> nat \<Rightarrow> bool" where
  "node_of \<sigma> j = \<sigma> (of_nat j)"

text \<open>
  If \<open>\<sigma>\<close> makes node 1 true and satisfies the clauses of all gates of a set closed under
  operands, then it gives every gate of the set its value.
\<close>

lemma gates_determined:
  assumes wf: "circ_wf c" and len: "length (nodes c) \<le> 2 ^ 31" and one: "\<sigma> 1"
    and closed: "\<And>i. i \<in> S \<Longrightarrow> is_and (nodes c ! i) \<Longrightarrow>
        unat (lit_Var (na (nodes c ! i))) \<in> S \<and> unat (lit_Var (nb (nodes c ! i))) \<in> S"
    and sat: "\<And>i. i \<in> S \<Longrightarrow> is_and (nodes c ! i) \<Longrightarrow> cnf_true \<sigma> (gate_cnf (nodes c) i)"
    and i: "i \<in> S" "i < length (nodes c)"
  shows "\<sigma> (of_nat i) = node_val (nodes c) (node_of \<sigma>) i"
  using i
proof (induction i rule: less_induct)
  case (less i)
  let ?a = "na (nodes c ! i)" and ?b = "nb (nodes c ! i)"
  consider "i = 1" | "i \<noteq> 1" "\<not> is_and (nodes c ! i)" | "i \<noteq> 1" "is_and (nodes c ! i)" by blast
  then show ?case
  proof cases
    case 3
    note ops = node_ok_operands [OF circ_wf_node_ok [OF wf less.prems(2)] 3(2)]
    have "\<sigma> (lit_Var ?a) = node_val (nodes c) (node_of \<sigma>) (unat (lit_Var ?a))"
      "\<sigma> (lit_Var ?b) = node_val (nodes c) (node_of \<sigma>) (unat (lit_Var ?b))"
      using less.IH [OF ops(3)] less.IH [OF ops(4)] closed [OF less.prems(1) 3(2)] ops less.prems
      by simp_all
    then show ?thesis
      using sat [OF less.prems(1) 3(2)] gate_cnf_true [of i \<sigma> "nodes c"] less.prems len ops 3
      by (subst node_val.simps) (simp add: lit_true_def)
  qed (use one in \<open>simp_all add: node_val.simps node_of_def\<close>)
qed

text \<open>Conversely, the values of the nodes satisfy the clauses of every gate.\<close>

definition node_assignment :: "node list \<Rightarrow> (nat \<Rightarrow> bool) \<Rightarrow> assignment" where
  "node_assignment ns \<rho> v = node_val ns \<rho> (unat v)"

lemma lit_true_node_assignment: "lit_true (node_assignment ns \<rho>) m = lit_val ns \<rho> m"
  by (simp add: lit_true_def lit_val_def node_assignment_def)

lemma gate_cnf_sat:
  assumes wf: "circ_wf c" and len: "length (nodes c) \<le> 2 ^ 31"
    and i: "i < length (nodes c)" "is_and (nodes c ! i)"
  shows "cnf_true (node_assignment (nodes c) \<rho>) (gate_cnf (nodes c) i)"
proof -
  have ok: "node_ok i (nodes c ! i)" by (rule circ_wf_node_ok [OF wf i(1)])
  have ui: "unat (of_nat i :: u32) = i" "1 < i" "i < 2 ^ 31" using i len node_ok_operands [OF ok i(2)] by simp_all
  have "lit_val (nodes c) \<rho> (var_Pos (of_nat i)) = node_val (nodes c) \<rho> i"
    using ui by (simp add: lit_val_def)
  then have "node_assignment (nodes c) \<rho> (of_nat i) =
      (lit_val (nodes c) \<rho> (na (nodes c ! i)) \<and> lit_val (nodes c) \<rho> (nb (nodes c ! i)))"
    using lit_val_and_node [OF i(1) ok i(2) ui(2,3,1)] ui by (simp add: node_assignment_def)
  then show ?thesis
    using gate_cnf_true [of i] i len by (simp add: lit_true_node_assignment)
qed

section \<open>The whole circuit\<close>

definition circ_cnf :: "'z circ_scheme \<Rightarrow> lit list list" where
  "circ_cnf c = [cT c] # concat (map (gate_cnf (nodes c)) [i \<leftarrow> [1..<length (nodes c)]. is_and (nodes c ! i)])"

lemma cnf_node_if:
  assumes "circ_wf c" "i < length (nodes c)"
  shows "cnf_node c i = (if is_and (nodes c ! i) then cnf_stream (gate_cnf (nodes c) i) else [])"
proof (cases "is_and (nodes c ! i)")
  case True
  then have "4 \<le> unat (na (nodes c ! i))" by (simp add: is_and_iff)
  then have "na (nodes c ! i) \<notin> {LitNull, 2, 3}" by (auto simp: LitNull_def)
  then show ?thesis using True assms(1) addAnd_gate [of i] by (auto simp: cnf_node_def circ_wf_def Let_def)
next
  case False
  then have "na (nodes c ! i) \<in> {0, 2, 3}" using circ_wf_node_ok [OF assms] by (auto simp: node_ok_def)
  then show ?thesis using False assms(1) by (auto simp: cnf_node_def circ_wf_def LitNull_def)
qed

lemma concat_map_if: "concat (map (\<lambda>i. if P i then f i else []) xs) = concat (map f (filter P xs))"
  by (induction xs) simp_all

lemma C_ToCnf_circ_cnf:
  assumes "circ_wf c"
  shows "C_ToCnf c = cnf_stream (circ_cnf c)"
proof -
  have "concat (map (cnf_node c) [1..<length (nodes c)]) =
      concat (map (\<lambda>i. if is_and (nodes c ! i) then cnf_stream (gate_cnf (nodes c) i) else []) [1..<length (nodes c)])"
    by (rule arg_cong [where f = concat], rule map_cong) (use cnf_node_if [OF assms] in auto)
  then show ?thesis
    by (simp add: C_ToCnf_def circ_cnf_def concat_map_if cnf_stream_concat o_def)
qed

lemma circ_cnf_proper:
  assumes "circ_wf c" "length (nodes c) \<le> 2 ^ 31"
  shows "\<forall>d \<in> set (circ_cnf c). LitNull \<notin> set d"
proof -
  have "cT c = 2" using assms by (simp add: circ_wf_def)
  then show ?thesis
    using gate_cnf_proper [OF assms(1) _ _ assms(2)] by (auto simp: circ_cnf_def LitNull_def)
qed

lemma circ_cnf_true:
  "cnf_true \<sigma> (circ_cnf c) \<longleftrightarrow> lit_true \<sigma> (cT c) \<and>
     (\<forall>i. 1 \<le> i \<and> i < length (nodes c) \<and> is_and (nodes c ! i) \<longrightarrow> cnf_true \<sigma> (gate_cnf (nodes c) i))"
  by (auto simp: circ_cnf_def cnf_true_def)

text \<open>
  (C13) Tseitin correctness of \<^verbatim>\<open>C.ToCnf\<close>: the calls it makes on the destination form complete
  clauses, and an assignment satisfies these clauses exactly when it makes node 1 true and
  gives every node of the circuit the value computed from its values of the inputs.
\<close>

theorem ToCnf_correct:
  assumes "circ_wf c" and "length (nodes c) \<le> 2 ^ 31"
  shows "stream_rest (C_ToCnf c) = [] \<and>
    (cnf_true \<sigma> (stream_cnf (C_ToCnf c)) \<longleftrightarrow>
     \<sigma> 1 \<and> (\<forall>i. 1 \<le> i \<and> i < length (nodes c) \<longrightarrow> \<sigma> (of_nat i) = node_val (nodes c) (\<lambda>j. \<sigma> (of_nat j)) i))"
    (is "_ \<and> (_ \<longleftrightarrow> ?agree)")
proof -
  have go: "stream_go [] (C_ToCnf c) = (circ_cnf c, [])"
    using stream_cnf_cnf_stream circ_cnf_proper [OF assms] by (simp add: C_ToCnf_circ_cnf [OF assms(1)])
  have T: "lit_true \<sigma> (cT c) = \<sigma> 1" using assms by (simp add: circ_wf_def lit_true_def)
  have "cnf_true \<sigma> (circ_cnf c) = ?agree"
  proof
    assume sat: "cnf_true \<sigma> (circ_cnf c)"
    have closed: "unat (lit_Var (na (nodes c ! i))) \<in> {1..<length (nodes c)} \<and>
        unat (lit_Var (nb (nodes c ! i))) \<in> {1..<length (nodes c)}"
      if "i \<in> {1..<length (nodes c)}" "is_and (nodes c ! i)" for i
      using node_ok_operands [OF circ_wf_node_ok [OF assms(1)] that(2)] that(1) by auto
    have "\<sigma> (of_nat i) = node_val (nodes c) (node_of \<sigma>) i" if "1 \<le> i" "i < length (nodes c)" for i
      by (rule gates_determined [OF assms _ closed]) (use sat T that in \<open>auto simp: circ_cnf_true\<close>)
    then show ?agree using sat T by (auto simp: circ_cnf_true node_of_def [abs_def])
  next
    assume agree: ?agree
    let ?ns = "nodes c"
    have "cnf_true \<sigma> (gate_cnf ?ns i)" if i: "1 \<le> i" "i < length ?ns" "is_and (?ns ! i)" for i
    proof -
      have eq: "\<sigma> v = node_assignment ?ns (node_of \<sigma>) v" if "1 \<le> unat v" "unat v < length ?ns" for v
        using agree [THEN conjunct2, rule_format, of "unat v"] that
        by (simp add: node_assignment_def node_of_def [abs_def])
      note ops = node_ok_operands [OF circ_wf_node_ok [OF assms(1) i(2)] i(3)]
      have "lit_true \<sigma> (na (?ns ! i)) = lit_true (node_assignment ?ns (node_of \<sigma>)) (na (?ns ! i))"
        "lit_true \<sigma> (nb (?ns ! i)) = lit_true (node_assignment ?ns (node_of \<sigma>)) (nb (?ns ! i))"
        using eq ops i by (simp_all add: lit_true_def)
      moreover have "\<sigma> (of_nat i) = node_assignment ?ns (node_of \<sigma>) (of_nat i)"
        using eq [of "of_nat i"] i assms(2) by simp
      ultimately show ?thesis
        using gate_cnf_sat [OF assms i(2,3), of "node_of \<sigma>"] gate_cnf_true [of i] i assms(2) by simp
    qed
    then show "cnf_true \<sigma> (circ_cnf c)" using agree T by (simp add: circ_cnf_true)
  qed
  then show ?thesis using go by (simp add: stream_cnf_def stream_rest_def)
qed

lemma ToCnf_correct_witness:
  "cnf_true (\<lambda>v. v \<noteq> 2 \<and> v \<noteq> 4) (stream_cnf (C_ToCnf after_and)) \<longleftrightarrow>
   (\<forall>i. 1 \<le> i \<and> i < length (nodes after_and) \<longrightarrow>
      (i \<noteq> 2 \<and> i \<noteq> 4) = node_val (nodes after_and) (\<lambda>j. of_nat j \<noteq> (2 :: u32) \<and> of_nat j \<noteq> (4 :: u32)) i)"
proof -
  have "(of_nat i :: u32) = 2 \<longleftrightarrow> i = 2" "(of_nat i :: u32) = 4 \<longleftrightarrow> i = 4" if "i < 5" for i :: nat
    using that by (simp_all add: word_eq_iff_unat)
  then show ?thesis
    using ToCnf_correct [OF after_and_wf(1), of "\<lambda>v. v \<noteq> 2 \<and> v \<noteq> 4"] by (auto simp: after_and_def)
qed

section \<open>The part reachable from roots, incrementally\<close>

text \<open>Marks are closed when the operands of a marked gate are marked.\<close>

definition marks_closed :: "node list \<Rightarrow> i8 list \<Rightarrow> bool" where
  "marks_closed ns mk \<longleftrightarrow> (\<forall>v < length ns. mk ! v = 1 \<and> is_and (ns ! v) \<longrightarrow>
     mk ! unat (lit_Var (na (ns ! v))) = 1 \<and> mk ! unat (lit_Var (nb (ns ! v))) = 1)"

definition new_gates :: "node list \<Rightarrow> i8 list \<Rightarrow> i8 list \<Rightarrow> nat set" where
  "new_gates ns mk mk' = {u. u < length ns \<and> is_and (ns ! u) \<and> mk ! u \<noteq> 1 \<and> mk' ! u = 1}"

text \<open>
  What visits achieve: marks only grow, only inside \<open>K\<close>, and the clauses of the newly marked
  gates, each gate once, are appended to the output and counted.
\<close>

definition vis_rel :: "node list \<Rightarrow> nat set \<Rightarrow> i8 list \<times> lit list \<times> nat \<Rightarrow> i8 list \<times> lit list \<times> nat \<Rightarrow> bool" where
  "vis_rel ns K st st' \<longleftrightarrow>
     length (fst st') = length ns \<and> length (fst st) = length ns \<and> marks_closed ns (fst st') \<and>
     (\<forall>u < length ns. fst st ! u = 1 \<longrightarrow> fst st' ! u = 1) \<and>
     (\<forall>u < length ns. u \<notin> K \<longrightarrow> fst st' ! u = fst st ! u) \<and>
     (\<exists>vs. distinct vs \<and> set vs = new_gates ns (fst st) (fst st') \<and>
        fst (snd st') = fst (snd st) @ concat (map (\<lambda>v. cnf_stream (gate_cnf ns v)) vs) \<and>
        snd (snd st') = snd (snd st) + length vs)"

lemma vis_rel_refl:
  "length (fst st) = length ns \<Longrightarrow> marks_closed ns (fst st) \<Longrightarrow> vis_rel ns K st st"
  unfolding vis_rel_def new_gates_def by (intro conjI exI [of _ "[]"]) auto

lemma new_gates_trans:
  assumes "\<forall>u < length ns. mk ! u = 1 \<longrightarrow> mk' ! u = 1" "\<forall>u < length ns. mk' ! u = 1 \<longrightarrow> mk'' ! u = 1"
  shows "new_gates ns mk mk'' = new_gates ns mk mk' \<union> new_gates ns mk' mk''"
    and "new_gates ns mk mk' \<inter> new_gates ns mk' mk'' = {}"
  using assms by (auto simp: new_gates_def)

lemma vis_rel_trans:
  assumes 1: "vis_rel ns J st st'" and 2: "vis_rel ns K st' st''" and "J \<subseteq> L" "K \<subseteq> L"
  shows "vis_rel ns L st st''"
proof -
  obtain vs where vs: "distinct vs" "set vs = new_gates ns (fst st) (fst st')"
    "fst (snd st') = fst (snd st) @ concat (map (\<lambda>v. cnf_stream (gate_cnf ns v)) vs)"
    "snd (snd st') = snd (snd st) + length vs" using 1 by (auto simp: vis_rel_def)
  obtain ws where ws: "distinct ws" "set ws = new_gates ns (fst st') (fst st'')"
    "fst (snd st'') = fst (snd st') @ concat (map (\<lambda>v. cnf_stream (gate_cnf ns v)) ws)"
    "snd (snd st'') = snd (snd st') + length ws" using 2 by (auto simp: vis_rel_def)
  have grow: "\<forall>u < length ns. fst st ! u = 1 \<longrightarrow> fst st' ! u = 1" "\<forall>u < length ns. fst st' ! u = 1 \<longrightarrow> fst st'' ! u = 1"
    using 1 2 by (auto simp: vis_rel_def)
  have "distinct (vs @ ws)" "set (vs @ ws) = new_gates ns (fst st) (fst st'')"
    using vs(1,2) ws(1,2) new_gates_trans [OF grow] by auto
  then have "\<exists>vs. distinct vs \<and> set vs = new_gates ns (fst st) (fst st'') \<and>
        fst (snd st'') = fst (snd st) @ concat (map (\<lambda>v. cnf_stream (gate_cnf ns v)) vs) \<and>
        snd (snd st'') = snd (snd st) + length vs"
    using vs(3,4) ws(3,4) by (intro exI [of _ "vs @ ws"]) simp
  moreover have "fst st'' ! u = fst st ! u" if "u < length ns" "u \<notin> L" for u
    using 1 2 that assms(3,4) unfolding vis_rel_def by (metis subsetD)
  ultimately show ?thesis using 1 2 unfolding vis_rel_def by blast
qed

text \<open>Marking a gate whose operands are marked, and emitting its clauses; marking a leaf.\<close>

lemma vis_rel_mark:
  assumes len: "length (fst st) = length ns" and closed: "marks_closed ns (fst st)" and v: "v < length ns" "v \<in> K"
    and fresh: "fst st ! v \<noteq> 1"
    and ops: "is_and (ns ! v) \<Longrightarrow> fst st ! unat (lit_Var (na (ns ! v))) = 1 \<and> fst st ! unat (lit_Var (nb (ns ! v))) = 1"
    and st': "st' = ((fst st)[v := 1], if is_and (ns ! v)
       then (fst (snd st) @ cnf_stream (gate_cnf ns v), snd (snd st) + 1) else snd st)"
  shows "vis_rel ns K st st'"
proof -
  have "marks_closed ns ((fst st)[v := 1])"
    using closed ops len v by (auto simp: marks_closed_def nth_list_update)
  moreover have "new_gates ns (fst st) ((fst st)[v := 1]) = (if is_and (ns ! v) then {v} else {})"
    using v len fresh by (auto simp: new_gates_def nth_list_update split: if_splits)
  then have "\<exists>vs. distinct vs \<and> set vs = new_gates ns (fst st) (fst st') \<and>
        fst (snd st') = fst (snd st) @ concat (map (\<lambda>v. cnf_stream (gate_cnf ns v)) vs) \<and>
        snd (snd st') = snd (snd st) + length vs"
    using st' by (intro exI [of _ "if is_and (ns ! v) then [v] else []"]) auto
  ultimately show ?thesis using len v st' by (simp add: vis_rel_def nth_list_update)
qed

definition operands_closed :: "node list \<Rightarrow> nat set \<Rightarrow> bool" where
  "operands_closed ns R \<longleftrightarrow> (\<forall>v \<in> R. v < length ns \<and> is_and (ns ! v) \<longrightarrow>
     unat (lit_Var (na (ns ! v))) \<in> R \<and> unat (lit_Var (nb (ns ! v))) \<in> R)"

lemma cnf_vis_spec:
  assumes wf: "circ_wf c" and R: "operands_closed (nodes c) R" and "unat (lit_Var m) \<in> R" and "unat (lit_Var m) < length (nodes c)"
    and "length (fst st) = length (nodes c)" and "marks_closed (nodes c) (fst st)"
  shows "returns (cnf_vis (nodes c) 2 3 m st) (\<lambda>st'. vis_rel (nodes c) (R \<inter> {..unat (lit_Var m)}) st st' \<and>
    fst st' ! unat (lit_Var m) = 1)"
  using assms(3-)
proof (induction "unat (lit_Var m)" arbitrary: m st rule: less_induct)
  case less
  let ?ns = "nodes c" and ?v = "unat (lit_Var m)"
  let ?K = "\<lambda>m. R \<inter> {..unat (lit_Var m)}"
  let ?n = "?ns ! ?v"
  have v: "?v < length ?ns" "?v < length (fst st)" using less.prems by simp_all
  have ok: "node_ok ?v ?n" by (rule circ_wf_node_ok [OF wf v(1)])
  consider (marked) "fst st ! ?v = 1" | (leaf) "fst st ! ?v \<noteq> 1" "\<not> is_and ?n" | (gate) "fst st ! ?v \<noteq> 1" "is_and ?n"
    by blast
  then show ?case
  proof cases
    case marked
    then show ?thesis using v less.prems by (subst cnf_vis.simps) (simp add: vis_rel_refl)
  next
    case leaf
    have "na ?n \<in> {0, 2, 3}" using ok leaf by (auto simp: node_ok_def)
    moreover have "vis_rel ?ns (?K m) st ((fst st)[?v := 1], snd st)"
      by (rule vis_rel_mark [where v = ?v]) (use less.prems leaf in auto)
    ultimately show ?thesis using leaf v
      by (subst cnf_vis.simps) (auto simp: Let_def LitNull_def)
  next
    case gate
    note ops = node_ok_operands [OF ok gate(2)]
    have inR: "unat (lit_Var (na ?n)) \<in> R" "unat (lit_Var (nb ?n)) \<in> R"
      using R less.prems(1) v(1) gate(2) by (auto simp: operands_closed_def)
    have na: "na ?n \<notin> {LitNull, 2, 3}" using gate(2) by (auto simp: is_and_iff LitNull_def)
    have g: "(if lit_IsPos m then m else lit_Not m) = var_Pos (of_nat ?v)"
      using var_Pos_lit_Var [of m] var_Pos_lit_Var [of "lit_Not m"] by simp
    obtain s1 where s1: "cnf_vis ?ns 2 3 (na ?n) st = Some s1"
      "vis_rel ?ns (?K (na ?n)) st s1" "fst s1 ! unat (lit_Var (na ?n)) = 1"
      using less.hyps [OF ops(3) inR(1) less_trans [OF ops(3) v(1)] less.prems(3,4)] by (rule returnsE) blast
    then have s1': "length (fst s1) = length ?ns" "marks_closed ?ns (fst s1)" by (auto simp: vis_rel_def)
    obtain s2 where s2: "cnf_vis ?ns 2 3 (nb ?n) s1 = Some s2"
      "vis_rel ?ns (?K (nb ?n)) s1 s2" "fst s2 ! unat (lit_Var (nb ?n)) = 1"
      using less.hyps [OF ops(4) inR(2) less_trans [OF ops(4) v(1)] s1'] by (rule returnsE) blast
    have rel: "vis_rel ?ns (R \<inter> {..<?v}) st s2"
      by (rule vis_rel_trans [OF s1(2) s2(2)]) (use ops in auto)
    then have s2': "length (fst s2) = length ?ns" "marks_closed ?ns (fst s2)" "fst s2 ! ?v \<noteq> 1"
      using gate(1) v by (auto simp: vis_rel_def)
    have "fst s2 ! unat (lit_Var (na ?n)) = 1" using s1(3) s2(2) ops v by (auto simp: vis_rel_def)
    then have "vis_rel ?ns (?K m) s2
        ((fst s2)[?v := 1], fst (snd s2) @ cnf_stream (gate_cnf ?ns ?v), snd (snd s2) + 1)"
      by (intro vis_rel_mark [where v = ?v]) (use s2' s2(3) gate v less.prems(1) in auto)
    then have "vis_rel ?ns (?K m) st
        ((fst s2)[?v := 1], fst (snd s2) @ cnf_stream (gate_cnf ?ns ?v), snd (snd s2) + 1)"
      by (rule vis_rel_trans [OF rel]) auto
    then show ?thesis using gate v na s1(1) s2(1) s2' g
      by (subst cnf_vis.simps) (simp add: Let_def addAnd_gate [symmetric])
  qed
qed

lemma cnf_roots_spec:
  assumes wf: "circ_wf c" and R: "operands_closed (nodes c) R"
    and "\<forall>m \<in> set roots. unat (lit_Var m) \<in> R \<and> unat (lit_Var m) < length (nodes c)"
    and "length (fst st) = length (nodes c)" and "marks_closed (nodes c) (fst st)"
  shows "returns (foldM (cnf_vis (nodes c) 2 3) roots st) (\<lambda>st'. vis_rel (nodes c) R st st' \<and>
    (\<forall>m \<in> set roots. fst st' ! unat (lit_Var m) = 1))"
  using assms(3-)
proof (induction roots arbitrary: st)
  case Nil
  then show ?case by (simp add: vis_rel_refl)
next
  case (Cons m roots)
  obtain s1 where s1: "cnf_vis (nodes c) 2 3 m st = Some s1"
    "vis_rel (nodes c) (R \<inter> {..unat (lit_Var m)}) st s1" "fst s1 ! unat (lit_Var m) = 1"
    using cnf_vis_spec [OF wf R, of m st] Cons.prems by (auto elim!: returnsE)
  then have s1': "length (fst s1) = length (nodes c)" "marks_closed (nodes c) (fst s1)" by (auto simp: vis_rel_def)
  obtain s2 where s2: "foldM (cnf_vis (nodes c) 2 3) roots s1 = Some s2" "vis_rel (nodes c) R s1 s2"
    "\<forall>m \<in> set roots. fst s2 ! unat (lit_Var m) = 1"
    using Cons.IH [OF _ s1'] Cons.prems(1) by (auto elim!: returnsE)
  have "vis_rel (nodes c) R st s2" by (rule vis_rel_trans [OF s1(2) s2(2)]) auto
  moreover have "fst s2 ! unat (lit_Var m) = 1" using s1(3) s2(2) Cons.prems(1) by (auto simp: vis_rel_def)
  ultimately show ?case using s1(1) s2(1,3) by simp
qed

text \<open>The nodes reachable from the roots.\<close>

inductive_set cone :: "node list \<Rightarrow> lit list \<Rightarrow> nat set" for ns roots where
  root: "m \<in> set roots \<Longrightarrow> unat (lit_Var m) \<in> cone ns roots"
| left: "v \<in> cone ns roots \<Longrightarrow> v < length ns \<Longrightarrow> is_and (ns ! v) \<Longrightarrow> unat (lit_Var (na (ns ! v))) \<in> cone ns roots"
| right: "v \<in> cone ns roots \<Longrightarrow> v < length ns \<Longrightarrow> is_and (ns ! v) \<Longrightarrow> unat (lit_Var (nb (ns ! v))) \<in> cone ns roots"

lemma cone_closed: "operands_closed ns (cone ns roots)"
  by (auto simp: operands_closed_def intro: cone.intros)

lemma cone_marked:
  assumes "marks_closed ns mk" and "\<forall>m \<in> set roots. mk ! unat (lit_Var m) = 1" and "v \<in> cone ns roots"
  shows "mk ! v = 1"
  using assms(3) by induction (use assms(1,2) in \<open>auto simp: marks_closed_def\<close>)

definition since_post :: "node list \<Rightarrow> i8 list \<Rightarrow> lit list \<Rightarrow> i8 list \<times> lit list \<times> nat \<Rightarrow> bool" where
  "since_post ns mk roots = (\<lambda>(mk', out, n).
     length mk' = length ns \<and> marks_closed ns mk' \<and>
     (\<forall>u < length ns. mk' ! u = 1 \<longleftrightarrow> mk ! u = 1 \<or> u = 1 \<or> u \<in> cone ns roots) \<and>
     (\<exists>vs. distinct vs \<and> set vs = new_gates ns mk mk' \<and> n = (if mk ! 1 = 1 then 0 else 1) + length vs \<and>
        out = (if mk ! 1 = 1 then [] else [2, LitNull]) @ concat (map (\<lambda>v. cnf_stream (gate_cnf ns v)) vs)))"

lemma cnf_marks_length: "length mark \<le> mcap \<Longrightarrow> length (cnf_marks n mcap mark) = n"
  by (auto simp: cnf_marks_def Let_def)

lemma C_CnfSince_spec:
  assumes wf: "circ_wf c" and roots: "\<forall>m \<in> set roots. unat (lit_Var m) < length (nodes c)"
    and mark: "length mark \<le> mcap" and closed: "marks_closed (nodes c) (cnf_marks (length (nodes c)) mcap mark)"
  shows "returns (C_CnfSince c mcap mark roots)
    (since_post (nodes c) (cnf_marks (length (nodes c)) mcap mark) roots)"
proof -
  let ?ns = "nodes c" and ?mk = "cnf_marks (length (nodes c)) mcap mark"
  have len: "length ?mk = length ?ns" by (rule cnf_marks_length [OF mark])
  have two: "1 < length ?ns" "\<not> is_and (?ns ! 1)" using wf by (auto simp: circ_wf_def)
  have lits: "cT c = 2" "cF c = 3" using wf by (auto simp: circ_wf_def)
  define st0 where "st0 = (?mk[1 := 1], if ?mk ! 1 = 1 then ([], 0) else ([2, LitNull], 1 :: nat))"
  have "?mk[1 := 1] = ?mk" if "?mk ! 1 = 1" using that by (metis list_update_id)
  then have start: "(if ?mk ! 1 \<noteq> 1 then do { mark \<leftarrow> aset ?mk 1 1; Some (mark, [cT c, LitNull], 1) }
      else Some (?mk, [], 0)) = Some st0"
    using two len lits by (auto simp: st0_def)
  have closed0: "marks_closed ?ns (fst st0)"
    using closed two len by (auto simp: marks_closed_def st0_def nth_list_update)
  have len0: "length (fst st0) = length ?ns" using len by (simp add: st0_def)
  have roots0: "\<forall>m \<in> set roots. unat (lit_Var m) \<in> cone ?ns roots \<and> unat (lit_Var m) < length ?ns"
    using roots by (auto intro: cone.root)
  obtain st where st: "foldM (cnf_vis ?ns 2 3) roots st0 = Some st" "vis_rel ?ns (cone ?ns roots) st0 st"
    "\<forall>m \<in> set roots. fst st ! unat (lit_Var m) = 1"
    using cnf_roots_spec [OF wf cone_closed roots0 len0 closed0] by (rule returnsE) blast
  obtain vs where vs: "distinct vs" "set vs = new_gates ?ns (fst st0) (fst st)"
    "fst (snd st) = fst (snd st0) @ concat (map (\<lambda>v. cnf_stream (gate_cnf ?ns v)) vs)"
    "snd (snd st) = snd (snd st0) + length vs" using st(2) by (auto simp: vis_rel_def)
  have "set vs = new_gates ?ns ?mk (fst st)"
    using vs(2) two len by (auto simp: new_gates_def st0_def nth_list_update)
  moreover have "fst st ! u = 1 \<longleftrightarrow> ?mk ! u = 1 \<or> u = 1 \<or> u \<in> cone ?ns roots" if "u < length ?ns" for u
  proof -
    have "fst st0 ! u = 1 \<longleftrightarrow> ?mk ! u = 1 \<or> u = 1" using two len that by (auto simp: st0_def nth_list_update)
    then show ?thesis using st(2,3) that cone_marked [of ?ns "fst st" roots u] by (auto simp: vis_rel_def)
  qed
  ultimately have "since_post ?ns ?mk roots st"
    using vs(1,3,4) st(2) by (cases st) (auto simp: since_post_def vis_rel_def st0_def)
  then show ?thesis
    using st(1) two len start lits by (simp add: C_CnfSince_def Let_def)
qed

section \<open>Properties of the incremental translation\<close>



text \<open>
  (C12) \<^verbatim>\<open>C.ToCnfFrom\<close> returns and emits complete clauses; an assignment satisfies them exactly
  when it makes node 1 true and gives every node reachable from the roots the value computed
  from its values of the inputs.  In particular the translation constrains nothing outside the
  cone of the roots.
\<close>

theorem ToCnfFrom_correct:
  assumes "circ_wf c" and "length (nodes c) \<le> 2 ^ 31" and "\<forall>m \<in> set roots. lit_in c m"
  shows "\<exists>out. C_ToCnfFrom c roots = Some out \<and> stream_rest out = [] \<and>
    (\<forall>\<sigma>. cnf_true \<sigma> (stream_cnf out) \<longleftrightarrow>
      \<sigma> 1 \<and> (\<forall>i \<in> cone (nodes c) roots. \<sigma> (of_nat i) = node_val (nodes c) (\<lambda>j. \<sigma> (of_nat j)) i))"
proof -
  let ?ns = "nodes c"
  let ?cone = "cone ?ns roots"
  have zero: "cnf_marks (length ?ns) 0 [] = replicate (length ?ns) 0"
    using assms(1) by (auto simp: cnf_marks_def Let_def circ_wf_def)
  have two: "1 < length ?ns" "\<not> is_and (?ns ! 1)" using assms(1) by (auto simp: circ_wf_def)
  have "returns (C_CnfSince c 0 [] roots) (since_post ?ns (replicate (length ?ns) 0) roots)"
    using C_CnfSince_spec [OF assms(1), of roots "[]" 0] assms(3)
    by (simp add: zero lit_in_def marks_closed_def)
  then obtain mk out n vs where run: "C_CnfSince c 0 [] roots = Some (mk, out, n)"
    and mk: "\<forall>u < length ?ns. mk ! u = 1 \<longleftrightarrow> u = 1 \<or> u \<in> ?cone"
    and vs: "set vs = new_gates ?ns (replicate (length ?ns) 0) mk"
    and out: "out = [2, LitNull] @ concat (map (\<lambda>v. cnf_stream (gate_cnf ?ns v)) vs)"
    using two by (auto simp: returns_def since_post_def)
  have gates: "set vs = {u \<in> ?cone. u < length ?ns \<and> is_and (?ns ! u)}"
    using vs mk two by (auto simp: new_gates_def)
  let ?cnf = "[2] # concat (map (gate_cnf ?ns) vs)"
  have "out = cnf_stream ?cnf" by (simp add: out cnf_stream_concat o_def)
  moreover have "\<forall>d \<in> set ?cnf. LitNull \<notin> set d"
    using gate_cnf_proper [OF assms(1) _ _ assms(2)] gates by (auto simp: LitNull_def)
  ultimately have go: "stream_go [] out = (?cnf, [])" by (simp only: stream_cnf_cnf_stream)
  have inside: "i < length ?ns \<and> 1 \<le> i" if "i \<in> ?cone" for i
    using that
  proof induction
    case (root m)
    then show ?case using assms(3) by (auto simp: lit_in_def)
  next
    case (left v)
    then show ?case using node_ok_operands [OF circ_wf_node_ok [OF assms(1)]] by force
  next
    case (right v)
    then show ?case using node_ok_operands [OF circ_wf_node_ok [OF assms(1)]] by force
  qed
  have sem: "cnf_true \<sigma> ?cnf \<longleftrightarrow> \<sigma> 1 \<and> (\<forall>i \<in> ?cone. is_and (?ns ! i) \<longrightarrow> cnf_true \<sigma> (gate_cnf ?ns i))" for \<sigma>
    using gates inside by (auto simp: cnf_true_def lit_true_def)
  have "cnf_true \<sigma> ?cnf \<longleftrightarrow> \<sigma> 1 \<and> (\<forall>i \<in> ?cone. \<sigma> (of_nat i) = node_val ?ns (node_of \<sigma>) i)" for \<sigma>
  proof
    assume sat: "cnf_true \<sigma> ?cnf"
    have "\<sigma> (of_nat i) = node_val ?ns (node_of \<sigma>) i" if "i \<in> ?cone" for i
      by (rule gates_determined [OF assms(1,2), where S = ?cone])
        (use sat sem that inside in \<open>auto intro: cone.intros\<close>)
    then show "\<sigma> 1 \<and> (\<forall>i \<in> ?cone. \<sigma> (of_nat i) = node_val ?ns (node_of \<sigma>) i)" using sat sem by blast
  next
    assume agree: "\<sigma> 1 \<and> (\<forall>i \<in> ?cone. \<sigma> (of_nat i) = node_val ?ns (node_of \<sigma>) i)"
    have "cnf_true \<sigma> (gate_cnf ?ns i)" if i: "i \<in> ?cone" "is_and (?ns ! i)" for i
    proof -
      have il: "i < length ?ns" using inside i by blast
      have eq: "\<sigma> v = node_assignment ?ns (node_of \<sigma>) v" if "unat v \<in> ?cone" for v
        using bspec [OF agree [THEN conjunct2] that] by (simp add: node_assignment_def)
      have "\<sigma> (lit_Var (na (?ns ! i))) = node_assignment ?ns (node_of \<sigma>) (lit_Var (na (?ns ! i)))"
        "\<sigma> (lit_Var (nb (?ns ! i))) = node_assignment ?ns (node_of \<sigma>) (lit_Var (nb (?ns ! i)))"
        using eq i il by (auto intro: cone.intros)
      moreover have "\<sigma> (of_nat i) = node_assignment ?ns (node_of \<sigma>) (of_nat i)"
        using eq [of "of_nat i"] i il assms(2) by simp
      ultimately show ?thesis
        using gate_cnf_sat [OF assms(1,2) il i(2), of "node_of \<sigma>"] gate_cnf_true [of i] il assms(2)
        by (simp add: lit_true_def)
    qed
    then show "cnf_true \<sigma> ?cnf" using agree sem by blast
  qed
  then show ?thesis
    using run go by (simp add: C_ToCnfFrom_def stream_cnf_def stream_rest_def node_of_def [abs_def])
qed

lemma ToCnfFrom_correct_witness:
  "\<exists>out. C_ToCnfFrom after_and [9] = Some out \<and> stream_rest out = []"
  using ToCnfFrom_correct [OF after_and_wf(1), of "[9]"]
  by (auto simp: after_and_def lit_in_def unat_lit_Var)

end
