(* ===== verification/SortNet.thy ===== *)
theory SortNet
  imports Prelude
begin

text \<open>
  Batcher's odd-even merge sort as a list of comparators (index pairs), in the order in which
  \<^verbatim>\<open>CardSort.sort\<close> of \<^verbatim>\<open>logic/card.go\<close> makes its compare-and-swaps, and the proof that it sorts
  every sequence of booleans whose length is a power of two.
\<close>

section \<open>The comparator network\<close>

definition last_pairs :: "nat \<Rightarrow> nat \<Rightarrow> nat \<Rightarrow> (nat \<times> nat) list" where
  "last_pairs l s n = map (\<lambda>k. (l + (2 * k + 1) * s, l + (2 * k + 2) * s)) [0..<n]"

fun merge_net :: "nat \<Rightarrow> nat \<Rightarrow> nat \<Rightarrow> (nat \<times> nat) list" where
  "merge_net 0 l s = []"
| "merge_net (Suc 0) l s = [(l, l + s)]"
| "merge_net (Suc (Suc q)) l s =
     merge_net (Suc q) l (2 * s) @ merge_net (Suc q) (l + s) (2 * s) @ last_pairs l s (2 ^ Suc q - 1)"

fun sort_net :: "nat \<Rightarrow> nat \<Rightarrow> (nat \<times> nat) list" where
  "sort_net 0 l = []"
| "sort_net (Suc q) l = sort_net q l @ sort_net q (l + 2 ^ q) @ merge_net (Suc q) l 1"

section \<open>The network on booleans\<close>

definition bcas :: "nat \<times> nat \<Rightarrow> bool list \<Rightarrow> bool list" where
  "bcas = (\<lambda>(i, j) bs. bs[i := bs ! i \<and> bs ! j, j := bs ! i \<or> bs ! j])"

definition brun :: "(nat \<times> nat) list \<Rightarrow> bool list \<Rightarrow> bool list" where
  "brun net bs = fold bcas net bs"

lemma brun_simps [simp]:
  "brun [] bs = bs" "brun (p # ps) bs = brun ps (bcas p bs)" "brun (ps @ qs) bs = brun qs (brun ps bs)"
  by (simp_all add: brun_def)

lemma length_bcas [simp]: "length (bcas p bs) = length bs"
  by (simp add: bcas_def split: prod.split)

lemma length_brun [simp]: "length (brun ps bs) = length bs"
  by (induction ps arbitrary: bs) simp_all

text \<open>\<open>block xs l s m z\<close>: the \<open>m\<close> cells from \<open>l\<close> in steps of \<open>s\<close> are \<open>z\<close> times false, then true.\<close>

definition block :: "bool list \<Rightarrow> nat \<Rightarrow> nat \<Rightarrow> nat \<Rightarrow> nat \<Rightarrow> bool" where
  "block xs l s m z \<longleftrightarrow> (\<forall>k < m. xs ! (l + k * s) = (z \<le> k))"

definition slots :: "nat \<Rightarrow> nat \<Rightarrow> nat \<Rightarrow> nat set" where
  "slots l s m = (\<lambda>k. l + k * s) ` {..<m}"

lemma slotI: "k < m \<Longrightarrow> l + k * s \<in> slots l s m"
  unfolding slots_def by blast

lemma odd_times: "0 < m \<Longrightarrow> (2 * m - 1) * s = (m - 1) * (2 * s) + (s :: nat)"
  by (cases m) (simp_all add: algebra_simps)

lemma slots_double: "slots l s (2 * n) = slots l (2 * s) n \<union> slots (l + s) (2 * s) n"
proof (intro equalityI subsetI)
  fix x assume "x \<in> slots l s (2 * n)"
  then obtain k where k: "k < 2 * n" "x = l + k * s" by (auto simp: slots_def)
  show "x \<in> slots l (2 * s) n \<union> slots (l + s) (2 * s) n"
  proof (cases "even k")
    case True
    then obtain j where "k = 2 * j" by blast
    then show ?thesis using k slotI [of j n l "2 * s"] by (simp add: algebra_simps)
  next
    case False
    then obtain j where "k = 2 * j + 1" by (blast elim: oddE)
    then show ?thesis using k slotI [of j n "l + s" "2 * s"] by (simp add: algebra_simps)
  qed
next
  fix x assume "x \<in> slots l (2 * s) n \<union> slots (l + s) (2 * s) n"
  then obtain k where "k < n" "x = l + (2 * k) * s \<or> x = l + (2 * k + 1) * s"
    by (auto simp: slots_def algebra_simps)
  then show "x \<in> slots l s (2 * n)"
    using slotI [of "2 * k" "2 * n" l s] slotI [of "2 * k + 1" "2 * n" l s] by auto
qed

lemma brun_pairs:
  fixes p q :: "nat \<Rightarrow> nat"
  assumes "inj p" "inj q" "\<And>i j. p i \<noteq> q j" "\<And>k. k < n \<Longrightarrow> p k < length bs \<and> q k < length bs"
  shows "(\<forall>k < n. brun (map (\<lambda>k. (p k, q k)) [0..<n]) bs ! p k = (bs ! p k \<and> bs ! q k) \<and>
            brun (map (\<lambda>k. (p k, q k)) [0..<n]) bs ! q k = (bs ! p k \<or> bs ! q k)) \<and>
    (\<forall>x. (\<forall>k < n. x \<noteq> p k \<and> x \<noteq> q k) \<longrightarrow> brun (map (\<lambda>k. (p k, q k)) [0..<n]) bs ! x = bs ! x)"
  using assms(4)
proof (induction n)
  case 0
  then show ?case by simp
next
  case (Suc n)
  let ?b = "brun (map (\<lambda>k. (p k, q k)) [0..<n]) bs"
  have ih: "\<And>k. k < n \<Longrightarrow> ?b ! p k = (bs ! p k \<and> bs ! q k)" "\<And>k. k < n \<Longrightarrow> ?b ! q k = (bs ! p k \<or> bs ! q k)"
    "\<And>x. (\<forall>k < n. x \<noteq> p k \<and> x \<noteq> q k) \<Longrightarrow> ?b ! x = bs ! x"
    using Suc by auto
  have inj: "p i = p j \<longleftrightarrow> i = j" "q i = q j \<longleftrightarrow> i = j" for i j using assms(1,2) by (auto dest: injD)
  have n: "?b ! p n = bs ! p n" "?b ! q n = bs ! q n"
    using ih(3) inj assms(3) by (metis less_irrefl)+
  have bound: "p n < length ?b" "q n < length ?b" using Suc.prems by simp_all
  show ?case
    using ih n bound inj assms(3) assms(3) [symmetric]
    by (auto simp: bcas_def nth_list_update less_Suc_eq)
qed

lemma slots_even_odd:
  assumes "0 < (s :: nat)"
  shows "l + (2 * i + 1) * s \<noteq> l + (2 * j) * s" "l + (2 * i + 1) * s \<noteq> l + (2 * j + 2) * s"
proof -
  have "(2 * i + 1) * s = (2 * j) * s \<longleftrightarrow> 2 * i + 1 = 2 * j" "(2 * i + 1) * s = (2 * j + 2) * s \<longleftrightarrow> 2 * i + 1 = 2 * j + 2"
    using assms by (simp_all only: mult_cancel2) simp_all
  moreover have "2 * i + 1 \<noteq> 2 * j" "2 * i + 1 \<noteq> 2 * j + 2" by presburger+
  ultimately show "l + (2 * i + 1) * s \<noteq> l + (2 * j) * s" "l + (2 * i + 1) * s \<noteq> l + (2 * j + 2) * s" by simp_all
qed

lemma block_even:
  assumes "block bs l s (2 * h) a"
  shows "block bs l (2 * s) h ((a + 1) div 2)"
  unfolding block_def
proof (intro allI impI)
  fix k assume "k < h"
  then have "bs ! (l + (2 * k) * s) = (a \<le> 2 * k)" using assms by (auto simp: block_def)
  moreover have "l + (2 * k) * s = l + k * (2 * s)" by simp
  moreover have "a \<le> 2 * k \<longleftrightarrow> (a + 1) div 2 \<le> k" by linarith
  ultimately show "bs ! (l + k * (2 * s)) = ((a + 1) div 2 \<le> k)" by metis
qed

lemma block_odd:
  assumes "block bs l s (2 * h) a"
  shows "block bs (l + s) (2 * s) h (a div 2)"
  unfolding block_def
proof (intro allI impI)
  fix k assume "k < h"
  then have "2 * k + 1 < 2 * h" by simp
  then have "bs ! (l + (2 * k + 1) * s) = (a \<le> 2 * k + 1)" using assms unfolding block_def by blast
  moreover have "l + (2 * k + 1) * s = l + s + k * (2 * s)" by simp
  moreover have "a \<le> 2 * k + 1 \<longleftrightarrow> a div 2 \<le> k" by linarith
  ultimately show "bs ! (l + s + k * (2 * s)) = (a div 2 \<le> k)" by metis
qed

lemma block_cong:
  assumes "block xs l s m z" and "\<And>k. k < m \<Longrightarrow> ys ! (l + k * s) = xs ! (l + k * s)"
  shows "block ys l s m z"
  using assms by (simp add: block_def)

lemma half_sums:
  fixes a b k :: nat
  shows "a div 2 + b div 2 \<le> k \<and> (a + 1) div 2 + (b + 1) div 2 \<le> k + 1 \<longleftrightarrow> a + b \<le> 2 * k + 1"
    and "a div 2 + b div 2 \<le> k \<or> (a + 1) div 2 + (b + 1) div 2 \<le> k + 1 \<longleftrightarrow> a + b \<le> 2 * k + 2"
proof -
  define x \<alpha> y \<beta> where "x = a div 2" and "\<alpha> = a mod 2" and "y = b div 2" and "\<beta> = b mod 2"
  have eq: "a = 2 * x + \<alpha>" "b = 2 * y + \<beta>" and "\<alpha> < 2" "\<beta> < 2"
    by (simp_all add: x_def \<alpha>_def y_def \<beta>_def)
  then have cases: "(\<alpha> = 0 \<or> \<alpha> = 1) \<and> (\<beta> = 0 \<or> \<beta> = 1)" by linarith
  show "a div 2 + b div 2 \<le> k \<and> (a + 1) div 2 + (b + 1) div 2 \<le> k + 1 \<longleftrightarrow> a + b \<le> 2 * k + 1"
    "a div 2 + b div 2 \<le> k \<or> (a + 1) div 2 + (b + 1) div 2 \<le> k + 1 \<longleftrightarrow> a + b \<le> 2 * k + 2"
    unfolding eq using cases by (elim conjE disjE; simp; linarith)+
qed

text \<open>The last column of the merger repairs an interleaving of two sorted sequences.\<close>

lemma last_pairs_block:
  assumes s: "0 < s" and n: "0 < n" "even n" and ab: "a \<le> n" "b \<le> n" and len: "l + (2 * n - 1) * s < length bs"
    and even: "block bs l (2 * s) n ((a + 1) div 2 + (b + 1) div 2)"
    and odd: "block bs (l + s) (2 * s) n (a div 2 + b div 2)"
  shows "block (brun (last_pairs l s (n - 1)) bs) l s (2 * n) (a + b) \<and>
    (\<forall>x. x \<notin> slots l s (2 * n) \<longrightarrow> brun (last_pairs l s (n - 1)) bs ! x = bs ! x)"
proof -
  let ?p = "\<lambda>k. l + (2 * k + 1) * s" and ?q = "\<lambda>k. l + (2 * k + 2) * s"
  let ?b = "brun (last_pairs l s (n - 1)) bs"
  have E: "bs ! (l + (2 * k) * s) = ((a + 1) div 2 + (b + 1) div 2 \<le> k)" if "k < n" for k
    using even that unfolding block_def by (metis mult.commute mult.left_commute)
  have O: "bs ! ?p k = (a div 2 + b div 2 \<le> k)" if "k < n" for k
  proof -
    have "l + s + k * (2 * s) = ?p k" by simp
    then show ?thesis using odd that unfolding block_def by metis
  qed
  have bound: "?p k < length bs \<and> ?q k < length bs" if "k < n - 1" for k
  proof -
    have "(2 * k + 2) * s \<le> (2 * n - 1) * s" "(2 * k + 1) * s \<le> (2 * n - 1) * s"
      using that by (intro mult_right_mono; simp)+
    then show ?thesis using len by linarith
  qed
  have inj: "inj ?p" "inj ?q" using s by (auto intro!: injI)
  have run: "\<And>k. k < n - 1 \<Longrightarrow> ?b ! ?p k = (bs ! ?p k \<and> bs ! ?q k)"
    "\<And>k. k < n - 1 \<Longrightarrow> ?b ! ?q k = (bs ! ?p k \<or> bs ! ?q k)"
    "\<And>x. (\<forall>k < n - 1. x \<noteq> ?p k \<and> x \<noteq> ?q k) \<Longrightarrow> ?b ! x = bs ! x"
    using brun_pairs [OF inj slots_even_odd(2) [OF s] bound, where n = "n - 1"]
    unfolding last_pairs_def by blast+
  have "?b ! (l + K * s) = (a + b \<le> K)" if K: "K < 2 * n" for K
  proof -
    consider (first) "K = 0" | (last) "K = 2 * (n - 1) + 1"
      | (low) k where "k < n - 1" "K = 2 * k + 1" | (high) k where "k < n - 1" "K = 2 * k + 2"
    proof -
      assume *: "K = 0 \<Longrightarrow> thesis" "K = 2 * (n - 1) + 1 \<Longrightarrow> thesis"
        "\<And>k. k < n - 1 \<Longrightarrow> K = 2 * k + 1 \<Longrightarrow> thesis" "\<And>k. k < n - 1 \<Longrightarrow> K = 2 * k + 2 \<Longrightarrow> thesis"
      have "K = 0 \<or> K = 2 * (n - 1) + 1 \<or> (K div 2 < n - 1 \<and> K = 2 * (K div 2) + 1) \<or>
          ((K - 1) div 2 < n - 1 \<and> K = 2 * ((K - 1) div 2) + 2)" using K n(1) by presburger
      then show thesis using * by blast
    qed
    then show ?thesis
    proof cases
      case first
      have "\<forall>k < n - 1. l + 0 * s \<noteq> ?p k \<and> l + 0 * s \<noteq> ?q k" using s by simp
      then have "?b ! (l + 0 * s) = bs ! (l + 0 * s)" by (rule run(3))
      moreover have "(a + 1) div 2 + (b + 1) div 2 \<le> 0 \<longleftrightarrow> a + b \<le> 0" by presburger
      ultimately show ?thesis using E [of 0] n(1) first by simp
    next
      case last
      have "\<forall>k < n - 1. ?p (n - 1) \<noteq> ?p k \<and> ?p (n - 1) \<noteq> ?q k"
        using inj(1) slots_even_odd(2) [OF s] by (auto dest: injD)
      then have "?b ! ?p (n - 1) = bs ! ?p (n - 1)" by (rule run(3))
      moreover have "a div 2 + b div 2 \<le> n - 1 \<longleftrightarrow> a + b \<le> 2 * (n - 1) + 1"
      proof (cases "a = n \<and> b = n")
        case True
        then show ?thesis using n by presburger
      next
        case False
        then have "a + b < 2 * n" using ab by linarith
        then show ?thesis using n(1) by linarith
      qed
      ultimately show ?thesis using O [of "n - 1"] n(1) last by simp
    next
      case (low k)
      have "?b ! ?p k = (a div 2 + b div 2 \<le> k \<and> (a + 1) div 2 + (b + 1) div 2 \<le> k + 1)"
        using run(1) [OF low(1)] O [of k] E [of "k + 1"] low(1) by (simp add: algebra_simps)
      moreover have "a div 2 + b div 2 \<le> k \<and> (a + 1) div 2 + (b + 1) div 2 \<le> k + 1 \<longleftrightarrow> a + b \<le> 2 * k + 1"
        by (rule half_sums)
      ultimately show ?thesis using low(2) by simp
    next
      case (high k)
      have "?b ! ?q k = (a div 2 + b div 2 \<le> k \<or> (a + 1) div 2 + (b + 1) div 2 \<le> k + 1)"
        using run(2) [OF high(1)] O [of k] E [of "k + 1"] high(1) by (simp add: algebra_simps)
      moreover have "a div 2 + b div 2 \<le> k \<or> (a + 1) div 2 + (b + 1) div 2 \<le> k + 1 \<longleftrightarrow> a + b \<le> 2 * k + 2"
        by (rule half_sums)
      ultimately show ?thesis using high(2) by simp
    qed
  qed
  moreover have "?b ! x = bs ! x" if "x \<notin> slots l s (2 * n)" for x
  proof (rule run(3), intro allI impI conjI)
    fix k assume k: "k < n - 1"
    then have "?p k \<in> slots l s (2 * n)" "?q k \<in> slots l s (2 * n)" by (intro slotI; simp)+
    then show "x \<noteq> ?p k" "x \<noteq> ?q k" using that by metis+
  qed
  ultimately show ?thesis by (simp add: block_def)
qed

lemma block_append:
  "block bs l s (2 * h) z \<longleftrightarrow>
     (\<forall>k < h. bs ! (l + k * s) = (z \<le> k)) \<and> (\<forall>k < h. bs ! (l + h * s + k * s) = (z \<le> h + k))"
proof -
  have "(\<forall>k < 2 * h. P k) \<longleftrightarrow> (\<forall>k < h. P k) \<and> (\<forall>k < h. P (h + k))" for P :: "nat \<Rightarrow> bool"
  proof (intro iffI allI impI conjI)
    fix k assume *: "(\<forall>k < h. P k) \<and> (\<forall>k < h. P (h + k))" "k < 2 * h"
    then show "P k" by (cases "k < h") (auto dest!: spec [of _ "k - h"])
  qed auto
  from this [of "\<lambda>k. bs ! (l + k * s) = (z \<le> k)"] show ?thesis
    by (simp add: block_def algebra_simps)
qed

lemma merge_net_sorts:
  assumes "0 < s" and "l + (2 ^ Suc q - 1) * s < length bs" and "a \<le> 2 ^ q" and "b \<le> 2 ^ q"
    and "block bs l s (2 ^ q) a" and "block bs (l + 2 ^ q * s) s (2 ^ q) b"
  shows "block (brun (merge_net (Suc q) l s) bs) l s (2 ^ Suc q) (a + b) \<and>
    (\<forall>x. x \<notin> slots l s (2 ^ Suc q) \<longrightarrow> brun (merge_net (Suc q) l s) bs ! x = bs ! x)"
  using assms
proof (induction q arbitrary: l s bs a b)
  case 0
  have len: "l + s < length bs" using 0 by simp
  have v: "bs ! l = (a \<le> 0)" "bs ! (l + s) = (b \<le> 0)" using 0 by (auto simp: block_def)
  let ?b = "brun (merge_net (Suc 0) l s) bs"
  have "?b ! l = (a = 0 \<and> b = 0)" "?b ! (l + s) = (a = 0 \<or> b = 0)"
    using v len 0 by (auto simp: bcas_def nth_list_update)
  then have "\<forall>k < 2. ?b ! (l + k * s) = (a + b \<le> k)"
    using 0 by (auto simp: less_2_cases_iff)
  moreover have "?b ! x = bs ! x" if "x \<notin> slots l s 2" for x
  proof -
    have "x \<noteq> l + 0 * s" "x \<noteq> l + 1 * s" using that slotI [of _ 2 l s] by (metis zero_less_numeral, metis one_less_numeral_iff semiring_norm(76))
    then show ?thesis by (simp add: bcas_def nth_list_update)
  qed
  ultimately show ?case by (simp add: block_def)
next
  case (Suc q)
  let ?h = "2 ^ q :: nat"
  have len: "l + (4 * ?h - 1) * s < length bs" using Suc.prems(2) by simp
  have ab: "a \<le> 2 * ?h" "b \<le> 2 * ?h" using Suc.prems(3,4) by simp_all
  have blk: "block bs l s (2 * ?h) a" "block bs (l + 2 * ?h * s) s (2 * ?h) b" using Suc.prems(5,6) by simp_all
  let ?e = "brun (merge_net (Suc q) l (2 * s)) bs"
  let ?o = "brun (merge_net (Suc q) (l + s) (2 * s)) ?e"
  have times: "(4 * ?h - 1) * s = (2 * ?h - 1) * (2 * s) + s" using odd_times [of "2 * ?h" s] by simp
  have E: "block ?e l (2 * s) (2 * ?h) ((a + 1) div 2 + (b + 1) div 2)"
    "\<And>x. x \<notin> slots l (2 * s) (2 * ?h) \<Longrightarrow> ?e ! x = bs ! x"
    using Suc.IH [of "2 * s" l bs "(a + 1) div 2" "(b + 1) div 2"] Suc.prems(1) len times ab
      block_even [OF blk(1)] block_even [OF blk(2)] by (simp_all add: algebra_simps)
  have disj: "slots l (2 * s) n \<inter> slots (l + s) (2 * s) n = {}" for n
  proof -
    have "l + i * (2 * s) \<noteq> l + s + j * (2 * s)" for i j
    proof -
      have "l + s + j * (2 * s) = l + (2 * j + 1) * s" "l + i * (2 * s) = l + (2 * i) * s" by simp_all
      then show ?thesis using slots_even_odd(1) [OF Suc.prems(1), of l j i] by metis
    qed
    then show ?thesis by (auto simp: slots_def)
  qed
  have oddE: "block ?e (l + s) (2 * s) ?h (a div 2)" "block ?e (l + s + ?h * (2 * s)) (2 * s) ?h (b div 2)"
  proof -
    have out: "?e ! (l + s + k * (2 * s)) = bs ! (l + s + k * (2 * s))" if "k < 2 * ?h" for k
      using E(2) slotI [OF that, of "l + s" "2 * s"] disj by blast
    show "block ?e (l + s) (2 * s) ?h (a div 2)"
      by (rule block_cong [OF block_odd [OF blk(1)]], rule out) simp
    have shift: "l + 2 * ?h * s + s = l + s + ?h * (2 * s)" by simp
    have "block bs (l + s + ?h * (2 * s)) (2 * s) ?h (b div 2)"
      using block_odd [OF blk(2)] unfolding shift .
    then show "block ?e (l + s + ?h * (2 * s)) (2 * s) ?h (b div 2)"
    proof (rule block_cong)
      fix k assume k: "k < ?h"
      have eq: "l + s + ?h * (2 * s) + k * (2 * s) = l + s + (?h + k) * (2 * s)" by (simp add: algebra_simps)
      show "?e ! (l + s + ?h * (2 * s) + k * (2 * s)) = bs ! (l + s + ?h * (2 * s) + k * (2 * s))"
        unfolding eq by (rule out) (use k in simp)
    qed
  qed
  have O: "block ?o (l + s) (2 * s) (2 * ?h) (a div 2 + b div 2)"
    "\<And>x. x \<notin> slots (l + s) (2 * s) (2 * ?h) \<Longrightarrow> ?o ! x = ?e ! x"
  proof -
    have fits: "l + s + (2 ^ Suc q - 1) * (2 * s) < length ?e" using len times by simp
    have "a div 2 \<le> ?h" "b div 2 \<le> ?h" using ab by linarith+
    from Suc.IH [OF _ fits this oddE] Suc.prems(1)
    show "block ?o (l + s) (2 * s) (2 * ?h) (a div 2 + b div 2)"
      "\<And>x. x \<notin> slots (l + s) (2 * s) (2 * ?h) \<Longrightarrow> ?o ! x = ?e ! x" by simp_all
  qed
  have evenO: "block ?o l (2 * s) (2 * ?h) ((a + 1) div 2 + (b + 1) div 2)"
    by (rule block_cong [OF E(1)], rule O(2)) (use slotI disj in blast)
  have last: "block (brun (last_pairs l s (2 * ?h - 1)) ?o) l s (2 * (2 * ?h)) (a + b) \<and>
    (\<forall>x. x \<notin> slots l s (2 * (2 * ?h)) \<longrightarrow> brun (last_pairs l s (2 * ?h - 1)) ?o ! x = ?o ! x)"
    by (rule last_pairs_block [OF Suc.prems(1) _ _ ab _ evenO O(1)]) (use len in simp_all)
  moreover have "?o ! x = bs ! x" if "x \<notin> slots l s (2 * (2 * ?h))" for x
    using that O(2) [of x] E(2) [of x] slots_double [of l s "2 * ?h"] by simp
  ultimately show ?case by simp
qed

section \<open>The sorter\<close>

definition falses :: "bool list \<Rightarrow> nat" where
  "falses bs = length (filter Not bs)"

lemma falses_simps [simp]:
  "falses [] = 0" "falses (b # bs) = (if b then 0 else 1) + falses bs"
  "falses (xs @ ys) = falses xs + falses ys" "falses (replicate n True) = 0"
  by (simp_all add: falses_def)

lemma falses_le: "falses bs \<le> length bs"
  by (simp add: falses_def)

lemma falses_count: "falses bs = count_list bs False"
  by (induction bs) simp_all

text \<open>Below \<open>l\<close> and from \<open>l + 2^q\<close> on nothing changes; in between the cells are sorted.\<close>

lemma slots_1: "slots l (Suc 0) m = {l..<l + m}"
proof (intro equalityI subsetI)
  fix x assume "x \<in> {l..<l + m}"
  then have "x - l < m" "x = l + (x - l) * Suc 0" by auto
  then show "x \<in> slots l (Suc 0) m" using slotI by metis
qed (auto simp: slots_def)

lemma block_shift: "block bs l 1 m z \<longleftrightarrow> (\<forall>k < m. bs ! (l + k) = (z \<le> k))"
  by (simp add: block_def)

lemma falses_take_drop_cong:
  assumes "length xs = length ys" "l + n \<le> length xs" "\<forall>k < n. xs ! (l + k) = ys ! (l + k)"
  shows "take n (drop l xs) = take n (drop l ys)"
  using assms by (intro nth_equalityI) simp_all

lemma sort_net_sorts:
  assumes "l + 2 ^ q \<le> length bs"
  shows "block (brun (sort_net q l) bs) l 1 (2 ^ q) (falses (take (2 ^ q) (drop l bs))) \<and>
    (\<forall>x. x < l \<or> l + 2 ^ q \<le> x \<longrightarrow> brun (sort_net q l) bs ! x = bs ! x)"
  using assms
proof (induction q arbitrary: l bs)
  case 0
  then have "take 1 (drop l bs) = [bs ! l]" by (simp add: take_Suc hd_drop_conv_nth)
  then show ?case by (simp add: block_def)
next
  case (Suc q)
  let ?h = "2 ^ q :: nat"
  have len: "l + ?h + ?h \<le> length bs" using Suc.prems by simp
  let ?x = "brun (sort_net q l) bs"
  let ?y = "brun (sort_net q (l + ?h)) ?x"
  define a where "a = falses (take ?h (drop l bs))"
  define b where "b = falses (take ?h (drop (l + ?h) bs))"
  have X: "block ?x l 1 ?h a" "\<And>x. x < l \<or> l + ?h \<le> x \<Longrightarrow> ?x ! x = bs ! x"
    using Suc.IH [of l bs] len by (auto simp: a_def)
  have "take ?h (drop (l + ?h) ?x) = take ?h (drop (l + ?h) bs)"
    by (rule falses_take_drop_cong) (use len X(2) in auto)
  then have Y: "block ?y (l + ?h) 1 ?h b" "\<And>x. x < l + ?h \<or> l + ?h + ?h \<le> x \<Longrightarrow> ?y ! x = ?x ! x"
    using Suc.IH [of "l + ?h" ?x] len by (auto simp: b_def)
  have lo: "block ?y l 1 ?h a" by (rule block_cong [OF X(1)]) (use Y(2) in simp)
  have ab: "a \<le> ?h" "b \<le> ?h" using falses_le [of "take ?h (drop l bs)"] falses_le [of "take ?h (drop (l + ?h) bs)"]
    len by (simp_all add: a_def b_def)
  have sum: "falses (take (2 ^ Suc q) (drop l bs)) = a + b"
  proof -
    have "take (?h + ?h) (drop l bs) = take ?h (drop l bs) @ take ?h (drop (l + ?h) bs)"
      by (simp add: take_add add.commute)
    then show ?thesis by (simp add: a_def b_def mult_2)
  qed
  have "1 \<le> ?h" by simp
  moreover have "2 ^ Suc q = ?h + ?h" "length ?y = length bs" by simp_all
  ultimately have fits: "l + (2 ^ Suc q - 1) * 1 < length ?y" using len by linarith
  have M: "block (brun (merge_net (Suc q) l 1) ?y) l 1 (2 ^ Suc q) (a + b)"
    "\<And>x. x \<notin> slots l 1 (2 ^ Suc q) \<Longrightarrow> brun (merge_net (Suc q) l 1) ?y ! x = ?y ! x"
    using merge_net_sorts [of 1 l q ?y a b] ab lo Y(1) fits by simp_all
  have "brun (merge_net (Suc q) l 1) ?y ! x = bs ! x" if "x < l \<or> l + 2 ^ Suc q \<le> x" for x
    using that M(2) [of x] X(2) [of x] Y(2) [of x] by (auto simp: slots_1 mult_2)
  then show ?case using M(1) sum by simp
qed

lemma sort_net_correct:
  assumes "length bs = 2 ^ q"
  shows "brun (sort_net q 0) bs = replicate (falses bs) False @ replicate (2 ^ q - falses bs) True"
proof (rule nth_equalityI)
  show "length (brun (sort_net q 0) bs) = length (replicate (falses bs) False @ replicate (2 ^ q - falses bs) True)"
    using assms falses_le [of bs] by simp
  fix i assume i: "i < length (brun (sort_net q 0) bs)"
  then have "brun (sort_net q 0) bs ! i = (falses bs \<le> i)"
    using sort_net_sorts [of 0 q bs] assms by (simp add: block_def)
  then show "brun (sort_net q 0) bs ! i = (replicate (falses bs) False @ replicate (2 ^ q - falses bs) True) ! i"
    using i assms by (auto simp: nth_append)
qed

text \<open>Every comparator works on two different cells inside the sorted range.\<close>

definition net_ok :: "nat \<Rightarrow> (nat \<times> nat) list \<Rightarrow> bool" where
  "net_ok n net \<longleftrightarrow> (\<forall>(i, j) \<in> set net. i < j \<and> j < n)"

lemma net_ok_simps [simp]:
  "net_ok n []" "net_ok n ((i, j) # ps) \<longleftrightarrow> i < j \<and> j < n \<and> net_ok n ps"
  "net_ok n (ps @ qs) \<longleftrightarrow> net_ok n ps \<and> net_ok n qs"
  by (auto simp: net_ok_def)

lemma net_ok_mono: "net_ok m net \<Longrightarrow> m \<le> n \<Longrightarrow> net_ok n net"
  by (auto simp: net_ok_def)

lemma last_pairs_ok:
  assumes "0 < s"
  shows "net_ok (l + (2 * n + 1) * s) (last_pairs l s n)"
proof -
  have "l + (2 * k + 2) * s < l + (2 * n + 1) * s" if "k < n" for k
    using that assms by (intro add_strict_left_mono mult_strict_right_mono) simp_all
  then show ?thesis using assms by (auto simp: net_ok_def last_pairs_def)
qed

lemma merge_net_ok: "0 < s \<Longrightarrow> net_ok (l + (2 ^ q - 1) * s + 1) (merge_net q l s)"
proof (induction q l s rule: merge_net.induct)
  case (3 q l s)
  define m :: nat where "m = 2 ^ Suc q"
  have m: "2 \<le> m" "2 ^ Suc (Suc q) = 2 * m" by (simp_all add: m_def)
  have eq: "(2 * m - 1) * s = (m - 1) * (2 * s) + s" using m(1) by (intro odd_times) simp
  have "net_ok (l + (m - 1) * (2 * s) + 1) (merge_net (Suc q) l (2 * s))"
    using "3.IH"(1) "3.prems" by (simp only: m_def)
  then have "net_ok (l + (2 * m - 1) * s + 1) (merge_net (Suc q) l (2 * s))"
    by (rule net_ok_mono) (unfold eq, linarith)
  moreover have "net_ok (l + s + (m - 1) * (2 * s) + 1) (merge_net (Suc q) (l + s) (2 * s))"
    using "3.IH"(2) "3.prems" by (simp only: m_def)
  then have "net_ok (l + (2 * m - 1) * s + 1) (merge_net (Suc q) (l + s) (2 * s))"
    by (rule net_ok_mono) (unfold eq, linarith)
  moreover have "net_ok (l + (2 * m - 1) * s + 1) (last_pairs l s (m - 1))"
  proof (rule net_ok_mono [OF last_pairs_ok [OF "3.prems"]])
    have "(2 * (m - 1) + 1) * s \<le> (2 * m - 1) * s" by (intro mult_right_mono) (use m(1) in simp_all)
    then show "l + (2 * (m - 1) + 1) * s \<le> l + (2 * m - 1) * s + 1" by simp
  qed
  ultimately show ?case unfolding m(2) by (simp add: m_def)
qed simp_all

lemma sort_net_ok: "net_ok (l + 2 ^ q) (sort_net q l)"
proof (induction q arbitrary: l)
  case (Suc q)
  have "net_ok (l + 2 ^ Suc q) (sort_net q l)" "net_ok (l + 2 ^ Suc q) (sort_net q (l + 2 ^ q))"
    by (rule net_ok_mono [OF Suc], simp)+
  moreover have "(1 :: nat) \<le> 2 ^ Suc q" by simp
  then have "net_ok (l + 2 ^ Suc q) (merge_net (Suc q) l 1)"
    using net_ok_mono [OF merge_net_ok [of 1 l "Suc q"]] by simp
  ultimately show ?case by simp
qed simp

end
