(* ===== verification/CardSort.thy ===== *)
theory CardSort
  imports CircuitOps SortNet
begin

text \<open>
  Cardinality predicates by sorting networks, \<^verbatim>\<open>logic/card.go\<close>.  The operations of the code are
  shown to run through the comparator network of theory SortNet, so that the sortedness of the
  network carries over to the literals of the circuit.
\<close>

section \<open>The operations of \<^verbatim>\<open>CardSort\<close>\<close>

record card =
  cn :: nat
  cms :: "lit list"

function card_pow :: "nat \<Rightarrow> nat \<Rightarrow> nat" where
  "card_pow n p = (if 2 ^ p < n then card_pow n (p + 1) else p)"
  by pat_completeness auto
termination
proof (relation "measure (\<lambda>(n, p). n - p)")
  fix n p :: nat
  assume "2 ^ p < n"
  moreover have "p < 2 ^ p" by (rule less_exp)
  ultimately have "p < n" by linarith
  then show "((n, p + 1), (n, p)) \<in> measure (\<lambda>(n, p). n - p)" by simp
qed simp

declare card_pow.simps [simp del]

definition cas :: "nat \<Rightarrow> nat \<Rightarrow> 'z circ_scheme \<times> lit list \<Rightarrow> ('z circ_scheme \<times> lit list) option" where
  "cas i j = (\<lambda>(c, ms). do {
     mi \<leftarrow> aget ms i;
     mj \<leftarrow> aget ms j;
     (c, l) \<leftarrow> C_And c mi mj;
     (c, h) \<leftarrow> C_Or c mi mj;
     ms \<leftarrow> aset ms i l;
     ms \<leftarrow> aset ms j h;
     Some (c, ms)
   })"

partial_function (option) merge_loop ::
  "nat \<Rightarrow> nat \<Rightarrow> nat \<Rightarrow> nat \<Rightarrow> 'z circ_scheme \<times> lit list \<Rightarrow> ('z circ_scheme \<times> lit list) option" where
  "merge_loop s ss lim i st =
     (if i < lim then do { st \<leftarrow> cas i (i + s) st; merge_loop s ss lim (i + ss) st } else Some st)"

partial_function (option) card_merge ::
  "nat \<Rightarrow> nat \<Rightarrow> nat \<Rightarrow> 'z circ_scheme \<times> lit list \<Rightarrow> ('z circ_scheme \<times> lit list) option" where
  "card_merge l h s st =
     (if h \<le> l + s then Some st
      else let ss = 2 * s in
        if ss \<ge> h - l then cas l (l + s) st
        else do {
          st \<leftarrow> card_merge l h ss st;
          st \<leftarrow> card_merge (l + s) h ss st;
          merge_loop s ss (h - s) (l + s) st
        })"

partial_function (option) card_sort ::
  "nat \<Rightarrow> nat \<Rightarrow> 'z circ_scheme \<times> lit list \<Rightarrow> ('z circ_scheme \<times> lit list) option" where
  "card_sort l h st =
     (if h - l \<le> 1 then Some st
      else let m = l + (h - l) div 2 in do {
        st \<leftarrow> card_sort l m st;
        st \<leftarrow> card_sort m h st;
        card_merge l h 1 st
      })"

definition NewCardSort :: "lit list \<Rightarrow> 'z circ_scheme \<Rightarrow> ('z circ_scheme \<times> card) option" where
  "NewCardSort ms c = do {
     let p = card_pow (length ms) 0;
     let ns = ms @ replicate (2 ^ p - length ms) (cT c);
     (c, ns) \<leftarrow> card_sort 0 (length ns) (c, ns);
     Some (c, \<lparr>cn = length ms, cms = ns\<rparr>)
   }"

definition Card_Leq :: "'z circ_scheme \<Rightarrow> card \<Rightarrow> int \<Rightarrow> lit option" where
  "Card_Leq c cs b =
     (if b \<ge> int (cn cs) then Some (cT c)
      else if b < 0 then Some (cF c)
      else do { m \<leftarrow> aget (cms cs) (nat ((int (cn cs) - 1) - b)); Some (lit_Not m) })"

definition Card_Less :: "'z circ_scheme \<Rightarrow> card \<Rightarrow> int \<Rightarrow> lit option" where
  "Card_Less c cs b = Card_Leq c cs (b - 1)"

definition Card_Geq :: "'z circ_scheme \<Rightarrow> card \<Rightarrow> int \<Rightarrow> lit option" where
  "Card_Geq c cs b =
     (if b \<le> 0 then Some (cT c)
      else if b \<ge> int (cn cs) + 1 then Some (cF c)
      else do { m \<leftarrow> Card_Leq c cs (b - 1); Some (lit_Not m) })"

definition Card_Gr :: "'z circ_scheme \<Rightarrow> card \<Rightarrow> int \<Rightarrow> lit option" where
  "Card_Gr c cs b = Card_Geq c cs (b + 1)"

definition Card_N :: "card \<Rightarrow> nat" where
  "Card_N cs = cn cs"

section \<open>The code runs through a comparator network\<close>

definition run_net :: "(nat \<times> nat) list \<Rightarrow> 'z circ_scheme \<times> lit list \<Rightarrow> ('z circ_scheme \<times> lit list) option" where
  "run_net = foldM (\<lambda>(i, j). cas i j)"

lemma run_net_append: "run_net (xs @ ys) = (\<lambda>st. run_net xs st \<bind> run_net ys)"
  by (rule ext) (simp add: run_net_def foldM_append)

lemma run_net_simps [simp]: "run_net [] st = Some st" "run_net ((i, j) # ps) st = cas i j st \<bind> run_net ps"
  by (simp_all add: run_net_def)

lemma bind_run_net_Nil [simp]: "m \<bind> run_net [] = m"
  by (cases m) simp_all

lemma merge_loop_net:
  fixes st :: "'z circ_scheme \<times> lit list"
  assumes "0 < s" "lim = l + (2 * n + 1) * s - d" "d < 2 * s" "k \<le> n"
  shows "merge_loop s (2 * s) lim (l + (2 * k + 1) * s) st =
    run_net (map (\<lambda>k. (l + (2 * k + 1) * s, l + (2 * k + 2) * s)) [k..<n]) st"
  using assms(4)
proof (induction "n - k" arbitrary: k st)
  case 0
  then show ?case using assms by (subst merge_loop.simps) auto
next
  case (Suc x)
  then have k: "k < n" by simp
  have "l + (2 * k + 1) * s < lim"
  proof -
    have "(2 * (k + 1) + 1) * s \<le> (2 * n + 1) * s" using k by (intro mult_right_mono) auto
    then show ?thesis using assms(2,3) by (simp add: algebra_simps)
  qed
  moreover define rest :: "'z circ_scheme \<times> lit list \<Rightarrow> _"
    where "rest = run_net (map (\<lambda>k. (l + (2 * k + 1) * s, l + (2 * k + 2) * s)) [Suc k..<n])"
  moreover have ih: "merge_loop s (2 * s) lim (l + (2 * Suc k + 1) * s) = rest"
    unfolding rest_def by (rule ext, rule Suc.hyps(1)) (use Suc.hyps(2) k in simp_all)
  moreover have "l + (2 * k + 1) * s + s = l + (2 * k + 2) * s"
      "l + (2 * k + 1) * s + 2 * s = l + (2 * Suc k + 1) * s" by (simp_all add: algebra_simps)
  ultimately have "merge_loop s (2 * s) lim (l + (2 * k + 1) * s) st =
      cas (l + (2 * k + 1) * s) (l + (2 * k + 2) * s) st \<bind> rest"
    by (subst merge_loop.simps) (simp only: if_True)
  then show ?case using k by (simp only: upt_conv_Cons list.map run_net_simps rest_def)
qed

text \<open>The code of \<^verbatim>\<open>merge\<close> and \<^verbatim>\<open>sort\<close> on \<open>2^q\<close> elements runs through these networks.\<close>

lemma card_merge_net:
  fixes st :: "'z circ_scheme \<times> lit list"
  assumes "0 < s" "l + (2 ^ q - 1) * s < h" "h \<le> l + 2 ^ q * s"
  shows "card_merge l h s st = run_net (merge_net q l s) st"
  using assms
proof (induction q l s arbitrary: h st rule: merge_net.induct)
  case (1 l s)
  then show ?case by (subst card_merge.simps) simp
next
  case (2 l s)
  then have "h - l \<le> 2 * s" by simp
  then show ?case using 2 by (subst card_merge.simps) (simp add: Let_def)
next
  case (3 q l s)
  define m :: nat where "m = 2 ^ Suc q"
  have m: "2 \<le> m" "2 ^ Suc (Suc q) = 2 * m" by (simp_all add: m_def)
  have h: "l + ((m - 1) * (2 * s) + s) < h" "h \<le> l + 2 * m * s"
    using "3.prems"(2,3) odd_times [of m s] m(1) unfolding m(2) by simp_all
  have ms: "2 * m * s = (m - 1) * (2 * s) + 2 * s" "m * (2 * s) = 2 * m * s"
    using m by (cases m; simp add: algebra_simps)+
  have "1 * (2 * s) \<le> (m - 1) * (2 * s)" using m(1) by (intro mult_right_mono) simp_all
  then have lo: "\<not> h \<le> l + s" "\<not> 2 * s \<ge> h - l" using h(1) "3.prems"(1) by linarith+
  have one: "card_merge l h (2 * s) st = run_net (merge_net (Suc q) l (2 * s)) st"
    for st :: "'z circ_scheme \<times> lit list"
  proof (rule "3.IH"(1))
    show "l + (2 ^ Suc q - 1) * (2 * s) < h" "h \<le> l + 2 ^ Suc q * (2 * s)" "0 < 2 * s"
      unfolding m_def [symmetric] using h ms "3.prems"(1) by linarith+
  qed
  have two: "card_merge (l + s) h (2 * s) st = run_net (merge_net (Suc q) (l + s) (2 * s)) st"
    for st :: "'z circ_scheme \<times> lit list"
  proof (rule "3.IH"(2))
    show "l + s + (2 ^ Suc q - 1) * (2 * s) < h" "h \<le> l + s + 2 ^ Suc q * (2 * s)" "0 < 2 * s"
      unfolding m_def [symmetric] using h ms "3.prems"(1) by linarith+
  qed
  have three: "merge_loop s (2 * s) (h - s) (l + s) =
      (run_net (last_pairs l s (m - 1)) :: 'z circ_scheme \<times> lit list \<Rightarrow> _)"
  proof (rule ext)
    fix st :: "'z circ_scheme \<times> lit list"
    let ?d = "l + 2 * m * s - h"
    have "(2 * (m - 1) + 1) * s = (m - 1) * (2 * s) + s" by (simp add: algebra_simps)
    then have "h - s = l + (2 * (m - 1) + 1) * s - ?d" "?d < 2 * s"
      using h ms "3.prems"(1) by linarith+
    then show "merge_loop s (2 * s) (h - s) (l + s) st = run_net (last_pairs l s (m - 1)) st"
      using merge_loop_net [of s "h - s" l "m - 1" ?d 0 st] "3.prems"(1) by (simp add: last_pairs_def)
  qed
  show ?case using lo
    by (subst card_merge.simps) (simp only: Let_def one two three run_net_append merge_net.simps m_def if_False)
qed

lemma card_sort_net:
  fixes st :: "'z circ_scheme \<times> lit list"
  shows "card_sort l (l + 2 ^ q) st = run_net (sort_net q l) st"
proof (induction q arbitrary: l st)
  case 0
  then show ?case by (subst card_sort.simps) simp
next
  case (Suc q)
  have one: "1 \<le> (2 :: nat) ^ q" by simp
  then have "\<not> l + 2 ^ q + 2 ^ q - l \<le> 1" by linarith
  then have h: "l + 2 ^ Suc q = l + 2 ^ q + 2 ^ q" "\<not> l + 2 ^ q + 2 ^ q - l \<le> 1"
      "l + (l + 2 ^ q + 2 ^ q - l) div 2 = l + 2 ^ q"
    by (simp_all add: mult_2 [symmetric])
  have merge: "card_merge l (l + 2 ^ q + 2 ^ q) 1 = (run_net (merge_net (Suc q) l 1) :: 'z circ_scheme \<times> lit list \<Rightarrow> _)"
    by (rule ext, rule card_merge_net) (simp_all add: mult_2)
  have ih: "card_sort l (l + 2 ^ q) = (run_net (sort_net q l) :: 'z circ_scheme \<times> lit list \<Rightarrow> _)" for l
    by (rule ext) (rule Suc)
  show ?case
    unfolding h(1)
    by (subst card_sort.simps) (simp only: h(2,3) if_False Let_def ih merge sort_net.simps run_net_append)
qed

section \<open>Transfer to circuits\<close>

definition lits_in :: "'z circ_scheme \<Rightarrow> lit list \<Rightarrow> bool" where
  "lits_in c ms \<longleftrightarrow> (\<forall>m \<in> set ms. lit_in c m)"

definition vals :: "'z circ_scheme \<Rightarrow> (nat \<Rightarrow> bool) \<Rightarrow> lit list \<Rightarrow> bool list" where
  "vals c \<rho> ms = map (lit_val (nodes c) \<rho>) ms"

lemma vals_ext: "circ_ext c c' \<Longrightarrow> lits_in c ms \<Longrightarrow> vals c' \<rho> ms = vals c \<rho> ms"
  by (auto simp: vals_def lits_in_def lit_val_ext)

definition net_post :: "'z circ_scheme \<times> lit list \<Rightarrow> (nat \<times> nat) list \<Rightarrow> 'z circ_scheme \<times> lit list \<Rightarrow> bool" where
  "net_post st net st' \<longleftrightarrow> circ_wf (fst st') \<and> circ_ext (fst st) (fst st') \<and> lits_in (fst st') (snd st') \<and>
     length (snd st') = length (snd st) \<and>
     length (nodes (fst st')) \<le> length (nodes (fst st)) + 2 * length net \<and>
     (\<forall>\<rho>. vals (fst st') \<rho> (snd st') = brun net (vals (fst st) \<rho> (snd st))) \<and>
     (canon (fst st) \<longrightarrow> canon (fst st')) \<and> circ.more (fst st') = circ.more (fst st)"

lemma cas_spec:
  assumes wf: "circ_wf c" and room: "circ_room 2 c" and lits: "lits_in c ms" and ij: "i < j" "j < length ms"
  shows "returns (cas i j (c, ms)) (net_post (c, ms) [(i, j)])"
proof -
  have in_c: "lit_in c (ms ! i)" "lit_in c (ms ! j)" using lits ij by (auto simp: lits_in_def)
  have "circ_room 1 c" using room by (simp add: circ_room_def)
  then obtain c1 l where 1: "C_And c (ms ! i) (ms ! j) = Some (c1, l)"
    "and_post c (\<lambda>\<rho>. lit_val (nodes c) \<rho> (ms ! i) \<and> lit_val (nodes c) \<rho> (ms ! j)) 1 (c1, l)"
    using C_And_spec [OF wf _ in_c] by (auto elim: returnsE2)
  have in_c1: "lit_in c1 (ms ! i)" "lit_in c1 (ms ! j)" using and_post_keeps [OF 1(2)] in_c by simp_all
  have "circ_room 1 c1" by (rule and_post_room [OF 1(2) room]) simp
  then obtain c2 h where 2: "C_Or c1 (ms ! i) (ms ! j) = Some (c2, h)"
    "and_post c1 (\<lambda>\<rho>. lit_val (nodes c1) \<rho> (ms ! i) \<or> lit_val (nodes c1) \<rho> (ms ! j)) 1 (c2, h)"
    using C_Or_spec [OF and_post_wf [OF 1(2)] _ in_c1] by (auto elim: returnsE2)
  let ?ms = "ms[i := l, j := h]"
  note 12 = and_post_then [OF 1(2) 2(2)]
  have ext: "circ_ext c c2" by (rule and_post_ext [OF 12])
  have run: "cas i j (c, ms) = Some (c2, ?ms)" using 1(1) 2(1) ij by (simp add: cas_def)
  have l2: "lit_in c2 l" "lit_in c2 h" using and_post_keeps [OF 2(2) and_post_lit [OF 1(2)]] and_post_lit [OF 2(2)] .
  have "set ?ms \<subseteq> insert h (insert l (set ms))"
    by (meson order_trans set_update_subset_insert insert_mono)
  then have "lits_in c2 ?ms" using l2 lits lit_in_ext [OF ext] by (auto simp: lits_in_def)
  moreover have "vals c2 \<rho> ?ms = bcas (i, j) (vals c \<rho> ms)" for \<rho>
  proof -
    have "lit_val (nodes c2) \<rho> l = (lit_val (nodes c) \<rho> (ms ! i) \<and> lit_val (nodes c) \<rho> (ms ! j))"
      using and_post_keeps_val [OF 2(2) and_post_lit [OF 1(2)]] and_post_val [OF 1(2)] by simp
    moreover have "lit_val (nodes c2) \<rho> h = (lit_val (nodes c) \<rho> (ms ! i) \<or> lit_val (nodes c) \<rho> (ms ! j))"
      using and_post_val [OF 2(2)] and_post_keeps_val [OF 1(2)] in_c by simp
    moreover have "vals c2 \<rho> ms = vals c \<rho> ms" by (rule vals_ext [OF ext lits])
    moreover have "vals c2 \<rho> ?ms = (vals c2 \<rho> ms)[i := lit_val (nodes c2) \<rho> l, j := lit_val (nodes c2) \<rho> h]"
      by (simp add: vals_def map_update)
    moreover have "vals c \<rho> ms ! i = lit_val (nodes c) \<rho> (ms ! i)" "vals c \<rho> ms ! j = lit_val (nodes c) \<rho> (ms ! j)"
      using ij by (simp_all add: vals_def)
    ultimately show ?thesis by (simp only: bcas_def prod.case)
  qed
  ultimately show ?thesis
    using run 12 by (simp add: net_post_def and_post_def)
qed

lemma run_net_spec:
  assumes "circ_wf c" "circ_room (2 * length net) c" "lits_in c ms" "net_ok (length ms) net"
  shows "returns (run_net net (c, ms)) (net_post (c, ms) net)"
  using assms
proof (induction net arbitrary: c ms)
  case Nil
  then show ?case by (simp add: net_post_def)
next
  case (Cons p net)
  obtain i j where p: "p = (i, j)" by (cases p)
  have "circ_room 2 c" using Cons.prems(2) by (simp add: circ_room_def)
  then obtain d ns where 1: "cas i j (c, ms) = Some (d, ns)" "net_post (c, ms) [(i, j)] (d, ns)"
    using cas_spec [of c ms i j] Cons.prems p by (auto elim: returnsE2)
  have "circ_room (2 * length net) d" "circ_wf d" "lits_in d ns" "length ns = length ms"
    using 1(2) Cons.prems(2) by (auto simp: net_post_def circ_room_def)
  then obtain e ks where 2: "run_net net (d, ns) = Some (e, ks)" "net_post (d, ns) net (e, ks)"
    using Cons.IH [of d ns] Cons.prems(4) p by (auto elim: returnsE2)
  have "circ_ext c e" using 1(2) 2(2) circ_ext_trans by (auto simp: net_post_def)
  then have "net_post (c, ms) (p # net) (e, ks)" using 1(2) 2(2) p by (auto simp: net_post_def)
  then show ?case using 1(1) 2(1) p by simp
qed

section \<open>Cardinality predicates\<close>

lemma card_pow_bound: "2 ^ card_pow n p \<ge> n"
proof (induction n p rule: card_pow.induct)
  case (1 n p)
  then show ?case by (subst card_pow.simps) auto
qed

definition card_net :: "nat \<Rightarrow> (nat \<times> nat) list" where
  "card_net n = sort_net (card_pow n 0) 0"

definition card_trues :: "'z circ_scheme \<Rightarrow> (nat \<Rightarrow> bool) \<Rightarrow> lit list \<Rightarrow> nat" where
  "card_trues c \<rho> ms = length (filter (lit_val (nodes c) \<rho>) ms)"

lemma falses_vals: "falses (vals c \<rho> ms) = length ms - card_trues c \<rho> ms"
proof -
  have "falses (vals c \<rho> ms) = length (filter (\<lambda>m. \<not> lit_val (nodes c) \<rho> m) ms)"
    by (simp add: falses_def vals_def filter_map o_def)
  then show ?thesis using sum_length_filter_compl [of "lit_val (nodes c) \<rho>" ms] by (simp add: card_trues_def)
qed

lemma card_trues_le: "card_trues c \<rho> ms \<le> length ms"
  by (simp add: card_trues_def)

definition card_post :: "'z circ_scheme \<Rightarrow> lit list \<Rightarrow> 'z circ_scheme \<times> card \<Rightarrow> bool" where
  "card_post c ms = (\<lambda>(d, cs). circ_wf d \<and> circ_ext c d \<and> (canon c \<longrightarrow> canon d) \<and> cn cs = length ms \<and>
     lits_in d (cms cs) \<and> length ms \<le> length (cms cs) \<and>
     (\<forall>\<rho>. \<forall>j < length (cms cs). lit_val (nodes d) \<rho> (cms cs ! j) = (length ms \<le> j + card_trues c \<rho> ms)))"

lemma NewCardSort_spec:
  assumes wf: "circ_wf c" and room: "circ_room (2 * length (card_net (length ms))) c" and lits: "lits_in c ms"
  shows "returns (NewCardSort ms c) (card_post c ms)"
proof -
  let ?p = "card_pow (length ms) 0"
  let ?ns = "ms @ replicate (2 ^ ?p - length ms) (2 :: lit)"
  have len: "length ?ns = 2 ^ ?p" using card_pow_bound [of "length ms" 0] by simp
  have "lits_in c ?ns" using lits wf by (auto simp: lits_in_def)
  then obtain d ks where run: "run_net (sort_net ?p 0) (c, ?ns) = Some (d, ks)"
    "net_post (c, ?ns) (sort_net ?p 0) (d, ks)"
    using run_net_spec [OF wf, of "sort_net ?p 0" ?ns] room sort_net_ok [of 0 ?p] len
    by (auto simp: card_net_def elim: returnsE2)
  have sort: "card_sort 0 (length ?ns) (c, ?ns) = Some (d, ks)"
    using card_sort_net [of 0 ?p "(c, ?ns)"] run(1) len by simp
  have fs: "falses (vals c \<rho> ?ns) = length ms - card_trues c \<rho> ms" for \<rho>
  proof -
    have "vals c \<rho> ?ns = vals c \<rho> ms @ replicate (2 ^ ?p - length ms) True" by (simp add: vals_def)
    then show ?thesis by (simp add: falses_vals)
  qed
  have "lit_val (nodes d) \<rho> (ks ! j) = (length ms \<le> j + card_trues c \<rho> ms)" if "j < length ks" for \<rho> j
  proof -
    have l: "length ks = 2 ^ ?p" "length (vals c \<rho> ?ns) = 2 ^ ?p"
      using run(2) len by (auto simp: net_post_def vals_def)
    have "vals d \<rho> ks = brun (sort_net ?p 0) (vals c \<rho> ?ns)" using run(2) by (simp add: net_post_def)
    also have "\<dots> ! j = (falses (vals c \<rho> ?ns) \<le> j)"
      using that l falses_le [of "vals c \<rho> ?ns"] by (simp add: sort_net_correct [OF l(2)] nth_append)
    finally show ?thesis using that fs [of \<rho>] card_trues_le [of c \<rho> ms] by (auto simp: vals_def)
  qed
  moreover have "cT c = 2" using wf by (simp add: circ_wf_def)
  ultimately show ?thesis
    using run(2) sort len by (auto simp: NewCardSort_def Let_def card_post_def net_post_def)
qed

lemma Card_Leq_spec:
  assumes "card_post c ms (d, cs)"
  shows "\<exists>m. Card_Leq d cs b = Some m \<and> lit_in d m \<and> (\<forall>\<rho>. lit_val (nodes d) \<rho> m = (int (card_trues c \<rho> ms) \<le> b))"
proof -
  have post: "circ_wf d" "cn cs = length ms" "lits_in d (cms cs)" "length ms \<le> length (cms cs)"
    "\<And>\<rho> j. j < length (cms cs) \<Longrightarrow> lit_val (nodes d) \<rho> (cms cs ! j) = (length ms \<le> j + card_trues c \<rho> ms)"
    using assms by (auto simp: card_post_def)
  have lits: "cT d = 2" "cF d = 3" "lit_in d 2" "lit_in d 3" using post(1) by (auto simp: circ_wf_def)
  consider "b \<ge> int (length ms)" | "b < 0" | "0 \<le> b" "b < int (length ms)" by linarith
  then show ?thesis
  proof cases
    case 1
    then have "int (card_trues c \<rho> ms) \<le> b" for \<rho> using card_trues_le [of c \<rho> ms] by linarith
    then show ?thesis using 1 lits post by (auto simp: Card_Leq_def)
  next
    case 2
    then show ?thesis using lits post by (auto simp: Card_Leq_def)
  next
    case 3
    let ?j = "nat ((int (length ms) - 1) - b)"
    have j: "?j < length (cms cs)" using 3 post(4) by linarith
    have "lit_in d (cms cs ! ?j)" using j post(3) by (simp add: lits_in_def)
    moreover have "(\<not> length ms \<le> ?j + card_trues c \<rho> ms) = (int (card_trues c \<rho> ms) \<le> b)" for \<rho>
      using 3 by linarith
    ultimately show ?thesis using 3 j post(2,5) by (simp add: Card_Leq_def)
  qed
qed

lemma Card_Geq_spec:
  assumes "card_post c ms (d, cs)"
  shows "\<exists>m. Card_Geq d cs b = Some m \<and> lit_in d m \<and> (\<forall>\<rho>. lit_val (nodes d) \<rho> m = (b \<le> int (card_trues c \<rho> ms)))"
proof -
  have post: "circ_wf d" "cn cs = length ms" using assms by (auto simp: card_post_def)
  have lits: "cT d = 2" "cF d = 3" "lit_in d 2" "lit_in d 3" using post(1) by (auto simp: circ_wf_def)
  consider "b \<le> 0" | "b \<ge> int (length ms) + 1" | "0 < b" "b < int (length ms) + 1" by linarith
  then show ?thesis
  proof cases
    case 1
    then show ?thesis using lits by (auto simp: Card_Geq_def)
  next
    case 2
    then have "\<not> b \<le> int (card_trues c \<rho> ms)" for \<rho> using card_trues_le [of c \<rho> ms] by linarith
    then show ?thesis using 2 lits post by (auto simp: Card_Geq_def)
  next
    case 3
    obtain m where m: "Card_Leq d cs (b - 1) = Some m" "lit_in d m"
      "\<And>\<rho>. lit_val (nodes d) \<rho> m = (int (card_trues c \<rho> ms) \<le> b - 1)"
      using Card_Leq_spec [OF assms] by blast
    have "(\<not> int (card_trues c \<rho> ms) \<le> b - 1) = (b \<le> int (card_trues c \<rho> ms))" for \<rho> by linarith
    then show ?thesis using 3 m post(2) by (simp add: Card_Geq_def)
  qed
qed

text \<open>
  (C11) \<^verbatim>\<open>CardSort\<close>: for literals of a well-formed circuit with room for the network,
  \<^verbatim>\<open>NewCardSort\<close> returns, and on the resulting circuit \<^verbatim>\<open>Leq\<close>, \<^verbatim>\<open>Geq\<close>, \<^verbatim>\<open>Less\<close> and \<^verbatim>\<open>Gr\<close> return, for
  every integer bound, literals that are true exactly when the number of true literals among
  those counted is at most, at least, less than, and greater than the bound.
\<close>

theorem CardSort_counts:
  assumes "circ_wf c" and "circ_room (2 * length (card_net (length ms))) c" and "\<forall>m \<in> set ms. lit_in c m"
  shows "\<exists>d cs. NewCardSort ms c = Some (d, cs) \<and> circ_wf d \<and> circ_ext c d \<and> Card_N cs = length ms \<and>
    (\<forall>b. \<exists>le ge lt gr. Card_Leq d cs b = Some le \<and> Card_Geq d cs b = Some ge \<and>
       Card_Less d cs b = Some lt \<and> Card_Gr d cs b = Some gr \<and>
       (\<forall>\<rho>. (lit_val (nodes d) \<rho> le \<longleftrightarrow> int (card_trues c \<rho> ms) \<le> b) \<and>
            (lit_val (nodes d) \<rho> ge \<longleftrightarrow> int (card_trues c \<rho> ms) \<ge> b) \<and>
            (lit_val (nodes d) \<rho> lt \<longleftrightarrow> int (card_trues c \<rho> ms) < b) \<and>
            (lit_val (nodes d) \<rho> gr \<longleftrightarrow> int (card_trues c \<rho> ms) > b)))"
proof -
  obtain d cs where run: "NewCardSort ms c = Some (d, cs)" and post: "card_post c ms (d, cs)"
    using NewCardSort_spec [of c ms] assms by (auto simp: lits_in_def elim: returnsE2)
  have "\<exists>le ge lt gr. Card_Leq d cs b = Some le \<and> Card_Geq d cs b = Some ge \<and>
       Card_Less d cs b = Some lt \<and> Card_Gr d cs b = Some gr \<and>
       (\<forall>\<rho>. (lit_val (nodes d) \<rho> le \<longleftrightarrow> int (card_trues c \<rho> ms) \<le> b) \<and>
            (lit_val (nodes d) \<rho> ge \<longleftrightarrow> int (card_trues c \<rho> ms) \<ge> b) \<and>
            (lit_val (nodes d) \<rho> lt \<longleftrightarrow> int (card_trues c \<rho> ms) < b) \<and>
            (lit_val (nodes d) \<rho> gr \<longleftrightarrow> int (card_trues c \<rho> ms) > b))" for b
    using Card_Leq_spec [OF post, of b] Card_Leq_spec [OF post, of "b - 1"]
      Card_Geq_spec [OF post, of b] Card_Geq_spec [OF post, of "b + 1"]
    by (auto simp: Card_Less_def Card_Gr_def)
  then show ?thesis using run post by (auto simp: card_post_def Card_N_def)
qed

lemma CardSort_counts_witness:
  "\<exists>d cs. NewCardSort [4, 7, 6] two_inputs = Some (d, cs) \<and> circ_wf d \<and> Card_N cs = 3"
proof -
  have "length (card_net 3) \<le> 6"
    by (simp add: card_net_def card_pow.simps numeral_2_eq_2 last_pairs_def)
  then have "length (card_net (length [4, 7, 6 :: lit])) \<le> 6" by (simp add: numeral_3_eq_3)
  then have "circ_room (2 * length (card_net (length [4, 7, 6 :: lit]))) two_inputs"
    by (simp add: circ_room_def two_inputs_def)
  moreover have "\<forall>m \<in> set [4, 7, 6]. lit_in two_inputs m"
    by (simp add: two_inputs_def lit_in_def unat_lit_Var)
  ultimately have "\<exists>d cs. NewCardSort [4, 7, 6] two_inputs = Some (d, cs) \<and> circ_wf d \<and>
      Card_N cs = length [4, 7, 6 :: lit]"
    using CardSort_counts [OF two_inputs_wf(1)] by blast
  then show ?thesis by (simp add: numeral_3_eq_3)
qed

end
