(* ===== verification/Sequential.thy ===== *)
theory Sequential
  imports CircuitOps
begin

text \<open>
  Sequential circuits, \<^verbatim>\<open>logic/s.go\<close>: the struct \<^verbatim>\<open>S\<close> embeds \<^verbatim>\<open>C\<close>, so its record extends that
  of circuits and the operations of theory Circuit apply to it directly.  A latch is a node
  whose first operand is its initial value (a constant, or null for unknown) and whose second
  operand is the next state literal.
\<close>

record seq = circ +
  latches :: "lit list"

definition NewS :: seq where
  "NewS = circ.extend (initC 256) (seq.fields [])"

definition NewSCap :: "nat \<Rightarrow> seq" where
  "NewSCap capHint = circ.extend (initC capHint) (seq.fields [])"

definition S_Copy :: "seq \<Rightarrow> seq" where
  "S_Copy s = circ.extend (C_Copy (circ.truncate s)) (seq.fields (latches s))"

definition S_Latch :: "seq \<Rightarrow> lit \<Rightarrow> (seq \<times> lit) option" where
  "S_Latch s init = do {
     assert_o (\<not> (init \<noteq> cF s \<and> init \<noteq> cT s \<and> init \<noteq> LitNull));
     (s, i) \<leftarrow> C_newNode s;
     n \<leftarrow> aget (nodes s) (unat i);
     ns \<leftarrow> aset (nodes s) (unat i) (n\<lparr>na := init, nb := var_Pos i\<rparr>);
     Some (s\<lparr>nodes := ns, latches := latches s @ [var_Pos i]\<rparr>, var_Pos i)
   }"

definition S_Next :: "seq \<Rightarrow> lit \<Rightarrow> lit option" where
  "S_Next s m = do {
     n \<leftarrow> aget (nodes s) (unat (lit_Var m));
     assert_o (\<not> (na n \<noteq> cF s \<and> na n \<noteq> cT s \<and> na n \<noteq> LitNull));
     Some (nb n)
   }"

definition S_SetNext :: "seq \<Rightarrow> lit \<Rightarrow> lit \<Rightarrow> seq option" where
  "S_SetNext s m nxt = do {
     n \<leftarrow> aget (nodes s) (unat (lit_Var m));
     assert_o (\<not> (na n \<noteq> cF s \<and> na n \<noteq> cT s \<and> na n \<noteq> LitNull));
     Some (s\<lparr>nodes := (nodes s)[unat (lit_Var m) := n\<lparr>nb := nxt\<rparr>]\<rparr>)
   }"

definition S_Init :: "seq \<Rightarrow> lit \<Rightarrow> lit option" where
  "S_Init s latch = do { n \<leftarrow> aget (nodes s) (unat (lit_Var latch)); Some (na n) }"

definition S_SetInit :: "seq \<Rightarrow> lit \<Rightarrow> lit \<Rightarrow> seq option" where
  "S_SetInit s latch init = do {
     assert_o (\<not> (init \<noteq> cF s \<and> init \<noteq> cT s \<and> init \<noteq> LitNull));
     n \<leftarrow> aget (nodes s) (unat (lit_Var latch));
     Some (s\<lparr>nodes := (nodes s)[unat (lit_Var latch) := n\<lparr>na := init\<rparr>]\<rparr>)
   }"

datatype SNodeType = SInput | SAnd | SLatch | SConst

definition SNodeType_String :: "SNodeType \<Rightarrow> string" where
  "SNodeType_String t = (case t of SInput \<Rightarrow> ''input'' | SAnd \<Rightarrow> ''and'' | SLatch \<Rightarrow> ''latch'' | SConst \<Rightarrow> ''const'')"

definition S_Type :: "seq \<Rightarrow> lit \<Rightarrow> SNodeType option" where
  "S_Type s m =
     (let v = lit_Var m in
      if v = lit_Var (cT s) then Some SConst
      else do {
        n \<leftarrow> aget (nodes s) (unat v);
        Some (if na n = LitNull \<and> nb n = LitNull then SInput
              else if lit_Var (na n) = lit_Var (cT s) \<or> na n = LitNull then SLatch
              else SAnd)
      })"

section \<open>Well-formed sequential circuits\<close>

definition is_latch :: "node \<Rightarrow> bool" where
  "is_latch n \<longleftrightarrow> \<not> is_and n \<and> nb n \<noteq> 0"

definition is_input :: "node \<Rightarrow> bool" where
  "is_input n \<longleftrightarrow> na n = 0 \<and> nb n = 0"

definition seq_wf :: "seq \<Rightarrow> bool" where
  "seq_wf s \<longleftrightarrow> circ_wf s \<and> length (nodes s) \<le> 2 ^ 30 \<and> is_input (nodes s ! 0) \<and> is_input (nodes s ! 1) \<and>
     (\<forall>i < length (nodes s). is_and (nodes s ! i) \<or> is_input (nodes s ! i) \<or>
        is_latch (nodes s ! i) \<and> lit_in s (nb (nodes s ! i))) \<and>
     map (unat \<circ> lit_Var) (latches s) = [i \<leftarrow> [0..<length (nodes s)]. is_latch (nodes s ! i)] \<and>
     (\<forall>m \<in> set (latches s). lit_IsPos m)"

lemma seq_wf_circ [simp]: "seq_wf s \<Longrightarrow> circ_wf s"
  by (simp add: seq_wf_def)

lemma not_and_cases: "circ_wf s \<Longrightarrow> i < length (nodes s) \<Longrightarrow> \<not> is_and (nodes s ! i) \<Longrightarrow> na (nodes s ! i) \<in> {0, 2, 3}"
  using circ_wf_node_ok [of s i] by (simp add: node_ok_def)

lemma seq_wf_NewSCap: "n \<le> 2 ^ 31 \<Longrightarrow> seq_wf (NewSCap n)"
  using initC_wf [of n]
  by (auto simp: seq_wf_def NewSCap_def circ.defs seq.defs initC_def circ_wf_def replicate_2 nth_Cons'
      is_input_def is_latch_def is_and_def zero_node_def split: if_splits)

text \<open>Replacing one non-gate node by another one, as \<^verbatim>\<open>SetNext\<close> and \<^verbatim>\<open>SetInit\<close> do.\<close>

lemma node_replace_wf:
  assumes wf: "circ_wf s" and i: "i < length (nodes s)" and old: "\<not> is_and (nodes s ! i)"
    and n: "\<not> is_and n" "na n \<in> {0, 2, 3}" "nn n = 0"
  shows "circ_wf (s\<lparr>nodes := (nodes s)[i := n]\<rparr>)"
proof -
  have "node_ok i n" using n by (simp add: node_ok_def)
  then show ?thesis using wf n i by (auto simp: circ_wf_def nth_list_update_if)
qed

lemma chain_replace:
  assumes "on_chain ns h j" and "\<forall>k. nn (ns' ! k) = nn (ns ! k)"
  shows "on_chain ns' h j"
  using assms(1)
proof induction
  case (there si i)
  then show ?case using assms(2) by (metis on_chain.there)
qed (rule on_chain.here)

lemma canon_replace:
  assumes canon: "canon s" and i: "i < length (nodes s)" and old: "\<not> is_and (nodes s ! i)"
    and n: "\<not> is_and n" "nn n = nn (nodes s ! i)"
  shows "canon (s\<lparr>nodes := (nodes s)[i := n]\<rparr>)"
proof -
  let ?ns = "(nodes s)[i := n]"
  have nn: "\<forall>k. nn (?ns ! k) = nn (nodes s ! k)"
  proof
    fix k show "nn (?ns ! k) = nn (nodes s ! k)" using n(2) i by (cases "k = i") simp_all
  qed
  have is_and: "is_and (?ns ! k) = is_and (nodes s ! k)" for k
    using old n(1) i by (cases "k = i") simp_all
  have same: "?ns ! k = nodes s ! k" if "is_and (nodes s ! k)" for k
    using old that by (cases "k = i") simp_all
  have "strash_ok (s\<lparr>nodes := ?ns\<rparr>)"
    using canon chain_replace [OF _ nn] is_and same by (simp add: canon_def strash_ok_def)
  moreover have "a = b" if ab: "a < length (nodes s)" "b < length (nodes s)" "is_and (?ns ! a)"
      "na (?ns ! a) = na (?ns ! b)" "nb (?ns ! a) = nb (?ns ! b)" for a b
  proof -
    have "is_and (?ns ! b)" using ab by (simp add: is_and_def)
    then have "?ns ! a = nodes s ! a" "?ns ! b = nodes s ! b" using ab is_and same by auto
    then show ?thesis using canon ab is_and by (simp add: canon_def)
  qed
  ultimately show ?thesis by (auto simp: canon_def)
qed

lemma lit_in_replace [simp]: "lit_in (s\<lparr>nodes := (nodes s)[i := n]\<rparr>) m = lit_in s m"
  by (simp add: lit_in_def)

lemma lit_in_latches [simp]: "lit_in (s\<lparr>latches := ls\<rparr>) m = lit_in s m"
  by (simp add: lit_in_def)

text \<open>The node of a latch of a well-formed circuit passes the checks of the accessors.\<close>

lemma seq_node_cases:
  assumes "seq_wf s" "lit_in s m"
  obtains (gate) "is_and (nodes s ! unat (lit_Var m))"
    | (input) "is_input (nodes s ! unat (lit_Var m))"
    | (latch) "is_latch (nodes s ! unat (lit_Var m))" "lit_in s (nb (nodes s ! unat (lit_Var m)))"
        "na (nodes s ! unat (lit_Var m)) \<in> {0, 2, 3}"
proof -
  let ?n = "nodes s ! unat (lit_Var m)"
  have i: "unat (lit_Var m) < length (nodes s)" using assms(2) by (simp add: lit_in_def)
  then consider "is_and ?n" | "is_input ?n" | "is_latch ?n" "lit_in s (nb ?n)"
    using assms(1) by (auto simp: seq_wf_def)
  then show thesis
    using gate input latch not_and_cases [OF seq_wf_circ [OF assms(1)] i]
    by cases (auto simp: is_latch_def)
qed

lemma seq_replace_latch:
  assumes wf: "seq_wf s" and i: "i < length (nodes s)" "is_latch (nodes s ! i)"
    and n: "na n \<in> {0, 2, 3}" "lit_in s (nb n)" "nn n = nn (nodes s ! i)"
  shows "seq_wf (s\<lparr>nodes := (nodes s)[i := n]\<rparr>) \<and> (canon s \<longrightarrow> canon (s\<lparr>nodes := (nodes s)[i := n]\<rparr>))"
proof -
  let ?s = "s\<lparr>nodes := (nodes s)[i := n]\<rparr>"
  have old: "\<not> is_and (nodes s ! i)" using i(2) by (simp add: is_latch_def)
  have new: "\<not> is_and n" "is_latch n" using n(1,2) lit_in_ge_2 [OF n(2)] by (auto simp: is_and_def is_latch_def)
  have nn: "nn (nodes s ! i) = 0" using circ_wf_node_ok [OF seq_wf_circ [OF wf] i(1)] old by (rule node_ok_not_and_nn)
  have cwf: "circ_wf ?s" by (rule node_replace_wf) (use wf i(1) old new n nn in simp_all)
  have "is_latch ((nodes s)[i := n] ! k) = is_latch (nodes s ! k)" for k
    using i new by (cases "k = i") simp_all
  moreover have "\<not> is_latch (nodes s ! 0)" "\<not> is_latch (nodes s ! 1)"
    using wf by (auto simp: seq_wf_def is_input_def is_latch_def)
  then have "i \<noteq> 0 \<and> i \<noteq> 1" using i(2) by (cases "i = 0"; cases "i = 1"; simp)
  ultimately have "seq_wf ?s"
    using cwf wf i n(2) new unfolding seq_wf_def by (simp add: nth_list_update_if)
  then show ?thesis using canon_replace [of s i n] i(1) old new(1) n(3) by blast
qed

lemma S_SetNext_spec:
  assumes wf: "seq_wf s" and m: "lit_in s m" "is_latch (nodes s ! unat (lit_Var m))" and nxt: "lit_in s nxt"
  shows "returns (S_SetNext s m nxt) (\<lambda>s'. seq_wf s' \<and> (canon s \<longrightarrow> canon s') \<and> S_Next s' m = Some nxt \<and>
    S_Init s' m = S_Init s m \<and> length (nodes s') = length (nodes s) \<and> latches s' = latches s)"
proof -
  let ?i = "unat (lit_Var m)"
  let ?n = "(nodes s ! ?i)\<lparr>nb := nxt\<rparr>"
  have i: "?i < length (nodes s)" using m(1) by (simp add: lit_in_def)
  have na: "na (nodes s ! ?i) \<in> {0, 2, 3}"
    using seq_node_cases [OF wf m(1)] m(2) by (auto simp: is_latch_def is_input_def)
  have lits: "cF s = 3" "cT s = 2" using seq_wf_circ [OF wf] by (auto simp: circ_wf_def)
  have "seq_wf (s\<lparr>nodes := (nodes s)[?i := ?n]\<rparr>) \<and> (canon s \<longrightarrow> canon (s\<lparr>nodes := (nodes s)[?i := ?n]\<rparr>))"
    by (rule seq_replace_latch [OF wf i m(2)]) (use na nxt in simp_all)
  then show ?thesis using i na lits by (auto simp: S_SetNext_def S_Next_def S_Init_def LitNull_def)
qed

lemma S_SetInit_spec:
  assumes wf: "seq_wf s" and m: "lit_in s m" "is_latch (nodes s ! unat (lit_Var m))" and init: "init \<in> {LitNull, cF s, cT s}"
  shows "returns (S_SetInit s m init) (\<lambda>s'. seq_wf s' \<and> (canon s \<longrightarrow> canon s') \<and> S_Init s' m = Some init \<and>
    S_Next s' m = S_Next s m \<and> length (nodes s') = length (nodes s) \<and> latches s' = latches s)"
proof -
  let ?i = "unat (lit_Var m)"
  let ?n = "(nodes s ! ?i)\<lparr>na := init\<rparr>"
  have i: "?i < length (nodes s)" using m(1) by (simp add: lit_in_def)
  have lits: "cF s = 3" "cT s = 2" using seq_wf_circ [OF wf] by (auto simp: circ_wf_def)
  have na: "na (nodes s ! ?i) \<in> {0, 2, 3}" "lit_in s (nb (nodes s ! ?i))"
    using seq_node_cases [OF wf m(1)] m(2) by (auto simp: is_latch_def is_input_def)
  have "seq_wf (s\<lparr>nodes := (nodes s)[?i := ?n]\<rparr>) \<and> (canon s \<longrightarrow> canon (s\<lparr>nodes := (nodes s)[?i := ?n]\<rparr>))"
    by (rule seq_replace_latch [OF wf i m(2)]) (use na init lits in \<open>auto simp: LitNull_def\<close>)
  then show ?thesis using i na init lits by (auto simp: S_SetInit_def S_Next_def S_Init_def LitNull_def)
qed

lemma S_Latch_spec:
  assumes wf: "seq_wf s" and room: "circ_room 1 s" and init: "init \<in> {LitNull, cF s, cT s}"
  shows "returns (S_Latch s init) (\<lambda>(s', m). seq_wf s' \<and> (canon s \<longrightarrow> canon s') \<and> lit_in s' m \<and> \<not> lit_in s m \<and>
    lit_IsPos m \<and> S_Init s' m = Some init \<and> S_Next s' m = Some m \<and> latches s' = latches s @ [m] \<and>
    length (nodes s') = Suc (length (nodes s)) \<and> cT s' = cT s \<and>
    (\<forall>i < length (nodes s). na (nodes s' ! i) = na (nodes s ! i) \<and> nb (nodes s' ! i) = nb (nodes s ! i)))"
proof -
  let ?l = "length (nodes s)"
  obtain c j where c: "C_newNode s = Some (c, j)" and post: "new_post s (c, j)"
    using C_newNode_spec [OF seq_wf_circ [OF wf] room] by (rule returnsE2)
  have p: "circ_wf c" "circ_ext s c" "length (nodes c) = Suc ?l" "unat j = ?l" "nodes c ! ?l = zero_node"
    "circ.more c = circ.more s"
    using post by (auto simp: new_post_def)
  have canon_c: "canon s \<longrightarrow> canon c"
    using C_Lit_spec [OF seq_wf_circ [OF wf] room] c by (simp add: C_Lit_def)
  have lat: "latches c = latches s" using p(6) by (cases c; cases s) simp
  have two: "2 \<le> ?l" "?l < 2 ^ 30" using wf room by (auto simp: circ_wf_def seq_wf_def circ_room_def)
  define n where "n = zero_node\<lparr>na := init, nb := var_Pos j\<rparr>"
  let ?s = "c\<lparr>nodes := (nodes c)[?l := n], latches := latches c @ [var_Pos j]\<rparr>"
  have lits: "cF s = 3" "cT s = 2" "cF c = 3" "cT c = 2" using seq_wf_circ [OF wf] p(1) by (auto simp: circ_wf_def)
  have m: "unat (lit_Var (var_Pos j)) = ?l" "lit_IsPos (var_Pos j)" using two p(4) by simp_all
  have "unat (lit_Var (0 :: lit)) = 0" by (simp add: unat_lit_Var)
  then have "var_Pos j \<noteq> 0" using m(1) two by auto
  then have n: "na n \<in> {0, 2, 3}" "nn n = 0" "\<not> is_and n" "is_latch n"
    using init lits unfolding n_def
    by (auto simp: LitNull_def zero_node_def is_and_def is_latch_def)
  have cwf: "circ_wf (c\<lparr>nodes := (nodes c)[?l := n]\<rparr>)"
    by (rule node_replace_wf) (use p n in simp_all)
  have ccanon: "canon s \<longrightarrow> canon (c\<lparr>nodes := (nodes c)[?l := n]\<rparr>)"
  proof
    assume "canon s"
    moreover have "\<not> is_and (nodes c ! ?l)" "nn n = nn (nodes c ! ?l)" using n(2) by (simp_all add: p(5) zero_node_def is_and_def)
    ultimately show "canon (c\<lparr>nodes := (nodes c)[?l := n]\<rparr>)" using canon_c n(3) p(3) by (intro canon_replace) simp_all
  qed
  have old: "na (nodes c ! i) = na (nodes s ! i)" "nb (nodes c ! i) = nb (nodes s ! i)" if "i < ?l" for i
    using p(2) that by (simp_all add: circ_ext_def)
  have kinds: "is_and ((nodes c)[?l := n] ! i) = is_and (nodes s ! i)"
    "is_input ((nodes c)[?l := n] ! i) = is_input (nodes s ! i)"
    "is_latch ((nodes c)[?l := n] ! i) = is_latch (nodes s ! i)" if "i < ?l" for i
    using old [OF that] that by (simp_all add: is_and_def is_input_def is_latch_def)
  have at: "(nodes c)[?l := n] ! ?l = n" using p(3) by simp
  have ne: "nodes s \<noteq> []" using two by auto
  then have lm: "lit_in ?s (var_Pos j)" using m p(3) two by (simp add: lit_in_def)
  have keep: "lit_in ?s k" if "lit_in s k" for k using that p(3) by (simp add: lit_in_def)
  have len: "length (nodes ?s) = Suc ?l" using p(3) by simp
  have filt: "[i \<leftarrow> [0..<?l]. is_latch ((nodes c)[?l := n] ! i)] = [i \<leftarrow> [0..<?l]. is_latch (nodes s ! i)]"
    by (rule filter_cong) (use kinds in auto)
  have node: "is_and (nodes ?s ! i) \<or> is_input (nodes ?s ! i) \<or> is_latch (nodes ?s ! i) \<and> lit_in ?s (nb (nodes ?s ! i))"
    if "i < length (nodes ?s)" for i
  proof (cases "i = ?l")
    case True
    then show ?thesis using at n lm by (simp add: n_def)
  next
    case False
    then have i: "i < ?l" using that len by simp
    then have "nb (nodes ?s ! i) = nb (nodes s ! i)" using old by simp
    then show ?thesis using wf i kinds [OF i] keep by (simp add: seq_wf_def) metis
  qed
  have "seq_wf ?s"
    unfolding seq_wf_def
  proof (intro conjI)
    show "circ_wf ?s" using cwf by (simp add: circ_wf_def)
    show "length (nodes ?s) \<le> 2 ^ 30" using len room by (simp add: circ_room_def)
    show "is_input (nodes ?s ! 0)" "is_input (nodes ?s ! 1)" using kinds two ne wf by (simp_all add: seq_wf_def)
    show "\<forall>i < length (nodes ?s). is_and (nodes ?s ! i) \<or> is_input (nodes ?s ! i) \<or>
        is_latch (nodes ?s ! i) \<and> lit_in ?s (nb (nodes ?s ! i))" using node by blast
    show "map (unat \<circ> lit_Var) (latches ?s) = [i \<leftarrow> [0..<length (nodes ?s)]. is_latch (nodes ?s ! i)]"
      using wf m lat len at n(4) filt by (simp add: seq_wf_def p(3))
    show "\<forall>m \<in> set (latches ?s). lit_IsPos m" using wf m lat by (auto simp: seq_wf_def)
  qed
  moreover have "canon s \<longrightarrow> canon ?s" using ccanon by (simp add: canon_def strash_ok_def)
  moreover have "S_Latch s init = Some (?s, var_Pos j)"
    using c p(3,4,5) init lits by (auto simp: S_Latch_def n_def Let_def)
  moreover have "\<not> lit_in s (var_Pos j)" using m by (simp add: lit_in_def)
  moreover have "S_Init ?s (var_Pos j) = Some init" "S_Next ?s (var_Pos j) = Some (var_Pos j)"
    using m p(3) init lits by (auto simp: S_Init_def S_Next_def n_def)
  moreover have "cT ?s = cT s" using lits by simp
  moreover have "\<forall>i < ?l. na (nodes ?s ! i) = na (nodes s ! i) \<and> nb (nodes ?s ! i) = nb (nodes s ! i)"
    using old by simp
  ultimately show ?thesis using lm m lat len by simp
qed

text \<open>Gates keep a sequential circuit well formed, and so do inputs.\<close>

lemma seq_wf_ext_aux:
  assumes wf: "seq_wf s" and c: "circ_wf c" "circ_ext s c" "circ.more c = circ.more s"
    and len: "length (nodes c) \<le> 2 ^ 30"
    and new: "\<forall>i < length (nodes c). length (nodes s) \<le> i \<longrightarrow> is_and (nodes c ! i) \<or> is_input (nodes c ! i)"
  shows "seq_wf c"
proof -
  let ?l = "length (nodes s)"
  have lat: "latches c = latches s" using c(3) by (cases c; cases s) simp
  have old: "na (nodes c ! i) = na (nodes s ! i)" "nb (nodes c ! i) = nb (nodes s ! i)" if "i < ?l" for i
    using c(2) that by (simp_all add: circ_ext_def)
  have kinds: "is_and (nodes c ! i) = is_and (nodes s ! i)" "is_input (nodes c ! i) = is_input (nodes s ! i)"
    "is_latch (nodes c ! i) = is_latch (nodes s ! i)" if "i < ?l" for i
    using old [OF that] by (simp_all add: is_and_def is_input_def is_latch_def)
  have two: "2 \<le> ?l" using wf by (auto simp: seq_wf_def circ_wf_def)
  then have "0 < ?l" "1 < ?l" by linarith+
  have le: "?l \<le> length (nodes c)" using c(2) by (simp add: circ_ext_def)
  then have "[0..<length (nodes c)] = [0..<?l] @ [?l..<length (nodes c)]"
    by (metis le_iff_add le0 upt_add_eq_append)
  moreover have "[i \<leftarrow> [?l..<length (nodes c)]. is_latch (nodes c ! i)] = []"
    using new by (auto simp: filter_empty_conv is_latch_def is_input_def)
  moreover have "[i \<leftarrow> [0..<?l]. is_latch (nodes c ! i)] = [i \<leftarrow> [0..<?l]. is_latch (nodes s ! i)]"
    by (rule filter_cong) (simp_all add: kinds)
  ultimately have "[i \<leftarrow> [0..<length (nodes c)]. is_latch (nodes c ! i)] = [i \<leftarrow> [0..<?l]. is_latch (nodes s ! i)]"
    by simp
  moreover have "is_and (nodes c ! i) \<or> is_input (nodes c ! i) \<or> is_latch (nodes c ! i) \<and> lit_in c (nb (nodes c ! i))"
    if "i < length (nodes c)" for i
    using that new wf kinds [of i] old [of i] lit_in_ext [OF c(2)] by (cases "i < ?l") (auto simp: seq_wf_def)
  moreover have "is_input (nodes c ! 0)" "is_input (nodes c ! 1)"
    using kinds(2) [OF \<open>0 < ?l\<close>] kinds(2) [OF \<open>1 < ?l\<close>] wf unfolding seq_wf_def by blast+
  moreover have "map (unat \<circ> lit_Var) (latches s) = [i \<leftarrow> [0..<?l]. is_latch (nodes s ! i)]"
    "\<forall>m \<in> set (latches s). lit_IsPos m" using wf by (simp_all add: seq_wf_def)
  ultimately show ?thesis unfolding seq_wf_def using c(1) len lat by metis
qed

lemma S_And_spec:
  assumes wf: "seq_wf s" and room: "circ_room 1 s" and ab: "lit_in s a" "lit_in s b"
  shows "returns (C_And s a b) (\<lambda>(s', g). seq_wf s' \<and> lit_in s' g)"
proof -
  obtain c g where c: "C_And s a b = Some (c, g)"
    and post: "and_post s (\<lambda>\<rho>. lit_val (nodes s) \<rho> a \<and> lit_val (nodes s) \<rho> b) 1 (c, g)"
    using C_And_spec [OF seq_wf_circ [OF wf] room ab] by (rule returnsE2)
  then have p: "circ_wf c" "circ_ext s c" "circ.more c = circ.more s" "length (nodes c) \<le> 2 ^ 30"
    using room by (auto simp: and_post_def circ_room_def)
  have "seq_wf c" by (rule seq_wf_ext_aux [OF wf p]) (use post in \<open>simp add: and_post_def\<close>)
  then show ?thesis using c post by (simp add: and_post_def)
qed

lemma S_Type_spec:
  assumes wf: "seq_wf s" and m: "lit_in s m"
  shows "S_Type s m = Some (if lit_Var m = 1 then SConst
    else if is_and (nodes s ! unat (lit_Var m)) then SAnd
    else if is_latch (nodes s ! unat (lit_Var m)) then SLatch else SInput)"
proof -
  let ?n = "nodes s ! unat (lit_Var m)"
  have i: "unat (lit_Var m) < length (nodes s)" using m by (simp add: lit_in_def)
  have cT: "lit_Var (cT s) = 1" using seq_wf_circ [OF wf] by (simp add: circ_wf_def)
  have z: "lit_Var 0 \<noteq> 1" by (simp add: word_eq_iff_unat unat_lit_Var)
  from wf m show ?thesis
  proof (cases rule: seq_node_cases)
    case gate
    then have "2 \<le> unat (lit_Var (na ?n))" "na ?n \<noteq> 0"
      using node_ok_operands(1) [OF circ_wf_node_ok [OF seq_wf_circ [OF wf] i]] by (auto simp: is_and_def)
    then show ?thesis using i gate cT by (auto simp: S_Type_def Let_def LitNull_def)
  next
    case input
    then have "\<not> is_and ?n" "\<not> is_latch ?n" by (auto simp: is_input_def is_and_def is_latch_def)
    then show ?thesis using i input cT by (simp add: S_Type_def Let_def LitNull_def is_input_def)
  next
    case latch
    then show ?thesis using i cT z by (auto simp: S_Type_def Let_def LitNull_def is_latch_def)
  qed
qed

text \<open>The type of a literal, in terms of the latches recorded by the circuit.\<close>

definition S_Type_apart :: "seq \<Rightarrow> bool" where
  "S_Type_apart s \<longleftrightarrow> (\<forall>k. lit_in s k \<longrightarrow> S_Type s k = Some (
     if lit_Var k = lit_Var (cT s) then SConst
     else if lit_Var k \<in> lit_Var ` set (latches s) then SLatch
     else if is_and (nodes s ! unat (lit_Var k)) then SAnd
     else SInput))"

lemma latch_var_iff:
  assumes wf: "seq_wf s" and k: "lit_in s k"
  shows "is_latch (nodes s ! unat (lit_Var k)) \<longleftrightarrow> lit_Var k \<in> lit_Var ` set (latches s)"
proof -
  have "map (unat \<circ> lit_Var) (latches s) = [i \<leftarrow> [0..<length (nodes s)]. is_latch (nodes s ! i)]"
    using wf by (simp add: seq_wf_def)
  from arg_cong [OF this, of set]
  have "(unat \<circ> lit_Var) ` set (latches s) = {i. i < length (nodes s) \<and> is_latch (nodes s ! i)}" by auto
  then have "is_latch (nodes s ! unat (lit_Var k)) \<longleftrightarrow> unat (lit_Var k) \<in> unat ` lit_Var ` set (latches s)"
    using k by (simp add: lit_in_def image_comp)
  then show ?thesis by (simp add: inj_image_mem_iff)
qed

lemma S_Type_apart_wf: "seq_wf s \<Longrightarrow> S_Type_apart s"
proof -
  assume wf: "seq_wf s"
  have cT: "lit_Var (cT s) = 1" using seq_wf_circ [OF wf] by (simp add: circ_wf_def)
  show ?thesis
    unfolding S_Type_apart_def cT
    using S_Type_spec [OF wf] latch_var_iff [OF wf] by (auto simp: is_latch_def)
qed

text \<open>
  (C17) The operations of \<^verbatim>\<open>logic.S\<close>: on a well-formed sequential circuit \<^verbatim>\<open>Latch\<close> with a legal
  initial value returns a fresh literal that is its own next state, is listed last among the
  latches and has the given initial value, and \<^verbatim>\<open>SetNext\<close> on a latch changes the next state of
  that latch alone and not its initial value; both keep the circuit well formed and the hash
  table canonical, so \<^verbatim>\<open>And\<close> keeps working.  \<^verbatim>\<open>Latch\<close> with another initial value panics.  Before and after,
  \<^verbatim>\<open>Type\<close> answers for every literal: constant for the constants, latch for the recorded latches, gate
  for the nodes with operands and input for the others; and no operation changes the type of an older literal.
\<close>

theorem S_latches:
  assumes "seq_wf s" and "circ_room 1 s" and "lit_in s m" and "is_latch (nodes s ! unat (lit_Var m))" and "lit_in s nxt"
  shows "S_Type_apart s \<and>
    (\<forall>init. if init \<in> {LitNull, cF s, cT s}
      then \<exists>s' g. S_Latch s init = Some (s', g) \<and> seq_wf s' \<and> (canon s \<longrightarrow> canon s') \<and> \<not> lit_in s g \<and> lit_in s' g \<and>
        S_Init s' g = Some init \<and> S_Next s' g = Some g \<and> latches s' = latches s @ [g] \<and> S_Type s' g = Some SLatch \<and>
        S_Type_apart s' \<and> (\<forall>k. lit_in s k \<longrightarrow> S_Type s' k = S_Type s k)
      else S_Latch s init = None) \<and>
    (\<exists>s'. S_SetNext s m nxt = Some s' \<and> seq_wf s' \<and> (canon s \<longrightarrow> canon s') \<and> S_Next s' m = Some nxt \<and>
      S_Init s' m = S_Init s m \<and> (\<forall>k. lit_Var k \<noteq> lit_Var m \<longrightarrow> S_Next s' k = S_Next s k \<and> S_Init s' k = S_Init s k) \<and>
      latches s' = latches s \<and> S_Type_apart s' \<and> (\<forall>k. lit_in s k \<longrightarrow> S_Type s' k = S_Type s k))"
proof (intro conjI allI)
  show "S_Type_apart s" by (rule S_Type_apart_wf [OF assms(1)])
next
  fix init
  show "if init \<in> {LitNull, cF s, cT s}
      then \<exists>s' g. S_Latch s init = Some (s', g) \<and> seq_wf s' \<and> (canon s \<longrightarrow> canon s') \<and> \<not> lit_in s g \<and> lit_in s' g \<and>
        S_Init s' g = Some init \<and> S_Next s' g = Some g \<and> latches s' = latches s @ [g] \<and> S_Type s' g = Some SLatch \<and>
        S_Type_apart s' \<and> (\<forall>k. lit_in s k \<longrightarrow> S_Type s' k = S_Type s k)
      else S_Latch s init = None"
  proof (cases "init \<in> {LitNull, cF s, cT s}")
    case True
    obtain s' g where s': "S_Latch s init = Some (s', g)"
      and p: "seq_wf s'" "canon s \<longrightarrow> canon s'" "lit_in s' g" "\<not> lit_in s g" "lit_IsPos g"
        "S_Init s' g = Some init" "S_Next s' g = Some g" "latches s' = latches s @ [g]"
        "length (nodes s') = Suc (length (nodes s))" "cT s' = cT s"
        "\<forall>i < length (nodes s). na (nodes s' ! i) = na (nodes s ! i) \<and> nb (nodes s' ! i) = nb (nodes s ! i)"
      using S_Latch_spec [OF assms(1,2) True] by (elim returnsE2) blast
    have two: "lit_Var g \<noteq> lit_Var (cT s')"
      using p(4,10) assms(1) by (auto simp: lit_in_def seq_wf_def circ_wf_def)
    have "S_Type s' g = Some SLatch"
      using S_Type_apart_wf [OF p(1)] p(3,8) two by (simp add: S_Type_apart_def)
    moreover have "S_Type s' k = S_Type s k" if k: "lit_in s k" for k
      using k p(9-11) by (simp add: S_Type_def lit_in_def Let_def)
    ultimately show ?thesis using True s' p S_Type_apart_wf [OF p(1)] by simp
  next
    case False
    then show ?thesis by (auto simp: S_Latch_def assert_o_def)
  qed
next
  obtain s' where s': "S_SetNext s m nxt = Some s'"
    and p: "seq_wf s'" "canon s \<longrightarrow> canon s'" "S_Next s' m = Some nxt"
      "S_Init s' m = S_Init s m" "length (nodes s') = length (nodes s)" "latches s' = latches s"
    using S_SetNext_spec [OF assms(1,3,4,5)] by (elim returnsE) blast
  have "S_Next s' k = S_Next s k \<and> S_Init s' k = S_Init s k" if "lit_Var k \<noteq> lit_Var m" for k
    using s' that by (auto simp: S_SetNext_def S_Next_def S_Init_def aget_def word_eq_iff_unat split: Option.bind_splits if_splits)
  moreover have "S_Type s' k = S_Type s k" if k: "lit_in s k" for k
  proof -
    have same: "cT s' = cT s" "is_and (nodes s' ! unat (lit_Var k)) = is_and (nodes s ! unat (lit_Var k))"
      using s' k by (auto simp: S_SetNext_def aget_def is_and_def nth_list_update_if lit_in_def
          split: Option.bind_splits if_splits)
    have "lit_in s' k" using k p(5) by (simp add: lit_in_def)
    then show ?thesis
      using S_Type_apart_wf [OF assms(1)] S_Type_apart_wf [OF p(1)] k same p(6) by (simp add: S_Type_apart_def)
  qed
  ultimately show "\<exists>s'. S_SetNext s m nxt = Some s' \<and> seq_wf s' \<and> (canon s \<longrightarrow> canon s') \<and> S_Next s' m = Some nxt \<and>
      S_Init s' m = S_Init s m \<and> (\<forall>k. lit_Var k \<noteq> lit_Var m \<longrightarrow> S_Next s' k = S_Next s k \<and> S_Init s' k = S_Init s k) \<and>
      latches s' = latches s \<and> S_Type_apart s' \<and> (\<forall>k. lit_in s k \<longrightarrow> S_Type s' k = S_Type s k)"
    using s' p S_Type_apart_wf [OF p(1)] by blast
qed

definition one_latch :: seq where
  "one_latch = \<lparr>nodes = [zero_node, zero_node, \<lparr>na = 3, nb = 4, nn = 0\<rparr>, zero_node], ncap = 8,
     strash = replicate 8 0, cF = 3, cT = 2, latches = [4]\<rparr>"

lemma one_latch_wf: "seq_wf one_latch" "lit_in one_latch 4" "lit_in one_latch 6" "circ_room 1 one_latch"
    "is_latch (nodes one_latch ! 2)"
proof -
  have lt4: "i < Suc (Suc (Suc (Suc 0))) \<longleftrightarrow> i = 0 \<or> i = 1 \<or> i = 2 \<or> i = 3" for i :: nat by auto
  show "seq_wf one_latch"
    by (simp add: one_latch_def seq_wf_def circ_wf_def is_latch_def is_input_def is_and_def zero_node_def
        node_ok_def lt4 all_conj_distrib imp_disjL lit_in_def unat_lit_Var upt_rec [of _ 4] lit_IsPos_even)
qed (simp_all add: one_latch_def lit_in_def unat_lit_Var circ_room_def is_latch_def is_and_def)

text \<open>
  A circuit with a node of every type: a latch of unknown initial value whose next state is the negation of
  the input, and the gate of the two.
\<close>

definition gated_latch :: seq where
  "gated_latch = \<lparr>nodes = [zero_node, zero_node, \<lparr>na = 0, nb = 7, nn = 0\<rparr>, zero_node, \<lparr>na = 4, nb = 6, nn = 0\<rparr>],
     ncap = 8, strash = replicate 8 0, cF = 3, cT = 2, latches = [4]\<rparr>"

lemma gated_latch_wf: "seq_wf gated_latch" "lit_in gated_latch 4" "lit_in gated_latch 7" "lit_in gated_latch 8"
    "circ_room 1 gated_latch" "is_latch (nodes gated_latch ! 2)"
proof -
  have lt5: "i < Suc (Suc (Suc (Suc (Suc 0)))) \<longleftrightarrow> i = 0 \<or> i = 1 \<or> i = 2 \<or> i = 3 \<or> i = 4" for i :: nat by auto
  show "seq_wf gated_latch"
    by (simp add: gated_latch_def seq_wf_def circ_wf_def is_latch_def is_input_def is_and_def zero_node_def
        node_ok_def lt5 all_conj_distrib imp_disjL lit_in_def unat_lit_Var upt_rec [of _ 5] lit_IsPos_even
        word_eq_iff_unat)
qed (simp_all add: gated_latch_def lit_in_def unat_lit_Var circ_room_def is_latch_def is_and_def)

lemma S_latches_witness:
  "(\<exists>s'. S_SetNext gated_latch 4 8 = Some s' \<and> S_Next s' 4 = Some 8 \<and> S_Type s' 4 = Some SLatch) \<and>
   map (S_Type gated_latch) [2, 3, 4, 5, 6, 7, 8, 9] =
     map Some [SConst, SConst, SLatch, SLatch, SInput, SInput, SAnd, SAnd]"
proof -
  note S = S_latches [of gated_latch 4 8, OF gated_latch_wf(1,5,2) _ gated_latch_wf(4)]
  have l: "is_latch (nodes gated_latch ! unat (lit_Var 4))" using gated_latch_wf(6) by (simp add: unat_lit_Var)
  have T: "S_Type_apart gated_latch" using S [OF l] by blast
  have v: "lit_Var 2 = 1" "lit_Var 3 = 1" "lit_Var 4 = 2" "lit_Var 5 = 2" "lit_Var 6 = 3" "lit_Var 7 = 3"
    "lit_Var 8 = 4" "lit_Var 9 = 4"
    by (simp_all add: word_eq_iff_unat unat_lit_Var)
  have "map (S_Type gated_latch) [2, 3, 4, 5, 6, 7, 8, 9] =
     map Some [SConst, SConst, SLatch, SLatch, SInput, SInput, SAnd, SAnd]"
    using T by (simp add: S_Type_apart_def gated_latch_def lit_in_def v is_and_def zero_node_def)
  moreover have "S_Type gated_latch 4 = Some SLatch" using calculation by simp
  moreover obtain s' where "S_SetNext gated_latch 4 8 = Some s'" "S_Next s' 4 = Some 8"
    "\<forall>k. lit_in gated_latch k \<longrightarrow> S_Type s' k = S_Type gated_latch k" using S [OF l] by blast
  ultimately show ?thesis using gated_latch_wf(2) by metis
qed

end
