(* ===== verification/Roll.thy ===== *)
theory Roll
  imports Sequential
begin

text \<open>
  Unrolling of sequential into combinational circuits, \<^verbatim>\<open>logic/roll.go\<close>.  A \<^verbatim>\<open>Roll\<close> holds the
  combinational circuit under construction and, for every node of the sequential circuit, the
  literals that stand for it at times 0, 1, 2, \<dots>; \<^verbatim>\<open>At\<close> extends these lists on demand.
\<close>

record roll =
  RC :: circ
  dmap :: "lit list list"

definition NewRoll :: "seq \<Rightarrow> roll" where
  "NewRoll s = \<lparr>RC = NewCCap (length (nodes s) * 10), dmap = replicate (length (nodes s)) []\<rparr>"

definition roll_Len :: "roll \<Rightarrow> lit \<Rightarrow> nat option" where
  "roll_Len u m = do { dv \<leftarrow> aget (dmap u) (unat (lit_Var m)); Some (length dv) }"

definition roll_MaxLen :: "seq \<Rightarrow> roll \<Rightarrow> nat option" where
  "roll_MaxLen s u = foldM (\<lambda>i mx. do { dv \<leftarrow> aget (dmap u) i; Some (if length dv > mx then length dv else mx) })
     [1..<length (nodes s)] 0"

definition roll_push :: "roll \<Rightarrow> nat \<Rightarrow> lit \<Rightarrow> (roll \<times> lit) option" where
  "roll_push u v res = do {
     dv \<leftarrow> aget (dmap u) v;
     dm \<leftarrow> aset (dmap u) v (dv @ [res]);
     Some (u\<lparr>dmap := dm\<rparr>, res)
   }"

definition roll_fresh :: "roll \<Rightarrow> nat \<Rightarrow> (roll \<times> lit) option" where
  "roll_fresh u v = do { (c, res) \<leftarrow> C_Lit (RC u); roll_push (u\<lparr>RC := c\<rparr>) v res }"

partial_function (option) roll_At :: "seq \<Rightarrow> lit \<Rightarrow> int \<Rightarrow> roll \<Rightarrow> (roll \<times> lit) option" where
  "roll_At s m d u = do {
     let v = unat (lit_Var m);
     dv \<leftarrow> aget (dmap u) v;
     u \<leftarrow> (if int (length dv) < d then do { (u, _) \<leftarrow> roll_At s m (d - 1) u; Some u } else Some u);
     dv \<leftarrow> aget (dmap u) v;
     (u, res) \<leftarrow>
       (if int (length dv) > d then do { assert_o (0 \<le> d); r \<leftarrow> aget dv (nat d); Some (u, r) }
        else if v = 1 then roll_push u v (cT (RC u))
        else do {
          n \<leftarrow> aget (nodes s) v;
          if nb n = LitNull then roll_fresh u v
          else if d = 0 \<and> na n = LitNull then roll_fresh u v
          else if d = 0 \<and> na n = cF s then roll_push u v (cF (RC u))
          else if d = 0 \<and> na n = cT s then roll_push u v (cT (RC u))
          else if na n = cF s \<or> na n = cT s \<or> na n = LitNull then do {
            (u, res) \<leftarrow> roll_At s (nb n) (d - 1) u;
            roll_push u v res
          } else do {
            (u, a) \<leftarrow> roll_At s (na n) d u;
            (u, b) \<leftarrow> roll_At s (nb n) d u;
            (c, res) \<leftarrow> C_And (RC u) a b;
            roll_push (u\<lparr>RC := c\<rparr>) v res
          }
        });
     Some (u, if lit_IsPos m then res else lit_Not res)
   }"

declare roll_At.simps [code]

section \<open>Values of a sequential circuit over time\<close>

function seq_val :: "seq \<Rightarrow> (nat \<Rightarrow> nat \<Rightarrow> bool) \<Rightarrow> nat \<Rightarrow> nat \<Rightarrow> bool" where
  "seq_val s inp t i =
     (let n = nodes s ! i in
      if i = 1 then True
      else if is_and n \<and> unat (lit_Var (na n)) < i \<and> unat (lit_Var (nb n)) < i
      then seq_val s inp t (unat (lit_Var (na n))) = lit_IsPos (na n) \<and>
           seq_val s inp t (unat (lit_Var (nb n))) = lit_IsPos (nb n)
      else if is_latch n then
        (if t = 0 then (if na n = 3 then False else if na n = 2 then True else inp 0 i)
         else seq_val s inp (t - 1) (unat (lit_Var (nb n))) = lit_IsPos (nb n))
      else inp t i)"
  by pat_completeness auto
termination
  by (relation "measures [\<lambda>(s, inp, t, i). t, \<lambda>(s, inp, t, i). i]") auto

declare seq_val.simps [simp del]

section \<open>The invariant of the unroller\<close>

definition ent :: "lit list list \<Rightarrow> lit \<Rightarrow> nat \<Rightarrow> lit" where
  "ent dm m t = (if lit_IsPos m then dm ! unat (lit_Var m) ! t else lit_Not (dm ! unat (lit_Var m) ! t))"

text \<open>The places where the unrolling has a choice: inputs, and unknown initial values.\<close>

definition free_slot :: "seq \<Rightarrow> nat \<Rightarrow> nat \<Rightarrow> bool" where
  "free_slot s v t \<longleftrightarrow> v \<noteq> 1 \<and> (is_input (nodes s ! v) \<or> is_latch (nodes s ! v) \<and> na (nodes s ! v) = 0 \<and> t = 0)"

definition slot_ok :: "seq \<Rightarrow> circ \<Rightarrow> lit list list \<Rightarrow> nat \<Rightarrow> nat \<Rightarrow> bool" where
  "slot_ok s c dm v t \<longleftrightarrow>
     (let n = nodes s ! v; e = dm ! v ! t in lit_in c e \<and>
      (if v = 1 then e = 2
       else if is_and n then
         t < length (dm ! unat (lit_Var (na n))) \<and> t < length (dm ! unat (lit_Var (nb n))) \<and>
         (\<forall>\<rho>. lit_val (nodes c) \<rho> e \<longleftrightarrow> lit_val (nodes c) \<rho> (ent dm (na n) t) \<and> lit_val (nodes c) \<rho> (ent dm (nb n) t))
       else if free_slot s v t then lit_IsPos e \<and> is_input (nodes c ! unat (lit_Var e)) \<and> 2 \<le> unat (lit_Var e)
       else if t = 0 then e = na n
       else t - 1 < length (dm ! unat (lit_Var (nb n))) \<and> e = ent dm (nb n) (t - 1)))"

definition roll_inv :: "seq \<Rightarrow> nat \<Rightarrow> roll \<Rightarrow> bool" where
  "roll_inv s B u \<longleftrightarrow> circ_wf (RC u) \<and> length (dmap u) = length (nodes s) \<and>
     length (nodes (RC u)) \<le> 2 + sum_list (map length (dmap u)) \<and>
     (\<forall>v < length (nodes s). length (dmap u ! v) \<le> B) \<and>
     (\<forall>v < length (nodes s). \<forall>t < length (dmap u ! v). slot_ok s (RC u) (dmap u) v t) \<and>
     (\<forall>v < length (nodes s). \<forall>t < length (dmap u ! v). \<forall>w < length (nodes s). \<forall>r < length (dmap u ! w).
        free_slot s v t \<and> free_slot s w r \<and> dmap u ! v ! t = dmap u ! w ! r \<longrightarrow> v = w \<and> t = r)"

definition dm_le :: "lit list list \<Rightarrow> lit list list \<Rightarrow> bool" where
  "dm_le dm dm' \<longleftrightarrow> length dm' = length dm \<and> (\<forall>v < length dm. \<exists>xs. dm' ! v = dm ! v @ xs)"

lemma dm_le_refl [simp]: "dm_le dm dm"
  by (auto simp: dm_le_def)

lemma dm_le_trans: "dm_le a b \<Longrightarrow> dm_le b c \<Longrightarrow> dm_le a c"
  unfolding dm_le_def by (metis append_assoc)

lemma dm_le_nth:
  assumes "dm_le dm dm'" "v < length dm" "t < length (dm ! v)"
  shows "dm' ! v ! t = dm ! v ! t" "t < length (dm' ! v)"
  using assms unfolding dm_le_def by (metis nth_append, metis length_append trans_less_add1)

lemma dm_le_length: "dm_le dm dm' \<Longrightarrow> v < length dm \<Longrightarrow> length (dm ! v) \<le> length (dm' ! v)"
  unfolding dm_le_def by (metis length_append le_add1)

lemma dm_le_ent:
  assumes "dm_le dm dm'" "unat (lit_Var m) < length dm" "t < length (dm ! unat (lit_Var m))"
  shows "ent dm' m t = ent dm m t"
  using dm_le_nth [OF assms] by (simp add: ent_def)

lemma seq_operands:
  assumes "seq_wf s" "v < length (nodes s)"
  shows "is_and (nodes s ! v) \<Longrightarrow> unat (lit_Var (na (nodes s ! v))) < v \<and> unat (lit_Var (nb (nodes s ! v))) < v"
    and "is_latch (nodes s ! v) \<Longrightarrow> unat (lit_Var (nb (nodes s ! v))) < length (nodes s) \<and> na (nodes s ! v) \<in> {0, 2, 3}"
proof -
  show "is_and (nodes s ! v) \<Longrightarrow> unat (lit_Var (na (nodes s ! v))) < v \<and> unat (lit_Var (nb (nodes s ! v))) < v"
    using node_ok_operands [OF circ_wf_node_ok [OF seq_wf_circ [OF assms(1)] assms(2)]] by blast
  assume l: "is_latch (nodes s ! v)"
  then have "lit_in s (nb (nodes s ! v))" using assms unfolding seq_wf_def is_latch_def is_input_def by blast
  then show "unat (lit_Var (nb (nodes s ! v))) < length (nodes s) \<and> na (nodes s ! v) \<in> {0, 2, 3}"
    using l not_and_cases [OF seq_wf_circ [OF assms(1)] assms(2)] by (simp add: lit_in_def is_latch_def)
qed

lemma seq_kinds:
  assumes "seq_wf s" "v < length (nodes s)"
  obtains (gate) "is_and (nodes s ! v)" | (input) "is_input (nodes s ! v)" "\<not> is_and (nodes s ! v)"
    | (latch) "is_latch (nodes s ! v)" "\<not> is_and (nodes s ! v)" "\<not> is_input (nodes s ! v)"
proof -
  have "is_and (nodes s ! v) \<or> is_input (nodes s ! v) \<or> is_latch (nodes s ! v)"
    using assms by (auto simp: seq_wf_def)
  then show thesis using gate input latch by (auto simp: is_latch_def is_input_def is_and_def)
qed

lemma slot_ok_in: "slot_ok s c dm v t \<Longrightarrow> lit_in c (dm ! v ! t)"
  by (simp add: slot_ok_def Let_def)

lemma ent_in: "lit_in c (dm ! unat (lit_Var m) ! t) \<Longrightarrow> lit_in c (ent dm m t)"
  by (simp add: ent_def)

lemma is_input_ext:
  "circ_ext c c' \<Longrightarrow> lit_in c e \<Longrightarrow> is_input (nodes c' ! unat (lit_Var e)) = is_input (nodes c ! unat (lit_Var e))"
  by (simp add: circ_ext_def lit_in_def is_input_def)

lemma slot_ok_mono:
  assumes wf: "seq_wf s" and ok: "slot_ok s c dm v t" and ext: "circ_ext c c'" and le: "dm_le dm dm'"
    and v: "v < length (nodes s)" "length dm = length (nodes s)" "t < length (dm ! v)"
    and all: "\<forall>v < length dm. \<forall>t < length (dm ! v). lit_in c (dm ! v ! t)"
  shows "slot_ok s c' dm' v t"
proof -
  let ?n = "nodes s ! v"
  have e: "dm' ! v ! t = dm ! v ! t" using dm_le_nth [OF le] v by simp
  have in_c: "lit_in c (dm ! v ! t)" using ok by (rule slot_ok_in)
  have in_c': "lit_in c' (dm ! v ! t)" using lit_in_ext [OF ext in_c] .
  have kept: "ent dm' m r = ent dm m r \<and> r < length (dm' ! unat (lit_Var m)) \<and> lit_in c (ent dm m r)"
    if "unat (lit_Var m) < length dm" "r < length (dm ! unat (lit_Var m))" for m r
    using dm_le_ent [OF le that] dm_le_nth(2) [OF le that] all that ent_in by blast
  consider "v = 1" | "v \<noteq> 1" "is_and ?n" | "v \<noteq> 1" "\<not> is_and ?n" "free_slot s v t"
    | "v \<noteq> 1" "\<not> is_and ?n" "\<not> free_slot s v t" "t = 0" | "v \<noteq> 1" "\<not> is_and ?n" "\<not> free_slot s v t" "t \<noteq> 0" by blast
  then show ?thesis
  proof cases
    case 2
    have a: "unat (lit_Var (na ?n)) < length dm" "unat (lit_Var (nb ?n)) < length dm"
      using seq_operands(1) [OF wf v(1) 2(2)] v by auto
    have l: "t < length (dm ! unat (lit_Var (na ?n)))" "t < length (dm ! unat (lit_Var (nb ?n)))"
      using ok 2 by (auto simp: slot_ok_def Let_def)
    show ?thesis
      using ok 2 e in_c in_c' kept [OF a(1) l(1)] kept [OF a(2) l(2)] lit_val_ext [OF ext]
      by (simp add: slot_ok_def Let_def)
  next
    case 3
    then show ?thesis using ok e in_c in_c' is_input_ext [OF ext in_c] by (simp add: slot_ok_def Let_def)
  next
    case 5
    have latch: "is_latch ?n" using 5 v(1) wf by (cases rule: seq_kinds [OF wf v(1)]) (auto simp: free_slot_def)
    have a: "unat (lit_Var (nb ?n)) < length dm" using seq_operands(2) [OF wf v(1) latch] v by simp
    have l: "t - 1 < length (dm ! unat (lit_Var (nb ?n)))" using ok 5 by (auto simp: slot_ok_def Let_def)
    show ?thesis using ok 5 e in_c' kept [OF a l] by (simp add: slot_ok_def Let_def)
  qed (use ok e in_c' in \<open>simp_all add: slot_ok_def Let_def\<close>)
qed

lemma sum_list_update_append:
  assumes "v < length dm"
  shows "sum_list (map length (dm[v := dm ! v @ [e]])) = Suc (sum_list (map length dm))"
  using assms by (simp add: map_update sum_list_update)

lemma roll_extend:
  assumes wf: "seq_wf s" and inv: "roll_inv s B u" and v: "v < length (nodes s)" "length (dmap u ! v) < B"
    and c: "circ_wf c" "circ_ext (RC u) c" "length (nodes c) \<le> Suc (length (nodes (RC u)))"
    and dm: "dm = (dmap u)[v := dmap u ! v @ [e]]"
    and ok: "slot_ok s c dm v (length (dmap u ! v))"
    and fresh: "free_slot s v (length (dmap u ! v)) \<Longrightarrow> \<not> lit_in (RC u) e"
  shows "roll_inv s B (u\<lparr>RC := c, dmap := dm\<rparr>) \<and> dm_le (dmap u) dm"
proof -
  let ?N = "length (nodes s)" and ?t = "length (dmap u ! v)"
  have len: "length (dmap u) = ?N" using inv by (simp add: roll_inv_def)
  have le: "dm_le (dmap u) dm" using v len by (auto simp: dm dm_le_def nth_list_update)
  have all: "\<forall>v < length (dmap u). \<forall>t < length (dmap u ! v). lit_in (RC u) (dmap u ! v ! t)"
    by (intro allI impI, rule slot_ok_in [of s]) (use inv len in \<open>simp add: roll_inv_def\<close>)
  have old_or_new: "(t < length (dmap u ! w) \<and> dm ! w ! t = dmap u ! w ! t) \<or> (w = v \<and> t = ?t \<and> dm ! w ! t = e)"
    if "w < ?N" "t < length (dm ! w)" for w t
    using that v len by (cases "w = v") (auto simp: dm nth_append)
  have slots: "slot_ok s c dm w t" if "w < ?N" "t < length (dm ! w)" for w t
    using old_or_new [OF that]
  proof
    assume *: "t < length (dmap u ! w) \<and> dm ! w ! t = dmap u ! w ! t"
    then have "slot_ok s (RC u) (dmap u) w t" using inv that(1) by (simp add: roll_inv_def)
    then show ?thesis using slot_ok_mono [OF wf _ c(2) le that(1) len _ all] * by blast
  qed (use ok in auto)
  have inj: "w = w' \<and> t = t'" if w: "w < ?N" "t < length (dm ! w)" "w' < ?N" "t' < length (dm ! w')"
      "free_slot s w t" "free_slot s w' t'" "dm ! w ! t = dm ! w' ! t'" for w t w' t'
  proof -
    have oldinj: "w = w' \<and> t = t'" if "t < length (dmap u ! w)" "t' < length (dmap u ! w')"
        "dmap u ! w ! t = dmap u ! w' ! t'"
      using inv w that unfolding roll_inv_def by blast
    have mixed: False if "x < ?N" "r < length (dmap u ! x)" "dmap u ! x ! r = e" "free_slot s v ?t" for x r
      using that fresh all len by auto
    from old_or_new [OF w(1,2)] show ?thesis
    proof
      assume 1: "t < length (dmap u ! w) \<and> dm ! w ! t = dmap u ! w ! t"
      from old_or_new [OF w(3,4)] show ?thesis
      proof
        assume "t' < length (dmap u ! w') \<and> dm ! w' ! t' = dmap u ! w' ! t'"
        then show ?thesis using 1 w(7) by (intro oldinj) simp_all
      next
        assume "w' = v \<and> t' = ?t \<and> dm ! w' ! t' = e"
        then have "dmap u ! w ! t = e" "free_slot s v ?t" using 1 w(6,7) by metis+
        then show ?thesis using 1 w(1) mixed [of w t] by blast
      qed
    next
      assume 1: "w = v \<and> t = ?t \<and> dm ! w ! t = e"
      from old_or_new [OF w(3,4)] show ?thesis
      proof
        assume "t' < length (dmap u ! w') \<and> dm ! w' ! t' = dmap u ! w' ! t'"
        moreover from this have "dmap u ! w' ! t' = e" "free_slot s v ?t" using 1 w(5,7) by metis+
        ultimately show ?thesis using w(3) mixed [of w' t'] by blast
      qed (use 1 in simp)
    qed
  qed
  have "length (nodes c) \<le> 2 + sum_list (map length dm)"
    using inv c(3) v len sum_list_update_append [of v "dmap u" e] by (simp add: roll_inv_def dm)
  moreover have "length (dm ! w) \<le> B" if "w < ?N" for w
    using that inv v len by (cases "w = v") (simp_all add: dm roll_inv_def)
  moreover have "\<forall>w < ?N. \<forall>t < length (dm ! w). \<forall>w' < ?N. \<forall>t' < length (dm ! w').
      free_slot s w t \<and> free_slot s w' t' \<and> dm ! w ! t = dm ! w' ! t' \<longrightarrow> w = w' \<and> t = t'"
    by (intro allI impI, elim conjE, rule inj)
  moreover have "length dm = ?N" using len by (simp add: dm)
  ultimately have "roll_inv s B (u\<lparr>RC := c, dmap := dm\<rparr>)"
    using c(1) slots by (simp add: roll_inv_def)
  then show ?thesis using le by blast
qed

section \<open>The contract of \<^verbatim>\<open>At\<close>\<close>

text \<open>How far lists may have grown when the literal of node \<open>v\<close> at time \<open>d\<close> is asked for.\<close>

definition roll_le :: "nat \<Rightarrow> nat \<Rightarrow> roll \<Rightarrow> roll \<Rightarrow> bool" where
  "roll_le d v u u' \<longleftrightarrow> dm_le (dmap u) (dmap u') \<and> circ_ext (RC u) (RC u') \<and>
     (\<forall>w < length (dmap u). length (dmap u' ! w) \<le> max (length (dmap u ! w)) (if w \<le> v then Suc d else d))"

lemma roll_le_refl [simp]: "roll_le d v u u"
  by (simp add: roll_le_def)

lemma roll_le_trans:
  assumes "roll_le d v u u'" "roll_le d' v' u' u''" "d' < d \<or> d' = d \<and> v' \<le> v"
  shows "roll_le d v u u''"
proof -
  have len: "length (dmap u') = length (dmap u)" using assms(1) by (simp add: roll_le_def dm_le_def)
  have "length (dmap u'' ! w) \<le> max (length (dmap u ! w)) (if w \<le> v then Suc d else d)" if "w < length (dmap u)" for w
  proof -
    have "length (dmap u' ! w) \<le> max (length (dmap u ! w)) (if w \<le> v then Suc d else d)"
      "length (dmap u'' ! w) \<le> max (length (dmap u' ! w)) (if w \<le> v' then Suc d' else d')"
      using assms(1,2) that len by (simp_all add: roll_le_def)
    then show ?thesis using assms(3) by (auto split: if_splits)
  qed
  then show ?thesis
    using assms(1,2) dm_le_trans circ_ext_trans by (auto simp: roll_le_def)
qed

definition roll_post :: "seq \<Rightarrow> nat \<Rightarrow> nat \<Rightarrow> lit \<Rightarrow> roll \<Rightarrow> roll \<times> lit \<Rightarrow> bool" where
  "roll_post s B d m u = (\<lambda>(u', r). roll_inv s B u' \<and> roll_le d (unat (lit_Var m)) u u' \<and>
     d < length (dmap u' ! unat (lit_Var m)) \<and> r = ent (dmap u') m d)"

definition roll_room :: "seq \<Rightarrow> nat \<Rightarrow> bool" where
  "roll_room s B \<longleftrightarrow> length (nodes s) * B + 3 \<le> 2 ^ 30 \<and> length (nodes s) * 10 \<le> 2 ^ 31"

lemma sum_list_le_mult: "\<forall>x \<in> set xs. x \<le> (B :: nat) \<Longrightarrow> sum_list xs \<le> length xs * B"
  by (induction xs) simp_all

lemma roll_inv_room:
  assumes "roll_inv s B u" "roll_room s B"
  shows "circ_room 1 (RC u)"
proof -
  have "\<forall>x \<in> set (map length (dmap u)). x \<le> B"
    using assms(1) by (auto simp: roll_inv_def in_set_conv_nth)
  then have "sum_list (map length (dmap u)) \<le> length (nodes s) * B"
    using sum_list_le_mult assms(1) by (metis length_map roll_inv_def)
  then show ?thesis using assms by (simp add: roll_inv_def roll_room_def circ_room_def)
qed

text \<open>Appending the literal of time \<open>d\<close>.\<close>

lemma roll_push_spec:
  assumes wf: "seq_wf s" and inv: "roll_inv s B u" and v: "v < length (nodes s)" "length (dmap u ! v) = d" "d < B"
    and c: "circ_wf c" "circ_ext (RC u) c" "length (nodes c) \<le> Suc (length (nodes (RC u)))"
    and ok: "slot_ok s c ((dmap u)[v := dmap u ! v @ [e]]) v d"
    and fresh: "free_slot s v d \<Longrightarrow> \<not> lit_in (RC u) e"
  shows "returns (roll_push (u\<lparr>RC := c\<rparr>) v e) (\<lambda>(u', r). r = e \<and> roll_inv s B u' \<and> roll_le d v u u' \<and>
    length (dmap u' ! v) = Suc d \<and> dmap u' ! v ! d = e)"
proof -
  let ?dm = "(dmap u)[v := dmap u ! v @ [e]]"
  have len: "v < length (dmap u)" using inv v by (simp add: roll_inv_def)
  have "roll_inv s B (u\<lparr>RC := c, dmap := ?dm\<rparr>) \<and> dm_le (dmap u) ?dm"
    using roll_extend [OF wf inv v(1) _ c refl, of e] v ok fresh by simp
  moreover have "roll_le d v u (u\<lparr>RC := c, dmap := ?dm\<rparr>)"
    using calculation c(2) v(2) len by (auto simp: roll_le_def nth_list_update)
  moreover have "?dm ! v = dmap u ! v @ [e]" using len by simp
  ultimately show ?thesis using len v(2) by (auto simp: roll_push_def nth_append)
qed

lemma slot_ok_fresh:
  assumes "free_slot s v d" "lit_in c e" "lit_IsPos e" "is_input (nodes c ! unat (lit_Var e))" "2 \<le> unat (lit_Var e)"
    and "dm ! v ! d = e"
  shows "slot_ok s c dm v d"
  using assms by (auto simp: slot_ok_def Let_def free_slot_def is_input_def is_latch_def is_and_def)

lemma roll_fresh_spec:
  assumes wf: "seq_wf s" and inv: "roll_inv s B u" and room: "roll_room s B"
    and v: "v < length (nodes s)" "length (dmap u ! v) = d" "d < B" and free: "free_slot s v d"
  shows "returns (roll_fresh u v) (\<lambda>(u', r). roll_inv s B u' \<and> roll_le d v u u' \<and>
    length (dmap u' ! v) = Suc d \<and> dmap u' ! v ! d = r)"
proof -
  let ?m = "length (nodes (RC u))"
  have cwf: "circ_wf (RC u)" and len: "v < length (dmap u)" using inv v by (simp_all add: roll_inv_def)
  obtain c e where c: "C_Lit (RC u) = Some (c, e)" and p: "circ_wf c" "circ_ext (RC u) c" "lit_in c e"
    "\<not> lit_in (RC u) e" "lit_IsPos e" "length (nodes c) = Suc ?m"
    using C_Lit_spec [OF cwf roll_inv_room [OF inv room]] by (auto elim: returnsE2)
  obtain j where "C_newNode (RC u) = Some (c, j)" "e = var_Pos (of_nat ?m)"
    using c by (auto simp: C_Lit_def split: Option.bind_splits)
  then have z: "nodes c ! ?m = zero_node" and e: "e = var_Pos (of_nat ?m)"
    using C_newNode_spec [OF cwf roll_inv_room [OF inv room]] by (auto simp: new_post_def)
  have two: "2 \<le> ?m" "?m < 2 ^ 30" using cwf roll_inv_room [OF inv room] by (auto simp: circ_wf_def circ_room_def)
  then have ev: "unat (lit_Var e) = ?m" by (simp add: e)
  have "slot_ok s c ((dmap u)[v := dmap u ! v @ [e]]) v d"
    by (rule slot_ok_fresh [OF free p(3,5)]) (use ev z two v len in \<open>simp_all add: is_input_def zero_node_def nth_append\<close>)
  from roll_push_spec [OF wf inv v p(1,2) _ this] show ?thesis
    using c p(4,6) by (auto simp: roll_fresh_def elim!: returns_mono)
qed

lemma roll_le_length:
  assumes "roll_le d w u u'" "w < v" "v < length (dmap u)" "length (dmap u ! v) = d"
  shows "length (dmap u' ! v) = d"
proof -
  have "length (dmap u' ! v) \<le> d" using assms by (auto simp: roll_le_def)
  moreover have "d \<le> length (dmap u' ! v)" using assms dm_le_length by (metis roll_le_def)
  ultimately show ?thesis by simp
qed

lemma roll_At_spec:
  assumes wf: "seq_wf s" and room: "roll_room s B"
  shows "roll_inv s B u \<Longrightarrow> unat (lit_Var m) < length (nodes s) \<Longrightarrow> d < B \<Longrightarrow>
    returns (roll_At s m (int d) u) (roll_post s B d m u)"
proof (induction "d * length (nodes s) + unat (lit_Var m)" arbitrary: d m u rule: less_induct)
  case less
  let ?v = "unat (lit_Var m)" and ?N = "length (nodes s)"
  let ?n = "nodes s ! ?v"
  have len: "length (dmap u) = ?N" using less.prems(1) by (simp add: roll_inv_def)
  have lits: "cF s = 3" "cT s = 2" using seq_wf_circ [OF wf] by (auto simp: circ_wf_def)
  have earlier: "returns (roll_At s m' (int d') u') (roll_post s B d' m' u')"
    if "roll_inv s B u'" "unat (lit_Var m') < ?N" "d' < d \<or> d' = d \<and> unat (lit_Var m') < ?v" for m' d' u'
  proof (rule less.hyps)
    show "d' * ?N + unat (lit_Var m') < d * ?N + ?v"
    proof (cases "d' < d")
      case True
      then have "Suc d' * ?N \<le> d * ?N" by (intro mult_right_mono) simp_all
      then show ?thesis using that(2) by simp
    qed (use that(3) in simp)
  qed (use that less.prems in auto)
  \<comment> \<open>phase one: the earlier times are there\<close>
  obtain u1 where u1: "(if int (length (dmap u ! ?v)) < int d then do { (u, _) \<leftarrow> roll_At s m (int d - 1) u; Some u }
      else Some u) = Some u1" "roll_inv s B u1" "roll_le d ?v u u1" "d \<le> length (dmap u1 ! ?v)"
  proof (cases "length (dmap u ! ?v) < d")
    case True
    then obtain d' where d': "d = Suc d'" by (cases d) auto
    have "returns (roll_At s m (int d') u) (roll_post s B d' m u)"
      by (rule earlier) (use less.prems d' in simp_all)
    then obtain u1 r where at: "roll_At s m (int d') u = Some (u1, r)" and post: "roll_post s B d' m u (u1, r)"
      by (rule returnsE2)
    show thesis
    proof (rule that)
      show "roll_inv s B u1" "d \<le> length (dmap u1 ! ?v)" using post d' by (auto simp: roll_post_def)
      show "roll_le d ?v u u1"
        by (rule roll_le_trans [OF roll_le_refl]) (use post d' in \<open>auto simp: roll_post_def\<close>)
    qed (use True at d' in simp)
  qed (use that [of u] less.prems in simp)
  have len1: "length (dmap u1) = ?N" "?v < length (dmap u1)" using u1(2) less.prems(2) by (simp_all add: roll_inv_def)
  \<comment> \<open>phase two: look the literal up or compute it\<close>
  define body where "body =
       (if int (length (dmap u1 ! ?v)) > int d then do { assert_o (0 \<le> int d); r \<leftarrow> aget (dmap u1 ! ?v) (nat (int d)); Some (u1, r) }
        else if ?v = 1 then roll_push u1 ?v (cT (RC u1))
        else do {
          n \<leftarrow> aget (nodes s) ?v;
          if nb n = LitNull then roll_fresh u1 ?v
          else if int d = 0 \<and> na n = LitNull then roll_fresh u1 ?v
          else if int d = 0 \<and> na n = cF s then roll_push u1 ?v (cF (RC u1))
          else if int d = 0 \<and> na n = cT s then roll_push u1 ?v (cT (RC u1))
          else if na n = cF s \<or> na n = cT s \<or> na n = LitNull then do {
            (u, res) \<leftarrow> roll_At s (nb n) (int d - 1) u1;
            roll_push u ?v res
          } else do {
            (u, a) \<leftarrow> roll_At s (na n) (int d) u1;
            (u, b) \<leftarrow> roll_At s (nb n) (int d) u;
            (c, res) \<leftarrow> C_And (RC u) a b;
            roll_push (u\<lparr>RC := c\<rparr>) ?v res
          }
        })"
  define good where "good = (\<lambda>(u', r). roll_inv s B u' \<and> roll_le d ?v u1 u' \<and> d < length (dmap u' ! ?v) \<and> dmap u' ! ?v ! d = r)"
  have "returns body good"
  proof (cases "d < length (dmap u1 ! ?v)")
    case True
    then show ?thesis using u1(2) by (simp add: body_def good_def)
  next
    case False
    then have lv: "length (dmap u1 ! ?v) = d" using u1(4) by simp
    have cwf: "circ_wf (RC u1)" "cT (RC u1) = 2" "cF (RC u1) = 3" using u1(2) by (auto simp: roll_inv_def circ_wf_def)
    have push: "returns (roll_push u1 ?v e) good"
      if "slot_ok s (RC u1) ((dmap u1)[?v := dmap u1 ! ?v @ [e]]) ?v d" "\<not> free_slot s ?v d" for e
      using roll_push_spec [OF wf u1(2) less.prems(2) lv less.prems(3) cwf(1) circ_ext_refl _ that(1)] that(2)
      by (auto simp: good_def elim!: returns_mono)
    have fresh: "returns (roll_fresh u1 ?v) good" if "free_slot s ?v d"
      using roll_fresh_spec [OF wf u1(2) room less.prems(2) lv less.prems(3) that]
      by (auto simp: good_def elim!: returns_mono)
    have at_v: "(dmap u1)[?v := dmap u1 ! ?v @ [e]] ! ?v ! d = e" for e using len1 lv by (simp add: nth_append)
    consider (one) "?v = 1" | (gate) "?v \<noteq> 1" "is_and ?n" | (input) "?v \<noteq> 1" "is_input ?n"
      | (start) "?v \<noteq> 1" "is_latch ?n" "d = 0" | (later) "?v \<noteq> 1" "is_latch ?n" "0 < d"
      using seq_kinds [OF wf less.prems(2)] by blast
    then show ?thesis
    proof cases
      case one
      have "returns (roll_push u1 ?v 2) good"
        by (rule push) (use one at_v [of 2] cwf(1) in \<open>simp_all add: slot_ok_def free_slot_def\<close>)
      then show ?thesis using one lv cwf by (simp add: body_def)
    next
      case input
      have "returns (roll_fresh u1 ?v) good" by (rule fresh) (use input in \<open>simp add: free_slot_def\<close>)
      then show ?thesis using input lv less.prems(2) by (simp add: body_def is_input_def LitNull_def)
    next
      case start
      have na: "na ?n \<in> {0, 2, 3}" "nb ?n \<noteq> 0" "\<not> is_and ?n" "\<not> is_input ?n"
        using seq_operands(2) [OF wf less.prems(2) start(2)] start(2) by (auto simp: is_latch_def is_input_def)
      have "returns (roll_push u1 ?v (na ?n)) good" if "na ?n \<noteq> 0"
      proof (rule push)
        have "lit_in (RC u1) (na ?n)" using na that cwf(1) by auto
        then show "slot_ok s (RC u1) ((dmap u1)[?v := dmap u1 ! ?v @ [na ?n]]) ?v d"
          using at_v [of "na ?n"] start na that by (simp add: slot_ok_def free_slot_def Let_def)
      qed (use na that in \<open>simp add: free_slot_def\<close>)
      moreover have "returns (roll_fresh u1 ?v) good" if "na ?n = 0"
        by (rule fresh) (use that start in \<open>simp add: free_slot_def\<close>)
      ultimately show ?thesis using start lv lits na cwf less.prems(2)
        by (auto simp: body_def LitNull_def)
    next
      case later
      have na: "na ?n \<in> {0, 2, 3}" "nb ?n \<noteq> 0" "\<not> is_and ?n" "\<not> is_input ?n" "unat (lit_Var (nb ?n)) < ?N"
        using seq_operands(2) [OF wf less.prems(2) later(2)] later(2) by (auto simp: is_latch_def is_input_def)
      have "returns (roll_At s (nb ?n) (int (d - 1)) u1) (roll_post s B (d - 1) (nb ?n) u1)"
        by (rule earlier) (use u1(2) na later in simp_all)
      then obtain w r where w: "roll_At s (nb ?n) (int (d - 1)) u1 = Some (w, r)" and post: "roll_post s B (d - 1) (nb ?n) u1 (w, r)"
        by (rule returnsE2)
      have pw: "roll_inv s B w" "roll_le (d - 1) (unat (lit_Var (nb ?n))) u1 w"
        "d - 1 < length (dmap w ! unat (lit_Var (nb ?n)))" "r = ent (dmap w) (nb ?n) (d - 1)"
        using post by (auto simp: roll_post_def)
      have le: "roll_le d ?v u1 w" by (rule roll_le_trans [OF roll_le_refl pw(2)]) (use later in simp)
      have lw: "length (dmap w ! ?v) = d"
      proof -
        have "length (dmap w ! ?v) \<le> max (length (dmap u1 ! ?v)) (if ?v \<le> unat (lit_Var (nb ?n)) then Suc (d - 1) else d - 1)"
          using pw(2) len1 unfolding roll_le_def by metis
        moreover have "length (dmap u1 ! ?v) \<le> length (dmap w ! ?v)"
          using pw(2) len1(2) dm_le_length by (auto simp: roll_le_def)
        ultimately show ?thesis using lv later by (auto split: if_splits)
      qed
      have wc: "circ_wf (RC w)" "length (dmap w) = ?N" using pw(1) by (simp_all add: roll_inv_def)
      let ?dm = "(dmap w)[?v := dmap w ! ?v @ [r]]"
      have le_dm: "dm_le (dmap w) ?dm" using less.prems(2) wc(2) by (auto simp: dm_le_def nth_list_update)
      have rin: "lit_in (RC w) r"
        unfolding pw(4) by (rule ent_in, rule slot_ok_in [of s]) (use pw(1,3) na in \<open>simp add: roll_inv_def\<close>)
      have ent: "ent ?dm (nb ?n) (d - 1) = r" "d - 1 < length (?dm ! unat (lit_Var (nb ?n)))"
        using dm_le_ent [OF le_dm] dm_le_nth(2) [OF le_dm] pw(3,4) na wc(2) by simp_all
      have sok: "slot_ok s (RC w) ?dm ?v d"
        using rin ent later na less.prems(2) wc(2) lw
        by (simp add: slot_ok_def free_slot_def Let_def nth_append)
      have nf: "\<not> free_slot s ?v d" using na later by (simp add: free_slot_def)
      have "returns (roll_push (w\<lparr>RC := RC w\<rparr>) ?v r) (\<lambda>(u', e). e = r \<and> roll_inv s B u' \<and>
          roll_le d ?v w u' \<and> length (dmap u' ! ?v) = Suc d \<and> dmap u' ! ?v ! d = r)"
        by (rule roll_push_spec [OF wf pw(1) less.prems(2) lw less.prems(3) wc(1) circ_ext_refl _ sok]) (use nf in simp_all)
      then have "returns (roll_push w ?v r) good"
        by (auto simp: good_def intro: roll_le_trans [OF le] elim!: returns_mono)
      then show ?thesis using later lv lits na w less.prems(2)
        by (auto simp: body_def LitNull_def of_nat_diff)
    next
      case gate
      note ops = seq_operands(1) [OF wf less.prems(2) gate(2)]
      have na: "na ?n \<notin> {0, 2, 3}" "nb ?n \<noteq> 0"
        using gate(2) node_ok_operands(2) [OF circ_wf_node_ok [OF seq_wf_circ [OF wf] less.prems(2)] gate(2)]
        by (auto simp: is_and_iff unat_lit_Var)
      have "returns (roll_At s (na ?n) (int d) u1) (roll_post s B d (na ?n) u1)"
        by (rule earlier) (use u1(2) ops less.prems(2) in simp_all)
      then obtain w a where w: "roll_At s (na ?n) (int d) u1 = Some (w, a)" and pw: "roll_post s B d (na ?n) u1 (w, a)"
        by (rule returnsE2)
      have winv: "roll_inv s B w" using pw by (simp add: roll_post_def)
      have "returns (roll_At s (nb ?n) (int d) w) (roll_post s B d (nb ?n) w)"
        by (rule earlier) (use winv ops less.prems(2) in simp_all)
      then obtain x b where x: "roll_At s (nb ?n) (int d) w = Some (x, b)" and px: "roll_post s B d (nb ?n) w (x, b)"
        by (rule returnsE2)
      have xinv: "roll_inv s B x" and xl: "circ_wf (RC x)" "length (dmap x) = ?N" "length (dmap w) = ?N"
        using px winv by (auto simp: roll_post_def roll_inv_def)
      have lew: "roll_le d (unat (lit_Var (na ?n))) u1 w" and lex: "roll_le d (unat (lit_Var (nb ?n))) w x"
        using pw px by (auto simp: roll_post_def)
      have le: "roll_le d ?v u1 x"
        by (rule roll_le_trans [OF roll_le_trans [OF roll_le_refl lew] lex]) (use ops in simp_all)
      have lw: "length (dmap w ! ?v) = d"
        by (rule roll_le_length [OF lew]) (use ops len1 lv in simp_all)
      have lx: "length (dmap x ! ?v) = d"
        by (rule roll_le_length [OF lex]) (use ops less.prems(2) xl lw in simp_all)
      have dm_x: "dm_le (dmap w) (dmap x)" using lex by (simp add: roll_le_def)
      have a: "a = ent (dmap x) (na ?n) d" "d < length (dmap x ! unat (lit_Var (na ?n)))"
        using pw dm_le_ent [OF dm_x] dm_le_nth(2) [OF dm_x] ops less.prems(2) xl by (simp_all add: roll_post_def)
      have b: "b = ent (dmap x) (nb ?n) d" "d < length (dmap x ! unat (lit_Var (nb ?n)))"
        using px by (simp_all add: roll_post_def)
      have ain: "lit_in (RC x) a" unfolding a(1)
        by (rule ent_in, rule slot_ok_in [of s]) (use xinv a(2) ops less.prems(2) in \<open>simp add: roll_inv_def\<close>)
      have bin: "lit_in (RC x) b" unfolding b(1)
        by (rule ent_in, rule slot_ok_in [of s]) (use xinv b(2) ops less.prems(2) in \<open>simp add: roll_inv_def\<close>)
      obtain c g where c: "C_And (RC x) a b = Some (c, g)"
        and pc: "and_post (RC x) (\<lambda>\<rho>. lit_val (nodes (RC x)) \<rho> a \<and> lit_val (nodes (RC x)) \<rho> b) 1 (c, g)"
        using C_And_spec [OF xl(1) roll_inv_room [OF xinv room] ain bin] by (rule returnsE2)
      have cext: "circ_ext (RC x) c" by (rule and_post_ext [OF pc])
      let ?dm = "(dmap x)[?v := dmap x ! ?v @ [g]]"
      have le_dm: "dm_le (dmap x) ?dm" using less.prems(2) xl(2) by (auto simp: dm_le_def nth_list_update)
      have ent: "ent ?dm (na ?n) d = a" "d < length (?dm ! unat (lit_Var (na ?n)))"
        "ent ?dm (nb ?n) d = b" "d < length (?dm ! unat (lit_Var (nb ?n)))"
        using dm_le_ent [OF le_dm] dm_le_nth(2) [OF le_dm] a b ops less.prems(2) xl(2) by simp_all
      have vals: "lit_val (nodes c) \<rho> g = (lit_val (nodes c) \<rho> a \<and> lit_val (nodes c) \<rho> b)" for \<rho>
        using and_post_val [OF pc] and_post_keeps_val [OF pc] ain bin by simp
      have not_free: "\<not> free_slot s ?v d" using gate by (auto simp: free_slot_def is_input_def is_latch_def is_and_def)
      have sok: "slot_ok s c ?dm ?v d"
        using ent vals and_post_lit [OF pc] gate less.prems(2) xl(2) lx
        by (simp add: slot_ok_def Let_def nth_append)
      have cl: "length (nodes c) \<le> Suc (length (nodes (RC x)))" using pc by (simp add: and_post_def)
      have "returns (roll_push (x\<lparr>RC := c\<rparr>) ?v g) (\<lambda>(u', e). e = g \<and> roll_inv s B u' \<and>
          roll_le d ?v x u' \<and> length (dmap u' ! ?v) = Suc d \<and> dmap u' ! ?v ! d = g)"
        by (rule roll_push_spec [OF wf xinv less.prems(2) lx less.prems(3) and_post_wf [OF pc] cext cl sok])
          (use not_free in simp)
      then have "returns (roll_push (x\<lparr>RC := c\<rparr>) ?v g) good"
        by (auto simp: good_def intro: roll_le_trans [OF le] elim!: returns_mono)
      then show ?thesis using gate lv lits na w x c less.prems(2)
        by (auto simp: body_def LitNull_def)
    qed
  qed
  then obtain u2 r where body: "body = Some (u2, r)" "good (u2, r)" by (rule returnsE2)
  have run: "roll_At s m (int d) u = Some (u2, if lit_IsPos m then r else lit_Not r)"
    using u1(1) body(1) len len1 less.prems(2) unfolding body_def
    by (subst roll_At.simps) (simp add: Let_def)
  have "roll_le d ?v u u2" using roll_le_trans [OF u1(3)] body(2) by (auto simp: good_def)
  then show ?case using run body(2) by (simp add: roll_post_def good_def ent_def)
qed

section \<open>Meaning of the unrolling\<close>

text \<open>A valuation of the unrolled circuit, read as input values over time.\<close>

definition roll_inputs :: "roll \<Rightarrow> (nat \<Rightarrow> bool) \<Rightarrow> nat \<Rightarrow> nat \<Rightarrow> bool" where
  "roll_inputs u \<rho> t v = lit_val (nodes (RC u)) \<rho> (dmap u ! v ! t)"

lemma lit_val_ent:
  "lit_val (nodes c) \<rho> (ent dm m t) = (lit_val (nodes c) \<rho> (dm ! unat (lit_Var m) ! t) = lit_IsPos m)"
  by (simp add: ent_def)

lemma roll_meaning:
  assumes wf: "seq_wf s" and inv: "roll_inv s B u"
    and inp: "\<And>v t. v < length (nodes s) \<Longrightarrow> t < length (dmap u ! v) \<Longrightarrow> free_slot s v t \<Longrightarrow>
      inp t v = lit_val (nodes (RC u)) \<rho> (dmap u ! v ! t)"
  shows "v < length (nodes s) \<Longrightarrow> t < length (dmap u ! v) \<Longrightarrow>
    lit_val (nodes (RC u)) \<rho> (dmap u ! v ! t) = seq_val s inp t v"
proof (induction "t * length (nodes s) + v" arbitrary: t v rule: less_induct)
  case less
  let ?N = "length (nodes s)" and ?n = "nodes s ! v" and ?val = "\<lambda>v t. lit_val (nodes (RC u)) \<rho> (dmap u ! v ! t)"
  have ok: "slot_ok s (RC u) (dmap u) v t" using inv less.prems by (simp add: roll_inv_def)
  have ih: "?val w r = seq_val s inp r w" if "w < ?N" "r < length (dmap u ! w)" "r < t \<or> r = t \<and> w < v" for w r
  proof (rule less.hyps)
    show "r * ?N + w < t * ?N + v"
    proof (cases "r < t")
      case True
      then have "Suc r * ?N \<le> t * ?N" by (intro mult_right_mono) simp_all
      then show ?thesis using that(1) by simp
    qed (use that(3) in simp)
  qed (use that in simp_all)
  show ?case
  proof (cases "v = 1")
    case True
    then show ?thesis using ok by (simp add: slot_ok_def seq_val.simps Let_def)
  next
    case False
    from wf less.prems(1) show ?thesis
    proof (cases rule: seq_kinds)
      case gate
      note ops = seq_operands(1) [OF wf less.prems(1) gate]
      have "t < length (dmap u ! unat (lit_Var (na ?n)))" "t < length (dmap u ! unat (lit_Var (nb ?n)))"
        "?val v t = (lit_val (nodes (RC u)) \<rho> (ent (dmap u) (na ?n) t) \<and> lit_val (nodes (RC u)) \<rho> (ent (dmap u) (nb ?n) t))"
        using ok gate False by (simp_all add: slot_ok_def Let_def)
      then show ?thesis
        using ih [of "unat (lit_Var (na ?n))" t] ih [of "unat (lit_Var (nb ?n))" t] ops gate False less.prems(1)
        by (subst seq_val.simps) (simp add: lit_val_ent Let_def)
    next
      case input
      then have "free_slot s v t" using False by (simp add: free_slot_def)
      then have "inp t v = ?val v t" by (rule inp [OF less.prems])
      moreover have "\<not> is_latch ?n" using input by (simp add: is_latch_def is_input_def)
      ultimately show ?thesis using input False by (subst seq_val.simps) (simp add: Let_def)
    next
      case latch
      have na: "na ?n \<in> {0, 2, 3}" "unat (lit_Var (nb ?n)) < ?N" using seq_operands(2) [OF wf less.prems(1) latch(1)] by auto
      show ?thesis
      proof (cases t)
        case 0
        show ?thesis
        proof (cases "na ?n = 0")
          case True
          then have free: "free_slot s v t" using latch 0 False by (simp add: free_slot_def)
          show ?thesis using inp [OF less.prems free] True latch 0 False by (subst seq_val.simps) (simp add: Let_def)
        next
          case non: False
          then have "\<not> free_slot s v t" using latch by (simp add: free_slot_def)
          then have "dmap u ! v ! t = na ?n" using ok latch False 0 by (simp add: slot_ok_def Let_def)
          then show ?thesis using na non latch 0 False by (subst seq_val.simps) (auto simp: Let_def)
        qed
      next
        case (Suc r)
        then have nf: "\<not> free_slot s v t" using latch by (simp add: free_slot_def)
        then have "r < length (dmap u ! unat (lit_Var (nb ?n)))" "dmap u ! v ! t = ent (dmap u) (nb ?n) r"
          using ok latch False Suc by (simp_all add: slot_ok_def Let_def)
        then show ?thesis using ih [of "unat (lit_Var (nb ?n))" r] na latch Suc False
          by (subst seq_val.simps) (simp add: lit_val_ent Let_def)
      qed
    qed
  qed
qed

lemma NewRoll_inv:
  assumes "roll_room s B"
  shows "roll_inv s B (NewRoll s)"
proof -
  have "circ_wf (NewCCap (length (nodes s) * 10))"
    using initC_wf assms by (simp add: NewCCap_def roll_room_def)
  moreover have "length (nodes (NewCCap (length (nodes s) * 10))) = 2" by (simp add: NewCCap_def initC_def Let_def)
  ultimately show ?thesis by (simp add: roll_inv_def NewRoll_def)
qed

text \<open>
  (C10) \<^verbatim>\<open>Roll.At\<close>: for a well-formed sequential circuit \<open>s\<close>, a literal of it and a time below the
  bound \<open>B\<close> for which the variables suffice, in every state of the unroller the call returns,
  keeps the unroller's invariant, and yields a literal of the unrolled circuit whose value under
  any valuation is the value of the asked literal at that time in the run of \<open>s\<close> whose inputs and
  unknown initial values are read off that valuation.  The invariant holds for \<^verbatim>\<open>NewRoll\<close>.
\<close>

theorem Roll_At_correct:
  assumes "seq_wf s" and "roll_room s B" and "roll_inv s B u" and "lit_in s m" and "d < B"
  shows "roll_inv s B (NewRoll s) \<and> (\<exists>u' r. roll_At s m (int d) u = Some (u', r) \<and> roll_inv s B u' \<and> lit_in (RC u') r \<and>
    circ_ext (RC u) (RC u') \<and>
    (\<forall>\<rho>. lit_val (nodes (RC u')) \<rho> r = (seq_val s (roll_inputs u' \<rho>) d (unat (lit_Var m)) = lit_IsPos m)))"
proof -
  have m: "unat (lit_Var m) < length (nodes s)" using assms(4) by (simp add: lit_in_def)
  obtain u' r where run: "roll_At s m (int d) u = Some (u', r)" and post: "roll_post s B d m u (u', r)"
    using roll_At_spec [OF assms(1,2,3) m assms(5)] by (rule returnsE2)
  have p: "roll_inv s B u'" "circ_ext (RC u) (RC u')" "d < length (dmap u' ! unat (lit_Var m))" "r = ent (dmap u') m d"
    using post by (auto simp: roll_post_def roll_le_def)
  have "lit_in (RC u') r"
    unfolding p(4) by (rule ent_in, rule slot_ok_in [of s]) (use p(1,3) m in \<open>simp add: roll_inv_def\<close>)
  moreover have "lit_val (nodes (RC u')) \<rho> r = (seq_val s (roll_inputs u' \<rho>) d (unat (lit_Var m)) = lit_IsPos m)" for \<rho>
    using roll_meaning [OF assms(1) p(1), where inp = "roll_inputs u' \<rho>", OF _ m p(3)]
    by (simp add: p(4) lit_val_ent roll_inputs_def)
  ultimately show ?thesis using run p(1,2) NewRoll_inv [OF assms(2)] by blast
qed

lemma Roll_At_correct_witness:
  "\<exists>u' r. roll_At one_latch 4 (int 2) (NewRoll one_latch) = Some (u', r) \<and> lit_in (RC u') r"
proof -
  have room: "roll_room one_latch 10" by (simp add: roll_room_def one_latch_def)
  show ?thesis
    using Roll_At_correct [OF one_latch_wf(1) room NewRoll_inv [OF room] one_latch_wf(2), of 2] by auto
qed

text \<open>
  (C15) Every run is represented: in every state of the unroller, for any input values over time
  and any choice of the unknown initial values there is a valuation of the inputs of the
  unrolled circuit under which each literal held by the unroller has the value of its node at
  its time.
\<close>

theorem Roll_complete:
  assumes "seq_wf s" and "roll_inv s B u"
  shows "\<exists>\<rho>. \<forall>v < length (nodes s). \<forall>t < length (dmap u ! v).
    lit_val (nodes (RC u)) \<rho> (dmap u ! v ! t) = seq_val s inp t v"
proof -
  let ?N = "length (nodes s)"
  define slot where "slot v t \<longleftrightarrow> v < ?N \<and> t < length (dmap u ! v) \<and> free_slot s v t" for v t
  define \<rho> where "\<rho> i = (\<exists>v t. slot v t \<and> unat (lit_Var (dmap u ! v ! t)) = i \<and> inp t v)" for i
  have key: "lit_val (nodes (RC u)) \<rho> (dmap u ! v ! t) = inp t v" if vt: "slot v t" for v t
  proof -
    let ?e = "dmap u ! v ! t"
    have pos: "lit_IsPos (dmap u ! v ! t) \<and> is_input (nodes (RC u) ! unat (lit_Var (dmap u ! v ! t))) \<and>
        2 \<le> unat (lit_Var (dmap u ! v ! t))" if "slot v t" for v t
    proof -
      have "slot_ok s (RC u) (dmap u) v t" using that assms(2) by (simp add: roll_inv_def slot_def)
      moreover have "v \<noteq> 1" "\<not> is_and (nodes s ! v)" "free_slot s v t"
        using that by (auto simp: slot_def free_slot_def is_input_def is_latch_def is_and_def)
      ultimately show "lit_IsPos (dmap u ! v ! t) \<and> is_input (nodes (RC u) ! unat (lit_Var (dmap u ! v ! t))) \<and>
          2 \<le> unat (lit_Var (dmap u ! v ! t))"
        by (simp add: slot_ok_def Let_def)
    qed
    have "\<rho> (unat (lit_Var ?e)) = inp t v"
    proof -
      have "w = v \<and> r = t" if w: "slot w r" "unat (lit_Var (dmap u ! w ! r)) = unat (lit_Var ?e)" for w r
      proof -
        have "lit_Var (dmap u ! w ! r) = lit_Var ?e" using w(2) by (simp add: word_eq_iff_unat)
        then have "dmap u ! w ! r = ?e" using pos [OF w(1)] pos [OF vt] by (metis lit_eqI)
        then show ?thesis using assms(2) w(1) vt unfolding roll_inv_def slot_def by blast
      qed
      then show ?thesis using vt unfolding \<rho>_def by metis
    qed
    moreover have "\<not> is_and (nodes (RC u) ! unat (lit_Var ?e))" "unat (lit_Var ?e) \<noteq> 1"
      using pos [OF vt] by (auto simp: is_input_def is_and_def)
    ultimately show ?thesis using pos [OF vt] by (simp add: lit_val_def node_val.simps)
  qed
  have "lit_val (nodes (RC u)) \<rho> (dmap u ! v ! t) = seq_val s inp t v"
    if "v < ?N" "t < length (dmap u ! v)" for v t
    by (rule roll_meaning [OF assms(1,2) _ that]) (use key in \<open>simp add: slot_def\<close>)
  then show ?thesis by blast
qed

text \<open>The gate of \<open>gated_latch\<close> at time 1: the latch is unrolled at times 0 and 1, the input too.\<close>

lemma Roll_complete_witness:
  "\<exists>u r. roll_At gated_latch 8 1 (NewRoll gated_latch) = Some (u, r) \<and> 1 < length (dmap u ! 4) \<and>
     (\<forall>inp. \<exists>\<rho>. \<forall>v < length (nodes gated_latch). \<forall>t < length (dmap u ! v).
        lit_val (nodes (RC u)) \<rho> (dmap u ! v ! t) = seq_val gated_latch inp t v)"
proof -
  have room: "roll_room gated_latch 10" by (simp add: roll_room_def gated_latch_def)
  have v: "unat (lit_Var (8 :: lit)) = 4" by (simp add: unat_lit_Var)
  have "returns (roll_At gated_latch 8 (int 1) (NewRoll gated_latch)) (roll_post gated_latch 10 1 8 (NewRoll gated_latch))"
    by (rule roll_At_spec [OF gated_latch_wf(1) room NewRoll_inv [OF room]]) (simp_all add: v gated_latch_def)
  then obtain u r where u: "roll_At gated_latch 8 1 (NewRoll gated_latch) = Some (u, r)"
    "roll_inv gated_latch 10 u" "1 < length (dmap u ! 4)"
    by (elim returnsE2) (auto simp: roll_post_def v)
  show ?thesis using u Roll_complete [OF gated_latch_wf(1) u(2)] by blast
qed

end
