(* ===== verification/Watches.thy ===== *)
theory Watches
  imports Literals
begin

text \<open>
  Watches (\<^verbatim>\<open>internal/xo/watch.go\<close>): one \<^verbatim>\<open>uint64\<close> holding the blocking literal in its low 31
  bits, the clause location in the next 32 and the "is binary" flag in bit 63.  The clause
  reference type \<^verbatim>\<open>z.C\<close> (\<^verbatim>\<open>z/c.go\<close>) is a \<^verbatim>\<open>uint32\<close>.

  The layout has room for 31 bits of literal only, so the field laws need the literal below
  \<open>2^31\<close>; \<open>Watch_literal_overflow\<close> shows what happens to a larger one.
\<close>

type_synonym cloc = u32
type_synonym watch = u64

definition CNull :: cloc where
  "CNull = 0"

definition litBits :: nat where
  "litBits = 31"

definition litMask :: u64 where
  "litMask = push_bit 31 1 - 1"

definition locMask :: u64 where
  "locMask = push_bit litBits 0xffffffff"

definition binMask :: u64 where
  "binMask = push_bit 63 1"

definition MakeWatch :: "cloc \<Rightarrow> lit \<Rightarrow> bool \<Rightarrow> watch" where
  "MakeWatch loc m isBin =
     (let v = 0;
          v = (if isBin then v OR binMask else v);
          v = v OR ucast m;
          v = v OR push_bit litBits (ucast loc)
      in v)"

definition watch_Other :: "watch \<Rightarrow> lit" where
  "watch_Other w = ucast (w AND litMask)"

definition watch_IsBinary :: "watch \<Rightarrow> bool" where
  "watch_IsBinary w \<longleftrightarrow> w \<ge> binMask"

definition watch_C :: "watch \<Rightarrow> cloc" where
  "watch_C w = ucast (drop_bit litBits w)"

definition watch_Relocate :: "watch \<Rightarrow> cloc \<Rightarrow> watch" where
  "watch_Relocate w loc = (w AND NOT locMask) OR push_bit litBits (ucast loc)"

section \<open>The bits of the masks\<close>

lemma bit_litMask [simp]: "bit litMask n \<longleftrightarrow> n < 31"
proof -
  have eq: "litMask = mask 31" by (simp add: litMask_def mask_eq_exp_minus_1 push_bit_eq_mult)
  show ?thesis unfolding eq by (auto simp: bit_mask_iff)
qed

lemma bit_locMask [simp]: "bit locMask n \<longleftrightarrow> 31 \<le> n \<and> n < 63"
proof -
  have eq: "locMask = push_bit 31 (mask 32)"
    by (simp add: locMask_def litBits_def mask_eq_exp_minus_1)
  show ?thesis unfolding eq by (auto simp: bit_push_bit_iff bit_mask_iff)
qed

lemma bit_binMask [simp]: "bit binMask n \<longleftrightarrow> n = 63"
  unfolding binMask_def bit_push_bit_iff bit_1_iff by auto

lemma bit_top64: "bit (w :: u64) 63 \<longleftrightarrow> unat w \<ge> 2 ^ 63"
proof -
  have u: "unat w < 2 ^ 64" using unsigned_less [of w, where ?'a = nat] by simp
  have "bit w 63 \<longleftrightarrow> bit (unat w) 63"
    by (simp add: bit_unsigned_iff)
  also have "\<dots> \<longleftrightarrow> odd (unat w div 2 ^ 63)" by (simp add: bit_iff_odd)
  also have "\<dots> \<longleftrightarrow> unat w \<ge> 2 ^ 63"
  proof (cases "unat w \<ge> 2 ^ 63")
    case True
    then have "unat w div 2 ^ 63 = 1" using u by (intro div_nat_eqI) auto
    then show ?thesis using True by simp
  next
    case False
    then show ?thesis by simp
  qed
  finally show ?thesis .
qed

lemma ge_binMask: "w \<ge> binMask \<longleftrightarrow> bit w 63"
  by (simp add: bit_top64 binMask_def word_le_nat_alt push_bit_eq_mult)

lemma bit_lit_bound:
  assumes "unat (m :: u32) < 2147483648" and "bit m n"
  shows "n < 31"
proof -
  have "take_bit 31 m = m"
    using assms(1) by (simp add: word_eq_iff_unat unsigned_take_bit_eq take_bit_nat_eq_self)
  then show ?thesis using assms(2) by (metis bit_take_bit_iff)
qed

lemma bit_u32_bound: "bit (m :: u32) n \<Longrightarrow> n < 32"
  using bit_imp_le_length [of m n] by simp

lemma bit_MakeWatch:
  "bit (MakeWatch loc m b) n \<longleftrightarrow>
     (n = 63 \<and> b) \<or> bit m n \<or> (31 \<le> n \<and> n < 63 \<and> bit loc (n - 31))"
  unfolding MakeWatch_def Let_def
  by (auto simp: bit_or_iff bit_push_bit_iff bit_unsigned_iff litBits_def dest: bit_u32_bound)

section \<open>The field laws\<close>

lemma Other_MakeWatch: "unat m < 2 ^ 31 \<Longrightarrow> watch_Other (MakeWatch loc m b) = m"
  by (rule bit_word_eqI)
     (auto simp: watch_Other_def bit_unsigned_iff bit_and_iff bit_MakeWatch dest: bit_lit_bound)

lemma C_MakeWatch: "unat m < 2 ^ 31 \<Longrightarrow> watch_C (MakeWatch loc m b) = loc"
  by (rule bit_word_eqI)
     (auto simp: watch_C_def bit_unsigned_iff bit_drop_bit_eq bit_MakeWatch litBits_def
           dest: bit_lit_bound)

lemma IsBinary_MakeWatch: "watch_IsBinary (MakeWatch loc m b) \<longleftrightarrow> b"
  by (auto simp: watch_IsBinary_def ge_binMask bit_MakeWatch dest: bit_u32_bound)

lemma Relocate_MakeWatch:
  "unat m < 2 ^ 31 \<Longrightarrow> watch_Relocate (MakeWatch loc m b) loc' = MakeWatch loc' m b"
  by (rule bit_word_eqI)
     (auto simp: watch_Relocate_def bit_unsigned_iff bit_and_iff bit_or_iff bit_not_iff
        bit_push_bit_iff bit_MakeWatch litBits_def dest: bit_lit_bound bit_u32_bound)

lemma Relocate_fields [simp]:
  "watch_C (watch_Relocate w loc) = loc"
  "watch_Other (watch_Relocate w loc) = watch_Other w"
  "watch_IsBinary (watch_Relocate w loc) = watch_IsBinary w"
  subgoal
    by (rule bit_word_eqI)
       (auto simp: watch_C_def watch_Relocate_def bit_unsigned_iff bit_drop_bit_eq bit_or_iff
         bit_and_iff bit_not_iff bit_push_bit_iff litBits_def)
  subgoal
    by (rule bit_word_eqI)
       (auto simp: watch_Other_def watch_Relocate_def bit_unsigned_iff bit_or_iff
         bit_and_iff bit_not_iff bit_push_bit_iff litBits_def)
  subgoal
    by (auto simp: watch_IsBinary_def ge_binMask watch_Relocate_def bit_unsigned_iff bit_or_iff
         bit_and_iff bit_not_iff bit_push_bit_iff litBits_def dest: bit_u32_bound)
  done

lemma watch_eta: "MakeWatch (watch_C w) (watch_Other w) (watch_IsBinary w) = w"
proof (rule bit_word_eqI)
  fix n assume n: "n < LENGTH(64)"
  then show "bit (MakeWatch (watch_C w) (watch_Other w) (watch_IsBinary w)) n = bit w n"
    by (cases "n = 63"; cases "n < 31")
       (auto simp: bit_MakeWatch watch_C_def watch_Other_def watch_IsBinary_def ge_binMask
          bit_unsigned_iff bit_and_iff bit_drop_bit_eq litBits_def)
qed

lemma Other_bound: "unat (watch_Other w) < 2 ^ 31"
proof -
  have "take_bit 31 (watch_Other w) = watch_Other w"
    by (rule bit_word_eqI)
       (auto simp: watch_Other_def bit_take_bit_iff bit_unsigned_iff bit_and_iff)
  then have "take_bit 31 (unat (watch_Other w)) = unat (watch_Other w)"
    by (metis unsigned_take_bit_eq)
  then show ?thesis by (simp add: take_bit_nat_eq_self_iff)
qed

text \<open>
  The fields of a watch: whatever location, literal and flag a watch is made of are read
  back from it, every 64-bit value is the watch of its three fields, and relocating a watch
  changes the location and nothing else.
\<close>

theorem Watch_fields:
  assumes "unat m < 2 ^ 31"
  shows "watch_C (MakeWatch loc m b) = loc \<and> watch_Other (MakeWatch loc m b) = m
    \<and> watch_IsBinary (MakeWatch loc m b) = b
    \<and> watch_Relocate (MakeWatch loc m b) loc' = MakeWatch loc' m b
    \<and> MakeWatch (watch_C w) (watch_Other w) (watch_IsBinary w) = w
    \<and> watch_C (watch_Relocate w loc') = loc' \<and> watch_Other (watch_Relocate w loc') = watch_Other w"
  using assms by (simp_all add: C_MakeWatch Other_MakeWatch IsBinary_MakeWatch
    Relocate_MakeWatch watch_eta)

theorem Watch_fields_witness:
  "watch_C (MakeWatch 77 5 True) = 77 \<and> watch_Other (MakeWatch 77 5 True) = 5"
  using Watch_fields [of 5 77 True] by simp

lemma Watch_literal_overflow:
  "watch_C (MakeWatch 4 (push_bit 31 1) False) = 5"
  by code_simp

end
