(* ===== verification/ClauseHeader.thy ===== *)
theory ClauseHeader
  imports Watches
begin

text \<open>
  Clause headers (\<^verbatim>\<open>internal/xo/chd.go\<close>): the \<^verbatim>\<open>uint32\<close> in front of every stored clause.  Bits
  0-4 are the size modulo 32, bits 5-8 the glucose level modulo 16, bits 9-30 the heat and
  bit 31 says whether the clause is learnt.
\<close>

type_synonym chd = u32

definition szBits :: nat where
  "szBits = 5"

definition lbdBits :: nat where
  "lbdBits = 4"

definition heatBits :: nat where
  "heatBits = 22"

definition heatShift :: nat where
  "heatShift = szBits + lbdBits"

definition szMask :: u32 where
  "szMask = push_bit szBits 1 - 1"

definition lbdMask :: u32 where
  "lbdMask = push_bit szBits 0xf"

definition heatMask :: u32 where
  "heatMask = push_bit (szBits + lbdBits) (push_bit heatBits 1 - 1)"

definition lrnMask :: u32 where
  "lrnMask = push_bit 31 1"

definition MakeChd :: "bool \<Rightarrow> int \<Rightarrow> int \<Rightarrow> chd" where
  "MakeChd learnt lbd sz =
     (let v = 0;
          v = (if learnt then v OR lrnMask else v);
          v = v OR (word_of_int sz AND szMask);
          v = v OR (push_bit szBits (word_of_int lbd) AND lbdMask)
      in v)"

definition chd_Size :: "chd \<Rightarrow> u32" where
  "chd_Size c = c AND szMask"

definition chd_Lbd :: "chd \<Rightarrow> u32" where
  "chd_Lbd c = drop_bit szBits (c AND lbdMask)"

definition chd_Learnt :: "chd \<Rightarrow> bool" where
  "chd_Learnt c \<longleftrightarrow> c \<ge> lrnMask"

definition chd_Heat :: "chd \<Rightarrow> u32" where
  "chd_Heat c = drop_bit heatShift (c AND heatMask)"

definition chd_Bump :: "chd \<Rightarrow> u32 \<Rightarrow> chd \<times> bool" where
  "chd_Bump c n =
     (let ht = chd_Heat c + n
      in ((c AND (lrnMask OR szMask OR lbdMask)) OR push_bit heatShift ht,
          ht = drop_bit heatShift heatMask))"

definition chd_Decay :: "chd \<Rightarrow> chd" where
  "chd_Decay c =
     (let ht = chd_Heat c div 2
      in (c AND (lrnMask OR szMask OR lbdMask)) OR push_bit heatShift ht)"

section \<open>The bits of the masks and of the fields\<close>

named_theorems chd_bits

lemma szMask_mask: "szMask = mask 5"
  by (simp add: szMask_def szBits_def mask_eq_exp_minus_1 push_bit_eq_mult)

lemma lbdMask_mask: "lbdMask = push_bit 5 (mask 4)"
  by (simp add: lbdMask_def szBits_def mask_eq_exp_minus_1)

lemma heatMask_mask: "heatMask = push_bit 9 (mask 22)"
  by (simp add: heatMask_def szBits_def lbdBits_def heatBits_def mask_eq_exp_minus_1
    push_bit_eq_mult)

lemma bit_szMask [chd_bits]: "bit szMask n \<longleftrightarrow> n < 5"
  unfolding szMask_mask by (auto simp: bit_mask_iff)

lemma bit_lbdMask [chd_bits]: "bit lbdMask n \<longleftrightarrow> 5 \<le> n \<and> n < 9"
  unfolding lbdMask_mask by (auto simp: bit_push_bit_iff bit_mask_iff)

lemma bit_heatMask [chd_bits]: "bit heatMask n \<longleftrightarrow> 9 \<le> n \<and> n < 31"
  unfolding heatMask_mask by (auto simp: bit_push_bit_iff bit_mask_iff)

lemma bit_lrnMask [chd_bits]: "bit lrnMask n \<longleftrightarrow> n = 31"
  unfolding lrnMask_def bit_push_bit_iff bit_1_iff by auto

lemma bit_top32: "bit (w :: u32) 31 \<longleftrightarrow> unat w \<ge> 2 ^ 31"
proof -
  have u: "unat w < 2 ^ 32" using unsigned_less [of w, where ?'a = nat] by simp
  have "bit w 31 \<longleftrightarrow> bit (unat w) 31"
    by (simp add: bit_unsigned_iff)
  also have "\<dots> \<longleftrightarrow> odd (unat w div 2 ^ 31)" by (simp add: bit_iff_odd)
  also have "\<dots> \<longleftrightarrow> unat w \<ge> 2 ^ 31"
  proof (cases "unat w \<ge> 2 ^ 31")
    case True
    then have "unat w div 2 ^ 31 = 1" using u by (intro div_nat_eqI) auto
    then show ?thesis using True by simp
  next
    case False
    then show ?thesis by simp
  qed
  finally show ?thesis .
qed

lemma Learnt_bit [chd_bits]: "chd_Learnt c \<longleftrightarrow> bit c 31"
  by (simp add: chd_Learnt_def bit_top32 lrnMask_def word_le_nat_alt push_bit_eq_mult)

lemma bit_Size [chd_bits]: "bit (chd_Size c) n \<longleftrightarrow> n < 5 \<and> bit c n"
  by (auto simp: chd_Size_def chd_bits bit_and_iff)

lemma bit_Lbd [chd_bits]: "bit (chd_Lbd c) n \<longleftrightarrow> n < 4 \<and> bit c (n + 5)"
  by (auto simp: chd_Lbd_def chd_bits bit_and_iff bit_drop_bit_eq szBits_def add.commute)

lemma bit_Heat [chd_bits]: "bit (chd_Heat c) n \<longleftrightarrow> n < 22 \<and> bit c (n + 9)"
  by (auto simp: chd_Heat_def chd_bits bit_and_iff bit_drop_bit_eq heatShift_def szBits_def
    lbdBits_def add.commute)

lemma bit_MakeChd [chd_bits]:
  "bit (MakeChd learnt lbd sz) n \<longleftrightarrow>
     (if n < 5 then bit sz n else if n < 9 then bit lbd (n - 5) else n = 31 \<and> learnt)"
  by (auto simp: MakeChd_def Let_def bit_or_iff bit_and_iff bit_push_bit_iff chd_bits
    bit_word_of_int_iff szBits_def)

lemma chd_eqI:
  assumes "chd_Size a = chd_Size b" and "chd_Lbd a = chd_Lbd b" and "chd_Heat a = chd_Heat b"
    and "chd_Learnt a = chd_Learnt b"
  shows "a = b"
proof (rule bit_word_eqI)
  fix n assume n: "n < LENGTH(32)"
  have 1: "bit (chd_Size a) n = bit (chd_Size b) n"
    "bit (chd_Lbd a) (n - 5) = bit (chd_Lbd b) (n - 5)"
    "bit (chd_Heat a) (n - 9) = bit (chd_Heat b) (n - 9)" using assms by simp_all
  consider "n < 5" | "5 \<le> n" "n < 9" | "9 \<le> n" "n < 31" | "n = 31" using n by fastforce
  then show "bit a n = bit b n"
    using 1 assms(4) by cases (auto simp: chd_bits)
qed

text \<open>Replacing the heat leaves every other field alone, as long as the new heat fits.\<close>

definition with_heat :: "chd \<Rightarrow> u32 \<Rightarrow> chd" where
  "with_heat c ht = (c AND (lrnMask OR szMask OR lbdMask)) OR push_bit heatShift ht"

lemma bit_with_heat [chd_bits]:
  "bit (with_heat c ht) n \<longleftrightarrow>
     (if n < 9 then bit c n else n < 32 \<and> (bit ht (n - 9) \<or> n = 31 \<and> bit c 31))"
  by (auto simp: with_heat_def bit_or_iff bit_and_iff bit_push_bit_iff chd_bits heatShift_def
    szBits_def lbdBits_def dest: bit_u32_bound)

lemma with_heat_fields [simp]:
  "chd_Size (with_heat c ht) = chd_Size c"
  "chd_Lbd (with_heat c ht) = chd_Lbd c"
  "chd_Heat (with_heat c ht) = take_bit 22 ht"
  "chd_Learnt (with_heat c ht) \<longleftrightarrow> chd_Learnt c \<or> bit ht 22"
  by (auto simp: chd_bits bit_take_bit_iff intro!: bit_word_eqI)

lemma Heat_bound: "unat (chd_Heat c) < 4194304"
proof -
  have "take_bit 22 (chd_Heat c) = chd_Heat c"
    by (rule bit_word_eqI) (auto simp: chd_bits bit_take_bit_iff)
  then have "take_bit 22 (unat (chd_Heat c)) = unat (chd_Heat c)"
    by (metis unsigned_take_bit_eq)
  then show ?thesis by (simp add: take_bit_nat_eq_self_iff)
qed

lemma Size_bound: "unat (chd_Size c) < 32"
proof -
  have "take_bit 5 (chd_Size c) = chd_Size c"
    by (rule bit_word_eqI) (auto simp: chd_bits bit_take_bit_iff)
  then have "take_bit 5 (unat (chd_Size c)) = unat (chd_Size c)"
    by (metis unsigned_take_bit_eq)
  then show ?thesis by (simp add: take_bit_nat_eq_self_iff)
qed

lemma heat_small:
  assumes "unat (ht :: u32) < 4194304"
  shows "take_bit 22 ht = ht" and "\<not> bit ht 22"
proof -
  show 1: "take_bit 22 ht = ht"
    using assms by (simp add: word_eq_iff_unat unsigned_take_bit_eq take_bit_nat_eq_self)
  show "\<not> bit ht 22" using 1 by (metis bit_take_bit_iff less_irrefl)
qed

lemma heat_top: "drop_bit heatShift heatMask = 4194303"
  by (simp add: heatMask_mask heatShift_def szBits_def lbdBits_def mask_eq_exp_minus_1)

lemma Size_MakeChd: "unat (chd_Size (MakeChd l lbd sz)) = nat (sz mod 32)"
proof -
  have "chd_Size (MakeChd l lbd sz) = word_of_int (take_bit 5 sz)"
    by (rule bit_word_eqI) (auto simp: chd_bits bit_word_of_int_iff bit_take_bit_iff)
  also have "take_bit 5 sz = sz mod 32" by (simp add: take_bit_eq_mod)
  finally show ?thesis
    by (simp add: unsigned_of_int take_bit_int_eq_self)
qed

text \<open>
  Clause headers: a new header holds the size modulo 32, the glucose level modulo 16, heat
  zero and the learnt flag.  Bumping and decaying a header never touch size or level.  While
  the heat stays below its 22-bit maximum a bump adds to the heat, keeps the learnt flag and
  reports exactly that the maximum is reached; decaying halves the heat.
\<close>

theorem Chd_fields:
  assumes "unat (chd_Heat c) + unat n < 2 ^ 22"
  shows "unat (chd_Size (MakeChd l lbd sz)) = nat (sz mod 32)
    \<and> unat (chd_Lbd (MakeChd l lbd sz)) = nat (lbd mod 16)
    \<and> chd_Heat (MakeChd l lbd sz) = 0 \<and> chd_Learnt (MakeChd l lbd sz) = l
    \<and> unat (chd_Heat (fst (chd_Bump c n))) = unat (chd_Heat c) + unat n
    \<and> snd (chd_Bump c n) = (unat (chd_Heat c) + unat n = 2 ^ 22 - 1)
    \<and> chd_Size (fst (chd_Bump c n)) = chd_Size c \<and> chd_Lbd (fst (chd_Bump c n)) = chd_Lbd c
    \<and> chd_Learnt (fst (chd_Bump c n)) = chd_Learnt c
    \<and> unat (chd_Heat (chd_Decay c)) = unat (chd_Heat c) div 2
    \<and> chd_Size (chd_Decay c) = chd_Size c \<and> chd_Lbd (chd_Decay c) = chd_Lbd c
    \<and> chd_Learnt (chd_Decay c) = chd_Learnt c"
proof -
  have lbd: "unat (chd_Lbd (MakeChd l lbd sz)) = nat (lbd mod 16)"
  proof -
    have "chd_Lbd (MakeChd l lbd sz) = word_of_int (take_bit 4 lbd)"
      by (rule bit_word_eqI) (auto simp: chd_bits bit_word_of_int_iff bit_take_bit_iff)
    also have "take_bit 4 lbd = lbd mod 16" by (simp add: take_bit_eq_mod)
    finally show ?thesis by (simp add: unsigned_of_int take_bit_int_eq_self)
  qed
  have heat: "chd_Heat (MakeChd l lbd sz) = 0"
    by (rule bit_word_eqI) (auto simp: chd_bits)
  have learnt: "chd_Learnt (MakeChd l lbd sz) = l" by (simp add: chd_bits)
  have sum: "unat (chd_Heat c + n) = unat (chd_Heat c) + unat n"
    using assms by (simp add: unat_word_ariths)
  have bump: "chd_Bump c n = (with_heat c (chd_Heat c + n), chd_Heat c + n = 4194303)"
    by (simp add: chd_Bump_def Let_def heat_top with_heat_def)
  have flag: "(chd_Heat c + n = 4194303) = (unat (chd_Heat c) + unat n = 2 ^ 22 - 1)"
    by (simp add: word_eq_iff_unat sum)
  have decay: "chd_Decay c = with_heat c (chd_Heat c div 2)"
    by (simp add: chd_Decay_def Let_def with_heat_def)
  have half: "unat (chd_Heat c div 2) = unat (chd_Heat c) div 2" by (simp add: unat_div)
  note small = heat_small [of "chd_Heat c + n"] heat_small [of "chd_Heat c div 2"]
  show ?thesis
    using assms Heat_bound [of c] small
    by (simp add: Size_MakeChd lbd heat learnt bump decay flag half sum)
qed

theorem Chd_fields_witness:
  "unat (chd_Heat (fst (chd_Bump (MakeChd True 3 40) 6))) = 6"
proof -
  have "chd_Heat (MakeChd True 3 40) = 0"
    by (rule bit_word_eqI) (auto simp: chd_bits)
  then show ?thesis using Chd_fields [of "MakeChd True 3 40" 6 True 3 40] by simp
qed

text \<open>
  The test for the maximal heat is an equality, so a bump that steps over the maximum
  is not reported: the heat wraps around to a small value and the carry sets the learnt flag.
\<close>

theorem Chd_Bump_overflow:
  "\<exists>c. \<not> chd_Learnt c \<and> unat (chd_Heat c) = 2 ^ 22 - 2
     \<and> chd_Learnt (fst (chd_Bump c 6)) \<and> chd_Heat (fst (chd_Bump c 6)) = 4
     \<and> \<not> snd (chd_Bump c 6)"
proof -
  define c where "c = with_heat 0 4194302"
  have c: "\<not> chd_Learnt c" "chd_Heat c = 4194302"
    unfolding c_def with_heat_fields by (simp_all add: chd_bits heat_small)
  have bump: "chd_Bump c 6 = (with_heat c 4194308, False)"
    by (simp add: chd_Bump_def Let_def with_heat_def c heat_top)
  have "bit (4194308 :: u32) 22" by simp
  then have "\<not> chd_Learnt c \<and> unat (chd_Heat c) = 2 ^ 22 - 2
     \<and> chd_Learnt (fst (chd_Bump c 6)) \<and> chd_Heat (fst (chd_Bump c 6)) = 4
     \<and> \<not> snd (chd_Bump c 6)"
    by (simp add: c bump)
  then show ?thesis by (rule exI)
qed

end
