(* ===== verification/ClauseData.thy ===== *)
theory ClauseData
  imports ClauseHeader
begin

text \<open>
  The clause store (\<^verbatim>\<open>internal/xo/cdat.go\<close>): one slice of 32-bit words that holds, clause after
  clause, a header, the literals and a terminating zero.  A clause is referred to by the index
  of its first literal.  The abstract view of a store is the list of its clauses; \<open>cdat_rep\<close>
  relates the two, and every operation is proved against it.
\<close>

section \<open>The store\<close>

record cdat =
  cd_D :: "u32 list"
  cd_Len :: nat
  cd_Cap :: nat
  cd_ClsLen :: int
  cd_bumpInc :: u32

definition NewCDat :: "int \<Rightarrow> cdat" where
  "NewCDat c =
     (let c = (if c < 3 then 3 else c)
      in \<lparr>cd_D = replicate (nat c) 0, cd_Len = 0, cd_Cap = nat c, cd_ClsLen = 0,
          cd_bumpInc = 1\<rparr>)"

partial_function (option) cd_newCap :: "nat \<Rightarrow> nat \<Rightarrow> nat option" where
  "cd_newCap newCap rLen =
     (if newCap \<le> rLen then cd_newCap (newCap * 2) rLen else Some newCap)"

definition CDat_grow :: "nat \<Rightarrow> cdat \<Rightarrow> cdat option" where
  "CDat_grow rLen c =
     do { newCap \<leftarrow> cd_newCap (cd_Cap c) rLen;
          old \<leftarrow> aslice (cd_D c) 0 (cd_Len c);
          d \<leftarrow> acopy (replicate newCap 0) 0 newCap old;
          Some (c\<lparr>cd_D := d, cd_Cap := newCap\<rparr>) }"

definition AddLits :: "chd \<Rightarrow> lit list \<Rightarrow> cdat \<Rightarrow> (cloc \<times> cdat) option" where
  "AddLits hdr ms c =
     (let ms = ms @ [LitNull];
          mLen = length ms;
          cLen = cd_Len c;
          eLen = cLen + mLen + 1
      in do { c \<leftarrow> (if eLen \<ge> cd_Cap c then CDat_grow eLen c else Some c);
              d \<leftarrow> aset (cd_D c) cLen hdr;
              let cLen = cLen + 1;
              let res = of_nat cLen;
              d \<leftarrow> acopy d cLen eLen ms;
              Some (res, c\<lparr>cd_D := d, cd_Len := eLen, cd_ClsLen := cd_ClsLen c + 1\<rparr>) })"

definition CDat_Chd :: "cloc \<Rightarrow> cdat \<Rightarrow> chd option" where
  "CDat_Chd loc c = aget (cd_D c) (unat (loc - 1))"

definition CDat_SetChd :: "cloc \<Rightarrow> chd \<Rightarrow> cdat \<Rightarrow> cdat option" where
  "CDat_SetChd loc h c =
     do { d \<leftarrow> aset (cd_D c) (unat (loc - 1)) h; Some (c\<lparr>cd_D := d\<rparr>) }"

partial_function (option) next_loop ::
    "u32 list \<Rightarrow> cloc \<Rightarrow> u32 \<Rightarrow> u32 \<Rightarrow> u32 \<Rightarrow> cloc option" where
  "next_loop D loc szModulus i j =
     (if j < of_nat (length D)
      then do { x \<leftarrow> aget D (unat j);
                if x = LitNull then Some (j + 2)
                else let i = i + 1
                     in next_loop D loc szModulus i (loc + (push_bit szBits i OR szModulus)) }
      else None)"

definition CDat_Next :: "cloc \<Rightarrow> cdat \<Rightarrow> cloc option" where
  "CDat_Next loc c =
     do { h \<leftarrow> aget (cd_D c) (unat (loc - 1));
          let szModulus = chd_Size h;
          next_loop (cd_D c) loc szModulus 0 (loc + szModulus) }"

definition CompactReady :: "cdat \<Rightarrow> nat \<Rightarrow> nat \<Rightarrow> bool" where
  "CompactReady c nc nl = (let free = nc * 2 + nl in cd_Len c div 2 < free)"

type_synonym locmap = "cloc \<rightharpoonup> cloc"

partial_function (option) compact_loop ::
    "cloc list \<Rightarrow> cloc \<Rightarrow> cdat \<Rightarrow> locmap \<Rightarrow> nat \<Rightarrow> cloc \<Rightarrow> cloc \<Rightarrow>
     (cdat \<times> locmap \<times> cloc) option" where
  "compact_loop rm fin c locMap i dst cur =
     (if cur < fin
      then let nrm = (if i + 1 < length rm then rm ! (i + 1) else CNull)
           in if cur = nrm
              then do { cur' \<leftarrow> CDat_Next cur c;
                        compact_loop rm fin c (locMap(cur \<mapsto> CNull)) (i + 1) dst cur' }
              else do { nxt \<leftarrow> CDat_Next cur c;
                        let curLen = nxt - cur;
                        let nxtDst = dst + curLen;
                        src \<leftarrow> aslice (cd_D c) (unat (cur - 1)) (unat (nxt - 1));
                        d \<leftarrow> acopy (cd_D c) (unat dst) (unat nxtDst) src;
                        compact_loop rm fin (c\<lparr>cd_D := d\<rparr>) (locMap(cur \<mapsto> dst + 1)) i nxtDst nxt }
      else Some (c, locMap, dst))"

definition CDat_Compact :: "cloc list \<Rightarrow> cdat \<Rightarrow> (locmap \<times> int \<times> cdat) option" where
  "CDat_Compact rm c =
     (if rm = [] then Some (Map.empty, 0, c)
      else let i = 0;
               locMap = Map.empty(rm ! i \<mapsto> CNull);
               dst = rm ! i - 1
           in do { cur \<leftarrow> CDat_Next (rm ! i) c;
                   let fin = of_nat (cd_Len c);
                   (c', locMap, dst) \<leftarrow> compact_loop rm fin c locMap i dst cur;
                   let freed = int (cd_Len c) - int (unat dst);
                   Some (locMap, freed,
                         c'\<lparr>cd_Len := unat dst, cd_ClsLen := cd_ClsLen c' - int (length rm)\<rparr>) })"

definition CDat_Bump :: "cloc \<Rightarrow> cdat \<Rightarrow> (bool \<times> cdat) option" where
  "CDat_Bump p c =
     do { h \<leftarrow> CDat_Chd p c;
          let (b, decay) = chd_Bump h (cd_bumpInc c);
          c' \<leftarrow> CDat_SetChd p b c;
          Some (decay, c') }"

definition CDat_Decay :: "cdat \<Rightarrow> cdat" where
  "CDat_Decay c = c\<lparr>cd_bumpInc := cd_bumpInc c + 5\<rparr>"

definition CDat_Load :: "cloc \<Rightarrow> lit list \<Rightarrow> cdat \<Rightarrow> lit list option" where
  "CDat_Load p ms c =
     do { nx \<leftarrow> CDat_Next p c;
          let e = nx - 2;
          xs \<leftarrow> aslice (cd_D c) (unat p) (unat e);
          Some (ms @ xs) }"

text \<open>
  Forall hands every clause to its callback, with its index and location.  The callback is
  represented by what it is given: the result is the list of its argument tuples.  The
  capacity computed for the scratch slice divides by \<open>Len\<close>, which panics for an empty store.
\<close>

partial_function (option) forall_loop ::
    "cdat \<Rightarrow> nat \<Rightarrow> cloc \<Rightarrow> (nat \<times> cloc \<times> lit list) list option" where
  "forall_loop c i q =
     (if q < of_nat (cd_Len c)
      then do { ns \<leftarrow> CDat_Load q [] c;
                q' \<leftarrow> CDat_Next q c;
                rest \<leftarrow> forall_loop c (i + 1) q';
                Some ((i, q, ns) # rest) }
      else Some [])"

definition CDat_Forall :: "cdat \<Rightarrow> (nat \<times> cloc \<times> lit list) list option" where
  "CDat_Forall c =
     do { _ \<leftarrow> assert_o (cd_Len c \<noteq> 0);
          forall_loop c 0 1 }"

definition CDat_CopyTo :: "cdat \<Rightarrow> cdat \<Rightarrow> cdat" where
  "CDat_CopyTo c other =
     other\<lparr>cd_D := cd_D c, cd_Len := cd_Len c, cd_Cap := cd_Cap c, cd_ClsLen := cd_ClsLen c\<rparr>"

definition CDat_Copy :: "cdat \<Rightarrow> cdat" where
  "CDat_Copy c =
     CDat_CopyTo c \<lparr>cd_D = [], cd_Len = 0, cd_Cap = 0, cd_ClsLen = 0, cd_bumpInc = 0\<rparr>"

declare cd_newCap.simps [code] next_loop.simps [code] compact_loop.simps [code]
  forall_loop.simps [code]

section \<open>The abstract view\<close>

type_synonym clause = "chd \<times> lit list"

fun enc :: "clause \<Rightarrow> u32 list" where
  "enc (h, ms) = h # ms @ [LitNull]"

definition encs :: "clause list \<Rightarrow> u32 list" where
  "encs cls = concat (map enc cls)"

definition clause_ok :: "clause \<Rightarrow> bool" where
  "clause_ok cl \<longleftrightarrow> LitNull \<notin> set (snd cl) \<and> unat (chd_Size (fst cl)) = length (snd cl) mod 32"

definition loc_at :: "clause list \<Rightarrow> nat" where
  "loc_at cls = length (encs cls) + 1"

definition cdat_rep :: "clause list \<Rightarrow> cdat \<Rightarrow> bool" where
  "cdat_rep cls c \<longleftrightarrow>
     take (cd_Len c) (cd_D c) = encs cls \<and> cd_Len c \<le> length (cd_D c)
     \<and> cd_Cap c = length (cd_D c) \<and> 0 < cd_Cap c \<and> length (cd_D c) < 2 ^ 31
     \<and> cd_ClsLen c = int (length cls) \<and> (\<forall>cl \<in> set cls. clause_ok cl)"

lemma encs_simps [simp]:
  "encs [] = []"
  "encs (cl # cls) = enc cl @ encs cls"
  "encs (cls @ cls') = encs cls @ encs cls'"
  by (simp_all add: encs_def)

lemma length_enc [simp]: "length (enc cl) = length (snd cl) + 2"
  by (cases cl) simp

lemma cdat_repD:
  assumes "cdat_rep cls c"
  shows "cd_Len c = length (encs cls)" and "take (cd_Len c) (cd_D c) = encs cls"
    and "cd_Len c \<le> length (cd_D c)" and "length (cd_D c) < 2147483648"
    and "cd_Cap c = length (cd_D c)" and "\<And>cl. cl \<in> set cls \<Longrightarrow> clause_ok cl"
    and "cd_ClsLen c = int (length cls)" and "0 < cd_Cap c"
  using assms by (auto simp: cdat_rep_def dest: arg_cong [of _ _ length])

section \<open>Stepping over a clause\<close>

lemma shift_or_eq:
  assumes "unat s < 32" and "i < 2 ^ 26"
  shows "push_bit szBits (of_nat i) OR (s :: u32) = of_nat (32 * i + unat s)"
proof -
  have t: "take_bit 5 s = s"
    using assms(1) by (simp add: word_eq_iff_unat unsigned_take_bit_eq take_bit_nat_eq_self)
  have b: "n < 5" if "bit s n" for n
    using that bit_take_bit_iff [of 5 s n] unfolding t by simp
  have "push_bit 5 (of_nat i) AND s = 0"
    by (rule bit_word_eqI) (auto simp: bit_and_iff bit_push_bit_iff dest: b)
  then have "push_bit 5 (of_nat i) OR s = push_bit 5 (of_nat i) + s"
    by (rule disjunctive_add_eq_or [symmetric])
  then show ?thesis by (simp add: szBits_def push_bit_eq_mult mult.commute)
qed

lemma next_loop_at:
  assumes "j < length D" and "length D < 2147483648"
  shows "next_loop D loc s i (of_nat j) =
    (if D ! j = LitNull then Some (of_nat j + 2)
     else next_loop D loc s (i + 1) (loc + (push_bit szBits (i + 1) OR s)))"
  using assms by (subst next_loop.simps) (simp add: word_less_nat_alt Let_def)

lemma next_loop_spec:
  assumes len: "length D < 2147483648" and fits: "p + length ms < length D"
    and ms: "\<And>k. k < length ms \<Longrightarrow> D ! (p + k) \<noteq> LitNull" and nul: "D ! (p + length ms) = LitNull"
    and s: "unat s = length ms mod 32" and i: "i \<le> length ms div 32"
  shows "next_loop D (of_nat p) s (of_nat i) (of_nat (p + 32 * i + length ms mod 32))
     = Some (of_nat (p + length ms + 2))"
  using i
proof (induction "length ms div 32 - i" arbitrary: i)
  case 0
  then have i: "i = length ms div 32" by simp
  have j: "p + 32 * i + length ms mod 32 = p + length ms"
    unfolding i by simp
  show ?case
    unfolding j using next_loop_at [OF fits len] nul by (simp add: algebra_simps)
next
  case (Suc d)
  then have lt: "i < length ms div 32" by simp
  have k: "32 * i + length ms mod 32 < length ms"
  proof -
    have "32 * i < 32 * (length ms div 32)" using lt by simp
    moreover have "32 * (length ms div 32) + length ms mod 32 = length ms" by simp
    ultimately show ?thesis by linarith
  qed
  then have nz: "D ! (p + 32 * i + length ms mod 32) \<noteq> LitNull"
    using ms [of "32 * i + length ms mod 32"] by (simp add: add.assoc)
  have i26: "Suc i < 2 ^ 26" using lt len fits by simp
  have or: "of_nat p + (push_bit szBits (of_nat i + 1) OR s)
      = of_nat (p + 32 * Suc i + length ms mod 32)"
    using shift_or_eq [of s "Suc i"] i26 s by (simp add: algebra_simps)
  have jl: "p + 32 * i + length ms mod 32 < length D" using k fits by simp
  have step: "next_loop D (of_nat p) s (of_nat i) (of_nat (p + 32 * i + length ms mod 32))
    = next_loop D (of_nat p) s (of_nat (Suc i)) (of_nat (p + 32 * Suc i + length ms mod 32))"
    unfolding next_loop_at [OF jl len] or using nz by (simp add: add.commute)
  have "d = length ms div 32 - Suc i" using Suc.hyps(2) by simp
  then show ?case unfolding step using Suc.hyps(1) [of "Suc i"] lt by simp
qed

text \<open>A clause sits at offset \<open>o\<close> of the data when its encoding does.\<close>

definition enc_at :: "u32 list \<Rightarrow> nat \<Rightarrow> clause \<Rightarrow> bool" where
  "enc_at D n cl \<longleftrightarrow> n + length (enc cl) \<le> length D \<and> take (length (enc cl)) (drop n D) = enc cl"

lemma enc_at_nth:
  assumes "enc_at D n cl"
  shows "D ! n = fst cl" and "k < length (snd cl) \<Longrightarrow> D ! (n + 1 + k) = snd cl ! k"
    and "D ! (n + 1 + length (snd cl)) = LitNull" and "n + length (snd cl) + 1 < length D"
proof -
  obtain h ms where cl: "cl = (h, ms)" by (cases cl)
  have e: "take (length (enc cl)) (drop n D) = enc cl" and l: "n + length (enc cl) \<le> length D"
    using assms by (auto simp: enc_at_def)
  have nth: "D ! (n + k) = enc cl ! k" if "k < length (enc cl)" for k
    using arg_cong [OF e, of "\<lambda>xs. xs ! k"] that l by simp
  show "D ! n = fst cl" using nth [of 0] by (simp add: cl)
  show "D ! (n + 1 + k) = snd cl ! k" if "k < length (snd cl)"
    using nth [of "Suc k"] that by (simp add: cl nth_append)
  show "D ! (n + 1 + length (snd cl)) = LitNull"
    using nth [of "Suc (length (snd cl))"] by (simp add: cl nth_append)
  show "n + length (snd cl) + 1 < length D" using l by simp
qed

lemma Next_enc_at:
  assumes at: "enc_at (cd_D c) n cl" and len: "length (cd_D c) < 2147483648" and ok: "clause_ok cl"
  shows "CDat_Next (of_nat (n + 1)) c = Some (of_nat (n + length (enc cl) + 1))"
proof -
  note nth = enc_at_nth [OF at]
  have nz: "cd_D c ! (n + 1 + k) \<noteq> LitNull" if "k < length (snd cl)" for k
    using nth(2) [OF that] ok that by (metis clause_ok_def nth_mem)
  have s: "unat (chd_Size (fst cl)) = length (snd cl) mod 32" using ok by (simp add: clause_ok_def)
  have "next_loop (cd_D c) (of_nat (n + 1)) (chd_Size (fst cl)) (of_nat 0)
      (of_nat (n + 1 + 32 * 0 + length (snd cl) mod 32)) = Some (of_nat (n + 1 + length (snd cl) + 2))"
    by (rule next_loop_spec) (use len nth nz s in auto)
  moreover have "of_nat (n + 1 + 32 * 0 + length (snd cl) mod 32)
      = of_nat (n + 1) + chd_Size (fst cl)"
    unfolding s [symmetric] by simp
  moreover have "aget (cd_D c) (unat (of_nat (n + 1) - 1 :: u32)) = Some (fst cl)"
    using nth(1,4) len by simp
  ultimately show ?thesis
    by (simp add: CDat_Next_def Let_def algebra_simps)
qed

lemma Load_enc_at:
  assumes at: "enc_at (cd_D c) n cl" and len: "length (cd_D c) < 2147483648" and ok: "clause_ok cl"
  shows "CDat_Load (of_nat (n + 1)) ms c = Some (ms @ snd cl)"
proof -
  note nth = enc_at_nth [OF at]
  have e: "of_nat (n + length (enc cl) + 1) - 2 = (of_nat (n + 1 + length (snd cl)) :: u32)"
    by (simp add: algebra_simps)
  have "aslice (cd_D c) (n + 1) (n + 1 + length (snd cl)) = Some (snd cl)"
    unfolding aslice_def using nth by (auto intro!: nth_equalityI)
  moreover have "unat (of_nat (n + 1) :: u32) = n + 1"
    "unat (of_nat (n + 1 + length (snd cl)) :: u32) = n + 1 + length (snd cl)"
    using nth(4) len by (intro unat_of_nat32, simp)+
  ultimately show ?thesis
    unfolding CDat_Load_def Next_enc_at [OF assms] Option.bind.bind_lunit Let_def e by simp
qed

section \<open>Adding clauses\<close>

lemma cd_newCap_spec:
  "0 < n \<Longrightarrow> returns (cd_newCap n r) (\<lambda>m. r < m \<and> n \<le> m \<and> (m \<le> 2 * r \<or> m = n))"
proof (induction "Suc r - n" arbitrary: n rule: less_induct)
  case less
  show ?case
  proof (cases "n \<le> r")
    case True
    then have "returns (cd_newCap (n * 2) r) (\<lambda>m. r < m \<and> n * 2 \<le> m \<and> (m \<le> 2 * r \<or> m = n * 2))"
      using less.prems by (intro less.hyps) auto
    then have "returns (cd_newCap (n * 2) r) (\<lambda>m. r < m \<and> n \<le> m \<and> (m \<le> 2 * r \<or> m = n))"
      by (rule returns_mono) (use True in auto)
    then show ?thesis by (subst cd_newCap.simps) (simp add: True)
  next
    case False
    then show ?thesis by (subst cd_newCap.simps) simp
  qed
qed

lemma CDat_grow_spec:
  assumes rep: "cdat_rep cls c" and room: "2 * r < 2147483648"
  shows "returns (CDat_grow r c) (\<lambda>c'. cdat_rep cls c' \<and> r < length (cd_D c')
     \<and> cd_Len c' = cd_Len c \<and> cd_bumpInc c' = cd_bumpInc c)"
proof -
  note repD = cdat_repD [OF rep]
  obtain n where n: "cd_newCap (cd_Cap c) r = Some n" "r < n" "cd_Cap c \<le> n"
    "n \<le> 2 * r \<or> n = cd_Cap c"
    using cd_newCap_spec [OF repD(8), of r] by (auto simp: returns_def)
  define D where "D = encs cls @ replicate (n - cd_Len c) 0"
  have "CDat_grow r c = Some (c\<lparr>cd_D := D, cd_Cap := n\<rparr>)"
    using n repD(1-5) by (simp add: CDat_grow_def aslice_def acopy_def Let_def D_def)
  moreover have "length D = n" using n repD(1,3,5) by (simp add: D_def)
  ultimately show ?thesis
    using n rep room repD by (auto simp: cdat_rep_def D_def)
qed

lemma AddLits_spec:
  assumes rep: "cdat_rep cls c" and room: "2 * (cd_Len c + length ms + 2) < 2147483648"
    and ok: "clause_ok (h, ms)"
  shows "returns (AddLits h ms c) (\<lambda>(p, c'). cdat_rep (cls @ [(h, ms)]) c'
     \<and> unat p = loc_at cls \<and> cd_bumpInc c' = cd_bumpInc c)"
proof -
  define e where "e = cd_Len c + length ms + 2"
  define g where "g = (if e \<ge> cd_Cap c then CDat_grow e c else Some c)"
  have "returns g (\<lambda>c'. cdat_rep cls c' \<and> e < length (cd_D c')
     \<and> cd_Len c' = cd_Len c \<and> cd_bumpInc c' = cd_bumpInc c)"
    using CDat_grow_spec [OF rep, of e] room rep cdat_repD(5) [OF rep]
    by (auto simp: g_def e_def)
  then obtain c1 where c1: "g = Some c1" "cdat_rep cls c1" "e < length (cd_D c1)"
    "cd_Len c1 = cd_Len c" "cd_bumpInc c1 = cd_bumpInc c"
    by (auto simp: returns_def)
  note repD = cdat_repD [OF c1(2)]
  define D where "D = encs cls @ enc (h, ms) @ drop e (cd_D c1)"
  have take: "take (cd_Len c) (cd_D c1) = encs cls" using repD(2) c1(4) by simp
  have lenc: "length (encs cls) = cd_Len c" using repD(1) c1(4) by simp
  define D1 where "D1 = (cd_D c1)[cd_Len c := h]"
  have d1: "aset (cd_D c1) (cd_Len c) h = Some D1"
    using c1(3) by (simp add: D1_def e_def)
  have t1: "take (cd_Len c + 1) D1 = encs cls @ [h]"
    using c1(3) take by (simp add: D1_def e_def take_Suc_conv_app_nth take_update_cancel)
  have d2: "drop (cd_Len c + 1 + (length ms + 1)) D1 = drop e (cd_D c1)"
    by (simp add: D1_def e_def drop_update_cancel)
  have mn: "min (e - (cd_Len c + 1)) (length (ms @ [LitNull])) = length ms + 1"
    by (simp add: e_def)
  have cp: "acopy D1 (cd_Len c + 1) e (ms @ [LitNull]) = Some D"
    unfolding acopy_def mn Let_def t1 d2 D_def using c1(3) by (simp add: D1_def e_def)
  have e': "cd_Len c + length (ms @ [LitNull]) + 1 = e" by (simp add: e_def)
  have add: "AddLits h ms c = Some (of_nat (cd_Len c + 1),
      c1\<lparr>cd_D := D, cd_Len := e, cd_ClsLen := cd_ClsLen c1 + 1\<rparr>)"
    unfolding AddLits_def Let_def e' g_def [symmetric] c1(1) Option.bind.bind_lunit d1 cp ..
  have "length D = length (cd_D c1)" using c1(3) lenc by (simp add: D_def e_def)
  then have "cdat_rep (cls @ [(h, ms)]) (c1\<lparr>cd_D := D, cd_Len := e, cd_ClsLen := cd_ClsLen c1 + 1\<rparr>)"
    using repD c1 ok lenc by (auto simp: cdat_rep_def D_def e_def)
  moreover have "unat (of_nat (cd_Len c + 1) :: u32) = loc_at cls"
    using room lenc unfolding loc_at_def by (subst unat_of_nat32) auto
  ultimately show ?thesis unfolding add using c1(5) by simp
qed

section \<open>Reading and updating headers\<close>

lemma rep_enc_at:
  assumes "cdat_rep (cls @ cl # cls') c"
  shows "enc_at (cd_D c) (length (encs cls)) cl"
proof -
  note repD = cdat_repD [OF assms]
  have l: "length (encs cls) + length (enc cl) \<le> cd_Len c"
    unfolding repD(1) by simp
  have "take (length (enc cl)) (drop (length (encs cls)) (take (cd_Len c) (cd_D c))) = enc cl"
    unfolding repD(2) by simp
  moreover have "length (enc cl) \<le> cd_Len c - length (encs cls)" using l by linarith
  ultimately have "take (length (enc cl)) (drop (length (encs cls)) (cd_D c)) = enc cl"
    unfolding drop_take take_take by (simp only: min_absorb1)
  then show ?thesis using l repD(3) by (simp add: enc_at_def)
qed

lemma loc_at_bound:
  assumes "cdat_rep (cls @ cl # cls') c"
  shows "loc_at cls + length (snd cl) + 1 \<le> cd_Len c"
  using cdat_repD(1) [OF assms] by (simp add: loc_at_def)

lemma CDat_Next_rep:
  assumes "cdat_rep (cls @ cl # cls') c"
  shows "CDat_Next (of_nat (loc_at cls)) c = Some (of_nat (loc_at (cls @ [cl])))"
  using Next_enc_at [OF rep_enc_at [OF assms] cdat_repD(4) [OF assms]] cdat_repD(6) [OF assms]
  by (simp add: loc_at_def)

lemma CDat_Load_rep:
  assumes "cdat_rep (cls @ cl # cls') c"
  shows "CDat_Load (of_nat (loc_at cls)) ms c = Some (ms @ snd cl)"
  using Load_enc_at [OF rep_enc_at [OF assms] cdat_repD(4) [OF assms]] cdat_repD(6) [OF assms]
  by (simp add: loc_at_def)

lemma CDat_Chd_rep:
  assumes "cdat_rep (cls @ cl # cls') c"
  shows "CDat_Chd (of_nat (loc_at cls)) c = Some (fst cl)"
  using enc_at_nth(1,4) [OF rep_enc_at [OF assms]] cdat_repD(4) [OF assms]
  by (simp add: CDat_Chd_def loc_at_def)

lemma CDat_SetChd_rep:
  assumes rep: "cdat_rep (cls @ (h, ms) # cls') c" and sz: "chd_Size h' = chd_Size h"
  shows "returns (CDat_SetChd (of_nat (loc_at cls)) h' c)
    (\<lambda>c'. cdat_rep (cls @ (h', ms) # cls') c' \<and> cd_bumpInc c' = cd_bumpInc c)"
proof -
  note repD = cdat_repD [OF rep]
  note nth = enc_at_nth [OF rep_enc_at [OF rep]]
  define n where "n = length (encs cls)"
  have ix: "unat (of_nat (loc_at cls) - 1 :: u32) = n"
    using nth(4) repD(4) by (simp add: loc_at_def n_def)
  have nl: "n < cd_Len c" unfolding n_def repD(1) by simp
  have "take (cd_Len c) ((cd_D c)[n := h']) = (take (cd_Len c) (cd_D c))[n := h']"
    by (simp add: take_update_swap)
  also have "\<dots> = encs (cls @ (h', ms) # cls')"
    unfolding repD(2) by (simp add: n_def list_update_append)
  finally have tk: "take (cd_Len c) ((cd_D c)[n := h']) = encs (cls @ (h', ms) # cls')" .
  have "cdat_rep (cls @ (h', ms) # cls') (c\<lparr>cd_D := (cd_D c)[n := h']\<rparr>)"
    using rep sz tk by (auto simp: cdat_rep_def clause_ok_def)
  moreover have "CDat_SetChd (of_nat (loc_at cls)) h' c = Some (c\<lparr>cd_D := (cd_D c)[n := h']\<rparr>)"
    using nl repD(3) by (simp add: CDat_SetChd_def ix)
  ultimately show ?thesis by simp
qed

lemma CDat_Bump_rep:
  assumes rep: "cdat_rep (cls @ (h, ms) # cls') c"
  shows "returns (CDat_Bump (of_nat (loc_at cls)) c)
    (\<lambda>(d, c'). cdat_rep (cls @ (fst (chd_Bump h (cd_bumpInc c)), ms) # cls') c'
       \<and> d = snd (chd_Bump h (cd_bumpInc c)) \<and> cd_bumpInc c' = cd_bumpInc c)"
proof -
  have sz: "chd_Size (fst (chd_Bump h n)) = chd_Size h" for n
    by (simp add: chd_Bump_def Let_def with_heat_def [symmetric])
  show ?thesis
    using CDat_SetChd_rep [OF rep sz, of "cd_bumpInc c"]
    by (auto simp: CDat_Bump_def CDat_Chd_rep [OF rep] Let_def split_beta returns_def)
qed

section \<open>Compaction\<close>

text \<open>
  A store to compact is described by its clauses, each with a flag that says whether it is to
  be removed.  \<open>flagged_locs\<close> is the removal list, in ascending order as Compact requires;
  \<open>remap\<close> the relocation map it builds.
\<close>

type_synonym fclause = "bool \<times> clause"

fun flagged_locs :: "nat \<Rightarrow> fclause list \<Rightarrow> cloc list" where
  "flagged_locs n [] = []"
| "flagged_locs n ((b, cl) # r) =
     (if b then of_nat (n + 1) # flagged_locs (n + length (enc cl)) r
      else flagged_locs (n + length (enc cl)) r)"

fun remap :: "nat \<Rightarrow> nat \<Rightarrow> fclause list \<Rightarrow> locmap \<Rightarrow> locmap" where
  "remap n d [] m = m"
| "remap n d ((b, cl) # r) m =
     (if b then remap (n + length (enc cl)) d r (m(of_nat (n + 1) \<mapsto> CNull))
      else remap (n + length (enc cl)) (d + length (enc cl)) r
             (m(of_nat (n + 1) \<mapsto> of_nat (d + 1))))"

definition kept :: "fclause list \<Rightarrow> clause list" where
  "kept fcls = map snd (filter (\<lambda>f. \<not> fst f) fcls)"

lemma kept_simps [simp]:
  "kept [] = []" "kept ((b, cl) # r) = (if b then kept r else cl # kept r)"
  "kept (xs @ ys) = kept xs @ kept ys"
  by (simp_all add: kept_def)

lemma kept_unflagged: "\<forall>f \<in> set xs. \<not> fst f \<Longrightarrow> kept xs = map snd xs"
  by (simp add: kept_def)

lemma length_kept: "length (encs (kept r)) \<le> length (encs (map snd r))"
  by (induction r) auto

lemma length_flagged_locs: "length (flagged_locs n r) + length (kept r) = length r"
  by (induction n r rule: flagged_locs.induct) auto

lemma flagged_locs_gt:
  "n + length (encs (map snd r)) < 2147483648 \<Longrightarrow> p \<in> set (flagged_locs n r) \<Longrightarrow> n < unat p"
proof (induction n r rule: flagged_locs.induct)
  case (2 n b cl r)
  have "unat (of_nat (n + 1) :: u32) = n + 1" using 2(3) by (intro unat_of_nat32) simp
  then show ?case using 2
    by (cases b) (auto simp: add.assoc simp del: of_nat_add of_nat_Suc)
qed simp

lemma flagged_locs_append:
  "flagged_locs n (xs @ ys) = flagged_locs n xs @ flagged_locs (n + length (encs (map snd xs))) ys"
  by (induction n xs rule: flagged_locs.induct) (simp_all add: add.assoc)

lemma flagged_locs_unflagged: "\<forall>f \<in> set xs. \<not> fst f \<Longrightarrow> flagged_locs n xs = []"
  by (induction n xs rule: flagged_locs.induct) auto

lemma remap_below:
  "n + length (encs (map snd r)) < 2147483648 \<Longrightarrow> unat k \<le> n \<Longrightarrow> remap n d r m k = m k"
proof (induction n d r m rule: remap.induct)
  case (2 n d b cl r m)
  have ne: "k \<noteq> of_nat (n + 1)"
  proof
    assume "k = of_nat (n + 1)"
    then have "unat k = n + 1" using 2(3) by (simp only:) (rule unat_of_nat32, simp)
    then show False using 2(4) by simp
  qed
  have up: "(m(of_nat (n + 1) \<mapsto> v)) k = m k" for v
    using ne by (rule fun_upd_other)
  have bd: "n + length (enc cl) + length (encs (map snd r)) < 2147483648"
    "unat k \<le> n + length (enc cl)" using 2(3,4) by simp_all
  show ?case
  proof (cases b)
    case True
    show ?thesis using 2(1) [OF True bd] unfolding up by (simp only: remap.simps True if_True)
  next
    case False
    show ?thesis using 2(2) [OF False bd] unfolding up by (simp only: remap.simps False if_False)
  qed
qed simp

lemma remap_at:
  "n + length (encs (map snd (pre @ (b, cl) # post))) < 2147483648 \<Longrightarrow>
   remap n d (pre @ (b, cl) # post) m (of_nat (n + length (encs (map snd pre)) + 1))
     = Some (if b then CNull else of_nat (d + length (encs (kept pre)) + 1))"
proof (induction pre arbitrary: n d m)
  case Nil
  have "unat (of_nat (n + 1) :: u32) = n + 1" using Nil by (intro unat_of_nat32) simp
  then have le: "unat (of_nat (n + 1) :: u32) \<le> n + length (enc cl)" by simp
  show ?case
    using Nil remap_below [OF _ le]
    by (cases b) (simp_all add: add.assoc del: of_nat_add of_nat_Suc length_enc)
next
  case (Cons f pre)
  obtain b' cl' where f: "f = (b', cl')" by (cases f)
  show ?case
    using Cons.IH [of "n + length (enc cl')"] Cons.prems
    by (simp add: f add.assoc del: of_nat_add of_nat_Suc length_enc)
qed

lemma enc_at_drop:
  assumes "drop n (take L D) = enc cl @ xs" and "L \<le> length D"
  shows "enc_at D n cl" and "n + length (enc cl) \<le> L" and "drop (n + length (enc cl)) (take L D) = xs"
proof -
  have "length (drop n (take L D)) = length (enc cl) + length xs" by (simp add: assms(1))
  then have l: "n + length (enc cl) \<le> L" using assms(2) by simp
  then show "n + length (enc cl) \<le> L" .
  have "take (length (enc cl)) (drop n (take L D)) = enc cl" unfolding assms(1) by simp
  moreover have "length (enc cl) \<le> L - n" using l by linarith
  ultimately have "take (length (enc cl)) (drop n D) = enc cl"
    unfolding drop_take take_take by (simp only: min_absorb1)
  then show "enc_at D n cl" using l assms(2) by (simp add: enc_at_def)
  have "drop (length (enc cl)) (drop n (take L D)) = xs" unfolding assms(1) by simp
  then show "drop (n + length (enc cl)) (take L D) = xs" by (simp only: drop_drop add.commute)
qed

lemma compact_head:
  assumes fl: "drop (i + 1) rm = flagged_locs n ((b, cl) # r)"
    and len: "n + length (enc cl) + length (encs (map snd r)) < 2147483648"
  shows "(of_nat (n + 1) = (if i + 1 < length rm then rm ! (i + 1) else CNull)) = b"
proof -
  have u: "unat (of_nat (n + 1) :: u32) = n + 1" using len by (intro unat_of_nat32) simp
  show ?thesis
  proof (cases "i + 1 < length rm")
    case more: True
    then have "drop (i + 1) rm \<noteq> []" and "rm ! (i + 1) = hd (drop (i + 1) rm)"
      by (simp_all add: hd_drop_conv_nth)
    then have ne: "flagged_locs n ((b, cl) # r) \<noteq> []"
      and hd: "rm ! (i + 1) = hd (flagged_locs n ((b, cl) # r))"
      unfolding fl by simp_all
    show ?thesis
    proof (cases b)
      case False
      have "hd (flagged_locs n ((b, cl) # r)) \<in> set (flagged_locs (n + length (enc cl)) r)"
        using ne False by (simp only: flagged_locs.simps if_False list.set_sel) simp
      then have "n + length (enc cl) < unat (rm ! (i + 1))"
        unfolding hd by (rule flagged_locs_gt [OF len])
      then have "of_nat (n + 1) \<noteq> rm ! (i + 1)" using u by auto
      then show ?thesis using more False by simp
    qed (use more hd in simp)
  next
    case False
    then have "flagged_locs n ((b, cl) # r) = []" using fl by simp
    then have "\<not> b" by (cases b) auto
    moreover have "of_nat (n + 1) \<noteq> CNull" using u by (metis CNull_def Suc_eq_plus1 nat.distinct(1) unsigned_0)
    ultimately show ?thesis using False by simp
  qed
qed

lemma compact_loop_spec:
  assumes "drop n (take L (cd_D c)) = encs (map snd rest)"
    and "take d (cd_D c) = encs K" and "length (encs K) = d" and "d \<le> n"
    and "n + length (encs (map snd rest)) = L" and "L \<le> length (cd_D c)"
    and "length (cd_D c) < 2147483648" and "\<forall>f \<in> set rest. clause_ok (snd f)"
    and "drop (i + 1) rm = flagged_locs n rest"
  shows "\<exists>D'. compact_loop rm (of_nat L) c m i (of_nat d) (of_nat (n + 1))
      = Some (c\<lparr>cd_D := D'\<rparr>, remap n d rest m, of_nat (length (encs (K @ kept rest))))
    \<and> length D' = length (cd_D c)
    \<and> take (length (encs (K @ kept rest))) D' = encs (K @ kept rest)"
  using assms
proof (induction rest arbitrary: c n d m i K)
  case Nil
  have "\<not> (of_nat (n + 1) :: u32) < of_nat L"
    using Nil by (simp add: word_less_nat_alt del: of_nat_add of_nat_Suc)
  then show ?case
    using Nil by (intro exI [of _ "cd_D c"]) (subst compact_loop.simps, simp)
next
  case (Cons f rest)
  obtain b cl where f: "f = (b, cl)" by (cases f)
  note P = Cons.prems
  have dr: "drop n (take L (cd_D c)) = enc cl @ encs (map snd rest)" using P(1) by (simp add: f)
  note at = enc_at_drop [OF dr P(6)]
  define l where "l = length (enc cl)"
  have nL: "n + l + length (encs (map snd rest)) = L" using P(5) by (simp add: f l_def)
  have fin: "(of_nat (n + 1) :: u32) < of_nat L"
    using P(6,7) nL by (simp add: word_less_nat_alt l_def del: of_nat_add of_nat_Suc)
  have nx: "CDat_Next (of_nat (n + 1)) c = Some (of_nat (n + l + 1))"
    using Next_enc_at [OF at(1) P(7)] P(8) by (simp add: f l_def)
  have hd: "(of_nat (n + 1) = (if i + 1 < length rm then rm ! (i + 1) else CNull)) = b"
  proof (rule compact_head)
    show "drop (i + 1) rm = flagged_locs n ((b, cl) # rest)" using P(9) by (simp only: f)
    show "n + length (enc cl) + length (encs (map snd rest)) < 2147483648"
      using nL P(6,7) unfolding l_def by linarith
  qed
  show ?case
  proof (cases b)
    case True
    then have fT: "f = (True, cl)" by (simp add: f)
    have step: "compact_loop rm (of_nat L) c m i (of_nat d) (of_nat (n + 1)) =
      compact_loop rm (of_nat L) c (m(of_nat (n + 1) \<mapsto> CNull)) (i + 1) (of_nat d) (of_nat (n + l + 1))"
      by (subst compact_loop.simps) (simp only: fin hd True nx if_True Let_def Option.bind.bind_lunit)
    have fl: "drop (i + 1 + 1) rm = flagged_locs (n + l) rest"
      using P(9) True by (simp add: f l_def drop_Suc drop_tl flip: tl_drop)
    have "\<exists>D'. compact_loop rm (of_nat L) c (m(of_nat (n + 1) \<mapsto> CNull)) (i + 1) (of_nat d)
        (of_nat (n + l + 1))
      = Some (c\<lparr>cd_D := D'\<rparr>, remap (n + l) d rest (m(of_nat (n + 1) \<mapsto> CNull)),
          of_nat (length (encs (K @ kept rest))))
      \<and> length D' = length (cd_D c)
      \<and> take (length (encs (K @ kept rest))) D' = encs (K @ kept rest)"
      using P(2,3,4,6,7,8) nL fl at(3) by (intro Cons.IH) (simp_all add: l_def)
    then show ?thesis
      unfolding step fT kept_simps remap.simps if_True l_def [symmetric] .
  next
    case False
    then have fF: "f = (False, cl)" by (simp add: f)
    define D1 where "D1 = take d (cd_D c) @ enc cl @ drop (d + l) (cd_D c)"
    have small: "unat (of_nat (n + 1) - 1 :: u32) = n" "unat (of_nat (n + l + 1) - 1 :: u32) = n + l"
      "unat (of_nat d :: u32) = d" "unat (of_nat (d + l) :: u32) = d + l"
    proof -
      have b: "n < 2147483648" "n + l < 2147483648" "d < 2147483648" "d + l < 2147483648"
        using P(4,6,7) at(2) unfolding l_def [symmetric] by linarith+
      have e: "of_nat (n + 1) - 1 = (of_nat n :: u32)" "of_nat (n + l + 1) - 1 = (of_nat (n + l) :: u32)"
        by simp_all
      show "unat (of_nat (n + 1) - 1 :: u32) = n" "unat (of_nat (n + l + 1) - 1 :: u32) = n + l"
        "unat (of_nat d :: u32) = d" "unat (of_nat (d + l) :: u32) = d + l"
        unfolding e using b by (simp_all del: of_nat_add)
    qed
    have w: "of_nat d + (of_nat (n + l + 1) - of_nat (n + 1)) = (of_nat (d + l) :: u32)"
      "of_nat d + 1 = (of_nat (d + 1) :: u32)"
      by simp_all
    have src: "aslice (cd_D c) n (n + l) = Some (enc cl)"
      using at(1) by (simp add: aslice_def enc_at_def l_def)
    have cp: "acopy (cd_D c) d (d + l) (enc cl) = Some D1"
      using P(4,6) at(2) by (simp add: acopy_def D1_def l_def)
    have step: "compact_loop rm (of_nat L) c m i (of_nat d) (of_nat (n + 1)) =
      compact_loop rm (of_nat L) (c\<lparr>cd_D := D1\<rparr>) (m(of_nat (n + 1) \<mapsto> of_nat (d + 1))) i
        (of_nat (d + l)) (of_nat (n + l + 1))"
      by (subst compact_loop.simps)
         (simp only: fin hd False nx if_True if_False Let_def Option.bind.bind_lunit small w src cp)
    have len1: "length D1 = length (cd_D c)" using P(4,6) at(2) by (simp add: D1_def l_def)
    have dn: "d \<le> length (cd_D c)" using P(4,6) at(2) by simp
    have t1: "take (d + l) D1 = encs (K @ [cl])"
      using P(2,3) dn by (simp add: D1_def l_def)
    have "drop (n + l) D1 = drop (n + l) (cd_D c)"
      using P(4) dn by (simp add: D1_def l_def)
    then have d1: "drop (n + l) (take L D1) = encs (map snd rest)"
      using at(3) by (simp add: drop_take l_def del: length_enc)
    have fl: "drop (i + 1) rm = flagged_locs (n + l) rest"
      using P(9) False by (simp add: f l_def)
    have "length (encs (K @ [cl])) = d + l" using P(3) by (simp add: l_def)
    then have "\<exists>D'. compact_loop rm (of_nat L) (c\<lparr>cd_D := D1\<rparr>) (m(of_nat (n + 1) \<mapsto> of_nat (d + 1))) i
        (of_nat (d + l)) (of_nat (n + l + 1))
      = Some (c\<lparr>cd_D := D1\<rparr>\<lparr>cd_D := D'\<rparr>, remap (n + l) (d + l) rest (m(of_nat (n + 1) \<mapsto> of_nat (d + 1))),
          of_nat (length (encs ((K @ [cl]) @ kept rest))))
      \<and> length D' = length (cd_D (c\<lparr>cd_D := D1\<rparr>))
      \<and> take (length (encs ((K @ [cl]) @ kept rest))) D' = encs ((K @ [cl]) @ kept rest)"
      using P(4,6,7,8) nL d1 t1 fl len1 by (intro Cons.IH) simp_all
    then show ?thesis
      unfolding step fF kept_simps remap.simps if_False l_def [symmetric] by (simp add: len1)
  qed
qed

text \<open>
  (C21) Compact: given the locations of the clauses to remove in ascending order, the store keeps
  exactly the other clauses, in order and with their headers; the map sends every removed
  location to the null reference and every surviving clause that moved to its new location; a
  clause it does not mention has not moved; and the returned count is the freed space.
\<close>

theorem Compact_correct:
  assumes rep: "cdat_rep (map snd fcls) c"
  shows "returns (CDat_Compact (flagged_locs 0 fcls) c) (\<lambda>(m, freed, c').
      cdat_rep (kept fcls) c' \<and> freed = int (cd_Len c) - int (cd_Len c')
      \<and> (\<forall>pre b cl post. fcls = pre @ (b, cl) # post \<longrightarrow>
           (let p = of_nat (loc_at (map snd pre)); q = of_nat (loc_at (kept pre))
            in if b then m p = Some CNull else m p = Some q \<or> m p = None \<and> p = q)))"
proof (cases "\<exists>f \<in> set fcls. fst f")
  case False
  then have "flagged_locs 0 fcls = []" "kept fcls = map snd fcls"
    by (simp_all add: flagged_locs_unflagged kept_unflagged)
  moreover have "kept pre = map snd pre" "\<not> b" if "fcls = pre @ (b, cl) # post" for pre b cl post
    using False that by (auto intro!: kept_unflagged)
  ultimately show ?thesis using rep by (simp add: CDat_Compact_def Let_def) metis
next
  case True
  then obtain pre f post where fcls: "fcls = pre @ f # post" "fst f" "\<forall>g \<in> set pre. \<not> fst g"
    using split_list_first_prop [OF True] by blast
  obtain cl where f: "f = (True, cl)" using fcls(2) by (cases f) auto
  note repD = cdat_repD [OF rep]
  define d where "d = length (encs (map snd pre))"
  define n where "n = d + length (enc cl)"
  define L where "L = cd_Len c"
  define rm where "rm = flagged_locs 0 fcls"
  have rm: "rm = of_nat (d + 1) # flagged_locs n post"
    using fcls(3) by (simp add: rm_def fcls(1) f flagged_locs_append flagged_locs_unflagged d_def n_def)
  have rep': "cdat_rep (map snd pre @ cl # map snd post) c" using rep by (simp add: fcls(1) f)
  have nx: "CDat_Next (of_nat (d + 1)) c = Some (of_nat (n + 1))"
    using CDat_Next_rep [OF rep'] by (simp add: loc_at_def d_def n_def)
  have L: "n + length (encs (map snd post)) = L"
    using repD(1) by (simp add: L_def fcls(1) f d_def n_def)
  have tk: "take L (cd_D c) = encs (map snd pre) @ enc cl @ encs (map snd post)"
    using repD(2) by (simp add: L_def fcls(1) f)
  have LD: "L \<le> length (cd_D c)" using repD(3) by (simp add: L_def)
  have dn: "drop n (take L (cd_D c)) = encs (map snd post)"
    unfolding tk by (simp add: n_def d_def)
  have td: "take d (cd_D c) = encs (map snd pre)"
  proof -
    have "take d (take L (cd_D c)) = encs (map snd pre)" unfolding tk by (simp add: d_def)
    moreover have "d \<le> L" using L by (simp add: n_def)
    ultimately show ?thesis by (simp add: min_absorb1)
  qed
  let ?m = "Map.empty(of_nat (d + 1) \<mapsto> CNull)"
  obtain D' where loop: "compact_loop rm (of_nat L) c ?m 0 (of_nat d) (of_nat (n + 1))
      = Some (c\<lparr>cd_D := D'\<rparr>, remap n d post ?m, of_nat (length (encs (map snd pre @ kept post))))"
    and D': "length D' = length (cd_D c)"
      "take (length (encs (map snd pre @ kept post))) D' = encs (map snd pre @ kept post)"
  proof -
    have "drop (0 + 1) rm = flagged_locs n post" by (simp add: rm)
    moreover have "\<forall>f \<in> set post. clause_ok (snd f)" using repD(6) by (auto simp: fcls(1))
    moreover have "length (encs (map snd pre)) = d" "d \<le> n" by (simp_all add: d_def n_def)
    ultimately show ?thesis
      using compact_loop_spec [OF dn td _ _ L LD repD(4)] that by blast
  qed
  define d' where "d' = length (encs (kept fcls))"
  have kf: "kept fcls = map snd pre @ kept post"
    using fcls(3) by (simp add: fcls(1) f kept_unflagged)
  have d'L: "d' \<le> L" using L length_kept [of post] by (simp add: d'_def kf n_def d_def)
  have small: "unat (of_nat (d + 1) - 1 :: u32) = d" "unat (of_nat d' :: u32) = d'"
    "of_nat (d + 1) - 1 = (of_nat d :: u32)"
    using L LD repD(4) d'L by (simp_all add: n_def)
  have run: "CDat_Compact rm c = Some (remap n d post ?m, int L - int d',
      c\<lparr>cd_D := D', cd_Len := d', cd_ClsLen := cd_ClsLen c - int (length rm)\<rparr>)"
  proof -
    have "rm \<noteq> []" "rm ! 0 = of_nat (d + 1)" by (simp_all only: rm) simp_all
    then show ?thesis
      unfolding CDat_Compact_def Let_def kf [symmetric] d'_def [symmetric]
      using loop [unfolded kf [symmetric] d'_def [symmetric]]
      by (simp only: if_False nx small Option.bind.bind_lunit L_def [symmetric] prod.case) simp
  qed
  have loc: "let p = of_nat (loc_at (map snd pre')); q = of_nat (loc_at (kept pre'))
     in if b then remap n d post ?m p = Some CNull
        else remap n d post ?m p = Some q \<or> remap n d post ?m p = None \<and> p = q"
    if split: "fcls = pre' @ (b, cl') # post'" for pre' b cl' post'
  proof -
    have bound: "n + length (encs (map snd post)) < 2147483648" using L LD repD(4) by linarith
    have un: "unat (of_nat k :: u32) = k" if "k \<le> n" for k
      using that bound by (intro unat_of_nat32) simp
    consider (before) xs where "pre = pre' @ (b, cl') # xs" | (here) "pre' = pre" "f = (b, cl')"
      | (after) xs where "pre' = pre @ f # xs" "post = xs @ (b, cl') # post'"
      using split unfolding fcls(1)
      by (auto simp: append_eq_append_conv2 Cons_eq_append_conv append_eq_Cons_conv)
    then show ?thesis
    proof cases
      case before
      then have b: "\<not> b" and k: "kept pre' = map snd pre'"
        using fcls(3) by (auto intro!: kept_unflagged)
      have "loc_at (map snd pre') \<le> d" by (simp add: d_def before loc_at_def)
      then have le: "loc_at (map snd pre') \<le> n" "loc_at (map snd pre') \<noteq> d + 1" "d + 1 \<le> n"
        by (simp_all add: n_def)
      note le(1,2) un [OF le(1)] un [OF le(3)]
      then have "remap n d post ?m (of_nat (loc_at (map snd pre'))) = None"
        by (subst remap_below [OF bound]) (auto simp del: of_nat_add of_nat_Suc)
      then show ?thesis using b k by (simp add: Let_def)
    next
      case here
      have u: "unat (of_nat (d + 1) :: u32) = d + 1" by (rule un) (simp add: n_def)
      have "remap n d post ?m (of_nat (d + 1)) = Some CNull"
        by (subst remap_below [OF bound]) (use u in \<open>simp_all add: n_def\<close>)
      then show ?thesis using here f by (simp add: Let_def loc_at_def d_def)
    next
      case after
      have "remap n d post ?m (of_nat (n + length (encs (map snd xs)) + 1))
        = Some (if b then CNull else of_nat (d + length (encs (kept xs)) + 1))"
        unfolding after(2) by (rule remap_at) (use bound after(2) in simp)
      moreover have "loc_at (map snd pre') = n + length (encs (map snd xs)) + 1"
        by (simp add: after(1) f loc_at_def n_def d_def)
      moreover have "loc_at (kept pre') = d + length (encs (kept xs)) + 1"
        using fcls(3) by (simp add: after(1) f loc_at_def d_def kept_unflagged)
      ultimately show ?thesis by (simp add: Let_def del: of_nat_add of_nat_Suc)
    qed
  qed
  have "length rm + length (kept fcls) = length fcls" by (simp add: rm_def length_flagged_locs)
  then have "cdat_rep (kept fcls)
      (c\<lparr>cd_D := D', cd_Len := d', cd_ClsLen := cd_ClsLen c - int (length rm)\<rparr>)"
  proof -
    assume n: "length rm + length (kept fcls) = length fcls"
    have "\<forall>cl \<in> set (kept fcls). clause_ok cl" using repD(6) by (auto simp: kept_def)
    moreover have "take d' D' = encs (kept fcls)" "d' \<le> length D'" "cd_Cap c = length D'"
      "length D' < 2 ^ 31" "0 < cd_Cap c"
      using D' d'L LD repD(4,5,8) by (simp_all add: kf d'_def)
    moreover have "cd_ClsLen c - int (length rm) = int (length (kept fcls))"
      using n repD(7) by simp
    ultimately show ?thesis by (simp add: cdat_rep_def)
  qed
  then show ?thesis
    unfolding rm_def [symmetric] run returns_Some prod.case using loc by (simp only: L_def) simp
qed

section \<open>Properties of the store\<close>

definition two_clauses :: "fclause list" where
  "two_clauses = [(True, MakeChd True 2 2, [4, 7]), (False, MakeChd False 2 3, [5, 9, 12])]"

definition two_store :: cdat where
  "two_store = \<lparr>cd_D = encs (map snd two_clauses) @ replicate 7 0, cd_Len = 9, cd_Cap = 16,
     cd_ClsLen = 2, cd_bumpInc = 1\<rparr>"

lemma two_store_rep: "cdat_rep (map snd two_clauses) two_store"
  by (simp add: cdat_rep_def two_store_def two_clauses_def clause_ok_def Size_MakeChd LitNull_def)

theorem Compact_correct_witness:
  "returns (CDat_Compact [1] two_store) (\<lambda>(m, freed, c'). freed = 4 \<and> m 1 = Some CNull \<and> m 5 = Some 1)"
proof -
  have fl: "flagged_locs 0 two_clauses = [1]" by (simp add: two_clauses_def)
  have sp: "two_clauses = [] @ (True, MakeChd True 2 2, [4, 7]) # [(False, MakeChd False 2 3, [5, 9, 12])]"
    "two_clauses = [(True, MakeChd True 2 2, [4, 7])] @ (False, MakeChd False 2 3, [5, 9, 12]) # []"
    by (simp_all add: two_clauses_def)
  have loc: "loc_at (map snd []) = 1" "loc_at (map snd [(True, MakeChd True 2 2, [4, 7 :: lit])]) = 5"
    "loc_at (kept [(True, MakeChd True 2 2, [4, 7 :: lit])]) = 1"
    by (simp_all add: loc_at_def)
  have len: "length (encs (kept two_clauses)) = 5" "cd_Len two_store = 9"
    by (simp_all add: two_clauses_def two_store_def)
  obtain m freed c' where run: "CDat_Compact [1] two_store = Some (m, freed, c')"
    and rep: "cdat_rep (kept two_clauses) c'" and fr: "freed = int (cd_Len two_store) - int (cd_Len c')"
    and mp: "\<forall>pre b cl post. two_clauses = pre @ (b, cl) # post \<longrightarrow>
           (let p = of_nat (loc_at (map snd pre)); q = of_nat (loc_at (kept pre))
            in if b then m p = Some CNull else m p = Some q \<or> m p = None \<and> p = q)"
    using Compact_correct [OF two_store_rep] unfolding fl by (auto simp: returns_def)
  have "m 1 = Some CNull" using mp [rule_format, OF sp(1)] loc(1) by (simp add: Let_def)
  moreover have "m 5 = Some 1" using mp [rule_format, OF sp(2)] loc(2,3) by (simp add: Let_def)
  ultimately show ?thesis using run fr len cdat_repD(1) [OF rep] by simp
qed

text \<open>
  (C20) The store represents the clauses added to it: adding a clause appends it and returns the
  location from which Load reads its literals back, Chd its header, and Next the location of the
  clause after it, whatever was added later and whether or not the slice had to grow.  Bumping a
  clause changes the heat of that clause only.
\<close>

theorem CDat_correct:
  assumes rep: "cdat_rep cls c" and room: "2 * (cd_Len c + length ms + 2) < 2 ^ 31"
    and ok: "clause_ok (h, ms)"
  shows "returns (AddLits h ms c) (\<lambda>(p, c1). p = of_nat (loc_at cls) \<and> cdat_rep (cls @ [(h, ms)]) c1)
    \<and> (\<forall>c2 cls'. cdat_rep (cls @ (h, ms) # cls') c2 \<longrightarrow>
         CDat_Load (of_nat (loc_at cls)) ns c2 = Some (ns @ ms)
         \<and> CDat_Chd (of_nat (loc_at cls)) c2 = Some h
         \<and> CDat_Next (of_nat (loc_at cls)) c2 = Some (of_nat (loc_at (cls @ [(h, ms)])))
         \<and> returns (CDat_Bump (of_nat (loc_at cls)) c2)
             (\<lambda>(d, c3). cdat_rep (cls @ (fst (chd_Bump h (cd_bumpInc c2)), ms) # cls') c3))"
proof -
  have "returns (AddLits h ms c) (\<lambda>(p, c1). p = of_nat (loc_at cls) \<and> cdat_rep (cls @ [(h, ms)]) c1)"
    using AddLits_spec [OF rep _ ok] room
    by (auto elim!: returns_mono) (metis of_nat_unat_id)
  moreover have "returns (CDat_Bump (of_nat (loc_at cls)) c2)
             (\<lambda>(d, c3). cdat_rep (cls @ (fst (chd_Bump h (cd_bumpInc c2)), ms) # cls') c3)"
    if "cdat_rep (cls @ (h, ms) # cls') c2" for c2 cls'
    using CDat_Bump_rep [OF that] by (rule returns_mono) auto
  ultimately show ?thesis
    by (simp add: CDat_Load_rep CDat_Chd_rep CDat_Next_rep)
qed

theorem CDat_correct_witness:
  "returns (AddLits (MakeChd False 2 1) [6] two_store) (\<lambda>(p, c1). p = 10)"
proof -
  have "loc_at (map snd two_clauses) = 10" by (simp add: loc_at_def two_clauses_def)
  moreover have "cd_Len two_store = 9" by (simp add: two_store_def)
  moreover have "clause_ok (MakeChd False 2 1, [6])"
    by (simp add: clause_ok_def Size_MakeChd LitNull_def)
  ultimately have "returns (AddLits (MakeChd False 2 1) [6] two_store)
      (\<lambda>(p, c1). p = 10 \<and> cdat_rep (map snd two_clauses @ [(MakeChd False 2 1, [6])]) c1)"
    using CDat_correct [OF two_store_rep, of "[6]" "MakeChd False 2 1"] by simp
  then show ?thesis by (rule returns_mono) auto
qed

lemma forall_loop_rep:
  assumes "cdat_rep (pre @ rest) c"
  shows "forall_loop c k (of_nat (loc_at pre)) =
    Some (map (\<lambda>i. (k + i, of_nat (loc_at (pre @ take i rest)), snd (rest ! i))) [0..<length rest])"
  using assms
proof (induction rest arbitrary: pre k)
  case Nil
  note repD = cdat_repD [OF Nil]
  have "unat (of_nat (loc_at pre) :: u32) = loc_at pre" "unat (of_nat (cd_Len c) :: u32) = cd_Len c"
    using repD(1,3,4) by (simp_all add: loc_at_def del: of_nat_add of_nat_Suc)
  then have "\<not> (of_nat (loc_at pre) :: u32) < of_nat (cd_Len c)"
    using repD(1) by (simp add: word_less_nat_alt loc_at_def del: of_nat_add of_nat_Suc)
  then show ?case by (subst forall_loop.simps) simp
next
  case (Cons cl rest)
  note repD = cdat_repD [OF Cons.prems]
  have b: "loc_at pre < cd_Len c" using loc_at_bound [OF Cons.prems] by simp
  have "unat (of_nat (loc_at pre) :: u32) = loc_at pre" "unat (of_nat (cd_Len c) :: u32) = cd_Len c"
  proof -
    have "cd_Len c < 2147483648" using repD(3,4) by linarith
    then show "unat (of_nat (loc_at pre) :: u32) = loc_at pre" "unat (of_nat (cd_Len c) :: u32) = cd_Len c"
      using b by (intro unat_of_nat32, simp)+
  qed
  then have lt: "(of_nat (loc_at pre) :: u32) < of_nat (cd_Len c)"
    using b by (simp add: word_less_nat_alt)
  have ih: "forall_loop c (k + 1) (of_nat (loc_at (pre @ [cl]))) =
    Some (map (\<lambda>i. (k + 1 + i, of_nat (loc_at ((pre @ [cl]) @ take i rest)), snd (rest ! i))) [0..<length rest])"
    using Cons.prems by (intro Cons.IH) simp
  have up: "[0..<length (cl # rest)] = 0 # map Suc [0..<length rest]"
    by (simp only: length_Cons upt_conv_Cons zero_less_Suc map_Suc_upt)
  show ?case
    unfolding up
    by (subst forall_loop.simps)
       (simp add: lt CDat_Load_rep [OF Cons.prems] CDat_Next_rep [OF Cons.prems] ih [simplified] comp_def)
qed

text \<open>
  Forall visits every clause of a non-empty store exactly once, in order, with its index, its
  location and its literals; on the empty store it panics, because the capacity of its scratch
  slice is computed by a division by \<open>Len\<close>.
\<close>

theorem Forall_visits:
  assumes rep: "cdat_rep cls c"
  shows "CDat_Forall c = (if cls = [] then None
     else Some (map (\<lambda>i. (i, of_nat (loc_at (take i cls)), snd (cls ! i))) [0..<length cls]))"
proof (cases "cls = []")
  case True
  then have "cd_Len c = 0" using cdat_repD(1) [OF rep] by simp
  then show ?thesis using True by (simp add: CDat_Forall_def)
next
  case False
  then have "cd_Len c \<noteq> 0" using cdat_repD(1) [OF rep] by (cases cls) auto
  then show ?thesis
    using False forall_loop_rep [of "[]" cls c 0] rep by (simp add: CDat_Forall_def loc_at_def)
qed

theorem Forall_visits_witness:
  "CDat_Forall two_store = Some [(0, 1, [4, 7]), (1, 5, [5, 9, 12])]"
  using Forall_visits [OF two_store_rep] by (simp add: two_clauses_def loc_at_def)

text \<open>
  A copy of a store has the same data but a bump increment of zero: bumping a clause of the
  copy leaves its header unchanged.
\<close>

theorem Copy_loses_bumpInc:
  "cd_D (CDat_Copy c) = cd_D c \<and> cd_Len (CDat_Copy c) = cd_Len c
    \<and> cd_ClsLen (CDat_Copy c) = cd_ClsLen c \<and> chd_Bump h (cd_bumpInc (CDat_Copy c)) = (h, chd_Heat h = 4194303)"
proof -
  have "with_heat h (chd_Heat h) = h"
    by (rule chd_eqI) (simp_all add: heat_small Heat_bound)
  then show ?thesis
    by (simp add: CDat_Copy_def CDat_CopyTo_def chd_Bump_def Let_def heat_top with_heat_def)
qed

end
