(* ===== verification/SolverVars.thy ===== *)
theory SolverVars
  imports ClauseData
begin

text \<open>
  The solver's per-variable data (\<^verbatim>\<open>internal/xo/vars.go\<close>): the value of every literal, the
  reason clause and decision level of every variable and the watch list of every literal.

  \<open>vars_ok\<close> ties the lengths of the slices to \<open>Top\<close> and the two values of each variable to one
  another; \<open>asg_lit\<close> reads a partial assignment off the value slice.
\<close>

record vars =
  vs_Max :: var
  vs_Top :: var
  vs_Vals :: "int list"
  vs_Reasons :: "cloc list"
  vs_Levels :: "int list"
  vs_Watches :: "watch list list"

definition NewVars_xo :: "int \<Rightarrow> vars" where
  "NewVars_xo capHint =
     (let capHint = (if capHint < 3 then 3 else capHint);
          top = nat (capHint + 1)
      in \<lparr>vs_Max = 0, vs_Top = of_nat top, vs_Vals = replicate (2 * top) 0,
          vs_Reasons = replicate top 0, vs_Levels = replicate top 0,
          vs_Watches = replicate (2 * top) []\<rparr>)"

definition vars_Set :: "lit \<Rightarrow> vars \<Rightarrow> vars option" where
  "vars_Set m v =
     do { vals \<leftarrow> aset (vs_Vals v) (unat m) 1;
          vals \<leftarrow> aset vals (unat (lit_Not m)) (-1);
          Some (v\<lparr>vs_Vals := vals\<rparr>) }"

definition vars_Sign :: "lit \<Rightarrow> vars \<Rightarrow> int option" where
  "vars_Sign m v = aget (vs_Vals v) (unat m)"

definition vars_growToVar :: "var \<Rightarrow> vars \<Rightarrow> vars" where
  "vars_growToVar u v =
     (let w = u + 1
      in v\<lparr>vs_Vals := grow_list (unat (2 * w)) 0 (vs_Vals v),
           vs_Reasons := grow_list (unat w) 0 (vs_Reasons v),
           vs_Levels := grow_list (unat (2 * w)) 0 (vs_Levels v),
           vs_Watches := grow_list (unat (w * 2)) [] (vs_Watches v),
           vs_Top := u\<rparr>)"

definition vars_Copy :: "vars \<Rightarrow> vars" where
  "vars_Copy v =
     \<lparr>vs_Max = vs_Max v, vs_Top = vs_Top v, vs_Vals = vs_Vals v, vs_Reasons = vs_Reasons v,
      vs_Levels = vs_Levels v, vs_Watches = vs_Watches v\<rparr>"

section \<open>Well-formedness\<close>

definition in_range :: "vars \<Rightarrow> lit \<Rightarrow> bool" where
  "in_range v m \<longleftrightarrow> 2 \<le> unat m \<and> unat (lit_Var m) < unat (vs_Top v)"

definition vars_ok :: "vars \<Rightarrow> bool" where
  "vars_ok v \<longleftrightarrow>
     vs_Max v < vs_Top v \<and> unat (vs_Top v) < 2 ^ 30
     \<and> 2 * unat (vs_Top v) \<le> length (vs_Vals v) \<and> length (vs_Watches v) = length (vs_Vals v)
     \<and> even (length (vs_Vals v)) \<and> length (vs_Reasons v) * 2 = length (vs_Vals v)
     \<and> length (vs_Reasons v) \<le> length (vs_Levels v) \<and> length (vs_Vals v) \<le> 2 * (unat (vs_Top v) + 1)
     \<and> (\<forall>m. unat m < length (vs_Vals v) \<longrightarrow>
          vs_Vals v ! unat m \<in> {-1, 0, 1}
          \<and> vs_Vals v ! unat (lit_Not m) = - (vs_Vals v ! unat m))"

definition val_of :: "vars \<Rightarrow> lit \<Rightarrow> int" where
  "val_of v m = vs_Vals v ! unat m"

lemma lit_range_Not: "even n \<Longrightarrow> unat m < n \<Longrightarrow> unat (lit_Not m) < n"
  by (auto simp: unat_lit_Not lit_IsPos_even elim!: evenE oddE)

lemma lit_var_range: "even n \<Longrightarrow> unat m < n \<longleftrightarrow> unat (lit_Var m) < n div 2"
  by (auto simp: unat_lit_Var elim!: evenE)

lemma vars_okD:
  assumes "vars_ok v"
  shows "vs_Max v < vs_Top v" and "unat (vs_Top v) < 1073741824"
    and "2 * unat (vs_Top v) \<le> length (vs_Vals v)" and "length (vs_Watches v) = length (vs_Vals v)"
    and "even (length (vs_Vals v))" and "length (vs_Reasons v) * 2 = length (vs_Vals v)"
    and "length (vs_Reasons v) \<le> length (vs_Levels v)"
    and "length (vs_Vals v) \<le> 2 * (unat (vs_Top v) + 1)"
  using assms by (auto simp: vars_ok_def)

lemma vars_ok_vals:
  assumes "vars_ok v" and "unat m < length (vs_Vals v)"
  shows "val_of v m \<in> {-1, 0, 1}" and "val_of v (lit_Not m) = - val_of v m"
  using assms by (auto simp: vars_ok_def val_of_def)

lemma in_range_vals: "vars_ok v \<Longrightarrow> in_range v m \<Longrightarrow> unat m < length (vs_Vals v)"
  by (frule vars_okD(3)) (auto simp: in_range_def unat_lit_Var)

lemma in_range_reasons: "vars_ok v \<Longrightarrow> in_range v m \<Longrightarrow> unat (lit_Var m) < length (vs_Reasons v)"
  by (frule vars_okD(3), frule vars_okD(6)) (auto simp: in_range_def)

lemma in_range_Not [simp]: "in_range v (lit_Not m) \<longleftrightarrow> in_range v m"
proof -
  have "2 \<le> unat m \<longleftrightarrow> lit_Var m \<noteq> 0" for m
    unfolding word_eq_iff_unat unat_lit_Var unsigned_0 by presburger
  then show ?thesis by (simp add: in_range_def)
qed

section \<open>Construction and growth\<close>

lemma NewVars_xo_ok: "capHint < 2 ^ 29 \<Longrightarrow> vars_ok (NewVars_xo capHint)"
proof -
  assume hint: "capHint < 2 ^ 29"
  define t where "t = nat (max 3 capHint + 1)"
  have t: "0 < t" "t < 2 ^ 30" using hint by (auto simp: t_def)
  have v: "NewVars_xo capHint = \<lparr>vs_Max = 0, vs_Top = of_nat t, vs_Vals = replicate (2 * t) 0,
      vs_Reasons = replicate t 0, vs_Levels = replicate t 0, vs_Watches = replicate (2 * t) []\<rparr>"
    by (auto simp: NewVars_xo_def Let_def t_def max_def)
  have "unat (of_nat t :: u32) = t" using t by simp
  moreover have "(0 :: u32) < of_nat t" using t by (simp add: word_less_nat_alt)
  moreover have "unat (lit_Not m) < 2 * t" if "unat m < 2 * t" for m
    using that by (intro lit_range_Not) simp
  ultimately show ?thesis using t by (simp add: v vars_ok_def)
qed

text \<open>
  Growing the variable data to a new top keeps it well formed: every value, reason and watch
  list is preserved, new variables are unassigned and unwatched, and every literal below the new
  top is in range.
\<close>

theorem vars_growToVar_ok:
  assumes ok: "vars_ok v" and u: "vs_Top v < u" "unat u < 2 ^ 29"
  shows "vars_ok (vars_growToVar u v)
    \<and> (\<forall>i. i < length (vs_Vals v) \<longrightarrow> vs_Vals (vars_growToVar u v) ! i = vs_Vals v ! i
           \<and> vs_Watches (vars_growToVar u v) ! i = vs_Watches v ! i)
    \<and> (\<forall>i. i < length (vs_Reasons v) \<longrightarrow> vs_Reasons (vars_growToVar u v) ! i = vs_Reasons v ! i)
    \<and> (\<forall>i. length (vs_Vals v) \<le> i \<and> i < length (vs_Vals (vars_growToVar u v)) \<longrightarrow>
           vs_Vals (vars_growToVar u v) ! i = 0 \<and> vs_Watches (vars_growToVar u v) ! i = [])"
proof -
  note okD = vars_okD [OF ok]
  define n where "n = unat u + 1"
  have un: "unat (u + 1) = n" "unat (2 * (u + 1)) = 2 * n" "unat ((u + 1) * 2) = 2 * n"
    using u(2) by (simp_all add: n_def unat_word_ariths)
  have top: "unat (vs_Top v) < unat u" using u(1) by (simp add: word_less_nat_alt)
  define v' where "v' = vars_growToVar u v"
  have v': "vs_Vals v' = grow_list (2 * n) 0 (vs_Vals v)" "vs_Reasons v' = grow_list n 0 (vs_Reasons v)"
    "vs_Levels v' = grow_list (2 * n) 0 (vs_Levels v)" "vs_Watches v' = grow_list (2 * n) [] (vs_Watches v)"
    "vs_Top v' = u" "vs_Max v' = vs_Max v"
    unfolding v'_def vars_growToVar_def Let_def un by simp_all
  have le: "length (vs_Vals v) \<le> 2 * n" "length (vs_Reasons v) \<le> n"
    using okD(6,8) top by (auto simp: n_def)
  have vals: "vs_Vals v' ! unat m \<in> {-1, 0, 1} \<and> vs_Vals v' ! unat (lit_Not m) = - (vs_Vals v' ! unat m)"
    if m: "unat m < 2 * n" for m
  proof -
    have "unat (lit_Not m) < 2 * n" using m by (intro lit_range_Not) simp_all
    moreover have "unat (lit_Not m) < length (vs_Vals v) \<longleftrightarrow> unat m < length (vs_Vals v)"
      using okD(5) by (metis lit_Not_Not lit_range_Not)
    ultimately show ?thesis
      using m vars_ok_vals [OF ok, of m] by (auto simp: v'(1) nth_grow_list val_of_def)
  qed
  have "vs_Max v < u" using okD(1) u(1) by simp
  then have "vars_ok v'"
    using u(2) vals by (simp add: vars_ok_def v' n_def)
  then show ?thesis
    unfolding v'_def [symmetric] using le okD(4) by (auto simp: v' nth_grow_list)
qed

theorem vars_growToVar_ok_witness: "vars_ok (vars_growToVar 8 (NewVars_xo 3))"
proof -
  have "vs_Top (NewVars_xo 3) < 8" by (simp add: NewVars_xo_def)
  then show ?thesis using vars_growToVar_ok [OF NewVars_xo_ok, of 3 8] by simp
qed

section \<open>Changing a value\<close>

text \<open>Assigning a literal, or taking the assignment back, changes the pair of its two values.\<close>

definition put_val :: "lit \<Rightarrow> int \<Rightarrow> int list \<Rightarrow> int list" where
  "put_val m x vals = vals[unat m := x, unat (lit_Not m) := - x]"

lemma length_put_val [simp]: "length (put_val m x vals) = length vals"
  by (simp add: put_val_def)

lemma nth_put_val:
  assumes "even (length vals)" and "unat m < length vals"
  shows "put_val m x vals ! unat n =
    (if n = m then x else if n = lit_Not m then - x else vals ! unat n)"
proof -
  have "unat (lit_Not m) < length vals" using assms by (rule lit_range_Not)
  moreover have "unat n = unat m \<longleftrightarrow> n = m" "unat n = unat (lit_Not m) \<longleftrightarrow> n = lit_Not m"
    by (simp_all add: word_eq_iff_unat)
  moreover have "unat m \<noteq> unat (lit_Not m)" by (metis lit_Not_neq(1) word_eq_iff_unat)
  ultimately show ?thesis using assms(2) by (auto simp: put_val_def nth_list_update)
qed

lemma put_val_ok:
  assumes "vars_ok v" and "unat m < length (vs_Vals v)" and "x \<in> {-1, 0, 1}"
  shows "vars_ok (v\<lparr>vs_Vals := put_val m x (vs_Vals v)\<rparr>)"
  using assms by (auto simp: vars_ok_def nth_put_val lit_Not_eq_swap)

end
