(* ===== verification/Luby.thy ===== *)
theory Luby
  imports Prelude
begin

text \<open>
  The restart sequence (\<^verbatim>\<open>internal/xo/luby.go\<close>): a generator with two \<^verbatim>\<open>uint\<close> counters.  The
  specification is the recursive definition of the Luby sequence; the theorem says that the
  generator enumerates it.
\<close>

record luby =
  luby_exp :: u64
  luby_turns :: u64

definition NewLuby :: luby where
  "NewLuby = \<lparr>luby_exp = 0, luby_turns = 0\<rparr>"

definition luby_Next :: "luby \<Rightarrow> u64 \<times> luby" where
  "luby_Next l =
     (let res = push_bit (unat (luby_exp l)) 1
      in if res AND luby_turns l = 0
         then (res, l\<lparr>luby_exp := 0, luby_turns := luby_turns l + 1\<rparr>)
         else (res, l\<lparr>luby_exp := luby_exp l + 1\<rparr>))"

section \<open>The Luby sequence\<close>

text \<open>The first \<open>2 ^ (k + 1) - 1\<close> elements: the previous block twice, then \<open>2 ^ k\<close>.\<close>

fun luby_block :: "nat \<Rightarrow> nat list" where
  "luby_block 0 = [1]"
| "luby_block (Suc k) = luby_block k @ luby_block k @ [2 ^ Suc k]"

lemma length_luby_block: "length (luby_block k) = 2 ^ Suc k - 1"
proof (induction k)
  case (Suc k)
  have "1 \<le> (2::nat) ^ Suc k" by simp
  then show ?case using Suc by (simp add: algebra_simps)
qed simp

fun luby_take :: "nat \<Rightarrow> luby \<Rightarrow> nat list \<times> luby" where
  "luby_take 0 l = ([], l)"
| "luby_take (Suc n) l =
     (let (x, l') = luby_Next l; (xs, l'') = luby_take n l' in (unat x # xs, l''))"

lemma luby_take_add:
  "luby_take (m + n) l =
     (let (xs, l') = luby_take m l; (ys, l'') = luby_take n l' in (xs @ ys, l''))"
  by (induction m arbitrary: l) (auto simp: Let_def split: prod.splits)

definition luby_at :: "nat \<Rightarrow> nat \<Rightarrow> luby" where
  "luby_at e t = \<lparr>luby_exp = of_nat e, luby_turns = of_nat t\<rparr>"

lemma unat_exp64: "n < 64 \<Longrightarrow> unat (2 ^ n :: u64) = 2 ^ n"
proof -
  assume n: "n < 64"
  have "unat (of_nat (2 ^ n) :: u64) = 2 ^ n mod 2 ^ 64"
    by (simp only: unat_of_nat len_of_numeral_defs len_num1) simp
  also have "\<dots> = 2 ^ n" using n by (intro mod_less power_strict_increasing) auto
  finally show ?thesis by simp
qed

lemma luby_Next_at:
  assumes e: "e < 63" and t: "t < 2 ^ 63"
  shows "luby_Next (luby_at e t) =
     (2 ^ e, if odd (t div 2 ^ e) then luby_at (Suc e) t else luby_at 0 (Suc t))"
proof -
  have ue: "unat (of_nat e :: u64) = e" using e by (simp add: unat_of_nat)
  have ut: "unat (of_nat t :: u64) = t" using t by (simp add: unat_of_nat)
  have p: "push_bit e (1 :: u64) = 2 ^ e" by (simp add: push_bit_eq_mult)
  have b: "2 ^ e AND (of_nat t :: u64) = 0 \<longleftrightarrow> \<not> odd (t div 2 ^ e)"
  proof -
    have "2 ^ e AND (of_nat t :: u64) = 0 \<longleftrightarrow> \<not> bit (of_nat t :: u64) e"
      by (simp add: and.commute and_exp_eq_0_iff_not_bit)
    also have "bit (of_nat t :: u64) e \<longleftrightarrow> bit (unat (of_nat t :: u64)) e"
      using e by (simp add: bit_unsigned_iff)
    also have "\<dots> \<longleftrightarrow> odd (t div 2 ^ e)" by (simp add: ut bit_iff_odd)
    finally show ?thesis .
  qed
  show ?thesis
    by (simp add: luby_Next_def luby_at_def Let_def ue p b)
qed

lemma luby_take_block:
  assumes "k < 62" and "2 ^ k dvd t" and "t + 2 ^ Suc k < 2 ^ 63"
  shows "luby_take (2 ^ Suc k - 1) (luby_at 0 t) =
     (luby_block k,
      if odd (t div 2 ^ k) then luby_at (Suc k) (t + 2 ^ k - 1) else luby_at 0 (t + 2 ^ k))"
  using assms
proof (induction k arbitrary: t)
  case 0
  then show ?case by (simp add: luby_Next_at Let_def)
next
  case (Suc k)
  obtain q where q: "t = 2 ^ Suc k * q" using Suc.prems(2) by blast
  define n :: nat where "n = 2 ^ Suc k - 1"
  have n: "(2::nat) ^ Suc (Suc k) - 1 = n + (n + 1)"
  proof -
    have "1 \<le> (2::nat) ^ Suc k" by simp
    then show ?thesis unfolding n_def by simp
  qed
  have d1: "t div 2 ^ k = 2 * q" unfolding q by simp
  have d2: "(t + 2 ^ k) div 2 ^ k = 2 * q + 1" unfolding q by simp
  have first: "luby_take n (luby_at 0 t) = (luby_block k, luby_at 0 (t + 2 ^ k))"
    using Suc.IH [of t] Suc.prems by (simp add: n_def d1 q)
  have second: "luby_take n (luby_at 0 (t + 2 ^ k))
      = (luby_block k, luby_at (Suc k) (t + 2 ^ Suc k - 1))"
    using Suc.IH [of "t + 2 ^ k"] Suc.prems by (simp add: n_def d2 q add.assoc add.commute [of "2 * 2 ^ k" "2 * 2 ^ k * q"])
  have d3: "(t + 2 ^ Suc k - 1) div 2 ^ Suc k = q"
  proof -
    have "(t + 2 ^ Suc k - 1) = (2 ^ Suc k - 1) + q * 2 ^ Suc k" unfolding q by (simp add: ac_simps)
    moreover have "((2 ^ Suc k - 1) + q * 2 ^ Suc k) div 2 ^ Suc k = q + (2 ^ Suc k - 1) div 2 ^ Suc k"
      by (rule div_mult_self1) simp
    ultimately show ?thesis by simp
  qed
  have d4: "t div 2 ^ Suc k = q" unfolding q by simp
  have lt: "t + 2 ^ Suc k - 1 < 2 ^ 63" using Suc.prems by simp
  have third: "luby_take 1 (luby_at (Suc k) (t + 2 ^ Suc k - 1))
      = ([2 ^ Suc k], if odd q then luby_at (Suc (Suc k)) (t + 2 ^ Suc k - 1)
                      else luby_at 0 (t + 2 ^ Suc k))"
  proof -
    have e: "Suc (t + 2 ^ Suc k - 1) = t + 2 ^ Suc k" by simp
    have u: "unat (2 ^ Suc k :: u64) = 2 ^ Suc k"
      using Suc.prems(1) by (intro unat_exp64) simp
    have nx: "luby_Next (luby_at (Suc k) (t + 2 ^ Suc k - 1)) =
        (2 ^ Suc k, if odd q then luby_at (Suc (Suc k)) (t + 2 ^ Suc k - 1)
                    else luby_at 0 (t + 2 ^ Suc k))"
      using luby_Next_at [of "Suc k" "t + 2 ^ Suc k - 1"] Suc.prems(1) lt
      unfolding d3 e by simp
    show ?thesis
      unfolding One_nat_def luby_take.simps Let_def nx [unfolded One_nat_def] prod.case u ..
  qed
  have fin: "luby_take (n + 1) (luby_at 0 (t + 2 ^ k)) =
     (luby_block k @ [2 ^ Suc k], if odd q then luby_at (Suc (Suc k)) (t + 2 ^ Suc k - 1)
                      else luby_at 0 (t + 2 ^ Suc k))"
    unfolding luby_take_add [of n 1] second Let_def prod.case third by simp
  show ?case
    unfolding n luby_take_add [of n "n + 1"] first Let_def prod.case fin d4 by simp
qed

text \<open>
  Successive calls of Next enumerate the Luby sequence
  \<open>1, 1, 2, 1, 1, 2, 4, \<dots>\<close>: the first \<open>2 ^ (k + 1) - 1\<close> results from a fresh generator are the
  block defined by recursion on \<open>k\<close>, for every \<open>k\<close> the 64-bit counters can serve.
\<close>

theorem luby_sequence:
  assumes "k < 62"
  shows "fst (luby_take (2 ^ Suc k - 1) NewLuby) = luby_block k"
proof -
  have "NewLuby = luby_at 0 0" by (simp add: NewLuby_def luby_at_def)
  moreover have "(2::nat) ^ Suc k < 2 ^ 63" using assms by (intro power_strict_increasing) auto
  ultimately show ?thesis using luby_take_block [of k 0] assms by simp
qed

theorem luby_sequence_witness:
  "fst (luby_take 15 NewLuby) = [1, 1, 2, 1, 1, 2, 4, 1, 1, 2, 1, 1, 2, 4, 8]"
  using luby_sequence [of 3] by (simp add: numeral_eq_Suc)

end
