(* ===== verification/Cgc.thy ===== *)
theory Cgc
  imports SolverVars Luby "HOL-Library.Multiset"
begin

text \<open>
  Clause garbage collection, the parts that do not touch the clause database
  (\<^verbatim>\<open>internal/xo/cgc.go\<close>): the collector's clock, the order in which learnt clauses are
  ranked, and the relocation of lists of clause references.  Sorting is \<^verbatim>\<open>sort.Sort\<close> of the
  standard library, modelled by insertion with the program's own comparison.
\<close>

record cgc =
  gc_luby :: luby
  gc_factor :: u64
  gc_stopWatch :: u64
  gc_rmq :: "cloc list"
  gc_rmLits :: int
  gc_rmd :: int

definition NewCgc :: cgc where
  "NewCgc =
     (let l = NewLuby;
          (n, l) = luby_Next l
      in \<lparr>gc_luby = l, gc_factor = 2048, gc_stopWatch = 2048 * n, gc_rmq = [], gc_rmLits = 0,
          gc_rmd = 0\<rparr>)"

definition Cgc_Copy :: "cgc \<Rightarrow> cgc" where
  "Cgc_Copy c =
     (let (n, l) = luby_Next (gc_luby c)
      in \<lparr>gc_luby = l, gc_factor = 2048, gc_stopWatch = 2048 * n, gc_rmq = gc_rmq c,
          gc_rmLits = gc_rmLits c, gc_rmd = gc_rmd c\<rparr>)"

definition Cgc_Tick :: "cgc \<Rightarrow> cgc" where
  "Cgc_Tick c =
     (if gc_stopWatch c > 0 then c\<lparr>gc_stopWatch := gc_stopWatch c - 1\<rparr> else c)"

definition Cgc_Ready :: "cgc \<Rightarrow> bool" where
  "Cgc_Ready c \<longleftrightarrow> gc_stopWatch c \<le> 0"

section \<open>Duplicate removal\<close>

fun uniq_loop :: "cloc list \<Rightarrow> cloc \<Rightarrow> nat \<Rightarrow> nat \<Rightarrow> nat \<Rightarrow> cloc list \<times> nat" where
  "uniq_loop cs lst i j 0 = (cs, i)"
| "uniq_loop cs lst i j (Suc n) =
     (let cur = cs ! j
      in if cur \<noteq> lst then uniq_loop (cs[i + 1 := cur]) cur (i + 1) (j + 1) n
         else uniq_loop cs lst i (j + 1) n)"

definition uniq :: "cloc list \<Rightarrow> cloc list" where
  "uniq cs =
     (if length cs \<le> 1 then cs
      else let (cs', i) = uniq_loop cs (cs ! 0) 0 1 (length cs - 1)
           in take (i + 1) cs')"

section \<open>Ranking learnt clauses\<close>

text \<open>The comparison of two learnt clauses, given with their headers.\<close>

definition gcLess :: "chd \<times> cloc \<Rightarrow> chd \<times> cloc \<Rightarrow> bool" where
  "gcLess a b =
     (let (ph, p) = a; (qh, q) = b;
          pd = chd_Lbd ph; qd = chd_Lbd qh
      in if (pd < 8 \<or> qd < 8) \<and> pd < qd then True
         else if (pd < 8 \<or> qd < 8) \<and> pd > qd then False
         else let pt = chd_Heat ph; qt = chd_Heat qh
              in if pt > qt then True
                 else if pt < qt then False
                 else let psz = chd_Size ph; qsz = chd_Size qh
                      in if psz < qsz then True
                         else if psz > qsz then False
                         else q < p)"

fun insort_by :: "('a \<Rightarrow> 'a \<Rightarrow> bool) \<Rightarrow> 'a \<Rightarrow> 'a list \<Rightarrow> 'a list" where
  "insort_by lt x [] = [x]"
| "insort_by lt x (y # ys) = (if lt y x then y # insort_by lt x ys else x # y # ys)"

definition sort_by :: "('a \<Rightarrow> 'a \<Rightarrow> bool) \<Rightarrow> 'a list \<Rightarrow> 'a list" where
  "sort_by lt xs = foldr (insort_by lt) xs []"

fun with_Chds :: "cdat \<Rightarrow> cloc list \<Rightarrow> (chd \<times> cloc) list option" where
  "with_Chds d [] = Some []"
| "with_Chds d (p # ps) =
     do { h \<leftarrow> CDat_Chd p d; hs \<leftarrow> with_Chds d ps; Some ((h, p) # hs) }"

definition gcLearnts_Sort :: "cdat \<Rightarrow> cloc list \<Rightarrow> cloc list option" where
  "gcLearnts_Sort d learnts =
     do { hs \<leftarrow> with_Chds d learnts; Some (map snd (sort_by gcLess hs)) }"

section \<open>Relocation\<close>

fun relocateSlice :: "cloc list \<Rightarrow> locmap \<Rightarrow> cloc list" where
  "relocateSlice [] m = []"
| "relocateSlice (p # ps) m =
     (case m p of
        None \<Rightarrow> p # relocateSlice ps m
      | Some q \<Rightarrow> if q = CNull then relocateSlice ps m else q # relocateSlice ps m)"

fun relocWatches :: "watch list \<Rightarrow> locmap \<Rightarrow> watch list" where
  "relocWatches [] m = []"
| "relocWatches (w # ws) m =
     (case m (watch_C w) of
        None \<Rightarrow> w # relocWatches ws m
      | Some q \<Rightarrow> if q = CNull then relocWatches ws m
                  else watch_Relocate w q # relocWatches ws m)"

definition relocateWatches :: "locmap \<Rightarrow> vars \<Rightarrow> vars" where
  "relocateWatches m v =
     v\<lparr>vs_Watches := take 2 (vs_Watches v)
         @ map (\<lambda>ws. relocWatches ws m) (drop 2 (vs_Watches v))\<rparr>"

section \<open>The order is total\<close>

definition gc_key :: "chd \<times> cloc \<Rightarrow> int \<times> int \<times> int \<times> int" where
  "gc_key a = (min (uint (chd_Lbd (fst a))) 8, - uint (chd_Heat (fst a)),
               uint (chd_Size (fst a)), - uint (snd a))"

definition lex4 :: "int \<times> int \<times> int \<times> int \<Rightarrow> int \<times> int \<times> int \<times> int \<Rightarrow> bool" where
  "lex4 x y \<longleftrightarrow> (case (x, y) of ((a, b, c, d), (a', b', c', d')) \<Rightarrow>
     a < a' \<or> a = a' \<and> (b < b' \<or> b = b' \<and> (c < c' \<or> c = c' \<and> d < d')))"

lemma gcLess_key: "gcLess a b \<longleftrightarrow> lex4 (gc_key a) (gc_key b)"
proof -
  obtain ph p qh q where ab: "a = (ph, p)" "b = (qh, q)" by (cases a, cases b)
  have w: "x < y \<longleftrightarrow> uint x < uint y" "uint x = uint y \<longleftrightarrow> x = y" for x y :: u32
    by (simp_all add: word_less_def word_uint_eq_iff)
  have lbd: "min (uint x) 8 < min (uint y) 8 \<longleftrightarrow> (x < 8 \<or> y < 8) \<and> x < y"
    "min (uint x) 8 = min (uint y) 8 \<longleftrightarrow> x = y \<or> \<not> (x < 8 \<or> y < 8)" for x y :: u32
    by (auto simp: word_less_def min_def word_uint_eq_iff)
  show ?thesis
    unfolding ab gcLess_def lex4_def gc_key_def prod.case Let_def fst_conv snd_conv lbd neg_less_iff_less
      neg_equal_iff_equal w(2)
    by (auto simp: word_less_def word_uint_eq_iff)
qed

lemma lex4_trans: "lex4 x y \<Longrightarrow> lex4 y z \<Longrightarrow> lex4 x z"
  by (auto simp: lex4_def split: prod.splits)

lemma lex4_total: "lex4 x y \<or> x = y \<or> lex4 y x"
  by (auto simp: lex4_def split: prod.splits)

lemma lex4_irrefl: "\<not> lex4 x x"
  by (auto simp: lex4_def split: prod.splits)

section \<open>Sorting with a comparison\<close>

text \<open>What \<^verbatim>\<open>sort.Sort\<close> asks of a comparison, and what it gives back.\<close>

locale weak_order =
  fixes lt :: "'a \<Rightarrow> 'a \<Rightarrow> bool"
  assumes asym: "lt a b \<Longrightarrow> \<not> lt b a"
    and neg_trans: "\<not> lt a b \<Longrightarrow> \<not> lt b c \<Longrightarrow> \<not> lt a c"
begin

lemma irrefl: "\<not> lt a a"
  using asym by blast

lemma set_insort: "set (insort_by lt x xs) = insert x (set xs)"
  by (induction xs) auto

lemma sorted_insort:
  "sorted_wrt (\<lambda>a b. \<not> lt b a) xs \<Longrightarrow> sorted_wrt (\<lambda>a b. \<not> lt b a) (insort_by lt x xs)"
proof (induction xs)
  case (Cons y ys)
  show ?case
  proof (cases "lt y x")
    case True
    then show ?thesis using Cons asym by (auto simp: set_insort)
  next
    case False
    then have "\<not> lt z x" if "z \<in> set ys" for z
      using Cons.prems that neg_trans by (auto dest: neg_trans)
    then show ?thesis using False Cons.prems by auto
  qed
qed simp

lemma sorted_sort: "sorted_wrt (\<lambda>a b. \<not> lt b a) (sort_by lt xs)"
  by (induction xs) (simp_all add: sort_by_def sorted_insort)

lemma mset_insort: "mset (insort_by lt x xs) = add_mset x (mset xs)"
  by (induction xs) auto

lemma mset_sort: "mset (sort_by lt xs) = mset xs"
  by (induction xs) (simp_all add: sort_by_def mset_insort)

lemma set_sort: "set (sort_by lt xs) = set xs"
  using mset_sort by (rule mset_eq_setD)

end

interpretation loc_order: weak_order "(<) :: cloc \<Rightarrow> cloc \<Rightarrow> bool"
  by unfold_locales auto

interpretation gc_order: weak_order gcLess
  by unfold_locales (auto simp: gcLess_key lex4_def split: prod.splits)

lemma sorted_loc_sort: "sorted (sort_by (<) (ps :: cloc list))"
  using loc_order.sorted_sort [of ps] by (simp add: not_less)

section \<open>Removing duplicates\<close>

lemma uniq_loop_spec:
  "take (i + 1) cs = remdups_adj (take j os) \<Longrightarrow> drop j cs = drop j os \<Longrightarrow> i < j \<Longrightarrow>
   length cs = length os \<Longrightarrow> lst = cs ! i \<Longrightarrow> lst = os ! (j - 1) \<Longrightarrow> j + n = length os \<Longrightarrow>
   (case uniq_loop cs lst i j n of (cs', i') \<Rightarrow> take (i' + 1) cs' = remdups_adj os)"
proof (induction n arbitrary: cs lst i j)
  case 0
  then show ?case by simp
next
  case (Suc n)
  then have j: "j < length os" by simp
  have cur: "cs ! j = os ! j" using Suc.prems(2,4) j by (metis hd_drop_conv_nth)
  have tj: "take (Suc j) os = take (j - 1) os @ [os ! (j - 1), os ! j]"
    using j Suc.prems(3) by (cases j) (simp_all add: take_Suc_conv_app_nth)
  have tj': "take j os = take (j - 1) os @ [os ! (j - 1)]"
    using j Suc.prems(3) by (cases j) (simp_all add: take_Suc_conv_app_nth)
  have dr: "drop (Suc j) cs = drop (Suc j) os"
    using Suc.prems(2) by (metis drop_drop plus_1_eq_Suc)
  show ?case
  proof (cases "cs ! j = lst")
    case True
    have "remdups_adj (take (Suc j) os) = remdups_adj (take j os)"
      unfolding tj tj' using True cur Suc.prems(6) by (simp add: remdups_adj_append_two)
    then have "case uniq_loop cs lst i (j + 1) n of (cs', i') \<Rightarrow> take (i' + 1) cs' = remdups_adj os"
      using Suc.prems True cur dr by (intro Suc.IH) simp_all
    then show ?thesis using True by (simp add: Let_def)
  next
    case False
    have "remdups_adj (take (Suc j) os) = remdups_adj (take j os) @ [os ! j]"
      unfolding tj tj' using False cur Suc.prems(6) by (simp add: remdups_adj_append_two)
    then have "take (i + 1 + 1) (cs[i + 1 := cs ! j]) = remdups_adj (take (j + 1) os)"
      using Suc.prems(1,3,4) j cur by (simp add: take_Suc_conv_app_nth)
    then have "case uniq_loop (cs[i + 1 := cs ! j]) (cs ! j) (i + 1) (j + 1) n of
        (cs', i') \<Rightarrow> take (i' + 1) cs' = remdups_adj os"
      using Suc.prems False cur dr j by (intro Suc.IH) (simp_all add: drop_update_cancel)
    then show ?thesis using False by (simp add: Let_def)
  qed
qed

lemma uniq_remdups_adj: "uniq cs = remdups_adj cs"
proof (cases "length cs \<le> 1")
  case True
  then show ?thesis by (cases cs) (auto simp: uniq_def)
next
  case False
  then have "cs \<noteq> []" by auto
  then have "take 1 cs = [cs ! 0]" by (cases cs) auto
  then have "case uniq_loop cs (cs ! 0) 0 1 (length cs - 1) of (cs', i') \<Rightarrow> take (i' + 1) cs' = remdups_adj cs"
    using False by (intro uniq_loop_spec) auto
  then show ?thesis using False by (simp add: uniq_def split: prod.splits)
qed

lemma uniq_sorted:
  "sorted cs \<Longrightarrow> distinct (uniq cs) \<and> sorted (uniq cs) \<and> set (uniq cs) = set cs"
proof -
  assume "sorted cs"
  then have "sorted (remdups_adj cs)" by simp
  moreover have "distinct_adj (remdups_adj cs)" by simp
  moreover have "sorted xs \<Longrightarrow> distinct_adj xs \<Longrightarrow> distinct xs" for xs :: "cloc list"
    by (induction xs rule: remdups_adj.induct) (auto simp: distinct_adj_Cons_Cons)
  ultimately show ?thesis by (simp add: uniq_remdups_adj)
qed

section \<open>Relocating\<close>

lemma relocateSlice_append:
  "relocateSlice (ps @ qs) m = relocateSlice ps m @ relocateSlice qs m"
  by (induction ps m rule: relocateSlice.induct) (auto split: option.splits)

lemma set_relocateSlice:
  "q \<in> set (relocateSlice ps m) \<longleftrightarrow>
     (\<exists>p \<in> set ps. m p = None \<and> q = p \<or> m p = Some q \<and> q \<noteq> CNull)"
  by (induction ps m rule: relocateSlice.induct) (auto split: option.splits)

lemma relocateSlice_map:
  "\<forall>p \<in> set ps. m p \<noteq> Some CNull \<Longrightarrow>
   relocateSlice ps m = map (\<lambda>p. case m p of None \<Rightarrow> p | Some q \<Rightarrow> q) ps"
  by (induction ps m rule: relocateSlice.induct) (auto split: option.splits)

lemma set_relocWatches:
  "w \<in> set (relocWatches ws m) \<longleftrightarrow>
     (\<exists>u \<in> set ws. m (watch_C u) = None \<and> w = u
        \<or> (\<exists>q. m (watch_C u) = Some q \<and> q \<noteq> CNull \<and> w = watch_Relocate u q))"
  by (induction ws m rule: relocWatches.induct) (auto split: option.splits)

end
