(* ===== verification/ActiveSet.thy ===== *)
theory ActiveSet
  imports Cgc
begin

text \<open>
  Activation literals (\<^verbatim>\<open>internal/xo/active.go\<close>), the part that does not call the solver: the
  free list, the clauses each activation literal occurs in, and their relocation.  The scratch
  slice \<open>Ms\<close> is always reset to length zero and is not represented.
\<close>

record active =
  ac_Free :: "lit list"
  ac_Occs :: "cloc list list"
  ac_IsActive :: "bool list"

definition newActive :: "nat \<Rightarrow> active" where
  "newActive vcap =
     \<lparr>ac_Free = [], ac_Occs = replicate vcap [], ac_IsActive = replicate vcap False\<rparr>"

text \<open>Record one clause under every active literal in it; a positive one is a panic.\<close>

definition occ_add :: "cloc \<Rightarrow> lit \<Rightarrow> active \<Rightarrow> active option" where
  "occ_add loc m a =
     (let mv = unat (lit_Var m)
      in do { isa \<leftarrow> aget (ac_IsActive a) mv;
              if \<not> isa then Some a
              else if lit_IsPos m then None
              else do { sl \<leftarrow> aget (ac_Occs a) mv;
                        occs \<leftarrow> aset (ac_Occs a) mv (sl @ [loc]);
                        Some (a\<lparr>ac_Occs := occs\<rparr>) } })"

definition occs_add :: "cloc \<Rightarrow> lit list \<Rightarrow> active \<Rightarrow> active option" where
  "occs_add loc ms a = foldM (occ_add loc) ms a"

definition Active_CRemap :: "locmap \<Rightarrow> active \<Rightarrow> active" where
  "Active_CRemap rlm a = a\<lparr>ac_Occs := map (\<lambda>sl. relocateSlice sl rlm) (ac_Occs a)\<rparr>"

definition Active_growToVar :: "var \<Rightarrow> active \<Rightarrow> active" where
  "Active_growToVar u a =
     (let w = u + 1
      in a\<lparr>ac_Occs := grow_list (unat w) [] (ac_Occs a),
           ac_IsActive := grow_list (unat w) False (ac_IsActive a)\<rparr>)"

definition Active_Copy :: "active \<Rightarrow> active" where
  "Active_Copy a =
     \<lparr>ac_Free = ac_Free a, ac_Occs = ac_Occs a, ac_IsActive = ac_IsActive a\<rparr>"

end
