(* ===== verification/Cdb.thy ===== *)
theory Cdb
  imports ActiveSet
begin

text \<open>
  The clause database (\<^verbatim>\<open>internal/xo/cdb.go\<close>): adding, learning, unlinking and inspecting clauses
  over the store, the watch lists and the activation occurrences.  The operations take the
  variable data and the activation set (the \<^verbatim>\<open>Vars\<close> and \<^verbatim>\<open>Active\<close> pointers of the Go structure)
  as arguments and return them.  Counters that only feed statistics are left out.
\<close>

record cdb =
  cb_CDat :: cdat
  cb_AddLits :: "lit list"
  cb_AddVals :: "int list"
  cb_Bot :: cloc
  cb_Added :: "cloc list"
  cb_Learnts :: "cloc list"
  cb_checkModel :: bool
  cb_gc :: cgc

definition CInf :: cloc where
  "CInf = 0xffffffff"

definition NewCdb :: "vars \<Rightarrow> int \<Rightarrow> cdb" where
  "NewCdb v capHint =
     (let capHint = (if capHint < 3 then 3 else capHint)
      in \<lparr>cb_CDat = NewCDat (capHint * 5), cb_AddLits = [],
          cb_AddVals = replicate (unat (vs_Top v)) 0, cb_Bot = CNull, cb_Added = [],
          cb_Learnts = [], cb_checkModel = True, cb_gc = NewCgc\<rparr>)"

section \<open>Adding a clause\<close>

text \<open>
  The scan of the buffered literals: false literals and repeated ones are dropped, the kept
  ones are moved to the front of the buffer; the flag reports a literal that is true or whose
  complement was seen.
\<close>

type_synonym scan = "lit list \<times> nat \<times> int list \<times> var"

fun add_scan :: "int list \<Rightarrow> lit list \<Rightarrow> scan \<Rightarrow> (bool \<times> scan) option" where
  "add_scan uVals [] st = Some (False, st)"
| "add_scan uVals (m # rest) (ms, j, aVals, mx) =
     (let mv = lit_Var m;
          mx = (if mv > mx then mv else mx)
      in do { us \<leftarrow> aget uVals (unat m);
              as \<leftarrow> aget aVals (unat mv);
              if us = 0 \<and> as = 0
              then do { ms \<leftarrow> aset ms j m;
                        aVals \<leftarrow> aset aVals (unat mv) (lit_Sign m);
                        add_scan uVals rest (ms, j + 1, aVals, mx) }
              else let as = as * lit_Sign m
                   in if us = 1 \<or> as = -1 then Some (True, (ms, j, aVals, mx))
                      else if us = -1 \<or> as = 1 then add_scan uVals rest (ms, j, aVals, mx)
                      else None })"

definition add_watch :: "lit \<Rightarrow> watch \<Rightarrow> watch list list \<Rightarrow> watch list list option" where
  "add_watch m w ws =
     do { wm \<leftarrow> aget ws (unat m); aset ws (unat m) (wm @ [w]) }"

definition watch_pair :: "cloc \<Rightarrow> lit \<Rightarrow> lit \<Rightarrow> bool \<Rightarrow> vars \<Rightarrow> vars option" where
  "watch_pair loc m n isBin v =
     do { w \<leftarrow> add_watch m (MakeWatch loc n isBin) (vs_Watches v);
          w \<leftarrow> add_watch n (MakeWatch loc m isBin) w;
          Some (v\<lparr>vs_Watches := w\<rparr>) }"

definition clear_vals :: "lit list \<Rightarrow> int list \<Rightarrow> int list option" where
  "clear_vals ms aVals = foldM (\<lambda>m a. aset a (unat (lit_Var m)) 0) ms aVals"

definition Cdb_Add :: "lit \<Rightarrow> vars \<times> cdb \<Rightarrow> (cloc \<times> lit \<times> vars \<times> cdb) option" where
  "Cdb_Add m s =
     (case s of (v, c) \<Rightarrow>
       if m \<noteq> LitNull
       then Some (CInf, LitNull, v, c\<lparr>cb_AddLits := cb_AddLits c @ [m]\<rparr>)
       else do {
         (taut, ms, j, aVals, mx) \<leftarrow>
            add_scan (vs_Vals v) (cb_AddLits c) (cb_AddLits c, 0, cb_AddVals c, vs_Max v);
         let v = v\<lparr>vs_Max := mx\<rparr>;
         (retLoc, retLit, ms, v, c) \<leftarrow>
           (if taut then Some (CInf, LitNull, ms, v, c)
            else do {
              (retLoc, d) \<leftarrow> AddLits (MakeChd False 0 (int j)) (take j ms) (cb_CDat c);
              let ms = ms[j := LitNull];
              let c = c\<lparr>cb_CDat := d, cb_Added := cb_Added c @ [retLoc]\<rparr>;
              if j = 0 then Some (retLoc, LitNull, ms, v, c\<lparr>cb_Bot := retLoc\<rparr>)
              else if j = 1 then Some (retLoc, ms ! 0, ms, v, c)
              else do { v \<leftarrow> watch_pair retLoc (ms ! 0) (ms ! 1) (j = 2) v;
                        Some (retLoc, LitNull, ms, v, c) } });
         aVals \<leftarrow> clear_vals ms aVals;
         Some (retLoc, retLit, v, c\<lparr>cb_AddVals := aVals, cb_AddLits := []\<rparr>) })"

section \<open>Learning a clause\<close>

definition Cdb_Learn ::
    "lit list \<Rightarrow> int \<Rightarrow> vars \<times> cdb \<times> active option \<Rightarrow>
     (cloc \<times> vars \<times> cdb \<times> active option) option" where
  "Cdb_Learn ms lbd s =
     (case s of (v, c, act) \<Rightarrow>
       do { (ret, d) \<leftarrow> AddLits (MakeChd True lbd (int (length ms))) ms (cb_CDat c);
            let c = c\<lparr>cb_CDat := d\<rparr>;
            act \<leftarrow> (case act of None \<Rightarrow> Some None
                    | Some a \<Rightarrow> do { a \<leftarrow> occs_add ret ms a; Some (Some a) });
            let msLen = length ms;
            (v, c) \<leftarrow>
              (if msLen = 0 then Some (v, c\<lparr>cb_Bot := ret\<rparr>)
               else if msLen = 1 then Some (v, c)
               else do { v \<leftarrow> watch_pair ret (ms ! 0) (ms ! 1) (msLen = 2) v; Some (v, c) });
            Some (ret, v,
                  c\<lparr>cb_Learnts := cb_Learnts c @ [ret], cb_gc := Cgc_Tick (cb_gc c)\<rparr>, act) })"

section \<open>Inspecting clauses\<close>

definition Cdb_InUse :: "cloc \<Rightarrow> vars \<Rightarrow> cdb \<Rightarrow> bool option" where
  "Cdb_InUse p v c =
     do { m \<leftarrow> aget (cd_D (cb_CDat c)) (unat p);
          if m \<noteq> LitNull
          then do { r \<leftarrow> aget (vs_Reasons v) (unat (lit_Var m)); Some (r = p) }
          else Some False }"

definition Cdb_IsBinary :: "cloc \<Rightarrow> cdb \<Rightarrow> bool option" where
  "Cdb_IsBinary p c =
     (if cd_Len (cb_CDat c) > unat (p + 2)
      then do { m \<leftarrow> aget (cd_D (cb_CDat c)) (unat (p + 2)); Some (m = LitNull) }
      else Some False)"

definition Cdb_IsUnit :: "cloc \<Rightarrow> cdb \<Rightarrow> bool option" where
  "Cdb_IsUnit p c =
     do { m \<leftarrow> aget (cd_D (cb_CDat c)) (unat (p + 1)); Some (m = LitNull) }"

definition Cdb_Chd :: "cloc \<Rightarrow> cdb \<Rightarrow> chd option" where
  "Cdb_Chd p c = CDat_Chd p (cb_CDat c)"

definition Cdb_Size :: "cloc \<Rightarrow> cdb \<Rightarrow> int option" where
  "Cdb_Size p c = do { q \<leftarrow> CDat_Next p (cb_CDat c); Some (int (unat (q - p))) }"

partial_function (option) lits_loop :: "u32 list \<Rightarrow> cloc \<Rightarrow> lit list \<Rightarrow> lit list option" where
  "lits_loop D p ms =
     do { m \<leftarrow> aget D (unat p);
          if m = LitNull then Some ms else lits_loop D (p + 1) (ms @ [m]) }"

definition Cdb_Lits :: "cloc \<Rightarrow> lit list \<Rightarrow> cdb \<Rightarrow> lit list option" where
  "Cdb_Lits p ms c = lits_loop (cd_D (cb_CDat c)) p ms"

text \<open>As for the store, a callback is represented by the list of what it is called with.\<close>

fun Cdb_ForallSlice :: "cloc list \<Rightarrow> cdb \<Rightarrow> (cloc \<times> chd \<times> lit list) list option" where
  "Cdb_ForallSlice [] c = Some []"
| "Cdb_ForallSlice (p # ps) c =
     do { h \<leftarrow> CDat_Chd p (cb_CDat c);
          ms \<leftarrow> CDat_Load p [] (cb_CDat c);
          rest \<leftarrow> Cdb_ForallSlice ps c;
          Some ((p, h, ms) # rest) }"

definition Cdb_ForallAdded :: "cdb \<Rightarrow> (cloc \<times> chd \<times> lit list) list option" where
  "Cdb_ForallAdded c = Cdb_ForallSlice (cb_Added c) c"

definition Cdb_ForallLearnts :: "cdb \<Rightarrow> (cloc \<times> chd \<times> lit list) list option" where
  "Cdb_ForallLearnts c = Cdb_ForallSlice (cb_Learnts c) c"

definition Cdb_Forall :: "cdb \<Rightarrow> (cloc \<times> chd \<times> lit list) list option" where
  "Cdb_Forall c =
     do { a \<leftarrow> Cdb_ForallAdded c; l \<leftarrow> Cdb_ForallLearnts c; Some (a @ l) }"

section \<open>Clause activity\<close>

definition decay_at :: "cloc \<Rightarrow> cdat \<Rightarrow> cdat option" where
  "decay_at p d =
     do { h \<leftarrow> aget (cd_D d) (unat (p - 1));
          D \<leftarrow> aset (cd_D d) (unat (p - 1)) (chd_Decay h);
          Some (d\<lparr>cd_D := D\<rparr>) }"

definition Cdb_Bump :: "cloc \<Rightarrow> cdb \<Rightarrow> cdb option" where
  "Cdb_Bump p c =
     do { (decay, d) \<leftarrow> CDat_Bump p (cb_CDat c);
          if decay
          then do { d \<leftarrow> foldM decay_at (cb_Added c) d;
                    d \<leftarrow> foldM decay_at (cb_Learnts c) d;
                    Some (c\<lparr>cb_CDat := d\<lparr>cd_bumpInc := cd_bumpInc d div 2\<rparr>\<rparr>) }
          else Some (c\<lparr>cb_CDat := d\<rparr>) }"

definition Cdb_Decay :: "cdb \<Rightarrow> cdb" where
  "Cdb_Decay c = c\<lparr>cb_CDat := CDat_Decay (cb_CDat c)\<rparr>"

section \<open>Unlinking\<close>

definition unlink_mark :: "lit \<Rightarrow> lit list \<times> int list \<Rightarrow> (lit list \<times> int list) option" where
  "unlink_mark m s =
     (case s of (wLits, wVals) \<Rightarrow>
       let mv = unat (lit_Var m)
       in do { x \<leftarrow> aget wVals mv;
               if x = 2 \<or> x = lit_Sign m then Some (wLits, wVals)
               else do { wVals \<leftarrow> (if x = 0 then aset wVals mv (lit_Sign m) else aset wVals mv 2);
                         Some (wLits @ [m], wVals) } })"

definition unlink_clause :: "u32 list \<Rightarrow> cloc \<Rightarrow> lit list \<times> int list \<Rightarrow> (lit list \<times> int list) option" where
  "unlink_clause d p s =
     do { m \<leftarrow> aget d (unat p);
          n \<leftarrow> aget d (unat (p + 1));
          s \<leftarrow> unlink_mark m s;
          unlink_mark n s }"

definition unlink_watch :: "cloc list \<Rightarrow> lit \<Rightarrow> watch list list \<Rightarrow> watch list list option" where
  "unlink_watch rms m W =
     do { ws \<leftarrow> aget W (unat m);
          aset W (unat m) (filter (\<lambda>w. watch_C w \<notin> set rms) ws) }"

definition Cdb_Unlink :: "cloc list \<Rightarrow> vars \<times> cdb \<Rightarrow> (vars \<times> cdb) option" where
  "Cdb_Unlink rms s =
     (case s of (v, c) \<Rightarrow>
       do { (wLits, wVals) \<leftarrow>
              foldM (unlink_clause (cd_D (cb_CDat c))) rms (cb_AddLits c, cb_AddVals c);
            W \<leftarrow> foldM (unlink_watch rms) wLits (vs_Watches v);
            wVals \<leftarrow> clear_vals wLits wVals;
            Some (v\<lparr>vs_Watches := W\<rparr>, c\<lparr>cb_AddVals := wVals, cb_AddLits := []\<rparr>) })"

section \<open>Copying and growing\<close>

definition Cdb_CopyWith :: "cdb \<Rightarrow> cdb" where
  "Cdb_CopyWith c =
     \<lparr>cb_CDat = CDat_Copy (cb_CDat c), cb_AddLits = cb_AddLits c, cb_AddVals = cb_AddVals c,
      cb_Bot = cb_Bot c, cb_Added = cb_Added c, cb_Learnts = cb_Learnts c,
      cb_checkModel = cb_checkModel c, cb_gc = Cgc_Copy (cb_gc c)\<rparr>"

definition Cdb_growToVar :: "var \<Rightarrow> cdb \<Rightarrow> cdb" where
  "Cdb_growToVar u c = (let u = u + 1 in c\<lparr>cb_AddVals := grow_list (unat u) 0 (cb_AddVals c)\<rparr>)"

declare lits_loop.simps [code]

end
