(* ===== verification/Guess.thy ===== *)
theory Guess
  imports Cdb
begin

text \<open>
  The decision heuristic (\<^verbatim>\<open>internal/xo/guess.go\<close>): a binary max-heap of variables ordered by a
  heat, with the position of every variable and its cached phase.

  The heat is a \<^verbatim>\<open>float64\<close>.  Floating-point numbers are a parameter of the model: a record
  of the operations and constants the code uses, over an arbitrary type.  What the order
  of the heap needs of them is the named hypothesis \<open>floats_ok\<close>, which holds of IEEE double precision
  with a NaN (the number that is not \<open>\<le>\<close> itself): the comparison is transitive, and total on the
  other numbers; sums and the scaling by \<open>1.0 / gBumpLim\<close> with a NaN argument are NaN; and that scaling, by a positive
  factor, is monotone.  The heap is in order as long as no heat is NaN (\<open>heats_ok\<close>); that no operation panics needs neither.
\<close>

record 'h floats =
  fl_le :: "'h \<Rightarrow> 'h \<Rightarrow> bool"
  fl_lt :: "'h \<Rightarrow> 'h \<Rightarrow> bool"
  fl_add :: "'h \<Rightarrow> 'h \<Rightarrow> 'h"
  fl_sub :: "'h \<Rightarrow> 'h \<Rightarrow> 'h"
  fl_mul :: "'h \<Rightarrow> 'h \<Rightarrow> 'h"
  fl_div :: "'h \<Rightarrow> 'h \<Rightarrow> 'h"
  fl_exp :: "'h \<Rightarrow> 'h"
  fl_ofint :: "int \<Rightarrow> 'h"
  fl_inc :: 'h
  fl_gBumpInc :: 'h
  fl_gBumpDecay :: 'h
  fl_gBumpLim :: 'h
  fl_gDecayMin :: 'h
  fl_gDecayMax :: 'h
  fl_gDecayMaxMax :: 'h
  fl_gDecayMaxDecay :: 'h

record 'h guess =
  gs_pos :: "int list"
  gs_vhp :: "var list"
  gs_heat :: "'h list"
  gs_cache :: "int list"
  gs_decays :: int
  gs_restartDecays :: int
  gs_decayMax :: 'h
  gs_decayMin :: 'h
  gs_decayMaxMax :: 'h
  gs_decayMaxDecay :: 'h
  gs_bumpInc :: 'h
  gs_bumpDecay :: 'h
  gs_bumpLim :: 'h

definition newGuess :: "'h floats \<Rightarrow> nat \<Rightarrow> 'h guess" where
  "newGuess fl capHint =
     (let top = capHint + 1
      in \<lparr>gs_pos = replicate top (-1), gs_vhp = [], gs_heat = replicate top (fl_ofint fl 0),
          gs_cache = replicate top 0, gs_decays = 0, gs_restartDecays = 0,
          gs_decayMax = fl_gDecayMax fl, gs_decayMin = fl_gDecayMin fl,
          gs_decayMaxMax = fl_gDecayMaxMax fl, gs_decayMaxDecay = fl_gDecayMaxDecay fl,
          gs_bumpInc = fl_gBumpInc fl, gs_bumpDecay = fl_gBumpDecay fl,
          gs_bumpLim = fl_gBumpLim fl\<rparr>)"

section \<open>The heap\<close>

definition hp_swap :: "nat \<Rightarrow> nat \<Rightarrow> 'h guess \<Rightarrow> 'h guess option" where
  "hp_swap i j g =
     do { u \<leftarrow> aget (gs_vhp g) i;
          v \<leftarrow> aget (gs_vhp g) j;
          vhp \<leftarrow> aset (gs_vhp g) i v;
          vhp \<leftarrow> aset vhp j u;
          pos \<leftarrow> aset (gs_pos g) (unat u) (int j);
          pos \<leftarrow> aset pos (unat v) (int i);
          Some (g\<lparr>gs_vhp := vhp, gs_pos := pos\<rparr>) }"

definition heat_at :: "'h guess \<Rightarrow> nat \<Rightarrow> 'h option" where
  "heat_at g i = do { v \<leftarrow> aget (gs_vhp g) i; aget (gs_heat g) (unat v) }"

text \<open>\<open>(j - 1) / 2\<close> truncates towards zero, so the parent of the root is the root.\<close>

function hp_up :: "'h floats \<Rightarrow> nat \<Rightarrow> 'h guess \<Rightarrow> 'h guess option" where
  "hp_up fl j g =
     (let i = (j - 1) div 2
      in if i = j then Some g
         else do { hj \<leftarrow> heat_at g j;
                   hi \<leftarrow> heat_at g i;
                   if fl_le fl hj hi then Some g
                   else do { g \<leftarrow> hp_swap i j g; hp_up fl i g } })"
  by pat_completeness auto
termination
  by (relation "measure (\<lambda>(fl, j, g). j)") auto

function hp_down :: "'h floats \<Rightarrow> nat \<Rightarrow> nat \<Rightarrow> 'h guess \<Rightarrow> 'h guess option" where
  "hp_down fl i n g =
     (let j1 = 2 * i + 1
      in if j1 \<ge> n then Some g
         else let j2 = j1 + 1
              in do { j \<leftarrow> (if j2 < n
                             then do { h1 \<leftarrow> heat_at g j1; h2 \<leftarrow> heat_at g j2;
                                       Some (if fl_le fl h1 h2 then j2 else j1) }
                             else Some j1);
                      hj \<leftarrow> heat_at g j;
                      hi \<leftarrow> heat_at g i;
                      if fl_le fl hj hi then Some g
                      else do { g \<leftarrow> hp_swap i j g; hp_down fl j n g } })"
  by pat_completeness auto
termination
  by (relation "measure (\<lambda>(fl, i, n, g). n - i)")
     (auto split: if_splits Option.bind_splits)

declare hp_up.simps [simp del] hp_down.simps [simp del]

definition hp_pop :: "'h floats \<Rightarrow> 'h guess \<Rightarrow> (var \<times> 'h guess) option" where
  "hp_pop fl g =
     do { _ \<leftarrow> assert_o (gs_vhp g \<noteq> []);
          let n = length (gs_vhp g) - 1;
          g \<leftarrow> hp_swap 0 n g;
          g \<leftarrow> hp_down fl 0 n g;
          v \<leftarrow> aget (gs_vhp g) n;
          pos \<leftarrow> aset (gs_pos g) (unat v) (-1);
          Some (v, g\<lparr>gs_vhp := take n (gs_vhp g), gs_pos := pos\<rparr>) }"

definition Guess_Push :: "'h floats \<Rightarrow> lit \<Rightarrow> 'h guess \<Rightarrow> 'h guess option" where
  "Guess_Push fl m g =
     (let v = lit_Var m
      in do { cache \<leftarrow> aset (gs_cache g) (unat v) (lit_Sign m);
              let g = g\<lparr>gs_cache := cache\<rparr>;
              p \<leftarrow> aget (gs_pos g) (unat v);
              if p \<noteq> -1 then Some g
              else do { pos \<leftarrow> aset (gs_pos g) (unat v) (int (length (gs_vhp g)));
                        let g = g\<lparr>gs_pos := pos, gs_vhp := gs_vhp g @ [v]\<rparr>;
                        hp_up fl (length (gs_vhp g) - 1) g } })"

definition hp_heapify :: "'h floats \<Rightarrow> 'h guess \<Rightarrow> 'h guess option" where
  "hp_heapify fl g =
     (let n = length (gs_vhp g)
      in foldM (\<lambda>i g. hp_down fl i n g) (rev [0..<n div 2]) g)"

definition Guess_fix :: "'h floats \<Rightarrow> lit \<Rightarrow> 'h guess \<Rightarrow> 'h guess option" where
  "Guess_fix fl m g =
     do { i \<leftarrow> aget (gs_pos g) (unat (lit_Var m));
          _ \<leftarrow> assert_o (0 \<le> i);
          g \<leftarrow> hp_down fl (nat i) (length (gs_vhp g)) g;
          hp_up fl (nat i) g }"

section \<open>Guessing and heat\<close>

text \<open>
  Guess pops variables until one is unassigned; the counter \<open>n\<close> of the Go loop starts at the
  length of the heap and is the fuel of the recursion.
\<close>

fun guess_loop :: "'h floats \<Rightarrow> int list \<Rightarrow> nat \<Rightarrow> 'h guess \<Rightarrow> (lit \<times> 'h guess) option" where
  "guess_loop fl vals 0 g = Some (LitNull, g)"
| "guess_loop fl vals (Suc n) g =
     do { (v, g) \<leftarrow> hp_pop fl g;
          x \<leftarrow> aget vals (unat (var_Pos v));
          if x = 0
          then do { c \<leftarrow> aget (gs_cache g) (unat v);
                    Some (if c = -1 then var_Neg v else var_Pos v, g) }
          else guess_loop fl vals n g }"

definition Guess_Guess :: "'h floats \<Rightarrow> int list \<Rightarrow> 'h guess \<Rightarrow> (lit \<times> 'h guess) option" where
  "Guess_Guess fl vals g = guess_loop fl vals (length (gs_vhp g)) g"

definition Guess_Bump :: "'h floats \<Rightarrow> lit \<Rightarrow> 'h guess \<Rightarrow> (bool \<times> 'h guess) option" where
  "Guess_Bump fl m g =
     (let v = lit_Var m
      in do { p \<leftarrow> aget (gs_pos g) (unat v);
              hv \<leftarrow> aget (gs_heat g) (unat v);
              let h = fl_add fl hv (gs_bumpInc g);
              heat \<leftarrow> aset (gs_heat g) (unat v) h;
              let g = g\<lparr>gs_heat := heat\<rparr>;
              let (res, g) =
                (if fl_lt fl (gs_bumpLim g) h
                 then let scale = fl_div fl (fl_ofint fl 1) (gs_bumpLim g)
                      in (True, g\<lparr>gs_heat := map (\<lambda>t. fl_mul fl t scale) (gs_heat g),
                                  gs_bumpInc := fl_mul fl (gs_bumpInc g) scale\<rparr>)
                 else (False, g));
              if p \<noteq> -1
              then do { _ \<leftarrow> assert_o (0 \<le> p);
                        g \<leftarrow> hp_down fl (nat p) (length (gs_vhp g)) g;
                        g \<leftarrow> hp_up fl (nat p) g;
                        Some (res, g) }
              else Some (res, g) })"

definition Guess_Decay :: "'h floats \<Rightarrow> 'h guess \<Rightarrow> 'h guess" where
  "Guess_Decay fl g =
     (let g = g\<lparr>gs_decays := gs_decays g + 1\<rparr>;
          rat = fl_div fl (fl_ofint fl (gs_decays g)) (fl_ofint fl (gs_restartDecays g));
          v = fl_exp fl (fl_mul fl (fl_ofint fl (-100)) (fl_sub fl (fl_ofint fl 1) rat));
          decayRange = fl_sub fl (gs_decayMax g) (gs_decayMin g);
          g = g\<lparr>gs_bumpDecay := fl_sub fl (gs_decayMax g) (fl_mul fl v decayRange)\<rparr>
      in g\<lparr>gs_bumpInc := fl_div fl (gs_bumpInc g) (gs_bumpDecay g)\<rparr>)"

definition Guess_nextRestart :: "'h floats \<Rightarrow> int \<Rightarrow> 'h guess \<Rightarrow> 'h guess" where
  "Guess_nextRestart fl nxt g =
     g\<lparr>gs_decays := 0, gs_restartDecays := nxt,
       gs_decayMax := fl_add fl (fl_mul fl (gs_decayMaxDecay g) (gs_decayMax g))
         (fl_mul fl (fl_sub fl (fl_ofint fl 1) (gs_decayMaxDecay g)) (gs_decayMaxMax g))\<rparr>"

definition Guess_Len :: "'h guess \<Rightarrow> nat" where
  "Guess_Len g = length (gs_vhp g)"

definition Guess_At :: "nat \<Rightarrow> 'h guess \<Rightarrow> var option" where
  "Guess_At i g = aget (gs_vhp g) i"

definition Guess_Heat :: "'h guess \<Rightarrow> 'h option" where
  "Guess_Heat g = aget (gs_heat g) 0"

fun guess_has :: "int list \<Rightarrow> var list \<Rightarrow> bool option" where
  "guess_has vals [] = Some False"
| "guess_has vals (v # vs) =
     do { x \<leftarrow> aget vals (unat (var_Pos v)); if x = 0 then Some True else guess_has vals vs }"

definition Guess_has :: "int list \<Rightarrow> 'h guess \<Rightarrow> bool option" where
  "Guess_has vals g = guess_has vals (gs_vhp g)"

section \<open>Building, copying and growing\<close>

definition warm :: "'h floats \<Rightarrow> chd \<Rightarrow> lit \<Rightarrow> 'h list \<Rightarrow> 'h list option" where
  "warm fl h m heat =
     (if chd_Size h \<ge> 16 then Some heat
      else do { t \<leftarrow> aget heat (unat (lit_Var m));
                aset heat (unat (lit_Var m)) (fl_add fl t (fl_inc fl)) })"

definition NewGuessCdb :: "'h floats \<Rightarrow> vars \<Rightarrow> cdb \<Rightarrow> 'h guess option" where
  "NewGuessCdb fl v c =
     (let top = unat (vs_Top v);
          g = newGuess fl top;
          mx = unat (vs_Max v);
          g = g\<lparr>gs_vhp := map of_nat [1..<mx + 1],
                gs_pos := map (\<lambda>i. if 1 \<le> i \<and> i \<le> mx then int i - 1 else -1) [0..<top + 1]\<rparr>
      in do { _ \<leftarrow> assert_o (mx \<le> top);
              cls \<leftarrow> Cdb_Forall c;
              heat \<leftarrow> foldM (\<lambda>(p, h, ms). foldM (warm fl h) ms) cls (gs_heat g);
              hp_heapify fl (g\<lparr>gs_heat := heat\<rparr>) })"

text \<open>
  The copy is made with a structure literal that leaves the decay structure at its zero values.
\<close>

definition Guess_Copy :: "'h floats \<Rightarrow> 'h guess \<Rightarrow> 'h guess" where
  "Guess_Copy fl g =
     \<lparr>gs_pos = gs_pos g, gs_vhp = gs_vhp g, gs_heat = gs_heat g, gs_cache = gs_cache g,
      gs_decays = 0, gs_restartDecays = 0, gs_decayMax = fl_ofint fl 0,
      gs_decayMin = fl_ofint fl 0, gs_decayMaxMax = fl_ofint fl 0,
      gs_decayMaxDecay = fl_ofint fl 0, gs_bumpInc = gs_bumpInc g,
      gs_bumpDecay = gs_bumpDecay g, gs_bumpLim = gs_bumpLim g\<rparr>"

definition Guess_growToVar :: "'h floats \<Rightarrow> var \<Rightarrow> 'h guess \<Rightarrow> 'h guess option" where
  "Guess_growToVar fl u g =
     (let w = unat (u + 1);
          n = length (gs_pos g);
          vhp = gs_vhp g @ map of_nat [n..<w];
          pos = take w (gs_pos g) @ map (\<lambda>i. int (length (gs_vhp g)) + int (i - n)) [n..<w]
      in do { _ \<leftarrow> assert_o (length (gs_vhp g) \<le> w);
              hp_heapify fl
           (g\<lparr>gs_vhp := vhp, gs_pos := pos, gs_heat := grow_list w (fl_ofint fl 0) (gs_heat g),
              gs_cache := grow_list w 0 (gs_cache g)\<rparr>) })"

section \<open>Well-formed heaps\<close>

definition gs_wf :: "'h guess \<Rightarrow> bool" where
  "gs_wf g \<longleftrightarrow>
     length (gs_heat g) = length (gs_pos g) \<and> length (gs_cache g) = length (gs_pos g)
     \<and> length (gs_pos g) < 2 ^ 31
     \<and> (\<forall>i < length (gs_vhp g). unat (gs_vhp g ! i) < length (gs_pos g)
           \<and> gs_pos g ! unat (gs_vhp g ! i) = int i)
     \<and> (\<forall>v < length (gs_pos g). gs_pos g ! v \<noteq> -1 \<longrightarrow>
           (\<exists>i < length (gs_vhp g). unat (gs_vhp g ! i) = v))"

definition gs_key :: "'h guess \<Rightarrow> nat \<Rightarrow> 'h" where
  "gs_key g i = gs_heat g ! unat (gs_vhp g ! i)"

text \<open>Two heaps that differ in the arrangement only.\<close>

definition gs_core :: "'h guess \<Rightarrow> 'h guess" where
  "gs_core g = g\<lparr>gs_vhp := [], gs_pos := []\<rparr>"

definition same_but_order :: "'h guess \<Rightarrow> 'h guess \<Rightarrow> bool" where
  "same_but_order g g' \<longleftrightarrow>
     gs_core g' = gs_core g \<and> set (gs_vhp g') = set (gs_vhp g)
     \<and> length (gs_vhp g') = length (gs_vhp g) \<and> length (gs_pos g') = length (gs_pos g)"

lemma gs_core_upd [simp]: "gs_core (g\<lparr>gs_vhp := vhp, gs_pos := pos\<rparr>) = gs_core g"
  by (simp add: gs_core_def)

lemma same_refl [simp]: "same_but_order g g"
  by (simp add: same_but_order_def)

lemma same_trans: "same_but_order g g' \<Longrightarrow> same_but_order g' g'' \<Longrightarrow> same_but_order g g''"
  by (simp add: same_but_order_def)

lemma sameD:
  assumes "same_but_order g g'"
  shows "gs_heat g' = gs_heat g" "gs_cache g' = gs_cache g" "set (gs_vhp g') = set (gs_vhp g)"
    "length (gs_vhp g') = length (gs_vhp g)" "length (gs_pos g') = length (gs_pos g)"
    "gs_bumpInc g' = gs_bumpInc g" "gs_bumpLim g' = gs_bumpLim g"
proof -
  have c: "gs_core g' = gs_core g" using assms by (simp add: same_but_order_def)
  show "gs_heat g' = gs_heat g" using arg_cong [OF c, of gs_heat] by (simp add: gs_core_def)
  show "gs_cache g' = gs_cache g" using arg_cong [OF c, of gs_cache] by (simp add: gs_core_def)
  show "gs_bumpInc g' = gs_bumpInc g" using arg_cong [OF c, of gs_bumpInc] by (simp add: gs_core_def)
  show "gs_bumpLim g' = gs_bumpLim g" using arg_cong [OF c, of gs_bumpLim] by (simp add: gs_core_def)
qed (use assms in \<open>simp_all add: same_but_order_def\<close>)

lemma gs_wfD:
  assumes "gs_wf g"
  shows "length (gs_heat g) = length (gs_pos g)" and "length (gs_cache g) = length (gs_pos g)"
    and "length (gs_pos g) < 2147483648"
    and "\<And>i. i < length (gs_vhp g) \<Longrightarrow> unat (gs_vhp g ! i) < length (gs_pos g)"
    and "\<And>i. i < length (gs_vhp g) \<Longrightarrow> gs_pos g ! unat (gs_vhp g ! i) = int i"
    and "\<And>v. v < length (gs_pos g) \<Longrightarrow> gs_pos g ! v \<noteq> -1 \<Longrightarrow>
           \<exists>i < length (gs_vhp g). unat (gs_vhp g ! i) = v"
  using assms by (auto simp: gs_wf_def)

lemma gs_vhp_inj:
  "gs_wf g \<Longrightarrow> i < length (gs_vhp g) \<Longrightarrow> j < length (gs_vhp g) \<Longrightarrow>
   gs_vhp g ! i = gs_vhp g ! j \<longleftrightarrow> i = j"
  by (metis gs_wfD(5) of_nat_eq_iff)

lemma gs_distinct: "gs_wf g \<Longrightarrow> distinct (gs_vhp g)"
  by (simp add: distinct_conv_nth gs_vhp_inj)

lemma gs_pos_mem:
  assumes "gs_wf g" and "unat v < length (gs_pos g)"
  shows "gs_pos g ! unat v \<noteq> -1 \<longleftrightarrow> v \<in> set (gs_vhp g)"
proof
  assume "gs_pos g ! unat v \<noteq> -1"
  then show "v \<in> set (gs_vhp g)"
    using gs_wfD(6) [OF assms] by (auto simp: in_set_conv_nth word_eq_iff_unat)
next
  assume "v \<in> set (gs_vhp g)"
  then show "gs_pos g ! unat v \<noteq> -1"
    using gs_wfD(5) [OF assms(1)] by (auto simp: in_set_conv_nth)
qed

lemma heat_at_key: "gs_wf g \<Longrightarrow> i < length (gs_vhp g) \<Longrightarrow> heat_at g i = Some (gs_key g i)"
  by (simp add: heat_at_def gs_key_def gs_wfD(1,4))

lemma hp_swap_spec:
  assumes wf: "gs_wf g" and i: "i < length (gs_vhp g)" and j: "j < length (gs_vhp g)"
  shows "returns (hp_swap i j g) (\<lambda>g'. gs_wf g' \<and> same_but_order g g'
     \<and> gs_vhp g' = (gs_vhp g)[i := gs_vhp g ! j, j := gs_vhp g ! i])"
proof -
  define u v where "u = gs_vhp g ! i" and "v = gs_vhp g ! j"
  define vhp pos where "vhp = (gs_vhp g)[i := v, j := u]"
    and "pos = (gs_pos g)[unat u := int j, unat v := int i]"
  note wfD = gs_wfD [OF wf]
  have uv: "unat u < length (gs_pos g)" "unat v < length (gs_pos g)"
    using wfD(4) i j by (simp_all add: u_def v_def)
  have run: "hp_swap i j g = Some (g\<lparr>gs_vhp := vhp, gs_pos := pos\<rparr>)"
    using i j uv by (simp add: hp_swap_def u_def v_def vhp_def pos_def)
  have nth: "vhp ! k = (if k = j then u else if k = i then v else gs_vhp g ! k)"
    if "k < length (gs_vhp g)" for k
    using i j that by (simp add: vhp_def nth_list_update)
  have ne: "unat (gs_vhp g ! k) = unat u \<longleftrightarrow> k = i" "unat (gs_vhp g ! k) = unat v \<longleftrightarrow> k = j"
    if "k < length (gs_vhp g)" for k
    using gs_vhp_inj [OF wf that i] gs_vhp_inj [OF wf that j]
    by (simp_all add: u_def v_def word_eq_iff_unat)
  have pos: "pos ! w = (if w = unat v then int i else if w = unat u then int j else gs_pos g ! w)"
    if "w < length (gs_pos g)" for w
    using uv that by (simp add: pos_def nth_list_update)
  have uv_eq: "unat u = unat v \<longleftrightarrow> i = j" using ne(2) [OF i] by (simp add: u_def)
  have wf': "gs_wf (g\<lparr>gs_vhp := vhp, gs_pos := pos\<rparr>)"
    unfolding gs_wf_def
  proof (intro conjI allI impI; simp)
    show "length (gs_heat g) = length pos" "length (gs_cache g) = length pos"
      "length pos < 2147483648" using wfD(1-3) by (simp_all add: pos_def)
    fix k assume "k < length vhp"
    then have k: "k < length (gs_vhp g)" by (simp add: vhp_def)
    show "unat (vhp ! k) < length pos" using nth [OF k] uv wfD(4) [OF k] by (simp add: pos_def)
    show "pos ! unat (vhp ! k) = int k"
      using nth [OF k] ne [OF k] uv_eq wfD(4,5) [OF k] uv by (auto simp: pos)
  next
    fix w assume w: "w < length pos" and p: "pos ! w \<noteq> -1"
    have w': "w < length (gs_pos g)" using w by (simp add: pos_def)
    consider "w = unat u" | "w = unat v" | "w \<noteq> unat u" "w \<noteq> unat v" by blast
    then show "\<exists>k < length vhp. unat (vhp ! k) = w"
    proof cases
      case 1 then show ?thesis using nth [OF j] j by (intro exI [of _ j]) (simp add: vhp_def)
    next
      case 2 then show ?thesis
        using nth [OF i] i uv_eq by (intro exI [of _ i]) (auto simp: vhp_def)
    next
      case 3
      then obtain k where k: "k < length (gs_vhp g)" "unat (gs_vhp g ! k) = w"
        using wfD(6) [OF w'] p pos [OF w'] by auto
      then have "k \<noteq> i" "k \<noteq> j" using 3 by (auto simp: u_def v_def)
      then show ?thesis using k nth [OF k(1)] by (intro exI [of _ k]) (simp add: vhp_def)
    qed
  qed
  have "set vhp = set (gs_vhp g)"
    using i j unfolding vhp_def u_def v_def by (rule set_swap)
  then have "same_but_order g (g\<lparr>gs_vhp := vhp, gs_pos := pos\<rparr>)"
    by (simp add: same_but_order_def vhp_def pos_def)
  then show ?thesis unfolding run using wf' by (simp add: vhp_def u_def v_def)
qed

lemma hp_up_wf: "gs_wf g \<Longrightarrow> j < length (gs_vhp g) \<Longrightarrow>
  returns (hp_up fl j g) (\<lambda>g'. gs_wf g' \<and> same_but_order g g')"
proof (induction fl j g rule: hp_up.induct)
  case (1 fl j g)
  define i where "i = (j - 1) div 2"
  have i': "(j - Suc 0) div 2 = i" by (simp add: i_def)
  have ij: "i \<le> j" by (simp add: i_def)
  have il: "i < length (gs_vhp g)" using ij 1(3) by simp
  note hs = heat_at_key [OF 1(2) 1(3)] heat_at_key [OF 1(2) il]
  show ?case
  proof (cases "i = j \<or> fl_le fl (gs_key g j) (gs_key g i)")
    case True
    then show ?thesis using 1(2) hs by (subst hp_up.simps) (auto simp: Let_def i')
  next
    case False
    obtain g' where g': "hp_swap i j g = Some g'" "gs_wf g'" "same_but_order g g'"
      using hp_swap_spec [OF 1(2) il 1(3)] by (auto simp: returns_def)
    have "returns (hp_up fl i g') (\<lambda>g''. gs_wf g'' \<and> same_but_order g' g'')"
    proof (rule 1(1) [OF i_def _ hs _ g'(1,2)])
      show "i \<noteq> j" "\<not> fl_le fl (gs_key g j) (gs_key g i)" using False by auto
      show "i < length (gs_vhp g')" using il sameD(4) [OF g'(3)] by simp
    qed
    then have "returns (hp_up fl i g') (\<lambda>g''. gs_wf g'' \<and> same_but_order g g'')"
      by (rule returns_mono) (auto intro: same_trans [OF g'(3)])
    then show ?thesis
      using False hs g'(1) by (subst hp_up.simps) (simp add: Let_def i')
  qed
qed

section \<open>The order of the heap\<close>

definition floats_ok :: "'h floats \<Rightarrow> bool" where
  "floats_ok fl \<longleftrightarrow>
     (let scale = fl_div fl (fl_ofint fl 1) (fl_gBumpLim fl) in
      (\<forall>a b. fl_le fl a a \<longrightarrow> fl_le fl b b \<longrightarrow> fl_le fl a b \<or> fl_le fl b a)
      \<and> (\<forall>a b c. fl_le fl a b \<longrightarrow> fl_le fl b c \<longrightarrow> fl_le fl a c)
      \<and> (\<forall>a b. fl_le fl (fl_add fl a b) (fl_add fl a b) \<longrightarrow> fl_le fl a a)
      \<and> (\<forall>a. fl_le fl (fl_mul fl a scale) (fl_mul fl a scale) \<longrightarrow> fl_le fl a a)
      \<and> (\<forall>a b. fl_le fl a b \<longrightarrow> fl_le fl (fl_mul fl a scale) (fl_mul fl b scale)))"

text \<open>No heat is NaN.\<close>

definition heats_ok :: "'h floats \<Rightarrow> 'h guess \<Rightarrow> bool" where
  "heats_ok fl g \<longleftrightarrow> floats_ok fl \<and> (\<forall>h \<in> set (gs_heat g). fl_le fl h h)"

lemma heats_ok_same: "same_but_order g g' \<Longrightarrow> heats_ok fl g' = heats_ok fl g"
  by (simp add: heats_ok_def sameD(1))

lemma gs_key_heat: "gs_wf g \<Longrightarrow> k < length (gs_vhp g) \<Longrightarrow> gs_key g k \<in> set (gs_heat g)"
  using gs_wfD(1,4) [of g] by (simp add: gs_key_def)

lemma heats_okD:
  assumes "heats_ok fl g"
  shows "fl_le fl a b \<Longrightarrow> fl_le fl b c \<Longrightarrow> fl_le fl a c"
  using assms unfolding heats_ok_def floats_ok_def Let_def by blast

lemma heats_ok_keys:
  assumes "heats_ok fl g" and "gs_wf g" and "i < length (gs_vhp g)"
  shows "fl_le fl (gs_key g i) (gs_key g i)"
    and "j < length (gs_vhp g) \<Longrightarrow> \<not> fl_le fl (gs_key g i) (gs_key g j) \<Longrightarrow> fl_le fl (gs_key g j) (gs_key g i)"
proof -
  have n: "fl_le fl (gs_key g k) (gs_key g k)" if "k < length (gs_vhp g)" for k
    using assms(1) gs_key_heat [OF assms(2) that] by (simp add: heats_ok_def)
  show "fl_le fl (gs_key g i) (gs_key g i)" using n [OF assms(3)] .
  show "fl_le fl (gs_key g j) (gs_key g i)" if "j < length (gs_vhp g)" "\<not> fl_le fl (gs_key g i) (gs_key g j)"
    using assms(1) that n [OF that(1)] n [OF assms(3)] unfolding heats_ok_def floats_ok_def Let_def by blast
qed

definition parent :: "nat \<Rightarrow> nat" where
  "parent k = (k - 1) div 2"

lemma parent_less [simp]: "0 < k \<Longrightarrow> parent k < k"
  by (simp add: parent_def)

lemma parent_neq [simp]: "0 < k \<Longrightarrow> parent k \<noteq> k" "0 < k \<Longrightarrow> \<not> k \<le> parent k"
  using parent_less [of k] by linarith+

lemma parent_iff: "0 < k \<Longrightarrow> parent k = i \<longleftrightarrow> k = 2 * i + 1 \<or> k = 2 * i + 2"
  by (auto simp: parent_def)

text \<open>\<open>ordered fl g lo n\<close>: every position below \<open>n\<close> with parent from \<open>lo\<close> on is at most its parent.\<close>

definition ord_at :: "'h floats \<Rightarrow> 'h guess \<Rightarrow> nat \<Rightarrow> bool" where
  "ord_at fl g k \<longleftrightarrow> fl_le fl (gs_key g k) (gs_key g (parent k))"

definition ordered :: "'h floats \<Rightarrow> 'h guess \<Rightarrow> nat \<Rightarrow> nat \<Rightarrow> bool" where
  "ordered fl g lo n \<longleftrightarrow> (\<forall>k. 0 < k \<longrightarrow> k < n \<longrightarrow> lo \<le> parent k \<longrightarrow> ord_at fl g k)"

lemma swap_key:
  assumes "gs_vhp g' = (gs_vhp g)[i := gs_vhp g ! j, j := gs_vhp g ! i]" "gs_heat g' = gs_heat g"
    and "i < length (gs_vhp g)" "j < length (gs_vhp g)" "k < length (gs_vhp g)"
  shows "gs_key g' k = gs_key g (if k = i then j else if k = j then i else k)"
  using assms by (auto simp: gs_key_def nth_list_update)

lemma hp_down_cases:
  assumes wf: "gs_wf g" and n: "n \<le> length (gs_vhp g)"
  obtains (stop) "hp_down fl i n g = Some g"
      "heats_ok fl g \<Longrightarrow> \<forall>k. 0 < k \<longrightarrow> k < n \<longrightarrow> parent k = i \<longrightarrow> ord_at fl g k"
  | (swap) j g' where "j < n" "0 < j" "parent j = i" "i < j" "gs_wf g'" "same_but_order g g'"
      "gs_vhp g' = (gs_vhp g)[i := gs_vhp g ! j, j := gs_vhp g ! i]"
      "hp_down fl i n g = hp_down fl j n g'" "\<not> fl_le fl (gs_key g j) (gs_key g i)"
      "heats_ok fl g \<Longrightarrow> \<forall>k. 0 < k \<longrightarrow> k < n \<longrightarrow> parent k = i \<longrightarrow> fl_le fl (gs_key g k) (gs_key g j)"
proof (cases "2 * i + 1 \<ge> n")
  case True
  show thesis
  proof (rule stop)
    show "hp_down fl i n g = Some g" by (subst hp_down.simps) (use True in \<open>simp add: Let_def\<close>)
    show "\<forall>k. 0 < k \<longrightarrow> k < n \<longrightarrow> parent k = i \<longrightarrow> ord_at fl g k"
      using True by (auto simp: parent_iff)
  qed
next
  case False
  define j where "j = (if 2 * i + 2 < n \<and> fl_le fl (gs_key g (2 * i + 1)) (gs_key g (2 * i + 2))
                       then 2 * i + 2 else 2 * i + 1)"
  have j: "j < n" "0 < j" "i < j" using False by (auto simp: j_def)
  then have pj: "parent j = i" by (subst parent_iff) (auto simp: j_def)
  have il: "i < length (gs_vhp g)" and jl: "j < length (gs_vhp g)" using j n by auto
  have hs: "heat_at g i = Some (gs_key g i)" "heat_at g j = Some (gs_key g j)"
    "heat_at g (Suc (2 * i)) = Some (gs_key g (2 * i + 1))"
    "2 * i + 2 < n \<Longrightarrow> heat_at g (Suc (Suc (2 * i))) = Some (gs_key g (2 * i + 2))"
    using False n il jl by (auto simp: heat_at_key [OF wf])
  have run: "hp_down fl i n g =
     (if fl_le fl (gs_key g j) (gs_key g i) then Some g
      else do { g \<leftarrow> hp_swap i j g; hp_down fl j n g })"
    by (subst hp_down.simps) (use False hs in \<open>auto simp: Let_def j_def\<close>)
  have max: "fl_le fl (gs_key g k) (gs_key g j)"
    if k: "0 < k" "k < n" "parent k = i" and h: "heats_ok fl g" for k
  proof -
    have kl: "k < length (gs_vhp g)" using k n by simp
    note K = heats_ok_keys [OF h wf]
    let ?le = "fl_le fl (gs_key g (2 * i + 1)) (gs_key g (2 * i + 2))"
    have "k = 2 * i + 1 \<or> k = 2 * i + 2" using parent_iff [OF k(1)] k(3) by blast
    moreover have "j = (if 2 * i + 2 < n \<and> ?le then 2 * i + 2 else 2 * i + 1)" by (rule j_def)
    ultimately consider "k = j" | "k = 2 * i + 1" "j = 2 * i + 2" ?le | "k = 2 * i + 2" "j = 2 * i + 1" "\<not> ?le"
      using k(2) by metis
    then show ?thesis
    proof cases
      case 3
      then have "\<not> fl_le fl (gs_key g j) (gs_key g k)" by simp
      then show ?thesis by (rule K(2) [OF jl kl])
    qed (use K(1) [OF jl] in simp_all)
  qed
  show thesis
  proof (cases "fl_le fl (gs_key g j) (gs_key g i)")
    case True
    then show thesis
      using run max by (intro stop) (auto simp: ord_at_def intro: heats_okD)
  next
    case nle: False
    obtain g' where "hp_swap i j g = Some g'" "gs_wf g'" "same_but_order g g'"
      "gs_vhp g' = (gs_vhp g)[i := gs_vhp g ! j, j := gs_vhp g ! i]"
      using hp_swap_spec [OF wf il jl] by (auto simp: returns_def)
    then show thesis using run nle max j pj by (intro swap [of j g']) auto
  qed
qed

lemma hp_down_wf:
  assumes "gs_wf g" and "n \<le> length (gs_vhp g)"
  shows "returns (hp_down fl i n g) (\<lambda>g'. gs_wf g' \<and> same_but_order g g'
     \<and> (\<forall>k. n \<le> k \<longrightarrow> gs_vhp g' ! k = gs_vhp g ! k))"
  using assms
proof (induction "n - i" arbitrary: i g rule: less_induct)
  case less
  from less.prems show ?case
  proof (cases rule: hp_down_cases [where fl = fl and i = i])
    case stop
    then show ?thesis using less.prems by simp
  next
    case (swap j g')
    have "returns (hp_down fl j n g') (\<lambda>g''. gs_wf g'' \<and> same_but_order g' g''
        \<and> (\<forall>k. n \<le> k \<longrightarrow> gs_vhp g'' ! k = gs_vhp g' ! k))"
      using swap less.prems by (intro less.hyps) (auto simp: sameD(4))
    then show ?thesis
      unfolding swap(8)
      by (rule returns_mono) (use swap(1,4,6,7) in \<open>auto intro: same_trans [OF swap(6)]\<close>)
  qed
qed

lemma hp_down_ordered:
  assumes "heats_ok fl g" and "gs_wf g" and "n \<le> length (gs_vhp g)"
    and "\<And>k. 0 < k \<Longrightarrow> k < n \<Longrightarrow> lo \<le> parent k \<Longrightarrow> parent k \<noteq> i \<Longrightarrow> ord_at fl g k"
    and "\<And>k. 0 < k \<Longrightarrow> k < n \<Longrightarrow> parent k = i \<Longrightarrow> 0 < i \<Longrightarrow> lo \<le> parent i \<Longrightarrow>
           fl_le fl (gs_key g k) (gs_key g (parent i))"
  shows "returns (hp_down fl i n g) (\<lambda>g'. ordered fl g' lo n)"
  using assms
proof (induction "n - i" arbitrary: i g rule: less_induct)
  case less
  from less.prems(2,3) show ?case
  proof (cases rule: hp_down_cases [where fl = fl and i = i])
    case stop
    then show ?thesis using less.prems(1,4) by (auto simp: ordered_def)
  next
    case (swap j g')
    have jl: "j < length (gs_vhp g)" "i < length (gs_vhp g)" using swap less.prems(3) by auto
    have key: "gs_key g' k = gs_key g (if k = i then j else if k = j then i else k)" if "k < n" for k
      using swap_key [OF swap(7) sameD(1) [OF swap(6)] jl(2,1)] that less.prems(3) by simp
    have kids: "fl_le fl (gs_key g k) (gs_key g j)" if "0 < k" "k < n" "parent k = i" for k
      using swap(10) [OF less.prems(1)] that by blast
    have pn: "parent k < n" if "0 < k" "k < n" for k using that parent_less [of k] by linarith
    have ij: "fl_le fl (gs_key g i) (gs_key g j)"
      by (rule heats_ok_keys(2) [OF less.prems(1,2) jl swap(9)])
    have "returns (hp_down fl j n g') (\<lambda>g'. ordered fl g' lo n)"
    proof (rule less.hyps)
      show "n - j < n - i" using swap by auto
      show "heats_ok fl g'" using less.prems(1) heats_ok_same [OF swap(6)] by simp
      show "gs_wf g'" by (rule swap(5))
      show "n \<le> length (gs_vhp g')" using less.prems(3) sameD(4) [OF swap(6)] by simp
    next
      fix k assume k: "0 < k" "k < n" "lo \<le> parent k" "parent k \<noteq> j"
      show "ord_at fl g' k"
      proof (cases "k = i")
        case True
        then show ?thesis
          using less.prems(5) [of j] swap k pn parent_less [of i]
          by (auto simp: ord_at_def key)
      next
        case False
        show ?thesis
        proof (cases "parent k = i")
          case True
          then show ?thesis
            using kids [OF k(1,2)] ij k pn [OF k(1,2)] False by (auto simp: ord_at_def key)
        next
          case np: False
          then have "k \<noteq> j" using swap by auto
          then show ?thesis
            using less.prems(4) [OF k(1,2,3) np] k pn [OF k(1,2)] False np by (auto simp: ord_at_def key)
        qed
      qed
    next
      fix k assume k: "0 < k" "k < n" "parent k = j"
      then have "k \<noteq> i" "k \<noteq> j" using swap(4) parent_less [of k] by auto
      moreover have "ord_at fl g k" if "lo \<le> i" using less.prems(4) [of k] k swap that by auto
      ultimately show "fl_le fl (gs_key g' k) (gs_key g' (parent j))" if "lo \<le> parent j"
        using that k swap(1,3,4) by (auto simp: key ord_at_def)
    qed
    then show ?thesis unfolding swap(8) .
  qed
qed

lemma hp_up_ordered:
  assumes "heats_ok fl g" and "gs_wf g" and "j < length (gs_vhp g)"
    and "\<And>k. 0 < k \<Longrightarrow> k < length (gs_vhp g) \<Longrightarrow> k \<noteq> j \<Longrightarrow> ord_at fl g k"
    and "\<And>k. 0 < k \<Longrightarrow> k < length (gs_vhp g) \<Longrightarrow> parent k = j \<Longrightarrow> 0 < j \<Longrightarrow>
           fl_le fl (gs_key g k) (gs_key g (parent j))"
  shows "returns (hp_up fl j g) (\<lambda>g'. ordered fl g' 0 (length (gs_vhp g)))"
  using assms
proof (induction j arbitrary: g rule: less_induct)
  case (less j)
  note fl = heats_okD [OF less.prems(1)]
  define i where "i = parent j"
  have i': "(j - Suc 0) div 2 = i" by (simp add: i_def parent_def)
  have il: "i < length (gs_vhp g)" using less.prems(3) by (simp add: i_def parent_def)
  note hs = heat_at_key [OF less.prems(2,3)] heat_at_key [OF less.prems(2) il]
  show ?case
  proof (cases "i = j \<or> fl_le fl (gs_key g j) (gs_key g i)")
    case True
    have "j = 0" if "i = j" using that parent_less [of j] by (cases "j = 0") (auto simp: i_def)
    then have "ordered fl g 0 (length (gs_vhp g))"
      using True less.prems(4) by (auto simp: ordered_def ord_at_def i_def)
    moreover have "hp_up fl j g = Some g"
      by (subst hp_up.simps) (use True hs in \<open>auto simp: Let_def i'\<close>)
    ultimately show ?thesis by simp
  next
    case False
    then have j0: "0 < j" by (cases "j = 0") (auto simp: i_def parent_def)
    have ij: "i < j" using j0 by (simp add: i_def)
    obtain g' where g': "hp_swap i j g = Some g'" "gs_wf g'" "same_but_order g g'"
      "gs_vhp g' = (gs_vhp g)[i := gs_vhp g ! j, j := gs_vhp g ! i]"
      using hp_swap_spec [OF less.prems(2) il less.prems(3)] by (auto simp: returns_def)
    have len: "length (gs_vhp g') = length (gs_vhp g)" by (rule sameD(4) [OF g'(3)])
    have key: "gs_key g' k = gs_key g (if k = i then j else if k = j then i else k)"
      if "k < length (gs_vhp g)" for k
      by (rule swap_key [OF g'(4) sameD(1) [OF g'(3)] il less.prems(3) that])
    have ij_le: "fl_le fl (gs_key g i) (gs_key g j)"
      using False by (intro heats_ok_keys(2) [OF less.prems(1,2,3) il]) blast
    have pn: "parent k < length (gs_vhp g)" if "0 < k" "k < length (gs_vhp g)" for k
      using that parent_less [of k] by linarith
    have "returns (hp_up fl i g') (\<lambda>g''. ordered fl g'' 0 (length (gs_vhp g')))"
    proof (rule less.IH [OF ij _ g'(2)])
      show "heats_ok fl g'" using less.prems(1) heats_ok_same [OF g'(3)] by simp
    next
      show "i < length (gs_vhp g')" using il len by simp
    next
      fix k assume "0 < k" "k < length (gs_vhp g')" "k \<noteq> i"
      then have k: "0 < k" "k < length (gs_vhp g)" "k \<noteq> i" using len by simp_all
      consider "k = j" | "k \<noteq> j" "parent k = i" | "k \<noteq> j" "parent k = j" | "k \<noteq> j" "parent k \<noteq> i" "parent k \<noteq> j"
        by blast
      then show "ord_at fl g' k"
      proof cases
        case 1
        then show ?thesis using ij_le k il by (simp add: ord_at_def key i_def [symmetric])
      next
        case 2
        then show ?thesis
          using less.prems(4) [OF k(1,2)] ij_le fl k pn [OF k(1,2)] by (auto simp: ord_at_def key)
      next
        case 3
        then show ?thesis
          using less.prems(5) [OF k(1,2)] k j0 less.prems(3) ij
          by (auto simp: ord_at_def key i_def [symmetric])
      next
        case 4
        then show ?thesis
          using less.prems(4) [OF k(1,2)] k pn [OF k(1,2)] by (auto simp: ord_at_def key)
      qed
    next
      fix k assume "0 < k" "k < length (gs_vhp g')" "parent k = i" "0 < i"
      then have k: "0 < k" "k < length (gs_vhp g)" "parent k = i" "0 < i" using len by simp_all
      have pi: "parent i < length (gs_vhp g)" "parent i \<noteq> i" "parent i \<noteq> j"
        using il parent_less [OF k(4)] ij by auto
      have up: "fl_le fl (gs_key g i) (gs_key g (parent i))"
        using less.prems(4) [of i] k(4) il ij by (auto simp: ord_at_def)
      have ki: "k \<noteq> i" using k parent_less [of k] by auto
      show "fl_le fl (gs_key g' k) (gs_key g' (parent i))"
      proof (cases "k = j")
        case True
        then show ?thesis using up k pi ki by (simp add: key)
      next
        case kj: False
        have "fl_le fl (gs_key g k) (gs_key g i)"
          using less.prems(4) [OF k(1,2) kj] k by (simp add: ord_at_def)
        then show ?thesis using up k pi ki kj fl by (auto simp: key)
      qed
    qed
    moreover have "hp_up fl j g = hp_up fl i g'"
      by (subst hp_up.simps) (use False hs g'(1) in \<open>simp add: Let_def i'\<close>)
    ultimately show ?thesis by (simp add: len)
  qed
qed

section \<open>The operations of the priority queue\<close>

definition heap_ok :: "'h floats \<Rightarrow> 'h guess \<Rightarrow> bool" where
  "heap_ok fl g \<longleftrightarrow> gs_wf g \<and> gs_bumpLim g = fl_gBumpLim fl
     \<and> (heats_ok fl g \<longrightarrow> ordered fl g 0 (length (gs_vhp g)))"

lemma ordered_root:
  assumes "heats_ok fl g" and "gs_wf g" and "n \<le> length (gs_vhp g)" and "ordered fl g 0 n" and "k < n"
  shows "fl_le fl (gs_key g k) (gs_key g 0)"
  using assms(5)
proof (induction k rule: less_induct)
  case (less k)
  have n0: "0 < length (gs_vhp g)" using assms(3,5) by linarith
  show ?case
  proof (cases "k = 0")
    case False
    then have "ord_at fl g k" using assms(4) less.prems by (auto simp: ordered_def)
    moreover have "parent k < k" using False by simp
    moreover from this have "fl_le fl (gs_key g (parent k)) (gs_key g 0)"
      using less by simp
    ultimately show ?thesis using heats_okD [OF assms(1)] by (auto simp: ord_at_def)
  qed (simp add: heats_ok_keys(1) [OF assms(1,2) n0])
qed

lemma ordered_cong:
  "ordered fl g lo n \<Longrightarrow> (\<And>k. k < n \<Longrightarrow> gs_key g' k = gs_key g k) \<Longrightarrow> ordered fl g' lo n"
  unfolding ordered_def ord_at_def by (metis less_trans parent_less)

lemma hp_pop_spec:
  assumes ok: "heap_ok fl g" and ne: "gs_vhp g \<noteq> []"
  shows "returns (hp_pop fl g) (\<lambda>(v, g'). heap_ok fl g' \<and> v \<in> set (gs_vhp g)
     \<and> set (gs_vhp g') = set (gs_vhp g) - {v} \<and> length (gs_vhp g) = Suc (length (gs_vhp g'))
     \<and> length (gs_pos g') = length (gs_pos g) \<and> gs_heat g' = gs_heat g \<and> gs_cache g' = gs_cache g
     \<and> (heats_ok fl g \<longrightarrow>
          (\<forall>u \<in> set (gs_vhp g). fl_le fl (gs_heat g ! unat u) (gs_heat g ! unat v))))"
proof -
  have wf: "gs_wf g" using ok by (simp add: heap_ok_def)
  define n where "n = length (gs_vhp g) - 1"
  have n: "n < length (gs_vhp g)" "0 < length (gs_vhp g)" "length (gs_vhp g) = Suc n"
    using ne by (auto simp: n_def)
  define v where "v = gs_vhp g ! 0"
  obtain g1 where g1: "hp_swap 0 n g = Some g1" "gs_wf g1" "same_but_order g g1"
    "gs_vhp g1 = (gs_vhp g)[0 := gs_vhp g ! n, n := gs_vhp g ! 0]"
    using hp_swap_spec [OF wf n(2,1)] by (auto simp: returns_def)
  have len1: "length (gs_vhp g1) = Suc n" using sameD(4) [OF g1(3)] n by simp
  have key1: "gs_key g1 k = gs_key g (if k = 0 then n else if k = n then 0 else k)"
    if "k < length (gs_vhp g)" for k
    by (rule swap_key [OF g1(4) sameD(1) [OF g1(3)] n(2,1) that])
  have "returns (hp_down fl 0 n g1) (\<lambda>g'. heats_ok fl g \<longrightarrow> ordered fl g' 0 n)"
  proof (cases "heats_ok fl g")
    case True
    have o: "ordered fl g 0 (length (gs_vhp g))" using ok True by (simp add: heap_ok_def)
    have True1: "heats_ok fl g1" using True heats_ok_same [OF g1(3)] by simp
    have "returns (hp_down fl 0 n g1) (\<lambda>g'. ordered fl g' 0 n)"
    proof (rule hp_down_ordered [OF True1 g1(2)])
      fix k assume k: "0 < k" "k < n" "parent k \<noteq> 0"
      have "parent k < n" using k parent_less [of k] by linarith
      then show "ord_at fl g1 k" using o k n by (auto simp: ordered_def ord_at_def key1)
    qed (use len1 in auto)
    then show ?thesis by (rule returns_mono) auto
  next
    case False
    then show ?thesis using hp_down_wf [OF g1(2), of n fl 0] len1 by (auto elim: returns_mono)
  qed
  moreover have "returns (hp_down fl 0 n g1) (\<lambda>g'. gs_wf g' \<and> same_but_order g1 g'
     \<and> (\<forall>k. n \<le> k \<longrightarrow> gs_vhp g' ! k = gs_vhp g1 ! k))"
    by (rule hp_down_wf) (use g1(2) len1 in auto)
  ultimately obtain g2 where g2: "hp_down fl 0 n g1 = Some g2" "heats_ok fl g \<longrightarrow> ordered fl g2 0 n"
    "gs_wf g2" "same_but_order g1 g2" "gs_vhp g2 ! n = gs_vhp g1 ! n"
    by (auto simp: returns_def)
  have s: "same_but_order g g2" by (rule same_trans [OF g1(3) g2(4)])
  note sD = sameD [OF s] and wfD = gs_wfD [OF g2(3)]
  have len2: "length (gs_vhp g2) = Suc n" using sD n by simp
  have v2: "gs_vhp g2 ! n = v" using g2(5) g1(4) n by (simp add: v_def)
  have split: "gs_vhp g2 = take n (gs_vhp g2) @ [v]"
    using take_Suc_conv_app_nth [of n "gs_vhp g2"] len2 v2 by simp
  define pos where "pos = (gs_pos g2)[unat v := -1]"
  define g3 where "g3 = g2\<lparr>gs_vhp := take n (gs_vhp g2), gs_pos := pos\<rparr>"
  have vl: "unat v < length (gs_pos g2)" using wfD(4) [of n] len2 v2 by simp
  have run: "hp_pop fl g = Some (v, g3)"
    using n ne g1(1) g2(1) len2 v2 vl by (simp add: hp_pop_def n_def [symmetric] g3_def pos_def)
  have nv: "unat (gs_vhp g2 ! i) \<noteq> unat v" if "i < n" for i
    using gs_vhp_inj [OF g2(3), of i n] that len2 v2 by (simp add: word_eq_iff_unat)
  have wf3: "gs_wf g3"
    unfolding gs_wf_def
  proof (intro conjI allI impI)
    fix w assume w: "w < length (gs_pos g3)" "gs_pos g3 ! w \<noteq> -1"
    then have "w \<noteq> unat v" "w < length (gs_pos g2)" "gs_pos g2 ! w \<noteq> -1"
      using vl by (auto simp: g3_def pos_def nth_list_update split: if_splits)
    then obtain i where "i < Suc n" "unat (gs_vhp g2 ! i) = w" using wfD(6) len2 by auto
    moreover from this have "i \<noteq> n" using v2 \<open>w \<noteq> unat v\<close> by auto
    ultimately show "\<exists>i < length (gs_vhp g3). unat (gs_vhp g3 ! i) = w"
      using len2 by (intro exI [of _ i]) (simp add: g3_def)
  next
    fix i assume "i < length (gs_vhp g3)"
    then have i: "i < n" using len2 by (simp add: g3_def)
    show "gs_pos g3 ! unat (gs_vhp g3 ! i) = int i" "unat (gs_vhp g3 ! i) < length (gs_pos g3)"
      using i nv [OF i] wfD(4,5) [of i] len2 by (simp_all add: g3_def pos_def nth_list_update_neq [OF not_sym])
  qed (use wfD(1-3) in \<open>auto simp: g3_def pos_def\<close>)
  have ord3: "heats_ok fl g \<longrightarrow> ordered fl g3 0 n"
    using g2(2) by (auto intro: ordered_cong simp: g3_def gs_key_def)
  have dist: "distinct (gs_vhp g2)" by (rule gs_distinct [OF g2(3)])
  have "set (gs_vhp g3) = set (gs_vhp g2) - {v}"
  proof -
    have "distinct (take n (gs_vhp g2) @ [v])" using dist split by simp
    moreover have "set (gs_vhp g2) = set (take n (gs_vhp g2) @ [v])" using split by simp
    ultimately show ?thesis by (simp add: g3_def)
  qed
  moreover have "fl_le fl (gs_heat g ! unat u) (gs_heat g ! unat v)"
    if "heats_ok fl g" "u \<in> set (gs_vhp g)" for u
  proof -
    note a = that
    obtain k where "k < length (gs_vhp g)" "gs_vhp g ! k = u" using a(2) by (auto simp: in_set_conv_nth)
    then show ?thesis
      using ordered_root [OF a(1) wf order_refl, of k] ok a(1)
      by (simp add: heap_ok_def gs_key_def v_def)
  qed
  moreover have "length (gs_vhp g3) = n" "length (gs_pos g3) = length (gs_pos g)"
    "gs_heat g3 = gs_heat g" "gs_cache g3 = gs_cache g" "gs_bumpLim g3 = gs_bumpLim g"
    using len2 sD by (simp_all add: g3_def pos_def)
  moreover from this have "heats_ok fl g3 = heats_ok fl g" by (simp add: heats_ok_def)
  ultimately show ?thesis
    unfolding run using wf3 ord3 sD(3) n v_def ok by (simp add: heap_ok_def)
qed

lemma hp_up_ok:
  assumes wf: "gs_wf g" and j: "j < length (gs_vhp g)" and lim: "gs_bumpLim g = fl_gBumpLim fl"
    and ord: "heats_ok fl g \<Longrightarrow> (\<forall>k. 0 < k \<longrightarrow> k < length (gs_vhp g) \<longrightarrow> k \<noteq> j \<longrightarrow> ord_at fl g k)
       \<and> (\<forall>k. 0 < k \<longrightarrow> k < length (gs_vhp g) \<longrightarrow> parent k = j \<longrightarrow> 0 < j \<longrightarrow>
            fl_le fl (gs_key g k) (gs_key g (parent j)))"
  shows "returns (hp_up fl j g) (\<lambda>g'. heap_ok fl g' \<and> same_but_order g g')"
proof -
  have "returns (hp_up fl j g) (\<lambda>g'. heats_ok fl g \<longrightarrow> ordered fl g' 0 (length (gs_vhp g)))"
    using hp_up_ordered [OF _ wf j, of fl] ord hp_up_wf [OF wf j, of fl]
    by (cases "heats_ok fl g") (auto elim: returns_mono)
  from returns_conj [OF this hp_up_wf [OF wf j, of fl]] show ?thesis
    by (rule returns_mono) (auto simp: heap_ok_def lim heats_ok_same dest: sameD(4,7))
qed

lemma Guess_Push_full:
  assumes ok: "heap_ok fl g" and v: "unat (lit_Var m) < length (gs_pos g)"
  shows "returns (Guess_Push fl m g) (\<lambda>g'. heap_ok fl g' \<and> length (gs_pos g') = length (gs_pos g)
     \<and> set (gs_vhp g') = insert (lit_Var m) (set (gs_vhp g))
     \<and> gs_cache g' = (gs_cache g)[unat (lit_Var m) := lit_Sign m] \<and> gs_heat g' = gs_heat g \<and> gs_bumpInc g' = gs_bumpInc g)"
proof -
  have wf: "gs_wf g" using ok by (simp add: heap_ok_def)
  note wfD = gs_wfD [OF wf]
  define v where "v = unat (lit_Var m)"
  define g1 where "g1 = g\<lparr>gs_cache := (gs_cache g)[v := lit_Sign m]\<rparr>"
  have vl: "v < length (gs_pos g)" "v < length (gs_cache g)" using v wfD by (simp_all add: v_def)
  have key1: "gs_key g1 k = gs_key g k" for k by (simp add: gs_key_def g1_def)
  have wf1: "gs_wf g1" using wf by (simp add: gs_wf_def g1_def)
  have ok1: "heap_ok fl g1"
    using ok wf1 ordered_cong [OF _ key1] by (auto simp: heap_ok_def g1_def heats_ok_def)
  show ?thesis
  proof (cases "gs_pos g ! v = -1")
    case False
    then have "lit_Var m \<in> set (gs_vhp g)" using gs_pos_mem [OF wf v] by (simp add: v_def)
    moreover have "Guess_Push fl m g = Some g1"
      using vl False by (simp add: Guess_Push_def Let_def v_def g1_def)
    ultimately show ?thesis using ok1 by (auto simp: g1_def v_def)
  next
    case True
    define n where "n = length (gs_vhp g)"
    define g2 where "g2 = g1\<lparr>gs_pos := (gs_pos g)[v := int n], gs_vhp := gs_vhp g @ [lit_Var m]\<rparr>"
    have notin: "lit_Var m \<notin> set (gs_vhp g)" using gs_pos_mem [OF wf v] True by (simp add: v_def)
    have nv: "unat (gs_vhp g ! i) \<noteq> v" if "i < n" for i
      using notin that by (auto simp: v_def n_def word_eq_iff_unat [symmetric] in_set_conv_nth)
    have wf2: "gs_wf g2"
      unfolding gs_wf_def
    proof (intro conjI allI impI)
      fix w assume "w < length (gs_pos g2)" "gs_pos g2 ! w \<noteq> -1"
      then have w: "w < length (gs_pos g)" "(gs_pos g)[v := int n] ! w \<noteq> -1" by (auto simp: g2_def)
      show "\<exists>i < length (gs_vhp g2). unat (gs_vhp g2 ! i) = w"
      proof (cases "w = v")
        case True
        then show ?thesis by (intro exI [of _ n]) (simp add: g2_def n_def v_def)
      next
        case False
        then obtain i where "i < n" "unat (gs_vhp g ! i) = w"
          using wfD(6) [OF w(1)] w(2) by (auto simp: n_def)
        then show ?thesis by (intro exI [of _ i]) (simp add: g2_def n_def nth_append)
      qed
    next
      fix i assume "i < length (gs_vhp g2)"
      then have "i < n \<or> i = n" by (auto simp: g2_def n_def)
      then show "gs_pos g2 ! unat (gs_vhp g2 ! i) = int i" "unat (gs_vhp g2 ! i) < length (gs_pos g2)"
        using nv [of i] wfD(4,5) [of i] vl
        by (auto simp: g2_def nth_append n_def v_def nth_list_update_neq [OF not_sym])
    qed (use wfD(1-3) vl in \<open>auto simp: g2_def g1_def\<close>)
    have key2: "gs_key g2 k = gs_key g k" if "k < n" for k
      using that by (simp add: gs_key_def g2_def g1_def n_def nth_append)
    have "returns (hp_up fl n g2) (\<lambda>g'. heap_ok fl g' \<and> same_but_order g2 g')"
    proof (rule hp_up_ok [OF wf2])
      show "n < length (gs_vhp g2)" by (simp add: g2_def n_def)
      show "gs_bumpLim g2 = fl_gBumpLim fl" using ok by (simp add: g2_def g1_def heap_ok_def)
      assume "heats_ok fl g2"
      then have fl: "heats_ok fl g" by (simp add: g2_def g1_def heats_ok_def)
      have "ord_at fl g2 k" if k: "0 < k" "k < n" for k
      proof -
        have "ord_at fl g k" using ok fl k by (simp add: heap_ok_def ordered_def n_def)
        moreover have "parent k < n" using k parent_less [of k] by linarith
        ultimately show ?thesis using k by (simp add: ord_at_def key2)
      qed
      moreover have "k < n" if "k < length (gs_vhp g2)" "k \<noteq> n" for k
        using that by (simp add: g2_def n_def)
      moreover have "k \<noteq> n \<and> parent k \<noteq> n" if "0 < k" "k < length (gs_vhp g2)" "parent k = n" for k
        using that parent_less [of k] by (simp add: g2_def n_def)
      ultimately show "(\<forall>k. 0 < k \<longrightarrow> k < length (gs_vhp g2) \<longrightarrow> k \<noteq> n \<longrightarrow> ord_at fl g2 k)
         \<and> (\<forall>k. 0 < k \<longrightarrow> k < length (gs_vhp g2) \<longrightarrow> parent k = n \<longrightarrow> 0 < n \<longrightarrow>
              fl_le fl (gs_key g2 k) (gs_key g2 (parent n)))" by blast
    qed
    moreover have "Guess_Push fl m g = hp_up fl n g2"
      using vl True by (simp add: Guess_Push_def Let_def v_def g1_def g2_def n_def)
    ultimately have "returns (Guess_Push fl m g) (\<lambda>g'. heap_ok fl g' \<and> same_but_order g2 g')" by simp
    then show ?thesis
    proof (rule returns_mono)
      fix g' assume "heap_ok fl g' \<and> same_but_order g2 g'"
      then show "heap_ok fl g' \<and> length (gs_pos g') = length (gs_pos g)
         \<and> set (gs_vhp g') = insert (lit_Var m) (set (gs_vhp g))
         \<and> gs_cache g' = (gs_cache g)[unat (lit_Var m) := lit_Sign m] \<and> gs_heat g' = gs_heat g \<and> gs_bumpInc g' = gs_bumpInc g"
        using sameD [of g2 g'] by (simp add: g2_def g1_def v_def)
    qed
  qed
qed

lemma Guess_Push_spec:
  assumes "heap_ok fl g" and "unat (lit_Var m) < length (gs_pos g)"
  shows "returns (Guess_Push fl m g) (\<lambda>g'. heap_ok fl g' \<and> length (gs_pos g') = length (gs_pos g)
     \<and> set (gs_vhp g') = insert (lit_Var m) (set (gs_vhp g))
     \<and> gs_cache g' = (gs_cache g)[unat (lit_Var m) := lit_Sign m])"
  using Guess_Push_full [OF assms] by (rule returns_mono) blast

lemma ordered_mono: "ordered fl g lo n \<Longrightarrow> lo \<le> lo' \<Longrightarrow> ordered fl g lo' n"
  by (auto simp: ordered_def)

lemma heapify_loop:
  assumes "gs_wf g" and "n = length (gs_vhp g)" and "heats_ok fl g \<Longrightarrow> ordered fl g m n"
    and "gs_bumpLim g = fl_gBumpLim fl"
  shows "returns (foldM (\<lambda>i g. hp_down fl i n g) (rev [0..<m]) g)
     (\<lambda>g'. heap_ok fl g' \<and> same_but_order g g')"
  using assms
proof (induction m arbitrary: g)
  case 0
  then show ?case by (simp add: heap_ok_def)
next
  case (Suc m)
  have "returns (hp_down fl m n g) (\<lambda>g'. heats_ok fl g \<longrightarrow> ordered fl g' m n)"
  proof (cases "heats_ok fl g")
    case True
    have "returns (hp_down fl m n g) (\<lambda>g'. ordered fl g' m n)"
    proof (rule hp_down_ordered [OF True Suc.prems(1)])
      show "n \<le> length (gs_vhp g)" using Suc.prems(2) by simp
      show "ord_at fl g k" if "0 < k" "k < n" "m \<le> parent k" "parent k \<noteq> m" for k
        using Suc.prems(3) [OF True] that by (simp add: ordered_def)
      show "fl_le fl (gs_key g k) (gs_key g (parent m))" if "0 < m" "m \<le> parent m" for k
        using that parent_less [of m] by simp
    qed
    then show ?thesis by (rule returns_mono) auto
  next
    case False
    then show ?thesis using hp_down_wf [OF Suc.prems(1), of n fl m] Suc.prems(2) by (auto elim: returns_mono)
  qed
  from returns_conj [OF this hp_down_wf [OF Suc.prems(1), of n fl m]]
  obtain g1 where g1: "hp_down fl m n g = Some g1" "heats_ok fl g \<longrightarrow> ordered fl g1 m n"
    "gs_wf g1" "same_but_order g g1"
    using Suc.prems(2) by (auto simp: returns_def)
  have "returns (foldM (\<lambda>i g. hp_down fl i n g) (rev [0..<m]) g1)
     (\<lambda>g'. heap_ok fl g' \<and> same_but_order g1 g')"
    using g1 Suc.prems(2,4) sameD(4,7) [OF g1(4)] heats_ok_same [OF g1(4)] by (intro Suc.IH) auto
  then have "returns (foldM (\<lambda>i g. hp_down fl i n g) (rev [0..<m]) g1)
     (\<lambda>g'. heap_ok fl g' \<and> same_but_order g g')"
    by (rule returns_mono) (auto intro: same_trans [OF g1(4)])
  then show ?case using g1(1) by simp
qed

lemma hp_heapify_spec:
  assumes wf: "gs_wf g" and lim: "gs_bumpLim g = fl_gBumpLim fl"
  shows "returns (hp_heapify fl g) (\<lambda>g'. heap_ok fl g' \<and> same_but_order g g')"
proof -
  have "\<not> length (gs_vhp g) div 2 \<le> parent k" if "0 < k" "k < length (gs_vhp g)" for k
    using that by (auto simp: parent_def)
  then show ?thesis
    unfolding hp_heapify_def Let_def by (intro heapify_loop [OF wf refl _ lim]) (auto simp: ordered_def)
qed

lemma hp_fix_spec:
  assumes wf: "gs_wf g" and p: "p < length (gs_vhp g)" and lim: "gs_bumpLim g = fl_gBumpLim fl"
    and ord: "heats_ok fl g \<Longrightarrow>
       (\<forall>k. 0 < k \<longrightarrow> k < length (gs_vhp g) \<longrightarrow> k \<noteq> p \<longrightarrow> parent k \<noteq> p \<longrightarrow> ord_at fl g k)
       \<and> (\<forall>k. 0 < k \<longrightarrow> k < length (gs_vhp g) \<longrightarrow> parent k = p \<longrightarrow> 0 < p \<longrightarrow>
            fl_le fl (gs_key g k) (gs_key g (parent p)))"
  shows "returns (do { g \<leftarrow> hp_down fl p (length (gs_vhp g)) g; hp_up fl p g })
     (\<lambda>g'. heap_ok fl g' \<and> same_but_order g g')"
proof -
  define n where "n = length (gs_vhp g)"
  from wf order_refl [of n, unfolded n_def] show ?thesis
  proof (cases rule: hp_down_cases [where fl = fl and i = p])
    case stop
    have "returns (hp_up fl p g) (\<lambda>g'. heap_ok fl g' \<and> same_but_order g g')"
      using ord stop(2) by (intro hp_up_ok [OF wf p lim]) blast
    then show ?thesis using stop(1) by simp
  next
    case (swap j g1)
    have len1: "length (gs_vhp g1) = n" using sameD(4) [OF swap(6)] by (simp add: n_def)
    have jn: "j < n" using swap(1) by (simp add: n_def)
    have key: "gs_key g1 k = gs_key g (if k = p then j else if k = j then p else k)" if "k < n" for k
      using swap_key [OF swap(7) sameD(1) [OF swap(6)] p] jn that by (simp add: n_def)
    have pn: "parent k < n" if "0 < k" "k < n" for k using that parent_less [of k] by linarith
    have "returns (hp_down fl j n g1) (\<lambda>g'. heats_ok fl g \<longrightarrow> ordered fl g' 0 n)"
    proof (cases "heats_ok fl g")
      case True
      note o = ord [OF True, folded n_def]
      have True1: "heats_ok fl g1" using True heats_ok_same [OF swap(6)] by simp
      have jl: "j < length (gs_vhp g)" using jn by (simp add: n_def)
      have pj: "fl_le fl (gs_key g p) (gs_key g j)" by (rule heats_ok_keys(2) [OF True wf jl p swap(9)])
      have kids: "fl_le fl (gs_key g k) (gs_key g j)" if "0 < k" "k < n" "parent k = p" for k
        using swap(10) [OF True] that by (simp add: n_def)
      have "returns (hp_down fl j n g1) (\<lambda>g'. ordered fl g' 0 n)"
      proof (rule hp_down_ordered [OF True1 swap(5)])
        fix k assume k: "0 < k" "k < n" "parent k \<noteq> j"
        consider "k = p" | "k = j" | "k \<noteq> p" "k \<noteq> j" "parent k = p" | "k \<noteq> p" "k \<noteq> j" "parent k \<noteq> p" by blast
        then show "ord_at fl g1 k"
        proof cases
          case 1
          then have "fl_le fl (gs_key g j) (gs_key g (parent p))" using o swap(2,3) jn k by auto
          then show ?thesis using 1 k pn [OF k(1,2)] parent_less [of p] by (auto simp: ord_at_def key)
        next
          case 2
          then show ?thesis using k swap(3,4) pj jn pn [OF k(1,2)] by (auto simp: ord_at_def key)
        next
          case 3
          then show ?thesis using kids [OF k(1,2)] k pn [OF k(1,2)] by (auto simp: ord_at_def key)
        next
          case 4
          then show ?thesis using o k pn [OF k(1,2)] by (auto simp: ord_at_def key)
        qed
      next
        fix k assume k: "0 < k" "k < n" "parent k = j"
        then have "k \<noteq> p" "k \<noteq> j" using swap(4) parent_less [of k] by auto
        moreover have "ord_at fl g k" using o k \<open>k \<noteq> p\<close> swap(4) by auto
        ultimately show "fl_le fl (gs_key g1 k) (gs_key g1 (parent j))"
          using k jn swap(3,4) p by (auto simp: key ord_at_def n_def)
      qed (use len1 in simp)
      then show ?thesis by (rule returns_mono) auto
    next
      case False
      then show ?thesis using hp_down_wf [OF swap(5), of n fl j] len1 by (auto elim: returns_mono)
    qed
    from returns_conj [OF this hp_down_wf [OF swap(5), of n fl j]]
    obtain g2 where g2: "hp_down fl j n g1 = Some g2" "heats_ok fl g \<longrightarrow> ordered fl g2 0 n"
      "gs_wf g2" "same_but_order g1 g2"
      using len1 by (auto simp: returns_def)
    have s: "same_but_order g g2" by (rule same_trans [OF swap(6) g2(4)])
    have len2: "length (gs_vhp g2) = n" using sameD(4) [OF s] by (simp add: n_def)
    have "returns (hp_up fl p g2) (\<lambda>g'. heap_ok fl g' \<and> same_but_order g2 g')"
    proof (rule hp_up_ok [OF g2(3)])
      show "p < length (gs_vhp g2)" using p len2 by (simp add: n_def)
      show "gs_bumpLim g2 = fl_gBumpLim fl" using sameD(7) [OF s] lim by simp
      assume "heats_ok fl g2"
      then have True: "heats_ok fl g" using heats_ok_same [OF s] by simp
      then have o: "ord_at fl g2 k" if "0 < k" "k < n" for k
        using g2(2) that by (simp add: ordered_def)
      moreover have "fl_le fl (gs_key g2 k) (gs_key g2 (parent p))"
        if "0 < k" "k < n" "parent k = p" "0 < p" for k
        using o [OF that(1,2)] o [OF that(4)] that p heats_okD [OF True]
        by (auto simp: ord_at_def n_def)
      ultimately show "(\<forall>k. 0 < k \<longrightarrow> k < length (gs_vhp g2) \<longrightarrow> k \<noteq> p \<longrightarrow> ord_at fl g2 k)
         \<and> (\<forall>k. 0 < k \<longrightarrow> k < length (gs_vhp g2) \<longrightarrow> parent k = p \<longrightarrow> 0 < p \<longrightarrow>
              fl_le fl (gs_key g2 k) (gs_key g2 (parent p)))" by (simp add: len2)
    qed
    then have "returns (hp_up fl p g2) (\<lambda>g'. heap_ok fl g' \<and> same_but_order g g')"
      by (rule returns_mono) (auto intro: same_trans [OF s])
    then show ?thesis using swap(8) g2(1) by (simp add: n_def)
  qed
qed

lemma scale_ordered:
  assumes "floats_ok fl" and "ord_at fl g k"
    and "gs_heat g' = map (\<lambda>t. fl_mul fl t (fl_div fl (fl_ofint fl 1) (fl_gBumpLim fl))) (gs_heat g)"
    and "gs_vhp g' = gs_vhp g" and "gs_wf g" and "k < length (gs_vhp g)" and "parent k < length (gs_vhp g)"
  shows "ord_at fl g' k"
  using assms gs_wfD(1,4) [OF assms(5)] by (simp add: ord_at_def gs_key_def floats_ok_def Let_def)

lemma Guess_Bump_full:
  assumes ok: "heap_ok fl g" and v: "unat (lit_Var m) < length (gs_pos g)"
  shows "returns (Guess_Bump fl m g) (\<lambda>(r, g'). heap_ok fl g'
     \<and> length (gs_pos g') = length (gs_pos g) \<and> set (gs_vhp g') = set (gs_vhp g)
     \<and> gs_cache g' = gs_cache g
     \<and> gs_heat g' = (let h = fl_add fl (gs_heat g ! unat (lit_Var m)) (gs_bumpInc g);
            heat = (gs_heat g)[unat (lit_Var m) := h]
          in if fl_lt fl (gs_bumpLim g) h
             then map (\<lambda>t. fl_mul fl t (fl_div fl (fl_ofint fl 1) (gs_bumpLim g))) heat else heat))"
proof -
  have wf: "gs_wf g" using ok by (simp add: heap_ok_def)
  note wfD = gs_wfD [OF wf]
  define v where "v = unat (lit_Var m)"
  define h where "h = fl_add fl (gs_heat g ! v) (gs_bumpInc g)"
  define g1 where "g1 = g\<lparr>gs_heat := (gs_heat g)[v := h]\<rparr>"
  define scale where "scale = fl_div fl (fl_ofint fl 1) (gs_bumpLim g)"
  define g2 where "g2 = (if fl_lt fl (gs_bumpLim g) h
     then g1\<lparr>gs_heat := map (\<lambda>t. fl_mul fl t scale) (gs_heat g1),
             gs_bumpInc := fl_mul fl (gs_bumpInc g) scale\<rparr> else g1)"
  have vl: "v < length (gs_pos g)" "v < length (gs_heat g)" using v wfD by (simp_all add: v_def)
  have g2_eq: "gs_vhp g2 = gs_vhp g" "gs_pos g2 = gs_pos g" "gs_cache g2 = gs_cache g"
    "length (gs_heat g2) = length (gs_heat g)" "gs_bumpLim g2 = gs_bumpLim g"
    by (auto simp: g2_def g1_def)
  have heat2: "gs_heat g2 = (let h = fl_add fl (gs_heat g ! unat (lit_Var m)) (gs_bumpInc g);
            heat = (gs_heat g)[unat (lit_Var m) := h]
          in if fl_lt fl (gs_bumpLim g) h
             then map (\<lambda>t. fl_mul fl t (fl_div fl (fl_ofint fl 1) (gs_bumpLim g))) heat else heat)"
    by (simp add: g2_def g1_def h_def v_def scale_def Let_def)
  have wf1: "gs_wf g1" "gs_vhp g1 = gs_vhp g" and wf2: "gs_wf g2"
    using wf by (simp_all add: gs_wf_def g1_def g2_eq)
  have key1: "gs_key g1 k = gs_key g k" if "unat (gs_vhp g ! k) \<noteq> v" for k
    using that by (simp add: gs_key_def g1_def)
  have lim: "gs_bumpLim g = fl_gBumpLim fl" using ok by (simp add: heap_ok_def)
  have num: "heats_ok fl g" if n: "heats_ok fl g2"
  proof -
    have fl: "floats_ok fl" using n by (simp add: heats_ok_def)
    have mul: "fl_le fl a a" if "fl_le fl (fl_mul fl a scale) (fl_mul fl a scale)" for a
      using fl that unfolding floats_ok_def Let_def scale_def lim by blast
    have add: "fl_le fl a a" if "fl_le fl (fl_add fl a b) (fl_add fl a b)" for a b
      using fl that unfolding floats_ok_def Let_def by blast
    have n1: "fl_le fl x x" if "x \<in> set (gs_heat g1)" for x
      using n that mul by (auto simp: heats_ok_def g2_def split: if_splits)
    have "fl_le fl x x" if x: "x \<in> set (gs_heat g)" for x
    proof -
      obtain i where i: "i < length (gs_heat g)" "x = gs_heat g ! i" using x by (auto simp: in_set_conv_nth)
      show ?thesis
      proof (cases "i = v")
        case True
        have "h \<in> set (gs_heat g1)" using vl by (simp add: g1_def set_update_memI)
        then have "fl_le fl h h" by (rule n1)
        then show ?thesis unfolding i(2) True h_def by (rule add)
      next
        case False
        then have "gs_heat g1 ! i = x" "i < length (gs_heat g1)" using i by (simp_all add: g1_def)
        then show ?thesis using n1 by (metis nth_mem)
      qed
    qed
    then show ?thesis using fl by (simp add: heats_ok_def)
  qed
  have ord2: "ord_at fl g2 k"
    if "floats_ok fl" "ord_at fl g1 k" "0 < k" "k < length (gs_vhp g)" for k
  proof -
    have "parent k < length (gs_vhp g)" using that parent_less [of k] by linarith
    then have "ord_at fl (g1\<lparr>gs_heat := map (\<lambda>t. fl_mul fl t scale) (gs_heat g1),
             gs_bumpInc := fl_mul fl (gs_bumpInc g) scale\<rparr>) k"
      using that wf1 by (intro scale_ordered [OF that(1,2)]) (simp_all add: scale_def lim)
    then show ?thesis using that by (simp add: g2_def)
  qed
  define r where "r = fl_lt fl (gs_bumpLim g) h"
  have bump: "Guess_Bump fl m g = (if gs_pos g ! v \<noteq> -1
      then do { _ \<leftarrow> assert_o (0 \<le> gs_pos g ! v);
                g \<leftarrow> hp_down fl (nat (gs_pos g ! v)) (length (gs_vhp g2)) g2;
                g \<leftarrow> hp_up fl (nat (gs_pos g2 ! v)) g; Some (r, g) }
      else Some (r, g2))"
    using vl by (auto simp: Guess_Bump_def Let_def v_def [symmetric] h_def [symmetric] g2_def g1_def
      scale_def r_def)
  show ?thesis
  proof (cases "gs_pos g ! v = -1")
    case True
    then have "lit_Var m \<notin> set (gs_vhp g)" using gs_pos_mem [OF wf v] by (simp add: v_def)
    then have ne: "unat (gs_vhp g ! k) \<noteq> v" if "k < length (gs_vhp g)" for k
      using that nth_mem [OF that] unfolding v_def word_eq_iff_unat [symmetric] by metis
    have "ordered fl g2 0 (length (gs_vhp g2))" if fl2: "heats_ok fl g2"
      unfolding ordered_def
    proof (intro allI impI)
      have fl: "heats_ok fl g" "floats_ok fl" using num [OF fl2] by (simp_all add: heats_ok_def)
      fix k assume "0 < k" "k < length (gs_vhp g2)"
      then have k: "0 < k" "k < length (gs_vhp g)" by (simp_all only: g2_eq)
      note k = k less_trans [OF parent_less [OF k(1)] k(2)]
      have "ord_at fl g k" using ok fl k by (simp add: heap_ok_def ordered_def)
      then have "ord_at fl g1 k" using k ne by (simp add: ord_at_def key1)
      then show "ord_at fl g2 k" using ord2 fl k by simp
    qed
    then show ?thesis unfolding bump using True wf2 heat2 by (simp add: heap_ok_def g2_eq lim)
  next
    case False
    then obtain p where p: "p < length (gs_vhp g)" "unat (gs_vhp g ! p) = v"
      using wfD(6) [OF vl(1)] by blast
    have pos: "gs_pos g ! v = int p" using wfD(5) [OF p(1)] p(2) by simp
    have ne: "unat (gs_vhp g ! k) \<noteq> v" if "k < length (gs_vhp g)" "k \<noteq> p" for k
      using gs_vhp_inj [OF wf that(1) p(1)] that(2) p(2) by (metis word_eq_iff_unat)
    have "returns (do { g \<leftarrow> hp_down fl p (length (gs_vhp g2)) g2; hp_up fl p g })
       (\<lambda>g'. heap_ok fl g' \<and> same_but_order g2 g')"
    proof (rule hp_fix_spec [OF wf2])
      show "p < length (gs_vhp g2)" using p by (simp add: g2_eq)
      show "gs_bumpLim g2 = fl_gBumpLim fl" by (simp add: g2_eq lim)
      assume "heats_ok fl g2"
      then have fl: "heats_ok fl g" "floats_ok fl" using num by (simp_all add: heats_ok_def)
      have o: "ord_at fl g k" if "0 < k" "k < length (gs_vhp g)" for k
        using ok fl that by (simp add: heap_ok_def ordered_def)
      have o1: "ord_at fl g2 k" if "0 < k" "k < length (gs_vhp g)" "k \<noteq> p" "parent k \<noteq> p" for k
      proof -
        have "parent k < length (gs_vhp g)" using that parent_less [of k] by linarith
        then have "ord_at fl g1 k" using o [OF that(1,2)] that ne by (simp add: ord_at_def key1)
        then show ?thesis using ord2 fl that by simp
      qed
      have o2: "fl_le fl (gs_key g2 k) (gs_key g2 (parent p))"
        if k: "0 < k" "k < length (gs_vhp g)" "parent k = p" "0 < p" for k
      proof -
        have b: "parent p < length (gs_vhp g)" "parent p \<noteq> p" "k \<noteq> p"
          using k p parent_less [of p] parent_less [of k] by (linarith, simp, auto)
        have "fl_le fl (gs_key g k) (gs_key g (parent p))"
          using o [OF k(1,2)] o [OF k(4) p(1)] k heats_okD [OF fl(1)] by (auto simp: ord_at_def)
        then have le: "fl_le fl (gs_key g1 k) (gs_key g1 (parent p))" using b k ne by (simp add: key1)
        have "gs_key (g1\<lparr>gs_heat := map (\<lambda>t. fl_mul fl t scale) (gs_heat g1), gs_bumpInc := x\<rparr>) i
            = fl_mul fl (gs_key g1 i) scale" if "i < length (gs_vhp g)" for i x
          using that wfD(1,4) by (simp add: gs_key_def g1_def)
        then show ?thesis
          using le fl k b by (simp add: g2_def floats_ok_def scale_def Let_def lim)
      qed
      show "(\<forall>k. 0 < k \<longrightarrow> k < length (gs_vhp g2) \<longrightarrow> k \<noteq> p \<longrightarrow> parent k \<noteq> p \<longrightarrow> ord_at fl g2 k)
       \<and> (\<forall>k. 0 < k \<longrightarrow> k < length (gs_vhp g2) \<longrightarrow> parent k = p \<longrightarrow> 0 < p \<longrightarrow>
            fl_le fl (gs_key g2 k) (gs_key g2 (parent p)))"
        using o1 o2 by (simp add: g2_eq)
    qed
    then obtain g3 g4 where "hp_down fl p (length (gs_vhp g2)) g2 = Some g3" "hp_up fl p g3 = Some g4"
      and g4: "heap_ok fl g4" "same_but_order g2 g4"
      by (auto simp: returns_def bind_eq_Some_conv)
    then have "Guess_Bump fl m g = Some (r, g4)"
      unfolding bump using pos by (simp add: g2_eq)
    then show ?thesis using g4 sameD [OF g4(2)] heat2 by (simp add: g2_eq)
  qed
qed

lemma Guess_Bump_spec:
  assumes "heap_ok fl g" and "unat (lit_Var m) < length (gs_pos g)"
  shows "returns (Guess_Bump fl m g) (\<lambda>(r, g'). heap_ok fl g'
     \<and> length (gs_pos g') = length (gs_pos g) \<and> set (gs_vhp g') = set (gs_vhp g)
     \<and> gs_cache g' = gs_cache g)"
  using Guess_Bump_full [OF assms] by (rule returns_mono) blast

section \<open>Choosing a literal\<close>

text \<open>Every variable in the heap has its values in the value slice.\<close>

definition gs_in :: "int list \<Rightarrow> 'h guess \<Rightarrow> bool" where
  "gs_in vals g \<longleftrightarrow> (\<forall>v \<in> set (gs_vhp g). 2 * unat v < length vals)"

definition free_var :: "int list \<Rightarrow> var \<Rightarrow> bool" where
  "free_var vals v \<longleftrightarrow> vals ! (2 * unat v) = 0"

lemma gs_Pos:
  assumes "gs_wf g" and "v \<in> set (gs_vhp g)"
  shows "unat (var_Pos v) = 2 * unat v" and "lit_Var (var_Pos v) = v" and "lit_Var (var_Neg v) = v"
    and "lit_IsPos (var_Pos v)" and "\<not> lit_IsPos (var_Neg v)" and "unat v < length (gs_pos g)"
proof -
  show "unat v < length (gs_pos g)" using assms gs_wfD(4) by (auto simp: in_set_conv_nth)
  then have "unat v < 2 ^ 31" using gs_wfD(3) [OF assms(1)] by simp
  then show "unat (var_Pos v) = 2 * unat v" "lit_Var (var_Pos v) = v" "lit_Var (var_Neg v) = v"
    "lit_IsPos (var_Pos v)" "\<not> lit_IsPos (var_Neg v)"
    using lit_IsPos_Neg by (simp_all add: unat_var_Pos)
qed

lemma guess_loop_spec:
  assumes "heap_ok fl g" and "gs_in vals g" and "0 \<notin> set (gs_vhp g)" and "n = length (gs_vhp g)"
  shows "returns (guess_loop fl vals n g) (\<lambda>(m, g'). heap_ok fl g'
     \<and> length (gs_pos g') = length (gs_pos g) \<and> set (gs_vhp g') \<subseteq> set (gs_vhp g)
     \<and> (if m = LitNull then (\<forall>v \<in> set (gs_vhp g). \<not> free_var vals v)
        else lit_Var m \<in> set (gs_vhp g) \<and> free_var vals (lit_Var m)
          \<and> lit_IsPos m = (gs_cache g ! unat (lit_Var m) \<noteq> -1)
          \<and> (\<forall>v \<in> set (gs_vhp g). free_var vals v \<longrightarrow> v = lit_Var m \<or> v \<in> set (gs_vhp g'))
          \<and> (heats_ok fl g \<longrightarrow> (\<forall>v \<in> set (gs_vhp g). free_var vals v \<longrightarrow>
               fl_le fl (gs_heat g ! unat v) (gs_heat g ! unat (lit_Var m))))))"
  using assms
proof (induction n arbitrary: g)
  case 0
  then show ?case by simp
next
  case (Suc n)
  then have ne: "gs_vhp g \<noteq> []" and wf: "gs_wf g" by (auto simp: heap_ok_def)
  obtain v g1 where g1: "hp_pop fl g = Some (v, g1)" "heap_ok fl g1" "v \<in> set (gs_vhp g)"
    "set (gs_vhp g1) = set (gs_vhp g) - {v}" "length (gs_vhp g) = Suc (length (gs_vhp g1))"
    "length (gs_pos g1) = length (gs_pos g)" "gs_heat g1 = gs_heat g" "gs_cache g1 = gs_cache g"
    "heats_ok fl g \<longrightarrow> (\<forall>u \<in> set (gs_vhp g). fl_le fl (gs_heat g ! unat u) (gs_heat g ! unat v))"
    using hp_pop_spec [OF Suc.prems(1) ne] by (auto simp: returns_def)
  note P = gs_Pos [OF wf g1(3)]
  have vl: "2 * unat v < length vals" using Suc.prems(2) g1(3) by (simp add: gs_in_def)
  have vc: "unat v < length (gs_cache g)" using P(6) gs_wfD(2) [OF wf] by simp
  show ?case
  proof (cases "free_var vals v")
    case True
    define m where "m = (if gs_cache g ! unat v = -1 then var_Neg v else var_Pos v)"
    have m: "lit_Var m = v" "lit_IsPos m = (gs_cache g ! unat v \<noteq> -1)" using P by (simp_all add: m_def)
    have "m \<noteq> LitNull" using m(1) Suc.prems(3) g1(3) by (auto simp: LitNull_def lit_Var_def)
    moreover have "guess_loop fl vals (Suc n) g = Some (m, g1)"
      using g1(1,8) True vl vc by (simp add: P free_var_def m_def)
    ultimately show ?thesis using g1 m True by auto
  next
    case False
    have "returns (guess_loop fl vals n g1) (\<lambda>(m, g'). heap_ok fl g'
     \<and> length (gs_pos g') = length (gs_pos g1) \<and> set (gs_vhp g') \<subseteq> set (gs_vhp g1)
     \<and> (if m = LitNull then (\<forall>v \<in> set (gs_vhp g1). \<not> free_var vals v)
        else lit_Var m \<in> set (gs_vhp g1) \<and> free_var vals (lit_Var m)
          \<and> lit_IsPos m = (gs_cache g1 ! unat (lit_Var m) \<noteq> -1)
          \<and> (\<forall>v \<in> set (gs_vhp g1). free_var vals v \<longrightarrow> v = lit_Var m \<or> v \<in> set (gs_vhp g'))
          \<and> (heats_ok fl g1 \<longrightarrow> (\<forall>v \<in> set (gs_vhp g1). free_var vals v \<longrightarrow>
               fl_le fl (gs_heat g1 ! unat v) (gs_heat g1 ! unat (lit_Var m))))))"
      using g1 Suc.prems by (intro Suc.IH) (auto simp: gs_in_def)
    moreover have "guess_loop fl vals (Suc n) g = guess_loop fl vals n g1"
      using g1(1) False vl by (simp add: P free_var_def)
    moreover have "heats_ok fl g1 = heats_ok fl g" by (simp add: heats_ok_def g1(7))
    ultimately show ?thesis
      using g1 False by (auto elim!: returns_mono split: if_splits)
  qed
qed

lemma guess_has_spec:
  "gs_wf g \<Longrightarrow> set vs \<subseteq> set (gs_vhp g) \<Longrightarrow> gs_in vals g \<Longrightarrow>
   guess_has vals vs = Some (\<exists>v \<in> set vs. free_var vals v)"
  by (induction vs) (auto simp: gs_Pos gs_in_def free_var_def)

lemma Guess_has_spec:
  "gs_wf g \<Longrightarrow> gs_in vals g \<Longrightarrow> Guess_has vals g = Some (\<exists>v \<in> set (gs_vhp g). free_var vals v)"
  by (simp add: Guess_has_def guess_has_spec)

lemma Guess_growToVar_spec:
  assumes ok: "heap_ok fl g" and u: "length (gs_pos g) \<le> unat u + 1" "unat u < 2 ^ 30"
  shows "returns (Guess_growToVar fl u g) (\<lambda>g'. heap_ok fl g' \<and> length (gs_pos g') = unat u + 1
     \<and> set (gs_vhp g') = set (gs_vhp g) \<union> {v. length (gs_pos g) \<le> unat v \<and> unat v \<le> unat u})"
proof -
  have wf: "gs_wf g" using ok by (simp add: heap_ok_def)
  note wfD = gs_wfD [OF wf]
  define w n where "w = unat (u + 1)" and "n = length (gs_pos g)"
  have w: "w = unat u + 1" using u(2) by (simp add: w_def unat_word_ariths)
  have nw: "n \<le> w" using u(1) by (simp add: w n_def)
  define l where "l = length (gs_vhp g)"
  have "l \<le> n"
  proof -
    have "unat ` set (gs_vhp g) \<subseteq> {..<n}" using wfD(4) by (auto simp: in_set_conv_nth n_def)
    then have "card (unat ` set (gs_vhp g)) \<le> n" by (metis card_lessThan card_mono finite_lessThan)
    moreover have "card (unat ` set (gs_vhp g)) = l"
    proof -
      have "inj_on unat (set (gs_vhp g))" by (rule inj_onI) (simp add: word_eq_iff_unat)
      then show ?thesis using gs_distinct [OF wf] by (simp add: card_image l_def distinct_card)
    qed
    ultimately show ?thesis by simp
  qed
  define g1 where "g1 = g\<lparr>gs_vhp := gs_vhp g @ map of_nat [n..<w],
     gs_pos := take w (gs_pos g) @ map (\<lambda>i. int l + int (i - n)) [n..<w],
     gs_heat := grow_list w (fl_ofint fl 0) (gs_heat g), gs_cache := grow_list w 0 (gs_cache g)\<rparr>"
  have run: "Guess_growToVar fl u g = hp_heapify fl g1"
    using \<open>l \<le> n\<close> nw by (simp add: Guess_growToVar_def Let_def w_def [symmetric] n_def [symmetric]
      g1_def l_def)
  have vhp: "gs_vhp g1 ! i = (if i < l then gs_vhp g ! i else of_nat (n + (i - l)))"
    if "i < l + (w - n)" for i
    using that by (auto simp: g1_def nth_append l_def)
  have uo: "unat (of_nat k :: var) = k" if "k < w" for k
    using that w u(2) by (intro unat_of_nat32) simp
  have pos: "gs_pos g1 ! k = (if k < n then gs_pos g ! k else int l + int (k - n))" if "k < w" for k
    using that nw by (auto simp: g1_def nth_append n_def)
  have lim1: "gs_bumpLim g1 = fl_gBumpLim fl" using ok by (simp add: g1_def heap_ok_def)
  have lens: "length (gs_vhp g1) = l + (w - n)" "length (gs_pos g1) = w"
    using nw by (simp_all add: g1_def l_def n_def)
  have wf1: "gs_wf g1"
    unfolding gs_wf_def lens
  proof (intro conjI allI impI)
    show "length (gs_heat g1) = w" "length (gs_cache g1) = w" by (simp_all add: g1_def)
    show "w < 2 ^ 31" using w u(2) by simp
  next
    fix i assume i: "i < l + (w - n)"
    show "unat (gs_vhp g1 ! i) < w" "gs_pos g1 ! unat (gs_vhp g1 ! i) = int i"
    proof -
      have "unat (gs_vhp g1 ! i) < w \<and> gs_pos g1 ! unat (gs_vhp g1 ! i) = int i"
      proof (cases "i < l")
        case True
        then show ?thesis
          using vhp [OF i] wfD(4,5) [of i] nw by (simp add: l_def n_def [symmetric] pos)
      next
        case False
        then have k: "n + (i - l) < w" using i by simp
        have "unat (gs_vhp g1 ! i) = n + (i - l)" unfolding vhp [OF i] using False uo [OF k] by (simp only: if_False)
        moreover have "\<not> n + (i - l) < n" "int l + int (n + (i - l) - n) = int i" using False by auto
        ultimately show ?thesis using k pos [OF k] by simp
      qed
      then show "unat (gs_vhp g1 ! i) < w" "gs_pos g1 ! unat (gs_vhp g1 ! i) = int i" by blast+
    qed
  next
    fix k assume k: "k < w" "gs_pos g1 ! k \<noteq> -1"
    show "\<exists>i < l + (w - n). unat (gs_vhp g1 ! i) = k"
    proof (cases "k < n")
      case True
      then obtain i where "i < l" "unat (gs_vhp g ! i) = k"
        using wfD(6) [of k] k pos [OF k(1)] by (auto simp: n_def l_def)
      then show ?thesis by (intro exI [of _ i]) (simp add: vhp)
    next
      case False
      then show ?thesis
        using k uo [OF k(1)] by (intro exI [of _ "l + (k - n)"]) (auto simp: vhp)
    qed
  qed
  have "set (gs_vhp g1) = set (gs_vhp g) \<union> {v. n \<le> unat v \<and> unat v \<le> unat u}"
  proof -
    have "(of_nat ` {n..<w} :: var set) = {v. n \<le> unat v \<and> unat v \<le> unat u}"
    proof (intro equalityI subsetI)
      fix v :: var assume "v \<in> {v. n \<le> unat v \<and> unat v \<le> unat u}"
      then show "v \<in> of_nat ` {n..<w}" using w by (intro image_eqI [of _ _ "unat v"]) auto
    qed (use uo w in auto)
    then show ?thesis by (simp add: g1_def)
  qed
  then show ?thesis
    unfolding run using hp_heapify_spec [OF wf1 lim1] lens(2) w
    by (auto elim!: returns_mono simp: n_def dest: sameD(3,5))
qed

end
