(* ===== verification/GuessProps.thy ===== *)
theory GuessProps
  imports Guess Complex_Main
begin

text \<open>
  What a guess of the decision heuristic (\<^verbatim>\<open>internal/xo/guess.go\<close>) is, and the floating-point parameter
  instantiated by real arithmetic with a NaN.
\<close>

text \<open>
  (C19) Guess returns the unassigned variable of greatest heat among those in the heap (of greatest heat as long as no
  heat is NaN and the floating-point numbers are as \<open>floats_ok\<close> says), with its
  cached phase, removes from the heap only that variable and assigned ones, keeps the heap in order, and
  answers the null literal exactly when every variable in the heap is assigned.
\<close>

theorem Guess_picks_hottest:
  assumes "heap_ok fl g" and "gs_in vals g" and "0 \<notin> set (gs_vhp g)"
  shows "returns (Guess_Guess fl vals g) (\<lambda>(m, g'). heap_ok fl g'
     \<and> (m = LitNull \<longleftrightarrow> (\<forall>v \<in> set (gs_vhp g). \<not> free_var vals v))
     \<and> (m \<noteq> LitNull \<longrightarrow>
          lit_Var m \<in> set (gs_vhp g) \<and> free_var vals (lit_Var m)
          \<and> lit_IsPos m = (gs_cache g ! unat (lit_Var m) \<noteq> -1)
          \<and> (\<forall>v \<in> set (gs_vhp g). free_var vals v \<longrightarrow> v = lit_Var m \<or> v \<in> set (gs_vhp g'))
          \<and> (heats_ok fl g \<longrightarrow> (\<forall>v \<in> set (gs_vhp g). free_var vals v \<longrightarrow>
               fl_le fl (gs_heat g ! unat v) (gs_heat g ! unat (lit_Var m))))))"
  unfolding Guess_Guess_def
  using guess_loop_spec [OF assms refl] by (rule returns_mono) (auto split: if_splits)

text \<open>
  Real arithmetic with a NaN, and the constants of the code: two variables enter the heap, the second one is
  bumped and moves to the top, and Guess takes it.
\<close>

definition real_floats :: "real option floats" where
  "real_floats = \<lparr>fl_le = (\<lambda>a b. case (a, b) of (Some x, Some y) \<Rightarrow> x \<le> y | _ \<Rightarrow> False),
     fl_lt = (\<lambda>a b. case (a, b) of (Some x, Some y) \<Rightarrow> x < y | _ \<Rightarrow> False),
     fl_add = (\<lambda>a b. do { x \<leftarrow> a; y \<leftarrow> b; Some (x + y) }), fl_sub = (\<lambda>a b. do { x \<leftarrow> a; y \<leftarrow> b; Some (x - y) }),
     fl_mul = (\<lambda>a b. do { x \<leftarrow> a; y \<leftarrow> b; Some (x * y) }),
     fl_div = (\<lambda>a b. do { x \<leftarrow> a; y \<leftarrow> b; if y = 0 then None else Some (x / y) }),
     fl_exp = map_option exp, fl_ofint = (\<lambda>i. Some (real_of_int i)), fl_inc = Some (1 / 1000),
     fl_gBumpInc = Some 1, fl_gBumpDecay = Some (95 / 100), fl_gBumpLim = Some (10 ^ 100),
     fl_gDecayMin = Some (67 / 100), fl_gDecayMax = Some (935 / 1000), fl_gDecayMaxMax = Some (9875 / 10000),
     fl_gDecayMaxDecay = Some (9999 / 10000)\<rparr>"

lemma real_floats_ok: "floats_ok real_floats"
proof -
  have "fl_div real_floats (fl_ofint real_floats 1) (fl_gBumpLim real_floats) = Some (1 / 10 ^ 100)"
    by (simp add: real_floats_def)
  moreover have "x * c \<le> y * c" if "x \<le> y" "0 < c" for x y c :: real using that by simp
  ultimately show ?thesis
    unfolding floats_ok_def Let_def
    by (auto simp: real_floats_def divide_right_mono split: option.splits Option.bind_splits)
qed

theorem Guess_picks_hottest_witness:
  "\<exists>g. (do { g \<leftarrow> Guess_Push real_floats 2 (newGuess real_floats 2); g \<leftarrow> Guess_Push real_floats 4 g;
            (r, g) \<leftarrow> Guess_Bump real_floats 4 g; Some g }) = Some g
     \<and> heats_ok real_floats g \<and> gs_heat g = [Some 0, Some 0, Some 1]
     \<and> returns (Guess_Guess real_floats (replicate 6 0) g) (\<lambda>(m, g'). lit_Var m = 2)"
proof -
  let ?fl = real_floats and ?g0 = "newGuess real_floats 2"
  have lits: "lit_Var 2 = 1" "lit_Var 4 = 2" by (simp_all add: word_eq_iff_unat unat_lit_Var)
  have ok0: "heap_ok ?fl ?g0" "length (gs_pos ?g0) = 3" "gs_vhp ?g0 = []" "gs_heat ?g0 = [Some 0, Some 0, Some 0]"
    "gs_bumpInc ?g0 = Some 1"
    by (simp_all add: heap_ok_def gs_wf_def newGuess_def Let_def ordered_def real_floats_def numeral_3_eq_3 less_Suc_eq)
  obtain g1 where g1: "Guess_Push ?fl 2 ?g0 = Some g1" "heap_ok ?fl g1" "length (gs_pos g1) = 3"
    "set (gs_vhp g1) = {1}" "gs_heat g1 = [Some 0, Some 0, Some 0]" "gs_bumpInc g1 = Some 1"
    using Guess_Push_full [OF ok0(1), of 2] ok0 by (auto simp: returns_def lits)
  obtain g2 where g2: "Guess_Push ?fl 4 g1 = Some g2" "heap_ok ?fl g2" "length (gs_pos g2) = 3"
    "set (gs_vhp g2) = {1, 2}" "gs_heat g2 = [Some 0, Some 0, Some 0]" "gs_bumpInc g2 = Some 1"
    using Guess_Push_full [OF g1(2), of 4] g1 by (auto simp: returns_def lits)
  have lim: "gs_bumpLim g2 = Some (10 ^ 100)" using g2(2) by (simp add: heap_ok_def real_floats_def)
  have nth: "[a, b, c] ! 2 = c" "[a, b, c][2 := d] = [a, b, d]" for a b c d :: "real option"
    by (simp_all add: numeral_2_eq_2)
  have u: "unat (2 :: var) = 2" by simp
  have add: "fl_add ?fl (Some 0) (Some 1) = Some 1" "\<not> fl_lt ?fl (gs_bumpLim g2) (Some 1)"
    by (simp_all add: lim real_floats_def)
  obtain r g3 where g3: "Guess_Bump ?fl 4 g2 = Some (r, g3)" "heap_ok ?fl g3" "length (gs_pos g3) = 3"
    "set (gs_vhp g3) = {1, 2}" "gs_heat g3 = [Some 0, Some 0, Some 1]"
    using Guess_Bump_full [OF g2(2), of 4] g2
    by (auto simp: returns_def lits add Let_def nth u simp del: unat_numeral)
  have run: "(do { g \<leftarrow> Guess_Push ?fl 2 ?g0; g \<leftarrow> Guess_Push ?fl 4 g; (r, g) \<leftarrow> Guess_Bump ?fl 4 g; Some g }) = Some g3"
    using g1(1) g2(1) g3(1) by simp
  have num: "heats_ok ?fl g3" using real_floats_ok by (simp add: heats_ok_def g3(5)) (simp add: real_floats_def)
  have inn: "gs_in (replicate 6 0) g3" "0 \<notin> set (gs_vhp g3)" by (simp_all add: gs_in_def g3(4))
  have free: "free_var (replicate 6 0) 2" "free_var (replicate 6 0) 1" by (simp_all add: free_var_def)
  have "\<not> fl_le ?fl (Some 1) (Some 0)" by (simp add: real_floats_def)
  then have "returns (Guess_Guess ?fl (replicate 6 0) g3) (\<lambda>(m, g'). lit_Var m = 2)"
    using Guess_picks_hottest [OF g3(2) inn] num free g3(4)
    by (auto elim!: returns_mono simp: g3(5))
  then show ?thesis using run num g3(5) by blast
qed

end
