(* ===== verification/Dimacs.thy ===== *)
theory Dimacs
  imports Literals
begin

text \<open>
  Reading DIMACS (\<^verbatim>\<open>dimacs/\<close>): the comment filter, integers and literals, CNF problems,
  incremental problems and the output of solvers.

  The reader under the comment filter is the list of the results of its successive
  \<^verbatim>\<open>Read\<close> calls, after which it is at the end of its input.  A \<^verbatim>\<open>bufio.Reader\<close> is the rest
  of the bytes it will deliver, the byte that \<^verbatim>\<open>UnreadByte\<close> would give back, and the error that
  comes after the last byte.  A visitor is the list of the calls it receives.  Go's 64-bit
  \<^verbatim>\<open>int\<close> is kept as a word while digits are read.
\<close>

type_synonym byte = u8

definition NL :: byte where "NL = 10"       \<comment> \<open>newline\<close>
definition SP :: byte where "SP = 32"       \<comment> \<open>space\<close>
definition ch_c :: byte where "ch_c = 99"
definition ch_p :: byte where "ch_p = 112"
definition ch_a :: byte where "ch_a = 97"
definition ch_s :: byte where "ch_s = 115"
definition ch_v :: byte where "ch_v = 118"
definition ch_minus :: byte where "ch_minus = 45"
definition ch_0 :: byte where "ch_0 = 48"
definition ch_9 :: byte where "ch_9 = 57"

lemmas ch_defs = NL_def SP_def ch_c_def ch_p_def ch_a_def ch_s_def ch_v_def ch_minus_def ch_0_def ch_9_def

section \<open>Comments\<close>

datatype read_err = EOF | ReadFail

type_synonym reads = "(byte list \<times> read_err option) list"

datatype cstate = InComment | NewLine | NewLineC | NotComment | Start

record cfilter =
  cf_rdr :: reads
  cf_state :: cstate

definition NewCommentFilter :: "reads \<Rightarrow> cfilter" where
  "NewCommentFilter r = \<lparr>cf_rdr = r, cf_state = Start\<rparr>"

text \<open>The body of the loop over the bytes of a read: what is kept of a byte, and the next state.\<close>

fun filter_byte :: "cstate \<Rightarrow> byte \<Rightarrow> byte list \<times> cstate" where
  "filter_byte InComment b = ([], if b = NL then NewLineC else InComment)"
| "filter_byte NotComment b = ([b], if b = NL then NewLine else NotComment)"
| "filter_byte NewLineC b = (if b = ch_c then ([], InComment) else ([b], NotComment))"
| "filter_byte NewLine b =
     (if b = ch_c then ([], InComment) else ([b], if b \<noteq> NL then NotComment else NewLine))"
| "filter_byte Start b =
     (if b = ch_c then ([], InComment) else if b = NL then ([b], NewLine) else ([b], NotComment))"

fun filter_bytes :: "cstate \<Rightarrow> byte list \<Rightarrow> byte list \<times> cstate" where
  "filter_bytes st [] = ([], st)"
| "filter_bytes st (b # bs) =
     (let (k, st) = filter_byte st b; (ks, st) = filter_bytes st bs in (k @ ks, st))"

text \<open>
  A read of the filter: reads of the underlying reader until one leaves bytes after filtering or
  comes with an error; the bytes that come with an error are not filtered.
\<close>

fun cf_read :: "reads \<Rightarrow> cstate \<Rightarrow> byte list \<times> read_err option \<times> cfilter" where
  "cf_read [] st = ([], Some EOF, \<lparr>cf_rdr = [], cf_state = st\<rparr>)"
| "cf_read ((bs, Some e) # rs) st = (bs, Some e, \<lparr>cf_rdr = rs, cf_state = st\<rparr>)"
| "cf_read ((bs, None) # rs) st =
     (let (out, st) = filter_bytes st bs
      in if out = [] then cf_read rs st else (out, None, \<lparr>cf_rdr = rs, cf_state = st\<rparr>))"

definition cf_Read :: "cfilter \<Rightarrow> byte list \<times> read_err option \<times> cfilter" where
  "cf_Read f = cf_read (cf_rdr f) (cf_state f)"

section \<open>The buffered reader\<close>

record rdr =
  rd_buf :: "byte list"
  rd_last :: "byte option"
  rd_end :: read_err

datatype derr = Rd read_err | Bad

text \<open>What a buffered reader over the filter delivers: the bytes of its reads up to the first error.\<close>

fun delivered :: "nat \<Rightarrow> cfilter \<Rightarrow> byte list \<times> read_err" where
  "delivered 0 f = ([], EOF)"
| "delivered (Suc n) f =
     (case cf_Read f of
        (bs, Some e, f) \<Rightarrow> (bs, e)
      | (bs, None, f) \<Rightarrow> let (cs, e) = delivered n f in (bs @ cs, e))"

definition bufio :: "reads \<Rightarrow> rdr" where
  "bufio rs =
     (let (bs, e) = delivered (Suc (length rs)) (NewCommentFilter rs)
      in \<lparr>rd_buf = bs, rd_last = None, rd_end = e\<rparr>)"

definition ReadByte :: "rdr \<Rightarrow> (derr + byte) \<times> rdr" where
  "ReadByte r =
     (case rd_buf r of
        [] \<Rightarrow> (Inl (Rd (rd_end r)), r)
      | b # bs \<Rightarrow> (Inr b, r\<lparr>rd_buf := bs, rd_last := Some b\<rparr>))"

definition UnreadByte :: "rdr \<Rightarrow> derr option \<times> rdr" where
  "UnreadByte r =
     (case rd_last r of
        None \<Rightarrow> (Some Bad, r)
      | Some b \<Rightarrow> (None, r\<lparr>rd_buf := b # rd_buf r, rd_last := None\<rparr>))"

lemma ReadByte_shorter:
  "ReadByte r = (Inr b, r') \<Longrightarrow> length (rd_buf r) = Suc (length (rd_buf r')) \<and> rd_end r' = rd_end r"
  by (auto simp: ReadByte_def split: list.splits)

section \<open>Integers and literals\<close>

definition is_white :: "byte \<Rightarrow> bool" where
  "is_white c \<longleftrightarrow> c = SP \<or> c = NL \<or> c = 9 \<or> c = 13"

function readNextNonWhiteByte :: "rdr \<Rightarrow> (derr + byte) \<times> rdr" where
  "readNextNonWhiteByte r =
     (case ReadByte r of
        (Inl e, r) \<Rightarrow> (Inl e, r)
      | (Inr c, r) \<Rightarrow> if is_white c then readNextNonWhiteByte r else (Inr c, r))"
  by pat_completeness auto
termination
  by (relation "measure (\<lambda>r. length (rd_buf r))") (auto dest!: ReadByte_shorter sym [of "(_, _)"])

function readDigits :: "u64 \<Rightarrow> u64 \<Rightarrow> rdr \<Rightarrow> (derr + int) \<times> rdr" where
  "readDigits v m r =
     (case ReadByte r of
        (Inl e, r) \<Rightarrow> if e = Rd EOF then (Inr (sint (v * m)), r) else (Inl e, r)
      | (Inr c, r) \<Rightarrow>
          if is_white c then (Inr (sint (v * m)), r)
          else if c < ch_0 \<or> ch_9 < c then (Inl Bad, r)
          else readDigits (v * 10 + ucast (c - ch_0)) m r)"
  by pat_completeness auto
termination
  by (relation "measure (\<lambda>(v, m, r). length (rd_buf r))") (auto dest!: ReadByte_shorter sym [of "(_, _)"])

definition readInt :: "rdr \<Rightarrow> (derr + int) \<times> rdr" where
  "readInt r =
     (case readNextNonWhiteByte r of
        (Inl e, r) \<Rightarrow> (Inl e, r)
      | (Inr c, r) \<Rightarrow>
          if ch_0 \<le> c \<and> c \<le> ch_9 then readDigits (ucast (c - ch_0)) 1 r
          else if c = ch_minus then readDigits 0 (-1) r
          else (Inl Bad, r))"

definition readLit :: "rdr \<Rightarrow> (derr + lit) \<times> rdr" where
  "readLit r =
     (case readInt r of
        (Inl e, r) \<Rightarrow> (Inl e, r)
      | (Inr i, r) \<Rightarrow> (Inr (Dimacs2Lit i), r))"

declare readNextNonWhiteByte.simps [simp del] readDigits.simps [simp del]

lemma readNextNonWhiteByte_shorter:
  "readNextNonWhiteByte r = (Inr c, r') \<Longrightarrow> length (rd_buf r') < length (rd_buf r) \<and> rd_end r' = rd_end r"
proof (induction r rule: readNextNonWhiteByte.induct)
  case (1 r)
  then show ?case
    by (subst (asm) (2) readNextNonWhiteByte.simps)
      (auto split: prod.splits sum.splits if_splits dest: ReadByte_shorter)
qed

lemma readDigits_shorter:
  "readDigits v m r = (Inr i, r') \<Longrightarrow> length (rd_buf r') \<le> length (rd_buf r) \<and> rd_end r' = rd_end r"
proof (induction v m r rule: readDigits.induct)
  case (1 v m r)
  show ?case
  proof (cases "ReadByte r")
    case (Pair x r1)
    show ?thesis
    proof (cases x)
      case (Inl e)
      then have "r1 = r" using Pair by (auto simp: ReadByte_def split: list.splits)
      then show ?thesis using 1(2) Pair Inl by (subst (asm) readDigits.simps) (auto split: if_splits)
    next
      case (Inr c)
      note ReadByte_shorter [OF Pair [unfolded Inr]]
      then show ?thesis using 1 Pair Inr by (subst (asm) (2) readDigits.simps) (auto split: if_splits)
    qed
  qed
qed

lemma readInt_shorter:
  assumes "readInt r = (Inr i, r')"
  shows "length (rd_buf r') < length (rd_buf r) \<and> rd_end r' = rd_end r"
  using assms
  by (auto simp: readInt_def split: prod.splits sum.splits if_splits dest!: readNextNonWhiteByte_shorter readDigits_shorter)

section \<open>Problems\<close>

datatype vis_call = VInit int int | VAdd lit | VAssume lit | VSolution int | VValue lit | VEof

record cnfr =
  cn_rdr :: rdr
  cn_vis :: "vis_call list"
  cn_vMax :: int
  cn_nCls :: int
  cn_hdrVars :: int
  cn_hdrCls :: int
  cn_strict :: bool

definition newCnfReader :: "reads \<Rightarrow> cnfr" where
  "newCnfReader rs = \<lparr>cn_rdr = bufio rs, cn_vis = [], cn_vMax = 0, cn_nCls = 0, cn_hdrVars = -1,
     cn_hdrCls = -1, cn_strict = False\<rparr>"

definition SetStrict :: "bool \<Rightarrow> cnfr \<Rightarrow> cnfr" where
  "SetStrict v r = r\<lparr>cn_strict := v\<rparr>"

fun expect_bytes :: "byte list \<Rightarrow> rdr \<Rightarrow> derr option \<times> rdr" where
  "expect_bytes [] r = (None, r)"
| "expect_bytes (c # cs) r =
     (case ReadByte r of
        (Inl e, r) \<Rightarrow> (Some e, r)
      | (Inr b, r) \<Rightarrow> if b \<noteq> c then (Some Bad, r) else expect_bytes cs r)"

text \<open>\<^verbatim>\<open>p cnf \<close>\<close>

definition cnf_magic :: "byte list" where
  "cnf_magic = [112, 32, 99, 110, 102, 32]"

definition cnf_readP :: "cnfr \<Rightarrow> derr option \<times> cnfr" where
  "cnf_readP r =
     (if cn_hdrVars r \<noteq> -1 then (Some Bad, r)
      else case expect_bytes cnf_magic (cn_rdr r) of
        (Some e, rd) \<Rightarrow> (Some e, r\<lparr>cn_rdr := rd\<rparr>)
      | (None, rd) \<Rightarrow>
          (case readInt rd of
             (Inl e, rd) \<Rightarrow> (Some e, r\<lparr>cn_rdr := rd\<rparr>)
           | (Inr nv, rd) \<Rightarrow>
               (case readInt rd of
                  (Inl e, rd) \<Rightarrow> (Some e, r\<lparr>cn_rdr := rd\<rparr>)
                | (Inr nc, rd) \<Rightarrow> (None, r\<lparr>cn_rdr := rd, cn_hdrVars := nv, cn_hdrCls := nc\<rparr>))))"

definition readHeader :: "cnfr \<Rightarrow> derr option \<times> cnfr" where
  "readHeader r =
     (case ReadByte (cn_rdr r) of
        (Inl e, rd) \<Rightarrow> (Some e, r\<lparr>cn_rdr := rd\<rparr>)
      | (Inr b, rd) \<Rightarrow>
          (case UnreadByte rd of
             (Some e, rd) \<Rightarrow> (Some e, r\<lparr>cn_rdr := rd\<rparr>)
           | (None, rd) \<Rightarrow>
               if b = ch_p then cnf_readP (r\<lparr>cn_rdr := rd\<rparr>) else (None, r\<lparr>cn_rdr := rd\<rparr>)))"

function body_loop :: "cnfr \<Rightarrow> derr option \<times> cnfr" where
  "body_loop r =
     (case readInt (cn_rdr r) of
        (Inl e, rd) \<Rightarrow> (if e = Rd EOF then None else Some e, r\<lparr>cn_rdr := rd\<rparr>)
      | (Inr v, rd) \<Rightarrow>
          let r = r\<lparr>cn_rdr := rd\<rparr>
          in if v = 0
             then body_loop (r\<lparr>cn_vis := cn_vis r @ [VAdd LitNull], cn_nCls := cn_nCls r + 1\<rparr>)
             else body_loop (r\<lparr>cn_vMax := (if v < 0 then (if - v > cn_vMax r then - v else cn_vMax r)
                                               else if cn_vMax r < v then v else cn_vMax r),
                               cn_vis := cn_vis r @ [VAdd (Dimacs2Lit v)]\<rparr>))"
  by pat_completeness auto
termination
  by (relation "measure (\<lambda>r. length (rd_buf (cn_rdr r)))")
    (auto dest!: readInt_shorter sym [of "(_, _)"])

definition readBody :: "cnfr \<Rightarrow> derr option \<times> cnfr" where
  "readBody r =
     (let vCap = (if cn_hdrVars r = -1 then 8192 else cn_hdrVars r);
          cCap = (if cn_hdrCls r = -1 then vCap * 5 else cn_hdrCls r)
      in body_loop (r\<lparr>cn_vis := cn_vis r @ [VInit vCap cCap]\<rparr>))"

definition cnf_Read :: "cnfr \<Rightarrow> derr option \<times> cnfr" where
  "cnf_Read r =
     (let (e, r) = readHeader r
      in if e \<noteq> None \<and> (cn_strict r \<or> e \<noteq> Some (Rd EOF)) then (e, r)
         else if cn_strict r \<and> (cn_hdrVars r = -1 \<or> cn_hdrCls r = -1) then (Some Bad, r)
         else let (e, r) = readBody r
              in if e \<noteq> None \<and> e \<noteq> Some (Rd EOF) then (e, r)
                 else if cn_strict r \<and> (cn_hdrVars r \<noteq> cn_vMax r \<or> cn_hdrCls r \<noteq> cn_nCls r) then (Some Bad, r)
                 else (None, r))"

definition ReadCnfStrict :: "reads \<Rightarrow> bool \<Rightarrow> derr option \<times> vis_call list" where
  "ReadCnfStrict rs strict =
     (let (e, r) = cnf_Read (SetStrict strict (newCnfReader rs)) in (e, cn_vis r))"

definition ReadCnf :: "reads \<Rightarrow> derr option \<times> vis_call list" where
  "ReadCnf rs = ReadCnfStrict rs False"

section \<open>Incremental problems\<close>

text \<open>\<^verbatim>\<open>p inccnf\<close> and a newline\<close>

definition icnf_magic :: "byte list" where
  "icnf_magic = [112, 32, 105, 110, 99, 99, 110, 102, 10]"

definition icnf_readP :: "rdr \<Rightarrow> derr option \<times> rdr" where
  "icnf_readP r = expect_bytes icnf_magic r"

lemma readLit_shorter:
  "readLit r = (Inr m, r') \<Longrightarrow> length (rd_buf r') < length (rd_buf r) \<and> rd_end r' = rd_end r"
  by (auto simp: readLit_def split: prod.splits sum.splits dest: readInt_shorter)

text \<open>The line of the assumption flag and the give back of a byte, before a literal is read.\<close>

definition icnf_flag :: "byte \<Rightarrow> bool \<Rightarrow> rdr \<Rightarrow> derr option \<times> bool \<times> rdr" where
  "icnf_flag c assumptions r =
     (if c = ch_a then (None, True, r)
      else let (e, r) = UnreadByte r in (e, assumptions, r))"

lemma icnf_flag_shorter:
  "ReadByte r = (Inr c, r1) \<Longrightarrow> icnf_flag c a r1 = (None, a', r2) \<Longrightarrow> length (rd_buf r2) \<le> length (rd_buf r)"
  by (auto simp: icnf_flag_def UnreadByte_def ReadByte_def split: list.splits option.splits if_splits)

function icnf_loop :: "rdr \<Rightarrow> bool \<Rightarrow> vis_call list \<Rightarrow> derr option \<times> vis_call list" where
  "icnf_loop r assumptions vis =
     (case ReadByte r of
        (Inl e, r1) \<Rightarrow> if e = Rd EOF then (None, vis @ [VEof]) else (Some e, vis)
      | (Inr c, r1) \<Rightarrow>
          (case icnf_flag c assumptions r1 of
             (Some e, a, r2) \<Rightarrow> (Some e, vis)
           | (None, a, r2) \<Rightarrow>
               (case readLit r2 of
                  (Inl e, r3) \<Rightarrow> (Some e, vis)
                | (Inr m, r3) \<Rightarrow>
                    icnf_loop r3 (if m = LitNull then False else a)
                      (vis @ [if a then VAssume m else VAdd m]))))"
  by pat_completeness auto
termination
proof (relation "measure (\<lambda>(r, a, vis). length (rd_buf r))", goal_cases)
  case (2 r a vis x r1 c y b a' r2 z r3 m)
  have "ReadByte r = (Inr c, r1)" "icnf_flag c a r1 = (None, a', r2)" using 2 by simp_all
  then have "length (rd_buf r2) \<le> length (rd_buf r)" by (rule icnf_flag_shorter)
  moreover have "length (rd_buf r3) < length (rd_buf r2)" using 2 readLit_shorter [of r2 m r3] by simp
  ultimately show ?case by simp
qed simp

definition ReadICnf :: "reads \<Rightarrow> derr option \<times> vis_call list" where
  "ReadICnf rs =
     (case icnf_readP (bufio rs) of
        (Some e, r) \<Rightarrow> (Some e, [])
      | (None, r) \<Rightarrow> icnf_loop r False [])"

section \<open>Solver output\<close>

datatype solveState = Neither | Sol | Values

definition TrimSpace :: "byte list \<Rightarrow> byte list" where
  "TrimSpace bs =
     (let sp = (\<lambda>b. is_white b \<or> b = 11 \<or> b = 12)
      in rev (dropWhile sp (rev (dropWhile sp bs))))"

text \<open>\<^verbatim>\<open>SATISFIABLE\<close>, \<^verbatim>\<open>UNSATISFIABLE\<close> and \<^verbatim>\<open>UNKNOWN\<close>\<close>

definition str_SAT :: "byte list" where
  "str_SAT = [83, 65, 84, 73, 83, 70, 73, 65, 66, 76, 69]"

definition str_UNSAT :: "byte list" where
  "str_UNSAT = [85, 78] @ str_SAT"

definition str_UNKNOWN :: "byte list" where
  "str_UNKNOWN = [85, 78, 75, 78, 79, 87, 78]"

definition handleSolution :: "byte list \<Rightarrow> vis_call list \<Rightarrow> derr option \<times> vis_call list" where
  "handleSolution sol vis =
     (let sol = TrimSpace sol
      in if sol = str_SAT then (None, vis @ [VSolution 1])
         else if sol = str_UNSAT then (None, vis @ [VSolution (-1)])
         else if sol = str_UNKNOWN then (None, vis @ [VSolution 0])
         else (Some Bad, vis))"

text \<open>The end of a line, or of the input: the solution line that was collected is handled.\<close>

definition end_solution :: "byte list \<Rightarrow> vis_call list \<Rightarrow> derr option \<times> vis_call list" where
  "end_solution solbuf vis = (if solbuf \<noteq> [] then handleSolution solbuf vis else (None, vis))"

lemma UnreadByte_after:
  "ReadByte r = (Inr c, r1) \<Longrightarrow> UnreadByte r1 = (e, r2) \<Longrightarrow> e = None \<and> rd_buf r2 = rd_buf r \<and> rd_end r2 = rd_end r"
  by (auto simp: UnreadByte_def ReadByte_def split: list.splits option.splits)

function sread_loop :: "rdr \<Rightarrow> solveState \<Rightarrow> byte list \<Rightarrow> vis_call list \<Rightarrow> derr option \<times> vis_call list" where
  "sread_loop r state solbuf vis =
     (case ReadByte r of
        (Inl e, r1) \<Rightarrow>
          if e = Rd EOF
          then (case end_solution solbuf vis of (Some e, vis) \<Rightarrow> (Some e, vis) | (None, vis) \<Rightarrow> (None, vis @ [VEof]))
          else (Some e, vis)
      | (Inr c, r1) \<Rightarrow>
          if c = NL
          then (case end_solution solbuf vis of
                  (Some e, vis) \<Rightarrow> (Some e, vis) | (None, vis) \<Rightarrow> sread_loop r1 Neither [] vis)
          else (case state of
                  Neither \<Rightarrow>
                    if c = ch_s then sread_loop r1 Sol solbuf vis
                    else if c = ch_v then sread_loop r1 Values solbuf vis
                    else (Some Bad, vis)
                | Values \<Rightarrow>
                    (case UnreadByte r1 of
                       (Some e, r2) \<Rightarrow> (Some e, vis)
                     | (None, r2) \<Rightarrow>
                         (case readLit r2 of
                            (Inl e, r3) \<Rightarrow> (Some e, vis)
                          | (Inr m, r3) \<Rightarrow> sread_loop r3 Values solbuf (vis @ [VValue m])))
                | Sol \<Rightarrow> sread_loop r1 Sol (solbuf @ [c]) vis))"
  by pat_completeness auto
termination
proof (relation "measure (\<lambda>(r, st, sb, vis). length (rd_buf r))", goal_cases)
  case (6 r st sb vis x r1 c y r2 z r3 m)
  then show ?case using UnreadByte_after [of r c r1 None r2] readLit_shorter [of r2 m r3] by simp
qed (auto dest!: sym [of "(_, _)"] ReadByte_shorter)

definition ReadSolve :: "reads \<Rightarrow> derr option \<times> vis_call list" where
  "ReadSolve rs = sread_loop (bufio rs) Neither [] []"

declare body_loop.simps [simp del] icnf_loop.simps [simp del] sread_loop.simps [simp del]

end
