(* ===== verification/DimacsProps.thy ===== *)
theory DimacsProps
  imports Dimacs
begin

text \<open>
  What the readers of DIMACS do with text in the format: comments are removed however the input is
  cut into reads, and printed integers are read back.
\<close>

section \<open>Comments\<close>

lemma filter_bytes_append:
  "filter_bytes st (xs @ ys) =
     (let (ks, st) = filter_bytes st xs; (ls, st) = filter_bytes st ys in (ks @ ls, st))"
  by (induction xs arbitrary: st) (simp_all add: Let_def split: prod.splits)

lemma delivered_None: "cf_rdr f = [] \<Longrightarrow> delivered n f = ([], EOF)"
  by (cases n) (simp_all add: cf_Read_def)

lemma delivered_skip:
  "fst (filter_bytes st b) = [] \<Longrightarrow>
   delivered n \<lparr>cf_rdr = (b, None) # rs, cf_state = st\<rparr>
     = delivered n \<lparr>cf_rdr = rs, cf_state = snd (filter_bytes st b)\<rparr>"
  by (cases n; cases "filter_bytes st b") (simp_all add: cf_Read_def)

text \<open>Reads without error deliver the filtered input, however it is cut.\<close>

lemma delivered_ok:
  assumes "length cs < n"
  shows "delivered n \<lparr>cf_rdr = map (\<lambda>b. (b, None)) cs, cf_state = st\<rparr> = (fst (filter_bytes st (concat cs)), EOF)"
  using assms
proof (induction cs arbitrary: n st)
  case Nil
  then show ?case by (simp add: delivered_None)
next
  case (Cons b cs)
  obtain m where n: "n = Suc m" using Cons.prems by (cases n) auto
  obtain out st' where f: "filter_bytes st b = (out, st')" by (cases "filter_bytes st b")
  show ?case
  proof (cases "out = []")
    case True
    then have "delivered n \<lparr>cf_rdr = map (\<lambda>b. (b, None)) (b # cs), cf_state = st\<rparr>
        = delivered n \<lparr>cf_rdr = map (\<lambda>b. (b, None)) cs, cf_state = st'\<rparr>"
      using delivered_skip [of st b n] f by simp
    then show ?thesis using Cons.IH [of n st'] Cons.prems True by (simp add: filter_bytes_append f split: prod.splits)
  next
    case False
    then have "cf_Read \<lparr>cf_rdr = map (\<lambda>b. (b, None)) (b # cs), cf_state = st\<rparr>
        = (out, None, \<lparr>cf_rdr = map (\<lambda>b. (b, None)) cs, cf_state = st'\<rparr>)"
      by (simp add: cf_Read_def f)
    then show ?thesis
      using Cons.IH [of m st'] Cons.prems by (simp add: n filter_bytes_append f split: prod.splits)
  qed
qed

definition plain_reads :: "byte list list \<Rightarrow> reads" where
  "plain_reads cs = map (\<lambda>b. (b, None)) cs"

lemma bufio_plain:
  "bufio (plain_reads cs) = \<lparr>rd_buf = fst (filter_bytes Start (concat cs)), rd_last = None, rd_end = EOF\<rparr>"
  using delivered_ok [of cs "Suc (length cs)" Start]
  by (simp add: bufio_def plain_reads_def NewCommentFilter_def)

definition lines_text :: "byte list list \<Rightarrow> byte list" where
  "lines_text ls = concat (map (\<lambda>l. l @ [NL]) ls)"

definition is_comment :: "byte list \<Rightarrow> bool" where
  "is_comment l \<longleftrightarrow> (case l of [] \<Rightarrow> False | c # _ \<Rightarrow> c = ch_c)"

fun blank_after_comment :: "byte list list \<Rightarrow> bool" where
  "blank_after_comment (k # l # ls) \<longleftrightarrow> is_comment k \<and> l = [] \<or> blank_after_comment (l # ls)"
| "blank_after_comment _ \<longleftrightarrow> False"

lemma filter_inside:
  assumes "NL \<notin> set l"
  shows "filter_bytes InComment (l @ [NL]) = ([], NewLineC)" and "filter_bytes NotComment (l @ [NL]) = (l @ [NL], NewLine)"
  using assms by (induction l) auto

lemma nl_not_c [simp]: "NL \<noteq> ch_c" by (simp add: ch_defs)

lemma filter_line:
  assumes "NL \<notin> set l" and "st \<in> {Start, NewLine, NewLineC}" and "st = NewLineC \<Longrightarrow> l \<noteq> []"
  shows "filter_bytes st (l @ [NL]) = (if is_comment l then ([], NewLineC) else (l @ [NL], NewLine))"
  using assms filter_inside by (cases l) (auto simp: is_comment_def)

lemma filter_lines:
  assumes "\<forall>l \<in> set ls. NL \<notin> set l" and "\<not> blank_after_comment ls" and "st \<in> {Start, NewLine, NewLineC}"
    and "st = NewLineC \<Longrightarrow> ls = [] \<or> hd ls \<noteq> []"
  shows "fst (filter_bytes st (lines_text ls)) = lines_text (filter (\<lambda>l. \<not> is_comment l) ls)"
  using assms
proof (induction ls arbitrary: st)
  case (Cons l ls)
  have f: "filter_bytes st (l @ [NL]) = (if is_comment l then ([], NewLineC) else (l @ [NL], NewLine))"
    by (rule filter_line) (use Cons.prems in auto)
  have nb: "\<not> blank_after_comment ls" "is_comment l \<Longrightarrow> ls = [] \<or> hd ls \<noteq> []"
    using Cons.prems(2) by (cases ls; simp)+
  have "fst (filter_bytes (snd (filter_bytes st (l @ [NL]))) (lines_text ls)) = lines_text (filter (\<lambda>l. \<not> is_comment l) ls)"
    by (rule Cons.IH) (use Cons.prems(1) nb f in \<open>auto split: if_splits\<close>)
  moreover have "lines_text (l # ls) = (l @ [NL]) @ lines_text ls" by (simp add: lines_text_def)
  ultimately show ?case
    using f by (auto simp: filter_bytes_append lines_text_def simp del: append_assoc split: prod.splits)
qed (simp add: lines_text_def)

text \<open>
  (C27) The comment filter under a buffered reader delivers exactly the lines that do not start with
  \<open>c\<close>, each of them unchanged, however the input is cut into reads, when no comment line is followed by an
  empty line.
\<close>

theorem comments_removed:
  assumes "concat cs = lines_text ls" and "\<forall>l \<in> set ls. NL \<notin> set l" and "\<not> blank_after_comment ls"
  shows "rd_buf (bufio (plain_reads cs)) = lines_text (filter (\<lambda>l. \<not> is_comment l) ls) \<and> rd_end (bufio (plain_reads cs)) = EOF"
  using filter_lines [OF assms(2,3), of Start] assms(1) by (simp add: bufio_plain)

theorem comments_removed_witness:
  "rd_buf (bufio (plain_reads [[99, 32], [120, 10, 49], [32, 48, 10]])) = [49, 32, 48, 10]"
  using comments_removed [of "[[99, 32], [120, 10, 49], [32, 48, 10]]" "[[99, 32, 120], [49, 32, 48]]"]
  by (simp add: lines_text_def is_comment_def ch_defs)

text \<open>
  An empty line after a comment makes the filter pass the next comment on: of the three lines \<open>c\<close>,
  empty, \<open>c\<close> it delivers the last two, and a reader of CNF then fails on them.
\<close>

theorem comment_after_blank_kept:
  "rd_buf (bufio (plain_reads [lines_text [[ch_c], [], [ch_c]]])) = lines_text [[], [ch_c]]
   \<and> fst (ReadCnf (plain_reads [lines_text [[ch_c], [], [ch_c]]])) = Some Bad
   \<and> fst (ReadCnf (plain_reads [lines_text [[ch_c], [ch_c]]])) = None"
  by code_simp

section \<open>Printed integers\<close>

text \<open>The decimal digits that \<^verbatim>\<open>%d\<close> prints.\<close>

fun digits :: "nat \<Rightarrow> byte list" where
  "digits n = (if n < 10 then [ch_0 + of_nat n] else digits (n div 10) @ [ch_0 + of_nat (n mod 10)])"

declare digits.simps [simp del]

definition print_int :: "int \<Rightarrow> byte list" where
  "print_int i = (if i < 0 then ch_minus # digits (nat (- i)) else digits (nat i))"

definition is_digit :: "byte \<Rightarrow> bool" where
  "is_digit c \<longleftrightarrow> ch_0 \<le> c \<and> c \<le> ch_9"

definition digits_value :: "u64 \<Rightarrow> byte list \<Rightarrow> u64" where
  "digits_value v ds = foldl (\<lambda>v c. v * 10 + ucast (c - ch_0)) v ds"

lemma digits_value_simps [simp]:
  "digits_value v [] = v" "digits_value v (c # ds) = digits_value (v * 10 + ucast (c - ch_0)) ds"
  "digits_value v (ds @ es) = digits_value (digits_value v ds) es"
  by (simp_all add: digits_value_def)

lemma digit_byte:
  assumes "n < 10"
  shows "is_digit (ch_0 + of_nat n)" and "ucast (of_nat n :: byte) = (of_nat n :: u64)"
proof -
  have u: "unat (of_nat n :: byte) = n" "unat (of_nat n :: u64) = n" using assms by (simp_all add: unat_of_nat)
  then have "unat (ch_0 + of_nat n) = 48 + n" using assms by (simp add: ch_defs unat_word_ariths)
  then show "is_digit (ch_0 + of_nat n)" using assms by (simp add: is_digit_def ch_defs word_le_nat_alt)
  show "ucast (of_nat n :: byte) = (of_nat n :: u64)"
    using u assms by (simp add: word_eq_iff_unat unsigned_ucast_eq take_bit_nat_eq_self)
qed

lemma digits_ok: "digits n \<noteq> [] \<and> (\<forall>c \<in> set (digits n). is_digit c) \<and> digits_value 0 (digits n) = of_nat n"
proof (induction n rule: digits.induct)
  case (1 n)
  show ?case
  proof (cases "n < 10")
    case True
    then show ?thesis by (subst (1 2 3) digits.simps) (simp add: digit_byte)
  next
    case False
    have "of_nat n = (of_nat (n div 10 * 10 + n mod 10) :: u64)" by (simp only: div_mult_mod_eq)
    then have "of_nat n = (of_nat (n div 10) * 10 + of_nat (n mod 10) :: u64)" by (simp only: of_nat_add of_nat_mult of_nat_numeral)
    then show ?thesis
      using 1 False digit_byte [of "n mod 10"] by (subst (1 2 3) digits.simps) auto
  qed
qed

lemma digit_not_white: "is_digit c \<Longrightarrow> \<not> is_white c \<and> c \<noteq> ch_minus \<and> c \<noteq> ch_c \<and> c \<noteq> NL \<and> c \<noteq> SP \<and> c \<noteq> ch_p"
  by (auto simp: is_digit_def is_white_def ch_defs word_le_nat_alt)

lemma digit_range: "is_digit c \<Longrightarrow> \<not> c < ch_0 \<and> \<not> ch_9 < c"
  by (auto simp: is_digit_def)

abbreviation rdr_of :: "byte list \<Rightarrow> byte option \<Rightarrow> read_err \<Rightarrow> rdr" where
  "rdr_of bs l e \<equiv> \<lparr>rd_buf = bs, rd_last = l, rd_end = e\<rparr>"

lemma ReadByte_Cons [simp]: "ReadByte (rdr_of (b # bs) l e) = (Inr b, rdr_of bs (Some b) e)"
  by (simp add: ReadByte_def)

lemma ReadByte_Nil [simp]: "ReadByte (rdr_of [] l e) = (Inl (Rd e), rdr_of [] l e)"
  by (simp add: ReadByte_def)

lemma UnreadByte_Some [simp]: "UnreadByte (rdr_of bs (Some b) e) = (None, rdr_of (b # bs) None e)"
  by (simp add: UnreadByte_def)

lemma readDigits_run:
  assumes "\<forall>c \<in> set ds. is_digit c" and "is_white w"
  shows "readDigits v m (rdr_of (ds @ w # bs) l e) = (Inr (sint (digits_value v ds * m)), rdr_of bs (Some w) e)"
  using assms(1)
proof (induction ds arbitrary: v l)
  case Nil
  then show ?case using assms(2) by (subst readDigits.simps) simp
next
  case (Cons c ds)
  then show ?case using digit_not_white [of c] digit_range [of c] by (subst readDigits.simps) simp
qed

lemma readNext_run:
  assumes "\<not> is_white c"
  shows "readNextNonWhiteByte (rdr_of (c # bs) l e) = (Inr c, rdr_of bs (Some c) e)"
  using assms by (subst readNextNonWhiteByte.simps) simp

text \<open>A printed integer followed by a white byte is read back.\<close>

lemma readInt_print:
  assumes w: "is_white w" and i: "\<bar>i\<bar> < 2 ^ 62"
  shows "readInt (rdr_of (print_int i @ w # bs) l e) = (Inr i, rdr_of bs (Some w) e)"
proof (cases "i < 0")
  case True
  have m: "\<not> is_white ch_minus" "\<not> (ch_0 \<le> ch_minus)" by (simp_all add: is_white_def ch_defs)
  let ?n = "nat (- i)"
  have "sint (digits_value 0 (digits ?n) * - 1) = i"
  proof -
    have "digits_value 0 (digits ?n) * - 1 = word_of_int i" using digits_ok [of ?n] True by simp
    then show ?thesis using i by (simp only: signed_of_int) (simp add: signed_take_bit_int_eq_self)
  qed
  then show ?thesis
    using True readDigits_run [of "digits ?n" w 0 "- 1"] digits_ok [of ?n] w m
    by (simp add: print_int_def readInt_def readNext_run)
next
  case False
  let ?n = "nat i"
  obtain c ds where cs: "digits ?n = c # ds" using digits_ok [of ?n] by (cases "digits ?n") auto
  have d: "is_digit c" "\<forall>c \<in> set ds. is_digit c" and v: "digits_value (ucast (c - ch_0)) ds = of_nat ?n"
    using digits_ok [of ?n] by (simp_all add: cs)
  have "sint (of_nat ?n * 1 :: u64) = i"
  proof -
    have "(of_nat ?n * 1 :: u64) = word_of_int i" using False by simp
    then show ?thesis using i by (simp only: signed_of_int) (simp add: signed_take_bit_int_eq_self)
  qed
  then show ?thesis
    using False readDigits_run [of ds w "ucast (c - ch_0)" 1] d w v digit_not_white [OF d(1)] digit_range [OF d(1)]
    by (simp add: print_int_def readInt_def readNext_run cs not_less)
qed

section \<open>Printed problems\<close>

definition clause_line :: "lit list \<Rightarrow> byte list" where
  "clause_line C = concat (map (\<lambda>m. print_int (lit_Dimacs m) @ [SP]) C) @ [ch_0]"

definition header_line :: "int \<Rightarrow> int \<Rightarrow> byte list" where
  "header_line nv nc = cnf_magic @ print_int nv @ [SP] @ print_int nc"

definition add_calls :: "lit list list \<Rightarrow> vis_call list" where
  "add_calls Cs = concat (map (\<lambda>C. map VAdd C @ [VAdd LitNull]) Cs)"

definition max_var :: "lit list list \<Rightarrow> int" where
  "max_var Cs = foldl (\<lambda>v m. max v (int (unat (lit_Var m)))) 0 (concat Cs)"

lemma lit_Dimacs_eq: "lit_Dimacs m = (if lit_IsPos m then int (unat (lit_Var m)) else - int (unat (lit_Var m)))"
  by (simp add: lit_Dimacs_def lit_IsPos_def lit_Var_def)

lemma lit_Dimacs_bound: "\<bar>lit_Dimacs m\<bar> < 2 ^ 62"
  using lit_Var_less [of m] by (simp add: lit_Dimacs_eq del: of_nat_unat)

lemma Dimacs2Lit_Dimacs:
  assumes "lit_Var m \<noteq> 0"
  shows "Dimacs2Lit (lit_Dimacs m) = m"
proof -
  have "0 < int (unat (lit_Var m))" using assms by (simp add: unat_gt_0 del: of_nat_unat)
  moreover have "int (unat m) = 2 * int (unat (lit_Var m)) + (if lit_IsPos m then 0 else 1)"
    using lit_unat [of m] by (simp del: of_nat_unat)
  ultimately have "Dimacs2Lit (lit_Dimacs m) = word_of_int (int (unat m))"
    by (simp add: Dimacs2Lit_def lit_Dimacs_eq del: of_nat_unat)
  then show ?thesis by simp
qed

lemma white_NL_SP [simp]: "is_white NL" "is_white SP"
  by (simp_all add: is_white_def)

text \<open>The body of a problem: a literal, a clause, all clauses.\<close>

lemma body_lit:
  assumes "lit_Var m \<noteq> 0" and "cn_rdr r = rdr_of (print_int (lit_Dimacs m) @ SP # bs) l e"
  shows "\<exists>l'. body_loop r = body_loop (r\<lparr>cn_rdr := rdr_of bs l' e, cn_vMax := max (cn_vMax r) (int (unat (lit_Var m))),
     cn_vis := cn_vis r @ [VAdd m]\<rparr>)"
proof -
  have n0: "lit_Dimacs m \<noteq> 0" using assms(1) by (simp add: lit_Dimacs_eq unat_eq_0 del: of_nat_unat)
  have run: "readInt (cn_rdr r) = (Inr (lit_Dimacs m), rdr_of bs (Some SP) e)"
    unfolding assms(2) by (rule readInt_print [OF white_NL_SP(2) lit_Dimacs_bound])
  have v: "(if lit_Dimacs m < 0 then (if - lit_Dimacs m > x then - lit_Dimacs m else x) else if x < lit_Dimacs m then lit_Dimacs m else x)
      = max x (int (unat (lit_Var m)))" for x
    using n0 unfolding lit_Dimacs_eq max_def by (simp del: of_nat_unat)
  show ?thesis
    by (rule exI [of _ "Some SP"], subst body_loop.simps, simp only: run prod.case sum.case Let_def n0 if_False)
      (simp add: v Dimacs2Lit_Dimacs [OF assms(1)])
qed

lemma body_lits:
  assumes "\<forall>m \<in> set C. lit_Var m \<noteq> 0"
    and "cn_rdr r = rdr_of (concat (map (\<lambda>m. print_int (lit_Dimacs m) @ [SP]) C) @ bs) l e"
  shows "\<exists>l'. body_loop r = body_loop (r\<lparr>cn_rdr := rdr_of bs l' e,
     cn_vMax := foldl (\<lambda>v m. max v (int (unat (lit_Var m)))) (cn_vMax r) C, cn_vis := cn_vis r @ map VAdd C\<rparr>)"
  using assms
proof (induction C arbitrary: r l)
  case Nil
  then have "r = r\<lparr>cn_rdr := rdr_of bs l e, cn_vMax := foldl (\<lambda>v m. max v (int (unat (lit_Var m)))) (cn_vMax r) [],
      cn_vis := cn_vis r @ map VAdd []\<rparr>" by (cases r) simp
  then show ?case by metis
next
  case (Cons m C)
  let ?bs = "concat (map (\<lambda>m. print_int (lit_Dimacs m) @ [SP]) C) @ bs"
  have 1: "lit_Var m \<noteq> 0" "\<forall>m \<in> set C. lit_Var m \<noteq> 0" using Cons.prems(1) by simp_all
  have "cn_rdr r = rdr_of (print_int (lit_Dimacs m) @ SP # ?bs) l e" using Cons.prems(2) by simp
  then obtain l1 where r1: "body_loop r = body_loop (r\<lparr>cn_rdr := rdr_of ?bs l1 e,
      cn_vMax := max (cn_vMax r) (int (unat (lit_Var m))), cn_vis := cn_vis r @ [VAdd m]\<rparr>)" (is "_ = body_loop ?r1")
    using body_lit [OF 1(1)] by blast
  have "cn_rdr ?r1 = rdr_of ?bs l1 e" by simp
  then obtain l2 where r2: "body_loop ?r1 = body_loop (?r1\<lparr>cn_rdr := rdr_of bs l2 e,
      cn_vMax := foldl (\<lambda>v m. max v (int (unat (lit_Var m)))) (cn_vMax ?r1) C, cn_vis := cn_vis ?r1 @ map VAdd C\<rparr>)"
    using Cons.IH [OF 1(2)] by blast
  show ?case unfolding r1 r2 by (rule exI [of _ l2]) simp
qed

lemma body_clause:
  assumes "\<forall>m \<in> set C. lit_Var m \<noteq> 0" and "cn_rdr r = rdr_of (clause_line C @ NL # bs) l e"
  shows "\<exists>l'. body_loop r = body_loop (r\<lparr>cn_rdr := rdr_of bs l' e,
     cn_vMax := foldl (\<lambda>v m. max v (int (unat (lit_Var m)))) (cn_vMax r) C,
     cn_nCls := cn_nCls r + 1, cn_vis := cn_vis r @ map VAdd C @ [VAdd LitNull]\<rparr>)"
proof -
  have z: "[ch_0] = print_int 0" by (simp add: print_int_def digits.simps)
  have "cn_rdr r = rdr_of (concat (map (\<lambda>m. print_int (lit_Dimacs m) @ [SP]) C) @ (print_int 0 @ NL # bs)) l e"
    using assms(2) by (simp add: clause_line_def z)
  from body_lits [OF assms(1) this] obtain l1 where r1: "body_loop r = body_loop (r\<lparr>cn_rdr := rdr_of (print_int 0 @ NL # bs) l1 e,
     cn_vMax := foldl (\<lambda>v m. max v (int (unat (lit_Var m)))) (cn_vMax r) C, cn_vis := cn_vis r @ map VAdd C\<rparr>)" by blast
  have run: "readInt (rdr_of (print_int 0 @ NL # bs) l1 e) = (Inr 0, rdr_of bs (Some NL) e)"
    by (rule readInt_print) simp_all
  show ?thesis unfolding r1
    by (rule exI [of _ "Some NL"], subst body_loop.simps) (cases r; simp add: run Let_def)
qed

lemma body_clauses:
  assumes "\<forall>C \<in> set Cs. \<forall>m \<in> set C. lit_Var m \<noteq> 0" and "cn_rdr r = rdr_of (lines_text (map clause_line Cs)) l EOF"
  shows "\<exists>l'. body_loop r = (None, r\<lparr>cn_rdr := rdr_of [] l' EOF,
     cn_vMax := foldl (\<lambda>v m. max v (int (unat (lit_Var m)))) (cn_vMax r) (concat Cs),
     cn_nCls := cn_nCls r + int (length Cs), cn_vis := cn_vis r @ add_calls Cs\<rparr>)"
  using assms
proof (induction Cs arbitrary: r l)
  case Nil
  then have r: "cn_rdr r = rdr_of [] l EOF" by (simp add: lines_text_def)
  have "readInt (rdr_of [] l EOF) = (Inl (Rd EOF), rdr_of [] l EOF)"
    by (simp add: readInt_def readNextNonWhiteByte.simps)
  then have "body_loop r = (None, r)" using r by (subst body_loop.simps) (cases r; simp)
  then show ?case using r by (intro exI [of _ l]) (cases r; simp add: add_calls_def)
next
  case (Cons C Cs)
  have 1: "\<forall>m \<in> set C. lit_Var m \<noteq> 0" "\<forall>C \<in> set Cs. \<forall>m \<in> set C. lit_Var m \<noteq> 0" using Cons.prems(1) by simp_all
  have "cn_rdr r = rdr_of (clause_line C @ NL # lines_text (map clause_line Cs)) l EOF"
    using Cons.prems(2) by (simp add: lines_text_def)
  then obtain l1 where r1: "body_loop r = body_loop (r\<lparr>cn_rdr := rdr_of (lines_text (map clause_line Cs)) l1 EOF,
     cn_vMax := foldl (\<lambda>v m. max v (int (unat (lit_Var m)))) (cn_vMax r) C,
     cn_nCls := cn_nCls r + 1, cn_vis := cn_vis r @ map VAdd C @ [VAdd LitNull]\<rparr>)" (is "_ = body_loop ?r1")
    using body_clause [OF 1(1)] by blast
  have "cn_rdr ?r1 = rdr_of (lines_text (map clause_line Cs)) l1 EOF" by simp
  from Cons.IH [OF 1(2) this] obtain l2 where r2: "body_loop ?r1 = (None, ?r1\<lparr>cn_rdr := rdr_of [] l2 EOF,
     cn_vMax := foldl (\<lambda>v m. max v (int (unat (lit_Var m)))) (cn_vMax ?r1) (concat Cs),
     cn_nCls := cn_nCls ?r1 + int (length Cs), cn_vis := cn_vis ?r1 @ add_calls Cs\<rparr>)" by blast
  show ?case unfolding r1 r2 by (rule exI [of _ l2]) (simp add: add_calls_def)
qed

text \<open>The header.\<close>

lemma expect_bytes_run: "\<exists>l'. expect_bytes cs (rdr_of (cs @ bs) l e) = (None, rdr_of bs l' e)"
  by (induction cs arbitrary: l) auto

lemma cnf_magic_p: "cnf_magic = ch_p # tl cnf_magic"
  by (simp add: cnf_magic_def ch_defs)

lemma header_run:
  assumes "\<bar>nv\<bar> < 2 ^ 62" and "\<bar>nc\<bar> < 2 ^ 62" and "cn_rdr r = rdr_of (header_line nv nc @ NL # bs) l e" and "cn_hdrVars r = -1"
  shows "\<exists>l'. readHeader r = (None, r\<lparr>cn_rdr := rdr_of bs l' e, cn_hdrVars := nv, cn_hdrCls := nc\<rparr>)"
proof -
  let ?rest = "print_int nv @ SP # print_int nc @ NL # bs"
  have p: "cn_rdr r = rdr_of (ch_p # tl cnf_magic @ ?rest) l e"
    using assms(3) cnf_magic_p by (metis append.assoc append_Cons append_Nil header_line_def)
  obtain l1 where l1: "expect_bytes cnf_magic (rdr_of (cnf_magic @ ?rest) None e) = (None, rdr_of ?rest l1 e)"
    using expect_bytes_run by blast
  have m: "rdr_of (ch_p # tl cnf_magic @ ?rest) None e = rdr_of (cnf_magic @ ?rest) None e"
    using cnf_magic_p by (metis append_Cons)
  note i1 = readInt_print [OF white_NL_SP(2) assms(1), of "print_int nc @ NL # bs" l1 e]
  note i2 = readInt_print [OF white_NL_SP(1) assms(2), of bs "Some SP" e]
  have "readHeader r = cnf_readP (r\<lparr>cn_rdr := rdr_of (cnf_magic @ ?rest) None e\<rparr>)"
    unfolding readHeader_def p m [symmetric] by simp
  then show ?thesis
    using assms(4) by (intro exI [of _ "Some NL"]) (cases r; simp add: cnf_readP_def l1 i1 i2)
qed

lemma cnf_Read_run:
  assumes "\<forall>C \<in> set Cs. \<forall>m \<in> set C. lit_Var m \<noteq> 0" and "0 \<le> nv" "nv < 2 ^ 62" and "0 \<le> nc" "nc < 2 ^ 62"
    and "cn_rdr r = rdr_of (lines_text (header_line nv nc # map clause_line Cs)) None EOF"
    and "cn_hdrVars r = -1" "cn_vis r = []" "cn_vMax r = 0" "cn_nCls r = 0"
  shows "\<exists>r'. cnf_Read r = (if cn_strict r \<and> (nv \<noteq> max_var Cs \<or> nc \<noteq> int (length Cs)) then Some Bad else None, r')
    \<and> cn_vis r' = VInit nv nc # add_calls Cs"
proof -
  have "\<bar>nv\<bar> < 2 ^ 62" "\<bar>nc\<bar> < 2 ^ 62" using assms(2-5) by simp_all
  moreover have "cn_rdr r = rdr_of (header_line nv nc @ NL # lines_text (map clause_line Cs)) None EOF"
    using assms(6) by (simp add: lines_text_def)
  ultimately obtain l1 where h: "readHeader r = (None, r\<lparr>cn_rdr := rdr_of (lines_text (map clause_line Cs)) l1 EOF,
      cn_hdrVars := nv, cn_hdrCls := nc\<rparr>)" (is "_ = (None, ?r1)") using header_run assms(7) by blast
  have "cn_rdr (?r1\<lparr>cn_vis := [VInit nv nc]\<rparr>) = rdr_of (lines_text (map clause_line Cs)) l1 EOF" by simp
  from body_clauses [OF assms(1) this] obtain l2 where b: "body_loop (?r1\<lparr>cn_vis := [VInit nv nc]\<rparr>) = (None,
      (?r1\<lparr>cn_vis := [VInit nv nc]\<rparr>)\<lparr>cn_rdr := rdr_of [] l2 EOF, cn_vMax := max_var Cs,
     cn_nCls := int (length Cs), cn_vis := VInit nv nc # add_calls Cs\<rparr>)" (is "_ = (None, ?r2)")
    unfolding max_var_def using assms(9,10) by auto
  have "readBody ?r1 = (None, ?r2)"
    using b assms(2,4,8) unfolding readBody_def Let_def by (subst b [symmetric]) simp
  then have "cnf_Read r = (if cn_strict r \<and> (nv \<noteq> max_var Cs \<or> nc \<noteq> int (length Cs)) then Some Bad else None, ?r2)"
    using assms(2,4) unfolding cnf_Read_def h Let_def by (simp del: cnfr.unfold_congs)
  then show ?thesis by (intro exI [of _ ?r2]) simp
qed

text \<open>Comment lines are dropped, and the rest is read.\<close>

lemma bufio_lines:
  assumes "concat cs = lines_text ls" and "\<forall>l \<in> set ls. NL \<notin> set l" and "\<not> blank_after_comment ls"
  shows "bufio (plain_reads cs) = rdr_of (lines_text (filter (\<lambda>l. \<not> is_comment l) ls)) None EOF"
  using filter_lines [OF assms(2,3), of Start] assms(1) by (simp add: bufio_plain)

lemma ReadCnf_lines:
  assumes b: "bufio rs = rdr_of (lines_text (header_line nv nc # map clause_line Cs)) None EOF"
    and "\<forall>C \<in> set Cs. \<forall>m \<in> set C. lit_Var m \<noteq> 0" and "0 \<le> nv" "nv < 2 ^ 62" and "0 \<le> nc" "nc < 2 ^ 62"
  shows "ReadCnfStrict rs strict =
     (if strict \<and> (nv \<noteq> max_var Cs \<or> nc \<noteq> int (length Cs)) then Some Bad else None, VInit nv nc # add_calls Cs)"
proof -
  let ?r = "SetStrict strict (newCnfReader rs)"
  have "\<exists>r'. cnf_Read ?r = (if cn_strict ?r \<and> (nv \<noteq> max_var Cs \<or> nc \<noteq> int (length Cs)) then Some Bad else None, r')
      \<and> cn_vis r' = VInit nv nc # add_calls Cs"
    by (rule cnf_Read_run [OF assms(2-6)]) (simp_all add: SetStrict_def newCnfReader_def b)
  moreover have "cn_strict ?r = strict" by (simp add: SetStrict_def)
  ultimately show ?thesis unfolding ReadCnfStrict_def by (auto simp: Let_def)
qed

text \<open>
  (C24) Reading a printed problem gives it back: whatever comment lines are put between the lines and however
  the bytes are cut into reads, the visitor receives the numbers of the header, the literals of every clause in
  order and a null literal after each; in strict mode the reader then reports an error exactly if the header does not
  give the greatest variable and the number of clauses.
\<close>

theorem ReadCnf_printed:
  assumes "concat cs = lines_text ls" and "\<forall>l \<in> set ls. NL \<notin> set l" and "\<not> blank_after_comment ls"
    and "filter (\<lambda>l. \<not> is_comment l) ls = header_line nv nc # map clause_line Cs"
    and "\<forall>C \<in> set Cs. \<forall>m \<in> set C. lit_Var m \<noteq> 0" and "0 \<le> nv" "nv < 2 ^ 62" and "0 \<le> nc" "nc < 2 ^ 62"
  shows "ReadCnfStrict (plain_reads cs) strict =
     (if strict \<and> (nv \<noteq> max_var Cs \<or> nc \<noteq> int (length Cs)) then Some Bad else None, VInit nv nc # add_calls Cs)"
  using ReadCnf_lines [OF bufio_lines [OF assms(1-3), unfolded assms(4)] assms(5-9)] .

theorem ReadCnf_printed_witness:
  "ReadCnfStrict (plain_reads [[112, 32, 99, 110, 102, 32], [50, 32, 49, 10, 99], [10, 49, 32, 45, 50, 32, 48, 10]]) True
     = (None, [VInit 2 1, VAdd 2, VAdd 5, VAdd 0])"
proof -
  have s: "1 = lit_Dimacs 2" "- 2 = lit_Dimacs 5" by (simp_all add: lit_Dimacs_def)
  have t: "header_line 2 1 = [112, 32, 99, 110, 102, 32, 50, 32, 49]" "clause_line [2, 5] = [49, 32, 45, 50, 32, 48]"
    by (simp_all add: header_line_def clause_line_def cnf_magic_def print_int_def digits.simps ch_defs lit_Dimacs_def)
  have m: "max_var [[2, 5]] = 2" by (simp add: max_var_def lit_Var_def)
  have "ReadCnfStrict (plain_reads [[112, 32, 99, 110, 102, 32], [50, 32, 49, 10, 99], [10, 49, 32, 45, 50, 32, 48, 10]]) True
     = (if True \<and> (2 \<noteq> max_var [[2, 5]] \<or> 1 \<noteq> int (length [[2, 5 :: lit]])) then Some Bad else None, VInit 2 1 # add_calls [[2, 5]])"
    by (rule ReadCnf_printed [where ls = "[header_line 2 1, [99], clause_line [2, 5]]"])
      (simp_all add: t lines_text_def is_comment_def ch_defs lit_Var_def)
  then show ?thesis by (simp add: m add_calls_def LitNull_def)
qed

end
