(* ===== verification/ModelOut.thy ===== *)
theory ModelOut
  imports DimacsProps
begin

text \<open>
  What the command line solver prints about a result (\<^verbatim>\<open>cmd/gini/main.go\<close>): the result line, the
  values of a model and the failed assumptions, and how the reader of solver output reads it.
\<close>

section \<open>Printing\<close>

definition ch_f :: byte where "ch_f = 102"

text \<open>The result line; any other number panics.\<close>

definition handleResultOutput :: "int \<Rightarrow> byte list option" where
  "handleResultOutput res =
     (if res = 1 then Some ([ch_s, SP] @ str_SAT @ [NL])
      else if res = 0 then Some ([ch_s, SP] @ str_UNKNOWN @ [NL])
      else if res = -1 then Some ([ch_s, SP] @ str_UNSAT @ [NL])
      else None)"

text \<open>The loop that counts the digits of a variable.\<close>

fun dec_width :: "nat \<Rightarrow> int" where
  "dec_width j = (if j = 0 then 0 else dec_width (j div 10) + 1)"

declare dec_width.simps [simp del]

text \<open>
  One turn of the printing loop: the column and the text so far; a new line is begun with the letter
  \<open>ch\<close> when the number would pass column 78.
\<close>

definition put_lit :: "byte \<Rightarrow> int \<times> byte list \<Rightarrow> lit \<Rightarrow> int \<times> byte list" where
  "put_lit ch st m =
     (let (col, out) = st;
          n = dec_width (unat (lit_Var m));
          n = (if lit_Dimacs m < 0 then n + 1 else n);
          (col, out) = (if col + n > 78 then (2, out @ [NL, ch]) else (col, out))
      in (col + 1 + n, out @ [SP] @ print_int (lit_Dimacs m)))"

definition model_lit :: "(lit \<Rightarrow> bool) \<Rightarrow> var \<Rightarrow> lit" where
  "model_lit val i = (if val (var_Pos i) then var_Pos i else var_Neg i)"

definition outputModel :: "var \<Rightarrow> (lit \<Rightarrow> bool) \<Rightarrow> byte list" where
  "outputModel v val =
     snd (foldl (\<lambda>st i. put_lit ch_v st (model_lit val i)) (2, [ch_v, SP]) (map of_nat [1..<unat v + 1]))
     @ [SP, ch_0, NL]"

definition outputFailed :: "lit list \<Rightarrow> byte list" where
  "outputFailed fs = snd (foldl (put_lit ch_f) (2, [ch_f, SP]) fs) @ [NL]"

section \<open>The shape of the text\<close>

text \<open>The literals that are printed, each with whether a new line is begun before it.\<close>

fun breaks :: "int \<Rightarrow> lit list \<Rightarrow> bool list" where
  "breaks col [] = []"
| "breaks col (m # ms) =
     (let n = dec_width (unat (lit_Var m)) + (if lit_Dimacs m < 0 then 1 else 0); b = col + n > 78
      in b # breaks ((if b then 2 else col) + 1 + n) ms)"

definition piece :: "byte \<Rightarrow> bool \<times> lit \<Rightarrow> byte list" where
  "piece ch p = (if fst p then [NL, ch] else []) @ [SP] @ print_int (lit_Dimacs (snd p))"

lemma put_lits: "snd (foldl (put_lit ch) (col, out) ms) = out @ concat (map (piece ch) (zip (breaks col ms) ms))"
  by (induction ms arbitrary: col out) (auto simp: put_lit_def piece_def Let_def)

lemma length_breaks [simp]: "length (breaks col ms) = length ms"
  by (induction ms arbitrary: col) (auto simp: Let_def)

definition model_lits :: "var \<Rightarrow> (lit \<Rightarrow> bool) \<Rightarrow> lit list" where
  "model_lits v val = map (\<lambda>i. model_lit val (of_nat i)) [1..<unat v + 1]"

lemma outputModel_pieces:
  "outputModel v val = [ch_v, SP] @ concat (map (piece ch_v) (zip (breaks 2 (model_lits v val)) (model_lits v val))) @ [SP, ch_0, NL]"
proof -
  have "foldl (\<lambda>st i. put_lit ch_v st (model_lit val i)) (2, [ch_v, SP]) (map of_nat [1..<unat v + 1])
    = foldl (put_lit ch_v) (2, [ch_v, SP]) (model_lits v val)"
    by (simp add: model_lits_def foldl_map del: upt_Suc)
  then show ?thesis by (simp add: outputModel_def put_lits)
qed

section \<open>Reading it\<close>

lemma ch_neq [simp]: "NL \<noteq> SP" "SP \<noteq> NL" "ch_v \<noteq> NL" "ch_s \<noteq> NL" "NL \<noteq> ch_v" "NL \<noteq> ch_s" "ch_v \<noteq> ch_s" "ch_s \<noteq> ch_v"
  "SP \<noteq> ch_c" "NL \<noteq> ch_0" "ch_0 \<noteq> NL"
  by (simp_all add: ch_defs)

lemma readNext_white:
  assumes "\<forall>w \<in> set ws. is_white w" and "\<not> is_white c"
  shows "readNextNonWhiteByte (rdr_of (ws @ c # bs) l e) = (Inr c, rdr_of bs (Some c) e)"
  using assms(1)
proof (induction ws arbitrary: l)
  case (Cons w ws)
  then show ?case by (subst readNextNonWhiteByte.simps) simp
qed (use assms(2) in \<open>simp add: readNext_run\<close>)

lemma print_int_Cons:
  "\<exists>c ds. print_int i = c # ds \<and> \<not> is_white c \<and> c \<noteq> NL \<and> c \<noteq> ch_c"
proof (cases "i < 0")
  case True
  then show ?thesis by (auto simp: print_int_def is_white_def ch_defs)
next
  case False
  then show ?thesis
    using digits_ok [of "nat i"] digit_not_white by (cases "digits (nat i)") (auto simp: print_int_def)
qed

lemma print_int_no_NL: "NL \<notin> set (print_int i)"
  using digits_ok [of "nat i"] digits_ok [of "nat (- i)"] digit_not_white
  by (auto simp: print_int_def ch_defs)

lemma readInt_white:
  assumes "\<forall>w \<in> set ws. is_white w"
  shows "readInt (rdr_of (ws @ print_int i @ bs) l e) = readInt (rdr_of (print_int i @ bs) l' e)"
proof -
  obtain c ds where c: "print_int i = c # ds" "\<not> is_white c" using print_int_Cons by blast
  show ?thesis by (simp add: readInt_def c readNext_white [OF assms c(2)] readNext_run)
qed

lemma sread_value:
  assumes "\<forall>w \<in> set ws. is_white w" and "ws = [] \<or> hd ws \<noteq> NL" and "is_white w" and "\<bar>i\<bar> < 2 ^ 62"
  shows "sread_loop (rdr_of (ws @ print_int i @ w # bs) l e) Values [] vis
    = sread_loop (rdr_of bs (Some w) e) Values [] (vis @ [VValue (Dimacs2Lit i)])"
proof -
  obtain c cs where c: "ws @ print_int i @ w # bs = c # cs" "c \<noteq> NL"
    using assms(2) print_int_Cons [of i] by (cases ws) auto
  have "readInt (rdr_of (c # cs) None e) = (Inr i, rdr_of bs (Some w) e)"
    using readInt_white [OF assms(1), of i "w # bs" None e None] readInt_print [OF assms(3,4), of bs None e] by (simp add: c)
  then show ?thesis unfolding c by (subst sread_loop.simps) (simp add: c(2) readLit_def)
qed

lemma sread_break: "fst (sread_loop (rdr_of (ch_v # bs) l e) Values [] vis) = Some Bad"
  by (subst sread_loop.simps) (simp add: readLit_def readInt_def readNextNonWhiteByte.simps is_white_def ch_defs)

definition tail_text :: "(bool \<times> lit) list \<Rightarrow> byte list" where
  "tail_text ps = concat (map (piece ch_v) ps) @ [SP, ch_0, NL]"

lemma tail_text_Cons [simp]: "tail_text (p # ps) = piece ch_v p @ tail_text ps"
  by (simp add: tail_text_def)

lemma Dimacs2Lit_0 [simp]: "Dimacs2Lit 0 = LitNull"
  by (simp add: Dimacs2Lit_def LitNull_def)

lemma sread_zero:
  assumes "\<forall>w \<in> set ws. is_white w" and "ws = [] \<or> hd ws \<noteq> NL"
  shows "sread_loop (rdr_of (ws @ [ch_0, NL]) l EOF) Values [] vis = (None, vis @ [VValue LitNull, VEof])"
proof -
  have z: "[ch_0, NL] = print_int 0 @ NL # []" by (simp add: print_int_def digits.simps)
  have e: "sread_loop (rdr_of [] (Some NL) EOF) Values [] vs = (None, vs @ [VEof])" for vs
    by (subst sread_loop.simps) (simp add: end_solution_def)
  show ?thesis unfolding z by (subst sread_value [OF assms]) (simp_all add: e)
qed

lemma sread_tail:
  assumes "\<forall>p \<in> set ps. lit_Var (snd p) \<noteq> 0" and "lit_Var m \<noteq> 0"
    and "\<forall>w \<in> set ws. is_white w" and "ws = [] \<or> hd ws \<noteq> NL"
  shows "if \<forall>p \<in> set ps. \<not> fst p
     then sread_loop (rdr_of (ws @ print_int (lit_Dimacs m) @ tail_text ps) l EOF) Values [] vis
       = (None, vis @ map VValue (m # map snd ps) @ [VValue LitNull, VEof])
     else fst (sread_loop (rdr_of (ws @ print_int (lit_Dimacs m) @ tail_text ps) l EOF) Values [] vis) = Some Bad"
  using assms
proof (induction ps arbitrary: m ws l vis)
  case Nil
  show ?case
    using sread_value [OF Nil(3,4) white_NL_SP(2) lit_Dimacs_bound [of m], where bs = "[ch_0, NL]" and l = l and e = EOF and vis = vis]
      sread_zero [of "[]" "Some SP" "vis @ [VValue m]"]
    by (simp add: tail_text_def Dimacs2Lit_Dimacs [OF Nil(2)])
next
  case (Cons p ps)
  show ?case
  proof (cases "fst p")
    case True
    then have "tail_text (p # ps) = NL # ch_v # SP # print_int (lit_Dimacs (snd p)) @ tail_text ps" by (simp add: piece_def)
    then show ?thesis
      using True sread_value [OF Cons.prems(3,4) white_NL_SP(1) lit_Dimacs_bound [of m], where bs = "ch_v # SP # print_int (lit_Dimacs (snd p)) @ tail_text ps" and l = l and e = EOF and vis = vis]
      by (simp add: sread_break)
  next
    case False
    then have t: "tail_text (p # ps) = SP # print_int (lit_Dimacs (snd p)) @ tail_text ps" by (simp add: piece_def)
    note r = sread_value [OF Cons.prems(3,4) white_NL_SP(2) lit_Dimacs_bound [of m], where bs = "print_int (lit_Dimacs (snd p)) @ tail_text ps" and l = l and e = EOF and vis = vis,
        folded t, unfolded Dimacs2Lit_Dimacs [OF Cons.prems(2)]]
    have "\<forall>p \<in> set ps. lit_Var (snd p) \<noteq> 0" "lit_Var (snd p) \<noteq> 0" using Cons.prems(1) by simp_all
    from Cons.IH [OF this, of "[]" "Some SP" "vis @ [VValue m]"] show ?thesis
      unfolding r using False by (auto split: if_splits)
  qed
qed

lemma print_int_no_c: "ch_c \<notin> set (print_int i)"
  using digits_ok [of "nat i"] digits_ok [of "nat (- i)"] digit_not_white
  by (auto simp: print_int_def) (simp add: ch_defs)

lemma filter_no_c:
  "ch_c \<notin> set bs \<Longrightarrow> st \<noteq> InComment \<Longrightarrow> st \<noteq> NewLineC \<Longrightarrow> fst (filter_bytes st bs) = bs"
proof (induction bs arbitrary: st)
  case (Cons b bs)
  then show ?case by (cases st) (auto simp: split_beta)
qed simp

lemma no_c_model: "ch_c \<notin> set (outputModel v val)"
  by (auto simp: outputModel_pieces piece_def print_int_no_c) (auto simp: ch_defs)

text \<open>The first value comes right after \<open>v\<close> and two spaces.\<close>

lemma sread_first:
  assumes "\<forall>m \<in> set ms. lit_Var m \<noteq> 0" and "length bs = length ms"
  shows "if True \<in> set bs
     then fst (sread_loop (rdr_of (SP # tail_text (zip bs ms)) l EOF) Values [] vis) = Some Bad
     else sread_loop (rdr_of (SP # tail_text (zip bs ms)) l EOF) Values [] vis
       = (None, vis @ map VValue ms @ [VValue LitNull, VEof])"
proof (cases ms)
  case Nil
  then show ?thesis using assms(2) sread_zero [of "[SP, SP]" l vis] by (simp add: tail_text_def)
next
  case (Cons m ms')
  then obtain b bs' where bs: "bs = b # bs'" "length bs' = length ms'" using assms(2) by (cases bs) auto
  show ?thesis
  proof (cases b)
    case True
    have "fst (sread_loop (rdr_of (SP # NL # ch_v # xs) l EOF) Values [] vis) = Some Bad" for xs
      by (subst sread_loop.simps) (simp add: readLit_def readInt_def readNextNonWhiteByte.simps is_white_def ch_defs)
    then show ?thesis using True by (simp add: bs Cons piece_def)
  next
    case False
    have "\<forall>p \<in> set (zip bs' ms'). lit_Var (snd p) \<noteq> 0" using assms(1) by (auto simp: Cons dest: set_zip_rightD)
    moreover have "(\<forall>p \<in> set (zip bs' ms'). \<not> fst p) \<longleftrightarrow> True \<notin> set bs'"
      using bs(2) by (induction bs' ms' rule: list_induct2) auto
    ultimately show ?thesis
      using sread_tail [of "zip bs' ms'" m "[SP, SP]" l vis] assms(1) False bs by (auto simp: Cons piece_def split: if_splits)
  qed
qed

lemma breaks_NL: "True \<in> set (breaks 2 ms) \<longleftrightarrow> NL \<in> set (concat (map (piece ch) (zip (breaks 2 ms) ms)))" if "ch \<noteq> NL" for ms
proof -
  have "True \<in> set bs \<longleftrightarrow> NL \<in> set (concat (map (piece ch) (zip bs ms)))" if "length bs = length ms" for bs ms
    using that \<open>ch \<noteq> NL\<close>
  proof (induction bs ms rule: list_induct2)
    case (Cons b bs m ms)
    then show ?case using print_int_no_NL [of "lit_Dimacs m"] by (auto simp: piece_def)
  qed simp
  then show ?thesis by simp
qed

lemma model_lits_Var:
  assumes "unat v < 2 ^ 31" and "m \<in> set (model_lits v val)"
  shows "lit_Var m \<noteq> 0"
proof -
  obtain i where i: "m = model_lit val (of_nat i)" "1 \<le> i" "i \<le> unat v" using assms(2) by (auto simp: model_lits_def)
  then have "unat (of_nat i :: u32) = i" using assms(1) by (intro unat_of_nat32) simp
  then have "lit_Var m = of_nat i" "(of_nat i :: u32) \<noteq> 0"
    using i assms(1) by (auto simp: model_lit_def dest: arg_cong [of "of_nat i :: u32" 0 unat])
  then show ?thesis by simp
qed

text \<open>
  (C26) The reader of solver output reads the output of the command line solver for a satisfiable problem back, that is
  the answer and the value of every variable, when the values fit on one line; when the printer has begun a
  second line, the reader fails, because reading the last number of a line also consumes the line break that would end
  the list of values.
\<close>

theorem ReadSolve_printed:
  assumes "unat v < 2 ^ 31" and "handleResultOutput 1 = Some res" and "concat cs = res @ outputModel v val"
  shows "if NL \<in> set (butlast (outputModel v val)) then fst (ReadSolve (plain_reads cs)) = Some Bad
     else ReadSolve (plain_reads cs)
       = (None, VSolution 1 # map VValue (model_lits v val) @ [VValue LitNull, VEof])"
proof -
  let ?ms = "model_lits v val"
  have res: "res = ch_s # SP # str_SAT @ [NL]" using assms(2) by (simp add: handleResultOutput_def)
  have om: "outputModel v val = ch_v # SP # tail_text (zip (breaks 2 ?ms) ?ms)"
    by (simp add: outputModel_pieces tail_text_def)
  have "ch_c \<notin> set (concat cs)" using no_c_model by (simp add: assms(3) res) (simp add: ch_defs str_SAT_def)
  then have b: "bufio (plain_reads cs) = rdr_of (res @ outputModel v val) None EOF"
    using filter_no_c [of "concat cs" Start] by (simp add: bufio_plain assms(3))
  have c: "sread_loop (rdr_of (b # bs) l EOF) Sol sb vis = sread_loop (rdr_of bs (Some b) EOF) Sol (sb @ [b]) vis"
    if "b \<noteq> NL" for b bs l sb vis using that by (subst sread_loop.simps) simp
  have s: "\<exists>l'. sread_loop (rdr_of (bs @ NL # xs) l EOF) Sol sb vis = sread_loop (rdr_of (NL # xs) l' EOF) Sol (sb @ bs) vis"
    if "NL \<notin> set bs" for bs xs l sb vis
    using that
  proof (induction bs arbitrary: l sb)
    case (Cons b bs)
    then have "b \<noteq> NL" "NL \<notin> set bs" by auto
    then show ?case using Cons.IH [of "Some b" "sb @ [b]"] by (simp add: c)
  qed auto
  have "NL \<notin> set (SP # str_SAT)" by (simp add: ch_defs str_SAT_def)
  then have "\<exists>l. sread_loop (rdr_of (SP # str_SAT @ NL # outputModel v val) (Some ch_s) EOF) Sol [] []
      = sread_loop (rdr_of (NL # outputModel v val) l EOF) Sol (SP # str_SAT) []"
    using s [of "SP # str_SAT" "outputModel v val" "Some ch_s" "[]" "[]"] by simp
  moreover have "sread_loop (rdr_of (res @ outputModel v val) None EOF) Neither [] []
      = sread_loop (rdr_of (SP # str_SAT @ NL # outputModel v val) (Some ch_s) EOF) Sol [] []"
    unfolding res by (subst sread_loop.simps) simp
  ultimately obtain l where l: "sread_loop (rdr_of (res @ outputModel v val) None EOF) Neither [] []
      = sread_loop (rdr_of (NL # outputModel v val) l EOF) Sol (SP # str_SAT) []"
    by auto
  have "handleSolution (SP # str_SAT) [] = (None, [VSolution 1])" by code_simp
  then have "sread_loop (rdr_of (NL # outputModel v val) l EOF) Sol (SP # str_SAT) []
      = sread_loop (rdr_of (outputModel v val) (Some NL) EOF) Neither [] [VSolution 1]"
    by (subst sread_loop.simps) (simp add: end_solution_def)
  also have "\<dots> = sread_loop (rdr_of (SP # tail_text (zip (breaks 2 ?ms) ?ms)) (Some ch_v) EOF) Values [] [VSolution 1]"
    unfolding om by (subst sread_loop.simps) simp
  finally have R: "ReadSolve (plain_reads cs) = \<dots>" by (simp add: ReadSolve_def b l)
  have "NL \<in> set (butlast (outputModel v val)) \<longleftrightarrow> True \<in> set (breaks 2 ?ms)"
    using breaks_NL [of ch_v ?ms] by (simp add: outputModel_pieces butlast_append)
  then show ?thesis
    unfolding R using sread_first [of ?ms "breaks 2 ?ms" "Some ch_v" "[VSolution 1]"] model_lits_Var [OF assms(1)] by (auto split: if_splits)
qed

theorem ReadSolve_printed_witness:
  "ReadSolve (plain_reads [the (handleResultOutput 1) @ outputModel 2 (\<lambda>m. m = 2)])
     = (None, [VSolution 1, VValue 2, VValue 5, VValue 0, VEof])
   \<and> fst (ReadSolve (plain_reads [the (handleResultOutput 1) @ outputModel 26 (\<lambda>m. False)])) = Some Bad"
proof
  obtain res where res: "handleResultOutput 1 = Some res" by (simp add: handleResultOutput_def)
  have "NL \<notin> set (butlast (outputModel 2 (\<lambda>m. m = 2)))" "model_lits 2 (\<lambda>m. m = 2) = [2, 5]" by code_simp+
  then show "ReadSolve (plain_reads [the (handleResultOutput 1) @ outputModel 2 (\<lambda>m. m = 2)])
     = (None, [VSolution 1, VValue 2, VValue 5, VValue 0, VEof])"
    using ReadSolve_printed [OF _ res, of 2 "[res @ outputModel 2 (\<lambda>m. m = 2)]" "\<lambda>m. m = 2"]
    by (simp add: res LitNull_def)
  have "NL \<in> set (butlast (outputModel 26 (\<lambda>m. False)))" by code_simp
  then show "fst (ReadSolve (plain_reads [the (handleResultOutput 1) @ outputModel 26 (\<lambda>m. False)])) = Some Bad"
    using ReadSolve_printed [OF _ res, of 26 "[res @ outputModel 26 (\<lambda>m. False)]" "\<lambda>m. False"] by (simp add: res)
qed

end
