(* ===== verification/Collect.thy ===== *)
theory Collect
  imports Cdb
begin

text \<open>
  Clause garbage collection over the database (\<^verbatim>\<open>internal/xo/cgc.go\<close>) and the model check that
  uses it (\<^verbatim>\<open>internal/xo/cdb.go\<close>).
\<close>

definition Cgc_relocate ::
    "locmap \<Rightarrow> vars \<times> cdb \<times> active option \<Rightarrow> vars \<times> cdb \<times> active option" where
  "Cgc_relocate rlm s =
     (case s of (v, c, act) \<Rightarrow>
       let c = c\<lparr>cb_Learnts := relocateSlice (cb_Learnts c) rlm\<rparr>;
           c = c\<lparr>cb_Added := relocateSlice (cb_Added c) rlm\<rparr>;
           v = v\<lparr>vs_Reasons := relocateSlice (vs_Reasons v) rlm\<rparr>;
           v = relocateWatches rlm v;
           act = (case act of None \<Rightarrow> None | Some a \<Rightarrow> Some (Active_CRemap rlm a))
       in (v, c, act))"

definition Cgc_CompactCDat ::
    "vars \<times> cdb \<times> active option \<Rightarrow> (int \<times> int \<times> vars \<times> cdb \<times> active option) option" where
  "Cgc_CompactCDat s =
     (case s of (v, c, act) \<Rightarrow>
       let gc = cb_gc c;
           gc = gc\<lparr>gc_rmLits := 0, gc_rmd := 0\<rparr>;
           crm = sort_by (<) (gc_rmq gc);
           crm = (if act \<noteq> None then uniq crm else crm)
       in do { (relocMap, freed, d) \<leftarrow> CDat_Compact crm (cb_CDat c);
               let c = c\<lparr>cb_CDat := d\<rparr>;
               let (v, c, act) = Cgc_relocate relocMap (v, c, act);
               let c = c\<lparr>cb_gc := gc\<lparr>gc_rmq := []\<rparr>\<rparr>;
               Some (int (length crm), freed, v, c, act) })"

definition Cgc_Remove ::
    "cloc list \<Rightarrow> vars \<times> cdb \<times> active option \<Rightarrow> (vars \<times> cdb \<times> active option) option" where
  "Cgc_Remove cs s =
     (case s of (v, c, act) \<Rightarrow>
       do { rmLitCount \<leftarrow> foldM (\<lambda>p n. do { k \<leftarrow> Cdb_Size p c; Some (n + k) }) cs 0;
            let gc = cb_gc c;
            let gc = gc\<lparr>gc_rmq := gc_rmq gc @ cs, gc_rmd := gc_rmd gc + int (length cs),
                        gc_rmLits := gc_rmLits gc + rmLitCount\<rparr>;
            let c = c\<lparr>cb_gc := gc\<rparr>;
            if \<not> CompactReady (cb_CDat c) (nat (gc_rmd gc)) (nat (gc_rmLits gc))
            then do { (v, c) \<leftarrow> Cdb_Unlink cs (v, c); Some (v, c, act) }
            else do { (nc, n, s) \<leftarrow> Cgc_CompactCDat (v, c, act); Some s } })"

text \<open>
  The selection loop of Compact walks the ranked learnt clauses from the worst to the best; a
  removed clause is swapped to the end of the shrinking slice.
\<close>

fun compact_pick ::
    "vars \<Rightarrow> cdb \<Rightarrow> nat \<Rightarrow> cloc list \<times> int \<times> cloc list \<times> int \<Rightarrow>
     (cloc list \<times> int \<times> cloc list \<times> int) option" where
  "compact_pick v c 0 s = Some s"
| "compact_pick v c (Suc n) s =
     (case s of (learnts, lim, rms, rmLitCount) \<Rightarrow>
       do { p \<leftarrow> aget learnts n;
            inUse \<leftarrow> Cdb_InUse p v c;
            if inUse then compact_pick v c n s
            else do {
              isBin \<leftarrow> Cdb_IsBinary p c;
              if isBin then compact_pick v c n s
              else do {
                isUnit \<leftarrow> Cdb_IsUnit p c;
                if isUnit then compact_pick v c n s
                else do {
                  let top = length learnts - 1;
                  let learnts = take top (learnts[n := learnts ! top, top := p]);
                  k \<leftarrow> Cdb_Size p c;
                  let lim = lim - 1;
                  let s = (learnts, lim, rms @ [p], rmLitCount + k);
                  if lim \<le> 0 then Some s else compact_pick v c n s } } } })"

definition Cgc_Compact ::
    "vars \<times> cdb \<times> active option \<Rightarrow>
     (int \<times> int \<times> int \<times> vars \<times> cdb \<times> active option) option" where
  "Cgc_Compact s =
     (case s of (v, c, act) \<Rightarrow>
       let gc = cb_gc c;
           (nxt, l) = luby_Next (gc_luby gc);
           gc = gc\<lparr>gc_luby := l, gc_stopWatch := nxt * gc_factor gc\<rparr>
       in do { learnts \<leftarrow> gcLearnts_Sort (cb_CDat c) (cb_Learnts c);
               let sz = length learnts;
               let lim = int (sz div 2);
               (learnts, lim, rms, rmLitCount) \<leftarrow> compact_pick v c sz (learnts, lim, [], 0);
               let gc = gc\<lparr>gc_rmq := gc_rmq gc @ rms, gc_rmd := gc_rmd gc + int (length rms),
                           gc_rmLits := gc_rmLits gc + rmLitCount\<rparr>;
               let c = c\<lparr>cb_Learnts := learnts, cb_gc := gc\<rparr>;
               if \<not> CompactReady (cb_CDat c) (nat (gc_rmd gc)) (nat (gc_rmLits gc))
               then do { (v, c) \<leftarrow> Cdb_Unlink rms (v, c);
                         Some (int (length rms), 0, 0, v, c, act) }
               else do { (nc, n, s) \<leftarrow> Cgc_CompactCDat (v, c, act);
                         Some (int (length rms), nc, n, s) } })"

definition Cdb_Remove ::
    "cloc list \<Rightarrow> vars \<times> cdb \<times> active option \<Rightarrow> (vars \<times> cdb \<times> active option) option" where
  "Cdb_Remove cs s = Cgc_Remove cs s"

definition Cdb_MaybeCompact ::
    "vars \<times> cdb \<times> active option \<Rightarrow>
     (int \<times> int \<times> int \<times> vars \<times> cdb \<times> active option) option" where
  "Cdb_MaybeCompact s =
     (case s of (v, c, act) \<Rightarrow>
       if \<not> Cgc_Ready (cb_gc c) then Some (0, 0, 0, s) else Cgc_Compact s)"

definition Active_Deactivate ::
    "lit \<Rightarrow> vars \<times> cdb \<times> active \<Rightarrow> (vars \<times> cdb \<times> active) option" where
  "Active_Deactivate m s =
     (case s of (v, c, a) \<Rightarrow>
       let mv = lit_Var m;
           m = var_Pos mv
       in do { sl \<leftarrow> aget (ac_Occs a) (unat mv);
               occs \<leftarrow> aset (ac_Occs a) (unat mv) [];
               (v, c, act) \<leftarrow> Cdb_Remove sl (v, c, Some (a\<lparr>ac_Occs := occs\<rparr>));
               a \<leftarrow> act;
               isa \<leftarrow> aset (ac_IsActive a) (unat mv) False;
               Some (v, c, a\<lparr>ac_Free := ac_Free a @ [m], ac_IsActive := isa\<rparr>) })"

section \<open>The model check\<close>

text \<open>One clause is checked from its first literal on; the result says whether a true one was met.\<close>

partial_function (option) check_clause :: "u32 list \<Rightarrow> int list \<Rightarrow> cloc \<Rightarrow> bool option" where
  "check_clause D signs p =
     do { m \<leftarrow> aget D (unat p);
          if m = LitNull then Some False
          else do { x \<leftarrow> aget signs (unat m);
                    if x = 1 then Some True else check_clause D signs (p + 1) } }"

fun check_model :: "u32 list \<Rightarrow> int list \<Rightarrow> cloc list \<Rightarrow> cloc list option" where
  "check_model D signs [] = Some []"
| "check_model D signs (q # qs) =
     do { ok \<leftarrow> check_clause D signs q;
          errs \<leftarrow> check_model D signs qs;
          Some (if ok then errs else q # errs) }"

definition Cdb_CheckModel ::
    "vars \<times> cdb \<times> active option \<Rightarrow> (cloc list \<times> vars \<times> cdb \<times> active option) option" where
  "Cdb_CheckModel s =
     (case s of (v, c, act) \<Rightarrow>
       if \<not> cb_checkModel c then Some ([], s)
       else do { (v, c, act) \<leftarrow>
                   (if act \<noteq> None
                    then do { (nc, n, s) \<leftarrow> Cgc_CompactCDat s; Some s }
                    else Some s);
                 errs \<leftarrow> check_model (cd_D (cb_CDat c)) (vs_Vals v) (cb_Added c);
                 Some (errs, v, c, act) })"

declare check_clause.simps [code]

end
