(* ===== verification/Trail.thy ===== *)
theory Trail
  imports Guess Collect
begin

text \<open>
  The assignment trail (\<^verbatim>\<open>internal/xo/trail.go\<close>): assigning, backtracking and unit propagation
  with two watched literals and blocking literals.  The Go structure points to the variable
  data, the clause database and the heuristic; the operations here take and return the ones
  they touch.

  In Prop the watch list of the literal being propagated is compacted in place while it is
  traversed.  The traversal is a recursion over the remaining watches that collects the kept
  ones; when a conflict stops it, the rest of the list is kept as it is, which is what the
  final \<^verbatim>\<open>copy\<close> of the source does.
\<close>

record trail =
  tr_Head :: nat
  tr_Tail :: nat
  tr_Level :: int
  tr_D :: "lit list"
  tr_lates :: "(lit \<times> cloc) list"
  tr_Props :: int
  tr_MaxTail :: nat

definition NewTrail :: "vars \<Rightarrow> trail" where
  "NewTrail v =
     \<lparr>tr_Head = 0, tr_Tail = 0, tr_Level = 0, tr_D = replicate (unat (vs_Top v)) 0,
      tr_lates = [], tr_Props = 0, tr_MaxTail = 0\<rparr>"

definition Trail_CopyWith :: "trail \<Rightarrow> trail" where
  "Trail_CopyWith t =
     \<lparr>tr_Head = tr_Head t, tr_Tail = tr_Tail t, tr_Level = tr_Level t, tr_D = tr_D t,
      tr_lates = tr_lates t, tr_Props = 0, tr_MaxTail = 0\<rparr>"

definition Trail_growToVar :: "var \<Rightarrow> trail \<Rightarrow> trail" where
  "Trail_growToVar u t = t\<lparr>tr_D := grow_list (unat (u * 2)) 0 (tr_D t)\<rparr>"

definition Assign :: "lit \<Rightarrow> cloc \<Rightarrow> trail \<times> vars \<Rightarrow> (trail \<times> vars) option" where
  "Assign m c s =
     (case s of (t, vars) \<Rightarrow>
       let v = lit_Var m
       in do { d \<leftarrow> aset (tr_D t) (tr_Tail t) m;
               let t = t\<lparr>tr_D := d, tr_Tail := tr_Tail t + 1\<rparr>;
               rs \<leftarrow> aset (vs_Reasons vars) (unat v) c;
               let t = (if c = CNull then t\<lparr>tr_Level := tr_Level t + 1\<rparr> else t);
               ls \<leftarrow> aset (vs_Levels vars) (unat v) (tr_Level t);
               vals \<leftarrow> aset (vs_Vals vars) (unat m) 1;
               vals \<leftarrow> aset vals (unat (lit_Not m)) (-1);
               Some (t, vars\<lparr>vs_Reasons := rs, vs_Levels := ls, vs_Vals := vals\<rparr>) })"

section \<open>Backtracking\<close>

fun back_loop ::
    "'h floats \<Rightarrow> int \<Rightarrow> nat \<Rightarrow> trail \<times> vars \<times> 'h guess \<Rightarrow> (trail \<times> vars \<times> 'h guess) option" where
  "back_loop fl trgLevel 0 (t, vars, g) =
     Some (t\<lparr>tr_Head := 0, tr_Tail := 0, tr_Level := 0\<rparr>, vars, g)"
| "back_loop fl trgLevel (Suc i) (t, vars, g) =
     do { m \<leftarrow> aget (tr_D t) i;
          let v = lit_Var m;
          l \<leftarrow> aget (vs_Levels vars) (unat v);
          if l = trgLevel
          then Some (t\<lparr>tr_Head := i + 1, tr_Tail := i + 1, tr_Level := trgLevel\<rparr>, vars, g)
          else do { vals \<leftarrow> aset (vs_Vals vars) (unat m) 0;
                    vals \<leftarrow> aset vals (unat (lit_Not m)) 0;
                    rs \<leftarrow> aset (vs_Reasons vars) (unat v) CNull;
                    ls \<leftarrow> aset (vs_Levels vars) (unat v) (-1);
                    g \<leftarrow> Guess_Push fl m g;
                    back_loop fl trgLevel i
                      (t, vars\<lparr>vs_Vals := vals, vs_Reasons := rs, vs_Levels := ls\<rparr>, g) } }"

definition Back ::
    "'h floats \<Rightarrow> int \<Rightarrow> trail \<times> vars \<times> 'h guess \<Rightarrow> (trail \<times> vars \<times> 'h guess) option" where
  "Back fl trgLevel s =
     (case s of (t, vars, g) \<Rightarrow>
       if tr_Level t \<le> trgLevel then Some s else back_loop fl trgLevel (tr_Tail t) s)"

section \<open>Unit propagation\<close>

text \<open>From position \<open>p\<close> on, the first literal of the clause that is not false, or its end.\<close>

partial_function (option) scan_clause ::
    "u32 list \<Rightarrow> int list \<Rightarrow> cloc \<Rightarrow> cloc option option" where
  "scan_clause cdat vals p =
     do { n \<leftarrow> aget cdat (unat p);
          if n = LitNull then Some None
          else do { nSign \<leftarrow> aget vals (unat n);
                    if nSign = -1 then scan_clause cdat vals (p + 1) else Some (Some p) } }"

datatype visit = VKeep | VDrop | VConflict

type_synonym prop_state = "u32 list \<times> trail \<times> vars"

definition swap_lits :: "u32 list \<Rightarrow> cloc \<Rightarrow> cloc \<Rightarrow> u32 list option" where
  "swap_lits cdat p q =
     do { x \<leftarrow> aget cdat (unat p);
          y \<leftarrow> aget cdat (unat q);
          cdat \<leftarrow> aset cdat (unat p) y;
          aset cdat (unat q) x }"

definition visit_binary :: "lit \<Rightarrow> cloc \<Rightarrow> lit \<Rightarrow> int \<Rightarrow> prop_state \<Rightarrow> (visit \<times> prop_state) option" where
  "visit_binary m q other oSign s =
     (case s of (cdat, t, vars) \<Rightarrow>
       do { x \<leftarrow> aget cdat (unat q);
            cdat \<leftarrow> (if x = m
                     then do { cdat \<leftarrow> aset cdat (unat q) other; aset cdat (unat (q + 1)) m }
                     else Some cdat);
            if oSign = 0
            then do { (t, vars) \<leftarrow> Assign other q (t, vars); Some (VKeep, cdat, t, vars) }
            else Some (VConflict, cdat, t, vars) })"

definition visit_long :: "lit \<Rightarrow> cloc \<Rightarrow> lit \<Rightarrow> int \<Rightarrow> prop_state \<Rightarrow> (visit \<times> prop_state) option" where
  "visit_long m q other oSign s =
     (case s of (cdat, t, vars) \<Rightarrow>
       do { n \<leftarrow> aget cdat (unat q);
            n \<leftarrow> (if n = m then aget cdat (unat (q + 1)) else Some n);
            oSign \<leftarrow> (if n \<noteq> other then aget (vs_Vals vars) (unat n) else Some oSign);
            if n \<noteq> other \<and> oSign = 1 then Some (VKeep, cdat, t, vars)
            else do {
              found \<leftarrow> scan_clause cdat (vs_Vals vars) (q + 2);
              x \<leftarrow> aget cdat (unat q);
              case found of
                None \<Rightarrow>
                  if oSign = 0
                  then do { cdat \<leftarrow> (if x = m then swap_lits cdat q (q + 1) else Some cdat);
                            u \<leftarrow> aget cdat (unat q);
                            (t, vars) \<leftarrow> Assign u q (t, vars);
                            Some (VKeep, cdat, t, vars) }
                  else Some (VConflict, cdat, t, vars)
              | Some p \<Rightarrow>
                  do { n \<leftarrow> aget cdat (unat p);
                       cdat \<leftarrow> aset cdat (unat (if x = m then q else q + 1)) n;
                       cdat \<leftarrow> aset cdat (unat p) m;
                       ws \<leftarrow> add_watch n (MakeWatch q m False) (vs_Watches vars);
                       Some (VDrop, cdat, t, vars\<lparr>vs_Watches := ws\<rparr>) } } })"

definition visit_watch :: "lit \<Rightarrow> watch \<Rightarrow> prop_state \<Rightarrow> (visit \<times> prop_state) option" where
  "visit_watch m w s =
     (case s of (cdat, t, vars) \<Rightarrow>
       let other = watch_Other w
       in do { oSign \<leftarrow> aget (vs_Vals vars) (unat other);
               if oSign = 1 then Some (VKeep, s)
               else let q = watch_C w
                    in if watch_IsBinary w then visit_binary m q other oSign s
                       else visit_long m q other oSign s })"

fun prop_watches ::
    "lit \<Rightarrow> watch list \<Rightarrow> watch list \<Rightarrow> prop_state \<Rightarrow> (cloc option \<times> watch list \<times> prop_state) option" where
  "prop_watches m [] keep s = Some (None, keep, s)"
| "prop_watches m (w # rest) keep s =
     do { (r, s) \<leftarrow> visit_watch m w s;
          case r of
            VKeep \<Rightarrow> prop_watches m rest (keep @ [w]) s
          | VDrop \<Rightarrow> prop_watches m rest keep s
          | VConflict \<Rightarrow> Some (Some (watch_C w), keep @ w # rest, s) }"

partial_function (option) prop_loop :: "nat \<Rightarrow> prop_state \<Rightarrow> (cloc \<times> prop_state) option" where
  "prop_loop orgHead s =
     (case s of (cdat, t, vars) \<Rightarrow>
       if tr_Head t < tr_Tail t
       then do { d \<leftarrow> aget (tr_D t) (tr_Head t);
                 let m = lit_Not d;
                 let t = t\<lparr>tr_Head := tr_Head t + 1\<rparr>;
                 mWatches \<leftarrow> aget (vs_Watches vars) (unat m);
                 (x, keep, (cdat, t, vars)) \<leftarrow> prop_watches m mWatches [] (cdat, t, vars);
                 ws \<leftarrow> aset (vs_Watches vars) (unat m) keep;
                 let vars = vars\<lparr>vs_Watches := ws\<rparr>;
                 case x of
                   Some q \<Rightarrow>
                     let t = t\<lparr>tr_Head := tr_Tail t\<rparr>;
                         t = t\<lparr>tr_Props := tr_Props t + (int (tr_Head t) - int orgHead)\<rparr>
                     in Some (q, cdat, t, vars)
                 | None \<Rightarrow> prop_loop orgHead (cdat, t, vars) }
       else let t = t\<lparr>tr_Props := tr_Props t + (int (tr_Head t) - int orgHead)\<rparr>;
                t = (if tr_Tail t > tr_MaxTail t then t\<lparr>tr_MaxTail := tr_Tail t\<rparr> else t)
            in Some (CNull, cdat, t, vars))"

definition Prop :: "trail \<times> vars \<times> cdb \<Rightarrow> (cloc \<times> trail \<times> vars \<times> cdb) option" where
  "Prop s =
     (case s of (t, vars, c) \<Rightarrow>
       do { (x, cdat, t, vars) \<leftarrow> prop_loop (tr_Head t) (cd_D (cb_CDat c), t, vars);
            Some (x, t, vars, c\<lparr>cb_CDat := cb_CDat c\<lparr>cd_D := cdat\<rparr>\<rparr>) })"

section \<open>Backtracking over one test scope\<close>

partial_function (option) has_cur :: "u32 list \<Rightarrow> int list \<Rightarrow> int \<Rightarrow> cloc \<Rightarrow> bool option" where
  "has_cur cD levels prevLevel q =
     do { n \<leftarrow> aget cD (unat q);
          if n = LitNull then Some False
          else do { nLvl \<leftarrow> aget levels (unat (lit_Var n));
                    if nLvl > prevLevel then Some True else has_cur cD levels prevLevel (q + 1) } }"

fun lates_loop ::
    "u32 list \<Rightarrow> vars \<Rightarrow> lit list \<Rightarrow> int \<Rightarrow> nat \<Rightarrow> int \<Rightarrow> (lit \<times> cloc) list \<Rightarrow> (lit \<times> cloc) list option" where
  "lates_loop cD vars D prevLevel 0 lvl lates = Some lates"
| "lates_loop cD vars D prevLevel (Suc i) lvl lates =
     do { m \<leftarrow> aget D i;
          r \<leftarrow> aget (vs_Reasons vars) (unat (lit_Var m));
          if r = CNull
          then let lvl = lvl - 1
               in if lvl = prevLevel then Some lates
                  else lates_loop cD vars D prevLevel i lvl lates
          else do { hasCur \<leftarrow> has_cur cD (vs_Levels vars) prevLevel (r + 1);
                    lates_loop cD vars D prevLevel i lvl
                      (if \<not> hasCur then lates @ [(m, r)] else lates) } }"

definition backWithLates ::
    "'h floats \<Rightarrow> int \<Rightarrow> cdb \<Rightarrow> trail \<times> vars \<times> 'h guess \<Rightarrow> (trail \<times> vars \<times> 'h guess) option" where
  "backWithLates fl prevLevel c s =
     (case s of (t, vars, g) \<Rightarrow>
       if prevLevel \<ge> tr_Level t then Some s
       else do { lates \<leftarrow> lates_loop (cd_D (cb_CDat c)) vars (tr_D t) prevLevel (tr_Tail t) (tr_Level t) [];
                 (t, vars, g) \<leftarrow> Back fl prevLevel (t, vars, g);
                 (t, vars) \<leftarrow> foldM (\<lambda>(m, r). Assign m r) lates (t, vars);
                 Some (t\<lparr>tr_Tail := tr_Head t\<rparr>, vars, g) })"

declare scan_clause.simps [code] prop_loop.simps [code] has_cur.simps [code]

end
