(* ===== verification/ClauseLits.thy ===== *)
theory ClauseLits
  imports SolverVars "HOL-Library.Multiset"
begin

text \<open>
  Reading and permuting clauses in place.  Propagation works directly on the data slice of the
  clause store: \<open>lits D p\<close> is the clause that starts at location \<open>p\<close>, \<open>store_ok D P\<close> says that the
  locations \<open>P\<close> are those of pairwise disjoint clauses, and \<open>store_perm P D D'\<close> that \<open>D'\<close> differs
  from \<open>D\<close> at most in the order of the literals within those clauses.
\<close>

definition lits :: "u32 list \<Rightarrow> cloc \<Rightarrow> lit list" where
  "lits D p = takeWhile (\<lambda>m. m \<noteq> LitNull) (drop (unat p) D)"

definition cl_end :: "u32 list \<Rightarrow> cloc \<Rightarrow> nat" where
  "cl_end D p = unat p + length (lits D p)"

definition store_ok :: "u32 list \<Rightarrow> cloc set \<Rightarrow> bool" where
  "store_ok D P \<longleftrightarrow> length D < 2 ^ 31
     \<and> (\<forall>p \<in> P. 0 < unat p \<and> cl_end D p < length D)
     \<and> (\<forall>p \<in> P. \<forall>q \<in> P. p \<noteq> q \<longrightarrow> cl_end D p < unat q \<or> cl_end D q < unat p)"

definition store_perm :: "cloc set \<Rightarrow> u32 list \<Rightarrow> u32 list \<Rightarrow> bool" where
  "store_perm P D D' \<longleftrightarrow> length D' = length D
     \<and> (\<forall>p \<in> P. mset (lits D' p) = mset (lits D p))
     \<and> (\<forall>i < length D. (\<forall>p \<in> P. \<not> (unat p \<le> i \<and> i < cl_end D p)) \<longrightarrow> D' ! i = D ! i)"

section \<open>One clause\<close>

lemma lits_nonnull: "LitNull \<notin> set (lits D p)"
  by (auto simp: lits_def dest: set_takeWhileD)

lemma lits_nth:
  assumes "cl_end D p < length D"
  shows "k < length (lits D p) \<Longrightarrow> D ! (unat p + k) = lits D p ! k"
    and "D ! cl_end D p = LitNull"
proof -
  have le: "unat p \<le> length D" using assms by (simp add: cl_end_def)
  then show "D ! (unat p + k) = lits D p ! k" if "k < length (lits D p)"
    using that unfolding lits_def
    by (subst takeWhile_nth) (simp_all add: nth_drop)
  have "length (lits D p) < length (drop (unat p) D)"
    using assms by (simp add: cl_end_def)
  then have "drop (unat p) D ! length (lits D p) = LitNull"
    unfolding lits_def using nth_length_takeWhile by blast
  then show "D ! cl_end D p = LitNull" using le by (simp add: cl_end_def nth_drop)
qed

lemma lits_eqI:
  assumes "unat p + length ms < length D" and "\<And>k. k < length ms \<Longrightarrow> D ! (unat p + k) = ms ! k"
    and "LitNull \<notin> set ms" and "D ! (unat p + length ms) = LitNull"
  shows "lits D p = ms"
proof -
  have "drop (unat p) D = ms @ LitNull # drop (unat p + length ms + 1) D"
  proof (rule nth_equalityI)
    show "length (drop (unat p) D) = length (ms @ LitNull # drop (unat p + length ms + 1) D)"
      using assms(1) by simp
    fix i assume i: "i < length (drop (unat p) D)"
    consider "i < length ms" | "i = length ms" | "length ms < i" by linarith
    then show "drop (unat p) D ! i = (ms @ LitNull # drop (unat p + length ms + 1) D) ! i"
      using assms i by cases (simp_all add: nth_append nth_Cons' )
  qed
  moreover have "takeWhile (\<lambda>m. m \<noteq> LitNull) (ms @ LitNull # xs) = ms" for xs
    using assms(3) by (subst takeWhile_append2) auto
  ultimately show ?thesis by (simp add: lits_def)
qed

lemma lits_cong:
  assumes "cl_end D p < length D" and "length D' = length D"
    and "\<And>i. unat p \<le> i \<Longrightarrow> i \<le> cl_end D p \<Longrightarrow> D' ! i = D ! i"
  shows "lits D' p = lits D p"
  using assms lits_nth [OF assms(1)] lits_nonnull [of D p]
  by (intro lits_eqI) (simp_all add: cl_end_def)

lemma lits_update:
  assumes "cl_end D p < length D" and "k < length (lits D p)" and "x \<noteq> LitNull"
  shows "lits (D[unat p + k := x]) p = (lits D p)[k := x]"
proof (rule lits_eqI)
  have le: "unat p + length (lits D p) < length D" using assms(1) by (simp add: cl_end_def)
  then show "unat p + length ((lits D p)[k := x]) < length (D[unat p + k := x])" by simp
  show "D[unat p + k := x] ! (unat p + i) = (lits D p)[k := x] ! i" if "i < length ((lits D p)[k := x])" for i
    using that le assms(2) lits_nth(1) [OF assms(1), of i] by (cases "i = k") simp_all
  show "LitNull \<notin> set ((lits D p)[k := x])"
    using lits_nonnull assms(3) set_update_subset_insert [of "lits D p" k x] by blast
  show "D[unat p + k := x] ! (unat p + length ((lits D p)[k := x])) = LitNull"
    using lits_nth(2) [OF assms(1)] assms(2) by (simp add: cl_end_def)
qed

lemma lits_update_other:
  assumes "cl_end D q < length D" and "i < unat q \<or> cl_end D q < i"
  shows "lits (D[i := x]) q = lits D q"
  using assms by (intro lits_cong) auto

section \<open>The store\<close>

lemma store_okD:
  assumes "store_ok D P"
  shows "length D < 2147483648" and "p \<in> P \<Longrightarrow> 0 < unat p" and "p \<in> P \<Longrightarrow> cl_end D p < length D"
    and "p \<in> P \<Longrightarrow> q \<in> P \<Longrightarrow> p \<noteq> q \<Longrightarrow> cl_end D p < unat q \<or> cl_end D q < unat p"
  using assms by (auto simp: store_ok_def)

lemma store_ok_subset: "store_ok D P \<Longrightarrow> Q \<subseteq> P \<Longrightarrow> store_ok D Q"
  by (auto simp: store_ok_def)

lemma loc_not_null: "store_ok D P \<Longrightarrow> p \<in> P \<Longrightarrow> p \<noteq> CNull"
  using store_okD(2) [of D P p] by (auto simp: CNull_def)

lemma unat_loc_plus:
  assumes "store_ok D P" and "p \<in> P" and "k \<le> length (lits D p)"
  shows "unat (p + of_nat k) = unat p + k"
proof -
  have "unat p + k < 4294967296"
    using store_okD(1,3) [OF assms(1)] assms(2,3) by (fastforce simp: cl_end_def)
  moreover from this have "unat (of_nat k :: u32) = k" by simp
  ultimately show ?thesis by (simp add: unat_word_ariths del: unat_of_nat)
qed

lemma aget_lits:
  assumes "store_ok D P" and "p \<in> P" and "k \<le> length (lits D p)"
  shows "aget D (unat (p + of_nat k)) = Some (if k < length (lits D p) then lits D p ! k else LitNull)"
proof -
  have "aget D (unat p + k) = Some (if k < length (lits D p) then lits D p ! k else LitNull)"
    using store_okD(3) [OF assms(1,2)] assms(3) lits_nth [of D p]
    by (cases "k = length (lits D p)") (simp_all add: cl_end_def)
  then show ?thesis by (simp only: unat_loc_plus [OF assms])
qed

lemma store_perm_refl [simp]: "store_perm P D D"
  by (simp add: store_perm_def)

lemma store_perm_lits:
  assumes "store_perm P D D'" and "p \<in> P"
  shows "set (lits D' p) = set (lits D p)" and "length (lits D' p) = length (lits D p)"
    and "cl_end D' p = cl_end D p"
proof -
  have eq: "mset (lits D' p) = mset (lits D p)" using assms by (simp add: store_perm_def)
  show "set (lits D' p) = set (lits D p)" using mset_eq_setD [OF eq] .
  show len: "length (lits D' p) = length (lits D p)" using mset_eq_length [OF eq] .
  then show "cl_end D' p = cl_end D p" by (simp add: cl_end_def)
qed

lemma store_perm_trans:
  assumes "store_perm P D D'" and "store_perm P D' D''"
  shows "store_perm P D D''"
proof -
  have "D'' ! i = D ! i" if "i < length D" "\<forall>p\<in>P. \<not> (unat p \<le> i \<and> i < cl_end D p)" for i
    using assms that store_perm_lits(3) [OF assms(1)] by (auto simp: store_perm_def)
  then show ?thesis using assms by (auto simp: store_perm_def)
qed

lemma store_perm_ok: "store_perm P D D' \<Longrightarrow> store_ok D P \<Longrightarrow> store_ok D' P"
  by (auto simp: store_ok_def store_perm_lits(3)) (auto simp: store_perm_def)

section \<open>Exchanging two literals of a clause\<close>

definition swap :: "nat \<Rightarrow> nat \<Rightarrow> 'a list \<Rightarrow> 'a list" where
  "swap i j xs = xs[i := xs ! j, j := xs ! i]"

lemma length_swap [simp]: "length (swap i j xs) = length xs"
  by (simp add: swap_def)

lemma mset_swap' [simp]: "i < length xs \<Longrightarrow> j < length xs \<Longrightarrow> mset (swap i j xs) = mset xs"
  by (simp add: swap_def mset_swap)

lemma set_swap [simp]: "i < length xs \<Longrightarrow> j < length xs \<Longrightarrow> set (swap i j xs) = set xs"
  using mset_swap' mset_eq_setD by blast

lemma nth_swap:
  "i < length xs \<Longrightarrow> j < length xs \<Longrightarrow> k < length xs \<Longrightarrow>
   swap i j xs ! k = (if k = i then xs ! j else if k = j then xs ! i else xs ! k)"
  by (auto simp: swap_def nth_list_update)

text \<open>Two stores into the data slice that exchange two literals of the clause at \<open>p\<close>.\<close>

lemma swap_in_store:
  assumes ok: "store_ok D P" and p: "p \<in> P" and ij: "i < length (lits D p)" "j < length (lits D p)"
  defines "D' \<equiv> D[unat (p + of_nat i) := lits D p ! j, unat (p + of_nat j) := lits D p ! i]"
  shows "lits D' p = swap i j (lits D p)" and "q \<in> P \<Longrightarrow> q \<noteq> p \<Longrightarrow> lits D' q = lits D q"
    and "store_perm P D D'" and "length D' = length D"
proof -
  have un: "unat (p + of_nat i) = unat p + i" "unat (p + of_nat j) = unat p + j"
    using unat_loc_plus [OF ok p] ij by simp_all
  have nn: "lits D p ! i \<noteq> LitNull" "lits D p ! j \<noteq> LitNull"
    using lits_nonnull [of D p] ij by (metis nth_mem)+
  note fit = store_okD(3) [OF ok p]
  have 1: "lits (D[unat p + i := lits D p ! j]) p = (lits D p)[i := lits D p ! j]"
    by (rule lits_update [OF fit ij(1) nn(2)])
  have e: "cl_end (D[unat p + i := lits D p ! j]) p = cl_end D p"
    by (simp add: cl_end_def 1)
  show own: "lits D' p = swap i j (lits D p)"
    unfolding D'_def un using fit ij(2) nn(1)
    by (subst lits_update) (simp_all add: 1 e swap_def)
  show len: "length D' = length D" by (simp add: D'_def)
  show other: "lits D' q = lits D q" if q: "q \<in> P" "q \<noteq> p" for q
  proof (rule lits_cong [OF store_okD(3) [OF ok q(1)] len])
    fix k assume k: "unat q \<le> k" "k \<le> cl_end D q"
    have "cl_end D p < unat q \<or> cl_end D q < unat p"
      using store_okD(4) [OF ok p q(1)] q(2) by blast
    then have "unat p + i \<noteq> k \<and> unat p + j \<noteq> k" using k ij by (auto simp: cl_end_def)
    then show "D' ! k = D ! k" by (auto simp: D'_def un nth_list_update)
  qed
  have "D' ! k = D ! k" if "k < length D" "\<not> (unat p \<le> k \<and> k < cl_end D p)" for k
  proof -
    have "k \<noteq> unat p + i" "k \<noteq> unat p + j" using that(2) ij by (auto simp: cl_end_def)
    then show ?thesis by (auto simp: D'_def un nth_list_update)
  qed
  moreover have "mset (lits D' q) = mset (lits D q)" if "q \<in> P" for q
    using other [OF that] own ij by (cases "q = p") simp_all
  ultimately show "store_perm P D D'" using p by (auto simp: store_perm_def len)
qed

section \<open>The clauses of a represented store\<close>

definition locs :: "clause list \<Rightarrow> cloc set" where
  "locs cls = {of_nat (loc_at (take i cls)) | i. i < length cls}"

end
