(* ===== verification/TrailInv.thy ===== *)
theory TrailInv
  imports Trail ClauseLits
begin

text \<open>
  What the trail, the reasons and the watch lists promise to one another, and the two operations
  that move along the trail, assignment and backtracking.

  \<^item> \<open>trail_ok\<close>: the values are exactly those of the literals on the trail, no variable occurs
    twice, and levels count decisions.
  \<^item> \<open>reasons_ok\<close>: the reason of an implied literal is a clause that starts with it and whose
    other literals were false before it.
  \<^item> \<open>clauses_ok\<close>, \<open>watch_ok\<close>: the attached clauses have at least two literals, and the watch
    lists hold exactly the first two literals of each.
  \<^item> \<open>prop_upto\<close>: an attached clause whose two watched literals are false and propagated has a
    true literal that is not younger than both.
\<close>

definition trail_lits :: "trail \<Rightarrow> lit list" where
  "trail_lits t = take (tr_Tail t) (tr_D t)"

definition reason :: "vars \<Rightarrow> lit \<Rightarrow> cloc" where
  "reason v m = vs_Reasons v ! unat (lit_Var m)"

definition lev :: "vars \<Rightarrow> lit \<Rightarrow> int" where
  "lev v m = vs_Levels v ! unat (lit_Var m)"

definition decs :: "vars \<Rightarrow> lit list \<Rightarrow> nat" where
  "decs v ms = length (filter (\<lambda>m. reason v m = CNull) ms)"

definition trail_ok :: "trail \<Rightarrow> vars \<Rightarrow> bool" where
  "trail_ok t v \<longleftrightarrow> vars_ok v \<and> tr_Head t \<le> tr_Tail t \<and> tr_Tail t \<le> length (tr_D t)
     \<and> unat (vs_Top v) \<le> length (tr_D t)
     \<and> distinct (map lit_Var (trail_lits t)) \<and> (\<forall>m \<in> set (trail_lits t). in_range v m)
     \<and> (\<forall>m. in_range v m \<longrightarrow> (val_of v m = 1 \<longleftrightarrow> m \<in> set (trail_lits t)))
     \<and> (\<forall>i < tr_Tail t. lev v (trail_lits t ! i) = int (decs v (take (Suc i) (trail_lits t))))
     \<and> tr_Level t = int (decs v (trail_lits t))"

definition reasons_ok :: "u32 list \<Rightarrow> cloc set \<Rightarrow> trail \<Rightarrow> vars \<Rightarrow> bool" where
  "reasons_ok D P t v \<longleftrightarrow> (\<forall>i < tr_Tail t.
     let m = trail_lits t ! i; r = reason v m
     in r \<noteq> CNull \<longrightarrow> r \<in> P \<and> lits D r \<noteq> [] \<and> hd (lits D r) = m
          \<and> (\<forall>n \<in> set (tl (lits D r)). lit_Not n \<in> set (take i (trail_lits t))))"

definition clauses_ok :: "u32 list \<Rightarrow> cloc set \<Rightarrow> vars \<Rightarrow> bool" where
  "clauses_ok D Q v \<longleftrightarrow> (\<forall>p \<in> Q. 2 \<le> length (lits D p) \<and> distinct (map lit_Var (lits D p))
     \<and> (\<forall>m \<in> set (lits D p). in_range v m))"

definition watched :: "u32 list \<Rightarrow> cloc \<Rightarrow> lit \<Rightarrow> bool" where
  "watched D p m \<longleftrightarrow> m = lits D p ! 0 \<or> m = lits D p ! 1"

definition good_watch :: "u32 list \<Rightarrow> lit \<Rightarrow> watch \<Rightarrow> bool" where
  "good_watch D m w \<longleftrightarrow> watch_Other w \<in> set (lits D (watch_C w)) \<and> watch_Other w \<noteq> m
     \<and> (watch_IsBinary w \<longleftrightarrow> length (lits D (watch_C w)) = 2)"

definition watch_ok :: "u32 list \<Rightarrow> cloc set \<Rightarrow> watch list list \<Rightarrow> bool" where
  "watch_ok D Q W \<longleftrightarrow> (\<forall>m. unat m < length W \<longrightarrow>
     distinct (map watch_C (W ! unat m)) \<and> watch_C ` set (W ! unat m) = {p \<in> Q. watched D p m}
     \<and> (\<forall>w \<in> set (W ! unat m). good_watch D m w))"

definition unproc_ok :: "trail \<Rightarrow> vars \<Rightarrow> bool" where
  "unproc_ok t v \<longleftrightarrow> (\<forall>i. tr_Head t \<le> i \<and> i < tr_Tail t \<longrightarrow> lev v (trail_lits t ! i) = tr_Level t)"

definition prop_upto :: "u32 list \<Rightarrow> cloc set \<Rightarrow> trail \<Rightarrow> vars \<Rightarrow> int \<Rightarrow> bool" where
  "prop_upto D Q t v L \<longleftrightarrow> (\<forall>p \<in> Q. let a = lits D p ! 0; b = lits D p ! 1
     in lit_Not a \<in> set (take (tr_Head t) (trail_lits t)) \<longrightarrow>
        lit_Not b \<in> set (take (tr_Head t) (trail_lits t)) \<longrightarrow> lev v a < L \<longrightarrow> lev v b < L \<longrightarrow>
        (\<exists>n \<in> set (lits D p). n \<in> set (trail_lits t) \<and> (lev v n \<le> lev v a \<or> lev v n \<le> lev v b)))"

section \<open>The trail\<close>

lemma nth_in_take: "j < i \<Longrightarrow> j < length xs \<Longrightarrow> xs ! j \<in> set (take i xs)"
  by (auto simp: in_set_conv_nth)

lemma distinct_map_snoc: "distinct (map f (xs @ [m])) \<Longrightarrow> n \<in> set xs \<Longrightarrow> f n \<noteq> f m"
  by (metis distinct_append disjoint_iff list.set_intros(1) list.simps(9) map_append set_map imageI)

lemma in_range_levels:
  assumes "vars_ok v" and "in_range v m"
  shows "unat (lit_Var m) < length (vs_Levels v)"
  using in_range_reasons [OF assms] vars_okD(7) [OF assms(1)] by simp

lemma trail_okD:
  assumes "trail_ok t v"
  shows "vars_ok v" and "tr_Head t \<le> tr_Tail t" and "tr_Tail t \<le> length (tr_D t)"
    and "unat (vs_Top v) \<le> length (tr_D t)" and "distinct (map lit_Var (trail_lits t))"
    and "m \<in> set (trail_lits t) \<Longrightarrow> in_range v m"
    and "in_range v m \<Longrightarrow> val_of v m = 1 \<longleftrightarrow> m \<in> set (trail_lits t)"
    and "i < tr_Tail t \<Longrightarrow> lev v (trail_lits t ! i) = int (decs v (take (Suc i) (trail_lits t)))"
    and "tr_Level t = int (decs v (trail_lits t))"
  using assms by (simp_all add: trail_ok_def)

lemma length_trail_lits [simp]: "trail_ok t v \<Longrightarrow> length (trail_lits t) = tr_Tail t"
  by (simp add: trail_lits_def trail_okD(3))

lemma trail_nth: "i < tr_Tail t \<Longrightarrow> trail_lits t ! i = tr_D t ! i"
  by (simp add: trail_lits_def)

lemma trail_val:
  assumes "trail_ok t v" and "in_range v m"
  shows "val_of v m = (if m \<in> set (trail_lits t) then 1
    else if lit_Not m \<in> set (trail_lits t) then -1 else 0)"
proof -
  have "unat m < length (vs_Vals v)" using in_range_vals trail_okD(1) assms by blast
  then have "val_of v m \<in> {-1, 0, 1}" "val_of v (lit_Not m) = - val_of v m"
    using vars_ok_vals [OF trail_okD(1) [OF assms(1)]] by auto
  then show ?thesis
    using trail_okD(7) [OF assms] trail_okD(7) [OF assms(1), of "lit_Not m"] assms(2) by auto
qed

lemma trail_not_both: "trail_ok t v \<Longrightarrow> m \<in> set (trail_lits t) \<Longrightarrow> lit_Not m \<notin> set (trail_lits t)"
  by (frule trail_okD(5)) (metis distinct_map inj_onD lit_Not_neq(1) lit_Var_Not)

lemma trail_length_less:
  assumes "trail_ok t v"
  shows "tr_Tail t < unat (vs_Top v)"
proof -
  let ?vs = "map (\<lambda>m. unat (lit_Var m)) (trail_lits t)"
  have top: "0 < unat (vs_Top v)"
    using vars_okD(1) [OF trail_okD(1) [OF assms]] by (simp add: word_less_nat_alt)
  have "distinct ?vs"
    using trail_okD(5) [OF assms] by (auto simp: distinct_map inj_on_def dest!: word_eq_iff_unat [THEN iffD2])
  moreover have "set ?vs \<subseteq> {1..<unat (vs_Top v)}"
    using trail_okD(6) [OF assms] by (fastforce simp: in_range_def unat_lit_Var)
  ultimately have "length ?vs \<le> card {1..<unat (vs_Top v)}"
    by (metis card_mono distinct_card finite_atLeastLessThan)
  then show ?thesis using assms top by simp
qed

lemma decs_append [simp]: "decs v (xs @ ys) = decs v xs + decs v ys"
  by (simp add: decs_def)

lemma decs_take_le: "decs v (take i xs) \<le> decs v xs"
  by (metis append_take_drop_id decs_append le_add1)

lemma decs_take_mono: "i \<le> j \<Longrightarrow> decs v (take i xs) \<le> decs v (take j xs)"
  by (metis decs_take_le min.absorb2 take_take min.commute)

lemma decs_cong: "(\<And>m. m \<in> set xs \<Longrightarrow> reason v m = reason v' m) \<Longrightarrow> decs v xs = decs v' xs"
  unfolding decs_def by (rule arg_cong [where f = length], rule filter_cong) simp_all

lemma lev_bounds:
  assumes "trail_ok t v" and "m \<in> set (trail_lits t)"
  shows "0 \<le> lev v m" and "lev v m \<le> tr_Level t"
proof -
  obtain i where i: "i < tr_Tail t" "m = trail_lits t ! i"
    using assms by (metis in_set_conv_nth length_trail_lits)
  then show "0 \<le> lev v m" "lev v m \<le> tr_Level t"
    using trail_okD(8,9) [OF assms(1)] decs_take_le by auto
qed

lemma lev_Not [simp]: "lev v (lit_Not m) = lev v m" and reason_Not [simp]: "reason v (lit_Not m) = reason v m"
  by (simp_all add: lev_def reason_def)

text \<open>Levels do not decrease along the trail.\<close>

lemma lev_mono:
  assumes "trail_ok t v" and "i \<le> j" and "j < tr_Tail t"
  shows "lev v (trail_lits t ! i) \<le> lev v (trail_lits t ! j)"
  using trail_okD(8) [OF assms(1)] assms(2,3) decs_take_mono [of "Suc i" "Suc j" v "trail_lits t"] by simp

section \<open>Assignment\<close>

lemma Assign_spec:
  assumes ok: "trail_ok t v" and m: "in_range v m" "val_of v m = 0"
  shows "returns (Assign m c (t, v)) (\<lambda>(t', v'). trail_ok t' v'
     \<and> trail_lits t' = trail_lits t @ [m] \<and> tr_Head t' = tr_Head t \<and> tr_Tail t' = tr_Tail t + 1
     \<and> tr_Level t' = tr_Level t + (if c = CNull then 1 else 0)
     \<and> t' = t\<lparr>tr_D := tr_D t', tr_Tail := tr_Tail t', tr_Level := tr_Level t'\<rparr>
     \<and> v' = v\<lparr>vs_Reasons := vs_Reasons v', vs_Levels := vs_Levels v', vs_Vals := put_val m 1 (vs_Vals v)\<rparr>
     \<and> (\<forall>n. reason v' n = (if lit_Var n = lit_Var m then c else reason v n))
     \<and> (\<forall>n. lev v' n = (if lit_Var n = lit_Var m then tr_Level t' else lev v n)))"
proof -
  note okD = trail_okD [OF ok]
  note vok = vars_okD [OF okD(1)]
  have tail: "tr_Tail t < length (tr_D t)"
    using trail_length_less [OF ok] okD(4) by simp
  have rng: "unat (lit_Var m) < length (vs_Reasons v)" "unat (lit_Var m) < length (vs_Levels v)"
    "unat m < length (vs_Vals v)" "unat (lit_Not m) < length (vs_Vals v)"
    using in_range_reasons [OF okD(1) m(1)] in_range_vals [OF okD(1)] in_range_levels [OF okD(1)] m(1) by auto
  define L where "L = tr_Level t + (if c = CNull then 1 else 0)"
  define t' where "t' = t\<lparr>tr_D := (tr_D t)[tr_Tail t := m], tr_Tail := tr_Tail t + 1, tr_Level := L\<rparr>"
  define v' where "v' = v\<lparr>vs_Reasons := (vs_Reasons v)[unat (lit_Var m) := c],
      vs_Levels := (vs_Levels v)[unat (lit_Var m) := L], vs_Vals := put_val m 1 (vs_Vals v)\<rparr>"
  have run: "Assign m c (t, v) = Some (t', v')"
    using tail rng by (simp add: Assign_def Let_def t'_def v'_def L_def put_val_def bind_eq_Some_conv)
  have tl: "trail_lits t' = trail_lits t @ [m]"
    using tail by (simp add: trail_lits_def t'_def take_Suc_conv_app_nth)
  have len: "length (trail_lits t) = tr_Tail t" using ok by simp
  have eqv: "unat (lit_Var n) = unat (lit_Var m) \<longleftrightarrow> lit_Var n = lit_Var m" for n
    by (simp add: word_eq_iff_unat)
  have rs: "reason v' n = (if lit_Var n = lit_Var m then c else reason v n)" for n
    using rng(1) eqv [of n] by (auto simp: reason_def v'_def nth_list_update)
  have ls: "lev v' n = (if lit_Var n = lit_Var m then L else lev v n)" for n
    using rng(2) eqv [of n] by (auto simp: lev_def v'_def nth_list_update)
  have vals: "val_of v' n = (if n = m then 1 else if n = lit_Not m then -1 else val_of v n)" for n
    using nth_put_val [OF vok(5) rng(3), of 1 n] by (simp add: val_of_def v'_def)
  have "m \<notin> set (trail_lits t)" "lit_Not m \<notin> set (trail_lits t)"
    using trail_val [OF ok m(1)] m(2) by (auto split: if_splits)
  then have fresh: "lit_Var m \<notin> lit_Var ` set (trail_lits t)"
    by (metis imageE lit_Var_eqD)
  have old: "lit_Var n \<noteq> lit_Var m" if "n \<in> set (trail_lits t)" for n
    using imageI [OF that, of lit_Var] fresh by (metis (no_types))
  have dc: "decs v' xs = decs v xs" if "set xs \<subseteq> set (trail_lits t)" for xs
    using that old by (intro decs_cong) (auto simp: rs)
  have dm: "decs v' [m] = (if c = CNull then 1 else 0)" by (simp add: decs_def rs)
  have "vars_ok (v\<lparr>vs_Vals := put_val m 1 (vs_Vals v)\<rparr>)" by (rule put_val_ok [OF okD(1) rng(3)]) simp
  then have vok': "vars_ok v'" by (simp add: vars_ok_def v'_def)
  have rg: "in_range v' n \<longleftrightarrow> in_range v n" for n by (simp add: in_range_def v'_def)
  have lv: "tr_Level t' = int (decs v' (trail_lits t'))"
    using dm dc [of "trail_lits t"] okD(9) unfolding tl by (simp add: t'_def L_def)
  have lvs: "lev v' (trail_lits t' ! i) = int (decs v' (take (Suc i) (trail_lits t')))"
    if i: "i < tr_Tail t'" for i
  proof (cases "i < tr_Tail t")
    case True
    then have mem: "trail_lits t ! i \<in> set (trail_lits t)" by (metis len nth_mem)
    have "decs v' (take (Suc i) (trail_lits t)) = decs v (take (Suc i) (trail_lits t))"
      by (rule dc) (rule set_take_subset)
    then show ?thesis using True okD(8) [OF True] old [OF mem] by (simp add: tl nth_append len ls)
  next
    case False
    then have "i = tr_Tail t" using i by (simp add: t'_def)
    moreover have "L = tr_Level t'" by (simp add: t'_def)
    ultimately have "lev v' (trail_lits t' ! i) = tr_Level t'" "take (Suc i) (trail_lits t') = trail_lits t'"
      using len by (simp_all add: tl nth_append ls)
    then show ?thesis using lv by simp
  qed
  have "trail_ok t' v'"
    unfolding trail_ok_def
  proof (intro conjI allI impI ballI)
    show "distinct (map lit_Var (trail_lits t'))" using okD(5) fresh by (simp add: tl)
    show "in_range v' n" if "n \<in> set (trail_lits t')" for n
      using that okD(6) m(1) by (auto simp: tl rg)
    show "(val_of v' n = 1) = (n \<in> set (trail_lits t'))" if "in_range v' n" for n
      using okD(7) [of n] okD(7) [of "lit_Not m"] that m(1) \<open>lit_Not m \<notin> _\<close> by (auto simp: vals tl rg)
  qed (use okD(2,4) tail vok' lv lvs in \<open>auto simp: t'_def v'_def\<close>)
  then show ?thesis
    using rs ls by (simp add: run tl) (simp add: t'_def v'_def L_def)
qed

section \<open>Backtracking\<close>

text \<open>The state after everything from position \<open>i\<close> on has been taken back.\<close>

definition cut :: "nat \<Rightarrow> vars \<Rightarrow> trail \<Rightarrow> trail" where
  "cut i v t = t\<lparr>tr_Head := i, tr_Tail := i, tr_Level := int (decs v (take i (tr_D t)))\<rparr>"

lemma cut_simps [simp]:
  "tr_Head (cut i v t) = i" "tr_Tail (cut i v t) = i" "tr_D (cut i v t) = tr_D t"
  "trail_lits (cut i v t) = take i (tr_D t)" "tr_Level (cut i v t) = int (decs v (take i (tr_D t)))"
  by (simp_all add: cut_def trail_lits_def)

text \<open>One assignment is undone.\<close>

definition undo :: "lit \<Rightarrow> vars \<Rightarrow> vars" where
  "undo m v = v\<lparr>vs_Vals := put_val m 0 (vs_Vals v),
     vs_Reasons := (vs_Reasons v)[unat (lit_Var m) := CNull],
     vs_Levels := (vs_Levels v)[unat (lit_Var m) := -1]\<rparr>"

lemma undo_step:
  assumes ok: "trail_ok (cut (Suc i) v t) v"
  defines "m \<equiv> tr_D t ! i"
  shows "trail_ok (cut i (undo m v) t) (undo m v)"
    and "n \<in> set (take i (tr_D t)) \<Longrightarrow> reason (undo m v) n = reason v n \<and> lev (undo m v) n = lev v n"
    and "in_range v m" and "i < length (tr_D t)"
proof -
  let ?v = "undo m v"
  note okD = trail_okD [OF ok]
  show i: "i < length (tr_D t)" using okD(3) by simp
  have tk: "take (Suc i) (tr_D t) = take i (tr_D t) @ [m]"
    using i by (simp add: m_def take_Suc_conv_app_nth)
  show m: "in_range v m" by (rule okD(6)) (simp add: tk)
  have rng: "unat m < length (vs_Vals v)" using in_range_vals [OF okD(1) m] .
  note vok = vars_okD [OF okD(1)]
  have other: "lit_Var n \<noteq> lit_Var m" if "n \<in> set (take i (tr_D t))" for n
    using distinct_map_snoc [OF _ that] okD(5) unfolding cut_simps tk by blast
  have neq: "unat (lit_Var n) \<noteq> unat (lit_Var m)" if "lit_Var n \<noteq> lit_Var m" for n
    using that by (simp add: word_eq_iff_unat)
  have rl: "reason ?v n = reason v n \<and> lev ?v n = lev v n" if "lit_Var n \<noteq> lit_Var m" for n
    using neq [OF that] by (simp add: reason_def lev_def undo_def)
  then show rl': "reason ?v n = reason v n \<and> lev ?v n = lev v n" if "n \<in> set (take i (tr_D t))" for n
    using other [OF that] by blast
  have dc: "decs ?v xs = decs v xs" if "set xs \<subseteq> set (take i (tr_D t))" for xs
    using that rl' by (intro decs_cong) blast
  have vals: "val_of ?v n = (if n = m \<or> n = lit_Not m then 0 else val_of v n)" for n
    using nth_put_val [OF vok(5) rng, of 0 n] by (simp add: val_of_def undo_def)
  have "vars_ok (v\<lparr>vs_Vals := put_val m 0 (vs_Vals v)\<rparr>)" by (rule put_val_ok [OF okD(1) rng]) simp
  then have vok': "vars_ok ?v" by (simp add: vars_ok_def undo_def)
  have rg: "in_range ?v n \<longleftrightarrow> in_range v n" for n by (simp add: in_range_def undo_def)
  show "trail_ok (cut i ?v t) ?v"
    unfolding trail_ok_def
  proof (intro conjI allI impI ballI)
    show "(val_of ?v n = 1) = (n \<in> set (trail_lits (cut i ?v t)))" if "in_range ?v n" for n
      using okD(7) [of n] that other [of n] by (auto simp: vals tk rg)
    show "lev ?v (trail_lits (cut i ?v t) ! j) = int (decs ?v (take (Suc j) (trail_lits (cut i ?v t))))"
      if "j < tr_Tail (cut i ?v t)" for j
    proof -
      have j: "j < i" using that by simp
      have mem: "tr_D t ! j \<in> set (take i (tr_D t))"
        using j i by (intro nth_in_take) simp_all
      have "decs ?v (take (Suc j) (take i (tr_D t))) = decs v (take (Suc j) (take i (tr_D t)))"
        by (rule dc) (rule set_take_subset)
      moreover have "take (Suc j) (take i (tr_D t)) = take (Suc j) (tr_D t)" using j by (simp add: min_def)
      ultimately show ?thesis
        using okD(8) [of j] j rl' [OF mem] by (simp add: min_def)
    qed
    show "unat (vs_Top ?v) \<le> length (tr_D (cut i ?v t))" using okD(4) by (simp add: undo_def)
  qed (use okD(3,5,6) vok' i in \<open>auto simp: tk rg\<close>)
qed

definition guess_room :: "'h floats \<Rightarrow> vars \<Rightarrow> 'h guess \<Rightarrow> bool" where
  "guess_room fl v g \<longleftrightarrow> heap_ok fl g \<and> unat (vs_Top v) \<le> length (gs_pos g)"

lemma back_loop_spec:
  assumes "trail_ok (cut i v t) v" and "guess_room fl v g" and "0 \<le> lvl" and "lvl \<le> tr_Level (cut i v t)"
  shows "returns (back_loop fl lvl i (t, v, g)) (\<lambda>(t', v', g'). \<exists>k \<le> i. t' = cut k v' t \<and> trail_ok t' v'
     \<and> tr_Level t' = lvl \<and> (\<forall>j < i. j < k \<longleftrightarrow> lev v (tr_D t ! j) \<le> lvl)
     \<and> (\<forall>n \<in> set (take k (tr_D t)). reason v' n = reason v n \<and> lev v' n = lev v n)
     \<and> v' = v\<lparr>vs_Reasons := vs_Reasons v', vs_Levels := vs_Levels v', vs_Vals := vs_Vals v'\<rparr>
     \<and> guess_room fl v' g' \<and> length (gs_pos g') = length (gs_pos g)
     \<and> set (gs_vhp g') = set (gs_vhp g) \<union> lit_Var ` set (drop k (take i (tr_D t))))"
  using assms
proof (induction i arbitrary: v g)
  case 0
  then show ?case by (auto simp: cut_def decs_def)
next
  case (Suc i)
  let ?m = "tr_D t ! i"
  note st = undo_step [OF Suc.prems(1)]
  note okD = trail_okD [OF Suc.prems(1)]
  have rng: "unat ?m < length (vs_Vals v)" "unat (lit_Var ?m) < length (vs_Reasons v)"
    "unat (lit_Var ?m) < length (vs_Levels v)" "unat (lit_Not ?m) < length (vs_Vals v)"
    using st(3) in_range_vals [OF okD(1)] in_range_reasons [OF okD(1)] in_range_levels [OF okD(1)] by auto
  have tk: "take (Suc i) (tr_D t) = take i (tr_D t) @ [?m]"
    using st(4) by (simp add: take_Suc_conv_app_nth)
  have lm: "vs_Levels v ! unat (lit_Var ?m) = int (decs v (take (Suc i) (tr_D t)))"
    using okD(8) [of i] by (simp add: lev_def)
  have room: "unat (lit_Var ?m) < length (gs_pos g)"
    using st(3) Suc.prems(2) by (auto simp: guess_room_def in_range_def)
  show ?case
  proof (cases "vs_Levels v ! unat (lit_Var ?m) = lvl")
    case True
    have "lev v (tr_D t ! j) \<le> lvl" if "j < Suc i" for j
      using lev_mono [OF Suc.prems(1), of j i] that True by (simp add: lev_def)
    then show ?thesis
      using True rng st(4) lm Suc.prems by (auto simp: cut_def Let_def intro!: exI [of _ "Suc i"])
  next
    case False
    let ?v = "undo ?m v"
    have "lvl < int (decs v (take (Suc i) (tr_D t)))" using False lm Suc.prems(4) by simp
    moreover have "decs v [?m] \<le> 1" by (simp add: decs_def)
    moreover have "decs ?v (take i (tr_D t)) = decs v (take i (tr_D t))"
      using st(2) by (intro decs_cong) blast
    ultimately have lvl': "lvl \<le> tr_Level (cut i ?v t)" by (simp add: tk)
    have v: "?v = v\<lparr>vs_Vals := (vs_Vals v)[unat ?m := 0, unat (lit_Not ?m) := 0],
        vs_Reasons := (vs_Reasons v)[unat (lit_Var ?m) := CNull],
        vs_Levels := (vs_Levels v)[unat (lit_Var ?m) := - 1]\<rparr>"
      by (simp add: undo_def put_val_def)
    have top: "vs_Top ?v = vs_Top v" by (simp add: undo_def)
    have "returns (Guess_Push fl ?m g) (\<lambda>g1. guess_room fl ?v g1 \<and> length (gs_pos g1) = length (gs_pos g)
        \<and> set (gs_vhp g1) = insert (lit_Var ?m) (set (gs_vhp g)))"
      using Suc.prems(2) Guess_Push_spec [OF _ room, of fl] by (auto simp: guess_room_def returns_def top)
    then obtain g1 where g1: "Guess_Push fl ?m g = Some g1" "guess_room fl ?v g1"
      "length (gs_pos g1) = length (gs_pos g)" "set (gs_vhp g1) = insert (lit_Var ?m) (set (gs_vhp g))"
      by (auto elim: returnsE)
    have run: "back_loop fl lvl (Suc i) (t, v, g) = back_loop fl lvl i (t, ?v, g1)"
      using False rng st(4) g1(1) by (simp add: Let_def v bind_eq_Some_conv)
    show ?thesis
      unfolding run
    proof (rule returns_mono [OF Suc.IH [OF st(1) g1(2) Suc.prems(3) lvl']])
      fix r
      assume post: "case r of (t', v', g') \<Rightarrow> \<exists>k \<le> i. t' = cut k v' t \<and> trail_ok t' v'
         \<and> tr_Level t' = lvl \<and> (\<forall>j < i. j < k \<longleftrightarrow> lev ?v (tr_D t ! j) \<le> lvl)
         \<and> (\<forall>n \<in> set (take k (tr_D t)). reason v' n = reason ?v n \<and> lev v' n = lev ?v n)
         \<and> v' = ?v\<lparr>vs_Reasons := vs_Reasons v', vs_Levels := vs_Levels v', vs_Vals := vs_Vals v'\<rparr>
         \<and> guess_room fl v' g' \<and> length (gs_pos g') = length (gs_pos g1)
         \<and> set (gs_vhp g') = set (gs_vhp g1) \<union> lit_Var ` set (drop k (take i (tr_D t)))"
      obtain t' v' g' where r: "r = (t', v', g')" by (cases r)
      obtain k where k: "k \<le> i" and t': "t' = cut k v' t" and ok': "trail_ok t' v'" and lv: "tr_Level t' = lvl"
        and cutk: "\<forall>j<i. j < k \<longleftrightarrow> lev ?v (tr_D t ! j) \<le> lvl"
        and same: "\<forall>n\<in>set (take k (tr_D t)). reason v' n = reason ?v n \<and> lev v' n = lev ?v n"
        and v': "v' = ?v\<lparr>vs_Reasons := vs_Reasons v', vs_Levels := vs_Levels v', vs_Vals := vs_Vals v'\<rparr>"
        and g': "guess_room fl v' g'" "length (gs_pos g') = length (gs_pos g1)"
          "set (gs_vhp g') = set (gs_vhp g1) \<union> lit_Var ` set (drop k (take i (tr_D t)))"
        using post unfolding r prod.case by blast
      have sub: "set (take k (tr_D t)) \<subseteq> set (take i (tr_D t))" using k by (rule set_take_subset_set_take)
      have mem: "tr_D t ! j \<in> set (take i (tr_D t))" if "j < i" for j
        using that st(4) by (intro nth_in_take) simp_all
      have "j < k \<longleftrightarrow> lev v (tr_D t ! j) \<le> lvl" if "j < Suc i" for j
        using cutk st(2) [OF mem, of j] that k \<open>lvl < _\<close> lm by (cases "j = i") (auto simp: lev_def)
      moreover have "reason v' n = reason v n \<and> lev v' n = lev v n" if "n \<in> set (take k (tr_D t))" for n
        using same st(2) [of n] that sub by auto
      moreover have "v' = v\<lparr>vs_Reasons := vs_Reasons v', vs_Levels := vs_Levels v', vs_Vals := vs_Vals v'\<rparr>"
        using v' by (simp add: undo_def)
      moreover have "set (gs_vhp g') = set (gs_vhp g) \<union> lit_Var ` set (drop k (take (Suc i) (tr_D t)))"
        using g'(3) g1(4) k st(4) by (auto simp: tk)
      ultimately show "case r of (t', v', g') \<Rightarrow> \<exists>k \<le> Suc i. t' = cut k v' t \<and> trail_ok t' v'
         \<and> tr_Level t' = lvl \<and> (\<forall>j < Suc i. j < k \<longleftrightarrow> lev v (tr_D t ! j) \<le> lvl)
         \<and> (\<forall>n \<in> set (take k (tr_D t)). reason v' n = reason v n \<and> lev v' n = lev v n)
         \<and> v' = v\<lparr>vs_Reasons := vs_Reasons v', vs_Levels := vs_Levels v', vs_Vals := vs_Vals v'\<rparr>
         \<and> guess_room fl v' g' \<and> length (gs_pos g') = length (gs_pos g)
         \<and> set (gs_vhp g') = set (gs_vhp g) \<union> lit_Var ` set (drop k (take (Suc i) (tr_D t)))"
        unfolding r prod.case using k t' ok' lv g' g1(3) by (intro exI [of _ k]) simp
    qed
  qed
qed

lemma trail_ok_cut: "trail_ok t v \<Longrightarrow> trail_ok (cut (tr_Tail t) v t) v"
  by (simp add: trail_ok_def trail_lits_def)

lemma Back_spec:
  assumes ok: "trail_ok t v" and g: "guess_room fl v g" and lvl: "0 \<le> lvl" "lvl < tr_Level t"
  shows "returns (Back fl lvl (t, v, g)) (\<lambda>(t', v', g'). trail_ok t' v' \<and> tr_Level t' = lvl
     \<and> tr_Head t' = tr_Tail t' \<and> tr_Tail t' \<le> tr_Tail t
     \<and> trail_lits t' = take (tr_Tail t') (trail_lits t)
     \<and> (\<forall>j < tr_Tail t. j < tr_Tail t' \<longleftrightarrow> lev v (trail_lits t ! j) \<le> lvl)
     \<and> (\<forall>n \<in> set (trail_lits t'). reason v' n = reason v n \<and> lev v' n = lev v n)
     \<and> v' = v\<lparr>vs_Reasons := vs_Reasons v', vs_Levels := vs_Levels v', vs_Vals := vs_Vals v'\<rparr>
     \<and> guess_room fl v' g' \<and> length (gs_pos g') = length (gs_pos g)
     \<and> set (gs_vhp g') = set (gs_vhp g) \<union> lit_Var ` set (drop (tr_Tail t') (trail_lits t)))"
proof -
  have run: "Back fl lvl (t, v, g) = back_loop fl lvl (tr_Tail t) (t, v, g)"
    using lvl by (simp add: Back_def)
  have "tr_Level t = tr_Level (cut (tr_Tail t) v t)"
    using trail_okD(9) [OF ok] by (simp add: trail_lits_def)
  then have L: "lvl \<le> tr_Level (cut (tr_Tail t) v t)" using lvl by simp
  show ?thesis
    unfolding run
  proof (rule returns_mono [OF back_loop_spec [OF trail_ok_cut [OF ok] g lvl(1) L]])
    fix r
    assume "case r of (t', v', g') \<Rightarrow> \<exists>k \<le> tr_Tail t. t' = cut k v' t \<and> trail_ok t' v'
       \<and> tr_Level t' = lvl \<and> (\<forall>j < tr_Tail t. j < k \<longleftrightarrow> lev v (tr_D t ! j) \<le> lvl)
       \<and> (\<forall>n \<in> set (take k (tr_D t)). reason v' n = reason v n \<and> lev v' n = lev v n)
       \<and> v' = v\<lparr>vs_Reasons := vs_Reasons v', vs_Levels := vs_Levels v', vs_Vals := vs_Vals v'\<rparr>
       \<and> guess_room fl v' g' \<and> length (gs_pos g') = length (gs_pos g)
       \<and> set (gs_vhp g') = set (gs_vhp g) \<union> lit_Var ` set (drop k (take (tr_Tail t) (tr_D t)))"
    then obtain t' v' g' k where *: "r = (t', v', g')" "k \<le> tr_Tail t" "t' = cut k v' t" "trail_ok t' v'"
      "tr_Level t' = lvl" "\<forall>j < tr_Tail t. j < k \<longleftrightarrow> lev v (tr_D t ! j) \<le> lvl"
      "\<forall>n \<in> set (take k (tr_D t)). reason v' n = reason v n \<and> lev v' n = lev v n"
      "v' = v\<lparr>vs_Reasons := vs_Reasons v', vs_Levels := vs_Levels v', vs_Vals := vs_Vals v'\<rparr>"
      "guess_room fl v' g'" "length (gs_pos g') = length (gs_pos g)"
      "set (gs_vhp g') = set (gs_vhp g) \<union> lit_Var ` set (drop k (take (tr_Tail t) (tr_D t)))"
      by (cases r) blast
    have tl: "trail_lits t' = take k (trail_lits t)"
      using *(2) by (simp add: *(3) trail_lits_def min_def)
    have tl': "trail_lits t' = take k (tr_D t)" by (simp add: *(3))
    have "tr_Head t' = k" "tr_Tail t' = k" by (simp_all add: *(3))
    then show "case r of (t', v', g') \<Rightarrow> trail_ok t' v' \<and> tr_Level t' = lvl
     \<and> tr_Head t' = tr_Tail t' \<and> tr_Tail t' \<le> tr_Tail t
     \<and> trail_lits t' = take (tr_Tail t') (trail_lits t)
     \<and> (\<forall>j < tr_Tail t. j < tr_Tail t' \<longleftrightarrow> lev v (trail_lits t ! j) \<le> lvl)
     \<and> (\<forall>n \<in> set (trail_lits t'). reason v' n = reason v n \<and> lev v' n = lev v n)
     \<and> v' = v\<lparr>vs_Reasons := vs_Reasons v', vs_Levels := vs_Levels v', vs_Vals := vs_Vals v'\<rparr>
     \<and> guess_room fl v' g' \<and> length (gs_pos g') = length (gs_pos g)
     \<and> set (gs_vhp g') = set (gs_vhp g) \<union> lit_Var ` set (drop (tr_Tail t') (trail_lits t))"
      unfolding *(1) prod.case using * tl tl' by (simp add: trail_nth trail_lits_def [of t])
  qed
qed

section \<open>The invariant of the search\<close>

definition search_ok :: "u32 list \<Rightarrow> cloc set \<Rightarrow> cloc set \<Rightarrow> trail \<Rightarrow> vars \<Rightarrow> bool" where
  "search_ok D P Q t v \<longleftrightarrow> store_ok D P \<and> Q \<subseteq> P \<and> trail_ok t v \<and> reasons_ok D P t v
     \<and> clauses_ok D Q v \<and> watch_ok D Q (vs_Watches v) \<and> unproc_ok t v"

lemma search_okD:
  assumes "search_ok D P Q t v"
  shows "store_ok D P" and "Q \<subseteq> P" and "trail_ok t v" and "reasons_ok D P t v" and "clauses_ok D Q v"
    and "watch_ok D Q (vs_Watches v)" and "unproc_ok t v" and "vars_ok v"
  using assms trail_okD(1) by (auto simp: search_ok_def)

lemma clauses_okD:
  assumes "clauses_ok D Q v" and "p \<in> Q"
  shows "2 \<le> length (lits D p)" and "distinct (map lit_Var (lits D p))"
    and "m \<in> set (lits D p) \<Longrightarrow> in_range v m"
  using assms by (auto simp: clauses_ok_def)

lemma reasons_okD:
  assumes "reasons_ok D P t v" and "i < tr_Tail t" and "reason v (trail_lits t ! i) \<noteq> CNull"
  shows "reason v (trail_lits t ! i) \<in> P"
    and "lits D (reason v (trail_lits t ! i)) = trail_lits t ! i # tl (lits D (reason v (trail_lits t ! i)))"
    and "n \<in> set (tl (lits D (reason v (trail_lits t ! i)))) \<Longrightarrow> lit_Not n \<in> set (take i (trail_lits t))"
proof -
  have *: "reason v (trail_lits t ! i) \<in> P \<and> lits D (reason v (trail_lits t ! i)) \<noteq> []
     \<and> hd (lits D (reason v (trail_lits t ! i))) = trail_lits t ! i
     \<and> (\<forall>n \<in> set (tl (lits D (reason v (trail_lits t ! i)))). lit_Not n \<in> set (take i (trail_lits t)))"
    using assms by (simp add: reasons_ok_def Let_def)
  then show "reason v (trail_lits t ! i) \<in> P"
    "lits D (reason v (trail_lits t ! i)) = trail_lits t ! i # tl (lits D (reason v (trail_lits t ! i)))"
    "n \<in> set (tl (lits D (reason v (trail_lits t ! i)))) \<Longrightarrow> lit_Not n \<in> set (take i (trail_lits t))"
    by (metis list.exhaust_sel, metis list.exhaust_sel, blast)
qed

lemma in_range_cong: "vs_Top v' = vs_Top v \<Longrightarrow> in_range v' m \<longleftrightarrow> in_range v m"
  by (simp add: in_range_def)

lemma clauses_ok_cong: "vs_Top v' = vs_Top v \<Longrightarrow> clauses_ok D Q v \<Longrightarrow> clauses_ok D Q v'"
  unfolding clauses_ok_def in_range_def by simp

text \<open>Backtracking keeps the invariant and leaves every clause propagated.\<close>

lemma Back_search_ok:
  assumes ok: "search_ok D P Q t v" and W: "prop_upto D Q t v (tr_Level t)"
    and g: "guess_room fl v g" and lvl: "0 \<le> lvl" "lvl < tr_Level t"
  shows "returns (Back fl lvl (t, v, g)) (\<lambda>(t', v', g'). search_ok D P Q t' v' \<and> prop_upto D Q t' v' L)"
proof (rule returns_mono [OF Back_spec [OF search_okD(3) [OF ok] g lvl]])
  fix r
  assume post: "case r of (t', v', g') \<Rightarrow> trail_ok t' v' \<and> tr_Level t' = lvl
     \<and> tr_Head t' = tr_Tail t' \<and> tr_Tail t' \<le> tr_Tail t
     \<and> trail_lits t' = take (tr_Tail t') (trail_lits t)
     \<and> (\<forall>j < tr_Tail t. j < tr_Tail t' \<longleftrightarrow> lev v (trail_lits t ! j) \<le> lvl)
     \<and> (\<forall>n \<in> set (trail_lits t'). reason v' n = reason v n \<and> lev v' n = lev v n)
     \<and> v' = v\<lparr>vs_Reasons := vs_Reasons v', vs_Levels := vs_Levels v', vs_Vals := vs_Vals v'\<rparr>
     \<and> guess_room fl v' g' \<and> length (gs_pos g') = length (gs_pos g)
     \<and> set (gs_vhp g') = set (gs_vhp g) \<union> lit_Var ` set (drop (tr_Tail t') (trail_lits t))"
  obtain t' v' g' where r: "r = (t', v', g')" by (cases r)
  have ok': "trail_ok t' v'" and lv: "tr_Level t' = lvl" and hd: "tr_Head t' = tr_Tail t'"
    and le: "tr_Tail t' \<le> tr_Tail t" and tl: "trail_lits t' = take (tr_Tail t') (trail_lits t)"
    and cut: "\<And>j. j < tr_Tail t \<Longrightarrow> j < tr_Tail t' \<longleftrightarrow> lev v (trail_lits t ! j) \<le> lvl"
    and same: "\<And>n. n \<in> set (trail_lits t') \<Longrightarrow> reason v' n = reason v n \<and> lev v' n = lev v n"
    and v': "v' = v\<lparr>vs_Reasons := vs_Reasons v', vs_Levels := vs_Levels v', vs_Vals := vs_Vals v'\<rparr>"
    using post unfolding r by auto
  note okD = search_okD [OF ok]
  have top: "vs_Top v' = vs_Top v" and ws: "vs_Watches v' = vs_Watches v" by (subst v', simp)+
  have nth: "trail_lits t' ! i = trail_lits t ! i" "trail_lits t' ! i \<in> set (trail_lits t')"
    "take i (trail_lits t') = take i (trail_lits t)" if "i < tr_Tail t'" for i
    using that le length_trail_lits [OF ok'] by (simp add: tl, metis nth_mem, simp add: tl min_def)
  have rs: "reasons_ok D P t' v'"
    using okD(4) le nth same by (auto simp: reasons_ok_def Let_def)
  have memD: "n \<in> set (trail_lits t) \<and> lev v n \<le> lvl \<and> n \<in> set (take (tr_Head t) (trail_lits t))"
    if mem: "n \<in> set (trail_lits t')" for n
  proof -
    obtain j where j: "j < tr_Tail t'" "n = trail_lits t' ! j"
      using mem by (metis in_set_conv_nth length_trail_lits ok')
    then have n: "n = trail_lits t ! j" "j < tr_Tail t" "lev v n \<le> lvl"
      using nth(1) [OF j(1)] le cut [of j] by auto
    then have "j < tr_Head t"
      using okD(7) lvl(2) unfolding unproc_ok_def by (metis leD not_less)
    then have "trail_lits t ! j \<in> set (take (tr_Head t) (trail_lits t))"
      using n(2) length_trail_lits [OF okD(3)] by (intro nth_in_take) simp_all
    then show ?thesis using n(1,3) by (auto dest: in_set_takeD)
  qed
  have "prop_upto D Q t' v' L"
    unfolding prop_upto_def Let_def
  proof (intro ballI impI)
    fix p assume p: "p \<in> Q"
    let ?a = "lits D p ! 0" and ?b = "lits D p ! 1"
    assume "lit_Not ?a \<in> set (take (tr_Head t') (trail_lits t'))"
      and "lit_Not ?b \<in> set (take (tr_Head t') (trail_lits t'))"
    then have ab: "lit_Not ?a \<in> set (trail_lits t')" "lit_Not ?b \<in> set (trail_lits t')"
      by (auto dest: in_set_takeD)
    have lab: "lev v' ?a = lev v ?a" "lev v' ?b = lev v ?b"
      using same [OF ab(1)] same [OF ab(2)] by simp_all
    have "lev v ?a \<le> lvl" "lev v ?b \<le> lvl" using memD [OF ab(1)] memD [OF ab(2)] by simp_all
    then obtain n where n: "n \<in> set (lits D p)" "n \<in> set (trail_lits t)"
      "lev v n \<le> lev v ?a \<or> lev v n \<le> lev v ?b"
      using W p memD [OF ab(1)] memD [OF ab(2)] lvl(2) unfolding prop_upto_def Let_def by fastforce
    then have nl: "lev v n \<le> lvl" using \<open>lev v ?a \<le> lvl\<close> \<open>lev v ?b \<le> lvl\<close> by linarith
    obtain j where j: "j < tr_Tail t" "n = trail_lits t ! j"
      using n(2) okD(3) by (metis in_set_conv_nth length_trail_lits)
    then have "j < tr_Tail t'" using cut nl by simp
    then have "n \<in> set (trail_lits t')" using nth j by metis
    then show "\<exists>n \<in> set (lits D p). n \<in> set (trail_lits t') \<and> (lev v' n \<le> lev v' ?a \<or> lev v' n \<le> lev v' ?b)"
      using n same lab by (intro bexI [of _ n]) auto
  qed
  moreover have "search_ok D P Q t' v'"
    using okD ok' rs hd top by (simp add: search_ok_def ws clauses_ok_cong unproc_ok_def)
  ultimately show "case r of (t', v', g') \<Rightarrow> search_ok D P Q t' v' \<and> prop_upto D Q t' v' L"
    by (simp add: r)
qed

end
