(* ===== verification/Propagation.thy ===== *)
theory Propagation
  imports TrailInv
begin

text \<open>
  Unit propagation keeps the invariant of the search, terminates without a panic, and either
  reports an attached clause all of whose literals are false or leaves no attached clause false.
\<close>

section \<open>Looking for another literal to watch\<close>

lemma scan_clause_spec:
  assumes ok: "store_ok D P" "q \<in> P" and rng: "\<forall>n \<in> set (lits D q). unat n < length vals"
    and k: "k \<le> length (lits D q)"
  shows "returns (scan_clause D vals (q + of_nat k)) (\<lambda>r.
     r = None \<and> (\<forall>j. k \<le> j \<and> j < length (lits D q) \<longrightarrow> vals ! unat (lits D q ! j) = -1)
     \<or> (\<exists>j. k \<le> j \<and> j < length (lits D q) \<and> r = Some (q + of_nat j) \<and> vals ! unat (lits D q ! j) \<noteq> -1))"
  using k
proof (induction "length (lits D q) - k" arbitrary: k)
  case 0
  then have "k = length (lits D q)" by simp
  then show ?case
    using aget_lits [OF ok, of k] by (subst scan_clause.simps) simp
next
  case (Suc d)
  then have k: "k < length (lits D q)" by simp
  have get: "aget D (unat (q + of_nat k)) = Some (lits D q ! k)"
    using aget_lits [OF ok, of k] k by simp
  have nn: "lits D q ! k \<noteq> LitNull" using lits_nonnull [of D q] k by (metis nth_mem)
  have v: "unat (lits D q ! k) < length vals" using rng k by simp
  show ?case
  proof (cases "vals ! unat (lits D q ! k) = -1")
    case True
    have run: "scan_clause D vals (q + of_nat k) = scan_clause D vals (q + of_nat (Suc k))"
      by (subst scan_clause.simps) (use get nn v True in \<open>simp add: ac_simps\<close>)
    have "returns (scan_clause D vals (q + of_nat (Suc k))) (\<lambda>r.
       r = None \<and> (\<forall>j. Suc k \<le> j \<and> j < length (lits D q) \<longrightarrow> vals ! unat (lits D q ! j) = -1)
       \<or> (\<exists>j. Suc k \<le> j \<and> j < length (lits D q) \<and> r = Some (q + of_nat j) \<and> vals ! unat (lits D q ! j) \<noteq> -1))"
      using Suc by (intro Suc.hyps(1)) simp_all
    then show ?thesis
      unfolding run by (rule returns_mono) (metis Suc_leD True le_antisym not_less_eq_eq)
  next
    case False
    have "scan_clause D vals (q + of_nat k) = Some (Some (q + of_nat k))"
      by (subst scan_clause.simps) (use get nn v False in simp)
    then show ?thesis using k False by auto
  qed
qed

section \<open>Changing one clause\<close>

definition changes_only :: "cloc set \<Rightarrow> cloc \<Rightarrow> u32 list \<Rightarrow> u32 list \<Rightarrow> bool" where
  "changes_only P q D D' \<longleftrightarrow> store_perm P D D' \<and> (\<forall>p \<in> P. p \<noteq> q \<longrightarrow> lits D' p = lits D p)"

lemma changes_only_refl [simp]: "changes_only P q D D"
  by (simp add: changes_only_def)

lemma changes_only_lits:
  assumes "changes_only P q D D'" and "p \<in> P"
  shows "set (lits D' p) = set (lits D p)" and "length (lits D' p) = length (lits D p)"
    and "p \<noteq> q \<Longrightarrow> lits D' p = lits D p"
  using assms store_perm_lits by (auto simp: changes_only_def)

lemma clauses_ok_perm:
  assumes "clauses_ok D Q v" and "store_perm P D D'" and "Q \<subseteq> P"
  shows "clauses_ok D' Q v"
  unfolding clauses_ok_def
proof (intro ballI)
  fix p assume p: "p \<in> Q"
  then have pP: "p \<in> P" using assms(3) by blast
  have "mset (map lit_Var (lits D' p)) = mset (map lit_Var (lits D p))"
    using assms(2) pP by (simp add: store_perm_def)
  then have "distinct (map lit_Var (lits D' p))"
    using clauses_okD(2) [OF assms(1) p] by (metis mset_eq_imp_distinct_iff)
  then show "2 \<le> length (lits D' p) \<and> distinct (map lit_Var (lits D' p))
      \<and> (\<forall>m \<in> set (lits D' p). in_range v m)"
    using clauses_okD [OF assms(1) p] store_perm_lits [OF assms(2) pP] by simp
qed

lemma reasons_ok_change:
  assumes rs: "reasons_ok D P t v" and ch: "changes_only P q D D'" and q: "q \<in> P"
    and hd: "lits D' q = lits D q \<or> hd (lits D q) \<notin> set (trail_lits t)" and ok: "trail_ok t v"
  shows "reasons_ok D' P t v"
  unfolding reasons_ok_def Let_def
proof (intro allI impI)
  fix i
  let ?m = "trail_lits t ! i" let ?r = "reason v ?m"
  assume i: "i < tr_Tail t" and r: "?r \<noteq> CNull"
  note R = reasons_okD [OF rs i r]
  have mem: "?m \<in> set (trail_lits t)" using i length_trail_lits [OF ok] by simp
  have "lits D' ?r = lits D ?r"
  proof (cases "?r = q")
    case True
    have "hd (lits D q) = ?m" using R(2) True by (metis list.sel(1))
    then show ?thesis using hd mem True by simp
  next
    case False
    then show ?thesis using changes_only_lits(3) [OF ch R(1)] by blast
  qed
  then show "?r \<in> P \<and> lits D' ?r \<noteq> [] \<and> hd (lits D' ?r) = ?m
     \<and> (\<forall>n \<in> set (tl (lits D' ?r)). lit_Not n \<in> set (take i (trail_lits t)))"
    using R by (metis list.sel(1) list.discI)
qed

lemma watch_ok_same_pair:
  assumes W: "watch_ok D Q W" and ch: "changes_only P q D D'" and Q: "Q \<subseteq> P"
    and pair: "\<And>m. watched D' q m \<longleftrightarrow> watched D q m"
  shows "watch_ok D' Q W"
proof -
  have "watched D' p m \<longleftrightarrow> watched D p m" if "p \<in> Q" for p m
    using changes_only_lits(3) [OF ch, of p] Q that pair by (cases "p = q") (auto simp: watched_def)
  moreover have "good_watch D' m w" if "good_watch D m w" "watch_C w \<in> Q" for m w
    using changes_only_lits(1,2) [OF ch, of "watch_C w"] that Q by (auto simp: good_watch_def)
  ultimately show ?thesis
    using W unfolding watch_ok_def by (smt (verit) Collect_cong imageI mem_Collect_eq)
qed

section \<open>Assigning an implied literal\<close>

lemma unit_assign:
  assumes ok: "trail_ok t v" and rs: "reasons_ok D P t v" and un: "unproc_ok t v"
    and q: "q \<in> P" "q \<noteq> CNull" and cl: "lits D q = m # ms"
    and false: "\<forall>n \<in> set ms. lit_Not n \<in> set (trail_lits t)"
    and m: "in_range v m" "val_of v m = 0"
  shows "returns (Assign m q (t, v)) (\<lambda>(t', v'). trail_ok t' v' \<and> reasons_ok D P t' v' \<and> unproc_ok t' v'
     \<and> trail_lits t' = trail_lits t @ [m] \<and> tr_Head t' = tr_Head t \<and> tr_Tail t' = tr_Tail t + 1
     \<and> tr_Level t' = tr_Level t
     \<and> t' = t\<lparr>tr_D := tr_D t', tr_Tail := tr_Tail t', tr_Level := tr_Level t'\<rparr>
     \<and> v' = v\<lparr>vs_Reasons := vs_Reasons v', vs_Levels := vs_Levels v', vs_Vals := put_val m 1 (vs_Vals v)\<rparr>
     \<and> lev v' m = tr_Level t \<and> (\<forall>n. lit_Var n \<noteq> lit_Var m \<longrightarrow> lev v' n = lev v n \<and> reason v' n = reason v n))"
proof (rule returns_mono [OF Assign_spec [OF ok m]])
  fix r
  assume post: "case r of (t', v') \<Rightarrow> trail_ok t' v'
     \<and> trail_lits t' = trail_lits t @ [m] \<and> tr_Head t' = tr_Head t \<and> tr_Tail t' = tr_Tail t + 1
     \<and> tr_Level t' = tr_Level t + (if q = CNull then 1 else 0)
     \<and> t' = t\<lparr>tr_D := tr_D t', tr_Tail := tr_Tail t', tr_Level := tr_Level t'\<rparr>
     \<and> v' = v\<lparr>vs_Reasons := vs_Reasons v', vs_Levels := vs_Levels v', vs_Vals := put_val m 1 (vs_Vals v)\<rparr>
     \<and> (\<forall>n. reason v' n = (if lit_Var n = lit_Var m then q else reason v n))
     \<and> (\<forall>n. lev v' n = (if lit_Var n = lit_Var m then tr_Level t' else lev v n))"
  obtain t' v' where r: "r = (t', v')" by (cases r)
  have ok': "trail_ok t' v'" and tl: "trail_lits t' = trail_lits t @ [m]" and tail: "tr_Tail t' = tr_Tail t + 1"
    and hd: "tr_Head t' = tr_Head t"
    and lv: "tr_Level t' = tr_Level t" and rsn: "reason v' n = (if lit_Var n = lit_Var m then q else reason v n)"
    and lvs: "lev v' n = (if lit_Var n = lit_Var m then tr_Level t' else lev v n)" for n
    using post q(2) unfolding r by auto
  have teq: "t' = t\<lparr>tr_D := tr_D t', tr_Tail := tr_Tail t', tr_Level := tr_Level t'\<rparr>"
    and veq: "v' = v\<lparr>vs_Reasons := vs_Reasons v', vs_Levels := vs_Levels v', vs_Vals := put_val m 1 (vs_Vals v)\<rparr>"
    using post unfolding r prod.case by blast+
  have len: "length (trail_lits t) = tr_Tail t" using ok by simp
  have old: "lit_Var (trail_lits t ! i) \<noteq> lit_Var m" if "i < tr_Tail t" for i
    using trail_okD(5) [OF ok'] distinct_map_snoc [of lit_Var "trail_lits t" m] that len by (metis nth_mem tl)
  have "reasons_ok D P t' v'"
    unfolding reasons_ok_def Let_def
  proof (intro allI impI)
    fix i assume i: "i < tr_Tail t'" and r: "reason v' (trail_lits t' ! i) \<noteq> CNull"
    show "reason v' (trail_lits t' ! i) \<in> P \<and> lits D (reason v' (trail_lits t' ! i)) \<noteq> []
      \<and> hd (lits D (reason v' (trail_lits t' ! i))) = trail_lits t' ! i
      \<and> (\<forall>n \<in> set (tl (lits D (reason v' (trail_lits t' ! i)))). lit_Not n \<in> set (take i (trail_lits t')))"
    proof (cases "i < tr_Tail t")
      case True
      then have nth: "trail_lits t' ! i = trail_lits t ! i" "take i (trail_lits t') = take i (trail_lits t)"
        using len by (simp_all add: tl nth_append)
      have "reason v (trail_lits t ! i) \<noteq> CNull" using r old [OF True] by (simp add: nth rsn)
      from reasons_okD [OF rs True this] show ?thesis
        using old [OF True] by (simp add: nth rsn) (metis list.sel(1) list.discI)
    next
      case False
      then have "i = tr_Tail t" using i tail by simp
      then have nth: "trail_lits t' ! i = m" "take i (trail_lits t') = trail_lits t"
        using len by (simp_all add: tl nth_append)
      show ?thesis using q cl false by (simp add: nth rsn)
    qed
  qed
  moreover have "unproc_ok t' v'"
    unfolding unproc_ok_def
  proof (intro allI impI)
    fix i assume i: "tr_Head t' \<le> i \<and> i < tr_Tail t'"
    show "lev v' (trail_lits t' ! i) = tr_Level t'"
    proof (cases "i < tr_Tail t")
      case True
      then have "trail_lits t' ! i = trail_lits t ! i" using len by (simp add: tl nth_append)
      then show ?thesis using un i hd True old [OF True] by (simp add: lvs unproc_ok_def lv)
    next
      case False
      then have "i = tr_Tail t" using i tail by simp
      then show ?thesis using len by (simp add: tl nth_append lvs)
    qed
  qed
  ultimately show "case r of (t', v') \<Rightarrow> trail_ok t' v' \<and> reasons_ok D P t' v' \<and> unproc_ok t' v'
     \<and> trail_lits t' = trail_lits t @ [m] \<and> tr_Head t' = tr_Head t \<and> tr_Tail t' = tr_Tail t + 1
     \<and> tr_Level t' = tr_Level t
     \<and> t' = t\<lparr>tr_D := tr_D t', tr_Tail := tr_Tail t', tr_Level := tr_Level t'\<rparr>
     \<and> v' = v\<lparr>vs_Reasons := vs_Reasons v', vs_Levels := vs_Levels v', vs_Vals := put_val m 1 (vs_Vals v)\<rparr>
     \<and> lev v' m = tr_Level t \<and> (\<forall>n. lit_Var n \<noteq> lit_Var m \<longrightarrow> lev v' n = lev v n \<and> reason v' n = reason v n)"
    unfolding r prod.case by (intro conjI ok' tl hd tail lv teq veq) (simp_all add: lvs rsn lv)
qed

section \<open>Progress of a propagation\<close>

definition advance ::
    "cloc set \<Rightarrow> u32 list \<Rightarrow> trail \<Rightarrow> vars \<Rightarrow> u32 list \<Rightarrow> trail \<Rightarrow> vars \<Rightarrow> bool" where
  "advance P D t v D' t' v' \<longleftrightarrow> store_perm P D D'
     \<and> (\<exists>ps. trail_lits t' = trail_lits t @ ps) \<and> tr_Level t' = tr_Level t
     \<and> vs_Top v' = vs_Top v \<and> vs_Max v' = vs_Max v \<and> length (vs_Watches v') = length (vs_Watches v)
     \<and> (\<forall>n \<in> set (trail_lits t). reason v' n = reason v n \<and> lev v' n = lev v n)"

lemma advance_refl [simp]: "advance P D t v D t v"
  by (simp add: advance_def)

lemma advance_trans:
  assumes "advance P D t v D' t' v'" and "advance P D' t' v' D'' t'' v''"
  shows "advance P D t v D'' t'' v''"
  using assms store_perm_trans unfolding advance_def by fastforce

lemma advanceD:
  assumes "advance P D t v D' t' v'"
  shows "store_perm P D D'" and "\<exists>ps. trail_lits t' = trail_lits t @ ps" and "tr_Level t' = tr_Level t"
    and "vs_Top v' = vs_Top v" and "vs_Max v' = vs_Max v" and "length (vs_Watches v') = length (vs_Watches v)"
    and "n \<in> set (trail_lits t) \<Longrightarrow> reason v' n = reason v n" and "n \<in> set (trail_lits t) \<Longrightarrow> lev v' n = lev v n"
  using assms by (simp_all add: advance_def)

section \<open>Visiting one watch\<close>

text \<open>
  The state in the middle of the watch list of the false literal \<open>m\<close>: \<open>keep\<close> are the watches
  already kept, \<open>rest\<close> those still to be visited.
\<close>

definition vis_inv ::
    "u32 list \<Rightarrow> cloc set \<Rightarrow> cloc set \<Rightarrow> trail \<Rightarrow> vars \<Rightarrow> lit \<Rightarrow> watch list \<Rightarrow> watch list \<Rightarrow> bool" where
  "vis_inv D P Q t v m keep rest \<longleftrightarrow> store_ok D P \<and> Q \<subseteq> P \<and> trail_ok t v \<and> reasons_ok D P t v
     \<and> clauses_ok D Q v \<and> unproc_ok t v \<and> watch_ok D Q ((vs_Watches v)[unat m := keep @ rest])
     \<and> in_range v m \<and> lit_Not m \<in> set (take (tr_Head t) (trail_lits t)) \<and> lev v m = tr_Level t
     \<and> prop_upto D (Q - watch_C ` set rest) t v (tr_Level t + 1)"

lemma vis_invD:
  assumes "vis_inv D P Q t v m keep rest"
  shows "store_ok D P" and "Q \<subseteq> P" and "trail_ok t v" and "reasons_ok D P t v" and "clauses_ok D Q v"
    and "unproc_ok t v" and "watch_ok D Q ((vs_Watches v)[unat m := keep @ rest])" and "in_range v m"
    and "lit_Not m \<in> set (take (tr_Head t) (trail_lits t))" and "lev v m = tr_Level t"
    and "prop_upto D (Q - watch_C ` set rest) t v (tr_Level t + 1)"
    and "vars_ok v" and "unat m < length (vs_Watches v)" and "val_of v m = -1"
proof -
  show *: "store_ok D P" "Q \<subseteq> P" "trail_ok t v" "reasons_ok D P t v" "clauses_ok D Q v"
    "unproc_ok t v" "watch_ok D Q ((vs_Watches v)[unat m := keep @ rest])" "in_range v m"
    "lit_Not m \<in> set (take (tr_Head t) (trail_lits t))" "lev v m = tr_Level t"
    "prop_upto D (Q - watch_C ` set rest) t v (tr_Level t + 1)"
    using assms by (simp_all add: vis_inv_def)
  show vok: "vars_ok v" using *(3) by (rule trail_okD(1))
  show "unat m < length (vs_Watches v)" using in_range_vals [OF vok *(8)] vars_okD(4) [OF vok] by simp
  have "lit_Not m \<in> set (trail_lits t)" using *(9) by (rule in_set_takeD)
  then show "val_of v m = -1"
    using trail_val [OF *(3,8)] trail_not_both [OF *(3), of "lit_Not m"] by auto
qed

lemma watch_okD:
  assumes "watch_ok D Q W" and "unat m < length W"
  shows "distinct (map watch_C (W ! unat m))" and "w \<in> set (W ! unat m) \<Longrightarrow> watch_C w \<in> Q"
    and "w \<in> set (W ! unat m) \<Longrightarrow> watched D (watch_C w) m"
    and "w \<in> set (W ! unat m) \<Longrightarrow> good_watch D m w"
    and "p \<in> Q \<Longrightarrow> watched D p m \<Longrightarrow> p \<in> watch_C ` set (W ! unat m)"
    and "watch_C ` set (W ! unat m) = {p \<in> Q. watched D p m}"
  using assms by (auto simp: watch_ok_def)

lemma watched_in: "2 \<le> length (lits D p) \<Longrightarrow> watched D p m \<Longrightarrow> m \<in> set (lits D p)"
  unfolding watched_def using nth_mem [of 0 "lits D p"] nth_mem [of 1 "lits D p"] by fastforce

lemma visit_facts:
  assumes inv: "vis_inv D P Q t v m keep (w # rest)"
  shows "watch_C w \<in> Q" and "watch_C w \<in> P" and "watched D (watch_C w) m"
    and "watch_Other w \<in> set (lits D (watch_C w))" and "watch_Other w \<noteq> m"
    and "watch_IsBinary w \<longleftrightarrow> length (lits D (watch_C w)) = 2"
    and "watch_C w \<notin> watch_C ` set rest" and "in_range v (watch_Other w)" and "m \<in> set (lits D (watch_C w))"
    and "unat (watch_Other w) < length (vs_Vals v)" and "2 \<le> length (lits D (watch_C w))"
proof -
  let ?W = "(vs_Watches v)[unat m := keep @ w # rest]"
  note I = vis_invD [OF inv]
  have at: "unat m < length ?W" "?W ! unat m = keep @ w # rest" using I(13) by simp_all
  note wo = watch_okD [OF I(7) at(1), unfolded at(2)]
  show q: "watch_C w \<in> Q" and wd: "watched D (watch_C w) m" using wo(2,3) [of w] by simp_all
  then show "watch_C w \<in> P" using I(2) by blast
  show o: "watch_Other w \<in> set (lits D (watch_C w))" "watch_Other w \<noteq> m"
    "watch_IsBinary w \<longleftrightarrow> length (lits D (watch_C w)) = 2"
    using wo(4) [of w] by (simp_all add: good_watch_def)
  show "watch_C w \<notin> watch_C ` set rest" using wo(1) by auto
  show rg: "in_range v (watch_Other w)" using clauses_okD(3) [OF I(5) q o(1)] .
  show le: "2 \<le> length (lits D (watch_C w))" using clauses_okD(1) [OF I(5) q] .
  show "m \<in> set (lits D (watch_C w))" using watched_in [OF le wd] .
  show "unat (watch_Other w) < length (vs_Vals v)" using in_range_vals [OF I(12) rg] .
qed

text \<open>A clause with a true literal needs no further attention.\<close>

lemma visit_done:
  assumes inv: "vis_inv D P Q t v m keep (w # rest)"
    and n: "n \<in> set (lits D (watch_C w))" "n \<in> set (trail_lits t)"
  shows "vis_inv D P Q t v m (keep @ [w]) rest"
proof -
  note I = vis_invD [OF inv] and F = visit_facts [OF inv]
  have "lev v n \<le> lev v m" using lev_bounds(2) [OF I(3) n(2)] I(10) by simp
  then have one: "lev v n \<le> lev v (lits D (watch_C w) ! 0) \<or> lev v n \<le> lev v (lits D (watch_C w) ! 1)"
    using F(3) by (auto simp: watched_def)
  have "prop_upto D (Q - watch_C ` set rest) t v (tr_Level t + 1)"
    unfolding prop_upto_def Let_def
  proof (intro ballI impI)
    fix p assume p: "p \<in> Q - watch_C ` set rest"
      and a: "lit_Not (lits D p ! 0) \<in> set (take (tr_Head t) (trail_lits t))"
        "lit_Not (lits D p ! 1) \<in> set (take (tr_Head t) (trail_lits t))"
        "lev v (lits D p ! 0) < tr_Level t + 1" "lev v (lits D p ! 1) < tr_Level t + 1"
    show "\<exists>n\<in>set (lits D p). n \<in> set (trail_lits t)
        \<and> (lev v n \<le> lev v (lits D p ! 0) \<or> lev v n \<le> lev v (lits D p ! 1))"
    proof (cases "p = watch_C w")
      case True
      then show ?thesis using n one by blast
    next
      case False
      then have "p \<in> Q - watch_C ` set (w # rest)" using p by simp
      then show ?thesis using I(11) a unfolding prop_upto_def Let_def by blast
    qed
  qed
  then show ?thesis using I by (simp add: vis_inv_def)
qed

text \<open>Exchanging literals of the visited clause.\<close>

lemma visit_change:
  assumes inv: "vis_inv D P Q t v m keep (w # rest)" and ch: "changes_only P (watch_C w) D D'"
    and pair: "\<And>m. watched D' (watch_C w) m \<longleftrightarrow> watched D (watch_C w) m"
    and hd: "lits D' (watch_C w) = lits D (watch_C w) \<or> hd (lits D (watch_C w)) \<notin> set (trail_lits t)"
  shows "vis_inv D' P Q t v m keep (w # rest)"
proof -
  note I = vis_invD [OF inv] and F = visit_facts [OF inv]
  have perm: "store_perm P D D'" using ch by (simp add: changes_only_def)
  have "lits D' p = lits D p" if "p \<in> Q - watch_C ` set (w # rest)" for p
    using changes_only_lits(3) [OF ch, of p] that I(2) by auto
  then have "prop_upto D' (Q - watch_C ` set (w # rest)) t v (tr_Level t + 1)"
    using I(11) unfolding prop_upto_def by simp
  then show ?thesis
    using I store_perm_ok [OF perm I(1)] clauses_ok_perm [OF I(5) perm I(2)]
      reasons_ok_change [OF I(4) ch F(2) hd I(3)] watch_ok_same_pair [OF I(7) ch I(2) pair]
    by (simp add: vis_inv_def)
qed

text \<open>The visited clause has become unit.\<close>

lemma prop_upto_extend:
  assumes W: "prop_upto D Q t v L" and tl: "trail_lits t' = trail_lits t @ ps" and hd: "tr_Head t' = tr_Head t"
    and le: "tr_Head t \<le> length (trail_lits t)"
    and lv: "\<And>n. n \<in> set (trail_lits t) \<Longrightarrow> lev v' n = lev v n"
  shows "prop_upto D Q t' v' L"
  unfolding prop_upto_def Let_def
proof (intro ballI impI)
  fix p
  let ?a = "lits D p ! 0" and ?b = "lits D p ! 1"
  assume p: "p \<in> Q"
    and a: "lit_Not ?a \<in> set (take (tr_Head t') (trail_lits t'))"
      "lit_Not ?b \<in> set (take (tr_Head t') (trail_lits t'))" "lev v' ?a < L" "lev v' ?b < L"
  have tk: "take (tr_Head t') (trail_lits t') = take (tr_Head t) (trail_lits t)"
    using le by (simp add: tl hd)
  have "lit_Not ?a \<in> set (trail_lits t)" "lit_Not ?b \<in> set (trail_lits t)"
    using a(1,2) unfolding tk by (auto dest: in_set_takeD)
  then have lab: "lev v' ?a = lev v ?a" "lev v' ?b = lev v ?b"
    using lv [of "lit_Not ?a"] lv [of "lit_Not ?b"] by simp_all
  then obtain n where "n \<in> set (lits D p)" "n \<in> set (trail_lits t)" "lev v n \<le> lev v ?a \<or> lev v n \<le> lev v ?b"
    using W p a unfolding prop_upto_def Let_def tk by fastforce
  then show "\<exists>n\<in>set (lits D p). n \<in> set (trail_lits t') \<and> (lev v' n \<le> lev v' ?a \<or> lev v' n \<le> lev v' ?b)"
    using lab lv by (intro bexI [of _ n]) (auto simp: tl)
qed

lemma visit_unit:
  assumes inv: "vis_inv D P Q t v m keep (w # rest)" and cl: "lits D (watch_C w) = u # ms"
    and false: "\<forall>n \<in> set ms. val_of v n = -1" and u: "val_of v u = 0"
  shows "returns (Assign u (watch_C w) (t, v)) (\<lambda>(t', v').
     advance P D t v D t' v' \<and> tr_Head t' = tr_Head t \<and> vis_inv D P Q t' v' m (keep @ [w]) rest)"
proof -
  note I = vis_invD [OF inv] and F = visit_facts [OF inv]
  have fl: "\<forall>n \<in> set ms. lit_Not n \<in> set (trail_lits t)"
  proof
    fix n assume n: "n \<in> set ms"
    then have "in_range v n" using clauses_okD(3) [OF I(5) F(1)] cl by simp
    then show "lit_Not n \<in> set (trail_lits t)"
      using false n trail_val [OF I(3), of n] by (auto split: if_splits)
  qed
  have rg: "in_range v u" using clauses_okD(3) [OF I(5) F(1)] cl by simp
  show ?thesis
  proof (rule returns_mono [OF unit_assign [OF I(3,4,6) F(2) loc_not_null [OF I(1) F(2)] cl fl rg u]])
    fix r
    assume post: "case r of (t', v') \<Rightarrow> trail_ok t' v' \<and> reasons_ok D P t' v' \<and> unproc_ok t' v'
     \<and> trail_lits t' = trail_lits t @ [u] \<and> tr_Head t' = tr_Head t \<and> tr_Tail t' = tr_Tail t + 1
     \<and> tr_Level t' = tr_Level t
     \<and> t' = t\<lparr>tr_D := tr_D t', tr_Tail := tr_Tail t', tr_Level := tr_Level t'\<rparr>
     \<and> v' = v\<lparr>vs_Reasons := vs_Reasons v', vs_Levels := vs_Levels v', vs_Vals := put_val u 1 (vs_Vals v)\<rparr>
     \<and> lev v' u = tr_Level t \<and> (\<forall>n. lit_Var n \<noteq> lit_Var u \<longrightarrow> lev v' n = lev v n \<and> reason v' n = reason v n)"
    obtain t' v' where r: "r = (t', v')" by (cases r)
    have ok': "trail_ok t' v'" "reasons_ok D P t' v'" "unproc_ok t' v'"
      and tl: "trail_lits t' = trail_lits t @ [u]" and hd: "tr_Head t' = tr_Head t"
      and lv: "tr_Level t' = tr_Level t"
      and lvs: "\<And>n. lit_Var n \<noteq> lit_Var u \<Longrightarrow> lev v' n = lev v n \<and> reason v' n = reason v n"
      using post unfolding r by auto
    have veq: "v' = v\<lparr>vs_Reasons := vs_Reasons v', vs_Levels := vs_Levels v', vs_Vals := put_val u 1 (vs_Vals v)\<rparr>"
      using post unfolding r prod.case by blast
    have same: "vs_Top v' = vs_Top v" "vs_Max v' = vs_Max v" "vs_Watches v' = vs_Watches v" by (subst veq, simp)+
    have old: "lit_Var n \<noteq> lit_Var u" if "n \<in> set (trail_lits t)" for n
      using distinct_map_snoc [OF _ that, of lit_Var u] trail_okD(5) [OF ok'(1)] unfolding tl by blast
    have "lit_Not m \<in> set (trail_lits t)" using I(9) by (rule in_set_takeD)
    then have mu: "lit_Var m \<noteq> lit_Var u" using old [of "lit_Not m"] by simp
    have hl: "tr_Head t \<le> length (trail_lits t)" using trail_okD(2) [OF I(3)] length_trail_lits [OF I(3)] by simp
    have "vis_inv D P Q t' v' m keep (w # rest)"
      using I ok' lvs [OF mu] prop_upto_extend [OF I(11) tl hd hl] old lvs clauses_ok_cong [OF same(1)]
      by (simp add: vis_inv_def same lv hd tl hl in_range_def)
    then have "vis_inv D P Q t' v' m (keep @ [w]) rest"
      by (rule visit_done [where n = u]) (simp_all add: cl tl)
    moreover have "advance P D t v D t' v'"
      using old lvs by (simp add: advance_def tl lv same)
    ultimately show "case r of (t', v') \<Rightarrow>
       advance P D t v D t' v' \<and> tr_Head t' = tr_Head t \<and> vis_inv D P Q t' v' m (keep @ [w]) rest"
      by (simp add: r hd)
  qed
qed

definition visit_post ::
    "u32 list \<Rightarrow> cloc set \<Rightarrow> cloc set \<Rightarrow> trail \<Rightarrow> vars \<Rightarrow> lit \<Rightarrow> watch list \<Rightarrow> watch \<Rightarrow> watch list \<Rightarrow>
     visit \<times> prop_state \<Rightarrow> bool" where
  "visit_post D P Q t v m keep w rest x \<longleftrightarrow> (case x of (r, D', t', v') \<Rightarrow>
     advance P D t v D' t' v' \<and> tr_Head t' = tr_Head t
     \<and> (case r of
          VKeep \<Rightarrow> vis_inv D' P Q t' v' m (keep @ [w]) rest
        | VDrop \<Rightarrow> vis_inv D' P Q t' v' m keep rest
        | VConflict \<Rightarrow> vis_inv D' P Q t' v' m keep (w # rest)
            \<and> (\<forall>n \<in> set (lits D' (watch_C w)). val_of v' n = -1)))"

lemma aget_first:
  assumes "store_ok D P" and "q \<in> P" and "2 \<le> length (lits D q)"
  shows "aget D (unat q) = Some (lits D q ! 0)" and "aget D (unat (q + 1)) = Some (lits D q ! 1)"
  using aget_lits [OF assms(1,2), of 0] aget_lits [OF assms(1,2), of 1] assms(3) by (auto split: if_splits)

text \<open>A false literal in front moves to the second place: the two stores of the source.\<close>

lemma front_swap:
  assumes inv: "vis_inv D P Q t v m keep (w # rest)"
    and m0: "lits D (watch_C w) ! 0 = m"
  defines "q \<equiv> watch_C w"
  defines "D' \<equiv> D[unat q := lits D q ! 1, unat (q + 1) := lits D q ! 0]"
  shows "vis_inv D' P Q t v m keep (w # rest)" and "lits D' q = swap 0 1 (lits D q)"
    and "advance P D t v D' t v" and "length D' = length D"
proof -
  note I = vis_invD [OF inv] and F = visit_facts [OF inv, folded q_def]
  have len: "0 < length (lits D q)" "1 < length (lits D q)" using F(11) by linarith+
  note S = swap_in_store [OF I(1) F(2) len, simplified, folded D'_def [simplified]]
  show own: "lits D' q = swap 0 1 (lits D q)" using S(1) by (simp add: D'_def)
  have ch: "changes_only P q D D'" using S(2,3) by (simp add: changes_only_def D'_def)
  have pair: "watched D' q n \<longleftrightarrow> watched D q n" for n
    unfolding watched_def own using len by (auto simp: nth_swap)
  have "hd (lits D q) = m" using m0 len by (simp add: q_def hd_conv_nth)
  moreover have "m \<notin> set (trail_lits t)" using trail_val [OF I(3,8)] I(14) by auto
  ultimately show "vis_inv D' P Q t v m keep (w # rest)"
    using visit_change [OF inv] ch pair by (simp add: q_def)
  show "advance P D t v D' t v" using ch by (simp add: advance_def changes_only_def)
  show "length D' = length D" by (simp add: D'_def)
qed

lemma visit_binary_spec:
  assumes inv: "vis_inv D P Q t v m keep (w # rest)" and bin: "watch_IsBinary w"
    and x: "val_of v (watch_Other w) \<noteq> 1"
  shows "returns (visit_binary m (watch_C w) (watch_Other w) (val_of v (watch_Other w)) (D, t, v))
    (visit_post D P Q t v m keep w rest)"
proof -
  define q where "q = watch_C w"
  define u where "u = watch_Other w"
  note I = vis_invD [OF inv] and F = visit_facts [OF inv, folded q_def u_def]
  have two: "length (lits D q) = 2" using F(6) bin by simp
  then obtain a b where ab: "lits D q = [a, b]"
    by (auto simp: length_Suc_conv numeral_2_eq_2)
  have um: "u \<in> {a, b}" "m \<in> {a, b}" "u \<noteq> m" using F(4,5,9) by (simp_all add: ab)
  note get = aget_first [OF I(1) F(2)]
  have get0: "aget D (unat q) = Some a" and get1: "unat (q + 1) < length D"
    using get F(11) by (simp_all add: ab)
  let ?x = "val_of v u"
  have vx: "?x = 0 \<or> ?x = -1"
    using x F(10) vars_ok_vals(1) [OF I(12), of u] by (auto simp: u_def)
  have key: "returns (if ?x = 0 then do { (t', v') \<leftarrow> Assign u q (t, v); Some (VKeep, D', t', v') }
      else Some (VConflict, D', t, v)) (visit_post D P Q t v m keep w rest)"
    if inv': "vis_inv D' P Q t v m keep (w # rest)" and cl: "lits D' q = [u, m]"
      and adv: "advance P D t v D' t v" for D'
  proof (cases "?x = 0")
    case True
    have "returns (Assign u q (t, v)) (\<lambda>(t', v'). advance P D' t v D' t' v' \<and> tr_Head t' = tr_Head t
        \<and> vis_inv D' P Q t' v' m (keep @ [w]) rest)"
      unfolding q_def
      by (rule visit_unit [OF inv' cl [unfolded q_def]]) (use True I(14) in simp_all)
    then show ?thesis
      using True advance_trans [OF adv] by (auto simp: returns_def visit_post_def)
  next
    case False
    then show ?thesis
      using vx inv' cl adv I(14) by (auto simp: visit_post_def q_def [symmetric])
  qed
  show ?thesis
  proof (cases "a = m")
    case True
    then have b: "b = u" using um by auto
    note FS = front_swap [OF inv, folded q_def, unfolded ab nth_Cons_0, OF True]
    have D': "D[unat q := u, unat (q + 1) := m] = D[unat q := [a, b] ! 1, unat (q + 1) := a]"
      by (simp add: b True)
    have "returns (if ?x = 0 then do { (t', v') \<leftarrow> Assign u q (t, v);
         Some (VKeep, D[unat q := u, unat (q + 1) := m], t', v') }
      else Some (VConflict, D[unat q := u, unat (q + 1) := m], t, v)) (visit_post D P Q t v m keep w rest)"
      unfolding D' using FS by (intro key) (simp_all add: swap_def b True)
    then show ?thesis
      using get0 get1 True
      by (simp add: visit_binary_def q_def [symmetric] u_def [symmetric] bind_eq_Some_conv cong: if_cong)
  next
    case False
    then have "lits D q = [u, m]" using um by (auto simp: ab)
    from key [OF inv this] show ?thesis
      using get0 False
      by (simp add: visit_binary_def q_def [symmetric] u_def [symmetric] cong: if_cong)
  qed
qed

section \<open>Moving a watch\<close>

lemma set_Watches_simps [simp]:
  "reason (v\<lparr>vs_Watches := W\<rparr>) = reason v" "lev (v\<lparr>vs_Watches := W\<rparr>) = lev v"
  "in_range (v\<lparr>vs_Watches := W\<rparr>) = in_range v" "val_of (v\<lparr>vs_Watches := W\<rparr>) = val_of v"
  "decs (v\<lparr>vs_Watches := W\<rparr>) = decs v"
  by (rule ext, simp add: reason_def lev_def in_range_def val_of_def decs_def)+

lemma set_Watches_inv [simp]:
  "length W = length (vs_Watches v) \<Longrightarrow> vars_ok (v\<lparr>vs_Watches := W\<rparr>) \<longleftrightarrow> vars_ok v"
  "length W = length (vs_Watches v) \<Longrightarrow> trail_ok t (v\<lparr>vs_Watches := W\<rparr>) \<longleftrightarrow> trail_ok t v"
  "reasons_ok D P t (v\<lparr>vs_Watches := W\<rparr>) \<longleftrightarrow> reasons_ok D P t v"
  "unproc_ok t (v\<lparr>vs_Watches := W\<rparr>) \<longleftrightarrow> unproc_ok t v"
  "clauses_ok D Q (v\<lparr>vs_Watches := W\<rparr>) \<longleftrightarrow> clauses_ok D Q v"
  "prop_upto D Q t (v\<lparr>vs_Watches := W\<rparr>) L \<longleftrightarrow> prop_upto D Q t v L"
proof -
  show vo: "length W = length (vs_Watches v) \<Longrightarrow> vars_ok (v\<lparr>vs_Watches := W\<rparr>) \<longleftrightarrow> vars_ok v"
    by (simp add: vars_ok_def)
  show "length W = length (vs_Watches v) \<Longrightarrow> trail_ok t (v\<lparr>vs_Watches := W\<rparr>) \<longleftrightarrow> trail_ok t v"
    by (simp add: trail_ok_def vo)
qed (simp_all add: reasons_ok_def unproc_ok_def clauses_ok_def prop_upto_def)

lemma watch_ok_move:
  assumes W: "watch_ok D Q (W[unat m := keep @ w # rest])" and lenW: "unat m < length W" "unat n < length W"
    and ch: "changes_only P q D D'" and Q: "Q \<subseteq> P" and q: "q \<in> Q" and w: "watch_C w = q"
    and own: "lits D' q = swap k j (lits D q)" and k: "k < 2" "lits D q ! k = m"
    and j: "2 \<le> j" "j < length (lits D q)" "lits D q ! j = n" and ds: "distinct (lits D q)"
    and mb: "unat m < 2147483648"
  shows "watch_ok D' Q (W[unat n := W ! unat n @ [MakeWatch q m False], unat m := keep @ rest])"
    (is "watch_ok D' Q ?X")
proof -
  let ?Y = "W[unat m := keep @ w # rest]"
  have kl: "k < length (lits D q)" using k j by simp
  have nm: "n \<noteq> m" using nth_eq_iff_index_eq [OF ds, of k j] kl j k by auto
  have idx: "unat x = unat y \<longleftrightarrow> x = y" for x y :: lit by (simp add: word_eq_iff_unat)
  have X: "?X ! unat x = (if x = m then keep @ rest else if x = n then W ! unat n @ [MakeWatch q m False]
      else W ! unat x)" if "unat x < length W" for x
    using that lenW idx [of x m] idx [of x n] idx [of n m] nm by (auto simp: nth_list_update)
  have Y: "?Y ! unat x = (if x = m then keep @ w # rest else W ! unat x)" if "unat x < length W" for x
    using that lenW idx [of x m] by (auto simp: nth_list_update)
  have len2: "1 < length (lits D q)" using j by simp
  define b where "b = lits D q ! (1 - k)"
  have kc: "k = 0 \<or> k = 1" using k(1) by auto
  have old: "watched D q x \<longleftrightarrow> x = m \<or> x = b" for x
    using kc k(2) by (auto simp: watched_def b_def)
  have new: "watched D' q x \<longleftrightarrow> x = n \<or> x = b" for x
  proof -
    have "lits D' q ! i = (if i = k then n else lits D q ! i)" if "i < 2" for i
      using that kl j len2 unfolding own by (simp add: nth_swap)
    then show ?thesis using kc by (auto simp: watched_def b_def)
  qed
  have bm: "b \<noteq> m" "b \<noteq> n"
  proof -
    have "1 - k < length (lits D q)" using len2 by simp
    then show "b \<noteq> m" "b \<noteq> n"
      using nth_eq_iff_index_eq [OF ds _ kl, of "1 - k"] nth_eq_iff_index_eq [OF ds _ j(2), of "1 - k"] j(1) kc
      unfolding b_def k(2) j(3) by auto
  qed
  have other: "watched D' p x \<longleftrightarrow> watched D p x" if "p \<in> Q" "p \<noteq> q" for p x
    using changes_only_lits(3) [OF ch] Q that by (auto simp: watched_def)
  have gw: "good_watch D' x u" if "good_watch D x u" "watch_C u \<in> Q" for x u
    using changes_only_lits(1,2) [OF ch, of "watch_C u"] that Q by (auto simp: good_watch_def)
  have C: "watch_C (MakeWatch q m False) = q" "watch_Other (MakeWatch q m False) = m"
    "\<not> watch_IsBinary (MakeWatch q m False)"
    using mb by (simp_all add: C_MakeWatch Other_MakeWatch IsBinary_MakeWatch)
  have gn: "good_watch D' n (MakeWatch q m False)"
  proof -
    have "q \<in> P" using q Q by blast
    then have "m \<in> set (lits D' q)" "length (lits D' q) \<noteq> 2"
      using changes_only_lits(1,2) [OF ch, of q] j(1,2) kl k(2) nth_mem by auto
    then show ?thesis using nm by (simp add: good_watch_def C)
  qed
  show ?thesis
    unfolding watch_ok_def
  proof (intro allI impI)
    fix x :: lit assume "unat x < length ?X"
    then have x: "unat x < length W" by simp
    then have x': "unat x < length ?Y" by simp
    note O = watch_okD [OF W x', unfolded Y [OF x]]
    consider "x = m" | "x = n" "x \<noteq> m" | "x \<noteq> m" "x \<noteq> n" by blast
    then show "distinct (map watch_C (?X ! unat x)) \<and> watch_C ` set (?X ! unat x) = {p \<in> Q. watched D' p x}
        \<and> (\<forall>u \<in> set (?X ! unat x). good_watch D' x u)"
    proof cases
      case 1
      have d: "distinct (map watch_C (keep @ w # rest))" using O(1) 1 by simp
      have im: "watch_C ` set (keep @ w # rest) = {p \<in> Q. watched D p m}" using O(6) 1 by simp
      have "q \<notin> watch_C ` set (keep @ rest)" using d w by (simp add: image_Un)
      moreover have "watch_C ` set (keep @ w # rest) = insert q (watch_C ` set (keep @ rest))" using w by auto
      ultimately have "watch_C ` set (keep @ rest) = {p \<in> Q. watched D p m} - {q}"
        unfolding im [symmetric] by simp
      also have "\<dots> = {p \<in> Q. watched D' p m}"
      proof (rule set_eqI)
        fix p show "p \<in> {p \<in> Q. watched D p m} - {q} \<longleftrightarrow> p \<in> {p \<in> Q. watched D' p m}"
          using other [of p m] new [of m] bm nm by (cases "p = q") auto
      qed
      finally show ?thesis using d O(2,4) gw 1 x by (auto simp: X)
    next
      case 2
      have im: "watch_C ` set (W ! unat n) = {p \<in> Q. watched D p n}" using O(6) 2 by simp
      then have "q \<notin> watch_C ` set (W ! unat n)" using old nm bm by auto
      moreover have "insert q {p \<in> Q. watched D p n} = {p \<in> Q. watched D' p n}"
        using other new q by auto
      moreover have "distinct (map watch_C (W ! unat n))" using O(1) 2 by simp
      ultimately show ?thesis using O(2,4) 2 gw gn x im by (auto simp: X C)
    next
      case 3
      have "{p \<in> Q. watched D p x} = {p \<in> Q. watched D' p x}" using 3 other old new by blast
      then show ?thesis using O 3 gw x by (simp add: X)
    qed
  qed
qed

lemma visit_move:
  assumes inv: "vis_inv D P Q t v m keep (w # rest)"
  defines "q \<equiv> watch_C w"
  assumes k: "k < 2" "lits D q ! k = m" and j: "2 \<le> j" "j < length (lits D q)"
    and nf: "val_of v (lits D q ! j) \<noteq> -1" and hd: "hd (lits D q) \<notin> set (trail_lits t)"
  defines "D' \<equiv> D[unat (q + of_nat k) := lits D q ! j, unat (q + of_nat j) := m]"
  defines "v' \<equiv> v\<lparr>vs_Watches := (vs_Watches v)[unat (lits D q ! j) :=
      vs_Watches v ! unat (lits D q ! j) @ [MakeWatch q m False]]\<rparr>"
  shows "vis_inv D' P Q t v' m keep rest" and "advance P D t v D' t v'"
    and "unat (lits D q ! j) < length (vs_Watches v)"
proof -
  let ?n = "lits D q ! j"
  note I = vis_invD [OF inv] and F = visit_facts [OF inv, folded q_def]
  have kl: "k < length (lits D q)" using k j by simp
  note S = swap_in_store [OF I(1) F(2) kl j(2), unfolded k(2), folded D'_def]
  have ch: "changes_only P q D D'" using S(2,3) by (simp add: changes_only_def)
  have perm: "store_perm P D D'" using S(3) .
  have rn: "in_range v ?n" using clauses_okD(3) [OF I(5) F(1)] j(2) by simp
  show ln: "unat ?n < length (vs_Watches v)" using in_range_vals [OF I(12) rn] vars_okD(4) [OF I(12)] by simp
  have ds: "distinct (lits D q)" using clauses_okD(2) [OF I(5) F(1)] by (simp add: distinct_map)
  have mb: "unat m < 2147483648"
    using in_range_vals [OF I(12,8)] vars_okD(2,8) [OF I(12)] by arith
  have wok: "watch_ok D' Q ((vs_Watches v')[unat m := keep @ rest])"
    using watch_ok_move [OF I(7,13) ln ch I(2) F(1) _ S(1) k j refl ds mb]
    by (simp add: v'_def q_def)
  have no: "lit_Not ?n \<notin> set (trail_lits t)"
    using trail_val [OF I(3) rn] nf trail_not_both [OF I(3), of "lit_Not ?n"] by auto
  have "?n = lits D' q ! 0 \<or> ?n = lits D' q ! 1"
    using k(1) kl j unfolding S(1) by (auto simp: nth_swap less_2_cases_iff)
  then have unw: "lit_Not (lits D' q ! 0) \<notin> set (take h (trail_lits t))
      \<or> lit_Not (lits D' q ! 1) \<notin> set (take h (trail_lits t))" for h
    using no by (metis in_set_takeD)
  have "prop_upto D' (Q - watch_C ` set rest) t v (tr_Level t + 1)"
    unfolding prop_upto_def
  proof
    fix p assume p: "p \<in> Q - watch_C ` set rest"
    show "let a = lits D' p ! 0; b = lits D' p ! 1
     in lit_Not a \<in> set (take (tr_Head t) (trail_lits t)) \<longrightarrow>
        lit_Not b \<in> set (take (tr_Head t) (trail_lits t)) \<longrightarrow> lev v a < tr_Level t + 1 \<longrightarrow>
        lev v b < tr_Level t + 1 \<longrightarrow>
        (\<exists>n \<in> set (lits D' p). n \<in> set (trail_lits t) \<and> (lev v n \<le> lev v a \<or> lev v n \<le> lev v b))"
    proof (cases "p = q")
      case True
      then show ?thesis using unw by (auto simp: Let_def)
    next
      case False
      then have "p \<in> Q - watch_C ` set (w # rest)" "lits D' p = lits D p"
        using p changes_only_lits(3) [OF ch, of p] I(2) by (auto simp: q_def)
      then show ?thesis using I(11) by (simp add: prop_upto_def)
    qed
  qed
  moreover have "reasons_ok D' P t v" by (rule reasons_ok_change [OF I(4) ch F(2) _ I(3)]) (use hd in simp)
  ultimately show "vis_inv D' P Q t v' m keep rest"
    using I wok store_perm_ok [OF perm I(1)] clauses_ok_perm [OF I(5) perm I(2)]
    unfolding v'_def by (simp add: vis_inv_def)
  show "advance P D t v D' t v'" using perm by (simp add: advance_def v'_def)
qed

lemma visit_long_spec:
  assumes inv: "vis_inv D P Q t v m keep (w # rest)" and long: "\<not> watch_IsBinary w"
    and x: "val_of v (watch_Other w) \<noteq> 1"
  shows "returns (visit_long m (watch_C w) (watch_Other w) (val_of v (watch_Other w)) (D, t, v))
    (visit_post D P Q t v m keep w rest)"
proof -
  define q where "q = watch_C w"
  define u where "u = watch_Other w"
  note I = vis_invD [OF inv] and F = visit_facts [OF inv, folded q_def u_def]
  have len: "2 < length (lits D q)" using F(6,11) long by linarith
  have len': "2 \<le> length (lits D q)" "0 < length (lits D q)" "1 < length (lits D q)" using len by linarith+
  define k where "k = (if lits D q ! 0 = m then 0 else 1 :: nat)"
  define n where "n = lits D q ! (1 - k)"
  have k: "k < 2" "lits D q ! k = m" using F(3) by (auto simp: k_def watched_def)
  have kl: "1 - k < length (lits D q)" using len by simp
  have n: "n \<in> set (lits D q)" "in_range v n"
    using clauses_okD(3) [OF I(5) F(1)] nth_mem [OF kl] by (auto simp: n_def)
  have vrg: "\<forall>n \<in> set (lits D q). unat n < length (vs_Vals v)"
    using clauses_okD(3) [OF I(5) F(1)] in_range_vals [OF I(12)] by blast
  have un: "unat n < length (vs_Vals v)" using n vrg by blast
  note get = aget_first [OF I(1) F(2) len'(1)]
  have vn: "val_of v n \<in> {-1, 0, 1}" using vars_ok_vals(1) [OF I(12) un] .
  have rest: "j = k \<or> j = 1 - k \<or> 2 \<le> j" for j using k(1) by (auto simp: k_def)
  show ?thesis
  proof (cases "val_of v n = 1")
    case True
    then have nu: "n \<noteq> u" using x by (auto simp: u_def)
    have "n \<in> set (trail_lits t)" using trail_okD(7) [OF I(3) n(2)] True by simp
    then have "vis_inv D P Q t v m (keep @ [w]) rest"
      using visit_done [OF inv] n(1) by (simp add: q_def)
    moreover have "visit_long m q u (val_of v u) (D, t, v) = Some (VKeep, D, t, v)"
      using get nu True un
      by (cases "lits D q ! 0 = m")
         (simp_all add: visit_long_def n_def k_def val_of_def [symmetric] bind_eq_Some_conv)
    ultimately show ?thesis by (simp add: q_def u_def visit_post_def)
  next
    case False
    have hd: "hd (lits D q) \<notin> set (trail_lits t)"
    proof -
      have "hd (lits D q) = (if k = 0 then m else n)"
        using len' k by (auto simp: hd_conv_nth k_def n_def)
      moreover have "m \<notin> set (trail_lits t)" using trail_val [OF I(3,8)] I(14) by auto
      moreover have "n \<notin> set (trail_lits t)" using trail_okD(7) [OF I(3) n(2)] False by simp
      ultimately show ?thesis by auto
    qed
    let ?tail = "\<lambda>found. (case found of
        None \<Rightarrow>
          if val_of v n = 0
          then do { cdat \<leftarrow> (if lits D q ! 0 = m then swap_lits D q (q + 1) else Some D);
                    u \<leftarrow> aget cdat (unat q);
                    (t, vars) \<leftarrow> Assign u q (t, v);
                    Some (VKeep, cdat, t, vars) }
          else Some (VConflict, D, t, v)
      | Some p \<Rightarrow>
          do { n \<leftarrow> aget D (unat p);
               cdat \<leftarrow> aset D (unat (if lits D q ! 0 = m then q else q + 1)) n;
               cdat \<leftarrow> aset cdat (unat p) m;
               ws \<leftarrow> add_watch n (MakeWatch q m False) (vs_Watches v);
               Some (VDrop, cdat, t, v\<lparr>vs_Watches := ws\<rparr>) })"
    have run: "visit_long m q u (val_of v u) (D, t, v) = scan_clause D (vs_Vals v) (q + 2) \<bind> ?tail"
    proof -
      have "(if lits D q ! 0 = m then aget D (unat (q + 1)) else Some (lits D q ! 0)) = Some n"
        using get by (simp add: n_def k_def)
      moreover have "(if n \<noteq> u then aget (vs_Vals v) (unat n) else Some (val_of v u)) = Some (val_of v n)"
        using un by (simp add: val_of_def)
      ultimately show ?thesis
        using get(1) False unfolding visit_long_def prod.case by (simp del: aget_Some_iff)
    qed
    have two: "q + 2 = q + of_nat 2" by simp
    obtain found where sc: "scan_clause D (vs_Vals v) (q + 2) = Some found"
      and alt: "found = None \<and> (\<forall>j. 2 \<le> j \<and> j < length (lits D q) \<longrightarrow> val_of v (lits D q ! j) = -1)
        \<or> (\<exists>j. 2 \<le> j \<and> j < length (lits D q) \<and> found = Some (q + of_nat j) \<and> val_of v (lits D q ! j) \<noteq> -1)"
      using scan_clause_spec [OF I(1) F(2) vrg len'(1)] unfolding two val_of_def by (auto elim!: returnsE)
    have "returns (?tail found) (visit_post D P Q t v m keep w rest)"
      using alt
    proof (elim disjE conjE exE)
      assume none: "found = None" and all: "\<forall>j. 2 \<le> j \<and> j < length (lits D q) \<longrightarrow> val_of v (lits D q ! j) = -1"
      have false: "val_of v l = -1" if "l \<in> set (lits D q)" "l \<noteq> n" for l
        using that all k(2) I(14) rest by (metis in_set_conv_nth n_def)
      show ?thesis
      proof (cases "val_of v n = 0")
        case True
        have key: "returns (do { u \<leftarrow> aget D' (unat q); (t, vars) \<leftarrow> Assign u q (t, v);
              Some (VKeep, D', t, vars) }) (visit_post D P Q t v m keep w rest)"
          if inv': "vis_inv D' P Q t v m keep (w # rest)" and cl: "lits D' q = n # tl (lits D' q)"
            and st: "set (tl (lits D' q)) \<subseteq> set (lits D q) - {n}" and adv: "advance P D t v D' t v" for D'
        proof -
          have get': "aget D' (unat q) = Some n"
            using aget_first(1) [OF vis_invD(1) [OF inv'] F(2)] visit_facts(11) [OF inv'] cl
            by (metis nth_Cons_0 q_def)
          have ass: "returns (Assign n q (t, v)) (\<lambda>(t', v'). advance P D' t v D' t' v'
              \<and> tr_Head t' = tr_Head t \<and> vis_inv D' P Q t' v' m (keep @ [w]) rest)"
            unfolding q_def
            by (rule visit_unit [OF inv' cl [unfolded q_def]]) (use True false st in \<open>auto simp: q_def\<close>)
          obtain t' v' where *: "Assign n q (t, v) = Some (t', v')" "advance P D' t v D' t' v'"
            "tr_Head t' = tr_Head t" "vis_inv D' P Q t' v' m (keep @ [w]) rest"
            using ass by (auto simp: returns_def)
          show ?thesis
            unfolding get' using * advance_trans [OF adv *(2)] by (simp add: visit_post_def)
        qed
        show ?thesis
        proof (cases "lits D q ! 0 = m")
          case m0: True
          note FS = front_swap [OF inv, folded q_def, OF m0]
          have "swap_lits D q (q + 1) = Some (D[unat q := lits D q ! 1, unat (q + 1) := lits D q ! 0])"
            using get by (simp add: swap_lits_def bind_eq_Some_conv)
          moreover have "returns (do { u \<leftarrow> aget (D[unat q := lits D q ! 1, unat (q + 1) := lits D q ! 0]) (unat q);
              (t, vars) \<leftarrow> Assign u q (t, v);
              Some (VKeep, D[unat q := lits D q ! 1, unat (q + 1) := lits D q ! 0], t, vars) })
              (visit_post D P Q t v m keep w rest)"
          proof (rule key [OF FS(1) _ _ FS(3)])
            obtain a b xs where ab: "lits D q = a # b # xs"
              using len by (cases "lits D q" rule: list.exhaust; cases "tl (lits D q)") auto
            have nb: "n = b" by (simp add: n_def k_def m0 ab [symmetric]) (simp add: ab)
            show "lits (D[unat q := lits D q ! 1, unat (q + 1) := lits D q ! 0]) q
              = n # tl (lits (D[unat q := lits D q ! 1, unat (q + 1) := lits D q ! 0]) q)"
              unfolding FS(2) by (simp add: ab swap_def nb)
            have "distinct (lits D q)" using clauses_okD(2) [OF I(5) F(1)] by (simp add: distinct_map)
            then show "set (tl (lits (D[unat q := lits D q ! 1, unat (q + 1) := lits D q ! 0]) q))
                \<subseteq> set (lits D q) - {n}"
              unfolding FS(2) by (auto simp: ab swap_def nb)
          qed
          ultimately show ?thesis using True m0 none by simp
        next
          case m1: False
          have "lits D q = n # tl (lits D q)"
            using len m1 by (cases "lits D q") (simp_all add: n_def k_def)
          moreover have "distinct (lits D q)" using clauses_okD(2) [OF I(5) F(1)] by (simp add: distinct_map)
          ultimately have "set (tl (lits D q)) \<subseteq> set (lits D q) - {n}"
            by (metis Diff_insert_absorb distinct.simps(2) list.simps(15) subset_refl)
          then show ?thesis
            using key [OF inv \<open>lits D q = n # tl (lits D q)\<close>] True m1 none by simp
        qed
      next
        case False
        then have "\<forall>l \<in> set (lits D q). val_of v l = -1"
          using false vn \<open>val_of v n \<noteq> 1\<close> by (metis insertE singletonD)
        then show ?thesis using False none inv by (simp add: visit_post_def q_def)
      qed
    next
      fix j assume j: "2 \<le> j" "j < length (lits D q)" "found = Some (q + of_nat j)" "val_of v (lits D q ! j) \<noteq> -1"
      have nn: "lits D q ! j \<noteq> LitNull" using j(2) lits_nonnull [of D q] by (metis nth_mem)
      have getj: "aget D (unat (q + of_nat j)) = Some (lits D q ! j)"
        using aget_lits [OF I(1) F(2), of j] j by simp
      have kk: "(if lits D q ! 0 = m then q else q + 1) = q + of_nat k" by (simp add: k_def)
      have getk: "unat (q + of_nat k) < length D"
        using aget_lits [OF I(1) F(2), of k] k len by (auto split: if_splits)
      note M = visit_move [OF inv, folded q_def, OF k j(1,2,4) hd]
      have "?tail found = Some (VDrop, D[unat (q + of_nat k) := lits D q ! j, unat (q + of_nat j) := m], t,
          v\<lparr>vs_Watches := (vs_Watches v)[unat (lits D q ! j) :=
            vs_Watches v ! unat (lits D q ! j) @ [MakeWatch q m False]]\<rparr>)"
        unfolding j(3) option.case kk getj bind.bind_lunit
        using getk getj M(3) by (simp add: add_watch_def)
      then show ?thesis using M by (simp add: visit_post_def)
    qed
    then show ?thesis using run sc by (simp add: q_def u_def)
  qed
qed

lemma visit_watch_spec:
  assumes inv: "vis_inv D P Q t v m keep (w # rest)"
  shows "returns (visit_watch m w (D, t, v)) (visit_post D P Q t v m keep w rest)"
proof -
  note I = vis_invD [OF inv] and F = visit_facts [OF inv]
  have get: "aget (vs_Vals v) (unat (watch_Other w)) = Some (val_of v (watch_Other w))"
    using F(10) by (simp add: val_of_def)
  show ?thesis
  proof (cases "val_of v (watch_Other w) = 1")
    case True
    then have "watch_Other w \<in> set (trail_lits t)" using trail_okD(7) [OF I(3) F(8)] by simp
    from visit_done [OF inv F(4) this] show ?thesis
      using get True by (simp add: visit_watch_def visit_post_def)
  next
    case False
    then show ?thesis
      using visit_binary_spec [OF inv _ False] visit_long_spec [OF inv _ False]
      unfolding visit_watch_def prod.case Let_def get by simp
  qed
qed

section \<open>One literal\<close>

definition watches_post ::
    "u32 list \<Rightarrow> cloc set \<Rightarrow> cloc set \<Rightarrow> trail \<Rightarrow> vars \<Rightarrow> lit \<Rightarrow>
     cloc option \<times> watch list \<times> prop_state \<Rightarrow> bool" where
  "watches_post D P Q t v m x \<longleftrightarrow> (case x of (r, keep, D', t', v') \<Rightarrow>
     advance P D t v D' t' v' \<and> tr_Head t' = tr_Head t
     \<and> (case r of
          None \<Rightarrow> vis_inv D' P Q t' v' m keep []
        | Some q \<Rightarrow> q \<in> Q \<and> m \<in> set (lits D' q) \<and> (\<forall>n \<in> set (lits D' q). val_of v' n = -1)
            \<and> (\<exists>keep' rest. keep = keep' @ rest \<and> vis_inv D' P Q t' v' m keep' rest
                \<and> (\<forall>u \<in> set rest. watched D' (watch_C u) m))))"

lemma prop_watches_spec:
  "vis_inv D P Q t v m keep ws \<Longrightarrow>
   returns (prop_watches m ws keep (D, t, v)) (watches_post D P Q t v m)"
proof (induction ws arbitrary: keep D t v)
  case Nil
  then show ?case by (simp add: watches_post_def)
next
  case (Cons w ws)
  obtain r D' t' v' where run: "visit_watch m w (D, t, v) = Some (r, D', t', v')"
    and post: "visit_post D P Q t v m keep w ws (r, D', t', v')"
    using visit_watch_spec [OF Cons.prems] by (auto simp: returns_def)
  have adv: "advance P D t v D' t' v'" and hd: "tr_Head t' = tr_Head t"
    using post by (simp_all add: visit_post_def)
  have carry: "watches_post D P Q t v m x" if "watches_post D' P Q t' v' m x" for x
    using that advance_trans [OF adv] hd by (auto simp: watches_post_def split: option.splits; blast)
  show ?case
  proof (cases r)
    case VKeep
    then have "vis_inv D' P Q t' v' m (keep @ [w]) ws" using post by (simp add: visit_post_def)
    from Cons.IH [OF this] show ?thesis
      using run VKeep carry by (auto simp: returns_def)
  next
    case VDrop
    then have "vis_inv D' P Q t' v' m keep ws" using post by (simp add: visit_post_def)
    from Cons.IH [OF this] show ?thesis
      using run VDrop carry by (auto simp: returns_def)
  next
    case VConflict
    then have inv: "vis_inv D' P Q t' v' m keep (w # ws)" and false: "\<forall>n \<in> set (lits D' (watch_C w)). val_of v' n = -1"
      using post by (simp_all add: visit_post_def)
    have at: "unat m < length ((vs_Watches v')[unat m := keep @ w # ws])" using vis_invD(13) [OF inv] by simp
    have "\<forall>u \<in> set (w # ws). watched D' (watch_C u) m"
      using watch_okD(3) [OF vis_invD(7) [OF inv] at] vis_invD(13) [OF inv] by auto
    then have "\<exists>keep' rest. keep @ w # ws = keep' @ rest \<and> vis_inv D' P Q t' v' m keep' rest
        \<and> (\<forall>u \<in> set rest. watched D' (watch_C u) m)"
      using inv by blast
    then have "watches_post D P Q t v m (Some (watch_C w), keep @ w # ws, D', t', v')"
      using adv hd visit_facts(1,9) [OF inv] false unfolding watches_post_def by simp
    then show ?thesis using run VConflict by simp
  qed
qed

section \<open>The loop\<close>

text \<open>
  What Prop establishes: the invariant is kept, only implied literals are added to the trail at
  the current level, and either a false clause is reported or every clause is propagated.
\<close>

definition prop_post ::
    "u32 list \<Rightarrow> cloc set \<Rightarrow> cloc set \<Rightarrow> trail \<Rightarrow> vars \<Rightarrow> cloc \<times> prop_state \<Rightarrow> bool" where
  "prop_post D P Q t v r \<longleftrightarrow> (case r of (x, D', t', v') \<Rightarrow>
     search_ok D' P Q t' v' \<and> advance P D t v D' t' v' \<and> tr_Head t' = tr_Tail t'
     \<and> (if x = CNull then prop_upto D' Q t' v' (tr_Level t' + 1)
        else x \<in> Q \<and> (\<forall>n \<in> set (lits D' x). val_of v' n = -1)
          \<and> (\<exists>n \<in> set (lits D' x). lev v' n = tr_Level t') \<and> prop_upto D' Q t' v' (tr_Level t')))"

lemma set_Head_simps [simp]:
  "trail_lits (t\<lparr>tr_Head := h\<rparr>) = trail_lits t" "trail_lits (t\<lparr>tr_Props := k\<rparr>) = trail_lits t"
  "trail_lits (t\<lparr>tr_MaxTail := n\<rparr>) = trail_lits t"
  by (simp_all add: trail_lits_def)

lemma trail_ok_Head [simp]:
  "h \<le> tr_Tail t \<Longrightarrow> trail_ok t v \<Longrightarrow> trail_ok (t\<lparr>tr_Head := h\<rparr>) v"
  "trail_ok (t\<lparr>tr_Props := k\<rparr>) v \<longleftrightarrow> trail_ok t v"
  "trail_ok (t\<lparr>tr_MaxTail := n\<rparr>) v \<longleftrightarrow> trail_ok t v"
  by (simp_all add: trail_ok_def)

lemma reasons_ok_Head [simp]:
  "reasons_ok D P (t\<lparr>tr_Head := h\<rparr>) v \<longleftrightarrow> reasons_ok D P t v"
  "reasons_ok D P (t\<lparr>tr_Props := k\<rparr>) v \<longleftrightarrow> reasons_ok D P t v"
  "reasons_ok D P (t\<lparr>tr_MaxTail := n\<rparr>) v \<longleftrightarrow> reasons_ok D P t v"
  by (simp_all add: reasons_ok_def)

lemma advance_Head [simp]:
  "advance P D (t\<lparr>tr_Head := h\<rparr>) v D' t' v' \<longleftrightarrow> advance P D t v D' t' v'"
  "advance P D t v D' (t'\<lparr>tr_Head := h\<rparr>) v' \<longleftrightarrow> advance P D t v D' t' v'"
  "advance P D t v D' (t'\<lparr>tr_Props := k\<rparr>) v' \<longleftrightarrow> advance P D t v D' t' v'"
  "advance P D t v D' (t'\<lparr>tr_MaxTail := n\<rparr>) v' \<longleftrightarrow> advance P D t v D' t' v'"
  by (simp_all add: advance_def)

lemma advance_Watches:
  "advance P D t v D' t' v' \<Longrightarrow> length W = length (vs_Watches v') \<Longrightarrow>
   advance P D t v D' t' (v'\<lparr>vs_Watches := W\<rparr>)"
  by (simp add: advance_def)

lemma vis_inv_start:
  assumes ok: "search_ok D P Q t v" and W: "prop_upto D Q t v (tr_Level t + 1)" and h: "tr_Head t < tr_Tail t"
  defines "m \<equiv> lit_Not (trail_lits t ! tr_Head t)"
  shows "vis_inv D P Q (t\<lparr>tr_Head := tr_Head t + 1\<rparr>) v m [] (vs_Watches v ! unat m)"
proof -
  note okD = search_okD [OF ok]
  let ?h = "tr_Head t"
  have len: "length (trail_lits t) = tr_Tail t" using okD(3) by simp
  have mem: "trail_lits t ! ?h \<in> set (trail_lits t)" using h len by (metis nth_mem)
  have rg: "in_range v m" using trail_okD(6) [OF okD(3) mem] by (simp add: m_def)
  have tk: "take (?h + 1) (trail_lits t) = take ?h (trail_lits t) @ [lit_Not m]"
    using h len by (simp add: m_def take_Suc_conv_app_nth)
  have un: "unproc_ok (t\<lparr>tr_Head := ?h + 1\<rparr>) v" using okD(7) by (simp add: unproc_ok_def)
  have lv: "lev v m = tr_Level t" using okD(7) h by (simp add: unproc_ok_def m_def)
  have mW: "unat m < length (vs_Watches v)"
    using in_range_vals [OF okD(8) rg] vars_okD(4) [OF okD(8)] by simp
  have "prop_upto D (Q - watch_C ` set (vs_Watches v ! unat m)) (t\<lparr>tr_Head := ?h + 1\<rparr>) v (tr_Level t + 1)"
    unfolding prop_upto_def Let_def
  proof (intro ballI impI)
    fix p assume p: "p \<in> Q - watch_C ` set (vs_Watches v ! unat m)"
    let ?a = "lits D p ! 0" and ?b = "lits D p ! 1"
    have "\<not> watched D p m" using p watch_okD(5) [OF okD(6) mW, of p] by blast
    then have ne: "?a \<noteq> m" "?b \<noteq> m" by (auto simp: watched_def)
    assume ab: "lit_Not ?a \<in> set (take (tr_Head (t\<lparr>tr_Head := ?h + 1\<rparr>)) (trail_lits (t\<lparr>tr_Head := ?h + 1\<rparr>)))"
      "lit_Not ?b \<in> set (take (tr_Head (t\<lparr>tr_Head := ?h + 1\<rparr>)) (trail_lits (t\<lparr>tr_Head := ?h + 1\<rparr>)))"
      and l: "lev v ?a < tr_Level t + 1" "lev v ?b < tr_Level t + 1"
    have ab': "lit_Not ?a \<in> set (take ?h (trail_lits t))" "lit_Not ?b \<in> set (take ?h (trail_lits t))"
      using ab ne by (simp_all add: tk [simplified])
    show "\<exists>n\<in>set (lits D p). n \<in> set (trail_lits (t\<lparr>tr_Head := ?h + 1\<rparr>))
        \<and> (lev v n \<le> lev v ?a \<or> lev v n \<le> lev v ?b)"
      using W p ab' l unfolding prop_upto_def Let_def by simp
  qed
  moreover have "trail_ok (t\<lparr>tr_Head := ?h + 1\<rparr>) v" using okD(3) h by simp
  ultimately show ?thesis
    using okD rg un lv by (simp add: vis_inv_def tk [simplified])
qed

lemma vis_inv_end:
  assumes inv: "vis_inv D P Q t v m keep []"
  defines "v' \<equiv> v\<lparr>vs_Watches := (vs_Watches v)[unat m := keep]\<rparr>"
  shows "search_ok D P Q t v'" and "prop_upto D Q t v' (tr_Level t + 1)"
  using vis_invD [OF inv] by (simp_all add: v'_def search_ok_def)

lemma vis_inv_conflict:
  assumes inv: "vis_inv D P Q t v m keep rest" and rest: "\<forall>u \<in> set rest. watched D (watch_C u) m"
  defines "v' \<equiv> v\<lparr>vs_Watches := (vs_Watches v)[unat m := keep @ rest]\<rparr>"
  defines "t' \<equiv> t\<lparr>tr_Head := tr_Tail t\<rparr>"
  shows "search_ok D P Q t' v'" and "prop_upto D Q t' v' (tr_Level t)"
proof -
  note I = vis_invD [OF inv]
  have "unproc_ok t' v" by (simp add: unproc_ok_def t'_def)
  then show "search_ok D P Q t' v'" using I by (simp add: v'_def t'_def search_ok_def)
  have len: "length (trail_lits t) = tr_Tail t" using I(3) by simp
  have early: "n \<in> set (take (tr_Head t) (trail_lits t))"
    if n: "n \<in> set (trail_lits t)" "lev v n < tr_Level t" for n
  proof -
    obtain i where i: "i < tr_Tail t" "n = trail_lits t ! i" using n(1) len by (metis in_set_conv_nth)
    have "i < tr_Head t" using I(6) i n(2) unfolding unproc_ok_def by (metis leI order_less_irrefl)
    then show ?thesis unfolding i(2) using i(1) len by (intro nth_in_take) simp_all
  qed
  have "prop_upto D Q t' v (tr_Level t)"
    unfolding prop_upto_def Let_def
  proof (intro ballI impI)
    fix p assume p: "p \<in> Q"
    let ?a = "lits D p ! 0" and ?b = "lits D p ! 1"
    assume ab: "lit_Not ?a \<in> set (take (tr_Head t') (trail_lits t'))" "lit_Not ?b \<in> set (take (tr_Head t') (trail_lits t'))"
      and l: "lev v ?a < tr_Level t" "lev v ?b < tr_Level t"
    have tl: "trail_lits t' = trail_lits t" by (simp add: t'_def)
    have "lit_Not ?a \<in> set (take (tr_Head t) (trail_lits t))" "lit_Not ?b \<in> set (take (tr_Head t) (trail_lits t))"
      using early [of "lit_Not ?a"] early [of "lit_Not ?b"] ab l unfolding tl by (auto dest: in_set_takeD)
    moreover have "p \<notin> watch_C ` set rest"
      using rest l I(10) unfolding watched_def by fastforce
    ultimately show "\<exists>n\<in>set (lits D p). n \<in> set (trail_lits t') \<and> (lev v n \<le> lev v ?a \<or> lev v n \<le> lev v ?b)"
      using I(11) p l unfolding prop_upto_def Let_def tl by fastforce
  qed
  then show "prop_upto D Q t' v' (tr_Level t)" by (simp add: v'_def)
qed

lemma prop_loop_spec:
  assumes "search_ok D P Q t v" and "prop_upto D Q t v (tr_Level t + 1)"
  shows "returns (prop_loop h0 (D, t, v)) (prop_post D P Q t v)"
  using assms
proof (induction "unat (vs_Top v) - tr_Head t" arbitrary: D t v rule: less_induct)
  case less
  note okD = search_okD [OF less.prems(1)]
  show ?case
  proof (cases "tr_Head t < tr_Tail t")
    case False
    then have eq: "tr_Head t = tr_Tail t" using trail_okD(2) [OF okD(3)] by simp
    have frame: "search_ok D P Q (t\<lparr>tr_Props := k\<rparr>) v \<longleftrightarrow> search_ok D P Q t v"
      "search_ok D P Q (t\<lparr>tr_MaxTail := n\<rparr>) v \<longleftrightarrow> search_ok D P Q t v"
      "prop_upto D Q (t\<lparr>tr_Props := k\<rparr>) v L \<longleftrightarrow> prop_upto D Q t v L"
      "prop_upto D Q (t\<lparr>tr_MaxTail := n\<rparr>) v L \<longleftrightarrow> prop_upto D Q t v L" for k n t L
      by (simp_all add: search_ok_def unproc_ok_def prop_upto_def)
    show ?thesis
      by (subst prop_loop.simps) (use less.prems eq in \<open>simp add: prop_post_def frame Let_def\<close>)
  next
    case True
    let ?t1 = "t\<lparr>tr_Head := tr_Head t + 1\<rparr>"
    define m where "m = lit_Not (trail_lits t ! tr_Head t)"
    have inv: "vis_inv D P Q ?t1 v m [] (vs_Watches v ! unat m)"
      unfolding m_def by (rule vis_inv_start [OF less.prems True])
    have mW: "unat m < length (vs_Watches v)" using vis_invD(13) [OF inv] .
    have d: "aget (tr_D t) (tr_Head t) = Some (trail_lits t ! tr_Head t)"
      using True trail_okD(3) [OF okD(3)] by (simp add: trail_nth)
    have md: "lit_Not (tr_D t ! tr_Head t) = m" using True by (simp add: m_def trail_nth)
    obtain x keep D' t' v' where run: "prop_watches m (vs_Watches v ! unat m) [] (D, ?t1, v) = Some (x, keep, D', t', v')"
      and post: "watches_post D P Q ?t1 v m (x, keep, D', t', v')"
      using prop_watches_spec [OF inv] by (auto simp: returns_def)
    have adv: "advance P D t v D' t' v'" and hd: "tr_Head t' = tr_Head t + 1"
      using post by (simp_all add: watches_post_def)
    have mW': "unat m < length (vs_Watches v')" using mW advanceD(6) [OF adv] by simp
    let ?v = "v'\<lparr>vs_Watches := (vs_Watches v')[unat m := keep]\<rparr>"
    have adv': "advance P D t v D' t' ?v" by (rule advance_Watches [OF adv]) simp
    have step: "prop_loop h0 (D, t, v) = (case x of
        Some q \<Rightarrow> Some (q, D', t'\<lparr>tr_Head := tr_Tail t', tr_Props := tr_Props t' + (int (tr_Tail t') - int h0)\<rparr>, ?v)
      | None \<Rightarrow> prop_loop h0 (D', t', ?v))"
      by (subst prop_loop.simps)
         (use True d mW mW' run in \<open>simp add: md Let_def split: option.split\<close>)
    show ?thesis
    proof (cases x)
      case None
      then have inv': "vis_inv D' P Q t' v' m keep []" using post by (simp add: watches_post_def)
      note E = vis_inv_end [OF inv']
      have top: "vs_Top v' = vs_Top v" using advanceD(4) [OF adv] .
      have "unat (vs_Top ?v) - tr_Head t' < unat (vs_Top v) - tr_Head t"
        using True trail_length_less [OF okD(3)] hd top by simp
      from less.hyps [OF this E] show ?thesis
        unfolding step None option.case
        by (rule returns_mono) (use advance_trans [OF adv'] in \<open>auto simp: prop_post_def\<close>)
    next
      case (Some q)
      then obtain keep' rest where q: "q \<in> Q" "\<forall>n \<in> set (lits D' q). val_of v' n = -1"
        and keep: "keep = keep' @ rest" and inv': "vis_inv D' P Q t' v' m keep' rest"
        and rest: "\<forall>u \<in> set rest. watched D' (watch_C u) m"
        and wm: "m \<in> set (lits D' q)"
        using post by (auto simp: watches_post_def)
      note C = vis_inv_conflict [OF inv' rest, folded keep]
      have q0: "q \<noteq> CNull" using loc_not_null [OF vis_invD(1) [OF inv']] vis_invD(2) [OF inv'] q(1) by blast
      have "lev ?v m = tr_Level t'" using vis_invD(10) [OF inv'] by simp
      then have ex: "\<exists>n \<in> set (lits D' q). lev ?v n = tr_Level t'" using wm by blast
      show ?thesis
        unfolding step Some option.case using C q q0 ex adv'
        by (simp add: prop_post_def search_ok_def unproc_ok_def prop_upto_def)
    qed
  qed
qed

end
