(* ===== verification/Database.thy ===== *)
theory Database
  imports Propagation
begin

text \<open>
  The clause database as the search sees it: a represented store gives the disjoint clauses the
  invariant of the search speaks of, permuting literals and bumping clauses keeps the
  representation, and learning a clause extends the database by it and attaches its watches.
\<close>

section \<open>Clauses and locations\<close>

lemma locs_decomp:
  assumes "p \<in> locs cls"
  obtains pre cl post where "cls = pre @ cl # post" and "p = of_nat (loc_at pre)"
proof -
  obtain i where i: "i < length cls" "p = of_nat (loc_at (take i cls))"
    using assms by (auto simp: locs_def)
  show thesis
    by (rule that [of "take i cls" "cls ! i" "drop (Suc i) cls"]) (simp_all add: i id_take_nth_drop [OF i(1), symmetric])
qed

lemma locs_at: "of_nat (loc_at pre) \<in> locs (pre @ cl # post)"
  unfolding locs_def by (intro CollectI exI [of _ "length pre"]) simp

lemma locs_snoc: "locs (cls @ [cl]) = insert (of_nat (loc_at cls)) (locs cls)"
proof (intro set_eqI iffI)
  fix p assume "p \<in> locs (cls @ [cl])"
  then obtain i where "i < Suc (length cls)" "p = of_nat (loc_at (take i (cls @ [cl])))"
    by (auto simp: locs_def)
  then show "p \<in> insert (of_nat (loc_at cls)) (locs cls)"
    by (cases "i = length cls") (auto simp: locs_def)
next
  fix p assume "p \<in> insert (of_nat (loc_at cls)) (locs cls)"
  then consider "p = of_nat (loc_at cls)" | i where "i < length cls" "p = of_nat (loc_at (take i cls))"
    by (auto simp: locs_def)
  then show "p \<in> locs (cls @ [cl])"
  proof cases
    case 1
    then show ?thesis using locs_at [of cls cl "[]"] by simp
  next
    case (2 i)
    then show ?thesis unfolding locs_def by (intro CollectI exI [of _ i]) simp
  qed
qed

lemma loc_at_unat:
  assumes "cdat_rep (pre @ cl # post) c"
  shows "unat (of_nat (loc_at pre) :: u32) = loc_at pre"
  using loc_at_bound [OF assms] cdat_repD(3,4) [OF assms] by simp

lemma rep_lits:
  assumes rep: "cdat_rep (pre @ cl # post) c"
  shows "lits (cd_D c) (of_nat (loc_at pre)) = snd cl"
    and "cl_end (cd_D c) (of_nat (loc_at pre)) = loc_at pre + length (snd cl)"
proof -
  have at: "enc_at (cd_D c) (length (encs pre)) cl" by (rule rep_enc_at [OF rep])
  note un = loc_at_unat [OF rep] and N = enc_at_nth [OF at]
  define p where "p = (of_nat (loc_at pre) :: u32)"
  have la: "unat p = length (encs pre) + 1" unfolding p_def un by (simp add: loc_at_def)
  have ok: "clause_ok cl" by (rule cdat_repD(6) [OF rep]) simp
  have "lits (cd_D c) p = snd cl"
    by (rule lits_eqI) (use N ok in \<open>simp_all add: la clause_ok_def\<close>)
  then show eq: "lits (cd_D c) (of_nat (loc_at pre)) = snd cl" by (simp only: p_def)
  show "cl_end (cd_D c) (of_nat (loc_at pre)) = loc_at pre + length (snd cl)"
    unfolding cl_end_def eq un ..
qed

lemma loc_at_append: "loc_at (xs @ ys) = loc_at xs + length (encs ys)"
  by (simp add: loc_at_def)

lemma rep_store_ok:
  assumes rep: "cdat_rep cls c"
  shows "store_ok (cd_D c) (locs cls)"
proof -
  have one: "0 < unat p \<and> cl_end (cd_D c) p < length (cd_D c)" if p: "p \<in> locs cls" for p
  proof -
    obtain pre cl post where d: "cls = pre @ cl # post" "p = of_nat (loc_at pre)"
      using p by (rule locs_decomp)
    note rep' = rep [unfolded d(1)]
    have "0 < loc_at pre" by (simp add: loc_at_def)
    then show ?thesis
      using loc_at_bound [OF rep'] cdat_repD(3) [OF rep'] unfolding d(2) rep_lits(2) [OF rep'] loc_at_unat [OF rep']
      by simp
  qed
  have two: "cl_end (cd_D c) (of_nat (loc_at (take i cls))) < unat (of_nat (loc_at (take j cls)) :: u32)"
    if ij: "i < j" "j < length cls" for i j
  proof -
    have "i < length cls" using ij by simp
    then have ri: "cdat_rep (take i cls @ cls ! i # drop (Suc i) cls) c"
      and rj: "cdat_rep (take j cls @ cls ! j # drop (Suc j) cls) c"
      using rep ij(2) by (simp_all only: id_take_nth_drop [symmetric])
    define ys where "ys = drop (Suc i) (take j cls)"
    have "take j cls = take i cls @ cls ! i # ys"
      using ij id_take_nth_drop [of i "take j cls"] by (simp add: ys_def min_def)
    then have "loc_at (take i cls) + length (snd (cls ! i)) < loc_at (take j cls)"
      by (simp add: loc_at_append)
    then show ?thesis unfolding rep_lits(2) [OF ri] loc_at_unat [OF rj] .
  qed
  have "cl_end (cd_D c) p < unat q \<or> cl_end (cd_D c) q < unat p"
    if pq: "p \<in> locs cls" "q \<in> locs cls" "p \<noteq> q" for p q
  proof -
    obtain i j where "i < length cls" "j < length cls" "p = of_nat (loc_at (take i cls))"
      "q = of_nat (loc_at (take j cls))"
      using pq by (auto simp: locs_def)
    then show ?thesis using two [of i j] two [of j i] pq(3) by (cases i j rule: linorder_cases) auto
  qed
  then show ?thesis using one cdat_repD(4) [OF rep] by (auto simp: store_ok_def)
qed

text \<open>The locations depend on the lengths of the clauses only.\<close>

lemma locs_cong:
  assumes "map (length \<circ> snd) cls' = map (length \<circ> snd) cls"
  shows "locs cls' = locs cls"
proof -
  have len: "length cls' = length cls" using assms by (metis length_map)
  have "length (encs xs) = sum_list (map (\<lambda>n. n + 2) (map (length \<circ> snd) xs))" for xs :: "clause list"
    by (induction xs) simp_all
  then have "loc_at (take i cls') = loc_at (take i cls)" for i
    using assms by (simp add: loc_at_def take_map [symmetric] del: map_map)
  then show ?thesis by (simp add: locs_def len)
qed

lemma rep_nth:
  assumes "cdat_rep cls c" and "i < length cls"
  shows "cdat_rep (take i cls @ cls ! i # drop (Suc i) cls) c"
  using assms by (simp only: id_take_nth_drop [symmetric])

lemma loc_at_step:
  assumes "i < j" and "j \<le> length cls"
  shows "loc_at (take i cls) + length (snd (cls ! i)) + 2 \<le> loc_at (take j cls)"
proof -
  have "take j cls = take i cls @ cls ! i # drop (Suc i) (take j cls)"
    using assms id_take_nth_drop [of i "take j cls"] by (simp add: min_def)
  then have "loc_at (take j cls) = loc_at (take i cls) + length (encs (cls ! i # drop (Suc i) (take j cls)))"
    by (metis loc_at_append)
  then show ?thesis by simp
qed

lemma encs_of_enc_at:
  "(\<And>i. i < length cls \<Longrightarrow> enc_at D (length (encs (take i cls))) (cls ! i)) \<Longrightarrow>
   take (length (encs cls)) D = encs cls"
proof (induction cls rule: rev_induct)
  case Nil
  then show ?case by (simp add: encs_def)
next
  case (snoc cl cls)
  have "enc_at D (length (encs (take i cls))) (cls ! i)" if "i < length cls" for i
    using snoc.prems [of i] that by (simp add: nth_append)
  then have "take (length (encs cls)) D = encs cls" by (rule snoc.IH)
  moreover have "take (length (enc cl)) (drop (length (encs cls)) D) = enc cl"
    using snoc.prems [of "length cls"] by (simp add: enc_at_def)
  ultimately show ?case by (simp add: take_add del: length_enc)
qed

text \<open>A store whose clauses were permuted represents the permuted clauses.\<close>

lemma perm_rep:
  assumes rep: "cdat_rep cls c" and perm: "store_perm (locs cls) (cd_D c) D'"
  obtains cls' where "cdat_rep cls' (c\<lparr>cd_D := D'\<rparr>)" and "map fst cls' = map fst cls"
    and "map (length \<circ> snd) cls' = map (length \<circ> snd) cls" and "locs cls' = locs cls"
proof -
  define at where "at i = (of_nat (loc_at (take i cls)) :: u32)" for i
  define cls' where "cls' = map (\<lambda>i. (fst (cls ! i), lits D' (at i))) [0..<length cls]"
  have mem: "at i \<in> locs cls" if "i < length cls" for i
    using that by (auto simp: locs_def at_def)
  have un: "unat (at i) = length (encs (take i cls)) + 1" if "i < length cls" for i
    unfolding at_def loc_at_unat [OF rep_nth [OF rep that]] by (simp add: loc_at_def)
  have old: "lits (cd_D c) (at i) = snd (cls ! i)" if "i < length cls" for i
    unfolding at_def using rep_lits(1) [OF rep_nth [OF rep that]] .
  have len: "length (lits D' (at i)) = length (snd (cls ! i))" if "i < length cls" for i
    using store_perm_lits(2) [OF perm mem [OF that]] old [OF that] by simp
  have lens: "map (length \<circ> snd) cls' = map (length \<circ> snd) cls"
    by (rule nth_equalityI) (simp_all add: cls'_def len)
  have "length (encs xs) = sum_list (map (\<lambda>n. n + 2) (map (length \<circ> snd) xs))" for xs :: "clause list"
    by (induction xs) simp_all
  then have el: "length (encs (take i cls')) = length (encs (take i cls))" for i
    using lens by (simp add: take_map [symmetric] del: map_map)
  have el': "length (encs cls') = length (encs cls)" using el [of "length cls"] by (simp add: cls'_def)
  have hdr: "D' ! length (encs (take i cls)) = fst (cls ! i)" if i: "i < length cls" for i
  proof -
    let ?n = "length (encs (take i cls))"
    note N = enc_at_nth [OF rep_enc_at [OF rep_nth [OF rep i]]]
    have nin: "\<not> (unat p \<le> ?n \<and> ?n < cl_end (cd_D c) p)" if p: "p \<in> locs cls" for p
    proof -
      obtain j where j: "j < length cls" "p = at j" using p by (auto simp: locs_def at_def)
      have e: "cl_end (cd_D c) p = length (encs (take j cls)) + 1 + length (snd (cls ! j))"
        unfolding cl_end_def j(2) un [OF j(1)] old [OF j(1)] by simp
      consider "j < i" | "i \<le> j" by linarith
      then show ?thesis
      proof cases
        case 1
        then show ?thesis using loc_at_step [OF 1, of cls] i unfolding e by (simp add: loc_at_def)
      next
        case 2
        have "length (encs (take i cls)) \<le> length (encs (take j cls))"
          using loc_at_step [of i j cls] 2 j(1) by (cases "i = j") (auto simp: loc_at_def)
        then show ?thesis unfolding j(2) un [OF j(1)] by simp
      qed
    qed
    have "?n < length (cd_D c)" using N(4) by simp
    then have "D' ! ?n = cd_D c ! ?n" using perm nin by (auto simp: store_perm_def)
    then show ?thesis using N(1) by simp
  qed
  have lenD: "length D' = length (cd_D c)" using perm by (simp add: store_perm_def)
  have encat: "enc_at D' (length (encs (take i cls'))) (cls' ! i)" if i': "i < length cls'" for i
  proof -
    have i: "i < length cls" using i' by (simp add: cls'_def)
    let ?n = "length (encs (take i cls))"
    have fit: "cl_end D' (at i) < length D'"
      using store_okD(3) [OF store_perm_ok [OF perm rep_store_ok [OF rep]] mem [OF i]] .
    note L = lits_nth [OF fit]
    have ce: "cl_end D' (at i) = ?n + 1 + length (snd (cls ! i))"
      by (simp add: cl_end_def un [OF i] len [OF i])
    have at': "cls' ! i = (fst (cls ! i), lits D' (at i))" using i by (simp add: cls'_def)
    have "take (length (snd (cls ! i)) + 2) (drop ?n D') = fst (cls ! i) # lits D' (at i) @ [LitNull]"
    proof (rule nth_equalityI)
      show "length (take (length (snd (cls ! i)) + 2) (drop ?n D')) = length (fst (cls ! i) # lits D' (at i) @ [LitNull])"
        using fit by (simp add: ce len [OF i])
      fix k assume "k < length (take (length (snd (cls ! i)) + 2) (drop ?n D'))"
      then have k: "k < length (snd (cls ! i)) + 2" "?n + k < length D'" by auto
      show "take (length (snd (cls ! i)) + 2) (drop ?n D') ! k = (fst (cls ! i) # lits D' (at i) @ [LitNull]) ! k"
        using k hdr [OF i] L(1) [of "k - 1"] L(2) len [OF i] un [OF i] ce
        by (cases k) (auto simp: nth_append less_Suc_eq)
    qed
    then show ?thesis
      using fit by (simp add: enc_at_def at' el ce len [OF i])
  qed
  have clok: "\<forall>cl \<in> set cls'. clause_ok cl"
  proof
    fix cl assume "cl \<in> set cls'"
    then obtain i where i: "i < length cls" "cl = (fst (cls ! i), lits D' (at i))" by (auto simp: cls'_def)
    have "clause_ok (cls ! i)" using cdat_repD(6) [OF rep] i(1) by simp
    then show "clause_ok cl" using lits_nonnull by (simp add: i(2) clause_ok_def len [OF i(1)])
  qed
  have "take (length (encs cls')) D' = encs cls'" by (rule encs_of_enc_at [OF encat])
  then have "cdat_rep cls' (c\<lparr>cd_D := D'\<rparr>)"
    using rep clok el' lenD cdat_repD(1) [OF rep] unfolding cdat_rep_def by (auto simp: cls'_def)
  moreover have "map fst cls' = map fst cls" by (rule nth_equalityI) (simp_all add: cls'_def)
  ultimately show thesis using that lens locs_cong [OF lens] by blast
qed

section \<open>Bumping\<close>

definition db_ok :: "clause list \<Rightarrow> cdb \<Rightarrow> bool" where
  "db_ok cls c \<longleftrightarrow> cdat_rep cls (cb_CDat c) \<and> set (cb_Added c) \<subseteq> locs cls \<and> set (cb_Learnts c) \<subseteq> locs cls"

text \<open>Two databases with the same clauses in the same places: headers may differ.\<close>

definition same_lits :: "clause list \<Rightarrow> clause list \<Rightarrow> bool" where
  "same_lits cls cls' \<longleftrightarrow> map snd cls' = map snd cls"

lemma same_lits_refl [simp]: "same_lits cls cls"
  by (simp add: same_lits_def)

lemma same_lits_trans: "same_lits a b \<Longrightarrow> same_lits b c \<Longrightarrow> same_lits a c"
  by (simp add: same_lits_def)

lemma same_lits_locs:
  assumes "same_lits cls cls'"
  shows "locs cls' = locs cls"
proof (rule locs_cong)
  have "map (length \<circ> snd) cls' = map length (map snd cls')" by simp
  also have "\<dots> = map (length \<circ> snd) cls" using assms by (simp add: same_lits_def)
  finally show "map (length \<circ> snd) cls' = map (length \<circ> snd) cls" .
qed

lemma same_lits_lits:
  assumes same: "same_lits cls cls'" and "cdat_rep cls c" and "cdat_rep cls' c'" and "p \<in> locs cls"
  shows "lits (cd_D c') p = lits (cd_D c) p"
proof -
  obtain i where i: "i < length cls" "p = of_nat (loc_at (take i cls))"
    using assms(4) by (auto simp: locs_def)
  have "length (map snd cls') = length (map snd cls)" using same by (simp only: same_lits_def)
  then have len: "length cls' = length cls" by simp
  have at: "length (encs xs) = length (encs ys)" if "map snd xs = map snd ys" for xs ys :: "clause list"
  proof -
    have "length (encs zs) = sum_list (map (\<lambda>ms. length ms + 2) (map snd zs))" for zs :: "clause list"
      by (induction zs) simp_all
    then show ?thesis using that by (simp only:)
  qed
  have "loc_at (take i cls') = loc_at (take i cls)"
    using at [of "take i cls'" "take i cls"] same by (simp add: loc_at_def same_lits_def take_map [symmetric])
  moreover have "snd (cls' ! i) = snd (cls ! i)"
  proof -
    have "map snd cls' ! i = map snd cls ! i" using same by (simp only: same_lits_def)
    then show ?thesis using i(1) len by simp
  qed
  moreover have "lits (cd_D c') (of_nat (loc_at (take i cls'))) = snd (cls' ! i)"
    using i(1) len by (intro rep_lits(1) [OF rep_nth [OF assms(3)]]) simp
  moreover have "lits (cd_D c) (of_nat (loc_at (take i cls))) = snd (cls ! i)"
    by (rule rep_lits(1) [OF rep_nth [OF assms(2) i(1)]])
  ultimately show ?thesis unfolding i(2) by (simp only:)
qed

lemma same_lits_update:
  assumes "cls = pre @ (h, ms) # post"
  shows "same_lits cls (pre @ (h', ms) # post)"
  by (simp add: same_lits_def assms)

lemma Bump_rep:
  assumes rep: "cdat_rep cls c" and p: "p \<in> locs cls"
  shows "returns (CDat_Bump p c) (\<lambda>(d, c'). \<exists>cls'. cdat_rep cls' c' \<and> same_lits cls cls'
     \<and> cd_bumpInc c' = cd_bumpInc c)"
proof -
  obtain pre cl post where d: "cls = pre @ cl # post" "p = of_nat (loc_at pre)" using p by (rule locs_decomp)
  obtain h ms where cl: "cl = (h, ms)" by (cases cl)
  show ?thesis
    unfolding d(2)
    by (rule returns_mono [OF CDat_Bump_rep [OF rep [unfolded d(1) cl]]])
       (use same_lits_update [OF d(1) [unfolded cl]] in blast)
qed

lemma decay_at_rep:
  assumes rep: "cdat_rep cls c" and p: "p \<in> locs cls"
  shows "returns (decay_at p c) (\<lambda>c'. \<exists>cls'. cdat_rep cls' c' \<and> same_lits cls cls')"
proof -
  obtain pre cl post where d: "cls = pre @ cl # post" "p = of_nat (loc_at pre)" using p by (rule locs_decomp)
  obtain h ms where cl: "cl = (h, ms)" by (cases cl)
  note rep' = rep [unfolded d(1) cl]
  have sz: "chd_Size (chd_Decay h) = chd_Size h"
    by (simp add: chd_Decay_def Let_def with_heat_def [symmetric])
  have "decay_at p c = do { h \<leftarrow> CDat_Chd p c; CDat_SetChd p (chd_Decay h) c }"
    by (simp add: decay_at_def CDat_Chd_def CDat_SetChd_def)
  also have "\<dots> = CDat_SetChd p (chd_Decay h) c"
    using CDat_Chd_rep [OF rep'] by (simp add: d(2))
  finally show ?thesis
    unfolding d(2)
    by (simp, intro returns_mono [OF CDat_SetChd_rep [OF rep' sz]])
       (use same_lits_update [OF d(1) [unfolded cl]] in blast)
qed

lemma decays_rep:
  assumes "cdat_rep cls c" and "set ps \<subseteq> locs cls"
  shows "returns (foldM decay_at ps c) (\<lambda>c'. \<exists>cls'. cdat_rep cls' c' \<and> same_lits cls cls')"
proof (rule returns_foldM)
  show "\<exists>cls'. cdat_rep cls' c \<and> same_lits cls cls'" using assms(1) by (intro exI [of _ cls]) simp
  fix p c1 assume p: "p \<in> set ps" and "\<exists>cls'. cdat_rep cls' c1 \<and> same_lits cls cls'"
  then obtain cls1 where c1: "cdat_rep cls1 c1" "same_lits cls cls1" by blast
  then have "p \<in> locs cls1" using p assms(2) same_lits_locs [OF c1(2)] by auto
  from decay_at_rep [OF c1(1) this] show "returns (decay_at p c1) (\<lambda>c'. \<exists>cls'. cdat_rep cls' c' \<and> same_lits cls cls')"
    by (rule returns_mono) (use same_lits_trans [OF c1(2)] in blast)
qed

lemma rep_bumpInc [simp]: "cdat_rep cls (c\<lparr>cd_bumpInc := n\<rparr>) \<longleftrightarrow> cdat_rep cls c"
  by (simp add: cdat_rep_def)

lemma Cdb_Bump_ok:
  assumes ok: "db_ok cls c" and p: "p \<in> locs cls"
  shows "returns (Cdb_Bump p c) (\<lambda>c'. \<exists>cls'. db_ok cls' c' \<and> same_lits cls cls'
     \<and> c' = c\<lparr>cb_CDat := cb_CDat c'\<rparr>)"
proof -
  have rep: "cdat_rep cls (cb_CDat c)" and sub: "set (cb_Added c) \<subseteq> locs cls" "set (cb_Learnts c) \<subseteq> locs cls"
    using ok by (simp_all add: db_ok_def)
  obtain decay d cls1 where b: "CDat_Bump p (cb_CDat c) = Some (decay, d)" "cdat_rep cls1 d" "same_lits cls cls1"
    using Bump_rep [OF rep p] by (auto simp: returns_def)
  have l1: "locs cls1 = locs cls" by (rule same_lits_locs [OF b(3)])
  show ?thesis
  proof (cases decay)
    case False
    then show ?thesis using b l1 sub by (auto simp: Cdb_Bump_def db_ok_def)
  next
    case True
    obtain d2 cls2 where d2: "foldM decay_at (cb_Added c) d = Some d2" "cdat_rep cls2 d2" "same_lits cls1 cls2"
      using decays_rep [OF b(2), of "cb_Added c"] sub l1 by (auto simp: returns_def)
    have l2: "locs cls2 = locs cls" using same_lits_locs [OF d2(3)] l1 by simp
    obtain d3 cls3 where d3: "foldM decay_at (cb_Learnts c) d2 = Some d3" "cdat_rep cls3 d3" "same_lits cls2 cls3"
      using decays_rep [OF d2(2), of "cb_Learnts c"] sub l2 by (auto simp: returns_def)
    have l3: "locs cls3 = locs cls" using same_lits_locs [OF d3(3)] l2 by simp
    have "same_lits cls cls3" using b(3) d2(3) d3(3) same_lits_trans by blast
    then show ?thesis
      using b(1) d2(1) d3(1,2) True l3 sub by (auto simp: Cdb_Bump_def db_ok_def Let_def intro!: exI [of _ cls3])
  qed
qed

section \<open>Attaching a clause\<close>

lemma watch_pair_spec:
  assumes W: "watch_ok D Q (vs_Watches v)" and cl: "lits D p = a # b # ms" and p: "p \<notin> Q"
    and ds: "distinct (lits D p)" and rng: "unat a < length (vs_Watches v)" "unat b < length (vs_Watches v)"
    and len: "length (vs_Watches v) \<le> 2147483648"
  shows "returns (watch_pair p a b (ms = []) v) (\<lambda>v'. watch_ok D (insert p Q) (vs_Watches v')
     \<and> length (vs_Watches v') = length (vs_Watches v) \<and> v' = v\<lparr>vs_Watches := vs_Watches v'\<rparr>)"
proof -
  let ?W = "vs_Watches v"
  let ?wa = "MakeWatch p b (ms = [])" and ?wb = "MakeWatch p a (ms = [])"
  have ab: "a \<noteq> b" using ds cl by auto
  have idx: "unat x = unat y \<longleftrightarrow> x = y" for x y :: lit by (simp add: word_eq_iff_unat)
  let ?W1 = "?W[unat a := ?W ! unat a @ [?wa]]"
  let ?W2 = "?W1[unat b := ?W ! unat b @ [?wb]]"
  have run: "watch_pair p a b (ms = []) v = Some (v\<lparr>vs_Watches := ?W2\<rparr>)"
    using rng ab idx [of a b] by (simp add: watch_pair_def add_watch_def bind_eq_Some_conv)
  have C: "watch_C ?wa = p" "watch_C ?wb = p" "watch_Other ?wa = b" "watch_Other ?wb = a"
    "watch_IsBinary ?wa \<longleftrightarrow> ms = []" "watch_IsBinary ?wb \<longleftrightarrow> ms = []"
    using rng len by (simp_all add: C_MakeWatch Other_MakeWatch IsBinary_MakeWatch)
  have at: "?W2 ! unat x = ?W ! unat x @ (if x = a then [?wa] else if x = b then [?wb] else [])"
    if "unat x < length ?W" for x
    using that rng ab idx [of x a] idx [of x b] idx [of a b] by (auto simp: nth_list_update)
  have wd: "watched D p x \<longleftrightarrow> x = a \<or> x = b" for x by (auto simp: watched_def cl)
  have "watch_ok D (insert p Q) ?W2"
    unfolding watch_ok_def
  proof (intro allI impI)
    fix x :: lit assume "unat x < length ?W2"
    then have x: "unat x < length ?W" by simp
    note O = watch_okD [OF W x]
    have "p \<notin> watch_C ` set (?W ! unat x)" using O(6) p by auto
    then show "distinct (map watch_C (?W2 ! unat x)) \<and> watch_C ` set (?W2 ! unat x) = {q \<in> insert p Q. watched D q x}
        \<and> (\<forall>u \<in> set (?W2 ! unat x). good_watch D x u)"
      using O ab unfolding at [OF x] by (auto simp: C wd good_watch_def cl)
  qed
  then show ?thesis by (simp add: run)
qed

section \<open>Learning a clause\<close>

lemma search_ok_mono:
  assumes ok: "search_ok D P Q t v" and st: "store_ok D' P'" and sub: "P \<subseteq> P'"
    and same: "\<And>p. p \<in> P \<Longrightarrow> lits D' p = lits D p"
  shows "search_ok D' P' Q t v" and "prop_upto D' Q t v L \<longleftrightarrow> prop_upto D Q t v L"
proof -
  note okD = search_okD [OF ok]
  have Q: "lits D' p = lits D p" if "p \<in> Q" for p using same that okD(2) by blast
  have rs: "reasons_ok D' P' t v"
    unfolding reasons_ok_def Let_def
  proof (intro allI impI)
    fix i assume i: "i < tr_Tail t" and r: "reason v (trail_lits t ! i) \<noteq> CNull"
    note R = reasons_okD [OF okD(4) i r]
    have "lits D' (reason v (trail_lits t ! i)) = lits D (reason v (trail_lits t ! i))" using same R(1) .
    then show "reason v (trail_lits t ! i) \<in> P' \<and> lits D' (reason v (trail_lits t ! i)) \<noteq> []
      \<and> hd (lits D' (reason v (trail_lits t ! i))) = trail_lits t ! i
      \<and> (\<forall>n \<in> set (tl (lits D' (reason v (trail_lits t ! i)))). lit_Not n \<in> set (take i (trail_lits t)))"
      using R sub by (metis in_mono list.discI list.sel(1))
  qed
  have cl: "clauses_ok D' Q v" using okD(5) Q by (simp add: clauses_ok_def)
  have gw: "good_watch D' m w \<longleftrightarrow> good_watch D m w" if "watch_C w \<in> Q" for m w
    using Q [OF that] by (simp add: good_watch_def)
  have "watched D' p m \<longleftrightarrow> watched D p m" if "p \<in> Q" for p m using Q [OF that] by (simp add: watched_def)
  then have eq: "{p \<in> Q. watched D' p m} = {p \<in> Q. watched D p m}" for m by blast
  have "watch_ok D' Q (vs_Watches v)"
    unfolding watch_ok_def
  proof (intro allI impI)
    fix m :: lit assume m: "unat m < length (vs_Watches v)"
    note O = watch_okD [OF okD(6) m]
    show "distinct (map watch_C (vs_Watches v ! unat m))
        \<and> watch_C ` set (vs_Watches v ! unat m) = {p \<in> Q. watched D' p m}
        \<and> (\<forall>w \<in> set (vs_Watches v ! unat m). good_watch D' m w)"
      using O gw by (simp add: eq)
  qed
  then show "search_ok D' P' Q t v" using okD st sub rs cl by (auto simp: search_ok_def)
  show "prop_upto D' Q t v L \<longleftrightarrow> prop_upto D Q t v L" using Q by (simp add: prop_upto_def)
qed

lemma clause_ok_Make:
  assumes "LitNull \<notin> set ms"
  shows "clause_ok (MakeChd l lbd (int (length ms)), ms)"
  using assms by (simp add: clause_ok_def Size_MakeChd nat_mod_as_int [symmetric] nat_mod_distrib)

lemma in_range_nonnull: "in_range v m \<Longrightarrow> m \<noteq> LitNull"
  by (auto simp: in_range_def LitNull_def)

lemma AddLits_ok:
  assumes rep: "cdat_rep cls d" and room: "2 * (cd_Len d + length ms + 2) < 2147483648"
    and ok: "clause_ok (h, ms)"
  shows "returns (AddLits h ms d) (\<lambda>(p, d'). cdat_rep (cls @ [(h, ms)]) d' \<and> p = of_nat (loc_at cls)
     \<and> p \<notin> locs cls \<and> lits (cd_D d') p = ms \<and> locs (cls @ [(h, ms)]) = insert p (locs cls)
     \<and> store_ok (cd_D d') (insert p (locs cls)) \<and> (\<forall>q \<in> locs cls. lits (cd_D d') q = lits (cd_D d) q))"
proof (rule returns_mono [OF AddLits_spec [OF rep room ok]])
  fix r :: "cloc \<times> cdat"
  assume "case r of (p, c') \<Rightarrow> cdat_rep (cls @ [(h, ms)]) c' \<and> unat p = loc_at cls \<and> cd_bumpInc c' = cd_bumpInc d"
  then obtain p d' where r: "r = (p, d')" and rep': "cdat_rep (cls @ [(h, ms)]) d'" and p: "unat p = loc_at cls"
    by (cases r) auto
  have pe: "p = of_nat (loc_at cls)" by (metis p of_nat_unat_id)
  have locs: "locs (cls @ [(h, ms)]) = insert p (locs cls)" unfolding pe by (rule locs_snoc)
  have lp: "lits (cd_D d') p = ms" unfolding pe using rep_lits(1) [of cls "(h, ms)" "[]"] rep' by simp
  have nin: "p \<notin> locs cls"
  proof
    assume "p \<in> locs cls"
    then obtain i where i: "i < length cls" "p = of_nat (loc_at (take i cls))" by (auto simp: locs_def)
    have "unat p = loc_at (take i cls)" unfolding i(2) by (rule loc_at_unat [OF rep_nth [OF rep i(1)]])
    then show False using loc_at_step [OF i(1) le_refl] p by simp
  qed
  have old: "lits (cd_D d') q = lits (cd_D d) q" if q: "q \<in> locs cls" for q
  proof -
    obtain pre cl post where dc: "cls = pre @ cl # post" "q = of_nat (loc_at pre)" using q by (rule locs_decomp)
    have "cdat_rep (pre @ cl # (post @ [(h, ms)])) d'" using rep' by (simp add: dc(1))
    then show ?thesis using rep_lits(1) rep unfolding dc by metis
  qed
  show "case r of (p, d') \<Rightarrow> cdat_rep (cls @ [(h, ms)]) d' \<and> p = of_nat (loc_at cls)
     \<and> p \<notin> locs cls \<and> lits (cd_D d') p = ms \<and> locs (cls @ [(h, ms)]) = insert p (locs cls)
     \<and> store_ok (cd_D d') (insert p (locs cls)) \<and> (\<forall>q \<in> locs cls. lits (cd_D d') q = lits (cd_D d) q)"
    using rep_store_ok [OF rep'] rep' nin lp locs old by (simp add: r pe)
qed

text \<open>What adding the watches of a new clause comes to, whether it has two literals or fewer.\<close>

definition attached :: "lit list \<Rightarrow> cloc \<Rightarrow> cloc set \<Rightarrow> cloc set" where
  "attached ms p Q = (if 2 \<le> length ms then insert p Q else Q)"

lemma attach_ok:
  assumes ok: "search_ok D P Q t v" and p: "p \<notin> Q" "p \<in> P" and cl: "lits D p = ms"
    and ds: "distinct (map lit_Var ms)" and rng: "\<forall>m \<in> set ms. in_range v m"
    and W: "prop_upto D Q t v L"
    and free: "2 \<le> length ms \<Longrightarrow> val_of v (ms ! 0) \<noteq> -1 \<or> L \<le> lev v (ms ! 0)"
  shows "returns (if length ms < 2 then Some v else watch_pair p (ms ! 0) (ms ! 1) (length ms = 2) v)
    (\<lambda>v'. search_ok D P (attached ms p Q) t v' \<and> prop_upto D (attached ms p Q) t v' L
       \<and> v' = v\<lparr>vs_Watches := vs_Watches v'\<rparr> \<and> length (vs_Watches v') = length (vs_Watches v))"
proof (cases "length ms < 2")
  case True
  then show ?thesis using ok W by (simp add: attached_def)
next
  case False
  note okD = search_okD [OF ok]
  obtain a b rest where ms: "ms = a # b # rest"
    using False by (cases ms rule: list.exhaust; cases "tl ms") auto
  have Q': "attached ms p Q = insert p Q" by (simp add: attached_def ms)
  have len: "unat m < length (vs_Watches v)" if "m \<in> set ms" for m
    using in_range_vals [OF okD(8)] rng that vars_okD(4) [OF okD(8)] by auto
  have big: "length (vs_Watches v) \<le> 2147483648" using vars_okD(2,4,8) [OF okD(8)] by arith
  have "distinct (lits D p)" using ds by (simp add: cl distinct_map)
  then have wp: "returns (watch_pair p a b (rest = []) v) (\<lambda>v'. watch_ok D (insert p Q) (vs_Watches v')
     \<and> length (vs_Watches v') = length (vs_Watches v) \<and> v' = v\<lparr>vs_Watches := vs_Watches v'\<rparr>)"
    by (rule watch_pair_spec [OF okD(6) cl [unfolded ms] p(1) _ _ _ big]) (simp_all add: len ms)
  have two: "(length ms = 2) = (rest = [])" by (simp add: ms)
  have cls: "clauses_ok D (insert p Q) v"
    using okD(5) ds rng cl ms by (auto simp: clauses_ok_def)
  have up: "prop_upto D (insert p Q) t v L"
    unfolding prop_upto_def
  proof
    fix q assume "q \<in> insert p Q"
    then consider "q \<in> Q" | "q = p" by blast
    then show "let a = lits D q ! 0; b = lits D q ! 1
     in lit_Not a \<in> set (take (tr_Head t) (trail_lits t)) \<longrightarrow>
        lit_Not b \<in> set (take (tr_Head t) (trail_lits t)) \<longrightarrow> lev v a < L \<longrightarrow> lev v b < L \<longrightarrow>
        (\<exists>n \<in> set (lits D q). n \<in> set (trail_lits t) \<and> (lev v n \<le> lev v a \<or> lev v n \<le> lev v b))"
    proof cases
      case 1
      then show ?thesis using W by (simp add: prop_upto_def)
    next
      case 2
      have "in_range v a" using rng ms by simp
      then have "val_of v a = -1" if "lit_Not a \<in> set (trail_lits t)"
        using trail_val [OF okD(3), of a] trail_not_both [OF okD(3) that] that by auto
      then show ?thesis using free unfolding 2 Let_def cl by (auto simp: ms dest!: in_set_takeD)
    qed
  qed
  show ?thesis
    using False unfolding two
  proof (simp add: ms, intro returns_mono [OF wp], elim conjE)
    fix v' assume W': "watch_ok D (insert p Q) (vs_Watches v')"
      and l: "length (vs_Watches v') = length (vs_Watches v)" and v': "v' = v\<lparr>vs_Watches := vs_Watches v'\<rparr>"
    have "search_ok D P (insert p Q) t (v\<lparr>vs_Watches := vs_Watches v'\<rparr>)"
      using okD W' cls p(2) l by (simp add: search_ok_def)
    moreover have "prop_upto D (insert p Q) t (v\<lparr>vs_Watches := vs_Watches v'\<rparr>) L" using up by simp
    ultimately show "search_ok D P (attached (a # b # rest) p Q) t v' \<and> prop_upto D (attached (a # b # rest) p Q) t v' L
       \<and> v' = v\<lparr>vs_Watches := vs_Watches v'\<rparr> \<and> length (vs_Watches v') = length (vs_Watches v)"
      using v' l Q' ms by metis
  qed
qed

lemma Learn_ok:
  assumes db: "db_ok cls c" and ok: "search_ok (cd_D (cb_CDat c)) (locs cls) Q t v"
    and ms: "ms \<noteq> []" "distinct (map lit_Var ms)" "\<forall>m \<in> set ms. in_range v m"
    and room: "2 * (cd_Len (cb_CDat c) + length ms + 2) < 2147483648"
    and W: "prop_upto (cd_D (cb_CDat c)) Q t v L" and late: "L \<le> lev v (ms ! 0)"
  shows "returns (Cdb_Learn ms lbd (v, c, None)) (\<lambda>(p, v', c', act).
     act = None \<and> p \<noteq> CNull \<and> p \<notin> locs cls \<and> cb_gc c' = Cgc_Tick (cb_gc c) \<and> (\<exists>h. db_ok (cls @ [(h, ms)]) c' \<and> locs (cls @ [(h, ms)]) = insert p (locs cls))
     \<and> lits (cd_D (cb_CDat c')) p = ms
     \<and> (\<forall>q \<in> locs cls. lits (cd_D (cb_CDat c')) q = lits (cd_D (cb_CDat c)) q)
     \<and> search_ok (cd_D (cb_CDat c')) (insert p (locs cls)) (attached ms p Q) t v'
     \<and> prop_upto (cd_D (cb_CDat c')) (attached ms p Q) t v' L
     \<and> v' = v\<lparr>vs_Watches := vs_Watches v'\<rparr> \<and> length (vs_Watches v') = length (vs_Watches v)
     \<and> cb_Added c' = cb_Added c \<and> cb_Bot c' = cb_Bot c \<and> cb_Learnts c' = cb_Learnts c @ [p]
     \<and> cb_AddLits c' = cb_AddLits c \<and> cb_AddVals c' = cb_AddVals c \<and> cb_checkModel c' = cb_checkModel c)"
proof -
  have rep: "cdat_rep cls (cb_CDat c)" using db by (simp add: db_ok_def)
  have "clause_ok (MakeChd True lbd (int (length ms)), ms)"
    using ms(3) in_range_nonnull by (intro clause_ok_Make) blast
  from AddLits_ok [OF rep room this]
  obtain p d where add: "AddLits (MakeChd True lbd (int (length ms))) ms (cb_CDat c) = Some (p, d)"
    and rep': "cdat_rep (cls @ [(MakeChd True lbd (int (length ms)), ms)]) d"
    and p: "p \<notin> locs cls" and lp: "lits (cd_D d) p = ms"
    and lc: "locs (cls @ [(MakeChd True lbd (int (length ms)), ms)]) = insert p (locs cls)"
    and st: "store_ok (cd_D d) (insert p (locs cls))"
    and same: "\<forall>q \<in> locs cls. lits (cd_D d) q = lits (cd_D (cb_CDat c)) q"
    by (auto simp: returns_def)
  have p0: "p \<noteq> CNull" by (rule loc_not_null [OF st]) simp
  have ok1: "search_ok (cd_D d) (insert p (locs cls)) Q t v" "prop_upto (cd_D d) Q t v L"
    using search_ok_mono [OF ok st] same W by auto
  have pQ: "p \<notin> Q" using p search_okD(2) [OF ok] by blast
  have "returns (if length ms < 2 then Some v else watch_pair p (ms ! 0) (ms ! 1) (length ms = 2) v)
    (\<lambda>v'. search_ok (cd_D d) (insert p (locs cls)) (attached ms p Q) t v' \<and> prop_upto (cd_D d) (attached ms p Q) t v' L
       \<and> v' = v\<lparr>vs_Watches := vs_Watches v'\<rparr> \<and> length (vs_Watches v') = length (vs_Watches v))"
    by (rule attach_ok [OF ok1(1) pQ _ lp ms(2,3) ok1(2)]) (use late in simp_all)
  then obtain v' where wp: "(if length ms < 2 then Some v else watch_pair p (ms ! 0) (ms ! 1) (length ms = 2) v) = Some v'"
    and post: "search_ok (cd_D d) (insert p (locs cls)) (attached ms p Q) t v'" "prop_upto (cd_D d) (attached ms p Q) t v' L"
      "v' = v\<lparr>vs_Watches := vs_Watches v'\<rparr>" "length (vs_Watches v') = length (vs_Watches v)"
    unfolding returns_def by blast
  let ?c = "c\<lparr>cb_CDat := d, cb_Learnts := cb_Learnts c @ [p], cb_gc := Cgc_Tick (cb_gc c)\<rparr>"
  have one: "length ms < 2 \<longleftrightarrow> length ms = 1" using ms(1) by (cases ms) auto
  have run: "Cdb_Learn ms lbd (v, c, None) = Some (p, v', ?c, None)"
    using wp ms(1) unfolding one by (auto simp: Cdb_Learn_def add Let_def split: if_splits)
  have "db_ok (cls @ [(MakeChd True lbd (int (length ms)), ms)]) ?c"
    using db rep' lc by (auto simp: db_ok_def)
  then show ?thesis
    unfolding run using p0 p lc lp same post by auto
qed

text \<open>The space a database takes.\<close>

lemma rep_Len:
  assumes "cdat_rep cls d"
  shows "cd_Len d = length (encs cls)"
proof -
  have "length (take (cd_Len d) (cd_D d)) = length (encs cls)" "cd_Len d \<le> length (cd_D d)"
    using assms by (simp_all add: cdat_rep_def)
  then show ?thesis by simp
qed

end
