(* ===== verification/Derive.thy ===== *)
theory Derive
  imports Trail
begin

text \<open>
  Conflict analysis (\<^verbatim>\<open>internal/xo/derive.go\<close>): the first unique implication point and the
  minimisation of the learnt clause.  Counters that only feed statistics are left out.
\<close>

record deriver =
  dv_CLits :: "lit list"
  dv_SLits :: "lit list"
  dv_RLits :: "lit list"
  dv_Lvls :: "bool list"
  dv_Rdnt :: "int list"
  dv_Seen :: "bool list"

definition NewDeriver :: "vars \<Rightarrow> deriver" where
  "NewDeriver v =
     \<lparr>dv_CLits = [], dv_SLits = [], dv_RLits = [],
      dv_Lvls = replicate (length (vs_Levels v)) False,
      dv_Rdnt = replicate (length (vs_Levels v)) 0,
      dv_Seen = replicate (unat (vs_Top v)) False\<rparr>"

definition Deriver_CopyWith :: "deriver \<Rightarrow> deriver" where
  "Deriver_CopyWith d =
     \<lparr>dv_CLits = dv_CLits d, dv_SLits = [], dv_RLits = dv_RLits d, dv_Lvls = dv_Lvls d,
      dv_Rdnt = dv_Rdnt d, dv_Seen = dv_Seen d\<rparr>"

definition Deriver_growToVar :: "var \<Rightarrow> deriver \<Rightarrow> deriver" where
  "Deriver_growToVar u d =
     (let N = unat u
      in d\<lparr>dv_Lvls := grow_list N False (dv_Lvls d), dv_Seen := grow_list N False (dv_Seen d),
           dv_Rdnt := grow_list N 0 (dv_Rdnt d)\<rparr>)"

record derived =
  de_P :: cloc
  de_Unit :: lit
  de_Size :: nat
  de_TargetLevel :: int

section \<open>Redundant literals\<close>

text \<open>
  The recursion visits a literal or scans the rest of a reason clause for a variable; its state
  is the list of visited literals and the cache of answers.
\<close>

datatype rdnt_job = RLit lit | RScan var cloc

partial_function (option) isRdntRec ::
    "u32 list \<Rightarrow> vars \<Rightarrow> bool list \<Rightarrow> rdnt_job \<Rightarrow> lit list \<times> int list \<Rightarrow>
     (bool \<times> lit list \<times> int list) option" where
  "isRdntRec db vars lvls job s =
     (case s of (rLits, rdnt) \<Rightarrow>
       case job of
         RLit m \<Rightarrow>
           let v = lit_Var m
           in do { x \<leftarrow> aget rdnt (unat v);
                   if x = 0
                   then do {
                     let rLits = rLits @ [m];
                     lvl \<leftarrow> aget (vs_Levels vars) (unat v);
                     inLvl \<leftarrow> (if lvl < 0 then None else aget lvls (nat lvl));
                     if \<not> inLvl
                     then do { rdnt \<leftarrow> aset rdnt (unat v) (-1); Some (False, rLits, rdnt) }
                     else do {
                       p \<leftarrow> aget (vs_Reasons vars) (unat v);
                       if p = CNull
                       then do { rdnt \<leftarrow> aset rdnt (unat v) (-1); Some (False, rLits, rdnt) }
                       else isRdntRec db vars lvls (RScan v (p + 1)) (rLits, rdnt) } }
                   else if x = 1 then Some (True, rLits, rdnt)
                   else if x = -1 then Some (False, rLits, rdnt)
                   else None }
       | RScan v p \<Rightarrow>
           do { n \<leftarrow> aget db (unat p);
                if n = LitNull
                then do { rdnt \<leftarrow> aset rdnt (unat v) 1; Some (True, rLits, rdnt) }
                else do {
                  (b, rLits, rdnt) \<leftarrow> isRdntRec db vars lvls (RLit n) (rLits, rdnt);
                  if \<not> b
                  then do { rdnt \<leftarrow> aset rdnt (unat v) (-1); Some (False, rLits, rdnt) }
                  else isRdntRec db vars lvls (RScan v (p + 1)) (rLits, rdnt) } })"

definition isRdnt ::
    "u32 list \<Rightarrow> vars \<Rightarrow> bool list \<Rightarrow> lit \<Rightarrow> lit list \<times> int list \<Rightarrow> (bool \<times> lit list \<times> int list) option" where
  "isRdnt db vars lvls m s =
     (case s of (rLits, rdnt) \<Rightarrow>
       do { rdnt \<leftarrow> aset rdnt (unat (lit_Var m)) 0;
            (res, rLits, rdnt) \<leftarrow> isRdntRec db vars lvls (RLit m) (rLits, rdnt);
            rdnt \<leftarrow> aset rdnt (unat (lit_Var m)) 1;
            Some (res, rLits, rdnt) })"

section \<open>Minimisation\<close>

definition mark_rdnt :: "lit list \<Rightarrow> int \<Rightarrow> int list \<Rightarrow> int list option" where
  "mark_rdnt ms x rdnt = foldM (\<lambda>m r. aset r (unat (lit_Var m)) x) ms rdnt"

text \<open>The loop over the non-asserting literals; the kept ones are collected in order.\<close>

fun minimize_loop ::
    "'h floats \<Rightarrow> u32 list \<Rightarrow> vars \<Rightarrow> bool list \<Rightarrow> lit list \<Rightarrow> lit list \<Rightarrow>
     lit list \<times> int list \<times> 'h guess \<Rightarrow> (lit list \<times> lit list \<times> int list \<times> 'h guess) option" where
  "minimize_loop fl db vars lvls [] out (rLits, rdnt, g) = Some (out, rLits, rdnt, g)"
| "minimize_loop fl db vars lvls (m # ms) out (rLits, rdnt, g) =
     do { (red, rLits, rdnt) \<leftarrow> isRdnt db vars lvls m (rLits, rdnt);
          if red then minimize_loop fl db vars lvls ms out (rLits, rdnt, g)
          else do { (b, g) \<leftarrow> Guess_Bump fl m g;
                    minimize_loop fl db vars lvls ms (out @ [m]) (rLits, rdnt, g) } }"

definition clear_lvls :: "vars \<Rightarrow> lit list \<Rightarrow> bool list \<Rightarrow> bool list option" where
  "clear_lvls vars ms lvls =
     foldM (\<lambda>m ls. do { lvl \<leftarrow> aget (vs_Levels vars) (unat (lit_Var m));
                        if lvl < 0 then None
                        else do { b \<leftarrow> aget ls (nat lvl);
                                  if b then aset ls (nat lvl) False else Some ls } }) ms lvls"

definition minimize ::
    "'h floats \<Rightarrow> u32 list \<Rightarrow> vars \<Rightarrow> deriver \<times> 'h guess \<Rightarrow> (deriver \<times> 'h guess) option" where
  "minimize fl db vars s =
     (case s of (d, g) \<Rightarrow>
       do { rdnt \<leftarrow> mark_rdnt (tl (dv_CLits d)) 1 (dv_Rdnt d);
            (out, rLits, rdnt, g) \<leftarrow>
               minimize_loop fl db vars (dv_Lvls d) (tl (dv_CLits d)) [] (dv_RLits d, rdnt, g);
            let cLits = take 1 (dv_CLits d) @ out;
            rdnt \<leftarrow> mark_rdnt rLits 0 rdnt;
            lvls \<leftarrow> clear_lvls vars cLits (dv_Lvls d);
            Some (d\<lparr>dv_CLits := cLits, dv_RLits := [], dv_Rdnt := rdnt, dv_Lvls := lvls\<rparr>, g) })"

section \<open>The first unique implication point\<close>

record 'h uip =
  u_count :: int
  u_cLits :: "lit list"
  u_sLits :: "lit list"
  u_Seen :: "bool list"
  u_Lvls :: "bool list"
  u_TargetLevel :: int
  u_lbd :: int
  u_guess :: "'h guess"
  u_cdb :: cdb

partial_function (option) uip_mark ::
    "'h floats \<Rightarrow> vars \<Rightarrow> int \<Rightarrow> cloc \<Rightarrow> 'h uip \<Rightarrow> 'h uip option" where
  "uip_mark fl vars curLevel p s =
     do { m \<leftarrow> aget (cd_D (cb_CDat (u_cdb s))) (unat p);
          if m = LitNull then Some s
          else let v = lit_Var m
               in do { seen \<leftarrow> aget (u_Seen s) (unat v);
                       if seen then uip_mark fl vars curLevel (p + 1) s
                       else do {
                         sn \<leftarrow> aset (u_Seen s) (unat v) True;
                         let s = s\<lparr>u_Seen := sn\<rparr>;
                         vLevel \<leftarrow> aget (vs_Levels vars) (unat v);
                         if vLevel = 0 then uip_mark fl vars curLevel (p + 1) s
                         else if vLevel \<noteq> curLevel
                         then do {
                           inLvl \<leftarrow> (if vLevel < 0 then None else aget (u_Lvls s) (nat vLevel));
                           let s = s\<lparr>u_cLits := u_cLits s @ [m],
                                     u_TargetLevel := (if u_TargetLevel s < vLevel then vLevel
                                                       else u_TargetLevel s)\<rparr>;
                           let s = (if \<not> inLvl
                                    then s\<lparr>u_Lvls := (u_Lvls s)[nat vLevel := True],
                                           u_lbd := u_lbd s + 1\<rparr>
                                    else s);
                           uip_mark fl vars curLevel (p + 1) s }
                         else do {
                           (b, g) \<leftarrow> Guess_Bump fl m (u_guess s);
                           uip_mark fl vars curLevel (p + 1)
                             (s\<lparr>u_sLits := u_sLits s @ [m], u_guess := g,
                                u_count := u_count s + 1\<rparr>) } } } }"

text \<open>The walk down the trail; \<open>p\<close> is the clause to mark next, or the null reference.\<close>

fun uip_loop ::
    "'h floats \<Rightarrow> vars \<Rightarrow> int \<Rightarrow> lit list \<Rightarrow> nat \<Rightarrow> cloc \<Rightarrow> 'h uip \<Rightarrow> 'h uip option" where
  "uip_loop fl vars curLevel trail 0 p s = Some s"
| "uip_loop fl vars curLevel trail (Suc i) p s =
     do { s \<leftarrow> (if p \<noteq> CNull then uip_mark fl vars curLevel p s else Some s);
          m \<leftarrow> aget trail i;
          let v = lit_Var m;
          seen \<leftarrow> aget (u_Seen s) (unat v);
          if \<not> seen then uip_loop fl vars curLevel trail i CNull s
          else let s = s\<lparr>u_count := u_count s - 1\<rparr>
               in if u_count s = 0
                  then do { cLits \<leftarrow> aset (u_cLits s) 0 (lit_Not m);
                            (b, g) \<leftarrow> Guess_Bump fl m (u_guess s);
                            Some (s\<lparr>u_cLits := cLits, u_guess := g\<rparr>) }
                  else do { p \<leftarrow> aget (vs_Reasons vars) (unat v);
                            c \<leftarrow> Cdb_Bump p (u_cdb s);
                            uip_loop fl vars curLevel trail i (p + 1) (s\<lparr>u_cdb := c\<rparr>) } }"

definition clear_seen :: "lit list \<Rightarrow> bool list \<Rightarrow> bool list option" where
  "clear_seen ms seen =
     foldM (\<lambda>m sn. do { b \<leftarrow> aget sn (unat (lit_Var m));
                        aset sn (unat (lit_Var m)) False }) ms seen"

definition Deriver_Derive ::
    "'h floats \<Rightarrow> cloc \<Rightarrow> trail \<Rightarrow> deriver \<times> vars \<times> cdb \<times> active option \<times> 'h guess \<Rightarrow>
     (derived \<times> deriver \<times> vars \<times> cdb \<times> active option \<times> 'h guess) option" where
  "Deriver_Derive fl x t s =
     (case s of (d, vars, c, act, g) \<Rightarrow>
       do { c \<leftarrow> Cdb_Bump x c;
            let u = \<lparr>u_count = 0, u_cLits = [LitNull], u_sLits = [], u_Seen = dv_Seen d,
                     u_Lvls = dv_Lvls d, u_TargetLevel = 0, u_lbd = 0, u_guess = g, u_cdb = c\<rparr>;
            u \<leftarrow> uip_loop fl vars (tr_Level t) (tr_D t) (tr_Tail t) x u;
            seen \<leftarrow> clear_seen (u_cLits u) (u_Seen u);
            seen \<leftarrow> clear_seen (u_sLits u) seen;
            let d = d\<lparr>dv_SLits := [], dv_CLits := u_cLits u, dv_Seen := seen, dv_Lvls := u_Lvls u\<rparr>;
            (d, g) \<leftarrow> minimize fl (cd_D (cb_CDat (u_cdb u))) vars (d, u_guess u);
            (p, vars, c, act) \<leftarrow> Cdb_Learn (dv_CLits d) (u_lbd u) (vars, u_cdb u, act);
            m \<leftarrow> aget (u_cLits u) 0;
            Some (\<lparr>de_P = p, de_Unit = m, de_Size = length (u_cLits u),
                   de_TargetLevel = u_TargetLevel u\<rparr>, d, vars, c, act, g) })"

declare isRdntRec.simps [code] uip_mark.simps [code]

end
