(* ===== verification/Analysis.thy ===== *)
theory Analysis
  imports Database Derive
begin

text \<open>
  Conflict analysis derives a clause that follows from the clauses of the database, that is false
  under the current assignment, and all of whose literals but the first are false below the
  current level.
\<close>

section \<open>Meaning of the trail\<close>

definition sat_all :: "assignment \<Rightarrow> u32 list \<Rightarrow> cloc set \<Rightarrow> bool" where
  "sat_all \<sigma> D P \<longleftrightarrow> (\<forall>p \<in> P. clause_true \<sigma> (lits D p))"

lemma sat_all_perm: "store_perm P D D' \<Longrightarrow> sat_all \<sigma> D' P \<longleftrightarrow> sat_all \<sigma> D P"
  by (simp add: sat_all_def clause_true_def store_perm_lits(1))

text \<open>
  If the clauses hold and the decisions up to a level do, so do all literals up to that level.
\<close>

lemma trail_implied:
  assumes ok: "trail_ok t v" and rs: "reasons_ok D P t v" and sat: "sat_all \<sigma> D P"
    and dec: "\<And>m. m \<in> set (trail_lits t) \<Longrightarrow> reason v m = CNull \<Longrightarrow> lev v m \<le> L \<Longrightarrow> lit_true \<sigma> m"
  shows "m \<in> set (trail_lits t) \<Longrightarrow> lev v m \<le> L \<Longrightarrow> lit_true \<sigma> m"
proof -
  have len: "length (trail_lits t) = tr_Tail t" using ok by simp
  have "i < tr_Tail t \<Longrightarrow> lev v (trail_lits t ! i) \<le> L \<Longrightarrow> lit_true \<sigma> (trail_lits t ! i)" for i
  proof (induction i rule: less_induct)
    case (less i)
    let ?m = "trail_lits t ! i"
    show ?case
    proof (cases "reason v ?m = CNull")
      case True
      then show ?thesis using dec less.prems len by simp
    next
      case False
      note R = reasons_okD [OF rs less.prems(1) False]
      have "clause_true \<sigma> (?m # tl (lits D (reason v ?m)))"
        using sat R(1,2) unfolding sat_all_def by metis
      moreover have "\<not> lit_true \<sigma> n" if n: "n \<in> set (tl (lits D (reason v ?m)))" for n
      proof -
        obtain j where j: "j < i" "lit_Not n = trail_lits t ! j"
          using R(3) [OF n] less.prems(1) len by (auto simp: in_set_conv_nth)
        have "lev v (trail_lits t ! j) \<le> lev v ?m"
          using j(1) less.prems(1) by (intro lev_mono [OF ok]) simp_all
        then have "lit_true \<sigma> (lit_Not n)"
          using less.IH [of j] j less.prems by simp
        then show ?thesis by simp
      qed
      ultimately show ?thesis by (auto simp: clause_true_def)
    qed
  qed
  then show "m \<in> set (trail_lits t) \<Longrightarrow> lev v m \<le> L \<Longrightarrow> lit_true \<sigma> m"
    by (metis in_set_conv_nth len)
qed

lemma decision_level:
  assumes "trail_ok t v" and "m \<in> set (trail_lits t)" and "reason v m = CNull"
  shows "0 < lev v m"
proof -
  obtain i where i: "i < tr_Tail t" "m = trail_lits t ! i"
    using assms(1,2) by (metis in_set_conv_nth length_trail_lits)
  have "take (Suc i) (trail_lits t) = take i (trail_lits t) @ [m]"
    using i length_trail_lits [OF assms(1)] by (simp add: take_Suc_conv_app_nth)
  then have "1 \<le> decs v (take (Suc i) (trail_lits t))" using assms(3) by (simp add: decs_def)
  then show ?thesis using trail_okD(8) [OF assms(1) i(1)] i(2) by simp
qed

lemma level0_implied:
  assumes "trail_ok t v" and "reasons_ok D P t v" and "sat_all \<sigma> D P"
    and "m \<in> set (trail_lits t)" and "lev v m = 0"
  shows "lit_true \<sigma> m"
  using trail_implied [OF assms(1-3), of 0 m] decision_level [OF assms(1)] assms(4,5) by fastforce

text \<open>Two literals of one level: the later one is not a decision.\<close>

lemma later_implied:
  assumes ok: "trail_ok t v" and ij: "i < j" "j < tr_Tail t"
    and same: "lev v (trail_lits t ! i) = lev v (trail_lits t ! j)"
  shows "reason v (trail_lits t ! j) \<noteq> CNull"
proof
  assume r: "reason v (trail_lits t ! j) = CNull"
  have len: "length (trail_lits t) = tr_Tail t" using ok by simp
  have "take (Suc j) (trail_lits t) = take j (trail_lits t) @ [trail_lits t ! j]"
    using ij len by (simp add: take_Suc_conv_app_nth)
  then have "decs v (take (Suc j) (trail_lits t)) = decs v (take j (trail_lits t)) + 1"
    using r by (simp add: decs_def)
  moreover have "decs v (take (Suc i) (trail_lits t)) \<le> decs v (take j (trail_lits t))"
    using ij by (intro decs_take_mono) simp
  moreover have "decs v (take (Suc i) (trail_lits t)) = decs v (take (Suc j) (trail_lits t))"
    using trail_okD(8) [OF ok, of i] trail_okD(8) [OF ok ij(2)] same ij by simp
  ultimately show False by simp
qed

section \<open>Marking a clause\<close>

text \<open>The body of the marking loop for one literal.\<close>

definition mark_lit :: "'h floats \<Rightarrow> vars \<Rightarrow> int \<Rightarrow> lit \<Rightarrow> 'h uip \<Rightarrow> 'h uip option" where
  "mark_lit fl vars cur m s =
     do { seen \<leftarrow> aget (u_Seen s) (unat (lit_Var m));
          if seen then Some s
          else do {
            sn \<leftarrow> aset (u_Seen s) (unat (lit_Var m)) True;
            vLevel \<leftarrow> aget (vs_Levels vars) (unat (lit_Var m));
            if vLevel = 0 then Some (s\<lparr>u_Seen := sn\<rparr>)
            else if vLevel \<noteq> cur
            then do {
              inLvl \<leftarrow> (if vLevel < 0 then None else aget (u_Lvls s) (nat vLevel));
              let s = s\<lparr>u_Seen := sn, u_cLits := u_cLits s @ [m],
                        u_TargetLevel := (if u_TargetLevel s < vLevel then vLevel else u_TargetLevel s)\<rparr>;
              Some (if \<not> inLvl then s\<lparr>u_Lvls := (u_Lvls s)[nat vLevel := True], u_lbd := u_lbd s + 1\<rparr> else s) }
            else do {
              (b, g) \<leftarrow> Guess_Bump fl m (u_guess s);
              Some (s\<lparr>u_Seen := sn, u_sLits := u_sLits s @ [m], u_guess := g, u_count := u_count s + 1\<rparr>) } } }"

lemma mark_lit_cdb: "mark_lit fl vars cur m s = Some s' \<Longrightarrow> u_cdb s' = u_cdb s"
  by (auto simp: mark_lit_def Let_def bind_eq_Some_conv split: if_splits)

lemma uip_mark_fold:
  assumes ok: "store_ok (cd_D (cb_CDat (u_cdb s))) P" "q \<in> P"
    and k: "k \<le> length (lits (cd_D (cb_CDat (u_cdb s))) q)"
  shows "uip_mark fl vars cur (q + of_nat k) s
    = foldM (mark_lit fl vars cur) (drop k (lits (cd_D (cb_CDat (u_cdb s))) q)) s"
  using assms
proof (induction "length (lits (cd_D (cb_CDat (u_cdb s))) q) - k" arbitrary: k s)
  case 0
  then have "k = length (lits (cd_D (cb_CDat (u_cdb s))) q)" by simp
  then show ?case using aget_lits [OF 0(2,3), of k] by (subst uip_mark.simps) simp
next
  case (Suc d)
  let ?D = "cd_D (cb_CDat (u_cdb s))"
  have k: "k < length (lits ?D q)" using Suc.hyps(2) by simp
  have get: "aget ?D (unat (q + of_nat k)) = Some (lits ?D q ! k)" using aget_lits [OF Suc.prems(1,2), of k] k by simp
  have nn: "lits ?D q ! k \<noteq> LitNull" using k lits_nonnull [of ?D q] by (metis nth_mem)
  have nx: "q + of_nat k + 1 = q + of_nat (Suc k)" by simp
  have dr: "drop k (lits ?D q) = lits ?D q ! k # drop (Suc k) (lits ?D q)" using k by (rule Cons_nth_drop_Suc [symmetric])
  have step: "uip_mark fl vars cur (q + of_nat k) s
    = do { s' \<leftarrow> mark_lit fl vars cur (lits ?D q ! k) s; uip_mark fl vars cur (q + of_nat (Suc k)) s' }"
    unfolding nx [symmetric]
    by (subst uip_mark.simps, simp only: get bind.bind_lunit nn if_False Let_def mark_lit_def)
       (auto split: Option.bind_split prod.split)
  show ?case
  proof (cases "mark_lit fl vars cur (lits ?D q ! k) s")
    case None
    then show ?thesis by (simp add: step dr del: of_nat_Suc)
  next
    case (Some s')
    have c: "u_cdb s' = u_cdb s" by (rule mark_lit_cdb [OF Some])
    have "uip_mark fl vars cur (q + of_nat (Suc k)) s' = foldM (mark_lit fl vars cur) (drop (Suc k) (lits ?D q)) s'"
      using Suc.hyps Suc.prems k c by (subst Suc.hyps(1)) simp_all
    then show ?thesis by (simp add: step dr Some del: of_nat_Suc)
  qed
qed

text \<open>
  The state of the analysis: which variables are marked, and what the literals collected so far
  are.  Marked literals of the current level among the first \<open>b\<close> of the trail are counted.
\<close>

definition useen :: "'h uip \<Rightarrow> lit \<Rightarrow> bool" where
  "useen s m = u_Seen s ! unat (lit_Var m)"

definition open_lits :: "trail \<Rightarrow> vars \<Rightarrow> nat \<Rightarrow> 'h uip \<Rightarrow> nat set" where
  "open_lits t v b s = {j. j < b \<and> lev v (trail_lits t ! j) = tr_Level t \<and> useen s (trail_lits t ! j)}"

definition uinv :: "'h floats \<Rightarrow> trail \<Rightarrow> vars \<Rightarrow> nat \<Rightarrow> 'h uip \<Rightarrow> bool" where
  "uinv fl t v b s \<longleftrightarrow> unat (vs_Top v) \<le> length (u_Seen s) \<and> unat (vs_Top v) \<le> length (u_Lvls s)
     \<and> u_cLits s \<noteq> [] \<and> hd (u_cLits s) = LitNull
     \<and> (\<forall>n \<in> set (tl (u_cLits s)). lit_Not n \<in> set (trail_lits t) \<and> 0 < lev v n \<and> lev v n < tr_Level t)
     \<and> distinct (map lit_Var (tl (u_cLits s)))
     \<and> (\<forall>m \<in> set (trail_lits t). 0 < lev v m \<longrightarrow> lev v m < tr_Level t \<longrightarrow>
          (useen s m \<longleftrightarrow> lit_Not m \<in> set (tl (u_cLits s))))
     \<and> (\<forall>m \<in> set (trail_lits t). lev v m = tr_Level t \<longrightarrow> useen s m \<longrightarrow> lit_Not m \<in> set (u_sLits s))
     \<and> (\<forall>x < length (u_Seen s). u_Seen s ! x \<longrightarrow> (\<exists>m \<in> set (trail_lits t). unat (lit_Var m) = x))
     \<and> (\<forall>n \<in> set (u_sLits s). lit_Not n \<in> set (trail_lits t))
     \<and> u_count s = int (card (open_lits t v b s))
     \<and> 0 \<le> u_TargetLevel s \<and> u_TargetLevel s < tr_Level t
     \<and> (\<forall>n \<in> set (tl (u_cLits s)). lev v n \<le> u_TargetLevel s)
     \<and> guess_room fl v (u_guess s)"

lemma uinvD:
  assumes "uinv fl t v b s"
  shows "unat (vs_Top v) \<le> length (u_Seen s)" and "unat (vs_Top v) \<le> length (u_Lvls s)"
    and "u_cLits s \<noteq> []" and "hd (u_cLits s) = LitNull"
    and "n \<in> set (tl (u_cLits s)) \<Longrightarrow> lit_Not n \<in> set (trail_lits t) \<and> 0 < lev v n \<and> lev v n < tr_Level t"
    and "distinct (map lit_Var (tl (u_cLits s)))"
    and "m \<in> set (trail_lits t) \<Longrightarrow> 0 < lev v m \<Longrightarrow> lev v m < tr_Level t \<Longrightarrow>
       useen s m \<longleftrightarrow> lit_Not m \<in> set (tl (u_cLits s))"
    and "m \<in> set (trail_lits t) \<Longrightarrow> lev v m = tr_Level t \<Longrightarrow> useen s m \<Longrightarrow> lit_Not m \<in> set (u_sLits s)"
    and "x < length (u_Seen s) \<Longrightarrow> u_Seen s ! x \<Longrightarrow> \<exists>m \<in> set (trail_lits t). unat (lit_Var m) = x"
    and "n \<in> set (u_sLits s) \<Longrightarrow> lit_Not n \<in> set (trail_lits t)"
    and "u_count s = int (card (open_lits t v b s))"
    and "0 \<le> u_TargetLevel s" and "u_TargetLevel s < tr_Level t"
    and "n \<in> set (tl (u_cLits s)) \<Longrightarrow> lev v n \<le> u_TargetLevel s"
    and "guess_room fl v (u_guess s)"
  using assms unfolding uinv_def by blast+

definition covered :: "trail \<Rightarrow> vars \<Rightarrow> 'h uip \<Rightarrow> lit \<Rightarrow> bool" where
  "covered t v s n \<longleftrightarrow> lev v n = 0 \<or> n \<in> set (tl (u_cLits s)) \<or> lev v n = tr_Level t \<and> useen s n"

text \<open>Nothing is unmarked and no collected literal is dropped.\<close>

definition ugrows :: "'h uip \<Rightarrow> 'h uip \<Rightarrow> bool" where
  "ugrows s s' \<longleftrightarrow> (\<forall>m. useen s m \<longrightarrow> useen s' m) \<and> set (tl (u_cLits s)) \<subseteq> set (tl (u_cLits s'))
     \<and> u_cdb s' = u_cdb s"

lemma ugrows_refl [simp]: "ugrows s s"
  by (simp add: ugrows_def)

lemma ugrows_trans: "ugrows a b \<Longrightarrow> ugrows b c \<Longrightarrow> ugrows a c"
  unfolding ugrows_def by auto

lemma covered_grows: "ugrows s s' \<Longrightarrow> covered t v s n \<Longrightarrow> covered t v s' n"
  unfolding ugrows_def covered_def by blast

lemma Guess_Bump_room:
  assumes "guess_room fl v g" and "in_range v m"
  shows "returns (Guess_Bump fl m g) (\<lambda>(b, g'). guess_room fl v g' \<and> length (gs_pos g') = length (gs_pos g)
     \<and> set (gs_vhp g') = set (gs_vhp g))"
proof -
  have "unat (lit_Var m) < length (gs_pos g)" using assms by (simp add: guess_room_def in_range_def)
  from Guess_Bump_spec [OF _ this, of fl] show ?thesis
    using assms by (auto simp: returns_def guess_room_def)
qed

lemma mark_lit_spec:
  assumes ok: "trail_ok t v" and inv: "uinv fl t v b s" and b: "b \<le> tr_Tail t"
    and n: "lit_Not n \<in> set (take b (trail_lits t))" and lv: "0 < tr_Level t"
  shows "returns (mark_lit fl v (tr_Level t) n s) (\<lambda>s'. uinv fl t v b s' \<and> ugrows s s' \<and> covered t v s' n
     \<and> length (gs_pos (u_guess s')) = length (gs_pos (u_guess s))
     \<and> set (gs_vhp (u_guess s')) = set (gs_vhp (u_guess s))
     \<and> length (u_Seen s') = length (u_Seen s) \<and> length (u_Lvls s') = length (u_Lvls s))"
proof -
  note U = uinvD [OF inv]
  let ?T = "trail_lits t" and ?cur = "tr_Level t" and ?x = "unat (lit_Var n)"
  have len: "length ?T = tr_Tail t" using ok by simp
  have nT: "lit_Not n \<in> set ?T" using n by (rule in_set_takeD)
  have rg: "in_range v n" using trail_okD(6) [OF ok nT] by simp
  note vok = trail_okD(1) [OF ok]
  have xs: "?x < length (u_Seen s)" and xl: "?x < length (vs_Levels v)"
    using rg U(1) in_range_levels [OF vok rg] by (auto simp: in_range_def)
  have lvn: "vs_Levels v ! ?x = lev v n" by (simp add: lev_def)
  have lb: "0 \<le> lev v n" "lev v n \<le> ?cur" using lev_bounds [OF ok nT] by simp_all
  define sn where "sn = (u_Seen s)[?x := True]"
  have snI: "sn ! unat (lit_Var m) = (lit_Var m = lit_Var n \<or> useen s m)" for m
    using xs by (auto simp: sn_def useen_def nth_list_update word_eq_iff_unat)
  have sameT: "m = lit_Not n" if "m \<in> set ?T" "lit_Var m = lit_Var n" for m
    using that nT trail_okD(5) [OF ok] by (metis distinct_map inj_onD lit_Var_Not)
  have seenx: "\<exists>m \<in> set ?T. unat (lit_Var m) = y" if "y < length sn" "sn ! y" for y
    using that U(9) [of y] nT by (cases "y = ?x") (auto simp: sn_def intro: bexI [of _ "lit_Not n"])
  show ?thesis
  proof (cases "useen s n")
    case True
    have "covered t v s n"
      using U(7) [OF nT] True lb by (auto simp: covered_def useen_def)
    then show ?thesis
      using True xs inv by (simp add: mark_lit_def useen_def)
  next
    case unseen: False
    consider "lev v n = 0" | "0 < lev v n" "lev v n < ?cur" | "lev v n = ?cur" using lb by linarith
    then show ?thesis
    proof cases
      case 1
      let ?s = "s\<lparr>u_Seen := sn\<rparr>"
      have us: "useen ?s m \<longleftrightarrow> lit_Var m = lit_Var n \<or> useen s m" for m by (simp add: useen_def [of ?s] snI)
      have lev0: "lit_Var m \<noteq> lit_Var n" if "lev v m \<noteq> 0" for m using 1 that by (auto simp: lev_def)
      have ol: "open_lits t v b ?s = open_lits t v b s"
        using lv lev0 by (auto simp: open_lits_def us)
      have "uinv fl t v b ?s"
        unfolding uinv_def using U seenx lev0 lv by (simp add: us ol) (simp add: sn_def)
      then show ?thesis
        using 1 unseen xs xl by (simp add: mark_lit_def useen_def lev_def sn_def [symmetric] ugrows_def covered_def snI) (simp add: sn_def)
    next
      case 2
      have li: "nat (lev v n) < length (u_Lvls s)"
        using lb(2) trail_okD(9) [OF ok] trail_length_less [OF ok] U(2) len
          length_filter_le [of "\<lambda>m. reason v m = CNull" ?T] by (simp add: decs_def)
      define s' where "s' = (let s = s\<lparr>u_Seen := sn, u_cLits := u_cLits s @ [n],
          u_TargetLevel := (if u_TargetLevel s < lev v n then lev v n else u_TargetLevel s)\<rparr>
        in if \<not> u_Lvls s ! nat (lev v n) then s\<lparr>u_Lvls := (u_Lvls s)[nat (lev v n) := True], u_lbd := u_lbd s + 1\<rparr> else s)"
      have run: "mark_lit fl v ?cur n s = Some s'"
        using 2 unseen xs xl li by (simp add: mark_lit_def useen_def lvn s'_def sn_def Let_def)
      have f: "u_Seen s' = sn" "u_cLits s' = u_cLits s @ [n]" "u_sLits s' = u_sLits s" "u_count s' = u_count s"
        "u_TargetLevel s' = max (u_TargetLevel s) (lev v n)" "length (u_Lvls s') = length (u_Lvls s)"
        "u_guess s' = u_guess s" "u_cdb s' = u_cdb s"
        by (simp_all add: s'_def Let_def max_def)
      have us: "useen s' m \<longleftrightarrow> lit_Var m = lit_Var n \<or> useen s m" for m by (simp add: useen_def [of s'] f(1) snI)
      have tl: "tl (u_cLits s') = tl (u_cLits s) @ [n]" using U(3) by (simp add: f(2))
      have fresh: "lit_Var m \<noteq> lit_Var n" if m: "m \<in> set (tl (u_cLits s))" for m
      proof
        assume e: "lit_Var m = lit_Var n"
        have "lit_Not m \<in> set ?T" "0 < lev v m" "lev v m < ?cur" using U(5) [OF m] by auto
        then have "useen s (lit_Not m)" using U(7) [of "lit_Not m"] m by simp
        then show False using unseen e by (simp add: useen_def)
      qed
      have ol: "open_lits t v b s' = open_lits t v b s"
        using 2 by (auto simp: open_lits_def us lev_def)
      have low: "useen s' m \<longleftrightarrow> lit_Not m \<in> set (tl (u_cLits s'))"
        if "m \<in> set ?T" "0 < lev v m" "lev v m < ?cur" for m
        using U(7) [OF that] sameT [OF that(1)] by (auto simp: us tl lit_Not_eq_swap)
      have cur: "lit_Not m \<in> set (u_sLits s)" if "m \<in> set ?T" "lev v m = ?cur" "useen s' m" for m
        using U(8) [OF that(1,2)] that(2,3) 2 by (auto simp: us lev_def)
      have "uinv fl t v b s'"
        unfolding uinv_def
      proof (intro conjI allI ballI impI)
        show "u_cLits s' \<noteq> []" "hd (u_cLits s') = LitNull" using U(3,4) by (simp_all add: f(2))
        have "lit_Var n \<notin> lit_Var ` set (tl (u_cLits s))" using fresh by (metis imageE)
        then show "distinct (map lit_Var (tl (u_cLits s')))" using U(6) by (simp add: tl)
        show "lit_Not m \<in> set ?T" "0 < lev v m" "lev v m < ?cur" "lev v m \<le> u_TargetLevel s'"
          if "m \<in> set (tl (u_cLits s'))" for m
          using that U(5) [of m] U(14) [of m] nT 2 by (auto simp: tl f(5))
        show "\<exists>m\<in>set ?T. unat (lit_Var m) = y" if "y < length (u_Seen s')" "u_Seen s' ! y" for y
          using seenx that by (simp add: f(1))
      qed (use U low cur 2 in \<open>auto simp: f ol sn_def\<close>)
      moreover have "ugrows s s'" unfolding ugrows_def tl by (auto simp: us f)
      moreover have "covered t v s' n" by (simp add: covered_def tl)
      ultimately show ?thesis by (simp add: run f sn_def)
    next
      case 3
      obtain bb g where g: "Guess_Bump fl n (u_guess s) = Some (bb, g)" "guess_room fl v g"
        "length (gs_pos g) = length (gs_pos (u_guess s))" "set (gs_vhp g) = set (gs_vhp (u_guess s))"
        using Guess_Bump_room [OF U(15) rg] by (auto simp: returns_def)
      let ?s = "s\<lparr>u_Seen := sn, u_sLits := u_sLits s @ [n], u_guess := g, u_count := u_count s + 1\<rparr>"
      have run: "mark_lit fl v ?cur n s = Some ?s"
        using 3 lv unseen xs xl g(1) by (simp add: mark_lit_def useen_def lvn sn_def)
      have us: "useen ?s m \<longleftrightarrow> lit_Var m = lit_Var n \<or> useen s m" for m by (simp add: useen_def [of ?s] snI)
      obtain j where j: "j < b" "?T ! j = lit_Not n"
        using n b len by (auto simp: in_set_conv_nth)
      have uniq: "k = j" if "k < b" "lit_Var (?T ! k) = lit_Var n" for k
        using nth_eq_iff_index_eq [OF trail_okD(5) [OF ok], of k j] that j b len by simp
      have ol: "open_lits t v b ?s = insert j (open_lits t v b s)"
      proof (rule set_eqI)
        fix k
        show "k \<in> open_lits t v b ?s \<longleftrightarrow> k \<in> insert j (open_lits t v b s)"
        proof (cases "k = j")
          case True
          then show ?thesis using 3 j by (simp add: open_lits_def us)
        next
          case False
          then have "lit_Var (?T ! k) \<noteq> lit_Var n" if "k < b" using uniq that by blast
          then show ?thesis using False by (auto simp: open_lits_def us)
        qed
      qed
      have nj: "j \<notin> open_lits t v b s" using unseen j by (simp add: open_lits_def useen_def)
      have fin: "finite (open_lits t v b s)" by (simp add: open_lits_def)
      have low: "useen ?s m \<longleftrightarrow> lit_Not m \<in> set (tl (u_cLits s))"
        if "m \<in> set ?T" "0 < lev v m" "lev v m < ?cur" for m
        using U(7) [OF that] that(3) 3 by (auto simp: us lev_def)
      have cur: "lit_Not m \<in> set (u_sLits s @ [n])" if "m \<in> set ?T" "lev v m = ?cur" "useen ?s m" for m
        using U(8) [OF that(1,2)] that(3) sameT [OF that(1)] by (auto simp: us)
      have "uinv fl t v b ?s"
        unfolding uinv_def
      proof (intro conjI allI ballI impI)
        show "u_count ?s = int (card (open_lits t v b ?s))"
          unfolding ol using U(11) nj fin by simp
        show "\<exists>m\<in>set ?T. unat (lit_Var m) = y" if "y < length (u_Seen ?s)" "u_Seen ?s ! y" for y
          using seenx that by simp
      qed (use U low cur nT g(2) in \<open>auto simp: sn_def\<close>)
      moreover have "ugrows s ?s" by (simp add: ugrows_def us)
      moreover have "covered t v ?s n" using 3 by (simp add: covered_def us)
      ultimately show ?thesis by (simp add: run g sn_def)
    qed
  qed
qed

lemma mark_lits_spec:
  assumes ok: "trail_ok t v" and b: "b \<le> tr_Tail t" and lv: "0 < tr_Level t"
  shows "uinv fl t v b s \<Longrightarrow> \<forall>n \<in> set ns. lit_Not n \<in> set (take b (trail_lits t)) \<Longrightarrow>
    returns (foldM (mark_lit fl v (tr_Level t)) ns s) (\<lambda>s'. uinv fl t v b s' \<and> ugrows s s'
     \<and> (\<forall>n \<in> set ns. covered t v s' n)
     \<and> length (gs_pos (u_guess s')) = length (gs_pos (u_guess s))
     \<and> set (gs_vhp (u_guess s')) = set (gs_vhp (u_guess s))
     \<and> length (u_Seen s') = length (u_Seen s) \<and> length (u_Lvls s') = length (u_Lvls s))"
proof (induction ns arbitrary: s)
  case Nil
  then show ?case by simp
next
  case (Cons n ns)
  have n: "lit_Not n \<in> set (take b (trail_lits t))" using Cons.prems(2) by simp
  obtain s1 where s1: "mark_lit fl v (tr_Level t) n s = Some s1" "uinv fl t v b s1" "ugrows s s1" "covered t v s1 n"
    "length (gs_pos (u_guess s1)) = length (gs_pos (u_guess s))" "set (gs_vhp (u_guess s1)) = set (gs_vhp (u_guess s))"
    "length (u_Seen s1) = length (u_Seen s)" "length (u_Lvls s1) = length (u_Lvls s)"
    using mark_lit_spec [OF ok Cons.prems(1) b n lv] by (auto simp: returns_def)
  have "\<forall>n \<in> set ns. lit_Not n \<in> set (take b (trail_lits t))" using Cons.prems(2) by simp
  from Cons.IH [OF s1(2) this] obtain s2 where s2: "foldM (mark_lit fl v (tr_Level t)) ns s1 = Some s2"
    "uinv fl t v b s2" "ugrows s1 s2" "\<forall>n \<in> set ns. covered t v s2 n"
    "length (gs_pos (u_guess s2)) = length (gs_pos (u_guess s1))" "set (gs_vhp (u_guess s2)) = set (gs_vhp (u_guess s1))"
    "length (u_Seen s2) = length (u_Seen s1)" "length (u_Lvls s2) = length (u_Lvls s1)"
    by (auto simp: returns_def)
  have "ugrows s s2" "covered t v s2 n"
    using ugrows_trans [OF s1(3) s2(3)] covered_grows [OF s2(3) s1(4)] .
  then show ?case using s1(1,5-8) s2 by simp
qed

section \<open>The first unique implication point\<close>

text \<open>What is known to follow from the clauses while the trail is walked down to position \<open>b\<close>.\<close>

definition pending :: "assignment \<Rightarrow> trail \<Rightarrow> vars \<Rightarrow> nat \<Rightarrow> 'h uip \<Rightarrow> bool" where
  "pending \<sigma> t v b s \<longleftrightarrow> (\<exists>n \<in> set (tl (u_cLits s)). lit_true \<sigma> n)
     \<or> (\<exists>j \<in> open_lits t v b s. \<not> lit_true \<sigma> (trail_lits t ! j))"

lemma pending_grows: "ugrows s s' \<Longrightarrow> pending \<sigma> t v b s \<Longrightarrow> pending \<sigma> t v b s'"
  unfolding ugrows_def pending_def open_lits_def by blast

lemma covered_pending:
  assumes ok: "trail_ok t v" and rs: "reasons_ok D P t v" and sat: "sat_all \<sigma> D P"
    and n: "lit_Not n \<in> set (take b (trail_lits t))" "lit_true \<sigma> n" "covered t v s n" and b: "b \<le> tr_Tail t"
  shows "pending \<sigma> t v b s"
proof -
  have nT: "lit_Not n \<in> set (trail_lits t)" using n(1) by (rule in_set_takeD)
  have "lev v n \<noteq> 0"
    using level0_implied [OF ok rs sat nT] n(2) by auto
  then consider "n \<in> set (tl (u_cLits s))" | "lev v n = tr_Level t" "useen s n"
    using n(3) by (auto simp: covered_def)
  then show ?thesis
  proof cases
    case 1
    then show ?thesis using n(2) by (auto simp: pending_def)
  next
    case 2
    obtain j where j: "j < b" "trail_lits t ! j = lit_Not n"
      using n(1) b length_trail_lits [OF ok] by (auto simp: in_set_conv_nth)
    then have "j \<in> open_lits t v b s" using 2 by (simp add: open_lits_def useen_def)
    then show ?thesis using j(2) n(2) unfolding pending_def by (intro disjI2 bexI [of _ j]) simp_all
  qed
qed

text \<open>The clause database is only bumped during the analysis.\<close>

definition udb :: "clause list \<Rightarrow> cdb \<Rightarrow> 'h uip \<Rightarrow> bool" where
  "udb cls c s \<longleftrightarrow> (\<exists>cls'. db_ok cls' (u_cdb s) \<and> same_lits cls cls') \<and> u_cdb s = c\<lparr>cb_CDat := cb_CDat (u_cdb s)\<rparr>"

lemma udb_lits:
  assumes "db_ok cls c" and "udb cls c s"
  shows "store_ok (cd_D (cb_CDat (u_cdb s))) (locs cls)"
    and "p \<in> locs cls \<Longrightarrow> lits (cd_D (cb_CDat (u_cdb s))) p = lits (cd_D (cb_CDat c)) p"
proof -
  obtain cls' where c: "db_ok cls' (u_cdb s)" "same_lits cls cls'" using assms(2) by (auto simp: udb_def)
  have rep: "cdat_rep cls (cb_CDat c)" "cdat_rep cls' (cb_CDat (u_cdb s))" using assms(1) c(1) by (simp_all add: db_ok_def)
  show "store_ok (cd_D (cb_CDat (u_cdb s))) (locs cls)"
    using rep_store_ok [OF rep(2)] same_lits_locs [OF c(2)] by simp
  show "p \<in> locs cls \<Longrightarrow> lits (cd_D (cb_CDat (u_cdb s))) p = lits (cd_D (cb_CDat c)) p"
    by (rule same_lits_lits [OF c(2) rep])
qed

lemma udb_bump:
  assumes "udb cls c s" and "p \<in> locs cls"
  shows "returns (Cdb_Bump p (u_cdb s)) (\<lambda>c'. udb cls c (s\<lparr>u_cdb := c'\<rparr>))"
proof -
  obtain cls' where c: "db_ok cls' (u_cdb s)" "same_lits cls cls'" "u_cdb s = c\<lparr>cb_CDat := cb_CDat (u_cdb s)\<rparr>"
    using assms(1) by (auto simp: udb_def)
  have p: "p \<in> locs cls'" using assms(2) same_lits_locs [OF c(2)] by simp
  show ?thesis
  proof (rule returns_mono [OF Cdb_Bump_ok [OF c(1) p]])
    fix c' assume "\<exists>cls''. db_ok cls'' c' \<and> same_lits cls' cls'' \<and> c' = (u_cdb s)\<lparr>cb_CDat := cb_CDat c'\<rparr>"
    then obtain cls'' where c'': "db_ok cls'' c'" "same_lits cls' cls''" "c' = (u_cdb s)\<lparr>cb_CDat := cb_CDat c'\<rparr>" by blast
    have "c' = c\<lparr>cb_CDat := cb_CDat c'\<rparr>"
      by (subst c''(3), subst c(3)) simp
    then show "udb cls c (s\<lparr>u_cdb := c'\<rparr>)"
      using c'' same_lits_trans [OF c(2) c''(2)] by (auto simp: udb_def)
  qed
qed

lemma udb_grows: "udb cls c s \<Longrightarrow> ugrows s s' \<Longrightarrow> udb cls c s'"
  by (simp add: udb_def ugrows_def)

text \<open>The guess structure keeps its variables, the scratch arrays their lengths.\<close>

definition same_room :: "'h uip \<Rightarrow> 'h uip \<Rightarrow> bool" where
  "same_room s s' \<longleftrightarrow> length (gs_pos (u_guess s')) = length (gs_pos (u_guess s))
     \<and> set (gs_vhp (u_guess s')) = set (gs_vhp (u_guess s))
     \<and> length (u_Seen s') = length (u_Seen s) \<and> length (u_Lvls s') = length (u_Lvls s)"

lemma same_room_refl [simp]: "same_room s s"
  by (simp add: same_room_def)

lemma same_room_trans: "same_room a b \<Longrightarrow> same_room b c \<Longrightarrow> same_room a c"
  by (simp add: same_room_def)

definition ready :: "'h floats \<Rightarrow> clause list \<Rightarrow> cdb \<Rightarrow> trail \<Rightarrow> vars \<Rightarrow> nat \<Rightarrow> cloc \<Rightarrow> 'h uip \<Rightarrow> bool" where
  "ready fl cls c t v i p s \<longleftrightarrow> udb cls c s \<and> uinv fl t v (Suc i) s \<and> i < tr_Tail t
     \<and> (if p = CNull
        then 1 \<le> u_count s \<and> (\<forall>\<sigma>. sat_all \<sigma> (cd_D (cb_CDat c)) (locs cls) \<longrightarrow> pending \<sigma> t v (Suc i) s)
        else \<exists>q k. q \<in> locs cls \<and> p = q + of_nat k \<and> k \<le> length (lits (cd_D (cb_CDat c)) q)
          \<and> (\<forall>n \<in> set (drop k (lits (cd_D (cb_CDat c)) q)). lit_Not n \<in> set (take (Suc i) (trail_lits t)))
          \<and> (1 \<le> u_count s \<or> (\<exists>n \<in> set (drop k (lits (cd_D (cb_CDat c)) q)). lev v n = tr_Level t))
          \<and> (\<forall>\<sigma>. sat_all \<sigma> (cd_D (cb_CDat c)) (locs cls) \<longrightarrow>
               (\<exists>n \<in> set (drop k (lits (cd_D (cb_CDat c)) q)). lit_true \<sigma> n) \<or> pending \<sigma> t v (Suc i) s))"

lemma open_lits_grows: "ugrows s s' \<Longrightarrow> open_lits t v b s \<subseteq> open_lits t v b s'"
  by (auto simp: ugrows_def open_lits_def)

lemma finite_open_lits [simp]: "finite (open_lits t v b s)"
  by (simp add: open_lits_def)

lemma ready_mark:
  assumes ok: "trail_ok t v" and rs: "reasons_ok (cd_D (cb_CDat c)) (locs cls) t v" and db: "db_ok cls c"
    and lv: "0 < tr_Level t" and rd: "ready fl cls c t v i p s"
  shows "returns (if p \<noteq> CNull then uip_mark fl v (tr_Level t) p s else Some s)
    (\<lambda>s'. ready fl cls c t v i CNull s' \<and> same_room s s')"
proof (cases "p = CNull")
  case True
  then show ?thesis using rd by simp
next
  case False
  let ?D = "cd_D (cb_CDat c)" and ?P = "locs cls"
  obtain q k where q: "q \<in> ?P" "p = q + of_nat k" and k: "k \<le> length (lits ?D q)"
    and before: "\<forall>n \<in> set (drop k (lits ?D q)). lit_Not n \<in> set (take (Suc i) (trail_lits t))"
    and cnt: "1 \<le> u_count s \<or> (\<exists>n \<in> set (drop k (lits ?D q)). lev v n = tr_Level t)"
    and sem: "\<forall>\<sigma>. sat_all \<sigma> ?D ?P \<longrightarrow> (\<exists>n \<in> set (drop k (lits ?D q)). lit_true \<sigma> n) \<or> pending \<sigma> t v (Suc i) s"
    using rd False by (auto simp: ready_def)
  have u: "udb cls c s" and inv: "uinv fl t v (Suc i) s" and i: "i < tr_Tail t" using rd by (simp_all add: ready_def)
  note L = udb_lits [OF db u]
  have run: "uip_mark fl v (tr_Level t) p s = foldM (mark_lit fl v (tr_Level t)) (drop k (lits ?D q)) s"
    unfolding q(2) using uip_mark_fold [OF L(1) q(1), of k fl v "tr_Level t"] k L(2) [OF q(1)] by simp
  have b: "Suc i \<le> tr_Tail t" using i by simp
  obtain s' where s': "uip_mark fl v (tr_Level t) p s = Some s'" "uinv fl t v (Suc i) s'" "ugrows s s'"
    "\<forall>n \<in> set (drop k (lits ?D q)). covered t v s' n" "same_room s s'"
    using mark_lits_spec [OF ok b lv inv before] unfolding run same_room_def by (auto simp: returns_def)
  have "open_lits t v (Suc i) s' \<noteq> {}"
  proof (cases "1 \<le> u_count s")
    case True
    then have "open_lits t v (Suc i) s \<noteq> {}" using uinvD(11) [OF inv] by auto
    then show ?thesis using open_lits_grows [OF s'(3)] by blast
  next
    case False
    then obtain n where n: "n \<in> set (drop k (lits ?D q))" "lev v n = tr_Level t" using cnt by blast
    then have "useen s' n"
      using s'(4) lv uinvD(5) [OF s'(2), of n] by (auto simp: covered_def)
    moreover obtain j where "j < Suc i" "trail_lits t ! j = lit_Not n"
      using before n(1) i length_trail_lits [OF ok] by (force simp: in_set_conv_nth)
    ultimately have "j \<in> open_lits t v (Suc i) s'" using n(2) by (simp add: open_lits_def useen_def)
    then show ?thesis by blast
  qed
  then have "1 \<le> u_count s'"
    using uinvD(11) [OF s'(2)] by (simp add: Suc_le_eq card_gt_0_iff)
  moreover have "pending \<sigma> t v (Suc i) s'" if sat: "sat_all \<sigma> ?D ?P" for \<sigma>
    using sem sat pending_grows [OF s'(3)] covered_pending [OF ok rs sat _ _ _ b] before s'(4) by blast
  ultimately have "ready fl cls c t v i CNull s'"
    using udb_grows [OF u s'(3)] s'(2) i by (simp add: ready_def)
  then show ?thesis using False s'(1,5) by simp
qed

text \<open>
  The result: the complement of a literal of the current level in front of literals that are false
  at lower levels, a clause that follows from the database.
\<close>

definition uip_post ::
    "'h floats \<Rightarrow> clause list \<Rightarrow> cdb \<Rightarrow> trail \<Rightarrow> vars \<Rightarrow> 'h uip \<Rightarrow> 'h uip \<Rightarrow> bool" where
  "uip_post fl cls c t v s s' \<longleftrightarrow> (\<exists>m b s0. m \<in> set (trail_lits t) \<and> lev v m = tr_Level t \<and> useen s0 m
     \<and> uinv fl t v b s0 \<and> u_cLits s' = lit_Not m # tl (u_cLits s0) \<and> u_Seen s' = u_Seen s0
     \<and> u_sLits s' = u_sLits s0 \<and> u_TargetLevel s' = u_TargetLevel s0 \<and> u_Lvls s' = u_Lvls s0)
     \<and> guess_room fl v (u_guess s') \<and> udb cls c s' \<and> same_room s s'
     \<and> (\<forall>\<sigma>. sat_all \<sigma> (cd_D (cb_CDat c)) (locs cls) \<longrightarrow> clause_true \<sigma> (u_cLits s'))"

lemma uip_post_trans: "same_room s s1 \<Longrightarrow> uip_post fl cls c t v s1 s' \<Longrightarrow> uip_post fl cls c t v s s'"
  unfolding uip_post_def using same_room_trans by blast

lemma uinv_drop:
  assumes inv: "uinv fl t v (Suc i) s" and seen: "useen s (trail_lits t ! i)"
    and lv: "lev v (trail_lits t ! i) = tr_Level t"
  shows "uinv fl t v i (s\<lparr>u_count := u_count s - 1\<rparr>)"
    and "open_lits t v (Suc i) s = insert i (open_lits t v i s)"
    and "u_count s - 1 = int (card (open_lits t v i s))"
proof -
  show ol: "open_lits t v (Suc i) s = insert i (open_lits t v i s)"
    using seen lv by (auto simp: open_lits_def less_Suc_eq)
  have "i \<notin> open_lits t v i s" by (simp add: open_lits_def)
  then show c: "u_count s - 1 = int (card (open_lits t v i s))"
    using uinvD(11) [OF inv] by (simp add: ol)
  have eq: "useen (s\<lparr>u_count := k\<rparr>) = useen s" "open_lits t v i (s\<lparr>u_count := k\<rparr>) = open_lits t v i s" for k
    by (auto simp: useen_def open_lits_def)
  show "uinv fl t v i (s\<lparr>u_count := u_count s - 1\<rparr>)"
    using inv c unfolding uinv_def eq by simp
qed

lemma uip_loop_spec:
  assumes ok: "trail_ok t v" and rs: "reasons_ok (cd_D (cb_CDat c)) (locs cls) t v" and db: "db_ok cls c"
    and lv: "0 < tr_Level t" and D: "tr_D t = T"
  shows "ready fl cls c t v i p s \<Longrightarrow>
    returns (uip_loop fl v (tr_Level t) T (Suc i) p s) (uip_post fl cls c t v s)"
proof (induction i arbitrary: p s rule: less_induct)
  case (less i)
  let ?D = "cd_D (cb_CDat c)" and ?P = "locs cls" and ?m = "trail_lits t ! i"
  have len: "length (trail_lits t) = tr_Tail t" using ok by simp
  obtain s1 where mark: "(if p \<noteq> CNull then uip_mark fl v (tr_Level t) p s else Some s) = Some s1"
    and rd: "ready fl cls c t v i CNull s1" and room: "same_room s s1"
    using ready_mark [OF ok rs db lv less.prems] unfolding returns_def by blast
  have u: "udb cls c s1" and inv: "uinv fl t v (Suc i) s1" and i: "i < tr_Tail t" and cnt: "1 \<le> u_count s1"
    and sem: "\<And>\<sigma>. sat_all \<sigma> ?D ?P \<Longrightarrow> pending \<sigma> t v (Suc i) s1"
    using rd by (simp_all add: ready_def)
  note U = uinvD [OF inv]
  have mT: "?m \<in> set (trail_lits t)" using i len by simp
  have rg: "in_range v ?m" using trail_okD(6) [OF ok mT] .
  have get: "aget T i = Some ?m"
    using i trail_okD(3) [OF ok] by (simp add: D [symmetric] trail_nth)
  have gs: "aget (u_Seen s1) (unat (lit_Var ?m)) = Some (useen s1 ?m)"
    using rg U(1) by (simp add: in_range_def useen_def)
  have topl: "lev v ?m = tr_Level t"
  proof -
    have "open_lits t v (Suc i) s1 \<noteq> {}" using cnt U(11) by auto
    then obtain j where "j \<le> i" "lev v (trail_lits t ! j) = tr_Level t" by (auto simp: open_lits_def less_Suc_eq_le)
    then show ?thesis using lev_mono [OF ok, of j i] lev_bounds(2) [OF ok mT] i by simp
  qed
  show ?case
  proof (cases "useen s1 ?m")
    case False
    have ol: "open_lits t v (Suc i) s1 = open_lits t v i s1"
      using False by (auto simp: open_lits_def less_Suc_eq)
    have "open_lits t v i s1 \<noteq> {}" using cnt U(11) ol by auto
    then have "0 < i" by (auto simp: open_lits_def)
    then obtain i' where i': "i = Suc i'" by (cases i) auto
    have "ready fl cls c t v i' CNull s1"
      using u inv i cnt sem ol unfolding ready_def uinv_def pending_def i' by simp
    from less.IH [OF _ this] show ?thesis
      using mark get gs False uip_post_trans [OF room] unfolding i' by (auto simp: returns_def)
  next
    case True
    note dr = uinv_drop [OF inv True topl]
    let ?s = "s1\<lparr>u_count := u_count s1 - 1\<rparr>"
    have stl: "tl (u_cLits ?s) = tl (u_cLits s1)" "useen ?s = useen s1" "open_lits t v b ?s = open_lits t v b s1" for b
      by (auto simp: useen_def open_lits_def)
    show ?thesis
    proof (cases "u_count s1 - 1 = 0")
      case zero: True
      then have none: "open_lits t v i s1 = {}" using dr(3) by simp
      obtain bb g where g: "Guess_Bump fl ?m (u_guess s1) = Some (bb, g)" "guess_room fl v g"
        "length (gs_pos g) = length (gs_pos (u_guess s1))" "set (gs_vhp g) = set (gs_vhp (u_guess s1))"
        using Guess_Bump_room [OF U(15) rg] by (auto simp: returns_def)
      let ?s' = "?s\<lparr>u_cLits := lit_Not ?m # tl (u_cLits s1), u_guess := g\<rparr>"
      have cl: "(u_cLits s1)[0 := lit_Not ?m] = lit_Not ?m # tl (u_cLits s1)" "0 < length (u_cLits s1)"
        using U(3) by (cases "u_cLits s1"; simp)+
      have run: "uip_loop fl v (tr_Level t) T (Suc i) p s = Some ?s'"
        using mark get gs True zero g(1) cl by (simp add: Let_def)
      have "clause_true \<sigma> (u_cLits ?s')" if "sat_all \<sigma> ?D ?P" for \<sigma>
        using sem [OF that] none by (auto simp: pending_def dr(2) clause_true_def)
      then have "uip_post fl cls c t v s1 ?s'"
        using mT topl True dr(1) g u unfolding uip_post_def
        by (intro conjI exI [of _ ?m] exI [of _ i] exI [of _ ?s]) (simp_all add: stl udb_def same_room_def)
      then show ?thesis using run uip_post_trans [OF room] by simp
    next
      case more: False
      then obtain j where j: "j \<in> open_lits t v i s1"
        using dr(3) by (cases "open_lits t v i s1 = {}") auto
      then have ji: "j < i" "lev v (trail_lits t ! j) = lev v ?m" using topl by (simp_all add: open_lits_def)
      then obtain i' where i': "i = Suc i'" by (cases i) auto
      have r: "reason v ?m \<noteq> CNull" by (rule later_implied [OF ok ji(1) i ji(2)])
      note R = reasons_okD [OF rs i r]
      have getr: "aget (vs_Reasons v) (unat (lit_Var ?m)) = Some (reason v ?m)"
        using in_range_reasons [OF trail_okD(1) [OF ok] rg] by (simp add: reason_def)
      have us: "udb cls c ?s" using u by (simp add: udb_def)
      obtain c' where c': "Cdb_Bump (reason v ?m) (u_cdb s1) = Some c'" "udb cls c (?s\<lparr>u_cdb := c'\<rparr>)"
        using udb_bump [OF us R(1)] by (auto simp: returns_def)
      let ?s2 = "?s\<lparr>u_cdb := c'\<rparr>"
      have s2: "tl (u_cLits ?s2) = tl (u_cLits s1)" "useen ?s2 = useen s1" "open_lits t v b ?s2 = open_lits t v b s1" for b
        by (auto simp: useen_def open_lits_def)
      have inv2: "uinv fl t v i ?s2" using dr(1) unfolding uinv_def s2 stl by simp
      have drop1: "drop 1 (lits ?D (reason v ?m)) = tl (lits ?D (reason v ?m))" by (simp add: drop_Suc)
      have k1: "1 \<le> length (lits ?D (reason v ?m))" using R(2) by (metis length_Cons le_add1 plus_1_eq_Suc)
      have pnz: "reason v ?m + 1 \<noteq> CNull"
        using unat_loc_plus [OF rep_store_ok R(1), of "cb_CDat c" 1] db k1
        by (auto simp: db_ok_def CNull_def)
      have sem2: "(\<exists>n \<in> set (tl (lits ?D (reason v ?m))). lit_true \<sigma> n) \<or> pending \<sigma> t v i ?s2"
        if sat: "sat_all \<sigma> ?D ?P" for \<sigma>
      proof -
        have "clause_true \<sigma> (?m # tl (lits ?D (reason v ?m)))"
          using sat R(1,2) unfolding sat_all_def by metis
        then show ?thesis
          using sem [OF sat] by (auto simp: pending_def s2 dr(2) clause_true_def)
      qed
      have "ready fl cls c t v i' (reason v ?m + 1) ?s2"
        unfolding ready_def
      proof (intro conjI)
        show "uinv fl t v (Suc i') ?s2" using inv2 by (simp only: i')
        show "if reason v ?m + 1 = CNull
          then 1 \<le> u_count ?s2 \<and> (\<forall>\<sigma>. sat_all \<sigma> ?D ?P \<longrightarrow> pending \<sigma> t v (Suc i') ?s2)
          else \<exists>q k. q \<in> ?P \<and> reason v ?m + 1 = q + of_nat k \<and> k \<le> length (lits ?D q)
            \<and> (\<forall>n \<in> set (drop k (lits ?D q)). lit_Not n \<in> set (take (Suc i') (trail_lits t)))
            \<and> (1 \<le> u_count ?s2 \<or> (\<exists>n \<in> set (drop k (lits ?D q)). lev v n = tr_Level t))
            \<and> (\<forall>\<sigma>. sat_all \<sigma> ?D ?P \<longrightarrow>
                 (\<exists>n \<in> set (drop k (lits ?D q)). lit_true \<sigma> n) \<or> pending \<sigma> t v (Suc i') ?s2)"
          using pnz R(1,3) k1 more cnt sem2 unfolding drop1 [symmetric] i' [symmetric]
          by (simp, intro exI [of _ "reason v ?m"] conjI exI [of _ 1]) simp_all
      qed (use c'(2) i i' in simp_all)
      from less.IH [OF _ this] have "returns (uip_loop fl v (tr_Level t) T i (reason v ?m + 1) ?s2) (uip_post fl cls c t v ?s2)"
        by (simp add: i')
      moreover have "same_room s1 ?s2" by (simp add: same_room_def)
      moreover have "uip_loop fl v (tr_Level t) T (Suc i) p s = uip_loop fl v (tr_Level t) T i (reason v ?m + 1) ?s2"
        using mark get gs True more getr c'(1) by (simp add: Let_def)
      ultimately show ?thesis
        using uip_post_trans [OF room] uip_post_trans [of s1 ?s2] by (auto simp: returns_def)
    qed
  qed
qed

end
