(* ===== verification/Minimise.thy ===== *)
theory Minimise
  imports Analysis
begin

text \<open>
  Minimisation removes from a derived clause literals that follow from the others through reason
  clauses.  The marks are \<open>1\<close> for a literal that is in the clause or implied, \<open>-1\<close> for one that is
  not, and \<open>0\<close> for one not looked at.
\<close>

definition mark_of :: "int list \<Rightarrow> lit \<Rightarrow> int" where
  "mark_of rdnt m = rdnt ! unat (lit_Var m)"

lemma mark_of_Not [simp]: "mark_of rdnt (lit_Not m) = mark_of rdnt m"
  by (simp add: mark_of_def)

text \<open>A literal of the trail whose reason consists of marked literals and literals of the clause.\<close>

definition supported :: "u32 list \<Rightarrow> vars \<Rightarrow> var set \<Rightarrow> int list \<Rightarrow> lit \<Rightarrow> bool" where
  "supported D v K rdnt m \<longleftrightarrow> reason v m \<noteq> CNull
     \<and> (\<forall>n \<in> set (tl (lits D (reason v m))). mark_of rdnt n = 1 \<or> lit_Var n \<in> K)"

definition marks_ok :: "u32 list \<Rightarrow> trail \<Rightarrow> vars \<Rightarrow> var set \<Rightarrow> int list \<Rightarrow> bool" where
  "marks_ok D t v K rdnt \<longleftrightarrow> unat (vs_Top v) \<le> length rdnt \<and> set rdnt \<subseteq> {-1, 0, 1}
     \<and> (\<forall>m \<in> set (trail_lits t). mark_of rdnt m = 1 \<longrightarrow> lit_Var m \<in> K \<or> supported D v K rdnt m)"

lemma supported_mono:
  "supported D v K rdnt m \<Longrightarrow> (\<And>n. mark_of rdnt n = 1 \<Longrightarrow> mark_of rdnt' n = 1) \<Longrightarrow> supported D v K rdnt' m"
  unfolding supported_def by blast

text \<open>What one visit may change: marks of variables up to position \<open>i\<close> of the trail, from zero.\<close>

definition visited ::
    "u32 list \<Rightarrow> trail \<Rightarrow> vars \<Rightarrow> var set \<Rightarrow> nat \<Rightarrow> lit list \<Rightarrow> int list \<Rightarrow> lit list \<Rightarrow> int list \<Rightarrow> bool" where
  "visited D t v K i rl rdnt rl' rdnt' \<longleftrightarrow> marks_ok D t v K rdnt' \<and> length rdnt' = length rdnt
     \<and> (\<forall>n. mark_of rdnt n = 1 \<longrightarrow> mark_of rdnt' n = 1)
     \<and> (\<forall>j < tr_Tail t. i \<le> j \<longrightarrow> mark_of rdnt' (trail_lits t ! j) = mark_of rdnt (trail_lits t ! j))
     \<and> (\<forall>x < length rdnt. rdnt' ! x \<noteq> 0 \<longrightarrow> rdnt ! x \<noteq> 0 \<or> x \<in> (unat \<circ> lit_Var) ` set rl')
     \<and> set rl \<subseteq> set rl' \<and> (\<forall>m \<in> set rl'. m \<in> set rl \<or> lit_Not m \<in> set (trail_lits t))"

lemma visitedD:
  assumes "visited D t v K i rl rdnt rl' rdnt'"
  shows "marks_ok D t v K rdnt'" and "length rdnt' = length rdnt"
    and "mark_of rdnt n = 1 \<Longrightarrow> mark_of rdnt' n = 1"
    and "j < tr_Tail t \<Longrightarrow> i \<le> j \<Longrightarrow> mark_of rdnt' (trail_lits t ! j) = mark_of rdnt (trail_lits t ! j)"
    and "x < length rdnt \<Longrightarrow> rdnt' ! x \<noteq> 0 \<Longrightarrow> rdnt ! x \<noteq> 0 \<or> x \<in> (unat \<circ> lit_Var) ` set rl'"
    and "set rl \<subseteq> set rl'" and "m \<in> set rl' \<Longrightarrow> m \<in> set rl \<or> lit_Not m \<in> set (trail_lits t)"
  using assms unfolding visited_def by blast+

lemma visited_refl: "marks_ok D t v K rdnt \<Longrightarrow> visited D t v K i rl rdnt rl rdnt"
  by (auto simp: visited_def)

lemma visited_trans:
  assumes "visited D t v K i rl rdnt rl1 rdnt1" and "visited D t v K j rl1 rdnt1 rl2 rdnt2" and "i \<le> k" and "j \<le> k"
  shows "visited D t v K k rl rdnt rl2 rdnt2"
proof -
  note A = visitedD [OF assms(1)] and B = visitedD [OF assms(2)]
  have "rdnt ! x \<noteq> 0 \<or> x \<in> (unat \<circ> lit_Var) ` set rl2" if "x < length rdnt" "rdnt2 ! x \<noteq> 0" for x
    using A(2) A(5) [of x] B(5) [of x] B(6) that by auto
  moreover have "mark_of rdnt2 (trail_lits t ! j) = mark_of rdnt (trail_lits t ! j)" if "j < tr_Tail t" "k \<le> j" for j
    using A(4) [of j] B(4) [of j] that assms(3,4) by simp
  moreover have "m \<in> set rl \<or> lit_Not m \<in> set (trail_lits t)" if "m \<in> set rl2" for m
    using A(7) B(7) [OF that] by blast
  moreover have "mark_of rdnt2 n = 1" if "mark_of rdnt n = 1" for n by (rule B(3) [OF A(3) [OF that]])
  ultimately show ?thesis
    using B(1) A(2) B(2) subset_trans [OF A(6) B(6)] by (simp add: visited_def)
qed

lemma visited_later: "visited D t v K i rl rdnt rl' rdnt' \<Longrightarrow> i \<le> k \<Longrightarrow> visited D t v K k rl rdnt rl' rdnt'"
  by (simp add: visited_def)

text \<open>Setting one mark that was zero.\<close>

lemma set_mark:
  assumes ok: "trail_ok t v" and M: "marks_ok D t v K rdnt" and i: "i < tr_Tail t" and n: "trail_lits t ! i = lit_Not n"
    and zero: "mark_of rdnt n = 0" and x: "x = -1 \<or> x = 1 \<and> supported D v K rdnt (lit_Not n)" and rl: "n \<in> set rl"
  shows "visited D t v K (Suc i) rl rdnt rl (rdnt[unat (lit_Var n) := x])"
    and "mark_of (rdnt[unat (lit_Var n) := x]) n = x"
proof -
  let ?r = "rdnt[unat (lit_Var n) := x]"
  have len: "length (trail_lits t) = tr_Tail t" using ok by simp
  have nT: "lit_Not n \<in> set (trail_lits t)" using i n len by (metis nth_mem)
  have xl: "unat (lit_Var n) < length rdnt"
    using trail_okD(6) [OF ok nT] M by (simp add: in_range_def marks_ok_def)
  have mk: "mark_of ?r m = (if lit_Var m = lit_Var n then x else mark_of rdnt m)" for m
    using xl by (auto simp: mark_of_def nth_list_update word_eq_iff_unat)
  then show own: "mark_of ?r n = x" by simp
  have mono: "mark_of ?r m = 1" if "mark_of rdnt m = 1" for m
  proof -
    have "lit_Var m \<noteq> lit_Var n" using that zero by (auto simp: mark_of_def)
    then show ?thesis using that by (simp add: mk)
  qed
  have same: "m = lit_Not n" if "m \<in> set (trail_lits t)" "lit_Var m = lit_Var n" for m
    using that nT trail_okD(5) [OF ok] by (metis distinct_map inj_onD lit_Var_Not)
  have "marks_ok D t v K ?r"
    unfolding marks_ok_def
  proof (intro conjI ballI impI)
    show "set ?r \<subseteq> {-1, 0, 1}"
      using M x set_update_subset_insert [of rdnt "unat (lit_Var n)" x] unfolding marks_ok_def by blast
    fix m assume m: "m \<in> set (trail_lits t)" "mark_of ?r m = 1"
    show "lit_Var m \<in> K \<or> supported D v K ?r m"
    proof (cases "lit_Var m = lit_Var n")
      case True
      then have "x = 1" using m(2) by (simp add: mk)
      then show ?thesis using x supported_mono [OF _ mono] same [OF m(1) True] by auto
    next
      case False
      then have "mark_of rdnt m = 1" using m(2) by (simp add: mk)
      then show ?thesis using M m(1) supported_mono [OF _ mono] unfolding marks_ok_def by blast
    qed
  qed (use M in \<open>simp add: marks_ok_def\<close>)
  moreover have "mark_of ?r (trail_lits t ! j) = mark_of rdnt (trail_lits t ! j)" if "j < tr_Tail t" "Suc i \<le> j" for j
  proof -
    have "lit_Var (trail_lits t ! j) \<noteq> lit_Var (trail_lits t ! i)"
      using nth_eq_iff_index_eq [OF trail_okD(5) [OF ok], of j i] that i len by simp
    then show ?thesis by (simp add: mk n)
  qed
  moreover have "rdnt ! y \<noteq> 0 \<or> y \<in> (unat \<circ> lit_Var) ` set rl" if "?r ! y \<noteq> 0" for y
    using that rl by (cases "y = unat (lit_Var n)") auto
  ultimately show "visited D t v K (Suc i) rl rdnt rl ?r"
    using mono by (simp add: visited_def)
qed

section \<open>The recursion\<close>

definition rec_post ::
    "u32 list \<Rightarrow> trail \<Rightarrow> vars \<Rightarrow> var set \<Rightarrow> nat \<Rightarrow> lit \<Rightarrow> lit list \<Rightarrow> int list \<Rightarrow> bool \<times> lit list \<times> int list \<Rightarrow> bool" where
  "rec_post D t v K i n rl rdnt r \<longleftrightarrow> (case r of (b, rl', rdnt') \<Rightarrow>
     visited D t v K (Suc i) rl rdnt rl' rdnt' \<and> (b \<longrightarrow> mark_of rdnt' n = 1)
     \<and> (mark_of rdnt n = 0 \<longrightarrow> n \<in> set rl' \<and> (b \<longrightarrow> supported D v K rdnt' (lit_Not n))))"

lemma mark_values:
  assumes "marks_ok D t v K rdnt" and "in_range v n"
  shows "unat (lit_Var n) < length rdnt" and "mark_of rdnt n = -1 \<or> mark_of rdnt n = 0 \<or> mark_of rdnt n = 1"
proof -
  show l: "unat (lit_Var n) < length rdnt" using assms by (simp add: marks_ok_def in_range_def)
  then have "mark_of rdnt n \<in> set rdnt" by (simp add: mark_of_def)
  then show "mark_of rdnt n = -1 \<or> mark_of rdnt n = 0 \<or> mark_of rdnt n = 1"
    using assms(1) unfolding marks_ok_def by blast
qed

lemma rec_scan:
  assumes ok: "trail_ok t v" and rs: "reasons_ok D P t v" and st: "store_ok D P"
    and i: "i < tr_Tail t" and n: "trail_lits t ! i = lit_Not n" and r: "reason v n \<noteq> CNull"
    and IH: "\<And>j n rl rdnt. j < i \<Longrightarrow> trail_lits t ! j = lit_Not n \<Longrightarrow> marks_ok D t v K rdnt \<Longrightarrow>
      returns (isRdntRec D v lvls (RLit n) (rl, rdnt)) (rec_post D t v K j n rl rdnt)"
  shows "marks_ok D t v K rdnt \<Longrightarrow> mark_of rdnt n = 0 \<Longrightarrow> n \<in> set rl \<Longrightarrow>
     1 \<le> k \<Longrightarrow> k \<le> length (lits D (reason v n)) \<Longrightarrow>
     \<forall>j. 1 \<le> j \<and> j < k \<longrightarrow> mark_of rdnt (lits D (reason v n) ! j) = 1 \<or> lit_Var (lits D (reason v n) ! j) \<in> K \<Longrightarrow>
     returns (isRdntRec D v lvls (RScan (lit_Var n) (reason v n + of_nat k)) (rl, rdnt)) (rec_post D t v K i n rl rdnt)"
proof (induction "length (lits D (reason v n)) - k" arbitrary: k rl rdnt)
  case 0
  let ?r = "reason v n"
  have r': "reason v (trail_lits t ! i) \<noteq> CNull" using r by (simp add: n)
  note R = reasons_okD [OF rs i r', unfolded n reason_Not]
  have len: "length (trail_lits t) = tr_Tail t" using ok by simp
  have rg: "in_range v n" using trail_okD(6) [OF ok, of "lit_Not n"] i n len by (metis in_range_Not nth_mem)
  have k: "k = length (lits D ?r)" using 0 by simp
  have get: "aget D (unat (?r + of_nat k)) = Some LitNull" using aget_lits [OF st R(1), of k] k by simp
  have sup: "supported D v K rdnt (lit_Not n)"
    unfolding supported_def reason_Not
  proof (intro conjI r ballI)
    fix m assume "m \<in> set (tl (lits D ?r))"
    then obtain j where "j < length (tl (lits D ?r))" "m = tl (lits D ?r) ! j" by (auto simp: in_set_conv_nth)
    then have "m = lits D ?r ! Suc j" "Suc j < k" by (simp_all add: k nth_tl)
    then show "mark_of rdnt m = 1 \<or> lit_Var m \<in> K" using 0(7) by simp
  qed
  note S = set_mark [OF ok 0(2) i n 0(3) disjI2 [OF conjI [OF refl sup]] 0(4)]
  have "supported D v K (rdnt[unat (lit_Var n) := 1]) (lit_Not n)"
    using supported_mono [OF sup] visitedD(3) [OF S(1)] by blast
  then show ?case
    using get S 0(4) mark_values(1) [OF 0(2) rg]
    by (subst isRdntRec.simps) (simp add: rec_post_def)
next
  case (Suc d)
  let ?r = "reason v n" let ?ms = "lits D (reason v n)"
  have r': "reason v (trail_lits t ! i) \<noteq> CNull" using r by (simp add: n)
  note R = reasons_okD [OF rs i r', unfolded n reason_Not]
  have len: "length (trail_lits t) = tr_Tail t" using ok by simp
  have rg: "in_range v n" using trail_okD(6) [OF ok, of "lit_Not n"] i n len by (metis in_range_Not nth_mem)
  have k: "k < length ?ms" using Suc.hyps(2) by simp
  let ?x = "?ms ! k"
  have get: "aget D (unat (?r + of_nat k)) = Some ?x" using aget_lits [OF st R(1), of k] k by simp
  have xn: "?x \<noteq> LitNull" using k lits_nonnull [of D ?r] by (metis nth_mem)
  obtain k' where k': "k = Suc k'" using Suc.prems(4) by (cases k) auto
  have "?x \<in> set (tl ?ms)" using nth_mem [of k' "tl ?ms"] k by (simp add: k' nth_tl)
  then obtain j where j: "j < i" "trail_lits t ! j = lit_Not ?x"
    using R(3) i len by (force simp: in_set_conv_nth)
  obtain b rl1 rdnt1 where rec: "isRdntRec D v lvls (RLit ?x) (rl, rdnt) = Some (b, rl1, rdnt1)"
    and post: "rec_post D t v K j ?x rl rdnt (b, rl1, rdnt1)"
    using IH [OF j Suc.prems(1), of rl] by (auto simp: returns_def)
  have vis: "visited D t v K (Suc j) rl rdnt rl1 rdnt1" and bx: "b \<Longrightarrow> mark_of rdnt1 ?x = 1"
    using post by (simp_all add: rec_post_def)
  note V = visitedD [OF vis]
  have zero: "mark_of rdnt1 n = 0" using V(4) [of i] j(1) i Suc.prems(2) by (simp add: n)
  have nrl: "n \<in> set rl1" using V(6) Suc.prems(3) by blast
  have vis': "visited D t v K (Suc i) rl rdnt rl1 rdnt1" by (rule visited_later [OF vis]) (use j in simp)
  have nx: "?r + of_nat k + 1 = ?r + of_nat (Suc k)" by simp
  have step: "isRdntRec D v lvls (RScan (lit_Var n) (?r + of_nat k)) (rl, rdnt)
    = (if \<not> b then do { rdnt \<leftarrow> aset rdnt1 (unat (lit_Var n)) (-1); Some (False, rl1, rdnt) }
       else isRdntRec D v lvls (RScan (lit_Var n) (?r + of_nat (Suc k))) (rl1, rdnt1))"
    unfolding nx [symmetric] by (subst isRdntRec.simps) (simp add: get xn rec)
  show ?case
  proof (cases b)
    case False
    note S = set_mark [OF ok V(1) i n zero disjI1 [OF refl] nrl]
    have "visited D t v K (Suc i) rl rdnt rl1 (rdnt1[unat (lit_Var n) := -1])"
      by (rule visited_trans [OF vis' S(1)]) simp_all
    then show ?thesis
      using False nrl mark_values(1) [OF V(1) rg] by (simp add: step rec_post_def del: of_nat_Suc)
  next
    case True
    have "\<forall>j'. 1 \<le> j' \<and> j' < Suc k \<longrightarrow> mark_of rdnt1 (?ms ! j') = 1 \<or> lit_Var (?ms ! j') \<in> K"
      using Suc.prems(6) bx [OF True] V(3) by (metis less_SucE)
    then have "returns (isRdntRec D v lvls (RScan (lit_Var n) (?r + of_nat (Suc k))) (rl1, rdnt1)) (rec_post D t v K i n rl1 rdnt1)"
      using Suc.hyps k V(1) zero nrl by (intro Suc.hyps(1)) simp_all
    then obtain b2 rl2 rdnt2 where rec2: "isRdntRec D v lvls (RScan (lit_Var n) (?r + of_nat (Suc k))) (rl1, rdnt1) = Some (b2, rl2, rdnt2)"
      and post2: "rec_post D t v K i n rl1 rdnt1 (b2, rl2, rdnt2)"
      by (auto simp: returns_def)
    have "visited D t v K (Suc i) rl1 rdnt1 rl2 rdnt2" using post2 by (simp add: rec_post_def)
    then have "visited D t v K (Suc i) rl rdnt rl2 rdnt2" by (rule visited_trans [OF vis']) simp_all
    then have "rec_post D t v K i n rl rdnt (b2, rl2, rdnt2)"
      using post2 zero by (simp add: rec_post_def)
    then show ?thesis using True rec2 by (simp add: step del: of_nat_Suc)
  qed
qed

lemma rec_lit:
  assumes ok: "trail_ok t v" and rs: "reasons_ok D P t v" and st: "store_ok D P"
    and lv: "unat (vs_Top v) \<le> length lvls"
  shows "i < tr_Tail t \<Longrightarrow> trail_lits t ! i = lit_Not n \<Longrightarrow> marks_ok D t v K rdnt \<Longrightarrow>
    returns (isRdntRec D v lvls (RLit n) (rl, rdnt)) (rec_post D t v K i n rl rdnt)"
proof (induction i arbitrary: n rl rdnt rule: less_induct)
  case (less i)
  have len: "length (trail_lits t) = tr_Tail t" using ok by simp
  have nT: "lit_Not n \<in> set (trail_lits t)" using less.prems len by (metis nth_mem)
  have rg: "in_range v n" using trail_okD(6) [OF ok nT] by simp
  note vok = trail_okD(1) [OF ok]
  note M = mark_values [OF less.prems(3) rg]
  have getm: "aget rdnt (unat (lit_Var n)) = Some (mark_of rdnt n)" using M(1) by (simp add: mark_of_def)
  have getl: "aget (vs_Levels v) (unat (lit_Var n)) = Some (lev v n)"
    using in_range_levels [OF vok rg] by (simp add: lev_def)
  have lb: "0 \<le> lev v n" "nat (lev v n) < length lvls"
  proof -
    show "0 \<le> lev v n" using lev_bounds(1) [OF ok nT] by simp
    show "nat (lev v n) < length lvls"
      using lev_bounds(2) [OF ok nT] trail_okD(9) [OF ok] trail_length_less [OF ok] lv len
        length_filter_le [of "\<lambda>m. reason v m = CNull" "trail_lits t"] by (simp add: decs_def)
  qed
  have getr: "aget (vs_Reasons v) (unat (lit_Var n)) = Some (reason v n)"
    using in_range_reasons [OF vok rg] by (simp add: reason_def)
  consider "mark_of rdnt n = 1" | "mark_of rdnt n = -1" | "mark_of rdnt n = 0" using M(2) by blast
  then show ?case
  proof cases
    case 1
    then show ?thesis
      by (subst isRdntRec.simps) (simp add: getm rec_post_def visited_refl [OF less.prems(3)])
  next
    case 2
    then show ?thesis
      by (subst isRdntRec.simps) (simp add: getm rec_post_def visited_refl [OF less.prems(3)])
  next
    case 3
    have app: "visited D t v K (Suc i) rl rdnt (rl @ [n]) rdnt"
      using less.prems(3) nT by (auto simp: visited_def)
    note S = set_mark [OF ok less.prems(3,1,2) 3 disjI1 [OF refl], of "rl @ [n]"]
    have fail: "rec_post D t v K i n rl rdnt (False, rl @ [n], rdnt[unat (lit_Var n) := -1])"
      using visited_trans [OF app S(1)] 3 by (simp add: rec_post_def)
    show ?thesis
    proof (cases "lvls ! nat (lev v n) \<and> reason v n \<noteq> CNull")
      case False
      then show ?thesis
        using fail M(1) 3 lb
        by (subst isRdntRec.simps) (auto simp: getm getl getr Let_def)
    next
      case True
      have r': "reason v (trail_lits t ! i) \<noteq> CNull" using True by (simp add: less.prems(2))
      have one: "1 \<le> length (lits D (reason v n))"
        using reasons_okD(2) [OF rs less.prems(1) r'] unfolding less.prems(2) reason_Not
        by (metis One_nat_def Suc_leI length_greater_0_conv list.distinct(1))
      have "returns (isRdntRec D v lvls (RScan (lit_Var n) (reason v n + of_nat 1)) (rl @ [n], rdnt))
          (rec_post D t v K i n (rl @ [n]) rdnt)"
      proof (rule rec_scan [OF ok rs st less.prems(1,2) conjunct2 [OF True] _ less.prems(3) 3 _ _ one])
        show "returns (isRdntRec D v lvls (RLit n') (rl', rdnt')) (rec_post D t v K j n' rl' rdnt')"
          if "j < i" "trail_lits t ! j = lit_Not n'" "marks_ok D t v K rdnt'" for j n' rl' rdnt'
          using that less.prems(1) by (intro less.IH) simp_all
      qed simp_all
      then have "returns (isRdntRec D v lvls (RScan (lit_Var n) (reason v n + 1)) (rl @ [n], rdnt))
          (rec_post D t v K i n rl rdnt)"
        by (simp, elim returns_mono) (use visited_trans [OF app] 3 in \<open>auto simp: rec_post_def\<close>)
      then show ?thesis
        using True 3 lb by (subst isRdntRec.simps) (simp add: getm getl getr Let_def)
    qed
  qed
qed

section \<open>One literal of the clause\<close>

definition pass ::
    "u32 list \<Rightarrow> trail \<Rightarrow> vars \<Rightarrow> var set \<Rightarrow> lit list \<Rightarrow> int list \<Rightarrow> lit list \<Rightarrow> int list \<Rightarrow> bool" where
  "pass D t v K rl rdnt rl' rdnt' \<longleftrightarrow> marks_ok D t v K rdnt' \<and> length rdnt' = length rdnt
     \<and> (\<forall>n. mark_of rdnt n = 1 \<longrightarrow> mark_of rdnt' n = 1)
     \<and> (\<forall>x < length rdnt. rdnt' ! x \<noteq> 0 \<longrightarrow> rdnt ! x \<noteq> 0 \<or> x \<in> (unat \<circ> lit_Var) ` set rl')
     \<and> set rl \<subseteq> set rl' \<and> (\<forall>m \<in> set rl'. m \<in> set rl \<or> lit_Not m \<in> set (trail_lits t))"

lemma passD:
  assumes "pass D t v K rl rdnt rl' rdnt'"
  shows "marks_ok D t v K rdnt'" and "length rdnt' = length rdnt"
    and "mark_of rdnt n = 1 \<Longrightarrow> mark_of rdnt' n = 1"
    and "x < length rdnt \<Longrightarrow> rdnt' ! x \<noteq> 0 \<Longrightarrow> rdnt ! x \<noteq> 0 \<or> x \<in> (unat \<circ> lit_Var) ` set rl'"
    and "set rl \<subseteq> set rl'" and "m \<in> set rl' \<Longrightarrow> m \<in> set rl \<or> lit_Not m \<in> set (trail_lits t)"
  using assms unfolding pass_def by blast+

lemma pass_refl: "marks_ok D t v K rdnt \<Longrightarrow> pass D t v K rl rdnt rl rdnt"
  by (auto simp: pass_def)

lemma pass_trans:
  assumes "pass D t v K rl rdnt rl1 rdnt1" and "pass D t v K rl1 rdnt1 rl2 rdnt2"
  shows "pass D t v K rl rdnt rl2 rdnt2"
proof -
  note A = passD [OF assms(1)] and B = passD [OF assms(2)]
  have "rdnt ! x \<noteq> 0 \<or> x \<in> (unat \<circ> lit_Var) ` set rl2" if "x < length rdnt" "rdnt2 ! x \<noteq> 0" for x
    using A(2) A(4) [of x] B(4) [of x] B(5) that by auto
  moreover have "m \<in> set rl \<or> lit_Not m \<in> set (trail_lits t)" if "m \<in> set rl2" for m
    using A(6) B(6) [OF that] by blast
  moreover have "mark_of rdnt2 n = 1" if "mark_of rdnt n = 1" for n by (rule B(3) [OF A(3) [OF that]])
  ultimately show ?thesis
    using B(1) A(2) B(2) subset_trans [OF A(5) B(5)] by (simp add: pass_def)
qed

lemma isRdnt_spec:
  assumes ok: "trail_ok t v" and rs: "reasons_ok D P t v" and st: "store_ok D P"
    and lv: "unat (vs_Top v) \<le> length lvls" and M: "marks_ok D t v K rdnt"
    and m: "lit_Not m \<in> set (trail_lits t)" "lit_Var m \<in> K" "mark_of rdnt m = 1"
  shows "returns (isRdnt D v lvls m (rl, rdnt)) (\<lambda>(b, rl', rdnt'). pass D t v K rl rdnt rl' rdnt' \<and> m \<in> set rl'
     \<and> (b \<longrightarrow> supported D v K rdnt' (lit_Not m)))"
proof -
  have len: "length (trail_lits t) = tr_Tail t" using ok by simp
  obtain i where i: "i < tr_Tail t" "trail_lits t ! i = lit_Not m" using m(1) len by (metis in_set_conv_nth)
  have rg: "in_range v m" using trail_okD(6) [OF ok m(1)] by simp
  let ?x = "unat (lit_Var m)"
  have xl: "?x < length rdnt" using mark_values(1) [OF M rg] .
  let ?r0 = "rdnt[?x := 0]"
  have mk: "mark_of (r[?x := y]) n = (if lit_Var n = lit_Var m then y else mark_of r n)" if "length r = length rdnt" for r y n
    using xl that by (auto simp: mark_of_def nth_list_update word_eq_iff_unat)
  have set01: "set (r[?x := y]) \<subseteq> {-1, 0, 1}" if "set r \<subseteq> {-1, 0, 1}" "y \<in> {0, 1}" for r :: "int list" and y
    using that set_update_subset_insert [of r ?x y] by blast
  have supK: "supported D v K r' n" if "supported D v K r n" "\<And>n. lit_Var n \<noteq> lit_Var m \<Longrightarrow> mark_of r n = 1 \<Longrightarrow> mark_of r' n = 1" for r r' n
    using that m(2) unfolding supported_def by metis
  have "marks_ok D t v K ?r0"
    unfolding marks_ok_def
  proof (intro conjI ballI impI)
    fix n assume n: "n \<in> set (trail_lits t)" "mark_of ?r0 n = 1"
    have "mark_of rdnt n = 1" using n(2) by (simp add: mk split: if_splits)
    then show "lit_Var n \<in> K \<or> supported D v K ?r0 n"
      using M n(1) supK [of rdnt n ?r0] by (auto simp: marks_ok_def mk)
  qed (use M set01 in \<open>auto simp: marks_ok_def\<close>)
  from rec_lit [OF ok rs st lv i this, of rl]
  obtain b rl1 r1 where rec: "isRdntRec D v lvls (RLit m) (rl, ?r0) = Some (b, rl1, r1)"
    and post: "rec_post D t v K i m rl ?r0 (b, rl1, r1)" by (auto simp: returns_def)
  have vis: "visited D t v K (Suc i) rl ?r0 rl1 r1" and mem: "m \<in> set rl1" and sup: "b \<Longrightarrow> supported D v K r1 (lit_Not m)"
    using post mk [of rdnt 0 m] by (simp_all add: rec_post_def)
  note V = visitedD [OF vis]
  have l1: "length r1 = length rdnt" using V(2) by simp
  let ?r2 = "r1[?x := 1]"
  have up: "mark_of ?r2 n = 1" if "mark_of r1 n = 1" for n using that by (simp add: mk [OF l1])
  have "marks_ok D t v K ?r2"
    unfolding marks_ok_def
  proof (intro conjI ballI impI)
    show "set ?r2 \<subseteq> {-1, 0, 1}" using V(1) set01 by (simp add: marks_ok_def)
    fix n assume n: "n \<in> set (trail_lits t)" "mark_of ?r2 n = 1"
    show "lit_Var n \<in> K \<or> supported D v K ?r2 n"
    proof (cases "lit_Var n = lit_Var m")
      case False
      then have "mark_of r1 n = 1" using n(2) by (simp add: mk [OF l1])
      then show ?thesis using V(1) n(1) supported_mono [OF _ up] unfolding marks_ok_def by blast
    qed (use m(2) in simp)
  qed (use V(1) in \<open>simp add: marks_ok_def\<close>)
  moreover have "mark_of ?r2 n = 1" if "mark_of rdnt n = 1" for n
    using V(3) [of n] that mk [of rdnt 0 n] by (simp add: mk [OF l1])
  moreover have "rdnt ! y \<noteq> 0 \<or> y \<in> (unat \<circ> lit_Var) ` set rl1" if "y < length rdnt" "?r2 ! y \<noteq> 0" for y
    using V(5) [of y] that mem by (cases "y = ?x") auto
  ultimately have "pass D t v K rl rdnt rl1 ?r2"
    using V(6,7) l1 by (simp add: pass_def)
  moreover have "b \<longrightarrow> supported D v K ?r2 (lit_Not m)" using sup supported_mono [OF _ up] by blast
  moreover have "isRdnt D v lvls m (rl, rdnt) = Some (b, rl1, ?r2)"
    using xl l1 rec by (simp add: isRdnt_def)
  ultimately show ?thesis using mem by simp
qed

lemma minimize_loop_spec:
  assumes ok: "trail_ok t v" and rs: "reasons_ok D P t v" and st: "store_ok D P"
    and lv: "unat (vs_Top v) \<le> length lvls"
  shows "marks_ok D t v K rdnt \<Longrightarrow> guess_room fl v g \<Longrightarrow>
    \<forall>m \<in> set ms. lit_Not m \<in> set (trail_lits t) \<and> lit_Var m \<in> K \<and> mark_of rdnt m = 1 \<Longrightarrow>
    returns (minimize_loop fl D v lvls ms out (rl, rdnt, g)) (\<lambda>(out', rl', rdnt', g'). pass D t v K rl rdnt rl' rdnt'
     \<and> set ms \<subseteq> set rl' \<and> guess_room fl v g' \<and> length (gs_pos g') = length (gs_pos g)
     \<and> set (gs_vhp g') = set (gs_vhp g)
     \<and> (\<exists>xs. out' = out @ xs \<and> set xs \<subseteq> set ms \<and> (distinct (map lit_Var ms) \<longrightarrow> distinct (map lit_Var xs))
          \<and> length xs \<le> length ms
          \<and> (\<forall>m \<in> set ms. m \<in> set xs \<or> supported D v K rdnt' (lit_Not m))))"
proof (induction ms arbitrary: out rl rdnt g)
  case Nil
  then show ?case by (simp add: pass_refl)
next
  case (Cons m ms)
  have m: "lit_Not m \<in> set (trail_lits t)" "lit_Var m \<in> K" "mark_of rdnt m = 1" using Cons.prems(3) by simp_all
  have rg: "in_range v m" using trail_okD(6) [OF ok m(1)] by simp
  obtain b rl1 r1 where r1: "isRdnt D v lvls m (rl, rdnt) = Some (b, rl1, r1)" "pass D t v K rl rdnt rl1 r1"
    "m \<in> set rl1" "b \<longrightarrow> supported D v K r1 (lit_Not m)"
    using isRdnt_spec [OF ok rs st lv Cons.prems(1) m, of rl] by (auto simp: returns_def)
  note R = passD [OF r1(2)]
  have rest: "\<forall>n \<in> set ms. lit_Not n \<in> set (trail_lits t) \<and> lit_Var n \<in> K \<and> mark_of r1 n = 1"
    using Cons.prems(3) R(3) by simp
  obtain out1 g1 where step: "minimize_loop fl D v lvls (m # ms) out (rl, rdnt, g) = minimize_loop fl D v lvls ms out1 (rl1, r1, g1)"
    and g1: "guess_room fl v g1" "length (gs_pos g1) = length (gs_pos g)" "set (gs_vhp g1) = set (gs_vhp g)"
    and out1: "out1 = (if b then out else out @ [m])"
  proof (cases b)
    case True
    show thesis by (rule that [of out g]) (use r1(1) True Cons.prems(2) in simp_all)
  next
    case False
    obtain bb g1 where "Guess_Bump fl m g = Some (bb, g1)" "guess_room fl v g1"
      "length (gs_pos g1) = length (gs_pos g)" "set (gs_vhp g1) = set (gs_vhp g)"
      using Guess_Bump_room [OF Cons.prems(2) rg] by (auto simp: returns_def)
    then show thesis by (intro that [of "out @ [m]" g1]) (use r1(1) False in simp_all)
  qed
  obtain out' rl' r' g' xs where IH: "minimize_loop fl D v lvls ms out1 (rl1, r1, g1) = Some (out', rl', r', g')"
    "pass D t v K rl1 r1 rl' r'" "set ms \<subseteq> set rl'" "guess_room fl v g'" "length (gs_pos g') = length (gs_pos g1)"
    "set (gs_vhp g') = set (gs_vhp g1)" "out' = out1 @ xs" "set xs \<subseteq> set ms"
    "distinct (map lit_Var ms) \<longrightarrow> distinct (map lit_Var xs)" "length xs \<le> length ms"
    "\<forall>n \<in> set ms. n \<in> set xs \<or> supported D v K r' (lit_Not n)"
    using Cons.IH [OF R(1) g1(1) rest, of out1 rl1] by (auto simp: returns_def)
  note Q = passD [OF IH(2)]
  have p: "pass D t v K rl rdnt rl' r'" by (rule pass_trans [OF r1(2) IH(2)])
  have mem: "m \<in> set rl'" using r1(3) Q(5) by blast
  have sup: "b \<longrightarrow> supported D v K r' (lit_Not m)" using r1(4) supported_mono [OF _ Q(3)] by blast
  define ys where "ys = (if b then xs else m # xs)"
  have "out' = out @ ys" using IH(7) out1 by (simp add: ys_def)
  moreover have "set ys \<subseteq> set (m # ms)" "length ys \<le> length (m # ms)" using IH(8,10) by (auto simp: ys_def)
  moreover have "distinct (map lit_Var (m # ms)) \<longrightarrow> distinct (map lit_Var ys)"
    using IH(8,9) by (auto simp: ys_def)
  moreover have "\<forall>n \<in> set (m # ms). n \<in> set ys \<or> supported D v K r' (lit_Not n)"
    using IH(11) sup by (auto simp: ys_def)
  ultimately show ?case
    unfolding step IH(1) using p IH(3-6) g1 mem by (auto intro!: exI [of _ ys])
qed

section \<open>What is kept implies what was removed\<close>

lemma kept_implies_all:
  assumes ok: "trail_ok t v" and rs: "reasons_ok D P t v" and sat: "sat_all \<sigma> D P"
    and M: "marks_ok D t v (lit_Var ` set ms) rdnt"
    and ms: "\<forall>m \<in> set ms. lit_Not m \<in> set (trail_lits t) \<and> mark_of rdnt m = 1"
    and split: "\<forall>m \<in> set ms. m \<in> set xs \<or> supported D v (lit_Var ` set ms) rdnt (lit_Not m)"
    and kept: "\<forall>m \<in> set xs. \<not> lit_true \<sigma> m"
  shows "\<forall>m \<in> set ms. \<not> lit_true \<sigma> m"
proof -
  have len: "length (trail_lits t) = tr_Tail t" using ok by simp
  have "i < tr_Tail t \<Longrightarrow> mark_of rdnt (trail_lits t ! i) = 1 \<Longrightarrow> lit_true \<sigma> (trail_lits t ! i)" for i
  proof (induction i rule: less_induct)
    case (less i)
    let ?m = "trail_lits t ! i"
    have mT: "?m \<in> set (trail_lits t)" using less.prems(1) len by simp
    have inK: "lit_Not ?m \<in> set ms" if "lit_Var ?m \<in> lit_Var ` set ms"
    proof -
      obtain n where n: "n \<in> set ms" "lit_Var n = lit_Var ?m" using \<open>lit_Var ?m \<in> _\<close> by auto
      have "lit_Not n \<in> set (trail_lits t)" using ms n(1) by blast
      then have "n \<noteq> ?m" using trail_not_both [OF ok mT] by auto
      then show ?thesis using lit_Var_eqD [OF n(2)] n(1) by auto
    qed
    show ?case
    proof (cases "lit_Not ?m \<in> set xs")
      case True
      then show ?thesis using kept by auto
    next
      case False
      have sup: "supported D v (lit_Var ` set ms) rdnt ?m"
      proof (cases "lit_Var ?m \<in> lit_Var ` set ms")
        case True
        then show ?thesis using split inK False by fastforce
      next
        case False
        then show ?thesis using M mT less.prems(2) unfolding marks_ok_def by blast
      qed
      then have r: "reason v ?m \<noteq> CNull" by (simp add: supported_def)
      note R = reasons_okD [OF rs less.prems(1) r]
      have "clause_true \<sigma> (?m # tl (lits D (reason v ?m)))"
        using sat R(1,2) unfolding sat_all_def by metis
      moreover have "\<not> lit_true \<sigma> n" if n: "n \<in> set (tl (lits D (reason v ?m)))" for n
      proof -
        obtain j where j: "j < i" "lit_Not n = trail_lits t ! j"
          using R(3) [OF n] less.prems(1) len by (auto simp: in_set_conv_nth)
        have "mark_of rdnt n = 1" using sup n ms unfolding supported_def mark_of_def by fastforce
        then have "mark_of rdnt (trail_lits t ! j) = 1" by (metis j(2) mark_of_Not)
        then have "lit_true \<sigma> (lit_Not n)" using less.IH [OF j(1)] j less.prems(1) by simp
        then show ?thesis by simp
      qed
      ultimately show ?thesis by (auto simp: clause_true_def)
    qed
  qed
  then have all: "lit_true \<sigma> m" if "m \<in> set (trail_lits t)" "mark_of rdnt m = 1" for m
    using that len by (metis in_set_conv_nth)
  show ?thesis
  proof
    fix m assume "m \<in> set ms"
    then have "lit_true \<sigma> (lit_Not m)" using all [of "lit_Not m"] ms by simp
    then show "\<not> lit_true \<sigma> m" by simp
  qed
qed

section \<open>The whole minimisation\<close>

lemma mark_rdnt_spec:
  "\<forall>m \<in> set ms. unat (lit_Var m) < length rdnt \<Longrightarrow>
   returns (mark_rdnt ms y rdnt) (\<lambda>r. length r = length rdnt
     \<and> (\<forall>x < length rdnt. r ! x = (if x \<in> (unat \<circ> lit_Var) ` set ms then y else rdnt ! x)))"
proof (induction ms arbitrary: rdnt)
  case Nil
  then show ?case by (simp add: mark_rdnt_def)
next
  case (Cons m ms)
  have "\<forall>m \<in> set ms. unat (lit_Var m) < length (rdnt[unat (lit_Var m) := y])" using Cons.prems by simp
  then have "returns (mark_rdnt ms y (rdnt[unat (lit_Var m) := y])) (\<lambda>r. length r = length rdnt
     \<and> (\<forall>x < length rdnt. r ! x = (if x \<in> (unat \<circ> lit_Var) ` set ms then y else rdnt[unat (lit_Var m) := y] ! x)))"
    using Cons.IH [of "rdnt[unat (lit_Var m) := y]"] Cons.prems by simp
  moreover have "mark_rdnt (m # ms) y rdnt = mark_rdnt ms y (rdnt[unat (lit_Var m) := y])"
    using Cons.prems by (simp add: mark_rdnt_def)
  ultimately show ?case
    using Cons.prems by (auto simp: nth_list_update returns_def)
qed

lemma clear_lvls_spec:
  assumes "\<forall>m \<in> set ms. in_range v m \<and> 0 \<le> lev v m \<and> nat (lev v m) < n" and "vars_ok v"
  shows "length ls = n \<Longrightarrow> returns (clear_lvls v ms ls) (\<lambda>ls'. length ls' = n)"
  unfolding clear_lvls_def
proof (rule returns_foldM)
  fix m ls assume m: "m \<in> set ms" and len: "length (ls :: bool list) = n"
  have "unat (lit_Var m) < length (vs_Levels v)" using in_range_levels [OF assms(2)] assms(1) m by blast
  then show "returns (do { lvl \<leftarrow> aget (vs_Levels v) (unat (lit_Var m));
      if lvl < 0 then None else do { b \<leftarrow> aget ls (nat lvl); if b then aset ls (nat lvl) False else Some ls } })
      (\<lambda>ls'. length ls' = n)"
    using assms(1) m len by (auto simp: lev_def)
qed simp

lemma level_small:
  assumes "trail_ok t v" and "m \<in> set (trail_lits t)"
  shows "0 \<le> lev v m" and "nat (lev v m) < unat (vs_Top v)"
  using lev_bounds [OF assms] trail_okD(9) [OF assms(1)] trail_length_less [OF assms(1)] length_trail_lits [OF assms(1)]
    length_filter_le [of "\<lambda>m. reason v m = CNull" "trail_lits t"] by (simp_all add: decs_def)

lemma minimize_spec:
  assumes ok: "trail_ok t v" and rs: "reasons_ok D P t v" and st: "store_ok D P"
    and cl: "dv_CLits d = u # ms" and u: "lit_Not u \<in> set (trail_lits t)"
    and ms: "\<forall>m \<in> set ms. lit_Not m \<in> set (trail_lits t)" "distinct (map lit_Var ms)"
    and lens: "unat (vs_Top v) \<le> length (dv_Lvls d)" "unat (vs_Top v) \<le> length (dv_Rdnt d)"
    and clean: "dv_RLits d = []" "\<forall>x < length (dv_Rdnt d). dv_Rdnt d ! x = 0"
    and g: "guess_room fl v g"
  shows "returns (minimize fl D v (d, g)) (\<lambda>(d', g'). guess_room fl v g' \<and> length (gs_pos g') = length (gs_pos g)
     \<and> set (gs_vhp g') = set (gs_vhp g)
     \<and> (\<exists>xs lvls rdnt. d' = d\<lparr>dv_CLits := u # xs, dv_RLits := [], dv_Rdnt := rdnt, dv_Lvls := lvls\<rparr>
          \<and> length lvls = length (dv_Lvls d) \<and> length rdnt = length (dv_Rdnt d)
          \<and> (\<forall>x < length rdnt. rdnt ! x = 0)
          \<and> set xs \<subseteq> set ms \<and> distinct (map lit_Var xs) \<and> length xs \<le> length ms
          \<and> (\<forall>\<sigma>. sat_all \<sigma> D P \<longrightarrow> clause_true \<sigma> (u # ms) \<longrightarrow> clause_true \<sigma> (u # xs))))"
proof -
  let ?K = "lit_Var ` set ms"
  have rg: "in_range v m" if "m \<in> set ms" for m using trail_okD(6) [OF ok, of "lit_Not m"] ms(1) that by simp
  have inb: "\<forall>m \<in> set ms. unat (lit_Var m) < length (dv_Rdnt d)" using rg lens(2) by (fastforce simp: in_range_def)
  obtain r0 where r0: "mark_rdnt ms 1 (dv_Rdnt d) = Some r0" "length r0 = length (dv_Rdnt d)"
    "\<forall>x < length (dv_Rdnt d). r0 ! x = (if x \<in> (unat \<circ> lit_Var) ` set ms then 1 else 0)"
    using mark_rdnt_spec [OF inb, of 1] clean(2) by (auto simp: returns_def)
  have mem: "unat (lit_Var m) \<in> (unat \<circ> lit_Var) ` set ms \<longleftrightarrow> lit_Var m \<in> ?K" for m
    by (auto simp: word_eq_iff_unat)
  have mk0: "mark_of r0 m = (if lit_Var m \<in> ?K then 1 else 0)" if "in_range v m" for m
  proof -
    have "unat (lit_Var m) < length (dv_Rdnt d)" using that lens(2) by (simp add: in_range_def)
    then show ?thesis using r0(3) mem [of m] by (simp add: mark_of_def)
  qed
  have "set r0 \<subseteq> {-1, 0, 1}" using r0(2,3) by (auto simp: in_set_conv_nth split: if_splits)
  then have M: "marks_ok D t v ?K r0"
    using lens(2) r0(2) mk0 trail_okD(6) [OF ok] by (auto simp: marks_ok_def split: if_splits)
  have all: "\<forall>m \<in> set ms. lit_Not m \<in> set (trail_lits t) \<and> lit_Var m \<in> ?K \<and> mark_of r0 m = 1"
    using ms(1) rg mk0 by simp
  obtain out rl r1 g1 where loop: "minimize_loop fl D v (dv_Lvls d) ms [] ([], r0, g) = Some (out, rl, r1, g1)"
    and p: "pass D t v ?K [] r0 rl r1" and sub: "set ms \<subseteq> set rl" and g1: "guess_room fl v g1"
      "length (gs_pos g1) = length (gs_pos g)" "set (gs_vhp g1) = set (gs_vhp g)"
    and xs: "set out \<subseteq> set ms" "distinct (map lit_Var out)" "length out \<le> length ms"
      "\<forall>m \<in> set ms. m \<in> set out \<or> supported D v ?K r1 (lit_Not m)"
    using minimize_loop_spec [OF ok rs st lens(1) M g all, of "[]" "[]"] ms(2) by (auto simp: returns_def)
  note Q = passD [OF p]
  have rlT: "lit_Not m \<in> set (trail_lits t)" if "m \<in> set rl" for m using Q(6) [OF that] by simp
  have inb1: "\<forall>m \<in> set rl. unat (lit_Var m) < length r1"
  proof
    fix m assume "m \<in> set rl"
    then have "in_range v m" using trail_okD(6) [OF ok rlT] by simp
    then show "unat (lit_Var m) < length r1" using lens(2) Q(2) r0(2) by (simp add: in_range_def)
  qed
  obtain r2 where r2: "mark_rdnt rl 0 r1 = Some r2" "length r2 = length r1"
    "\<forall>x < length r1. r2 ! x = (if x \<in> (unat \<circ> lit_Var) ` set rl then 0 else r1 ! x)"
    using mark_rdnt_spec [OF inb1, of 0] by (auto simp: returns_def)
  have zero: "r2 ! x = 0" if "x < length r2" for x
  proof (cases "x \<in> (unat \<circ> lit_Var) ` set rl")
    case True
    then show ?thesis using r2 that by simp
  next
    case False
    then have "x \<notin> (unat \<circ> lit_Var) ` set ms" using sub by auto
    then have "r0 ! x = 0" using r0 r2(2) Q(2) that by simp
    then have "r1 ! x = 0" using Q(4) [of x] False that r2(2) Q(2) by auto
    then show ?thesis using r2 that False by simp
  qed
  have uT: "\<forall>m \<in> set (u # out). lit_Not m \<in> set (trail_lits t)" using u xs(1) ms(1) by auto
  have inl: "\<forall>m \<in> set (u # out). in_range v m \<and> 0 \<le> lev v m \<and> nat (lev v m) < length (dv_Lvls d)"
  proof
    fix m assume "m \<in> set (u # out)"
    then have "lit_Not m \<in> set (trail_lits t)" using uT by blast
    then show "in_range v m \<and> 0 \<le> lev v m \<and> nat (lev v m) < length (dv_Lvls d)"
      using trail_okD(6) [OF ok] level_small [OF ok, of "lit_Not m"] lens(1) by fastforce
  qed
  obtain lv2 where lv2: "clear_lvls v (u # out) (dv_Lvls d) = Some lv2" "length lv2 = length (dv_Lvls d)"
    using clear_lvls_spec [OF inl trail_okD(1) [OF ok] refl] by (auto simp: returns_def)
  have run: "minimize fl D v (d, g)
    = Some (d\<lparr>dv_CLits := u # out, dv_RLits := [], dv_Rdnt := r2, dv_Lvls := lv2\<rparr>, g1)"
    using r0(1) loop r2(1) lv2(1) by (simp add: minimize_def cl clean(1) Let_def)
  have "clause_true \<sigma> (u # out)" if sat: "sat_all \<sigma> D P" and c: "clause_true \<sigma> (u # ms)" for \<sigma>
  proof (rule ccontr)
    assume n: "\<not> clause_true \<sigma> (u # out)"
    have "\<forall>m \<in> set ms. lit_Not m \<in> set (trail_lits t) \<and> mark_of r1 m = 1" using all Q(3) by blast
    from kept_implies_all [OF ok rs sat Q(1) this xs(4)] have "\<forall>m \<in> set ms. \<not> lit_true \<sigma> m"
      using n by (auto simp: clause_true_def)
    then show False using c n by (auto simp: clause_true_def)
  qed
  then show ?thesis
    unfolding run using g1 xs(1-3) lv2(2) r2(2) Q(2) r0(2) zero
    by (simp del: clause_true_simps, intro exI [of _ out] exI [of _ lv2] exI [of _ r2]) simp
qed

section \<open>Derive\<close>

text \<open>
  Between two analyses the scratch data is clean: no marks, and the only variables that may still be
  flagged as seen are assigned at level zero.
\<close>

definition deriv_ok :: "trail \<Rightarrow> vars \<Rightarrow> deriver \<Rightarrow> bool" where
  "deriv_ok t v d \<longleftrightarrow> unat (vs_Top v) \<le> length (dv_Lvls d) \<and> unat (vs_Top v) \<le> length (dv_Rdnt d)
     \<and> unat (vs_Top v) \<le> length (dv_Seen d) \<and> dv_RLits d = [] \<and> (\<forall>x < length (dv_Rdnt d). dv_Rdnt d ! x = 0)
     \<and> (\<forall>x < length (dv_Seen d). dv_Seen d ! x \<longrightarrow>
          (\<exists>m \<in> set (trail_lits t). unat (lit_Var m) = x \<and> lev v m = 0))"

lemma clear_seen_spec:
  "\<forall>m \<in> set ms. unat (lit_Var m) < length sn \<Longrightarrow>
   returns (clear_seen ms sn) (\<lambda>r. length r = length sn
     \<and> (\<forall>x < length sn. r ! x \<longrightarrow> sn ! x \<and> x \<notin> (unat \<circ> lit_Var) ` set ms))"
proof (induction ms arbitrary: sn)
  case Nil
  then show ?case by (simp add: clear_seen_def)
next
  case (Cons m ms)
  have "\<forall>m \<in> set ms. unat (lit_Var m) < length (sn[unat (lit_Var m) := False])" using Cons.prems by simp
  then have "returns (clear_seen ms (sn[unat (lit_Var m) := False])) (\<lambda>r. length r = length sn
     \<and> (\<forall>x < length sn. r ! x \<longrightarrow> sn[unat (lit_Var m) := False] ! x \<and> x \<notin> (unat \<circ> lit_Var) ` set ms))"
    using Cons.IH [of "sn[unat (lit_Var m) := False]"] Cons.prems by simp
  moreover have "clear_seen (m # ms) sn = clear_seen ms (sn[unat (lit_Var m) := False])"
    using Cons.prems by (simp add: clear_seen_def)
  ultimately show ?case
    using Cons.prems by (auto simp: nth_list_update returns_def split: if_splits)
qed

lemma same_lits_encs:
  assumes "same_lits cls cls'"
  shows "length (encs cls') = length (encs cls)"
proof -
  have "length (encs zs) = sum_list (map (\<lambda>ms. length ms + 2) (map snd zs))" for zs :: "clause list"
    by (induction zs) simp_all
  then show ?thesis using assms by (simp only: same_lits_def)
qed

lemma distinct_in_range_length:
  assumes "distinct (map lit_Var ms)" and "\<forall>m \<in> set ms. in_range v m"
  shows "length ms \<le> unat (vs_Top v)"
proof -
  let ?vs = "map (\<lambda>m. unat (lit_Var m)) ms"
  have "distinct ?vs"
    using assms(1) by (auto simp: distinct_map inj_on_def dest!: word_eq_iff_unat [THEN iffD2])
  moreover have "set ?vs \<subseteq> {..<unat (vs_Top v)}" using assms(2) by (auto simp: in_range_def)
  ultimately have "length ?vs \<le> card {..<unat (vs_Top v)}"
    by (metis card_mono distinct_card finite_lessThan)
  then show ?thesis by simp
qed

definition derive_post ::
    "'h floats \<Rightarrow> clause list \<Rightarrow> cloc set \<Rightarrow> trail \<Rightarrow> vars \<Rightarrow> cdb \<Rightarrow> 'h guess \<Rightarrow>
     derived \<times> deriver \<times> vars \<times> cdb \<times> active option \<times> 'h guess \<Rightarrow> bool" where
  "derive_post fl cls Q t v c g r \<longleftrightarrow> (case r of (e, d', v', c', act', g') \<Rightarrow>
     act' = None \<and> deriv_ok t v' d' \<and> guess_room fl v' g' \<and> length (gs_pos g') = length (gs_pos g)
     \<and> set (gs_vhp g') = set (gs_vhp g)
     \<and> v' = v\<lparr>vs_Watches := vs_Watches v'\<rparr>
     \<and> cb_Added c' = cb_Added c \<and> cb_Bot c' = cb_Bot c \<and> cb_AddLits c' = cb_AddLits c
     \<and> cb_AddVals c' = cb_AddVals c \<and> cb_checkModel c' = cb_checkModel c \<and> de_P e \<noteq> CNull
     \<and> de_P e \<notin> locs cls \<and> cb_Learnts c' = cb_Learnts c @ [de_P e] \<and> cb_gc c' = Cgc_Tick (cb_gc c)
     \<and> cd_Len (cb_CDat c') \<le> cd_Len (cb_CDat c) + unat (vs_Top v) + 2
     \<and> 0 \<le> de_TargetLevel e \<and> de_TargetLevel e < tr_Level t
     \<and> lit_Not (de_Unit e) \<in> set (trail_lits t) \<and> lev v (de_Unit e) = tr_Level t
     \<and> (\<exists>cls1 h xs. db_ok (cls1 @ [(h, de_Unit e # xs)]) c' \<and> same_lits cls cls1
         \<and> locs (cls1 @ [(h, de_Unit e # xs)]) = insert (de_P e) (locs cls)
         \<and> lits (cd_D (cb_CDat c')) (de_P e) = de_Unit e # xs
         \<and> (\<forall>q \<in> locs cls. lits (cd_D (cb_CDat c')) q = lits (cd_D (cb_CDat c)) q)
         \<and> (\<forall>n \<in> set xs. lit_Not n \<in> set (trail_lits t) \<and> 0 < lev v n \<and> lev v n \<le> de_TargetLevel e)
         \<and> (\<forall>\<sigma>. sat_all \<sigma> (cd_D (cb_CDat c)) (locs cls) \<longrightarrow> clause_true \<sigma> (de_Unit e # xs))
         \<and> search_ok (cd_D (cb_CDat c')) (insert (de_P e) (locs cls)) (attached (de_Unit e # xs) (de_P e) Q) t v'
         \<and> prop_upto (cd_D (cb_CDat c')) (attached (de_Unit e # xs) (de_P e) Q) t v' (tr_Level t)))"

lemma Derive_spec:
  assumes db: "db_ok cls c" and ok: "search_ok (cd_D (cb_CDat c)) (locs cls) Q t v"
    and W: "prop_upto (cd_D (cb_CDat c)) Q t v (tr_Level t)" and lv: "0 < tr_Level t"
    and x: "x \<in> locs cls" "\<forall>n \<in> set (lits (cd_D (cb_CDat c)) x). in_range v n \<and> val_of v n = -1"
      "\<exists>n \<in> set (lits (cd_D (cb_CDat c)) x). lev v n = tr_Level t"
    and d: "deriv_ok t v d" and g: "guess_room fl v g"
    and room: "2 * (cd_Len (cb_CDat c) + unat (vs_Top v) + 2) < 2147483648"
  shows "returns (Deriver_Derive fl x t (d, v, c, None, g)) (derive_post fl cls Q t v c g)"
proof -
  let ?D = "cd_D (cb_CDat c)" and ?P = "locs cls" and ?T = "trail_lits t"
  note okD = search_okD [OF ok]
  have len: "length ?T = tr_Tail t" using okD(3) by simp
  have xT: "\<forall>n \<in> set (lits ?D x). lit_Not n \<in> set ?T"
    using x(2) trail_val [OF okD(3)] by (metis neg_equal_0_iff_equal one_neq_neg_one zero_neq_one)
  obtain c1 where bump: "Cdb_Bump x c = Some c1" and b1: "\<exists>cls'. db_ok cls' c1 \<and> same_lits cls cls'"
    "c1 = c\<lparr>cb_CDat := cb_CDat c1\<rparr>"
    using Cdb_Bump_ok [OF db x(1)] by (auto simp: returns_def)
  define u0 where "u0 = \<lparr>u_count = 0, u_cLits = [LitNull], u_sLits = [], u_Seen = dv_Seen d,
                     u_Lvls = dv_Lvls d, u_TargetLevel = 0, u_lbd = 0, u_guess = g, u_cdb = c1\<rparr>"
  have udb0: "udb cls c u0" using b1 by (simp add: udb_def u0_def)
  have seen0: "lev v m = 0" if m: "m \<in> set ?T" "useen u0 m" for m
  proof -
    have "unat (lit_Var m) < length (dv_Seen d)"
      using trail_okD(6) [OF okD(3) m(1)] d by (simp add: in_range_def deriv_ok_def)
    then obtain n where "n \<in> set ?T" "unat (lit_Var n) = unat (lit_Var m)" "lev v n = 0"
      using d m(2) by (auto simp: deriv_ok_def useen_def u0_def)
    then show ?thesis by (simp add: lev_def)
  qed
  have Tpos: "0 < tr_Tail t"
  proof (rule ccontr)
    assume "\<not> 0 < tr_Tail t"
    then show False using trail_okD(9) [OF okD(3)] lv len by (simp add: decs_def)
  qed
  have ol: "open_lits t v (tr_Tail t) u0 = {}"
    using seen0 lv len by (fastforce simp: open_lits_def)
  have inv0: "uinv fl t v (tr_Tail t) u0"
    unfolding uinv_def ol
    using d g seen0 lv by (auto simp: u0_def deriv_ok_def useen_def)
  obtain i where i: "tr_Tail t = Suc i" using Tpos by (cases "tr_Tail t") auto
  have x0: "x \<noteq> CNull" by (rule loc_not_null [OF okD(1) x(1)])
  have "ready fl cls c t v i x u0"
    unfolding ready_def
  proof (intro conjI udb0)
    show "uinv fl t v (Suc i) u0" using inv0 by (simp only: i)
    show "if x = CNull
      then 1 \<le> u_count u0 \<and> (\<forall>\<sigma>. sat_all \<sigma> ?D ?P \<longrightarrow> pending \<sigma> t v (Suc i) u0)
      else \<exists>q k. q \<in> ?P \<and> x = q + of_nat k \<and> k \<le> length (lits ?D q)
        \<and> (\<forall>n \<in> set (drop k (lits ?D q)). lit_Not n \<in> set (take (Suc i) ?T))
        \<and> (1 \<le> u_count u0 \<or> (\<exists>n \<in> set (drop k (lits ?D q)). lev v n = tr_Level t))
        \<and> (\<forall>\<sigma>. sat_all \<sigma> ?D ?P \<longrightarrow> (\<exists>n \<in> set (drop k (lits ?D q)). lit_true \<sigma> n) \<or> pending \<sigma> t v (Suc i) u0)"
      using x0 x(1,3) xT len unfolding i [symmetric]
      by (simp, intro exI [of _ x] conjI exI [of _ 0]) (auto simp: sat_all_def clause_true_def)
  qed (use i in simp)
  from uip_loop_spec [OF okD(3,4) db lv refl this]
  obtain u where loop: "uip_loop fl v (tr_Level t) (tr_D t) (tr_Tail t) x u0 = Some u"
    and post: "uip_post fl cls c t v u0 u" unfolding i returns_def by blast
  from post obtain m b s0 where m: "m \<in> set ?T" "lev v m = tr_Level t" "useen s0 m" and inv: "uinv fl t v b s0"
    and u: "u_cLits u = lit_Not m # tl (u_cLits s0)" "u_Seen u = u_Seen s0" "u_sLits u = u_sLits s0"
      "u_TargetLevel u = u_TargetLevel s0" "u_Lvls u = u_Lvls s0"
    and gu: "guess_room fl v (u_guess u)" and udbu: "udb cls c u" and sr: "same_room u0 u"
    and sem: "\<And>\<sigma>. sat_all \<sigma> ?D ?P \<Longrightarrow> clause_true \<sigma> (u_cLits u)"
    unfolding uip_post_def by blast
  note U = uinvD [OF inv]
  let ?ms = "tl (u_cLits s0)"
  have cT: "\<forall>n \<in> set (u_cLits u). lit_Not n \<in> set ?T" using m(1) U(5) by (auto simp: u(1))
  have inr: "unat (lit_Var n) < unat (vs_Top v)" if "lit_Not n \<in> set ?T" for n
    using trail_okD(6) [OF okD(3) that] by (simp add: in_range_def)
  have b2: "\<forall>n \<in> set (u_cLits u). unat (lit_Var n) < length (u_Seen u)"
    using cT inr U(1) u(2) by fastforce
  obtain sn1 where sn1: "clear_seen (u_cLits u) (u_Seen u) = Some sn1" "length sn1 = length (u_Seen u)"
    "\<forall>y < length (u_Seen u). sn1 ! y \<longrightarrow> u_Seen u ! y \<and> y \<notin> (unat \<circ> lit_Var) ` set (u_cLits u)"
    using clear_seen_spec [OF b2] by (auto simp: returns_def)
  have b3: "\<forall>n \<in> set (u_sLits u). unat (lit_Var n) < length sn1"
    using U(10) inr U(1) u(2,3) sn1(2) by fastforce
  obtain sn where sn: "clear_seen (u_sLits u) sn1 = Some sn" "length sn = length sn1"
    "\<forall>y < length sn1. sn ! y \<longrightarrow> sn1 ! y \<and> y \<notin> (unat \<circ> lit_Var) ` set (u_sLits u)"
    using clear_seen_spec [OF b3] by (auto simp: returns_def)
  have clean: "\<exists>n \<in> set ?T. unat (lit_Var n) = y \<and> lev v n = 0" if y: "y < length sn" "sn ! y" for y
  proof -
    have y': "u_Seen s0 ! y" "y < length (u_Seen s0)" "y \<notin> (unat \<circ> lit_Var) ` set (u_cLits u)"
      "y \<notin> (unat \<circ> lit_Var) ` set (u_sLits s0)"
      using y sn sn1 u by auto
    obtain n where n: "n \<in> set ?T" "unat (lit_Var n) = y" using U(9) [OF y'(2,1)] by blast
    have s: "useen s0 n" using y'(1) n(2) by (simp add: useen_def)
    have "lit_Not n \<notin> set (u_cLits u)" "lit_Not n \<notin> set (u_sLits s0)"
      using y'(3,4) n(2) by (force simp: image_iff)+
    then have "\<not> (0 < lev v n \<and> lev v n < tr_Level t)" "lev v n \<noteq> tr_Level t"
      using U(7) [OF n(1)] U(8) [OF n(1)] s by (auto simp: u(1))
    then have "lev v n = 0" using lev_bounds [OF okD(3) n(1)] by linarith
    then show ?thesis using n by blast
  qed
  define d1 where "d1 = d\<lparr>dv_SLits := [], dv_CLits := u_cLits u, dv_Seen := sn, dv_Lvls := u_Lvls u\<rparr>"
  note L = udb_lits [OF db udbu]
  let ?D1 = "cd_D (cb_CDat (u_cdb u))"
  have ok1: "search_ok ?D1 ?P Q t v" and W1: "prop_upto ?D1 Q t v (tr_Level t)"
    using search_ok_mono [OF ok L(1) subset_refl L(2)] W by auto
  have sat1: "sat_all \<sigma> ?D1 ?P \<longleftrightarrow> sat_all \<sigma> ?D ?P" for \<sigma>
    using L(2) by (simp add: sat_all_def)
  have d1c: "dv_CLits d1 = lit_Not m # ?ms" "dv_RLits d1 = []" "\<forall>y < length (dv_Rdnt d1). dv_Rdnt d1 ! y = 0"
    "unat (vs_Top v) \<le> length (dv_Lvls d1)" "unat (vs_Top v) \<le> length (dv_Rdnt d1)"
    using d U(2) by (simp_all add: d1_def u deriv_ok_def)
  have mT: "lit_Not (lit_Not m) \<in> set ?T" using m(1) by simp
  have msT: "\<forall>n \<in> set ?ms. lit_Not n \<in> set ?T" using U(5) by blast
  obtain d2 g2 xs lvls rdnt where mini: "minimize fl ?D1 v (d1, u_guess u) = Some (d2, g2)"
    and g2: "guess_room fl v g2" "length (gs_pos g2) = length (gs_pos (u_guess u))" "set (gs_vhp g2) = set (gs_vhp (u_guess u))"
    and d2: "d2 = d1\<lparr>dv_CLits := lit_Not m # xs, dv_RLits := [], dv_Rdnt := rdnt, dv_Lvls := lvls\<rparr>"
    and ll: "length lvls = length (dv_Lvls d1)" "length rdnt = length (dv_Rdnt d1)" "\<forall>y < length rdnt. rdnt ! y = 0"
    and xs: "set xs \<subseteq> set ?ms" "distinct (map lit_Var xs)"
    and sem2: "\<And>\<sigma>. sat_all \<sigma> ?D1 ?P \<Longrightarrow> clause_true \<sigma> (lit_Not m # ?ms) \<Longrightarrow> clause_true \<sigma> (lit_Not m # xs)"
    using minimize_spec [OF okD(3) search_okD(4) [OF ok1] L(1) d1c(1) mT msT U(6) d1c(4,5,2,3) gu]
    by (auto simp: returns_def)
  have xsp: "\<forall>n \<in> set xs. lit_Not n \<in> set ?T \<and> 0 < lev v n \<and> lev v n < tr_Level t \<and> lev v n \<le> u_TargetLevel u"
    using xs(1) U(5,14) u(4) by auto
  have mfresh: "lit_Var m \<noteq> lit_Var n" if "n \<in> set xs" for n
    using xsp that m(2) by (auto simp: lev_def)
  have dsm: "distinct (map lit_Var (lit_Not m # xs))" using xs(2) mfresh by auto
  have rgm: "\<forall>n \<in> set (lit_Not m # xs). in_range v n"
    using xsp m(1) trail_okD(6) [OF okD(3)] by fastforce
  obtain cls1 where c1: "db_ok cls1 (u_cdb u)" "same_lits cls cls1" "u_cdb u = c\<lparr>cb_CDat := cb_CDat (u_cdb u)\<rparr>"
    using udbu by (auto simp: udb_def)
  have lc: "locs cls1 = ?P" by (rule same_lits_locs [OF c1(2)])
  have lenD: "cd_Len (cb_CDat (u_cdb u)) = cd_Len (cb_CDat c)"
    using cdat_repD(1) same_lits_encs [OF c1(2)] c1(1) db by (metis db_ok_def)
  have rm: "2 * (cd_Len (cb_CDat (u_cdb u)) + length (lit_Not m # xs) + 2) < 2147483648"
    using room distinct_in_range_length [OF dsm rgm] by (simp add: lenD)
  have late: "tr_Level t \<le> lev v ((lit_Not m # xs) ! 0)" using m(2) by simp
  obtain p v' c' where learn: "Cdb_Learn (lit_Not m # xs) (u_lbd u) (v, u_cdb u, None) = Some (p, v', c', None)"
    and p: "p \<noteq> CNull" "p \<notin> ?P"
    and dbl: "\<exists>h. db_ok (cls1 @ [(h, lit_Not m # xs)]) c' \<and> locs (cls1 @ [(h, lit_Not m # xs)]) = insert p ?P"
    and lp: "lits (cd_D (cb_CDat c')) p = lit_Not m # xs"
    and same: "\<forall>q \<in> ?P. lits (cd_D (cb_CDat c')) q = lits ?D1 q"
    and sok: "search_ok (cd_D (cb_CDat c')) (insert p ?P) (attached (lit_Not m # xs) p Q) t v'"
      "prop_upto (cd_D (cb_CDat c')) (attached (lit_Not m # xs) p Q) t v' (tr_Level t)"
    and v': "v' = v\<lparr>vs_Watches := vs_Watches v'\<rparr>"
    and frame: "cb_Added c' = cb_Added (u_cdb u)" "cb_Bot c' = cb_Bot (u_cdb u)" "cb_AddLits c' = cb_AddLits (u_cdb u)"
      "cb_AddVals c' = cb_AddVals (u_cdb u)" "cb_checkModel c' = cb_checkModel (u_cdb u)"
      "cb_Learnts c' = cb_Learnts (u_cdb u) @ [p]" "cb_gc c' = Cgc_Tick (cb_gc (u_cdb u))"
    using Learn_ok [OF c1(1) _ _ dsm rgm rm _ late, of Q t "u_lbd u", unfolded lc, OF ok1 _ W1]
    by (auto simp: returns_def)
  have frame': "cb_Added (u_cdb u) = cb_Added c" "cb_Bot (u_cdb u) = cb_Bot c" "cb_AddLits (u_cdb u) = cb_AddLits c"
    "cb_AddVals (u_cdb u) = cb_AddVals c" "cb_checkModel (u_cdb u) = cb_checkModel c"
    "cb_Learnts (u_cdb u) = cb_Learnts c" "cb_gc (u_cdb u) = cb_gc c"
    by (subst c1(3), simp)+
  obtain h' where dbh: "db_ok (cls1 @ [(h', lit_Not m # xs)]) c'" using dbl by blast
  have "cd_Len (cb_CDat c') = cd_Len (cb_CDat (u_cdb u)) + length (lit_Not m # xs) + 2"
    using rep_Len [of "cls1 @ [(h', lit_Not m # xs)]" "cb_CDat c'"] rep_Len [of cls1 "cb_CDat (u_cdb u)"] dbh c1(1)
    by (simp add: db_ok_def)
  then have sp: "cd_Len (cb_CDat c') \<le> cd_Len (cb_CDat c) + unat (vs_Top v) + 2"
    using distinct_in_range_length [OF dsm rgm] lenD by simp
  let ?e = "\<lparr>de_P = p, de_Unit = lit_Not m, de_Size = length (u_cLits u), de_TargetLevel = u_TargetLevel u\<rparr>"
  have run: "Deriver_Derive fl x t (d, v, c, None, g) = Some (?e, d2, v', c', None, g2)"
  proof -
    have "dv_CLits d2 = lit_Not m # xs" by (simp add: d2)
    moreover have "aget (u_cLits u) 0 = Some (lit_Not m)" by (simp add: u(1))
    ultimately show ?thesis
      using bump loop sn1(1) sn(1) mini learn
      unfolding Deriver_Derive_def by (simp add: u0_def [symmetric] d1_def [symmetric] Let_def)
  qed
  have lev': "lev v' = lev v" "vs_Top v' = vs_Top v" by (subst v', simp)+
  have "deriv_ok t v' d2"
    using d d1c(4,5) ll clean sn(2) sn1(2) U(1) u(2)
    by (simp add: deriv_ok_def lev' d2) (simp add: d1_def)
  moreover have "guess_room fl v' g2" using g2(1) lev'(2) by (simp add: guess_room_def)
  moreover have "length (gs_pos g2) = length (gs_pos g)" "set (gs_vhp g2) = set (gs_vhp g)"
    using g2 sr by (simp_all add: same_room_def u0_def)
  moreover have "0 \<le> u_TargetLevel u" "u_TargetLevel u < tr_Level t" using U(12,13) u(4) by simp_all
  moreover have "clause_true \<sigma> (lit_Not m # xs)" if "sat_all \<sigma> ?D ?P" for \<sigma>
    using sem2 [of \<sigma>] sem [OF that] that sat1 by (simp add: u(1))
  moreover have "\<forall>q \<in> ?P. lits (cd_D (cb_CDat c')) q = lits ?D q" using same L(2) by simp
  ultimately show ?thesis
    unfolding run derive_post_def
    using p sp v' frame frame' dbl c1(2) lp xsp sok m(1,2) by simp blast
qed

end
