(* ===== verification/Start.thy ===== *)
theory Start
  imports Minimise
begin

text \<open>
  Where the search starts and how it moves forward: the empty trail over new variable data, and the
  two kinds of assignment, a decision and a literal implied by a clause.
\<close>

section \<open>The empty trail\<close>

lemma trail_lits_New [simp]: "trail_lits (NewTrail v) = []"
  by (simp add: trail_lits_def NewTrail_def)

lemma NewTrail_simps [simp]:
  "tr_Head (NewTrail v) = 0" "tr_Tail (NewTrail v) = 0" "tr_Level (NewTrail v) = 0"
  by (simp_all add: NewTrail_def)

lemma fresh_search_ok:
  assumes v: "vars_ok v" and vals: "\<forall>m. in_range v m \<longrightarrow> val_of v m = 0" and ws: "\<forall>w \<in> set (vs_Watches v). w = []"
    and D: "store_ok D P"
  shows "search_ok D P {} (NewTrail v) v" and "prop_upto D {} (NewTrail v) v L"
proof -
  have "trail_ok (NewTrail v) v"
    using v vals by (simp add: trail_ok_def decs_def) (simp add: NewTrail_def)
  moreover have "vs_Watches v ! unat m = []" if "unat m < length (vs_Watches v)" for m :: lit
    using ws nth_mem [OF that] by blast
  then have "watch_ok D {} (vs_Watches v)" by (simp add: watch_ok_def)
  ultimately show "search_ok D P {} (NewTrail v) v"
    using D by (simp add: search_ok_def reasons_ok_def unproc_ok_def clauses_ok_def)
  show "prop_upto D {} (NewTrail v) v L" by (simp add: prop_upto_def)
qed

lemma NewVars_clean:
  assumes "n < 2 ^ 29"
  shows "vars_ok (NewVars_xo n)" and "in_range (NewVars_xo n) m \<Longrightarrow> val_of (NewVars_xo n) m = 0"
    and "w \<in> set (vs_Watches (NewVars_xo n)) \<Longrightarrow> w = []"
proof -
  show ok: "vars_ok (NewVars_xo n)" by (rule NewVars_xo_ok [OF assms])
  show "val_of (NewVars_xo n) m = 0" if "in_range (NewVars_xo n) m"
    using in_range_vals [OF ok that] by (simp add: NewVars_xo_def Let_def val_of_def)
  show "w = []" if "w \<in> set (vs_Watches (NewVars_xo n))"
    using that by (simp add: NewVars_xo_def Let_def split: if_splits)
qed

section \<open>Assignment in the search\<close>

text \<open>A trail that is propagated below its level is propagated: no literal on it has a higher level.\<close>

lemma prop_upto_any:
  assumes ok: "trail_ok t v" and W: "prop_upto D Q t v (tr_Level t + 1)"
  shows "prop_upto D Q t v L"
  unfolding prop_upto_def Let_def
proof (intro ballI impI)
  fix p
  let ?a = "lits D p ! 0" and ?b = "lits D p ! 1"
  assume p: "p \<in> Q" and ab: "lit_Not ?a \<in> set (take (tr_Head t) (trail_lits t))"
    "lit_Not ?b \<in> set (take (tr_Head t) (trail_lits t))"
  have "lev v ?a < tr_Level t + 1" "lev v ?b < tr_Level t + 1"
    using lev_bounds(2) [OF ok in_set_takeD [OF ab(1)]] lev_bounds(2) [OF ok in_set_takeD [OF ab(2)]] by simp_all
  then show "\<exists>n\<in>set (lits D p). n \<in> set (trail_lits t) \<and> (lev v n \<le> lev v ?a \<or> lev v n \<le> lev v ?b)"
    using W p ab unfolding prop_upto_def Let_def by blast
qed

definition assigned :: "lit \<Rightarrow> cloc \<Rightarrow> trail \<Rightarrow> vars \<Rightarrow> trail \<Rightarrow> vars \<Rightarrow> bool" where
  "assigned m c t v t' v' \<longleftrightarrow> trail_lits t' = trail_lits t @ [m] \<and> tr_Head t' = tr_Head t
     \<and> tr_Tail t' = tr_Tail t + 1 \<and> tr_Level t' = tr_Level t + (if c = CNull then 1 else 0)
     \<and> t' = t\<lparr>tr_D := tr_D t', tr_Tail := tr_Tail t', tr_Level := tr_Level t'\<rparr>
     \<and> v' = v\<lparr>vs_Reasons := vs_Reasons v', vs_Levels := vs_Levels v', vs_Vals := put_val m 1 (vs_Vals v)\<rparr>
     \<and> (\<forall>n. reason v' n = (if lit_Var n = lit_Var m then c else reason v n))
     \<and> (\<forall>n. lev v' n = (if lit_Var n = lit_Var m then tr_Level t' else lev v n))"

lemma assignedD:
  assumes "assigned m c t v t' v'"
  shows "trail_lits t' = trail_lits t @ [m]" and "tr_Head t' = tr_Head t" and "tr_Tail t' = tr_Tail t + 1"
    and "tr_Level t' = tr_Level t + (if c = CNull then 1 else 0)"
    and "t' = t\<lparr>tr_D := tr_D t', tr_Tail := tr_Tail t', tr_Level := tr_Level t'\<rparr>"
    and "v' = v\<lparr>vs_Reasons := vs_Reasons v', vs_Levels := vs_Levels v', vs_Vals := put_val m 1 (vs_Vals v)\<rparr>"
    and "reason v' n = (if lit_Var n = lit_Var m then c else reason v n)"
    and "lev v' n = (if lit_Var n = lit_Var m then tr_Level t' else lev v n)"
  using assms unfolding assigned_def by blast+

lemma assigned_frame:
  assumes "assigned m c t v t' v'"
  shows "vs_Top v' = vs_Top v" and "vs_Max v' = vs_Max v" and "vs_Watches v' = vs_Watches v"
    and "in_range v' n \<longleftrightarrow> in_range v n"
proof -
  note v' = assignedD(6) [OF assms]
  show top: "vs_Top v' = vs_Top v" using arg_cong [OF v', of vs_Top] by simp
  show "vs_Max v' = vs_Max v" using arg_cong [OF v', of vs_Max] by simp
  show "vs_Watches v' = vs_Watches v" using arg_cong [OF v', of vs_Watches] by simp
  show "in_range v' n \<longleftrightarrow> in_range v n" by (simp add: in_range_def top)
qed

lemma assigned_old:
  assumes as: "assigned m c t v t' v'" and ok: "trail_ok t' v'" and n: "n \<in> set (trail_lits t)"
  shows "reason v' n = reason v n" and "lev v' n = lev v n"
proof -
  have "lit_Var n \<noteq> lit_Var m"
    using distinct_map_snoc [OF _ n, of lit_Var m] trail_okD(5) [OF ok] assignedD(1) [OF as] by simp
  then show "reason v' n = reason v n" "lev v' n = lev v n" using assignedD(7,8) [OF as] by simp_all
qed

text \<open>The parts of the invariant that do not depend on the new literal.\<close>

lemma assigned_search_ok:
  assumes ok: "search_ok D P Q t v" and W: "prop_upto D Q t v (tr_Level t + 1)"
    and as: "assigned m c t v t' v'" and ok': "trail_ok t' v'" and rs: "reasons_ok D P t' v'"
    and un: "unproc_ok t' v'"
  shows "search_ok D P Q t' v'" and "prop_upto D Q t' v' (tr_Level t' + 1)"
proof -
  note okD = search_okD [OF ok] and F = assigned_frame [OF as]
  have "clauses_ok D Q v'" using okD(5) by (simp add: clauses_ok_def F(4))
  then show "search_ok D P Q t' v'" using okD rs un ok' by (simp add: search_ok_def F(3))
  show "prop_upto D Q t' v' (tr_Level t' + 1)"
    by (rule prop_upto_extend [OF prop_upto_any [OF okD(3) W] assignedD(1,2) [OF as]])
      (use okD(3) trail_okD(2) [OF okD(3)] assigned_old(2) [OF as ok'] in simp_all)
qed

text \<open>A decision opens a level.\<close>

lemma decide_ok:
  assumes ok: "search_ok D P Q t v" and W: "prop_upto D Q t v (tr_Level t + 1)" and hd: "tr_Head t = tr_Tail t"
    and m: "in_range v m" "val_of v m = 0"
  shows "returns (Assign m CNull (t, v)) (\<lambda>(t', v'). search_ok D P Q t' v'
     \<and> prop_upto D Q t' v' (tr_Level t' + 1) \<and> assigned m CNull t v t' v')"
proof (rule returns_mono [OF Assign_spec [OF search_okD(3) [OF ok] m]])
  fix r
  assume post: "case r of (t', v') \<Rightarrow> trail_ok t' v'
     \<and> trail_lits t' = trail_lits t @ [m] \<and> tr_Head t' = tr_Head t \<and> tr_Tail t' = tr_Tail t + 1
     \<and> tr_Level t' = tr_Level t + (if CNull = CNull then 1 else 0)
     \<and> t' = t\<lparr>tr_D := tr_D t', tr_Tail := tr_Tail t', tr_Level := tr_Level t'\<rparr>
     \<and> v' = v\<lparr>vs_Reasons := vs_Reasons v', vs_Levels := vs_Levels v', vs_Vals := put_val m 1 (vs_Vals v)\<rparr>
     \<and> (\<forall>n. reason v' n = (if lit_Var n = lit_Var m then CNull else reason v n))
     \<and> (\<forall>n. lev v' n = (if lit_Var n = lit_Var m then tr_Level t' else lev v n))"
  obtain t' v' where r: "r = (t', v')" by (cases r)
  have ok': "trail_ok t' v'" and as: "assigned m CNull t v t' v'"
    using post unfolding r prod.case assigned_def by blast+
  have len: "length (trail_lits t) = tr_Tail t" using search_okD(3) [OF ok] by simp
  note tl = assignedD(1) [OF as] and tail = assignedD(3) [OF as]
  have un: "unproc_ok t' v'"
    unfolding unproc_ok_def
  proof (intro allI impI, elim conjE)
    fix i assume "tr_Head t' \<le> i" "i < tr_Tail t'"
    then have "i = tr_Tail t" using assignedD(2) [OF as] tail hd by simp
    then show "lev v' (trail_lits t' ! i) = tr_Level t'" using assignedD(8) [OF as, of m] len by (simp add: tl nth_append)
  qed
  have rs: "reasons_ok D P t' v'"
    unfolding reasons_ok_def Let_def
  proof (intro allI impI)
    fix i assume i: "i < tr_Tail t'" and r: "reason v' (trail_lits t' ! i) \<noteq> CNull"
    have lt: "i < tr_Tail t"
    proof (rule ccontr)
      assume "\<not> i < tr_Tail t"
      then have "trail_lits t' ! i = m" using i tail len by (simp add: tl nth_append)
      then show False using r assignedD(7) [OF as, of m] by simp
    qed
    then have nth: "trail_lits t' ! i = trail_lits t ! i" "take i (trail_lits t') = take i (trail_lits t)"
      using len by (simp_all add: tl nth_append)
    have eq: "reason v' (trail_lits t ! i) = reason v (trail_lits t ! i)"
      using assigned_old(1) [OF as ok'] lt len by simp
    show "reason v' (trail_lits t' ! i) \<in> P \<and> lits D (reason v' (trail_lits t' ! i)) \<noteq> []
      \<and> hd (lits D (reason v' (trail_lits t' ! i))) = trail_lits t' ! i
      \<and> (\<forall>n \<in> set (tl (lits D (reason v' (trail_lits t' ! i)))). lit_Not n \<in> set (take i (trail_lits t')))"
      using search_okD(4) [OF ok] lt r unfolding reasons_ok_def Let_def nth eq by blast
  qed
  show "case r of (t', v') \<Rightarrow> search_ok D P Q t' v'
     \<and> prop_upto D Q t' v' (tr_Level t' + 1) \<and> assigned m CNull t v t' v'"
    unfolding r prod.case using assigned_search_ok [OF ok W as ok' rs un] as by blast
qed

text \<open>A clause whose other literals are false implies its first one.\<close>

lemma imply_ok:
  assumes ok: "search_ok D P Q t v" and W: "prop_upto D Q t v (tr_Level t + 1)"
    and q: "q \<in> P" "q \<noteq> CNull" and cl: "lits D q = m # ms"
    and false: "\<forall>n \<in> set ms. lit_Not n \<in> set (trail_lits t)"
    and m: "in_range v m" "val_of v m = 0"
  shows "returns (Assign m q (t, v)) (\<lambda>(t', v'). search_ok D P Q t' v'
     \<and> prop_upto D Q t' v' (tr_Level t' + 1) \<and> assigned m q t v t' v')"
proof -
  note okD = search_okD [OF ok]
  obtain t' v' where run: "Assign m q (t, v) = Some (t', v')" and ok': "trail_ok t' v'" "reasons_ok D P t' v'" "unproc_ok t' v'"
    using unit_assign [OF okD(3,4,7) q cl false m] by (auto simp: returns_def)
  have as: "assigned m q t v t' v'"
    using Assign_spec [OF okD(3) m, of q] unfolding run returns_Some prod.case assigned_def by blast
  show ?thesis
    unfolding run returns_Some prod.case using assigned_search_ok [OF ok W as ok'] as by blast
qed

end
