(* ===== verification/SearchProps.thy ===== *)
theory SearchProps
  imports Start
begin

text \<open>
  The properties of propagation, backtracking and conflict analysis, stated for the operations of
  the program, with states at which their hypotheses hold.
\<close>

section \<open>A state of the search\<close>

text \<open>
  The database holds the clause that says that the first variable is false, not attached, and the
  variable has been decided to be true.
\<close>

lemma decided_state:
  obtains h c t v where "db_ok [(h, [3])] c" and "search_ok (cd_D (cb_CDat c)) (locs [(h, [3])]) {} t v"
    and "\<forall>L. prop_upto (cd_D (cb_CDat c)) {} t v L" and "trail_lits t = [2]" and "tr_Head t = 0" and "tr_Level t = 1" and "lev v 2 = 1"
    and "1 \<in> locs [(h, [3])]" and "lits (cd_D (cb_CDat c)) 1 = [3]" and "in_range v 3" and "val_of v 3 = -1"
    and "2 * (cd_Len (cb_CDat c) + unat (vs_Top v) + 2) < 2147483648" and "vs_Top v = 4"
proof -
  define v0 where "v0 = NewVars_xo 3"
  have v0: "vs_Top v0 = 4" by (simp add: v0_def NewVars_xo_def Let_def)
  note nv = NewVars_clean [of 3, folded v0_def, simplified]
  define h where "h = MakeChd False 0 (int (length [3 :: lit]))"
  have rep0: "cdat_rep [] (NewCDat 40)" by (simp add: cdat_rep_def NewCDat_def Let_def)
  have hok: "clause_ok (h, [3])" unfolding h_def by (rule clause_ok_Make) (simp add: LitNull_def)
  have locs0: "locs [] = {}" by (simp add: locs_def)
  obtain p d where rep: "cdat_rep [(h, [3])] d" and p: "p = of_nat (loc_at [])" "lits (cd_D d) p = [3]"
    and lc: "locs [(h, [3])] = insert p (locs [])" and st: "store_ok (cd_D d) (insert p (locs []))"
    using AddLits_ok [OF rep0 _ hok] by (auto simp: returns_def NewCDat_def Let_def)
  have p1: "p = 1" by (simp add: p(1) loc_at_def)
  have len: "cd_Len d = 3"
    using rep_Len [OF rep] by simp
  define c where "c = (NewCdb v0 3)\<lparr>cb_CDat := d\<rparr>"
  have D: "cb_CDat c = d" by (simp add: c_def)
  have db: "db_ok [(h, [3])] c" using rep by (simp add: db_ok_def c_def NewCdb_def Let_def)
  have ok0: "search_ok (cd_D d) (locs [(h, [3])]) {} (NewTrail v0) v0"
    by (rule fresh_search_ok(1)) (use nv st in \<open>auto simp: lc\<close>)
  have rg: "in_range v0 2" "in_range v0 3" by (simp_all add: in_range_def v0 lit_Var_def)
  obtain t v where ok: "search_ok (cd_D d) (locs [(h, [3])]) {} t v" and as: "assigned 2 CNull (NewTrail v0) v0 t v"
    using decide_ok [OF ok0 _ _ rg(1)] nv(2) [OF rg(1)] by (auto simp: prop_upto_def returns_def)
  note F = assigned_frame [OF as] and A = assignedD [OF as]
  have rg3: "in_range v 3" using rg(2) by (simp add: F(4))
  have n2: "lit_Not (2 :: lit) = 3" by (simp add: lit_Not_def)
  have tl: "trail_lits t = [2]" using A(1) by simp
  have "lit_Not (3 :: lit) = 2" by (simp add: lit_Not_def)
  then have val: "val_of v 3 = -1" using trail_val [OF search_okD(3) [OF ok] rg3] by (simp add: tl)
  show thesis
    by (rule that [OF db]) (use ok tl A(2,4) A(8) [of 2] p(2) rg3 val F in \<open>simp_all add: D p1 lc locs0 prop_upto_def len v0\<close>)
qed

section \<open>Propagation\<close>

lemma advance_implied:
  assumes adv: "advance P D t v D' t' v'" and ok: "trail_ok t v" and ok': "trail_ok t' v'"
    and rs: "reasons_ok D' P t' v'" and sat: "sat_all \<sigma> D P" and T: "\<forall>m \<in> set (trail_lits t). lit_true \<sigma> m"
  shows "\<forall>m \<in> set (trail_lits t'). lit_true \<sigma> m"
proof -
  obtain ps where ps: "trail_lits t' = trail_lits t @ ps" using advanceD(2) [OF adv] by blast
  have "decs v' (trail_lits t) = decs v (trail_lits t)"
    using advanceD(7) [OF adv] by (intro decs_cong) simp
  then have "decs v' ps = 0"
    using trail_okD(9) [OF ok] trail_okD(9) [OF ok'] advanceD(3) [OF adv] by (simp add: ps)
  then have no: "reason v' m \<noteq> CNull" if "m \<in> set ps" for m
    using that by (auto simp: decs_def filter_empty_conv)
  have sat': "sat_all \<sigma> D' P" using sat sat_all_perm [OF advanceD(1) [OF adv]] by simp
  show ?thesis
  proof
    fix m assume m: "m \<in> set (trail_lits t')"
    show "lit_true \<sigma> m"
      by (rule trail_implied [OF ok' rs sat' _ m lev_bounds(2) [OF ok' m]]) (use no T ps in auto)
  qed
qed

lemma propagated_not_false:
  assumes ok: "search_ok D P Q t v" and W: "prop_upto D Q t v (tr_Level t + 1)"
    and hd: "tr_Head t = tr_Tail t" and p: "p \<in> Q"
  shows "\<exists>n \<in> set (lits D p). val_of v n \<noteq> -1"
proof (rule ccontr)
  assume no: "\<not> ?thesis"
  note okD = search_okD [OF ok]
  have T: "lit_Not n \<in> set (trail_lits t)" if n: "n \<in> set (lits D p)" for n
    using no n trail_val [OF okD(3) clauses_okD(3) [OF okD(5) p n]] by (auto split: if_splits)
  have two: "lits D p ! 0 \<in> set (lits D p)" "lits D p ! 1 \<in> set (lits D p)"
    using watched_in [OF clauses_okD(1) [OF okD(5) p]] by (simp_all add: watched_def)
  have "lit_Not n \<in> set (take (tr_Head t) (trail_lits t)) \<and> lev v n < tr_Level t + 1" if "n \<in> set (lits D p)" for n
    using T [OF that] lev_bounds(2) [OF okD(3) T [OF that]] okD(3) hd by simp
  then obtain n where "n \<in> set (lits D p)" "n \<in> set (trail_lits t)"
    using W p two unfolding prop_upto_def Let_def by blast
  then show False using T trail_not_both [OF okD(3)] by blast
qed

text \<open>
  (C6) Propagation, from any state in which the trail, the reasons and the watch lists are in order
  and everything before the head of the trail is propagated, returns without a panic. It permutes
  literals within clauses only, keeps the invariant, adds to the trail only literals that every
  model of the clauses and of the trail satisfies, and keeps level and earlier reasons. It either
  reports an attached clause all of whose literals are false, one of them at the current level, or
  leaves no attached clause false.
\<close>

theorem Prop_correct:
  assumes ok: "search_ok (cd_D (cb_CDat c)) P Q t v"
    and W: "prop_upto (cd_D (cb_CDat c)) Q t v (tr_Level t + 1)"
  shows "returns (Prop (t, v, c)) (\<lambda>(x, t', v', c').
     c' = c\<lparr>cb_CDat := cb_CDat c\<lparr>cd_D := cd_D (cb_CDat c')\<rparr>\<rparr>
     \<and> search_ok (cd_D (cb_CDat c')) P Q t' v'
     \<and> advance P (cd_D (cb_CDat c)) t v (cd_D (cb_CDat c')) t' v' \<and> tr_Head t' = tr_Tail t'
     \<and> (\<forall>\<sigma>. sat_all \<sigma> (cd_D (cb_CDat c)) P \<longrightarrow> (\<forall>m \<in> set (trail_lits t). lit_true \<sigma> m) \<longrightarrow>
          (\<forall>m \<in> set (trail_lits t'). lit_true \<sigma> m))
     \<and> (if x = CNull
        then prop_upto (cd_D (cb_CDat c')) Q t' v' (tr_Level t' + 1)
          \<and> (\<forall>p \<in> Q. \<exists>n \<in> set (lits (cd_D (cb_CDat c')) p). val_of v' n \<noteq> -1)
        else x \<in> Q \<and> (\<forall>n \<in> set (lits (cd_D (cb_CDat c')) x). val_of v' n = -1)
          \<and> (\<exists>n \<in> set (lits (cd_D (cb_CDat c')) x). lev v' n = tr_Level t')
          \<and> prop_upto (cd_D (cb_CDat c')) Q t' v' (tr_Level t')))"
proof -
  obtain x D' t' v' where run: "prop_loop (tr_Head t) (cd_D (cb_CDat c), t, v) = Some (x, D', t', v')"
    and post: "prop_post (cd_D (cb_CDat c)) P Q t v (x, D', t', v')"
    using prop_loop_spec [OF ok W, of "tr_Head t"] by (auto simp: returns_def)
  have ok': "search_ok D' P Q t' v'" and adv: "advance P (cd_D (cb_CDat c)) t v D' t' v'"
    and hd: "tr_Head t' = tr_Tail t'"
    using post by (simp_all add: prop_post_def)
  have imp: "\<forall>m \<in> set (trail_lits t'). lit_true \<sigma> m"
    if "sat_all \<sigma> (cd_D (cb_CDat c)) P" "\<forall>m \<in> set (trail_lits t). lit_true \<sigma> m" for \<sigma>
    by (rule advance_implied [OF adv search_okD(3) [OF ok] search_okD(3,4) [OF ok'] that])
  have nf: "\<forall>p \<in> Q. \<exists>n \<in> set (lits D' p). val_of v' n \<noteq> -1" if "prop_upto D' Q t' v' (tr_Level t' + 1)"
    using propagated_not_false [OF ok' that hd] by blast
  show ?thesis
    using post imp nf by (simp add: Prop_def run prop_post_def)
qed

theorem Prop_correct_witness:
  "\<exists>c t v P. tr_Head t < tr_Tail t \<and> returns (Prop (t, v, c)) (\<lambda>(x, t', v', c'). tr_Head t' = tr_Tail t' \<and> x = CNull)"
proof -
  obtain h t v and c :: cdb where S: "search_ok (cd_D (cb_CDat c)) (locs [(h, [3])]) {} t v"
      "\<forall>L. prop_upto (cd_D (cb_CDat c)) {} t v L" "trail_lits t = [2]" "tr_Head t = 0"
    by (rule decided_state) blast
  have "tr_Tail t = 1" using S(3) length_trail_lits [OF search_okD(3) [OF S(1)]] by simp
  then have "tr_Head t < tr_Tail t" using S(4) by simp
  moreover have "returns (Prop (t, v, c)) (\<lambda>(x, t', v', c'). tr_Head t' = tr_Tail t' \<and> x = CNull)"
    by (rule returns_mono [OF Prop_correct [OF S(1) spec [OF S(2)]]]) (auto split: if_splits prod.splits)
  ultimately show ?thesis by blast
qed

section \<open>Backtracking\<close>

lemma Back_full:
  assumes ok: "search_ok D P Q t v" and W: "prop_upto D Q t v (tr_Level t)"
    and g: "guess_room fl v g" and lvl: "0 \<le> lvl" "lvl < tr_Level t"
  shows "returns (Back fl lvl (t, v, g)) (\<lambda>(t', v', g'). search_ok D P Q t' v'
     \<and> prop_upto D Q t' v' (tr_Level t' + 1) \<and> tr_Level t' = lvl \<and> tr_Head t' = tr_Tail t'
     \<and> trail_lits t' = filter (\<lambda>m. lev v m \<le> lvl) (trail_lits t)
     \<and> (\<forall>n \<in> set (trail_lits t'). reason v' n = reason v n \<and> lev v' n = lev v n)
     \<and> v' = v\<lparr>vs_Reasons := vs_Reasons v', vs_Levels := vs_Levels v', vs_Vals := vs_Vals v'\<rparr>
     \<and> guess_room fl v' g'
     \<and> set (gs_vhp g') = set (gs_vhp g) \<union> lit_Var ` {m \<in> set (trail_lits t). lvl < lev v m})"
proof -
  note okD = search_okD [OF ok]
  have "returns (Back fl lvl (t, v, g)) (\<lambda>(t', v', g'). search_ok D P Q t' v' \<and> prop_upto D Q t' v' (lvl + 1))"
    by (rule Back_search_ok [OF ok W g lvl])
  moreover note Back_spec [OF okD(3) g lvl]
  ultimately show ?thesis
  proof (rule returns_mono [OF returns_conj])
    fix r
    assume post: "(case r of (t', v', g') \<Rightarrow> search_ok D P Q t' v' \<and> prop_upto D Q t' v' (lvl + 1))
      \<and> (case r of (t', v', g') \<Rightarrow> trail_ok t' v' \<and> tr_Level t' = lvl
       \<and> tr_Head t' = tr_Tail t' \<and> tr_Tail t' \<le> tr_Tail t
       \<and> trail_lits t' = take (tr_Tail t') (trail_lits t)
       \<and> (\<forall>j < tr_Tail t. j < tr_Tail t' \<longleftrightarrow> lev v (trail_lits t ! j) \<le> lvl)
       \<and> (\<forall>n \<in> set (trail_lits t'). reason v' n = reason v n \<and> lev v' n = lev v n)
       \<and> v' = v\<lparr>vs_Reasons := vs_Reasons v', vs_Levels := vs_Levels v', vs_Vals := vs_Vals v'\<rparr>
       \<and> guess_room fl v' g' \<and> length (gs_pos g') = length (gs_pos g)
       \<and> set (gs_vhp g') = set (gs_vhp g) \<union> lit_Var ` set (drop (tr_Tail t') (trail_lits t)))"
    obtain t' v' g' where r: "r = (t', v', g')" by (cases r)
    let ?T = "trail_lits t" and ?k = "tr_Tail t'"
    have len: "length ?T = tr_Tail t" using okD(3) by simp
    have le: "?k \<le> length ?T" and tl: "trail_lits t' = take ?k ?T"
      and cut: "\<And>j. j < length ?T \<Longrightarrow> j < ?k \<longleftrightarrow> lev v (?T ! j) \<le> lvl"
      using post unfolding r len by auto
    have tk: "\<forall>m \<in> set (take ?k ?T). lev v m \<le> lvl"
    proof
      fix m assume "m \<in> set (take ?k ?T)"
      then obtain i where "i < length (take ?k ?T)" "m = take ?k ?T ! i" by (metis in_set_conv_nth)
      then show "lev v m \<le> lvl" using cut [of i] by simp
    qed
    have dr: "\<forall>m \<in> set (drop ?k ?T). lvl < lev v m"
    proof
      fix m assume "m \<in> set (drop ?k ?T)"
      then obtain j where "j < length ?T - ?k" "m = ?T ! (?k + j)" by (auto simp: in_set_conv_nth)
      moreover have "\<not> lev v (?T ! (?k + j)) \<le> lvl"
        using cut [of "?k + j"] \<open>j < _\<close> by (simp del: not_le)
      ultimately show "lvl < lev v m" by simp
    qed
    have T: "?T = take ?k ?T @ drop ?k ?T" by simp
    have "filter (\<lambda>m. lev v m \<le> lvl) (take ?k ?T @ drop ?k ?T) = take ?k ?T"
      unfolding filter_append using tk dr by (auto simp: filter_id_conv filter_empty_conv)
    then have f: "filter (\<lambda>m. lev v m \<le> lvl) ?T = take ?k ?T" by simp
    have s: "set (drop ?k ?T) = {m \<in> set ?T. lvl < lev v m}"
    proof -
      have "m \<in> set ?T \<longleftrightarrow> m \<in> set (take ?k ?T) \<or> m \<in> set (drop ?k ?T)" for m
        by (subst T, subst set_append) simp
      then show ?thesis using tk dr by fastforce
    qed
    show "case r of (t', v', g') \<Rightarrow> search_ok D P Q t' v'
     \<and> prop_upto D Q t' v' (tr_Level t' + 1) \<and> tr_Level t' = lvl \<and> tr_Head t' = tr_Tail t'
     \<and> trail_lits t' = filter (\<lambda>m. lev v m \<le> lvl) (trail_lits t)
     \<and> (\<forall>n \<in> set (trail_lits t'). reason v' n = reason v n \<and> lev v' n = lev v n)
     \<and> v' = v\<lparr>vs_Reasons := vs_Reasons v', vs_Levels := vs_Levels v', vs_Vals := vs_Vals v'\<rparr>
     \<and> guess_room fl v' g'
     \<and> set (gs_vhp g') = set (gs_vhp g) \<union> lit_Var ` {m \<in> set (trail_lits t). lvl < lev v m}"
      using post tl f s unfolding r by simp
  qed
qed

text \<open>
  (C8) Backtracking to a lower level takes back exactly the literals above it, most recent first, puts
  their variables into the heap again, and keeps the reasons and levels of the others. If every
  clause was propagated below the current level, then afterwards every clause is propagated.
\<close>

theorem Back_correct:
  assumes ok: "search_ok D P Q t v" and W: "prop_upto D Q t v (tr_Level t)"
    and g: "guess_room fl v g" and lvl: "0 \<le> lvl" "lvl < tr_Level t"
  shows "returns (Back fl lvl (t, v, g)) (\<lambda>(t', v', g'). search_ok D P Q t' v'
     \<and> prop_upto D Q t' v' (tr_Level t' + 1) \<and> tr_Level t' = lvl \<and> tr_Head t' = tr_Tail t'
     \<and> trail_lits t' = filter (\<lambda>m. lev v m \<le> lvl) (trail_lits t)
     \<and> (\<forall>n \<in> set (trail_lits t'). reason v' n = reason v n \<and> lev v' n = lev v n)
     \<and> v' = v\<lparr>vs_Reasons := vs_Reasons v', vs_Levels := vs_Levels v', vs_Vals := vs_Vals v'\<rparr>
     \<and> guess_room fl v' g'
     \<and> set (gs_vhp g') = set (gs_vhp g) \<union> lit_Var ` {m \<in> set (trail_lits t). lvl < lev v m})"
  by (rule Back_full [OF assms])

lemma newGuess_room:
  assumes "vars_ok v"
  shows "guess_room fl v (newGuess fl (unat (vs_Top v)))"
  using vars_okD(2) [OF assms]
  by (simp add: guess_room_def heap_ok_def gs_wf_def newGuess_def Let_def ordered_def del: replicate_Suc)

theorem Back_correct_witness:
  "\<forall>fl :: int floats. \<exists>t v g. trail_lits t = [2] \<and>
     returns (Back fl 0 (t, v, g)) (\<lambda>(t', v', g'). trail_lits t' = [] \<and> set (gs_vhp g') = {1})"
proof
  fix fl :: "int floats"
  obtain h t v and c :: cdb where S: "search_ok (cd_D (cb_CDat c)) (locs [(h, [3])]) {} t v"
      "\<forall>L. prop_upto (cd_D (cb_CDat c)) {} t v L" "trail_lits t = [2]" "tr_Level t = 1" "lev v 2 = 1"
    by (rule decided_state) blast
  have g: "guess_room fl v (newGuess fl (unat (vs_Top v)))"
    by (rule newGuess_room [OF trail_okD(1) [OF search_okD(3) [OF S(1)]]])
  have v1: "lit_Var 2 = 1" by (simp add: lit_Var_def)
  have "returns (Back fl 0 (t, v, newGuess fl (unat (vs_Top v))))
      (\<lambda>(t', v', g'). trail_lits t' = [] \<and> set (gs_vhp g') = {1})"
    by (rule returns_mono [OF Back_correct [OF S(1) spec [OF S(2)] g]])
      (auto simp: S(3-5) v1 newGuess_def Let_def split: prod.splits if_splits)
  then show "\<exists>t v g. trail_lits t = [2] \<and>
     returns (Back fl 0 (t, v, g)) (\<lambda>(t', v', g'). trail_lits t' = [] \<and> set (gs_vhp g') = {1})"
    using S(3) by blast
qed

section \<open>Conflict analysis\<close>

text \<open>
  (C7) Conflict analysis, called with a clause that is false and has a literal of the current level,
  returns without a panic. The clause it learns follows from the clauses in the database, all
  its literals are false, its first literal is the only one of the current level, and no other
  literal is above the level it says to go back to. It is in the database and watched, the other
  clauses have not changed, and the invariant of the search is kept.
\<close>

theorem Derive_correct:
  assumes db: "db_ok cls c" and ok: "search_ok (cd_D (cb_CDat c)) (locs cls) Q t v"
    and W: "prop_upto (cd_D (cb_CDat c)) Q t v (tr_Level t)" and lv: "0 < tr_Level t"
    and x: "x \<in> locs cls" "\<forall>n \<in> set (lits (cd_D (cb_CDat c)) x). in_range v n \<and> val_of v n = -1"
      "\<exists>n \<in> set (lits (cd_D (cb_CDat c)) x). lev v n = tr_Level t"
    and d: "deriv_ok t v d" and g: "guess_room fl v g"
    and room: "2 * (cd_Len (cb_CDat c) + unat (vs_Top v) + 2) < 2147483648"
  shows "returns (Deriver_Derive fl x t (d, v, c, None, g)) (\<lambda>(e, d', v', c', act', g'). \<exists>xs.
     (\<forall>\<sigma>. sat_all \<sigma> (cd_D (cb_CDat c)) (locs cls) \<longrightarrow> clause_true \<sigma> (de_Unit e # xs))
     \<and> lit_Not (de_Unit e) \<in> set (trail_lits t) \<and> lev v (de_Unit e) = tr_Level t
     \<and> (\<forall>n \<in> set xs. lit_Not n \<in> set (trail_lits t) \<and> 0 < lev v n \<and> lev v n \<le> de_TargetLevel e)
     \<and> 0 \<le> de_TargetLevel e \<and> de_TargetLevel e < tr_Level t
     \<and> lits (cd_D (cb_CDat c')) (de_P e) = de_Unit e # xs
     \<and> (\<forall>q \<in> locs cls. lits (cd_D (cb_CDat c')) q = lits (cd_D (cb_CDat c)) q)
     \<and> search_ok (cd_D (cb_CDat c')) (insert (de_P e) (locs cls)) (attached (de_Unit e # xs) (de_P e) Q) t v'
     \<and> prop_upto (cd_D (cb_CDat c')) (attached (de_Unit e # xs) (de_P e) Q) t v' (tr_Level t)
     \<and> v' = v\<lparr>vs_Watches := vs_Watches v'\<rparr> \<and> deriv_ok t v' d' \<and> guess_room fl v' g' \<and> act' = None)"
proof (rule returns_mono [OF Derive_spec [OF db ok W lv x d g room]])
  fix r
  assume post: "derive_post fl cls Q t v c g r"
  obtain e d' v' c' act' g' where r: "r = (e, d', v', c', act', g')" by (cases r)
  show "case r of (e, d', v', c', act', g') \<Rightarrow> \<exists>xs.
     (\<forall>\<sigma>. sat_all \<sigma> (cd_D (cb_CDat c)) (locs cls) \<longrightarrow> clause_true \<sigma> (de_Unit e # xs))
     \<and> lit_Not (de_Unit e) \<in> set (trail_lits t) \<and> lev v (de_Unit e) = tr_Level t
     \<and> (\<forall>n \<in> set xs. lit_Not n \<in> set (trail_lits t) \<and> 0 < lev v n \<and> lev v n \<le> de_TargetLevel e)
     \<and> 0 \<le> de_TargetLevel e \<and> de_TargetLevel e < tr_Level t
     \<and> lits (cd_D (cb_CDat c')) (de_P e) = de_Unit e # xs
     \<and> (\<forall>q \<in> locs cls. lits (cd_D (cb_CDat c')) q = lits (cd_D (cb_CDat c)) q)
     \<and> search_ok (cd_D (cb_CDat c')) (insert (de_P e) (locs cls)) (attached (de_Unit e # xs) (de_P e) Q) t v'
     \<and> prop_upto (cd_D (cb_CDat c')) (attached (de_Unit e # xs) (de_P e) Q) t v' (tr_Level t)
     \<and> v' = v\<lparr>vs_Watches := vs_Watches v'\<rparr> \<and> deriv_ok t v' d' \<and> guess_room fl v' g' \<and> act' = None"
    using post unfolding r derive_post_def prod.case by blast
qed

lemma NewDeriver_ok:
  assumes "vars_ok v"
  shows "deriv_ok t v (NewDeriver v)"
proof -
  have "unat (vs_Top v) \<le> length (vs_Levels v)" using vars_okD(3,6,7) [OF assms] by simp
  then show ?thesis by (simp add: deriv_ok_def NewDeriver_def)
qed

theorem Derive_correct_witness:
  "\<forall>fl :: int floats. \<exists>c t v g. trail_lits t = [2] \<and> lits (cd_D (cb_CDat c)) 1 = [3] \<and>
     returns (Deriver_Derive fl 1 t (NewDeriver v, v, c, None, g)) (\<lambda>(e, d', v', c', act', g').
       de_Unit e = 3 \<and> de_TargetLevel e = 0)"
proof
  fix fl :: "int floats"
  obtain h c t v where S: "db_ok [(h, [3])] c" "search_ok (cd_D (cb_CDat c)) (locs [(h, [3])]) {} t v"
      "\<forall>L. prop_upto (cd_D (cb_CDat c)) {} t v L" "trail_lits t = [2]" "tr_Level t = 1" "lev v 2 = 1"
      "1 \<in> locs [(h, [3])]" "lits (cd_D (cb_CDat c)) 1 = [3]" "in_range v 3" "val_of v 3 = -1"
      "2 * (cd_Len (cb_CDat c) + unat (vs_Top v) + 2) < 2147483648"
    by (rule decided_state) blast
  have vok: "vars_ok v" by (rule trail_okD(1) [OF search_okD(3) [OF S(2)]])
  have nn: "lit_Not 2 = 3" "lit_Not 3 = 2" by (simp_all add: lit_Not_def)
  have l3: "lev v 3 = 1" using S(6) lev_Not [of v 2] by (simp add: nn)
  have "returns (Deriver_Derive fl 1 t (NewDeriver v, v, c, None, newGuess fl (unat (vs_Top v))))
      (\<lambda>(e, d', v', c', act', g'). de_Unit e = 3 \<and> de_TargetLevel e = 0)"
    by (rule returns_mono [OF Derive_correct [OF S(1,2) spec [OF S(3)] _ S(7) _ _ NewDeriver_ok [OF vok] newGuess_room [OF vok] S(11)]])
      (use S l3 in \<open>auto simp: nn split: prod.splits dest!: arg_cong [of _ 2 lit_Not]\<close>)
  then show "\<exists>c t v g. trail_lits t = [2] \<and> lits (cd_D (cb_CDat c)) 1 = [3] \<and>
     returns (Deriver_Derive fl 1 t (NewDeriver v, v, c, None, g)) (\<lambda>(e, d', v', c', act', g').
       de_Unit e = 3 \<and> de_TargetLevel e = 0)"
    using S(4,8) by blast
qed

end
