(* ===== verification/Solver.thy ===== *)
theory Solver
  imports Derive
begin

text \<open>
  The solver (\<^verbatim>\<open>internal/xo/s.go\<close>, \<^verbatim>\<open>phases.go\<close> and the solver side of \<^verbatim>\<open>active.go\<close>): adding
  clauses, assumptions and test scopes, the search loop, and failed assumptions.

  The operations run one at a time (the mutexes serialise them), so the locks are not
  represented, nor are statistics.  What a propagation tick learns from the
  deadline and from the control channel is an argument, a function from the number of the
  tick to the two answers.  \<^verbatim>\<open>log.Fatalf\<close> ends the process and is a panic here.
\<close>

record 'h solver =
  sv_Vars :: vars
  sv_Cdb :: cdb
  sv_Trail :: trail
  sv_Guess :: "'h guess"
  sv_Driver :: deriver
  sv_Active :: "active option"
  sv_luby :: luby
  sv_x :: cloc
  sv_xLit :: lit
  sv_testLevels :: "int list"
  sv_endTestLevel :: int
  sv_assumptLevel :: int
  sv_assumes :: "lit list"
  sv_failed :: "lit list"
  sv_phases :: var
  sv_restartStopwatch :: int

definition RestartAfter :: u64 where
  "RestartAfter = 1000"

definition RestartFactor :: u64 where
  "RestartFactor = 768"

definition PropTick :: int where
  "PropTick = 20000"

definition NewSCdb :: "'h floats \<Rightarrow> vars \<Rightarrow> cdb \<Rightarrow> 'h solver option" where
  "NewSCdb fl v c =
     do { g \<leftarrow> NewGuessCdb fl v c;
          Some \<lparr>sv_Vars = v, sv_Cdb = c, sv_Trail = NewTrail v, sv_Guess = g,
                sv_Driver = NewDeriver v, sv_Active = None, sv_luby = NewLuby, sv_x = CNull,
                sv_xLit = LitNull, sv_testLevels = [], sv_endTestLevel = 0, sv_assumptLevel = 0,
                sv_assumes = [], sv_failed = [], sv_phases = 0, sv_restartStopwatch = 0\<rparr> }"

definition NewSVc :: "'h floats \<Rightarrow> int \<Rightarrow> int \<Rightarrow> 'h solver option" where
  "NewSVc fl vCapHint cCapHint =
     (let vars = NewVars_xo vCapHint; cdb = NewCdb vars cCapHint in NewSCdb fl vars cdb)"

definition NewSV :: "'h floats \<Rightarrow> int \<Rightarrow> 'h solver option" where
  "NewSV fl vCapHint = NewSVc fl vCapHint (vCapHint * 8)"

definition NewS_xo :: "'h floats \<Rightarrow> 'h solver option" where
  "NewS_xo fl = NewSVc fl 128 768"

definition S_Copy_xo :: "'h floats \<Rightarrow> 'h solver \<Rightarrow> 'h solver" where
  "S_Copy_xo fl s =
     \<lparr>sv_Vars = vars_Copy (sv_Vars s), sv_Cdb = Cdb_CopyWith (sv_Cdb s),
      sv_Trail = Trail_CopyWith (sv_Trail s), sv_Guess = Guess_Copy fl (sv_Guess s),
      sv_Driver = Deriver_CopyWith (sv_Driver s),
      sv_Active = map_option Active_Copy (sv_Active s), sv_luby = sv_luby s, sv_x = sv_x s,
      sv_xLit = sv_xLit s, sv_testLevels = sv_testLevels s, sv_endTestLevel = sv_endTestLevel s,
      sv_assumptLevel = sv_assumptLevel s, sv_assumes = sv_assumes s, sv_failed = sv_failed s,
      sv_phases = sv_phases s, sv_restartStopwatch = sv_restartStopwatch s\<rparr>"

section \<open>Capacity\<close>

partial_function (option) double_to :: "var \<Rightarrow> var \<Rightarrow> var option" where
  "double_to mVar tp = (if tp \<le> mVar then double_to mVar (tp * 2) else Some tp)"

definition push_vars :: "'h floats \<Rightarrow> var \<Rightarrow> var \<Rightarrow> 'h guess \<Rightarrow> 'h guess option" where
  "push_vars fl lo hi g =
     foldM (\<lambda>i. Guess_Push fl (var_Pos (of_nat i))) [unat lo + 1..<unat hi + 1] g"

definition ensureLitCap :: "'h floats \<Rightarrow> lit \<Rightarrow> 'h solver \<Rightarrow> 'h solver option" where
  "ensureLitCap fl m s =
     (let mVar = lit_Var m
      in do { s \<leftarrow> (if mVar \<ge> vs_Top (sv_Vars s)
                     then do { tp \<leftarrow> double_to mVar (vs_Top (sv_Vars s));
                               g \<leftarrow> Guess_growToVar fl tp (sv_Guess s);
                               Some (s\<lparr>sv_Vars := vars_growToVar tp (sv_Vars s),
                                       sv_Cdb := Cdb_growToVar tp (sv_Cdb s),
                                       sv_Trail := Trail_growToVar tp (sv_Trail s),
                                       sv_Guess := g,
                                       sv_Driver := Deriver_growToVar tp (sv_Driver s),
                                       sv_Active := map_option (Active_growToVar tp) (sv_Active s)\<rparr>) }
                     else Some s);
              let mx = vs_Max (sv_Vars s);
              if mVar > mx
              then do { g \<leftarrow> push_vars fl mx mVar (sv_Guess s);
                        Some (s\<lparr>sv_Guess := g, sv_Vars := (sv_Vars s)\<lparr>vs_Max := mVar\<rparr>\<rparr>) }
              else Some s })"

definition S_Lit :: "'h floats \<Rightarrow> 'h solver \<Rightarrow> (lit \<times> 'h solver) option" where
  "S_Lit fl s =
     (let n = vs_Max (sv_Vars s) + 1; m = var_Pos n
      in do { s \<leftarrow> ensureLitCap fl m s; Some (m, s) })"

definition S_MaxVar :: "'h solver \<Rightarrow> var" where
  "S_MaxVar s = vs_Max (sv_Vars s)"

section \<open>Operations on the components of the solver\<close>

definition s_Back :: "'h floats \<Rightarrow> int \<Rightarrow> 'h solver \<Rightarrow> 'h solver option" where
  "s_Back fl lvl s =
     do { (t, v, g) \<leftarrow> Back fl lvl (sv_Trail s, sv_Vars s, sv_Guess s);
          Some (s\<lparr>sv_Trail := t, sv_Vars := v, sv_Guess := g\<rparr>) }"

definition s_Assign :: "lit \<Rightarrow> cloc \<Rightarrow> 'h solver \<Rightarrow> 'h solver option" where
  "s_Assign m p s =
     do { (t, v) \<leftarrow> Assign m p (sv_Trail s, sv_Vars s); Some (s\<lparr>sv_Trail := t, sv_Vars := v\<rparr>) }"

definition s_Prop :: "'h solver \<Rightarrow> (cloc \<times> 'h solver) option" where
  "s_Prop s =
     do { (x, t, v, c) \<leftarrow> Prop (sv_Trail s, sv_Vars s, sv_Cdb s);
          Some (x, s\<lparr>sv_Trail := t, sv_Vars := v, sv_Cdb := c\<rparr>) }"

definition s_Derive :: "'h floats \<Rightarrow> cloc \<Rightarrow> 'h solver \<Rightarrow> (derived \<times> 'h solver) option" where
  "s_Derive fl x s =
     do { (r, d, v, c, act, g) \<leftarrow> Deriver_Derive fl x (sv_Trail s)
            (sv_Driver s, sv_Vars s, sv_Cdb s, sv_Active s, sv_Guess s);
          Some (r, s\<lparr>sv_Driver := d, sv_Vars := v, sv_Cdb := c, sv_Active := act, sv_Guess := g\<rparr>) }"

section \<open>Adding clauses\<close>

definition ensure0 :: "'h floats \<Rightarrow> 'h solver \<Rightarrow> 'h solver option" where
  "ensure0 fl s =
     do { _ \<leftarrow> assert_o (sv_testLevels s = []);
          s \<leftarrow> (if tr_Level (sv_Trail s) \<noteq> 0 then s_Back fl 0 s else Some s);
          Some (s\<lparr>sv_x := CNull, sv_xLit := LitNull, sv_failed := []\<rparr>) }"

definition S_Add :: "'h floats \<Rightarrow> lit \<Rightarrow> 'h solver \<Rightarrow> 'h solver option" where
  "S_Add fl m s =
     do { s \<leftarrow> ensureLitCap fl m s;
          s \<leftarrow> (if m = LitNull
                 then do { s \<leftarrow> ensure0 fl s;
                           Some (s\<lparr>sv_Cdb := (sv_Cdb s)\<lparr>cb_checkModel := True\<rparr>\<rparr>) }
                 else Some s);
          (loc, u, v, c) \<leftarrow> Cdb_Add m (sv_Vars s, sv_Cdb s);
          let s = s\<lparr>sv_Vars := v, sv_Cdb := c\<rparr>;
          if u \<noteq> LitNull then s_Assign u loc s else Some s }"

fun S_Adds :: "'h floats \<Rightarrow> lit list \<Rightarrow> 'h solver \<Rightarrow> 'h solver option" where
  "S_Adds fl [] s = Some s"
| "S_Adds fl (m # ms) s = do { s \<leftarrow> S_Add fl m s; S_Adds fl ms s }"

section \<open>Activation literals\<close>

definition ensureActive :: "'h solver \<Rightarrow> 'h solver" where
  "ensureActive s =
     (if sv_Active s = None
      then s\<lparr>sv_Active := Some (newActive (unat (vs_Top (sv_Vars s))))\<rparr> else s)"

definition Active_Lit :: "'h floats \<Rightarrow> 'h solver \<Rightarrow> (lit \<times> 'h solver) option" where
  "Active_Lit fl s =
     do { a \<leftarrow> sv_Active s;
          if ac_Free a \<noteq> []
          then Some (last (ac_Free a), s\<lparr>sv_Active := Some (a\<lparr>ac_Free := butlast (ac_Free a)\<rparr>)\<rparr>)
          else S_Lit fl s }"

definition Active_ActivateWith :: "'h floats \<Rightarrow> lit \<Rightarrow> 'h solver \<Rightarrow> 'h solver option" where
  "Active_ActivateWith fl act s =
     do { a \<leftarrow> sv_Active s;
          isa \<leftarrow> aset (ac_IsActive a) (unat (lit_Var act)) True;
          let s = s\<lparr>sv_Active := Some (a\<lparr>ac_IsActive := isa\<rparr>)\<rparr>;
          s \<leftarrow> S_Add fl (lit_Not act) s;
          (loc, u, v, c) \<leftarrow> Cdb_Add LitNull (sv_Vars s, sv_Cdb s);
          let s = s\<lparr>sv_Vars := v, sv_Cdb := c\<rparr>;
          _ \<leftarrow> assert_o (u = LitNull);
          _ \<leftarrow> assert_o (loc \<noteq> CInf);
          ms \<leftarrow> Cdb_Lits loc [] (sv_Cdb s);
          a \<leftarrow> sv_Active s;
          a \<leftarrow> occs_add loc ms a;
          Some (s\<lparr>sv_Active := Some a\<rparr>) }"

definition S_ActivationLit :: "'h floats \<Rightarrow> 'h solver \<Rightarrow> (lit \<times> 'h solver) option" where
  "S_ActivationLit fl s = do { s \<leftarrow> ensure0 fl s; Active_Lit fl (ensureActive s) }"

definition S_Activate :: "'h floats \<Rightarrow> 'h solver \<Rightarrow> (lit \<times> 'h solver) option" where
  "S_Activate fl s =
     do { s \<leftarrow> ensure0 fl s;
          (m, s) \<leftarrow> Active_Lit fl (ensureActive s);
          s \<leftarrow> Active_ActivateWith fl m s;
          Some (m, s) }"

definition S_ActivateWith :: "'h floats \<Rightarrow> lit \<Rightarrow> 'h solver \<Rightarrow> 'h solver option" where
  "S_ActivateWith fl act s =
     do { s \<leftarrow> ensure0 fl s; Active_ActivateWith fl act (ensureActive s) }"

definition S_Deactivate :: "'h floats \<Rightarrow> lit \<Rightarrow> 'h solver \<Rightarrow> 'h solver option" where
  "S_Deactivate fl m s =
     do { s \<leftarrow> ensure0 fl s;
          let s = ensureActive s;
          a \<leftarrow> sv_Active s;
          (v, c, a) \<leftarrow> Active_Deactivate m (sv_Vars s, sv_Cdb s, a);
          Some (s\<lparr>sv_Vars := v, sv_Cdb := c, sv_Active := Some a\<rparr>) }"

section \<open>Assumptions\<close>

definition S_Assume :: "'h floats \<Rightarrow> lit list \<Rightarrow> 'h solver \<Rightarrow> 'h solver option" where
  "S_Assume fl ms s = foldM (ensureLitCap fl) ms (s\<lparr>sv_assumes := sv_assumes s @ ms\<rparr>)"

text \<open>One assumption after the other; the flag says that an inconsistency was met.\<close>

fun assume_loop :: "lit list \<Rightarrow> 'h solver \<Rightarrow> (bool \<times> 'h solver) option" where
  "assume_loop [] s = Some (False, s)"
| "assume_loop (m # ms) s =
     do { x \<leftarrow> aget (vs_Vals (sv_Vars s)) (unat m);
          if x = 0
          then do { let s = s\<lparr>sv_assumptLevel := sv_assumptLevel s + 1\<rparr>;
                    s \<leftarrow> s_Assign m CNull s;
                    (x, s) \<leftarrow> s_Prop s;
                    if x \<noteq> CNull then Some (True, s\<lparr>sv_x := x\<rparr>) else assume_loop ms s }
          else if x = 1 then assume_loop ms s
          else if x = -1 then Some (True, s\<lparr>sv_xLit := m\<rparr>)
          else None }"

definition makeAssumptions :: "'h solver \<Rightarrow> (int \<times> 'h solver) option" where
  "makeAssumptions s =
     (let s = s\<lparr>sv_assumptLevel := tr_Level (sv_Trail s)\<rparr>;
          ms = sv_assumes s
      in if cb_Bot (sv_Cdb s) \<noteq> CNull
         then Some (-1, s\<lparr>sv_x := cb_Bot (sv_Cdb s), sv_assumes := []\<rparr>)
         else do { (x, s) \<leftarrow> s_Prop s;
                   if x \<noteq> CNull then Some (-1, s\<lparr>sv_x := x, sv_assumes := []\<rparr>)
                   else do { (bad, s) \<leftarrow> assume_loop ms s;
                             Some (if bad then -1 else 0, s\<lparr>sv_assumes := []\<rparr>) } })"

section \<open>Resolving the previous call\<close>

partial_function (option) cleanup_loop :: "'h floats \<Rightarrow> 'h solver \<Rightarrow> (cloc \<times> 'h solver) option" where
  "cleanup_loop fl s =
     (if sv_x s = CNull then Some (CNull, s)
      else if cb_Bot (sv_Cdb s) \<noteq> CNull then Some (CNull, s\<lparr>sv_x := CNull\<rparr>)
      else do { (d, s) \<leftarrow> s_Derive fl (sv_x s) s;
                if de_TargetLevel d < sv_endTestLevel s
                then do { s \<leftarrow> s_Back fl (sv_endTestLevel s) s;
                          l \<leftarrow> aget (vs_Levels (sv_Vars s)) (unat (lit_Var (de_Unit d)));
                          if l = -1
                          then do { s \<leftarrow> s_Assign (de_Unit d) (de_P d) s;
                                    (x, s) \<leftarrow> s_Prop s;
                                    cleanup_loop fl (s\<lparr>sv_x := x\<rparr>) }
                          else Some (de_P d, s) }
                else do { s \<leftarrow> s_Back fl (de_TargetLevel d) s;
                          s \<leftarrow> s_Assign (de_Unit d) (de_P d) s;
                          (x, s) \<leftarrow> s_Prop s;
                          cleanup_loop fl (s\<lparr>sv_x := x\<rparr>) } })"

text \<open>
  The loop of the source returns a clause from inside (the unresolved case) or falls through to
  the final reset; the location of a clause is never the null reference.
\<close>

definition cleanupSolve :: "'h floats \<Rightarrow> 'h solver \<Rightarrow> (cloc \<times> 'h solver) option" where
  "cleanupSolve fl s =
     do { (p, s) \<leftarrow> cleanup_loop fl s;
          if p \<noteq> CNull then Some (p, s)
          else do { s \<leftarrow> s_Back fl (sv_endTestLevel s) s;
                    Some (CNull, s\<lparr>sv_xLit := LitNull, sv_failed := []\<rparr>) } }"

section \<open>Phases\<close>

definition bump_count :: "u64 \<Rightarrow> lit \<Rightarrow> u64 list \<Rightarrow> u64 list option" where
  "bump_count w m counts =
     do { k \<leftarrow> aget counts (unat m); aset counts (unat m) (k + w) }"

fun phase_clause :: "u32 list \<Rightarrow> u64 \<Rightarrow> cloc \<Rightarrow> nat \<Rightarrow> u64 list \<Rightarrow> u64 list option" where
  "phase_clause D w q 0 counts = Some counts"
| "phase_clause D w q (Suc n) counts =
     do { m \<leftarrow> aget D (unat q);
          if m = LitNull then Some counts
          else do { counts \<leftarrow> bump_count w m counts; phase_clause D w (q + 1) n counts } }"

definition phase_count :: "u32 list \<Rightarrow> cloc \<Rightarrow> u64 list \<Rightarrow> u64 list option" where
  "phase_count D p counts =
     do { h \<leftarrow> aget D (unat (p - 1));
          let sz = unat (chd_Size h);
          if sz \<ge> 16 then Some counts
          else phase_clause D (push_bit (16 - sz) 1) p sz counts }"

definition phases_init :: "vars \<Rightarrow> cdb \<Rightarrow> var \<Rightarrow> 'h guess \<Rightarrow> (var \<times> 'h guess) option" where
  "phases_init v c p g =
     (if vs_Max v = p then Some (p, g)
      else let M = vs_Max v;
               N = unat (2 * M + 2)
           in do { counts \<leftarrow> foldM (phase_count (cd_D (cb_CDat c))) (cb_Added c) (replicate N 0);
                   cache \<leftarrow> foldM (\<lambda>i cache.
                     do { a \<leftarrow> aget counts (unat (var_Pos (of_nat i)));
                          b \<leftarrow> aget counts (unat (var_Neg (of_nat i)));
                          aset cache i (if a > b then 1 else -1) }) [1..<unat M + 1] (gs_cache g);
                   Some (M, g\<lparr>gs_cache := cache\<rparr>) })"

section \<open>Search\<close>

partial_function (option) first_restart :: "luby \<Rightarrow> (luby \<times> u64) option" where
  "first_restart l =
     (let (n, l) = luby_Next l; r = n * RestartFactor
      in if r \<ge> RestartAfter then Some (l, r) else first_restart l)"

definition solveInit :: "'h floats \<Rightarrow> 'h solver \<Rightarrow> (int \<times> 'h solver) option" where
  "solveInit fl s =
     do { (l, r) \<leftarrow> first_restart NewLuby;
          let s = s\<lparr>sv_luby := l, sv_restartStopwatch := int (unat r)\<rparr>;
          (x, s) \<leftarrow> cleanupSolve fl s;
          if x \<noteq> CNull then Some (-1, s\<lparr>sv_x := x\<rparr>)
          else do { (r, s) \<leftarrow> makeAssumptions s;
                    if r = -1 then Some (r, s)
                    else do { (p, g) \<leftarrow> phases_init (sv_Vars s) (sv_Cdb s) (sv_phases s) (sv_Guess s);
                              Some (0, s\<lparr>sv_phases := p, sv_Guess := g\<rparr>) } } }"

text \<open>The variables of the loop of Solve besides the solver: the next tick and their number.\<close>

type_synonym 'h search = "int \<times> nat \<times> 'h solver"

text \<open>What one turn of the loop comes to: go on, or return a result.\<close>

datatype 'h turn = Go "'h search" | Return int "'h solver"

definition turn_conflict :: "'h floats \<Rightarrow> cloc \<Rightarrow> int \<Rightarrow> 'h search \<Rightarrow> 'h turn option" where
  "turn_conflict fl x aLevel st =
     (case st of (nxtTick, tick, s) \<Rightarrow>
       if tr_Level (sv_Trail s) \<le> aLevel then Some (Return (-1) (s\<lparr>sv_x := x\<rparr>))
       else do { (d, s) \<leftarrow> s_Derive fl x s;
                 s \<leftarrow> s_Back fl (if de_TargetLevel d < aLevel then aLevel else de_TargetLevel d) s;
                 s \<leftarrow> s_Assign (de_Unit d) (de_P d) s;
                 Some (Go (nxtTick, tick,
                   s\<lparr>sv_Guess := Guess_Decay fl (sv_Guess s), sv_Cdb := Cdb_Decay (sv_Cdb s),
                     sv_restartStopwatch := sv_restartStopwatch s - 1\<rparr>)) })"

definition turn_restart :: "'h floats \<Rightarrow> 'h solver \<Rightarrow> 'h solver option" where
  "turn_restart fl s =
     (if sv_restartStopwatch s \<le> 0
      then let (nxt, l) = luby_Next (sv_luby s);
               s = s\<lparr>sv_luby := l, sv_restartStopwatch := sint (nxt * RestartFactor)\<rparr>
           in do { s \<leftarrow> s_Back fl (sv_assumptLevel s) s;
                   Some (s\<lparr>sv_Guess := Guess_nextRestart fl (sv_restartStopwatch s) (sv_Guess s)\<rparr>) }
      else Some s)"

definition turn_model :: "'h solver \<Rightarrow> 'h turn option" where
  "turn_model s =
     do { (errs, v, c, act) \<leftarrow> Cdb_CheckModel (sv_Vars s, sv_Cdb s, sv_Active s);
          let c = (if sv_Active s \<noteq> None then c\<lparr>cb_checkModel := False\<rparr> else c);
          let s = s\<lparr>sv_Vars := v, sv_Cdb := c, sv_Active := act\<rparr>;
          _ \<leftarrow> assert_o (errs = []);
          Some (Return 1 s) }"

definition turn_decide :: "'h floats \<Rightarrow> 'h search \<Rightarrow> 'h turn option" where
  "turn_decide fl st =
     (case st of (nxtTick, tick, s) \<Rightarrow>
       do { s \<leftarrow> turn_restart fl s;
            (m, g) \<leftarrow> Guess_Guess fl (vs_Vals (sv_Vars s)) (sv_Guess s);
            let s = s\<lparr>sv_Guess := g\<rparr>;
            if m = LitNull then turn_model s
            else do { (u, nc, ms, v, c, act) \<leftarrow> Cdb_MaybeCompact (sv_Vars s, sv_Cdb s, sv_Active s);
                      s \<leftarrow> s_Assign m CNull (s\<lparr>sv_Vars := v, sv_Cdb := c, sv_Active := act\<rparr>);
                      Some (Go (nxtTick, tick, s)) } })"

definition solve_turn ::
    "'h floats \<Rightarrow> (nat \<Rightarrow> bool \<times> bool) \<Rightarrow> int \<Rightarrow> 'h search \<Rightarrow> 'h turn option" where
  "solve_turn fl ctl aLevel st =
     (case st of (nxtTick, tick, s) \<Rightarrow>
       do { (x, s) \<leftarrow> s_Prop s;
            if x \<noteq> CNull then turn_conflict fl x aLevel (nxtTick, tick, s)
            else if tr_Props (sv_Trail s) > nxtTick
            then let nxtTick = nxtTick + PropTick;
                     tick = tick + 1;
                     (timeout, run) = ctl tick
                 in if timeout then Some (Return 0 s)
                    else if \<not> run
                    then do { s \<leftarrow> s_Back fl (sv_endTestLevel s) s; Some (Return 0 s) }
                    else turn_decide fl (nxtTick, tick, s)
            else turn_decide fl (nxtTick, tick, s) })"

partial_function (option) solve_loop ::
    "'h floats \<Rightarrow> (nat \<Rightarrow> bool \<times> bool) \<Rightarrow> int \<Rightarrow> 'h search \<Rightarrow> (int \<times> 'h solver) option" where
  "solve_loop fl ctl aLevel st =
     do { r \<leftarrow> solve_turn fl ctl aLevel st;
          case r of Go st' \<Rightarrow> solve_loop fl ctl aLevel st' | Return res s \<Rightarrow> Some (res, s) }"

definition S_Solve :: "'h floats \<Rightarrow> (nat \<Rightarrow> bool \<times> bool) \<Rightarrow> 'h solver \<Rightarrow> (int \<times> 'h solver) option" where
  "S_Solve fl ctl s =
     do { (r, s) \<leftarrow> solveInit fl s;
          (r, s) \<leftarrow>
            (if r \<noteq> 0 then Some (r, s)
             else let s = s\<lparr>sv_Guess := Guess_nextRestart fl (sv_restartStopwatch s) (sv_Guess s)\<rparr>
                  in solve_loop fl ctl (sv_assumptLevel s)
                       (tr_Props (sv_Trail s) + PropTick, 0, s));
          Some (r, s\<lparr>sv_assumptLevel := 0, sv_assumes := []\<rparr>) }"

definition S_Try :: "'h floats \<Rightarrow> int \<Rightarrow> (nat \<Rightarrow> bool \<times> bool) \<Rightarrow> 'h solver \<Rightarrow> (int \<times> 'h solver) option" where
  "S_Try fl dur ctl s = (if dur \<le> 0 then Some (0, s) else S_Solve fl ctl s)"

definition S_Value :: "lit \<Rightarrow> 'h solver \<Rightarrow> bool option" where
  "S_Value m s = do { x \<leftarrow> aget (vs_Vals (sv_Vars s)) (unat m); Some (x = 1) }"

section \<open>Test scopes\<close>

definition S_Test :: "'h floats \<Rightarrow> lit list option \<Rightarrow> 'h solver \<Rightarrow> (int \<times> lit list option \<times> 'h solver) option" where
  "S_Test fl ms s =
     (let ns = map_option (\<lambda>_. []) ms
      in do { (x, s) \<leftarrow> cleanupSolve fl s;
              _ \<leftarrow> assert_o (x = CNull);
              let s = s\<lparr>sv_testLevels := sv_testLevels s @ [tr_Level (sv_Trail s)]\<rparr>;
              let start = tr_Tail (sv_Trail s);
              (r, s) \<leftarrow> makeAssumptions s;
              if r = -1 then Some (-1, None, s)
              else do {
                let s = s\<lparr>sv_endTestLevel := tr_Level (sv_Trail s)\<rparr>;
                ps \<leftarrow> aslice (tr_D (sv_Trail s)) start (tr_Tail (sv_Trail s));
                let ns = map_option (\<lambda>ns. ns @ ps) ns;
                more \<leftarrow> Guess_has (vs_Vals (sv_Vars s)) (sv_Guess s);
                if more then Some (0, ns, s)
                else do { (errs, v, c, act) \<leftarrow> Cdb_CheckModel (sv_Vars s, sv_Cdb s, sv_Active s);
                          _ \<leftarrow> assert_o (errs = []);
                          Some (1, ns, s\<lparr>sv_Vars := v, sv_Cdb := c, sv_Active := act\<rparr>) } } })"

definition lastTestLevel :: "'h solver \<Rightarrow> int" where
  "lastTestLevel s = (if sv_testLevels s \<noteq> [] then last (sv_testLevels s) else 0)"

definition S_Untest :: "'h floats \<Rightarrow> 'h solver \<Rightarrow> (int \<times> 'h solver) option" where
  "S_Untest fl s =
     do { _ \<leftarrow> assert_o (sv_testLevels s \<noteq> []);
          let lvl = lastTestLevel s;
          let s = s\<lparr>sv_testLevels := butlast (sv_testLevels s), sv_endTestLevel := lvl\<rparr>;
          (x, s) \<leftarrow> cleanupSolve fl s;
          if x \<noteq> CNull then Some (-1, s\<lparr>sv_x := x\<rparr>)
          else do { (t, v, g) \<leftarrow> backWithLates fl lvl (sv_Cdb s) (sv_Trail s, sv_Vars s, sv_Guess s);
                    (x, s) \<leftarrow> s_Prop (s\<lparr>sv_Trail := t, sv_Vars := v, sv_Guess := g\<rparr>);
                    if x \<noteq> CNull then Some (-1, s\<lparr>sv_x := x\<rparr>)
                    else Some (0, s\<lparr>sv_x := CNull, sv_xLit := LitNull\<rparr>) } }"

section \<open>Explanations\<close>

definition S_Reasons :: "lit \<Rightarrow> 'h solver \<Rightarrow> lit list option" where
  "S_Reasons m s =
     do { p \<leftarrow> aget (vs_Reasons (sv_Vars s)) (unat (lit_Var m));
          if p = CNull then Some []
          else do { ms \<leftarrow> lits_loop (cd_D (cb_CDat (sv_Cdb s))) (p + 1) [];
                    Some (map lit_Not ms) } }"

text \<open>As in conflict analysis the recursion visits a literal or scans the rest of a clause.\<close>

datatype final_job = FLit lit | FScan cloc

partial_function (option) finalRec ::
    "u32 list \<Rightarrow> cloc list \<Rightarrow> final_job \<Rightarrow> lit list \<Rightarrow> bool list \<Rightarrow> (lit list \<times> bool list) option" where
  "finalRec D reasons job failed marks =
     (case job of
        FLit m \<Rightarrow>
          do { b \<leftarrow> aget marks (unat (lit_Var m));
               if b then Some (failed, marks)
               else do { marks \<leftarrow> aset marks (unat (lit_Var m)) True;
                         r \<leftarrow> aget reasons (unat (lit_Var m));
                         if r = CNull then Some (failed @ [lit_Not m], marks)
                         else finalRec D reasons (FScan (r + 1)) failed marks } }
      | FScan r \<Rightarrow>
          do { n \<leftarrow> aget D (unat r);
               if n = LitNull then Some (failed, marks)
               else do { (failed, marks) \<leftarrow> finalRec D reasons (FLit n) failed marks;
                         finalRec D reasons (FScan (r + 1)) failed marks } })"

definition S_final :: "lit list \<Rightarrow> 'h solver \<Rightarrow> 'h solver option" where
  "S_final ms s =
     do { (failed, marks) \<leftarrow>
            foldM (\<lambda>m (failed, marks).
                finalRec (cd_D (cb_CDat (sv_Cdb s))) (vs_Reasons (sv_Vars s)) (FLit m) failed marks)
              ms (sv_failed s, replicate (unat (vs_Max (sv_Vars s) + 1)) False);
          Some (s\<lparr>sv_failed := failed\<rparr>) }"

definition S_Why :: "lit list \<Rightarrow> 'h solver \<Rightarrow> (lit list \<times> 'h solver) option" where
  "S_Why ms s =
     (let s = s\<lparr>sv_failed := ms\<rparr>
      in if sv_xLit s \<noteq> LitNull
         then do { s \<leftarrow> S_final [sv_xLit s] (s\<lparr>sv_failed := ms @ [sv_xLit s]\<rparr>);
                   Some (sv_failed s, s) }
         else if sv_x s \<noteq> CNull
         then do { ls \<leftarrow> Cdb_Lits (sv_x s) [] (sv_Cdb s);
                   s \<leftarrow> S_final ls s;
                   Some (sv_failed s, s) }
         else Some (ms, s))"

declare double_to.simps [code] cleanup_loop.simps [code] first_restart.simps [code]
  solve_loop.simps [code] finalRec.simps [code]

end
