(* ===== verification/Search.thy ===== *)
theory Search
  imports SearchProps Solver
begin

text \<open>
  The search loop of the solver: the invariant of its state and what every step does with it.

  \<^item> \<open>core\<close>: the components of the solver are in order and agree with one another, and
    the clauses in the database mean the same as the formula \<open>F\<close> that was added.
  \<^item> \<open>propagated\<close>, \<open>conflicting\<close>: what unit propagation leaves behind.
  \<^item> \<open>assumed\<close>: the decisions up to a level are the assumptions of the call.
\<close>

abbreviation db_of :: "'h solver \<Rightarrow> u32 list" where
  "db_of s \<equiv> cd_D (cb_CDat (sv_Cdb s))"

section \<open>The invariant\<close>

text \<open>The attached clauses, and those that are not waiting to be removed from the store.\<close>

definition att :: "cdb \<Rightarrow> cloc set" where
  "att c = {p \<in> set (cb_Added c) \<union> set (cb_Learnts c). 2 \<le> length (lits (cd_D (cb_CDat c)) p)}"

definition live :: "clause list \<Rightarrow> cdb \<Rightarrow> cloc set" where
  "live cls c = locs cls - set (gc_rmq (cb_gc c))"

definition gc_ok :: "clause list \<Rightarrow> cdb \<Rightarrow> bool" where
  "gc_ok cls c \<longleftrightarrow> distinct (gc_rmq (cb_gc c)) \<and> distinct (cb_Learnts c)
     \<and> set (gc_rmq (cb_gc c)) \<subseteq> locs cls
     \<and> set (gc_rmq (cb_gc c)) \<inter> (set (cb_Added c) \<union> set (cb_Learnts c)) = {}
     \<and> set (cb_Added c) \<inter> set (cb_Learnts c) = {}"

text \<open>
  Every clause in the store follows from the formula, and the formula follows from the clauses that
  were added and the literals of level 0, which were used to simplify them.
\<close>

definition means :: "lit list list \<Rightarrow> cloc set \<Rightarrow> cdb \<Rightarrow> trail \<Rightarrow> vars \<Rightarrow> bool" where
  "means F P c t v \<longleftrightarrow> (\<forall>\<sigma>. cnf_true \<sigma> F \<longrightarrow> sat_all \<sigma> (cd_D (cb_CDat c)) P)
     \<and> (\<forall>\<sigma>. sat_all \<sigma> (cd_D (cb_CDat c)) (set (cb_Added c)) \<longrightarrow>
          (\<forall>m \<in> set (trail_lits t). lev v m = 0 \<longrightarrow> lit_true \<sigma> m) \<longrightarrow> cnf_true \<sigma> F)"

definition added_ok :: "cdb \<Rightarrow> trail \<Rightarrow> vars \<Rightarrow> bool" where
  "added_ok c t v \<longleftrightarrow> (\<forall>p \<in> set (cb_Added c). lits (cd_D (cb_CDat c)) p \<noteq> []
     \<and> (\<forall>m \<in> set (lits (cd_D (cb_CDat c)) p). lit_Var m \<le> vs_Max v)
     \<and> (\<forall>m. lits (cd_D (cb_CDat c)) p = [m] \<longrightarrow> m \<in> set (trail_lits t) \<and> lev v m = 0))"

text \<open>Every variable that can be decided is in range, and every unassigned one can be decided.\<close>

definition heap_full :: "vars \<Rightarrow> 'h guess \<Rightarrow> bool" where
  "heap_full v g \<longleftrightarrow> (\<forall>x \<in> set (gs_vhp g). 0 < unat x \<and> x < vs_Top v)
     \<and> (\<forall>x. 0 < unat x \<longrightarrow> x \<le> vs_Max v \<longrightarrow> free_var (vs_Vals v) x \<longrightarrow> x \<in> set (gs_vhp g))"

definition core_at :: "'h floats \<Rightarrow> lit list list \<Rightarrow> clause list \<Rightarrow> 'h solver \<Rightarrow> bool" where
  "core_at fl F cls s \<longleftrightarrow> db_ok cls (sv_Cdb s) \<and> gc_ok cls (sv_Cdb s)
     \<and> search_ok (db_of s) (live cls (sv_Cdb s)) (att (sv_Cdb s)) (sv_Trail s) (sv_Vars s)
     \<and> means F (locs cls) (sv_Cdb s) (sv_Trail s) (sv_Vars s)
     \<and> added_ok (sv_Cdb s) (sv_Trail s) (sv_Vars s)
     \<and> deriv_ok (sv_Trail s) (sv_Vars s) (sv_Driver s) \<and> guess_room fl (sv_Vars s) (sv_Guess s)
     \<and> heap_full (sv_Vars s) (sv_Guess s) \<and> sv_Active s = None \<and> cb_Bot (sv_Cdb s) = CNull"

definition core :: "'h floats \<Rightarrow> lit list list \<Rightarrow> 'h solver \<Rightarrow> bool" where
  "core fl F s \<longleftrightarrow> (\<exists>cls. core_at fl F cls s)"

definition propagated :: "'h solver \<Rightarrow> bool" where
  "propagated s \<longleftrightarrow> prop_upto (db_of s) (att (sv_Cdb s)) (sv_Trail s) (sv_Vars s) (tr_Level (sv_Trail s) + 1)"

definition conflicting :: "cloc \<Rightarrow> 'h solver \<Rightarrow> bool" where
  "conflicting x s \<longleftrightarrow> x \<in> att (sv_Cdb s) \<and> tr_Head (sv_Trail s) = tr_Tail (sv_Trail s)
     \<and> (\<forall>n \<in> set (lits (db_of s) x). val_of (sv_Vars s) n = -1)
     \<and> (\<exists>n \<in> set (lits (db_of s) x). lev (sv_Vars s) n = tr_Level (sv_Trail s))
     \<and> prop_upto (db_of s) (att (sv_Cdb s)) (sv_Trail s) (sv_Vars s) (tr_Level (sv_Trail s))"

definition assumed :: "lit list \<Rightarrow> int \<Rightarrow> 'h solver \<Rightarrow> bool" where
  "assumed A L s \<longleftrightarrow> 0 \<le> L \<and> L \<le> tr_Level (sv_Trail s)
     \<and> (\<forall>m \<in> set (trail_lits (sv_Trail s)). reason (sv_Vars s) m = CNull \<longrightarrow> lev (sv_Vars s) m \<le> L \<longrightarrow> m \<in> set A)
     \<and> (\<forall>m \<in> set A. m \<in> set (trail_lits (sv_Trail s)) \<and> lev (sv_Vars s) m \<le> L)"

lemma core_atD:
  assumes "core_at fl F cls s"
  shows "db_ok cls (sv_Cdb s)" and "gc_ok cls (sv_Cdb s)"
    and "search_ok (db_of s) (live cls (sv_Cdb s)) (att (sv_Cdb s)) (sv_Trail s) (sv_Vars s)"
    and "means F (locs cls) (sv_Cdb s) (sv_Trail s) (sv_Vars s)"
    and "added_ok (sv_Cdb s) (sv_Trail s) (sv_Vars s)"
    and "deriv_ok (sv_Trail s) (sv_Vars s) (sv_Driver s)" and "guess_room fl (sv_Vars s) (sv_Guess s)"
    and "heap_full (sv_Vars s) (sv_Guess s)" and "sv_Active s = None" and "cb_Bot (sv_Cdb s) = CNull"
    and "trail_ok (sv_Trail s) (sv_Vars s)"
  using assms search_okD(3) unfolding core_at_def by blast+

section \<open>How the parts of the invariant carry over\<close>

text \<open>The literals of level 0 stay.\<close>

definition keeps0 :: "trail \<Rightarrow> vars \<Rightarrow> trail \<Rightarrow> vars \<Rightarrow> bool" where
  "keeps0 t v t' v' \<longleftrightarrow> (\<forall>m \<in> set (trail_lits t). lev v m = 0 \<longrightarrow> m \<in> set (trail_lits t') \<and> lev v' m = 0)"

lemma keeps0_refl [simp]: "keeps0 t v t v"
  by (simp add: keeps0_def)

lemma means_keep:
  assumes M: "means F P c t v" and k: "keeps0 t v t' v'" and P': "P' \<subseteq> P" "set (cb_Added c') = set (cb_Added c)"
    and eq: "\<And>p. p \<in> P \<Longrightarrow> set (lits (cd_D (cb_CDat c')) p) = set (lits (cd_D (cb_CDat c)) p)"
    and sub: "set (cb_Added c) \<subseteq> P"
  shows "means F P' c' t' v'"
proof -
  have sat: "sat_all \<sigma> (cd_D (cb_CDat c')) R \<longleftrightarrow> sat_all \<sigma> (cd_D (cb_CDat c)) R" if "R \<subseteq> P" for \<sigma> R
    using that eq by (fastforce simp: sat_all_def clause_true_def)
  have "sat_all \<sigma> (cd_D (cb_CDat c')) P'" if "cnf_true \<sigma> F" for \<sigma>
    using M that P'(1) by (simp add: sat [OF P'(1)] means_def) (auto simp: sat_all_def)
  moreover have "cnf_true \<sigma> F"
    if s: "sat_all \<sigma> (cd_D (cb_CDat c')) (set (cb_Added c'))"
      and l: "\<forall>m \<in> set (trail_lits t'). lev v' m = 0 \<longrightarrow> lit_true \<sigma> m" for \<sigma>
  proof -
    have "\<forall>m \<in> set (trail_lits t). lev v m = 0 \<longrightarrow> lit_true \<sigma> m" using k l by (simp add: keeps0_def)
    moreover have "sat_all \<sigma> (cd_D (cb_CDat c)) (set (cb_Added c))" using s sat [OF sub] by (simp add: P'(2))
    ultimately show ?thesis using M by (simp add: means_def)
  qed
  ultimately show ?thesis by (simp add: means_def)
qed

lemma added_keep:
  assumes A: "added_ok c t v" and k: "keeps0 t v t' v'" and same: "set (cb_Added c') = set (cb_Added c)" "vs_Max v' = vs_Max v"
    and eq: "\<And>p. p \<in> set (cb_Added c) \<Longrightarrow> mset (lits (cd_D (cb_CDat c')) p) = mset (lits (cd_D (cb_CDat c)) p)"
  shows "added_ok c' t' v'"
  unfolding added_ok_def
proof (intro ballI)
  fix p assume "p \<in> set (cb_Added c')"
  then have p: "p \<in> set (cb_Added c)" by (simp add: same)
  note m = eq [OF p]
  have ne: "lits (cd_D (cb_CDat c')) p \<noteq> []" and s: "set (lits (cd_D (cb_CDat c')) p) = set (lits (cd_D (cb_CDat c)) p)"
    using A p m mset_eq_setD [OF m] by (auto simp: added_ok_def)
  have "lits (cd_D (cb_CDat c)) p = [n]" if "lits (cd_D (cb_CDat c')) p = [n]" for n
    using m unfolding that by (metis mset_single_iff mset.simps(1,2) add_mset_eq_single)
  then show "lits (cd_D (cb_CDat c')) p \<noteq> [] \<and> (\<forall>m \<in> set (lits (cd_D (cb_CDat c')) p). lit_Var m \<le> vs_Max v')
     \<and> (\<forall>m. lits (cd_D (cb_CDat c')) p = [m] \<longrightarrow> m \<in> set (trail_lits t') \<and> lev v' m = 0)"
    using A p k ne by (simp add: added_ok_def keeps0_def same(2) s)
qed

lemma att_same:
  assumes "set (cb_Added c') = set (cb_Added c)" and "set (cb_Learnts c') = set (cb_Learnts c)"
    and "\<And>p. p \<in> set (cb_Added c) \<union> set (cb_Learnts c) \<Longrightarrow>
      length (lits (cd_D (cb_CDat c')) p) = length (lits (cd_D (cb_CDat c)) p)"
  shows "att c' = att c"
  using assms by (auto simp: att_def)

lemma att_live:
  assumes "db_ok cls c" and "gc_ok cls c"
  shows "att c \<subseteq> live cls c" and "set (cb_Added c) \<subseteq> live cls c" and "set (cb_Learnts c) \<subseteq> live cls c"
    and "live cls c \<subseteq> locs cls"
  using assms by (auto simp: att_def live_def gc_ok_def db_ok_def)

lemma free_var_trail:
  assumes ok: "trail_ok t v" and x: "0 < unat x" "x < vs_Top v"
  shows "free_var (vs_Vals v) x \<longleftrightarrow> x \<notin> lit_Var ` set (trail_lits t)"
proof -
  have b: "unat x < 1073741824"
    using vars_okD(2) [OF trail_okD(1) [OF ok]] x(2) by (simp add: word_less_nat_alt)
  then have p: "unat (var_Pos x) = 2 * unat x" "lit_Var (var_Pos x) = x" by (simp_all add: unat_var_Pos)
  have r: "in_range v (var_Pos x)" using x by (simp add: in_range_def p word_less_nat_alt)
  have "free_var (vs_Vals v) x \<longleftrightarrow> val_of v (var_Pos x) = 0" by (simp add: free_var_def val_of_def p)
  also have "\<dots> \<longleftrightarrow> var_Pos x \<notin> set (trail_lits t) \<and> lit_Not (var_Pos x) \<notin> set (trail_lits t)"
    using trail_val [OF ok r] by simp
  also have "\<dots> \<longleftrightarrow> x \<notin> lit_Var ` set (trail_lits t)"
    using p(2) lit_Var_eqD [of _ "var_Pos x"] lit_Var_Not [of "var_Pos x"] by (fastforce simp: image_iff)
  finally show ?thesis .
qed

lemma heap_keep:
  assumes H: "heap_full v g" and ok: "trail_ok t v" and ok': "trail_ok t' v'"
    and same: "vs_Top v' = vs_Top v" "vs_Max v' = vs_Max v"
    and sub: "set (gs_vhp g') \<subseteq> set (gs_vhp g) \<union> lit_Var ` set (trail_lits t)"
    and sup: "\<And>x. x \<in> set (gs_vhp g) \<union> lit_Var ` set (trail_lits t) \<Longrightarrow>
      x \<in> set (gs_vhp g') \<or> x \<in> lit_Var ` set (trail_lits t')"
  shows "heap_full v' g'"
  unfolding heap_full_def same
proof (intro conjI ballI allI impI)
  have top: "vs_Max v < vs_Top v" using vars_okD(1) [OF trail_okD(1) [OF ok]] .
  {
    fix x assume "x \<in> set (gs_vhp g')"
    then consider "x \<in> set (gs_vhp g)" | m where "m \<in> set (trail_lits t)" "x = lit_Var m" using sub by blast
    then have "0 < unat x \<and> x < vs_Top v"
    proof cases
      case 1
      then show ?thesis using H by (simp add: heap_full_def)
    next
      case 2
      have "2 \<le> unat m" "unat (lit_Var m) < unat (vs_Top v)"
        using trail_okD(6) [OF ok 2(1)] by (simp_all add: in_range_def)
      then show ?thesis by (simp add: 2(2) word_less_nat_alt unat_lit_Var)
    qed
  }
  then show "0 < unat x" "x < vs_Top v" if "x \<in> set (gs_vhp g')" for x using that by blast+
  fix x assume x: "0 < unat x" "x \<le> vs_Max v" and fr: "free_var (vs_Vals v') x"
  have xt: "x < vs_Top v" using x(2) top by simp
  then have "x \<notin> lit_Var ` set (trail_lits t')" using free_var_trail [OF ok' x(1)] fr by (simp add: same)
  moreover have "x \<in> set (gs_vhp g) \<union> lit_Var ` set (trail_lits t)"
    using H x xt free_var_trail [OF ok x(1) xt] by (auto simp: heap_full_def)
  ultimately show "x \<in> set (gs_vhp g')" using sup by blast
qed

lemma deriv_keep: "deriv_ok t v d \<Longrightarrow> keeps0 t v t' v' \<Longrightarrow> vs_Top v' = vs_Top v \<Longrightarrow> deriv_ok t' v' d"
  unfolding deriv_ok_def keeps0_def by metis

text \<open>A permutation inside some clauses is one inside all.\<close>

lemma store_perm_superset:
  assumes R: "store_ok D R" and PR: "P \<subseteq> R" and perm: "store_perm P D D'"
  shows "store_perm R D D'"
proof -
  have other: "lits D' q = lits D q" if q: "q \<in> R" "q \<notin> P" for q
  proof (rule lits_cong)
    show len: "length D' = length D" using perm by (simp add: store_perm_def)
    show "cl_end D q < length D" using store_okD(3) [OF R q(1)] .
    fix i assume i: "unat q \<le> i" "i \<le> cl_end D q"
    have "\<not> (unat p \<le> i \<and> i < cl_end D p)" if "p \<in> P" for p
      using store_okD(4) [OF R, of p q] that PR q i by fastforce
    moreover have "i < length D" using i store_okD(3) [OF R q(1)] by simp
    ultimately show "D' ! i = D ! i" using perm by (auto simp: store_perm_def)
  qed
  have "D' ! i = D ! i" if "i < length D" "\<forall>p\<in>R. \<not> (unat p \<le> i \<and> i < cl_end D p)" for i
    using perm that PR by (simp add: store_perm_def subset_iff)
  moreover have "mset (lits D' p) = mset (lits D p)" if "p \<in> R" for p
    using other [OF that] perm by (cases "p \<in> P") (simp_all add: store_perm_def)
  ultimately show ?thesis using perm by (simp add: store_perm_def)
qed

text \<open>The invariant of the search for fewer clauses, as long as the reasons are among them.\<close>

lemma search_ok_restrict:
  assumes ok: "search_ok D P Q t v" and sub: "P' \<subseteq> P" "Q \<subseteq> P'"
    and rs: "\<And>m. m \<in> set (trail_lits t) \<Longrightarrow> reason v m \<noteq> CNull \<Longrightarrow> reason v m \<in> P'"
  shows "search_ok D P' Q t v"
proof -
  note okD = search_okD [OF ok]
  have "reasons_ok D P' t v"
    using okD(4) rs length_trail_lits [OF okD(3)] unfolding reasons_ok_def Let_def by (metis nth_mem)
  then show ?thesis using ok sub store_ok_subset [OF okD(1) sub(1)] by (simp add: search_ok_def)
qed

section \<open>Propagation\<close>

text \<open>After a propagation without conflict.\<close>

definition quiet :: "'h solver \<Rightarrow> bool" where
  "quiet s \<longleftrightarrow> propagated s \<and> tr_Head (sv_Trail s) = tr_Tail (sv_Trail s)
     \<and> (\<forall>p \<in> att (sv_Cdb s). \<exists>n \<in> set (lits (db_of s) p). val_of (sv_Vars s) n \<noteq> -1)"

text \<open>What a step leaves alone: the parameters of the call, and the space in the store.\<close>

definition same_call :: "'h solver \<Rightarrow> 'h solver \<Rightarrow> bool" where
  "same_call s s' \<longleftrightarrow> sv_assumptLevel s' = sv_assumptLevel s \<and> sv_endTestLevel s' = sv_endTestLevel s
     \<and> sv_testLevels s' = sv_testLevels s \<and> sv_assumes s' = sv_assumes s
     \<and> vs_Top (sv_Vars s') = vs_Top (sv_Vars s) \<and> vs_Max (sv_Vars s') = vs_Max (sv_Vars s)
     \<and> cb_AddLits (sv_Cdb s') = cb_AddLits (sv_Cdb s) \<and> cb_AddVals (sv_Cdb s') = cb_AddVals (sv_Cdb s)"

definition same_gc :: "'h solver \<Rightarrow> 'h solver \<Rightarrow> bool" where
  "same_gc s s' \<longleftrightarrow> cb_gc (sv_Cdb s') = cb_gc (sv_Cdb s)
     \<and> cd_Len (cb_CDat (sv_Cdb s')) = cd_Len (cb_CDat (sv_Cdb s))"

lemma same_call_refl [simp]: "same_call s s"
  by (simp add: same_call_def)

lemma same_call_trans: "same_call a b \<Longrightarrow> same_call b c \<Longrightarrow> same_call a c"
  by (simp add: same_call_def)

lemma same_gc_refl [simp]: "same_gc s s"
  by (simp add: same_gc_def)

lemma same_gc_trans: "same_gc a b \<Longrightarrow> same_gc b c \<Longrightarrow> same_gc a c"
  by (simp add: same_gc_def)

lemma advance_no_decisions:
  assumes adv: "advance P D t v D' t' v'" and ok: "trail_ok t v" and ok': "trail_ok t' v'"
    and m: "m \<in> set (trail_lits t')" "m \<notin> set (trail_lits t)"
  shows "reason v' m \<noteq> CNull"
proof -
  obtain ps where ps: "trail_lits t' = trail_lits t @ ps" using advanceD(2) [OF adv] by blast
  have "decs v' (trail_lits t) = decs v (trail_lits t)"
    using advanceD(7) [OF adv] by (intro decs_cong) simp
  then have "decs v' ps = 0"
    using trail_okD(9) [OF ok] trail_okD(9) [OF ok'] advanceD(3) [OF adv] by (simp add: ps)
  then show ?thesis using m by (auto simp: ps decs_def filter_empty_conv)
qed

lemma core_Prop:
  assumes core: "core fl F s" and W: "propagated s"
  shows "returns (s_Prop s) (\<lambda>(x, s'). core fl F s' \<and> same_call s s' \<and> same_gc s s'
     \<and> sv_x s' = sv_x s \<and> sv_xLit s' = sv_xLit s
     \<and> tr_Level (sv_Trail s') = tr_Level (sv_Trail s)
     \<and> set (trail_lits (sv_Trail s)) \<subseteq> set (trail_lits (sv_Trail s'))
     \<and> (\<forall>A L. assumed A L s \<longrightarrow> assumed A L s')
     \<and> (if x = CNull then quiet s' else conflicting x s'))"
proof -
  obtain cls where cr: "core_at fl F cls s" using core by (auto simp: core_def)
  note C = core_atD [OF cr] and L = att_live [OF core_atD(1,2) [OF cr]]
  let ?c = "sv_Cdb s" and ?P = "live cls (sv_Cdb s)" and ?Q = "att (sv_Cdb s)"
  let ?t = "sv_Trail s" and ?v = "sv_Vars s" and ?D = "db_of s"
  have W': "prop_upto ?D ?Q ?t ?v (tr_Level ?t + 1)" using W by (simp add: propagated_def)
  obtain x D' t' v' where loop: "prop_loop (tr_Head ?t) (?D, ?t, ?v) = Some (x, D', t', v')"
    and post: "prop_post ?D ?P ?Q ?t ?v (x, D', t', v')"
    using prop_loop_spec [OF C(3) W', of "tr_Head ?t"] by (auto simp: returns_def)
  define c' where "c' = ?c\<lparr>cb_CDat := cb_CDat ?c\<lparr>cd_D := D'\<rparr>\<rparr>"
  have run: "Prop (?t, ?v, ?c) = Some (x, t', v', c')" by (simp add: Prop_def loop c'_def)
  have D': "cd_D (cb_CDat c') = D'" by (simp add: c'_def)
  have ok': "search_ok (cd_D (cb_CDat c')) ?P ?Q t' v'" and adv: "advance ?P ?D ?t ?v (cd_D (cb_CDat c')) t' v'"
    and hd: "tr_Head t' = tr_Tail t'"
    and res: "if x = CNull then prop_upto (cd_D (cb_CDat c')) ?Q t' v' (tr_Level t' + 1)
        else x \<in> ?Q \<and> (\<forall>n \<in> set (lits (cd_D (cb_CDat c')) x). val_of v' n = -1)
          \<and> (\<exists>n \<in> set (lits (cd_D (cb_CDat c')) x). lev v' n = tr_Level t')
          \<and> prop_upto (cd_D (cb_CDat c')) ?Q t' v' (tr_Level t')"
    using post unfolding D' prop_post_def prod.case by simp_all
  note A = advanceD [OF adv]
  obtain ps where ps: "trail_lits t' = trail_lits ?t @ ps" using A(2) by blast
  have rep: "cdat_rep cls (cb_CDat ?c)" using C(1) by (simp add: db_ok_def)
  have perm: "store_perm (locs cls) ?D (cd_D (cb_CDat c'))"
    by (rule store_perm_superset [OF rep_store_ok [OF rep] L(4) A(1)])
  obtain cls' where rep': "cdat_rep cls' (cb_CDat ?c\<lparr>cd_D := cd_D (cb_CDat c')\<rparr>)" and lc: "locs cls' = locs cls"
    using perm_rep [OF rep perm] by blast
  define s' where "s' = s\<lparr>sv_Trail := t', sv_Vars := v', sv_Cdb := c'\<rparr>"
  have runs: "s_Prop s = Some (x, s')" by (simp add: s_Prop_def run s'_def)
  have cf: "cb_Added c' = cb_Added ?c" "cb_Learnts c' = cb_Learnts ?c" "cb_gc c' = cb_gc ?c" "cb_Bot c' = cb_Bot ?c"
    "cb_AddLits c' = cb_AddLits ?c" "cb_AddVals c' = cb_AddVals ?c" "cd_Len (cb_CDat c') = cd_Len (cb_CDat ?c)"
    by (simp_all add: c'_def)
  have ms: "mset (lits (cd_D (cb_CDat c')) p) = mset (lits ?D p)" if "p \<in> locs cls" for p
    using perm that by (simp add: store_perm_def)
  have k0: "keeps0 ?t ?v t' v'" using A(8) by (simp add: keeps0_def ps)
  have att: "att c' = ?Q"
    by (rule att_same) (use ms L in \<open>auto simp: cf intro!: mset_eq_length\<close>)
  have lv: "live cls' c' = ?P" by (simp add: live_def lc cf)
  have "core_at fl F cls' s'"
    unfolding core_at_def
  proof (intro conjI)
    show "db_ok cls' (sv_Cdb s')" using C(1) rep' by (simp add: s'_def db_ok_def lc cf) (simp add: c'_def)
    show "gc_ok cls' (sv_Cdb s')" using C(2) by (simp add: s'_def gc_ok_def lc cf)
    show "search_ok (db_of s') (live cls' (sv_Cdb s')) (att (sv_Cdb s')) (sv_Trail s') (sv_Vars s')"
      using ok' by (simp add: s'_def att lv)
    have "means F (locs cls) c' t' v'"
      by (rule means_keep [OF C(4) k0]) (use L mset_eq_setD [OF ms] in \<open>auto simp: cf\<close>)
    then show "means F (locs cls') (sv_Cdb s') (sv_Trail s') (sv_Vars s')" by (simp add: s'_def lc)
    have "added_ok c' t' v'"
      by (rule added_keep [OF C(5) k0]) (use L ms A(5) in \<open>auto simp: cf\<close>)
    then show "added_ok (sv_Cdb s') (sv_Trail s') (sv_Vars s')" by (simp add: s'_def)
    have "heap_full v' (sv_Guess s)"
      by (rule heap_keep [OF C(8) C(11) search_okD(3) [OF ok'] A(4,5)]) (auto simp: ps)
    then show "heap_full (sv_Vars s') (sv_Guess s')" by (simp add: s'_def)
    have "deriv_ok t' v' (sv_Driver s)" by (rule deriv_keep [OF C(6) k0 A(4)])
    then show "deriv_ok (sv_Trail s') (sv_Vars s') (sv_Driver s')" by (simp add: s'_def)
    show "guess_room fl (sv_Vars s') (sv_Guess s')" using C(7) A(4) by (simp add: s'_def guess_room_def)
  qed (use C in \<open>simp_all add: s'_def cf\<close>)
  then have "core fl F s'" by (auto simp: core_def)
  moreover have "assumed A L s'" if "assumed A L s" for A L
    unfolding assumed_def
  proof (intro conjI ballI impI)
    fix m assume m: "m \<in> set (trail_lits (sv_Trail s'))" "reason (sv_Vars s') m = CNull" "lev (sv_Vars s') m \<le> L"
    then have "m \<in> set (trail_lits ?t)"
      using advance_no_decisions [OF adv C(11) search_okD(3) [OF ok']] by (auto simp: s'_def)
    then show "m \<in> set A" using m that A(7,8) [of m] by (simp add: assumed_def s'_def)
  next
    fix m assume "m \<in> set A"
    then show "m \<in> set (trail_lits (sv_Trail s'))" "lev (sv_Vars s') m \<le> L"
      using that A(8) [of m] by (simp_all add: assumed_def s'_def ps)
  qed (use that A(3) in \<open>simp_all add: assumed_def s'_def\<close>)
  moreover have "if x = CNull then quiet s' else conflicting x s'"
    using res hd propagated_not_false [OF ok' _ hd]
    by (simp add: quiet_def propagated_def conflicting_def s'_def att)
  moreover have "same_call s s'" "same_gc s s'" using A(4,5) by (simp_all add: same_call_def same_gc_def s'_def cf)
  moreover have "sv_x s' = sv_x s" "sv_xLit s' = sv_xLit s" "tr_Level (sv_Trail s') = tr_Level (sv_Trail s)"
    "set (trail_lits (sv_Trail s)) \<subseteq> set (trail_lits (sv_Trail s'))"
    using A(3) by (simp_all add: s'_def ps)
  ultimately show ?thesis unfolding runs returns_Some prod.case by blast
qed

section \<open>Moving along the trail\<close>

text \<open>Everything is propagated below the current level.\<close>

definition below :: "'h solver \<Rightarrow> bool" where
  "below s \<longleftrightarrow> prop_upto (db_of s) (att (sv_Cdb s)) (sv_Trail s) (sv_Vars s) (tr_Level (sv_Trail s))"

lemma prop_upto_mono: "prop_upto D Q t v L \<Longrightarrow> L' \<le> L \<Longrightarrow> prop_upto D Q t v L'"
  unfolding prop_upto_def Let_def by (meson order_less_le_trans)

lemma propagated_below: "propagated s \<Longrightarrow> below s"
  unfolding propagated_def below_def by (erule prop_upto_mono) simp

lemma conflicting_below: "conflicting x s \<Longrightarrow> below s"
  by (simp add: conflicting_def below_def)

lemma core_move:
  assumes cr: "core_at fl F cls s"
    and ok: "search_ok (db_of s) (live cls (sv_Cdb s)) (att (sv_Cdb s)) t' v'"
    and k0: "keeps0 (sv_Trail s) (sv_Vars s) t' v'"
    and same: "vs_Top v' = vs_Top (sv_Vars s)" "vs_Max v' = vs_Max (sv_Vars s)" and g: "guess_room fl v' g'"
    and sub: "set (gs_vhp g') \<subseteq> set (gs_vhp (sv_Guess s)) \<union> lit_Var ` set (trail_lits (sv_Trail s))"
    and sup: "\<And>x. x \<in> set (gs_vhp (sv_Guess s)) \<union> lit_Var ` set (trail_lits (sv_Trail s)) \<Longrightarrow>
      x \<in> set (gs_vhp g') \<or> x \<in> lit_Var ` set (trail_lits t')"
  shows "core_at fl F cls (s\<lparr>sv_Trail := t', sv_Vars := v', sv_Guess := g'\<rparr>)"
proof -
  note C = core_atD [OF cr] and L = att_live [OF core_atD(1,2) [OF cr]]
  have "means F (locs cls) (sv_Cdb s) t' v'" by (rule means_keep [OF C(4) k0]) (use L in auto)
  moreover have "added_ok (sv_Cdb s) t' v'" by (rule added_keep [OF C(5) k0]) (use same in auto)
  moreover have "heap_full v' g'" by (rule heap_keep [OF C(8) C(11) search_okD(3) [OF ok] same sub sup])
  ultimately show ?thesis
    using C ok g deriv_keep [OF C(6) k0 same(1)] by (simp add: core_at_def)
qed

definition back_post :: "int \<Rightarrow> 'h solver \<Rightarrow> 'h solver \<Rightarrow> bool" where
  "back_post lvl s s' \<longleftrightarrow> s' = s\<lparr>sv_Trail := sv_Trail s', sv_Vars := sv_Vars s', sv_Guess := sv_Guess s'\<rparr>
     \<and> tr_Level (sv_Trail s') = lvl \<and> tr_Head (sv_Trail s') = tr_Tail (sv_Trail s')
     \<and> vs_Top (sv_Vars s') = vs_Top (sv_Vars s) \<and> vs_Max (sv_Vars s') = vs_Max (sv_Vars s)
     \<and> set (trail_lits (sv_Trail s')) = {m \<in> set (trail_lits (sv_Trail s)). lev (sv_Vars s) m \<le> lvl}
     \<and> (\<forall>n \<in> set (trail_lits (sv_Trail s')). reason (sv_Vars s') n = reason (sv_Vars s) n
           \<and> lev (sv_Vars s') n = lev (sv_Vars s) n)"

lemma core_at_Back:
  assumes cr: "core_at fl F cls s" and W: "below s" and lvl: "0 \<le> lvl" "lvl < tr_Level (sv_Trail s)"
  shows "returns (s_Back fl lvl s) (\<lambda>s'. core_at fl F cls s' \<and> propagated s' \<and> back_post lvl s s')"
proof -
  note C = core_atD [OF cr]
  have W': "prop_upto (db_of s) (att (sv_Cdb s)) (sv_Trail s) (sv_Vars s) (tr_Level (sv_Trail s))"
    using W by (simp add: below_def)
  obtain t' v' g' where run: "Back fl lvl (sv_Trail s, sv_Vars s, sv_Guess s) = Some (t', v', g')"
    and ok': "search_ok (db_of s) (live cls (sv_Cdb s)) (att (sv_Cdb s)) t' v'"
    and W1: "prop_upto (db_of s) (att (sv_Cdb s)) t' v' (tr_Level t' + 1)" and lv: "tr_Level t' = lvl"
    and hd: "tr_Head t' = tr_Tail t'"
    and tl: "trail_lits t' = filter (\<lambda>m. lev (sv_Vars s) m \<le> lvl) (trail_lits (sv_Trail s))"
    and rl: "\<forall>n \<in> set (trail_lits t'). reason v' n = reason (sv_Vars s) n \<and> lev v' n = lev (sv_Vars s) n"
    and g: "guess_room fl v' g'"
      "set (gs_vhp g') = set (gs_vhp (sv_Guess s)) \<union> lit_Var ` {m \<in> set (trail_lits (sv_Trail s)). lvl < lev (sv_Vars s) m}"
    and v': "v' = (sv_Vars s)\<lparr>vs_Reasons := vs_Reasons v', vs_Levels := vs_Levels v', vs_Vals := vs_Vals v'\<rparr>"
    using Back_full [OF C(3) W' C(7) lvl] unfolding returns_def by blast
  have fr: "vs_Top v' = vs_Top (sv_Vars s)" "vs_Max v' = vs_Max (sv_Vars s)" by (subst v', simp)+
  have k0: "keeps0 (sv_Trail s) (sv_Vars s) t' v'" using rl lvl(1) by (simp add: keeps0_def tl)
  let ?s' = "s\<lparr>sv_Trail := t', sv_Vars := v', sv_Guess := g'\<rparr>"
  have "core_at fl F cls ?s'"
  proof (rule core_move [OF cr ok' k0 fr g(1)])
    fix x assume "x \<in> set (gs_vhp (sv_Guess s)) \<union> lit_Var ` set (trail_lits (sv_Trail s))"
    then consider "x \<in> set (gs_vhp (sv_Guess s))" | m where "m \<in> set (trail_lits (sv_Trail s))" "x = lit_Var m" by blast
    then show "x \<in> set (gs_vhp g') \<or> x \<in> lit_Var ` set (trail_lits t')"
    proof cases
      case (2 m)
      then show ?thesis by (cases "lev (sv_Vars s) m \<le> lvl") (auto simp: g(2) tl)
    qed (simp add: g(2))
  qed (auto simp: g(2))
  then show ?thesis
    using lv hd fr rl W1 by (auto simp: s_Back_def run back_post_def propagated_def tl)
qed

lemma core_Back:
  assumes core: "core fl F s" and W: "below s" and lvl: "0 \<le> lvl" "lvl < tr_Level (sv_Trail s)"
  shows "returns (s_Back fl lvl s) (\<lambda>s'. core fl F s' \<and> propagated s' \<and> back_post lvl s s')"
proof -
  obtain cls where cr: "core_at fl F cls s" using core by (auto simp: core_def)
  show ?thesis by (rule returns_mono [OF core_at_Back [OF cr W lvl]]) (auto simp: core_def)
qed

lemma back_post_frame:
  assumes "back_post lvl s s'"
  shows "sv_Cdb s' = sv_Cdb s" and "same_call s s'" and "same_gc s s'" and "sv_x s' = sv_x s" and "sv_xLit s' = sv_xLit s"
    and "sv_Active s' = sv_Active s" and "sv_Driver s' = sv_Driver s"
proof -
  have s': "s' = s\<lparr>sv_Trail := sv_Trail s', sv_Vars := sv_Vars s', sv_Guess := sv_Guess s'\<rparr>"
    and t: "vs_Top (sv_Vars s') = vs_Top (sv_Vars s)" "vs_Max (sv_Vars s') = vs_Max (sv_Vars s)"
    using assms unfolding back_post_def by blast+
  show c: "sv_Cdb s' = sv_Cdb s" by (subst s', simp)
  show "sv_x s' = sv_x s" by (subst s', simp)
  show "sv_xLit s' = sv_xLit s" by (subst s', simp)
  show "sv_Active s' = sv_Active s" by (subst s', simp)
  show "sv_Driver s' = sv_Driver s" by (subst s', simp)
  have "sv_assumptLevel s' = sv_assumptLevel s" "sv_endTestLevel s' = sv_endTestLevel s"
    "sv_testLevels s' = sv_testLevels s" "sv_assumes s' = sv_assumes s" by (subst s', simp)+
  then show "same_call s s'" using t by (simp add: same_call_def c)
  show "same_gc s s'" by (simp add: same_gc_def c)
qed

lemma back_post_assumed:
  assumes B: "back_post lvl s s'" and A: "assumed A L s" and L: "L \<le> lvl"
  shows "assumed A L s'"
proof -
  have tl: "set (trail_lits (sv_Trail s')) = {m \<in> set (trail_lits (sv_Trail s)). lev (sv_Vars s) m \<le> lvl}"
    and lv: "tr_Level (sv_Trail s') = lvl"
    and rl: "\<forall>n \<in> set (trail_lits (sv_Trail s')). reason (sv_Vars s') n = reason (sv_Vars s) n
           \<and> lev (sv_Vars s') n = lev (sv_Vars s) n"
    using B unfolding back_post_def by blast+
  show ?thesis using A L rl by (fastforce simp: assumed_def tl lv)
qed

section \<open>Assignments\<close>

definition assign_post :: "lit \<Rightarrow> cloc \<Rightarrow> 'h solver \<Rightarrow> 'h solver \<Rightarrow> bool" where
  "assign_post m q s s' \<longleftrightarrow> s' = s\<lparr>sv_Trail := sv_Trail s', sv_Vars := sv_Vars s'\<rparr>
     \<and> assigned m q (sv_Trail s) (sv_Vars s) (sv_Trail s') (sv_Vars s')"

lemma assign_post_frame:
  assumes "assign_post m q s s'"
  shows "sv_Cdb s' = sv_Cdb s" and "same_call s s'" and "same_gc s s'" and "sv_x s' = sv_x s" and "sv_xLit s' = sv_xLit s"
    and "sv_Guess s' = sv_Guess s" and "sv_Active s' = sv_Active s"
    and "assigned m q (sv_Trail s) (sv_Vars s) (sv_Trail s') (sv_Vars s')"
proof -
  have s': "s' = s\<lparr>sv_Trail := sv_Trail s', sv_Vars := sv_Vars s'\<rparr>"
    and as: "assigned m q (sv_Trail s) (sv_Vars s) (sv_Trail s') (sv_Vars s')"
    using assms unfolding assign_post_def by blast+
  show c: "sv_Cdb s' = sv_Cdb s" by (subst s', simp)
  show "sv_x s' = sv_x s" by (subst s', simp)
  show "sv_xLit s' = sv_xLit s" by (subst s', simp)
  show "sv_Guess s' = sv_Guess s" by (subst s', simp)
  show "sv_Active s' = sv_Active s" by (subst s', simp)
  have "sv_assumptLevel s' = sv_assumptLevel s" "sv_endTestLevel s' = sv_endTestLevel s"
    "sv_testLevels s' = sv_testLevels s" "sv_assumes s' = sv_assumes s" by (subst s', simp)+
  then show "same_call s s'" using assigned_frame(1,2) [OF as] by (simp add: same_call_def c)
  show "same_gc s s'" by (simp add: same_gc_def c)
  show "assigned m q (sv_Trail s) (sv_Vars s) (sv_Trail s') (sv_Vars s')" by (rule as)
qed

text \<open>The assigned variable is the only one that may have left the heap.\<close>

lemma core_assigned:
  assumes cr: "core_at fl F cls s"
    and ok: "search_ok (db_of s) (live cls (sv_Cdb s)) (att (sv_Cdb s)) t' v'"
    and as: "assigned m q (sv_Trail s) (sv_Vars s) t' v'" and g: "guess_room fl v' g'"
    and sub: "set (gs_vhp g') \<subseteq> set (gs_vhp (sv_Guess s))"
    and sup: "\<And>x. x \<in> set (gs_vhp (sv_Guess s)) \<Longrightarrow> free_var (vs_Vals (sv_Vars s)) x \<Longrightarrow>
      x = lit_Var m \<or> x \<in> set (gs_vhp g')"
  shows "core_at fl F cls (s\<lparr>sv_Trail := t', sv_Vars := v', sv_Guess := g'\<rparr>)"
proof -
  note C = core_atD [OF cr]
  note A = assignedD [OF as] and old = assigned_old [OF as search_okD(3) [OF ok]]
  have k0: "keeps0 (sv_Trail s) (sv_Vars s) t' v'" using old(2) by (simp add: keeps0_def A(1))
  show ?thesis
  proof (rule core_move [OF cr ok k0 assigned_frame(1,2) [OF as] g])
    fix x assume x: "x \<in> set (gs_vhp (sv_Guess s)) \<union> lit_Var ` set (trail_lits (sv_Trail s))"
    show "x \<in> set (gs_vhp g') \<or> x \<in> lit_Var ` set (trail_lits t')"
    proof (cases "x \<in> lit_Var ` set (trail_lits (sv_Trail s))")
      case False
      then have h: "x \<in> set (gs_vhp (sv_Guess s))" using x by blast
      then have "0 < unat x" "x < vs_Top (sv_Vars s)" using C(8) by (simp_all add: heap_full_def)
      then have "free_var (vs_Vals (sv_Vars s)) x" using free_var_trail [OF C(11)] False by blast
      then show ?thesis using sup [OF h] by (auto simp: A(1))
    qed (simp add: A(1))
  qed (use sub in blast)
qed

lemma core_decide:
  assumes core: "core fl F s" and W: "propagated s" and hd: "tr_Head (sv_Trail s) = tr_Tail (sv_Trail s)"
    and m: "in_range (sv_Vars s) m" "val_of (sv_Vars s) m = 0"
    and g: "guess_room fl (sv_Vars s) g'"
    and sub: "set (gs_vhp g') \<subseteq> set (gs_vhp (sv_Guess s))"
    and sup: "\<And>x. x \<in> set (gs_vhp (sv_Guess s)) \<Longrightarrow> free_var (vs_Vals (sv_Vars s)) x \<Longrightarrow>
      x = lit_Var m \<or> x \<in> set (gs_vhp g')"
  shows "returns (s_Assign m CNull (s\<lparr>sv_Guess := g'\<rparr>)) (\<lambda>s'. core fl F s' \<and> propagated s'
     \<and> assign_post m CNull (s\<lparr>sv_Guess := g'\<rparr>) s')"
proof -
  obtain cls where cr: "core_at fl F cls s" using core by (auto simp: core_def)
  note C = core_atD [OF cr]
  have W': "prop_upto (db_of s) (att (sv_Cdb s)) (sv_Trail s) (sv_Vars s) (tr_Level (sv_Trail s) + 1)"
    using W by (simp add: propagated_def)
  obtain t' v' where run: "Assign m CNull (sv_Trail s, sv_Vars s) = Some (t', v')"
    and ok': "search_ok (db_of s) (live cls (sv_Cdb s)) (att (sv_Cdb s)) t' v'"
    and W1: "prop_upto (db_of s) (att (sv_Cdb s)) t' v' (tr_Level t' + 1)"
    and as: "assigned m CNull (sv_Trail s) (sv_Vars s) t' v'"
    using decide_ok [OF C(3) W' hd m] by (auto simp: returns_def)
  have g': "guess_room fl v' g'" using g assigned_frame(1) [OF as] by (simp add: guess_room_def)
  have "core_at fl F cls (s\<lparr>sv_Trail := t', sv_Vars := v', sv_Guess := g'\<rparr>)"
    by (rule core_assigned [OF cr ok' as g' sub sup])
  moreover have "s\<lparr>sv_Trail := t', sv_Vars := v', sv_Guess := g'\<rparr> = s\<lparr>sv_Guess := g', sv_Trail := t', sv_Vars := v'\<rparr>" by simp
  ultimately have "core fl F (s\<lparr>sv_Guess := g', sv_Trail := t', sv_Vars := v'\<rparr>)" unfolding core_def by metis
  then show ?thesis
    using W1 as by (simp add: s_Assign_def run propagated_def assign_post_def)
qed

lemma core_imply:
  assumes core: "core_at fl F cls s" and W: "propagated s"
    and q: "q \<in> live cls (sv_Cdb s)" and cl: "lits (db_of s) q = m # ms"
    and false: "\<forall>n \<in> set ms. lit_Not n \<in> set (trail_lits (sv_Trail s))"
    and m: "in_range (sv_Vars s) m" "val_of (sv_Vars s) m = 0"
  shows "returns (s_Assign m q s) (\<lambda>s'. core_at fl F cls s' \<and> propagated s' \<and> assign_post m q s s')"
proof -
  note C = core_atD [OF core]
  have W': "prop_upto (db_of s) (att (sv_Cdb s)) (sv_Trail s) (sv_Vars s) (tr_Level (sv_Trail s) + 1)"
    using W by (simp add: propagated_def)
  have q0: "q \<noteq> CNull" by (rule loc_not_null [OF search_okD(1) [OF C(3)] q])
  obtain t' v' where run: "Assign m q (sv_Trail s, sv_Vars s) = Some (t', v')"
    and ok': "search_ok (db_of s) (live cls (sv_Cdb s)) (att (sv_Cdb s)) t' v'"
    and W1: "prop_upto (db_of s) (att (sv_Cdb s)) t' v' (tr_Level t' + 1)"
    and as: "assigned m q (sv_Trail s) (sv_Vars s) t' v'"
    using imply_ok [OF C(3) W' q q0 cl false m] by (auto simp: returns_def)
  have g': "guess_room fl v' (sv_Guess s)" using C(7) assigned_frame(1) [OF as] by (simp add: guess_room_def)
  have "core_at fl F cls (s\<lparr>sv_Trail := t', sv_Vars := v', sv_Guess := sv_Guess s\<rparr>)"
    by (rule core_assigned [OF core ok' as g']) simp_all
  then show ?thesis
    using W1 as by (simp add: s_Assign_def run propagated_def assign_post_def)
qed

end
