(* ===== verification/SearchTurns.thy ===== *)
theory SearchTurns
  imports Search
begin

text \<open>
  The turns of the search loop: what a conflict, a restart, a decision and a model do with the
  invariant, and the answers the loop returns.
\<close>

section \<open>Learning from a conflict\<close>

text \<open>There is room in the store for one more clause.\<close>

definition room :: "'h solver \<Rightarrow> bool" where
  "room s \<longleftrightarrow> 2 * (cd_Len (cb_CDat (sv_Cdb s)) + unat (vs_Top (sv_Vars s)) + 2) < 2147483648"

definition learnt :: "clause list \<Rightarrow> derived \<Rightarrow> 'h solver \<Rightarrow> 'h solver \<Rightarrow> bool" where
  "learnt cls d s s' \<longleftrightarrow> sv_Trail s' = sv_Trail s \<and> sv_Vars s' = (sv_Vars s)\<lparr>vs_Watches := vs_Watches (sv_Vars s')\<rparr>
     \<and> same_call s s' \<and> sv_x s' = sv_x s \<and> sv_xLit s' = sv_xLit s
     \<and> cb_gc (sv_Cdb s') = Cgc_Tick (cb_gc (sv_Cdb s))
     \<and> cd_Len (cb_CDat (sv_Cdb s')) \<le> cd_Len (cb_CDat (sv_Cdb s)) + unat (vs_Top (sv_Vars s)) + 2
     \<and> 0 \<le> de_TargetLevel d \<and> de_TargetLevel d < tr_Level (sv_Trail s)
     \<and> lit_Not (de_Unit d) \<in> set (trail_lits (sv_Trail s)) \<and> lev (sv_Vars s) (de_Unit d) = tr_Level (sv_Trail s)
     \<and> de_P d \<in> live cls (sv_Cdb s')
     \<and> (\<exists>xs. lits (db_of s') (de_P d) = de_Unit d # xs
          \<and> (\<forall>n \<in> set xs. lit_Not n \<in> set (trail_lits (sv_Trail s)) \<and> lev (sv_Vars s) n \<le> de_TargetLevel d))"

lemma Tick_rmq [simp]: "gc_rmq (Cgc_Tick g) = gc_rmq g"
  by (simp add: Cgc_Tick_def)

lemma means_insert:
  assumes "means F P c t v" and "\<And>\<sigma>. sat_all \<sigma> (cd_D (cb_CDat c)) P \<Longrightarrow> clause_true \<sigma> (lits (cd_D (cb_CDat c)) p)"
  shows "means F (insert p P) c t v"
  using assms by (auto simp: means_def sat_all_def)

lemma core_learn:
  assumes core: "core fl F s" and x: "conflicting x s" and lv: "0 < tr_Level (sv_Trail s)" and rm: "room s"
  shows "returns (s_Derive fl x s) (\<lambda>(d, s'). below s' \<and> (\<exists>cls. core_at fl F cls s' \<and> learnt cls d s s'))"
proof -
  obtain cls where cr: "core_at fl F cls s" using core by (auto simp: core_def)
  note C = core_atD [OF cr] and L = att_live [OF core_atD(1,2) [OF cr]]
  let ?c = "sv_Cdb s" and ?Q = "att (sv_Cdb s)" and ?t = "sv_Trail s" and ?v = "sv_Vars s" and ?D = "db_of s"
  have rep: "cdat_rep cls (cb_CDat ?c)" using C(1) by (simp add: db_ok_def)
  have ok: "search_ok ?D (locs cls) ?Q ?t ?v"
    by (rule search_ok_mono(1) [OF C(3) rep_store_ok [OF rep] L(4)]) simp
  have xQ: "x \<in> ?Q" and xf: "\<forall>n \<in> set (lits ?D x). val_of ?v n = -1"
    and xl: "\<exists>n \<in> set (lits ?D x). lev ?v n = tr_Level ?t" and W: "prop_upto ?D ?Q ?t ?v (tr_Level ?t)"
    using x by (auto simp: conflicting_def)
  have xr: "\<forall>n \<in> set (lits ?D x). in_range ?v n \<and> val_of ?v n = -1"
    using clauses_okD(3) [OF search_okD(5) [OF ok] xQ] xf by blast
  have xl': "x \<in> locs cls" using xQ L by blast
  have rm': "2 * (cd_Len (cb_CDat ?c) + unat (vs_Top ?v) + 2) < 2147483648" using rm by (simp add: room_def)
  obtain d d' v' c' act' g' where run: "Deriver_Derive fl x ?t (sv_Driver s, ?v, ?c, None, sv_Guess s) = Some (d, d', v', c', act', g')"
    and post: "derive_post fl cls ?Q ?t ?v ?c (sv_Guess s) (d, d', v', c', act', g')"
    using Derive_spec [OF C(1) ok W lv xl' xr xl C(6,7) rm'] by (auto simp: returns_def)
  define s' where "s' = s\<lparr>sv_Driver := d', sv_Vars := v', sv_Cdb := c', sv_Active := act', sv_Guess := g'\<rparr>"
  let ?D' = "cd_D (cb_CDat c')" and ?p = "de_P d"
  have P: "act' = None" "deriv_ok ?t v' d'" "guess_room fl v' g'" "set (gs_vhp g') = set (gs_vhp (sv_Guess s))"
    and v': "v' = ?v\<lparr>vs_Watches := vs_Watches v'\<rparr>"
    and cf: "cb_Added c' = cb_Added ?c" "cb_Bot c' = cb_Bot ?c" "cb_AddLits c' = cb_AddLits ?c"
     "cb_AddVals c' = cb_AddVals ?c" "cb_Learnts c' = cb_Learnts ?c @ [?p]" "cb_gc c' = Cgc_Tick (cb_gc ?c)"
     "cd_Len (cb_CDat c') \<le> cd_Len (cb_CDat ?c) + unat (vs_Top ?v) + 2"
    and p: "?p \<noteq> CNull" "?p \<notin> locs cls"
    and tg: "0 \<le> de_TargetLevel d" "de_TargetLevel d < tr_Level ?t" "lit_Not (de_Unit d) \<in> set (trail_lits ?t)"
      "lev ?v (de_Unit d) = tr_Level ?t"
    using post unfolding derive_post_def prod.case by blast+
  obtain cls1 h xs where db': "db_ok (cls1 @ [(h, de_Unit d # xs)]) c'"
    and lc: "locs (cls1 @ [(h, de_Unit d # xs)]) = insert ?p (locs cls)"
    and lp: "lits ?D' ?p = de_Unit d # xs" and same: "\<forall>q \<in> locs cls. lits ?D' q = lits ?D q"
    and xs: "\<forall>n \<in> set xs. lit_Not n \<in> set (trail_lits ?t) \<and> 0 < lev ?v n \<and> lev ?v n \<le> de_TargetLevel d"
    and imp: "\<forall>\<sigma>. sat_all \<sigma> ?D (locs cls) \<longrightarrow> clause_true \<sigma> (de_Unit d # xs)"
    and ok': "search_ok ?D' (insert ?p (locs cls)) (attached (de_Unit d # xs) ?p ?Q) ?t v'"
    and W': "prop_upto ?D' (attached (de_Unit d # xs) ?p ?Q) ?t v' (tr_Level ?t)"
    using post unfolding derive_post_def prod.case by blast
  let ?cls = "cls1 @ [(h, de_Unit d # xs)]"
  have rmq: "gc_rmq (cb_gc c') = gc_rmq (cb_gc ?c)" by (simp add: cf)
  have vf: "vs_Top v' = vs_Top ?v" "vs_Max v' = vs_Max ?v" "vs_Vals v' = vs_Vals ?v" "reason v' = reason ?v" "lev v' = lev ?v"
    by (subst v', simp add: fun_eq_iff reason_def lev_def)+
  have sub: "set (cb_Added ?c) \<subseteq> locs cls" "set (cb_Learnts ?c) \<subseteq> locs cls" using L by blast+
  have att: "att c' = attached (de_Unit d # xs) ?p ?Q"
    using sub same p(2) unfolding att_def attached_def by (auto simp: cf lp)
  have live: "live ?cls c' = insert ?p (live cls ?c)"
    using C(2) p(2) by (auto simp: live_def lc rmq gc_ok_def)
  have "search_ok ?D' (insert ?p (live cls ?c)) (attached (de_Unit d # xs) ?p ?Q) ?t v'"
  proof (rule search_ok_restrict [OF ok'])
    fix m assume m: "m \<in> set (trail_lits ?t)" "reason v' m \<noteq> CNull"
    obtain i where i: "i < tr_Tail ?t" "m = trail_lits ?t ! i"
      using m(1) length_trail_lits [OF C(11)] by (metis in_set_conv_nth)
    show "reason v' m \<in> insert ?p (live cls ?c)"
      using reasons_okD(1) [OF search_okD(4) [OF C(3)] i(1)] m(2) i(2) by (simp add: vf)
  qed (use L in \<open>auto simp: attached_def\<close>)
  then have sok: "search_ok ?D' (live ?cls c') (att c') ?t v'" by (simp add: att live)
  have M0: "means F (locs cls) c' ?t v'"
    by (rule means_keep [OF C(4)]) (use same sub in \<open>auto simp: cf keeps0_def vf\<close>)
  have "sat_all \<sigma> ?D' (locs cls) \<longleftrightarrow> sat_all \<sigma> ?D (locs cls)" for \<sigma> using same by (simp add: sat_all_def)
  then have M: "means F (locs ?cls) c' ?t v'"
    unfolding lc using imp by (intro means_insert [OF M0]) (simp add: lp)
  have A: "added_ok c' ?t v'"
    by (rule added_keep [OF C(5)]) (use same sub in \<open>auto simp: cf keeps0_def vf\<close>)
  have G: "gc_ok ?cls c'" using C(2) p(2) sub by (auto simp: gc_ok_def lc rmq cf)
  have H: "heap_full v' g'" using C(8) by (simp add: heap_full_def vf P(4))
  have "core_at fl F ?cls s'"
    using db' G sok M A P H C(10) by (simp add: core_at_def s'_def cf)
  moreover have "below s'" using W' by (simp add: below_def s'_def att)
  moreover have "learnt ?cls d s s'"
    unfolding learnt_def using tg cf v' lp xs vf by (auto simp: s'_def same_call_def live)
  moreover have "s_Derive fl x s = Some (d, s')" by (simp add: s_Derive_def C(9) run s'_def)
  ultimately show ?thesis by auto
qed

lemma assigned_assumed:
  assumes as: "assigned m c (sv_Trail s) (sv_Vars s) (sv_Trail s') (sv_Vars s')"
    and ok: "trail_ok (sv_Trail s') (sv_Vars s')" and A: "assumed A L s" and c: "c \<noteq> CNull \<or> L < tr_Level (sv_Trail s')"
  shows "assumed A L s'"
proof -
  note D = assignedD [OF as] and old = assigned_old [OF as ok]
  show ?thesis
    unfolding assumed_def
  proof (intro conjI ballI impI)
    show "0 \<le> L" using A by (simp add: assumed_def)
    show "L \<le> tr_Level (sv_Trail s')" using A D(4) by (simp add: assumed_def split: if_splits)
    fix n assume n: "n \<in> set (trail_lits (sv_Trail s'))" "reason (sv_Vars s') n = CNull" "lev (sv_Vars s') n \<le> L"
    have "n \<in> set (trail_lits (sv_Trail s))"
    proof (rule ccontr)
      assume "n \<notin> set (trail_lits (sv_Trail s))"
      then have "n = m" using n(1) by (simp add: D(1))
      then show False using n(2,3) c D(7) [of m] D(8) [of m] by auto
    qed
    then show "n \<in> set A" using n A old [of n] by (simp add: assumed_def)
  next
    fix n assume "n \<in> set A"
    then show "n \<in> set (trail_lits (sv_Trail s'))" "lev (sv_Vars s') n \<le> L"
      using A old(2) [of n] by (simp_all add: assumed_def D(1))
  qed
qed

text \<open>The learnt clause asserts its first literal after backtracking.\<close>

definition asserted :: "int \<Rightarrow> 'h solver \<Rightarrow> 'h solver \<Rightarrow> bool" where
  "asserted lvl s s' \<longleftrightarrow> same_call s s' \<and> sv_x s' = sv_x s \<and> sv_xLit s' = sv_xLit s
     \<and> cb_gc (sv_Cdb s') = Cgc_Tick (cb_gc (sv_Cdb s))
     \<and> cd_Len (cb_CDat (sv_Cdb s')) \<le> cd_Len (cb_CDat (sv_Cdb s)) + unat (vs_Top (sv_Vars s)) + 2
     \<and> tr_Level (sv_Trail s') = lvl \<and> (\<forall>A L. L \<le> lvl \<longrightarrow> assumed A L s \<longrightarrow> assumed A L s')"

lemma core_assert:
  assumes cr: "core_at fl F cls s1" and W: "below s1" and learnt: "learnt cls d s s1"
    and lvl: "de_TargetLevel d \<le> lvl" "lvl < tr_Level (sv_Trail s)"
  shows "returns (do { s2 \<leftarrow> s_Back fl lvl s1; s_Assign (de_Unit d) (de_P d) s2 }) (\<lambda>s'. core fl F s'
     \<and> propagated s' \<and> asserted lvl s s')"
proof -
  have T: "sv_Trail s1 = sv_Trail s" and V: "sv_Vars s1 = (sv_Vars s)\<lparr>vs_Watches := vs_Watches (sv_Vars s1)\<rparr>"
    and fr: "same_call s s1" "sv_x s1 = sv_x s" "sv_xLit s1 = sv_xLit s" "cb_gc (sv_Cdb s1) = Cgc_Tick (cb_gc (sv_Cdb s))"
      "cd_Len (cb_CDat (sv_Cdb s1)) \<le> cd_Len (cb_CDat (sv_Cdb s)) + unat (vs_Top (sv_Vars s)) + 2"
    and tg: "0 \<le> de_TargetLevel d" "lit_Not (de_Unit d) \<in> set (trail_lits (sv_Trail s))"
      "lev (sv_Vars s) (de_Unit d) = tr_Level (sv_Trail s)" "de_P d \<in> live cls (sv_Cdb s1)"
    using learnt unfolding learnt_def by blast+
  obtain xs where xs: "lits (db_of s1) (de_P d) = de_Unit d # xs"
    "\<forall>n \<in> set xs. lit_Not n \<in> set (trail_lits (sv_Trail s)) \<and> lev (sv_Vars s) n \<le> de_TargetLevel d"
    using learnt unfolding learnt_def by blast
  have vf: "reason (sv_Vars s1) = reason (sv_Vars s)" "lev (sv_Vars s1) = lev (sv_Vars s)"
    by (subst V, simp add: fun_eq_iff reason_def lev_def)+
  have lvl': "0 \<le> lvl" "lvl < tr_Level (sv_Trail s1)" using lvl tg(1) by (simp_all add: T)
  obtain s2 where bk: "s_Back fl lvl s1 = Some s2" and cr2: "core_at fl F cls s2" and W2: "propagated s2"
    and B: "back_post lvl s1 s2"
    using core_at_Back [OF cr W lvl'] by (auto simp: returns_def)
  note BF = back_post_frame [OF B]
  have tl: "set (trail_lits (sv_Trail s2)) = {m \<in> set (trail_lits (sv_Trail s)). lev (sv_Vars s) m \<le> lvl}"
    and lv2: "tr_Level (sv_Trail s2) = lvl"
    using B by (simp_all add: back_post_def T vf)
  have top: "vs_Top (sv_Vars s2) = vs_Top (sv_Vars s1)" using BF(2) by (simp add: same_call_def)
  have rg: "in_range (sv_Vars s2) (de_Unit d)"
  proof -
    have "in_range (sv_Vars s1) (lit_Not (de_Unit d))"
      by (rule trail_okD(6) [OF core_atD(11) [OF cr]]) (simp only: T tg(2))
    then have "in_range (sv_Vars s1) (de_Unit d)" by simp
    then show ?thesis by (simp add: in_range_def top)
  qed
  have "de_Unit d \<notin> set (trail_lits (sv_Trail s2))" "lit_Not (de_Unit d) \<notin> set (trail_lits (sv_Trail s2))"
    using lvl(2) by (auto simp: tl tg(3))
  then have val: "val_of (sv_Vars s2) (de_Unit d) = 0"
    using trail_val [OF core_atD(11) [OF cr2] rg] by simp
  have q: "de_P d \<in> live cls (sv_Cdb s2)" and cl: "lits (db_of s2) (de_P d) = de_Unit d # xs"
    using tg(4) xs(1) by (simp_all add: BF(1))
  have false: "\<forall>n \<in> set xs. lit_Not n \<in> set (trail_lits (sv_Trail s2))"
    using xs(2) lvl(1) by (fastforce simp: tl)
  obtain s3 where as: "s_Assign (de_Unit d) (de_P d) s2 = Some s3" and cr3: "core_at fl F cls s3" and W3: "propagated s3"
    and A: "assign_post (de_Unit d) (de_P d) s2 s3"
    using core_imply [OF cr2 W2 q cl false rg val] by (auto simp: returns_def)
  note AF = assign_post_frame [OF A]
  have p0: "de_P d \<noteq> CNull" by (rule loc_not_null [OF search_okD(1) [OF core_atD(3) [OF cr2]] q])
  have "assumed A' L s3" if L: "L \<le> lvl" and as0: "assumed A' L s" for A' L
  proof -
    have "assumed A' L s1" using as0 by (simp add: assumed_def T vf)
    then have "assumed A' L s2" by (rule back_post_assumed [OF B _ L])
    then show ?thesis by (rule assigned_assumed [OF AF(8) core_atD(11) [OF cr3] _ disjI1 [OF p0]])
  qed
  moreover have "tr_Level (sv_Trail s3) = lvl" using assignedD(4) [OF AF(8)] lv2 p0 by simp
  moreover have "same_call s s3" using fr(1) BF(2) AF(2) by (blast intro: same_call_trans)
  moreover have "core fl F s3" using cr3 by (auto simp: core_def)
  ultimately show ?thesis
    using W3 fr BF AF by (simp add: bk as asserted_def)
qed

section \<open>A conflict\<close>

lemma Decay_same [simp]:
  "cd_D (cb_CDat (Cdb_Decay c)) = cd_D (cb_CDat c)" "cd_Len (cb_CDat (Cdb_Decay c)) = cd_Len (cb_CDat c)"
  "cb_Added (Cdb_Decay c) = cb_Added c" "cb_Learnts (Cdb_Decay c) = cb_Learnts c" "cb_gc (Cdb_Decay c) = cb_gc c"
  "cb_Bot (Cdb_Decay c) = cb_Bot c" "cb_AddLits (Cdb_Decay c) = cb_AddLits c" "cb_AddVals (Cdb_Decay c) = cb_AddVals c"
  by (simp_all add: Cdb_Decay_def CDat_Decay_def)

lemma Decay_db_ok [simp]: "db_ok cls (Cdb_Decay c) \<longleftrightarrow> db_ok cls c"
  by (simp add: db_ok_def Cdb_Decay_def CDat_Decay_def)

lemma Decay_att [simp]: "att (Cdb_Decay c) = att c" "live cls (Cdb_Decay c) = live cls c"
  by (simp_all add: att_def live_def)

lemma Guess_Decay_same [simp]:
  "gs_vhp (Guess_Decay fl g) = gs_vhp g" "heap_ok fl (Guess_Decay fl g) \<longleftrightarrow> heap_ok fl g"
  "gs_pos (Guess_Decay fl g) = gs_pos g"
  by (simp_all add: Guess_Decay_def Let_def heap_ok_def heats_ok_def gs_wf_def ordered_def ord_at_def gs_key_def)

lemma nextRestart_same [simp]:
  "gs_vhp (Guess_nextRestart fl n g) = gs_vhp g" "heap_ok fl (Guess_nextRestart fl n g) \<longleftrightarrow> heap_ok fl g"
  "gs_pos (Guess_nextRestart fl n g) = gs_pos g"
  by (simp_all add: Guess_nextRestart_def heap_ok_def heats_ok_def gs_wf_def ordered_def ord_at_def gs_key_def)

text \<open>Parts of the state that the invariant does not speak of.\<close>

lemma core_cong:
  assumes "core_at fl F cls s"
  shows "core_at fl F cls (s\<lparr>sv_Guess := Guess_Decay fl (sv_Guess s), sv_Cdb := Cdb_Decay (sv_Cdb s), sv_restartStopwatch := n\<rparr>)"
    and "core_at fl F cls (s\<lparr>sv_luby := l, sv_restartStopwatch := n\<rparr>)"
    and "core_at fl F cls (s\<lparr>sv_Guess := Guess_nextRestart fl n (sv_Guess s)\<rparr>)"
    and "core_at fl F cls (s\<lparr>sv_x := x\<rparr>)" and "core_at fl F cls (s\<lparr>sv_xLit := xl\<rparr>)"
    and "core_at fl F cls (s\<lparr>sv_assumptLevel := al\<rparr>)" and "core_at fl F cls (s\<lparr>sv_assumes := as\<rparr>)"
    and "core_at fl F cls (s\<lparr>sv_failed := as\<rparr>)"
  using assms
  by (simp_all add: core_at_def gc_ok_def means_def added_ok_def guess_room_def heap_full_def)

text \<open>The result of a turn: the call goes on in order, or it ends with an answer.\<close>

definition in_search :: "'h floats \<Rightarrow> lit list list \<Rightarrow> lit list \<Rightarrow> 'h solver \<Rightarrow> bool" where
  "in_search fl F A s \<longleftrightarrow> core fl F s \<and> propagated s \<and> assumed A (sv_assumptLevel s) s"

text \<open>What is kept from call to call: the parameters, and a bound on the growth of the store.\<close>

definition turned :: "'h solver \<Rightarrow> 'h solver \<Rightarrow> bool" where
  "turned s s' \<longleftrightarrow> same_call s s' \<and> sv_xLit s' = sv_xLit s
     \<and> cd_Len (cb_CDat (sv_Cdb s')) \<le> cd_Len (cb_CDat (sv_Cdb s)) + unat (vs_Top (sv_Vars s)) + 2
     \<and> unat (gc_stopWatch (cb_gc (sv_Cdb s))) \<le> unat (gc_stopWatch (cb_gc (sv_Cdb s'))) + 1"

lemma Tick_stopWatch: "unat (gc_stopWatch g) \<le> unat (gc_stopWatch (Cgc_Tick g)) + 1"
  by (auto simp: Cgc_Tick_def unat_minus_one word_greater_zero_iff)

lemma turn_conflict_ok:
  assumes core: "core fl F s" and x: "conflicting x s" and A: "assumed A (sv_assumptLevel s) s" and rm: "room s"
    and lv: "sv_assumptLevel s < tr_Level (sv_Trail s)"
  shows "returns (turn_conflict fl x (sv_assumptLevel s) (nxt, k, s)) (\<lambda>r. \<exists>s'. r = Go (nxt, k, s')
     \<and> in_search fl F A s' \<and> turned s s' \<and> sv_x s' = sv_x s)"
proof -
  let ?aL = "sv_assumptLevel s"
  have aL: "0 \<le> ?aL" using A by (simp add: assumed_def)
  then have "0 < tr_Level (sv_Trail s)" using lv by simp
  from core_learn [OF core x this rm]
  obtain d s1 cls where der: "s_Derive fl x s = Some (d, s1)" and b1: "below s1" and cr1: "core_at fl F cls s1"
    and ln: "learnt cls d s s1" by (auto simp: returns_def)
  let ?lvl = "if de_TargetLevel d < ?aL then ?aL else de_TargetLevel d"
  have tg: "0 \<le> de_TargetLevel d" "de_TargetLevel d < tr_Level (sv_Trail s)" using ln by (simp_all add: learnt_def)
  have lvl: "de_TargetLevel d \<le> ?lvl" "?lvl < tr_Level (sv_Trail s)" using tg lv by auto
  obtain s2 s3 where run: "s_Back fl ?lvl s1 = Some s2" "s_Assign (de_Unit d) (de_P d) s2 = Some s3"
    and c3: "core fl F s3" "propagated s3" and as: "asserted ?lvl s s3"
    using core_assert [OF cr1 b1 ln lvl] by (auto simp: returns_def bind_eq_Some_conv simp del: if_split_asm)
  let ?s = "s3\<lparr>sv_Guess := Guess_Decay fl (sv_Guess s3), sv_Cdb := Cdb_Decay (sv_Cdb s3),
    sv_restartStopwatch := sv_restartStopwatch s3 - 1\<rparr>"
  have "core fl F ?s" using c3(1) core_cong(1) unfolding core_def by blast
  moreover have "propagated ?s" using c3(2) by (simp add: propagated_def)
  moreover have "assumed A (sv_assumptLevel s) s3"
    using as A by (simp add: asserted_def)
  then have "assumed A (sv_assumptLevel ?s) ?s"
    using as by (simp add: assumed_def asserted_def same_call_def)
  ultimately have "in_search fl F A ?s" by (simp add: in_search_def)
  moreover have "turned s ?s" "sv_x ?s = sv_x s"
    using as Tick_stopWatch [of "cb_gc (sv_Cdb s)"] by (simp_all add: turned_def asserted_def same_call_def)
  ultimately show ?thesis
    using lv by (simp add: turn_conflict_def der run)
qed

text \<open>At the level of the assumptions a conflict refutes the formula together with them.\<close>

lemma conflict_refutes:
  assumes core: "core fl F s" and x: "conflicting x s" and A: "assumed A L s"
    and lv: "tr_Level (sv_Trail s) \<le> L" and sat: "cnf_true \<sigma> F"
  shows "\<exists>m \<in> set A. \<not> lit_true \<sigma> m"
proof (rule ccontr)
  assume "\<not> ?thesis"
  then have As: "\<And>m. m \<in> set A \<Longrightarrow> lit_true \<sigma> m" by blast
  obtain cls where cr: "core_at fl F cls s" using core by (auto simp: core_def)
  note C = core_atD [OF cr] and La = att_live [OF core_atD(1,2) [OF cr]]
  have sl: "sat_all \<sigma> (db_of s) (locs cls)" using C(4) sat by (simp add: means_def)
  then have sv: "sat_all \<sigma> (db_of s) (live cls (sv_Cdb s))" using La(4) by (auto simp: sat_all_def)
  have tr: "lit_true \<sigma> m" if "m \<in> set (trail_lits (sv_Trail s))" for m
  proof (rule trail_implied [OF C(11) search_okD(4) [OF C(3)] sv _ that])
    show "lev (sv_Vars s) m \<le> L" using lev_bounds(2) [OF C(11) that] lv by simp
  qed (use A As in \<open>auto simp: assumed_def\<close>)
  have xa: "x \<in> att (sv_Cdb s)" using x by (simp add: conflicting_def)
  then have "clause_true \<sigma> (lits (db_of s) x)" using sv La(1) by (auto simp: sat_all_def)
  then obtain n where n: "n \<in> set (lits (db_of s) x)" "lit_true \<sigma> n" by (auto simp: clause_true_def)
  have "in_range (sv_Vars s) n" using clauses_okD(3) [OF search_okD(5) [OF C(3)] xa n(1)] .
  moreover have "val_of (sv_Vars s) n = -1" using x n(1) by (simp add: conflicting_def)
  ultimately have "lit_Not n \<in> set (trail_lits (sv_Trail s))"
    using trail_val [OF C(11)] by (auto split: if_splits)
  then show False using tr n(2) by fastforce
qed

section \<open>A restart\<close>

lemma quietI:
  assumes core: "core fl F s" and W: "propagated s" and hd: "tr_Head (sv_Trail s) = tr_Tail (sv_Trail s)"
  shows "quiet s"
proof -
  obtain cls where cr: "core_at fl F cls s" using core by (auto simp: core_def)
  have W': "prop_upto (db_of s) (att (sv_Cdb s)) (sv_Trail s) (sv_Vars s) (tr_Level (sv_Trail s) + 1)"
    using W by (simp add: propagated_def)
  show ?thesis
    using propagated_not_false [OF core_atD(3) [OF cr] W' hd] W hd by (simp add: quiet_def)
qed

lemma quietD: "quiet s \<Longrightarrow> propagated s" "quiet s \<Longrightarrow> tr_Head (sv_Trail s) = tr_Tail (sv_Trail s)"
  by (simp_all add: quiet_def)

lemma core_parts:
  assumes "core fl F s"
  shows "trail_ok (sv_Trail s) (sv_Vars s)" and "heap_full (sv_Vars s) (sv_Guess s)"
    and "guess_room fl (sv_Vars s) (sv_Guess s)" and "sv_Active s = None" and "vars_ok (sv_Vars s)"
    and "added_ok (sv_Cdb s) (sv_Trail s) (sv_Vars s)" and "cb_Bot (sv_Cdb s) = CNull"
proof -
  obtain cls where cr: "core_at fl F cls s" using assms by (auto simp: core_def)
  note C = core_atD [OF cr]
  show "trail_ok (sv_Trail s) (sv_Vars s)" "heap_full (sv_Vars s) (sv_Guess s)"
    "guess_room fl (sv_Vars s) (sv_Guess s)" "sv_Active s = None"
    "added_ok (sv_Cdb s) (sv_Trail s) (sv_Vars s)" "cb_Bot (sv_Cdb s) = CNull" by (fact C)+
  show "vars_ok (sv_Vars s)" by (rule trail_okD(1) [OF C(11)])
qed

lemma turn_restart_ok:
  assumes S: "in_search fl F A s" and q: "quiet s"
  shows "returns (turn_restart fl s) (\<lambda>s'. in_search fl F A s' \<and> quiet s' \<and> turned s s'
     \<and> sv_x s' = sv_x s \<and> sv_Cdb s' = sv_Cdb s)"
proof (cases "sv_restartStopwatch s \<le> 0")
  case False
  then show ?thesis using S q by (simp add: turn_restart_def turned_def)
next
  case True
  obtain nx l where lb: "luby_Next (sv_luby s) = (nx, l)" by (cases "luby_Next (sv_luby s)")
  define s0 where "s0 = s\<lparr>sv_luby := l, sv_restartStopwatch := sint (nx * RestartFactor)\<rparr>"
  have S0: "core fl F s0" "propagated s0" "assumed A (sv_assumptLevel s) s0" "quiet s0"
    using S core_cong(2) q unfolding core_def s0_def in_search_def
    by (blast, simp_all add: propagated_def assumed_def quiet_def)
  have aL: "0 \<le> sv_assumptLevel s" "sv_assumptLevel s \<le> tr_Level (sv_Trail s)"
    using S by (simp_all add: in_search_def assumed_def)
  have "returns (s_Back fl (sv_assumptLevel s) s0) (\<lambda>s'. core fl F s' \<and> quiet s'
     \<and> assumed A (sv_assumptLevel s) s' \<and> turned s s' \<and> sv_x s' = sv_x s \<and> sv_Cdb s' = sv_Cdb s)"
  proof (cases "sv_assumptLevel s < tr_Level (sv_Trail s)")
    case less: True
    then have lt: "sv_assumptLevel s < tr_Level (sv_Trail s0)" by (simp add: s0_def)
    show ?thesis
    proof (rule returns_mono [OF core_Back [OF S0(1) propagated_below [OF S0(2)] aL(1) lt]])
      fix s' assume post: "core fl F s' \<and> propagated s' \<and> back_post (sv_assumptLevel s) s0 s'"
      note B = back_post_frame [OF conjunct2 [OF conjunct2 [OF post]]]
      have "assumed A (sv_assumptLevel s) s'"
        by (rule back_post_assumed [OF conjunct2 [OF conjunct2 [OF post]] S0(3) order_refl])
      moreover have "quiet s'" using post by (intro quietI [of fl F]) (simp_all add: back_post_def)
      ultimately show "core fl F s' \<and> quiet s' \<and> assumed A (sv_assumptLevel s) s' \<and> turned s s' \<and> sv_x s' = sv_x s \<and> sv_Cdb s' = sv_Cdb s"
        using post B by (simp add: turned_def same_call_def s0_def)
    qed
  next
    case False
    then have "Back fl (sv_assumptLevel s) (sv_Trail s0, sv_Vars s0, sv_Guess s0) = Some (sv_Trail s0, sv_Vars s0, sv_Guess s0)"
      by (simp add: Back_def s0_def)
    then show ?thesis using S0 by (simp add: s_Back_def) (simp add: s0_def turned_def same_call_def)
  qed
  then obtain s' where bk: "s_Back fl (sv_assumptLevel s) s0 = Some s'" and c: "core fl F s'" "quiet s'"
    "assumed A (sv_assumptLevel s) s'" "turned s s'" "sv_Cdb s' = sv_Cdb s" "sv_x s' = sv_x s" by (auto simp: returns_def)
  let ?s = "s'\<lparr>sv_Guess := Guess_nextRestart fl (sv_restartStopwatch s') (sv_Guess s')\<rparr>"
  have "core fl F ?s" using c(1) core_cong(3) unfolding core_def by blast
  moreover have "quiet ?s" using c(2) by (simp add: quiet_def propagated_def)
  moreover have "assumed A (sv_assumptLevel ?s) ?s"
    using c(3,4) by (simp add: assumed_def turned_def same_call_def)
  ultimately have "in_search fl F A ?s \<and> quiet ?s" by (simp add: in_search_def quiet_def)
  moreover have "turned s ?s" using c(4) by (simp add: turned_def same_call_def)
  ultimately show ?thesis
    using True bk c(5,6) by (simp add: turn_restart_def lb s0_def [symmetric] Let_def)
qed

section \<open>Choosing a literal\<close>

lemma core_Guess:
  assumes core: "core fl F s"
  shows "returns (Guess_Guess fl (vs_Vals (sv_Vars s)) (sv_Guess s)) (\<lambda>(m, g'). guess_room fl (sv_Vars s) g'
     \<and> set (gs_vhp g') \<subseteq> set (gs_vhp (sv_Guess s))
     \<and> (if m = LitNull then \<forall>x. 0 < unat x \<longrightarrow> x \<le> vs_Max (sv_Vars s) \<longrightarrow> x \<in> lit_Var ` set (trail_lits (sv_Trail s))
        else in_range (sv_Vars s) m \<and> val_of (sv_Vars s) m = 0
          \<and> (\<forall>x \<in> set (gs_vhp (sv_Guess s)). free_var (vs_Vals (sv_Vars s)) x \<longrightarrow> x = lit_Var m \<or> x \<in> set (gs_vhp g'))))"
proof -
  let ?v = "sv_Vars s" and ?g = "sv_Guess s"
  note C = core_parts [OF core]
  have hp: "heap_ok fl ?g" and rm: "unat (vs_Top ?v) \<le> length (gs_pos ?g)" using C(3) by (simp_all add: guess_room_def)
  have hb: "0 < unat x \<and> x < vs_Top ?v" if "x \<in> set (gs_vhp ?g)" for x using C(2) that by (simp add: heap_full_def)
  have gi: "gs_in (vs_Vals ?v) ?g"
    using hb vars_okD(3) [OF C(5)] by (fastforce simp: gs_in_def word_less_nat_alt)
  have z: "0 \<notin> set (gs_vhp ?g)" using hb by fastforce
  show ?thesis
    unfolding Guess_Guess_def
  proof (rule returns_mono [OF guess_loop_spec [OF hp gi z refl]], clarsimp split del: if_split)
    fix m g'
    assume h: "heap_ok fl g'" "length (gs_pos g') = length (gs_pos ?g)" "set (gs_vhp g') \<subseteq> set (gs_vhp ?g)"
      and r: "if m = LitNull then \<forall>v\<in>set (gs_vhp ?g). \<not> free_var (vs_Vals ?v) v
        else lit_Var m \<in> set (gs_vhp ?g) \<and> free_var (vs_Vals ?v) (lit_Var m)
          \<and> lit_IsPos m = (gs_cache ?g ! unat (lit_Var m) \<noteq> - 1)
          \<and> (\<forall>v\<in>set (gs_vhp ?g). free_var (vs_Vals ?v) v \<longrightarrow> v = lit_Var m \<or> v \<in> set (gs_vhp g'))
          \<and> (heats_ok fl ?g \<longrightarrow> (\<forall>v\<in>set (gs_vhp ?g). free_var (vs_Vals ?v) v \<longrightarrow>
               fl_le fl (gs_heat ?g ! unat v) (gs_heat ?g ! unat (lit_Var m))))"
    have g': "guess_room fl ?v g'" using h(1,2) rm by (simp add: guess_room_def)
    show "guess_room fl ?v g' \<and> (if m = LitNull then \<forall>x. 0 < unat x \<longrightarrow> x \<le> vs_Max ?v \<longrightarrow> x \<in> lit_Var ` set (trail_lits (sv_Trail s))
        else in_range ?v m \<and> val_of ?v m = 0
          \<and> (\<forall>x \<in> set (gs_vhp ?g). free_var (vs_Vals ?v) x \<longrightarrow> x = lit_Var m \<or> x \<in> set (gs_vhp g')))"
    proof (cases "m = LitNull")
      case True
      have "x \<in> lit_Var ` set (trail_lits (sv_Trail s))" if x: "0 < unat x" "x \<le> vs_Max ?v" for x
      proof (rule ccontr)
        assume no: "x \<notin> lit_Var ` set (trail_lits (sv_Trail s))"
        have "x < vs_Top ?v" using x(2) vars_okD(1) [OF C(5)] by simp
        then have "free_var (vs_Vals ?v) x" using free_var_trail [OF C(1) x(1)] no by simp
        then show False using C(2) x r True by (auto simp: heap_full_def)
      qed
      then show ?thesis using g' True by simp
    next
      case False
      then have m: "lit_Var m \<in> set (gs_vhp ?g)" "free_var (vs_Vals ?v) (lit_Var m)" using r by simp_all
      have b: "0 < unat (lit_Var m)" "lit_Var m < vs_Top ?v" using hb [OF m(1)] by simp_all
      have rg: "in_range ?v m" using b by (auto simp: in_range_def word_less_nat_alt unat_lit_Var)
      have "lit_Var m \<notin> lit_Var ` set (trail_lits (sv_Trail s))" using free_var_trail [OF C(1) b] m(2) by simp
      then have "m \<notin> set (trail_lits (sv_Trail s))" "lit_Not m \<notin> set (trail_lits (sv_Trail s))"
        by (metis image_eqI, metis image_eqI lit_Var_Not)
      then have "val_of ?v m = 0" using trail_val [OF C(1) rg] by simp
      then show ?thesis using g' False rg r by simp
    qed
  qed
qed

section \<open>A model\<close>

lemma check_clause_spec:
  assumes ok: "store_ok D P" "q \<in> P" and rng: "\<forall>n \<in> set (lits D q). unat n < length vals"
    and k: "k \<le> length (lits D q)"
  shows "returns (check_clause D vals (q + of_nat k)) (\<lambda>b. b \<longleftrightarrow>
     (\<exists>j. k \<le> j \<and> j < length (lits D q) \<and> vals ! unat (lits D q ! j) = 1))"
  using k
proof (induction "length (lits D q) - k" arbitrary: k)
  case 0
  then have "k = length (lits D q)" by simp
  then show ?case using aget_lits [OF ok, of k] by (subst check_clause.simps) simp
next
  case (Suc d)
  then have k: "k < length (lits D q)" by simp
  have get: "aget D (unat (q + of_nat k)) = Some (lits D q ! k)" using aget_lits [OF ok, of k] k by simp
  have nn: "lits D q ! k \<noteq> LitNull" using lits_nonnull [of D q] k by (metis nth_mem)
  have v: "unat (lits D q ! k) < length vals" using rng k by simp
  show ?case
  proof (cases "vals ! unat (lits D q ! k) = 1")
    case True
    then show ?thesis by (subst check_clause.simps) (use get nn v k in auto)
  next
    case False
    have run: "check_clause D vals (q + of_nat k) = check_clause D vals (q + of_nat (Suc k))"
      by (subst check_clause.simps) (use get nn v False in \<open>simp add: ac_simps\<close>)
    have "returns (check_clause D vals (q + of_nat (Suc k))) (\<lambda>b. b \<longleftrightarrow>
       (\<exists>j. Suc k \<le> j \<and> j < length (lits D q) \<and> vals ! unat (lits D q ! j) = 1))"
      using Suc by (intro Suc.hyps(1)) simp_all
    moreover have "(\<exists>j. Suc k \<le> j \<and> j < length (lits D q) \<and> vals ! unat (lits D q ! j) = 1) \<longleftrightarrow>
       (\<exists>j. k \<le> j \<and> j < length (lits D q) \<and> vals ! unat (lits D q ! j) = 1)"
      using False by (metis Suc_leD le_antisym not_less_eq_eq)
    ultimately show ?thesis unfolding run by simp
  qed
qed

lemma check_model_ok:
  assumes ok: "store_ok D P" and qs: "set qs \<subseteq> P"
    and tr: "\<forall>q \<in> set qs. (\<forall>n \<in> set (lits D q). unat n < length vals) \<and> (\<exists>n \<in> set (lits D q). vals ! unat n = 1)"
  shows "check_model D vals qs = Some []"
  using qs tr
proof (induction qs)
  case (Cons q qs)
  have q: "q \<in> P" and rng: "\<forall>n \<in> set (lits D q). unat n < length vals" and ex: "\<exists>n \<in> set (lits D q). vals ! unat n = 1"
    using Cons.prems by auto
  have "\<exists>j. 0 \<le> j \<and> j < length (lits D q) \<and> vals ! unat (lits D q ! j) = 1" using ex by (auto simp: in_set_conv_nth)
  then have "check_clause D vals q = Some True"
    using check_clause_spec [OF ok q rng, of 0] by (auto simp: returns_def)
  then show ?case using Cons by simp
qed simp

text \<open>The assignment read off the values.\<close>

definition model_of :: "vars \<Rightarrow> assignment" where
  "model_of v x \<longleftrightarrow> vs_Vals v ! unat (var_Pos x) = 1"

lemma model_of_true:
  assumes ok: "trail_ok t v" and m: "m \<in> set (trail_lits t)"
  shows "lit_true (model_of v) m"
proof -
  note rg = trail_okD(6) [OF ok m]
  have "unat (lit_Var m) < 2 ^ 31"
    using rg vars_okD(2) [OF trail_okD(1) [OF ok]] by (simp add: in_range_def)
  then have p: "lit_Var (var_Pos (lit_Var m)) = lit_Var m" "lit_IsPos (var_Pos (lit_Var m))" by simp_all
  have vm: "val_of v m = 1" "val_of v (lit_Not m) = -1"
    using trail_val [OF ok rg] trail_val [OF ok, of "lit_Not m"] rg m trail_not_both [OF ok m] by auto
  show ?thesis
  proof (cases "lit_IsPos m")
    case True
    have "var_Pos (lit_Var m) = m" by (rule lit_eqI) (simp_all only: p True)
    then have "model_of v (lit_Var m)" using vm(1) by (simp only: model_of_def val_of_def)
    then show ?thesis using True by (simp add: lit_true_def)
  next
    case False
    have "var_Pos (lit_Var m) = lit_Not m"
      by (rule lit_eqI) (simp_all only: p lit_Var_Not lit_IsPos_Not False simp_thms)
    then have "\<not> model_of v (lit_Var m)" using vm(2) by (simp add: model_of_def val_of_def)
    then show ?thesis using False by (simp add: lit_true_def)
  qed
qed

lemma added_true:
  assumes core: "core fl F s" and q: "quiet s"
    and all: "\<forall>x. 0 < unat x \<longrightarrow> x \<le> vs_Max (sv_Vars s) \<longrightarrow> x \<in> lit_Var ` set (trail_lits (sv_Trail s))"
    and p: "p \<in> set (cb_Added (sv_Cdb s))"
  shows "(\<forall>n \<in> set (lits (db_of s) p). in_range (sv_Vars s) n)
     \<and> (\<exists>n \<in> set (lits (db_of s) p). n \<in> set (trail_lits (sv_Trail s)))"
proof -
  obtain cls where cr: "core_at fl F cls s" using core by (auto simp: core_def)
  note C = core_atD [OF cr]
  have ad: "lits (db_of s) p \<noteq> []" "\<forall>m \<in> set (lits (db_of s) p). lit_Var m \<le> vs_Max (sv_Vars s)"
    "\<And>m. lits (db_of s) p = [m] \<Longrightarrow> m \<in> set (trail_lits (sv_Trail s))"
    using C(5) p by (auto simp: added_ok_def)
  show ?thesis
  proof (cases "2 \<le> length (lits (db_of s) p)")
    case True
    then have pa: "p \<in> att (sv_Cdb s)" using p by (simp add: att_def)
    have rg: "\<forall>n \<in> set (lits (db_of s) p). in_range (sv_Vars s) n"
      using clauses_okD(3) [OF search_okD(5) [OF C(3)] pa] by blast
    obtain n where n: "n \<in> set (lits (db_of s) p)" "val_of (sv_Vars s) n \<noteq> -1" using q pa by (auto simp: quiet_def)
    have r: "in_range (sv_Vars s) n" using rg n(1) by blast
    have "0 < unat (lit_Var n)" using r by (simp add: in_range_def unat_lit_Var)
    then have "lit_Var n \<in> lit_Var ` set (trail_lits (sv_Trail s))" using all ad(2) n(1) by blast
    then have "n \<in> set (trail_lits (sv_Trail s)) \<or> lit_Not n \<in> set (trail_lits (sv_Trail s))"
      using lit_Var_eqD [of n] by force
    then have "n \<in> set (trail_lits (sv_Trail s))"
      using n(2) trail_val [OF C(11) r] trail_not_both [OF C(11)] by (auto split: if_splits)
    then show ?thesis using rg n(1) by blast
  next
    case False
    then have "length (lits (db_of s) p) = 1" using ad(1) by (auto simp: not_le less_2_cases_iff)
    then obtain m where m: "lits (db_of s) p = [m]" by (auto simp: length_Suc_conv)
    then show ?thesis using ad(3) trail_okD(6) [OF C(11)] by auto
  qed
qed

lemma turn_model_ok:
  assumes S: "in_search fl F A s" and q: "quiet s"
    and all: "\<forall>x. 0 < unat x \<longrightarrow> x \<le> vs_Max (sv_Vars s) \<longrightarrow> x \<in> lit_Var ` set (trail_lits (sv_Trail s))"
  shows "Cdb_CheckModel (sv_Vars s, sv_Cdb s, None) = Some ([], sv_Vars s, sv_Cdb s, None)"
    and "cnf_true (model_of (sv_Vars s)) F" and "m \<in> set A \<Longrightarrow> lit_true (model_of (sv_Vars s)) m"
proof -
  have core: "core fl F s" using S by (simp add: in_search_def)
  obtain cls where cr: "core_at fl F cls s" using core by (auto simp: core_def)
  note C = core_atD [OF cr] and L = att_live [OF core_atD(1,2) [OF cr]]
  note added = added_true [OF core q all]
  let ?\<sigma> = "model_of (sv_Vars s)"
  have tr: "lit_true ?\<sigma> n" if "n \<in> set (trail_lits (sv_Trail s))" for n using model_of_true [OF C(11) that] .
  have "check_model (db_of s) (vs_Vals (sv_Vars s)) (cb_Added (sv_Cdb s)) = Some []"
  proof (rule check_model_ok [OF search_okD(1) [OF C(3)] L(2)], intro ballI conjI)
    fix p n assume p: "p \<in> set (cb_Added (sv_Cdb s))" and n: "n \<in> set (lits (db_of s) p)"
    show "unat n < length (vs_Vals (sv_Vars s))"
      using added [OF p] n in_range_vals [OF trail_okD(1) [OF C(11)]] by blast
  next
    fix p assume p: "p \<in> set (cb_Added (sv_Cdb s))"
    obtain n where n: "n \<in> set (lits (db_of s) p)" "n \<in> set (trail_lits (sv_Trail s))" using added [OF p] by blast
    have "val_of (sv_Vars s) n = 1" using trail_okD(6,7) [OF C(11)] n(2) by blast
    then show "\<exists>n \<in> set (lits (db_of s) p). vs_Vals (sv_Vars s) ! unat n = 1" using n(1) by (auto simp: val_of_def)
  qed
  then show "Cdb_CheckModel (sv_Vars s, sv_Cdb s, None) = Some ([], sv_Vars s, sv_Cdb s, None)"
    by (simp add: Cdb_CheckModel_def)
  have "sat_all ?\<sigma> (db_of s) (set (cb_Added (sv_Cdb s)))"
    unfolding sat_all_def clause_true_def using added tr by blast
  then show "cnf_true ?\<sigma> F" using C(4) tr unfolding means_def by blast
  show "lit_true ?\<sigma> m" if "m \<in> set A" using S that tr by (simp add: in_search_def assumed_def)
qed

section \<open>A turn of the loop\<close>

text \<open>
  Clause collection is not due: the collector's stop watch has not run down.
\<close>

definition calm :: "'h solver \<Rightarrow> bool" where
  "calm s \<longleftrightarrow> \<not> Cgc_Ready (cb_gc (sv_Cdb s))"

lemma turned_refl [simp]: "turned s s"
  by (simp add: turned_def)

definition answer_ok :: "'h floats \<Rightarrow> lit list list \<Rightarrow> lit list \<Rightarrow> int \<Rightarrow> 'h solver \<Rightarrow> bool" where
  "answer_ok fl F A r s \<longleftrightarrow> core fl F s \<and> r \<in> {-1, 0, 1}
     \<and> (r = 1 \<longrightarrow> cnf_true (model_of (sv_Vars s)) F \<and> (\<forall>m \<in> set A. lit_true (model_of (sv_Vars s)) m))
     \<and> (r = -1 \<longrightarrow> (\<forall>\<sigma>. cnf_true \<sigma> F \<longrightarrow> (\<exists>m \<in> set A. \<not> lit_true \<sigma> m)))"

text \<open>
  After a turn the search goes on in order, or it has an answer; a refutation leaves the false
  clause behind, any other answer a state that is propagated.
\<close>

definition turn_post :: "'h floats \<Rightarrow> lit list list \<Rightarrow> lit list \<Rightarrow> 'h solver \<Rightarrow> 'h turn \<Rightarrow> bool" where
  "turn_post fl F A s r \<longleftrightarrow> (case r of
     Go st' \<Rightarrow> in_search fl F A (snd (snd st')) \<and> turned s (snd (snd st')) \<and> sv_x (snd (snd st')) = sv_x s
   | Return a s' \<Rightarrow> answer_ok fl F A a s' \<and> turned s s'
       \<and> (if a = -1 then conflicting (sv_x s') s' else sv_x s' = sv_x s \<and> propagated s'))"

lemma turn_post_from:
  assumes "turn_post fl F A s1 r" and "\<And>s'. turned s1 s' \<Longrightarrow> turned s s'" and "sv_x s1 = sv_x s"
  shows "turn_post fl F A s r"
  using assms by (auto simp: turn_post_def split: turn.splits if_splits)

lemma turn_decide_ok:
  assumes S: "in_search fl F A s" and q: "quiet s" and cm: "calm s"
  shows "returns (turn_decide fl (nxt, k, s)) (turn_post fl F A s)"
proof -
  obtain s1 where rs: "turn_restart fl s = Some s1" and S1: "in_search fl F A s1" "quiet s1" "turned s s1" "sv_x s1 = sv_x s"
    and db: "sv_Cdb s1 = sv_Cdb s"
    using turn_restart_ok [OF S q] by (auto simp: returns_def)
  have core: "core fl F s1" and W: "propagated s1" and as: "assumed A (sv_assumptLevel s1) s1"
    using S1(1) by (simp_all add: in_search_def)
  obtain m g' where gs: "Guess_Guess fl (vs_Vals (sv_Vars s1)) (sv_Guess s1) = Some (m, g')"
    and g': "guess_room fl (sv_Vars s1) g'" "set (gs_vhp g') \<subseteq> set (gs_vhp (sv_Guess s1))"
    and r: "if m = LitNull then \<forall>x. 0 < unat x \<longrightarrow> x \<le> vs_Max (sv_Vars s1) \<longrightarrow> x \<in> lit_Var ` set (trail_lits (sv_Trail s1))
        else in_range (sv_Vars s1) m \<and> val_of (sv_Vars s1) m = 0
          \<and> (\<forall>x \<in> set (gs_vhp (sv_Guess s1)). free_var (vs_Vals (sv_Vars s1)) x \<longrightarrow> x = lit_Var m \<or> x \<in> set (gs_vhp g'))"
    using core_Guess [OF core] by (auto simp: returns_def simp del: if_split_asm split del: if_split)
  show ?thesis
  proof (cases "m = LitNull")
    case True
    have all: "\<forall>x. 0 < unat x \<longrightarrow> x \<le> vs_Max (sv_Vars s1) \<longrightarrow> x \<in> lit_Var ` set (trail_lits (sv_Trail s1))"
      using r True by simp
    define s2 where "s2 = s1\<lparr>sv_Guess := g'\<rparr>"
    have eq: "sv_Vars s2 = sv_Vars s1" "sv_Trail s2 = sv_Trail s1" "sv_Cdb s2 = sv_Cdb s1" "sv_Active s2 = sv_Active s1"
      "same_call s1 s2" "sv_x s2 = sv_x s1" "sv_xLit s2 = sv_xLit s1"
      by (simp_all add: s2_def same_call_def)
    have "sv_Active s1 = None" using core_parts(4) [OF core] .
    then have "turn_model s2 = Some (Return 1 s2)"
      using turn_model_ok(1) [OF S1(1,2) all] by (simp add: turn_model_def s2_def)
    then have "turn_decide fl (nxt, k, s) = Some (Return 1 s2)"
      using True by (simp add: turn_decide_def rs gs s2_def [symmetric])
    moreover have "quiet s2" using S1(2) by (simp add: quiet_def propagated_def eq)
    moreover have "turned s s2" using S1(3) by (simp add: turned_def eq same_call_trans [OF _ eq(5)])
    moreover have "core fl F s2"
    proof -
      obtain cls where cr: "core_at fl F cls s1" using core by (auto simp: core_def)
      have top: "vs_Max (sv_Vars s1) < vs_Top (sv_Vars s1)" using vars_okD(1) [OF core_parts(5) [OF core]] .
      have "\<not> free_var (vs_Vals (sv_Vars s1)) x" if "0 < unat x" "x \<le> vs_Max (sv_Vars s1)" for x
        using free_var_trail [OF core_atD(11) [OF cr] that(1)] all that top by auto
      then have "heap_full (sv_Vars s1) g'" using core_atD(8) [OF cr] g'(2) by (auto simp: heap_full_def)
      then have "core_at fl F cls s2" using cr g'(1) by (simp add: core_at_def s2_def)
      then show ?thesis by (auto simp: core_def)
    qed
    ultimately show ?thesis
      using turn_model_ok(2,3) [OF S1(1,2) all] quietD(1) [of s2]
      by (simp add: answer_ok_def turn_post_def eq S1(4))
  next
    case False
    have m: "in_range (sv_Vars s1) m" "val_of (sv_Vars s1) m = 0"
      and sup: "\<And>x. x \<in> set (gs_vhp (sv_Guess s1)) \<Longrightarrow> free_var (vs_Vals (sv_Vars s1)) x \<Longrightarrow> x = lit_Var m \<or> x \<in> set (gs_vhp g')"
      using r False by simp_all
    have mc: "Cdb_MaybeCompact (sv_Vars s1, sv_Cdb s1, sv_Active s1) = Some (0, 0, 0, sv_Vars s1, sv_Cdb s1, sv_Active s1)"
      using cm by (simp add: Cdb_MaybeCompact_def calm_def db)
    obtain s2 where run: "s_Assign m CNull (s1\<lparr>sv_Guess := g'\<rparr>) = Some s2" and S2: "core fl F s2" "propagated s2"
      and ap: "assign_post m CNull (s1\<lparr>sv_Guess := g'\<rparr>) s2"
      using core_decide [OF core W quietD(2) [OF S1(2)] m g' sup] by (auto simp: returns_def)
    note AF = assign_post_frame [OF ap]
    have as1: "assigned m CNull (sv_Trail s1) (sv_Vars s1) (sv_Trail s2) (sv_Vars s2)" using AF(8) by simp
    have "assumed A (sv_assumptLevel s1) s2"
    proof (rule assigned_assumed [OF as1 core_parts(1) [OF S2(1)] as])
      have "tr_Level (sv_Trail s2) = tr_Level (sv_Trail s1) + 1" using assignedD(4) [OF as1] by simp
      then show "CNull \<noteq> CNull \<or> sv_assumptLevel s1 < tr_Level (sv_Trail s2)" using as by (simp add: assumed_def)
    qed
    then have "in_search fl F A s2" using S2 AF(2) by (simp add: in_search_def same_call_def)
    moreover have "turned s s2" using S1(3) AF(1,2,4,5) by (simp add: turned_def same_call_def)
    moreover have "turn_decide fl (nxt, k, s) = Some (Go (nxt, k, s2))"
      using False mc run by (simp add: turn_decide_def rs gs)
    moreover have "sv_x s2 = sv_x s" using AF(4) S1(4) by simp
    ultimately show ?thesis by (simp add: turn_post_def)
  qed
qed

lemma solve_turn_ok:
  assumes S: "in_search fl F A s" and rm: "room s" and cm: "calm s" and e: "sv_endTestLevel s = 0"
  shows "returns (solve_turn fl ctl (sv_assumptLevel s) (nxt, k, s)) (turn_post fl F A s)"
proof -
  have core: "core fl F s" and W: "propagated s" and as: "assumed A (sv_assumptLevel s) s"
    using S by (simp_all add: in_search_def)
  obtain x s1 where pr: "s_Prop s = Some (x, s1)" and c1: "core fl F s1" and sc: "same_call s s1" "same_gc s s1"
    and sx: "sv_x s1 = sv_x s" "sv_xLit s1 = sv_xLit s" and as1: "\<And>A L. assumed A L s \<Longrightarrow> assumed A L s1"
    and res: "if x = CNull then quiet s1 else conflicting x s1"
    using core_Prop [OF core W] by (auto simp: returns_def simp del: if_split_asm split del: if_split)
  have aL: "sv_assumptLevel s1 = sv_assumptLevel s" using sc(1) by (simp add: same_call_def)
  have as1': "assumed A (sv_assumptLevel s1) s1" using as1 [OF as] by (simp add: aL)
  have rm1: "room s1" using rm sc by (simp add: room_def same_call_def same_gc_def)
  have t1: "turned s s1" using sc sx by (simp add: turned_def same_gc_def)
  have tp: "turn_post fl F A s r" if "turn_post fl F A s1 r" for r
    by (rule turn_post_from [OF that]) (use sc sx in \<open>simp_all add: turned_def same_call_def same_gc_def\<close>)
  show ?thesis
  proof (cases "x = CNull")
    case False
    then have cf: "conflicting x s1" using res by simp
    show ?thesis
    proof (cases "tr_Level (sv_Trail s1) \<le> sv_assumptLevel s")
      case True
      let ?s = "s1\<lparr>sv_x := x\<rparr>"
      have "core fl F ?s" using c1 core_cong(4) unfolding core_def by blast
      moreover have "\<forall>\<sigma>. cnf_true \<sigma> F \<longrightarrow> (\<exists>m \<in> set A. \<not> lit_true \<sigma> m)"
        using conflict_refutes [OF c1 cf as1' ] True by (simp add: aL)
      ultimately have "answer_ok fl F A (-1) ?s" by (simp add: answer_ok_def)
      moreover have "conflicting x ?s" using cf by (simp add: conflicting_def)
      moreover have "turned s ?s" using t1 by (simp add: turned_def same_call_def)
      ultimately show ?thesis using False True by (simp add: solve_turn_def pr turn_conflict_def turn_post_def)
    next
      case lv: False
      then have lt: "sv_assumptLevel s1 < tr_Level (sv_Trail s1)" by (simp add: aL)
      obtain s' where "turn_conflict fl x (sv_assumptLevel s1) (nxt, k, s1) = Some (Go (nxt, k, s'))"
        "in_search fl F A s'" "turned s1 s'" "sv_x s' = sv_x s1"
        using turn_conflict_ok [OF c1 cf as1' rm1 lt, of nxt k] by (auto simp: returns_def)
      then show ?thesis using False tp [of "Go (nxt, k, s')"] by (simp add: solve_turn_def pr aL turn_post_def)
    qed
  next
    case True
    then have q: "quiet s1" using res by simp
    have S1: "in_search fl F A s1" using c1 q as1' by (simp add: in_search_def quiet_def)
    have cm1: "calm s1" using cm sc(2) by (simp add: calm_def same_gc_def)
    have dec: "returns (turn_decide fl (n, k', s1)) (turn_post fl F A s)" for n k'
      by (rule returns_mono [OF turn_decide_ok [OF S1 q cm1]]) (rule tp)
    have stop: "answer_ok fl F A 0 s'" if "core fl F s'" for s' using that by (simp add: answer_ok_def)
    have bk: "returns (s_Back fl (sv_endTestLevel s1) s1) (\<lambda>s'. turn_post fl F A s (Return 0 s'))"
    proof (cases "0 < tr_Level (sv_Trail s1)")
      case True
      have e1: "sv_endTestLevel s1 = 0" using sc(1) e by (simp add: same_call_def)
      show ?thesis
        unfolding e1
      proof (rule returns_mono [OF core_Back [OF c1 propagated_below [OF quietD(1) [OF q]] order_refl True]])
        fix s' assume post: "core fl F s' \<and> propagated s' \<and> back_post 0 s1 s'"
        note B = back_post_frame [OF conjunct2 [OF conjunct2 [OF post]]]
        have "turned s1 s'" using B by (simp add: turned_def same_gc_def)
        then have "turn_post fl F A s1 (Return 0 s')" using post stop B by (simp add: turn_post_def)
        then show "turn_post fl F A s (Return 0 s')" by (rule tp)
      qed
    next
      case False
      then have "Back fl (sv_endTestLevel s1) (sv_Trail s1, sv_Vars s1, sv_Guess s1) = Some (sv_Trail s1, sv_Vars s1, sv_Guess s1)"
        using sc(1) e by (simp add: Back_def same_call_def)
      moreover have "turn_post fl F A s1 (Return 0 s1)" using c1 stop quietD(1) [OF q] by (simp add: turn_post_def)
      ultimately show ?thesis by (simp add: s_Back_def tp)
    qed
    have r0: "turn_post fl F A s (Return 0 s1)"
      by (rule tp) (use c1 stop quietD(1) [OF q] in \<open>simp add: turn_post_def\<close>)
    show ?thesis
      using True dec bk r0 unfolding solve_turn_def prod.case pr
      by (auto simp: Let_def split: prod.splits)
  qed
qed

end
