(* ===== verification/SolveProps.thy ===== *)
theory SolveProps
  imports SearchTurns
begin

text \<open>
  A whole call of Solve: the preparation (resolving the previous call, assumptions, phases), the
  search loop run for a number of turns, and the answer.
\<close>

section \<open>Phases\<close>

lemma phase_clause_ok:
  assumes ok: "store_ok D P" "q \<in> P" and rng: "\<forall>m \<in> set (lits D q). unat m < N" and k: "k \<le> length (lits D q)"
    and len: "length counts = N"
  shows "returns (phase_clause D w (q + of_nat k) n counts) (\<lambda>c. length c = N)"
  using k len
proof (induction n arbitrary: k counts)
  case (Suc n)
  note get = aget_lits [OF ok Suc.prems(1)]
  show ?case
  proof (cases "k < length (lits D q)")
    case False
    then show ?thesis using get Suc.prems(2) by simp
  next
    case True
    have nn: "lits D q ! k \<noteq> LitNull" using lits_nonnull [of D q] True by (metis nth_mem)
    have v: "unat (lits D q ! k) < length counts" using rng True Suc.prems(2) by simp
    have "returns (phase_clause D w (q + of_nat (Suc k)) n
      (counts[unat (lits D q ! k) := counts ! unat (lits D q ! k) + w])) (\<lambda>c. length c = N)"
      by (rule Suc.IH) (use True Suc.prems(2) in simp_all)
    moreover have "q + of_nat (Suc k) = q + of_nat k + 1" by (simp only: of_nat_Suc ac_simps)
    moreover have "aget D (unat (q + of_nat k)) = Some (lits D q ! k)" using get True by simp
    ultimately show ?thesis using nn v by (simp add: bump_count_def del: aget_Some_iff of_nat_Suc)
  qed
qed simp

lemma phase_count_ok:
  assumes ok: "store_ok D P" "q \<in> P" and rng: "\<forall>m \<in> set (lits D q). unat m < N" and len: "length counts = N"
  shows "returns (phase_count D q counts) (\<lambda>c. length c = N)"
proof -
  have q: "0 < unat q" "unat q < length D"
    using store_okD(2,3) [OF ok(1) ok(2)] by (simp_all add: cl_end_def)
  then have "unat (q - 1) < length D"
    by (simp add: unat_minus_one word_greater_zero_iff unat_gt_0)
  then show ?thesis
    using phase_clause_ok [OF ok rng, of 0 counts] len by (simp add: phase_count_def Let_def)
qed

lemma phases_init_ok:
  assumes core: "core fl F s"
  shows "returns (phases_init (sv_Vars s) (sv_Cdb s) p (sv_Guess s)) (\<lambda>(p', g').
     gs_vhp g' = gs_vhp (sv_Guess s) \<and> guess_room fl (sv_Vars s) g')"
proof -
  obtain cls where cr: "core_at fl F cls s" using core by (auto simp: core_def)
  note C = core_atD [OF cr] and L = att_live [OF core_atD(1,2) [OF cr]]
  let ?v = "sv_Vars s" and ?g = "sv_Guess s" and ?D = "db_of s"
  define M where "M = vs_Max ?v"
  have vok: "vars_ok ?v" by (rule trail_okD(1) [OF C(11)])
  have M: "unat M < 1073741824" "unat M < unat (vs_Top ?v)"
    using vars_okD(1,2) [OF vok] by (simp_all add: M_def word_less_nat_alt)
  define N where "N = unat (2 * M + 2)"
  have N: "N = 2 * unat M + 2" using M(1) by (simp add: N_def unat_word_ariths)
  have gl: "length (gs_cache ?g) = length (gs_pos ?g)" "unat (vs_Top ?v) \<le> length (gs_pos ?g)"
    using C(7) by (simp_all add: guess_room_def heap_ok_def gs_wf_def)
  have rng: "\<forall>m \<in> set (lits ?D q). unat m < N" if q: "q \<in> set (cb_Added (sv_Cdb s))" for q
  proof
    fix m assume "m \<in> set (lits ?D q)"
    then have "lit_Var m \<le> M" using C(5) q by (auto simp: added_ok_def M_def)
    then have "unat m div 2 \<le> unat M" by (simp add: word_le_nat_alt unat_lit_Var)
    then show "unat m < N" by (simp add: N)
  qed
  have "returns (foldM (phase_count ?D) (cb_Added (sv_Cdb s)) (replicate N 0)) (\<lambda>c. length c = N)"
    by (rule returns_foldM) (use phase_count_ok [OF search_okD(1) [OF C(3)]] L(2) rng in auto)
  then obtain counts where cs: "foldM (phase_count ?D) (cb_Added (sv_Cdb s)) (replicate N 0) = Some counts" "length counts = N"
    by (auto simp: returns_def)
  let ?f = "\<lambda>i cache. do { a \<leftarrow> aget counts (unat (var_Pos (of_nat i)));
      b \<leftarrow> aget counts (unat (var_Neg (of_nat i))); aset cache i (if a > b then 1 else -1) }"
  have "returns (foldM ?f [1..<unat M + 1] (gs_cache ?g)) (\<lambda>c. length c = length (gs_pos ?g))"
  proof (rule returns_foldM)
    fix i and c :: "int list" assume i: "i \<in> set [1..<unat M + 1]" and c: "length c = length (gs_pos ?g)"
    have "i < 2 ^ 32" using i M(1) by auto
    then have b: "unat (of_nat i :: u32) = i" by (rule unat_of_nat32)
    have "unat (of_nat i :: u32) < 2 ^ 31" unfolding b using i M(1) by auto
    then have "unat (var_Pos (of_nat i)) = 2 * i" "unat (var_Neg (of_nat i)) = 2 * i + 1"
      by (simp_all only: unat_var_Pos unat_var_Neg b)
    moreover have "i \<le> unat M" using i by auto
    ultimately show "returns (?f i c) (\<lambda>c. length c = length (gs_pos ?g))"
      using c M(2) gl cs(2) by (simp add: N)
  qed (rule gl(1))
  then obtain cache where ch: "foldM ?f [1..<unat M + 1] (gs_cache ?g) = Some cache" "length cache = length (gs_pos ?g)"
    by (auto simp: returns_def)
  have "guess_room fl ?v (?g\<lparr>gs_cache := cache\<rparr>)"
    using C(7) ch(2) by (simp add: guess_room_def heap_ok_def heats_ok_def gs_wf_def ordered_def ord_at_def gs_key_def)
  then show ?thesis
    using C(7) cs(1) ch(1) by (simp add: phases_init_def M_def [symmetric] N_def [symmetric] Let_def)
qed

section \<open>Assumptions\<close>

lemma trail_lit_implied:
  assumes core: "core fl F s" and A: "assumed A L s" and sat: "cnf_true \<sigma> F" "\<forall>m \<in> set A. lit_true \<sigma> m"
    and m: "m \<in> set (trail_lits (sv_Trail s))" "lev (sv_Vars s) m \<le> L"
  shows "lit_true \<sigma> m"
proof -
  obtain cls where cr: "core_at fl F cls s" using core by (auto simp: core_def)
  note C = core_atD [OF cr] and La = att_live [OF core_atD(1,2) [OF cr]]
  have "sat_all \<sigma> (db_of s) (live cls (sv_Cdb s))" using C(4) sat(1) La(4) by (auto simp: means_def sat_all_def)
  then show ?thesis
    by (rule trail_implied [OF C(11) search_okD(4) [OF C(3)] _ _ m]) (use A sat(2) in \<open>auto simp: assumed_def\<close>)
qed

text \<open>What is known once the assumptions have been made, or found to be inconsistent.\<close>

definition assume_post :: "'h floats \<Rightarrow> lit list list \<Rightarrow> lit list \<Rightarrow> 'h solver \<Rightarrow> bool \<Rightarrow> 'h solver \<Rightarrow> bool" where
  "assume_post fl F A s bad s' \<longleftrightarrow> core fl F s'
     \<and> same_call (s\<lparr>sv_assumptLevel := sv_assumptLevel s'\<rparr>) s' \<and> same_gc s s'
     \<and> (if bad
        then (\<forall>\<sigma>. cnf_true \<sigma> F \<longrightarrow> (\<exists>m \<in> set A. \<not> lit_true \<sigma> m))
          \<and> (if sv_x s' = CNull then quiet s' else conflicting (sv_x s') s')
        else quiet s' \<and> assumed A (sv_assumptLevel s') s' \<and> sv_assumptLevel s' = tr_Level (sv_Trail s')
          \<and> sv_x s' = CNull \<and> sv_xLit s' = sv_xLit s)"

lemma assume_post_from:
  assumes "assume_post fl F A s2 b s'" and "same_call (s\<lparr>sv_assumptLevel := sv_assumptLevel s2\<rparr>) s2"
    and "same_gc s s2" and "sv_xLit s2 = sv_xLit s"
  shows "assume_post fl F A s b s'"
proof -
  have "same_call (s2\<lparr>sv_assumptLevel := sv_assumptLevel s'\<rparr>) s'" "same_gc s2 s'"
    using assms(1) unfolding assume_post_def by blast+
  then have "same_call (s\<lparr>sv_assumptLevel := sv_assumptLevel s'\<rparr>) s'" "same_gc s s'"
    using assms(2,3) by (simp_all add: same_call_def same_gc_def)
  then show ?thesis using assms(1,4) unfolding assume_post_def by (cases b) auto
qed

lemma assume_loop_ok:
  assumes core: "core fl F s" and q: "quiet s" and A: "assumed A (sv_assumptLevel s) s"
    and lv: "sv_assumptLevel s = tr_Level (sv_Trail s)" and ms: "\<forall>m \<in> set ms. in_range (sv_Vars s) m"
    and x: "sv_x s = CNull"
  shows "returns (assume_loop ms s) (\<lambda>(bad, s'). assume_post fl F (A @ ms) s bad s')"
  using assms
proof (induction ms arbitrary: s A)
  case Nil
  then show ?case by (simp add: assume_post_def same_call_def)
next
  case (Cons m ms)
  note core = Cons.prems(1) and q = Cons.prems(2) and A = Cons.prems(3) and lv = Cons.prems(4) and x = Cons.prems(6)
  note CP = core_parts [OF core]
  have rg: "in_range (sv_Vars s) m" using Cons.prems(5) by simp
  have ix: "unat m < length (vs_Vals (sv_Vars s))" using in_range_vals [OF CP(5) rg] .
  note val = trail_val [OF CP(1) rg]
  consider "val_of (sv_Vars s) m = 0" | "val_of (sv_Vars s) m = 1" | "val_of (sv_Vars s) m = -1"
    using val by (auto split: if_splits)
  then show ?case
  proof cases
    case 1
    let ?s0 = "s\<lparr>sv_assumptLevel := sv_assumptLevel s + 1\<rparr>"
    have c0: "core fl F ?s0" using core core_cong(6) unfolding core_def by blast
    have q0: "propagated ?s0" "tr_Head (sv_Trail ?s0) = tr_Tail (sv_Trail ?s0)"
      using q by (simp_all add: quiet_def propagated_def)
    have m0: "in_range (sv_Vars ?s0) m" "val_of (sv_Vars ?s0) m = 0" "guess_room fl (sv_Vars ?s0) (sv_Guess s)"
      using rg 1 CP(3) by simp_all
    have "?s0\<lparr>sv_Guess := sv_Guess s\<rparr> = ?s0" by simp
    then obtain s1 where as: "s_Assign m CNull ?s0 = Some s1" and c1: "core fl F s1" "propagated s1"
      and ap: "assign_post m CNull ?s0 s1"
      using core_decide [OF c0 q0 m0] by (auto simp: returns_def)
    note AF = assign_post_frame [OF ap]
    note AD = assignedD [OF AF(8)] and old = assigned_old [OF AF(8) core_parts(1) [OF c1(1)]]
    have lv1: "tr_Level (sv_Trail s1) = sv_assumptLevel s + 1" using AD(4) lv by simp
    have A1: "assumed (A @ [m]) (sv_assumptLevel s + 1) s1"
      unfolding assumed_def
    proof (intro conjI ballI impI)
      show "0 \<le> sv_assumptLevel s + 1" using A by (simp add: assumed_def)
      show "sv_assumptLevel s + 1 \<le> tr_Level (sv_Trail s1)" by (simp add: lv1)
      fix n assume n: "n \<in> set (trail_lits (sv_Trail s1))" "reason (sv_Vars s1) n = CNull"
      show "n \<in> set (A @ [m])"
      proof (cases "n \<in> set (trail_lits (sv_Trail s))")
        case True
        then have "reason (sv_Vars s) n = CNull" using old(1) [of n] n(2) by simp
        moreover have "lev (sv_Vars s) n \<le> sv_assumptLevel s" using lev_bounds(2) [OF CP(1) True] lv by simp
        ultimately show ?thesis using A True by (simp add: assumed_def)
      qed (use n(1) AD(1) in simp)
    next
      fix n assume "n \<in> set (A @ [m])"
      then have "n \<in> set (trail_lits (sv_Trail s1))" using A AD(1) by (auto simp: assumed_def)
      then show "n \<in> set (trail_lits (sv_Trail s1))" "lev (sv_Vars s1) n \<le> sv_assumptLevel s + 1"
        using lev_bounds(2) [OF core_parts(1) [OF c1(1)]] lv1 by auto
    qed
    obtain y s2 where pr: "s_Prop s1 = Some (y, s2)" and c2: "core fl F s2" and sc: "same_call s1 s2" "same_gc s1 s2"
      and sx: "sv_x s2 = sv_x s1" "sv_xLit s2 = sv_xLit s1" and l2: "tr_Level (sv_Trail s2) = tr_Level (sv_Trail s1)"
      and A2: "\<And>A L. assumed A L s1 \<Longrightarrow> assumed A L s2" and res: "if y = CNull then quiet s2 else conflicting y s2"
      using core_Prop [OF c1] by (auto simp: returns_def simp del: if_split_asm split del: if_split)
    have al: "sv_assumptLevel s2 = sv_assumptLevel s + 1" using sc(1) AF(2) by (simp add: same_call_def)
    have A2': "assumed (A @ [m]) (sv_assumptLevel s2) s2" using A2 [OF A1] by (simp add: al)
    have fr: "same_call (s\<lparr>sv_assumptLevel := sv_assumptLevel s2\<rparr>) s2" "same_gc s s2"
      using sc AF(2,3) by (simp_all add: same_call_def same_gc_def)
    have run: "assume_loop (m # ms) s = (if y \<noteq> CNull then Some (True, s2\<lparr>sv_x := y\<rparr>) else assume_loop ms s2)"
      using ix 1 by (simp add: val_of_def as pr)
    show ?thesis
    proof (cases "y = CNull")
      case False
      then have cf: "conflicting y s2" using res by simp
      have "\<exists>n \<in> set (A @ [m]). \<not> lit_true \<sigma> n" if "cnf_true \<sigma> F" for \<sigma>
        by (rule conflict_refutes [OF c2 cf A2' _ that]) (simp add: al l2 lv1)
      moreover have "core fl F (s2\<lparr>sv_x := y\<rparr>)" using c2 core_cong(4) unfolding core_def by blast
      moreover have "conflicting y (s2\<lparr>sv_x := y\<rparr>)" using cf by (simp add: conflicting_def)
      ultimately have "assume_post fl F (A @ m # ms) s True (s2\<lparr>sv_x := y\<rparr>)"
        using False fr by (simp add: assume_post_def same_call_def same_gc_def) blast
      then show ?thesis using run False by simp
    next
      case True
      have q2: "quiet s2" using res True by simp
      have ms2: "\<forall>m \<in> set ms. in_range (sv_Vars s2) m"
        using Cons.prems(5) fr(1) by (simp add: in_range_def same_call_def)
      have lv2: "sv_assumptLevel s2 = tr_Level (sv_Trail s2)" by (simp add: al l2 lv1)
      have x2: "sv_x s2 = CNull" using sx AF(4) x by simp
      have xl: "sv_xLit s2 = sv_xLit s" using sx AF(5) by simp
      have "returns (assume_loop ms s2) (\<lambda>(bad, s'). assume_post fl F (A @ m # ms) s bad s')"
      proof (rule returns_mono [OF Cons.IH [OF c2 q2 A2' lv2 ms2 x2]])
        fix r assume post: "case r of (bad, s') \<Rightarrow> assume_post fl F ((A @ [m]) @ ms) s2 bad s'"
        obtain b s' where r: "r = (b, s')" by (cases r)
        have "assume_post fl F ((A @ [m]) @ ms) s2 b s'" using post unfolding r by simp
        from assume_post_from [OF this fr xl] show "case r of (bad, s') \<Rightarrow> assume_post fl F (A @ m # ms) s bad s'"
          by (simp add: r)
      qed
      then show ?thesis unfolding run using True by simp
    qed
  next
    case 2
    then have mt: "m \<in> set (trail_lits (sv_Trail s))" using val by (auto split: if_splits)
    have "lev (sv_Vars s) m \<le> sv_assumptLevel s" using lev_bounds(2) [OF CP(1) mt] lv by simp
    then have A': "assumed (A @ [m]) (sv_assumptLevel s) s" using A mt by (auto simp: assumed_def)
    have "returns (assume_loop ms s) (\<lambda>(bad, s'). assume_post fl F ((A @ [m]) @ ms) s bad s')"
      using Cons.prems by (intro Cons.IH A') simp_all
    then show ?thesis using ix 2 by (simp add: val_of_def)
  next
    case 3
    then have nt: "lit_Not m \<in> set (trail_lits (sv_Trail s))" using val by (auto split: if_splits)
    have lvn: "lev (sv_Vars s) (lit_Not m) \<le> sv_assumptLevel s" using lev_bounds(2) [OF CP(1) nt] lv by simp
    have "\<exists>n \<in> set (A @ m # ms). \<not> lit_true \<sigma> n" if "cnf_true \<sigma> F" for \<sigma>
    proof (cases "\<forall>n \<in> set A. lit_true \<sigma> n")
      case True
      then show ?thesis using trail_lit_implied [OF core A that True nt lvn] by simp
    qed auto
    moreover have "core fl F (s\<lparr>sv_xLit := m\<rparr>)" using core core_cong(5) unfolding core_def by blast
    moreover have "quiet (s\<lparr>sv_xLit := m\<rparr>)" using q by (simp add: quiet_def propagated_def)
    ultimately have "assume_post fl F (A @ m # ms) s True (s\<lparr>sv_xLit := m\<rparr>)"
      using x by (simp add: assume_post_def same_call_def same_gc_def)
    then show ?thesis using ix 3 by (simp add: val_of_def)
  qed
qed

section \<open>Resolving the previous call\<close>

lemma no_assumptions:
  assumes "core fl F s"
  shows "assumed [] 0 s"
proof -
  note ok = core_parts(1) [OF assms]
  have "0 \<le> tr_Level (sv_Trail s)" using trail_okD(9) [OF ok] by simp
  then show ?thesis using decision_level [OF ok] by (fastforce simp: assumed_def)
qed

lemma conflict_level:
  assumes core: "core fl F s" and x: "conflicting x s" and sat: "\<exists>\<sigma>. cnf_true \<sigma> F"
  shows "0 < tr_Level (sv_Trail s)"
proof (rule ccontr)
  assume "\<not> 0 < tr_Level (sv_Trail s)"
  then have "tr_Level (sv_Trail s) \<le> 0" by simp
  then show False using conflict_refutes [OF core x no_assumptions [OF core]] sat by fastforce
qed

text \<open>A state between two calls, without test scopes.\<close>

definition settled :: "'h solver \<Rightarrow> bool" where
  "settled s \<longleftrightarrow> (if sv_x s = CNull then propagated s else conflicting (sv_x s) s)"

definition idle :: "'h floats \<Rightarrow> lit list list \<Rightarrow> 'h solver \<Rightarrow> bool" where
  "idle fl F s \<longleftrightarrow> core fl F s \<and> settled s \<and> sv_testLevels s = [] \<and> sv_endTestLevel s = 0"

text \<open>Room for \<open>n\<close> more clauses of maximal length, and as many conflicts before clauses are collected.\<close>

definition room_for :: "nat \<Rightarrow> 'h solver \<Rightarrow> bool" where
  "room_for n s \<longleftrightarrow> 2 * (cd_Len (cb_CDat (sv_Cdb s)) + Suc n * (unat (vs_Top (sv_Vars s)) + 2)) < 2147483648
     \<and> n < unat (gc_stopWatch (cb_gc (sv_Cdb s)))"

lemma room_for_room: "room_for n s \<Longrightarrow> room s" and room_for_calm: "room_for n s \<Longrightarrow> calm s"
  by (auto simp: room_for_def room_def calm_def Cgc_Ready_def)

lemma room_for_step:
  assumes "room_for (Suc n) s" and "vs_Top (sv_Vars s') = vs_Top (sv_Vars s)"
    and "cd_Len (cb_CDat (sv_Cdb s')) \<le> cd_Len (cb_CDat (sv_Cdb s)) + unat (vs_Top (sv_Vars s)) + 2"
    and "unat (gc_stopWatch (cb_gc (sv_Cdb s))) \<le> unat (gc_stopWatch (cb_gc (sv_Cdb s'))) + 1"
  shows "room_for n s'"
  using assms by (simp add: room_for_def)

lemma room_for_same: "room_for n s \<Longrightarrow> same_gc s s' \<Longrightarrow> vs_Top (sv_Vars s') = vs_Top (sv_Vars s) \<Longrightarrow> room_for n s'"
  by (simp add: room_for_def same_gc_def)

lemma room_for_mono:
  assumes "room_for n s" "m \<le> n"
  shows "room_for m s"
proof -
  have "Suc m * (unat (vs_Top (sv_Vars s)) + 2) \<le> Suc n * (unat (vs_Top (sv_Vars s)) + 2)"
    by (rule mult_le_mono1) (use assms(2) in simp)
  then have "2 * (cd_Len (cb_CDat (sv_Cdb s)) + Suc m * (unat (vs_Top (sv_Vars s)) + 2))
      \<le> 2 * (cd_Len (cb_CDat (sv_Cdb s)) + Suc n * (unat (vs_Top (sv_Vars s)) + 2))"
    by (intro mult_le_mono2 add_le_mono order_refl)
  then show ?thesis
    using assms unfolding room_for_def by (blast intro: order_le_less_trans)
qed

lemma below_pred: "a < b \<Longrightarrow> n + a \<le> n + b - (1 :: nat)"
  by arith

lemma cleanup_loop_ok:
  assumes core: "core fl F s" and st: "settled s" and e: "sv_endTestLevel s = 0"
    and sat: "sv_x s = CNull \<or> (\<exists>\<sigma>. cnf_true \<sigma> F)" and rm: "room_for (n + nat (tr_Level (sv_Trail s))) s"
  shows "returns (cleanup_loop fl s) (\<lambda>(p, s'). p = CNull \<and> core fl F s' \<and> propagated s' \<and> sv_x s' = CNull
     \<and> sv_xLit s' = sv_xLit s \<and> same_call s s' \<and> room_for n s')"
  using assms
proof (induction "nat (tr_Level (sv_Trail s))" arbitrary: s rule: less_induct)
  case less
  note core = less.prems(1) and st = less.prems(2) and e = less.prems(3) and sat = less.prems(4) and rm = less.prems(5)
  show ?case
  proof (cases "sv_x s = CNull")
    case True
    then show ?thesis
      using core st room_for_mono [OF rm] by (subst cleanup_loop.simps) (simp add: settled_def)
  next
    case False
    then have x: "conflicting (sv_x s) s" using st by (simp add: settled_def)
    have sat': "\<exists>\<sigma>. cnf_true \<sigma> F" using sat False by blast
    have lv: "0 < tr_Level (sv_Trail s)" by (rule conflict_level [OF core x sat'])
    obtain d s1 cls where der: "s_Derive fl (sv_x s) s = Some (d, s1)" and b1: "below s1" and cr1: "core_at fl F cls s1"
      and ln: "learnt cls d s s1"
      using core_learn [OF core x lv room_for_room [OF rm]] by (auto simp: returns_def)
    have tg: "0 \<le> de_TargetLevel d" "de_TargetLevel d < tr_Level (sv_Trail s)" using ln by (simp_all add: learnt_def)
    have e1: "sv_endTestLevel s1 = 0" using ln e by (simp add: learnt_def same_call_def)
    obtain s2 s3 where run: "s_Back fl (de_TargetLevel d) s1 = Some s2" "s_Assign (de_Unit d) (de_P d) s2 = Some s3"
      and c3: "core fl F s3" "propagated s3" and as: "asserted (de_TargetLevel d) s s3"
      using core_assert [OF cr1 b1 ln order_refl tg(2)] by (auto simp: returns_def bind_eq_Some_conv)
    obtain y s4 where pr: "s_Prop s3 = Some (y, s4)" and c4: "core fl F s4" and sc: "same_call s3 s4" "same_gc s3 s4"
      and sx: "sv_xLit s4 = sv_xLit s3" and l4: "tr_Level (sv_Trail s4) = tr_Level (sv_Trail s3)"
      and res: "if y = CNull then quiet s4 else conflicting y s4"
      using core_Prop [OF c3] by (auto simp: returns_def simp del: if_split_asm split del: if_split)
    let ?s = "s4\<lparr>sv_x := y\<rparr>"
    have cs: "core fl F ?s" using c4 core_cong(4) unfolding core_def by blast
    have st': "settled ?s" using res by (auto simp: settled_def quiet_def propagated_def conflicting_def split: if_splits)
    have call: "same_call s ?s" using as sc(1) by (simp add: asserted_def same_call_def)
    have lv': "tr_Level (sv_Trail ?s) = de_TargetLevel d" using as l4 by (simp add: asserted_def)
    then have lt: "nat (tr_Level (sv_Trail ?s)) < nat (tr_Level (sv_Trail s))" using tg lv by simp
    have "n + nat (tr_Level (sv_Trail s)) = Suc (n + nat (tr_Level (sv_Trail s)) - 1)" using lv by simp
    with rm have rmS: "room_for (Suc (n + nat (tr_Level (sv_Trail s)) - 1)) s" by metis
    have len: "cd_Len (cb_CDat (sv_Cdb s3)) \<le> cd_Len (cb_CDat (sv_Cdb s)) + unat (vs_Top (sv_Vars s)) + 2"
      and gc: "cb_gc (sv_Cdb s3) = Cgc_Tick (cb_gc (sv_Cdb s))"
      using as unfolding asserted_def by blast+
    have cd4: "cd_Len (cb_CDat (sv_Cdb ?s)) = cd_Len (cb_CDat (sv_Cdb s3))" "cb_gc (sv_Cdb ?s) = cb_gc (sv_Cdb s3)"
      using sc by (simp_all add: same_gc_def)
    have "room_for (n + nat (tr_Level (sv_Trail s)) - 1) ?s"
    proof (rule room_for_step [OF rmS])
      show "vs_Top (sv_Vars ?s) = vs_Top (sv_Vars s)" using call unfolding same_call_def by blast
      show "cd_Len (cb_CDat (sv_Cdb ?s)) \<le> cd_Len (cb_CDat (sv_Cdb s)) + unat (vs_Top (sv_Vars s)) + 2"
        using len unfolding cd4 .
      show "unat (gc_stopWatch (cb_gc (sv_Cdb s))) \<le> unat (gc_stopWatch (cb_gc (sv_Cdb ?s))) + 1"
        unfolding cd4 gc by (rule Tick_stopWatch)
    qed
    then have rm': "room_for (n + nat (tr_Level (sv_Trail ?s))) ?s"
      by (rule room_for_mono) (rule below_pred [OF lt])
    have "returns (cleanup_loop fl ?s) (\<lambda>(p, s'). p = CNull \<and> core fl F s' \<and> propagated s' \<and> sv_x s' = CNull
       \<and> sv_xLit s' = sv_xLit ?s \<and> same_call ?s s' \<and> room_for n s')"
    proof (rule less.hyps [OF lt cs st' _ _ rm'])
      show "sv_endTestLevel ?s = 0" using call e unfolding same_call_def by metis
      show "sv_x ?s = CNull \<or> (\<exists>\<sigma>. cnf_true \<sigma> F)" using sat' by blast
    qed
    moreover have "cleanup_loop fl s = cleanup_loop fl ?s"
      using False tg core_parts(7) [OF core] e1 e
      by (subst cleanup_loop.simps) (simp add: der run pr)
    moreover have "sv_xLit ?s = sv_xLit s" using as sx by (simp add: asserted_def)
    ultimately show ?thesis
      using call by (auto elim!: returns_mono intro: same_call_trans)
  qed
qed

end
