(* ===== verification/SolveCall.thy ===== *)
theory SolveCall
  imports SolveProps
begin

text \<open>
  A call of Solve from its preparation to its answer: what the preparation leaves, the search
  loop run for a number of turns, and how the two answers relate to the formula.
\<close>

section \<open>Preparation\<close>

lemma cleanupSolve_ok:
  assumes I: "idle fl F s" and sat: "sv_x s = CNull \<or> (\<exists>\<sigma>. cnf_true \<sigma> F)"
    and rm: "room_for (n + nat (tr_Level (sv_Trail s))) s"
  shows "returns (cleanupSolve fl s) (\<lambda>(p, s'). p = CNull \<and> core fl F s' \<and> propagated s' \<and> sv_x s' = CNull
     \<and> sv_xLit s' = LitNull \<and> tr_Level (sv_Trail s') = 0 \<and> same_call s s' \<and> room_for n s')"
proof -
  have core: "core fl F s" and st: "settled s" and e: "sv_endTestLevel s = 0" using I by (simp_all add: idle_def)
  obtain s1 where run: "cleanup_loop fl s = Some (CNull, s1)" and c1: "core fl F s1" "propagated s1" "sv_x s1 = CNull"
    and sc: "same_call s s1" and rm1: "room_for n s1"
    using cleanup_loop_ok [OF core st e sat rm] by (auto simp: returns_def)
  have e1: "sv_endTestLevel s1 = 0" using sc e by (simp add: same_call_def)
  let ?f = "\<lambda>s. s\<lparr>sv_xLit := LitNull, sv_failed := []\<rparr>"
  obtain s2 where bk: "s_Back fl 0 s1 = Some s2" and c2: "core fl F s2" "propagated s2" "sv_x s2 = CNull"
    "tr_Level (sv_Trail s2) = 0" "same_call s1 s2" "same_gc s1 s2"
  proof (cases "0 < tr_Level (sv_Trail s1)")
    case True
    obtain s' where r: "s_Back fl 0 s1 = Some s'" "core fl F s'" "propagated s'" and b: "back_post 0 s1 s'"
      using core_Back [OF c1(1) propagated_below [OF c1(2)] order_refl True] by (auto simp: returns_def)
    have "tr_Level (sv_Trail s') = 0" using b by (simp add: back_post_def)
    moreover have "sv_x s' = CNull" using back_post_frame(4) [OF b] c1(3) by simp
    ultimately show ?thesis using that [OF r] back_post_frame(2,3) [OF b] by blast
  next
    case False
    have "0 \<le> tr_Level (sv_Trail s1)" using trail_okD(9) [OF core_parts(1) [OF c1(1)]] by simp
    then have "tr_Level (sv_Trail s1) = 0" using False by simp
    moreover from this have "s_Back fl 0 s1 = Some s1" by (simp add: s_Back_def Back_def)
    ultimately show ?thesis using that c1 by simp
  qed
  have "core fl F (?f s2)"
    using c2(1) core_cong(5) core_cong(8) unfolding core_def by blast
  moreover have "propagated (?f s2)" using c2(2) by (simp add: propagated_def)
  moreover have "same_call s (?f s2)" using same_call_trans [OF sc c2(5)] by (simp add: same_call_def)
  moreover have "room_for n (?f s2)"
    by (rule room_for_same [OF rm1]) (use c2(5,6) in \<open>simp_all add: same_gc_def same_call_def\<close>)
  ultimately show ?thesis using c2(3,4) by (simp add: cleanupSolve_def run e1 bk)
qed

lemma makeAssumptions_ok:
  assumes core: "core fl F s" and pr: "propagated s" and lv: "tr_Level (sv_Trail s) = 0" and x: "sv_x s = CNull"
    and ms: "\<forall>m \<in> set (sv_assumes s). in_range (sv_Vars s) m"
  shows "returns (makeAssumptions s) (\<lambda>(r, s'). (r = 0 \<or> r = -1) \<and> sv_assumes s' = []
     \<and> assume_post fl F (sv_assumes s) s (r = -1) (s'\<lparr>sv_assumes := sv_assumes s\<rparr>))"
proof -
  let ?s0 = "s\<lparr>sv_assumptLevel := 0\<rparr>"
  have c0: "core fl F ?s0" using core core_cong(6) unfolding core_def by blast
  have p0: "propagated ?s0" using pr by (simp add: propagated_def)
  obtain y s1 where run: "s_Prop ?s0 = Some (y, s1)" and c1: "core fl F s1" and sc: "same_call ?s0 s1" "same_gc ?s0 s1"
      and sx: "sv_x s1 = sv_x ?s0" "sv_xLit s1 = sv_xLit ?s0" and l1: "tr_Level (sv_Trail s1) = tr_Level (sv_Trail ?s0)"
      and res: "if y = CNull then quiet s1 else conflicting y s1"
    using core_Prop [OF c0 p0] by (auto simp: returns_def simp del: if_split_asm split del: if_split)
  have bot: "cb_Bot (sv_Cdb s) = CNull" using core_parts(7) [OF core] .
  have aL: "sv_assumptLevel s1 = 0" and as: "sv_assumes s1 = sv_assumes s" using sc(1) by (simp_all add: same_call_def)
  have N: "assumed [] (sv_assumptLevel s1) s1" using no_assumptions [OF c1] by (simp add: aL)
  have fr: "same_call (s\<lparr>sv_assumptLevel := sv_assumptLevel s1\<rparr>) s1" "same_gc s s1"
    using sc by (simp_all add: same_call_def same_gc_def)
  show ?thesis
  proof (cases "y = CNull")
    case False
    then have cf: "conflicting y s1" using res by simp
    let ?s = "s1\<lparr>sv_x := y\<rparr>"
    have bad: "\<not> cnf_true \<sigma> F" for \<sigma> using conflict_refutes [OF c1 cf N, of \<sigma>] l1 lv aL by auto
    have "core fl F ?s" using c1 core_cong(4) unfolding core_def by blast
    moreover have "conflicting y ?s" using cf by (simp add: conflicting_def)
    ultimately have "assume_post fl F (sv_assumes s) s True ?s"
      using bad fr False by (simp add: assume_post_def same_call_def same_gc_def)
    moreover have "?s\<lparr>sv_assumes := sv_assumes s\<rparr> = ?s" using as by simp
    ultimately show ?thesis using False bot run lv by (simp add: makeAssumptions_def Let_def)
  next
    case True
    then have q: "quiet s1" using res by simp
    have ms1: "\<forall>m \<in> set (sv_assumes s). in_range (sv_Vars s1) m"
      using ms sc(1) by (simp add: in_range_def same_call_def)
    have x1: "sv_x s1 = CNull" using sx x by simp
    have lv1: "sv_assumptLevel s1 = tr_Level (sv_Trail s1)" using aL l1 lv by simp
    obtain b s2 where lp: "assume_loop (sv_assumes s) s1 = Some (b, s2)" and post: "assume_post fl F ([] @ sv_assumes s) s1 b s2"
      using assume_loop_ok [OF c1 q N lv1 ms1 x1] by (auto simp: returns_def)
    have xl: "sv_xLit s1 = sv_xLit s" using sx by simp
    have post': "assume_post fl F (sv_assumes s) s b s2"
      using assume_post_from [OF post fr xl] by simp
    then have "sv_assumes s2 = sv_assumes s" by (simp add: assume_post_def same_call_def)
    then have "s2\<lparr>sv_assumes := sv_assumes s\<rparr> = s2" by simp
    then show ?thesis using True bot run lv lp post' by (cases b) (simp_all add: makeAssumptions_def Let_def)
  qed
qed

lemma first_restart_value: "\<exists>l r. first_restart NewLuby = Some (l, r)"
proof -
  note step = first_restart.simps RestartFactor_def RestartAfter_def luby_Next_def Let_def
  show ?thesis
    by (subst step(1), simp add: step(2-) NewLuby_def, subst step(1), simp add: step(2-),
        subst step(1), simp add: step(2-))
qed

lemma solveInit_ok:
  assumes I: "idle fl F s" and sat: "sv_x s = CNull \<or> (\<exists>\<sigma>. cnf_true \<sigma> F)"
    and rm: "room_for (n + nat (tr_Level (sv_Trail s))) s" and ms: "\<forall>m \<in> set (sv_assumes s). in_range (sv_Vars s) m"
  shows "returns (solveInit fl s) (\<lambda>(r, s'). sv_assumes s' = [] \<and> sv_testLevels s' = [] \<and> sv_endTestLevel s' = 0
     \<and> vs_Max (sv_Vars s') = vs_Max (sv_Vars s)
     \<and> room_for n s' \<and> (if r = 0 then in_search fl F (sv_assumes s) s' \<and> sv_x s' = CNull \<and> sv_xLit s' = LitNull
        else answer_ok fl F (sv_assumes s) r s' \<and> settled s' \<and> r = -1))"
proof -
  obtain l r where fr: "first_restart NewLuby = Some (l, r)" using first_restart_value by blast
  let ?s0 = "s\<lparr>sv_luby := l, sv_restartStopwatch := int (unat r)\<rparr>"
  have core0: "core fl F ?s0" using I core_cong(2) unfolding core_def idle_def by blast
  have st0: "settled ?s0"
    using I by (cases "sv_x s = CNull") (simp_all add: idle_def settled_def propagated_def conflicting_def)
  have I0: "idle fl F ?s0" using core0 st0 I by (simp add: idle_def)
  have sat0: "sv_x ?s0 = CNull \<or> (\<exists>\<sigma>. cnf_true \<sigma> F)" using sat by simp
  have rm0: "room_for (n + nat (tr_Level (sv_Trail ?s0))) ?s0" using rm by (simp add: room_for_def)
  obtain s1 where cl: "cleanupSolve fl ?s0 = Some (CNull, s1)" and c1: "core fl F s1" "propagated s1" "tr_Level (sv_Trail s1) = 0" "sv_x s1 = CNull"
      and xl1: "sv_xLit s1 = LitNull" and sc1: "same_call ?s0 s1" and rm1: "room_for n s1"
    using cleanupSolve_ok [OF I0 sat0 rm0] by (auto simp: returns_def)
  have as1: "sv_assumes s1 = sv_assumes s" "sv_testLevels s1 = []" "sv_endTestLevel s1 = 0"
    using sc1 I by (simp_all add: same_call_def idle_def)
  have ms1: "\<forall>m \<in> set (sv_assumes s1). in_range (sv_Vars s1) m"
    using ms sc1 as1(1) by (simp add: same_call_def in_range_def)
  obtain a s2 where mk: "makeAssumptions s1 = Some (a, s2)" and a: "a = 0 \<or> a = -1" and as2: "sv_assumes s2 = []"
      and post: "assume_post fl F (sv_assumes s) s1 (a = -1) (s2\<lparr>sv_assumes := sv_assumes s\<rparr>)"
    using makeAssumptions_ok [OF c1 ms1] as1(1) by (auto simp: returns_def)
  let ?s2 = "s2\<lparr>sv_assumes := sv_assumes s\<rparr>"
  have c2: "core fl F s2"
  proof -
    have "core fl F (?s2\<lparr>sv_assumes := []\<rparr>)" using post core_cong(7) unfolding core_def assume_post_def by blast
    moreover have "?s2\<lparr>sv_assumes := []\<rparr> = s2" using as2 by simp
    ultimately show ?thesis by simp
  qed
  have tl2: "sv_testLevels s2 = []" "sv_endTestLevel s2 = 0" using post as1 by (simp_all add: assume_post_def same_call_def)
  have mx2: "vs_Max (sv_Vars s2) = vs_Max (sv_Vars s)"
    using post sc1 by (simp add: assume_post_def same_call_def)
  have rm2: "room_for n s2"
    by (rule room_for_same [OF rm1]) (use post in \<open>simp_all add: assume_post_def same_gc_def same_call_def\<close>)
  show ?thesis
  proof (cases "a = -1")
    case True
    have "settled s2" using post True
      by (auto simp: assume_post_def settled_def quiet_def propagated_def conflicting_def split: if_splits)
    moreover have "answer_ok fl F (sv_assumes s) (-1) s2"
      using c2 post True by (simp add: answer_ok_def assume_post_def)
    ultimately show ?thesis using fr cl mk True as2 tl2 rm2 mx2 by (simp add: solveInit_def)
  next
    case False
    then have a0: "a = 0" using a by simp
    obtain p' g' where ph: "phases_init (sv_Vars s2) (sv_Cdb s2) (sv_phases s2) (sv_Guess s2) = Some (p', g')"
      and g': "gs_vhp g' = gs_vhp (sv_Guess s2)" "guess_room fl (sv_Vars s2) g'"
      using phases_init_ok [OF c2, of "sv_phases s2"] by (auto simp: returns_def)
    let ?s3 = "s2\<lparr>sv_phases := p', sv_Guess := g'\<rparr>"
    have "core fl F ?s3"
    proof -
      obtain cls where cr: "core_at fl F cls s2" using c2 by (auto simp: core_def)
      have "heap_full (sv_Vars s2) g'" using core_atD(8) [OF cr] by (simp add: heap_full_def g'(1))
      then have "core_at fl F cls ?s3" using cr g'(2) by (simp add: core_at_def)
      then show ?thesis by (auto simp: core_def)
    qed
    moreover have "quiet ?s2" "assumed (sv_assumes s) (sv_assumptLevel ?s2) ?s2" "sv_x ?s2 = CNull" "sv_xLit ?s2 = sv_xLit s1"
      using post unfolding assume_post_def if_not_P [OF False] by blast+
    then have "propagated ?s3" "assumed (sv_assumes s) (sv_assumptLevel ?s3) ?s3" "sv_x ?s3 = CNull" "sv_xLit ?s3 = LitNull"
      by (simp_all add: xl1 quiet_def propagated_def assumed_def)
    moreover have "room_for n ?s3" using rm2 by (simp add: room_for_def)
    ultimately show ?thesis
      using fr cl mk a0 as2 tl2 ph mx2 by (simp add: solveInit_def in_search_def)
  qed
qed

section \<open>The search loop, turn by turn\<close>

fun solve_turns ::
    "'h floats \<Rightarrow> (nat \<Rightarrow> bool \<times> bool) \<Rightarrow> int \<Rightarrow> nat \<Rightarrow> 'h search \<Rightarrow> 'h turn option" where
  "solve_turns fl ctl aLevel 0 st = Some (Go st)"
| "solve_turns fl ctl aLevel (Suc n) st =
     do { r \<leftarrow> solve_turn fl ctl aLevel st;
          case r of Go st' \<Rightarrow> solve_turns fl ctl aLevel n st' | Return a s \<Rightarrow> Some (Return a s) }"

lemma solve_turns_Return:
  "solve_turns fl ctl aLevel n st = Some (Return a s) \<Longrightarrow> solve_loop fl ctl aLevel st = Some (a, s)"
proof (induction n arbitrary: st)
  case (Suc n)
  obtain r where r: "solve_turn fl ctl aLevel st = Some r"
    and run: "(case r of Go st' \<Rightarrow> solve_turns fl ctl aLevel n st' | Return a s \<Rightarrow> Some (Return a s)) = Some (Return a s)"
    using Suc.prems by (auto simp: bind_eq_Some_conv)
  show ?case
    using run Suc.IH by (subst solve_loop.simps) (cases r, simp_all add: r)
qed simp

lemma solve_loop_Return:
  assumes "solve_loop fl ctl aLevel st = Some r"
  shows "\<exists>n. solve_turns fl ctl aLevel n st = Some (Return (fst r) (snd r))"
  using assms
proof (induction rule: solve_loop.raw_induct [rotated, consumes 1])
  case (1 loop fl ctl aLevel st r)
  then obtain t where t: "solve_turn fl ctl aLevel st = Some t"
    and r: "(case t of Go st' \<Rightarrow> loop fl ctl aLevel st' | Return res s \<Rightarrow> Some (res, s)) = Some r"
    by (auto simp: bind_eq_Some_conv)
  show ?case
  proof (cases t)
    case (Go st')
    then obtain n where "solve_turns fl ctl aLevel n st' = Some (Return (fst r) (snd r))" using 1(1) r by fastforce
    then have "solve_turns fl ctl aLevel (Suc n) st = Some (Return (fst r) (snd r))" using t Go by simp
    then show ?thesis by blast
  next
    case (Return a s)
    then have "solve_turns fl ctl aLevel (Suc 0) st = Some (Return (fst r) (snd r))" using t r by auto
    then show ?thesis by blast
  qed
qed

definition search_post :: "'h floats \<Rightarrow> lit list list \<Rightarrow> lit list \<Rightarrow> 'h solver \<Rightarrow> 'h turn \<Rightarrow> bool" where
  "search_post fl F A s r \<longleftrightarrow> (case r of
     Go st' \<Rightarrow> in_search fl F A (snd (snd st'))
   | Return a s' \<Rightarrow> answer_ok fl F A a s' \<and> same_call s s' \<and> settled s')"

lemma conflicting_loc:
  assumes "core fl F s" and "conflicting x s"
  shows "x \<noteq> CNull"
proof -
  obtain cls where cr: "core_at fl F cls s" using assms(1) by (auto simp: core_def)
  have "x \<in> live cls (sv_Cdb s)"
    using assms(2) att_live(1) [OF core_atD(1,2) [OF cr]] by (auto simp: conflicting_def)
  then have "0 < unat x" by (rule store_okD(2) [OF search_okD(1) [OF core_atD(3) [OF cr]]])
  then show ?thesis by (auto simp: CNull_def)
qed

lemma turned_room_for: "room_for (Suc n) s \<Longrightarrow> turned s s' \<Longrightarrow> room_for n s'"
  by (rule room_for_step) (auto simp: turned_def same_call_def)

lemma solve_turns_ok:
  assumes "in_search fl F A s" and "room_for n s" and "sv_endTestLevel s = 0" and "sv_x s = CNull"
  shows "returns (solve_turns fl ctl (sv_assumptLevel s) n (nxt, k, s)) (search_post fl F A s)"
  using assms
proof (induction n arbitrary: s nxt k)
  case 0
  then show ?case by (simp add: search_post_def)
next
  case (Suc n)
  obtain r where run: "solve_turn fl ctl (sv_assumptLevel s) (nxt, k, s) = Some r" and post: "turn_post fl F A s r"
    using solve_turn_ok [OF Suc.prems(1) room_for_room [OF Suc.prems(2)] room_for_calm [OF Suc.prems(2)] Suc.prems(3), of ctl nxt k]
    by (auto simp: returns_def)
  show ?case
  proof (cases r)
    case (Return a s')
    have ans: "answer_ok fl F A a s'" and st: "if a = -1 then conflicting (sv_x s') s' else sv_x s' = sv_x s \<and> propagated s'"
      using post Return by (simp_all add: turn_post_def)
    have "settled s'"
    proof (cases "a = -1")
      case True
      then have "conflicting (sv_x s') s'" using st by simp
      moreover from this have "sv_x s' \<noteq> CNull" using conflicting_loc ans by (auto simp: answer_ok_def)
      ultimately show ?thesis by (simp add: settled_def)
    qed (use st Suc.prems(4) in \<open>simp add: settled_def\<close>)
    then show ?thesis using Return post run by (simp add: search_post_def turn_post_def turned_def)
  next
    case (Go st')
    obtain nxt' k' s1 where st': "st' = (nxt', k', s1)" by (cases st')
    have S1: "in_search fl F A s1" "turned s s1" "sv_x s1 = CNull" using post Go Suc.prems(4) by (simp_all add: turn_post_def st')
    have sc: "same_call s s1" using S1(2) by (simp add: turned_def)
    have "returns (solve_turns fl ctl (sv_assumptLevel s1) n (nxt', k', s1)) (search_post fl F A s1)"
      by (rule Suc.IH [OF S1(1) turned_room_for [OF Suc.prems(2) S1(2)] _ S1(3)])
        (use sc Suc.prems(3) in \<open>simp add: same_call_def\<close>)
    then have "returns (solve_turns fl ctl (sv_assumptLevel s) n (nxt', k', s1)) (search_post fl F A s)"
      using sc same_call_trans [OF sc]
      by (auto simp: same_call_def search_post_def elim!: returns_mono split: turn.splits)
    then show ?thesis using run Go st' by simp
  qed
qed

section \<open>A call of Solve\<close>

text \<open>The solver as the search starts: the heuristic has been told of the restart.\<close>

definition search_start :: "'h floats \<Rightarrow> 'h solver \<Rightarrow> 'h search" where
  "search_start fl s = (tr_Props (sv_Trail s) + PropTick, 0,
     s\<lparr>sv_Guess := Guess_nextRestart fl (sv_restartStopwatch s) (sv_Guess s)\<rparr>)"

lemma answered_idle:
  assumes "answer_ok fl F A r s" and "settled s" and "sv_testLevels s = []" and "sv_endTestLevel s = 0"
  shows "answer_ok fl F A r (s\<lparr>sv_assumptLevel := 0, sv_assumes := []\<rparr>)"
    and "idle fl F (s\<lparr>sv_assumptLevel := 0, sv_assumes := []\<rparr>)"
proof -
  have c: "core fl F (s\<lparr>sv_assumptLevel := 0, sv_assumes := []\<rparr>)"
    using assms(1) core_cong(6,7) unfolding core_def answer_ok_def by blast
  then show "answer_ok fl F A r (s\<lparr>sv_assumptLevel := 0, sv_assumes := []\<rparr>)"
    using assms(1) by (simp add: answer_ok_def)
  have "settled (s\<lparr>sv_assumptLevel := 0, sv_assumes := []\<rparr>)"
    using assms(2) by (cases "sv_x s = CNull") (simp_all add: settled_def propagated_def conflicting_def)
  then show "idle fl F (s\<lparr>sv_assumptLevel := 0, sv_assumes := []\<rparr>)" using c assms(3,4) by (simp add: idle_def)
qed

text \<open>Either the call returns, with the right answer, or its search is still going after \<open>n\<close> turns.\<close>

lemma Solve_turns:
  assumes I: "idle fl F s" and sat: "sv_x s = CNull \<or> (\<exists>\<sigma>. cnf_true \<sigma> F)"
    and rm: "room_for (n + nat (tr_Level (sv_Trail s))) s" and ms: "\<forall>m \<in> set (sv_assumes s). in_range (sv_Vars s) m"
  obtains r s' where "S_Solve fl ctl s = Some (r, s')" and "answer_ok fl F (sv_assumes s) r s'" and "idle fl F s'"
      and "vs_Max (sv_Vars s') = vs_Max (sv_Vars s)"
  | s1 st where "solveInit fl s = Some (0, s1)"
      and "solve_turns fl ctl (sv_assumptLevel s1) n (search_start fl s1) = Some (Go st)"
proof -
  obtain r s1 where init: "solveInit fl s = Some (r, s1)" and tl: "sv_testLevels s1 = []" "sv_endTestLevel s1 = 0"
    and rm1: "room_for n s1" and mx1: "vs_Max (sv_Vars s1) = vs_Max (sv_Vars s)"
    and res: "if r = 0 then in_search fl F (sv_assumes s) s1 \<and> sv_x s1 = CNull \<and> sv_xLit s1 = LitNull
        else answer_ok fl F (sv_assumes s) r s1 \<and> settled s1 \<and> r = -1"
    using solveInit_ok [OF I sat rm ms] by (auto simp: returns_def simp del: if_split_asm split del: if_split)
  show ?thesis
  proof (cases "r = 0")
    case False
    then show ?thesis
      using answered_idle [of fl F "sv_assumes s" r s1] res tl init mx1 that(1) by (simp add: S_Solve_def)
  next
    case True
    let ?s2 = "s1\<lparr>sv_Guess := Guess_nextRestart fl (sv_restartStopwatch s1) (sv_Guess s1)\<rparr>"
    have S1: "in_search fl F (sv_assumes s) s1" "sv_x s1 = CNull" using res True by simp_all
    have "core fl F ?s2" using S1(1) core_cong(3) unfolding core_def in_search_def by blast
    then have S2: "in_search fl F (sv_assumes s) ?s2"
      using S1(1) by (simp add: in_search_def propagated_def assumed_def)
    have rm2: "room_for n ?s2" using rm1 by (simp add: room_for_def)
    obtain t where t: "solve_turns fl ctl (sv_assumptLevel s1) n (search_start fl s1) = Some t"
      and post: "search_post fl F (sv_assumes s) ?s2 t"
      using solve_turns_ok [OF S2 rm2, of ctl "tr_Props (sv_Trail s1) + PropTick" 0] tl(2) S1(2)
      by (auto simp: returns_def search_start_def)
    show ?thesis
    proof (cases t)
      case (Go st)
      then show ?thesis using that(2) init True t by simp
    next
      case (Return a s')
      have "answer_ok fl F (sv_assumes s) a s'" "settled s'" "same_call ?s2 s'"
        using post Return by (simp_all add: search_post_def)
      moreover from this have "sv_testLevels s' = []" "sv_endTestLevel s' = 0" using tl by (simp_all add: same_call_def)
      moreover have "vs_Max (sv_Vars (s'\<lparr>sv_assumptLevel := 0, sv_assumes := []\<rparr>)) = vs_Max (sv_Vars s)"
        using calculation(3) mx1 by (simp add: same_call_def)
      moreover have "S_Solve fl ctl s = Some (a, s'\<lparr>sv_assumptLevel := 0, sv_assumes := []\<rparr>)"
        using solve_turns_Return [OF t [unfolded Return]] init True by (simp add: S_Solve_def search_start_def)
      ultimately show ?thesis using answered_idle that(1) by blast
    qed
  qed
qed

end
