(* ===== verification/SolveNew.thy ===== *)
theory SolveNew
  imports SolveCall
begin

text \<open>
  The solver as it is made, ready for a first call.
\<close>

text \<open>A concrete instance of the arithmetic, for evaluation.\<close>

definition int_floats :: "int floats" where
  "int_floats = \<lparr>fl_le = (\<le>), fl_lt = (<), fl_add = (+), fl_sub = (-), fl_mul = (*), fl_div = (div),
    fl_exp = id, fl_ofint = id, fl_inc = 1, fl_gBumpInc = 1, fl_gBumpDecay = 1, fl_gBumpLim = 1000000,
    fl_gDecayMin = 1, fl_gDecayMax = 1, fl_gDecayMaxMax = 1, fl_gDecayMaxDecay = 1\<rparr>"

section \<open>A new solver\<close>

lemma NewGuessCdb_empty:
  assumes vok: "vars_ok v" and mx: "vs_Max v = 0" and c: "cb_Added c = []" "cb_Learnts c = []"
  shows "returns (NewGuessCdb fl v c) (\<lambda>g. guess_room fl v g \<and> gs_vhp g = [])"
proof -
  define g where "g = (newGuess fl (unat (vs_Top v)))\<lparr>gs_vhp := map of_nat [1..<0 + 1],
    gs_pos := map (\<lambda>i. if 1 \<le> i \<and> i \<le> 0 then int i - 1 else -1) [0..<unat (vs_Top v) + 1]\<rparr>"
  have g: "gs_vhp g = []" "length (gs_pos g) = unat (vs_Top v) + 1" by (simp_all add: g_def)
  have wf: "gs_wf g"
    using vars_okD(2) [OF vok] by (simp add: g_def gs_wf_def newGuess_def Let_def del: upt_Suc replicate_Suc)
  have lim: "gs_bumpLim g = fl_gBumpLim fl" by (simp add: g_def newGuess_def Let_def)
  have "returns (hp_heapify fl (g\<lparr>gs_heat := gs_heat g\<rparr>)) (\<lambda>g'. guess_room fl v g' \<and> gs_vhp g' = [])"
    using hp_heapify_spec [OF wf lim] by (auto simp: guess_room_def same_but_order_def g elim!: returns_mono)
  moreover have "NewGuessCdb fl v c = hp_heapify fl (g\<lparr>gs_heat := gs_heat g\<rparr>)"
    using mx c by (simp add: NewGuessCdb_def g_def Let_def Cdb_Forall_def Cdb_ForallAdded_def Cdb_ForallLearnts_def)
  ultimately show ?thesis by simp
qed

lemma NewSVc_spec:
  assumes n: "n < 2 ^ 29" and m: "m < 2 ^ 28"
  shows "returns (NewSVc fl n m) (\<lambda>s. idle fl [] s \<and> sv_x s = CNull \<and> sv_assumes s = [] \<and> tr_Level (sv_Trail s) = 0
     \<and> sv_Vars s = NewVars_xo n \<and> cd_Len (cb_CDat (sv_Cdb s)) = 0 \<and> gc_stopWatch (cb_gc (sv_Cdb s)) = 2048
     \<and> cb_AddLits (sv_Cdb s) = [] \<and> cb_AddVals (sv_Cdb s) = replicate (unat (vs_Top (sv_Vars s))) 0)"
proof -
  define v where "v = NewVars_xo n"
  define c where "c = NewCdb v m"
  note nv = NewVars_clean [OF n, folded v_def]
  have mx: "vs_Max v = 0" by (simp add: v_def NewVars_xo_def Let_def)
  have add: "cb_AddLits c = []" "cb_AddVals c = replicate (unat (vs_Top v)) 0" by (simp_all add: c_def NewCdb_def Let_def)
  have c0: "cb_Added c = []" "cb_Learnts c = []" "cb_Bot c = CNull" "cb_gc c = NewCgc"
    "cb_CDat c = NewCDat ((if m < 3 then 3 else m) * 5)"
    by (simp_all add: c_def NewCdb_def Let_def)
  have gc: "gc_rmq NewCgc = []" "gc_stopWatch NewCgc = 2048"
    by (simp_all add: NewCgc_def NewLuby_def luby_Next_def Let_def)
  have "nat (m * 5) < 2147483648" using m by (simp add: nat_less_iff)
  then have rep: "cdat_rep [] (cb_CDat c)" by (simp add: c0(5) cdat_rep_def NewCDat_def Let_def)
  have locs0: "locs [] = {}" by (simp add: locs_def)
  obtain g where run: "NewGuessCdb fl v c = Some g" and g: "guess_room fl v g" "gs_vhp g = []"
    using NewGuessCdb_empty [OF nv(1) mx c0(1,2)] by (auto simp: returns_def)
  define s where "s = \<lparr>sv_Vars = v, sv_Cdb = c, sv_Trail = NewTrail v, sv_Guess = g,
                sv_Driver = NewDeriver v, sv_Active = None, sv_luby = NewLuby, sv_x = CNull,
                sv_xLit = LitNull, sv_testLevels = [], sv_endTestLevel = 0, sv_assumptLevel = 0,
                sv_assumes = [], sv_failed = [], sv_phases = 0, sv_restartStopwatch = 0\<rparr>"
  have st: "store_ok (cd_D (cb_CDat c)) {}" using rep_store_ok [OF rep] by (simp add: locs0)
  have "\<forall>m. in_range v m \<longrightarrow> val_of v m = 0" "\<forall>w \<in> set (vs_Watches v). w = []" using nv by blast+
  note fresh = fresh_search_ok [OF nv(1) this st]
  have at: "att c = {}" by (simp add: att_def c0)
  have "means [] {} c (NewTrail v) v" "added_ok c (NewTrail v) v"
    by (simp_all add: means_def added_ok_def c0 sat_all_def cnf_true_def)
  moreover have "heap_full v g" by (simp add: heap_full_def g(2) mx word_le_nat_alt)
  moreover have "gc_ok [] c" "db_ok [] c" "live [] c = {}"
    using rep by (simp_all add: gc_ok_def db_ok_def live_def c0 gc locs0)
  ultimately have "core_at fl [] [] s"
    using fresh(1) NewDeriver_ok [OF nv(1)] g(1) c0(3) by (simp add: core_at_def s_def at locs0)
  then have "core fl [] s" by (auto simp: core_def)
  moreover have "settled s" using fresh(2) by (simp add: settled_def s_def propagated_def at)
  ultimately have "idle fl [] s" by (simp add: idle_def s_def)
  moreover have "NewSVc fl n m = Some s"
    by (simp add: NewSVc_def NewSCdb_def v_def [symmetric] c_def [symmetric] run s_def Let_def)
  moreover have "cd_Len (cb_CDat c) = 0" by (simp add: c0(5) NewCDat_def Let_def)
  ultimately show ?thesis by (simp add: s_def v_def [symmetric] c0(4) gc(2) add)
qed

end
