(* ===== verification/Adding.thy ===== *)
theory Adding
  imports SolveNew
begin

text \<open>
  Adding clauses to the solver: literals are buffered, the terminating null literal simplifies the
  clause by the literals of level 0 and puts it into the database.
\<close>

section \<open>Simplifying the buffered clause\<close>

text \<open>The scratch values show the literals kept so far.\<close>

definition marks :: "lit list \<Rightarrow> int list \<Rightarrow> bool" where
  "marks K a \<longleftrightarrow> (\<forall>m \<in> set K. unat (lit_Var m) < length a \<and> a ! unat (lit_Var m) = lit_Sign m)
     \<and> (\<forall>x < length a. a ! x \<noteq> 0 \<longrightarrow> x \<in> (\<lambda>m. unat (lit_Var m)) ` set K)"

lemma same_var_sign: "lit_Var m = lit_Var n \<Longrightarrow> lit_Sign m = lit_Sign n \<Longrightarrow> m = n"
  using lit_Var_eqD [of m n] by auto

lemma marks_add:
  assumes K: "marks K a" and m: "unat (lit_Var m) < length a" "a ! unat (lit_Var m) = 0"
  shows "marks (K @ [m]) (a[unat (lit_Var m) := lit_Sign m])" and "lit_Var m \<notin> lit_Var ` set K"
proof -
  show nin: "lit_Var m \<notin> lit_Var ` set K"
  proof
    assume "lit_Var m \<in> lit_Var ` set K"
    then obtain n where "n \<in> set K" "lit_Var n = lit_Var m" by auto
    then have "a ! unat (lit_Var m) = lit_Sign n" using K by (auto simp: marks_def)
    then show False using m(2) by simp
  qed
  then have "unat (lit_Var n) \<noteq> unat (lit_Var m)" if "n \<in> set K" for n
    using that nin by (metis imageI word_eq_iff_unat)
  then show "marks (K @ [m]) (a[unat (lit_Var m) := lit_Sign m])"
    using K m by (auto simp: marks_def nth_list_update)
qed

lemma marks_at:
  assumes K: "marks K a" and m: "unat (lit_Var m) < length a"
  shows "a ! unat (lit_Var m) = 0 \<or> (\<exists>n \<in> set K. lit_Var n = lit_Var m \<and> a ! unat (lit_Var m) = lit_Sign n)"
proof (cases "a ! unat (lit_Var m) = 0")
  case False
  then obtain n where n: "n \<in> set K" "unat (lit_Var m) = unat (lit_Var n)" using K m by (auto simp: marks_def)
  then have "lit_Var n = lit_Var m" by (simp add: word_eq_iff_unat)
  moreover have "a ! unat (lit_Var n) = lit_Sign n" using K n(1) by (simp add: marks_def)
  ultimately show ?thesis using n(1) by auto
qed simp

text \<open>What the scan comes to for the literals \<open>ms\<close>, when it keeps \<open>K\<close>.\<close>

definition simplified :: "vars \<Rightarrow> lit list \<Rightarrow> bool \<Rightarrow> lit list \<Rightarrow> bool" where
  "simplified v ms taut K \<longleftrightarrow> set K \<subseteq> set ms \<and> distinct (map lit_Var K) \<and> (\<forall>m \<in> set K. val_of v m = 0)
     \<and> (if taut then \<exists>m \<in> set ms. val_of v m = 1 \<or> lit_Not m \<in> set ms
        else \<forall>m \<in> set ms. m \<in> set K \<or> val_of v m = -1)"

lemma add_scan_ok:
  assumes vok: "vars_ok v" and rng: "\<forall>m \<in> set rest. in_range v m \<and> lit_Var m \<le> mx \<and> unat (lit_Var m) < length a"
    and K: "simplified v seen False (take j buf)" and mk: "marks (take j buf) a"
    and len: "j + length rest \<le> length buf"
  shows "returns (add_scan (vs_Vals v) rest (buf, j, a, mx)) (\<lambda>(taut, buf', j', a', mx').
     mx' = mx \<and> length a' = length a \<and> length buf' = length buf \<and> j' \<le> length buf' \<and> set buf' \<subseteq> set buf \<union> set rest
     \<and> simplified v (seen @ rest) taut (take j' buf') \<and> marks (take j' buf') a'
     \<and> (taut \<or> j' \<le> j + length rest))"
  using assms
proof (induction rest arbitrary: seen buf j a)
  case Nil
  then show ?case by simp
next
  case (Cons m rest)
  note rng = Cons.prems(2) and K = Cons.prems(3) and mk = Cons.prems(4) and len = Cons.prems(5)
  have m: "in_range v m" "lit_Var m \<le> mx" "unat (lit_Var m) < length a" using rng by simp_all
  have ix: "unat m < length (vs_Vals v)" by (rule in_range_vals [OF vok m(1)])
  have mx: "(if lit_Var m > mx then lit_Var m else mx) = mx" using m(2) by auto
  let ?us = "val_of v m" and ?as = "a ! unat (lit_Var m)"
  have us: "?us \<in> {-1, 0, 1}" using vars_ok_vals(1) [OF vok ix] .
  have get: "aget (vs_Vals v) (unat m) = Some ?us" "aget a (unat (lit_Var m)) = Some ?as"
    using ix m(3) by (simp_all add: val_of_def)
  have jl: "j < length buf" using len by simp
  have as: "?as = 0 \<or> (\<exists>n \<in> set (take j buf). lit_Var n = lit_Var m \<and> ?as = lit_Sign n)"
    using marks_at [OF mk m(3)] by blast
  have sub: "set (take j buf) \<subseteq> set seen" using K by (simp add: simplified_def)
  show ?case
  proof (cases "?us = 0 \<and> ?as = 0")
    case True
    let ?buf = "buf[j := m]" and ?a = "a[unat (lit_Var m) := lit_Sign m]"
    have tk: "take (j + 1) ?buf = take j buf @ [m]" using jl by (simp add: take_Suc_conv_app_nth)
    have "simplified v (seen @ [m]) False (take (j + 1) ?buf)"
      using K True marks_add(2) [OF mk m(3)] unfolding simplified_def tk by auto
    moreover have "marks (take (j + 1) ?buf) ?a" unfolding tk using marks_add(1) [OF mk m(3)] True by simp
    moreover have "j + 1 + length rest \<le> length ?buf" using len by simp
    ultimately have "returns (add_scan (vs_Vals v) rest (?buf, j + 1, ?a, mx)) (\<lambda>(taut, buf', j', a', mx').
       mx' = mx \<and> length a' = length ?a \<and> length buf' = length ?buf \<and> j' \<le> length buf' \<and> set buf' \<subseteq> set ?buf \<union> set rest
       \<and> simplified v ((seen @ [m]) @ rest) taut (take j' buf') \<and> marks (take j' buf') a'
       \<and> (taut \<or> j' \<le> j + 1 + length rest))"
      by (intro Cons.IH [OF Cons.prems(1)]) (use rng in simp_all)
    moreover have "add_scan (vs_Vals v) (m # rest) (buf, j, a, mx) = add_scan (vs_Vals v) rest (?buf, j + 1, ?a, mx)"
      using True jl m(3) by (simp add: get Let_def mx del: aget_Some_iff)
    moreover have "set ?buf \<subseteq> insert m (set buf)" by (rule set_update_subset_insert)
    ultimately show ?thesis by (auto elim!: returns_mono)
  next
    case False
    show ?thesis
    proof (cases "?us = 1 \<or> ?as * lit_Sign m = -1")
      case True
      have "?us = 1 \<or> lit_Not m \<in> set seen"
      proof (cases "?us = 1")
        case nus: False
        then have s: "?as * lit_Sign m = -1" using True by simp
        then obtain n where n: "n \<in> set (take j buf)" "lit_Var n = lit_Var m" "?as = lit_Sign n" using as by auto
        have "lit_Sign n = lit_Sign (lit_Not m)" using s n(3) by (simp add: lit_Sign_if split: if_splits)
        then have "n = lit_Not m" by (rule same_var_sign [rotated]) (simp add: n(2))
        then show ?thesis using n(1) sub by blast
      qed simp
      then have "simplified v (seen @ m # rest) True (take j buf)" using K by (auto simp: simplified_def)
      moreover have "add_scan (vs_Vals v) (m # rest) (buf, j, a, mx) = Some (True, buf, j, a, mx)"
        using False True by (auto simp: get Let_def mx simp del: aget_Some_iff)
      ultimately show ?thesis using mk jl by (simp del: add_scan.simps) blast
    next
      case nt: False
      have old: "?us = -1 \<or> ?as * lit_Sign m = 1" using False nt us as by (auto simp: lit_Sign_if split: if_splits)
      have "m \<in> set (take j buf) \<or> ?us = -1"
      proof (cases "?us = -1")
        case nus: False
        then have s: "?as * lit_Sign m = 1" using old by simp
        then obtain n where n: "n \<in> set (take j buf)" "lit_Var n = lit_Var m" "?as = lit_Sign n" using as by auto
        have "lit_Sign n = lit_Sign m" using s n(3) by (simp add: lit_Sign_if split: if_splits)
        then have "n = m" by (rule same_var_sign [OF n(2)])
        then show ?thesis using n(1) by simp
      qed simp
      then have "simplified v (seen @ [m]) False (take j buf)" using K by (auto simp: simplified_def)
      then have "returns (add_scan (vs_Vals v) rest (buf, j, a, mx)) (\<lambda>(taut, buf', j', a', mx').
         mx' = mx \<and> length a' = length a \<and> length buf' = length buf \<and> j' \<le> length buf' \<and> set buf' \<subseteq> set buf \<union> set rest
         \<and> simplified v ((seen @ [m]) @ rest) taut (take j' buf') \<and> marks (take j' buf') a'
         \<and> (taut \<or> j' \<le> j + length rest))"
        by (intro Cons.IH [OF Cons.prems(1)]) (use rng mk len in simp_all)
      moreover have "add_scan (vs_Vals v) (m # rest) (buf, j, a, mx) = add_scan (vs_Vals v) rest (buf, j, a, mx)"
        using False nt old by (auto simp: get Let_def mx simp del: aget_Some_iff)
      ultimately show ?thesis by (auto elim!: returns_mono)
    qed
  qed
qed

lemma clear_vals_ok:
  assumes "\<forall>m \<in> set ms. unat (lit_Var m) < length a"
  shows "returns (clear_vals ms a) (\<lambda>a'. length a' = length a
     \<and> (\<forall>x < length a. a' ! x = (if x \<in> (\<lambda>m. unat (lit_Var m)) ` set ms then 0 else a ! x)))"
  using assms
proof (induction ms arbitrary: a)
  case Nil
  then show ?case by (simp add: clear_vals_def)
next
  case (Cons m ms)
  have "returns (clear_vals ms (a[unat (lit_Var m) := 0])) (\<lambda>a'. length a' = length (a[unat (lit_Var m) := 0])
     \<and> (\<forall>x < length (a[unat (lit_Var m) := 0]). a' ! x = (if x \<in> (\<lambda>m. unat (lit_Var m)) ` set ms then 0
         else a[unat (lit_Var m) := 0] ! x)))"
    by (rule Cons.IH) (use Cons.prems in simp)
  then show ?case using Cons.prems
    by (auto simp: clear_vals_def nth_list_update elim!: returns_mono split: if_splits)
qed

section \<open>Extending the database\<close>

lemma core_formula: "core_at fl F cls s \<Longrightarrow> (\<And>\<sigma>. cnf_true \<sigma> F' \<longleftrightarrow> cnf_true \<sigma> F) \<Longrightarrow> core_at fl F' cls s"
  unfolding core_at_def means_def by blast

text \<open>At level 0 the literals of the trail follow from the formula.\<close>

lemma level0_follows:
  assumes core: "core fl F s" and lv: "tr_Level (sv_Trail s) = 0" and sat: "cnf_true \<sigma> F"
    and m: "m \<in> set (trail_lits (sv_Trail s))"
  shows "lit_true \<sigma> m" and "lev (sv_Vars s) m = 0"
proof -
  note ok = core_parts(1) [OF core]
  show l0: "lev (sv_Vars s) m = 0" using lev_bounds [OF ok m] lv by simp
  show "lit_true \<sigma> m" by (rule trail_lit_implied [OF core no_assumptions [OF core] sat _ m]) (simp_all add: l0)
qed

lemma simplified_means:
  assumes core: "core fl F s" and lv: "tr_Level (sv_Trail s) = 0" and rng: "\<forall>m \<in> set ms. in_range (sv_Vars s) m"
    and S: "simplified (sv_Vars s) ms taut K" and sat: "cnf_true \<sigma> F"
  shows "taut \<Longrightarrow> clause_true \<sigma> ms" and "\<not> taut \<Longrightarrow> clause_true \<sigma> ms \<longleftrightarrow> clause_true \<sigma> K"
proof -
  note ok = core_parts(1) [OF core]
  have pos: "lit_true \<sigma> m" if "m \<in> set ms" "val_of (sv_Vars s) m = 1" for m
    using trail_val [OF ok, of m] rng that level0_follows(1) [OF core lv sat] by (auto split: if_splits)
  have neg: "\<not> lit_true \<sigma> m" if "m \<in> set ms" "val_of (sv_Vars s) m = -1" for m
  proof -
    have "lit_Not m \<in> set (trail_lits (sv_Trail s))" using trail_val [OF ok, of m] rng that by (auto split: if_splits)
    then show ?thesis using level0_follows(1) [OF core lv sat] by fastforce
  qed
  show "clause_true \<sigma> ms" if taut
  proof -
    obtain m where m: "m \<in> set ms" "val_of (sv_Vars s) m = 1 \<or> lit_Not m \<in> set ms" using S \<open>taut\<close> by (auto simp: simplified_def)
    show ?thesis
    proof (cases "lit_true \<sigma> m")
      case False
      then have "lit_Not m \<in> set ms" "lit_true \<sigma> (lit_Not m)" using pos m by auto
      then show ?thesis unfolding clause_true_def by blast
    qed (use m in \<open>auto simp: clause_true_def\<close>)
  qed
  show "clause_true \<sigma> ms \<longleftrightarrow> clause_true \<sigma> K" if "\<not> taut"
    using S that neg by (auto simp: simplified_def clause_true_def)
qed

text \<open>A clause that is kept is attached, or its only literal is assigned at level 0.\<close>

definition attach_run :: "lit list \<Rightarrow> cloc \<Rightarrow> cdb \<Rightarrow> 'h solver \<Rightarrow> 'h solver option" where
  "attach_run K p c s =
     do { v \<leftarrow> (if length K < 2 then Some (sv_Vars s) else watch_pair p (K ! 0) (K ! 1) (length K = 2) (sv_Vars s));
          let s = s\<lparr>sv_Vars := v, sv_Cdb := c\<rparr>;
          if length K = 1 then s_Assign (K ! 0) p s else Some s }"

definition extended :: "clause list \<Rightarrow> lit list \<Rightarrow> cloc \<Rightarrow> cdb \<Rightarrow> cdb \<Rightarrow> bool" where
  "extended cls K p c c' \<longleftrightarrow> (\<exists>h. db_ok (cls @ [(h, K)]) c' \<and> locs (cls @ [(h, K)]) = insert p (locs cls))
     \<and> p \<notin> locs cls \<and> lits (cd_D (cb_CDat c')) p = K \<and> store_ok (cd_D (cb_CDat c')) (insert p (locs cls))
     \<and> (\<forall>q \<in> locs cls. lits (cd_D (cb_CDat c')) q = lits (cd_D (cb_CDat c)) q)
     \<and> cb_Added c' = cb_Added c @ [p] \<and> cb_Learnts c' = cb_Learnts c \<and> cb_gc c' = cb_gc c \<and> cb_Bot c' = cb_Bot c"

lemma extended_sets:
  assumes db: "db_ok cls c" "gc_ok cls c" and ex: "extended cls K p c c'"
  shows "att c' = attached K p (att c)" and "live (cls @ [(h, K)]) c' = insert p (live cls c)
      \<or> locs (cls @ [(h, K)]) \<noteq> insert p (locs cls)"
    and "gc_ok (cls @ [(h, K)]) c' \<or> locs (cls @ [(h, K)]) \<noteq> insert p (locs cls)"
proof -
  note L = att_live [OF db]
  have sub: "set (cb_Added c) \<subseteq> locs cls" "set (cb_Learnts c) \<subseteq> locs cls" using L by blast+
  have new: "p \<notin> locs cls" "lits (cd_D (cb_CDat c')) p = K" "\<forall>q \<in> locs cls. lits (cd_D (cb_CDat c')) q = lits (cd_D (cb_CDat c)) q"
    and eq: "cb_Added c' = cb_Added c @ [p]" "cb_Learnts c' = cb_Learnts c" "cb_gc c' = cb_gc c"
    using ex by (simp_all add: extended_def)
  show "att c' = attached K p (att c)" using sub new by (auto simp: att_def attached_def eq)
  show "live (cls @ [(h, K)]) c' = insert p (live cls c) \<or> locs (cls @ [(h, K)]) \<noteq> insert p (locs cls)"
    using db(2) new(1) by (auto simp: live_def eq gc_ok_def)
  show "gc_ok (cls @ [(h, K)]) c' \<or> locs (cls @ [(h, K)]) \<noteq> insert p (locs cls)"
    using db(2) new(1) sub by (auto simp: gc_ok_def eq)
qed

text \<open>What the operations need of the solver in order not to panic.\<close>

definition workable :: "'h floats \<Rightarrow> clause list \<Rightarrow> 'h solver \<Rightarrow> bool" where
  "workable fl cls s \<longleftrightarrow> db_ok cls (sv_Cdb s) \<and> gc_ok cls (sv_Cdb s)
     \<and> search_ok (db_of s) (live cls (sv_Cdb s)) (att (sv_Cdb s)) (sv_Trail s) (sv_Vars s)
     \<and> guess_room fl (sv_Vars s) (sv_Guess s)"

lemma core_workable: "core_at fl F cls s \<Longrightarrow> workable fl cls s"
  by (simp add: core_at_def workable_def)

lemma workableD:
  assumes "workable fl cls s"
  shows "db_ok cls (sv_Cdb s)" and "gc_ok cls (sv_Cdb s)"
    and "search_ok (db_of s) (live cls (sv_Cdb s)) (att (sv_Cdb s)) (sv_Trail s) (sv_Vars s)"
    and "guess_room fl (sv_Vars s) (sv_Guess s)" and "trail_ok (sv_Trail s) (sv_Vars s)" and "vars_ok (sv_Vars s)"
  using assms search_okD(3,8) unfolding workable_def by blast+

lemma attach_search_ok:
  assumes wk: "workable fl cls s" and W: "propagated s" and lv: "tr_Level (sv_Trail s) = 0"
    and K: "distinct (map lit_Var K)" "\<forall>m \<in> set K. in_range (sv_Vars s) m \<and> val_of (sv_Vars s) m = 0"
    and ex: "extended cls K p (sv_Cdb s) c"
  shows "returns (attach_run K p c s) (\<lambda>s'. s' = s\<lparr>sv_Cdb := c, sv_Trail := sv_Trail s', sv_Vars := sv_Vars s'\<rparr>
     \<and> search_ok (cd_D (cb_CDat c)) (insert p (live cls (sv_Cdb s))) (attached K p (att (sv_Cdb s))) (sv_Trail s') (sv_Vars s')
     \<and> prop_upto (cd_D (cb_CDat c)) (attached K p (att (sv_Cdb s))) (sv_Trail s') (sv_Vars s') 1
     \<and> tr_Level (sv_Trail s') = 0 \<and> vs_Top (sv_Vars s') = vs_Top (sv_Vars s) \<and> vs_Max (sv_Vars s') = vs_Max (sv_Vars s)
     \<and> keeps0 (sv_Trail s) (sv_Vars s) (sv_Trail s') (sv_Vars s')
     \<and> set (trail_lits (sv_Trail s')) = set (trail_lits (sv_Trail s)) \<union> (if length K = 1 then set K else {})
     \<and> (length K = 1 \<longrightarrow> lev (sv_Vars s') (K ! 0) = 0))"
proof -
  note C = workableD [OF wk] and L = att_live [OF workableD(1,2) [OF wk]]
  let ?D = "cd_D (cb_CDat c)" and ?P = "insert p (live cls (sv_Cdb s))" and ?Q = "att (sv_Cdb s)"
  have new: "p \<notin> locs cls" "lits ?D p = K" "\<forall>q \<in> locs cls. lits ?D q = lits (db_of s) q" "store_ok ?D (insert p (locs cls))"
    using ex by (simp_all add: extended_def)
  have st: "store_ok ?D ?P" by (rule store_ok_subset [OF new(4)]) (use L(4) in blast)
  have same: "lits ?D q = lits (db_of s) q" if "q \<in> live cls (sv_Cdb s)" for q using new(3) L(4) that by blast
  have W1: "prop_upto (db_of s) ?Q (sv_Trail s) (sv_Vars s) 1" using W lv by (simp add: propagated_def)
  have ok1: "search_ok ?D ?P ?Q (sv_Trail s) (sv_Vars s)" "prop_upto ?D ?Q (sv_Trail s) (sv_Vars s) 1"
    using search_ok_mono [OF C(3) st subset_insertI] same W1 by auto
  have pQ: "p \<notin> ?Q" using new(1) L by blast
  obtain v' where wp: "(if length K < 2 then Some (sv_Vars s) else watch_pair p (K ! 0) (K ! 1) (length K = 2) (sv_Vars s)) = Some v'"
    and v': "search_ok ?D ?P (attached K p ?Q) (sv_Trail s) v'" "prop_upto ?D (attached K p ?Q) (sv_Trail s) v' 1"
      "v' = (sv_Vars s)\<lparr>vs_Watches := vs_Watches v'\<rparr>"
  proof -
    have "returns (if length K < 2 then Some (sv_Vars s) else watch_pair p (K ! 0) (K ! 1) (length K = 2) (sv_Vars s))
      (\<lambda>v'. search_ok ?D ?P (attached K p ?Q) (sv_Trail s) v' \<and> prop_upto ?D (attached K p ?Q) (sv_Trail s) v' 1
         \<and> v' = (sv_Vars s)\<lparr>vs_Watches := vs_Watches v'\<rparr> \<and> length (vs_Watches v') = length (vs_Watches (sv_Vars s)))"
      by (rule attach_ok [OF ok1(1) pQ insertI1 new(2) K(1) _ ok1(2)]) (use K(2) nth_mem [of 0 K] in \<open>fastforce+\<close>)
    then show thesis using that unfolding returns_def by blast
  qed
  have vf: "vs_Top v' = vs_Top (sv_Vars s)" "vs_Max v' = vs_Max (sv_Vars s)" "lev v' = lev (sv_Vars s)"
    "val_of v' = val_of (sv_Vars s)" "in_range v' = in_range (sv_Vars s)"
    by (subst v'(3), simp add: fun_eq_iff lev_def val_of_def in_range_def)+
  show ?thesis
  proof (cases "length K = 1")
    case False
    then have "attach_run K p c s = Some (s\<lparr>sv_Vars := v', sv_Cdb := c\<rparr>)" by (simp only: attach_run_def wp bind.bind_lunit Let_def if_False)
    then show ?thesis using v' False lv by (simp add: vf keeps0_def)
  next
    case True
    then obtain u where K1: "K = [u]" by (auto simp: length_Suc_conv)
    have W': "prop_upto ?D (attached K p ?Q) (sv_Trail s) v' (tr_Level (sv_Trail s) + 1)" using v'(2) lv by simp
    have p0: "p \<noteq> CNull" by (rule loc_not_null [OF st insertI1])
    have u: "in_range v' u" "val_of v' u = 0" using K(2) by (simp_all add: vf K1)
    have none: "\<forall>n \<in> set []. lit_Not n \<in> set (trail_lits (sv_Trail s))" by simp
    obtain t2 v2 where run: "Assign u p (sv_Trail s, v') = Some (t2, v2)"
      and post: "search_ok ?D ?P (attached K p ?Q) t2 v2" "prop_upto ?D (attached K p ?Q) t2 v2 (tr_Level t2 + 1)"
      and as: "assigned u p (sv_Trail s) v' t2 v2"
      using imply_ok [OF v'(1) W' insertI1 p0 new(2) [unfolded K1] none u] by (auto simp: returns_def)
    note A = assignedD [OF as] and F = assigned_frame [OF as] and old = assigned_old [OF as search_okD(3) [OF post(1)]]
    have l2: "tr_Level t2 = 0" using A(4) p0 lv by simp
    have "attach_run K p c s = Some (s\<lparr>sv_Vars := v2, sv_Cdb := c, sv_Trail := t2\<rparr>)"
      using wp K1 by (simp add: attach_run_def s_Assign_def run)
    then show ?thesis
      using post l2 F old(2) A(1) A(8) [of u] K1 by (simp add: vf keeps0_def)
  qed
qed

lemma core_extend:
  assumes cr: "core_at fl F cls s" and W: "propagated s" and lv: "tr_Level (sv_Trail s) = 0"
    and K: "K \<noteq> []" "distinct (map lit_Var K)" "\<forall>m \<in> set K. in_range (sv_Vars s) m \<and> val_of (sv_Vars s) m = 0"
    and mx: "\<forall>m \<in> set K. lit_Var m \<le> vs_Max (sv_Vars s)"
    and eq: "\<And>\<sigma>. cnf_true \<sigma> F \<Longrightarrow> clause_true \<sigma> ms \<longleftrightarrow> clause_true \<sigma> K"
    and ex: "extended cls K p (sv_Cdb s) c"
  shows "returns (attach_run K p c s) (\<lambda>s'. core fl (ms # F) s' \<and> propagated s' \<and> tr_Level (sv_Trail s') = 0
     \<and> s' = s\<lparr>sv_Cdb := c, sv_Trail := sv_Trail s', sv_Vars := sv_Vars s'\<rparr>
     \<and> vs_Top (sv_Vars s') = vs_Top (sv_Vars s) \<and> vs_Max (sv_Vars s') = vs_Max (sv_Vars s))"
proof (rule returns_mono [OF attach_search_ok [OF core_workable [OF cr] W lv K(2,3) ex]], elim conjE)
  note C = core_atD [OF cr] and L = att_live [OF core_atD(1,2) [OF cr]]
  let ?D = "cd_D (cb_CDat c)" and ?c = "sv_Cdb s"
  fix s' :: "'a solver"
  assume s': "s' = s\<lparr>sv_Cdb := c, sv_Trail := sv_Trail s', sv_Vars := sv_Vars s'\<rparr>"
    and ok: "search_ok ?D (insert p (live cls ?c)) (attached K p (att ?c)) (sv_Trail s') (sv_Vars s')"
    and up: "prop_upto ?D (attached K p (att ?c)) (sv_Trail s') (sv_Vars s') 1"
    and l': "tr_Level (sv_Trail s') = 0" and same: "vs_Top (sv_Vars s') = vs_Top (sv_Vars s)" "vs_Max (sv_Vars s') = vs_Max (sv_Vars s)"
    and k0: "keeps0 (sv_Trail s) (sv_Vars s) (sv_Trail s') (sv_Vars s')"
    and tl: "set (trail_lits (sv_Trail s')) = set (trail_lits (sv_Trail s)) \<union> (if length K = 1 then set K else {})"
    and unit: "length K = 1 \<longrightarrow> lev (sv_Vars s') (K ! 0) = 0"
  have cdb: "sv_Cdb s' = c" "sv_Guess s' = sv_Guess s" "sv_Driver s' = sv_Driver s" "sv_Active s' = sv_Active s" by (subst s', simp)+
  obtain h where db': "db_ok (cls @ [(h, K)]) c" and lc: "locs (cls @ [(h, K)]) = insert p (locs cls)"
    using ex by (auto simp: extended_def)
  let ?cls = "cls @ [(h, K)]"
  have new: "p \<notin> locs cls" "lits ?D p = K" "\<forall>q \<in> locs cls. lits ?D q = lits (db_of s) q"
    and eqs: "cb_Added c = cb_Added ?c @ [p]" "cb_Learnts c = cb_Learnts ?c" "cb_gc c = cb_gc ?c" "cb_Bot c = cb_Bot ?c"
    using ex by (simp_all add: extended_def)
  have att: "att c = attached K p (att ?c)" and live: "live ?cls c = insert p (live cls ?c)" and gc: "gc_ok ?cls c"
    using extended_sets(1) [OF C(1,2) ex] extended_sets(2,3) [OF C(1,2) ex, of h] lc by simp_all
  have sub: "set (cb_Added ?c) \<subseteq> locs cls" using L by blast
  have D: "sat_all \<sigma> ?D R \<longleftrightarrow> sat_all \<sigma> (db_of s) R" if "R \<subseteq> locs cls" for \<sigma> R
    using new(3) that unfolding sat_all_def by (metis subsetD)
  have M: "means (ms # F) (locs ?cls) c (sv_Trail s') (sv_Vars s')"
    unfolding means_def lc
  proof (intro conjI allI impI)
    fix \<sigma> assume "cnf_true \<sigma> (ms # F)"
    then have "cnf_true \<sigma> F" "clause_true \<sigma> K" using eq by (auto simp: cnf_true_def)
    moreover from this have "sat_all \<sigma> ?D (locs cls)" using C(4) D [OF order_refl] by (simp add: means_def)
    ultimately show "sat_all \<sigma> ?D (insert p (locs cls))" by (simp add: sat_all_def new(2))
  next
    fix \<sigma> assume a: "sat_all \<sigma> ?D (set (cb_Added c))"
      and t: "\<forall>m \<in> set (trail_lits (sv_Trail s')). lev (sv_Vars s') m = 0 \<longrightarrow> lit_true \<sigma> m"
    have "sat_all \<sigma> ?D (set (cb_Added ?c))" "clause_true \<sigma> K" using a by (simp_all add: sat_all_def eqs new(2))
    moreover have "\<forall>m \<in> set (trail_lits (sv_Trail s)). lev (sv_Vars s) m = 0 \<longrightarrow> lit_true \<sigma> m"
      using t k0 by (simp add: keeps0_def)
    ultimately have "cnf_true \<sigma> F" using C(4) D [OF sub] by (simp add: means_def)
    then show "cnf_true \<sigma> (ms # F)" using eq \<open>clause_true \<sigma> K\<close> by (simp add: cnf_true_def)
  qed
  have A: "added_ok c (sv_Trail s') (sv_Vars s')"
    unfolding added_ok_def
  proof
    fix q assume "q \<in> set (cb_Added c)"
    then consider "q \<in> set (cb_Added ?c)" | "q = p" by (auto simp: eqs)
    then show "lits ?D q \<noteq> [] \<and> (\<forall>m \<in> set (lits ?D q). lit_Var m \<le> vs_Max (sv_Vars s'))
       \<and> (\<forall>m. lits ?D q = [m] \<longrightarrow> m \<in> set (trail_lits (sv_Trail s')) \<and> lev (sv_Vars s') m = 0)"
    proof cases
      case 1
      then have "lits ?D q = lits (db_of s) q" using sub new(3) by blast
      then show ?thesis using 1 C(5) k0 by (simp add: added_ok_def same(2) keeps0_def)
    next
      case 2
      then show ?thesis using K(1) mx unit tl by (auto simp: new(2) same(2))
    qed
  qed
  have sok: "search_ok ?D (live ?cls c) (att c) (sv_Trail s') (sv_Vars s')" using ok by (simp add: live att)
  have H: "heap_full (sv_Vars s') (sv_Guess s)"
    by (rule heap_keep [OF C(8) C(11) search_okD(3) [OF sok] same]) (use tl in auto)
  have "core_at fl (ms # F) ?cls s'"
    using db' gc sok M A H C(7,9,10) deriv_keep [OF C(6) k0 same(1)]
    by (simp add: core_at_def cdb eqs(4) guess_room_def same(1))
  then have "core fl (ms # F) s'" by (auto simp: core_def)
  moreover have "propagated s'" using up l' by (simp add: propagated_def cdb att)
  ultimately show "core fl (ms # F) s' \<and> propagated s' \<and> tr_Level (sv_Trail s') = 0
     \<and> s' = s\<lparr>sv_Cdb := c, sv_Trail := sv_Trail s', sv_Vars := sv_Vars s'\<rparr>
     \<and> vs_Top (sv_Vars s') = vs_Top (sv_Vars s) \<and> vs_Max (sv_Vars s') = vs_Max (sv_Vars s)"
    using l' s' same by blast
qed

section \<open>The operations\<close>

text \<open>The buffer of the database holds the literals of the clause that is being added.\<close>

definition buffered :: "lit list \<Rightarrow> 'h solver \<Rightarrow> bool" where
  "buffered ms s \<longleftrightarrow> cb_AddLits (sv_Cdb s) = ms
     \<and> (\<forall>m \<in> set ms. in_range (sv_Vars s) m \<and> lit_Var m \<le> vs_Max (sv_Vars s))
     \<and> unat (vs_Top (sv_Vars s)) \<le> length (cb_AddVals (sv_Cdb s)) \<and> (\<forall>x \<in> set (cb_AddVals (sv_Cdb s)). x = 0)"

lemma buffered_marks: "buffered ms s \<Longrightarrow> marks [] (cb_AddVals (sv_Cdb s))"
  unfolding buffered_def marks_def by (simp add: all_set_conv_all_nth)

text \<open>What adding a clause leaves alone.\<close>

definition add_frame :: "nat \<Rightarrow> 'h solver \<Rightarrow> 'h solver \<Rightarrow> bool" where
  "add_frame n s s' \<longleftrightarrow> sv_testLevels s' = sv_testLevels s \<and> sv_endTestLevel s' = sv_endTestLevel s
     \<and> sv_assumes s' = sv_assumes s \<and> vs_Top (sv_Vars s') = vs_Top (sv_Vars s)
     \<and> cb_gc (sv_Cdb s') = cb_gc (sv_Cdb s)
     \<and> vs_Max (sv_Vars s) \<le> vs_Max (sv_Vars s')
     \<and> cd_Len (cb_CDat (sv_Cdb s')) \<le> cd_Len (cb_CDat (sv_Cdb s)) + n"

lemma add_frame_trans:
  "add_frame m s s' \<Longrightarrow> add_frame n s' s'' \<Longrightarrow> m + n \<le> k \<Longrightarrow> add_frame k s s''"
  by (auto simp: add_frame_def)

lemma core_buffers:
  assumes "core fl F s" and "c = (sv_Cdb s)\<lparr>cb_AddLits := ms, cb_AddVals := a, cb_checkModel := b\<rparr>"
  shows "core fl F (s\<lparr>sv_Cdb := c\<rparr>)" and "propagated (s\<lparr>sv_Cdb := c\<rparr>) \<longleftrightarrow> propagated s"
proof -
  obtain cls where cr: "core_at fl F cls s" using assms(1) by (auto simp: core_def)
  have "core_at fl F cls (s\<lparr>sv_Cdb := c\<rparr>)"
    using cr by (simp add: assms(2) core_at_def db_ok_def gc_ok_def live_def att_def means_def added_ok_def)
  then show "core fl F (s\<lparr>sv_Cdb := c\<rparr>)" by (auto simp: core_def)
  show "propagated (s\<lparr>sv_Cdb := c\<rparr>) \<longleftrightarrow> propagated s" by (simp add: assms(2) propagated_def att_def)
qed

definition add_end :: "'h solver \<Rightarrow> 'h solver option" where
  "add_end s =
     do { (loc, u, v, c) \<leftarrow> Cdb_Add LitNull (sv_Vars s, sv_Cdb s);
          let s = s\<lparr>sv_Vars := v, sv_Cdb := c\<rparr>;
          if u \<noteq> LitNull then s_Assign u loc s else Some s }"

definition add_post :: "'h floats \<Rightarrow> lit list list \<Rightarrow> lit list \<Rightarrow> 'h solver \<Rightarrow> 'h solver \<Rightarrow> bool" where
  "add_post fl F ms s s' \<longleftrightarrow> buffered [] s' \<and> add_frame (length ms + 2) s s' \<and> sv_x s' = sv_x s
     \<and> tr_Level (sv_Trail s') = 0 \<and> vs_Max (sv_Vars s') = vs_Max (sv_Vars s)
     \<and> (if cb_Bot (sv_Cdb s') = CNull then core fl (ms # F) s' \<and> propagated s'
        else \<forall>\<sigma>. \<not> cnf_true \<sigma> (ms # F))"

text \<open>
  The end of a clause: with the literals \<open>K\<close> that remain of it, it is dropped, marks the formula as
  inconsistent, or is attached.
\<close>

definition add_result :: "clause list \<Rightarrow> lit list \<Rightarrow> bool \<Rightarrow> lit list \<Rightarrow> 'h solver \<Rightarrow> bool" where
  "add_result cls ms taut K s \<longleftrightarrow> (\<exists>a. length a = length (cb_AddVals (sv_Cdb s)) \<and> (\<forall>x \<in> set a. x = 0)
     \<and> (if taut then add_end s = Some (s\<lparr>sv_Cdb := (sv_Cdb s)\<lparr>cb_AddLits := [], cb_AddVals := a, cb_checkModel := cb_checkModel (sv_Cdb s)\<rparr>\<rparr>)
        else \<exists>p d. let c = (sv_Cdb s)\<lparr>cb_CDat := d, cb_Added := cb_Added (sv_Cdb s) @ [p], cb_AddVals := a, cb_AddLits := []\<rparr>
          in extended cls K p (sv_Cdb s) c \<and> p \<noteq> CNull \<and> cd_Len d \<le> cd_Len (cb_CDat (sv_Cdb s)) + (length ms + 2)
             \<and> (if K = [] then add_end s = Some (s\<lparr>sv_Cdb := c\<lparr>cb_Bot := p\<rparr>\<rparr>) else add_end s = attach_run K p c s)))"

lemma add_end_run:
  assumes wk: "workable fl cls s" and B: "buffered ms s"
    and room: "2 * (cd_Len (cb_CDat (sv_Cdb s)) + length ms + 2) < 2147483648"
  shows "\<exists>taut K. simplified (sv_Vars s) ms taut K \<and> add_result cls ms taut K s"
proof -
  let ?v = "sv_Vars s" and ?c = "sv_Cdb s"
  note C = workableD [OF wk]
  have rep: "cdat_rep cls (cb_CDat ?c)" using C(1) by (simp add: db_ok_def)
  have buf: "cb_AddLits ?c = ms" and rng: "\<forall>m \<in> set ms. in_range ?v m \<and> lit_Var m \<le> vs_Max ?v"
    and al: "unat (vs_Top ?v) \<le> length (cb_AddVals ?c)"
    using B by (simp_all add: buffered_def)
  have ix: "unat (lit_Var m) < length (cb_AddVals ?c)" if "m \<in> set ms" for m
    using rng that al unfolding in_range_def by fastforce
  have t0: "0 < length (cb_AddVals ?c)" using al vars_okD(1) [OF C(6)] by (auto simp: word_less_nat_alt)
  obtain taut buf' j a mx where scan: "add_scan (vs_Vals ?v) ms (ms, 0, cb_AddVals ?c, vs_Max ?v) = Some (taut, buf', j, a, mx)"
    and sc: "mx = vs_Max ?v" "length a = length (cb_AddVals ?c)" "length buf' = length ms" "j \<le> length buf'" "set buf' \<subseteq> set ms"
     and S: "simplified ?v ms taut (take j buf')" and mk: "marks (take j buf') a"
    using add_scan_ok [OF C(6), of ms "vs_Max ?v" "cb_AddVals ?c" "[]" 0 ms] rng ix buffered_marks [OF B]
    by (auto simp: returns_def simplified_def)
  define K where "K = take j buf'"
  have Kj: "length K = j" using sc(4) by (simp add: K_def)
  have vmx: "?v\<lparr>vs_Max := mx\<rparr> = ?v" by (simp add: sc(1))
  have clr: "returns (clear_vals b a) (\<lambda>a'. length a' = length (cb_AddVals ?c) \<and> (\<forall>x \<in> set a'. x = 0))"
    if b: "set K \<subseteq> set b" "\<forall>m \<in> set b. unat (lit_Var m) < length a" for b
  proof (rule returns_mono [OF clear_vals_ok [OF b(2)]], elim conjE)
    fix a' :: "int list" assume a': "length a' = length a"
      "\<forall>x < length a. a' ! x = (if x \<in> (\<lambda>m. unat (lit_Var m)) ` set b then 0 else a ! x)"
    have "a' ! x = 0" if "x < length a" for x
      using a'(2) mk b(1) that unfolding marks_def K_def [symmetric] by (metis (no_types, lifting) image_mono subsetD)
    then show "length a' = length (cb_AddVals ?c) \<and> (\<forall>x \<in> set a'. x = 0)"
      using a'(1) sc(2) by (simp add: all_set_conv_all_nth)
  qed
  have "add_result cls ms taut K s"
  proof (cases taut)
    case True
    obtain a' where a': "clear_vals buf' a = Some a'" "length a' = length (cb_AddVals ?c)" "\<forall>x \<in> set a'. x = 0"
      using clr [of buf'] ix sc by (auto simp: returns_def K_def dest: set_take_subset [THEN subsetD])
    have "add_end s = Some (s\<lparr>sv_Cdb := ?c\<lparr>cb_AddLits := [], cb_AddVals := a', cb_checkModel := cb_checkModel ?c\<rparr>\<rparr>)"
      using True by (simp add: add_end_def Cdb_Add_def buf scan a'(1) vmx)
    then show ?thesis using True a'(2,3) by (auto simp: add_result_def)
  next
    case False
    have K: "\<forall>m \<in> set K. in_range ?v m" using S rng by (auto simp: simplified_def K_def)
    have clok: "clause_ok (MakeChd False 0 (int (length K)), K)"
      using K in_range_nonnull by (intro clause_ok_Make) blast
    have "length K \<le> length ms" using Kj sc by simp
    then have rmK: "2 * (cd_Len (cb_CDat ?c) + length K + 2) < 2147483648" using room by simp
    obtain p d where add: "AddLits (MakeChd False 0 (int (length K))) K (cb_CDat ?c) = Some (p, d)"
      and rep': "cdat_rep (cls @ [(MakeChd False 0 (int (length K)), K)]) d" and p: "p \<notin> locs cls"
      and lp: "lits (cd_D d) p = K" and lc: "locs (cls @ [(MakeChd False 0 (int (length K)), K)]) = insert p (locs cls)"
      and st: "store_ok (cd_D d) (insert p (locs cls))" and old: "\<forall>q \<in> locs cls. lits (cd_D d) q = lits (cd_D (cb_CDat ?c)) q"
      using AddLits_ok [OF rep rmK clok] by (auto simp: returns_def)
    have len: "cd_Len d \<le> cd_Len (cb_CDat ?c) + (length ms + 2)"
      using rep_Len [OF rep] rep_Len [OF rep'] \<open>length K \<le> length ms\<close> by simp
    let ?buf = "buf'[j := LitNull]"
    have sb: "set K \<subseteq> set ?buf" "\<forall>m \<in> set ?buf. unat (lit_Var m) < length a"
    proof -
      have "K = take j ?buf" by (simp add: K_def)
      then show "set K \<subseteq> set ?buf" by (metis set_take_subset)
      have "unat (lit_Var LitNull) < length a" using t0 sc(2) by (simp add: LitNull_def lit_Var_def)
      then show "\<forall>m \<in> set ?buf. unat (lit_Var m) < length a"
        using set_update_subset_insert [of buf' j LitNull] sc ix by auto
    qed
    obtain a' where a': "clear_vals ?buf a = Some a'" "length a' = length (cb_AddVals ?c)" "\<forall>x \<in> set a'. x = 0"
      using clr [OF sb] by (auto simp: returns_def)
    let ?c1 = "?c\<lparr>cb_CDat := d, cb_Added := cb_Added ?c @ [p], cb_AddVals := a', cb_AddLits := []\<rparr>"
    have "db_ok (cls @ [(MakeChd False 0 (int (length K)), K)]) ?c1"
      using C(1) rep' lc by (auto simp: db_ok_def)
    then have "\<exists>h. db_ok (cls @ [(h, K)]) ?c1 \<and> locs (cls @ [(h, K)]) = insert p (locs cls)" using lc by blast
    then have ex: "extended cls K p ?c ?c1" using p lp st old by (simp add: extended_def)
    have p0: "p \<noteq> CNull" by (rule loc_not_null [OF st insertI1])
    have "if K = [] then add_end s = Some (s\<lparr>sv_Cdb := ?c1\<lparr>cb_Bot := p\<rparr>\<rparr>) else add_end s = attach_run K p ?c1 s"
    proof (cases "K = []")
      case True
      then show ?thesis
        using False add a'(1) Kj by (simp add: add_end_def Cdb_Add_def buf scan vmx K_def [symmetric])
    next
      case ne: False
      have nth: "?buf ! 0 = K ! 0" "2 \<le> length K \<Longrightarrow> ?buf ! 1 = K ! 1" using ne Kj sc(4) by (auto simp: K_def)
      have u: "K ! 0 \<noteq> LitNull" using K in_range_nonnull ne by (metis length_greater_0_conv nth_mem)
      have "add_end s = attach_run K p ?c1 s"
      proof (cases "length K = 1")
        case True
        then have "take (Suc 0) buf' = K" "j = Suc 0" using Kj K_def by simp_all
        then show ?thesis
          using False add a'(1) True nth(1) u by (simp add: add_end_def attach_run_def Cdb_Add_def buf scan vmx)
      next
        case ge: False
        then have two: "2 \<le> length K" using ne by (cases K) (auto simp: Suc_le_eq)
        have "(?buf ! 0 :: lit) = K ! 0" "?buf ! 1 = K ! 1" using nth two by simp_all
        then show ?thesis
          using False add a'(1) Kj two
          by (cases "watch_pair p (K ! 0) (K ! 1) (length K = 2) ?v")
            (simp_all add: add_end_def attach_run_def Cdb_Add_def buf scan vmx K_def [symmetric])
      qed
      then show ?thesis using ne by simp
    qed
    then show ?thesis using False ex p0 len a'(2,3) unfolding add_result_def Let_def by auto
  qed
  then show ?thesis using S unfolding K_def by blast
qed

text \<open>Adding keeps a solver workable, also once the formula is marked as inconsistent.\<close>

definition works :: "'h floats \<Rightarrow> 'h solver \<Rightarrow> bool" where
  "works fl s \<longleftrightarrow> (\<exists>cls. workable fl cls s) \<and> propagated s \<and> tr_Level (sv_Trail s) = 0"

lemma works_cong:
  assumes "works fl s" and "sv_Cdb s' = (sv_Cdb s)\<lparr>cb_AddLits := l, cb_AddVals := a, cb_checkModel := b, cb_Bot := p\<rparr>"
    and "sv_Trail s' = sv_Trail s" and "sv_Vars s' = sv_Vars s" and "sv_Guess s' = sv_Guess s"
  shows "works fl s'"
  using assms by (auto simp: works_def workable_def propagated_def db_ok_def gc_ok_def live_def att_def)

lemma core_works: "core fl F s \<Longrightarrow> propagated s \<Longrightarrow> tr_Level (sv_Trail s) = 0 \<Longrightarrow> works fl s"
  by (auto simp: works_def core_def intro: core_workable)

lemma works_extend:
  assumes wk: "workable fl cls s" and W: "propagated s" and lv: "tr_Level (sv_Trail s) = 0"
    and K: "distinct (map lit_Var K)" "\<forall>m \<in> set K. in_range (sv_Vars s) m \<and> val_of (sv_Vars s) m = 0"
    and ex: "extended cls K p (sv_Cdb s) c"
  shows "returns (attach_run K p c s) (\<lambda>s'. works fl s' \<and> s' = s\<lparr>sv_Cdb := c, sv_Trail := sv_Trail s', sv_Vars := sv_Vars s'\<rparr>
     \<and> vs_Top (sv_Vars s') = vs_Top (sv_Vars s) \<and> vs_Max (sv_Vars s') = vs_Max (sv_Vars s))"
proof (rule returns_mono [OF attach_search_ok [OF wk W lv K ex]], elim conjE, intro conjI)
  note C = workableD [OF wk]
  fix s' :: "'a solver"
  assume s': "s' = s\<lparr>sv_Cdb := c, sv_Trail := sv_Trail s', sv_Vars := sv_Vars s'\<rparr>"
    and ok: "search_ok (cd_D (cb_CDat c)) (insert p (live cls (sv_Cdb s))) (attached K p (att (sv_Cdb s))) (sv_Trail s') (sv_Vars s')"
    and up: "prop_upto (cd_D (cb_CDat c)) (attached K p (att (sv_Cdb s))) (sv_Trail s') (sv_Vars s') 1"
    and l': "tr_Level (sv_Trail s') = 0" and same: "vs_Top (sv_Vars s') = vs_Top (sv_Vars s)"
  have cdb: "sv_Cdb s' = c" "sv_Guess s' = sv_Guess s" by (subst s', simp)+
  obtain h where db': "db_ok (cls @ [(h, K)]) c" and lc: "locs (cls @ [(h, K)]) = insert p (locs cls)"
    using ex by (auto simp: extended_def)
  have "att c = attached K p (att (sv_Cdb s))" "live (cls @ [(h, K)]) c = insert p (live cls (sv_Cdb s))" "gc_ok (cls @ [(h, K)]) c"
    using extended_sets(1) [OF C(1,2) ex] extended_sets(2,3) [OF C(1,2) ex, of h] lc by simp_all
  then have "workable fl (cls @ [(h, K)]) s'" "propagated s'"
    using db' ok up l' C(4) by (simp_all add: workable_def cdb guess_room_def same propagated_def)
  then show "works fl s'" using l' by (auto simp: works_def)
qed assumption+

definition work_post :: "'h floats \<Rightarrow> lit list \<Rightarrow> 'h solver \<Rightarrow> 'h solver \<Rightarrow> bool" where
  "work_post fl ms s s' \<longleftrightarrow> works fl s' \<and> buffered [] s' \<and> add_frame (length ms + 2) s s' \<and> sv_x s' = sv_x s
     \<and> vs_Max (sv_Vars s') = vs_Max (sv_Vars s) \<and> (cb_Bot (sv_Cdb s) \<noteq> CNull \<longrightarrow> cb_Bot (sv_Cdb s') \<noteq> CNull)"

lemma work_end_ok:
  assumes wk: "works fl s" and B: "buffered ms s" and room: "2 * (cd_Len (cb_CDat (sv_Cdb s)) + length ms + 2) < 2147483648"
  shows "returns (add_end s) (work_post fl ms s)"
proof -
  let ?v = "sv_Vars s" and ?c = "sv_Cdb s"
  obtain cls where w: "workable fl cls s" "propagated s" "tr_Level (sv_Trail s) = 0" using wk by (auto simp: works_def)
  have rng: "\<forall>m \<in> set ms. in_range ?v m" and al: "unat (vs_Top ?v) \<le> length (cb_AddVals ?c)"
    using B by (simp_all add: buffered_def)
  obtain taut K a where S: "simplified ?v ms taut K" and a: "length a = length (cb_AddVals ?c)" "\<forall>x \<in> set a. x = 0"
    and run: "if taut then add_end s = Some (s\<lparr>sv_Cdb := ?c\<lparr>cb_AddLits := [], cb_AddVals := a, cb_checkModel := cb_checkModel ?c\<rparr>\<rparr>)
        else \<exists>p d. let c = ?c\<lparr>cb_CDat := d, cb_Added := cb_Added ?c @ [p], cb_AddVals := a, cb_AddLits := []\<rparr>
          in extended cls K p ?c c \<and> p \<noteq> CNull \<and> cd_Len d \<le> cd_Len (cb_CDat ?c) + (length ms + 2)
             \<and> (if K = [] then add_end s = Some (s\<lparr>sv_Cdb := c\<lparr>cb_Bot := p\<rparr>\<rparr>) else add_end s = attach_run K p c s)"
    using add_end_run [OF w(1) B room] unfolding add_result_def by blast
  show ?thesis
  proof (cases taut)
    case True
    let ?s' = "s\<lparr>sv_Cdb := ?c\<lparr>cb_AddLits := [], cb_AddVals := a, cb_checkModel := cb_checkModel ?c\<rparr>\<rparr>"
    have "works fl ?s'" by (rule works_cong [OF wk, where l = "[]" and a = a and b = "cb_checkModel ?c" and p = "cb_Bot ?c"]) simp_all
    then have "work_post fl ms s ?s'" using al a by (simp add: work_post_def buffered_def add_frame_def)
    then show ?thesis using run True by simp
  next
    case False
    have K: "distinct (map lit_Var K)" "\<forall>m \<in> set K. in_range ?v m \<and> val_of ?v m = 0"
      using S rng False by (auto simp: simplified_def)
    from run False obtain p d c1 where c1: "c1 = ?c\<lparr>cb_CDat := d, cb_Added := cb_Added ?c @ [p], cb_AddVals := a, cb_AddLits := []\<rparr>"
      and ex: "extended cls K p ?c c1" and p0: "p \<noteq> CNull" and len: "cd_Len d \<le> cd_Len (cb_CDat ?c) + (length ms + 2)"
      and run: "if K = [] then add_end s = Some (s\<lparr>sv_Cdb := c1\<lparr>cb_Bot := p\<rparr>\<rparr>) else add_end s = attach_run K p c1 s"
      by (auto simp: Let_def)
    show ?thesis
    proof (cases "K = []")
      case True
      have "attach_run K p c1 s = Some (s\<lparr>sv_Cdb := c1\<rparr>)" by (simp add: attach_run_def True)
      then have "works fl (s\<lparr>sv_Cdb := c1\<rparr>)" using works_extend [OF w K ex] by (simp add: returns_def)
      then have "works fl (s\<lparr>sv_Cdb := c1\<lparr>cb_Bot := p\<rparr>\<rparr>)"
        by (rule works_cong [where l = "cb_AddLits c1" and a = "cb_AddVals c1" and b = "cb_checkModel c1" and p = p]) simp_all
      then have "work_post fl ms s (s\<lparr>sv_Cdb := c1\<lparr>cb_Bot := p\<rparr>\<rparr>)"
        using al a len p0 by (simp add: work_post_def buffered_def add_frame_def c1)
      then show ?thesis using run True by simp
    next
      case ne: False
      then have run: "add_end s = attach_run K p c1 s" using run by simp
      show ?thesis
        unfolding run
      proof (rule returns_mono [OF works_extend [OF w K ex]], elim conjE)
        fix s' :: "'a solver"
        assume c': "works fl s'" and s': "s' = s\<lparr>sv_Cdb := c1, sv_Trail := sv_Trail s', sv_Vars := sv_Vars s'\<rparr>"
          and tp: "vs_Top (sv_Vars s') = vs_Top ?v" "vs_Max (sv_Vars s') = vs_Max ?v"
        have f: "sv_Cdb s' = c1" "sv_x s' = sv_x s" "sv_testLevels s' = sv_testLevels s"
          "sv_endTestLevel s' = sv_endTestLevel s" "sv_assumes s' = sv_assumes s" by (subst s', simp)+
        show "work_post fl ms s s'" using c' al a len tp by (simp add: work_post_def buffered_def add_frame_def f c1)
      qed
    qed
  qed
qed

lemma add_end_ok:
  assumes core: "core fl F s" and W: "propagated s" and lv: "tr_Level (sv_Trail s) = 0" and B: "buffered ms s"
    and room: "2 * (cd_Len (cb_CDat (sv_Cdb s)) + length ms + 2) < 2147483648"
  shows "returns (add_end s) (add_post fl F ms s)"
proof -
  let ?v = "sv_Vars s" and ?c = "sv_Cdb s"
  obtain cls where cr: "core_at fl F cls s" using core by (auto simp: core_def)
  note CP = core_parts [OF core]
  have rng: "\<forall>m \<in> set ms. in_range ?v m \<and> lit_Var m \<le> vs_Max ?v" and al: "unat (vs_Top ?v) \<le> length (cb_AddVals ?c)"
    using B by (simp_all add: buffered_def)
  obtain taut K a where S: "simplified ?v ms taut K" and a: "length a = length (cb_AddVals ?c)" "\<forall>x \<in> set a. x = 0"
    and run: "if taut then add_end s = Some (s\<lparr>sv_Cdb := ?c\<lparr>cb_AddLits := [], cb_AddVals := a, cb_checkModel := cb_checkModel ?c\<rparr>\<rparr>)
        else \<exists>p d. let c = ?c\<lparr>cb_CDat := d, cb_Added := cb_Added ?c @ [p], cb_AddVals := a, cb_AddLits := []\<rparr>
          in extended cls K p ?c c \<and> p \<noteq> CNull \<and> cd_Len d \<le> cd_Len (cb_CDat ?c) + (length ms + 2)
             \<and> (if K = [] then add_end s = Some (s\<lparr>sv_Cdb := c\<lparr>cb_Bot := p\<rparr>\<rparr>) else add_end s = attach_run K p c s)"
    using add_end_run [OF core_workable [OF cr] B room] unfolding add_result_def by blast
  show ?thesis
  proof (cases taut)
    case True
    let ?c' = "?c\<lparr>cb_AddLits := [], cb_AddVals := a, cb_checkModel := cb_checkModel ?c\<rparr>"
    have "cnf_true \<sigma> (ms # F) \<longleftrightarrow> cnf_true \<sigma> F" for \<sigma>
      using simplified_means(1) [OF core lv _ S] rng True by (auto simp: cnf_true_def)
    then have "core fl (ms # F) s" using cr core_formula unfolding core_def by blast
    then have "core fl (ms # F) (s\<lparr>sv_Cdb := ?c'\<rparr>)" "propagated (s\<lparr>sv_Cdb := ?c'\<rparr>)" using core_buffers [OF _ refl] W by blast+
    moreover have "buffered [] (s\<lparr>sv_Cdb := ?c'\<rparr>)" using al a by (simp add: buffered_def)
    moreover have "add_frame (length ms + 2) s (s\<lparr>sv_Cdb := ?c'\<rparr>)" by (simp add: add_frame_def)
    ultimately have "add_post fl F ms s (s\<lparr>sv_Cdb := ?c'\<rparr>)" using CP(7) lv by (simp add: add_post_def)
    then show ?thesis using run True by simp
  next
    case False
    have K: "distinct (map lit_Var K)" "\<forall>m \<in> set K. in_range ?v m \<and> val_of ?v m = 0" "\<forall>m \<in> set K. lit_Var m \<le> vs_Max ?v"
      using S rng by (auto simp: simplified_def)
    have eq: "clause_true \<sigma> ms \<longleftrightarrow> clause_true \<sigma> K" if "cnf_true \<sigma> F" for \<sigma>
      using simplified_means(2) [OF core lv _ S that] rng False by simp
    from run False obtain p d c1 where c1: "c1 = ?c\<lparr>cb_CDat := d, cb_Added := cb_Added ?c @ [p], cb_AddVals := a, cb_AddLits := []\<rparr>"
      and ex: "extended cls K p ?c c1" and p0: "p \<noteq> CNull" and len: "cd_Len d \<le> cd_Len (cb_CDat ?c) + (length ms + 2)"
      and run: "if K = [] then add_end s = Some (s\<lparr>sv_Cdb := c1\<lparr>cb_Bot := p\<rparr>\<rparr>) else add_end s = attach_run K p c1 s"
      by (auto simp: Let_def)
    show ?thesis
    proof (cases "K = []")
      case True
      let ?s' = "s\<lparr>sv_Cdb := c1\<lparr>cb_Bot := p\<rparr>\<rparr>"
      have "\<not> cnf_true \<sigma> (ms # F)" for \<sigma>
        using eq True by (auto simp: cnf_true_def clause_true_def)
      moreover have "buffered [] ?s'" "add_frame (length ms + 2) s ?s'" using al a len by (simp_all add: buffered_def add_frame_def c1)
      ultimately have "add_post fl F ms s ?s'" using lv p0 by (simp add: add_post_def)
      then show ?thesis using run True by simp
    next
      case ne: False
      then have run: "add_end s = attach_run K p c1 s" using run by simp
      show ?thesis
        unfolding run
      proof (rule returns_mono [OF core_extend [where ms = ms, OF cr W lv ne K _ ex]], erule eq, elim conjE)
        fix s' :: "'a solver"
        assume c': "core fl (ms # F) s'" "propagated s'" "tr_Level (sv_Trail s') = 0"
          and s': "s' = s\<lparr>sv_Cdb := c1, sv_Trail := sv_Trail s', sv_Vars := sv_Vars s'\<rparr>"
          and tp: "vs_Top (sv_Vars s') = vs_Top ?v" "vs_Max (sv_Vars s') = vs_Max ?v"
        have f: "sv_Cdb s' = c1" "sv_x s' = sv_x s" "sv_testLevels s' = sv_testLevels s"
          "sv_endTestLevel s' = sv_endTestLevel s" "sv_assumes s' = sv_assumes s" by (subst s', simp)+
        have "buffered [] s'" "add_frame (length ms + 2) s s'" using al a len tp by (simp_all add: buffered_def add_frame_def f c1)
        then show "add_post fl F ms s s'" using c' tp CP(7) by (simp add: add_post_def f c1)
      qed
    qed
  qed
qed

section \<open>Raising the number of variables\<close>

lemma push_vars_ok:
  assumes "guess_room fl v g" and "n < unat (vs_Top v)"
  shows "returns (foldM (\<lambda>i. Guess_Push fl (var_Pos (of_nat i))) [k..<n + 1] g) (\<lambda>g'. guess_room fl v g'
     \<and> (\<forall>x. x \<in> set (gs_vhp g') \<longleftrightarrow> x \<in> set (gs_vhp g) \<or> k \<le> unat x \<and> unat x \<le> n))"
  using assms
proof (induction "n + 1 - k" arbitrary: k g)
  case 0
  then have "n < k" by simp
  then show ?case using 0 by auto
next
  case (Suc d)
  then have kn: "k \<le> n" by simp
  have split: "[k..<n + 1] = k # [Suc k..<n + 1]" using kn by (simp add: upt_conv_Cons)
  have pl: "length (gs_pos g) < 2 ^ 32" and top: "unat (vs_Top v) \<le> length (gs_pos g)" "heap_ok fl g"
    and wl: "length (gs_pos g) < 2 ^ 31"
    using Suc.prems(1) by (auto simp: guess_room_def heap_ok_def gs_wf_def)
  have uk: "unat (of_nat k :: u32) = k" by (rule unat_of_nat32) (use kn Suc.prems(2) pl top in simp)
  have "k < 2 ^ 31" using kn Suc.prems(2) top wl by simp
  then have vk: "lit_Var (var_Pos (of_nat k)) = (of_nat k :: u32)" by (intro lit_Var_Pos) (simp only: uk)
  have "unat (lit_Var (var_Pos (of_nat k))) < length (gs_pos g)" unfolding vk uk using kn Suc.prems(2) top by simp
  then obtain g1 where run: "Guess_Push fl (var_Pos (of_nat k)) g = Some g1" and g1: "heap_ok fl g1"
      "length (gs_pos g1) = length (gs_pos g)" "set (gs_vhp g1) = insert (of_nat k) (set (gs_vhp g))"
    using Guess_Push_spec [OF top(2), of "var_Pos (of_nat k)"] vk by (auto simp: returns_def)
  have ek: "x = of_nat k \<longleftrightarrow> unat x = k" for x :: u32 by (metis uk word_eq_iff_unat)
  have "returns (foldM (\<lambda>i. Guess_Push fl (var_Pos (of_nat i))) [Suc k..<n + 1] g1) (\<lambda>g'. guess_room fl v g'
     \<and> (\<forall>x. x \<in> set (gs_vhp g') \<longleftrightarrow> x \<in> set (gs_vhp g1) \<or> Suc k \<le> unat x \<and> unat x \<le> n))"
    by (rule Suc.hyps(1)) (use Suc.hyps(2) Suc.prems g1 top in \<open>simp_all add: guess_room_def\<close>)
  moreover have "x \<in> set (gs_vhp g1) \<or> Suc k \<le> unat x \<and> unat x \<le> n
      \<longleftrightarrow> x \<in> set (gs_vhp g) \<or> k \<le> unat x \<and> unat x \<le> n" for x
    using kn by (auto simp: g1(3) ek)
  ultimately show ?case unfolding split by (simp add: run)
qed

lemma core_raise:
  assumes core: "core fl F s" and mx: "vs_Max (sv_Vars s) \<le> mx" "mx < vs_Top (sv_Vars s)"
    and g: "guess_room fl (sv_Vars s) g"
    and hp: "\<forall>x. x \<in> set (gs_vhp g) \<longleftrightarrow> x \<in> set (gs_vhp (sv_Guess s)) \<or> vs_Max (sv_Vars s) < x \<and> x \<le> mx"
  shows "core fl F (s\<lparr>sv_Guess := g, sv_Vars := (sv_Vars s)\<lparr>vs_Max := mx\<rparr>\<rparr>)"
proof -
  obtain cls where cr: "core_at fl F cls s" using core by (auto simp: core_def)
  note C = core_atD [OF cr]
  let ?v = "sv_Vars s" and ?v' = "(sv_Vars s)\<lparr>vs_Max := mx\<rparr>"
  have f: "in_range ?v' = in_range ?v" "val_of ?v' = val_of ?v" "reason ?v' = reason ?v" "lev ?v' = lev ?v"
    "decs ?v' = decs ?v" "vars_ok ?v'"
    using mx core_parts(5) [OF core]
    by (simp_all add: fun_eq_iff in_range_def val_of_def reason_def lev_def decs_def vars_ok_def)
  have tr: "trail_ok t ?v' \<longleftrightarrow> trail_ok t ?v" for t
    using f core_parts(5) [OF core] by (simp add: trail_ok_def)
  have "search_ok (db_of s) (live cls (sv_Cdb s)) (att (sv_Cdb s)) (sv_Trail s) ?v'"
    using C(3) by (simp add: search_ok_def tr f reasons_ok_def unproc_ok_def clauses_ok_def)
  moreover have "means F (locs cls) (sv_Cdb s) (sv_Trail s) ?v'" using C(4) by (simp add: means_def f)
  moreover have "added_ok (sv_Cdb s) (sv_Trail s) ?v'"
    using C(5) mx(1) unfolding added_ok_def f by (auto intro: order_trans)
  moreover have "deriv_ok (sv_Trail s) ?v' (sv_Driver s)" using C(6) by (simp add: deriv_ok_def f)
  moreover have "guess_room fl ?v' g" using g by (simp add: guess_room_def)
  moreover have "heap_full ?v' g"
    unfolding heap_full_def
  proof (intro conjI ballI allI impI)
    fix x assume "x \<in> set (gs_vhp g)"
    then consider "x \<in> set (gs_vhp (sv_Guess s))" | "vs_Max ?v < x" "x \<le> mx" using hp by blast
    then have "0 < unat x \<and> x < vs_Top ?v"
    proof cases
      case 1
      then show ?thesis using C(8) by (simp add: heap_full_def)
    next
      case 2
      have "0 < unat x" using 2(1) by (simp add: word_less_nat_alt)
      then show ?thesis using order_le_less_trans [OF 2(2) mx(2)] by simp
    qed
    then show "0 < unat x" "x < vs_Top ?v'" by simp_all
  next
    fix x assume x: "0 < unat x" "x \<le> vs_Max ?v'" "free_var (vs_Vals ?v') x"
    show "x \<in> set (gs_vhp g)"
    proof (cases "x \<le> vs_Max ?v")
      case True
      then show ?thesis using C(8) hp x by (simp add: heap_full_def)
    next
      case False
      then show ?thesis using hp x(2) by (simp add: not_le)
    qed
  qed
  ultimately have "core_at fl F cls (s\<lparr>sv_Guess := g, sv_Vars := ?v'\<rparr>)"
    using C(1,2,9,10) by (simp add: core_at_def)
  then show ?thesis by (auto simp: core_def)
qed

section \<open>Adding a clause to the solver\<close>

lemma settled_cong:
  assumes "settled s" and "sv_x s' = sv_x s" and "sv_Trail s' = sv_Trail s" and "db_of s' = db_of s" and "att (sv_Cdb s') = att (sv_Cdb s)"
    and "lev (sv_Vars s') = lev (sv_Vars s)" and "val_of (sv_Vars s') = val_of (sv_Vars s)"
  shows "settled s'"
proof -
  have "prop_upto D Q t (sv_Vars s') L \<longleftrightarrow> prop_upto D Q t (sv_Vars s) L" for D Q t L
    by (simp add: prop_upto_def assms(6))
  then show ?thesis using assms(1) unfolding settled_def propagated_def conflicting_def assms(2-) by simp
qed

lemma ensureLitCap_ok:
  assumes core: "core fl F s" and m: "lit_Var m < vs_Top (sv_Vars s)"
  shows "returns (ensureLitCap fl m s) (\<lambda>s'. core fl F s' \<and> lit_Var m \<le> vs_Max (sv_Vars s') \<and> vs_Max (sv_Vars s) \<le> vs_Max (sv_Vars s')
     \<and> s' = s\<lparr>sv_Guess := sv_Guess s', sv_Vars := (sv_Vars s)\<lparr>vs_Max := vs_Max (sv_Vars s')\<rparr>\<rparr>)"
proof (cases "lit_Var m > vs_Max (sv_Vars s)")
  case False
  then have "ensureLitCap fl m s = Some s" using m by (auto simp: ensureLitCap_def Let_def)
  then show ?thesis using core False by auto
next
  case True
  note CP = core_parts [OF core]
  have b: "unat (lit_Var m) < unat (vs_Top (sv_Vars s))" using m by (simp add: word_less_nat_alt)
  obtain g where run: "push_vars fl (vs_Max (sv_Vars s)) (lit_Var m) (sv_Guess s) = Some g"
    and g: "guess_room fl (sv_Vars s) g"
      "\<forall>x. x \<in> set (gs_vhp g) \<longleftrightarrow> x \<in> set (gs_vhp (sv_Guess s)) \<or> unat (vs_Max (sv_Vars s)) + 1 \<le> unat x \<and> unat x \<le> unat (lit_Var m)"
    using push_vars_ok [OF CP(3) b] by (auto simp: returns_def push_vars_def)
  have "\<forall>x. x \<in> set (gs_vhp g) \<longleftrightarrow> x \<in> set (gs_vhp (sv_Guess s)) \<or> vs_Max (sv_Vars s) < x \<and> x \<le> lit_Var m"
    using g(2) by (simp add: word_less_nat_alt word_le_nat_alt Suc_le_eq)
  note core_raise [OF core order_less_imp_le [OF True] m g(1) this]
  moreover have "ensureLitCap fl m s = Some (s\<lparr>sv_Guess := g, sv_Vars := (sv_Vars s)\<lparr>vs_Max := lit_Var m\<rparr>\<rparr>)"
    using m True run by (auto simp: ensureLitCap_def Let_def)
  ultimately show ?thesis using True by simp
qed

lemma S_Add_lit_ok:
  assumes core: "core fl F s" and st: "settled s" and B: "buffered ms s" and m: "in_range (sv_Vars s) m"
  shows "returns (S_Add fl m s) (\<lambda>s'. core fl F s' \<and> settled s' \<and> buffered (ms @ [m]) s' \<and> add_frame 0 s s' \<and> sv_x s' = sv_x s)"
proof -
  have nn: "m \<noteq> LitNull" by (rule in_range_nonnull [OF m])
  have mt: "lit_Var m < vs_Top (sv_Vars s)" using m by (simp add: in_range_def word_less_nat_alt)
  obtain s1 where run: "ensureLitCap fl m s = Some s1" and c1: "core fl F s1" and mx: "lit_Var m \<le> vs_Max (sv_Vars s1)"
      "vs_Max (sv_Vars s) \<le> vs_Max (sv_Vars s1)"
    and s1: "s1 = s\<lparr>sv_Guess := sv_Guess s1, sv_Vars := (sv_Vars s)\<lparr>vs_Max := vs_Max (sv_Vars s1)\<rparr>\<rparr>"
    using ensureLitCap_ok [OF core mt] unfolding returns_def by blast
  have f: "sv_Cdb s1 = sv_Cdb s" "sv_Trail s1 = sv_Trail s" "sv_x s1 = sv_x s" "sv_testLevels s1 = sv_testLevels s"
      "sv_endTestLevel s1 = sv_endTestLevel s" "sv_assumes s1 = sv_assumes s" "vs_Top (sv_Vars s1) = vs_Top (sv_Vars s)"
      "lev (sv_Vars s1) = lev (sv_Vars s)" "val_of (sv_Vars s1) = val_of (sv_Vars s)" "in_range (sv_Vars s1) = in_range (sv_Vars s)"
    by (subst s1, simp add: fun_eq_iff lev_def val_of_def in_range_def)+
  let ?c = "(sv_Cdb s1)\<lparr>cb_AddLits := ms @ [m], cb_AddVals := cb_AddVals (sv_Cdb s1), cb_checkModel := cb_checkModel (sv_Cdb s1)\<rparr>"
  let ?s = "s1\<lparr>sv_Cdb := ?c\<rparr>"
  have "S_Add fl m s = Some ?s" using B nn run by (simp add: S_Add_def Cdb_Add_def buffered_def f)
  moreover have "core fl F ?s" by (rule core_buffers(1) [OF c1 refl])
  moreover have "settled ?s"
    by (rule settled_cong [OF st]) (simp_all add: f att_def)
  moreover have "buffered (ms @ [m]) ?s"
    using B m mx order_trans [OF _ mx(2)] by (auto simp: buffered_def f)
  moreover have "add_frame 0 s ?s" using mx(2) by (simp add: add_frame_def f)
  ultimately show ?thesis by (simp add: f)
qed

lemma ensure0_ok:
  assumes core: "core fl F s" and st: "settled s" and tl: "sv_testLevels s = []"
    and sat: "sv_x s = CNull \<or> (\<exists>\<sigma>. cnf_true \<sigma> F)"
  shows "returns (ensure0 fl s) (\<lambda>s'. core fl F s' \<and> propagated s' \<and> tr_Level (sv_Trail s') = 0 \<and> sv_x s' = CNull
     \<and> sv_Cdb s' = sv_Cdb s \<and> vs_Max (sv_Vars s') = vs_Max (sv_Vars s) \<and> add_frame 0 s s')"
proof -
  have low: "0 \<le> tr_Level (sv_Trail s)" using trail_okD(9) [OF core_parts(1) [OF core]] by simp
  obtain s1 where run: "(if tr_Level (sv_Trail s) \<noteq> 0 then s_Back fl 0 s else Some s) = Some s1"
    and c1: "core fl F s1" "propagated s1" "tr_Level (sv_Trail s1) = 0" and sc: "same_call s s1" "sv_Cdb s1 = sv_Cdb s"
  proof (cases "tr_Level (sv_Trail s) = 0")
    case True
    then have "\<not> conflicting (sv_x s) s \<or> sv_x s = CNull" using conflict_level [OF core] sat by fastforce
    then have "propagated s" using st by (auto simp: settled_def split: if_splits)
    then show thesis using that core True by simp
  next
    case False
    have "below s" using st propagated_below conflicting_below by (auto simp: settled_def split: if_splits)
    then obtain s' where r: "s_Back fl 0 s = Some s'" "core fl F s'" "propagated s'" and b: "back_post 0 s s'"
      using core_Back [OF core _ order_refl] False low by (auto simp: returns_def)
    have "tr_Level (sv_Trail s') = 0" using b by (simp add: back_post_def)
    then show thesis using that [of s'] r False back_post_frame(1,2) [OF b] by simp
  qed
  let ?s = "s1\<lparr>sv_x := CNull, sv_xLit := LitNull, sv_failed := []\<rparr>"
  have "core fl F ?s" using c1(1) core_cong(4,5,8) unfolding core_def by blast
  moreover have "propagated ?s" using c1(2) by (simp add: propagated_def)
  moreover have "ensure0 fl s = Some ?s" using run tl by (simp add: ensure0_def)
  ultimately show ?thesis using c1(3) sc by (simp add: add_frame_def same_call_def)
qed

lemma S_Add_null_ok:
  assumes core: "core fl F s" and st: "settled s" and tl: "sv_testLevels s = []" and sat: "sv_x s = CNull \<or> (\<exists>\<sigma>. cnf_true \<sigma> F)"
    and B: "buffered ms s" and room: "2 * (cd_Len (cb_CDat (sv_Cdb s)) + length ms + 2) < 2147483648"
  shows "returns (S_Add fl LitNull s) (\<lambda>s'. buffered [] s' \<and> add_frame (length ms + 2) s s' \<and> sv_x s' = CNull
     \<and> tr_Level (sv_Trail s') = 0 \<and> works fl s' \<and> (if cb_Bot (sv_Cdb s') = CNull then core fl (ms # F) s' \<and> settled s'
        else \<forall>\<sigma>. \<not> cnf_true \<sigma> (ms # F)))"
proof -
  have "lit_Var LitNull < vs_Top (sv_Vars s)" "\<not> lit_Var LitNull > vs_Max (sv_Vars s)"
    using vars_okD(1) [OF core_parts(5) [OF core]] by (auto simp: LitNull_def lit_Var_def word_less_nat_alt)
  then have cap: "ensureLitCap fl LitNull s = Some s" by (auto simp: ensureLitCap_def Let_def)
  obtain s1 where e0: "ensure0 fl s = Some s1" and c1: "core fl F s1" "propagated s1" "tr_Level (sv_Trail s1) = 0" "sv_x s1 = CNull"
      and f: "sv_Cdb s1 = sv_Cdb s" "vs_Max (sv_Vars s1) = vs_Max (sv_Vars s)" "add_frame 0 s s1"
    using ensure0_ok [OF core st tl sat] by (auto simp: returns_def)
  let ?c = "(sv_Cdb s1)\<lparr>cb_AddLits := cb_AddLits (sv_Cdb s1), cb_AddVals := cb_AddVals (sv_Cdb s1), cb_checkModel := True\<rparr>"
  let ?s2 = "s1\<lparr>sv_Cdb := ?c\<rparr>"
  have c2: "core fl F ?s2" "propagated ?s2" using core_buffers [OF c1(1) refl] c1(2) by blast+
  have B2: "buffered ms ?s2" using B f by (simp add: buffered_def add_frame_def in_range_def)
  have run: "S_Add fl LitNull s = add_end ?s2"
    by (simp add: S_Add_def cap e0 add_end_def)
  have lv2: "tr_Level (sv_Trail ?s2) = 0" using c1(3) by simp
  have rm2: "2 * (cd_Len (cb_CDat (sv_Cdb ?s2)) + length ms + 2) < 2147483648" using room by (simp add: f)
  show ?thesis
    unfolding run
  proof (rule returns_mono [OF returns_conj [OF add_end_ok [OF c2 lv2 B2 rm2] work_end_ok [OF core_works [OF c2 lv2] B2 rm2]]], elim conjE)
    fix s' assume post: "add_post fl F ms ?s2 s'" and wp: "work_post fl ms ?s2 s'"
    then have fr: "add_frame (length ms + 2) ?s2 s'" by (simp add: add_post_def)
    have fr0: "add_frame 0 s ?s2" using f(3) by (simp add: add_frame_def)
    have "add_frame (length ms + 2) s s'" by (rule add_frame_trans [OF fr0 fr]) simp
    then show "buffered [] s' \<and> add_frame (length ms + 2) s s' \<and> sv_x s' = CNull
     \<and> tr_Level (sv_Trail s') = 0 \<and> works fl s' \<and> (if cb_Bot (sv_Cdb s') = CNull then core fl (ms # F) s' \<and> settled s'
        else \<forall>\<sigma>. \<not> cnf_true \<sigma> (ms # F))"
      using post wp c1(4) by (auto simp: add_post_def work_post_def settled_def)
  qed
qed

lemma S_Adds_append: "S_Adds fl (xs @ ys) s = do { s \<leftarrow> S_Adds fl xs s; S_Adds fl ys s }"
  by (induction xs arbitrary: s) (auto simp: bind_assoc split: bind_splits)

lemma S_Adds_lits_ok:
  assumes "core fl F s" and "settled s" and "buffered ks s" and "\<forall>m \<in> set ms. in_range (sv_Vars s) m"
  shows "returns (S_Adds fl ms s) (\<lambda>s'. core fl F s' \<and> settled s' \<and> buffered (ks @ ms) s' \<and> add_frame 0 s s' \<and> sv_x s' = sv_x s)"
  using assms
proof (induction ms arbitrary: s ks)
  case Nil
  then show ?case by (simp add: add_frame_def)
next
  case (Cons m ms)
  obtain s1 where run: "S_Add fl m s = Some s1" and s1: "core fl F s1" "settled s1" "buffered (ks @ [m]) s1" "add_frame 0 s s1" "sv_x s1 = sv_x s"
    using S_Add_lit_ok [OF Cons.prems(1-3)] Cons.prems(4) by (auto simp: returns_def)
  have "\<forall>m \<in> set ms. in_range (sv_Vars s1) m" using Cons.prems(4) s1(4) by (simp add: add_frame_def in_range_def)
  from Cons.IH [OF s1(1-3) this] show ?case
    using s1(4,5) run by (auto intro: add_frame_trans elim!: returns_mono)
qed

text \<open>What a solver is between two operations: ready, with an empty buffer.\<close>

definition holds :: "'h floats \<Rightarrow> lit list list \<Rightarrow> 'h solver \<Rightarrow> bool" where
  "holds fl F s \<longleftrightarrow> idle fl F s \<and> buffered [] s \<and> (sv_x s = CNull \<or> (\<exists>\<sigma>. cnf_true \<sigma> F))"

lemma S_Adds_clause_ok:
  assumes R: "holds fl F s" and ms: "\<forall>m \<in> set ms. in_range (sv_Vars s) m"
    and room: "2 * (cd_Len (cb_CDat (sv_Cdb s)) + length ms + 2) < 2147483648"
  shows "returns (S_Adds fl (ms @ [LitNull]) s) (\<lambda>s'. add_frame (length ms + 2) s s' \<and> sv_x s' = CNull
     \<and> (\<forall>m \<in> set ms. lit_Var m \<le> vs_Max (sv_Vars s')) \<and> tr_Level (sv_Trail s') = 0 \<and> buffered [] s' \<and> works fl s'
     \<and> (if cb_Bot (sv_Cdb s') = CNull then holds fl (ms # F) s' else \<forall>\<sigma>. \<not> cnf_true \<sigma> (ms # F)))"
proof -
  have I: "core fl F s" "settled s" "sv_testLevels s = []" "sv_endTestLevel s = 0" and B: "buffered [] s"
    and sat: "sv_x s = CNull \<or> (\<exists>\<sigma>. cnf_true \<sigma> F)" using R by (simp_all add: holds_def idle_def)
  obtain s1 where r1: "S_Adds fl ms s = Some s1" and s1: "core fl F s1" "settled s1" "buffered ms s1" "add_frame 0 s s1" "sv_x s1 = sv_x s"
    using S_Adds_lits_ok [OF I(1,2) B ms] by (auto simp: returns_def)
  have tl: "sv_testLevels s1 = []" "sv_endTestLevel s1 = 0" using s1(4) I by (simp_all add: add_frame_def)
  have room1: "2 * (cd_Len (cb_CDat (sv_Cdb s1)) + length ms + 2) < 2147483648" using room s1(4) by (simp add: add_frame_def)
  have sat1: "sv_x s1 = CNull \<or> (\<exists>\<sigma>. cnf_true \<sigma> F)" using sat s1(5) by simp
  have below: "\<forall>m \<in> set ms. lit_Var m \<le> vs_Max (sv_Vars s1)" using s1(3) by (simp add: buffered_def)
  have "returns (S_Add fl LitNull s1) (\<lambda>s'. add_frame (length ms + 2) s s' \<and> sv_x s' = CNull
     \<and> (\<forall>m \<in> set ms. lit_Var m \<le> vs_Max (sv_Vars s')) \<and> tr_Level (sv_Trail s') = 0 \<and> buffered [] s' \<and> works fl s'
     \<and> (if cb_Bot (sv_Cdb s') = CNull then holds fl (ms # F) s' else \<forall>\<sigma>. \<not> cnf_true \<sigma> (ms # F)))"
  proof (rule returns_mono [OF S_Add_null_ok [OF s1(1,2) tl(1) sat1 s1(3) room1]])
    fix s' assume post: "buffered [] s' \<and> add_frame (length ms + 2) s1 s' \<and> sv_x s' = CNull
     \<and> tr_Level (sv_Trail s') = 0 \<and> works fl s' \<and> (if cb_Bot (sv_Cdb s') = CNull then core fl (ms # F) s' \<and> settled s'
        else \<forall>\<sigma>. \<not> cnf_true \<sigma> (ms # F))"
    have "vs_Max (sv_Vars s1) \<le> vs_Max (sv_Vars s')" using post by (simp add: add_frame_def)
    then have "\<forall>m \<in> set ms. lit_Var m \<le> vs_Max (sv_Vars s')" using below by (blast intro: order_trans)
    moreover have "add_frame (length ms + 2) s s'" using s1(4) post by (blast intro: add_frame_trans [where m = 0, simplified])
    moreover from this have "sv_testLevels s' = []" "sv_endTestLevel s' = 0" using I by (simp_all add: add_frame_def)
    ultimately show "add_frame (length ms + 2) s s' \<and> sv_x s' = CNull
     \<and> (\<forall>m \<in> set ms. lit_Var m \<le> vs_Max (sv_Vars s')) \<and> tr_Level (sv_Trail s') = 0 \<and> buffered [] s' \<and> works fl s'
     \<and> (if cb_Bot (sv_Cdb s') = CNull then holds fl (ms # F) s' else \<forall>\<sigma>. \<not> cnf_true \<sigma> (ms # F))"
      using post by (auto simp: holds_def idle_def)
  qed
  then show ?thesis by (simp add: S_Adds_append r1)
qed

section \<open>After the formula is refuted\<close>

text \<open>
  Once adding has met an empty clause the solver only has to answer \<open>-1\<close>; further clauses are still
  stored and attached.
\<close>

definition refuted :: "'h floats \<Rightarrow> 'h solver \<Rightarrow> bool" where
  "refuted fl s \<longleftrightarrow> works fl s \<and> buffered [] s \<and> cb_Bot (sv_Cdb s) \<noteq> CNull \<and> sv_x s = CNull
     \<and> sv_testLevels s = [] \<and> sv_endTestLevel s = 0"

lemma works_raise:
  assumes wk: "works fl s" and mx: "vs_Max (sv_Vars s) \<le> mx" "mx < vs_Top (sv_Vars s)" and g: "guess_room fl (sv_Vars s) g"
  shows "works fl (s\<lparr>sv_Guess := g, sv_Vars := (sv_Vars s)\<lparr>vs_Max := mx\<rparr>\<rparr>)"
proof -
  obtain cls where w: "workable fl cls s" "propagated s" "tr_Level (sv_Trail s) = 0" using wk by (auto simp: works_def)
  note C = workableD [OF w(1)]
  let ?v = "sv_Vars s" and ?v' = "(sv_Vars s)\<lparr>vs_Max := mx\<rparr>"
  have f: "in_range ?v' = in_range ?v" "val_of ?v' = val_of ?v" "reason ?v' = reason ?v" "lev ?v' = lev ?v"
    "decs ?v' = decs ?v" "vars_ok ?v'"
    using mx C(6) by (simp_all add: fun_eq_iff in_range_def val_of_def reason_def lev_def decs_def vars_ok_def)
  have tr: "trail_ok t ?v' \<longleftrightarrow> trail_ok t ?v" for t
    using f C(6) by (simp add: trail_ok_def)
  have "search_ok (db_of s) (live cls (sv_Cdb s)) (att (sv_Cdb s)) (sv_Trail s) ?v'"
    using C(3) by (simp add: search_ok_def tr f reasons_ok_def unproc_ok_def clauses_ok_def)
  then have "workable fl cls (s\<lparr>sv_Guess := g, sv_Vars := ?v'\<rparr>)"
    using C(1,2) g by (simp add: workable_def guess_room_def)
  moreover have "propagated (s\<lparr>sv_Guess := g, sv_Vars := ?v'\<rparr>)" using w(2) by (simp add: propagated_def prop_upto_def f)
  ultimately show ?thesis using w(3) by (auto simp: works_def)
qed

lemma works_ensureLitCap:
  assumes wk: "works fl s" and m: "in_range (sv_Vars s) m"
  shows "\<exists>g mx. ensureLitCap fl m s = Some (s\<lparr>sv_Guess := g, sv_Vars := (sv_Vars s)\<lparr>vs_Max := mx\<rparr>\<rparr>)
     \<and> works fl (s\<lparr>sv_Guess := g, sv_Vars := (sv_Vars s)\<lparr>vs_Max := mx\<rparr>\<rparr>) \<and> lit_Var m \<le> mx \<and> vs_Max (sv_Vars s) \<le> mx"
proof -
  obtain cls where w: "workable fl cls s" using wk by (auto simp: works_def)
  have mt: "lit_Var m < vs_Top (sv_Vars s)" "unat (lit_Var m) < unat (vs_Top (sv_Vars s))" using m by (simp_all add: in_range_def word_less_nat_alt)
  show ?thesis
  proof (cases "lit_Var m > vs_Max (sv_Vars s)")
    case False
    then have "ensureLitCap fl m s = Some s" "lit_Var m \<le> vs_Max (sv_Vars s)"
      using mt by (auto simp: ensureLitCap_def Let_def)
    then show ?thesis using wk by (intro exI [of _ "sv_Guess s"] exI [of _ "vs_Max (sv_Vars s)"]) simp
  next
    case True
    obtain g where pv: "push_vars fl (vs_Max (sv_Vars s)) (lit_Var m) (sv_Guess s) = Some g" and g: "guess_room fl (sv_Vars s) g"
      using push_vars_ok [OF workableD(4) [OF w] mt(2)] by (auto simp: returns_def push_vars_def)
    then have "ensureLitCap fl m s = Some (s\<lparr>sv_Guess := g, sv_Vars := (sv_Vars s)\<lparr>vs_Max := lit_Var m\<rparr>\<rparr>)"
      using mt True by (auto simp: ensureLitCap_def Let_def)
    then show ?thesis using True works_raise [OF wk _ mt(1) g]
      by (intro exI [of _ g] exI [of _ "lit_Var m"]) simp
  qed
qed

lemma refuted_Add_lit:
  assumes wk: "works fl s" and B: "buffered ms s" and m: "in_range (sv_Vars s) m"
  shows "returns (S_Add fl m s) (\<lambda>s'. works fl s' \<and> buffered (ms @ [m]) s' \<and> add_frame 0 s s' \<and> sv_x s' = sv_x s
     \<and> cb_Bot (sv_Cdb s') = cb_Bot (sv_Cdb s))"
proof -
  have nn: "m \<noteq> LitNull" by (rule in_range_nonnull [OF m])
  obtain g mx where run: "ensureLitCap fl m s = Some (s\<lparr>sv_Guess := g, sv_Vars := (sv_Vars s)\<lparr>vs_Max := mx\<rparr>\<rparr>)" (is "_ = Some ?s1")
    and wk1: "works fl (s\<lparr>sv_Guess := g, sv_Vars := (sv_Vars s)\<lparr>vs_Max := mx\<rparr>\<rparr>)"
    and mx: "lit_Var m \<le> mx" "vs_Max (sv_Vars s) \<le> mx"
    using works_ensureLitCap [OF wk m] by blast
  let ?s = "s\<lparr>sv_Guess := g, sv_Vars := (sv_Vars s)\<lparr>vs_Max := mx\<rparr>, sv_Cdb := (sv_Cdb s)\<lparr>cb_AddLits := ms @ [m]\<rparr>\<rparr>"
  have "S_Add fl m s = Some ?s" using B nn run by (simp add: S_Add_def Cdb_Add_def buffered_def)
  moreover have "works fl ?s"
    by (rule works_cong [OF wk1, where l = "ms @ [m]" and a = "cb_AddVals (sv_Cdb s)"
          and b = "cb_checkModel (sv_Cdb s)" and p = "cb_Bot (sv_Cdb s)"]) simp_all
  moreover have "buffered (ms @ [m]) ?s" using B m mx(1) order_trans [OF _ mx(2)] by (auto simp: buffered_def in_range_def)
  moreover have "add_frame 0 s ?s" using mx(2) by (simp add: add_frame_def)
  ultimately show ?thesis by simp
qed

lemma refuted_Adds_lits:
  assumes "works fl s" and "buffered ks s" and "\<forall>m \<in> set ms. in_range (sv_Vars s) m"
  shows "returns (S_Adds fl ms s) (\<lambda>s'. works fl s' \<and> buffered (ks @ ms) s' \<and> add_frame 0 s s' \<and> sv_x s' = sv_x s
     \<and> cb_Bot (sv_Cdb s') = cb_Bot (sv_Cdb s))"
  using assms
proof (induction ms arbitrary: s ks)
  case Nil
  then show ?case by (simp add: add_frame_def)
next
  case (Cons m ms)
  obtain s1 where run: "S_Add fl m s = Some s1" and s1: "works fl s1" "buffered (ks @ [m]) s1" "add_frame 0 s s1" "sv_x s1 = sv_x s"
      "cb_Bot (sv_Cdb s1) = cb_Bot (sv_Cdb s)"
    using refuted_Add_lit [OF Cons.prems(1,2)] Cons.prems(3) by (auto simp: returns_def)
  have "\<forall>m \<in> set ms. in_range (sv_Vars s1) m" using Cons.prems(3) s1(3) by (simp add: add_frame_def in_range_def)
  from Cons.IH [OF s1(1,2) this] show ?case
    using s1(3-) run by (auto intro: add_frame_trans elim!: returns_mono)
qed

lemma refuted_Adds_clause:
  assumes R: "refuted fl s" and ms: "\<forall>m \<in> set ms. in_range (sv_Vars s) m"
    and room: "2 * (cd_Len (cb_CDat (sv_Cdb s)) + length ms + 2) < 2147483648"
  shows "returns (S_Adds fl (ms @ [LitNull]) s) (\<lambda>s'. refuted fl s' \<and> add_frame (length ms + 2) s s'
     \<and> (\<forall>m \<in> set ms. lit_Var m \<le> vs_Max (sv_Vars s')))"
proof -
  have R': "works fl s" "buffered [] s" "cb_Bot (sv_Cdb s) \<noteq> CNull" "sv_x s = CNull" "sv_testLevels s = []" "sv_endTestLevel s = 0"
    using R by (simp_all add: refuted_def)
  obtain s1 where r1: "S_Adds fl ms s = Some s1" and s1: "works fl s1" "buffered ms s1" "add_frame 0 s s1" "sv_x s1 = sv_x s"
      "cb_Bot (sv_Cdb s1) = cb_Bot (sv_Cdb s)"
    using refuted_Adds_lits [OF R'(1,2) ms] by (auto simp: returns_def)
  have tl: "sv_testLevels s1 = []" using s1(3) R' by (simp add: add_frame_def)
  obtain cls where w: "workable fl cls s1" "tr_Level (sv_Trail s1) = 0" using s1(1) by (auto simp: works_def)
  have "lit_Var LitNull < vs_Top (sv_Vars s1)" "\<not> lit_Var LitNull > vs_Max (sv_Vars s1)"
    using vars_okD(1) [OF workableD(6) [OF w(1)]] by (auto simp: LitNull_def lit_Var_def word_less_nat_alt)
  then have cap: "ensureLitCap fl LitNull s1 = Some s1" by (auto simp: ensureLitCap_def Let_def)
  let ?s2 = "s1\<lparr>sv_x := CNull, sv_xLit := LitNull, sv_failed := [], sv_Cdb := (sv_Cdb s1)\<lparr>cb_checkModel := True\<rparr>\<rparr>"
  have run: "S_Add fl LitNull s1 = add_end ?s2"
    using tl w(2) by (simp add: S_Add_def cap ensure0_def add_end_def)
  have "works fl ?s2"
    by (rule works_cong [OF s1(1), where l = "cb_AddLits (sv_Cdb s1)" and a = "cb_AddVals (sv_Cdb s1)"
          and b = True and p = "cb_Bot (sv_Cdb s1)"]) simp_all
  moreover have "buffered ms ?s2" using s1(2) by (simp add: buffered_def)
  moreover have "2 * (cd_Len (cb_CDat (sv_Cdb ?s2)) + length ms + 2) < 2147483648" using room s1(3) by (simp add: add_frame_def)
  ultimately have "returns (add_end ?s2) (work_post fl ms ?s2)" by (rule work_end_ok)
  then have "returns (S_Add fl LitNull s1) (\<lambda>s'. refuted fl s' \<and> add_frame (length ms + 2) s s'
     \<and> (\<forall>m \<in> set ms. lit_Var m \<le> vs_Max (sv_Vars s')))"
    unfolding run
  proof (rule returns_mono)
    fix s' assume w: "work_post fl ms ?s2 s'"
    have "add_frame 0 s ?s2" using s1(3) by (simp add: add_frame_def)
    moreover have "add_frame (length ms + 2) ?s2 s'" using w by (simp add: work_post_def)
    ultimately have fr: "add_frame (length ms + 2) s s'" by (rule add_frame_trans) simp
    moreover have "refuted fl s'" using w R' s1(4,5) fr by (simp add: work_post_def refuted_def add_frame_def)
    moreover have "\<forall>m \<in> set ms. lit_Var m \<le> vs_Max (sv_Vars s')"
      using w s1(2) by (simp add: work_post_def buffered_def)
    ultimately show "refuted fl s' \<and> add_frame (length ms + 2) s s' \<and> (\<forall>m \<in> set ms. lit_Var m \<le> vs_Max (sv_Vars s'))" by blast
  qed
  then show ?thesis by (simp add: S_Adds_append r1)
qed

end
