(* ===== verification/Solving.thy ===== *)
theory Solving
  imports Adding
begin

text \<open>
  The theorems about whole calls of the solver: a new solver, adding clauses, assuming, and Solve,
  from the invariants of the parts.
\<close>

section \<open>A new solver\<close>

lemma NewSVc_spec_holds:
  assumes "n < 2 ^ 29" and "m < 2 ^ 28"
  shows "returns (NewSVc fl n m) (\<lambda>s. holds fl [] s \<and> sv_x s = CNull \<and> sv_assumes s = [] \<and> tr_Level (sv_Trail s) = 0
     \<and> sv_Vars s = NewVars_xo n \<and> cd_Len (cb_CDat (sv_Cdb s)) = 0 \<and> gc_stopWatch (cb_gc (sv_Cdb s)) = 2048)"
  by (rule returns_mono [OF NewSVc_spec [OF assms]]) (simp add: holds_def buffered_def)

lemma NewVars_xo_Top:
  assumes "3 \<le> n" and "n < 2 ^ 29"
  shows "unat (vs_Top (NewVars_xo n)) = nat n + 1"
proof -
  have "nat (n + 1) = nat n + 1" using assms(1) by simp
  then have "vs_Top (NewVars_xo n) = of_nat (nat n + 1)"
    using assms(1) by (simp only: NewVars_xo_def Let_def vars.simps not_less [symmetric] if_False)
  moreover have "nat n + 1 < 2 ^ 32" using assms(2) by simp
  ultimately show ?thesis by (simp only: unat_of_nat32)
qed

text \<open>
  (C28) A solver made for \<open>n\<close> variables and \<open>m\<close> clauses is well formed: all parts agree, it
  holds the empty formula, nothing is assigned, no clause is being added, and every variable up to \<open>n\<close> is in range.
\<close>

theorem NewSVc_ready:
  assumes "3 \<le> n" and "n < 2 ^ 29" and "m < 2 ^ 28"
  shows "\<exists>s. NewSVc fl n m = Some s \<and> holds fl [] s \<and> trail_lits (sv_Trail s) = []
     \<and> (\<forall>x. 1 \<le> unat x \<and> unat x \<le> nat n \<longrightarrow> in_range (sv_Vars s) (var_Pos x) \<and> in_range (sv_Vars s) (var_Neg x))"
proof -
  obtain s where s: "NewSVc fl n m = Some s" "holds fl [] s" "sv_Vars s = NewVars_xo n" "tr_Level (sv_Trail s) = 0"
    using NewSVc_spec_holds [OF assms(2,3), of fl] by (auto simp: returns_def)
  have "sv_Trail s = NewTrail (NewVars_xo n)" using s(1,3) by (auto simp: NewSVc_def NewSCdb_def Let_def bind_eq_Some_conv)
  then have "trail_lits (sv_Trail s) = []" by simp
  note NewVars_xo_Top [OF assms(1,2)]
  moreover have "nat n < 2 ^ 29" using assms(2) by simp
  ultimately have "in_range (sv_Vars s) (var_Pos x) \<and> in_range (sv_Vars s) (var_Neg x)" if "1 \<le> unat x" "unat x \<le> nat n" for x
    using that unat_var_Pos [of x] unat_var_Neg [of x] by (simp add: in_range_def s(3))
  then show ?thesis using s \<open>trail_lits (sv_Trail s) = []\<close> by blast
qed

theorem NewSVc_ready_witness: "\<exists>s. NewSVc int_floats 3 3 = Some s \<and> holds int_floats [] s \<and> in_range (sv_Vars s) (var_Pos 3)"
  using NewSVc_ready [of 3 3 int_floats] by force

section \<open>Adding clauses\<close>

lemma refutedI:
  assumes "holds fl F s" and "add_frame n s s'" and "works fl s'" and "buffered [] s'" and "sv_x s' = CNull"
    and "cb_Bot (sv_Cdb s') \<noteq> CNull"
  shows "refuted fl s'"
  using assms by (simp add: refuted_def holds_def idle_def add_frame_def)

text \<open>
  (C5) Adding the literals of a clause and the null literal to a solver that holds \<open>F\<close>
  does not panic, wherever the last call left the search: the solver is back at level 0 and holds
  \<open>F\<close> with the new clause, its parts in agreement as before, or it has marked the formula as
  inconsistent, which happens only if it has no model. Repeated and false literals, tautologies,
  satisfied, unit and binary clauses are all covered.
\<close>

theorem Add_correct:
  assumes "holds fl F s" and "\<forall>m \<in> set ms. in_range (sv_Vars s) m"
    and "2 * (cd_Len (cb_CDat (sv_Cdb s)) + length ms + 2) < 2 ^ 31"
  shows "\<exists>s'. S_Adds fl (ms @ [LitNull]) s = Some s' \<and> tr_Level (sv_Trail s') = 0 \<and> sv_x s' = CNull
     \<and> (if cb_Bot (sv_Cdb s') = CNull then holds fl (ms # F) s' else refuted fl s' \<and> \<not> (\<exists>\<sigma>. cnf_true \<sigma> (ms # F)))"
  using S_Adds_clause_ok [OF assms(1,2)] assms(3) refutedI [OF assms(1)] by (fastforce simp: returns_def)

theorem Add_correct_witness:
  "\<exists>s s'. S_Adds int_floats [2, 5, 5, LitNull] s = Some s'
     \<and> (if cb_Bot (sv_Cdb s') = CNull then holds int_floats [[2, 5, 5]] s' else refuted int_floats s' \<and> \<not> (\<exists>\<sigma>. cnf_true \<sigma> [[2, 5, 5]]))"
proof -
  obtain s where s: "holds int_floats [] s" "sv_Vars s = NewVars_xo 3" "cd_Len (cb_CDat (sv_Cdb s)) = 0"
    using NewSVc_spec_holds [of 3 3 int_floats] by (auto simp: returns_def)
  have "unat (vs_Top (NewVars_xo 3)) = 4" by (simp add: NewVars_xo_def Let_def)
  then have "\<forall>m \<in> set [2, 5, 5]. in_range (sv_Vars s) m" by (simp add: s(2) in_range_def unat_lit_Var)
  moreover have "2 * (cd_Len (cb_CDat (sv_Cdb s)) + length [2, 5, 5 :: lit] + 2) < 2 ^ 31" by (simp add: s(3))
  ultimately show ?thesis using Add_correct [OF s(1), of "[2, 5, 5]"] unfolding append.simps by blast
qed

text \<open>Several clauses: the formula grows, or it is found to have no model, after which clauses can still be added.\<close>

definition as_calls :: "lit list list \<Rightarrow> lit list" where
  "as_calls Cs = concat (map (\<lambda>C. C @ [LitNull]) Cs)"

lemma as_calls_simps [simp]: "as_calls [] = []" "as_calls (C # Cs) = (C @ [LitNull]) @ as_calls Cs"
  "as_calls (Cs @ Ds) = as_calls Cs @ as_calls Ds"
  by (simp_all add: as_calls_def)

definition stands :: "'h floats \<Rightarrow> lit list list \<Rightarrow> 'h solver \<Rightarrow> bool" where
  "stands fl F s \<longleftrightarrow> sv_x s = CNull \<and> tr_Level (sv_Trail s) = 0
     \<and> (holds fl F s \<or> refuted fl s \<and> \<not> (\<exists>\<sigma>. cnf_true \<sigma> F))"

lemma stands_clause:
  assumes st: "stands fl F s" and ms: "\<forall>m \<in> set ms. in_range (sv_Vars s) m"
    and room: "2 * (cd_Len (cb_CDat (sv_Cdb s)) + length ms + 2) < 2147483648"
  shows "returns (S_Adds fl (ms @ [LitNull]) s) (\<lambda>s'. stands fl (ms # F) s' \<and> add_frame (length ms + 2) s s'
     \<and> (\<forall>m \<in> set ms. lit_Var m \<le> vs_Max (sv_Vars s')))"
proof (cases "holds fl F s")
  case True
  show ?thesis
  proof (rule returns_mono [OF S_Adds_clause_ok [OF True ms room]], elim conjE)
    fix s' assume *: "add_frame (length ms + 2) s s'" "sv_x s' = CNull" "tr_Level (sv_Trail s') = 0" "buffered [] s'" "works fl s'"
      "if cb_Bot (sv_Cdb s') = CNull then holds fl (ms # F) s' else \<forall>\<sigma>. \<not> cnf_true \<sigma> (ms # F)"
      "\<forall>m \<in> set ms. lit_Var m \<le> vs_Max (sv_Vars s')"
    then show "stands fl (ms # F) s' \<and> add_frame (length ms + 2) s s' \<and> (\<forall>m \<in> set ms. lit_Var m \<le> vs_Max (sv_Vars s'))"
      using refutedI [OF True *(1,5,4,2)] by (auto simp: stands_def split: if_splits)
  qed
next
  case False
  then have R: "refuted fl s" "\<not> (\<exists>\<sigma>. cnf_true \<sigma> (ms # F))" using st by (auto simp: stands_def cnf_true_def)
  have "stands fl (ms # F) s'" if "refuted fl s'" for s'
    using that R(2) by (auto simp: stands_def refuted_def works_def)
  then show ?thesis by (intro returns_mono [OF refuted_Adds_clause [OF R(1) ms room]]) blast
qed

lemma S_Adds_clauses_ok:
  assumes "stands fl F s" and "\<forall>C \<in> set Cs. \<forall>m \<in> set C. in_range (sv_Vars s) m"
    and "2 * (cd_Len (cb_CDat (sv_Cdb s)) + length (as_calls Cs) + length Cs + 2) < 2 ^ 31"
  shows "returns (S_Adds fl (as_calls Cs) s) (\<lambda>s'. stands fl (rev Cs @ F) s' \<and> add_frame (length (as_calls Cs) + length Cs) s s'
     \<and> (\<forall>C \<in> set Cs. \<forall>m \<in> set C. lit_Var m \<le> vs_Max (sv_Vars s')))"
  using assms
proof (induction Cs arbitrary: s F)
  case Nil
  then show ?case by (simp add: add_frame_def)
next
  case (Cons C Cs)
  have "\<forall>m \<in> set C. in_range (sv_Vars s) m" "2 * (cd_Len (cb_CDat (sv_Cdb s)) + length C + 2) < 2147483648"
    using Cons.prems(2,3) by simp_all
  then obtain s1 where run: "S_Adds fl (C @ [LitNull]) s = Some s1" and st: "stands fl (C # F) s1" and fr: "add_frame (length C + 2) s s1"
      and mx: "\<forall>m \<in> set C. lit_Var m \<le> vs_Max (sv_Vars s1)"
    using stands_clause [OF Cons.prems(1)] by (fastforce simp: returns_def)
  have rg: "\<forall>C \<in> set Cs. \<forall>m \<in> set C. in_range (sv_Vars s1) m"
    using Cons.prems(2) fr by (simp add: add_frame_def in_range_def)
  have rm: "2 * (cd_Len (cb_CDat (sv_Cdb s1)) + length (as_calls Cs) + length Cs + 2) < 2 ^ 31"
    using Cons.prems(3) fr by (simp add: add_frame_def)
  have "S_Adds fl (as_calls (C # Cs)) s = S_Adds fl (as_calls Cs) s1"
    by (subst as_calls_simps(2), subst S_Adds_append, subst run, rule bind.bind_lunit)
  moreover have "returns (S_Adds fl (as_calls Cs) s1) (\<lambda>s'. stands fl (rev (C # Cs) @ F) s'
      \<and> add_frame (length (as_calls (C # Cs)) + length (C # Cs)) s s'
      \<and> (\<forall>D \<in> set (C # Cs). \<forall>m \<in> set D. lit_Var m \<le> vs_Max (sv_Vars s')))"
  proof (rule returns_mono [OF Cons.IH [OF st rg rm]], elim conjE, intro conjI)
    fix s' assume s': "stands fl (rev Cs @ C # F) s'" "add_frame (length (as_calls Cs) + length Cs) s1 s'"
      "\<forall>C \<in> set Cs. \<forall>m \<in> set C. lit_Var m \<le> vs_Max (sv_Vars s')"
    show "stands fl (rev (C # Cs) @ F) s'" using s'(1) by simp
    show "add_frame (length (as_calls (C # Cs)) + length (C # Cs)) s s'" by (rule add_frame_trans [OF fr s'(2)]) simp
    have "vs_Max (sv_Vars s1) \<le> vs_Max (sv_Vars s')" using s'(2) by (simp add: add_frame_def)
    then have "\<forall>m \<in> set C. lit_Var m \<le> vs_Max (sv_Vars s')" using mx by (blast intro: order_trans)
    then show "\<forall>D \<in> set (C # Cs). \<forall>m \<in> set D. lit_Var m \<le> vs_Max (sv_Vars s')" using s'(3) by simp
  qed
  ultimately show ?case by (simp del: as_calls_simps)
qed

section \<open>Solve\<close>

text \<open>
  (C3) A call of Solve on a solver that holds the formula \<open>F\<close> between two calls, with every assumption
  a literal of the solver, whose last call did not end in a conflict or whose formula is
  satisfiable, does not panic. It returns \<open>1\<close> only if the values of the
  solver are a model of \<open>F\<close> and of the assumptions, and \<open>-1\<close> only if no model of \<open>F\<close> satisfies all assumptions,
  and it leaves the solver ready for the next call; otherwise it returns \<open>0\<close>, or is still searching after the
  number \<open>n\<close> of turns for which the clause store has room.
\<close>

theorem Solve_correct:
  assumes "idle fl F s" and "sv_x s = CNull \<or> (\<exists>\<sigma>. cnf_true \<sigma> F)"
    and "room_for (n + nat (tr_Level (sv_Trail s))) s" and "\<forall>m \<in> set (sv_assumes s). in_range (sv_Vars s) m"
  shows "(\<exists>r s'. S_Solve fl ctl s = Some (r, s') \<and> idle fl F s' \<and> r \<in> {-1, 0, 1}
       \<and> (r = 1 \<longrightarrow> cnf_true (model_of (sv_Vars s')) F
            \<and> (\<forall>m \<in> set (sv_assumes s). lit_true (model_of (sv_Vars s')) m))
       \<and> (r = -1 \<longrightarrow> \<not> (\<exists>\<sigma>. cnf_true \<sigma> F \<and> (\<forall>m \<in> set (sv_assumes s). lit_true \<sigma> m))))
     \<or> (\<exists>s1 st. solveInit fl s = Some (0, s1)
          \<and> solve_turns fl ctl (sv_assumptLevel s1) n (search_start fl s1) = Some (Go st))"
  using Solve_turns [OF assms, of ctl] unfolding answer_ok_def by (smt (verit, best))

lemma Solve_correct_run:
  "case NewSVc int_floats 3 3 of None \<Rightarrow> False | Some s \<Rightarrow>
     (case S_Solve int_floats (\<lambda>k. (False, True)) (s\<lparr>sv_assumes := [2]\<rparr>) of
        Some (r, s') \<Rightarrow> r = 1 | None \<Rightarrow> False)
     \<and> (case solveInit int_floats (s\<lparr>sv_assumes := [2]\<rparr>) of
        Some (r, s1) \<Rightarrow> (case solve_turns int_floats (\<lambda>k. (False, True)) (sv_assumptLevel s1) 1 (search_start int_floats s1) of
           Some (Return _ _) \<Rightarrow> True | _ \<Rightarrow> False)
      | None \<Rightarrow> False)"
  by code_simp

theorem Solve_correct_witness:
  "\<exists>s s'. idle int_floats [] s \<and> sv_assumes s = [2]
     \<and> S_Solve int_floats (\<lambda>k. (False, True)) s = Some (1, s') \<and> idle int_floats [] s' \<and> lit_true (model_of (sv_Vars s')) 2"
proof -
  obtain s0 where new: "NewSVc int_floats 3 3 = Some s0" and I0: "idle int_floats [] s0" "sv_x s0 = CNull"
      "tr_Level (sv_Trail s0) = 0" "sv_Vars s0 = NewVars_xo 3" "cd_Len (cb_CDat (sv_Cdb s0)) = 0"
      "gc_stopWatch (cb_gc (sv_Cdb s0)) = 2048"
    using NewSVc_spec [of 3 3 int_floats] by (auto simp: returns_def)
  let ?s = "s0\<lparr>sv_assumes := [2]\<rparr>" and ?ctl = "\<lambda>k. (False, True)"
  have "core int_floats [] ?s" using I0(1) core_cong(7) unfolding core_def idle_def by blast
  moreover have "settled ?s" using I0(1,2) by (simp add: idle_def settled_def propagated_def)
  ultimately have I: "idle int_floats [] ?s" using I0(1) by (simp add: idle_def)
  have top: "unat (vs_Top (NewVars_xo 3)) = 4" by (simp add: NewVars_xo_def Let_def)
  have x: "sv_x ?s = CNull \<or> (\<exists>\<sigma>. cnf_true \<sigma> [])" using I0(2) by simp
  have rm: "room_for (1 + nat (tr_Level (sv_Trail ?s))) ?s" using I0(3-6) top by (simp add: room_for_def)
  have rg: "\<forall>m \<in> set (sv_assumes ?s). in_range (sv_Vars ?s) m" using I0(4) top by (simp add: in_range_def unat_lit_Var)
  note run = Solve_correct_run [unfolded new option.case]
  obtain s' where s': "S_Solve int_floats ?ctl ?s = Some (1, s')" using run by (auto split: option.splits)
  have "\<not> (\<exists>s1 st. solveInit int_floats ?s = Some (0, s1)
      \<and> solve_turns int_floats ?ctl (sv_assumptLevel s1) 1 (search_start int_floats s1) = Some (Go st))"
    using conjunct2 [OF run] by auto
  then show ?thesis
    using Solve_correct [OF I x rm rg, of ?ctl] s' I by auto
qed

section \<open>The whole\<close>

lemma ensureLitCaps_ok:
  assumes "core fl F s" and "\<forall>m \<in> set ms. in_range (sv_Vars s) m"
  shows "returns (foldM (ensureLitCap fl) ms s) (\<lambda>s'. core fl F s' \<and> vs_Max (sv_Vars s) \<le> vs_Max (sv_Vars s')
     \<and> (\<forall>m \<in> set ms. lit_Var m \<le> vs_Max (sv_Vars s'))
     \<and> s' = s\<lparr>sv_Guess := sv_Guess s', sv_Vars := (sv_Vars s)\<lparr>vs_Max := vs_Max (sv_Vars s')\<rparr>\<rparr>)"
  using assms
proof (induction ms arbitrary: s)
  case (Cons m ms)
  have "lit_Var m < vs_Top (sv_Vars s)" using Cons.prems(2) by (simp add: in_range_def word_less_nat_alt)
  then obtain s1 where run: "ensureLitCap fl m s = Some s1" and c1: "core fl F s1" "vs_Max (sv_Vars s) \<le> vs_Max (sv_Vars s1)"
      "lit_Var m \<le> vs_Max (sv_Vars s1)"
    and s1: "s1 = s\<lparr>sv_Guess := sv_Guess s1, sv_Vars := (sv_Vars s)\<lparr>vs_Max := vs_Max (sv_Vars s1)\<rparr>\<rparr>"
    using ensureLitCap_ok [OF Cons.prems(1)] unfolding returns_def by blast
  have "in_range (sv_Vars s1) = in_range (sv_Vars s)" by (subst s1, simp add: fun_eq_iff in_range_def)
  then have rg: "\<forall>m \<in> set ms. in_range (sv_Vars s1) m" using Cons.prems(2) by simp
  have e: "s1\<lparr>sv_Guess := g, sv_Vars := v\<rparr> = s\<lparr>sv_Guess := g, sv_Vars := v\<rparr>"
    "(sv_Vars s1)\<lparr>vs_Max := x\<rparr> = (sv_Vars s)\<lparr>vs_Max := x\<rparr>" for g v x by (subst s1, simp)+
  have "returns (foldM (ensureLitCap fl) ms s1) (\<lambda>s'. core fl F s' \<and> vs_Max (sv_Vars s) \<le> vs_Max (sv_Vars s')
     \<and> (\<forall>k \<in> set (m # ms). lit_Var k \<le> vs_Max (sv_Vars s'))
     \<and> s' = s\<lparr>sv_Guess := sv_Guess s', sv_Vars := (sv_Vars s)\<lparr>vs_Max := vs_Max (sv_Vars s')\<rparr>\<rparr>)"
  proof (rule returns_mono [OF Cons.IH [OF c1(1) rg]], elim conjE, intro conjI)
    fix s' assume s': "s' = s1\<lparr>sv_Guess := sv_Guess s', sv_Vars := (sv_Vars s1)\<lparr>vs_Max := vs_Max (sv_Vars s')\<rparr>\<rparr>"
      and mx: "vs_Max (sv_Vars s1) \<le> vs_Max (sv_Vars s')" "\<forall>m \<in> set ms. lit_Var m \<le> vs_Max (sv_Vars s')"
    show "\<forall>k \<in> set (m # ms). lit_Var k \<le> vs_Max (sv_Vars s')" using order_trans [OF c1(3) mx(1)] mx(2) by simp
    show "vs_Max (sv_Vars s) \<le> vs_Max (sv_Vars s')" using c1(2) mx(1) by (rule order_trans)
    show "s' = s\<lparr>sv_Guess := sv_Guess s', sv_Vars := (sv_Vars s)\<lparr>vs_Max := vs_Max (sv_Vars s')\<rparr>\<rparr>"
      using s' unfolding e .
  qed
  then show ?case by (simp add: run)
qed simp

lemma S_Assume_ok:
  assumes R: "holds fl F s" and ms: "\<forall>m \<in> set ms. in_range (sv_Vars s) m"
  shows "returns (S_Assume fl ms s) (\<lambda>s'. holds fl F s' \<and> sv_assumes s' = sv_assumes s @ ms \<and> sv_x s' = sv_x s
     \<and> vs_Max (sv_Vars s) \<le> vs_Max (sv_Vars s') \<and> (\<forall>m \<in> set ms. lit_Var m \<le> vs_Max (sv_Vars s'))
     \<and> sv_Trail s' = sv_Trail s \<and> vs_Top (sv_Vars s') = vs_Top (sv_Vars s) \<and> sv_Cdb s' = sv_Cdb s)"
proof -
  let ?s = "s\<lparr>sv_assumes := sv_assumes s @ ms\<rparr>"
  have I: "core fl F s" "settled s" "sv_testLevels s = []" "sv_endTestLevel s = 0" and B: "buffered [] s"
    and sat: "sv_x s = CNull \<or> (\<exists>\<sigma>. cnf_true \<sigma> F)" using R by (simp_all add: holds_def idle_def)
  have c: "core fl F ?s" using I(1) core_cong(7) unfolding core_def by blast
  have rg: "\<forall>m \<in> set ms. in_range (sv_Vars ?s) m" using ms by simp
  show ?thesis
    unfolding S_Assume_def
  proof (rule returns_mono [OF ensureLitCaps_ok [OF c rg]], elim conjE)
    fix s' assume c': "core fl F s'" and mx: "vs_Max (sv_Vars ?s) \<le> vs_Max (sv_Vars s')"
        "\<forall>m \<in> set ms. lit_Var m \<le> vs_Max (sv_Vars s')"
      and s': "s' = ?s\<lparr>sv_Guess := sv_Guess s', sv_Vars := (sv_Vars ?s)\<lparr>vs_Max := vs_Max (sv_Vars s')\<rparr>\<rparr>"
    have f: "sv_Cdb s' = sv_Cdb s" "sv_Trail s' = sv_Trail s" "sv_x s' = sv_x s" "sv_testLevels s' = sv_testLevels s"
      "sv_endTestLevel s' = sv_endTestLevel s" "sv_assumes s' = sv_assumes s @ ms" "vs_Top (sv_Vars s') = vs_Top (sv_Vars s)"
      "lev (sv_Vars s') = lev (sv_Vars s)" "val_of (sv_Vars s') = val_of (sv_Vars s)"
      by (subst s', simp add: fun_eq_iff lev_def val_of_def)+
    have "settled s'" by (rule settled_cong [OF I(2)]) (simp_all add: f)
    then show "holds fl F s' \<and> sv_assumes s' = sv_assumes s @ ms \<and> sv_x s' = sv_x s
     \<and> vs_Max (sv_Vars s) \<le> vs_Max (sv_Vars s') \<and> (\<forall>m \<in> set ms. lit_Var m \<le> vs_Max (sv_Vars s'))
     \<and> sv_Trail s' = sv_Trail s \<and> vs_Top (sv_Vars s') = vs_Top (sv_Vars s) \<and> sv_Cdb s' = sv_Cdb s"
      using c' I B sat mx by (simp add: holds_def idle_def buffered_def f)
  qed
qed

text \<open>A refuted formula: assumptions are taken, and the answer is \<open>-1\<close>.\<close>

lemma S_Assume_refuted:
  assumes "refuted fl s" and "\<forall>m \<in> set ms. in_range (sv_Vars s) m"
  shows "returns (S_Assume fl ms s) (refuted fl)"
proof -
  have "returns (foldM (ensureLitCap fl) ms s) (refuted fl)" if "refuted fl s" "\<forall>m \<in> set ms. in_range (sv_Vars s) m" for s
    using that
  proof (induction ms arbitrary: s)
    case (Cons m ms)
    have wk: "works fl s" and B: "buffered [] s" and m: "in_range (sv_Vars s) m" using Cons.prems by (simp_all add: refuted_def)
    obtain g mx where run: "ensureLitCap fl m s = Some (s\<lparr>sv_Guess := g, sv_Vars := (sv_Vars s)\<lparr>vs_Max := mx\<rparr>\<rparr>)"
      and wk': "works fl (s\<lparr>sv_Guess := g, sv_Vars := (sv_Vars s)\<lparr>vs_Max := mx\<rparr>\<rparr>)"
      using works_ensureLitCap [OF wk m] by blast
    have "refuted fl (s\<lparr>sv_Guess := g, sv_Vars := (sv_Vars s)\<lparr>vs_Max := mx\<rparr>\<rparr>)"
      using wk' Cons.prems(1) by (simp add: refuted_def buffered_def)
    moreover have "\<forall>m \<in> set ms. in_range (sv_Vars (s\<lparr>sv_Guess := g, sv_Vars := (sv_Vars s)\<lparr>vs_Max := mx\<rparr>\<rparr>)) m"
      using Cons.prems(2) by (simp add: in_range_def)
    ultimately show ?case using Cons.IH by (simp add: run)
  qed simp
  moreover have "refuted fl (s\<lparr>sv_assumes := sv_assumes s @ ms\<rparr>)"
    using assms(1) by (auto simp: refuted_def buffered_def works_def workable_def propagated_def)
  ultimately show ?thesis using assms(2) unfolding S_Assume_def by simp
qed

lemma S_Solve_refuted:
  assumes "refuted fl s"
  shows "returns (S_Solve fl ctl s) (\<lambda>(r, s'). r = -1)"
proof -
  obtain l r where fr: "first_restart NewLuby = Some (l, r)" using first_restart_value by blast
  let ?s0 = "s\<lparr>sv_luby := l, sv_restartStopwatch := int (unat r)\<rparr>"
  let ?s1 = "?s0\<lparr>sv_xLit := LitNull, sv_failed := []\<rparr>"
  have "sv_x s = CNull" "sv_endTestLevel s = 0" "tr_Level (sv_Trail s) = 0" "cb_Bot (sv_Cdb s) \<noteq> CNull"
    using assms by (auto simp: refuted_def works_def)
  then have "cleanupSolve fl ?s0 = Some (CNull, ?s1)"
    by (simp add: cleanupSolve_def cleanup_loop.simps s_Back_def Back_def)
  then have "\<exists>s'. solveInit fl s = Some (-1, s')"
    using \<open>cb_Bot (sv_Cdb s) \<noteq> CNull\<close> by (simp add: solveInit_def fr makeAssumptions_def Let_def)
  then show ?thesis by (auto simp: S_Solve_def)
qed

text \<open>A program that uses the solver: make it, add the clauses, assume, solve.\<close>

definition solve_cnf :: "'h floats \<Rightarrow> (nat \<Rightarrow> bool \<times> bool) \<Rightarrow> int \<Rightarrow> int \<Rightarrow> lit list list \<Rightarrow> lit list \<Rightarrow> (int \<times> 'h solver) option" where
  "solve_cnf fl ctl n m Cs A =
     do { s \<leftarrow> NewSVc fl n m; s \<leftarrow> S_Adds fl (as_calls Cs) s; s \<leftarrow> S_Assume fl A s; S_Solve fl ctl s }"

lemma cnf_true_rev [simp]: "cnf_true \<sigma> (rev Cs) \<longleftrightarrow> cnf_true \<sigma> Cs"
  by (simp add: cnf_true_def)

lemma NewSVc_stands:
  assumes nm: "3 \<le> n" "n < 2 ^ 29" "m < 2 ^ 28"
  obtains s where "NewSVc fl n m = Some s" and "stands fl [] s" and "sv_assumes s = []" and "sv_Vars s = NewVars_xo n"
    and "cd_Len (cb_CDat (sv_Cdb s)) = 0" and "gc_stopWatch (cb_gc (sv_Cdb s)) = 2048"
    and "\<And>l. 1 \<le> unat (lit_Var l) \<Longrightarrow> unat (lit_Var l) \<le> nat n \<Longrightarrow> in_range (NewVars_xo n) l"
proof -
  obtain s where *: "NewSVc fl n m = Some s" "holds fl [] s" "sv_x s = CNull" "sv_assumes s = []" "tr_Level (sv_Trail s) = 0"
      "sv_Vars s = NewVars_xo n" "cd_Len (cb_CDat (sv_Cdb s)) = 0" "gc_stopWatch (cb_gc (sv_Cdb s)) = 2048"
    using NewSVc_spec_holds [OF nm(2,3), of fl] by (auto simp: returns_def)
  have "in_range (NewVars_xo n) l" if "1 \<le> unat (lit_Var l)" "unat (lit_Var l) \<le> nat n" for l
    using that unat_lit_Var [of l] NewVars_xo_Top [OF nm(1,2)] by (simp add: in_range_def)
  then show thesis using that [of s] * by (simp add: stands_def)
qed

text \<open>Assuming and solving, whatever adding the clauses has found.\<close>

lemma stands_solve:
  assumes st: "stands fl F s" and A: "\<forall>l \<in> set A. in_range (sv_Vars s) l" "sv_assumes s = []"
    and rm: "room_for k s"
  shows "(\<exists>r s'. do { s \<leftarrow> S_Assume fl A s; S_Solve fl ctl s } = Some (r, s') \<and> r \<in> {-1, 0, 1}
       \<and> (r = 1 \<longrightarrow> vars_ok (sv_Vars s') \<and> cnf_true (model_of (sv_Vars s')) F \<and> (\<forall>l \<in> set A. lit_true (model_of (sv_Vars s')) l)
            \<and> vs_Max (sv_Vars s) \<le> vs_Max (sv_Vars s') \<and> (\<forall>l \<in> set A. lit_Var l \<le> vs_Max (sv_Vars s'))
            \<and> vs_Max (sv_Vars s') < vs_Top (sv_Vars s))
       \<and> (r = -1 \<longrightarrow> \<not> (\<exists>\<sigma>. cnf_true \<sigma> F \<and> (\<forall>l \<in> set A. lit_true \<sigma> l))))
     \<or> (\<exists>s2 s3 st. S_Assume fl A s = Some s2 \<and> solveInit fl s2 = Some (0, s3)
          \<and> solve_turns fl ctl (sv_assumptLevel s3) k (search_start fl s3) = Some (Go st))"
proof (cases "holds fl F s")
  case False
  then have R: "refuted fl s" "\<not> (\<exists>\<sigma>. cnf_true \<sigma> F)" using st by (auto simp: stands_def)
  obtain s2 where s2: "S_Assume fl A s = Some s2" "refuted fl s2" using S_Assume_refuted [OF R(1) A(1)] by (auto simp: returns_def)
  obtain s' where "S_Solve fl ctl s2 = Some (-1, s')" using S_Solve_refuted [OF s2(2)] by (auto simp: returns_def)
  then show ?thesis using s2(1) R(2) by auto
next
  case True
  obtain s2 where r2: "S_Assume fl A s = Some s2" and R2: "holds fl F s2" "sv_assumes s2 = A" "sv_x s2 = CNull"
      "sv_Trail s2 = sv_Trail s" "vs_Top (sv_Vars s2) = vs_Top (sv_Vars s)" "sv_Cdb s2 = sv_Cdb s"
      "vs_Max (sv_Vars s) \<le> vs_Max (sv_Vars s2)" "\<forall>l \<in> set A. lit_Var l \<le> vs_Max (sv_Vars s2)"
    using S_Assume_ok [OF True A(1)] A(2) st by (auto simp: returns_def stands_def)
  have I: "idle fl F s2" using R2(1) by (simp add: holds_def)
  have rm2: "room_for (k + nat (tr_Level (sv_Trail s2))) s2"
    using rm st R2(4-6) by (simp add: room_for_def stands_def)
  have rg2: "\<forall>l \<in> set (sv_assumes s2). in_range (sv_Vars s2) l"
    using A(1) R2(2,5) by (simp add: in_range_def)
  from Solve_turns [OF I disjI1 [OF R2(3)] rm2 rg2, where ctl = ctl] consider
    r s' where "S_Solve fl ctl s2 = Some (r, s')" "answer_ok fl F A r s'" "vs_Max (sv_Vars s') = vs_Max (sv_Vars s2)"
    | s3 st where "solveInit fl s2 = Some (0, s3)"
        "solve_turns fl ctl (sv_assumptLevel s3) k (search_start fl s3) = Some (Go st)"
    unfolding R2(2) by blast
  then show ?thesis
  proof cases
    case (1 r s')
    then have "do { s \<leftarrow> S_Assume fl A s; S_Solve fl ctl s } = Some (r, s')" by (simp add: r2)
    moreover have "vs_Max (sv_Vars s2) < vs_Top (sv_Vars s2)"
      using I core_parts(5) vars_okD(1) by (auto simp: idle_def)
    ultimately show ?thesis using 1(2,3) R2(5,7,8) core_parts(5) by (auto simp: answer_ok_def)
  next
    case (2 s3 st)
    then show ?thesis using r2 by blast
  qed
qed

text \<open>
  (C2) A new solver to which the clauses \<open>Cs\<close> are added answers a call of Solve under the
  assumptions \<open>A\<close> correctly: no step panics, \<open>1\<close> means that the values of the
  solver satisfy every clause and every assumption, \<open>-1\<close> that no assignment does. The only exception is that
  the search is still running after the \<open>k\<close> turns for which there is room.
\<close>

theorem solve_cnf_correct:
  assumes nm: "3 \<le> n" "n < 2 ^ 29" "m < 2 ^ 28"
    and vars: "\<forall>C \<in> insert A (set Cs). \<forall>l \<in> set C. 1 \<le> unat (lit_Var l) \<and> unat (lit_Var l) \<le> nat n"
    and room: "2 * (length (as_calls Cs) + length Cs + (k + 1) * (nat n + 3)) < 2 ^ 31" "k < 2048"
  shows "(\<exists>r s. solve_cnf fl ctl n m Cs A = Some (r, s) \<and> r \<in> {-1, 0, 1}
       \<and> (r = 1 \<longrightarrow> cnf_true (model_of (sv_Vars s)) Cs \<and> (\<forall>l \<in> set A. lit_true (model_of (sv_Vars s)) l))
       \<and> (r = -1 \<longrightarrow> \<not> (\<exists>\<sigma>. cnf_true \<sigma> Cs \<and> (\<forall>l \<in> set A. lit_true \<sigma> l))))
     \<or> (\<exists>s s1 s2 s3 st. NewSVc fl n m = Some s \<and> S_Adds fl (as_calls Cs) s = Some s1 \<and> S_Assume fl A s1 = Some s2
          \<and> solveInit fl s2 = Some (0, s3) \<and> solve_turns fl ctl (sv_assumptLevel s3) k (search_start fl s3) = Some (Go st))"
proof -
  obtain s where new: "NewSVc fl n m = Some s" and R: "stands fl [] s" "sv_assumes s = []"
      "sv_Vars s = NewVars_xo n" "cd_Len (cb_CDat (sv_Cdb s)) = 0" "gc_stopWatch (cb_gc (sv_Cdb s)) = 2048"
    and rg: "\<And>l. 1 \<le> unat (lit_Var l) \<Longrightarrow> unat (lit_Var l) \<le> nat n \<Longrightarrow> in_range (NewVars_xo n) l"
    using NewSVc_stands [OF nm] by blast
  have top: "unat (vs_Top (NewVars_xo n)) = nat n + 1" by (rule NewVars_xo_Top [OF nm(1,2)])
  have rgC: "\<forall>C \<in> set Cs. \<forall>l \<in> set C. in_range (sv_Vars s) l" using rg vars unfolding R(3) by blast
  have "1 * 3 \<le> (k + 1) * (nat n + 3)" by (rule mult_le_mono) simp_all
  then have rm: "2 * (cd_Len (cb_CDat (sv_Cdb s)) + length (as_calls Cs) + length Cs + 2) < 2 ^ 31"
    using room(1) by (simp add: R(4))
  obtain s1 where r1: "S_Adds fl (as_calls Cs) s = Some s1" and R1: "stands fl (rev Cs @ []) s1"
    and fr: "add_frame (length (as_calls Cs) + length Cs) s s1"
    using S_Adds_clauses_ok [OF R(1) rgC rm] by (auto simp: returns_def)
  have rgA: "\<forall>l \<in> set A. in_range (sv_Vars s1) l" using rg vars fr R(3) by (fastforce simp: in_range_def add_frame_def)
  have as: "sv_assumes s1 = []" using fr R(2) by (simp add: add_frame_def)
  have rm1: "room_for k s1" using room fr R(3-5) top by (simp add: room_for_def add_frame_def ring_distribs)
  have "solve_cnf fl ctl n m Cs A = do { s \<leftarrow> S_Assume fl A s1; S_Solve fl ctl s }" by (simp add: solve_cnf_def new r1)
  then show ?thesis using stands_solve [OF R1 rgA as rm1, of ctl] new r1 by auto
qed

lemma solve_cnf_run:
  "map_option fst (solve_cnf int_floats (\<lambda>k. (False, True)) 3 3 [[2, 4], [3, 5]] [4]) = Some 1"
  "case do { s \<leftarrow> NewSVc int_floats 3 3; s1 \<leftarrow> S_Adds int_floats (as_calls [[2, 4], [3, 5]]) s;
             s2 \<leftarrow> S_Assume int_floats [4] s1; (r, s3) \<leftarrow> solveInit int_floats s2;
             solve_turns int_floats (\<lambda>k. (False, True)) (sv_assumptLevel s3) 3 (search_start int_floats s3) }
   of Some (Return _ _) \<Rightarrow> True | _ \<Rightarrow> False"
  by code_simp+

theorem solve_cnf_correct_witness:
  "\<exists>s. solve_cnf int_floats (\<lambda>k. (False, True)) 3 3 [[2, 4], [3, 5]] [4] = Some (1, s)
     \<and> cnf_true (model_of (sv_Vars s)) [[2, 4], [3, 5]] \<and> lit_true (model_of (sv_Vars s)) 4"
proof -
  let ?ctl = "\<lambda>k :: nat. (False, True)" and ?Cs = "[[2, 4], [3, 5]] :: lit list list"
  have "cnf_true (\<lambda>x. x = 1) ?Cs" by (simp add: cnf_true_def clause_true_def lit_true_def lit_Var_def lit_IsPos_def)
  then have sat: "\<exists>\<sigma>. cnf_true \<sigma> ?Cs" by blast
  have vars: "\<forall>C \<in> insert [4] (set ?Cs). \<forall>l \<in> set C. 1 \<le> unat (lit_Var l) \<and> unat (lit_Var l) \<le> nat 3"
    by (simp add: unat_lit_Var)
  have rm: "2 * (length (as_calls ?Cs) + length ?Cs + (3 + 1) * (nat 3 + 3)) < 2 ^ 31" by simp
  have "\<not> (\<exists>s s1 s2 s3 st. NewSVc int_floats 3 3 = Some s \<and> S_Adds int_floats (as_calls ?Cs) s = Some s1
      \<and> S_Assume int_floats [4] s1 = Some s2 \<and> solveInit int_floats s2 = Some (0, s3)
      \<and> solve_turns int_floats ?ctl (sv_assumptLevel s3) 3 (search_start int_floats s3) = Some (Go st))"
  proof (rule notI, elim exE conjE)
    fix s s1 s2 s3 st
    assume "NewSVc int_floats 3 3 = Some s" "S_Adds int_floats (as_calls ?Cs) s = Some s1"
      "S_Assume int_floats [4] s1 = Some s2" "solveInit int_floats s2 = Some (0, s3)"
      "solve_turns int_floats ?ctl (sv_assumptLevel s3) 3 (search_start int_floats s3) = Some (Go st)"
    then show False
      using solve_cnf_run(2) by (simp only: bind.bind_lunit prod.case option.case turn.case)
  qed
  then show ?thesis
    using solve_cnf_correct [OF _ _ _ vars rm, of 3 int_floats ?ctl] sat solve_cnf_run(1) by auto
qed

section \<open>The loops of a call\<close>

text \<open>
  The search loop, which has no bound of its own, returns a result exactly if some finite number of
  turns returns it; so what is proved of a number of turns is proved of every call that returns.
\<close>

lemma solve_loop_turns:
  "solve_loop fl ctl aLevel st = Some (r, s) \<longleftrightarrow> (\<exists>n. solve_turns fl ctl aLevel n st = Some (Return r s))"
proof
  assume "solve_loop fl ctl aLevel st = Some (r, s)"
  from solve_loop_Return [OF this] show "\<exists>n. solve_turns fl ctl aLevel n st = Some (Return r s)" by simp
qed (blast intro: solve_turns_Return)

text \<open>
  (C22) Resolving the conflict that the last call ended in terminates, if it ended in one only under assumptions (the
  formula is satisfiable) or in none: every learnt clause takes
  the solver to a lower level, so after at most as many rounds as there are levels the solver is without conflict,
  at level 0, with nothing assumed, and holds the same formula.  For a formula that has no model this fails:
  see \<open>Solve_again_after_refutation\<close> below.
\<close>

theorem cleanupSolve_terminates:
  assumes "idle fl F s" and "sv_x s = CNull \<or> (\<exists>\<sigma>. cnf_true \<sigma> F)"
    and "room_for (n + nat (tr_Level (sv_Trail s))) s"
  shows "\<exists>s'. cleanupSolve fl s = Some (CNull, s') \<and> idle fl F s' \<and> sv_x s' = CNull
     \<and> tr_Level (sv_Trail s') = 0 \<and> room_for n s'"
proof -
  obtain s' where "cleanupSolve fl s = Some (CNull, s')" "core fl F s'" "propagated s'" "sv_x s' = CNull"
      "tr_Level (sv_Trail s') = 0" "same_call s s'" "room_for n s'"
    using cleanupSolve_ok [OF assms] by (auto simp: returns_def)
  then show ?thesis using assms(1) by (auto simp: idle_def settled_def same_call_def)
qed

text \<open>
  Of the variables 1 and 2, the first implies the second and its negation: a call that assumes the first ends in a
  conflict at level 1.
\<close>

lemma conflict_example_run:
  "case solve_cnf int_floats (\<lambda>k. (False, True)) 3 3 [[3, 4], [3, 5]] [2] of None \<Rightarrow> False
   | Some (r, s) \<Rightarrow> r = -1 \<and> sv_x s \<noteq> CNull \<and> tr_Level (sv_Trail s) = 1 \<and> unat (vs_Top (sv_Vars s)) = 4
       \<and> cd_Len (cb_CDat (sv_Cdb s)) \<le> 100 \<and> 2 < unat (gc_stopWatch (cb_gc (sv_Cdb s)))"
  "case do { s \<leftarrow> NewSVc int_floats 3 3; s1 \<leftarrow> S_Adds int_floats (as_calls [[3, 4], [3, 5]]) s;
             s2 \<leftarrow> S_Assume int_floats [2] s1; (r, s3) \<leftarrow> solveInit int_floats s2; Some r }
   of Some r \<Rightarrow> r = -1 | None \<Rightarrow> False"
  by code_simp+

lemma conflict_example:
  obtains s where "solve_cnf int_floats (\<lambda>k. (False, True)) 3 3 [[3, 4], [3, 5]] [2] = Some (-1, s)"
    and "sv_x s \<noteq> CNull" and "tr_Level (sv_Trail s) = 1" and "idle int_floats [[3, 5], [3, 4]] s" and "room_for 1 s"
proof -
  let ?ctl = "\<lambda>k :: nat. (False, True)" and ?Cs = "[[3, 4], [3, 5]] :: lit list list"
  have "cnf_true (\<lambda>x. False) ?Cs" by (simp add: cnf_true_def clause_true_def lit_true_def lit_IsPos_even)
  then have sat: "\<exists>\<sigma>. cnf_true \<sigma> (rev ?Cs @ [])" by (auto simp: cnf_true_def)
  obtain s0 where new: "NewSVc int_floats 3 3 = Some s0" and R: "stands int_floats [] s0" "sv_assumes s0 = []"
      "sv_Vars s0 = NewVars_xo 3" "cd_Len (cb_CDat (sv_Cdb s0)) = 0" "gc_stopWatch (cb_gc (sv_Cdb s0)) = 2048"
    and rg: "\<And>l. 1 \<le> unat (lit_Var l) \<Longrightarrow> unat (lit_Var l) \<le> nat 3 \<Longrightarrow> in_range (NewVars_xo 3) l"
    by (rule NewSVc_stands [of 3 3 int_floats]) simp_all
  have rgC: "\<forall>C \<in> set ?Cs. \<forall>l \<in> set C. in_range (sv_Vars s0) l" unfolding R(3) by (simp add: rg unat_lit_Var)
  obtain s1 where r1: "S_Adds int_floats (as_calls ?Cs) s0 = Some s1" and R1: "stands int_floats (rev ?Cs @ []) s1"
    and fr: "add_frame (length (as_calls ?Cs) + length ?Cs) s0 s1"
    using S_Adds_clauses_ok [OF R(1) rgC] R(4) by (auto simp: returns_def)
  have H: "holds int_floats (rev ?Cs @ []) s1" "sv_x s1 = CNull" "tr_Level (sv_Trail s1) = 0"
    using R1 sat by (auto simp: stands_def)
  have top: "unat (vs_Top (sv_Vars s1)) = 4" using fr R(3) NewVars_xo_Top [of 3] by (simp add: add_frame_def)
  have rgA: "\<forall>l \<in> set [2]. in_range (sv_Vars s1) l" by (simp add: in_range_def top unat_lit_Var)
  have as1: "sv_assumes s1 = []" using fr R(2) by (simp add: add_frame_def)
  obtain s2 where r2: "S_Assume int_floats [2] s1 = Some s2" and R2: "holds int_floats (rev ?Cs @ []) s2" "sv_assumes s2 = [2]"
      "sv_x s2 = CNull" "sv_Trail s2 = sv_Trail s1" "vs_Top (sv_Vars s2) = vs_Top (sv_Vars s1)" "sv_Cdb s2 = sv_Cdb s1"
    using S_Assume_ok [OF H(1) rgA] as1 H(2) by (auto simp: returns_def)
  have I2: "idle int_floats (rev ?Cs @ []) s2" using R2(1) by (simp add: holds_def)
  have rm: "room_for (0 + nat (tr_Level (sv_Trail s2))) s2"
    using fr R(4,5) R2(4-6) H(3) top by (simp add: room_for_def add_frame_def)
  have rg2: "\<forall>m \<in> set (sv_assumes s2). in_range (sv_Vars s2) m" using rgA R2(2,5) by (simp add: in_range_def)
  have "\<not> (\<exists>s3 st. solveInit int_floats s2 = Some (0, s3)
      \<and> solve_turns int_floats ?ctl (sv_assumptLevel s3) 0 (search_start int_floats s3) = Some (Go st))"
    using conflict_example_run(2) by (auto simp only: new r1 r2 bind.bind_lunit prod.case option.case)
  then obtain r s where s: "S_Solve int_floats ?ctl s2 = Some (r, s)" "idle int_floats (rev ?Cs @ []) s"
    using Solve_correct [OF I2 disjI1 [OF R2(3)] rm rg2, of ?ctl] by blast
  have run: "solve_cnf int_floats ?ctl 3 3 ?Cs [2] = Some (r, s)" by (simp only: solve_cnf_def new r1 r2 s(1) bind.bind_lunit)
  have "r = -1" "sv_x s \<noteq> CNull" "tr_Level (sv_Trail s) = 1" "unat (vs_Top (sv_Vars s)) = 4"
      "cd_Len (cb_CDat (sv_Cdb s)) \<le> 100" "2 < unat (gc_stopWatch (cb_gc (sv_Cdb s)))"
    using conflict_example_run(1) unfolding run option.case prod.case by blast+
  then show thesis using that [of s] run s(2) by (simp add: room_for_def)
qed

theorem cleanupSolve_terminates_witness:
  "\<exists>s s'. solve_cnf int_floats (\<lambda>k. (False, True)) 3 3 [[3, 4], [3, 5]] [2] = Some (-1, s)
     \<and> sv_x s \<noteq> CNull \<and> tr_Level (sv_Trail s) = 1
     \<and> cleanupSolve int_floats s = Some (CNull, s') \<and> idle int_floats [[3, 5], [3, 4]] s'
     \<and> sv_x s' = CNull \<and> tr_Level (sv_Trail s') = 0"
proof -
  obtain s where s: "solve_cnf int_floats (\<lambda>k. (False, True)) 3 3 [[3, 4], [3, 5]] [2] = Some (-1, s)"
    "sv_x s \<noteq> CNull" "tr_Level (sv_Trail s) = 1" "idle int_floats [[3, 5], [3, 4]] s" "room_for 1 s"
    by (rule conflict_example)
  have "cnf_true (\<lambda>x. False) [[3, 5], [3, 4]]" by (simp add: cnf_true_def clause_true_def lit_true_def lit_IsPos_even)
  then have sat: "sv_x s = CNull \<or> (\<exists>\<sigma>. cnf_true \<sigma> [[3, 5], [3, 4]])" by blast
  have rm: "room_for (0 + nat (tr_Level (sv_Trail s))) s" using s(3,5) by simp
  show ?thesis using cleanupSolve_terminates [OF s(4) sat rm] s(1-3) by blast
qed

section \<open>A second call after a refutation\<close>

text \<open>
  When the search refutes a formula at level 0, the solver keeps the false clause but not the knowledge
  that the formula has no model. The next call resolves that clause at level 0, where no literal is left to learn, assigns
  the null literal, finds every variable assigned and ends the program in the check of the model:
  the four clauses over two variables below have no model, the first call says so, and the second one has no result.
\<close>

lemma Solve_again_after_refutation:
  "case solve_cnf int_floats (\<lambda>k. (False, True)) 3 3 [[2, 4], [2, 5], [3, 4], [3, 5]] [] of
     None \<Rightarrow> False
   | Some (r, s) \<Rightarrow> r = -1 \<and> (case S_Solve int_floats (\<lambda>k. (False, True)) s of None \<Rightarrow> True | Some _ \<Rightarrow> False)"
  by code_simp

end
