(* ===== verification/Files.thy ===== *)
theory Files
  imports ModelOut Solving
begin

text \<open>
  Between files and solvers: writing the clause database as DIMACS (\<^verbatim>\<open>internal/xo/cdat.go\<close>,
  \<^verbatim>\<open>cdb.go\<close>), building a solver from a problem (\<^verbatim>\<open>internal/xo/dimacs.go\<close>, \<^verbatim>\<open>s.go\<close>,
  \<^verbatim>\<open>gini.go\<close>) and the run of the command line solver on a problem (\<^verbatim>\<open>cmd/gini/main.go\<close>).
\<close>

section \<open>Writing\<close>

text \<open>A writer has received some bytes, and accepts some number of further calls before it fails.\<close>

record writer =
  wr_out :: "byte list"
  wr_calls :: nat

definition Fprintf :: "byte list \<Rightarrow> writer \<Rightarrow> bool \<times> writer" where
  "Fprintf bs w =
     (if wr_calls w = 0 then (True, w)
      else (False, w\<lparr>wr_out := wr_out w @ bs, wr_calls := wr_calls w - 1\<rparr>))"

fun put_lits_of :: "lit list \<Rightarrow> writer \<Rightarrow> bool \<times> writer" where
  "put_lits_of [] w = (False, w)"
| "put_lits_of (m # ms) w =
     (case Fprintf (print_int (lit_Dimacs m) @ [SP]) w of
        (True, w) \<Rightarrow> (True, w)
      | (False, w) \<Rightarrow> put_lits_of ms w)"

definition put_clause :: "bool \<times> writer \<Rightarrow> lit list \<Rightarrow> bool \<times> writer" where
  "put_clause st ms =
     (case st of
        (True, w) \<Rightarrow> (True, w)
      | (False, w) \<Rightarrow>
          (case put_lits_of ms w of
             (True, w) \<Rightarrow> (True, w)
           | (False, w) \<Rightarrow> Fprintf [ch_0, NL] w))"

text \<open>Without header; the flag says that an error is returned.\<close>

definition CDat_Dimacs :: "cdat \<Rightarrow> writer \<Rightarrow> (bool \<times> writer) option" where
  "CDat_Dimacs c w =
     do { cs \<leftarrow> CDat_Forall c;
          Some (foldl (\<lambda>st (i, p, ms). put_clause st ms) (False, w) cs) }"

text \<open>With a header; its bytes are written in one call.\<close>

definition Cdb_Write :: "vars \<Rightarrow> cdb \<Rightarrow> writer \<Rightarrow> (bool \<times> writer) option" where
  "Cdb_Write v c w =
     (case Fprintf (header_line (int (unat (vs_Max v))) (int (length (cb_Added c))) @ [NL]) w of
        (True, w) \<Rightarrow> Some (True, w)
      | (False, w) \<Rightarrow> CDat_Dimacs (cb_CDat c) w)"

section \<open>Building a solver from a problem\<close>

text \<open>The visitor: \<open>Init\<close> makes the solver it holds, \<open>Add\<close> adds to it, and \<open>Eof\<close> does nothing.\<close>

definition DimacsVis_call :: "'h floats \<Rightarrow> vis_call \<Rightarrow> 'h solver option \<Rightarrow> 'h solver option option" where
  "DimacsVis_call fl call d =
     (case call of
        VInit v c \<Rightarrow> do { s \<leftarrow> NewSVc fl v c; Some (Some s) }
      | VAdd m \<Rightarrow> do { s \<leftarrow> d; s \<leftarrow> S_Add fl m s; Some (Some s) }
      | _ \<Rightarrow> Some d)"

text \<open>
  \<open>None\<close> is a panic.  Reading returns an error, or the solver of the visitor.
\<close>

definition NewSDimacs :: "'h floats \<Rightarrow> reads \<Rightarrow> (derr + 'h solver option) option" where
  "NewSDimacs fl rs =
     (let (e, calls) = ReadCnf rs
      in do { d \<leftarrow> foldM (DimacsVis_call fl) calls None;
              Some (case e of Some e \<Rightarrow> Inl e | None \<Rightarrow> Inr d) })"

definition NewDimacs :: "'h floats \<Rightarrow> reads \<Rightarrow> (derr + 'h solver option) option" where
  "NewDimacs fl rs =
     (let (e, calls) = ReadCnf rs
      in do { d \<leftarrow> foldM (DimacsVis_call fl) calls None;
              Some (case e of Some e \<Rightarrow> Inl e | None \<Rightarrow> Inr d) })"

section \<open>The command line solver\<close>

text \<open>
  A run without CRISP and monitoring: the problem is read, the assumptions are made one by one, the
  problem is solved, and the answer is printed with the model or the failed assumptions if they
  are asked for.  The duration of \<open>Try\<close> is part of the outcomes of the control calls.
\<close>

definition model_bytes :: "'h solver \<Rightarrow> byte list option" where
  "model_bytes s =
     do { _ \<leftarrow> foldM (\<lambda>i _. map_option (\<lambda>_. ()) (S_Value (var_Pos (of_nat i)) s)) [1..<unat (S_MaxVar s) + 1] ();
          Some (outputModel (S_MaxVar s) (\<lambda>m. S_Value m s = Some True)) }"

definition runXoReader ::
    "'h floats \<Rightarrow> (nat \<Rightarrow> bool \<times> bool) \<Rightarrow> lit list \<Rightarrow> bool \<Rightarrow> bool \<Rightarrow> reads \<Rightarrow> (derr + int \<times> byte list) option" where
  "runXoReader fl ctl assumptions model failed rs =
     do { r \<leftarrow> NewSDimacs fl rs;
          case r of
            Inl e \<Rightarrow> Some (Inl e)
          | Inr d \<Rightarrow>
              do { x \<leftarrow> d;
                   x \<leftarrow> foldM (\<lambda>a. S_Assume fl [a]) assumptions x;
                   (res, x) \<leftarrow> S_Solve fl ctl x;
                   out \<leftarrow> handleResultOutput res;
                   mo \<leftarrow> (if res = 1 \<and> model then model_bytes x else Some []);
                   (fo, x) \<leftarrow> (if res = -1 \<and> failed
                            then do { (fs, x) \<leftarrow> S_Why [] x; Some (outputFailed fs, x) }
                            else Some ([], x));
                   Some (Inr (res, out @ mo @ fo)) } }"

end
