(* ===== verification/FileProps.thy ===== *)
theory FileProps
  imports Files
begin

text \<open>
  The theorems about files: what is written is read back, a solver built from a problem holds its clauses, and
  the command line solver prints a right answer.
\<close>

section \<open>Writing\<close>

lemma put_lits_of_ok:
  "if length ms \<le> wr_calls w
   then put_lits_of ms w = (False, w\<lparr>wr_out := wr_out w @ concat (map (\<lambda>m. print_int (lit_Dimacs m) @ [SP]) ms),
      wr_calls := wr_calls w - length ms\<rparr>)
   else fst (put_lits_of ms w)"
proof (induction ms arbitrary: w)
  case (Cons m ms)
  show ?case
  proof (cases "wr_calls w")
    case 0
    then show ?thesis by (simp add: Fprintf_def)
  next
    case (Suc n)
    then show ?thesis
      using Cons.IH [of "w\<lparr>wr_out := wr_out w @ print_int (lit_Dimacs m) @ [SP], wr_calls := n\<rparr>"]
      by (simp add: Fprintf_def split: if_splits)
  qed
qed simp

lemma put_clause_ok:
  "if length ms < wr_calls w
   then put_clause (False, w) ms = (False, w\<lparr>wr_out := wr_out w @ clause_line ms @ [NL], wr_calls := wr_calls w - length ms - 1\<rparr>)
   else fst (put_clause (False, w) ms)"
proof (cases "length ms \<le> wr_calls w")
  case True
  then show ?thesis
    using put_lits_of_ok [of ms w] by (auto simp: put_clause_def Fprintf_def clause_line_def)
next
  case False
  then have "fst (put_lits_of ms w)" using put_lits_of_ok [of ms w] by simp
  then show ?thesis using False by (cases "put_lits_of ms w") (auto simp: put_clause_def)
qed

definition calls_of :: "lit list list \<Rightarrow> nat" where
  "calls_of Cs = sum_list (map (\<lambda>C. length C + 1) Cs)"

lemma put_clause_stuck: "foldl put_clause (True, w) Cs = (True, w)"
  by (induction Cs) (simp_all add: put_clause_def)

lemma put_clauses_ok:
  "if calls_of Cs \<le> wr_calls w
   then foldl put_clause (False, w) Cs
     = (False, w\<lparr>wr_out := wr_out w @ lines_text (map clause_line Cs), wr_calls := wr_calls w - calls_of Cs\<rparr>)
   else fst (foldl put_clause (False, w) Cs)"
proof (induction Cs arbitrary: w)
  case Nil
  then show ?case by (simp add: calls_of_def lines_text_def)
next
  case (Cons C Cs)
  show ?case
  proof (cases "length C < wr_calls w")
    case True
    let ?w = "w\<lparr>wr_out := wr_out w @ clause_line C @ [NL], wr_calls := wr_calls w - length C - 1\<rparr>"
    have "put_clause (False, w) C = (False, ?w)" using put_clause_ok [of C w] True by simp
    moreover have "calls_of (C # Cs) \<le> wr_calls w \<longleftrightarrow> calls_of Cs \<le> wr_calls ?w" using True by (auto simp: calls_of_def)
    ultimately show ?thesis using Cons.IH [of ?w] by (auto simp: calls_of_def lines_text_def)
  next
    case False
    then have "fst (put_clause (False, w) C)" using put_clause_ok [of C w] by simp
    then have "fst (foldl put_clause (False, w) (C # Cs))" by (cases "put_clause (False, w) C") (simp add: put_clause_stuck)
    then show ?thesis using False by (auto simp: calls_of_def)
  qed
qed

lemma length_encs_ge: "length cls \<le> length (encs cls)"
  by (induction cls) auto

lemma CDat_Dimacs_ok:
  assumes rep: "cdat_rep cls c" and ne: "cls \<noteq> []"
  shows "CDat_Dimacs c w = Some (foldl put_clause (False, w) (map snd cls))"
proof -
  have "cd_Len c \<noteq> 0" using cdat_repD(1) [OF rep] ne by (cases cls) auto
  then have "CDat_Forall c = Some (map (\<lambda>i. (i, of_nat (loc_at (take i cls)), snd (cls ! i))) [0..<length cls])"
    using forall_loop_rep [of "[]" cls c 0] rep by (simp add: CDat_Forall_def loc_at_def)
  moreover have "map snd cls = map (\<lambda>i. snd (cls ! i)) [0..<length cls]"
    by (rule nth_equalityI) simp_all
  ultimately show ?thesis by (simp add: CDat_Dimacs_def foldl_map)
qed

lemma no_comment_header: "\<not> is_comment (header_line nv nc)"
  by (simp add: is_comment_def header_line_def cnf_magic_def ch_defs)

lemma no_comment_clause: "\<not> is_comment (clause_line C)" and clause_line_ne: "clause_line C \<noteq> []"
proof -
  show "clause_line C \<noteq> []" by (simp add: clause_line_def)
  show "\<not> is_comment (clause_line C)"
  proof (cases C)
    case Nil
    then show ?thesis by (simp add: is_comment_def clause_line_def ch_defs)
  next
    case (Cons m ms)
    obtain c ds where "print_int (lit_Dimacs m) = c # ds" "c \<noteq> ch_c" using print_int_Cons by blast
    then show ?thesis by (simp add: Cons is_comment_def clause_line_def)
  qed
qed

lemma no_NL_line: "NL \<notin> set (clause_line C)" "NL \<notin> set (header_line nv nc)"
  by (auto simp: clause_line_def header_line_def print_int_no_NL) (simp_all add: cnf_magic_def ch_defs)

lemma no_blank_after: "(\<And>l. l \<in> set ls \<Longrightarrow> \<not> is_comment l) \<Longrightarrow> \<not> blank_after_comment ls"
  by (induction ls rule: blank_after_comment.induct) auto

lemma bufio_problem:
  "bufio (plain_reads [lines_text (header_line nv nc # map clause_line Cs)])
     = rdr_of (lines_text (header_line nv nc # map clause_line Cs)) None EOF"
proof -
  let ?ls = "header_line nv nc # map clause_line Cs"
  have nc: "\<not> is_comment l" if "l \<in> set ?ls" for l using that no_comment_header no_comment_clause by auto
  then have bl: "\<not> blank_after_comment ?ls" by (rule no_blank_after)
  from nc have f: "filter (\<lambda>l. \<not> is_comment l) ?ls = ?ls" by (simp add: filter_id_conv)
  show ?thesis
    by (rule bufio_lines [where ls = ?ls, unfolded f]) (use no_NL_line bl in auto)
qed

text \<open>
  (C25) Writing a non-empty clause database to a writer that does not fail, and reading the text back, gives every
  clause of the store in order, under a header with the greatest variable and the number of added clauses.
  Strict reading of it succeeds exactly if that variable occurs and every clause of the store is an
  added one: after learning, the header counts fewer clauses than are written. A writer that fails makes it
  return an error.
\<close>

theorem Write_read:
  assumes "cdat_rep cls (cb_CDat c)" and "cls \<noteq> []" and "\<forall>C \<in> snd ` set cls. \<forall>m \<in> set C. lit_Var m \<noteq> 0"
    and "wr_out w = []" and "length (cb_Added c) \<le> length cls"
  shows "\<exists>e w'. Cdb_Write v c w = Some (e, w') \<and> (e \<longleftrightarrow> wr_calls w < calls_of (map snd cls) + 1)
     \<and> (\<not> e \<longrightarrow> ReadCnfStrict (plain_reads [wr_out w']) strict =
         (if strict \<and> (int (unat (vs_Max v)) \<noteq> max_var (map snd cls) \<or> length (cb_Added c) \<noteq> length cls) then Some Bad else None,
          VInit (int (unat (vs_Max v))) (int (length (cb_Added c))) # add_calls (map snd cls)))"
proof (cases "wr_calls w")
  case 0
  then show ?thesis by (intro exI [of _ True]) (simp add: Cdb_Write_def Fprintf_def)
next
  case (Suc n)
  let ?h = "header_line (int (unat (vs_Max v))) (int (length (cb_Added c)))" and ?Cs = "map snd cls"
  let ?w = "w\<lparr>wr_out := ?h @ [NL], wr_calls := n\<rparr>"
  have run: "Cdb_Write v c w = Some (foldl put_clause (False, ?w) ?Cs)"
    using Suc assms(4) by (simp add: Cdb_Write_def Fprintf_def CDat_Dimacs_ok [OF assms(1,2)])
  show ?thesis
  proof (cases "calls_of ?Cs \<le> n")
    case False
    then have "fst (foldl put_clause (False, ?w) ?Cs)" using put_clauses_ok [of ?Cs ?w] by simp
    then show ?thesis using False Suc run by (cases "foldl put_clause (False, ?w) ?Cs") auto
  next
    case True
    let ?w' = "?w\<lparr>wr_out := lines_text (?h # map clause_line ?Cs), wr_calls := n - calls_of ?Cs\<rparr>"
    have w': "foldl put_clause (False, ?w) ?Cs = (False, ?w')"
      using put_clauses_ok [of ?Cs ?w] True by (simp add: lines_text_def)
    have "length cls \<le> cd_Len (cb_CDat c)" using cdat_repD(1) [OF assms(1)] length_encs_ge [of cls] by simp
    then have len: "int (length (cb_Added c)) < 2 ^ 62" using assms(5) cdat_repD(3,4) [OF assms(1)] by simp
    have "unat (vs_Max v) < 2 ^ 62" by (rule order_less_trans [OF u32_bound]) simp
    then have "int (unat (vs_Max v)) < 2 ^ 62" by (simp del: of_nat_unat)
    then show ?thesis
      using ReadCnf_lines [OF bufio_problem, of ?Cs "int (unat (vs_Max v))" "int (length (cb_Added c))" strict] assms(3) len True Suc
      by (intro exI [of _ False] exI [of _ ?w']) (simp add: run w' del: of_nat_unat)
  qed
qed

theorem Write_read_witness:
  "\<exists>c w'. Cdb_Write (NewVars_xo 3) c \<lparr>wr_out = [], wr_calls = 9\<rparr> = Some (False, w') \<and> length (cb_Added c) = 1
     \<and> ReadCnfStrict (plain_reads [wr_out w']) False = (None, [VInit 0 1, VAdd 4, VAdd 7, VAdd 0, VAdd 5, VAdd 9, VAdd 12, VAdd 0])
     \<and> fst (ReadCnfStrict (plain_reads [wr_out w']) True) = Some Bad"
proof -
  obtain c :: cdb where c: "cb_CDat c = two_store" "cb_Added c = [1]"
    using that [of "(NewCdb (NewVars_xo 3) 3)\<lparr>cb_CDat := two_store, cb_Added := [1]\<rparr>"] by simp
  have rep: "cdat_rep (map snd two_clauses) (cb_CDat c)" by (simp add: c two_store_rep)
  have lits: "\<forall>C \<in> snd ` set (map snd two_clauses). \<forall>m \<in> set C. lit_Var m \<noteq> 0" by (simp add: two_clauses_def lit_Var_def)
  note W = Write_read [OF rep _ lits, of "\<lparr>wr_out = [], wr_calls = 9\<rparr>" "NewVars_xo 3"]
  have ms: "map snd (map snd two_clauses) = [[4, 7], [5, 9, 12]]" "length (map snd two_clauses) = 2" "map snd two_clauses \<noteq> []"
    by (simp_all add: two_clauses_def)
  have n: "calls_of [[4, 7], [5, 9, 12]] = 7" "length (cb_Added c) = 1" "vs_Max (NewVars_xo 3) = 0"
    "add_calls [[4, 7], [5, 9, 12]] = [VAdd 4, VAdd 7, VAdd 0, VAdd 5, VAdd 9, VAdd 12, VAdd 0]"
    by (simp_all add: calls_of_def c(2) NewVars_xo_def Let_def add_calls_def LitNull_def)
  show ?thesis
    using W [OF ms(3), of False] W [OF ms(3), of True] unfolding ms n by (intro exI [of _ c]) (auto simp: c(2))
qed

section \<open>Building a solver\<close>

lemma add_calls_as_calls: "add_calls Cs = map VAdd (as_calls Cs)"
  by (induction Cs) (simp_all add: add_calls_def)

lemma vis_Adds: "foldM (DimacsVis_call fl) (map VAdd ms) (Some s) = map_option Some (S_Adds fl ms s)"
  by (induction ms arbitrary: s) (auto simp: DimacsVis_call_def map_option_bind split: bind_splits option.splits)

lemma NewSDimacs_problem:
  assumes "bufio rs = rdr_of (lines_text (header_line nv nc # map clause_line Cs)) None EOF"
    and "\<forall>C \<in> set Cs. \<forall>m \<in> set C. lit_Var m \<noteq> 0" and "0 \<le> nv" "nv < 2 ^ 62" and "0 \<le> nc" "nc < 2 ^ 62"
  shows "NewSDimacs fl rs = do { s \<leftarrow> NewSVc fl nv nc; s \<leftarrow> S_Adds fl (as_calls Cs) s; Some (Inr (Some s)) }"
    and "NewDimacs fl rs = NewSDimacs fl rs"
proof -
  have "ReadCnf rs = (None, VInit nv nc # map VAdd (as_calls Cs))"
    using ReadCnf_lines [OF assms, of False] by (simp add: ReadCnf_def add_calls_as_calls)
  then show "NewSDimacs fl rs = do { s \<leftarrow> NewSVc fl nv nc; s \<leftarrow> S_Adds fl (as_calls Cs) s; Some (Inr (Some s)) }"
    by (cases "NewSVc fl nv nc")
      (auto simp: NewSDimacs_def DimacsVis_call_def vis_Adds map_option_bind split: option.splits bind_splits)
  show "NewDimacs fl rs = NewSDimacs fl rs" by (simp add: NewDimacs_def NewSDimacs_def)
qed

section \<open>The command line solver\<close>

text \<open>Assumptions made one by one are the same as made at once.\<close>

lemma push_assumes: "ensureLitCap fl m (s\<lparr>sv_assumes := A\<rparr>) = map_option (\<lambda>s. s\<lparr>sv_assumes := A\<rparr>) (ensureLitCap fl m s)"
  by (auto simp: ensureLitCap_def Let_def split: bind_splits option.splits)

lemma keep_assumes: "ensureLitCap fl m s = Some s' \<Longrightarrow> sv_assumes s' = sv_assumes s"
  by (auto simp: ensureLitCap_def Let_def split: bind_splits if_splits)

lemma foldM_assumes: "foldM (ensureLitCap fl) ms (s\<lparr>sv_assumes := A\<rparr>) = map_option (\<lambda>s. s\<lparr>sv_assumes := A\<rparr>) (foldM (ensureLitCap fl) ms s)"
  by (induction ms arbitrary: s) (auto simp: push_assumes map_option_bind bind_map_option comp_def)

lemma S_Assume_each: "foldM (\<lambda>a. S_Assume fl [a]) A s = S_Assume fl A s"
proof (induction A arbitrary: s)
  case Nil
  then show ?case by (simp add: S_Assume_def)
next
  case (Cons a A)
  show ?case
  proof (cases "ensureLitCap fl a s")
    case None
    then show ?thesis by (simp add: S_Assume_def push_assumes)
  next
    case (Some s1)
    have e: "sv_assumes s1 = sv_assumes s" using keep_assumes [OF Some] .
    have "foldM (\<lambda>a. S_Assume fl [a]) (a # A) s = (S_Assume fl [a] s \<bind> S_Assume fl A)" by (cases "S_Assume fl [a] s") (simp_all add: Cons.IH)
    also have "\<dots> = S_Assume fl (a # A) s" by (simp add: S_Assume_def push_assumes Some e)
    finally show ?thesis .
  qed
qed

lemma S_Value_ok:
  assumes "vars_ok v" and "sv_Vars s = v" and "i \<in> set [1..<unat (S_MaxVar s) + 1]"
  shows "S_Value (var_Pos (of_nat i)) s = Some (lit_true (model_of v) (var_Pos (of_nat i)))"
proof -
  have M: "unat (vs_Max v) < unat (vs_Top v)" "unat (vs_Top v) < 2 ^ 30" "2 * unat (vs_Top v) \<le> length (vs_Vals v)"
    using assms(1) by (simp_all add: vars_ok_def word_less_nat_alt)
  have i: "i \<le> unat (vs_Max v)" using assms(2,3) by (auto simp: S_MaxVar_def)
  then have u: "unat (of_nat i :: u32) = i" using M by (intro unat_of_nat32) simp
  then have "unat (of_nat i :: u32) < 2 ^ 31" using i M by simp
  note p = unat_var_Pos [OF this, unfolded u] lit_Var_Pos [OF this] lit_IsPos_Pos [OF this]
  have "unat (var_Pos (of_nat i)) < length (vs_Vals v)" using p(1) i M by simp
  then show ?thesis by (simp add: S_Value_def assms(2) lit_true_def model_of_def p(2,3))
qed

lemma foldM_unit: "(\<And>x. x \<in> set xs \<Longrightarrow> f x = Some ()) \<Longrightarrow> foldM (\<lambda>x _. f x) xs () = Some ()"
  by (induction xs) auto

lemma outputModel_cong:
  assumes "\<And>i. i \<in> set [1..<unat v + 1] \<Longrightarrow> val (var_Pos (of_nat i)) = val' (var_Pos (of_nat i))"
  shows "outputModel v val = outputModel v val'"
proof -
  have "model_lits v val = model_lits v val'" using assms by (auto simp: model_lits_def model_lit_def)
  then show ?thesis by (simp add: outputModel_pieces)
qed

lemma model_bytes_ok:
  assumes "vars_ok (sv_Vars s)"
  shows "model_bytes s = Some (outputModel (S_MaxVar s) (lit_true (model_of (sv_Vars s))))"
proof -
  note V = S_Value_ok [OF assms refl]
  have "foldM (\<lambda>i _. map_option (\<lambda>_. ()) (S_Value (var_Pos (of_nat i)) s)) [1..<unat (S_MaxVar s) + 1] () = Some ()"
    by (rule foldM_unit) (simp add: V del: upt_Suc)
  moreover have "outputModel (S_MaxVar s) (\<lambda>m. S_Value m s = Some True) = outputModel (S_MaxVar s) (lit_true (model_of (sv_Vars s)))"
    by (rule outputModel_cong) (simp add: V del: upt_Suc)
  ultimately show ?thesis by (simp add: model_bytes_def)
qed

section \<open>The text of an answer\<close>

text \<open>
  What an answer is, without reference to the code that prints it: the characters of a string, the words of a text
  (between spaces and ends of lines), its lines, and the values that a text states.
\<close>

definition ascii :: "string \<Rightarrow> byte list" where
  "ascii s = map of_char s"

fun split_at :: "(byte \<Rightarrow> bool) \<Rightarrow> byte list \<Rightarrow> byte list \<Rightarrow> byte list list" where
  "split_at p w [] = (if w = [] then [] else [w])"
| "split_at p w (c # cs) = (if p c then (if w = [] then [] else [w]) @ split_at p [] cs else split_at p (w @ [c]) cs)"

definition words_of :: "byte list \<Rightarrow> byte list list" where
  "words_of bs = split_at (\<lambda>c. c = SP \<or> c = NL) [] bs"

definition lines_of :: "byte list \<Rightarrow> byte list list" where
  "lines_of bs = split_at (\<lambda>c. c = NL) [] bs"

text \<open>
  The values of the variables \<open>1\<close> to \<open>V\<close> in the format of the SAT competitions: every line begins with the letter
  \<open>v\<close>, and the words after these letters are the literals, true under the assignment, and a zero.
\<close>

definition states_values :: "nat \<Rightarrow> assignment \<Rightarrow> byte list \<Rightarrow> bool" where
  "states_values V \<sigma> bs \<longleftrightarrow>
     bs \<noteq> [] \<and> last bs = NL \<and> (\<forall>l \<in> set (lines_of bs). \<exists>r. l = ascii ''v '' @ r)
     \<and> [w \<leftarrow> words_of bs. w \<noteq> ascii ''v'']
       = map (\<lambda>i. print_int (if \<sigma> (of_nat i) then int i else - int i)) [1..<V + 1] @ [ascii ''0'']"

lemma ascii_simps [simp]: "ascii ''v'' = [ch_v]" "ascii ''v '' = [ch_v, SP]" "ascii ''0'' = [ch_0]"
  "ascii ''s SATISFIABLE'' = [ch_s, SP] @ str_SAT" "ascii ''s UNSATISFIABLE'' = [ch_s, SP] @ str_UNSAT"
  "ascii ''s UNKNOWN'' = [ch_s, SP] @ str_UNKNOWN"
  by (simp_all add: ascii_def ch_defs str_SAT_def str_UNSAT_def str_UNKNOWN_def)

lemma split_at_word: "\<forall>c \<in> set w. \<not> p c \<Longrightarrow> split_at p u (w @ r) = split_at p (u @ w) r"
  by (induction w arbitrary: u) simp_all

lemma print_int_word: "\<forall>c \<in> set (print_int i). c \<noteq> SP \<and> c \<noteq> NL" "print_int i \<noteq> []" "print_int i \<noteq> [ch_v]"
proof -
  have d: "digits n \<noteq> []" "\<forall>c \<in> set (digits n). is_digit c" for n using digits_ok by blast+
  show "\<forall>c \<in> set (print_int i). c \<noteq> SP \<and> c \<noteq> NL"
  proof -
    have "\<forall>c \<in> set (digits n). c \<noteq> SP \<and> c \<noteq> NL" for n using d(2) digit_not_white by blast
    moreover have "ch_minus \<noteq> SP" "ch_minus \<noteq> NL" by (simp_all add: ch_defs)
    ultimately show ?thesis by (simp add: print_int_def)
  qed
  show "print_int i \<noteq> []" by (simp add: print_int_def d)
  have "\<not> is_digit ch_v" "ch_v \<noteq> ch_minus" by (simp_all add: is_digit_def ch_defs)
  moreover from this have "digits n \<noteq> [ch_v]" for n using d(2) [of n] by auto
  ultimately show "print_int i \<noteq> [ch_v]" by (simp add: print_int_def)
qed

lemma words_pieces:
  "[w \<leftarrow> split_at (\<lambda>c. c = SP \<or> c = NL) u (tail_text ps). w \<noteq> [ch_v]]
     = [w \<leftarrow> (if u = [] then [] else [u]). w \<noteq> [ch_v]] @ map (print_int \<circ> lit_Dimacs \<circ> snd) ps @ [[ch_0]]"
proof (induction ps arbitrary: u)
  case Nil
  then show ?case by (simp add: tail_text_def ch_defs)
next
  case (Cons q ps)
  obtain b m where q: "q = (b, m)" by (cases q)
  note P = print_int_word [of "lit_Dimacs m"]
  have w: "split_at (\<lambda>c. c = SP \<or> c = NL) [] (print_int (lit_Dimacs m) @ tail_text ps)
      = split_at (\<lambda>c. c = SP \<or> c = NL) (print_int (lit_Dimacs m)) (tail_text ps)"
    using split_at_word [of "print_int (lit_Dimacs m)" "\<lambda>c. c = SP \<or> c = NL" "[]"] P(1) by simp
  have t: "tail_text (q # ps) = (if b then [NL, ch_v] else []) @ [SP] @ print_int (lit_Dimacs m) @ tail_text ps"
    by (simp add: tail_text_def piece_def q)
  have v: "ch_v \<noteq> SP" by (simp add: ch_defs)
  show ?case unfolding t using P(2,3) v by (simp add: w Cons.IH q)
qed

lemma lines_pieces:
  assumes "\<exists>r. u = [ch_v, SP] @ r"
  shows "\<forall>l \<in> set (split_at (\<lambda>c. c = NL) u (tail_text ps)). \<exists>r. l = [ch_v, SP] @ r"
  using assms
proof (induction ps arbitrary: u)
  case Nil
  then show ?case by (auto simp: tail_text_def)
next
  case (Cons q ps)
  obtain b m where q: "q = (b, m)" by (cases q)
  have w: "split_at (\<lambda>c. c = NL) v (print_int (lit_Dimacs m) @ tail_text ps)
      = split_at (\<lambda>c. c = NL) (v @ print_int (lit_Dimacs m)) (tail_text ps)" for v
    by (rule split_at_word) (use print_int_word(1) [of "lit_Dimacs m"] in blast)
  have t: "tail_text (q # ps) = (if b then [NL, ch_v] else []) @ [SP] @ print_int (lit_Dimacs m) @ tail_text ps"
    by (simp add: tail_text_def piece_def q)
  have "\<forall>l \<in> set (split_at (\<lambda>c. c = NL) ([ch_v, SP] @ r) (tail_text ps)). \<exists>r. l = [ch_v, SP] @ r" for r
    by (rule Cons.IH) blast
  then show ?case unfolding t using Cons.prems by (auto simp: w)
qed

lemma model_lit_Dimacs:
  assumes "i < 2 ^ 31"
  shows "lit_Dimacs (model_lit (lit_true \<sigma>) (of_nat i)) = (if \<sigma> (of_nat i) then int i else - int i)"
proof -
  have u: "unat (of_nat i :: u32) = i" by (rule unat_of_nat32) (use assms in simp)
  then have b: "unat (of_nat i :: u32) < 2 ^ 31" using assms by simp
  note L = lit_Var_Pos [OF b] lit_IsPos_Pos [OF b]
  have "lit_Var (var_Neg (of_nat i)) = of_nat i" "\<not> lit_IsPos (var_Neg (of_nat i))"
    by (rule lit_Var_Neg [OF b], rule lit_IsPos_Neg [OF b])
  then show ?thesis by (simp add: model_lit_def lit_true_def lit_Dimacs_eq L u del: of_nat_unat)
qed

lemma outputModel_states:
  assumes "unat v < 2 ^ 31"
  shows "states_values (unat v) \<sigma> (outputModel v (lit_true \<sigma>))"
proof -
  let ?ms = "model_lits v (lit_true \<sigma>)"
  let ?ps = "zip (breaks 2 ?ms) ?ms"
  have o: "outputModel v (lit_true \<sigma>) = [ch_v, SP] @ tail_text ?ps" by (simp add: outputModel_pieces tail_text_def)
  have s: "map snd ?ps = ?ms" by simp
  have "map (print_int \<circ> lit_Dimacs \<circ> snd) ?ps = map (print_int \<circ> lit_Dimacs) ?ms"
    using arg_cong [OF s, of "map (print_int \<circ> lit_Dimacs)"] by (simp only: map_map comp_assoc)
  also have "\<dots> = map (\<lambda>i. print_int (if \<sigma> (of_nat i) then int i else - int i)) [1..<unat v + 1]"
    unfolding model_lits_def map_map
    by (rule map_cong) (use assms model_lit_Dimacs in \<open>auto simp del: upt_Suc\<close>)
  finally have w: "map (print_int \<circ> lit_Dimacs \<circ> snd) ?ps
      = map (\<lambda>i. print_int (if \<sigma> (of_nat i) then int i else - int i)) [1..<unat v + 1]" .
  have c: "ch_v \<noteq> SP" "ch_v \<noteq> NL" by (simp_all add: ch_defs)
  have "[w \<leftarrow> words_of (outputModel v (lit_true \<sigma>)). w \<noteq> [ch_v]] = map (print_int \<circ> lit_Dimacs \<circ> snd) ?ps @ [[ch_0]]"
    unfolding o words_of_def using c words_pieces [of "[]" ?ps] by simp
  moreover have "\<forall>l \<in> set (lines_of (outputModel v (lit_true \<sigma>))). \<exists>r. l = [ch_v, SP] @ r"
    unfolding o lines_of_def using c lines_pieces [of "[ch_v, SP]" ?ps] by simp
  moreover have "last (outputModel v (lit_true \<sigma>)) = NL" unfolding o by (simp add: tail_text_def)
  moreover have "outputModel v (lit_true \<sigma>) \<noteq> []" unfolding o by simp
  ultimately show ?thesis unfolding states_values_def w ascii_simps by blast
qed

text \<open>
  (C1) The command line solver on a problem in DIMACS with any comments: it does not panic, and the text it prints is
  one of three. The line \<open>s SATISFIABLE\<close> only if some assignment satisfies all clauses of the file and all
  assumptions, and it is followed, when the model is asked for, by lines that state such an assignment, variable by
  variable, from the first up to one that is at least every variable of the clauses and assumptions and at most the
  number of variables in the header; the line \<open>s UNSATISFIABLE\<close> only if no assignment does; else the line \<open>s UNKNOWN\<close>.
  The exception is again a search that still runs after the \<open>k\<close> turns for which there is room.
\<close>

theorem command_line_correct:
  assumes inp: "concat cs = lines_text ls" "\<forall>l \<in> set ls. NL \<notin> set l" "\<not> blank_after_comment ls"
      "filter (\<lambda>l. \<not> is_comment l) ls = header_line n m # map clause_line Cs"
    and nm: "3 \<le> n" "n < 2 ^ 29" "0 \<le> m" "m < 2 ^ 28"
    and vars: "\<forall>C \<in> insert A (set Cs). \<forall>l \<in> set C. 1 \<le> unat (lit_Var l) \<and> unat (lit_Var l) \<le> nat n"
    and room: "2 * (length (as_calls Cs) + length Cs + (k + 1) * (nat n + 3)) < 2 ^ 31" "k < 2048"
  shows "(\<exists>res tx. runXoReader fl ctl A model False (plain_reads cs) = Some (Inr (res, tx)) \<and> res \<in> {-1, 0, 1}
       \<and> (res = 1 \<longrightarrow> (\<exists>\<sigma> V vtx. tx = ascii ''s SATISFIABLE'' @ [NL] @ vtx
            \<and> cnf_true \<sigma> Cs \<and> (\<forall>l \<in> set A. lit_true \<sigma> l)
            \<and> V \<le> nat n \<and> (\<forall>C \<in> insert A (set Cs). \<forall>l \<in> set C. unat (lit_Var l) \<le> V)
            \<and> (if model then states_values V \<sigma> vtx else vtx = [])))
       \<and> (res = -1 \<longrightarrow> tx = ascii ''s UNSATISFIABLE'' @ [NL]
            \<and> \<not> (\<exists>\<sigma>. cnf_true \<sigma> Cs \<and> (\<forall>l \<in> set A. lit_true \<sigma> l)))
       \<and> (res = 0 \<longrightarrow> tx = ascii ''s UNKNOWN'' @ [NL]))
     \<or> (\<exists>s1 s2 s3 st. NewSDimacs fl (plain_reads cs) = Some (Inr (Some s1)) \<and> S_Assume fl A s1 = Some s2
          \<and> solveInit fl s2 = Some (0, s3) \<and> solve_turns fl ctl (sv_assumptLevel s3) k (search_start fl s3) = Some (Go st))"
proof -
  have nz: "\<forall>C \<in> set Cs. \<forall>l \<in> set C. lit_Var l \<noteq> 0" using vars by fastforce
  obtain s where new: "NewSVc fl n m = Some s" and R: "stands fl [] s" "sv_assumes s = []"
      "sv_Vars s = NewVars_xo n" "cd_Len (cb_CDat (sv_Cdb s)) = 0" "gc_stopWatch (cb_gc (sv_Cdb s)) = 2048"
    and rg: "\<And>l. 1 \<le> unat (lit_Var l) \<Longrightarrow> unat (lit_Var l) \<le> nat n \<Longrightarrow> in_range (NewVars_xo n) l"
    using NewSVc_stands [OF nm(1,2,4)] by blast
  have top: "unat (vs_Top (NewVars_xo n)) = nat n + 1" by (rule NewVars_xo_Top [OF nm(1,2)])
  have rgC: "\<forall>C \<in> set Cs. \<forall>l \<in> set C. in_range (sv_Vars s) l" using rg vars unfolding R(3) by blast
  have "1 * 3 \<le> (k + 1) * (nat n + 3)" by (rule mult_le_mono) simp_all
  then have rm: "2 * (cd_Len (cb_CDat (sv_Cdb s)) + length (as_calls Cs) + length Cs + 2) < 2 ^ 31"
    using room(1) by (simp add: R(4))
  obtain s1 where r1: "S_Adds fl (as_calls Cs) s = Some s1" and R1: "stands fl (rev Cs @ []) s1"
    and fr: "add_frame (length (as_calls Cs) + length Cs) s s1"
    and mxC: "\<forall>C \<in> set Cs. \<forall>l \<in> set C. lit_Var l \<le> vs_Max (sv_Vars s1)"
    using S_Adds_clauses_ok [OF R(1) rgC rm] by (auto simp: returns_def)
  have rgA: "\<forall>l \<in> set A. in_range (sv_Vars s1) l" using rg vars fr R(3) by (fastforce simp: in_range_def add_frame_def)
  have as: "sv_assumes s1 = []" using fr R(2) by (simp add: add_frame_def)
  have top1: "unat (vs_Top (sv_Vars s1)) = nat n + 1" using fr R(3) top by (simp add: add_frame_def)
  have rm1: "room_for k s1" using room fr R(3-5) top by (simp add: room_for_def add_frame_def ring_distribs)
  have read: "NewSDimacs fl (plain_reads cs) = Some (Inr (Some s1))"
    using NewSDimacs_problem(1) [OF bufio_lines [OF inp(1-3), unfolded inp(4)] nz, of fl] nm new r1 by simp
  have run: "runXoReader fl ctl A model False (plain_reads cs)
    = do { (res, x) \<leftarrow> do { s \<leftarrow> S_Assume fl A s1; S_Solve fl ctl s };
           out \<leftarrow> handleResultOutput res;
           mo \<leftarrow> (if res = 1 \<and> model then model_bytes x else Some []);
           Some (Inr (res, out @ mo)) }"
    by (cases "S_Assume fl A s1") (simp_all add: runXoReader_def read S_Assume_each split_def)
  from stands_solve [OF R1 rgA as rm1, of ctl] show ?thesis
  proof (elim disjE exE conjE)
    fix r s'
    assume s': "S_Assume fl A s1 \<bind> S_Solve fl ctl = Some (r, s')" and r: "r \<in> {-1, 0, 1}"
      and one: "r = 1 \<longrightarrow> vars_ok (sv_Vars s') \<and> cnf_true (model_of (sv_Vars s')) (rev Cs @ []) \<and> (\<forall>l \<in> set A. lit_true (model_of (sv_Vars s')) l)
          \<and> vs_Max (sv_Vars s1) \<le> vs_Max (sv_Vars s') \<and> (\<forall>l \<in> set A. lit_Var l \<le> vs_Max (sv_Vars s'))
          \<and> vs_Max (sv_Vars s') < vs_Top (sv_Vars s1)"
      and neg: "r = -1 \<longrightarrow> \<not> (\<exists>\<sigma>. cnf_true \<sigma> (rev Cs @ []) \<and> (\<forall>l \<in> set A. lit_true \<sigma> l))"
    let ?\<sigma> = "model_of (sv_Vars s')" and ?V = "unat (S_MaxVar s')"
    let ?line = "if r = 1 then ascii ''s SATISFIABLE'' @ [NL] else if r = -1 then ascii ''s UNSATISFIABLE'' @ [NL] else ascii ''s UNKNOWN'' @ [NL]"
    let ?vtx = "if model then outputModel (S_MaxVar s') (lit_true ?\<sigma>) else []"
    have line: "handleResultOutput r = Some ?line" using r by (auto simp: handleResultOutput_def)
    have go: "runXoReader fl ctl A model False (plain_reads cs) = Some (Inr (r, ?line @ (if r = 1 then ?vtx else [])))"
      using one by (simp add: run s' line model_bytes_ok)
    have sat: "cnf_true ?\<sigma> Cs \<and> (\<forall>l \<in> set A. lit_true ?\<sigma> l) \<and> ?V \<le> nat n
        \<and> (\<forall>C \<in> insert A (set Cs). \<forall>l \<in> set C. unat (lit_Var l) \<le> ?V)
        \<and> (if model then states_values ?V ?\<sigma> ?vtx else ?vtx = [])" if "r = 1"
    proof -
      have mx: "vs_Max (sv_Vars s1) \<le> vs_Max (sv_Vars s')" "\<forall>l \<in> set A. lit_Var l \<le> vs_Max (sv_Vars s')"
        "vs_Max (sv_Vars s') < vs_Top (sv_Vars s1)" using one that by blast+
      have V: "?V \<le> nat n" using mx(3) top1 by (simp add: word_less_nat_alt S_MaxVar_def)
      then have V': "unat (S_MaxVar s') < 2 ^ 31" using nm(2) by simp
      have "\<forall>C \<in> insert A (set Cs). \<forall>l \<in> set C. lit_Var l \<le> vs_Max (sv_Vars s')"
        using mx(2) mxC order_trans [OF _ mx(1)] by blast
      then show ?thesis
        using one that V outputModel_states [OF V'] by (simp add: word_le_nat_alt S_MaxVar_def)
    qed
    show ?thesis
    proof (intro disjI1 exI conjI impI)
      show "runXoReader fl ctl A model False (plain_reads cs) = Some (Inr (r, ?line @ (if r = 1 then ?vtx else [])))" by (rule go)
      show "r \<in> {-1, 0, 1}" by (rule r)
    next
      assume r1: "r = 1"
      show "?line @ (if r = 1 then ?vtx else []) = ascii ''s SATISFIABLE'' @ [NL] @ ?vtx" by (simp add: r1)
      show "cnf_true ?\<sigma> Cs" "\<forall>l \<in> set A. lit_true ?\<sigma> l" "?V \<le> nat n"
        "\<forall>C \<in> insert A (set Cs). \<forall>l \<in> set C. unat (lit_Var l) \<le> ?V"
        "if model then states_values ?V ?\<sigma> ?vtx else ?vtx = []" using sat [OF r1] by blast+
    next
      assume "r = -1"
      then show "?line @ (if r = 1 then ?vtx else []) = ascii ''s UNSATISFIABLE'' @ [NL]"
        "\<not> (\<exists>\<sigma>. cnf_true \<sigma> Cs \<and> (\<forall>l \<in> set A. lit_true \<sigma> l))" using neg by simp_all
    next
      assume "r = 0"
      then show "?line @ (if r = 1 then ?vtx else []) = ascii ''s UNKNOWN'' @ [NL]" by simp
    qed
  next
    fix s2 s3 st
    assume *: "S_Assume fl A s1 = Some s2" "solveInit fl s2 = Some (0, s3)"
      "solve_turns fl ctl (sv_assumptLevel s3) k (search_start fl s3) = Some (Go st)"
    show ?thesis by (intro disjI2 exI conjI) (rule read, rule *(1), rule *(2), rule *(3))
  qed
qed

lemma command_line_run:
  "(case runXoReader int_floats (\<lambda>k. (False, True)) [4] True False
       (plain_reads [lines_text [header_line 3 2, [99, 32], clause_line [2, 4], clause_line [3, 5]]]) of
     Some (Inr (r, tx)) \<Rightarrow> r = 1 | _ \<Rightarrow> False)"
  "case do { r \<leftarrow> NewSDimacs int_floats (plain_reads [lines_text [header_line 3 2, [99, 32], clause_line [2, 4], clause_line [3, 5]]]);
             s1 \<leftarrow> (case r of Inl e \<Rightarrow> None | Inr s \<Rightarrow> s); s2 \<leftarrow> S_Assume int_floats [4] s1; (r, s3) \<leftarrow> solveInit int_floats s2;
             solve_turns int_floats (\<lambda>k. (False, True)) (sv_assumptLevel s3) 3 (search_start int_floats s3) }
   of Some (Return _ _) \<Rightarrow> True | _ \<Rightarrow> False"
  by code_simp+

theorem command_line_correct_witness:
  "\<exists>\<sigma> V vtx. cnf_true \<sigma> [[2, 4], [3, 5]] \<and> lit_true \<sigma> 4 \<and> V \<in> {2, 3}
     \<and> runXoReader int_floats (\<lambda>k. (False, True)) [4] True False
         (plain_reads [lines_text [header_line 3 2, [99, 32], clause_line [2, 4], clause_line [3, 5]]])
       = Some (Inr (1, ascii ''s SATISFIABLE'' @ [NL] @ vtx))
     \<and> states_values V \<sigma> vtx"
proof -
  let ?ctl = "\<lambda>k :: nat. (False, True)" and ?Cs = "[[2, 4], [3, 5]] :: lit list list"
  let ?ls = "[header_line 3 2, [99, 32], clause_line [2, 4], clause_line [3, 5]]"
  have c: "[99, 32] \<noteq> [] \<and> is_comment [99, 32] \<and> NL \<notin> set [99, 32]" by (simp add: is_comment_def ch_defs)
  have inp: "concat [lines_text ?ls] = lines_text ?ls" "\<forall>l \<in> set ?ls. NL \<notin> set l" "\<not> blank_after_comment ?ls"
    "filter (\<lambda>l. \<not> is_comment l) ?ls = header_line 3 2 # map clause_line ?Cs"
    using c by (simp_all add: no_NL_line no_comment_header no_comment_clause clause_line_ne)
  have vars: "\<forall>C \<in> insert [4] (set ?Cs). \<forall>l \<in> set C. 1 \<le> unat (lit_Var l) \<and> unat (lit_Var l) \<le> nat 3"
    by (simp add: unat_lit_Var)
  have rm: "2 * (length (as_calls ?Cs) + length ?Cs + (3 + 1) * (nat 3 + 3)) < 2 ^ 31" by simp
  have no: "\<not> (\<exists>s1 s2 s3 st. NewSDimacs int_floats (plain_reads [lines_text ?ls]) = Some (Inr (Some s1))
      \<and> S_Assume int_floats [4] s1 = Some s2 \<and> solveInit int_floats s2 = Some (0, s3)
      \<and> solve_turns int_floats ?ctl (sv_assumptLevel s3) 3 (search_start int_floats s3) = Some (Go st))"
  proof (rule notI, elim exE conjE)
    fix s1 s2 s3 st
    assume "NewSDimacs int_floats (plain_reads [lines_text ?ls]) = Some (Inr (Some s1))"
      "S_Assume int_floats [4] s1 = Some s2" "solveInit int_floats s2 = Some (0, s3)"
      "solve_turns int_floats ?ctl (sv_assumptLevel s3) 3 (search_start int_floats s3) = Some (Go st)"
    then show False
      using command_line_run(2) by (simp only: bind.bind_lunit prod.case option.case sum.case turn.case)
  qed
  obtain tx where tx: "runXoReader int_floats ?ctl [4] True False (plain_reads [lines_text ?ls]) = Some (Inr (1, tx))"
    using command_line_run(1) by (auto split: option.splits sum.splits)
  have "\<exists>\<sigma> V vtx. tx = ascii ''s SATISFIABLE'' @ [NL] @ vtx \<and> cnf_true \<sigma> ?Cs \<and> (\<forall>l \<in> set [4]. lit_true \<sigma> l)
      \<and> V \<le> nat 3 \<and> (\<forall>C \<in> insert [4] (set ?Cs). \<forall>l \<in> set C. unat (lit_Var l) \<le> V)
      \<and> (if True then states_values V \<sigma> vtx else vtx = [])"
    using command_line_correct [OF inp _ _ _ _ vars rm, of int_floats ?ctl True] no tx by auto
  then obtain \<sigma> V vtx where o: "tx = ascii ''s SATISFIABLE'' @ [NL] @ vtx" "cnf_true \<sigma> ?Cs" "lit_true \<sigma> 4"
      "V \<le> 3" "unat (lit_Var 4) \<le> V" "states_values V \<sigma> vtx" by auto
  have "V = 2 \<or> V = 3" using o(4,5) by (auto simp: unat_lit_Var)
  then show ?thesis using tx o by blast
qed

end
