(* ===== verification/Facade.thy ===== *)
theory Facade
  imports DynVars FileProps
begin

text \<open>
  The package \<^verbatim>\<open>gini\<close>: the solver type \<^verbatim>\<open>Gini\<close> (\<^verbatim>\<open>gini.go\<close>, \<^verbatim>\<open>s.go\<close>), which passes every call on to
  the solver of \<^verbatim>\<open>internal/xo\<close>, and \<^verbatim>\<open>svWrap\<close> (\<^verbatim>\<open>sv.go\<close>), a solver with hidden variables. The
  methods of \<^verbatim>\<open>svWrap\<close> are here over the solver type it is made with.
\<close>

section \<open>Gini\<close>

record 'h gini =
  g_xo :: "'h solver"

definition on_xo :: "('h solver \<Rightarrow> 'h solver option) \<Rightarrow> 'h gini \<Rightarrow> 'h gini option" where
  "on_xo f g = do { x \<leftarrow> f (g_xo g); Some (g\<lparr>g_xo := x\<rparr>) }"

definition from_xo :: "('h solver \<Rightarrow> ('a \<times> 'h solver) option) \<Rightarrow> 'h gini \<Rightarrow> ('a \<times> 'h gini) option" where
  "from_xo f g = do { (r, x) \<leftarrow> f (g_xo g); Some (r, g\<lparr>g_xo := x\<rparr>) }"

definition newGiniXo :: "'h solver \<Rightarrow> 'h gini" where
  "newGiniXo x = \<lparr>g_xo = x\<rparr>"

definition gini_New :: "'h floats \<Rightarrow> 'h gini option" where
  "gini_New fl = do { x \<leftarrow> NewS_xo fl; Some \<lparr>g_xo = x\<rparr> }"

definition gini_NewV :: "'h floats \<Rightarrow> int \<Rightarrow> 'h gini option" where
  "gini_NewV fl capHint = do { x \<leftarrow> NewSV fl capHint; Some \<lparr>g_xo = x\<rparr> }"

definition gini_NewVc :: "'h floats \<Rightarrow> int \<Rightarrow> int \<Rightarrow> 'h gini option" where
  "gini_NewVc fl vCapHint cCapHint = do { x \<leftarrow> NewSVc fl vCapHint cCapHint; Some \<lparr>g_xo = x\<rparr> }"

definition gini_Copy :: "'h floats \<Rightarrow> 'h gini \<Rightarrow> 'h gini" where
  "gini_Copy fl g = \<lparr>g_xo = S_Copy_xo fl (g_xo g)\<rparr>"

definition gini_MaxVar :: "'h gini \<Rightarrow> var" where
  "gini_MaxVar g = vs_Max (sv_Vars (g_xo g))"

definition gini_Lit :: "'h floats \<Rightarrow> 'h gini \<Rightarrow> (lit \<times> 'h gini) option" where
  "gini_Lit fl g = from_xo (S_Lit fl) g"

definition gini_Add :: "'h floats \<Rightarrow> lit \<Rightarrow> 'h gini \<Rightarrow> 'h gini option" where
  "gini_Add fl m g = on_xo (S_Add fl m) g"

definition gini_Assume :: "'h floats \<Rightarrow> lit list \<Rightarrow> 'h gini \<Rightarrow> 'h gini option" where
  "gini_Assume fl ms g = on_xo (S_Assume fl ms) g"

definition gini_Solve :: "'h floats \<Rightarrow> (nat \<Rightarrow> bool \<times> bool) \<Rightarrow> 'h gini \<Rightarrow> (int \<times> 'h gini) option" where
  "gini_Solve fl ctl g = from_xo (S_Solve fl ctl) g"

definition gini_Try :: "'h floats \<Rightarrow> int \<Rightarrow> (nat \<Rightarrow> bool \<times> bool) \<Rightarrow> 'h gini \<Rightarrow> (int \<times> 'h gini) option" where
  "gini_Try fl dur ctl g = from_xo (S_Try fl dur ctl) g"

definition gini_Value :: "lit \<Rightarrow> 'h gini \<Rightarrow> bool option" where
  "gini_Value m g = do { x \<leftarrow> aget (vs_Vals (sv_Vars (g_xo g))) (unat m); Some (x = 1) }"

definition gini_Why :: "lit list \<Rightarrow> 'h gini \<Rightarrow> (lit list \<times> 'h gini) option" where
  "gini_Why ms g = from_xo (S_Why ms) g"

definition gini_Test :: "'h floats \<Rightarrow> lit list option \<Rightarrow> 'h gini \<Rightarrow> (int \<times> lit list option \<times> 'h gini) option" where
  "gini_Test fl dst g = do { (res, out, x) \<leftarrow> S_Test fl dst (g_xo g); Some (res, out, g\<lparr>g_xo := x\<rparr>) }"

definition gini_Untest :: "'h floats \<Rightarrow> 'h gini \<Rightarrow> (int \<times> 'h gini) option" where
  "gini_Untest fl g = from_xo (S_Untest fl) g"

text \<open>What the destination slice held is overwritten.\<close>

definition gini_Reasons :: "lit list \<Rightarrow> lit \<Rightarrow> 'h gini \<Rightarrow> lit list option" where
  "gini_Reasons dst m g = S_Reasons m (g_xo g)"

definition gini_Activate :: "'h floats \<Rightarrow> 'h gini \<Rightarrow> (lit \<times> 'h gini) option" where
  "gini_Activate fl g = from_xo (S_Activate fl) g"

definition gini_ActivateWith :: "'h floats \<Rightarrow> lit \<Rightarrow> 'h gini \<Rightarrow> 'h gini option" where
  "gini_ActivateWith fl act g = on_xo (S_ActivateWith fl act) g"

definition gini_ActivationLit :: "'h floats \<Rightarrow> 'h gini \<Rightarrow> (lit \<times> 'h gini) option" where
  "gini_ActivationLit fl g = from_xo (S_ActivationLit fl) g"

definition gini_Deactivate :: "'h floats \<Rightarrow> lit \<Rightarrow> 'h gini \<Rightarrow> 'h gini option" where
  "gini_Deactivate fl m g = on_xo (S_Deactivate fl m) g"

definition gini_Write :: "writer \<Rightarrow> 'h gini \<Rightarrow> (bool \<times> writer) option" where
  "gini_Write w g = Cdb_Write (sv_Vars (g_xo g)) (sv_Cdb (g_xo g)) w"

section \<open>Hidden variables\<close>

record 'h svWrap =
  w_S :: "'h gini"
  w_V :: Vars

definition NewSv :: "'h floats \<Rightarrow> 'h svWrap option" where
  "NewSv fl = do { g \<leftarrow> gini_New fl; Some \<lparr>w_S = g, w_V = NewVars\<rparr> }"

definition NewSvVars :: "'h floats \<Rightarrow> Vars \<Rightarrow> 'h svWrap option" where
  "NewSvVars fl vs = do { g \<leftarrow> gini_New fl; Some \<lparr>w_S = g, w_V = vs\<rparr> }"

definition sv_Inner :: "'h svWrap \<Rightarrow> lit \<times> 'h svWrap" where
  "sv_Inner w = (let (v, m) = Inner (w_V w) in (m, w\<lparr>w_V := v\<rparr>))"

definition sv_FreeInner :: "lit \<Rightarrow> 'h svWrap \<Rightarrow> 'h svWrap" where
  "sv_FreeInner m w = w\<lparr>w_V := Free (w_V w) m\<rparr>"

definition sv_Assume :: "'h floats \<Rightarrow> lit list \<Rightarrow> 'h svWrap \<Rightarrow> 'h svWrap option" where
  "sv_Assume fl ms w =
     do { (v, ns) \<leftarrow> ToInners (w_V w) ms; g \<leftarrow> gini_Assume fl ns (w_S w); Some (w\<lparr>w_S := g, w_V := v\<rparr>) }"

definition sv_Add :: "'h floats \<Rightarrow> lit \<Rightarrow> 'h svWrap \<Rightarrow> 'h svWrap option" where
  "sv_Add fl m w = do { g \<leftarrow> gini_Add fl m (w_S w); Some (w\<lparr>w_S := g\<rparr>) }"

definition sv_MaxVar :: "'h svWrap \<Rightarrow> var" where
  "sv_MaxVar w = gini_MaxVar (w_S w)"

definition sv_Lit :: "'h floats \<Rightarrow> 'h svWrap \<Rightarrow> (lit \<times> 'h svWrap) option" where
  "sv_Lit fl w = do { (m, g) \<leftarrow> gini_Lit fl (w_S w); Some (m, w\<lparr>w_S := g\<rparr>) }"

definition sv_Why :: "lit list \<Rightarrow> 'h svWrap \<Rightarrow> (lit list \<times> 'h svWrap) option" where
  "sv_Why dst w =
     do { (ms, g) \<leftarrow> gini_Why dst (w_S w); (v, ns) \<leftarrow> ToOuters (w_V w) ms; Some (ns, w\<lparr>w_S := g, w_V := v\<rparr>) }"

definition sv_Value :: "lit \<Rightarrow> 'h svWrap \<Rightarrow> (bool \<times> 'h svWrap) option" where
  "sv_Value m w = do { (v, n) \<leftarrow> ToInner (w_V w) m; b \<leftarrow> gini_Value n (w_S w); Some (b, w\<lparr>w_V := v\<rparr>) }"

definition sv_Solve :: "'h floats \<Rightarrow> (nat \<Rightarrow> bool \<times> bool) \<Rightarrow> 'h svWrap \<Rightarrow> (int \<times> 'h svWrap) option" where
  "sv_Solve fl ctl w = do { (r, g) \<leftarrow> gini_Solve fl ctl (w_S w); Some (r, w\<lparr>w_S := g\<rparr>) }"

definition sv_Try :: "'h floats \<Rightarrow> int \<Rightarrow> (nat \<Rightarrow> bool \<times> bool) \<Rightarrow> 'h svWrap \<Rightarrow> (int \<times> 'h svWrap) option" where
  "sv_Try fl dur ctl w = do { (r, g) \<leftarrow> gini_Try fl dur ctl (w_S w); Some (r, w\<lparr>w_S := g\<rparr>) }"

text \<open>A nil slice stays empty when it is mapped.\<close>

definition sv_Test :: "'h floats \<Rightarrow> lit list option \<Rightarrow> 'h svWrap \<Rightarrow> (int \<times> lit list \<times> 'h svWrap) option" where
  "sv_Test fl dst w =
     do { (res, out, g) \<leftarrow> gini_Test fl dst (w_S w);
          (v, ns) \<leftarrow> ToOuters (w_V w) (case out of None \<Rightarrow> [] | Some ms \<Rightarrow> ms);
          Some (res, ns, w\<lparr>w_S := g, w_V := v\<rparr>) }"

definition sv_Untest :: "'h floats \<Rightarrow> 'h svWrap \<Rightarrow> (int \<times> 'h svWrap) option" where
  "sv_Untest fl w = do { (r, g) \<leftarrow> gini_Untest fl (w_S w); Some (r, w\<lparr>w_S := g\<rparr>) }"

definition sv_Reasons :: "lit list \<Rightarrow> lit \<Rightarrow> 'h svWrap \<Rightarrow> (lit list \<times> 'h svWrap) option" where
  "sv_Reasons dst implied w =
     do { (v, inImplied) \<leftarrow> ToInner (w_V w) implied;
          ms \<leftarrow> gini_Reasons dst inImplied (w_S w);
          (v, ns) \<leftarrow> ToOuters v ms;
          Some (ns, w\<lparr>w_V := v\<rparr>) }"

definition sv_SCopy :: "'h floats \<Rightarrow> 'h svWrap \<Rightarrow> 'h svWrap" where
  "sv_SCopy fl w = \<lparr>w_S = gini_Copy fl (w_S w), w_V = Vars_Copy (w_V w)\<rparr>"

section \<open>What goes wrong with hidden variables\<close>

text \<open>A use of a solver through its four main calls.\<close>

definition gini_session :: "'h floats \<Rightarrow> lit list list \<Rightarrow> lit list \<Rightarrow> int option" where
  "gini_session fl Cs A =
     do { g \<leftarrow> gini_NewVc fl 8 8; g \<leftarrow> foldM (gini_Add fl) (as_calls Cs) g; g \<leftarrow> gini_Assume fl A g;
          (r, g) \<leftarrow> gini_Solve fl (\<lambda>k. (False, True)) g; Some r }"

definition sv_session :: "'h floats \<Rightarrow> lit list list \<Rightarrow> lit list \<Rightarrow> int option" where
  "sv_session fl Cs A =
     do { g \<leftarrow> gini_NewVc fl 8 8; let w = \<lparr>w_S = g, w_V = NewVars\<rparr>; w \<leftarrow> foldM (sv_Add fl) (as_calls Cs) w;
          let w = snd (sv_Inner w);
          w \<leftarrow> sv_Assume fl A w; (r, w) \<leftarrow> sv_Solve fl (\<lambda>k. (False, True)) w; Some r }"

text \<open>
  Adding to a solver with hidden variables does not map the literals, while assuming and reading values does:
  once a hidden variable was handed out, a user who adds the unit clause \<open>1\<close> and assumes \<open>-1\<close> is told that this
  is satisfiable, where the solver itself answers that it is not.
\<close>

theorem svWrap_Add_unmapped:
  "gini_session int_floats [[2]] [3] = Some (-1) \<and> sv_session int_floats [[2]] [3] = Some 1"
  by code_simp

end
