(* ===== verification/Control.thy ===== *)
theory Control
  imports Prelude
begin

text \<open>
  Asynchronous control of a solve (\<^verbatim>\<open>internal/xo/ctl.go\<close>, and \<^verbatim>\<open>GoSolve\<close> of \<^verbatim>\<open>s.go\<close>): the goroutine that
  runs Solve and the goroutine of the client, as a step relation on their positions.

  The two meet on the unbuffered channels \<^verbatim>\<open>cStopOrPause\<close>, used in both directions, and \<^verbatim>\<open>cResult\<close>;
  a meeting is one step of both.  The solver's data is protected by the mutex \<^verbatim>\<open>rmu\<close>, which Solve holds while it runs;
  Pause gives it up for the paused solver and Unpause takes it back.  The mutex \<^verbatim>\<open>mu\<close> of the
  controller serialises the calls of the client, which here is one goroutine that makes one call at a time.
  Between two ticks the search does not touch the controller: a stretch of search is one step, to the next tick or,
  where the search can come to an end by itself (an answer, or the deadline of Try), to the return of Solve.  Whether
  it can is the parameter \<open>ends\<close> of the relation: without it the worker only goes from tick to tick, and nothing
  but a request of the client makes it stop.  That every stretch of search is finite is the assumption on Solve.
\<close>

datatype worker =
    WLock           \<comment> \<open>at the start of Solve, waiting for the mutex\<close>
  | WRun            \<comment> \<open>searching, between two ticks\<close>
  | WTick           \<comment> \<open>at the select of Tick\<close>
  | WResume         \<comment> \<open>inside Tick, paused, waiting to give back\<close>
  | WRet int        \<comment> \<open>Solve has a result and is about to unlock\<close>
  | WSend int       \<comment> \<open>Solve has returned, the result is being sent\<close>
  | WDone

datatype ctl_client =
    CIdle           \<comment> \<open>between two calls, the solver not paused\<close>
  | CStop           \<comment> \<open>in the select of stop\<close>
  | CGet            \<comment> \<open>in stop, after the request was taken, receiving from \<open>cResult\<close>\<close>
  | CWait           \<comment> \<open>in Wait, receiving from \<open>cResult\<close>\<close>
  | CTry            \<comment> \<open>in the select of Try\<close>
  | CPause          \<comment> \<open>in the select of Pause\<close>
  | CUnlock         \<comment> \<open>in Pause, the request taken, before the mutex is given up\<close>
  | CPaused         \<comment> \<open>between two calls, the solver paused\<close>
  | CRead           \<comment> \<open>reading the data of the paused solver under the mutex (ReadStats)\<close>
  | CRelock         \<comment> \<open>in Unpause, waiting for the mutex\<close>
  | CUnpause        \<comment> \<open>in Unpause, receiving from \<open>cStopOrPause\<close>\<close>
  | CResult int     \<comment> \<open>a call has returned the result of Solve\<close>

record ctl =
  c_worker :: worker
  c_client :: ctl_client
  c_rmu :: bool
  c_ret :: "int option"     \<comment> \<open>what Solve returned\<close>

text \<open>\<^verbatim>\<open>GoSolve\<close>: the goroutine is started, and the client has the controller.\<close>

definition GoSolve :: ctl where
  "GoSolve = \<lparr>c_worker = WLock, c_client = CIdle, c_rmu = False, c_ret = None\<rparr>"

text \<open>The calls whose select or receive takes a result when there is one.\<close>

definition receives :: "ctl_client \<Rightarrow> bool" where
  "receives c \<longleftrightarrow> c \<in> {CStop, CGet, CWait, CTry, CPause}"

text \<open>Beginning a call, between calls.\<close>

inductive ctl_call :: "ctl_client \<Rightarrow> ctl_client \<Rightarrow> bool" where
  Stop: "ctl_call CIdle CStop"
| Try: "ctl_call CIdle CTry"
| Wait: "ctl_call CIdle CWait"
| Pause: "ctl_call CIdle CPause"
| Unpause: "ctl_call CPaused CRelock"

inductive ctl_step :: "bool \<Rightarrow> ctl \<Rightarrow> ctl \<Rightarrow> bool" for ends :: bool where
  \<comment> \<open>Solve\<close>
  lock: "\<lbrakk>c_worker s = WLock; \<not> c_rmu s\<rbrakk> \<Longrightarrow> ctl_step ends s (s\<lparr>c_worker := WRun, c_rmu := True\<rparr>)"
| search_on: "c_worker s = WRun \<Longrightarrow> ctl_step ends s (s\<lparr>c_worker := WTick\<rparr>)"
| search_end: "\<lbrakk>ends; c_worker s = WRun; r \<in> {-1, 0, 1}\<rbrakk>
    \<Longrightarrow> ctl_step ends s (s\<lparr>c_worker := WRet r, c_ret := Some r\<rparr>)"
| unlock: "c_worker s = WRet r \<Longrightarrow> ctl_step ends s (s\<lparr>c_worker := WSend r, c_rmu := False\<rparr>)"
  \<comment> \<open>Tick finds no request, or meets stop or Pause, and then Unpause\<close>
| tick_none: "\<lbrakk>c_worker s = WTick; c_client s \<notin> {CStop, CPause}\<rbrakk> \<Longrightarrow> ctl_step ends s (s\<lparr>c_worker := WRun\<rparr>)"
| tick_stop: "\<lbrakk>c_worker s = WTick; c_client s = CStop\<rbrakk>
    \<Longrightarrow> ctl_step ends s (s\<lparr>c_worker := WRet 0, c_client := CGet, c_ret := Some 0\<rparr>)"
| tick_pause: "\<lbrakk>c_worker s = WTick; c_client s = CPause\<rbrakk>
    \<Longrightarrow> ctl_step ends s (s\<lparr>c_worker := WResume, c_client := CUnlock\<rparr>)"
| tick_resume: "\<lbrakk>c_worker s = WResume; c_client s = CUnpause\<rbrakk> \<Longrightarrow> ctl_step ends s (s\<lparr>c_worker := WRun, c_client := CIdle\<rparr>)"
  \<comment> \<open>the result is received, or found by Test\<close>
| result: "\<lbrakk>c_worker s = WSend r; receives (c_client s)\<rbrakk> \<Longrightarrow> ctl_step ends s (s\<lparr>c_worker := WDone, c_client := CResult r\<rparr>)"
| test: "\<lbrakk>c_worker s = WSend r; c_client s = CIdle\<rbrakk> \<Longrightarrow> ctl_step ends s (s\<lparr>c_worker := WDone, c_client := CResult r\<rparr>)"
  \<comment> \<open>the client alone\<close>
| alarm: "c_client s = CTry \<Longrightarrow> ctl_step ends s (s\<lparr>c_client := CStop\<rparr>)"
| give_up: "c_client s = CUnlock \<Longrightarrow> ctl_step ends s (s\<lparr>c_client := CPaused, c_rmu := False\<rparr>)"
| read_begin: "\<lbrakk>c_client s = CPaused; \<not> c_rmu s\<rbrakk> \<Longrightarrow> ctl_step ends s (s\<lparr>c_client := CRead, c_rmu := True\<rparr>)"
| read_end: "c_client s = CRead \<Longrightarrow> ctl_step ends s (s\<lparr>c_client := CPaused, c_rmu := False\<rparr>)"
| relock: "\<lbrakk>c_client s = CRelock; \<not> c_rmu s\<rbrakk> \<Longrightarrow> ctl_step ends s (s\<lparr>c_client := CUnpause, c_rmu := True\<rparr>)"
| call: "ctl_call (c_client s) c \<Longrightarrow> ctl_step ends s (s\<lparr>c_client := c\<rparr>)"

inductive_simps ctl_call_from: "ctl_call c c'"
inductive_cases ctl_stepE: "ctl_step ends s s'"

section \<open>The invariant\<close>

definition pausing :: "ctl_client \<Rightarrow> bool" where
  "pausing c \<longleftrightarrow> c \<in> {CUnlock, CPaused, CRead, CRelock, CUnpause}"

definition holds_rmu :: "ctl \<Rightarrow> bool" where
  "holds_rmu s \<longleftrightarrow> c_worker s \<in> {WRun, WTick} \<or> (\<exists>r. c_worker s = WRet r) \<or> c_client s \<in> {CUnlock, CRead, CUnpause}"

fun worker_result :: "worker \<Rightarrow> int option" where
  "worker_result (WRet r) = Some r"
| "worker_result (WSend r) = Some r"
| "worker_result _ = None"

fun client_result :: "ctl_client \<Rightarrow> int option" where
  "client_result (CResult r) = Some r"
| "client_result _ = None"

definition ctl_inv :: "bool \<Rightarrow> ctl \<Rightarrow> bool" where
  "ctl_inv ends s \<longleftrightarrow> (c_rmu s \<longleftrightarrow> holds_rmu s) \<and> (c_worker s = WResume \<longleftrightarrow> pausing (c_client s))
     \<and> (worker_result (c_worker s) \<noteq> None \<longrightarrow> c_ret s = worker_result (c_worker s))
     \<and> (c_worker s \<in> {WLock, WRun, WTick, WResume} \<longrightarrow> c_ret s = None \<and> c_client s \<noteq> CGet)
     \<and> (c_worker s = WDone \<longleftrightarrow> client_result (c_client s) \<noteq> None)
     \<and> (client_result (c_client s) \<noteq> None \<longrightarrow> c_ret s = client_result (c_client s))
     \<and> c_ret s \<in> {None, Some (-1), Some 0, Some 1} \<and> (\<not> ends \<longrightarrow> c_ret s \<in> {None, Some 0})"

lemmas ctl_defs = ctl_inv_def holds_rmu_def pausing_def receives_def

lemma ctl_inv_start: "ctl_inv ends GoSolve"
  by (simp add: ctl_defs GoSolve_def)

lemma ctl_call_inv:
  assumes "ctl_inv ends s" and "ctl_call (c_client s) c"
  shows "ctl_inv ends (s\<lparr>c_client := c\<rparr>)"
  using assms(2) assms(1) by (cases rule: ctl_call.cases) (simp_all add: ctl_defs)

lemma ctl_inv_step:
  assumes "ctl_step ends s s'" and "ctl_inv ends s"
  shows "ctl_inv ends s'"
  using assms(1)
proof cases
  case (result r)
  then show ?thesis using assms(2) by (cases "c_client s") (auto simp: ctl_defs)
next
  case call
  then show ?thesis using ctl_call_inv assms(2) by simp
qed (use assms(2) in \<open>cases "c_client s"; simp add: ctl_defs; fail\<close>)+

abbreviation ctl_run :: "bool \<Rightarrow> ctl \<Rightarrow> ctl \<Rightarrow> bool" where
  "ctl_run ends \<equiv> (ctl_step ends)\<^sup>*\<^sup>*"

lemma ctl_inv_run: "ctl_run ends s s' \<Longrightarrow> ctl_inv ends s \<Longrightarrow> ctl_inv ends s'"
  by (induction rule: rtranclp_induct) (auto intro: ctl_inv_step)

lemma ctl_inv_reachable: "ctl_run ends GoSolve s \<Longrightarrow> ctl_inv ends s"
  by (rule ctl_inv_run [OF _ ctl_inv_start])

text \<open>
  (C31) While a client reads the data of a solver it has paused, Solve is stopped inside a tick: in every reachable
  state, whether the search can end by itself or not, the mutex is held by exactly one of the running solve, the
  hand-over of a pause, and the reading client.
\<close>

theorem pause_excludes:
  assumes "ctl_run ends GoSolve s"
  shows "(c_client s = CRead \<longrightarrow> c_worker s = WResume \<and> c_rmu s)
     \<and> (c_worker s \<in> {WRun, WTick} \<longrightarrow> c_rmu s \<and> \<not> pausing (c_client s))
     \<and> (c_rmu s \<longleftrightarrow> holds_rmu s)"
proof -
  have i: "ctl_inv ends s" by (rule ctl_inv_reachable [OF assms])
  have m: "c_rmu s \<longleftrightarrow> holds_rmu s" and p: "c_worker s = WResume \<longleftrightarrow> pausing (c_client s)"
    using i unfolding ctl_inv_def by blast+
  have "c_worker s = WResume \<and> c_rmu s" if c: "c_client s = CRead"
    using m p c by (simp add: holds_rmu_def pausing_def)
  moreover have "c_rmu s \<and> \<not> pausing (c_client s)" if w: "c_worker s \<in> {WRun, WTick}"
    using m p w by (auto simp: holds_rmu_def)
  ultimately show ?thesis using m by blast
qed

section \<open>Stopping\<close>

text \<open>How many steps a call of stop is from its result, by the position of the solve.\<close>

fun worker_dist :: "worker \<Rightarrow> nat" where
  "worker_dist WLock = 5"
| "worker_dist WRun = 4"
| "worker_dist WTick = 3"
| "worker_dist (WRet r) = 2"
| "worker_dist (WSend r) = 1"
| "worker_dist WResume = 0"
| "worker_dist WDone = 0"

definition stopping :: "ctl_client \<Rightarrow> bool" where
  "stopping c \<longleftrightarrow> c \<in> {CStop, CGet}"

definition ctl_stops :: "bool \<Rightarrow> ctl \<Rightarrow> bool" where
  "ctl_stops ends s \<longleftrightarrow> ctl_inv ends s \<and> (stopping (c_client s) \<or> client_result (c_client s) \<noteq> None)"

lemma ctl_stops_step:
  assumes "ctl_step ends s s'" and "ctl_stops ends s"
  shows "ctl_stops ends s' \<and> worker_dist (c_worker s') < worker_dist (c_worker s)"
proof -
  have i: "ctl_inv ends s'" using ctl_inv_step [OF assms(1)] assms(2) by (simp add: ctl_stops_def)
  have z: "c_worker s = WDone \<longleftrightarrow> client_result (c_client s) \<noteq> None"
    and g: "c_worker s \<in> {WLock, WRun, WTick, WResume} \<longrightarrow> c_client s \<noteq> CGet"
    using assms(2) unfolding ctl_stops_def ctl_inv_def by blast+
  have c: "c_client s \<in> {CStop, CGet} \<or> (\<exists>r. c_client s = CResult r)"
    using assms(2) by (cases "c_client s") (auto simp: ctl_stops_def stopping_def)
  have "(stopping (c_client s') \<or> client_result (c_client s') \<noteq> None)
      \<and> worker_dist (c_worker s') < worker_dist (c_worker s)"
    using assms(1)
  proof cases
    case (call c')
    from call(2) show ?thesis using c by cases auto
  qed (use c z g in \<open>auto simp: stopping_def\<close>)
  then show ?thesis using i by (simp add: ctl_stops_def)
qed

text \<open>A call of stop is never stuck: the next tick takes its request.\<close>

lemma stop_moves:
  assumes "ctl_inv ends s" and "stopping (c_client s)"
  shows "\<exists>s'. ctl_step ends s s'"
proof -
  have c: "c_client s = CStop \<or> c_client s = CGet" using assms(2) by (simp add: stopping_def)
  then have p: "\<not> pausing (c_client s)" "client_result (c_client s) = None" by (auto simp: pausing_def)
  have m: "c_rmu s \<longleftrightarrow> holds_rmu s" "c_worker s = WResume \<longleftrightarrow> pausing (c_client s)"
    "c_worker s = WDone \<longleftrightarrow> client_result (c_client s) \<noteq> None"
    "c_worker s \<in> {WLock, WRun, WTick, WResume} \<longrightarrow> c_client s \<noteq> CGet"
    using assms(1) unfolding ctl_inv_def by blast+
  show ?thesis
  proof (cases "c_worker s")
    case WLock
    then have "\<not> c_rmu s" using m(1) p by (auto simp: holds_rmu_def pausing_def)
    then show ?thesis using ctl_step.lock [OF WLock] by blast
  next
    case WRun
    then show ?thesis using ctl_step.search_on by blast
  next
    case WTick
    then have "c_client s = CStop" using c m(4) by simp
    then show ?thesis using ctl_step.tick_stop [OF WTick] by blast
  next
    case (WRet r)
    then show ?thesis using ctl_step.unlock by blast
  next
    case (WSend r)
    have "receives (c_client s)" using c by (auto simp: receives_def)
    then show ?thesis using ctl_step.result [OF WSend] by blast
  qed (use m p in auto)
qed

lemma ctl_stops_run:
  assumes "(ctl_step ends ^^ n) s s'" and "ctl_stops ends s"
  shows "ctl_stops ends s' \<and> n + worker_dist (c_worker s') \<le> worker_dist (c_worker s)"
  using assms(1)
proof (induction n arbitrary: s')
  case (Suc n)
  then obtain t where t: "(ctl_step ends ^^ n) s t" "ctl_step ends t s'" by auto
  show ?case using Suc.IH [OF t(1)] ctl_stops_step [OF t(2)] by auto
qed (use assms(2) in simp)

text \<open>
  (C30) \<^verbatim>\<open>Stop\<close> returns, also when the search never comes to an end by itself: from every reachable state in
  which the client is inside \<^verbatim>\<open>stop\<close> (called by Stop, or by Try at its alarm), the two goroutines make at most
  five more steps however they are scheduled, since the next tick takes the request; and when no step is left the
  call has returned, with the value that Solve returned, which is 0 where the search does not end by itself.
\<close>

theorem Stop_returns:
  assumes "ctl_run ends GoSolve s" and "c_client s \<in> {CStop, CGet}" and "(ctl_step ends ^^ n) s s'"
  shows "n \<le> 5 \<and> ((\<nexists>t. ctl_step ends s' t) \<longrightarrow>
     (\<exists>r. c_client s' = CResult r \<and> c_ret s' = Some r \<and> (\<not> ends \<longrightarrow> r = 0)))"
proof -
  have w: "ctl_stops ends s" using ctl_inv_reachable [OF assms(1)] assms(2) by (auto simp: ctl_stops_def stopping_def)
  have d: "worker_dist w \<le> 5" for w by (cases w) simp_all
  have r: "ctl_stops ends s'" "n + worker_dist (c_worker s') \<le> worker_dist (c_worker s)"
    using ctl_stops_run [OF assms(3) w] by auto
  have "n \<le> 5" using r(2) d [of "c_worker s"] by simp
  moreover have "\<exists>r. c_client s' = CResult r \<and> c_ret s' = Some r \<and> (\<not> ends \<longrightarrow> r = 0)" if "\<nexists>t. ctl_step ends s' t"
  proof -
    have "\<not> stopping (c_client s')" using stop_moves that r(1) by (auto simp: ctl_stops_def)
    then have c: "client_result (c_client s') \<noteq> None" using r(1) by (simp add: ctl_stops_def)
    then have "c_ret s' = client_result (c_client s')" "\<not> ends \<longrightarrow> c_ret s' \<in> {None, Some 0}"
      using r(1) unfolding ctl_stops_def ctl_inv_def by blast+
    then show ?thesis using c by (cases "c_client s'") auto
  qed
  ultimately show ?thesis by blast
qed

text \<open>
  A solve that does not end by itself is stopped before it has taken its mutex: the result arrives after five steps.
\<close>

abbreviation (input) ctl_at :: "worker \<Rightarrow> ctl_client \<Rightarrow> bool \<Rightarrow> int option \<Rightarrow> ctl" where
  "ctl_at w c m r \<equiv> \<lparr>c_worker = w, c_client = c, c_rmu = m, c_ret = r\<rparr>"

lemma stop_early: "(ctl_step ends ^^ 5) (ctl_at WLock CStop False None) (ctl_at WDone (CResult 0) False (Some 0))"
proof -
  have 1: "ctl_step ends (ctl_at WLock CStop False None) (ctl_at WRun CStop True None)"
    using ctl_step.lock [of "ctl_at WLock CStop False None"] by simp
  have 2: "ctl_step ends (ctl_at WRun CStop True None) (ctl_at WTick CStop True None)"
    using ctl_step.search_on [of "ctl_at WRun CStop True None"] by simp
  have 3: "ctl_step ends (ctl_at WTick CStop True None) (ctl_at (WRet 0) CGet True (Some 0))"
    using ctl_step.tick_stop [of "ctl_at WTick CStop True None"] by simp
  have 4: "ctl_step ends (ctl_at (WRet 0) CGet True (Some 0)) (ctl_at (WSend 0) CGet False (Some 0))"
    using ctl_step.unlock [of "ctl_at (WRet 0) CGet True (Some 0)"] by simp
  have 5: "ctl_step ends (ctl_at (WSend 0) CGet False (Some 0)) (ctl_at WDone (CResult 0) False (Some 0))"
    using ctl_step.result [of "ctl_at (WSend 0) CGet False (Some 0)"] by (simp add: receives_def)
  have "(ctl_step ends ^^ 4) (ctl_at WRun CStop True None) (ctl_at WDone (CResult 0) False (Some 0))"
    using 2 3 4 5 by (auto simp: eval_nat_numeral)
  from relpowp_Suc_I2 [OF 1 this] show ?thesis by simp
qed

lemma stop_called: "ctl_run ends GoSolve (ctl_at WLock CStop False None)"
proof -
  have "ctl_step ends GoSolve (GoSolve\<lparr>c_client := CStop\<rparr>)"
    by (rule ctl_step.call) (simp add: GoSolve_def ctl_call.Stop)
  then show ?thesis by (intro r_into_rtranclp) (simp add: GoSolve_def)
qed

text \<open>A client pauses a running solve and reads its statistics.\<close>

lemma reading: "ctl_run ends GoSolve (ctl_at WResume CRead True None)"
proof -
  have "ctl_step ends GoSolve (ctl_at WRun CIdle True None)"
    using ctl_step.lock [of GoSolve] by (simp add: GoSolve_def)
  moreover have "ctl_step ends (ctl_at WRun CIdle True None) (ctl_at WRun CPause True None)"
    using ctl_step.call [of "ctl_at WRun CIdle True None" CPause] by (simp add: ctl_call.Pause)
  moreover have "ctl_step ends (ctl_at WRun CPause True None) (ctl_at WTick CPause True None)"
    using ctl_step.search_on [of "ctl_at WRun CPause True None"] by simp
  moreover have "ctl_step ends (ctl_at WTick CPause True None) (ctl_at WResume CUnlock True None)"
    using ctl_step.tick_pause [of "ctl_at WTick CPause True None"] by simp
  moreover have "ctl_step ends (ctl_at WResume CUnlock True None) (ctl_at WResume CPaused False None)"
    using ctl_step.give_up [of "ctl_at WResume CUnlock True None"] by simp
  moreover have "ctl_step ends (ctl_at WResume CPaused False None) (ctl_at WResume CRead True None)"
    using ctl_step.read_begin [of "ctl_at WResume CPaused False None"] by simp
  ultimately show ?thesis by (meson converse_rtranclp_into_rtranclp r_into_rtranclp)
qed

theorem pause_excludes_witness:
  "c_worker (ctl_at WResume CRead True None) = WResume \<and> c_rmu (ctl_at WResume CRead True None)"
  using pause_excludes [OF reading] by simp

lemma stop_final: "\<nexists>t. ctl_step ends (ctl_at WDone (CResult 0) False (Some 0)) t"
  by (auto simp: receives_def ctl_call_from elim!: ctl_stepE)

theorem Stop_returns_witness:
  "(5 :: nat) \<le> 5 \<and> (\<exists>r. CResult 0 = CResult r \<and> Some 0 = Some r \<and> (\<not> False \<longrightarrow> r = 0))"
  using Stop_returns [of False, OF stop_called _ stop_early] stop_final [of False] by simp

end
