(* ===== verification/VarUint.thy ===== *)
theory VarUint
  imports Dimacs
begin

text \<open>
  Package crisp, the wire format of the solver protocol: protocol points (\<^verbatim>\<open>crisp/proto.go\<close>), errors
  (\<^verbatim>\<open>err.go\<close>), and 32-bit integers in a variable number of bytes over a connection with one buffer
  for both directions (\<^verbatim>\<open>vu32io.go\<close>).

  In the buffer, \<^verbatim>\<open>r\<close> is the position of the next byte in both directions.  While reading,
  \<open>r \<le> w\<close> and the bytes between are unread; while writing, \<open>w \<le> r\<close> and the bytes between are unsent.
\<close>

section \<open>Protocol points and errors\<close>

definition p_Top :: u32 where "p_Top = 0xffffffff"
definition MinProto :: u32 where "MinProto = p_Top - 255"
definition p_Key :: u32 where "p_Key = p_Top"
definition p_Add :: u32 where "p_Add = p_Top - 1"
definition p_Assume :: u32 where "p_Assume = p_Top - 2"
definition p_Solve :: u32 where "p_Solve = p_Top - 3"
definition p_Continue :: u32 where "p_Continue = p_Top - 4"
definition p_End :: u32 where "p_End = p_Top - 5"
definition p_Error :: u32 where "p_Error = p_Top - 6"
definition p_Failed :: u32 where "p_Failed = p_Top - 7"
definition p_FailedFor :: u32 where "p_FailedFor = p_Top - 8"
definition p_Model :: u32 where "p_Model = p_Top - 9"
definition p_ModelFor :: u32 where "p_ModelFor = p_Top - 10"
definition p_Sat :: u32 where "p_Sat = p_Top - 11"
definition p_Unsat :: u32 where "p_Unsat = p_Top - 12"
definition p_Unknown :: u32 where "p_Unknown = p_Top - 13"
definition p_Ext :: u32 where "p_Ext = p_Top - 14"
definition p_Quit :: u32 where "p_Quit = p_Top - 15"
definition p_Reset :: u32 where "p_Reset = p_Top - 16"
definition NumExtProtos :: u32 where "NumExtProtos = p_Reset - MinProto"

lemmas proto_defs = p_Top_def MinProto_def p_Key_def p_Add_def p_Assume_def p_Solve_def p_Continue_def
  p_End_def p_Error_def p_Failed_def p_FailedFor_def p_Model_def p_ModelFor_def p_Sat_def p_Unsat_def
  p_Unknown_def p_Ext_def p_Quit_def p_Reset_def NumExtProtos_def

definition IsVarLen :: "u32 \<Rightarrow> bool" where
  "IsVarLen p \<longleftrightarrow> p = p_Add"

datatype proto_err = ErrVarUint | ErrNotSat | ErrNotUnsat | ErrOutOfOrder | ErrUnknownOp | ErrNotLit
  | ErrNotOp | ErrInternal

fun err_code :: "proto_err \<Rightarrow> u32" where
  "err_code ErrVarUint = 1"
| "err_code ErrNotSat = 2"
| "err_code ErrNotUnsat = 3"
| "err_code ErrOutOfOrder = 4"
| "err_code ErrUnknownOp = 5"
| "err_code ErrNotLit = 6"
| "err_code ErrNotOp = 7"
| "err_code ErrInternal = 8"

text \<open>The errors of the package: protocol errors, errors of the connection, and errors with a message only.\<close>

datatype io_err = EProto proto_err | ERead read_err | EWrite | EMsg

section \<open>The connection\<close>

text \<open>
  A connection holds the outcomes of the coming calls of \<^verbatim>\<open>Read\<close> (a read into a smaller slice leaves the rest
  for the next call; then the end of the input) and of \<^verbatim>\<open>Write\<close> (how many bytes are taken at most, and
  whether there is an error; then everything is taken), and what was sent.
\<close>

record conn =
  cn_reads :: reads
  cn_writes :: "(nat \<times> bool) list"
  cn_sent :: "byte list"

definition conn_Read :: "nat \<Rightarrow> conn \<Rightarrow> byte list \<times> read_err option \<times> conn" where
  "conn_Read n c =
     (case cn_reads c of
        [] \<Rightarrow> ([], Some EOF, c)
      | (bs, e) # rs \<Rightarrow>
          if length bs \<le> n then (bs, e, c\<lparr>cn_reads := rs\<rparr>)
          else (take n bs, None, c\<lparr>cn_reads := (drop n bs, e) # rs\<rparr>))"

definition conn_Write :: "byte list \<Rightarrow> conn \<Rightarrow> nat \<times> bool \<times> conn" where
  "conn_Write bs c =
     (case cn_writes c of
        [] \<Rightarrow> (length bs, False, c\<lparr>cn_sent := cn_sent c @ bs\<rparr>)
      | (n, e) # ws \<Rightarrow> (min n (length bs), e, c\<lparr>cn_writes := ws, cn_sent := cn_sent c @ take n bs\<rparr>))"

record vu32io =
  vio_rw :: conn
  vio_buf :: "byte list"
  vio_r :: nat
  vio_w :: nat

definition newVu32Io :: "conn \<Rightarrow> vu32io" where
  "newVu32Io c = \<lparr>vio_rw = c, vio_buf = replicate 1024 0, vio_r = 0, vio_w = 0\<rparr>"

text \<open>Actions on a state return a value or an error; \<open>None\<close> is a panic.\<close>

type_synonym ('s, 'a) act = "'s \<Rightarrow> ((io_err + 'a) \<times> 's) option"
type_synonym 'a vio = "(vu32io, 'a) act"

definition vret :: "'a \<Rightarrow> ('s, 'a) act" where
  "vret x v = Some (Inr x, v)"

definition vfail :: "io_err \<Rightarrow> ('s, 'a) act" where
  "vfail e v = Some (Inl e, v)"

definition vbind :: "('s, 'a) act \<Rightarrow> ('a \<Rightarrow> ('s, 'b) act) \<Rightarrow> ('s, 'b) act" where
  "vbind m f v =
     (case m v of None \<Rightarrow> None | Some (Inl e, v) \<Rightarrow> Some (Inl e, v) | Some (Inr x, v) \<Rightarrow> f x v)"

section \<open>Bytes\<close>

text \<open>Up to ten reads, until one delivers something or fails.\<close>

fun fill_loop :: "nat \<Rightarrow> unit vio" where
  "fill_loop 0 v = Some (Inl EMsg, v)"
| "fill_loop (Suc k) v =
     (let (bs, e, c) = conn_Read (length (vio_buf v) - vio_w v) (vio_rw v) in
      do { buf \<leftarrow> acopy (vio_buf v) (vio_w v) (length (vio_buf v)) bs;
           let v = v\<lparr>vio_rw := c, vio_buf := buf, vio_w := vio_w v + length bs\<rparr>;
           if bs \<noteq> [] then Some (Inr (), v)
           else (case e of Some e \<Rightarrow> Some (Inl (ERead e), v) | None \<Rightarrow> fill_loop k v) })"

definition fill :: "unit vio" where
  "fill v =
     (if vio_r v > vio_w v then Some (Inl EMsg, v)
      else fill_loop 10 (if vio_r v = vio_w v then v\<lparr>vio_r := 0, vio_w := 0\<rparr> else v))"

text \<open>Writing what is left until nothing is, an error, or ten calls in a row that take nothing.\<close>

function flush_loop :: "nat \<Rightarrow> byte list \<Rightarrow> conn \<Rightarrow> io_err option \<times> conn" where
  "flush_loop k bs c =
     (if bs = [] then (None, c)
      else let (n, e, c) = conn_Write bs c; k = (if n > 0 then 0 else k)
           in if e then (Some EWrite, c)
              else if k + 1 \<ge> 10 then (Some EMsg, c)
              else flush_loop (k + 1) (drop n bs) c)"
  by pat_completeness auto
termination
  by (relation "measures [\<lambda>(k, bs, c). length bs, \<lambda>(k, bs, c). 10 - k]") (auto split: if_splits)

declare flush_loop.simps [simp del]

definition flush :: "unit vio" where
  "flush v =
     do { bs \<leftarrow> (if vio_w v < vio_r v then aslice (vio_buf v) (vio_w v) (vio_r v) else Some []);
          let (e, c) = flush_loop 0 bs (vio_rw v);
          case e of
            Some e \<Rightarrow> Some (Inl e, v\<lparr>vio_rw := c\<rparr>)
          | None \<Rightarrow> Some (Inr (), v\<lparr>vio_rw := c, vio_r := 0, vio_w := 0\<rparr>) }"

definition vio_next :: "byte vio" where
  "vio_next v = do { b \<leftarrow> aget (vio_buf v) (vio_r v); Some (Inr b, v\<lparr>vio_r := vio_r v + 1\<rparr>) }"

definition vio_readByte :: "byte vio" where
  "vio_readByte v = (if vio_r v \<ge> vio_w v then vbind fill (\<lambda>_. vio_next) v else vio_next v)"

definition vio_put :: "byte \<Rightarrow> unit vio" where
  "vio_put b v = do { buf \<leftarrow> aset (vio_buf v) (vio_r v) b; Some (Inr (), v\<lparr>vio_buf := buf, vio_r := vio_r v + 1\<rparr>) }"

definition vio_writeByte :: "byte \<Rightarrow> unit vio" where
  "vio_writeByte b v =
     (if vio_r v \<ge> length (vio_buf v) then vbind flush (\<lambda>_. vio_put b) v else vio_put b v)"

section \<open>Integers\<close>

definition VarUintMask :: u32 where "VarUintMask = push_bit 7 1 - 1"

text \<open>At most five bytes; \<open>n\<close> is the number of bytes still allowed.\<close>

fun readu32_loop :: "nat \<Rightarrow> u32 \<Rightarrow> nat \<Rightarrow> u32 vio" where
  "readu32_loop 0 res s = vfail (EProto ErrVarUint)"
| "readu32_loop (Suc n) res s =
     vbind vio_readByte (\<lambda>b.
       let z = ucast b AND VarUintMask; res = res OR push_bit s z
       in if b AND push_bit 7 1 = 0 then vret res else readu32_loop n res (s + 7))"

definition readu32 :: "u32 vio" where
  "readu32 = readu32_loop 5 0 0"

definition readu32Data :: "u32 vio" where
  "readu32Data = vbind readu32 (\<lambda>n. if n \<ge> MinProto then vfail (EProto ErrNotLit) else vret n)"

lemma unat_drop_bit_7: "unat (drop_bit 7 d) = unat d div 128" for d :: u32
  by (simp add: unat_drop_bit_eq drop_bit_eq_div unat_div_distrib)

function writeu32 :: "u32 \<Rightarrow> unit vio" where
  "writeu32 d =
     (let b = ucast (d AND VarUintMask) :: byte; d' = drop_bit 7 d
      in if d' > 0 then vbind (vio_writeByte (b OR push_bit 7 1)) (\<lambda>_. writeu32 d') else vio_writeByte b)"
  by pat_completeness auto

termination
  by (relation "measure unat") (auto simp: unat_drop_bit_7 word_gt_0 word_unat_eq_iff)

declare writeu32.simps [simp del]

fun vio_send :: "lit list \<Rightarrow> unit vio" where
  "vio_send [] = writeu32 0"
| "vio_send (m # ms) = vbind (writeu32 m) (\<lambda>_. vio_send ms)"

definition writeflush :: "u32 \<Rightarrow> unit vio" where
  "writeflush u = vbind (writeu32 u) (\<lambda>_. flush)"

text \<open>
  Reading literals up to the null literal.  Every round consumes a byte of the input, so the number of
  bytes still to come bounds the rounds.  On an error, what was read so far is lost.
\<close>

definition vio_left :: "vu32io \<Rightarrow> nat" where
  "vio_left v = (vio_w v - vio_r v) + length (concat (map fst (cn_reads (vio_rw v))))"

fun recv_loop :: "nat \<Rightarrow> lit list \<Rightarrow> lit list vio" where
  "recv_loop 0 dst = vfail (ERead EOF)"
| "recv_loop (Suc n) dst =
     vbind readu32 (\<lambda>d.
       if d = 0 then vret dst
       else if d \<ge> MinProto then vfail (EProto ErrNotLit)
       else recv_loop n (dst @ [d]))"

definition vio_recv :: "lit list \<Rightarrow> lit list vio" where
  "vio_recv dst v = recv_loop (Suc (vio_left v)) dst v"

end
