(* ===== verification/Crisp.thy ===== *)
theory Crisp
  imports VarUint Facade
begin

text \<open>
  Package crisp: addresses, versions and extensions (\<^verbatim>\<open>crisp/addr.go\<close>, \<^verbatim>\<open>version.go\<close>, \<^verbatim>\<open>exts.go\<close>), the server's
  handler of a connection (\<^verbatim>\<open>handler.go\<close>) and the client (\<^verbatim>\<open>client.go\<close>).  Tracing and logging are left out.
\<close>

section \<open>Addresses, versions, extensions\<close>

record addr =
  a_Network :: string
  a_NetAddr :: string

fun ParseAddr :: "string \<Rightarrow> addr" where
  "ParseAddr (c # s) =
     (if c = CHR ''@'' then \<lparr>a_Network = ''unix'', a_NetAddr = s\<rparr> else \<lparr>a_Network = ''tcp'', a_NetAddr = c # s\<rparr>)"
| "ParseAddr [] = \<lparr>a_Network = ''tcp'', a_NetAddr = []\<rparr>"

definition addr_String :: "addr \<Rightarrow> string" where
  "addr_String a = (if a_Network a = ''@'' then CHR ''@'' # a_NetAddr a else a_NetAddr a)"

definition crisp_V :: u32 where "crisp_V = push_bit 23 1"

definition version_Major :: "u32 \<Rightarrow> int" where
  "version_Major v = uint (drop_bit 23 v)"

definition version_Minor :: "u32 \<Rightarrow> int" where
  "version_Minor v = uint (v AND 0xfffff)"

record extn =
  x_Id :: u16
  x_N :: u8
  x_Off :: u32

definition extn_Op :: "extn \<Rightarrow> u32 \<Rightarrow> u32" where
  "extn_Op e o' = o' + x_Off e"

record exts =
  e_D :: "extn list"
  e_Off :: u32

definition NewExts :: exts where
  "NewExts = \<lparr>e_D = [], e_Off = MinProto\<rparr>"

text \<open>\<open>None\<close> is the error.\<close>

definition exts_Install :: "u16 \<Rightarrow> u8 \<Rightarrow> exts \<Rightarrow> nat option \<times> exts" where
  "exts_Install i n e =
     (if e_Off e + ucast n \<ge> MinProto + NumExtProtos then (None, e)
      else (Some (length (e_D e)),
            e\<lparr>e_D := e_D e @ [\<lparr>x_Id = i, x_N = n, x_Off = e_Off e\<rparr>], e_Off := e_Off e + ucast n\<rparr>))"

definition exts_Op :: "exts \<Rightarrow> nat \<Rightarrow> u32 \<Rightarrow> u32 option" where
  "exts_Op e i o' = map_option (\<lambda>x. extn_Op x o') (aget (e_D e) i)"

definition exts_Id :: "exts \<Rightarrow> nat \<Rightarrow> u16 option" where
  "exts_Id e i = map_option x_Id (aget (e_D e) i)"

section \<open>Lists of truth values\<close>

text \<open>
  Truth values are sent in words of 32, the first in the lowest bit: the bodies of the loops of the handler and of the
  client.  \<open>f i\<close> is the \<open>i\<close>-th value.
\<close>

definition pack_len :: "u32 \<Rightarrow> u32" where
  "pack_len M = (if M mod 32 \<noteq> 0 then M + (32 - M mod 32) else M)"

fun pack_loop :: "(nat \<Rightarrow> bool option) \<Rightarrow> nat \<Rightarrow> nat list \<Rightarrow> u32 \<Rightarrow> unit vio" where
  "pack_loop f M [] u v = Some (Inr (), v)"
| "pack_loop f M (i # is) u v =
     do { b \<leftarrow> (if i < M then f i else Some False);
          let j = i mod 32;
          let u = (if b then u OR push_bit j 1 else u);
          if j = 31 then vbind (writeu32 u) (\<lambda>_. pack_loop f M is 0) v else pack_loop f M is u v }"

definition pack :: "(nat \<Rightarrow> bool option) \<Rightarrow> u32 \<Rightarrow> unit vio" where
  "pack f M =
     vbind (writeu32 (pack_len M div 32)) (\<lambda>_.
     vbind (pack_loop f (unat M) [0..<unat (pack_len M)] 0) (\<lambda>_. flush))"

fun unpack_loop :: "nat list \<Rightarrow> u32 \<Rightarrow> bool list \<Rightarrow> bool list vio" where
  "unpack_loop [] u vs = vret vs"
| "unpack_loop (i # is) u vs =
     vbind (if i mod 32 = 0 then readu32 else vret u) (\<lambda>u v.
       do { vs \<leftarrow> aset vs (i + 1) (u AND push_bit (i mod 32) 1 \<noteq> 0); unpack_loop is u vs v })"

section \<open>The handler\<close>

text \<open>
  The solver goes on in a goroutine of its own between \<^verbatim>\<open>GoSolve\<close> and the receipt of its result.  As long as the
  handler only tests and stops it, nobody sees how far it is, so the model takes its result at \<^verbatim>\<open>GoSolve\<close> and keeps it
  in \<open>h_pending\<close> until a test or a stop receives it.  Nothing keeps a client from sending other requests
  before that: \<^verbatim>\<open>Solve\<close> locks the solver, but \<^verbatim>\<open>Add\<close>, \<^verbatim>\<open>Assume\<close>, \<^verbatim>\<open>Value\<close> and \<^verbatim>\<open>Why\<close> do not
  (\<^verbatim>\<open>internal/xo/s.go\<close>), so the handler would then read and write the solver's data beside the running solve.
  What comes of that race is not modelled: \<open>unraced\<close> makes such a request \<open>None\<close>, and so is a second solve before the first
  result is received, whose results come in any order.
  \<open>h_ready\<close> says for the coming tests whether a result has arrived (then: it has),
  \<open>h_ctl\<close> are the outcomes of the control calls of the coming solves (then: none stops).
  What \<^verbatim>\<open>cleanup\<close> sets to nil is kept; nothing reads it once \<open>h_closed\<close> holds.
\<close>

record 'h handler =
  h_uio :: vu32io
  h_gini :: "'h gini"
  h_proto :: u32
  h_ms :: "lit list"
  h_steps :: nat
  h_pending :: "int option"
  h_ready :: "bool list"
  h_ctl :: "(nat \<Rightarrow> bool \<times> bool) list"
  h_closed :: bool

definition on_uio :: "'a vio \<Rightarrow> ('h handler, 'a) act" where
  "on_uio f h = (case f (h_uio h) of None \<Rightarrow> None | Some (r, v) \<Rightarrow> Some (r, h\<lparr>h_uio := v\<rparr>))"

definition unraced :: "('h handler, 'a) act \<Rightarrow> ('h handler, 'a) act" where
  "unraced f h = (if h_pending h = None then f h else None)"

definition on_gini :: "('h gini \<Rightarrow> 'h gini option) \<Rightarrow> ('h handler, unit) act" where
  "on_gini f = unraced (\<lambda>h. do { g \<leftarrow> f (h_gini h); Some (Inr (), h\<lparr>h_gini := g\<rparr>) })"

definition from_gini :: "('h gini \<Rightarrow> ('a \<times> 'h gini) option) \<Rightarrow> ('h handler, 'a) act" where
  "from_gini f = unraced (\<lambda>h. do { (x, g) \<leftarrow> f (h_gini h); Some (Inr x, h\<lparr>h_gini := g\<rparr>) })"

definition set_proto :: "u32 \<Rightarrow> ('h handler, unit) act" where
  "set_proto p h = Some (Inr (), h\<lparr>h_proto := p\<rparr>)"

definition h_cleanup :: "'h handler \<Rightarrow> 'h handler" where
  "h_cleanup h = h\<lparr>h_ms := [], h_proto := p_Unknown, h_closed := True\<rparr>"

text \<open>Reporting an error: the value returned is the error itself.\<close>

definition h_Error :: "proto_err \<Rightarrow> ('h handler, 'a) act" where
  "h_Error e =
     vbind (on_uio (writeu32 p_Error)) (\<lambda>_.
     vbind (on_uio (writeflush (err_code e))) (\<lambda>_ h.
       Some (Inl (EProto e), h_cleanup h)))"

fun send_words :: "u32 list \<Rightarrow> unit vio" where
  "send_words [] = vret ()"
| "send_words (d # ds) = vbind (writeu32 d) (\<lambda>_. send_words ds)"

definition hello_bytes :: "u32 list" where
  "hello_bytes = [0x43, 0x52, 0x49, 0x53, 0x50]"

definition h_Hello :: "('h handler, unit) act" where
  "h_Hello = on_uio (vbind (send_words hello_bytes) (\<lambda>_. writeflush crisp_V))"

fun key_loop :: "nat \<Rightarrow> ('h handler, unit) act" where
  "key_loop 0 = vret ()"
| "key_loop (Suc n) = vbind (on_uio readu32) (\<lambda>_. key_loop n)"

definition handleKey :: "('h handler, unit) act" where
  "handleKey = vbind (set_proto p_Key) (\<lambda>_. vbind (on_uio readu32) (\<lambda>n. key_loop (unat n)))"

text \<open>A solver that still runs is left to itself; its result can no longer be asked for.\<close>

definition handleReset :: "'h floats \<Rightarrow> ('h handler, unit) act" where
  "handleReset fl h =
     do { g \<leftarrow> gini_New fl; Some (Inr (), h\<lparr>h_gini := g, h_proto := p_Unknown, h_pending := None\<rparr>) }"

definition handleExt :: "('h handler, unit) act" where
  "handleExt = on_uio (writeflush 0)"

fun h_add_loop :: "'h floats \<Rightarrow> nat \<Rightarrow> ('h handler, unit) act" where
  "h_add_loop fl 0 = vfail (ERead EOF)"
| "h_add_loop fl (Suc n) =
     vbind (on_uio readu32) (\<lambda>m.
       if m = p_End then vret ()
       else if m \<ge> MinProto then vfail EMsg
       else vbind (on_gini (gini_Add fl m)) (\<lambda>_. h_add_loop fl n))"

definition handleAdd :: "'h floats \<Rightarrow> ('h handler, unit) act" where
  "handleAdd fl = vbind (set_proto p_Add) (\<lambda>_ h. h_add_loop fl (Suc (vio_left (h_uio h))) h)"

definition handleAssume :: "'h floats \<Rightarrow> ('h handler, unit) act" where
  "handleAssume fl =
     vbind (set_proto p_Assume) (\<lambda>_ h.
     vbind (on_uio (vio_recv (h_ms h))) (\<lambda>ms.
     vbind (on_gini (foldM (\<lambda>m. gini_Assume fl [m]) ms)) (\<lambda>_ h.
       Some (Inr (), h\<lparr>h_ms := []\<rparr>))) h)"

text \<open>
  The solver's control: starting, testing, stopping.  A stop without a result to come waits forever (\<open>None\<close> like a panic).
\<close>

definition h_GoSolve :: "'h floats \<Rightarrow> ('h handler, unit) act" where
  "h_GoSolve fl = unraced (\<lambda>h.
     let (ctl, cs) = (case h_ctl h of [] \<Rightarrow> (\<lambda>_. (False, True), []) | c # cs \<Rightarrow> (c, cs))
     in do { (r, g) \<leftarrow> gini_Solve fl ctl (h_gini h);
             Some (Inr (), h\<lparr>h_gini := g, h_pending := Some r, h_ctl := cs\<rparr>) })"

definition h_Test :: "('h handler, int \<times> bool) act" where
  "h_Test h =
     (let (ready, rs) = (case h_ready h of [] \<Rightarrow> (True, []) | b # bs \<Rightarrow> (b, bs)); h = h\<lparr>h_ready := rs\<rparr>
      in case h_pending h of
           Some r \<Rightarrow> if ready then Some (Inr (r, True), h\<lparr>h_pending := None\<rparr>) else Some (Inr (0, False), h)
         | None \<Rightarrow> Some (Inr (0, False), h))"

definition h_Stop :: "('h handler, int) act" where
  "h_Stop h =
     (case h_pending h of
        Some r \<Rightarrow> Some (Inr r, h\<lparr>h_pending := None\<rparr>)
      | None \<Rightarrow> None)"

definition sendRes :: "int \<Rightarrow> bool \<Rightarrow> ('h handler, unit) act" where
  "sendRes res fin =
     (if res = -1 then on_uio (writeflush p_Unsat)
      else if res = 1 then on_uio (writeflush p_Sat)
      else if res = 0 then on_uio (writeflush (if fin then p_End else p_Unknown))
      else (\<lambda>_. None))"

definition handleStep :: "('h handler, unit) act" where
  "handleStep =
     vbind h_Test (\<lambda>(res, fin) h.
       if res = 0 \<and> fin then None
       else sendRes res False (h\<lparr>h_steps := h_steps h + 1\<rparr>))"

definition handleSolve :: "'h floats \<Rightarrow> ('h handler, unit) act" where
  "handleSolve fl =
     vbind (set_proto p_Solve) (\<lambda>_.
     vbind (h_GoSolve fl) (\<lambda>_ h.
       handleStep (h\<lparr>h_steps := 0\<rparr>)))"

definition handleContinue :: "('h handler, unit) act" where
  "handleContinue h = (if h_proto h \<noteq> p_Solve then vfail (EProto ErrOutOfOrder) h else handleStep h)"

definition handleEnd :: "('h handler, unit) act" where
  "handleEnd h =
     (if h_proto h \<noteq> p_Solve then vfail (EProto ErrOutOfOrder) h
      else vbind (set_proto p_End) (\<lambda>_. vbind h_Stop (\<lambda>r. sendRes r True)) h)"

definition handleModel :: "('h handler, unit) act" where
  "handleModel h =
     (if h_proto h \<noteq> p_Solve then h_Error ErrOutOfOrder h
      else unraced (on_uio (pack (\<lambda>i. gini_Value (var_Pos (of_nat (i + 1))) (h_gini h)) (gini_MaxVar (h_gini h)))) h)"

definition handleModelFor :: "('h handler, unit) act" where
  "handleModelFor h =
     (if h_proto h \<noteq> p_Solve then h_Error ErrOutOfOrder h
      else vbind (on_uio (vio_recv (h_ms h))) (\<lambda>ms. unraced (\<lambda>h.
             on_uio (pack (\<lambda>i. do { m \<leftarrow> aget ms i; gini_Value m (h_gini h) }) (of_nat (length ms))) h)) h)"

definition handleFailed :: "('h handler, unit) act" where
  "handleFailed h =
     (if h_proto h \<noteq> p_Solve then h_Error ErrOutOfOrder h
      else vbind (from_gini (gini_Why (h_ms h))) (\<lambda>fails.
           vbind (on_uio (vio_send fails)) (\<lambda>_. on_uio flush)) h)"

definition handleFailedFor :: "('h handler, unit) act" where
  "handleFailedFor h =
     (if h_proto h \<noteq> p_Solve then h_Error ErrOutOfOrder h
      else vbind (from_gini (gini_Why [])) (\<lambda>fs.
           vbind (on_uio (vio_recv [])) (\<lambda>ms.
           vbind (on_uio (vio_send (filter (\<lambda>m. m \<in> set fs) ms))) (\<lambda>_. on_uio flush))) (h\<lparr>h_ms := []\<rparr>))"

text \<open>One request, and the loop over the requests; every round consumes a byte of the input.\<close>

definition handle_op :: "'h floats \<Rightarrow> u32 \<Rightarrow> ('h handler, unit) act" where
  "handle_op fl p =
     (if p = p_Key then handleKey
      else if p = p_Add then handleAdd fl
      else if p = p_Assume then handleAssume fl
      else if p = p_Solve then handleSolve fl
      else if p = p_Continue then handleContinue
      else if p = p_End then handleEnd
      else if p = p_Model then handleModel
      else if p = p_ModelFor then handleModelFor
      else if p = p_Failed then handleFailed
      else if p = p_FailedFor then handleFailedFor
      else if p = p_Ext then handleExt
      else if p = p_Reset then handleReset fl
      else h_Error ErrUnknownOp)"

fun crisp_loop :: "'h floats \<Rightarrow> nat \<Rightarrow> ('h handler, unit) act" where
  "crisp_loop fl 0 = vfail (ERead EOF)"
| "crisp_loop fl (Suc n) =
     vbind (on_uio readu32) (\<lambda>p.
       if p = p_Quit then vret () else vbind (handle_op fl p) (\<lambda>_. crisp_loop fl n))"

definition handler_Crisp :: "'h floats \<Rightarrow> ('h handler, unit) act" where
  "handler_Crisp fl = vbind h_Hello (\<lambda>_ h. crisp_loop fl (Suc (vio_left (h_uio h))) h)"

text \<open>Serving a connection: the error is logged; what remains is the handler, ready for the next connection.\<close>

definition serveConn :: "'h floats \<Rightarrow> conn \<Rightarrow> 'h handler \<Rightarrow> 'h handler option" where
  "serveConn fl c h =
     do { g \<leftarrow> gini_New fl;
          (e, h) \<leftarrow> handler_Crisp fl (h\<lparr>h_uio := newVu32Io c, h_gini := g, h_proto := p_Unknown, h_pending := None, h_closed := False\<rparr>);
          Some (h_cleanup h) }"

section \<open>The client\<close>

text \<open>
  \<open>cl_model\<close> is empty for the nil slice; \<open>cl_cancel\<close> says for the coming answers \<open>unknown\<close> whether the solve has been
  cancelled by then.
\<close>

record client =
  cl_io :: vu32io
  cl_proto :: u32
  cl_lastSat :: int
  cl_maxVar :: var
  cl_exts :: "exts option"
  cl_model :: "bool list"
  cl_cancel :: "bool list"

definition on_io :: "'a vio \<Rightarrow> (client, 'a) act" where
  "on_io f c = (case f (cl_io c) of None \<Rightarrow> None | Some (r, v) \<Rightarrow> Some (r, c\<lparr>cl_io := v\<rparr>))"

fun read_words :: "nat \<Rightarrow> u32 list vio" where
  "read_words 0 = vret []"
| "read_words (Suc n) = vbind readu32 (\<lambda>d. vbind (read_words n) (\<lambda>ds. vret (d # ds)))"

definition client_Hello :: "(client, unit) act" where
  "client_Hello =
     vbind (on_io (read_words 5)) (\<lambda>hdr.
       if map ucast hdr \<noteq> (map ucast hello_bytes :: byte list) then vfail EMsg
       else vbind (on_io readu32) (\<lambda>_. vret ()))"

text \<open>\<^verbatim>\<open>Dial\<close> on an open connection.\<close>

definition Dial :: "conn \<Rightarrow> (io_err + client) option" where
  "Dial c =
     (case client_Hello \<lparr>cl_io = newVu32Io c, cl_proto = p_Unknown, cl_lastSat = 0, cl_maxVar = 0, cl_exts = None,
        cl_model = [], cl_cancel = []\<rparr> of
        None \<Rightarrow> None
      | Some (Inl e, _) \<Rightarrow> Some (Inl e)
      | Some (Inr _, c) \<Rightarrow> Some (Inr c))"

text \<open>The operation is sent and the state set even if sending fails; the states not listed panic.\<close>

definition send_op :: "u32 \<Rightarrow> (client, unit) act" where
  "send_op p c =
     (let w = (if p \<in> {p_Key, p_Add, p_Assume, p_ModelFor, p_FailedFor} then writeu32 p else writeflush p)
      in if p \<in> {p_Key, p_Add, p_Assume, p_Solve, p_Model, p_ModelFor, p_Failed, p_FailedFor, p_Quit, p_Reset, p_Ext}
         then on_io w (c\<lparr>cl_proto := p\<rparr>) else None)"

definition checkState :: "u32 \<Rightarrow> (client, unit) act" where
  "checkState p c =
     (if IsVarLen (cl_proto c) then vbind (on_io (writeflush p_End)) (\<lambda>_. send_op p) c else send_op p c)"

text \<open>Going on whatever an action returned.\<close>

definition vignore :: "('s, 'a) act \<Rightarrow> ('s, 'b) act \<Rightarrow> ('s, 'b) act" where
  "vignore m f v = (case m v of None \<Rightarrow> None | Some (_, v) \<Rightarrow> f v)"

definition raise_max :: "lit \<Rightarrow> client \<Rightarrow> client" where
  "raise_max m c = (if lit_Var m > cl_maxVar c then c\<lparr>cl_maxVar := lit_Var m\<rparr> else c)"

definition client_Add :: "lit \<Rightarrow> (client, unit) act" where
  "client_Add m c =
     (let add = (\<lambda>c. on_io (writeu32 m) (raise_max m c))
      in if cl_proto c \<noteq> p_Add then vignore (checkState p_Add) add c else add c)"

definition client_Assume :: "lit list \<Rightarrow> (client, unit) act" where
  "client_Assume ms c =
     (if ms = [] then Some (Inr (), c)
      else vignore (checkState p_Assume)
             (vbind (on_io (vio_send ms)) (\<lambda>_ c. on_io flush (fold raise_max ms c))) c)"

definition client_MaxVar :: "client \<Rightarrow> var" where
  "client_MaxVar = cl_maxVar"

definition answered :: "int \<Rightarrow> (client, int) act" where
  "answered r c = Some (Inr r, c\<lparr>cl_lastSat := r\<rparr>)"

fun csolve_loop :: "nat \<Rightarrow> bool \<Rightarrow> (client, int) act" where
  "csolve_loop 0 sentEnd = vfail (ERead EOF)"
| "csolve_loop (Suc n) sentEnd =
     vbind (on_io readu32) (\<lambda>p c.
       if p = 0 then csolve_loop n False c
       else if p = p_Sat then answered 1 c
       else if p = p_Unsat then answered (-1) c
       else if p = p_End then answered 0 c
       else if p = p_Unknown then
         (if sentEnd then vfail (EProto ErrOutOfOrder) c
          else case cl_cancel c of
                 True # cs \<Rightarrow> vbind (on_io (writeflush p_End)) (\<lambda>_. csolve_loop n True) (c\<lparr>cl_cancel := cs\<rparr>)
               | bs \<Rightarrow> vbind (on_io (writeflush p_Continue)) (\<lambda>_. csolve_loop n False) (c\<lparr>cl_cancel := tl bs\<rparr>))
       else vfail (EProto (if p \<ge> MinProto then ErrUnknownOp else ErrNotOp)) c)"

definition client_Solve :: "(client, int) act" where
  "client_Solve = vbind (checkState p_Solve) (\<lambda>_ c. csolve_loop (Suc (vio_left (cl_io c))) False c)"

text \<open>
  The models: \<open>vs\<close> is the slice passed in, up to its capacity.  If the request cannot be sent, the result is the
  nil slice without an error.
\<close>

definition client_Model :: "bool list \<Rightarrow> (client, bool list) act" where
  "client_Model vs c =
     (if cl_lastSat c \<noteq> 1 then vfail EMsg c
      else case checkState p_Model c of
             None \<Rightarrow> None
           | Some (Inl _, c) \<Rightarrow> Some (Inr [], c)
           | Some (Inr _, c) \<Rightarrow>
               vbind (on_io readu32Data) (\<lambda>n.
                 let cap = n * 32 + 1; vs = (if length vs < unat cap then replicate (unat cap) False else take (unat cap) vs)
                 in vbind (on_io (unpack_loop [0..<unat (cap - 1)] 0 vs)) (\<lambda>vs c.
                      Some (Inr vs, c\<lparr>cl_model := vs\<rparr>))) c)"

definition client_Value :: "lit \<Rightarrow> (client, bool) act" where
  "client_Value m =
     vbind (\<lambda>c. if cl_model c = [] then vbind (client_Model []) (\<lambda>vs c. Some (Inr (), c\<lparr>cl_model := vs\<rparr>)) c
                else Some (Inr (), c)) (\<lambda>_ c.
       do { b \<leftarrow> aget (cl_model c) (unat (lit_Var m)); Some (Inr (if lit_IsPos m then b else \<not> b), c) })"

definition client_ModelFor :: "bool list \<Rightarrow> lit list \<Rightarrow> (client, bool list) act" where
  "client_ModelFor dst ms c =
     (if cl_lastSat c \<noteq> 1 then vfail EMsg c
      else case checkState p_ModelFor c of
             None \<Rightarrow> None
           | Some (Inl _, c) \<Rightarrow> Some (Inr [], c)
           | Some (Inr _, c) \<Rightarrow>
               vbind (on_io (vio_send ms)) (\<lambda>_.
               vbind (on_io flush) (\<lambda>_.
               vbind (on_io readu32Data) (\<lambda>n c.
                 let cap = n * 32 + 1
                 in do { dst \<leftarrow> (if length dst < unat cap then Some (replicate (unat cap) False)
                                  else aslice dst 0 (unat (cap + 1)));
                         on_io (unpack_loop [0..<unat (cap - 1)] 0 dst) c }))) c)"

definition client_Why :: "lit list \<Rightarrow> (client, lit list) act" where
  "client_Why ms c =
     (if cl_lastSat c \<noteq> -1 then vfail EMsg c
      else case checkState p_Failed c of
             None \<Rightarrow> None
           | Some (Inl _, c) \<Rightarrow> Some (Inr ms, c)
           | Some (Inr _, c) \<Rightarrow> on_io (vio_recv ms) c)"

definition client_WhySelect :: "lit list \<Rightarrow> lit list \<Rightarrow> (client, lit list) act" where
  "client_WhySelect dst ms c =
     (if cl_lastSat c \<noteq> -1 then vfail EMsg c
      else case checkState p_FailedFor c of
             None \<Rightarrow> None
           | Some (Inl _, c) \<Rightarrow> Some (Inr dst, c)
           | Some (Inr _, c) \<Rightarrow>
               vbind (on_io (vio_send ms)) (\<lambda>_. vbind (on_io flush) (\<lambda>_. on_io (vio_recv dst))) c)"

text \<open>An extension that does not fit is passed over.\<close>

fun exts_loop :: "nat \<Rightarrow> exts \<Rightarrow> exts vio" where
  "exts_loop 0 x = vfail (ERead EOF)"
| "exts_loop (Suc n) x =
     vbind readu32 (\<lambda>d.
       if d = 0 then vret x else exts_loop n (snd (exts_Install (ucast (drop_bit 16 d)) (ucast (d AND 0xff)) x)))"

definition GetExts :: "(client, nat) act" where
  "GetExts =
     vbind (checkState p_Ext) (\<lambda>_ c.
     vbind (on_io (exts_loop (Suc (vio_left (cl_io c))) NewExts)) (\<lambda>x c.
       Some (Inr (length (e_D x)), c\<lparr>cl_exts := Some x\<rparr>)) (c\<lparr>cl_exts := None\<rparr>))"

definition ExtOp :: "nat \<Rightarrow> u32 \<Rightarrow> client \<Rightarrow> u32 option" where
  "ExtOp i o' c = do { x \<leftarrow> cl_exts c; exts_Op x i o' }"

definition client_Reset :: "(client, unit) act" where
  "client_Reset = vbind (checkState p_Reset) (\<lambda>_ c. Some (Inr (), c\<lparr>cl_proto := p_Unknown\<rparr>))"

definition client_Quit :: "(client, unit) act" where
  "client_Quit = checkState p_Quit"

text \<open>Sending the clauses of a solver that was read from a file.\<close>

fun from_lits :: "u32 list \<Rightarrow> (client, unit) act" where
  "from_lits [] = (\<lambda>_. None)"
| "from_lits (m # ms) = vbind (client_Add m) (\<lambda>_. if m = LitNull then vret () else from_lits ms)"

fun from_locs :: "u32 list \<Rightarrow> cloc list \<Rightarrow> (client, unit) act" where
  "from_locs D [] = vret ()"
| "from_locs D (p # ps) = vbind (from_lits (drop (unat p) D)) (\<lambda>_. from_locs D ps)"

definition fromXo :: "'h solver \<Rightarrow> (client, unit) act" where
  "fromXo x = from_locs (cd_D (cb_CDat (sv_Cdb x))) (cb_Added (sv_Cdb x))"

definition client_Dimacs :: "'h floats \<Rightarrow> reads \<Rightarrow> (client, unit) act" where
  "client_Dimacs fl rs c =
     do { r \<leftarrow> NewSDimacs fl rs;
          case r of Inl _ \<Rightarrow> vfail EMsg c | Inr d \<Rightarrow> do { x \<leftarrow> d; fromXo x c } }"

end
