(* ===== verification/VarUintProps.thy ===== *)
theory VarUintProps
  imports VarUint DimacsProps
begin

text \<open>
  The wire format of CRISP: what the bytes of an integer are, that reading and writing use the buffer of the
  connection correctly as long as one direction is finished before the other begins, and that the reader
  gives back what the writer wrote.
\<close>

section \<open>The buffer\<close>

text \<open>A connection without errors in its future.\<close>

definition conn_ok :: "conn \<Rightarrow> bool" where
  "conn_ok c \<longleftrightarrow> (\<forall>x \<in> set (cn_reads c). fst x \<noteq> [] \<and> snd x = None) \<and> (\<forall>x \<in> set (cn_writes c). 0 < fst x \<and> \<not> snd x)"

definition vio_ok :: "vu32io \<Rightarrow> bool" where
  "vio_ok v \<longleftrightarrow> length (vio_buf v) = 1024 \<and> vio_r v \<le> 1024 \<and> vio_w v \<le> 1024 \<and> conn_ok (vio_rw v)"

text \<open>
  While reading: \<open>bs\<close> are bytes still to be read, with no read reaching beyond their end, \<open>rs\<close> the reads behind
  them, and \<open>out\<close> the bytes sent so far.
\<close>

definition reading :: "reads \<Rightarrow> byte list \<Rightarrow> byte list \<Rightarrow> vu32io \<Rightarrow> bool" where
  "reading rs bs out v \<longleftrightarrow> vio_ok v \<and> vio_r v \<le> vio_w v \<and> cn_sent (vio_rw v) = out
     \<and> (\<exists>cs. cn_reads (vio_rw v) = plain_reads cs @ rs
          \<and> take (vio_w v - vio_r v) (drop (vio_r v) (vio_buf v)) @ concat cs = bs)"

text \<open>While writing: \<open>out\<close> are the bytes sent so far and those waiting in the buffer.\<close>

definition writing :: "reads \<Rightarrow> byte list \<Rightarrow> vu32io \<Rightarrow> bool" where
  "writing rs out v \<longleftrightarrow> vio_ok v \<and> vio_w v \<le> vio_r v \<and> cn_reads (vio_rw v) = rs
     \<and> cn_sent (vio_rw v) @ take (vio_r v - vio_w v) (drop (vio_w v) (vio_buf v)) = out"

text \<open>In between, when the direction can change: nothing is in the buffer.\<close>

definition at_rest :: "reads \<Rightarrow> byte list \<Rightarrow> vu32io \<Rightarrow> bool" where
  "at_rest rs out v \<longleftrightarrow> vio_ok v \<and> vio_r v = vio_w v \<and> cn_reads (vio_rw v) = rs \<and> cn_sent (vio_rw v) = out"

lemma rest_writing: "at_rest rs out v \<Longrightarrow> writing rs out v"
  by (simp add: at_rest_def writing_def)

lemma rest_reading: "at_rest (plain_reads cs @ rs) out v \<Longrightarrow> reading rs (concat cs) out v"
  by (auto simp: at_rest_def reading_def)

lemma reading_rest:
  assumes "reading rs [] out v"
  shows "at_rest rs out v"
proof -
  obtain cs where cs: "cn_reads (vio_rw v) = plain_reads cs @ rs" "concat cs = []"
    "take (vio_w v - vio_r v) (drop (vio_r v) (vio_buf v)) = []" using assms by (auto simp: reading_def)
  have "vio_r v = vio_w v" using assms cs(3) by (auto simp: reading_def vio_ok_def)
  moreover have "cs = []" using assms cs by (cases cs) (auto simp: reading_def vio_ok_def conn_ok_def plain_reads_def)
  ultimately show ?thesis using assms cs by (simp add: at_rest_def reading_def plain_reads_def)
qed

definition yields :: "((io_err + 'a) \<times> 's) option \<Rightarrow> (io_err + 'a) \<Rightarrow> ('s \<Rightarrow> bool) \<Rightarrow> bool" where
  "yields m r P \<longleftrightarrow> (\<exists>v. m = Some (r, v) \<and> P v)"

lemma yields_vret [simp]: "yields (vret x v) r P \<longleftrightarrow> r = Inr x \<and> P v"
  by (auto simp: yields_def vret_def)

lemma yields_vfail [simp]: "yields (vfail e v) r P \<longleftrightarrow> r = Inl e \<and> P v"
  by (auto simp: yields_def vfail_def)

lemma yields_vbind:
  assumes "yields (m v) (Inr x) Q" and "\<And>v'. Q v' \<Longrightarrow> yields (f x v') r P"
  shows "yields (vbind m f v) r P"
  using assms unfolding yields_def vbind_def by fastforce

lemma yields_vbind_err:
  assumes "yields (m v) (Inl e) P"
  shows "yields (vbind m f v) (Inl e) P"
  using assms unfolding yields_def vbind_def by auto

lemma yields_mono: "yields m r P \<Longrightarrow> (\<And>v. P v \<Longrightarrow> Q v) \<Longrightarrow> yields m r Q"
  by (auto simp: yields_def)

lemma flush_loop_ok:
  assumes "conn_ok c" and "k < 9"
  shows "\<exists>c'. flush_loop k bs c = (None, c') \<and> conn_ok c' \<and> cn_reads c' = cn_reads c \<and> cn_sent c' = cn_sent c @ bs"
  using assms
proof (induction "length bs" arbitrary: k bs c rule: less_induct)
  case less
  show ?case
  proof (cases "bs = []")
    case True
    then show ?thesis using less.prems by (simp add: flush_loop.simps)
  next
    case False
    obtain n e c' where w: "conn_Write bs c = (n, e, c')" by (cases "conn_Write bs c") auto
    have n: "0 < n" "\<not> e" "conn_ok c'" "cn_reads c' = cn_reads c" "cn_sent c' = cn_sent c @ take n bs"
      using w less.prems False
      by (auto simp: conn_Write_def conn_ok_def min_def split: list.splits if_splits)
    have "length (drop n bs) < length bs" using False n(1) by simp
    from less.hyps [OF this n(3), of 1] obtain c'' where
      "flush_loop 1 (drop n bs) c' = (None, c'')" "conn_ok c''" "cn_reads c'' = cn_reads c'" "cn_sent c'' = cn_sent c' @ drop n bs"
      by auto
    then show ?thesis using w n False by (simp add: flush_loop.simps [of k bs c])
  qed
qed

lemma flush_zero: "writing rs out v \<Longrightarrow> yields (flush v) (Inr ()) (\<lambda>v. at_rest rs out v \<and> vio_r v = 0)"
proof -
  assume w: "writing rs out v"
  define x where "x = take (vio_r v - vio_w v) (drop (vio_w v) (vio_buf v))"
  have ok: "conn_ok (vio_rw v)" using w by (simp add: writing_def vio_ok_def)
  have "(if vio_w v < vio_r v then aslice (vio_buf v) (vio_w v) (vio_r v) else Some []) = Some x"
    using w by (auto simp: x_def aslice_def writing_def vio_ok_def)
  moreover obtain c' where "flush_loop 0 x (vio_rw v) = (None, c')" "conn_ok c'" "cn_reads c' = cn_reads (vio_rw v)"
      "cn_sent c' = cn_sent (vio_rw v) @ x"
    using flush_loop_ok [OF ok, of 0 x] by auto
  ultimately show ?thesis
    using w by (auto simp: yields_def flush_def at_rest_def writing_def vio_ok_def x_def)
qed

lemma flush_ok: "writing rs out v \<Longrightarrow> yields (flush v) (Inr ()) (at_rest rs out)"
  using flush_zero by (auto intro: yields_mono)

lemma writeByte_ok: "writing rs out v \<Longrightarrow> yields (vio_writeByte b v) (Inr ()) (writing rs (out @ [b]))"
proof -
  assume w: "writing rs out v"
  have put: "yields (vio_put b u) (Inr ()) (writing rs (out @ [b]))" if "writing rs out u" "vio_r u < 1024" for u
  proof -
    have "take (Suc (vio_r u) - vio_w u) (drop (vio_w u) ((vio_buf u)[vio_r u := b]))
        = take (vio_r u - vio_w u) (drop (vio_w u) (vio_buf u)) @ [b]"
      using that by (auto simp: writing_def vio_ok_def Suc_diff_le take_Suc_conv_app_nth drop_update_swap)
    then show ?thesis using that by (auto simp: yields_def vio_put_def writing_def vio_ok_def)
  qed
  show ?thesis
  proof (cases "vio_r v \<ge> 1024")
    case True
    have f: "yields (flush v) (Inr ()) (\<lambda>v. writing rs out v \<and> vio_r v < 1024)"
      by (rule yields_mono [OF flush_zero [OF w]]) (auto intro: rest_writing)
    have "yields (vbind flush (\<lambda>_. vio_put b) v) (Inr ()) (writing rs (out @ [b]))"
      by (rule yields_vbind [where m = flush, OF f]) (blast intro: put)
    then show ?thesis using True w by (simp add: vio_writeByte_def writing_def vio_ok_def)
  next
    case False
    then show ?thesis using put [OF w] w by (simp add: vio_writeByte_def writing_def vio_ok_def)
  qed
qed

lemma next_ok:
  assumes "reading rs (b # bs) out v" and "vio_r v < vio_w v"
  shows "yields (vio_next v) (Inr b) (reading rs bs out)"
proof -
  have l: "vio_w v \<le> length (vio_buf v)" using assms by (simp add: reading_def vio_ok_def)
  have "drop (vio_r v) (vio_buf v) = vio_buf v ! vio_r v # drop (Suc (vio_r v)) (vio_buf v)"
    using l assms(2) by (simp add: Cons_nth_drop_Suc)
  moreover have "vio_w v - vio_r v = Suc (vio_w v - Suc (vio_r v))" using assms(2) by simp
  ultimately show ?thesis
    using assms l by (auto simp: yields_def vio_next_def reading_def vio_ok_def)
qed

lemma fill_loop_10:
  "fill_loop 10 v =
     (let (bs, e, c) = conn_Read (length (vio_buf v) - vio_w v) (vio_rw v) in
      do { buf \<leftarrow> acopy (vio_buf v) (vio_w v) (length (vio_buf v)) bs;
           let v = v\<lparr>vio_rw := c, vio_buf := buf, vio_w := vio_w v + length bs\<rparr>;
           if bs \<noteq> [] then Some (Inr (), v)
           else (case e of Some e \<Rightarrow> Some (Inl (ERead e), v) | None \<Rightarrow> fill_loop 9 v) })"
  using fill_loop.simps(2) [of 9 v] by simp

lemma fill_ok:
  assumes "reading rs (b # bs) out v" and "vio_r v = vio_w v"
  shows "yields (fill v) (Inr ()) (\<lambda>v. reading rs (b # bs) out v \<and> vio_r v < vio_w v)"
proof -
  obtain cs where cs: "cn_reads (vio_rw v) = plain_reads cs @ rs" "concat cs = b # bs" and ok: "vio_ok v"
    using assms by (auto simp: reading_def)
  obtain xs cs' where x: "cs = xs # cs'" using cs(2) by (cases cs) auto
  have r: "cn_reads (vio_rw v) = (xs, None) # plain_reads cs' @ rs" and xs: "xs \<noteq> []"
    using cs(1) x ok by (auto simp: plain_reads_def vio_ok_def conn_ok_def)
  show ?thesis
  proof (cases "length xs \<le> 1024")
    case True
    have "\<exists>ds. plain_reads cs' = plain_reads ds \<and> concat ds = concat cs'" by blast
    then show ?thesis
      using True r xs x cs(2) ok assms
      by (auto simp: yields_def fill_def reading_def vio_ok_def conn_ok_def conn_Read_def acopy_def fill_loop_10 min_def)
  next
    case False
    have "(drop 1024 xs, None) # plain_reads cs' @ rs = plain_reads (drop 1024 xs # cs') @ rs
        \<and> take 1024 xs @ concat (drop 1024 xs # cs') = b # bs"
      using cs(2) x by (simp add: plain_reads_def) (metis append_assoc append_take_drop_id)
    then have "\<exists>ds. (drop 1024 xs, None) # plain_reads cs' @ rs = plain_reads ds @ rs \<and> take 1024 xs @ concat ds = b # bs"
      by blast
    then show ?thesis
      using False r xs ok assms
      by (auto simp: yields_def fill_def reading_def vio_ok_def conn_ok_def conn_Read_def acopy_def fill_loop_10 min_def)
  qed
qed

lemma readByte_ok:
  assumes "reading rs (b # bs) out v"
  shows "yields (vio_readByte v) (Inr b) (reading rs bs out)"
proof (cases "vio_r v < vio_w v")
  case True
  then show ?thesis using next_ok [OF assms] by (simp add: vio_readByte_def)
next
  case False
  then have e: "vio_r v = vio_w v" using assms by (simp add: reading_def)
  have "yields (vbind fill (\<lambda>_. vio_next) v) (Inr b) (reading rs bs out)"
    by (rule yields_vbind [where m = fill, OF fill_ok [OF assms e]]) (blast intro: next_ok)
  then show ?thesis using False by (simp add: vio_readByte_def)
qed

lemma readByte_end:
  assumes "at_rest [] out v"
  shows "yields (vio_readByte v) (Inl (ERead EOF)) (at_rest [] out)"
  using assms by (auto simp: yields_def vio_readByte_def vbind_def at_rest_def fill_def conn_Read_def acopy_def
      vio_ok_def fill_loop_10)

section \<open>Integers\<close>

text \<open>The bytes of an integer, and the integer that any bytes stand for.\<close>

fun varuint :: "nat \<Rightarrow> byte list" where
  "varuint n = (if n < 128 then [of_nat n] else of_nat (n mod 128 + 128) # varuint (n div 128))"

declare varuint.simps [simp del]

fun vu_value :: "byte list \<Rightarrow> nat" where
  "vu_value [] = 0"
| "vu_value (b # bs) = unat b mod 128 + 128 * vu_value bs"

text \<open>The bytes of one integer: the last byte is the first one below 128.\<close>

fun vu_one :: "byte list \<Rightarrow> bool" where
  "vu_one [] \<longleftrightarrow> False"
| "vu_one [b] \<longleftrightarrow> unat b < 128"
| "vu_one (b # bs) \<longleftrightarrow> 128 \<le> unat b \<and> vu_one bs"

lemma vu_one_Cons: "vu_one (b # bs) \<longleftrightarrow> (if bs = [] then unat b < 128 else 128 \<le> unat b \<and> vu_one bs)"
  by (cases bs) simp_all

lemma varuint_value: "vu_value (varuint n) = n \<and> vu_one (varuint n)"
proof (induction n rule: varuint.induct)
  case (1 n)
  have ne: "varuint k \<noteq> []" for k by (subst varuint.simps) simp
  have small: "m < 256 \<Longrightarrow> unat (of_nat m :: byte) = m" for m by (simp add: unat_of_nat)
  have u: "unat (of_nat (n mod 128 + 128) :: byte) = n mod 128 + 128" by (rule small) simp
  have u': "n < 128 \<Longrightarrow> unat (of_nat n :: byte) = n" by (rule small) simp
  show ?case
  proof (cases "n < 128")
    case True
    then show ?thesis using u' by (simp add: varuint.simps [of n])
  next
    case False
    then show ?thesis using 1 u ne by (simp add: varuint.simps [of n] vu_one_Cons del: of_nat_add)
  qed
qed

lemma length_varuint: "n < 128 ^ k \<Longrightarrow> 0 < k \<Longrightarrow> length (varuint n) \<le> k"
proof (induction k arbitrary: n)
  case (Suc k)
  show ?case
  proof (cases "n < 128")
    case False
    then have "0 < k" using Suc.prems by (cases k) auto
    moreover have "n div 128 < 128 ^ k" using Suc.prems by (simp add: div_less_iff_less_mult mult.commute)
    ultimately show ?thesis using Suc.IH False by (simp add: varuint.simps [of n])
  qed (simp add: varuint.simps)
qed simp

lemma VarUintMask_mask: "VarUintMask = mask 7"
  by (simp add: VarUintMask_def mask_eq_exp_minus_1)

lemma unat_and_mask: "unat (w AND VarUintMask) = unat w mod 128" for w :: u32
proof -
  have "unat (take_bit 7 w) = take_bit 7 (unat w)" by (rule unsigned_take_bit_eq)
  then show ?thesis by (simp add: VarUintMask_mask take_bit_eq_mod flip: take_bit_eq_mask)
qed

lemma unat_byte_u32: "unat (ucast b :: u32) = unat b" for b :: byte
proof -
  have "unat b < 2 ^ 8" using unsigned_less [of b, where ?'a = nat] by simp
  then have "take_bit 32 (unat b) = unat b" by (intro take_bit_nat_eq_self) simp
  then show ?thesis by (simp add: unsigned_ucast_eq)
qed

lemma unat_of_nat_mod: "unat (of_nat (n mod 128) :: 'a::len word) = n mod 128" if "8 \<le> LENGTH('a)"
proof -
  have "n mod 128 < 2 ^ 8" by (rule order_less_trans [of _ 128]) simp_all
  also have "(2 :: nat) ^ 8 \<le> 2 ^ LENGTH('a)" using that by (intro power_increasing) simp_all
  finally show ?thesis by (simp add: unat_of_nat)
qed

lemma low_bits: "(ucast b AND VarUintMask :: u32) = of_nat (unat b mod 128)" for b :: byte
  by (simp add: word_eq_iff_unat unat_and_mask unat_byte_u32 unat_of_nat_mod)

lemma low_bits_byte: "(ucast (d AND VarUintMask) :: byte) = of_nat (unat d mod 128)" for d :: u32
proof -
  have "unat d mod 128 < 2 ^ 8" by (rule order_less_trans [of _ 128]) simp_all
  then have "take_bit 8 (unat d mod 128) = unat d mod 128" by (rule take_bit_nat_eq_self)
  then show ?thesis by (simp add: word_eq_iff_unat unsigned_ucast_eq unat_and_mask unat_of_nat_mod)
qed

lemma high_bit: "(b AND 128 = 0) \<longleftrightarrow> unat b < 128" for b :: byte
proof -
  have "bit b 7 \<longleftrightarrow> bit (unat b) 7" by (simp add: bit_unsigned_iff)
  moreover have "unat b div 128 = (if unat b < 128 then 0 else 1)"
    using unsigned_less [of b, where ?'a = nat] by (auto simp: div_nat_eqI)
  ultimately have "bit b 7 \<longleftrightarrow> \<not> unat b < 128" by (simp add: bit_iff_odd)
  then show ?thesis using and_exp_eq_0_iff_not_bit [of b 7] by simp
qed

lemma or_shifted:
  assumes "R < 2 ^ s"
  shows "(of_nat R OR push_bit s (of_nat k) :: 'a::len word) = of_nat (R + 2 ^ s * k)"
proof -
  have b: "bit R n \<Longrightarrow> n < s" for n
    using assms by (metis bit_nat_iff div_less even_zero bit_iff_odd linorder_not_less order_less_le_trans power_increasing_iff one_less_numeral_iff semiring_norm(76))
  then have "(of_nat R AND push_bit s (of_nat k) :: 'a word) = 0"
    by (intro bit_eqI) (auto simp: bit_simps dest: b)
  then have "(of_nat R OR push_bit s (of_nat k) :: 'a word) = of_nat R + push_bit s (of_nat k)"
    by (simp add: disjunctive_add_eq_or)
  then show ?thesis by (simp add: push_bit_eq_mult mult.commute)
qed

lemma readu32_loop_ok:
  assumes "vu_one bs" and "length bs \<le> n" and "R < 2 ^ s" and "reading rs (bs @ rest) out v"
  shows "yields (readu32_loop n (of_nat R) s v) (Inr (of_nat (R + 2 ^ s * vu_value bs))) (reading rs rest out)"
  using assms
proof (induction bs arbitrary: n R s v)
  case (Cons b bs)
  then obtain m where n: "n = Suc m" by (cases n) auto
  let ?R = "R + 2 ^ s * (unat b mod 128)"
  have R: "?R < 2 ^ (s + 7)"
  proof -
    have "unat b mod 128 < 128" by simp
    then have "2 ^ s * (unat b mod 128) \<le> 2 ^ s * 127" by simp
    then have "?R < 2 ^ s * 128" using Cons.prems(3) by linarith
    then show ?thesis by (simp add: power_add)
  qed
  have r: "yields (vio_readByte v) (Inr b) (reading rs (bs @ rest) out)" using Cons.prems(4) by (simp add: readByte_ok)
  have res: "of_nat R OR push_bit s (ucast b AND VarUintMask) = (of_nat ?R :: u32)"
    unfolding low_bits by (rule or_shifted [OF Cons.prems(3)])
  show ?case unfolding n readu32_loop.simps
  proof (rule yields_vbind [where m = vio_readByte, OF r])
    fix v' assume v': "reading rs (bs @ rest) out v'"
    have "yields ((if b AND push_bit 7 1 = 0 then vret (of_nat ?R) else readu32_loop m (of_nat ?R) (s + 7)) v')
        (Inr (of_nat (R + 2 ^ s * vu_value (b # bs)))) (reading rs rest out)"
    proof (cases "bs = []")
      case True
      then show ?thesis using Cons.prems(1) v' by (simp add: high_bit)
    next
      case False
      then have "vu_one bs" "\<not> unat b < 128" using Cons.prems(1) by (auto simp: vu_one_Cons)
      moreover have "R + 2 ^ s * vu_value (b # bs) = ?R + 2 ^ (s + 7) * vu_value bs"
        by (simp add: power_add algebra_simps)
      ultimately show ?thesis
        using Cons.IH [OF _ _ R v', of m] Cons.prems(2) n by (simp add: high_bit add.assoc del: of_nat_add vu_value.simps)
    qed
    then show "yields ((let z = ucast b AND VarUintMask; res = of_nat R OR push_bit s z
        in if b AND push_bit 7 1 = 0 then vret res else readu32_loop m res (s + 7)) v')
        (Inr (of_nat (R + 2 ^ s * vu_value (b # bs)))) (reading rs rest out)"
      unfolding Let_def res .
  qed
qed simp

lemma readu32_ok:
  assumes "vu_one bs" and "length bs \<le> 5" and "reading rs (bs @ rest) out v"
  shows "yields (readu32 v) (Inr (of_nat (vu_value bs))) (reading rs rest out)"
  using readu32_loop_ok [OF assms(1,2) _ assms(3), of 0 0] by (simp add: readu32_def)

lemma u32_bytes: "length (varuint (unat d)) \<le> 5" for d :: u32
proof (rule length_varuint)
  show "unat d < 128 ^ 5" by (rule order_less_trans [OF u32_bound]) simp
qed simp

lemma readu32_varuint:
  "reading rs (varuint (unat d) @ rest) out v \<Longrightarrow> yields (readu32 v) (Inr d) (reading rs rest out)"
  using readu32_ok [of "varuint (unat d)" rs] by (simp add: varuint_value u32_bytes)

lemma readu32_loop_long:
  assumes "length bs = n" and "\<forall>b \<in> set bs. 128 \<le> unat b" and "reading rs (bs @ rest) out v"
  shows "yields (readu32_loop n res s v) (Inl (EProto ErrVarUint)) (reading rs rest out)"
  using assms
proof (induction bs arbitrary: n res s v)
  case Nil
  then show ?case by auto
next
  case (Cons b bs)
  have r: "yields (vio_readByte v) (Inr b) (reading rs (bs @ rest) out)" using Cons.prems(3) by (simp add: readByte_ok)
  obtain m where n: "n = Suc m" "length bs = m" using Cons.prems(1) by (cases n) auto
  have h: "b AND push_bit 7 1 \<noteq> 0" using Cons.prems(2) high_bit [of b] by simp
  show ?case unfolding n(1) readu32_loop.simps Let_def
    by (rule yields_vbind [where m = vio_readByte, OF r]) (use Cons.IH n(2) Cons.prems(2) h in simp)
qed

lemma writeu32_ok: "writing rs out v \<Longrightarrow> yields (writeu32 d v) (Inr ()) (writing rs (out @ varuint (unat d)))"
proof (induction d arbitrary: out v rule: writeu32.induct)
  case (1 d)
  let ?b = "ucast (d AND VarUintMask) :: byte"
  have b: "?b = of_nat (unat d mod 128)" by (rule low_bits_byte)
  show ?case
  proof (cases "unat d < 128")
    case True
    then have "\<not> 0 < drop_bit 7 d" by (simp add: word_gt_0 word_eq_iff_unat unat_drop_bit_7 del: word_neq_0_conv)
    moreover have "varuint (unat d) = [?b]" using True b by (simp add: varuint.simps)
    ultimately show ?thesis using writeByte_ok [OF "1.prems", of ?b] by (simp add: writeu32.simps [of d] Let_def)
  next
    case False
    then have d: "0 < drop_bit 7 d" by (simp add: word_gt_0 word_eq_iff_unat unat_drop_bit_7 div_eq_0_iff)
    have v: "varuint (unat d) = (?b OR push_bit 7 1) # varuint (unat (drop_bit 7 d))"
    proof -
      have "?b OR push_bit 7 1 = of_nat (unat d mod 128 + 2 ^ 7 * 1)"
        unfolding b using or_shifted [of "unat d mod 128" 7 1, where ?'a = 8] by simp
      then show ?thesis using False by (simp add: varuint.simps [of "unat d"] unat_drop_bit_7)
    qed
    have "yields (vbind (vio_writeByte (?b OR push_bit 7 1)) (\<lambda>_. writeu32 (drop_bit 7 d)) v) (Inr ())
        (writing rs (out @ varuint (unat d)))"
    proof (rule yields_vbind [where m = "vio_writeByte (?b OR push_bit 7 1)"])
      show "yields (vio_writeByte (?b OR push_bit 7 1) v) (Inr ()) (writing rs (out @ [?b OR push_bit 7 1]))"
        by (rule writeByte_ok [OF "1.prems"])
      fix v' assume "writing rs (out @ [?b OR push_bit 7 1]) v'"
      then show "yields (writeu32 (drop_bit 7 d) v') (Inr ()) (writing rs (out @ varuint (unat d)))"
        using "1.IH" [OF refl refl d, of "out @ [?b OR push_bit 7 1]"] v by simp
    qed
    then show ?thesis using d by (simp add: writeu32.simps [of d] Let_def)
  qed
qed

lemma writeflush_ok: "writing rs out v \<Longrightarrow> yields (writeflush d v) (Inr ()) (at_rest rs (out @ varuint (unat d)))"
  unfolding writeflush_def
  by (rule yields_vbind [where m = "writeu32 d", OF writeu32_ok]) (auto intro: flush_ok)

lemma readu32_end: "at_rest [] out v \<Longrightarrow> yields (readu32 v) (Inl (ERead EOF)) (at_rest [] out)"
  unfolding readu32_def using yields_vbind_err [where m = vio_readByte, OF readByte_end]
  by (simp add: eval_nat_numeral)

section \<open>Lists of integers\<close>

fun write_all :: "u32 list \<Rightarrow> unit vio" where
  "write_all [] = flush"
| "write_all (d # ds) = vbind (writeu32 d) (\<lambda>_. write_all ds)"

fun read_all :: "nat \<Rightarrow> u32 list vio" where
  "read_all 0 = vret []"
| "read_all (Suc n) = vbind readu32 (\<lambda>d. vbind (read_all n) (\<lambda>ds. vret (d # ds)))"

abbreviation varuints :: "u32 list \<Rightarrow> byte list" where
  "varuints ds \<equiv> concat (map (\<lambda>d. varuint (unat d)) ds)"

lemma write_all_ok:
  "writing rs out v \<Longrightarrow> yields (write_all ds v) (Inr ()) (at_rest rs (out @ varuints ds))"
proof (induction ds arbitrary: out v)
  case Nil
  then show ?case by (auto intro: flush_ok)
next
  case (Cons d ds)
  show ?case unfolding write_all.simps
    by (rule yields_vbind [where m = "writeu32 d", OF writeu32_ok [OF Cons.prems]])
       (use Cons.IH [of "out @ varuint (unat d)"] in simp)
qed

lemma read_all_ok:
  "reading rs (varuints ds @ rest) out v \<Longrightarrow> yields (read_all (length ds) v) (Inr ds) (reading rs rest out)"
proof (induction ds arbitrary: v)
  case (Cons d ds)
  have r: "yields (readu32 v) (Inr d) (reading rs (varuints ds @ rest) out)"
    using readu32_varuint [of rs d "varuints ds @ rest" out v] Cons.prems by simp
  show ?case unfolding list.size read_all.simps add_0_right add_Suc_right
  proof (rule yields_vbind [where m = readu32, OF r])
    fix v' assume "reading rs (varuints ds @ rest) out v'"
    show "yields (vbind (read_all (length ds)) (\<lambda>ds. vret (d # ds)) v') (Inr (d # ds)) (reading rs rest out)"
      by (rule yields_vbind [where m = "read_all (length ds)", OF Cons.IH [OF \<open>reading _ _ _ v'\<close>]]) simp
  qed
qed simp

lemma send_ok:
  "writing rs out v \<Longrightarrow> yields (vio_send ms v) (Inr ()) (writing rs (out @ varuints ms @ [0]))"
proof (induction ms arbitrary: out v)
  case Nil
  then show ?case using writeu32_ok [of rs out v 0] by (simp add: varuint.simps)
next
  case (Cons m ms)
  show ?case unfolding vio_send.simps
    by (rule yields_vbind [where m = "writeu32 m", OF writeu32_ok [OF Cons.prems]])
       (use Cons.IH [of "out @ varuint (unat m)"] in simp)
qed

lemma reading_left: "reading rs bs out v \<Longrightarrow> length bs \<le> vio_left v"
  by (auto simp: reading_def vio_left_def vio_ok_def plain_reads_def comp_def)

lemma varuint_ne [simp]: "varuint n \<noteq> []"
  by (subst varuint.simps) simp

lemma varuint_ne' [simp]: "[] \<noteq> varuint n"
  using varuint_ne [of n] by (rule not_sym)

lemma recv_loop_ok:
  assumes "length ms < n" and "\<forall>m \<in> set ms. m \<noteq> 0 \<and> m < MinProto" and "reading rs (varuints ms @ 0 # rest) out v"
  shows "yields (recv_loop n dst v) (Inr (dst @ ms)) (reading rs rest out)"
  using assms
proof (induction ms arbitrary: n dst v)
  case Nil
  obtain k where k: "n = Suc k" using Nil by (cases n) auto
  have r: "yields (readu32 v) (Inr 0) (reading rs rest out)"
    using readu32_varuint [of rs 0 rest out v] Nil by (simp add: varuint.simps)
  show ?case unfolding k recv_loop.simps
    by (rule yields_vbind [where m = readu32, OF r]) simp
next
  case (Cons m ms)
  obtain k where k: "n = Suc k" using Cons.prems by (cases n) auto
  have r: "yields (readu32 v) (Inr m) (reading rs (varuints ms @ 0 # rest) out)"
    using readu32_varuint [of rs m "varuints ms @ 0 # rest" out v] Cons.prems by simp
  show ?case unfolding k recv_loop.simps
    by (rule yields_vbind [where m = readu32, OF r])
       (use Cons.IH [of k _ "dst @ [m]"] Cons.prems k in \<open>simp add: not_le\<close>)
qed

lemma length_varuints: "length ds \<le> length (varuints ds)"
proof (induction ds)
  case (Cons d ds)
  have "0 < length (varuint (unat d))" by (simp only: length_greater_0_conv varuint_ne simp_thms)
  then show ?case using Cons by (simp del: length_greater_0_conv)
qed simp

lemma recv_ok:
  assumes "\<forall>m \<in> set ms. m \<noteq> 0 \<and> m < MinProto" and "reading rs (varuints ms @ 0 # rest) out v"
  shows "yields (vio_recv dst v) (Inr (dst @ ms)) (reading rs rest out)"
  unfolding vio_recv_def using reading_left [OF assms(2)] length_varuints [of ms]
  by (intro recv_loop_ok [OF _ assms]) simp

section \<open>The theorems\<close>

abbreviation sent_conn :: "(nat \<times> bool) list \<Rightarrow> conn" where
  "sent_conn ws \<equiv> \<lparr>cn_reads = [], cn_writes = ws, cn_sent = []\<rparr>"

abbreviation recv_conn :: "byte list list \<Rightarrow> conn" where
  "recv_conn cs \<equiv> \<lparr>cn_reads = plain_reads cs, cn_writes = [], cn_sent = []\<rparr>"

lemma recv_start:
  assumes "[] \<notin> set cs"
  shows "reading [] (concat cs) [] (newVu32Io (recv_conn cs))"
  using assms rest_reading [of cs "[]" "[]" "newVu32Io (recv_conn cs)"]
  by (auto simp: at_rest_def vio_ok_def newVu32Io_def conn_ok_def plain_reads_def)

text \<open>
  (C32) Integers on the wire: a list of 32-bit integers written through the buffer and flushed arrives at the
  connection in full, however few bytes each write takes, and however the bytes are cut into reads on the
  other side, reading gives the list back; each integer takes at most five bytes.
\<close>

theorem varuint_roundtrip:
  assumes "\<forall>x \<in> set ws. 0 < fst x \<and> \<not> snd x"
  shows "\<exists>v. write_all ds (newVu32Io (sent_conn ws)) = Some (Inr (), v)
     \<and> length (cn_sent (vio_rw v)) \<le> 5 * length ds
     \<and> (\<forall>cs. concat cs = cn_sent (vio_rw v) \<and> [] \<notin> set cs
          \<longrightarrow> (\<exists>u. read_all (length ds) (newVu32Io (recv_conn cs)) = Some (Inr ds, u)))"
proof -
  have "writing [] [] (newVu32Io (sent_conn ws))"
    using assms by (simp add: writing_def vio_ok_def newVu32Io_def conn_ok_def)
  from write_all_ok [OF this, of ds] obtain v where
    v: "write_all ds (newVu32Io (sent_conn ws)) = Some (Inr (), v)" "cn_sent (vio_rw v) = varuints ds"
    by (auto simp: yields_def at_rest_def)
  have "length (varuints ds) \<le> 5 * length ds"
  proof (induction ds)
    case (Cons d ds)
    then show ?case using u32_bytes [of d] by simp
  qed simp
  moreover have "\<exists>u. read_all (length ds) (newVu32Io (recv_conn cs)) = Some (Inr ds, u)"
    if c: "concat cs = varuints ds" "[] \<notin> set cs" for cs
  proof -
    have "reading [] (varuints ds @ []) [] (newVu32Io (recv_conn cs))"
      using recv_start [of cs] c by simp
    from read_all_ok [OF this] show ?thesis by (auto simp: yields_def)
  qed
  ultimately show ?thesis using v by auto
qed

theorem varuint_roundtrip_witness:
  "\<exists>v. write_all [7, 300, p_Add] (newVu32Io (sent_conn [(2, False), (1, False)])) = Some (Inr (), v)
     \<and> length (cn_sent (vio_rw v)) \<le> 15
     \<and> (\<forall>cs. concat cs = cn_sent (vio_rw v) \<and> [] \<notin> set cs
          \<longrightarrow> (\<exists>u. read_all (length [7, 300, p_Add]) (newVu32Io (recv_conn cs)) = Some (Inr [7, 300, p_Add], u)))"
  using varuint_roundtrip [of "[(2, False), (1, False)]" "[7, 300, p_Add]"]
  by (simp del: write_all.simps read_all.simps)

text \<open>
  (C39) Reading an integer from any bytes: up to five bytes of which only the last is below 128 are the integer with
  these digits, reduced to 32 bits without an error, and five bytes from 128 on are the error of the
  protocol; the bytes behind are left for the next read.
\<close>

theorem readu32_bytes:
  assumes "concat cs = bs @ rest" and "[] \<notin> set cs"
  shows "(vu_one bs \<and> length bs \<le> 5 \<longrightarrow>
            (\<exists>v. readu32 (newVu32Io (recv_conn cs)) = Some (Inr (of_nat (vu_value bs)), v) \<and> reading [] rest [] v))
       \<and> (length bs = 5 \<and> (\<forall>b \<in> set bs. 128 \<le> unat b) \<longrightarrow>
            (\<exists>v. readu32 (newVu32Io (recv_conn cs)) = Some (Inl (EProto ErrVarUint), v) \<and> reading [] rest [] v))"
proof -
  have "reading [] (bs @ rest) [] (newVu32Io (recv_conn cs))"
    using recv_start [of cs] assms by simp
  then show ?thesis
    using readu32_ok [of bs "[]" rest] readu32_loop_long [of bs 5 "[]" rest] by (auto simp: yields_def readu32_def)
qed

lemma wrapped: "(4294967297 :: u32) = 1"
  by simp

text \<open>Bytes that stand for \<open>2^32 + 1\<close> are read as 1.\<close>

theorem readu32_bytes_witness:
  "\<exists>v. readu32 (newVu32Io (recv_conn [[0x81, 0x80], [0x80, 0x80, 0x10, 9]])) = Some (Inr 1, v) \<and> reading [] [9] [] v"
  using readu32_bytes [of "[[0x81, 0x80], [0x80, 0x80, 0x10, 9]]" "[0x81, 0x80, 0x80, 0x80, 0x10]" "[9]"]
    wrapped by simp

text \<open>Writing while input is in the buffer: \<open>n\<close> more bytes can be written before the unread bytes end.\<close>

definition writing_over :: "conn \<Rightarrow> nat \<Rightarrow> vu32io \<Rightarrow> bool" where
  "writing_over c n v \<longleftrightarrow> vio_ok v \<and> vio_r v + n \<le> vio_w v \<and> vio_rw v = c"

lemma writeByte_over: "writing_over c (Suc n) v \<Longrightarrow> yields (vio_writeByte b v) (Inr ()) (writing_over c n)"
  by (auto simp: writing_over_def vio_ok_def vio_writeByte_def vio_put_def yields_def)

lemma writeu32_over: "writing_over c (length (varuint (unat d)) + n) v \<Longrightarrow> yields (writeu32 d v) (Inr ()) (writing_over c n)"
proof (induction d arbitrary: v rule: writeu32.induct)
  case (1 d)
  let ?b = "ucast (d AND VarUintMask) :: byte"
  show ?case
  proof (cases "unat d < 128")
    case True
    then have "\<not> 0 < drop_bit 7 d" by (simp add: word_gt_0 word_eq_iff_unat unat_drop_bit_7 del: word_neq_0_conv)
    then show ?thesis using "1.prems" True writeByte_over [of c n v ?b] by (simp add: writeu32.simps [of d] Let_def varuint.simps [of "unat d"])
  next
    case False
    then have d: "0 < drop_bit 7 d" by (simp add: word_gt_0 word_eq_iff_unat unat_drop_bit_7 div_eq_0_iff)
    have "writing_over c (Suc (length (varuint (unat (drop_bit 7 d))) + n)) v"
      using "1.prems" False by (simp add: varuint.simps [of "unat d"] unat_drop_bit_7)
    then have w: "yields (vio_writeByte (?b OR push_bit 7 1) v) (Inr ()) (writing_over c (length (varuint (unat (drop_bit 7 d))) + n))"
      by (rule writeByte_over)
    have "yields (vbind (vio_writeByte (?b OR push_bit 7 1)) (\<lambda>_. writeu32 (drop_bit 7 d)) v) (Inr ()) (writing_over c n)"
      by (rule yields_vbind [where m = "vio_writeByte (?b OR push_bit 7 1)", OF w]) (rule "1.IH" [OF refl refl d])
    then show ?thesis using d by (simp add: writeu32.simps [of d] Let_def)
  qed
qed

text \<open>
  (C40) An answer is lost, and with it the requests behind it, if it is written while more than its length is still
  unread in the buffer: writing and flushing report no error, nothing is sent, and the buffer is empty afterwards.
\<close>

theorem reply_over_input_lost:
  assumes "vio_ok v" and "vio_r v + length (varuint (unat d)) \<le> vio_w v"
  shows "\<exists>v'. writeflush d v = Some (Inr (), v') \<and> vio_rw v' = vio_rw v \<and> vio_r v' = 0 \<and> vio_w v' = 0"
proof -
  have "writing_over (vio_rw v) (length (varuint (unat d)) + 0) v" using assms by (simp add: writing_over_def)
  from writeu32_over [OF this] obtain v1 where v1: "writeu32 d v = Some (Inr (), v1)" "writing_over (vio_rw v) 0 v1"
    by (auto simp: yields_def)
  then show ?thesis by (auto simp: writeflush_def vbind_def flush_def writing_over_def flush_loop.simps)
qed

theorem reply_over_input_lost_witness:
  "\<exists>v'. writeflush 5 (newVu32Io (recv_conn [])\<lparr>vio_r := 3, vio_w := 8\<rparr>) = Some (Inr (), v') \<and> vio_r v' = 0 \<and> vio_w v' = 0"
  using reply_over_input_lost [of "newVu32Io (recv_conn [])\<lparr>vio_r := 3, vio_w := 8\<rparr>" 5]
  by (auto simp: vio_ok_def newVu32Io_def conn_ok_def plain_reads_def varuint.simps)

end
