(* ===== verification/CrispModel.thy ===== *)
theory CrispModel
  imports Crisp VarUintProps
begin

text \<open>
  Truth values over the wire: the words in which the server sends a model, and that the client takes the same
  values out of them.
\<close>

text \<open>The \<open>k\<close>-th word of the values \<open>f\<close>.\<close>

definition truth_word :: "(nat \<Rightarrow> bool) \<Rightarrow> nat \<Rightarrow> u32" where
  "truth_word f k = horner_sum of_bool 2 (map (\<lambda>j. f (32 * k + j)) [0..<32])"

lemma bit_truth_word: "bit (truth_word f k) j \<longleftrightarrow> j < 32 \<and> f (32 * k + j)"
  by (auto simp: truth_word_def bit_horner_sum_bit_iff bit_simps simp del: upt_Suc)

abbreviation truth_words :: "(nat \<Rightarrow> bool) \<Rightarrow> nat \<Rightarrow> nat \<Rightarrow> u32 list" where
  "truth_words f k n \<equiv> map (truth_word f) [k..<n]"

lemma truth_word_step:
  assumes "j < 32"
  shows "(if f (32 * k + j) then take_bit j (truth_word f k) OR push_bit j 1 else take_bit j (truth_word f k))
    = take_bit (Suc j) (truth_word f k)"
  by (rule bit_eqI) (use assms in \<open>auto simp: bit_simps bit_truth_word less_Suc_eq\<close>)

lemma take_bit_32: "take_bit 32 (w :: u32) = w"
  by (rule bit_eqI) (auto simp: bit_simps)

lemma pack_loop_ok:
  assumes "writing rs out v" and "a \<le> 32 * n" and "u = take_bit (a mod 32) (truth_word f (a div 32))"
    and "\<And>i. i < 32 * n \<Longrightarrow> (if i < M then g i else Some False) = Some (f i)"
  shows "yields (pack_loop g M [a..<32 * n] u v) (Inr ()) (writing rs (out @ varuints (truth_words f (a div 32) n)))"
  using assms(1-3)
proof (induction "32 * n - a" arbitrary: a u v out)
  case 0
  then have "a = 32 * n" by simp
  then show ?case using 0 by (simp add: yields_def)
next
  case (Suc d)
  then have a: "a < 32 * n" by simp
  have am: "32 * (a div 32) + a mod 32 = a" by simp
  let ?u = "if f a then u OR push_bit (a mod 32) 1 else u"
  have u: "?u = take_bit (Suc (a mod 32)) (truth_word f (a div 32))"
    using truth_word_step [of "a mod 32" f "a div 32", unfolded am] by (simp only: Suc.prems(3) mod_less_divisor zero_less_numeral)
  have step: "pack_loop g M [a..<32 * n] u v =
      (if a mod 32 = 31 then vbind (writeu32 ?u) (\<lambda>_. pack_loop g M [Suc a..<32 * n] 0) v
       else pack_loop g M [Suc a..<32 * n] ?u v)"
    using a assms(4) [OF a] by (simp add: upt_conv_Cons Let_def)
  show ?case
  proof (cases "a mod 32 = 31")
    case True
    then have d: "Suc a mod 32 = 0" "Suc a div 32 = Suc (a div 32)" by (simp_all add: mod_Suc div_Suc)
    have "a div 32 < n" using a by (simp add: div_less_iff_less_mult mult.commute)
    then have ws: "truth_words f (a div 32) n = truth_word f (a div 32) # truth_words f (Suc a div 32) n"
      by (simp add: upt_conv_Cons d)
    have w: "?u = truth_word f (a div 32)" using u True by (simp add: take_bit_32)
    have "yields (vbind (writeu32 ?u) (\<lambda>_. pack_loop g M [Suc a..<32 * n] 0) v) (Inr ())
        (writing rs (out @ varuints (truth_words f (a div 32) n)))"
    proof (rule yields_vbind [where m = "writeu32 ?u", OF writeu32_ok [OF Suc.prems(1)]])
      fix v' assume "writing rs (out @ varuint (unat ?u)) v'"
      from Suc.hyps(1) [OF _ this, of "Suc a" 0] show "yields (pack_loop g M [Suc a..<32 * n] 0 v') (Inr ())
          (writing rs (out @ varuints (truth_words f (a div 32) n)))"
        using a Suc.hyps(2) d by (simp add: ws w)
    qed
    then show ?thesis using True by (simp only: step if_True simp_thms)
  next
    case False
    then have d: "Suc a mod 32 = Suc (a mod 32)" "Suc a div 32 = a div 32" by (simp_all add: mod_Suc div_Suc)
    show ?thesis
      using Suc.hyps(1) [OF _ Suc.prems(1), of "Suc a" ?u] u a Suc.hyps(2) False by (simp only: step d if_False)
  qed
qed

definition word_count :: "nat \<Rightarrow> nat" where
  "word_count M = (M + 31) div 32"

lemma pack_len_count:
  assumes "unat M < 2 ^ 31"
  shows "unat (pack_len M) = 32 * word_count (unat M)" and "pack_len M div 32 = of_nat (word_count (unat M))"
proof -
  define m where "m = unat M"
  have x: "unat (M mod 32) = m mod 32" by (simp add: m_def unat_mod_distrib)
  have c: "32 * ((m + 31) div 32) = (if m mod 32 = 0 then m else m + (32 - m mod 32))"
  proof -
    define q r where qr: "q = m div 32" "r = m mod 32"
    have "m + 31 = 32 * q + (r + 31)" and r: "r < 32" by (simp_all add: qr)
    then have "(m + 31) div 32 = q + (r + 31) div 32" by (simp only: div_mult_self4 zero_neq_numeral simp_thms)
    moreover have "(r + 31) div 32 = (if r = 0 then 0 else 1)" using r by (simp add: div_nat_eqI)
    moreover have "m = 32 * q + r" by (simp add: qr)
    ultimately show ?thesis using r by (simp flip: qr(2))
  qed
  show l: "unat (pack_len M) = 32 * word_count (unat M)"
  proof (cases "m mod 32 = 0")
    case True
    then have "M mod 32 = 0" using x by (simp add: word_eq_iff_unat)
    then show ?thesis using c True by (simp add: pack_len_def word_count_def m_def)
  next
    case False
    have "unat (32 - M mod 32) = 32 - m mod 32" using x by (subst unat_sub) (simp_all add: word_le_nat_alt)
    moreover have "m + (32 - m mod 32) < 2 ^ 32" using assms by (simp add: m_def)
    ultimately have "unat (M + (32 - M mod 32)) = m + (32 - m mod 32)" by (simp add: unat_word_ariths m_def)
    moreover have "M mod 32 \<noteq> 0" using False x by (metis unat_0)
    ultimately show ?thesis using c False by (simp add: pack_len_def word_count_def m_def)
  qed
  have "unat (pack_len M div 32) = word_count (unat M)" using l by (simp add: unat_div_distrib)
  then show "pack_len M div 32 = of_nat (word_count (unat M))" by (metis of_nat_unat_id)
qed

lemma pack_ok:
  assumes "writing rs out v" and "unat M < 2 ^ 31" and "\<And>i. i < unat M \<Longrightarrow> g i = Some (val i)"
  shows "yields (pack g M v) (Inr ())
    (at_rest rs (out @ varuints (of_nat (word_count (unat M)) # truth_words (\<lambda>i. i < unat M \<and> val i) 0 (word_count (unat M)))))"
proof -
  let ?n = "word_count (unat M)" and ?f = "\<lambda>i. i < unat M \<and> val i"
  let ?o = "out @ varuint (unat (of_nat ?n :: u32))"
  have g: "(if i < unat M then g i else Some False) = Some (?f i)" for i using assms(3) by simp
  show ?thesis unfolding pack_def pack_len_count [OF assms(2)]
  proof (rule yields_vbind [where m = "writeu32 _", OF writeu32_ok [OF assms(1)]])
    fix v' assume "writing rs ?o v'"
    then have l: "yields (pack_loop g (unat M) [0..<32 * ?n] 0 v') (Inr ()) (writing rs (?o @ varuints (truth_words ?f 0 ?n)))"
      using pack_loop_ok [of rs ?o v' 0 ?n 0 ?f "unat M" g] g by simp
    show "yields (vbind (pack_loop g (unat M) [0..<32 * ?n] 0) (\<lambda>_. flush) v') (Inr ())
        (at_rest rs (out @ varuints (of_nat ?n # truth_words ?f 0 ?n)))"
      by (rule yields_vbind [where m = "pack_loop _ _ _ _", OF l]) (use flush_ok in fastforce)
  qed
qed

lemma unpack_loop_ok:
  assumes "reading rs (varuints (truth_words f ((a + 31) div 32) n) @ rest) out v" and "a \<le> 32 * n"
    and "a mod 32 \<noteq> 0 \<Longrightarrow> u = truth_word f (a div 32)" and "length vs = 32 * n + 1"
  shows "\<exists>ws. yields (unpack_loop [a..<32 * n] u vs v) (Inr ws) (reading rs rest out) \<and> length ws = 32 * n + 1
    \<and> (\<forall>i. a \<le> i \<and> i < 32 * n \<longrightarrow> ws ! (i + 1) = f i) \<and> (\<forall>i \<le> a. ws ! i = vs ! i)"
  using assms
proof (induction "32 * n - a" arbitrary: a u v vs)
  case 0
  then have "a = 32 * n" by simp
  then show ?case using 0 by (auto simp: intro!: exI [of _ vs])
next
  case (Suc d)
  then have a: "a < 32 * n" by simp
  let ?w = "truth_word f (a div 32)"
  have r: "yields ((if a mod 32 = 0 then readu32 else vret u) v) (Inr ?w)
      (reading rs (varuints (truth_words f ((Suc a + 31) div 32) n) @ rest) out)"
  proof (cases "a mod 32 = 0")
    case True
    then obtain q where "a = 32 * q" by (auto elim: dvdE)
    then have d: "(a + 31) div 32 = a div 32" "(Suc a + 31) div 32 = Suc (a div 32)" by simp_all
    have "a div 32 < n" using a by (simp add: div_less_iff_less_mult mult.commute)
    then have ws: "truth_words f (a div 32) n = ?w # truth_words f (Suc (a div 32)) n" by (simp add: upt_conv_Cons)
    show ?thesis unfolding d(2) using Suc.prems(1) True by (auto simp: d(1) ws intro: readu32_varuint)
  next
    case False
    have "a + 31 = 32 * (a div 32) + (a mod 32 + 31)" "Suc a + 31 = 32 * (a div 32) + (a mod 32 + 32)" by simp_all
    moreover have "(a mod 32 + 31) div 32 = 1" "(a mod 32 + 32) div 32 = 1" using False by (simp_all add: div_nat_eqI)
    ultimately have "(Suc a + 31) div 32 = (a + 31) div 32" by (simp only: div_mult_self4 zero_neq_numeral simp_thms)
    then show ?thesis using Suc.prems(1,3) False by simp
  qed
  let ?vs = "vs[a + 1 := ?w AND push_bit (a mod 32) 1 \<noteq> 0]"
  have b: "(?w AND push_bit (a mod 32) 1 \<noteq> 0) = f a"
  proof -
    have "push_bit (a mod 32) (1 :: u32) = 2 ^ (a mod 32)" by (simp add: push_bit_eq_mult)
    then show ?thesis by (simp add: and_exp_eq_0_iff_not_bit bit_truth_word)
  qed
  have "\<exists>ws. yields (unpack_loop [Suc a..<32 * n] ?w ?vs v') (Inr ws) (reading rs rest out) \<and> length ws = 32 * n + 1
      \<and> (\<forall>i. Suc a \<le> i \<and> i < 32 * n \<longrightarrow> ws ! (i + 1) = f i) \<and> (\<forall>i \<le> Suc a. ws ! i = ?vs ! i)"
    if "reading rs (varuints (truth_words f ((Suc a + 31) div 32) n) @ rest) out v'" for v'
    using Suc.hyps(1) [OF _ that, of ?w ?vs] Suc.hyps(2) a Suc.prems(4) by (simp add: div_Suc split: if_splits)
  moreover obtain v' where v': "(if a mod 32 = 0 then readu32 else vret u) v = Some (Inr ?w, v')"
    "reading rs (varuints (truth_words f ((Suc a + 31) div 32) n) @ rest) out v'" using r by (auto simp: yields_def)
  ultimately obtain ws where ws: "yields (unpack_loop [Suc a..<32 * n] ?w ?vs v') (Inr ws) (reading rs rest out)"
    "length ws = 32 * n + 1" "\<forall>i. Suc a \<le> i \<and> i < 32 * n \<longrightarrow> ws ! (i + 1) = f i" "\<forall>i \<le> Suc a. ws ! i = ?vs ! i"
    by blast
  have "unpack_loop [a..<32 * n] u vs v = unpack_loop [Suc a..<32 * n] ?w ?vs v'"
    using a v'(1) Suc.prems(4) by (simp add: upt_conv_Cons vbind_def)
  moreover have "ws ! (i + 1) = f i" if "a \<le> i" "i < 32 * n" for i
    using that ws(3,4) b Suc.prems(4) by (cases "i = a") auto
  moreover have "ws ! i = vs ! i" if "i \<le> a" for i using that ws(4) by simp
  ultimately show ?case using ws(1,2) by auto
qed

end
