(* ===== verification/CrispServer.thy ===== *)
theory CrispServer
  imports CrispModel
begin

text \<open>
  What the handler of a connection does with the requests of a session: adding, assuming, solving with any
  number of answers that the result is not known yet, and the question that follows the answer.
\<close>

section \<open>Steps of the handler\<close>

text \<open>The handler \<open>h0\<close>, except for its connection.\<close>

definition at_srv :: "(vu32io \<Rightarrow> bool) \<Rightarrow> 'h handler \<Rightarrow> 'h handler \<Rightarrow> bool" where
  "at_srv I h0 h \<longleftrightarrow> I (h_uio h) \<and> h = h0\<lparr>h_uio := h_uio h\<rparr>"

lemma on_uio_ok: "at_srv I h0 h \<Longrightarrow> (\<And>v. I v \<Longrightarrow> yields (f v) r J) \<Longrightarrow> yields (on_uio f h) r (at_srv J h0)"
  by (cases h; cases h0) (fastforce simp: yields_def at_srv_def on_uio_def)

lemma on_gini_ok:
  "at_srv I h0 h \<Longrightarrow> h_pending h0 = None \<Longrightarrow> f (h_gini h0) = Some g \<Longrightarrow> yields (on_gini f h) (Inr ()) (at_srv I (h0\<lparr>h_gini := g\<rparr>))"
  by (cases h; cases h0) (auto simp: yields_def at_srv_def on_gini_def unraced_def)

lemma from_gini_ok:
  "at_srv I h0 h \<Longrightarrow> h_pending h0 = None \<Longrightarrow> f (h_gini h0) = Some (x, g) \<Longrightarrow> yields (from_gini f h) (Inr x) (at_srv I (h0\<lparr>h_gini := g\<rparr>))"
  by (cases h; cases h0) (auto simp: yields_def at_srv_def from_gini_def unraced_def)

lemma set_proto_ok: "at_srv I h0 h \<Longrightarrow> yields (set_proto p h) (Inr ()) (at_srv I (h0\<lparr>h_proto := p\<rparr>))"
  by (cases h; cases h0) (auto simp: yields_def at_srv_def set_proto_def)

lemma at_srv_mono: "at_srv I h0 h \<Longrightarrow> (\<And>v. I v \<Longrightarrow> J v) \<Longrightarrow> at_srv J h0 h"
  by (simp add: at_srv_def)

lemma at_srv_fields:
  "at_srv I h0 h \<Longrightarrow> h_gini h = h_gini h0 \<and> h_proto h = h_proto h0 \<and> h_ms h = h_ms h0 \<and> h_steps h = h_steps h0
     \<and> h_pending h = h_pending h0 \<and> h_ready h = h_ready h0 \<and> h_ctl h = h_ctl h0 \<and> h_closed h = h_closed h0 \<and> I (h_uio h)"
  by (cases h; cases h0) (auto simp: at_srv_def)

lemma send_words_ok: "writing rs out v \<Longrightarrow> yields (send_words ds v) (Inr ()) (writing rs (out @ varuints ds))"
proof (induction ds arbitrary: out v)
  case (Cons d ds)
  show ?case unfolding send_words.simps
    by (rule yields_vbind [where m = "writeu32 d", OF writeu32_ok [OF Cons.prems]])
       (use Cons.IH [of "out @ varuint (unat d)"] in simp)
qed simp

lemma Hello_ok:
  assumes "at_srv (at_rest rs out) h0 h"
  shows "yields (h_Hello h) (Inr ()) (at_srv (at_rest rs (out @ varuints (hello_bytes @ [crisp_V]))) h0)"
  unfolding h_Hello_def
proof (rule on_uio_ok [OF assms])
  fix v assume "at_rest rs out v"
  then have w: "writing rs out v" by (rule rest_writing)
  show "yields (vbind (send_words hello_bytes) (\<lambda>_. writeflush crisp_V) v) (Inr ()) (at_rest rs (out @ varuints (hello_bytes @ [crisp_V])))"
    by (rule yields_vbind [where m = "send_words _", OF send_words_ok [OF w]])
       (use writeflush_ok [of rs "out @ varuints hello_bytes" _ crisp_V] in simp)
qed

lemma srv_read:
  "at_srv (reading rs (varuint (unat d) @ rest) out) h0 h \<Longrightarrow> yields (on_uio readu32 h) (Inr d) (at_srv (reading rs rest out) h0)"
  by (erule on_uio_ok) (rule readu32_varuint)

lemma srv_recv:
  assumes "at_srv (reading rs (varuints ms @ 0 # rest) out) h0 h" and "\<forall>m \<in> set ms. m \<noteq> 0 \<and> m < MinProto"
  shows "yields (on_uio (vio_recv []) h) (Inr ms) (at_srv (reading rs rest out) h0)"
  by (rule on_uio_ok [OF assms(1)]) (use recv_ok [OF assms(2), of rs rest out _ "[]"] in simp)

lemma srv_left: "at_srv (reading rs bs out) h0 h \<Longrightarrow> length bs \<le> vio_left (h_uio h)"
  by (auto simp: at_srv_def dest: reading_left)

lemma clear_ms: "at_srv I h0 h \<Longrightarrow> h_ms h0 = [] \<Longrightarrow> yields (Some (Inr (), h\<lparr>h_ms := []\<rparr>)) (Inr ()) (at_srv I h0)"
  by (cases h; cases h0) (auto simp: yields_def at_srv_def)

section \<open>Adding and assuming\<close>

lemma add_loop_ok:
  assumes "length ms < n" and "\<forall>m \<in> set ms. m < MinProto" and "foldM (gini_Add fl) ms (h_gini h0) = Some g"
    and "at_srv (reading rs (varuints (ms @ [p_End]) @ rest) out) h0 h" and "h_pending h0 = None"
  shows "yields (h_add_loop fl n h) (Inr ()) (at_srv (reading rs rest out) (h0\<lparr>h_gini := g\<rparr>))"
  using assms
proof (induction ms arbitrary: n h0 h)
  case Nil
  obtain k where k: "n = Suc k" using Nil by (cases n) auto
  have r: "yields (on_uio readu32 h) (Inr p_End) (at_srv (reading rs rest out) h0)"
    using Nil.prems(4) by (intro srv_read) simp
  show ?case unfolding k h_add_loop.simps
    by (rule yields_vbind [where m = "on_uio readu32", OF r]) (use Nil.prems(3) in \<open>cases h0; simp\<close>)
next
  case (Cons m ms)
  obtain k where k: "n = Suc k" using Cons.prems by (cases n) auto
  obtain g1 where g1: "gini_Add fl m (h_gini h0) = Some g1" "foldM (gini_Add fl) ms g1 = Some g"
    using Cons.prems(3) by (auto split: Option.bind_splits)
  have "m < MinProto" using Cons.prems(2) by simp
  then have m: "m \<noteq> p_End" "\<not> MinProto \<le> m" by (auto simp: proto_defs)
  have r: "yields (on_uio readu32 h) (Inr m) (at_srv (reading rs (varuints (ms @ [p_End]) @ rest) out) h0)"
    using Cons.prems(4) by (intro srv_read) simp
  show ?case unfolding k h_add_loop.simps
  proof (rule yields_vbind [where m = "on_uio readu32", OF r])
    fix h' assume h': "at_srv (reading rs (varuints (ms @ [p_End]) @ rest) out) h0 h'"
    have "yields (vbind (on_gini (gini_Add fl m)) (\<lambda>_. h_add_loop fl k) h') (Inr ()) (at_srv (reading rs rest out) (h0\<lparr>h_gini := g\<rparr>))"
    proof (rule yields_vbind [where m = "on_gini (gini_Add fl m)", OF on_gini_ok [where f = "gini_Add fl m", OF h' Cons.prems(5) g1(1)]])
      fix h'' assume "at_srv (reading rs (varuints (ms @ [p_End]) @ rest) out) (h0\<lparr>h_gini := g1\<rparr>) h''"
      from Cons.IH [OF _ _ _ this, of k] show "yields (h_add_loop fl k h'') (Inr ()) (at_srv (reading rs rest out) (h0\<lparr>h_gini := g\<rparr>))"
        using Cons.prems k g1(2) by simp
    qed
    then show "yields ((if m = p_End then vret () else if MinProto \<le> m then vfail EMsg
          else vbind (on_gini (gini_Add fl m)) (\<lambda>_. h_add_loop fl k)) h') (Inr ()) (at_srv (reading rs rest out) (h0\<lparr>h_gini := g\<rparr>))"
      using m by simp
  qed
qed

lemma handleAdd_ok:
  assumes "\<forall>m \<in> set ms. m < MinProto" and "foldM (gini_Add fl) ms (h_gini h0) = Some g"
    and "at_srv (reading rs (varuints (ms @ [p_End]) @ rest) out) h0 h" and "h_pending h0 = None"
  shows "yields (handleAdd fl h) (Inr ()) (at_srv (reading rs rest out) (h0\<lparr>h_proto := p_Add, h_gini := g\<rparr>))"
  unfolding handleAdd_def
proof (rule yields_vbind [where m = "set_proto p_Add", OF set_proto_ok [OF assms(3)]])
  fix h' assume h': "at_srv (reading rs (varuints (ms @ [p_End]) @ rest) out) (h0\<lparr>h_proto := p_Add\<rparr>) h'"
  then have "length ms < Suc (vio_left (h_uio h'))" using srv_left [OF h'] length_varuints [of ms] by simp
  from add_loop_ok [OF this assms(1) _ h', of fl g]
  show "yields (h_add_loop fl (Suc (vio_left (h_uio h'))) h') (Inr ()) (at_srv (reading rs rest out) (h0\<lparr>h_proto := p_Add, h_gini := g\<rparr>))"
    using assms(2,4) by simp
qed

lemma handleAssume_ok:
  assumes "\<forall>m \<in> set ms. m \<noteq> 0 \<and> m < MinProto" and "foldM (\<lambda>m. gini_Assume fl [m]) ms (h_gini h0) = Some g"
    and "at_srv (reading rs (varuints ms @ 0 # rest) out) h0 h" and "h_ms h0 = []" and "h_pending h0 = None"
  shows "yields (handleAssume fl h) (Inr ()) (at_srv (reading rs rest out) (h0\<lparr>h_proto := p_Assume, h_gini := g\<rparr>))"
  unfolding handleAssume_def
proof (rule yields_vbind [where m = "set_proto p_Assume", OF set_proto_ok [OF assms(3)]])
  fix h' assume h': "at_srv (reading rs (varuints ms @ 0 # rest) out) (h0\<lparr>h_proto := p_Assume\<rparr>) h'"
  then have e: "h_ms h' = []" using assms(4) by (cases h'; cases h0) (simp add: at_srv_def)
  have r: "yields (on_uio (vio_recv []) h') (Inr ms) (at_srv (reading rs rest out) (h0\<lparr>h_proto := p_Assume\<rparr>))"
    by (rule srv_recv [OF h' assms(1)])
  show "yields (vbind (on_uio (vio_recv (h_ms h')))
          (\<lambda>ms. vbind (on_gini (foldM (\<lambda>m. gini_Assume fl [m]) ms)) (\<lambda>_ h. Some (Inr (), h\<lparr>h_ms := []\<rparr>))) h') (Inr ())
        (at_srv (reading rs rest out) (h0\<lparr>h_proto := p_Assume, h_gini := g\<rparr>))"
    unfolding e
  proof (rule yields_vbind [where m = "on_uio (vio_recv [])", OF r])
    fix h'' assume h'': "at_srv (reading rs rest out) (h0\<lparr>h_proto := p_Assume\<rparr>) h''"
    show "yields (vbind (on_gini (foldM (\<lambda>m. gini_Assume fl [m]) ms)) (\<lambda>_ h. Some (Inr (), h\<lparr>h_ms := []\<rparr>)) h'') (Inr ())
        (at_srv (reading rs rest out) (h0\<lparr>h_proto := p_Assume, h_gini := g\<rparr>))"
      by (rule yields_vbind [where m = "on_gini _", OF on_gini_ok [where f = "foldM (\<lambda>m. gini_Assume fl [m]) ms", OF h'']])
         (use assms(2,4,5) in \<open>auto intro: clear_ms\<close>)
  qed
qed

section \<open>Solving\<close>

definition answer :: "int \<Rightarrow> u32" where
  "answer r = (if r = -1 then p_Unsat else if r = 1 then p_Sat else p_Unknown)"

lemma sendRes_ok:
  assumes "at_srv (at_rest rs out) h0 h" and "r \<in> {-1, 0, 1}"
  shows "yields (sendRes r False h) (Inr ()) (at_srv (at_rest rs (out @ varuint (unat (answer r)))) h0)"
proof -
  have "yields (on_uio (writeflush p) h) (Inr ()) (at_srv (at_rest rs (out @ varuint (unat p))) h0)" for p
    by (rule on_uio_ok [OF assms(1)]) (blast intro: writeflush_ok rest_writing)
  then show ?thesis using assms(2) by (auto simp: sendRes_def answer_def)
qed

text \<open>A test finds the result, or not yet.\<close>

definition tested :: "bool list \<Rightarrow> int \<Rightarrow> 'h handler \<Rightarrow> 'h handler" where
  "tested bs r h = (case bs of [] \<Rightarrow> h\<lparr>h_pending := None, h_ready := []\<rparr> | b # bs \<Rightarrow> h\<lparr>h_pending := Some r, h_ready := bs\<rparr>)"

lemma handleStep_ok:
  assumes "at_srv (at_rest rs out) h0 h" and "h_pending h0 = Some r" and "h_ready h0 = replicate k False" and "r \<in> {-1, 1}"
  shows "yields (handleStep h) (Inr ())
    (at_srv (at_rest rs (out @ varuint (unat (answer (if k = 0 then r else 0)))))
      (tested (h_ready h0) r h0\<lparr>h_steps := h_steps h0 + 1\<rparr>))"
proof -
  have t: "yields (h_Test h) (Inr (if k = 0 then r else 0, k = 0)) (at_srv (at_rest rs out) (tested (h_ready h0) r h0))"
    using assms by (cases k; cases h; cases h0) (auto simp: yields_def at_srv_def h_Test_def tested_def)
  show ?thesis unfolding handleStep_def
  proof (rule yields_vbind [where m = h_Test, OF t])
    fix h' assume h': "at_srv (at_rest rs out) (tested (h_ready h0) r h0) h'"
    let ?h1 = "tested (h_ready h0) r h0\<lparr>h_steps := h_steps h0 + 1\<rparr>"
    have "h_steps (tested (h_ready h0) r h0) = h_steps h0" by (simp add: tested_def split: list.splits)
    then have "at_srv (at_rest rs out) ?h1 (h'\<lparr>h_steps := h_steps h' + 1\<rparr>)"
      using h' by (cases h'; cases "tested (h_ready h0) r h0") (auto simp: at_srv_def)
    then have "yields (sendRes (if k = 0 then r else 0) False (h'\<lparr>h_steps := h_steps h' + 1\<rparr>)) (Inr ())
        (at_srv (at_rest rs (out @ varuint (unat (answer (if k = 0 then r else 0))))) ?h1)"
      using assms(4) by (intro sendRes_ok) auto
    then show "yields ((case (if k = 0 then r else 0, k = 0) of
          (res, fin) \<Rightarrow> \<lambda>h. if res = 0 \<and> fin then None else sendRes res False (h\<lparr>h_steps := h_steps h + 1\<rparr>)) h') (Inr ())
        (at_srv (at_rest rs (out @ varuint (unat (answer (if k = 0 then r else 0))))) ?h1)"
      using assms(4) by auto
  qed
qed

text \<open>The handler while a result is pending, and after it was sent.\<close>

definition solving :: "'h gini \<Rightarrow> int \<Rightarrow> nat \<Rightarrow> 'h handler \<Rightarrow> bool" where
  "solving g r k h \<longleftrightarrow> h_gini h = g \<and> h_proto h = p_Solve \<and> h_pending h = Some r \<and> h_ready h = replicate k False \<and> h_ms h = []"

definition solved :: "'h gini \<Rightarrow> 'h handler \<Rightarrow> bool" where
  "solved g h \<longleftrightarrow> h_gini h = g \<and> h_proto h = p_Solve \<and> h_pending h = None \<and> h_ms h = []"

text \<open>A handler with some property, and its connection.\<close>

definition srv :: "('h handler \<Rightarrow> bool) \<Rightarrow> (vu32io \<Rightarrow> bool) \<Rightarrow> 'h handler \<Rightarrow> bool" where
  "srv P I h \<longleftrightarrow> P h \<and> I (h_uio h)"

lemma srv_at: "srv P I h \<Longrightarrow> at_srv I h h"
  by (simp add: srv_def at_srv_def)

lemma handleStep_solving:
  assumes "srv (solving g r (Suc k)) (at_rest rs out) h" and "r \<in> {-1, 1}"
  shows "yields (handleStep h) (Inr ()) (srv (solving g r k) (at_rest rs (out @ varuint (unat p_Unknown))))"
proof -
  have s: "h_pending h = Some r" "h_ready h = replicate (Suc k) False" using assms(1) by (auto simp: srv_def solving_def)
  show ?thesis
    by (rule yields_mono [OF handleStep_ok [OF srv_at [OF assms(1)] s assms(2)]])
       (use assms(1) in \<open>auto dest!: at_srv_fields simp: srv_def solving_def tested_def answer_def\<close>)
qed

lemma handleStep_solved:
  assumes "srv (solving g r 0) (at_rest rs out) h" and "r \<in> {-1, 1}"
  shows "yields (handleStep h) (Inr ()) (srv (solved g) (at_rest rs (out @ varuint (unat (answer r)))))"
proof -
  have s: "h_pending h = Some r" "h_ready h = replicate 0 False" using assms(1) by (auto simp: srv_def solving_def)
  show ?thesis
    by (rule yields_mono [OF handleStep_ok [OF srv_at [OF assms(1)] s assms(2)]])
       (use assms(1) in \<open>auto dest!: at_srv_fields simp: srv_def solving_def solved_def tested_def\<close>)
qed

lemma handleContinue_solving: "srv (solving g r k) I h \<Longrightarrow> handleContinue h = handleStep h"
  by (simp add: srv_def solving_def handleContinue_def)

lemma handleSolve_GoSolve:
  assumes "at_srv (at_rest rs out) h0 h" and "gini_Solve fl ctl (h_gini h0) = Some (r, g)"
    and "h_ctl h0 = [ctl]" and "h_pending h0 = None" and "h_ready h0 = replicate k False" and "h_ms h0 = []"
  shows "\<exists>h'. handleSolve fl h = handleStep h' \<and> srv (solving g r k) (at_rest rs out) h'"
proof -
  let ?h' = "h\<lparr>h_proto := p_Solve, h_gini := g, h_pending := Some r, h_ctl := [], h_steps := 0\<rparr>"
  have "handleSolve fl h = handleStep ?h'"
    using assms by (cases h; cases h0) (auto simp: handleSolve_def vbind_def set_proto_def h_GoSolve_def unraced_def at_srv_def)
  moreover have "srv (solving g r k) (at_rest rs out) ?h'"
    using assms by (cases h; cases h0) (auto simp: srv_def solving_def at_srv_def)
  ultimately show ?thesis by blast
qed

section \<open>After the answer\<close>

lemma srv_keep: "srv P I h \<Longrightarrow> yields m r (at_srv J h) \<Longrightarrow> (\<And>v. P (h\<lparr>h_uio := v\<rparr>)) \<Longrightarrow> yields m r (srv P J)"
  by (auto simp: yields_def srv_def at_srv_def) metis

lemma solved_uio: "solved g h \<Longrightarrow> solved g (h\<lparr>h_uio := v\<rparr>)"
  by (simp add: solved_def)

lemma handleModel_ok:
  assumes "srv (solved g) (at_rest rs out) h" and "unat (gini_MaxVar g) < 2 ^ 31"
    and "\<And>v. 1 \<le> v \<Longrightarrow> v \<le> unat (gini_MaxVar g) \<Longrightarrow> gini_Value (var_Pos (of_nat v)) g = Some (val v)"
  defines "M \<equiv> unat (gini_MaxVar g)"
  shows "yields (handleModel h) (Inr ())
    (srv (solved g) (at_rest rs (out @ varuints (of_nat (word_count M) # truth_words (\<lambda>i. i < M \<and> val (i + 1)) 0 (word_count M)))))"
proof -
  have h: "h_gini h = g" "h_proto h = p_Solve" "h_pending h = None" using assms(1) by (auto simp: srv_def solved_def)
  have v: "gini_Value (var_Pos (of_nat (i + 1))) g = Some (val (i + 1))" if "i < M" for i
    using assms(3) [of "i + 1"] that by (simp add: M_def)
  have "yields (on_uio (pack (\<lambda>i. gini_Value (var_Pos (of_nat (i + 1))) g) (gini_MaxVar g)) h) (Inr ())
      (at_srv (at_rest rs (out @ varuints (of_nat (word_count M) # truth_words (\<lambda>i. i < M \<and> val (i + 1)) 0 (word_count M)))) h)"
    unfolding M_def
    by (rule on_uio_ok [OF srv_at [OF assms(1)]], rule pack_ok [OF rest_writing _ v [unfolded M_def]])
       (use assms(2) in auto)
  then show ?thesis
    using srv_keep [OF assms(1)] assms(1) by (auto simp: handleModel_def unraced_def h solved_uio srv_def)
qed

lemma handleFailed_ok:
  assumes "srv (solved g) (at_rest rs out) h" and "gini_Why [] g = Some (fs, g')"
  shows "yields (handleFailed h) (Inr ()) (srv (solved g') (at_rest rs (out @ varuints fs @ [0])))"
proof -
  have h: "h_gini h = g" "h_proto h = p_Solve" "h_ms h = []" "h_pending h = None" using assms(1) by (auto simp: srv_def solved_def)
  have f: "yields (from_gini (gini_Why []) h) (Inr fs) (at_srv (at_rest rs out) (h\<lparr>h_gini := g'\<rparr>))"
    by (rule from_gini_ok [OF srv_at [OF assms(1)]]) (simp_all add: h assms(2))
  have "yields (vbind (from_gini (gini_Why [])) (\<lambda>fails. vbind (on_uio (vio_send fails)) (\<lambda>_. on_uio flush)) h) (Inr ())
      (at_srv (at_rest rs (out @ varuints fs @ [0])) (h\<lparr>h_gini := g'\<rparr>))"
  proof (rule yields_vbind [where m = "from_gini _", OF f])
    fix h' assume h': "at_srv (at_rest rs out) (h\<lparr>h_gini := g'\<rparr>) h'"
    have s: "yields (on_uio (vio_send fs) h') (Inr ()) (at_srv (writing rs (out @ varuints fs @ [0])) (h\<lparr>h_gini := g'\<rparr>))"
      by (rule on_uio_ok [OF h']) (blast intro: send_ok rest_writing)
    show "yields (vbind (on_uio (vio_send fs)) (\<lambda>_. on_uio flush) h') (Inr ())
        (at_srv (at_rest rs (out @ varuints fs @ [0])) (h\<lparr>h_gini := g'\<rparr>))"
      by (rule yields_vbind [where m = "on_uio (vio_send fs)", OF s]) (blast intro: on_uio_ok flush_ok)
  qed
  then have "yields (handleFailed h) (Inr ()) (at_srv (at_rest rs (out @ varuints fs @ [0])) (h\<lparr>h_gini := g'\<rparr>))"
    by (simp add: handleFailed_def h)
  then show ?thesis
    by (rule yields_mono) (drule at_srv_fields, simp add: srv_def solved_def h)
qed

section \<open>A session\<close>

text \<open>What is sent between two changes of direction arrives in any number of reads.\<close>

definition cut_of :: "byte list list \<Rightarrow> reads \<Rightarrow> bool" where
  "cut_of ms rs \<longleftrightarrow> (\<exists>css. map concat css = ms \<and> [] \<notin> set (concat css) \<and> rs = plain_reads (concat css))"

lemma plain_append: "plain_reads (cs @ ds) = plain_reads cs @ plain_reads ds"
  by (simp add: plain_reads_def)

lemma cut_of_Nil [simp]: "cut_of [] rs \<longleftrightarrow> rs = []"
  by (auto simp: cut_of_def plain_reads_def)

lemma cut_of_Cons:
  assumes "cut_of (m # ms) rs"
  obtains cs rs' where "concat cs = m" and "rs = plain_reads cs @ rs'" and "cut_of ms rs'"
proof -
  obtain css where c: "map concat css = m # ms" "[] \<notin> set (concat css)" "rs = plain_reads (concat css)"
    using assms [unfolded cut_of_def] by (elim exE conjE) (rule that)
  then obtain z zs where z: "css = z # zs" by (cases css) auto
  have "cut_of ms (plain_reads (concat zs))" using c z by (auto simp: cut_of_def intro!: exI [of _ zs])
  then show ?thesis using that [of z "plain_reads (concat zs)"] c z by (simp add: plain_append)
qed

lemma concat_concat: "concat (concat xsss) = concat (map concat xsss)"
  by (induction xsss) simp_all

lemma cut_of_bytes: "cut_of ms rs \<Longrightarrow> concat (map fst rs) = concat ms"
  by (auto simp: cut_of_def plain_reads_def comp_def concat_concat)

text \<open>The requests of a session up to the first answer, and all of them.\<close>

definition first_request :: "lit list \<Rightarrow> lit list \<Rightarrow> byte list" where
  "first_request ms A =
     varuints (p_Add # ms @ [p_End]) @ (if A = [] then [] else varuints (p_Assume # A) @ [0]) @ varuint (unat p_Solve)"

definition requests :: "lit list \<Rightarrow> lit list \<Rightarrow> nat \<Rightarrow> u32 \<Rightarrow> byte list list" where
  "requests ms A k q = first_request ms A # replicate k (varuint (unat p_Continue)) @ [varuint (unat q), varuint (unat p_Quit)]"

text \<open>One round of the loop over the requests.\<close>

lemma crisp_round:
  assumes "at_srv (reading rs (varuint (unat p) @ rest) out) h0 h" and "p \<noteq> p_Quit"
    and "\<And>h'. at_srv (reading rs rest out) h0 h' \<Longrightarrow> yields (handle_op fl p h') (Inr ()) Q"
    and "\<And>h'. Q h' \<Longrightarrow> yields (crisp_loop fl n h') r S"
  shows "yields (crisp_loop fl (Suc n) h) r S"
  unfolding crisp_loop.simps
proof (rule yields_vbind [where m = "on_uio readu32", OF srv_read [OF assms(1)]])
  fix h' assume "at_srv (reading rs rest out) h0 h'"
  from assms(3) [OF this] have "yields (vbind (handle_op fl p) (\<lambda>_. crisp_loop fl n) h') r S"
    by (rule yields_vbind [where m = "handle_op fl p"]) (rule assms(4))
  then show "yields ((if p = p_Quit then vret () else vbind (handle_op fl p) (\<lambda>_. crisp_loop fl n)) h') r S"
    using assms(2) by simp
qed

lemma crisp_quit:
  assumes "at_srv (reading rs (varuint (unat p_Quit) @ rest) out) h0 h"
  shows "yields (crisp_loop fl (Suc n) h) (Inr ()) (at_srv (reading rs rest out) h0)"
  unfolding crisp_loop.simps
  by (rule yields_vbind [where m = "on_uio readu32", OF srv_read [OF assms]]) simp

lemma srv_next:
  assumes "srv P (at_rest rs out) h" and "cut_of (m # ms) rs"
  obtains rs' where "at_srv (reading rs' m out) h h" and "cut_of ms rs'"
proof -
  obtain cs rs' where c: "concat cs = m" "rs = plain_reads cs @ rs'" "cut_of ms rs'" using cut_of_Cons [OF assms(2)] by blast
  then have "at_srv (reading rs' m out) h h" using assms(1) rest_reading [of cs rs' out "h_uio h"] by (simp add: srv_def at_srv_def)
  then show ?thesis using that c(3) by blast
qed

lemma handle_op_Continue: "handle_op fl p_Continue = handleContinue"
  and handle_op_Add: "handle_op fl p_Add = handleAdd fl"
  and handle_op_Assume: "handle_op fl p_Assume = handleAssume fl"
  and handle_op_Solve: "handle_op fl p_Solve = handleSolve fl"
  and handle_op_Model: "handle_op fl p_Model = handleModel"
  and handle_op_Failed: "handle_op fl p_Failed = handleFailed"
  by (simp_all add: handle_op_def proto_defs)

lemma op_not_quit: "p_Continue \<noteq> p_Quit" "p_Add \<noteq> p_Quit" "p_Assume \<noteq> p_Quit" "p_Solve \<noteq> p_Quit" "p_Model \<noteq> p_Quit" "p_Failed \<noteq> p_Quit"
  by (simp_all add: proto_defs)

text \<open>From a pending result on.\<close>

lemma solving_session:
  assumes "\<And>rs out h. srv (solved g) (at_rest rs out) h \<Longrightarrow> yields (handle_op fl q h) (Inr ()) (srv (solved g') (at_rest rs (out @ ans)))"
    and "q \<noteq> p_Quit" and "r \<in> {-1, 1}"
    and "srv (solving g r k) (at_rest rs out) h"
    and "cut_of (replicate k (varuint (unat p_Continue)) @ [varuint (unat q), varuint (unat p_Quit)]) rs"
    and "k + 2 \<le> n"
  shows "yields (vbind handleStep (\<lambda>_. crisp_loop fl n) h) (Inr ())
    (\<lambda>h. at_rest [] (out @ concat (replicate k (varuint (unat p_Unknown))) @ varuint (unat (answer r)) @ ans) (h_uio h))"
  using assms(4-)
proof (induction k arbitrary: rs out h n)
  case 0
  obtain n1 where n: "n = Suc (Suc n1)" using 0 by (auto simp: Suc_le_eq dest!: less_imp_Suc_add)
  let ?o = "out @ varuint (unat (answer r))"
  show ?case
  proof (rule yields_vbind [where m = handleStep, OF handleStep_solved [OF 0(1) assms(3)]])
    fix h1 assume h1: "srv (solved g) (at_rest rs ?o) h1"
    obtain rs1 where r1: "at_srv (reading rs1 (varuint (unat q) @ []) ?o) h1 h1" "cut_of [varuint (unat p_Quit)] rs1"
      using srv_next [OF h1, of "varuint (unat q)"] 0(2) by auto
    show "yields (crisp_loop fl n h1) (Inr ())
        (\<lambda>h. at_rest [] (out @ concat (replicate 0 (varuint (unat p_Unknown))) @ varuint (unat (answer r)) @ ans) (h_uio h))"
      unfolding n
    proof (rule crisp_round [OF r1(1) assms(2)])
      fix h2 assume "at_srv (reading rs1 [] ?o) h1 h2"
      then have "srv (solved g) (at_rest rs1 ?o) h2" using h1 by (auto dest!: at_srv_fields reading_rest simp: srv_def solved_def)
      then show "yields (handle_op fl q h2) (Inr ()) (srv (solved g') (at_rest rs1 (?o @ ans)))" by (rule assms(1))
    next
      fix h2 assume h2: "srv (solved g') (at_rest rs1 (?o @ ans)) h2"
      obtain rs2 where r2: "at_srv (reading rs2 (varuint (unat p_Quit) @ []) (?o @ ans)) h2 h2" "cut_of [] rs2"
        using srv_next [OF h2 r1(2)] by auto
      show "yields (crisp_loop fl (Suc n1) h2) (Inr ())
          (\<lambda>h. at_rest [] (out @ concat (replicate 0 (varuint (unat p_Unknown))) @ varuint (unat (answer r)) @ ans) (h_uio h))"
        by (rule yields_mono [OF crisp_quit [OF r2(1)]]) (use r2(2) in \<open>auto dest!: at_srv_fields reading_rest\<close>)
    qed
  qed
next
  case (Suc k)
  obtain n1 where n: "n = Suc n1" using Suc.prems by (cases n) auto
  let ?o = "out @ varuint (unat p_Unknown)"
  show ?case
  proof (rule yields_vbind [where m = handleStep, OF handleStep_solving [OF Suc.prems(1) assms(3)]])
    fix h1 assume h1: "srv (solving g r k) (at_rest rs ?o) h1"
    obtain rs1 where r1: "at_srv (reading rs1 (varuint (unat p_Continue) @ []) ?o) h1 h1"
      "cut_of (replicate k (varuint (unat p_Continue)) @ [varuint (unat q), varuint (unat p_Quit)]) rs1"
      using srv_next [OF h1, of "varuint (unat p_Continue)"] Suc.prems(2) by auto
    have "yields (vbind (on_uio readu32) (\<lambda>p. if p = p_Quit then vret () else vbind (handle_op fl p) (\<lambda>_. crisp_loop fl n1)) h1) (Inr ())
        (\<lambda>h. at_rest [] (?o @ concat (replicate k (varuint (unat p_Unknown))) @ varuint (unat (answer r)) @ ans) (h_uio h))"
    proof (rule yields_vbind [where m = "on_uio readu32", OF srv_read [OF r1(1)]])
      fix h2 assume "at_srv (reading rs1 [] ?o) h1 h2"
      then have h2: "srv (solving g r k) (at_rest rs1 ?o) h2"
        using h1 by (auto dest!: at_srv_fields reading_rest simp: srv_def solving_def)
      from Suc.IH [OF h2 r1(2), of n1]
      have "yields (vbind handleStep (\<lambda>_. crisp_loop fl n1) h2) (Inr ())
          (\<lambda>h. at_rest [] (?o @ concat (replicate k (varuint (unat p_Unknown))) @ varuint (unat (answer r)) @ ans) (h_uio h))"
        using Suc.prems n by simp
      moreover have "vbind (handle_op fl p_Continue) (\<lambda>_. crisp_loop fl n1) h2 = vbind handleStep (\<lambda>_. crisp_loop fl n1) h2"
        using handleContinue_solving [OF h2] by (simp add: vbind_def handle_op_Continue)
      ultimately show "yields ((if p_Continue = p_Quit then vret () else vbind (handle_op fl p_Continue) (\<lambda>_. crisp_loop fl n1)) h2) (Inr ())
          (\<lambda>h. at_rest [] (?o @ concat (replicate k (varuint (unat p_Unknown))) @ varuint (unat (answer r)) @ ans) (h_uio h))"
        using op_not_quit by simp
    qed
    then show "yields (crisp_loop fl n h1) (Inr ())
        (\<lambda>h. at_rest [] (out @ concat (replicate (Suc k) (varuint (unat p_Unknown))) @ varuint (unat (answer r)) @ ans) (h_uio h))"
      by (simp add: n)
  qed
qed

text \<open>The whole session, from the first request to the end.\<close>

lemma session_ok:
  assumes "\<And>rs out h. srv (solved g) (at_rest rs out) h \<Longrightarrow> yields (handle_op fl q h) (Inr ()) (srv (solved g') (at_rest rs (out @ ans)))"
    and "q \<noteq> p_Quit" and r: "r \<in> {-1, 1}"
    and ms: "\<forall>m \<in> set ms. m < MinProto" and A: "\<forall>m \<in> set A. m \<noteq> 0 \<and> m < MinProto"
    and local: "foldM (gini_Add fl) ms (h_gini h0) = Some g1" "foldM (\<lambda>m. gini_Assume fl [m]) A g1 = Some g2"
      "gini_Solve fl ctl g2 = Some (r, g)"
    and h0: "h_ctl h0 = [ctl]" "h_pending h0 = None" "h_ready h0 = replicate k False" "h_ms h0 = []"
    and h: "at_srv (at_rest rs out) h0 h" and cut: "cut_of (requests ms A k q) rs" and n: "k + 5 \<le> n"
  shows "yields (crisp_loop fl n h) (Inr ())
    (\<lambda>h. at_rest [] (out @ concat (replicate k (varuint (unat p_Unknown))) @ varuint (unat (answer r)) @ ans) (h_uio h))"
proof -
  let ?S = "\<lambda>h. at_rest [] (out @ concat (replicate k (varuint (unat p_Unknown))) @ varuint (unat (answer r)) @ ans) (h_uio h)"
  obtain cs rs1 where c: "concat cs = first_request ms A" "rs = plain_reads cs @ rs1"
      "cut_of (replicate k (varuint (unat p_Continue)) @ [varuint (unat q), varuint (unat p_Quit)]) rs1"
    using cut_of_Cons cut unfolding requests_def by metis
  define A' where "A' = (if A = [] then [] else varuints (p_Assume # A) @ [0])"
  have r0: "at_srv (reading rs1 (varuint (unat p_Add) @ varuints (ms @ [p_End]) @ A' @ varuint (unat p_Solve)) out) h0 h"
    using h c rest_reading [of cs rs1 out "h_uio h"] by (simp add: at_srv_def first_request_def A'_def)
  have solve: "yields (crisp_loop fl (Suc m) h2) (Inr ()) ?S"
    if h2: "at_srv (reading rs1 (varuint (unat p_Solve) @ []) out) (h0\<lparr>h_proto := p, h_gini := g2\<rparr>) h2" and m: "k + 2 \<le> m" for m p h2
    unfolding crisp_loop.simps
  proof (rule yields_vbind [where m = "on_uio readu32", OF srv_read [OF h2]])
    fix h3 assume h3: "at_srv (reading rs1 [] out) (h0\<lparr>h_proto := p, h_gini := g2\<rparr>) h3"
    have h3: "at_srv (at_rest rs1 out) (h0\<lparr>h_proto := p, h_gini := g2\<rparr>) h3" by (rule at_srv_mono [OF h3]) (rule reading_rest)
    obtain h' where h': "handleSolve fl h3 = handleStep h'" "srv (solving g r k) (at_rest rs1 out) h'"
      using handleSolve_GoSolve [OF h3, of fl ctl r g k] h0 local(3) by auto
    have "vbind (handle_op fl p_Solve) (\<lambda>_. crisp_loop fl m) h3 = vbind handleStep (\<lambda>_. crisp_loop fl m) h'"
      by (simp add: vbind_def handle_op_Solve h'(1))
    then show "yields ((if p_Solve = p_Quit then vret () else vbind (handle_op fl p_Solve) (\<lambda>_. crisp_loop fl m)) h3) (Inr ()) ?S"
      using solving_session [OF assms(1-3) h'(2) c(3) m] op_not_quit by simp
  qed
  define m where "m = n - 3"
  have m: "n = Suc (Suc (Suc m))" "k + 2 \<le> m" using n by (simp_all add: m_def)
  show ?thesis unfolding m(1)
  proof (rule crisp_round [OF r0 op_not_quit(2)])
    fix h1 assume "at_srv (reading rs1 (varuints (ms @ [p_End]) @ A' @ varuint (unat p_Solve)) out) h0 h1"
    from handleAdd_ok [OF ms local(1) this] show "yields (handle_op fl p_Add h1) (Inr ())
        (at_srv (reading rs1 (A' @ varuint (unat p_Solve)) out) (h0\<lparr>h_proto := p_Add, h_gini := g1\<rparr>))"
      using h0(2) by (simp add: handle_op_Add)
  next
    fix h1 assume h1: "at_srv (reading rs1 (A' @ varuint (unat p_Solve)) out) (h0\<lparr>h_proto := p_Add, h_gini := g1\<rparr>) h1"
    show "yields (crisp_loop fl (Suc (Suc m)) h1) (Inr ()) ?S"
    proof (cases "A = []")
      case True
      then have "A' = []" "g1 = g2" using local(2) by (simp_all add: A'_def)
      then show ?thesis using solve [of p_Add h1 "Suc m"] h1 m(2) by simp
    next
      case False
      then have h1: "at_srv (reading rs1 (varuint (unat p_Assume) @ varuints A @ 0 # varuint (unat p_Solve)) out) (h0\<lparr>h_proto := p_Add, h_gini := g1\<rparr>) h1"
        using h1 by (simp add: A'_def)
      show ?thesis
      proof (rule crisp_round [OF h1 op_not_quit(3)])
        fix h2 assume "at_srv (reading rs1 (varuints A @ 0 # varuint (unat p_Solve)) out) (h0\<lparr>h_proto := p_Add, h_gini := g1\<rparr>) h2"
        from handleAssume_ok [OF A _ this, of fl g2] show "yields (handle_op fl p_Assume h2) (Inr ())
            (at_srv (reading rs1 (varuint (unat p_Solve) @ []) out) (h0\<lparr>h_proto := p_Assume, h_gini := g2\<rparr>))"
          using local(2) h0(2,4) by (simp add: handle_op_Assume)
      qed (rule solve [OF _ m(2)])
    qed
  qed
qed

end
