(* ===== verification/CrispClient.thy ===== *)
theory CrispClient
  imports CrispServer
begin

text \<open>
  What the client sends and how it understands the answers, and the theorems about the protocol: solving over a
  connection is the same as solving locally, and where the implementations of the two sides fall short.
\<close>

section \<open>Steps of the client\<close>

text \<open>The client in state \<open>p\<close>, with the result \<open>s\<close> of the last solve and the model \<open>mo\<close>, not cancelled.\<close>

definition at_cl :: "u32 \<Rightarrow> int \<Rightarrow> bool list \<Rightarrow> (vu32io \<Rightarrow> bool) \<Rightarrow> client \<Rightarrow> bool" where
  "at_cl p s mo I c \<longleftrightarrow> cl_proto c = p \<and> cl_lastSat c = s \<and> cl_model c = mo \<and> cl_cancel c = [] \<and> I (cl_io c)"

lemma at_cl_mono: "at_cl p s mo I c \<Longrightarrow> (\<And>v. I v \<Longrightarrow> J v) \<Longrightarrow> at_cl p s mo J c"
  by (simp add: at_cl_def)

lemma on_io_ok: "at_cl p s mo I c \<Longrightarrow> (\<And>v. I v \<Longrightarrow> yields (f v) r J) \<Longrightarrow> yields (on_io f c) r (at_cl p s mo J)"
proof -
  assume c: "at_cl p s mo I c" and f: "\<And>v. I v \<Longrightarrow> yields (f v) r J"
  have "I (cl_io c)" using c by (simp add: at_cl_def)
  then obtain v where "f (cl_io c) = Some (r, v)" "J v" using f unfolding yields_def by blast
  then show ?thesis using c by (simp add: yields_def at_cl_def on_io_def)
qed

text \<open>What is sent before the next request: the end of a list of clauses.\<close>

definition close_add :: "u32 \<Rightarrow> byte list" where
  "close_add p = (if p = p_Add then varuint (unat p_End) else [])"

lemma send_op_ok:
  assumes "at_cl p s mo (writing rs out) c" and "q \<in> {p_Add, p_Assume}"
  shows "yields (send_op q c) (Inr ()) (at_cl q s mo (writing rs (out @ varuint (unat q))))"
proof -
  have "at_cl q s mo (writing rs out) (c\<lparr>cl_proto := q\<rparr>)" using assms(1) by (simp add: at_cl_def)
  then have "yields (on_io (writeu32 q) (c\<lparr>cl_proto := q\<rparr>)) (Inr ()) (at_cl q s mo (writing rs (out @ varuint (unat q))))"
    by (rule on_io_ok) (rule writeu32_ok)
  moreover have "q \<in> {p_Key, p_Add, p_Assume, p_ModelFor, p_FailedFor}"
    "q \<in> {p_Key, p_Add, p_Assume, p_Solve, p_Model, p_ModelFor, p_Failed, p_FailedFor, p_Quit, p_Reset, p_Ext}"
    using assms(2) by blast+
  ultimately show ?thesis by (simp only: send_op_def Let_def if_True)
qed

lemma send_op_flush_ok:
  assumes "at_cl p s mo (writing rs out) c" and "q \<in> {p_Solve, p_Model, p_Failed}"
  shows "yields (send_op q c) (Inr ()) (at_cl q s mo (at_rest rs (out @ varuint (unat q))))"
proof -
  have "at_cl q s mo (writing rs out) (c\<lparr>cl_proto := q\<rparr>)" using assms(1) by (simp add: at_cl_def)
  then have "yields (on_io (writeflush q) (c\<lparr>cl_proto := q\<rparr>)) (Inr ()) (at_cl q s mo (at_rest rs (out @ varuint (unat q))))"
    by (rule on_io_ok) (rule writeflush_ok)
  moreover have "q \<notin> {p_Key, p_Add, p_Assume, p_ModelFor, p_FailedFor}" using assms(2) by (auto simp: proto_defs)
  moreover have "q \<in> {p_Key, p_Add, p_Assume, p_Solve, p_Model, p_ModelFor, p_Failed, p_FailedFor, p_Quit, p_Reset, p_Ext}"
    using assms(2) by blast
  ultimately show ?thesis by (simp only: send_op_def Let_def if_True if_False)
qed

lemma checkState_ok:
  assumes "at_cl p s mo (writing rs out) c"
    and "\<And>c out. at_cl p s mo (writing rs out) c \<Longrightarrow> yields (send_op q c) (Inr ()) (J (out @ varuint (unat q)))"
  shows "yields (checkState q c) (Inr ()) (J (out @ close_add p @ varuint (unat q)))"
proof (cases "p = p_Add")
  case True
  have f: "yields (on_io (writeflush p_End) c) (Inr ()) (at_cl p s mo (writing rs (out @ varuint (unat p_End))))"
    by (rule on_io_ok [OF assms(1)]) (blast intro: yields_mono writeflush_ok rest_writing)
  have "yields (vbind (on_io (writeflush p_End)) (\<lambda>_. send_op q) c) (Inr ()) (J (out @ close_add p @ varuint (unat q)))"
    by (rule yields_vbind [where m = "on_io _", OF f])
       (use assms(2) [where out = "out @ varuint (unat p_End)"] True in \<open>simp add: close_add_def\<close>)
  then show ?thesis using True assms(1) by (simp add: checkState_def IsVarLen_def at_cl_def)
next
  case False
  then show ?thesis using assms(2) [OF assms(1)] assms(1) by (simp add: checkState_def IsVarLen_def at_cl_def close_add_def)
qed

lemma check_send:
  assumes "at_cl p s mo (writing rs out) c" and "q \<in> {p_Add, p_Assume}"
  shows "yields (checkState q c) (Inr ()) (at_cl q s mo (writing rs (out @ close_add p @ varuint (unat q))))"
  by (rule checkState_ok [where J = "\<lambda>out. at_cl q s mo (writing rs out)", OF assms(1)]) (rule send_op_ok [OF _ assms(2)])

lemma check_flush:
  assumes "at_cl p s mo (writing rs out) c" and "q \<in> {p_Solve, p_Model, p_Failed}"
  shows "yields (checkState q c) (Inr ()) (at_cl q s mo (at_rest rs (out @ close_add p @ varuint (unat q))))"
  by (rule checkState_ok [where J = "\<lambda>out. at_cl q s mo (at_rest rs out)", OF assms(1)]) (rule send_op_flush_ok [OF _ assms(2)])

lemma raise_max_at: "at_cl p s mo I (raise_max m c) \<longleftrightarrow> at_cl p s mo I c"
  by (simp add: raise_max_def at_cl_def)

lemma fold_raise_max_at: "at_cl p s mo I (fold raise_max ms c) \<longleftrightarrow> at_cl p s mo I c"
  by (induction ms arbitrary: c) (simp_all add: raise_max_at)

lemma yields_vignore:
  assumes "yields (m v) x Q" and "\<And>v'. Q v' \<Longrightarrow> yields (f v') r P"
  shows "yields (vignore m f v) r P"
  using assms unfolding yields_def vignore_def by fastforce

text \<open>Adding literal by literal.\<close>

fun client_Adds :: "lit list \<Rightarrow> (client, unit) act" where
  "client_Adds [] = vret ()"
| "client_Adds (m # ms) = vbind (client_Add m) (\<lambda>_. client_Adds ms)"

lemma add_lit_ok: "at_cl p_Add s mo (writing rs out) c \<Longrightarrow>
   yields (on_io (writeu32 m) (raise_max m c)) (Inr ()) (at_cl p_Add s mo (writing rs (out @ varuint (unat m))))"
  by (rule on_io_ok [where I = "writing rs out"]) (auto simp: raise_max_at intro: writeu32_ok)

lemma client_Add_more: "at_cl p_Add s mo (writing rs out) c \<Longrightarrow>
   yields (client_Add m c) (Inr ()) (at_cl p_Add s mo (writing rs (out @ varuint (unat m))))"
  using add_lit_ok [of s mo rs out c m] by (simp add: client_Add_def at_cl_def)

lemma client_Add_first:
  assumes "at_cl p s mo (writing rs out) c" and "p \<noteq> p_Add"
  shows "yields (client_Add m c) (Inr ()) (at_cl p_Add s mo (writing rs (out @ varuints [p_Add, m])))"
proof -
  have k: "yields (checkState p_Add c) (Inr ()) (at_cl p_Add s mo (writing rs (out @ close_add p @ varuint (unat p_Add))))"
    by (rule check_send [OF assms(1)]) simp_all
  have "yields (vignore (checkState p_Add) (\<lambda>c. on_io (writeu32 m) (raise_max m c)) c) (Inr ())
      (at_cl p_Add s mo (writing rs (out @ varuints [p_Add, m])))"
    by (rule yields_vignore [where m = "checkState p_Add", OF k])
       (use add_lit_ok [of s mo rs "out @ close_add p @ varuint (unat p_Add)" _ m] assms(2) in \<open>simp add: close_add_def\<close>)
  then show ?thesis using assms by (simp add: client_Add_def at_cl_def)
qed

lemma client_Adds_more: "at_cl p_Add s mo (writing rs out) c \<Longrightarrow>
   yields (client_Adds ms c) (Inr ()) (at_cl p_Add s mo (writing rs (out @ varuints ms)))"
proof (induction ms arbitrary: out c)
  case (Cons m ms)
  show ?case unfolding client_Adds.simps
    by (rule yields_vbind [where m = "client_Add m", OF client_Add_more [OF Cons.prems]])
       (use Cons.IH [of "out @ varuint (unat m)"] in simp)
qed simp

lemma client_Adds_ok:
  assumes "at_cl p s mo (writing rs out) c" and "p \<noteq> p_Add" and "ms \<noteq> []"
  shows "yields (client_Adds ms c) (Inr ()) (at_cl p_Add s mo (writing rs (out @ varuints (p_Add # ms))))"
proof -
  obtain m ms' where ms: "ms = m # ms'" using assms(3) by (cases ms) auto
  show ?thesis unfolding ms client_Adds.simps
    by (rule yields_vbind [where m = "client_Add m", OF client_Add_first [OF assms(1,2)]])
       (use client_Adds_more [of s mo rs "out @ varuints [p_Add, m]" _ ms'] in simp)
qed

lemma client_Assume_ok:
  assumes "at_cl p s mo (writing rs out) c" and "A \<noteq> []"
  shows "yields (client_Assume A c) (Inr ())
    (at_cl p_Assume s mo (at_rest rs (out @ close_add p @ varuints (p_Assume # A) @ [0])))"
proof -
  let ?o = "out @ close_add p @ varuint (unat p_Assume)"
  have k: "yields (checkState p_Assume c) (Inr ()) (at_cl p_Assume s mo (writing rs ?o))"
    by (rule check_send [OF assms(1)]) simp_all
  have "yields (vignore (checkState p_Assume) (vbind (on_io (vio_send A)) (\<lambda>_ c. on_io flush (fold raise_max A c))) c) (Inr ())
      (at_cl p_Assume s mo (at_rest rs (out @ close_add p @ varuints (p_Assume # A) @ [0])))"
  proof (rule yields_vignore [where m = "checkState p_Assume", OF k])
    fix c1 assume c1: "at_cl p_Assume s mo (writing rs ?o) c1"
    have w: "yields (on_io (vio_send A) c1) (Inr ()) (at_cl p_Assume s mo (writing rs (?o @ varuints A @ [0])))"
      by (rule on_io_ok [OF c1]) (rule send_ok)
    show "yields (vbind (on_io (vio_send A)) (\<lambda>_ c. on_io flush (fold raise_max A c)) c1) (Inr ())
        (at_cl p_Assume s mo (at_rest rs (out @ close_add p @ varuints (p_Assume # A) @ [0])))"
    proof (rule yields_vbind [where m = "on_io (vio_send A)", OF w])
      fix c2 assume "at_cl p_Assume s mo (writing rs (?o @ varuints A @ [0])) c2"
      then have "at_cl p_Assume s mo (writing rs (?o @ varuints A @ [0])) (fold raise_max A c2)" by (simp add: fold_raise_max_at)
      from on_io_ok [OF this flush_ok] show "yields (on_io flush (fold raise_max A c2)) (Inr ())
          (at_cl p_Assume s mo (at_rest rs (out @ close_add p @ varuints (p_Assume # A) @ [0])))" by simp
    qed
  qed
  then show ?thesis using assms(2) by (simp add: client_Assume_def)
qed

section \<open>Solving\<close>

lemma answer_neq: "answer 1 = p_Sat" "answer (-1) = p_Unsat" "p_Sat \<noteq> 0" "p_Unsat \<noteq> 0" "p_Unsat \<noteq> p_Sat"
    "p_Unknown \<notin> {0, p_Sat, p_Unsat, p_End}"
  by (simp_all add: answer_def proto_defs)

text \<open>Reading an answer that comes on its own.\<close>

lemma read_answer:
  assumes "at_cl p s mo (at_rest rs out) c" and "cut_of (varuint (unat d) # ms) rs"
  shows "\<exists>rs'. cut_of ms rs' \<and> yields (on_io readu32 c) (Inr d) (at_cl p s mo (at_rest rs' out))"
proof -
  obtain cs rs' where c: "concat cs = varuint (unat d)" "rs = plain_reads cs @ rs'" "cut_of ms rs'"
    using cut_of_Cons [OF assms(2)] by blast
  have "yields (readu32 v) (Inr d) (at_rest rs' out)" if "at_rest rs out v" for v
    using readu32_varuint [of rs' d "[]" out v] rest_reading [of cs rs' out v] that c by (auto intro: yields_mono reading_rest)
  then show ?thesis using on_io_ok [OF assms(1)] c(3) by blast
qed

lemma csolve_ok:
  assumes "at_cl p s mo (at_rest rs out) c" and "r \<in> {-1, 1}" and "k < n"
    and "cut_of (replicate k (varuint (unat p_Unknown)) @ varuint (unat (answer r)) # ms) rs"
  shows "yields (csolve_loop n False c) (Inr r)
    (at_cl p r mo (\<lambda>v. \<exists>rs. cut_of ms rs \<and> at_rest rs (out @ concat (replicate k (varuint (unat p_Continue)))) v))"
  using assms(1,3,4)
proof (induction k arbitrary: n rs out c)
  case 0
  obtain n1 where n: "n = Suc n1" using 0 by (cases n) auto
  obtain rs' where rs': "cut_of ms rs'" "yields (on_io readu32 c) (Inr (answer r)) (at_cl p s mo (at_rest rs' out))"
    using read_answer [OF 0(1), of "answer r" ms] 0(3) by auto
  show ?case unfolding n csolve_loop.simps
    by (rule yields_vbind [where m = "on_io readu32", OF rs'(2)])
       (use assms(2) rs'(1) answer_neq in \<open>auto simp: answered_def yields_def at_cl_def\<close>)
next
  case (Suc k)
  obtain n1 where n: "n = Suc n1" using Suc.prems by (cases n) auto
  let ?ms = "replicate k (varuint (unat p_Unknown)) @ varuint (unat (answer r)) # ms"
  obtain rs' where rs': "cut_of ?ms rs'" "yields (on_io readu32 c) (Inr p_Unknown) (at_cl p s mo (at_rest rs' out))"
    using read_answer [OF Suc.prems(1), of p_Unknown ?ms] Suc.prems(3) by auto
  let ?S = "at_cl p r mo (\<lambda>v. \<exists>rs. cut_of ms rs \<and> at_rest rs (out @ concat (replicate (Suc k) (varuint (unat p_Continue)))) v)"
  show ?case unfolding n csolve_loop.simps
  proof (rule yields_vbind [where m = "on_io readu32", OF rs'(2)])
    fix c1 assume c1: "at_cl p s mo (at_rest rs' out) c1"
    have w: "yields (on_io (writeflush p_Continue) c1) (Inr ()) (at_cl p s mo (at_rest rs' (out @ varuint (unat p_Continue))))"
      by (rule on_io_ok [OF c1]) (blast intro: writeflush_ok rest_writing)
    have "yields (vbind (on_io (writeflush p_Continue)) (\<lambda>_. csolve_loop n1 False) c1) (Inr r) ?S"
    proof (rule yields_vbind [where m = "on_io (writeflush p_Continue)", OF w])
      fix c2 assume "at_cl p s mo (at_rest rs' (out @ varuint (unat p_Continue))) c2"
      from Suc.IH [OF this _ rs'(1), of n1] show "yields (csolve_loop n1 False c2) (Inr r) ?S" using Suc.prems(2) n by simp
    qed
    moreover have e: "cl_cancel c1 = []" using c1 by (simp add: at_cl_def)
    then have "c1\<lparr>cl_cancel := []\<rparr> = c1" by (cases c1) simp
    ultimately have "yields (vbind (on_io (writeflush p_Continue)) (\<lambda>_. csolve_loop n1 False) (c1\<lparr>cl_cancel := []\<rparr>)) (Inr r) ?S"
      by (simp only:)
    then show "yields ((if p_Unknown = 0 then csolve_loop n1 False c1 else if p_Unknown = p_Sat then answered 1 c1
          else if p_Unknown = p_Unsat then answered (-1) c1 else if p_Unknown = p_End then answered 0 c1
          else if p_Unknown = p_Unknown
          then (if False then vfail (EProto ErrOutOfOrder) c1
                else case cl_cancel c1 of
                       True # cs \<Rightarrow> vbind (on_io (writeflush p_End)) (\<lambda>_. csolve_loop n1 True) (c1\<lparr>cl_cancel := cs\<rparr>)
                     | bs \<Rightarrow> vbind (on_io (writeflush p_Continue)) (\<lambda>_. csolve_loop n1 False) (c1\<lparr>cl_cancel := tl bs\<rparr>))
          else vfail (EProto (if MinProto \<le> p_Unknown then ErrUnknownOp else ErrNotOp)) c1)) (Inr r) ?S"
      using answer_neq(6) e by simp
  qed
qed

lemma client_Solve_ok:
  assumes "at_cl p s mo (writing rs out) c" and "r \<in> {-1, 1}"
    and "cut_of (replicate k (varuint (unat p_Unknown)) @ varuint (unat (answer r)) # ms) rs"
  shows "yields (client_Solve c) (Inr r)
    (at_cl p_Solve r mo (\<lambda>v. \<exists>rs. cut_of ms rs \<and>
       at_rest rs (out @ close_add p @ varuint (unat p_Solve) @ concat (replicate k (varuint (unat p_Continue)))) v))"
  unfolding client_Solve_def
proof (rule yields_vbind [where m = "checkState p_Solve", OF check_flush [OF assms(1)]])
  fix c1 assume c1: "at_cl p_Solve s mo (at_rest rs (out @ close_add p @ varuint (unat p_Solve))) c1"
  have l: "k \<le> length (concat (replicate k (varuint (unat d))))" for d :: u32
    using length_varuints [of "replicate k d"] by (simp add: map_replicate)
  have "vio_left (cl_io c1) = length (concat (map fst rs))" using c1 by (simp add: at_cl_def at_rest_def vio_left_def)
  then have "k < Suc (vio_left (cl_io c1))" using cut_of_bytes [OF assms(3)] l [of p_Unknown] by simp
  from csolve_ok [OF c1 assms(2) this assms(3)]
  show "yields (csolve_loop (Suc (vio_left (cl_io c1))) False c1) (Inr r)
      (at_cl p_Solve r mo (\<lambda>v. \<exists>rs. cut_of ms rs \<and>
         at_rest rs (out @ close_add p @ varuint (unat p_Solve) @ concat (replicate k (varuint (unat p_Continue)))) v))"
    by simp
qed simp

section \<open>Connecting, and what follows an answer\<close>

lemma read_words_ok: "reading rs (varuints ds @ rest) out v \<Longrightarrow> yields (read_words (length ds) v) (Inr ds) (reading rs rest out)"
proof (induction ds arbitrary: v)
  case (Cons d ds)
  have r: "yields (readu32 v) (Inr d) (reading rs (varuints ds @ rest) out)"
    using readu32_varuint [of rs d "varuints ds @ rest" out v] Cons.prems by simp
  show ?case unfolding list.size read_words.simps add_0_right add_Suc_right
  proof (rule yields_vbind [where m = readu32, OF r])
    fix v' assume "reading rs (varuints ds @ rest) out v'"
    show "yields (vbind (read_words (length ds)) (\<lambda>ds. vret (d # ds)) v') (Inr (d # ds)) (reading rs rest out)"
      by (rule yields_vbind [where m = "read_words (length ds)", OF Cons.IH [OF \<open>reading _ _ _ v'\<close>]]) simp
  qed
qed simp

lemma new_at_rest:
  assumes "cut_of ms rs"
  shows "at_rest rs [] (newVu32Io \<lparr>cn_reads = rs, cn_writes = [], cn_sent = []\<rparr>)"
  using assms by (auto simp: cut_of_def at_rest_def vio_ok_def newVu32Io_def conn_ok_def plain_reads_def)

lemma hello_length: "length hello_bytes = 5"
  by (simp add: hello_bytes_def)

lemma Dial_ok:
  assumes "cut_of (varuints (hello_bytes @ [crisp_V]) # ms) rs"
  shows "\<exists>c rs'. Dial \<lparr>cn_reads = rs, cn_writes = [], cn_sent = []\<rparr> = Some (Inr c) \<and> cut_of ms rs' \<and> at_cl p_Unknown 0 [] (at_rest rs' []) c"
proof -
  obtain cs rs' where c: "concat cs = varuints (hello_bytes @ [crisp_V])" "rs = plain_reads cs @ rs'" "cut_of ms rs'"
    using cut_of_Cons [OF assms] by blast
  let ?c0 = "\<lparr>cl_io = newVu32Io \<lparr>cn_reads = rs, cn_writes = [], cn_sent = []\<rparr>, cl_proto = p_Unknown, cl_lastSat = 0,
    cl_maxVar = 0, cl_exts = None, cl_model = [], cl_cancel = []\<rparr>"
  have "at_cl p_Unknown 0 [] (reading rs' (varuints hello_bytes @ varuint (unat crisp_V) @ []) []) ?c0"
    using rest_reading [of cs rs' "[]"] new_at_rest [OF assms] c by (simp add: at_cl_def)
  then have h: "yields (on_io (read_words (length hello_bytes)) ?c0) (Inr hello_bytes)
      (at_cl p_Unknown 0 [] (reading rs' (varuint (unat crisp_V) @ []) []))"
    by (rule on_io_ok) (rule read_words_ok)
  have "yields (client_Hello ?c0) (Inr ()) (at_cl p_Unknown 0 [] (at_rest rs' []))"
    unfolding client_Hello_def
  proof (rule yields_vbind [where m = "on_io (read_words 5)"])
    show "yields (on_io (read_words 5) ?c0) (Inr hello_bytes) (at_cl p_Unknown 0 [] (reading rs' (varuint (unat crisp_V) @ []) []))"
      using h unfolding hello_length .
    fix c1 assume "at_cl p_Unknown 0 [] (reading rs' (varuint (unat crisp_V) @ []) []) c1"
    then have "yields (on_io readu32 c1) (Inr crisp_V) (at_cl p_Unknown 0 [] (reading rs' [] []))"
      by (rule on_io_ok) (rule readu32_varuint)
    then have "yields (vbind (on_io readu32) (\<lambda>_. vret ()) c1) (Inr ()) (at_cl p_Unknown 0 [] (at_rest rs' []))"
      by (rule yields_vbind [where m = "on_io readu32"]) (auto intro: at_cl_mono reading_rest)
    then show "yields ((if map ucast hello_bytes \<noteq> (map ucast hello_bytes :: byte list) then vfail EMsg
        else vbind (on_io readu32) (\<lambda>_. vret ())) c1) (Inr ()) (at_cl p_Unknown 0 [] (at_rest rs' []))"
      by simp
  qed
  then show ?thesis using c(3) by (auto simp: Dial_def yields_def)
qed

text \<open>The values sent by the handler for a model with \<open>M\<close> variables.\<close>

definition model_answer :: "(nat \<Rightarrow> bool) \<Rightarrow> nat \<Rightarrow> byte list" where
  "model_answer val M = varuints (of_nat (word_count M) # truth_words (\<lambda>i. i < M \<and> val (i + 1)) 0 (word_count M))"

lemma client_Model_ok:
  assumes "at_cl p_Solve 1 mo (at_rest rs out) c" and "cut_of [model_answer val M] rs" and "M < 2 ^ 31"
  shows "\<exists>vs. yields (client_Model [] c) (Inr vs) (\<lambda>c. at_rest [] (out @ varuint (unat p_Model)) (cl_io c))
     \<and> length vs = 32 * word_count M + 1 \<and> (\<forall>i < M. vs ! (i + 1) = val (i + 1))"
proof -
  let ?n = "word_count M" and ?f = "\<lambda>i. i < M \<and> val (i + 1)" and ?o = "out @ varuint (unat p_Model)"
  obtain cs where cs: "concat cs = model_answer val M" "rs = plain_reads cs @ []"
    using cut_of_Cons [OF assms(2)] by auto
  have n: "?n < 2 ^ 27" and M: "M \<le> 32 * ?n" using assms(3) by (simp_all add: word_count_def)
  then have un: "unat (of_nat ?n :: u32) = ?n" by simp
  have u1: "unat (of_nat ?n * 32 :: u32) = 32 * ?n" using n by (simp add: unat_word_ariths un mult.commute)
  have cap: "unat (of_nat ?n * 32 + 1 :: u32) = 32 * ?n + 1" using n by (simp add: unat_word_ariths u1)
  have nm: "\<not> MinProto \<le> of_nat ?n" using n un by (simp add: word_le_nat_alt proto_defs)
  have s: "at_cl p_Solve 1 mo (writing rs out) c" using assms(1) by (rule at_cl_mono) (rule rest_writing)
  have k: "yields (checkState p_Model c) (Inr ()) (at_cl p_Model 1 mo (at_rest rs ?o))"
    using check_flush [OF s, of p_Model] by (simp add: close_add_def proto_defs)
  then obtain c1 where c1: "checkState p_Model c = Some (Inr (), c1)" "at_cl p_Model 1 mo (at_rest rs ?o) c1" by (auto simp: yields_def)
  have "at_cl p_Model 1 mo (reading [] (varuint (unat (of_nat ?n :: u32)) @ varuints (truth_words ?f 0 ?n) @ []) ?o) c1"
    using c1(2) cs rest_reading [of cs "[]" ?o] by (simp add: at_cl_def model_answer_def del: un)
  then have r: "yields (on_io readu32Data c1) (Inr (of_nat ?n)) (at_cl p_Model 1 mo (reading [] (varuints (truth_words ?f 0 ?n) @ []) ?o))"
  proof (rule on_io_ok)
    fix v assume "reading [] (varuint (unat (of_nat ?n :: u32)) @ varuints (truth_words ?f 0 ?n) @ []) ?o v"
    from readu32_varuint [OF this] show "yields (readu32Data v) (Inr (of_nat ?n)) (reading [] (varuints (truth_words ?f 0 ?n) @ []) ?o)"
      unfolding readu32Data_def by (rule yields_vbind [where m = readu32]) (simp add: nm)
  qed
  then obtain c2 where c2: "on_io readu32Data c1 = Some (Inr (of_nat ?n), c2)"
      "at_cl p_Model 1 mo (reading [] (varuints (truth_words ?f 0 ?n) @ []) ?o) c2" by (auto simp: yields_def)
  have "reading [] (varuints (truth_words ?f ((0 + 31) div 32) ?n) @ []) ?o (cl_io c2)" using c2(2) by (simp add: at_cl_def)
  from unpack_loop_ok [OF this, of 0 "replicate (32 * ?n + 1) False"] obtain vs v where
    v: "unpack_loop [0..<32 * ?n] 0 (replicate (32 * ?n + 1) False) (cl_io c2) = Some (Inr vs, v)" "reading [] [] ?o v"
       "length vs = 32 * ?n + 1" "\<forall>i < 32 * ?n. vs ! (i + 1) = ?f i"
    by (auto simp: yields_def)
  have "client_Model [] c = Some (Inr vs, c2\<lparr>cl_io := v, cl_model := vs\<rparr>)"
    using c1 c2(1) v(1) assms(1) unfolding client_Model_def
    by (simp add: at_cl_def vbind_def Let_def cap u1 on_io_def [of "unpack_loop _ _ _"])
  moreover have "at_rest [] ?o v" using v(2) by (rule reading_rest)
  ultimately show ?thesis using v(3,4) M by (auto simp: yields_def)
qed

lemma client_Value_ok:
  assumes "at_cl p_Solve 1 [] (at_rest rs out) c" and "cut_of [model_answer val M] rs" and "M < 2 ^ 31"
    and "1 \<le> unat (lit_Var m)" and "unat (lit_Var m) \<le> M"
  shows "\<exists>c'. client_Value m c = Some (Inr (if lit_IsPos m then val (unat (lit_Var m)) else \<not> val (unat (lit_Var m))), c')
     \<and> cn_sent (vio_rw (cl_io c')) = out @ varuint (unat p_Model)"
proof -
  obtain vs c1 where c1: "client_Model [] c = Some (Inr vs, c1)" "at_rest [] (out @ varuint (unat p_Model)) (cl_io c1)"
      "length vs = 32 * word_count M + 1" "\<forall>i < M. vs ! (i + 1) = val (i + 1)"
    using client_Model_ok [OF assms(1-3)] by (auto simp: yields_def)
  have M: "M \<le> 32 * word_count M" by (simp add: word_count_def)
  obtain i where i: "unat (lit_Var m) = i + 1" "i < M" using assms(4,5) by (cases "unat (lit_Var m)") auto
  have "cl_model c = []" using assms(1) by (simp add: at_cl_def)
  then show ?thesis
    using c1 i M by (auto simp: client_Value_def vbind_def at_rest_def)
qed

lemma client_Why_ok:
  assumes "at_cl p_Solve (-1) mo (at_rest rs out) c" and "cut_of [varuints fs @ [0]] rs" and "\<forall>m \<in> set fs. m \<noteq> 0 \<and> m < MinProto"
  shows "yields (client_Why [] c) (Inr fs) (\<lambda>c. at_rest [] (out @ varuint (unat p_Failed)) (cl_io c))"
proof -
  obtain cs where cs: "concat cs = varuints fs @ [0]" "rs = plain_reads cs @ []" using cut_of_Cons [OF assms(2)] by auto
  have s: "at_cl p_Solve (-1) mo (writing rs out) c" using assms(1) by (rule at_cl_mono) (rule rest_writing)
  have "yields (checkState p_Failed c) (Inr ()) (at_cl p_Failed (-1) mo (at_rest rs (out @ varuint (unat p_Failed))))"
    using check_flush [OF s, of p_Failed] by (simp add: close_add_def proto_defs)
  then obtain c1 where c1: "checkState p_Failed c = Some (Inr (), c1)" "at_cl p_Failed (-1) mo (at_rest rs (out @ varuint (unat p_Failed))) c1"
    by (auto simp: yields_def)
  have "yields (on_io (vio_recv []) c1) (Inr fs) (at_cl p_Failed (-1) mo (reading [] [] (out @ varuint (unat p_Failed))))"
  proof (rule on_io_ok [OF c1(2)])
    fix v assume "at_rest rs (out @ varuint (unat p_Failed)) v"
    then have "reading [] (varuints fs @ 0 # []) (out @ varuint (unat p_Failed)) v"
      using rest_reading [of cs "[]" _ v] cs by simp
    from recv_ok [OF assms(3) this, of "[]"] show "yields (vio_recv [] v) (Inr fs) (reading [] [] (out @ varuint (unat p_Failed)))" by simp
  qed
  then have "yields (client_Why [] c) (Inr fs) (at_cl p_Failed (-1) mo (reading [] [] (out @ varuint (unat p_Failed))))"
    using c1(1) assms(1) by (simp add: client_Why_def at_cl_def)
  then show ?thesis by (rule yields_mono) (simp add: at_cl_def reading_rest)
qed

section \<open>Solving over a connection\<close>

definition local_solve :: "'h floats \<Rightarrow> (nat \<Rightarrow> bool \<times> bool) \<Rightarrow> lit list \<Rightarrow> lit list \<Rightarrow> (int \<times> 'h gini) option" where
  "local_solve fl ctl ms A =
     do { g \<leftarrow> gini_New fl; g \<leftarrow> foldM (gini_Add fl) ms g; g \<leftarrow> foldM (\<lambda>m. gini_Assume fl [m]) A g; gini_Solve fl ctl g }"

definition client_session :: "lit list \<Rightarrow> lit list \<Rightarrow> (client, int) act" where
  "client_session ms A = vbind (client_Adds ms) (\<lambda>_. vbind (client_Assume A) (\<lambda>_. client_Solve))"

text \<open>The messages of the server when the result is there after \<open>k\<close> tests.\<close>

definition replies :: "nat \<Rightarrow> int \<Rightarrow> byte list \<Rightarrow> byte list list" where
  "replies k r ans =
     varuints (hello_bytes @ [crisp_V]) # replicate k (varuint (unat p_Unknown)) @ [varuint (unat (answer r)), ans]"

lemma client_session_ok:
  assumes "at_cl p s mo (at_rest rs out) c" and "p \<noteq> p_Add" and "r \<in> {-1, 1}" and "ms \<noteq> []"
    and "cut_of (replicate k (varuint (unat p_Unknown)) @ varuint (unat (answer r)) # as) rs"
  shows "yields (client_session ms A c) (Inr r)
    (at_cl p_Solve r mo (\<lambda>v. \<exists>rs. cut_of as rs \<and> at_rest rs (out @ first_request ms A @ concat (replicate k (varuint (unat p_Continue)))) v))"
proof -
  have w: "at_cl p s mo (writing rs out) c" using assms(1) by (rule at_cl_mono) (rule rest_writing)
  have u: "p_Assume \<noteq> p_Add" by (simp add: proto_defs)
  show ?thesis unfolding client_session_def
  proof (rule yields_vbind [where m = "client_Adds ms", OF client_Adds_ok [OF w assms(2,4)]])
    fix c1 assume c1: "at_cl p_Add s mo (writing rs (out @ varuints (p_Add # ms))) c1"
    show "yields (vbind (client_Assume A) (\<lambda>_. client_Solve) c1) (Inr r)
        (at_cl p_Solve r mo (\<lambda>v. \<exists>rs. cut_of as rs \<and> at_rest rs (out @ first_request ms A @ concat (replicate k (varuint (unat p_Continue)))) v))"
    proof (cases "A = []")
      case True
      then have "vbind (client_Assume A) (\<lambda>_. client_Solve) c1 = client_Solve c1" by (simp add: vbind_def client_Assume_def)
      then show ?thesis using client_Solve_ok [OF c1 assms(3,5)] True by (simp add: close_add_def first_request_def)
    next
      case False
      show ?thesis
      proof (rule yields_vbind [where m = "client_Assume A", OF client_Assume_ok [OF c1 False]])
        fix c2 assume "at_cl p_Assume s mo (at_rest rs ((out @ varuints (p_Add # ms)) @ close_add p_Add @ varuints (p_Assume # A) @ [0])) c2"
        then have c2: "at_cl p_Assume s mo (writing rs ((out @ varuints (p_Add # ms)) @ close_add p_Add @ varuints (p_Assume # A) @ [0])) c2"
          by (rule at_cl_mono) (rule rest_writing)
        show "yields (client_Solve c2) (Inr r)
            (at_cl p_Solve r mo (\<lambda>v. \<exists>rs. cut_of as rs \<and> at_rest rs (out @ first_request ms A @ concat (replicate k (varuint (unat p_Continue)))) v))"
          using client_Solve_ok [OF c2 assms(3,5)] False u by (simp add: close_add_def first_request_def)
      qed
    qed
  qed
qed

lemma serveConn_ok:
  assumes q: "\<And>rs out h. srv (solved g) (at_rest rs out) h \<Longrightarrow> yields (handle_op fl q h) (Inr ()) (srv (solved g') (at_rest rs (out @ ans)))"
    "q \<noteq> p_Quit" and r: "r \<in> {-1, 1}"
    and lits: "\<forall>m \<in> set ms. m < MinProto" "\<forall>m \<in> set A. m \<noteq> 0 \<and> m < MinProto"
    and local: "local_solve fl ctl ms A = Some (r, g)"
    and h: "h_ctl h = [ctl]" "h_ready h = replicate k False" "h_ms h = []"
    and cut: "cut_of (requests ms A k q) rs"
  shows "\<exists>h'. serveConn fl \<lparr>cn_reads = rs, cn_writes = [], cn_sent = []\<rparr> h = Some h'
     \<and> cn_sent (vio_rw (h_uio h')) = concat (replies k r ans)"
proof -
  let ?c = "\<lparr>cn_reads = rs, cn_writes = [], cn_sent = []\<rparr>"
  obtain g0 g1 g2 where l: "gini_New fl = Some g0" "foldM (gini_Add fl) ms g0 = Some g1"
      "foldM (\<lambda>m. gini_Assume fl [m]) A g1 = Some g2" "gini_Solve fl ctl g2 = Some (r, g)"
    using local by (auto simp: local_solve_def split: Option.bind_splits)
  let ?h0 = "h\<lparr>h_uio := newVu32Io ?c, h_gini := g0, h_proto := p_Unknown, h_pending := None, h_closed := False\<rparr>"
  let ?o = "varuints (hello_bytes @ [crisp_V])"
  have "at_srv (at_rest rs []) ?h0 ?h0" using new_at_rest [OF cut] by (simp add: at_srv_def)
  from Hello_ok [OF this] have hello: "yields (h_Hello ?h0) (Inr ()) (at_srv (at_rest rs ?o) ?h0)" by simp
  have "yields (handler_Crisp fl ?h0) (Inr ())
      (\<lambda>h. at_rest [] (?o @ concat (replicate k (varuint (unat p_Unknown))) @ varuint (unat (answer r)) @ ans) (h_uio h))"
    unfolding handler_Crisp_def
  proof (rule yields_vbind [where m = h_Hello, OF hello])
    fix h1 assume h1: "at_srv (at_rest rs ?o) ?h0 h1"
    have "length [p_Add, p_Solve] + k + 2 \<le> length (concat (requests ms A k q))"
    proof -
      have "k + 2 \<le> length (varuints (replicate k p_Continue @ [q, p_Quit]))"
        using length_varuints [of "replicate k p_Continue @ [q, p_Quit]"] by simp
      moreover have "2 \<le> length (first_request ms A)"
        using length_varuints [of "p_Add # ms @ [p_End]"] by (simp add: first_request_def)
      ultimately show ?thesis by (simp add: requests_def map_replicate)
    qed
    moreover have "vio_left (h_uio h1) = length (concat (requests ms A k q))"
      using at_srv_fields [OF h1] cut_of_bytes [OF cut] by (simp add: at_rest_def vio_left_def)
    ultimately have "k + 5 \<le> Suc (vio_left (h_uio h1))" by simp
    from session_ok [OF q r lits _ l(3,4) _ _ _ _ h1 cut this] l(2) h
    show "yields (crisp_loop fl (Suc (vio_left (h_uio h1))) h1) (Inr ())
        (\<lambda>h. at_rest [] (?o @ concat (replicate k (varuint (unat p_Unknown))) @ varuint (unat (answer r)) @ ans) (h_uio h))"
      by simp
  qed
  then obtain h' where "handler_Crisp fl ?h0 = Some (Inr (), h')"
      "at_rest [] (?o @ concat (replicate k (varuint (unat p_Unknown))) @ varuint (unat (answer r)) @ ans) (h_uio h')"
    by (auto simp: yields_def)
  then show ?thesis using l(1) by (simp add: serveConn_def h_cleanup_def at_rest_def replies_def)
qed

text \<open>What the server answers to the question for the model, or for the failed assumptions.\<close>

definition value_of :: "'h gini \<Rightarrow> nat \<Rightarrow> bool" where
  "value_of g v \<longleftrightarrow> gini_Value (var_Pos (of_nat v)) g = Some True"

definition has_values :: "'h gini \<Rightarrow> bool" where
  "has_values g \<longleftrightarrow> unat (gini_MaxVar g) < 2 ^ 31
     \<and> (\<forall>v \<in> {1..unat (gini_MaxVar g)}. gini_Value (var_Pos (of_nat v)) g \<noteq> None)"

text \<open>
  (C4) Solving over a CRISP connection is solving locally.  The client connects, adds clauses, makes assumptions and
  solves; the server may answer any number of times that it does not know yet.  Whatever a local solver answers to the
  same calls, the client returns, and if it then asks for values or failed assumptions it gets those of the
  local solver.  Each side sends exactly what the other side is given to read, however it is cut into reads
  between two changes of direction.
\<close>

theorem remote_is_local:
  fixes h :: "'h handler"
  assumes local: "local_solve fl ctl ms A = Some (r, g)"
    and r: "r = 1 \<and> has_values g \<and> ans = model_answer (value_of g) (unat (gini_MaxVar g)) \<and> q = p_Model
          \<or> r = -1 \<and> gini_Why [] g = Some (fs, g') \<and> (\<forall>m \<in> set fs. m \<noteq> 0 \<and> m < MinProto)
              \<and> ans = varuints fs @ [0] \<and> q = p_Failed"
    and lits: "ms \<noteq> []" "\<forall>m \<in> set ms. m < MinProto" "\<forall>m \<in> set A. m \<noteq> 0 \<and> m < MinProto"
    and h: "h_ctl h = [ctl]" "h_ready h = replicate k False" "h_ms h = []"
    and cut: "cut_of (requests ms A k q) rs" "cut_of (replies k r ans) rs'"
  shows "(\<exists>h'. serveConn fl \<lparr>cn_reads = rs, cn_writes = [], cn_sent = []\<rparr> h = Some h'
       \<and> cn_sent (vio_rw (h_uio h')) = concat (replies k r ans))
     \<and> (\<exists>c c1. Dial \<lparr>cn_reads = rs', cn_writes = [], cn_sent = []\<rparr> = Some (Inr c)
       \<and> client_session ms A c = Some (Inr r, c1)
       \<and> (r = 1 \<longrightarrow> (\<forall>m. 1 \<le> unat (lit_Var m) \<and> lit_Var m \<le> gini_MaxVar g \<longrightarrow>
            (\<exists>c2. client_Value m c1 = Some (Inr (value_of g (unat (lit_Var m)) = lit_IsPos m), c2)
                \<and> cn_sent (vio_rw (cl_io c2)) @ varuint (unat p_Quit) = concat (requests ms A k q))))
       \<and> (r = -1 \<longrightarrow> (\<exists>c2. client_Why [] c1 = Some (Inr fs, c2)
            \<and> cn_sent (vio_rw (cl_io c2)) @ varuint (unat p_Quit) = concat (requests ms A k q))))"
proof -
  have one: "r \<in> {-1, 1}" using r by auto
  have "\<exists>g''. \<forall>rs out (h :: 'h handler). srv (solved g) (at_rest rs out) h
      \<longrightarrow> yields (handle_op fl q h) (Inr ()) (srv (solved g'') (at_rest rs (out @ ans)))"
    using r
  proof (elim disjE conjE)
    assume v: "has_values g" and a: "ans = model_answer (value_of g) (unat (gini_MaxVar g))" "q = p_Model"
    have "gini_Value (var_Pos (of_nat v)) g = Some (value_of g v)" if "1 \<le> v" "v \<le> unat (gini_MaxVar g)" for v
      using v that unfolding has_values_def value_of_def by (cases "gini_Value (var_Pos (of_nat v)) g") fastforce+
    then show ?thesis
      using handleModel_ok [where val = "value_of g"] v unfolding a handle_op_Model model_answer_def has_values_def by blast
  next
    assume w: "gini_Why [] g = Some (fs, g')" and a: "ans = varuints fs @ [0]" "q = p_Failed"
    show ?thesis unfolding a handle_op_Failed using handleFailed_ok [OF _ w] by blast
  qed
  then obtain g'' where q: "\<And>rs out (h :: 'h handler). srv (solved g) (at_rest rs out) h
      \<Longrightarrow> yields (handle_op fl q h) (Inr ()) (srv (solved g'') (at_rest rs (out @ ans)))" by blast
  have "q \<noteq> p_Quit" using r op_not_quit by auto
  note server = serveConn_ok [OF q this one lits(2,3) local h cut(1)]
  obtain c rs1 where c: "Dial \<lparr>cn_reads = rs', cn_writes = [], cn_sent = []\<rparr> = Some (Inr c)"
      "cut_of (replicate k (varuint (unat p_Unknown)) @ [varuint (unat (answer r)), ans]) rs1" "at_cl p_Unknown 0 [] (at_rest rs1 []) c"
    using Dial_ok [OF cut(2) [unfolded replies_def]] by blast
  have u: "p_Unknown \<noteq> p_Add" by (simp add: proto_defs)
  let ?o = "first_request ms A @ concat (replicate k (varuint (unat p_Continue)))"
  obtain c1 rs2 where c1: "client_session ms A c = Some (Inr r, c1)" "cut_of [ans] rs2" "at_cl p_Solve r [] (at_rest rs2 ?o) c1"
    using client_session_ok [OF c(3) u one lits(1) c(2), of A] by (auto simp: yields_def at_cl_def)
  have sent: "?o @ varuint (unat q) @ varuint (unat p_Quit) = concat (requests ms A k q)" by (simp add: requests_def)
  have "\<exists>c2. client_Value m c1 = Some (Inr (value_of g (unat (lit_Var m)) = lit_IsPos m), c2)
      \<and> cn_sent (vio_rw (cl_io c2)) @ varuint (unat p_Quit) = concat (requests ms A k q)"
    if r1: "r = 1" and m: "1 \<le> unat (lit_Var m)" "lit_Var m \<le> gini_MaxVar g" for m
  proof -
    have a: "ans = model_answer (value_of g) (unat (gini_MaxVar g))" "q = p_Model" "unat (gini_MaxVar g) < 2 ^ 31"
      using r r1 by (auto simp: has_values_def)
    have "unat (lit_Var m) \<le> unat (gini_MaxVar g)" using m(2) by (simp add: word_le_nat_alt)
    from client_Value_ok [OF c1(3) [unfolded r1] c1(2) [unfolded a(1)] a(3) m(1) this] show ?thesis
      using sent a(2) by (auto split: if_splits)
  qed
  moreover have "\<exists>c2. client_Why [] c1 = Some (Inr fs, c2) \<and> cn_sent (vio_rw (cl_io c2)) @ varuint (unat p_Quit) = concat (requests ms A k q)"
    if r1: "r = -1"
  proof -
    have a: "ans = varuints fs @ [0]" "q = p_Failed" "\<forall>m \<in> set fs. m \<noteq> 0 \<and> m < MinProto" using r r1 by auto
    from client_Why_ok [OF c1(3) [unfolded r1] c1(2) [unfolded a(1)] a(3)] show ?thesis
      using sent a(2) by (auto simp: yields_def at_rest_def)
  qed
  ultimately show ?thesis using server c(1) c1(1) by blast
qed

section \<open>A session\<close>

abbreviation no_control :: "nat \<Rightarrow> bool \<times> bool" where
  "no_control \<equiv> \<lambda>k. (False, True)"

abbreviation conn_of :: "byte list list \<Rightarrow> conn" where
  "conn_of cs \<equiv> \<lparr>cn_reads = plain_reads cs, cn_writes = [], cn_sent = []\<rparr>"

definition new_handler :: "nat \<Rightarrow> 'h gini \<Rightarrow> 'h handler" where
  "new_handler k g = \<lparr>h_uio = newVu32Io (conn_of []), h_gini = g, h_proto = p_Unknown, h_ms = [], h_steps = 0,
     h_pending = None, h_ready = replicate k False, h_ctl = [no_control], h_closed = True\<rparr>"

lemma cut_whole: "[] \<notin> set ms \<Longrightarrow> cut_of ms (plain_reads ms)"
  unfolding cut_of_def by (rule exI [of _ "map (\<lambda>m. [m]) ms"]) (simp add: comp_def)

lemma local_run:
  "case local_solve int_floats no_control [2, 0] [] of
     Some (r, g) \<Rightarrow> r = 1 \<and> gini_MaxVar g = 1 \<and> gini_Value (var_Pos 1) g = Some True
   | None \<Rightarrow> False"
  by code_simp

theorem remote_is_local_witness:
  "\<exists>g h' c c1 c2. local_solve int_floats no_control [2, 0] [] = Some (1, g)
     \<and> serveConn int_floats (conn_of (requests [2, 0] [] 1 p_Model)) (new_handler 1 g) = Some h'
     \<and> Dial (conn_of (replies 1 1 (model_answer (value_of g) 1))) = Some (Inr c)
     \<and> client_session [2, 0] [] c = Some (Inr 1, c1)
     \<and> client_Value 3 c1 = Some (Inr False, c2)"
proof -
  let ?ms = "[2, 0] :: lit list"
  obtain g where g: "local_solve int_floats no_control ?ms [] = Some (1, g)" "gini_MaxVar g = 1"
      "gini_Value (var_Pos 1) g = Some True"
    using local_run by (auto split: option.splits)
  have v: "has_values g" using g(2,3) by (simp add: has_values_def)
  let ?ans = "model_answer (value_of g) 1"
  have r: "(1 :: int) = 1 \<and> has_values g \<and> ?ans = model_answer (value_of g) (unat (gini_MaxVar g)) \<and> p_Model = p_Model
      \<or> (1 :: int) = -1 \<and> gini_Why [] g = Some ([], g) \<and> (\<forall>m \<in> set []. m \<noteq> 0 \<and> m < MinProto) \<and> ?ans = varuints [] @ [0] \<and> p_Model = p_Failed"
    using v g(2) by simp
  have l: "?ms \<noteq> []" "\<forall>m \<in> set ?ms. m < MinProto" "\<forall>m \<in> set []. m \<noteq> 0 \<and> m < MinProto" by (simp_all add: proto_defs)
  have c1: "cut_of (requests ?ms [] 1 p_Model) (plain_reads (requests ?ms [] 1 p_Model))"
    by (rule cut_whole) (simp add: requests_def first_request_def)
  have c2: "cut_of (replies 1 1 ?ans) (plain_reads (replies 1 1 ?ans))"
    by (rule cut_whole) (simp add: replies_def model_answer_def hello_bytes_def)
  have val: "1 \<le> unat (lit_Var 3) \<and> lit_Var 3 \<le> gini_MaxVar g" "unat (lit_Var 3) = 1" "lit_IsPos 3 = False"
    using g(2) by (simp_all add: lit_Var_def lit_IsPos_def)
  have b: "value_of g 1 = True" using g(3) by (simp add: value_of_def)
  have h: "h_ctl (new_handler 1 g) = [no_control]" "h_ready (new_handler 1 g) = replicate 1 False" "h_ms (new_handler 1 g) = []"
    by (simp_all add: new_handler_def)
  note R = remote_is_local [OF g(1) r l h c1 c2]
  obtain h' where h': "serveConn int_floats (conn_of (requests ?ms [] 1 p_Model)) (new_handler 1 g) = Some h'"
    using R [THEN conjunct1] by blast
  obtain c c1 where c: "Dial (conn_of (replies 1 1 ?ans)) = Some (Inr c)" "client_session ?ms [] c = Some (Inr 1, c1)"
      and V: "\<forall>m. 1 \<le> unat (lit_Var m) \<and> lit_Var m \<le> gini_MaxVar g \<longrightarrow>
        (\<exists>c2. client_Value m c1 = Some (Inr (value_of g (unat (lit_Var m)) = lit_IsPos m), c2)
           \<and> cn_sent (vio_rw (cl_io c2)) @ varuint (unat p_Quit) = concat (requests ?ms [] 1 p_Model))"
    using R [THEN conjunct2] by auto
  obtain c2 where "client_Value 3 c1 = Some (Inr (value_of g (unat (lit_Var 3)) = lit_IsPos 3), c2)" using V val(1) by blast
  then show ?thesis using g(1) h' c val b by auto
qed

section \<open>Where the two sides fall short\<close>

text \<open>
  (C38) The client keeps the values of an old model.  Once it has asked for a model, it answers every later question for
  a value from that model without asking the server again, also after another solve that was answered by
  satisfiable, with clauses added in between.
\<close>

theorem client_keeps_old_model:
  assumes "at_cl p s vs (at_rest rs out) c" and "vs \<noteq> []" and "p \<noteq> p_Add" and "ms \<noteq> []"
    and "cut_of (replicate k (varuint (unat p_Unknown)) @ varuint (unat p_Sat) # as) rs"
  shows "\<exists>c'. client_session ms A c = Some (Inr 1, c')
     \<and> (\<forall>m. unat (lit_Var m) < length vs \<longrightarrow> client_Value m c' = Some (Inr (vs ! unat (lit_Var m) = lit_IsPos m), c'))"
proof -
  obtain c' where c': "client_session ms A c = Some (Inr 1, c')" "cl_model c' = vs"
    using client_session_ok [OF assms(1,3) _ assms(4), of 1 k as A] assms(5) by (auto simp: yields_def at_cl_def answer_neq)
  then have "client_Value m c' = Some (Inr (vs ! unat (lit_Var m) = lit_IsPos m), c')" if "unat (lit_Var m) < length vs" for m
    using that assms(2) by (auto simp: client_Value_def vbind_def)
  then show ?thesis using c'(1) by blast
qed

theorem client_keeps_old_model_witness:
  "\<exists>c'. client_session [3, 0] [] \<lparr>cl_io = newVu32Io (conn_of [varuint (unat p_Sat)]), cl_proto = p_Model, cl_lastSat = 1,
         cl_maxVar = 1, cl_exts = None, cl_model = [False, True], cl_cancel = []\<rparr> = Some (Inr 1, c')
     \<and> client_Value 2 c' = Some (Inr True, c')"
proof -
  let ?c = "\<lparr>cl_io = newVu32Io (conn_of [varuint (unat p_Sat)]), cl_proto = p_Model, cl_lastSat = 1,
         cl_maxVar = 1, cl_exts = None, cl_model = [False, True], cl_cancel = []\<rparr>"
  have cut: "cut_of (replicate 0 (varuint (unat p_Unknown)) @ varuint (unat p_Sat) # []) (plain_reads [varuint (unat p_Sat)])"
    using cut_whole [of "[varuint (unat p_Sat)]"] by simp
  then have "at_cl p_Model 1 [False, True] (at_rest (plain_reads [varuint (unat p_Sat)]) []) ?c"
    using new_at_rest by (simp add: at_cl_def)
  moreover have "p_Model \<noteq> p_Add" by (simp add: proto_defs)
  ultimately obtain c' where c': "client_session [3, 0] [] ?c = Some (Inr 1, c')" and
      V: "\<forall>m. unat (lit_Var m) < length [False, True] \<longrightarrow> client_Value m c' = Some (Inr ([False, True] ! unat (lit_Var m) = lit_IsPos m), c')"
    using client_keeps_old_model [OF _ _ _ _ cut, of p_Model 1 "[False, True]" "[]" ?c "[3, 0]" "[]"] by auto
  have "client_Value 2 c' = Some (Inr True, c')" using V [rule_format, of 2] by (simp add: lit_Var_def lit_IsPos_def)
  then show ?thesis using c' by blast
qed





text \<open>
  The sum that checks the room for an extension can wrap around.  Extensions are then installed over the points of
  the protocol itself: after one with 200 operations a second one with 100 is accepted, and its operation 55 is the
  request to send a key.
\<close>

theorem extensions_overlap:
  "case exts_Install 1 200 NewExts of
     (a, x) \<Rightarrow> (case exts_Install 2 100 x of (b, y) \<Rightarrow> a = Some 0 \<and> b = Some 1 \<and> exts_Op y 1 55 = Some p_Key)"
  by code_simp

text \<open>Addresses of sockets do not come back from printing with their mark.\<close>

lemma addr_String_ParseAddr: "addr_String (ParseAddr (CHR ''@'' # s)) = s" "addr_String (ParseAddr ''localhost:6060'') = ''localhost:6060''"
  by (simp_all add: addr_String_def)

end
