(* ===== verification/Gen.thy ===== *)
theory Gen
  imports Literals
begin

text \<open>
  Problem generators (\<^verbatim>\<open>gen/gen.go\<close>, \<^verbatim>\<open>pt.go\<close>, \<^verbatim>\<open>color.go\<close>, \<^verbatim>\<open>cubes.go\<close>).  A generator hands literals to an
  \<^verbatim>\<open>inter.Adder\<close>; here it is the list of the literals it adds.  Counts are natural numbers, since a
  negative count makes a Go loop run as often as zero does.  The source of random numbers is the list of the
  numbers it will draw.
\<close>

section \<open>Cycles, pigeons, partitions\<close>

definition BinCycle :: "nat \<Rightarrow> lit list" where
  "BinCycle n =
     (let N = n + 1
      in concat (map (\<lambda>i. let j = i + 1; j = (if j = N then 1 else j)
                          in [var_Pos (of_nat i), var_Neg (of_nat j), LitNull]) [1..<N]))"

definition PartVar :: "nat \<Rightarrow> nat \<Rightarrow> nat \<Rightarrow> lit" where
  "PartVar i k n = var_Pos (of_nat (k * n + i + 1))"

definition Php :: "nat \<Rightarrow> nat \<Rightarrow> lit list" where
  "Php P H =
     concat (map (\<lambda>i. concat (map (\<lambda>j. [PartVar i j P]) [0..<H]) @ [LitNull]) [0..<P])
     @ concat (map (\<lambda>i. concat (map (\<lambda>j. concat (map (\<lambda>h.
          [lit_Not (PartVar i h P), lit_Not (PartVar j h P), LitNull]) [0..<H])) [0..<i])) [0..<P])"

definition Partition :: "nat \<Rightarrow> nat \<Rightarrow> lit list" where
  "Partition n k =
     concat (map (\<lambda>i. concat (map (\<lambda>j. [PartVar i j n]) [0..<k]) @ [LitNull]) [0..<n])
     @ concat (map (\<lambda>i. concat (map (\<lambda>j. concat (map (\<lambda>h.
          [lit_Not (PartVar i j n), lit_Not (PartVar i h n), LitNull]) [0..<j])) [0..<k])) [0..<n])"

section \<open>Random clauses\<close>

text \<open>A number below \<open>n\<close>.  \<open>None\<close>: the source ends, or there is no such number, on which \<^verbatim>\<open>Intn\<close> panics.\<close>

type_synonym 'a draw = "nat list \<Rightarrow> ('a \<times> nat list) option"

definition rand_draw :: "nat \<Rightarrow> nat draw" where
  "rand_draw n ds = (case ds of [] \<Rightarrow> None | d # ds \<Rightarrow> if n = 0 then None else Some (d mod n, ds))"

text \<open>Drawing a literal, and drawing it again as long as its variable is taken.\<close>

definition rand_lit :: "nat \<Rightarrow> lit draw" where
  "rand_lit n ds = do { (d, ds) \<leftarrow> rand_draw (2 * n) ds; Some (of_nat (d + 2), ds) }"

fun redraw :: "nat \<Rightarrow> lit list \<Rightarrow> lit \<Rightarrow> lit draw" where
  "redraw n ms m ds =
     (if lit_Var m \<in> lit_Var ` set ms
      then (case ds of [] \<Rightarrow> None | d # ds' \<Rightarrow> if n = 0 then None else redraw n ms (of_nat (d mod (2 * n) + 2)) ds')
      else Some (m, ds))"

definition rand_clause :: "nat \<Rightarrow> lit list draw" where
  "rand_clause n ds =
     do { (a, ds) \<leftarrow> rand_lit n ds;
          (b, ds) \<leftarrow> rand_lit n ds; (b, ds) \<leftarrow> redraw n [a] b ds;
          (c, ds) \<leftarrow> rand_lit n ds; (c, ds) \<leftarrow> redraw n [a, b] c ds;
          Some ([a, b, c, LitNull], ds) }"

fun Rand3Cnf :: "nat \<Rightarrow> nat \<Rightarrow> lit list draw" where
  "Rand3Cnf n 0 ds = Some ([], ds)"
| "Rand3Cnf n (Suc m) ds =
     do { (c, ds) \<leftarrow> rand_clause n ds; (cs, ds) \<leftarrow> Rand3Cnf n m ds; Some (c @ cs, ds) }"

definition HardRand3Cnf :: "nat \<Rightarrow> lit list draw" where
  "HardRand3Cnf n = Rand3Cnf n (4 * n)"

section \<open>Pythagorean triples\<close>

record triple =
  t_a :: nat
  t_b :: nat
  t_c :: nat

text \<open>The table of squares grows as it is used; \<open>None\<close> stands for the result -1 of \<open>root\<close>.  The binary search
  of the sorted table finds the first square that is not below \<open>v\<close>.\<close>

function sq_get_loop :: "nat \<Rightarrow> nat list \<Rightarrow> nat list" where
  "sq_get_loop i t = (if length t \<le> i then sq_get_loop i (t @ [length t * length t]) else t)"
  by pat_completeness auto
termination by (relation "measure (\<lambda>(i, t). Suc i - length t)") auto

function sq_root_loop :: "nat \<Rightarrow> nat list \<Rightarrow> nat list" where
  "sq_root_loop v t = (if length t * length t < v then sq_root_loop v (t @ [length t * length t]) else t)"
  by pat_completeness auto
termination
proof (relation "measure (\<lambda>(v, t). v - length t)", goal_cases)
  case (2 v t)
  have "length t \<le> length t * length t" by (cases "length t") simp_all
  then have "length t < v" using 2 by linarith
  then show ?case by simp
qed simp

declare sq_get_loop.simps [simp del] sq_root_loop.simps [simp del]

definition sq_get :: "nat \<Rightarrow> nat list \<Rightarrow> nat \<times> nat list" where
  "sq_get i t = (let t = sq_get_loop i t in (t ! i, t))"

definition sq_root :: "nat \<Rightarrow> nat list \<Rightarrow> (nat option \<times> nat list) option" where
  "sq_root v t =
     (let t = sq_root_loop v t
      in do { l \<leftarrow> (if t = [] then None else Some (t ! (length t - 1)));
              if l = v then Some (Some (length t - 1), t)
              else let i = length (takeWhile (\<lambda>x. x < v) t)
                   in Some (if i < length t \<and> t ! i = v then Some i else None, t) })"

text \<open>The search goes through the pairs \<open>a < b\<close> row by row until \<open>n\<close> triples are found.\<close>

partial_function (option) pt_loop :: "nat \<Rightarrow> nat \<Rightarrow> nat \<Rightarrow> nat list \<Rightarrow> triple list \<Rightarrow> triple list option" where
  [code]: "pt_loop n ai bi t res =
     (if length res < n
      then let (a2, t) = sq_get ai t; (b2, t) = sq_get bi t
           in do { (r, t) \<leftarrow> sq_root (a2 + b2) t;
                   let res = (case r of None \<Rightarrow> res | Some ci \<Rightarrow> res @ [\<lparr>t_a = ai, t_b = bi, t_c = ci\<rparr>]);
                   if ai + 1 = bi then pt_loop n 1 (bi + 1) t res else pt_loop n (ai + 1) bi t res }
      else Some res)"

text \<open>The numbers that occur are numbered in increasing order.\<close>

definition pytriples :: "nat \<Rightarrow> ((nat \<Rightarrow> nat option) \<times> triple list) option" where
  "pytriples n =
     do { res \<leftarrow> pt_loop n 1 2 [] [];
          let ins = sort (remdups (concat (map (\<lambda>t. [t_a t, t_b t, t_c t]) res)));
          Some (map_of (zip ins [0..<length ins]), res) }"

definition PyTriples :: "nat \<Rightarrow> nat \<Rightarrow> lit list option" where
  "PyTriples n k =
     do { (_, ts) \<leftarrow> pytriples n;
          Some (Partition n k @ concat (map (\<lambda>t. concat (map (\<lambda>p.
            [lit_Not (PartVar (t_a t) p n), lit_Not (PartVar (t_b t) p n), lit_Not (PartVar (t_c t) p n), LitNull]) [0..<k])) ts)) }"

definition Py2Triples :: "nat \<Rightarrow> lit list option" where
  "Py2Triples n =
     do { (_, ts) \<leftarrow> pytriples n;
          Some (concat (map (\<lambda>t.
            let a = var_Pos (of_nat (t_a t)); b = var_Pos (of_nat (t_b t)); c = var_Pos (of_nat (t_c t))
            in [a, b, c, LitNull, lit_Not a, lit_Not b, lit_Not c, LitNull]) ts)) }"

definition triple_counts :: "triple list \<Rightarrow> nat list" where
  "triple_counts ts =
     foldl (\<lambda>res v. let res = (if length res \<le> v then res @ replicate (v + 1 - length res) 0 else res) in res[v := res ! v + 1])
       [] (concat (map (\<lambda>t. [t_a t, t_b t, t_c t]) ts))"

text \<open>One pass of the elimination: the triples that stay, and the counts.\<close>

fun elim_pass :: "triple list \<Rightarrow> int list \<Rightarrow> triple list \<times> int list" where
  "elim_pass [] cs = ([], cs)"
| "elim_pass (t # ts) cs =
     (if cs ! t_a t = 1 \<or> cs ! t_b t = 1 \<or> cs ! t_c t = 1
      then elim_pass ts (let cs = cs[t_a t := cs ! t_a t - 1]; cs = cs[t_b t := cs ! t_b t - 1] in cs[t_c t := cs ! t_c t - 1])
      else (let (us, cs) = elim_pass ts cs in (t # us, cs)))"

lemma elim_pass_length: "length (fst (elim_pass ts cs)) \<le> length ts"
  by (induction ts cs rule: elim_pass.induct) (auto split: prod.splits simp: Let_def intro: le_SucI)

function elim_loop :: "triple list \<Rightarrow> int list \<Rightarrow> triple list" where
  "elim_loop ts cs =
     (let (us, cs') = elim_pass ts cs in if length us = length ts then ts else elim_loop us cs')"
  by pat_completeness auto
termination
proof (relation "measure (\<lambda>(ts, cs). length ts)", goal_cases)
  case (2 ts cs x us cs')
  then have "us = fst (elim_pass ts cs)" by (metis fst_conv)
  then show ?case using 2 elim_pass_length [of ts cs] by (cases "elim_pass ts cs") auto
qed simp

definition ptElim :: "triple list \<Rightarrow> triple list" where
  "ptElim ts = elim_loop ts (map int (triple_counts ts))"

section \<open>Random graphs and colourings\<close>

text \<open>Drawing \<open>m\<close> of the pairs without putting them back.\<close>

fun draw_edges :: "nat \<Rightarrow> (nat \<times> nat) list \<Rightarrow> nat list list \<Rightarrow> nat list list draw" where
  "draw_edges 0 es ns ds = Some (ns, ds)"
| "draw_edges (Suc m) es ns ds =
     do { (j, ds) \<leftarrow> rand_draw (length es) ds;
          let (a, b) = es ! j;
          let el = length es - 1;
          draw_edges m (take el (es[j := es ! el])) (ns[a := ns ! a @ [b]]) ds }"

definition add_back :: "nat \<Rightarrow> nat list list \<Rightarrow> nat list list" where
  "add_back i ns = foldl (\<lambda>ns j. ns[j := ns ! j @ [i]]) ns (ns ! i)"

definition RandGraph :: "nat \<Rightarrow> nat \<Rightarrow> nat list list draw" where
  "RandGraph n m ds =
     (if m > n * (n - 1) div 2 then Some ([], ds)
      else do { (ns, ds) \<leftarrow> draw_edges m (concat (map (\<lambda>i. map (\<lambda>j. (i, j)) [0..<i]) [0..<n])) (replicate n []) ds;
                Some (fold add_back [0..<n] ns, ds) })"

definition mkVar :: "nat \<Rightarrow> nat \<Rightarrow> var" where
  "mkVar n c = of_nat (n * c + c + 1)"

definition RandColor :: "nat \<Rightarrow> nat \<Rightarrow> nat \<Rightarrow> lit list draw" where
  "RandColor n m k ds =
     do { (g, ds) \<leftarrow> RandGraph n m ds;
          Some (concat (map (\<lambda>i. map (\<lambda>j. var_Pos (mkVar i j)) [0..<k] @ [LitNull]) [0..<length g])
            @ concat (map (\<lambda>a. concat (map (\<lambda>b.
                if b \<ge> a then [] else concat (map (\<lambda>c. [var_Neg (mkVar a c), var_Neg (mkVar b c)]) [0..<k]) @ [LitNull])
                (g ! a))) [0..<length g]), ds) }"

section \<open>Random cubes\<close>

record cubes =
  cu_minSize :: nat
  cu_maxSize :: nat
  cu_maxVar :: nat

definition NewRandCuber :: "nat \<Rightarrow> nat \<Rightarrow> cubes" where
  "NewRandCuber maxSize maxVar = \<lparr>cu_minSize = 1, cu_maxSize = maxSize, cu_maxVar = maxVar\<rparr>"

definition SetMinSize :: "nat \<Rightarrow> cubes \<Rightarrow> cubes" where
  "SetMinSize s c = c\<lparr>cu_minSize := s\<rparr>"

definition SetMaxSize :: "nat \<Rightarrow> cubes \<Rightarrow> cubes" where
  "SetMaxSize s c = c\<lparr>cu_maxSize := s\<rparr>"

fun cube_loop :: "nat \<Rightarrow> nat \<Rightarrow> lit list \<Rightarrow> lit list draw" where
  "cube_loop mv 0 dst ds = Some (dst, ds)"
| "cube_loop mv (Suc k) dst ds =
     do { (v, ds) \<leftarrow> rand_draw mv ds; (b, ds) \<leftarrow> rand_draw 2 ds;
          let m = of_nat ((v + 1) * 2 + b);
          cube_loop mv k (if lit_Var m \<in> lit_Var ` set dst then dst else dst @ [m]) ds }"

definition RandCube :: "cubes \<Rightarrow> lit list draw" where
  "RandCube c ds =
     do { (x, ds) \<leftarrow> rand_draw (cu_maxSize c + 1 - cu_minSize c) ds;
          cube_loop (cu_maxVar c) (cu_minSize c + x) [] ds }"

end
