(* ===== verification/GenProps.thy ===== *)
theory GenProps
  imports Gen
begin

text \<open>
  What the generated problems say: pigeons, partitions, random graphs, and why the colouring problem and the triples
  are not the ones they are documented to be.
\<close>

section \<open>Literals of the generators\<close>

lemma of_nat_var: "v < 2 ^ 31 \<Longrightarrow> unat (of_nat v :: u32) = v"
  by (rule unat_of_nat32) simp

lemma PartVar_lit:
  assumes "k * n + i + 1 < 2 ^ 31"
  shows "unat (lit_Var (PartVar i k n)) = k * n + i + 1" and "lit_IsPos (PartVar i k n)"
proof -
  have u: "unat (of_nat (k * n + i + 1) :: u32) = k * n + i + 1" by (rule of_nat_var [OF assms])
  then have b: "unat (of_nat (k * n + i + 1) :: u32) < 2 ^ 31" using assms by simp
  show "unat (lit_Var (PartVar i k n)) = k * n + i + 1" unfolding PartVar_def lit_Var_Pos [OF b] by (rule u)
  show "lit_IsPos (PartVar i k n)" unfolding PartVar_def by (rule lit_IsPos_Pos [OF b])
qed

lemma PartVar_bound:
  fixes i k n m :: nat
  assumes "i < n" and "k < m" and "n * m < 2 ^ 31"
  shows "k * n + i + 1 < 2 ^ 31"
proof -
  have "(k + 1) * n \<le> m * n" by (rule mult_le_mono1) (use assms(2) in simp)
  then show ?thesis using assms(1,3) by (simp add: mult.commute)
qed

lemma PartVar_not_null: "k * n + i + 1 < 2 ^ 31 \<Longrightarrow> LitNull \<noteq> PartVar i k n \<and> LitNull \<noteq> lit_Not (PartVar i k n)"
proof -
  assume b: "k * n + i + 1 < 2 ^ 31"
  have "lit_Var (PartVar i k n) \<noteq> 0" using PartVar_lit(1) [OF b] by (metis unat_0 add_is_0 one_neq_zero)
  then show ?thesis using lit_Var_Not [of "PartVar i k n"] by (metis LitNull_def lit_Var_0_iff)
qed

text \<open>Element \<open>i\<close> is in part \<open>k\<close> of \<open>n\<close> elements.\<close>

definition in_part :: "assignment \<Rightarrow> nat \<Rightarrow> nat \<Rightarrow> nat \<Rightarrow> bool" where
  "in_part \<sigma> n i k \<longleftrightarrow> lit_true \<sigma> (PartVar i k n)"

text \<open>Every choice of parts is made by an assignment.\<close>

definition part_assignment :: "nat \<Rightarrow> (nat \<Rightarrow> nat \<Rightarrow> bool) \<Rightarrow> assignment" where
  "part_assignment n R v \<longleftrightarrow> R ((unat v - 1) mod n) ((unat v - 1) div n)"

lemma in_part_assignment:
  assumes "i < n" and "k * n + i + 1 < 2 ^ 31"
  shows "in_part (part_assignment n R) n i k \<longleftrightarrow> R i k"
  using assms PartVar_lit [OF assms(2)] by (simp add: in_part_def lit_true_def part_assignment_def)

section \<open>Pigeons\<close>

definition php_clauses :: "nat \<Rightarrow> nat \<Rightarrow> lit list list" where
  "php_clauses P H =
     map (\<lambda>i. map (\<lambda>j. PartVar i j P) [0..<H]) [0..<P]
     @ concat (map (\<lambda>i. concat (map (\<lambda>j. map (\<lambda>h. [lit_Not (PartVar i h P), lit_Not (PartVar j h P)]) [0..<H]) [0..<i])) [0..<P])"

lemma Php_stream: "Php P H = cnf_stream (php_clauses P H)"
proof -
  have s: "concat (map (\<lambda>j. [f j]) xs) = map f xs" for f :: "nat \<Rightarrow> lit" and xs by (induction xs) simp_all
  have t: "cnf_stream (map (\<lambda>h. [f h, g h]) xs) = concat (map (\<lambda>h. [f h, g h, LitNull]) xs)" for f g :: "nat \<Rightarrow> lit" and xs
    by (induction xs) simp_all
  show ?thesis
    by (simp add: Php_def php_clauses_def cnf_stream_concat comp_def s t) (simp add: cnf_stream_def comp_def)
qed

lemma php_no_null:
  assumes "P * H < 2 ^ 31"
  shows "\<forall>c \<in> set (php_clauses P H). LitNull \<notin> set c"
proof -
  have "LitNull \<noteq> PartVar i h P \<and> LitNull \<noteq> lit_Not (PartVar i h P)" if "i < P" "h < H" for i h
    by (rule PartVar_not_null [OF PartVar_bound [OF that assms]])
  then show ?thesis by (auto simp: php_clauses_def)
qed

text \<open>What lists of clauses made by nested loops say.\<close>

lemma true_append: "cnf_true \<sigma> (cs @ ds) \<longleftrightarrow> cnf_true \<sigma> cs \<and> cnf_true \<sigma> ds"
  by (auto simp: cnf_true_def)

lemma true_concat: "cnf_true \<sigma> (concat (map f xs)) \<longleftrightarrow> (\<forall>x \<in> set xs. cnf_true \<sigma> (f x))"
  by (auto simp: cnf_true_def)

lemma true_pairs:
  "cnf_true \<sigma> (map (\<lambda>h. [lit_Not (f h), lit_Not (g h)]) xs) \<longleftrightarrow> (\<forall>h \<in> set xs. \<not> (lit_true \<sigma> (f h) \<and> lit_true \<sigma> (g h)))"
  by (auto simp: cnf_true_def clause_true_def)

lemma each_somewhere:
  "cnf_true \<sigma> (map (\<lambda>i. map (\<lambda>j. PartVar i j n) [0..<k]) [0..<n]) \<longleftrightarrow> (\<forall>i < n. \<exists>h < k. in_part \<sigma> n i h)"
  by (simp add: cnf_true_def clause_true_def in_part_def atLeast0LessThan lessThan_def)

lemma php_true:
  "cnf_true \<sigma> (php_clauses P H) \<longleftrightarrow>
     (\<forall>i < P. \<exists>h < H. in_part \<sigma> P i h) \<and> (\<forall>i < P. \<forall>j < i. \<forall>h < H. \<not> (in_part \<sigma> P i h \<and> in_part \<sigma> P j h))"
proof -
  have "cnf_true \<sigma> (map (\<lambda>i. map (\<lambda>j. PartVar i j P) [0..<H]) [0..<P]) \<longleftrightarrow> (\<forall>i < P. \<exists>h < H. in_part \<sigma> P i h)"
    by (rule each_somewhere)
  moreover have "cnf_true \<sigma> (concat (map (\<lambda>i. concat (map (\<lambda>j. map (\<lambda>h. [lit_Not (PartVar i h P), lit_Not (PartVar j h P)])
      [0..<H]) [0..<i])) [0..<P])) \<longleftrightarrow> (\<forall>i < P. \<forall>j < i. \<forall>h < H. \<not> (in_part \<sigma> P i h \<and> in_part \<sigma> P j h))"
    by (simp add: true_concat true_pairs in_part_def Ball_def)
  ultimately show ?thesis by (simp add: php_clauses_def true_append)
qed

text \<open>
  (C34) The pigeon hole problem says what it should: it has a model exactly if there are at least as many holes as
  pigeons.
\<close>

theorem Php_satisfiable:
  assumes "P * H < 2 ^ 31"
  shows "(\<exists>\<sigma>. cnf_true \<sigma> (stream_cnf (Php P H))) \<longleftrightarrow> P \<le> H"
proof -
  have c: "stream_cnf (Php P H) = php_clauses P H"
    using stream_cnf_cnf_stream [OF php_no_null [OF assms]] by (simp add: stream_cnf_def Php_stream)
  show ?thesis unfolding c php_true
  proof
    assume "\<exists>\<sigma>. (\<forall>i < P. \<exists>h < H. in_part \<sigma> P i h) \<and> (\<forall>i < P. \<forall>j < i. \<forall>h < H. \<not> (in_part \<sigma> P i h \<and> in_part \<sigma> P j h))"
    then obtain \<sigma> f where f: "\<And>i. i < P \<Longrightarrow> f i < H \<and> in_part \<sigma> P i (f i)"
      and ex: "\<And>i j h. i < P \<Longrightarrow> j < i \<Longrightarrow> h < H \<Longrightarrow> \<not> (in_part \<sigma> P i h \<and> in_part \<sigma> P j h)"
      by metis
    have "inj_on f {0..<P}"
    proof (rule linorder_inj_onI)
      fix i j assume "i < j" "i \<in> {0..<P}" "j \<in> {0..<P}"
      then show "f i \<noteq> f j" using ex [of j i "f j"] f [of i] f [of j] by auto
    qed auto
    moreover have "f ` {0..<P} \<subseteq> {0..<H}" using f by auto
    ultimately show "P \<le> H" using card_inj_on_le [of f "{0..<P}" "{0..<H}"] by simp
  next
    assume le: "P \<le> H"
    let ?s = "part_assignment P (\<lambda>i h. i = h)"
    have b: "in_part ?s P i h \<longleftrightarrow> i = h" if "i < P" "h < H" for i h
      using in_part_assignment [OF that(1) PartVar_bound [OF that assms]] by simp
    show "\<exists>\<sigma>. (\<forall>i < P. \<exists>h < H. in_part \<sigma> P i h) \<and> (\<forall>i < P. \<forall>j < i. \<forall>h < H. \<not> (in_part \<sigma> P i h \<and> in_part \<sigma> P j h))"
    proof (intro exI [of _ ?s] conjI allI impI)
      fix i assume "i < P"
      then show "\<exists>h < H. in_part ?s P i h" using b [of i i] le by (intro exI [of _ i]) simp
    next
      fix i j h assume "i < P" "j < i" "h < H"
      then show "\<not> (in_part ?s P i h \<and> in_part ?s P j h)" using b [of i h] b [of j h] by simp
    qed
  qed
qed

theorem Php_satisfiable_witness:
  "(\<exists>\<sigma>. cnf_true \<sigma> (stream_cnf (Php 3 4))) \<and> \<not> (\<exists>\<sigma>. cnf_true \<sigma> (stream_cnf (Php 4 3)))"
  using Php_satisfiable [of 3 4] Php_satisfiable [of 4 3] by simp

section \<open>Partitions\<close>

definition partition_clauses :: "nat \<Rightarrow> nat \<Rightarrow> lit list list" where
  "partition_clauses n k =
     map (\<lambda>i. map (\<lambda>j. PartVar i j n) [0..<k]) [0..<n]
     @ concat (map (\<lambda>i. concat (map (\<lambda>j. map (\<lambda>h. [lit_Not (PartVar i j n), lit_Not (PartVar i h n)]) [0..<j]) [0..<k])) [0..<n])"

lemma Partition_stream: "Partition n k = cnf_stream (partition_clauses n k)"
proof -
  have s: "concat (map (\<lambda>j. [f j]) xs) = map f xs" for f :: "nat \<Rightarrow> lit" and xs by (induction xs) simp_all
  have t: "cnf_stream (map (\<lambda>h. [f h, g h]) xs) = concat (map (\<lambda>h. [f h, g h, LitNull]) xs)" for f g :: "nat \<Rightarrow> lit" and xs
    by (induction xs) simp_all
  show ?thesis
    by (simp add: Partition_def partition_clauses_def cnf_stream_concat comp_def s t) (simp add: cnf_stream_def comp_def)
qed

lemma partition_no_null:
  assumes "n * k < 2 ^ 31"
  shows "\<forall>c \<in> set (partition_clauses n k). LitNull \<notin> set c"
proof -
  have "LitNull \<noteq> PartVar i h n \<and> LitNull \<noteq> lit_Not (PartVar i h n)" if "i < n" "h < k" for i h
    by (rule PartVar_not_null [OF PartVar_bound [OF that assms]])
  then show ?thesis by (auto simp: partition_clauses_def)
qed

text \<open>
  The models of the partition problem are the partitions: a model puts every element into exactly one part, and
  every function from elements to parts is the one of some model.
\<close>

theorem Partition_models:
  assumes "n * k < 2 ^ 31"
  shows "(\<forall>\<sigma>. cnf_true \<sigma> (stream_cnf (Partition n k)) \<longleftrightarrow> (\<forall>i < n. \<exists>!j. j < k \<and> in_part \<sigma> n i j))
     \<and> (\<forall>f. (\<forall>i < n. f i < k) \<longrightarrow> (\<exists>\<sigma>. cnf_true \<sigma> (stream_cnf (Partition n k)) \<and> (\<forall>i < n. \<forall>j < k. in_part \<sigma> n i j \<longleftrightarrow> f i = j)))"
proof -
  have c: "stream_cnf (Partition n k) = partition_clauses n k"
    using stream_cnf_cnf_stream [OF partition_no_null [OF assms]] by (simp add: stream_cnf_def Partition_stream)
  have t: "cnf_true \<sigma> (partition_clauses n k) \<longleftrightarrow>
      (\<forall>i < n. \<exists>h < k. in_part \<sigma> n i h) \<and> (\<forall>i < n. \<forall>j < k. \<forall>h < j. \<not> (in_part \<sigma> n i j \<and> in_part \<sigma> n i h))" for \<sigma>
  proof -
    have "cnf_true \<sigma> (concat (map (\<lambda>i. concat (map (\<lambda>j. map (\<lambda>h. [lit_Not (PartVar i j n), lit_Not (PartVar i h n)])
        [0..<j]) [0..<k])) [0..<n])) \<longleftrightarrow> (\<forall>i < n. \<forall>j < k. \<forall>h < j. \<not> (in_part \<sigma> n i j \<and> in_part \<sigma> n i h))"
      by (auto simp: true_concat true_pairs in_part_def)
    then show ?thesis by (simp add: partition_clauses_def true_append each_somewhere)
  qed
  have e: "cnf_true \<sigma> (partition_clauses n k) \<longleftrightarrow> (\<forall>i < n. \<exists>!j. j < k \<and> in_part \<sigma> n i j)" for \<sigma>
  proof (unfold t, intro iffI conjI allI impI)
    fix i assume "(\<forall>i < n. \<exists>h < k. in_part \<sigma> n i h) \<and> (\<forall>i < n. \<forall>j < k. \<forall>h < j. \<not> (in_part \<sigma> n i j \<and> in_part \<sigma> n i h))" "i < n"
    then show "\<exists>!j. j < k \<and> in_part \<sigma> n i j" by (metis linorder_less_linear)
  next
    fix i assume "\<forall>i < n. \<exists>!j. j < k \<and> in_part \<sigma> n i j" "i < n"
    then show "\<exists>h < k. in_part \<sigma> n i h" by blast
  next
    fix i j h assume u: "\<forall>i < n. \<exists>!j. j < k \<and> in_part \<sigma> n i j" "i < n" and "j < k" "h < j"
    moreover from u have "\<exists>!j. j < k \<and> in_part \<sigma> n i j" by blast
    ultimately show "\<not> (in_part \<sigma> n i j \<and> in_part \<sigma> n i h)" by (metis less_irrefl less_trans)
  qed
  have "\<exists>\<sigma>. cnf_true \<sigma> (partition_clauses n k) \<and> (\<forall>i < n. \<forall>j < k. in_part \<sigma> n i j \<longleftrightarrow> f i = j)" if f: "\<forall>i < n. f i < k" for f
  proof -
    let ?s = "part_assignment n (\<lambda>i h. f i = h)"
    have b: "in_part ?s n i h \<longleftrightarrow> f i = h" if "i < n" "h < k" for i h
      using in_part_assignment [OF that(1) PartVar_bound [OF that assms]] by simp
    then show ?thesis using f unfolding e by (intro exI [of _ ?s]) fastforce
  qed
  then show ?thesis unfolding c using e by blast
qed

theorem Partition_models_witness:
  "\<exists>\<sigma>. cnf_true \<sigma> (stream_cnf (Partition 3 2)) \<and> in_part \<sigma> 3 0 0 \<and> in_part \<sigma> 3 1 1 \<and> in_part \<sigma> 3 2 0 \<and> \<not> in_part \<sigma> 3 2 1"
proof -
  let ?f = "\<lambda>i :: nat. i mod 2"
  obtain \<sigma> where s: "cnf_true \<sigma> (stream_cnf (Partition 3 2))" "\<forall>i < 3. \<forall>j < 2. in_part \<sigma> 3 i j \<longleftrightarrow> ?f i = j"
    using Partition_models [of 3 2] by (auto dest!: spec [of _ ?f])
  show ?thesis using s by (intro exI [of _ \<sigma>]) simp
qed

section \<open>Random graphs\<close>

text \<open>Taking one element out of a list by moving the final one to its place.\<close>

lemma swap_remove:
  assumes "distinct es" and "j < length es"
  shows "distinct (take (length es - 1) (es[j := es ! (length es - 1)]))"
    and "set (take (length es - 1) (es[j := es ! (length es - 1)])) = set es - {es ! j}"
proof -
  obtain xs x where e: "es = xs @ [x]" using assms(2) by (cases es rule: rev_cases) auto
  have "distinct (take (length es - 1) (es[j := es ! (length es - 1)]))
      \<and> set (take (length es - 1) (es[j := es ! (length es - 1)])) = set es - {es ! j}"
  proof (cases "j < length xs")
    case True
    then have "xs ! j \<noteq> x" using assms(1) nth_mem [OF True] by (auto simp: e)
    then show ?thesis
      using assms(1) True by (auto simp: e list_update_append nth_append set_update_distinct intro: distinct_list_update)
  next
    case False
    then have "j = length xs" using assms(2) by (simp add: e)
    then show ?thesis using assms(1) by (simp add: e)
  qed
  then show "distinct (take (length es - 1) (es[j := es ! (length es - 1)]))"
    and "set (take (length es - 1) (es[j := es ! (length es - 1)])) = set es - {es ! j}" by auto
qed

text \<open>While edges are drawn: those drawn are at their greater end, and none of them is left to be drawn.\<close>

definition drawing :: "nat \<Rightarrow> (nat \<times> nat) list \<Rightarrow> nat list list \<Rightarrow> bool" where
  "drawing n es ns \<longleftrightarrow> length ns = n \<and> distinct es \<and> (\<forall>(a, b) \<in> set es. b < a \<and> a < n)
     \<and> (\<forall>a < n. distinct (ns ! a) \<and> (\<forall>b \<in> set (ns ! a). b < a \<and> (a, b) \<notin> set es))"

lemma drawing_step:
  assumes d: "drawing n es ns" and j: "j < length es" and e: "es ! j = (a, b)"
  shows "drawing n (take (length es - 1) (es[j := es ! (length es - 1)])) (ns[a := ns ! a @ [b]])"
    and "a < length ns"
proof -
  have m: "(a, b) \<in> set es" using nth_mem [OF j] e by simp
  then show a: "a < length ns" using d by (auto simp: drawing_def)
  note s = swap_remove [OF _ j]
  show "drawing n (take (length es - 1) (es[j := es ! (length es - 1)])) (ns[a := ns ! a @ [b]])"
    using d m a s by (auto simp: drawing_def nth_list_update e)
qed

lemma sum_list_grow: "a < length ns \<Longrightarrow> sum_list (map length (ns[a := ns ! a @ [b]])) = Suc (sum_list (map length ns))" for ns :: "'a list list"
  by (induction ns arbitrary: a) (auto split: nat.splits)

lemma draw_edges_ok:
  assumes "drawing n es ns" and "m \<le> length es" and "m \<le> length ds"
  shows "\<exists>ns'. draw_edges m es ns ds = Some (ns', drop m ds) \<and> (\<exists>es'. drawing n es' ns')
           \<and> sum_list (map length ns') = sum_list (map length ns) + m"
  using assms
proof (induction m arbitrary: es ns ds)
  case 0
  then show ?case by auto
next
  case (Suc m)
  obtain d ds' where ds: "ds = d # ds'" using Suc.prems(3) by (cases ds) auto
  have j: "d mod length es < length es" using Suc.prems(2) by (intro mod_less_divisor) linarith
  obtain a b where e: "es ! (d mod length es) = (a, b)" by (cases "es ! (d mod length es)")
  note st = drawing_step [OF Suc.prems(1) j e]
  have "m \<le> length (take (length es - 1) (es[d mod length es := es ! (length es - 1)]))" "m \<le> length ds'"
    using Suc.prems(2,3) by (simp_all add: ds)
  from Suc.IH [OF st(1) this] show ?case
    using Suc.prems(2) by (auto simp: rand_draw_def ds e sum_list_grow [OF st(2)] simp del: take_update_swap)
qed

text \<open>Every edge is put back at its other end.\<close>

lemma foldl_add_back:
  assumes "distinct js" and "\<forall>j \<in> set js. j < length ns"
  shows "length (foldl (\<lambda>ns j. ns[j := ns ! j @ [i]]) ns js) = length ns
       \<and> (\<forall>x < length ns. foldl (\<lambda>ns j. ns[j := ns ! j @ [i]]) ns js ! x = (if x \<in> set js then ns ! x @ [i] else ns ! x))"
  using assms by (induction js arbitrary: ns) (auto simp: nth_list_update)

lemma fold_add_back:
  assumes ns: "length ns = n" "\<And>a. a < n \<Longrightarrow> distinct (ns ! a) \<and> (\<forall>b \<in> set (ns ! a). b < a)" and "i \<le> n"
  shows "length (fold add_back [0..<i] ns) = n
       \<and> (\<forall>x < n. fold add_back [0..<i] ns ! x = ns ! x @ filter (\<lambda>y. x \<in> set (ns ! y)) [0..<i])"
  using \<open>i \<le> n\<close>
proof (induction i)
  case 0
  then show ?case using ns(1) by simp
next
  case (Suc i)
  let ?g = "fold add_back [0..<i] ns"
  have g: "length ?g = n" "\<And>x. x < n \<Longrightarrow> ?g ! x = ns ! x @ filter (\<lambda>y. x \<in> set (ns ! y)) [0..<i]"
    using Suc by auto
  have "filter (\<lambda>y. i \<in> set (ns ! y)) [0..<i] = []"
  proof (unfold filter_empty_conv, intro ballI)
    fix y assume "y \<in> set [0..<i]"
    then show "i \<notin> set (ns ! y)" using ns(2) [of y] Suc.prems by auto
  qed
  then have i: "?g ! i = ns ! i" using g(2) [of i] Suc.prems by simp
  have "distinct (ns ! i)" "\<forall>j \<in> set (ns ! i). j < length ?g" using ns(2) [of i] g(1) Suc.prems by auto
  from foldl_add_back [OF this, of i]
  have "length (add_back i ?g) = n"
    "\<forall>x < n. add_back i ?g ! x = (if x \<in> set (ns ! i) then ?g ! x @ [i] else ?g ! x)"
    by (simp_all add: add_back_def [of i ?g] i g(1))
  moreover have "fold add_back [0..<Suc i] ns = add_back i ?g" by simp
  ultimately show ?case using g(2) by (simp only:) simp
qed

definition simple_graph :: "nat \<Rightarrow> nat list list \<Rightarrow> bool" where
  "simple_graph n g \<longleftrightarrow> length g = n \<and> (\<forall>a < n. distinct (g ! a) \<and> a \<notin> set (g ! a)
     \<and> (\<forall>b. b \<in> set (g ! a) \<longleftrightarrow> b < n \<and> a \<in> set (g ! b)))"

lemma sum_ends:
  assumes "length ns = n" and "\<And>a. a < n \<Longrightarrow> distinct (ns ! a) \<and> (\<forall>b \<in> set (ns ! a). b < n)"
  shows "(\<Sum>x < n. length (filter (\<lambda>y. x \<in> set (ns ! y)) [0..<n])) = sum_list (map length ns)"
proof -
  have "length (filter (\<lambda>y. x \<in> set (ns ! y)) [0..<n]) = (\<Sum>y < n. if x \<in> set (ns ! y) then 1 else 0)" for x
    by (induction n) simp_all
  then have "(\<Sum>x < n. length (filter (\<lambda>y. x \<in> set (ns ! y)) [0..<n])) = (\<Sum>x < n. \<Sum>y < n. if x \<in> set (ns ! y) then 1 else 0)"
    by (simp only:)
  also have "\<dots> = (\<Sum>y < n. \<Sum>x < n. if x \<in> set (ns ! y) then 1 else 0)" by (rule sum.swap)
  also have "\<dots> = (\<Sum>y < n. length (ns ! y))"
  proof (rule sum.cong [OF refl])
    fix y assume y: "y \<in> {..<n}"
    then have "{..<n} \<inter> {x. x \<in> set (ns ! y)} = set (ns ! y)" using assms(2) [of y] by auto
    then show "(\<Sum>x < n. if x \<in> set (ns ! y) then 1 else 0) = length (ns ! y)"
      using assms(2) [of y] y by (simp add: sum.If_cases distinct_card)
  qed
  also have "\<dots> = sum_list (map length ns)"
    by (simp add: sum_list_sum_nth assms(1) atLeast0LessThan)
  finally show ?thesis .
qed

text \<open>The pairs to draw from.\<close>

lemma all_pairs:
  "drawing n (concat (map (\<lambda>i. map (\<lambda>j. (i, j)) [0..<i]) [0..<n])) (replicate n [])"
  "length (concat (map (\<lambda>i. map (\<lambda>j. (i, j)) [0..<i]) [0..<n])) = n * (n - 1) div 2"
proof -
  let ?p = "\<lambda>n. concat (map (\<lambda>i. map (\<lambda>j. (i, j)) [0..<i]) [0..<n]) :: (nat \<times> nat) list"
  have s: "set (?p n) = {(i, j). j < i \<and> i < n}" for n by auto
  have d: "distinct (?p n)" for n
    by (induction n) (auto simp: distinct_map inj_on_def)
  then show "drawing n (?p n) (replicate n [])" using s [of n] by (auto simp: drawing_def)
  have "length (?p n) = \<Sum> {0..<n}" for n by (induction n) simp_all
  moreover have "2 * \<Sum> {0..<n} = n * (n - 1)" for n :: nat
    by (induction n) (auto simp: algebra_simps)
  ultimately show "length (?p n) = n * (n - 1) div 2" by (metis nonzero_mult_div_cancel_left zero_neq_numeral)
qed

text \<open>The graph that comes out.\<close>

lemma RandGraph_graph:
  assumes "m \<le> n * (n - 1) div 2" and "m \<le> length ds"
  shows "\<exists>g. RandGraph n m ds = Some (g, drop m ds) \<and> simple_graph n g \<and> sum_list (map length g) = 2 * m"
proof -
  let ?es = "concat (map (\<lambda>i. map (\<lambda>j. (i, j)) [0..<i]) [0..<n]) :: (nat \<times> nat) list"
  obtain ns es' where ns: "draw_edges m ?es (replicate n []) ds = Some (ns, drop m ds)" "drawing n es' ns"
    "sum_list (map length ns) = m"
    using draw_edges_ok [OF all_pairs(1), of m n ds] assms all_pairs(2) [of n] by (auto simp: sum_list_replicate)
  have l: "length ns = n" "\<And>a. a < n \<Longrightarrow> distinct (ns ! a) \<and> (\<forall>b \<in> set (ns ! a). b < a)"
    using ns(2) by (auto simp: drawing_def)
  let ?g = "fold add_back [0..<n] ns"
  have g: "length ?g = n" "\<And>x. x < n \<Longrightarrow> ?g ! x = ns ! x @ filter (\<lambda>y. x \<in> set (ns ! y)) [0..<n]"
    using fold_add_back [OF l, of n] by auto
  have mem: "y \<in> set (?g ! x) \<longleftrightarrow> y \<in> set (ns ! x) \<or> (y < n \<and> x \<in> set (ns ! y))" if "x < n" for x y
    using that by (auto simp: g(2))
  have dist: "distinct (?g ! x)" if "x < n" for x
    using l(2) [OF that] l(2) by (fastforce simp: g(2) [OF that])
  have "simple_graph n ?g"
    unfolding simple_graph_def
  proof (intro conjI allI impI g(1) dist)
    fix a assume a: "a < n"
    show "a \<notin> set (?g ! a)" using mem [OF a, of a] l(2) [OF a] by blast
    fix b
    have "b < n" if "b \<in> set (ns ! a)" using l(2) [OF a] that a by (meson less_trans)
    then show "b \<in> set (?g ! a) \<longleftrightarrow> b < n \<and> a \<in> set (?g ! b)" using mem [OF a, of b] mem [of b a] a by blast
  qed
  moreover have "sum_list (map length ?g) = 2 * m"
  proof -
    have "sum_list (map length ?g) = (\<Sum>x < n. length (ns ! x)) + (\<Sum>x < n. length (filter (\<lambda>y. x \<in> set (ns ! y)) [0..<n]))"
      by (simp add: sum_list_sum_nth g atLeast0LessThan sum.distrib)
    also have "(\<Sum>x < n. length (ns ! x)) = m" using ns(3) by (simp add: sum_list_sum_nth l(1) atLeast0LessThan)
    also have "(\<Sum>x < n. length (filter (\<lambda>y. x \<in> set (ns ! y)) [0..<n])) = m"
      using sum_ends [OF l(1)] l(2) ns(3) by (metis less_trans)
    finally show ?thesis by simp
  qed
  ultimately show ?thesis using assms(1) ns(1) by (simp add: RandGraph_def)
qed

text \<open>
  (C35) A random graph with a number of edges that is possible is made from as many random numbers, and is simple: no
  node is its own neighbour or has a neighbour twice, the neighbours are symmetric, and there are as many edges as
  asked for, counted at both ends.
\<close>

theorem RandGraph_simple:
  assumes "m \<le> n * (n - 1) div 2" and "m \<le> length ds"
  shows "\<exists>g. RandGraph n m ds = Some (g, drop m ds) \<and> simple_graph n g \<and> sum_list (map length g) = 2 * m"
  by (rule RandGraph_graph [OF assms])

theorem RandGraph_simple_witness:
  "\<exists>g. RandGraph 4 4 [10, 3, 7, 0, 9] = Some (g, [9]) \<and> simple_graph 4 g \<and> sum_list (map length g) = 8"
  using RandGraph_simple [of 4 4 "[10, 3, 7, 0, 9]"] by simp

section \<open>Colourings\<close>

definition color_clauses :: "nat \<Rightarrow> nat list list \<Rightarrow> lit list list" where
  "color_clauses k g =
     map (\<lambda>i. map (\<lambda>j. var_Pos (mkVar i j)) [0..<k]) [0..<length g]
     @ concat (map (\<lambda>a. concat (map (\<lambda>b. if b \<ge> a then [] else [concat (map (\<lambda>c. [var_Neg (mkVar a c), var_Neg (mkVar b c)]) [0..<k])])
         (g ! a))) [0..<length g])"

lemma RandColor_stream:
  assumes "RandGraph n m ds = Some (g, ds')"
  shows "RandColor n m k ds = Some (cnf_stream (color_clauses k g), ds')"
proof -
  have s: "cnf_stream (map f xs) = concat (map (\<lambda>x. f x @ [LitNull]) xs)" for f :: "nat \<Rightarrow> lit list" and xs
    by (induction xs) simp_all
  have i: "cnf_stream (if P then [] else [c]) = (if P then [] else c @ [LitNull])" for P c by simp
  show ?thesis
    by (simp add: RandColor_def assms color_clauses_def cnf_stream_concat comp_def s i)
qed

text \<open>Variable 1 is the first colour of every node, and is not another colour.\<close>

lemma mkVar_unat:
  assumes "n * c + c + 1 < 2 ^ 31"
  shows "unat (mkVar n c) = n * c + c + 1"
  unfolding mkVar_def by (rule of_nat_var [OF assms])

lemma mkVar_bound:
  fixes a c n k :: nat
  assumes "a < n" "c < k" "n * k < 2 ^ 31"
  shows "a * c + c + 1 < 2 ^ 31"
proof -
  have "(a + 1) * c \<le> n * c" by (rule mult_le_mono1) (use assms(1) in simp)
  moreover have "n * (c + 1) \<le> n * k" by (rule mult_le_mono2) (use assms(2) in simp)
  ultimately show ?thesis using assms(1,3) by simp
qed

definition only_first :: assignment where
  "only_first v \<longleftrightarrow> v = 1"

lemma first_color:
  assumes "a < n" "c < k" "n * k < 2 ^ 31"
  shows "lit_true only_first (var_Pos (mkVar a c)) \<longleftrightarrow> c = 0" "lit_true only_first (var_Neg (mkVar a c)) \<longleftrightarrow> c \<noteq> 0"
    and "LitNull \<noteq> var_Pos (mkVar a c)" "LitNull \<noteq> var_Neg (mkVar a c)"
proof -
  note u = mkVar_unat [OF mkVar_bound [OF assms]]
  have b: "unat (mkVar a c) < 2 ^ 31" using mkVar_bound [OF assms] u by simp
  have e: "mkVar a c = 1 \<longleftrightarrow> c = 0"
    by (auto simp: word_unat_eq_iff u)
  show "lit_true only_first (var_Pos (mkVar a c)) \<longleftrightarrow> c = 0" "lit_true only_first (var_Neg (mkVar a c)) \<longleftrightarrow> c \<noteq> 0"
    using lit_Var_Pos [OF b] lit_IsPos_Pos [OF b] lit_Var_Neg [OF b] lit_IsPos_Neg [OF b] e
    by (simp_all add: lit_true_def only_first_def)
  have "mkVar a c \<noteq> 0" using u by (metis unat_0 add_is_0 one_neq_zero)
  then show "LitNull \<noteq> var_Pos (mkVar a c)" "LitNull \<noteq> var_Neg (mkVar a c)"
    using lit_Var_Pos [OF b] lit_Var_Neg [OF b] by (metis LitNull_def lit_Var_0_iff)+
qed

lemma color_clauses_cases:
  assumes "c \<in> set (color_clauses k g)"
  obtains (node) i where "i < length g" and "c = map (\<lambda>j. var_Pos (mkVar i j)) [0..<k]"
    | (edge) a b where "a < length g" and "b < a" and "c = concat (map (\<lambda>c. [var_Neg (mkVar a c), var_Neg (mkVar b c)]) [0..<k])"
proof (cases "c \<in> set (map (\<lambda>i. map (\<lambda>j. var_Pos (mkVar i j)) [0..<k]) [0..<length g])")
  case True
  then show ?thesis by (auto intro: node)
next
  case False
  then have "\<exists>a < length g. \<exists>b. \<not> a \<le> b \<and> c = concat (map (\<lambda>c. [var_Neg (mkVar a c), var_Neg (mkVar b c)]) [0..<k])"
    using assms unfolding color_clauses_def
    by (simp split: if_splits) (simp only: Bex_def Int_iff mem_Collect_eq atLeastLessThan_iff, blast)
  then obtain a b where "a < length g" "\<not> a \<le> b" "c = concat (map (\<lambda>c. [var_Neg (mkVar a c), var_Neg (mkVar b c)]) [0..<k])"
    by blast
  then show ?thesis using edge [of a b] by simp
qed

text \<open>
  (C37) The colouring problem does not say that a graph can be coloured.  The first colour of every node is the same
  variable, and the conflicts of an edge are one clause instead of one for each colour, so for two and more colours there is
  always a model, whatever the graph.
\<close>

theorem RandColor_satisfiable:
  assumes "2 \<le> k" and "n * k < 2 ^ 31" and "m \<le> n * (n - 1) div 2" and "m \<le> length ds"
  shows "\<exists>out. RandColor n m k ds = Some (out, drop m ds) \<and> (\<exists>\<sigma>. cnf_true \<sigma> (stream_cnf out))"
proof -
  obtain g where g: "RandGraph n m ds = Some (g, drop m ds)" "length g = n"
    using RandGraph_graph [OF assms(3,4)] by (auto simp: simple_graph_def)
  note fc = first_color [OF _ _ assms(2)]
  have nn: "\<forall>c \<in> set (color_clauses k g). LitNull \<notin> set c"
  proof
    fix c assume "c \<in> set (color_clauses k g)"
    then show "LitNull \<notin> set c" by (cases rule: color_clauses_cases) (use fc(3,4) g(2) in auto)
  qed
  have "clause_true only_first c" if c: "c \<in> set (color_clauses k g)" for c
  proof -
    from c show ?thesis
    proof (cases rule: color_clauses_cases)
      case (node i)
      then have "var_Pos (mkVar i 0) \<in> set c" "lit_true only_first (var_Pos (mkVar i 0))" using assms(1) fc(1) [of i 0] g(2) by auto
      then show ?thesis by (auto simp: clause_true_def)
    next
      case (edge a b)
      then have "var_Neg (mkVar a 1) \<in> set c" "lit_true only_first (var_Neg (mkVar a 1))" using assms(1) fc(2) [of a 1] g(2) by auto
      then show ?thesis by (auto simp: clause_true_def)
    qed
  qed
  then have "cnf_true only_first (color_clauses k g)" by (simp add: cnf_true_def)
  moreover have "stream_cnf (cnf_stream (color_clauses k g)) = color_clauses k g"
    using stream_cnf_cnf_stream [OF nn] by (simp add: stream_cnf_def)
  ultimately show ?thesis using RandColor_stream [OF g(1)] by auto
qed

lemma triangle: "RandGraph 3 3 [0, 0, 0] = Some ([[1, 2], [0, 2], [1, 0]], [])"
  by code_simp

lemma no_two_colors: "\<not> (f 0 < 2 \<and> f 1 < 2 \<and> f 2 < 2 \<and> f 0 \<noteq> f 1 \<and> f 0 \<noteq> f 2 \<and> f 1 \<noteq> f 2)" for f :: "nat \<Rightarrow> nat"
  by linarith

theorem RandColor_satisfiable_witness:
  "(\<exists>out. RandColor 3 3 2 [0, 0, 0] = Some (out, []) \<and> (\<exists>\<sigma>. cnf_true \<sigma> (stream_cnf out)))
     \<and> RandGraph 3 3 [0, 0, 0] = Some ([[1, 2], [0, 2], [1, 0]], [])
     \<and> \<not> (\<exists>f :: nat \<Rightarrow> nat. f 0 < 2 \<and> f 1 < 2 \<and> f 2 < 2 \<and> f 0 \<noteq> f 1 \<and> f 0 \<noteq> f 2 \<and> f 1 \<noteq> f 2)"
  using RandColor_satisfiable [of 2 3 3 "[0, 0, 0]"] no_two_colors triangle by simp

end
