(* ===== verification/TripleProps.thy ===== *)
theory TripleProps
  imports Gen
begin

text \<open>
  The search for Pythagorean triples ends, and what it finds are Pythagorean triples; but not all of them, since the table
  of squares is one entry short when it is searched for the greatest square it was extended for.
\<close>

section \<open>The table of squares\<close>

definition sq :: "nat \<Rightarrow> nat list" where
  "sq L = map (\<lambda>i. i * i) [0..<L]"

lemma sq_simps [simp]: "length (sq L) = L" "i < L \<Longrightarrow> sq L ! i = i * i" "sq L = [] \<longleftrightarrow> L = 0" "sq L @ [L * L] = sq (Suc L)"
  by (simp_all add: sq_def)

lemma sq_0: "[] = sq 0"
  by (simp add: sq_def)

lemma square_less_iff: "i * i < j * j \<longleftrightarrow> i < j" for i j :: nat
  by (metis linorder_not_less mult_le_mono mult_strict_mono' zero_le)

lemma sq_get_sq: "sq_get i (sq L) = (i * i, sq (max L (Suc i)))"
proof -
  have "sq_get_loop i (sq L) = sq (max L (Suc i))"
  proof (induction "Suc i - L" arbitrary: L)
    case 0
    then show ?case by (simp add: sq_get_loop.simps [of i "sq L"] max_absorb1)
  next
    case (Suc d)
    then have "sq_get_loop i (sq (Suc L)) = sq (max (Suc L) (Suc i))" "L \<le> i" by auto
    then show ?case by (simp add: sq_get_loop.simps [of i "sq L"] max_def)
  qed
  then show ?thesis by (simp add: sq_get_def)
qed

lemma sq_root_loop_sq: "\<exists>L'. sq_root_loop v (sq L) = sq L' \<and> L \<le> L' \<and> v \<le> L' * L'"
proof (induction "v - L * L" arbitrary: L rule: less_induct)
  case less
  show ?case
  proof (cases "L * L < v")
    case True
    then have "\<exists>L'. sq_root_loop v (sq (Suc L)) = sq L' \<and> Suc L \<le> L' \<and> v \<le> L' * L'"
      by (intro less.hyps diff_less_mono2) (auto simp: algebra_simps)
    then show ?thesis using True by (auto simp: sq_root_loop.simps [of v "sq L"] dest: Suc_leD)
  next
    case False
    then show ?thesis by (auto simp: sq_root_loop.simps [of v "sq L"])
  qed
qed

text \<open>A root that is returned is one, and one that is in the table before the search is found.\<close>

lemma sq_root_sq:
  assumes "0 < L"
  shows "\<exists>r L'. sq_root v (sq L) = Some (r, sq L') \<and> L \<le> L' \<and> v \<le> L' * L'
     \<and> (\<forall>c. r = Some c \<longrightarrow> c * c = v) \<and> (\<forall>c < L. c * c = v \<longrightarrow> r = Some c)"
proof -
  obtain L' where L': "sq_root_loop v (sq L) = sq L'" "L \<le> L'" "v \<le> L' * L'" using sq_root_loop_sq by blast
  let ?i = "length (takeWhile (\<lambda>x. x < v) (sq L'))"
  have i: "?i = c" if "c < L'" "c * c = v" for c
  proof (rule ccontr)
    assume "?i \<noteq> c"
    then consider "?i < c" | "c < ?i" by linarith
    then show False
    proof cases
      case 1
      then have "\<not> sq L' ! ?i < v" using that(1) by (intro nth_length_takeWhile) simp
      then show False using 1 that square_less_iff [of ?i c] by simp
    next
      case 2
      then have "sq L' ! c < v" by (metis nth_mem set_takeWhileD takeWhile_nth)
      then show False using that by simp
    qed
  qed
  have un: "c = c'" if "c * c = v" "c' * c' = v" for c c' using that square_less_iff by (metis nat_neq_iff)
  show ?thesis
  proof (cases "(L' - 1) * (L' - 1) = v")
    case True
    then have "sq_root v (sq L) = Some (Some (L' - 1), sq L')" using L' assms by (simp add: sq_root_def Let_def)
    then show ?thesis using L'(2,3) True un [OF True] by blast
  next
    case False
    let ?r = "if ?i < L' \<and> sq L' ! ?i = v then Some ?i else None"
    have "sq_root v (sq L) = Some (?r, sq L')" using L' assms False by (simp add: sq_root_def Let_def)
    moreover have "c * c = v" if "?r = Some c" for c using that by (simp split: if_splits)
    moreover have "?r = Some c" if "c < L" "c * c = v" for c
    proof -
      have c: "c < L'" using that(1) L'(2) by simp
      show ?thesis unfolding i [OF c that(2)] using c that(2) by simp
    qed
    ultimately show ?thesis using L'(2,3) by blast
  qed
qed

section \<open>The search\<close>

definition pythagorean :: "triple \<Rightarrow> bool" where
  "pythagorean t \<longleftrightarrow> 0 < t_a t \<and> t_a t < t_b t \<and> t_a t * t_a t + t_b t * t_b t = t_c t * t_c t"

lemma pt_loop_step:
  assumes "length res < n" and "0 < a" and "a < b"
  shows "\<exists>L' res'. pt_loop n a b (sq L) res = (if a + 1 = b then pt_loop n 1 (b + 1) (sq L') res' else pt_loop n (a + 1) b (sq L') res')
     \<and> L \<le> L' \<and> a * a + b * b \<le> L' * L'
     \<and> (res' = res \<or> (\<exists>t. res' = res @ [t] \<and> pythagorean t))
     \<and> (\<forall>c < L. a * a + b * b = c * c \<longrightarrow> res' \<noteq> res)"
proof -
  let ?L = "max (max L (Suc a)) (Suc b)"
  obtain r L' where r: "sq_root (a * a + b * b) (sq ?L) = Some (r, sq L')" "?L \<le> L'" "a * a + b * b \<le> L' * L'"
    "\<forall>c. r = Some c \<longrightarrow> c * c = a * a + b * b" "\<forall>c < ?L. c * c = a * a + b * b \<longrightarrow> r = Some c"
  proof -
    have "0 < ?L" by simp
    from sq_root_sq [OF this, of "a * a + b * b"] show thesis using that by blast
  qed
  let ?res = "case r of None \<Rightarrow> res | Some ci \<Rightarrow> res @ [\<lparr>t_a = a, t_b = b, t_c = ci\<rparr>]"
  have "pt_loop n a b (sq L) res = (if a + 1 = b then pt_loop n 1 (b + 1) (sq L') ?res else pt_loop n (a + 1) b (sq L') ?res)"
    by (simp only: pt_loop.simps [of n a b "sq L" res] assms(1) if_True sq_get_sq prod.case r(1) Let_def bind.simps)
  moreover have "?res = res \<or> (\<exists>t. ?res = res @ [t] \<and> pythagorean t)"
    using r(4) assms(2,3) by (auto simp: pythagorean_def split: option.splits)
  moreover have "\<forall>c < L. a * a + b * b = c * c \<longrightarrow> ?res \<noteq> res"
  proof (intro allI impI)
    fix c assume "c < L" "a * a + b * b = c * c"
    then have "r = Some c" using r(5) by (simp add: less_max_iff_disj)
    then show "?res \<noteq> res" by simp
  qed
  ultimately show ?thesis using r(2,3) by (intro exI [of _ L'] exI [of _ ?res]) auto
qed

text \<open>The table has the roots of all rows before the present one.\<close>

definition table_ok :: "nat \<Rightarrow> nat \<Rightarrow> bool" where
  "table_ok b L \<longleftrightarrow> (2 < b \<longrightarrow> (b - 2) * (b - 2) + (b - 1) * (b - 1) \<le> L * L)"

definition found :: "nat \<Rightarrow> nat \<Rightarrow> nat \<Rightarrow> nat \<Rightarrow> triple list \<Rightarrow> bool" where
  "found n a b L res \<longleftrightarrow> (\<exists>ts. pt_loop n a b (sq L) res = Some ts \<and> length ts = n \<and> (\<forall>t \<in> set ts. pythagorean t))"

text \<open>The triple with the sides \<open>5 k\<close>, \<open>12 k\<close> and \<open>13 k\<close> is found when the search comes to it.\<close>

lemma good_row:
  assumes "table_ok (12 * k) L" and "0 < k"
  shows "13 * k < L"
proof (rule ccontr)
  obtain j where k: "k = Suc j" using assms(2) by (cases k) auto
  assume "\<not> 13 * k < L"
  then have "L * L \<le> (13 * k) * (13 * k)" by (intro mult_le_mono) simp_all
  moreover have "(12 * k - 2) * (12 * k - 2) + (12 * k - 1) * (12 * k - 1) \<le> L * L"
    using assms by (simp add: table_ok_def)
  ultimately have "(12 * k - 2) * (12 * k - 2) + (12 * k - 1) * (12 * k - 1) \<le> (13 * k) * (13 * k)" by linarith
  then show False by (simp add: k algebra_simps)
qed

lemma search_on:
  assumes next_one: "\<And>a b L res. 0 < a \<Longrightarrow> a < b \<Longrightarrow> table_ok b L \<Longrightarrow> n - length res < d
      \<Longrightarrow> \<forall>t \<in> set res. pythagorean t \<Longrightarrow> length res \<le> n \<Longrightarrow> found n a b L res"
    and "0 < k" and "n - length res = d"
    and "0 < a" "a < b" "table_ok b L" "\<forall>t \<in> set res. pythagorean t" "length res \<le> n"
    and "b < 12 * k \<or> b = 12 * k \<and> a \<le> 5 * k"
  shows "found n a b L res"
  using assms(3-)
proof (induction "(12 * k - b, b - a)" arbitrary: a b L rule: wf_induct_rule [OF wf_measures [of "[fst, snd]"]])
  case (1 a b)
  show ?case
  proof (cases "length res < n")
    case False
    then show ?thesis using "1.prems" by (simp add: found_def pt_loop.simps [of n a b])
  next
    case True
    from pt_loop_step [OF True "1.prems"(2,3), of L]
    obtain L' res' where s: "pt_loop n a b (sq L) res = (if a + 1 = b then pt_loop n 1 (b + 1) (sq L') res' else pt_loop n (a + 1) b (sq L') res')"
      "L \<le> L'" "a * a + b * b \<le> L' * L'" "res' = res \<or> (\<exists>t. res' = res @ [t] \<and> pythagorean t)"
      "\<forall>c < L. a * a + b * b = c * c \<longrightarrow> res' \<noteq> res" by blast
    define a' b' where n: "a' = (if a + 1 = b then 1 else a + 1)" "b' = (if a + 1 = b then b + 1 else b)"
    have eq: "found n a b L res \<longleftrightarrow> found n a' b' L' res'" using s(1) by (simp add: found_def n)
    have ab: "0 < a'" "a' < b'" using "1.prems"(2,3) by (auto simp: n)
    have "L * L \<le> L' * L'" using s(2) by (intro mult_le_mono)
    then have t: "table_ok b' L'" using "1.prems"(4) s(3) by (auto simp: table_ok_def n algebra_simps)
    show ?thesis
    proof (cases "res' = res")
      case False
      then obtain t where "res' = res @ [t]" "pythagorean t" using s(4) by blast
      then show ?thesis unfolding eq using "1.prems" True by (intro next_one [OF ab t]) auto
    next
      case same: True
      have "\<not> (b = 12 * k \<and> a = 5 * k)"
      proof
        assume e: "b = 12 * k \<and> a = 5 * k"
        then have "13 * k < L" using good_row [of k L] "1.prems"(4) \<open>0 < k\<close> by simp
        moreover have "a * a + b * b = (13 * k) * (13 * k)" using e by (simp add: algebra_simps)
        ultimately show False using s(5) same by blast
      qed
      then have le: "b' < 12 * k \<or> b' = 12 * k \<and> a' \<le> 5 * k" using "1.prems"(7) \<open>0 < k\<close> by (auto simp: n)
      have "((12 * k - b', b' - a'), (12 * k - b, b - a)) \<in> measures [fst, snd]"
        using le "1.prems"(3,7) by (auto simp: n)
      from "1.hyps" [OF this] show ?thesis unfolding eq using "1.prems" ab t le same by blast
    qed
  qed
qed

lemma search_all:
  assumes "0 < a" "a < b" "table_ok b L" "\<forall>t \<in> set res. pythagorean t" "length res \<le> n"
  shows "found n a b L res"
  using assms
proof (induction "n - length res" arbitrary: a b L res rule: less_induct)
  case less
  show ?case
    by (rule search_on [where k = b and d = "n - length res"]) (use less in auto)
qed

text \<open>The numbering of the numbers that occur.\<close>

lemma numbering:
  assumes "sorted xs" and "distinct xs"
  shows "dom (map_of (zip xs [0..<length xs])) = set xs"
    and "x \<in> set xs \<Longrightarrow> the (map_of (zip xs [0..<length xs]) x) = card {y \<in> set xs. y < x}"
proof -
  show "dom (map_of (zip xs [0..<length xs])) = set xs" by (simp add: dom_map_of_zip)
  assume "x \<in> set xs"
  then obtain i where i: "i < length xs" "xs ! i = x" by (metis in_set_conv_nth)
  then have "map_of (zip xs [0..<length xs]) x = Some i"
    using map_of_zip_nth [of xs "[0..<length xs]" i] assms(2) by simp
  moreover have "{y \<in> set xs. y < x} = set (take i xs)"
  proof -
    have "sorted_wrt (<) xs" using assms by (simp add: strict_sorted_iff)
    then have "xs ! j < xs ! i \<longleftrightarrow> j < i" if "j < length xs" for j
      using that i(1) by (metis linorder_neqE_nat order_less_asym order_less_irrefl sorted_wrt_nth_less)
    then have "{y \<in> set xs. y < x} = nth xs ` {0..<i}" using i by (auto simp: in_set_conv_nth image_iff) (metis less_trans)
    then show ?thesis using i(1) by (simp add: nth_image)
  qed
  ultimately show "the (map_of (zip xs [0..<length xs]) x) = card {y \<in> set xs. y < x}"
    using assms(2) i by (simp add: distinct_card)
qed

lemma first_triple: "map_option snd (pytriples 1) = Some [\<lparr>t_a = 5, t_b = 12, t_c = 13\<rparr>]"
  by code_simp

text \<open>
  (C36) The search for Pythagorean triples ends with as many as were asked for, all of them right, and each number in them gets
  as its index how many smaller ones there are.  But it is not the search for the first triples: the first it finds is
  (5, 12, 13), after passing over (3, 4, 5) and others.
\<close>

theorem pytriples_found:
  "(\<exists>num ts. pytriples n = Some (num, ts) \<and> length ts = n \<and> (\<forall>t \<in> set ts. pythagorean t)
      \<and> dom num = (\<Union>t \<in> set ts. {t_a t, t_b t, t_c t}) \<and> (\<forall>x \<in> dom num. the (num x) = card {y \<in> dom num. y < x}))
   \<and> map_option snd (pytriples 1) = Some [\<lparr>t_a = 5, t_b = 12, t_c = 13\<rparr>]"
proof -
  obtain ts where ts: "pt_loop n 1 2 [] [] = Some ts" "length ts = n" "\<forall>t \<in> set ts. pythagorean t"
    using search_all [of 1 2 0 "[]" n] by (auto simp: found_def table_ok_def sq_0)
  let ?ins = "sort (remdups (concat (map (\<lambda>t. [t_a t, t_b t, t_c t]) ts)))"
  have "set ?ins = (\<Union>t \<in> set ts. {t_a t, t_b t, t_c t})" by auto
  then show ?thesis using ts numbering [of ?ins] first_triple by (simp add: pytriples_def Let_def)
qed

theorem pytriples_found_witness:
  "\<exists>num ts. pytriples 2 = Some (num, ts) \<and> length ts = 2 \<and> pythagorean (ts ! 0) \<and> pythagorean (ts ! 1)"
proof -
  obtain num ts where "pytriples 2 = Some (num, ts)" "length ts = 2" "\<forall>t \<in> set ts. pythagorean t"
    using pytriples_found [of 2, THEN conjunct1] by (elim exE conjE) (rule that)
  then show ?thesis by auto
qed

end
