(* ===== verification/Spec2Isabelle.thy ===== *)
theory Spec2Isabelle
  imports DynVars CircuitEval CircuitCnf CardSort Roll GuessProps FileProps Facade Control
    CrispClient GenProps TripleProps
begin

text \<open>
  Gini, an incremental SAT solver with its circuit library.

  \<^bold>\<open>The program.\<close>  Package \<^verbatim>\<open>z\<close> has literals and variables (32-bit integers, the low bit is the
  sign).  Package \<^verbatim>\<open>logic\<close> builds circuits (and-inverter graphs), cardinality constraints, latches
  and unrollings, and translates circuits to clauses for any receiver of literals.  Package
  \<^verbatim>\<open>internal/xo\<close> is the solver: a clause store, a database of clauses over it with watch lists, the
  trail of assignments with unit propagation, conflict analysis, a decision heuristic, a restart
  sequence, a clause garbage collector, and the struct \<^verbatim>\<open>S\<close> whose methods compose them.  Package
  \<^verbatim>\<open>dimacs\<close> reads problems and answers, \<^verbatim>\<open>cmd/gini\<close> reads a problem, solves it and prints the
  answer, and package \<^verbatim>\<open>gini\<close> is the public face of the solver.  Package \<^verbatim>\<open>crisp\<close> lets a client use
  a solver in another process by a protocol of variable-length integers, and package \<^verbatim>\<open>gen\<close> makes problems
  for tests.

  \<^bold>\<open>The theories.\<close>

  \<^item> \<open>Prelude\<close>: the integer types, slice accesses that panic out of range (\<open>None\<close>), the predicate
    \<open>returns\<close> (the operation does not panic and its result satisfies the predicate) with the
    collection \<open>returns_rules\<close> by which composed operations are verified, and facts about lists.
  \<^item> \<^verbatim>\<open>z/\<close>: \<open>Literals\<close> (\<^verbatim>\<open>lit.go\<close>, \<^verbatim>\<open>var.go\<close>), \<open>DynVars\<close> (\<^verbatim>\<open>dv.go\<close>).
  \<^item> \<^verbatim>\<open>logic/\<close>: \<open>Circuit\<close>, \<open>CircuitOps\<close>, \<open>CircuitEval\<close> and \<open>CircuitCnf\<close> (\<^verbatim>\<open>c.go\<close>: nodes and structural
    hashing, derived gates, evaluation, clausal form), \<open>SortNet\<close> and \<open>CardSort\<close> (\<^verbatim>\<open>card.go\<close>),
    \<open>Sequential\<close> (\<^verbatim>\<open>s.go\<close>), \<open>Roll\<close> (\<^verbatim>\<open>roll.go\<close>).
  \<^item> \<^verbatim>\<open>internal/xo/\<close>, the operations: \<open>Watches\<close> (\<^verbatim>\<open>watch.go\<close>, \<^verbatim>\<open>cloc.go\<close>), \<open>ClauseHeader\<close> (\<^verbatim>\<open>chd.go\<close>),
    \<open>ClauseData\<close> (\<^verbatim>\<open>cdat.go\<close>), \<open>SolverVars\<close> (\<^verbatim>\<open>vars.go\<close>), \<open>Luby\<close> (\<^verbatim>\<open>luby.go\<close>), \<open>Guess\<close> (\<^verbatim>\<open>guess.go\<close>),
    \<open>Cgc\<close> and \<open>Collect\<close> (\<^verbatim>\<open>cgc.go\<close>), \<open>ActiveSet\<close> (\<^verbatim>\<open>active.go\<close>), \<open>Cdb\<close> (\<^verbatim>\<open>cdb.go\<close>), \<open>Trail\<close>
    (\<^verbatim>\<open>trail.go\<close>), \<open>Derive\<close> (\<^verbatim>\<open>derive.go\<close>), \<open>Solver\<close> (\<^verbatim>\<open>s.go\<close>, \<^verbatim>\<open>phases.go\<close>).
  \<^item> \<^verbatim>\<open>internal/xo/\<close>, the invariants and their preservation: \<open>ClauseLits\<close> and \<open>Database\<close> (the store
    represents a list of disjoint clauses and keeps it under propagation and learning), \<open>TrailInv\<close>,
    \<open>Start\<close> and \<open>Propagation\<close> (trail, reasons and watches agree; propagation ends in a conflict or
    in a state without a false clause), \<open>Analysis\<close> and \<open>Minimise\<close> (the learnt clause follows from the
    clauses), \<open>GuessProps\<close> (the decision heuristic over ideal numbers), \<open>SearchProps\<close> (the properties
    of these operations), \<open>Search\<close>, \<open>SearchTurns\<close>,
    \<open>SolveProps\<close>, \<open>SolveCall\<close>, \<open>SolveNew\<close>, \<open>Adding\<close> and \<open>Solving\<close> (the invariant of the solver
    through the turns of the search, a call of Solve, the adding of clauses, and the theorems about
    whole calls).
  \<^item> \<^verbatim>\<open>dimacs/\<close>: \<open>Dimacs\<close> (the readers), \<open>DimacsProps\<close> (what they do with text in the format).
  \<^item> \<^verbatim>\<open>cmd/gini\<close> and the writers: \<open>ModelOut\<close> (\<^verbatim>\<open>main.go\<close>: what is printed), \<open>Files\<close> (the solver from
    a file and the run of the command, writing the database), \<open>FileProps\<close> (their theorems).
  \<^item> \<^verbatim>\<open>gini.go\<close>, \<^verbatim>\<open>s.go\<close>, \<^verbatim>\<open>sv.go\<close>: \<open>Facade\<close>.
  \<^item> \<^verbatim>\<open>internal/xo/ctl.go\<close>: \<open>Control\<close>, a step relation for the goroutine of Solve and a client that stops,
    pauses, tests and waits for it.
  \<^item> \<^verbatim>\<open>crisp/\<close>: \<open>VarUint\<close> (\<^verbatim>\<open>vu32io.go\<close>, \<^verbatim>\<open>proto.go\<close>, \<^verbatim>\<open>err.go\<close>) and \<open>VarUintProps\<close>, \<open>Crisp\<close> (\<^verbatim>\<open>handler.go\<close>,
    \<^verbatim>\<open>client.go\<close>, \<^verbatim>\<open>addr.go\<close>, \<^verbatim>\<open>exts.go\<close>, \<^verbatim>\<open>version.go\<close>), \<open>CrispModel\<close> (packing of models), \<open>CrispServer\<close>
    (what the handler answers), \<open>CrispClient\<close> (what the client gets: solving over a connection is solving locally).
  \<^item> \<^verbatim>\<open>gen/\<close>: \<open>Gen\<close> (\<^verbatim>\<open>gen.go\<close>, \<^verbatim>\<open>pt.go\<close>, \<^verbatim>\<open>color.go\<close>, \<^verbatim>\<open>cubes.go\<close>), \<open>GenProps\<close> and \<open>TripleProps\<close> (what the
    generated problems say).

  \<^bold>\<open>State.\<close>  Every struct is a record with the source's fields, every method a function from the
  receiver's record to the new record, with \<open>None\<close> for a run-time panic.  A pointer of one struct to
  another is a field that holds it (the solver owns all its parts), except where the code shares
  data on purpose, which the model then names: a clause in the store is known by its location, a
  circuit node by its index.  Errors of the readers are values of a datatype.

  \<^bold>\<open>What the theorems show.\<close>  A command line run on a problem with comments prints, character for
  character, the line SATISFIABLE and the values of a model of the problem, the line UNSATISFIABLE
  only if there is none, or the line UNKNOWN; the same for calls of the solver with assumptions, with
  clauses added between calls.  Before a call searches it resolves the conflict the last call left;
  that this ends without a conflict is shown if there is none or the formula is satisfiable, and
  the lemma \<open>Solve_again_after_refutation\<close> is a second call, after the first one refuted the formula, without a result.  Propagation, analysis and
  backtracking keep the invariant they share, and the decision heuristic picks the hottest unassigned
  variable.  Circuits evaluate to what their gates mean and are shared by structural hashing, their
  clauses have exactly the circuit's behaviours as models, unrolling agrees with stepping, and
  cardinality literals count.  Encodings (watches, clause headers, decimal integers, DIMACS text,
  variable maps, variable-length integers) are inverted by their decoders.  Stopping a running solve, or
  trying it for a time, returns within five steps with its value, also when the search would never
  end; and a paused solver does not run.  A client over a connection gets what the same calls of a
  local solver give.  The pigeon hole and partition problems have the models they should.  Where the
  code does not do what its documentation says, a theorem says what it does instead.

  \<^bold>\<open>Bounds.\<close>  Literals are 32 bits, so the theorems ask for fewer than \<open>2^29\<close> variables; watches give
  31 bits to a clause location, so for a store below \<open>2^31\<close> words.  Search loops take the number of
  turns as fuel (the lemma \<open>solve_loop_turns\<close> relates it to the loop without fuel), and theorems about answers hold for every number of turns below the first tick of the
  garbage collector (2048 conflicts).  Loops with a decreasing measure (propagation, analysis,
  minimisation, heap operations, parsing) are total, without fuel or with fuel shown to be enough.

  \<^bold>\<open>Parameters.\<close>  The floating-point numbers of the decision heuristic are any type with the record of
  operations it uses.  Only the order of the heap depends on them: its hypothesis \<open>heats_ok\<close> is what IEEE
  arithmetic gives (an order that is total on numbers, NaN kept by addition and multiplication,
  the rescaling constant monotone) while no heat is NaN.  What the deadline and the control channel of Solve
  answer is a function of the turn.  Readers and writers are lists of the chunks and errors they
  deliver.  A connection is the list of what its reads will deliver and of how many bytes its writes will take.  The solver
  behind a CRISP handler is that of \<open>Facade\<close>; the solve in the background is its result and the number of tests
  that come too early.  Only Solve takes the lock of the solver, so a request that adds, assumes or asks
  for values while a solve runs races with it in the code; the model has no answer for such a
  request (\<open>unraced\<close>), and the theorems are about sessions without one.  Random numbers are the list of those that will be drawn.

  \<^bold>\<open>Not modelled.\<close>  String methods and statistics (formatting and counters nothing reads),
  the channels of learnt clauses that nothing sends on, sockets and the acceptance of connections, the pool of
  package \<^verbatim>\<open>ax\<close> (scheduling), the benchmark runner \<^verbatim>\<open>bench\<close> (processes and files), the stand-in for a solver
  that answers at random, the aiger formats, command line flags and signals.
\<close>

end
